(* ===== verification/Prelude.thy ===== *)
theory Prelude
  imports Main "HOL-Library.Word" "HOL-Library.Signed_Division"
begin

text \<open>
  Shared ground of the development: machine integers as bounded mathematical integers, the
  C++ arithmetic operators on them, and the generic lemmas on lists that several components use.

  An \<open>int64_t\<close> is an \<open>int\<close> inside \<open>kint64min .. kint64max\<close>; an operation of the source that
  can leave that range is written with the two's complement wrap-around \<open>wrap64\<close>, so every
  theorem that speaks of the exact result also shows that no wrap happens.  An \<open>int\<close> (32 bits)
  is treated the same way with \<open>wrap32\<close>.
\<close>

named_theorems int64_intros \<open>results that stay in the range of int64\<close>

section \<open>Machine integers\<close>

type_synonym int64 = int
type_synonym int32 = int

abbreviation kint64max :: int where "kint64max \<equiv> 9223372036854775807"
abbreviation kint64min :: int where "kint64min \<equiv> - 9223372036854775808"
abbreviation kint32max :: int where "kint32max \<equiv> 2147483647"
abbreviation kint32min :: int where "kint32min \<equiv> - 2147483648"

definition in_int64 :: "int \<Rightarrow> bool" where
  "in_int64 x \<longleftrightarrow> kint64min \<le> x \<and> x \<le> kint64max"

definition in_int32 :: "int \<Rightarrow> bool" where
  "in_int32 x \<longleftrightarrow> kint32min \<le> x \<and> x \<le> kint32max"

definition wrap64 :: "int \<Rightarrow> int64" where
  "wrap64 x = (x + 2 ^ 63) mod 2 ^ 64 - 2 ^ 63"

definition wrap32 :: "int \<Rightarrow> int32" where
  "wrap32 x = (x + 2 ^ 31) mod 2 ^ 32 - 2 ^ 31"

text \<open>The value nearest to \<open>x\<close> in the range of int64.\<close>

definition clamp64 :: "int \<Rightarrow> int64" where
  "clamp64 x = max kint64min (min kint64max x)"

lemma wrap64_id [simp]: "in_int64 x \<Longrightarrow> wrap64 x = x"
  by (simp add: wrap64_def in_int64_def)

lemma in_int64_wrap64 [int64_intros]: "in_int64 (wrap64 x)"
proof -
  have "0 \<le> (x + 2 ^ 63) mod 2 ^ 64 \<and> (x + 2 ^ 63) mod 2 ^ 64 < (2 ^ 64 :: int)" by simp
  then show ?thesis unfolding wrap64_def in_int64_def by simp
qed

lemma wrap64_signed_take_bit: "wrap64 x = signed_take_bit 63 x"
  by (simp add: wrap64_def signed_take_bit_eq_take_bit_shift take_bit_eq_mod)

lemma wrap64_wrap64_add: "wrap64 (wrap64 x + y) = wrap64 (x + y)"
  unfolding wrap64_def by (simp add: algebra_simps mod_simps)

lemma wrap64_add_wrap64: "wrap64 (x + wrap64 y) = wrap64 (x + y)"
  using wrap64_wrap64_add[of y x] by (simp add: add.commute)

lemma wrap64_mult_wrap64: "wrap64 (x * wrap64 y) = wrap64 (x * y)"
proof -
  have "(x * wrap64 y) mod 2 ^ 64 = (x * y) mod 2 ^ 64"
  proof -
    have "wrap64 y mod 2 ^ 64 = y mod 2 ^ 64"
      unfolding wrap64_def by (simp add: mod_diff_left_eq)
    then show ?thesis by (metis mod_mult_right_eq)
  qed
  then show ?thesis unfolding wrap64_def by (metis mod_add_left_eq)
qed

lemma wrap32_id [simp]: "in_int32 x \<Longrightarrow> wrap32 x = x"
  by (simp add: wrap32_def in_int32_def)

lemma clamp64_id [simp]: "in_int64 x \<Longrightarrow> clamp64 x = x"
  by (simp add: clamp64_def in_int64_def)

lemma in_int64_clamp64 [int64_intros]: "in_int64 (clamp64 x)"
  by (simp add: clamp64_def in_int64_def)

lemma clamp64_mono: "x \<le> y \<Longrightarrow> clamp64 x \<le> clamp64 y"
  by (simp add: clamp64_def)

lemma clamp64_eq_iff:
  "clamp64 x = y \<longleftrightarrow> (if x < kint64min then y = kint64min else if kint64max < x then y = kint64max else y = x)"
  by (auto simp: clamp64_def)

lemma in_int64_between:
  "in_int64 a \<Longrightarrow> in_int64 b \<Longrightarrow> a \<le> x \<Longrightarrow> x \<le> b \<Longrightarrow> in_int64 x"
  by (simp add: in_int64_def)

lemma in_int64_max [int64_intros]: "in_int64 a \<Longrightarrow> in_int64 b \<Longrightarrow> in_int64 (max a b)"
  by (simp add: in_int64_def max_def)

lemma in_int64_min [int64_intros]: "in_int64 a \<Longrightarrow> in_int64 b \<Longrightarrow> in_int64 (min a b)"
  by (simp add: in_int64_def min_def)

lemma in_int64_consts [simp, int64_intros]:
  "in_int64 0" "in_int64 1" "in_int64 (- 1)" "in_int64 kint64min" "in_int64 kint64max"
  by (simp_all add: in_int64_def)

section \<open>The operators of C++\<close>

text \<open>
  \<open>std::abs\<close> on int64: the one value with no positive counterpart wraps to itself.  Division and
  remainder truncate towards zero (\<open>sdiv\<close> and \<open>smod\<close> of the library).
\<close>

definition std_abs :: "int64 \<Rightarrow> int64" where
  "std_abs x = (if x < 0 then wrap64 (- x) else x)"

lemma std_abs_eq [simp]: "in_int64 x \<Longrightarrow> x \<noteq> kint64min \<Longrightarrow> std_abs x = \<bar>x\<bar>"
  unfolding std_abs_def by (auto simp: in_int64_def)

lemma le_div_iff_mult_le:
  fixes a c v :: int
  assumes "0 < c"
  shows "v \<le> a div c \<longleftrightarrow> v * c \<le> a"
proof
  assume "v \<le> a div c"
  then have "v * c \<le> (a div c) * c" using assms by (intro mult_right_mono) auto
  also have "\<dots> \<le> a" using assms by (simp add: minus_mod_eq_div_mult [symmetric])
  finally show "v * c \<le> a" .
next
  assume "v * c \<le> a"
  from zdiv_mono1[OF this assms] show "v \<le> a div c" using assms by simp
qed

lemma sdiv_pos: "0 < b \<Longrightarrow> a sdiv b = (if 0 \<le> a then a div b else - ((- a) div b))" for a b :: int
  by (auto simp: signed_divide_int_def sgn_if)

lemma sdiv_mono: "0 < c \<Longrightarrow> a \<le> b \<Longrightarrow> a sdiv c \<le> b sdiv c" for a b c :: int
  by (auto simp: sdiv_pos zdiv_mono1 pos_imp_zdiv_nonneg_iff
      intro: order_trans[of _ 0] simp del: div_minus1_right)

lemma sdiv_bounds: "0 < c \<Longrightarrow> min a 0 \<le> a sdiv c \<and> a sdiv c \<le> max a 0" for a c :: int
proof -
  assume c: "0 < c"
  have le: "x div c \<le> x" if "0 \<le> x" for x :: int
    using that c zdiv_mono2[of x 1 c] by simp
  show ?thesis
    using le[of a] le[of "- a"] c by (auto simp: sdiv_pos pos_imp_zdiv_nonneg_iff)
qed

lemma in_int64_sdiv [int64_intros]: "in_int64 a \<Longrightarrow> 0 < c \<Longrightarrow> in_int64 (a sdiv c)"
  using sdiv_bounds[of c a] by (auto simp: in_int64_def min_def max_def split: if_splits)

section \<open>Lists\<close>

lemma sorted_wrt_map_iff: "sorted_wrt R (map f xs) = sorted_wrt (\<lambda>x y. R (f x) (f y)) xs"
  by (induction xs) auto

text \<open>The interface every binary search of the code relies on: a predicate that holds for a
  prefix of the sequence only.\<close>

lemma takeWhile_last:
  assumes "takeWhile P xs \<noteq> []"
  shows "last (takeWhile P xs) \<in> set xs \<and> P (last (takeWhile P xs))"
  using set_takeWhileD[OF last_in_set[OF assms]] .

lemma foldl_invariant:
  assumes "I s" and "\<And>s x. x \<in> set xs \<Longrightarrow> I s \<Longrightarrow> I (f s x)"
  shows "I (foldl f s xs)"
  using assms by (induction xs arbitrary: s) auto

end
