(* ===== verification/Saturated.thy ===== *)
theory Saturated
  imports Prelude
begin

unbundle bit_operations_syntax

text \<open>
  Saturated 64-bit arithmetic: \<open>or-tools/ortools/util/saturated_arithmetic.h\<close>.

  The header has three versions of each operation: inline assembly (add/sub/imul and a
  conditional move on the overflow flag), compiler built-ins (the exact result and an overflow
  bit), and a generic C++ version that finds the overflow with bit operations.  The first two
  compute "the exact result if it fits, else the cap"; they are the definitions on \<open>int\<close> used by
  the rest of the development.  The generic versions are modelled on \<open>64 word\<close>, bit operations
  included, and proved to compute the same function (\<open>CapAddGeneric_eq\<close>, \<open>CapSubGeneric_eq\<close>,
  \<open>CapProdGeneric_eq\<close>).
\<close>

section \<open>The built-in and assembly versions\<close>

definition AtMinOrMaxInt64 :: "int64 \<Rightarrow> bool" where
  "AtMinOrMaxInt64 x \<longleftrightarrow> x = kint64min \<or> x = kint64max"

definition CapOpp :: "int64 \<Rightarrow> int64" where
  "CapOpp v = (if v = kint64min then kint64max else - v)"

definition CapAbs :: "int64 \<Rightarrow> int64" where
  "CapAbs v = (if v = kint64min then kint64max else if v < 0 then - v else v)"

definition TwosComplementAddition :: "int64 \<Rightarrow> int64 \<Rightarrow> int64" where
  "TwosComplementAddition x y = wrap64 (x + y)"

definition TwosComplementSubtraction :: "int64 \<Rightarrow> int64 \<Rightarrow> int64" where
  "TwosComplementSubtraction x y = wrap64 (x - y)"

definition CapWithSignOf :: "int64 \<Rightarrow> int64" where
  "CapWithSignOf x = TwosComplementAddition kint64max (if x < 0 then 1 else 0)"

text \<open>\<open>__builtin_add_overflow\<close> and the overflow flag of the processor: the exact result does not
  fit.\<close>

definition AddOverflows :: "int64 \<Rightarrow> int64 \<Rightarrow> bool" where
  "AddOverflows x y \<longleftrightarrow> \<not> in_int64 (x + y)"

definition SubOverflows :: "int64 \<Rightarrow> int64 \<Rightarrow> bool" where
  "SubOverflows x y \<longleftrightarrow> \<not> in_int64 (x - y)"

definition CapAdd :: "int64 \<Rightarrow> int64 \<Rightarrow> int64" where
  "CapAdd x y = (let cap = CapWithSignOf x in if AddOverflows x y then cap else x + y)"

definition CapSub :: "int64 \<Rightarrow> int64 \<Rightarrow> int64" where
  "CapSub x y = (let cap = CapWithSignOf x in if SubOverflows x y then cap else x - y)"

text \<open>\<open>CapWithSignOf (x ^ y)\<close>: the sign bit of the exclusive or is set when the signs differ.\<close>

definition CapProd :: "int64 \<Rightarrow> int64 \<Rightarrow> int64" where
  "CapProd x y =
     (let cap = CapWithSignOf (x XOR y)
      in if \<not> in_int64 (x * y) then cap else x * y)"

text \<open>\<open>SafeAddInto\<close> and \<open>AddIntoOverflow\<close> update \<open>*y\<close> only when nothing overflows; the pair is the
  returned flag and the new value of \<open>*y\<close>.\<close>

definition SafeAddInto :: "int64 \<Rightarrow> int64 \<Rightarrow> bool \<times> int64" where
  "SafeAddInto x y = (if AddOverflows x y then (False, y) else (True, TwosComplementAddition x y))"

definition AddIntoOverflow :: "int64 \<Rightarrow> int64 \<Rightarrow> bool \<times> int64" where
  "AddIntoOverflow x y = (if AddOverflows x y then (True, y) else (False, TwosComplementAddition x y))"

definition CapAddTo :: "int64 \<Rightarrow> int64 \<Rightarrow> int64" where
  "CapAddTo x y = CapAdd y x"

definition CapSubFrom :: "int64 \<Rightarrow> int64 \<Rightarrow> int64" where
  "CapSubFrom amount target = CapSub target amount"

text \<open>The \<open>int32_t\<close> case of the template.\<close>

definition CapOrFloatAdd32 :: "int32 \<Rightarrow> int32 \<Rightarrow> int32" where
  "CapOrFloatAdd32 x y =
     (let sum = x + y
      in if sum > kint32max then kint32max else if sum < kint32min then kint32min else sum)"

section \<open>What they compute\<close>

lemma CapWithSignOf_eq [simp]: "CapWithSignOf x = (if x < 0 then kint64min else kint64max)"
  by (simp add: CapWithSignOf_def TwosComplementAddition_def wrap64_def)

lemma xor_neg_iff: "(x XOR y < 0) \<longleftrightarrow> ((x < 0) \<noteq> (y < 0))" for x y :: int
  by (simp add: xor_negative_int_iff)

lemma CapAdd_clamp: "in_int64 x \<Longrightarrow> in_int64 y \<Longrightarrow> CapAdd x y = clamp64 (x + y)"
  by (auto simp: CapAdd_def AddOverflows_def in_int64_def clamp64_def)

lemma CapSub_clamp: "in_int64 x \<Longrightarrow> in_int64 y \<Longrightarrow> CapSub x y = clamp64 (x - y)"
  by (auto simp: CapSub_def SubOverflows_def in_int64_def clamp64_def)

lemma CapProd_clamp: "CapProd x y = clamp64 (x * y)"
proof -
  show ?thesis
  proof (cases "(x < 0) = (y < 0)")
    case True
    then have "0 \<le> x * y" by (auto simp: zero_le_mult_iff)
    with True show ?thesis by (auto simp: CapProd_def in_int64_def clamp64_def xor_neg_iff)
  next
    case False
    then have "x * y \<le> 0" by (auto simp: mult_le_0_iff)
    with False show ?thesis by (auto simp: CapProd_def in_int64_def clamp64_def xor_neg_iff)
  qed
qed

lemma in_int64_cap [int64_intros]:
  "in_int64 (CapAdd x y)" "in_int64 (CapSub x y)" "in_int64 (CapProd x y)"
  by (auto simp: CapAdd_def CapSub_def CapProd_def AddOverflows_def SubOverflows_def)

lemma CapAdd_exact: "in_int64 (x + y) \<Longrightarrow> CapAdd x y = x + y"
  by (simp add: CapAdd_def AddOverflows_def)

lemma CapSub_exact: "in_int64 (x - y) \<Longrightarrow> CapSub x y = x - y"
  by (simp add: CapSub_def SubOverflows_def)

lemma CapProd_exact: "in_int64 (x * y) \<Longrightarrow> CapProd x y = x * y"
  by (simp add: CapProd_clamp)

lemma CapAbs_eq: "in_int64 x \<Longrightarrow> CapAbs x = min kint64max \<bar>x\<bar>"
  by (auto simp: CapAbs_def in_int64_def)

lemma CapOpp_clamp: "in_int64 x \<Longrightarrow> CapOpp x = clamp64 (- x)"
  by (auto simp: CapOpp_def in_int64_def clamp64_def)

lemma CapProd_mono:
  assumes "0 \<le> c" "a \<le> b"
  shows "CapProd a c \<le> CapProd b c"
  unfolding CapProd_clamp by (intro clamp64_mono mult_right_mono assms)

text \<open>A saturated sum that has not reached a bound is the exact sum.\<close>

lemma CapAdd_not_capped:
  assumes "in_int64 x" "in_int64 y" "\<not> AtMinOrMaxInt64 (CapAdd x y)"
  shows "CapAdd x y = x + y"
  using assms by (auto simp: CapAdd_clamp clamp64_def AtMinOrMaxInt64_def)

lemma CapProd_not_capped:
  assumes "\<not> AtMinOrMaxInt64 (CapProd x y)"
  shows "CapProd x y = x * y"
  using assms by (auto simp: CapProd_clamp clamp64_def AtMinOrMaxInt64_def)

section \<open>The generic versions, on words\<close>

type_synonym i64 = "64 word"

definition AddHadOverflow :: "i64 \<Rightarrow> i64 \<Rightarrow> i64 \<Rightarrow> bool" where
  "AddHadOverflow x y s \<longleftrightarrow> sint ((x XOR s) AND (y XOR s)) < 0"

definition SubHadOverflow :: "i64 \<Rightarrow> i64 \<Rightarrow> i64 \<Rightarrow> bool" where
  "SubHadOverflow x y diff \<longleftrightarrow> AddHadOverflow diff y x"

definition CapWithSignOfW :: "i64 \<Rightarrow> i64" where
  "CapWithSignOfW x = 0x7FFFFFFFFFFFFFFF + (if sint x < 0 then 1 else 0)"

definition CapAddGeneric :: "i64 \<Rightarrow> i64 \<Rightarrow> i64" where
  "CapAddGeneric x y =
     (let result = x + y in if AddHadOverflow x y result then CapWithSignOfW x else result)"

definition CapSubGeneric :: "i64 \<Rightarrow> i64 \<Rightarrow> i64" where
  "CapSubGeneric x y =
     (let result = x - y in if SubHadOverflow x y result then CapWithSignOfW x else result)"

definition uint_abs :: "i64 \<Rightarrow> i64" where
  "uint_abs n = (if sint n < 0 then NOT n + 1 else n)"

text \<open>\<open>MostSignificantBitPosition64Default\<close> (\<open>util/bitset.h\<close>): six tests of a high mask.  The last
  one only sets the bit of \<open>b\<close>.\<close>

definition msb_stage :: "nat \<Rightarrow> nat \<times> i64 \<Rightarrow> nat \<times> i64" where
  "msb_stage k = (\<lambda>(b, n).
     if n AND push_bit (2 ^ k) (- 1) \<noteq> 0 then (b OR 2 ^ k, drop_bit (2 ^ k) n) else (b, n))"

definition MostSignificantBitPosition64 :: "i64 \<Rightarrow> nat" where
  "MostSignificantBitPosition64 n =
     fst (msb_stage 0 (msb_stage 1 (msb_stage 2 (msb_stage 3 (msb_stage 4 (msb_stage 5 (0, n)))))))"

definition CapProdGeneric :: "i64 \<Rightarrow> i64 \<Rightarrow> i64" where
  "CapProdGeneric x y =
     (let a = uint_abs x;
          b = uint_abs y;
          msb_sum = MostSignificantBitPosition64 a + MostSignificantBitPosition64 b;
          kMaxBitIndexInInt64 = 63
      in if msb_sum \<le> kMaxBitIndexInInt64 - 2 then x * y
         else if a = 0 \<or> b = 0 then 0
         else let cap = CapWithSignOfW (x XOR y)
              in if kMaxBitIndexInInt64 \<le> msb_sum then cap
                 else let u_prod = a * b
                      in if cap \<le> u_prod then cap
                         else if sint cap < 0 then - u_prod else u_prod)"

section \<open>The generic versions compute the same function\<close>

lemma in_int64_sint [simp, int64_intros]: "in_int64 (sint (x :: i64))"
  using sint_ge[of x] sint_lt[of x] by (simp add: in_int64_def)

lemma sint_add_wrap: "sint (x + y :: i64) = wrap64 (sint x + sint y)"
  by (simp add: sint_word_ariths wrap64_signed_take_bit)

lemma sint_sub_wrap: "sint (x - y :: i64) = wrap64 (sint x - sint y)"
  by (simp add: sint_word_ariths wrap64_signed_take_bit)

lemma sint_mult_wrap: "sint (x * y :: i64) = wrap64 (sint x * sint y)"
  by (simp add: sint_word_ariths wrap64_signed_take_bit)

lemma sint_xor_neg: "sint (x XOR y :: i64) < 0 \<longleftrightarrow> ((sint x < 0) \<noteq> (sint y < 0))"
  by (simp add: signed_xor_eq xor_negative_int_iff)

lemma sint_and_neg: "sint (x AND y :: i64) < 0 \<longleftrightarrow> sint x < 0 \<and> sint y < 0"
  by (simp add: signed_and_eq)

lemma AddHadOverflow_iff:
  "AddHadOverflow x y (x + y) \<longleftrightarrow> AddOverflows (sint x) (sint y)"
proof -
  have b: "in_int64 (sint x)" "in_int64 (sint y)" by simp_all
  have w: "wrap64 z = (if z < kint64min then z + 2 ^ 64 else if kint64max < z then z - 2 ^ 64 else z)"
    if "- (2 ^ 64) \<le> z" "z < 2 ^ 64" for z
  proof -
    consider "z < kint64min" | "kint64max < z" | "in_int64 z"
      unfolding in_int64_def using not_less by blast
    then show ?thesis
    proof cases
      case 1
      then have "(z + 2 ^ 63) mod 2 ^ 64 = z + 2 ^ 63 + 2 ^ 64"
        using that mod_add_self2[of "z + 2 ^ 63" "2 ^ 64"] by (simp del: mod_add_self2)
      with 1 show ?thesis by (simp add: wrap64_def)
    next
      case 2
      then have "(z + 2 ^ 63) mod 2 ^ 64 = z + 2 ^ 63 - 2 ^ 64"
        using that minus_mod_self2[of "z + 2 ^ 63" "2 ^ 64"] by (simp del: minus_mod_self2)
      with 2 show ?thesis by (simp add: wrap64_def)
    next
      case 3
      then show ?thesis by (auto simp: in_int64_def)
    qed
  qed
  have "sint (x + y) = (if sint x + sint y < kint64min then sint x + sint y + 2 ^ 64
      else if kint64max < sint x + sint y then sint x + sint y - 2 ^ 64 else sint x + sint y)"
    unfolding sint_add_wrap using b by (intro w) (auto simp: in_int64_def)
  then show ?thesis
    using b by (auto simp: AddHadOverflow_def AddOverflows_def sint_xor_neg sint_and_neg in_int64_def
        split: if_splits)
qed

lemma SubHadOverflow_iff:
  "SubHadOverflow x y (x - y) \<longleftrightarrow> SubOverflows (sint x) (sint y)"
proof -
  have b: "in_int64 (sint x)" "in_int64 (sint y)" by simp_all
  let ?d = "x - y"
  have "SubHadOverflow x y ?d \<longleftrightarrow> \<not> in_int64 (sint ?d + sint y)"
    using AddHadOverflow_iff[of ?d y] by (simp add: SubHadOverflow_def AddOverflows_def)
  also have "\<dots> \<longleftrightarrow> \<not> in_int64 (sint x - sint y)"
  proof
    assume "\<not> in_int64 (sint ?d + sint y)"
    then show "\<not> in_int64 (sint x - sint y)" by (auto simp: sint_sub_wrap)
  next
    assume n: "\<not> in_int64 (sint x - sint y)"
    show "\<not> in_int64 (sint ?d + sint y)"
    proof
      assume i: "in_int64 (sint ?d + sint y)"
      have "sint ?d + sint y = wrap64 (wrap64 (sint x - sint y) + sint y)"
        using i by (simp add: sint_sub_wrap)
      also have "\<dots> = sint x" by (simp add: wrap64_wrap64_add)
      finally have "sint x - sint y = sint ?d" by simp
      with n show False by simp
    qed
  qed
  finally show ?thesis by (simp add: SubOverflows_def)
qed

lemma sint_CapWithSignOfW: "sint (CapWithSignOfW x) = CapWithSignOf (sint x)"
  by (simp add: CapWithSignOfW_def)

lemma CapAddGeneric_eq: "sint (CapAddGeneric x y) = CapAdd (sint x) (sint y)"
  by (auto simp: CapAddGeneric_def CapAdd_def AddHadOverflow_iff sint_CapWithSignOfW Let_def
      AddOverflows_def sint_add_wrap simp del: CapWithSignOf_eq)

lemma CapSubGeneric_eq: "sint (CapSubGeneric x y) = CapSub (sint x) (sint y)"
  by (auto simp: CapSubGeneric_def CapSub_def SubHadOverflow_iff sint_CapWithSignOfW Let_def
      SubOverflows_def sint_sub_wrap simp del: CapWithSignOf_eq)

subsection \<open>The most significant bit\<close>

lemma or_power_add: "2 ^ Suc k dvd b \<Longrightarrow> b OR 2 ^ k = b + 2 ^ k" for b k :: nat
proof -
  assume "2 ^ Suc k dvd b"
  then have "\<not> bit b k" by (auto simp: bit_iff_odd elim!: dvdE)
  then have "b AND 2 ^ k = 0" by (simp add: and_exp_eq_0_iff_not_bit)
  then show ?thesis by (simp add: disjunctive_add_eq_or)
qed

lemma mask_test: "n AND NOT (mask i) = 0 \<longleftrightarrow> drop_bit i n = 0" for n :: i64
proof -
  have len: "j < 64" if "bit n (i + j)" for j
    using bit_imp_le_length[OF that] by simp
  have "drop_bit i n = 0 \<longleftrightarrow> (\<forall>j. \<not> bit n (i + j))"
    using len by (auto simp: bit_eq_iff bit_simps)
  also have "\<dots> \<longleftrightarrow> (\<forall>j. i \<le> j \<longrightarrow> \<not> bit n j)"
    by (metis le_Suc_ex le_add1)
  also have "\<dots> \<longleftrightarrow> n AND push_bit i (- 1) = 0"
    using bit_imp_le_length[of n] by (auto simp: bit_eq_iff bit_simps) (metis not_le)+
  finally show ?thesis by simp
qed

definition msb_inv :: "i64 \<Rightarrow> nat \<Rightarrow> nat \<times> i64 \<Rightarrow> bool" where
  "msb_inv n k s \<longleftrightarrow> 2 ^ k dvd fst s \<and> unat (snd s) < 2 ^ 2 ^ k \<and>
     unat (snd s) = unat n div 2 ^ fst s \<and> (n \<noteq> 0 \<longrightarrow> snd s \<noteq> 0) \<and> (n = 0 \<longrightarrow> fst s = 0)"

lemma msb_stage_inv: "msb_inv n (Suc k) s \<Longrightarrow> msb_inv n k (msb_stage k s)"
proof -
  assume inv: "msb_inv n (Suc k) s"
  obtain b m where s: "s = (b, m)" by (cases s)
  have d: "2 ^ k dvd b" using inv by (auto simp: msb_inv_def s intro: dvd_trans[of _ "2 ^ Suc k"])
  have u: "unat (drop_bit (2 ^ k) m) = unat m div 2 ^ 2 ^ k"
    by (simp add: unat_drop_bit_eq drop_bit_eq_div[of _ "unat m"] del: drop_bit_eq_div)
  have z: "drop_bit (2 ^ k) m = 0 \<longleftrightarrow> unat m < 2 ^ 2 ^ k"
    using u by (metis div_eq_0_iff power_not_zero unat_eq_0 zero_neq_numeral)
  have lt: "unat m div 2 ^ 2 ^ k < 2 ^ 2 ^ k"
    using inv by (intro less_mult_imp_div_less) (simp add: msb_inv_def s flip: power_add mult_2)
  show ?thesis
  proof (cases "m AND push_bit (2 ^ k) (- 1) = 0")
    case True
    with inv d z show ?thesis by (auto simp: msb_stage_def msb_inv_def s mask_test)
  next
    case False
    have or: "b OR 2 ^ k = b + 2 ^ k"
      using inv by (intro or_power_add) (simp add: msb_inv_def s)
    have "n \<noteq> 0"
      using inv False by (auto simp: msb_inv_def s unat_eq_0)
    with False inv d lt show ?thesis
      by (auto simp: msb_stage_def msb_inv_def s mask_test u or power_add div_mult2_eq)
  qed
qed

lemma MostSignificantBitPosition64_inv:
  "\<exists>s. fst s = MostSignificantBitPosition64 n \<and> msb_inv n 0 s"
proof -
  have "msb_inv n (Suc 5) (0, n)"
    using unsigned_less[of n] by (simp add: msb_inv_def)
  from msb_stage_inv[OF this] have "msb_inv n (Suc 4) (msb_stage 5 (0, n))" by simp
  from msb_stage_inv[OF this] have "msb_inv n (Suc 3) (msb_stage 4 (msb_stage 5 (0, n)))" by simp
  from msb_stage_inv[OF this]
  have "msb_inv n (Suc (Suc (Suc 0))) (msb_stage 3 (msb_stage 4 (msb_stage 5 (0, n))))"
    by (simp add: numeral_3_eq_3)
  from msb_stage_inv[OF this]
  have "msb_inv n (Suc (Suc 0)) (msb_stage 2 (msb_stage 3 (msb_stage 4 (msb_stage 5 (0, n)))))"
    by (simp add: numeral_2_eq_2)
  from msb_stage_inv[OF this]
  have "msb_inv n (Suc 0) (msb_stage 1 (msb_stage 2 (msb_stage 3 (msb_stage 4 (msb_stage 5 (0, n))))))"
    by simp
  from msb_stage_inv[OF this] show ?thesis unfolding MostSignificantBitPosition64_def by blast
qed

lemma msb_bounds:
  assumes "n \<noteq> 0"
  shows "2 ^ MostSignificantBitPosition64 n \<le> unat n" "unat n < 2 * 2 ^ MostSignificantBitPosition64 n"
proof -
  obtain s where s: "fst s = MostSignificantBitPosition64 n" "msb_inv n 0 s"
    using MostSignificantBitPosition64_inv by blast
  have "unat (snd s) = 1"
    using s(2) assms by (auto simp: msb_inv_def simp flip: unat_eq_0)
  then have "unat n div 2 ^ MostSignificantBitPosition64 n = 1"
    using s by (simp add: msb_inv_def)
  then have e: "unat n = 2 ^ MostSignificantBitPosition64 n + unat n mod 2 ^ MostSignificantBitPosition64 n"
    using mult_div_mod_eq[of "2 ^ MostSignificantBitPosition64 n" "unat n"] by simp
  have l: "unat n mod 2 ^ MostSignificantBitPosition64 n < 2 ^ MostSignificantBitPosition64 n"
    by simp
  show "2 ^ MostSignificantBitPosition64 n \<le> unat n"
    using e by (rule ssubst) simp
  show "unat n < 2 * 2 ^ MostSignificantBitPosition64 n"
    using e l by linarith
qed

subsection \<open>The generic product\<close>

lemma sint_uint_cases: "sint (x :: i64) = (if sint x < 0 then uint x - 2 ^ 64 else uint x)"
proof -
  have b: "in_int64 (sint x)" by simp
  have u: "uint x = sint x mod 2 ^ 64" by (simp add: uint_sint take_bit_eq_mod)
  show ?thesis
  proof (cases "sint x < 0")
    case True
    then have "sint x mod 2 ^ 64 = sint x + 2 ^ 64"
      using b mod_add_self2[of "sint x" "2 ^ 64"] by (simp add: in_int64_def del: mod_add_self2)
    with u True show ?thesis by simp
  next
    case False
    with u b show ?thesis by (simp add: in_int64_def)
  qed
qed

lemma unat_uint_abs: "int (unat (uint_abs x)) = \<bar>sint x\<bar>"
proof (cases "sint x < 0")
  case True
  have e: "sint x = uint x - 2 ^ 64" using sint_uint_cases[of x] True by simp
  have "uint_abs x = - x" using True by (simp add: uint_abs_def minus_eq_not_plus_1)
  moreover have "uint (- x) = 2 ^ 64 - uint x"
  proof -
    have "(- uint x) mod 2 ^ 64 = (2 ^ 64 - uint x) mod 2 ^ 64"
      by (metis add.commute diff_minus_eq_add mod_add_self1 uminus_add_conv_diff)
    also have "\<dots> = 2 ^ 64 - uint x"
      using e sint_ge[of x] uint_bounded[of x] by (intro mod_pos_pos_trivial) (auto)
    finally show ?thesis by (simp add: uint_word_ariths)
  qed
  ultimately show ?thesis using True e by simp
next
  case False
  with sint_uint_cases[of x] show ?thesis by (simp add: uint_abs_def)
qed

lemma word_eq_sint_iff: "x = y \<longleftrightarrow> sint x = sint y" for x y :: i64
  by (simp add: word_eq_iff_signed)

lemma sint_of_small: "unat (w :: i64) < 2 ^ 63 \<Longrightarrow> sint w = int (unat w)"
proof -
  assume "unat w < 2 ^ 63"
  moreover have "int (unat w) = uint w" by simp
  ultimately have "uint w < 2 ^ 63" by (metis of_nat_less_iff of_nat_numeral of_nat_power)
  then show ?thesis using sint_uint_cases[of w] sint_ge[of w] by (auto split: if_splits)
qed

lemma sint_uminus_of_small: "unat (w :: i64) < 2 ^ 63 \<Longrightarrow> sint (- w) = - int (unat w)"
proof -
  assume a: "unat w < 2 ^ 63"
  then have s: "sint w = int (unat w)" by (rule sint_of_small)
  have "in_int64 (- sint w)" using sint_lt[of w] s by (simp add: in_int64_def order_trans[of "- uint w" 0])
  then show ?thesis using sint_sub_wrap[of 0 w] s by simp
qed

lemma CapProdGeneric_eq: "sint (CapProdGeneric x y) = CapProd (sint x) (sint y)"
proof -
  define a b where ab: "a = uint_abs x" "b = uint_abs y"
  let ?p = "sint x * sint y"
  define m where "m = MostSignificantBitPosition64 a + MostSignificantBitPosition64 b"
  have abs: "\<bar>?p\<bar> = int (unat a * unat b)"
    by (simp add: ab unat_uint_abs abs_mult flip: unat_uint_abs)
  have zero: "a = 0 \<longleftrightarrow> sint x = 0" "b = 0 \<longleftrightarrow> sint y = 0"
    using unat_uint_abs[of x] unat_uint_abs[of y] unat_eq_0[of a] unat_eq_0[of b]
    unfolding ab by (metis abs_eq_0 of_nat_0_eq_iff)+
  have cap: "sint (CapWithSignOfW (x XOR y)) = CapWithSignOf (sint x XOR sint y)"
    by (simp add: sint_CapWithSignOfW signed_xor_eq)
  have exact: "sint (x * y) = ?p" if "in_int64 ?p"
    using that by (simp add: sint_mult_wrap)
  have fits: "CapProd (sint x) (sint y) = ?p" if "in_int64 ?p"
    using that by (simp add: CapProd_exact)
  show ?thesis
  proof (cases "a = 0 \<or> b = 0")
    case True
    then have "sint x * sint y = 0" using zero by auto
    have "sint (x * y) = 0" unfolding sint_mult_wrap \<open>sint x * sint y = 0\<close> by simp
    then have "x * y = 0" by (simp add: word_eq_sint_iff)
    with True \<open>sint x * sint y = 0\<close> show ?thesis
      by (simp add: CapProdGeneric_def Let_def CapProd_clamp del: mult_eq_0_iff flip: ab)
  next
    case False
    then have ne: "a \<noteq> 0" "b \<noteq> 0" by auto
    have lo: "2 ^ m \<le> unat a * unat b"
      unfolding m_def power_add by (intro mult_mono msb_bounds(1)[OF ne(1)] msb_bounds(1)[OF ne(2)]) auto
    have hi: "unat a * unat b < 2 ^ (m + 2)"
    proof -
      have "unat a * unat b < (2 * 2 ^ MostSignificantBitPosition64 a) * (2 * 2 ^ MostSignificantBitPosition64 b)"
        by (rule mult_strict_mono[OF msb_bounds(2)[OF ne(1)] msb_bounds(2)[OF ne(2)]]) auto
      then show ?thesis by (simp add: m_def power_add ac_simps)
    qed
    consider "m \<le> 61" | "63 \<le> m" | "m = 62" by linarith
    then show ?thesis
    proof cases
      case 1
      have "unat a * unat b < 2 ^ 63"
        using hi 1 power_increasing[of "m + 2" 63 "2 :: nat"] by linarith
      then have "\<bar>?p\<bar> < 2 ^ 63" unfolding abs by (metis of_nat_less_iff of_nat_numeral of_nat_power)
      then have "in_int64 ?p" by (auto simp: in_int64_def abs_less_iff)
      then show ?thesis
        using 1 by (simp add: CapProdGeneric_def Let_def fits exact flip: ab m_def)
    next
      case 2
      have "2 ^ 63 \<le> unat a * unat b"
        using lo 2 power_increasing[of 63 m "2 :: nat"] by linarith
      then have "2 ^ 63 \<le> \<bar>?p\<bar>" unfolding abs by (metis of_nat_le_iff of_nat_numeral of_nat_power)
      then have "CapProd (sint x) (sint y) = CapWithSignOf (sint x XOR sint y)"
        by (auto simp: CapProd_def in_int64_def xor_neg_iff Let_def abs_if mult_less_0_iff split: if_splits)
      then show ?thesis
        using 2 ne cap by (simp add: CapProdGeneric_def Let_def flip: ab m_def)
    next
      case 3
      have lt: "unat a * unat b < 2 ^ 64" using hi 3 by simp
      define U where "U = unat a * unat b"
      have u: "unat (a * b) = U" using lt by (simp add: unat_word_ariths U_def)
      have "CapProdGeneric x y = (let cap = CapWithSignOfW (x XOR y) in
          if cap \<le> a * b then cap else if sint cap < 0 then - (a * b) else a * b)"
        using 3 ne by (simp add: CapProdGeneric_def Let_def flip: ab m_def)
      moreover have "sint (\<dots>) = CapProd (sint x) (sint y)"
      proof (cases "sint x XOR sint y < 0")
        case True
        then have w: "CapWithSignOfW (x XOR y) = 0x8000000000000000"
          by (simp add: CapWithSignOfW_def signed_xor_eq)
        have p: "?p = - int U"
          using True abs unfolding U_def by (auto simp: xor_neg_iff abs_if mult_less_0_iff split: if_splits)
        show ?thesis
          using p u by (auto simp: w CapProd_clamp clamp64_def word_le_nat_alt sint_uminus_of_small)
      next
        case False
        then have w: "CapWithSignOfW (x XOR y) = 0x7FFFFFFFFFFFFFFF"
          by (simp add: CapWithSignOfW_def signed_xor_eq)
        have p: "?p = int U"
          using False abs unfolding U_def by (auto simp: xor_neg_iff abs_if mult_less_0_iff split: if_splits)
        show ?thesis
          using p u by (auto simp: w CapProd_clamp clamp64_def word_le_nat_alt sint_of_small)
      qed
      ultimately show ?thesis by simp
    qed
  qed
qed

end
