(* ===== verification/SortedIntervals.thy ===== *)
theory SortedIntervals
  imports Saturated
begin

text \<open>
  Sets of 64-bit integers as sorted lists of closed intervals: \<open>struct ClosedInterval\<close>, the
  construction and the queries of \<open>class Domain\<close> (\<open>or-tools/ortools/util/sorted_interval_list.h\<close>
  and \<open>.cc\<close>).  A \<open>Domain\<close> is its one member \<open>intervals_\<close>.

  The abstraction \<open>dvals\<close> maps a domain to the set of integers it stands for, and \<open>canon\<close> is the
  class invariant ("will always satisfy IntervalsAreSortedAndNonAdjacent()") together with the
  range of the bounds.  Two canonical domains with the same values are the same list
  (\<open>canon_unique\<close>), so the comparison \<open>operator==\<close> decides equality of sets.
\<close>

section \<open>Intervals\<close>

datatype closed_interval = Interval (ci_start: int64) (ci_end: int64)

type_synonym domain = "closed_interval list"

text \<open>The \<open>for\<close> loop compares each interval with the one before it; the sum \<open>end + 1\<close> is reached
  only when \<open>end\<close> is below another bound, so it cannot overflow.\<close>

fun IntervalsAreSortedAndNonAdjacent :: "domain \<Rightarrow> bool" where
  "IntervalsAreSortedAndNonAdjacent [] = True"
| "IntervalsAreSortedAndNonAdjacent [i] = (ci_start i \<le> ci_end i)"
| "IntervalsAreSortedAndNonAdjacent (i # j # r) =
     (if ci_start i > ci_end i then False
      else if ci_end i \<ge> ci_start j \<or> ci_end i + 1 \<ge> ci_start j then False
      else IntervalsAreSortedAndNonAdjacent (j # r))"

section \<open>The sorting and merging passes\<close>

definition remove_invalid :: "domain \<Rightarrow> domain" where
  "remove_invalid = filter (\<lambda>i. \<not> ci_start i > ci_end i)"

text \<open>\<open>std::sort\<close> with \<open>operator<\<close>, which compares the starts only.\<close>

definition std_sort :: "domain \<Rightarrow> domain" where
  "std_sort = sort_key ci_start"

definition SortAndRemoveInvalidIntervals :: "domain \<Rightarrow> domain" where
  "SortAndRemoveInvalidIntervals d = std_sort (remove_invalid d)"

text \<open>The loop of \<open>UnionOfSortedIntervals\<close>: \<open>prev\<close> is \<open>intervals[new_size - 1]\<close>, the list is what the
  index \<open>i\<close> has not read yet; slots below \<open>new_size - 1\<close> are final and are put in front of the
  result.\<close>

fun union_loop :: "closed_interval \<Rightarrow> domain \<Rightarrow> domain" where
  "union_loop prev [] = [prev]"
| "union_loop prev (current # rest) =
     (if ci_end prev = kint64max \<or> ci_start current \<le> ci_end prev + 1
      then union_loop (Interval (ci_start prev) (max (ci_end current) (ci_end prev))) rest
      else prev # union_loop current rest)"

fun UnionOfSortedIntervals :: "domain \<Rightarrow> domain" where
  "UnionOfSortedIntervals [] = []"
| "UnionOfSortedIntervals (i # r) = union_loop i r"

section \<open>Constructors\<close>

definition Domain_value :: "int64 \<Rightarrow> domain" where
  "Domain_value v = [Interval v v]"

definition Domain_range :: "int64 \<Rightarrow> int64 \<Rightarrow> domain" where
  "Domain_range left right = (if left > right then [] else [Interval left right])"

definition Domain_AllValues :: domain where
  "Domain_AllValues = Domain_range kint64min kint64max"

definition Domain_LowerOrEqual :: "int64 \<Rightarrow> domain" where
  "Domain_LowerOrEqual value = Domain_range kint64min value"

definition Domain_GreaterOrEqual :: "int64 \<Rightarrow> domain" where
  "Domain_GreaterOrEqual value = Domain_range value kint64max"

text \<open>The loop of \<open>FromValues\<close>, with the last interval pushed so far; the \<open>break\<close> at \<open>kint64max\<close> is
  the test before the next value.\<close>

fun from_values_loop :: "closed_interval \<Rightarrow> int64 list \<Rightarrow> domain" where
  "from_values_loop back [] = [back]"
| "from_values_loop back (v # vs) =
     (if ci_end back = kint64max then [back]
      else if v > ci_end back + 1 then back # from_values_loop (Interval v v) vs
      else from_values_loop (Interval (ci_start back) v) vs)"

definition Domain_FromValues :: "int64 list \<Rightarrow> domain" where
  "Domain_FromValues values =
     (case sort values of [] \<Rightarrow> [] | v # vs \<Rightarrow> from_values_loop (Interval v v) vs)"

definition Domain_FromIntervals :: "closed_interval list \<Rightarrow> domain" where
  "Domain_FromIntervals intervals = UnionOfSortedIntervals (SortAndRemoveInvalidIntervals intervals)"

text \<open>The flat list has an even length (a DCHECK of the source); a trailing odd element would be
  read past the end.\<close>

fun pairs_of_flat :: "int64 list \<Rightarrow> domain" where
  "pairs_of_flat (a # b # r) = Interval a b # pairs_of_flat r"
| "pairs_of_flat _ = []"

definition Domain_FromFlatSpanOfIntervals :: "int64 list \<Rightarrow> domain" where
  "Domain_FromFlatSpanOfIntervals flat =
     UnionOfSortedIntervals (SortAndRemoveInvalidIntervals (pairs_of_flat flat))"

fun interval_of_vector :: "int64 list \<Rightarrow> closed_interval" where
  "interval_of_vector [v] = Interval v v"
| "interval_of_vector (a # b # _) = Interval a b"
| "interval_of_vector [] = Interval 0 0"

definition Domain_FromVectorIntervals :: "int64 list list \<Rightarrow> domain" where
  "Domain_FromVectorIntervals intervals =
     UnionOfSortedIntervals (SortAndRemoveInvalidIntervals (map interval_of_vector intervals))"

definition Domain_FlattenedIntervals :: "domain \<Rightarrow> int64 list" where
  "Domain_FlattenedIntervals d = concat (map (\<lambda>i. [ci_start i, ci_end i]) d)"

section \<open>Queries\<close>

definition Domain_IsEmpty :: "domain \<Rightarrow> bool" where
  "Domain_IsEmpty d \<longleftrightarrow> d = []"

definition Domain_Min :: "domain \<Rightarrow> int64" where
  "Domain_Min d = ci_start (hd d)"

definition Domain_Max :: "domain \<Rightarrow> int64" where
  "Domain_Max d = ci_end (last d)"

definition Domain_IsFixed :: "domain \<Rightarrow> bool" where
  "Domain_IsFixed d \<longleftrightarrow> Domain_Min d = Domain_Max d"

definition Domain_FixedValue :: "domain \<Rightarrow> int64" where
  "Domain_FixedValue d = ci_start (hd d)"

definition Domain_Size :: "domain \<Rightarrow> int64" where
  "Domain_Size d =
     (let size = foldl (\<lambda>size i. CapAdd size (CapSub (ci_end i) (ci_start i))) 0 d
      in CapAdd size (int (length d)))"

fun Domain_HasTwoValues :: "domain \<Rightarrow> bool" where
  "Domain_HasTwoValues [i] = (ci_end i = ci_start i + 1)"
| "Domain_HasTwoValues [i, j] = (ci_end i = ci_start i \<and> ci_end j = ci_start j)"
| "Domain_HasTwoValues _ = False"

text \<open>\<open>std::upper_bound\<close> on the starts: the intervals before the first one whose start is greater.\<close>

definition before_upper_bound :: "int64 \<Rightarrow> domain \<Rightarrow> domain" where
  "before_upper_bound v d = takeWhile (\<lambda>i. \<not> v < ci_start i) d"

definition from_upper_bound :: "int64 \<Rightarrow> domain \<Rightarrow> domain" where
  "from_upper_bound v d = dropWhile (\<lambda>i. \<not> v < ci_start i) d"

definition Domain_Contains :: "domain \<Rightarrow> int64 \<Rightarrow> bool" where
  "Domain_Contains d v =
     (case before_upper_bound v d of [] \<Rightarrow> False | b \<Rightarrow> v \<le> ci_end (last b))"

definition Domain_ValueAtOrBefore :: "domain \<Rightarrow> int64 \<Rightarrow> int64" where
  "Domain_ValueAtOrBefore d input =
     (case before_upper_bound input d of
        [] \<Rightarrow> input
      | b \<Rightarrow> if input \<le> ci_end (last b) then input else ci_end (last b))"

definition Domain_ValueAtOrAfter :: "domain \<Rightarrow> int64 \<Rightarrow> int64" where
  "Domain_ValueAtOrAfter d input =
     (case from_upper_bound input d of
        [] \<Rightarrow> input
      | j # _ \<Rightarrow>
          (case before_upper_bound input d of
             [] \<Rightarrow> ci_start j
           | b \<Rightarrow> if input \<le> ci_end (last b) then input else ci_start j))"

text \<open>\<open>SmallestValue\<close>: one step per bound of an interval, with the early return at zero.\<close>

definition smallest_step :: "int64 \<Rightarrow> int64 \<Rightarrow> int64" where
  "smallest_step result b =
     (let r1 = (if b > 0 \<and> b \<le> std_abs result then b else result)
      in if b < 0 \<and> wrap64 (- b) < std_abs r1 then b else r1)"

fun smallest_loop :: "int64 \<Rightarrow> domain \<Rightarrow> int64" where
  "smallest_loop result [] = result"
| "smallest_loop result (i # r) =
     (if ci_start i \<le> 0 \<and> ci_end i \<ge> 0 then 0
      else smallest_loop (smallest_step (smallest_step result (ci_start i)) (ci_end i)) r)"

definition Domain_SmallestValue :: "domain \<Rightarrow> int64" where
  "Domain_SmallestValue d = smallest_loop (Domain_Min d) d"

fun Domain_PartAroundZero :: "domain \<Rightarrow> domain" where
  "Domain_PartAroundZero [] = []"
| "Domain_PartAroundZero (i # r) =
     (if ci_start i \<le> 0 \<and> ci_end i \<ge> 0 then Domain_range (ci_start i) (ci_end i)
      else Domain_PartAroundZero r)"

text \<open>\<open>ClosestValue\<close>: the loop carries the end of the interval before and its distance.\<close>

fun closest_loop :: "int64 \<Rightarrow> int64 \<Rightarrow> int64 \<Rightarrow> domain \<Rightarrow> int64" where
  "closest_loop wanted best_point best_distance [] = best_point"
| "closest_loop wanted best_point best_distance (i # r) =
     (if ci_start i \<le> wanted \<and> wanted \<le> ci_end i then wanted
      else if ci_start i \<ge> wanted
      then (if CapSub (ci_start i) wanted \<le> best_distance then ci_start i else best_point)
      else closest_loop wanted (ci_end i) (CapSub wanted (ci_end i)) r)"

text \<open>The initial values of \<open>best_point\<close> and \<open>best_distance\<close> are never read: the first interval
  starts before \<open>wanted\<close>.\<close>

definition Domain_ClosestValue :: "domain \<Rightarrow> int64 \<Rightarrow> int64" where
  "Domain_ClosestValue d wanted =
     (if wanted \<le> ci_start (hd d) then ci_start (hd d) else closest_loop wanted 0 0 d)"

fun distance_loop :: "int64 \<Rightarrow> int64 \<Rightarrow> domain \<Rightarrow> int64" where
  "distance_loop value min_distance [] = min_distance"
| "distance_loop value min_distance (i # r) =
     (if value \<ge> ci_start i \<and> value \<le> ci_end i then 0
      else if ci_start i > value then min min_distance (wrap64 (ci_start i - value))
      else distance_loop value (wrap64 (value - ci_end i)) r)"

definition Domain_Distance :: "domain \<Rightarrow> int64 \<Rightarrow> int64" where
  "Domain_Distance d value = distance_loop value kint64max d"

text \<open>\<open>IsIncludedIn\<close>: the index \<open>i\<close> into the other list only moves forward.\<close>

fun Domain_IsIncludedIn :: "domain \<Rightarrow> domain \<Rightarrow> bool" where
  "Domain_IsIncludedIn [] others = True"
| "Domain_IsIncludedIn (interval # r) others =
     (case dropWhile (\<lambda>j. ci_end interval > ci_end j) others of
        [] \<Rightarrow> False
      | j # js \<Rightarrow> if ci_start interval < ci_start j then False else Domain_IsIncludedIn r (j # js))"

fun Domain_OverlapsWith :: "domain \<Rightarrow> domain \<Rightarrow> bool" where
  "Domain_OverlapsWith (a # as) (b # bs) =
     (if ci_start a \<le> ci_start b
      then (if ci_end a < ci_start b then Domain_OverlapsWith as (b # bs) else True)
      else (if ci_end b < ci_start a then Domain_OverlapsWith (a # as) bs else True))"
| "Domain_OverlapsWith _ _ = False"

text \<open>Iteration over the values in order.  The iterator holds the current value and the intervals
  from the current one on; \<open>operator++\<close> moves inside the interval or to the next start.\<close>

type_synonym domain_iterator = "int64 \<times> domain"

fun iter_begin :: "domain \<Rightarrow> domain_iterator" where
  "iter_begin [] = (0, [])"
| "iter_begin (i # r) = (ci_start i, i # r)"

fun iter_next :: "domain_iterator \<Rightarrow> domain_iterator" where
  "iter_next (v, []) = (v, [])"
| "iter_next (v, i # r) =
     (if v = ci_end i then (case r of [] \<Rightarrow> (v, []) | j # _ \<Rightarrow> (ci_start j, r)) else (v + 1, i # r))"

definition iter_at_end :: "domain_iterator \<Rightarrow> bool" where
  "iter_at_end it \<longleftrightarrow> snd it = []"

definition Domain_Values :: "domain \<Rightarrow> int64 list" where
  "Domain_Values d = concat (map (\<lambda>i. [ci_start i..ci_end i]) d)"

text \<open>\<open>operator<\<close>: lexicographic on the bounds, then on the number of intervals.\<close>

fun Domain_less :: "domain \<Rightarrow> domain \<Rightarrow> bool" where
  "Domain_less (a # as) (b # bs) =
     (if ci_start a < ci_start b then True
      else if ci_start a > ci_start b then False
      else if ci_end a < ci_end b then True
      else if ci_end a > ci_end b then False
      else Domain_less as bs)"
| "Domain_less [] bs = (bs \<noteq> [])"
| "Domain_less (a # as) [] = False"

section \<open>The abstraction and the class invariant\<close>

definition ivals :: "closed_interval \<Rightarrow> int set" where
  "ivals i = {ci_start i .. ci_end i}"

definition dvals :: "domain \<Rightarrow> int set" where
  "dvals d = (\<Union>i \<in> set d. ivals i)"

text \<open>Bounds in range and no empty interval.\<close>

definition interval_ok :: "closed_interval \<Rightarrow> bool" where
  "interval_ok i \<longleftrightarrow> ci_start i \<le> ci_end i \<and> in_int64 (ci_start i) \<and> in_int64 (ci_end i)"

definition canon :: "domain \<Rightarrow> bool" where
  "canon d \<longleftrightarrow> (\<forall>i \<in> set d. interval_ok i) \<and> sorted_wrt (\<lambda>i j. ci_end i + 1 < ci_start j) d"

named_theorems domain_simps \<open>values of domains, interval by interval\<close>

lemma mem_ivals [simp]: "x \<in> ivals i \<longleftrightarrow> ci_start i \<le> x \<and> x \<le> ci_end i"
  by (simp add: ivals_def)

lemma dvals_simps [simp, domain_simps]: "dvals [] = {}" "dvals (i # d) = ivals i \<union> dvals d"
  by (auto simp: dvals_def)

lemma dvals_append [simp]: "dvals (a @ b) = dvals a \<union> dvals b"
  by (auto simp: dvals_def)

lemma mem_dvals: "x \<in> dvals d \<longleftrightarrow> (\<exists>i \<in> set d. ci_start i \<le> x \<and> x \<le> ci_end i)"
  by (auto simp: dvals_def)

lemma canon_Nil [simp]: "canon []"
  by (simp add: canon_def)

lemma canon_Cons:
  "canon (i # d) \<longleftrightarrow> interval_ok i \<and> (\<forall>j \<in> set d. ci_end i + 1 < ci_start j) \<and> canon d"
  by (auto simp: canon_def)

lemma canon_singleton [simp]: "canon [i] \<longleftrightarrow> interval_ok i"
  by (simp add: canon_Cons)

lemma canon_append:
  "canon (a @ b) \<longleftrightarrow> canon a \<and> canon b \<and> (\<forall>i \<in> set a. \<forall>j \<in> set b. ci_end i + 1 < ci_start j)"
  by (auto simp: canon_def sorted_wrt_append)

lemma canon_interval_ok: "canon d \<Longrightarrow> i \<in> set d \<Longrightarrow> interval_ok i"
  by (simp add: canon_def)

lemma canon_in_int64: "canon d \<Longrightarrow> x \<in> dvals d \<Longrightarrow> in_int64 x"
  by (auto simp: mem_dvals canon_def interval_ok_def intro: in_int64_between)

text \<open>The executable test of the source is the invariant, for bounds in range.\<close>

lemma canon_Cons_Cons:
  "canon (i # j # d) \<longleftrightarrow> interval_ok i \<and> ci_end i + 1 < ci_start j \<and> canon (j # d)"
  by (auto simp: canon_Cons interval_ok_def)

lemma canon_iff_test:
  assumes "\<forall>i \<in> set d. in_int64 (ci_start i) \<and> in_int64 (ci_end i)"
  shows "IntervalsAreSortedAndNonAdjacent d \<longleftrightarrow> canon d"
  using assms
  by (induction d rule: IntervalsAreSortedAndNonAdjacent.induct)
    (auto simp: canon_Cons_Cons interval_ok_def)

lemma dvals_Cons_lower: "canon (i # d) \<Longrightarrow> x \<in> dvals (i # d) \<Longrightarrow> ci_start i \<le> x"
  by (fastforce simp: canon_Cons mem_dvals interval_ok_def)

lemma dvals_tail_gap: "canon (i # d) \<Longrightarrow> x \<in> dvals d \<Longrightarrow> ci_end i + 1 < x"
  by (fastforce simp: canon_Cons mem_dvals)

lemma start_mem: "canon (i # d) \<Longrightarrow> ci_start i \<in> dvals (i # d)"
  by (simp add: canon_Cons interval_ok_def)

lemma dvals_tail: "canon (i # d) \<Longrightarrow> dvals d = {x \<in> dvals (i # d). ci_end i < x}"
  using dvals_tail_gap[of i d] by fastforce

lemma dvals_empty_iff: "canon d \<Longrightarrow> dvals d = {} \<longleftrightarrow> d = []"
  using start_mem by (cases d) (simp, metis empty_iff list.discI)

lemma canon_heads_end_le:
  assumes "canon (i # a)" "canon (j # b)" "dvals (i # a) = dvals (j # b)" "ci_start i = ci_start j"
  shows "ci_end j \<le> ci_end i"
proof (rule ccontr)
  assume "\<not> ?thesis"
  moreover have "ci_start i \<le> ci_end i" using assms(1) by (simp add: canon_Cons interval_ok_def)
  ultimately have "ci_end i + 1 \<in> dvals (j # b)" using assms(4) by simp
  then have "ci_end i + 1 \<in> dvals (i # a)" by (simp only: assms(3))
  then have "ci_end i + 1 \<in> dvals a" by simp
  from dvals_tail_gap[OF assms(1) this] show False by simp
qed

text \<open>The representation is unique.\<close>

lemma canon_unique: "canon a \<Longrightarrow> canon b \<Longrightarrow> dvals a = dvals b \<Longrightarrow> a = b"
proof (induction a arbitrary: b)
  case Nil
  then show ?case by (metis dvals_empty_iff dvals_simps(1))
next
  case (Cons i a)
  obtain j c where b: "b = j # c"
    using Cons.prems dvals_empty_iff[of b] start_mem[of i a] by (cases b) auto
  have s: "ci_start i = ci_start j"
    using dvals_Cons_lower[of i a "ci_start j"] dvals_Cons_lower[of j c "ci_start i"]
      start_mem[of i a] start_mem[of j c] Cons.prems b by force
  have e: "ci_end i = ci_end j"
    using canon_heads_end_le[of i a j c] canon_heads_end_le[of j c i a] Cons.prems b s by simp
  have "dvals a = {x \<in> dvals (i # a). ci_end i < x}" by (rule dvals_tail) fact
  also have "\<dots> = {x \<in> dvals (j # c). ci_end j < x}" using Cons.prems(3) b e by (simp only:)
  also have "\<dots> = dvals c" using dvals_tail Cons.prems(2) b by blast
  finally have "dvals a = dvals c" .
  then have "a = c" using Cons b by (simp add: canon_Cons)
  with s e b show ?case by (cases i; cases j) simp
qed

section \<open>Merging\<close>

lemma union_loop_spec:
  assumes "interval_ok p" "\<forall>i \<in> set r. interval_ok i" "sorted (map ci_start (p # r))"
  shows "dvals (union_loop p r) = dvals (p # r) \<and> canon (union_loop p r) \<and>
    (\<forall>i \<in> set (union_loop p r). ci_start p \<le> ci_start i)"
  using assms
proof (induction p r rule: union_loop.induct)
  case (1 p)
  then show ?case by simp
next
  case (2 p c r)
  show ?case
  proof (cases "ci_end p = kint64max \<or> ci_start c \<le> ci_end p + 1")
    case True
    let ?m = "Interval (ci_start p) (max (ci_end c) (ci_end p))"
    have ok: "interval_ok ?m" using 2 by (auto simp: interval_ok_def intro: int64_intros)
    have "ivals ?m = ivals p \<union> ivals c"
      using True 2 by (auto simp: interval_ok_def in_int64_def)
    moreover have "sorted (map ci_start (?m # r))" using 2 by auto
    ultimately show ?thesis using 2 True ok by auto
  next
    case False
    have IH: "dvals (union_loop c r) = dvals (c # r)" "canon (union_loop c r)"
      "\<forall>i \<in> set (union_loop c r). ci_start c \<le> ci_start i"
      using 2 False by auto
    have "\<forall>i \<in> set (union_loop c r). ci_end p + 1 < ci_start i" using IH(3) False by fastforce
    then have "canon (p # union_loop c r)" using IH(2) 2 by (simp add: canon_Cons)
    moreover have "\<forall>i \<in> set (p # union_loop c r). ci_start p \<le> ci_start i"
      using IH(3) 2 by (fastforce)
    ultimately show ?thesis using False IH(1) by auto
  qed
qed

lemma UnionOfSortedIntervals_spec:
  assumes "\<forall>i \<in> set d. interval_ok i" "sorted (map ci_start d)"
  shows "dvals (UnionOfSortedIntervals d) = dvals d" "canon (UnionOfSortedIntervals d)"
proof -
  have "dvals (UnionOfSortedIntervals d) = dvals d \<and> canon (UnionOfSortedIntervals d)"
  proof (cases d)
    case (Cons i r)
    then show ?thesis using union_loop_spec[of i r] assms by simp
  qed simp
  then show "dvals (UnionOfSortedIntervals d) = dvals d" "canon (UnionOfSortedIntervals d)" by simp_all
qed

lemma dvals_set_cong: "set a = set b \<Longrightarrow> dvals a = dvals b"
  by (simp add: dvals_def)

lemma dvals_std_sort [simp]: "dvals (std_sort d) = dvals d"
  by (rule dvals_set_cong) (simp add: std_sort_def)

lemma set_std_sort [simp]: "set (std_sort d) = set d"
  by (simp add: std_sort_def)

lemma sorted_std_sort [simp]: "sorted (map ci_start (std_sort d))"
  by (simp add: std_sort_def)

lemma union_std_sort_spec:
  assumes "\<forall>i \<in> set d. interval_ok i"
  shows "dvals (UnionOfSortedIntervals (std_sort d)) = dvals d"
    "canon (UnionOfSortedIntervals (std_sort d))"
  using UnionOfSortedIntervals_spec[of "std_sort d"] assms by simp_all

text \<open>\<open>std::sort\<close> is not stable; since the merged list is canonical, any other order of intervals
  with equal starts gives the same result.\<close>

lemma union_sort_order_irrelevant:
  assumes "\<forall>i \<in> set d. interval_ok i" "set e = set d" "sorted (map ci_start e)"
  shows "UnionOfSortedIntervals e = UnionOfSortedIntervals (std_sort d)"
  using assms UnionOfSortedIntervals_spec[of e] union_std_sort_spec[of d] dvals_set_cong[of e d]
  by (intro canon_unique) simp_all

section \<open>Constructors\<close>

definition bounds_in_range :: "closed_interval list \<Rightarrow> bool" where
  "bounds_in_range l \<longleftrightarrow> (\<forall>i \<in> set l. in_int64 (ci_start i) \<and> in_int64 (ci_end i))"

lemma dvals_remove_invalid: "dvals (remove_invalid l) = dvals l"
  by (auto simp: remove_invalid_def mem_dvals) (meson not_le order_trans)

lemma remove_invalid_ok: "bounds_in_range l \<Longrightarrow> \<forall>i \<in> set (remove_invalid l). interval_ok i"
  by (auto simp: remove_invalid_def bounds_in_range_def interval_ok_def)

lemma sort_remove_union_spec:
  assumes "bounds_in_range l"
  shows "dvals (UnionOfSortedIntervals (SortAndRemoveInvalidIntervals l)) = dvals l"
    "canon (UnionOfSortedIntervals (SortAndRemoveInvalidIntervals l))"
  using union_std_sort_spec[OF remove_invalid_ok[OF assms]]
  by (simp_all add: SortAndRemoveInvalidIntervals_def dvals_remove_invalid)

lemma FromIntervals_spec:
  "bounds_in_range l \<Longrightarrow> dvals (Domain_FromIntervals l) = dvals l \<and> canon (Domain_FromIntervals l)"
  by (simp add: Domain_FromIntervals_def sort_remove_union_spec)

lemma Domain_range_spec [simp]:
  "dvals (Domain_range a b) = {a..b}"
  "in_int64 a \<Longrightarrow> in_int64 b \<Longrightarrow> canon (Domain_range a b)"
  by (auto simp: Domain_range_def interval_ok_def)

lemma Domain_value_spec [simp]:
  "dvals (Domain_value v) = {v}" "in_int64 v \<Longrightarrow> canon (Domain_value v)"
  by (auto simp: Domain_value_def interval_ok_def)

lemma dvals_AllValues: "dvals Domain_AllValues = {x. in_int64 x}"
  by (auto simp: Domain_AllValues_def in_int64_def)

lemma from_values_loop_spec:
  assumes "interval_ok p" "\<forall>v \<in> set vs. in_int64 v \<and> ci_end p \<le> v" "sorted vs"
  shows "dvals (from_values_loop p vs) = ivals p \<union> set vs \<and> canon (from_values_loop p vs) \<and>
    (\<forall>i \<in> set (from_values_loop p vs). ci_start p \<le> ci_start i)"
  using assms
proof (induction p vs rule: from_values_loop.induct)
  case (1 p)
  then show ?case by simp
next
  case (2 p v vs)
  consider "ci_end p = kint64max" | "ci_end p \<noteq> kint64max" "v > ci_end p + 1"
    | "ci_end p \<noteq> kint64max" "v \<le> ci_end p + 1" by linarith
  then show ?case
  proof cases
    case 1
    then have "set (v # vs) \<subseteq> {ci_end p}" using 2 by (force simp: in_int64_def)
    with 1 2 show ?thesis by (auto simp: interval_ok_def)
  next
    case 2
    have "interval_ok (Interval v v)" using 2 "2.prems" by (simp add: interval_ok_def)
    then have IH: "dvals (from_values_loop (Interval v v) vs) = {v} \<union> set vs"
      "canon (from_values_loop (Interval v v) vs)"
      "\<forall>i \<in> set (from_values_loop (Interval v v) vs). v \<le> ci_start i"
      using 2 "2.prems" "2.IH"(1) by (auto simp: ivals_def)
    then show ?thesis using 2 "2.prems" by (fastforce simp: canon_Cons interval_ok_def)
  next
    case 3
    let ?m = "Interval (ci_start p) v"
    have "interval_ok ?m" using 3 "2.prems" by (auto simp: interval_ok_def)
    then have IH: "dvals (from_values_loop ?m vs) = ivals ?m \<union> set vs"
      "canon (from_values_loop ?m vs)" "\<forall>i \<in> set (from_values_loop ?m vs). ci_start p \<le> ci_start i"
      using 3 "2.prems" "2.IH"(2) by auto
    moreover have "ivals ?m = ivals p \<union> {v}" using 3 "2.prems" by (auto simp: interval_ok_def)
    ultimately show ?thesis using 3 by auto
  qed
qed

lemma FromValues_spec:
  assumes "\<forall>v \<in> set vs. in_int64 v"
  shows "dvals (Domain_FromValues vs) = set vs" "canon (Domain_FromValues vs)"
proof -
  have "dvals (Domain_FromValues vs) = set vs \<and> canon (Domain_FromValues vs)"
  proof (cases "sort vs")
    case Nil
    then show ?thesis by (metis Domain_FromValues_def canon_Nil dvals_simps(1) list.simps(4) list.set(1) set_sort)
  next
    case (Cons w ws)
    then have w: "set vs = insert w (set ws)" "sorted (w # ws)"
      by (metis list.simps(15) set_sort, metis sorted_sort)
    then have "dvals (from_values_loop (Interval w w) ws) = ivals (Interval w w) \<union> set ws \<and>
        canon (from_values_loop (Interval w w) ws)"
      using from_values_loop_spec[of "Interval w w" ws] assms by (auto simp: interval_ok_def)
    with w Cons show ?thesis by (auto simp: Domain_FromValues_def)
  qed
  then show "dvals (Domain_FromValues vs) = set vs" "canon (Domain_FromValues vs)" by simp_all
qed

lemma pairs_of_flat_FlattenedIntervals: "pairs_of_flat (Domain_FlattenedIntervals d) = d"
  by (induction d) (auto simp: Domain_FlattenedIntervals_def)

lemma canon_sorted_starts: "canon d \<Longrightarrow> sorted (map ci_start d)"
  by (induction d) (fastforce simp: canon_Cons interval_ok_def)+

lemma FromFlatSpan_FlattenedIntervals:
  assumes "canon d"
  shows "Domain_FromFlatSpanOfIntervals (Domain_FlattenedIntervals d) = d"
proof -
  have b: "bounds_in_range d" using assms by (simp add: bounds_in_range_def canon_def interval_ok_def)
  show ?thesis
    unfolding Domain_FromFlatSpanOfIntervals_def pairs_of_flat_FlattenedIntervals
    by (rule canon_unique) (simp_all add: sort_remove_union_spec b assms)
qed

section \<open>Queries\<close>

lemma Domain_Min_spec:
  assumes "canon d" "d \<noteq> []"
  shows "Domain_Min d \<in> dvals d" "x \<in> dvals d \<Longrightarrow> Domain_Min d \<le> x"
  using assms start_mem dvals_Cons_lower by (cases d; simp add: Domain_Min_def del: dvals_simps(2))+

lemma Domain_Max_spec:
  assumes "canon d" "d \<noteq> []"
  shows "Domain_Max d \<in> dvals d" "x \<in> dvals d \<Longrightarrow> x \<le> Domain_Max d"
proof -
  obtain b l where d: "d = b @ [l]" using assms(2) by (metis append_butlast_last_id)
  have l: "interval_ok l" and lt: "\<forall>i \<in> set b. ci_end i + 1 < ci_start l"
    using assms(1) by (auto simp: d canon_append)
  show "Domain_Max d \<in> dvals d" using l by (simp add: d Domain_Max_def interval_ok_def)
  show "x \<le> Domain_Max d" if "x \<in> dvals d"
    using that l lt by (force simp: d Domain_Max_def mem_dvals interval_ok_def)
qed

lemma Domain_IsEmpty_iff: "canon d \<Longrightarrow> Domain_IsEmpty d \<longleftrightarrow> dvals d = {}"
  by (simp add: Domain_IsEmpty_def dvals_empty_iff)

lemma Domain_IsFixed_iff:
  assumes "canon d" "d \<noteq> []"
  shows "Domain_IsFixed d \<longleftrightarrow> (\<exists>v. dvals d = {v})"
proof
  assume "Domain_IsFixed d"
  then have "x = Domain_Min d" if "x \<in> dvals d" for x
    using Domain_Min_spec(2)[OF assms that] Domain_Max_spec(2)[OF assms that]
    by (simp add: Domain_IsFixed_def)
  then show "\<exists>v. dvals d = {v}" using Domain_Min_spec(1)[OF assms] by blast
next
  assume "\<exists>v. dvals d = {v}"
  then show "Domain_IsFixed d"
    using Domain_Min_spec(1)[OF assms] Domain_Max_spec(1)[OF assms] by (auto simp: Domain_IsFixed_def)
qed

lemma upper_bound_split: "before_upper_bound v d @ from_upper_bound v d = d"
  by (simp add: before_upper_bound_def from_upper_bound_def)

lemma before_upper_bound_le: "i \<in> set (before_upper_bound v d) \<Longrightarrow> ci_start i \<le> v"
  unfolding before_upper_bound_def by (drule set_takeWhileD) simp

lemma from_upper_bound_gt:
  assumes "canon d" "i \<in> set (from_upper_bound v d)"
  shows "v < ci_start i"
proof -
  obtain j r where f: "from_upper_bound v d = j # r" using assms(2) by (cases "from_upper_bound v d") auto
  then have "v < ci_start j"
    using hd_dropWhile[of "\<lambda>i. \<not> v < ci_start i" d] by (simp add: from_upper_bound_def)
  moreover have "canon (j # r)"
    using assms(1) f upper_bound_split[of v d] by (metis canon_append)
  ultimately show ?thesis using assms(2) f by (fastforce simp: canon_Cons interval_ok_def)
qed

text \<open>Only the interval before the upper bound can contain the value.\<close>

lemma mem_dvals_upper_bound:
  assumes "canon d"
  shows "v \<in> dvals d \<longleftrightarrow> (before_upper_bound v d \<noteq> [] \<and> v \<le> ci_end (last (before_upper_bound v d)))"
proof -
  let ?b = "before_upper_bound v d"
  have "v \<in> dvals d \<longleftrightarrow> v \<in> dvals ?b"
    using upper_bound_split[of v d] from_upper_bound_gt[OF assms, of _ v]
    by (metis (no_types, lifting) UnCI Un_iff dvals_append mem_dvals not_le)
  also have "\<dots> \<longleftrightarrow> (?b \<noteq> [] \<and> v \<le> ci_end (last ?b))"
  proof (cases ?b rule: rev_cases)
    case (snoc bs l)
    have "ci_start l \<le> v" using before_upper_bound_le[of l v d] snoc by simp
    moreover have "\<forall>i \<in> set bs. ci_end i + 1 < ci_start l"
      using assms upper_bound_split[of v d] snoc by (metis canon_append list.set_intros(1))
    ultimately show ?thesis using snoc by (force simp: mem_dvals)
  qed simp
  finally show ?thesis .
qed

lemma Domain_Contains_iff: "canon d \<Longrightarrow> Domain_Contains d v \<longleftrightarrow> v \<in> dvals d"
  by (simp add: Domain_Contains_def mem_dvals_upper_bound split: list.split)

lemma last_before_is_below:
  assumes "canon d" "before_upper_bound v d \<noteq> []" "y \<in> dvals d" "y \<le> v"
  shows "y \<le> ci_end (last (before_upper_bound v d))"
proof -
  obtain bs l where b: "before_upper_bound v d = bs @ [l]"
    using assms(2) by (metis append_butlast_last_id)
  have "y \<in> dvals (bs @ [l])"
    using assms b upper_bound_split[of v d] from_upper_bound_gt[OF assms(1), of _ v]
    by (metis (no_types, lifting) Un_iff dvals_append le_less_trans mem_dvals not_le)
  moreover have "\<forall>i \<in> set bs. ci_end i + 1 < ci_start l" "interval_ok l"
    using assms(1) upper_bound_split[of v d] b by (metis canon_append canon_singleton list.set_intros(1))+
  ultimately show ?thesis using b by (force simp: mem_dvals interval_ok_def)
qed

text \<open>The greatest value not above the input, or the input itself when there is none.\<close>

lemma Domain_ValueAtOrBefore_spec:
  assumes "canon d"
  shows "(\<exists>y \<in> dvals d. y \<le> v) \<Longrightarrow> Domain_ValueAtOrBefore d v \<in> dvals d \<and> Domain_ValueAtOrBefore d v \<le> v"
    "y \<in> dvals d \<Longrightarrow> y \<le> v \<Longrightarrow> y \<le> Domain_ValueAtOrBefore d v"
    "\<not> (\<exists>y \<in> dvals d. y \<le> v) \<Longrightarrow> Domain_ValueAtOrBefore d v = v"
proof -
  let ?b = "before_upper_bound v d"
  have nil: "?b = [] \<Longrightarrow> \<not> (\<exists>y \<in> dvals d. y \<le> v)"
    using upper_bound_split[of v d] from_upper_bound_gt[OF assms, of _ v]
    by (force simp: mem_dvals)
  have val: "?b \<noteq> [] \<Longrightarrow> Domain_ValueAtOrBefore d v = (if v \<le> ci_end (last ?b) then v else ci_end (last ?b))"
    by (simp add: Domain_ValueAtOrBefore_def split: list.split)
  have l: "?b \<noteq> [] \<Longrightarrow> last ?b \<in> set d \<and> ci_start (last ?b) \<le> v"
    using upper_bound_split[of v d] before_upper_bound_le[of "last ?b" v d]
    by (metis Un_iff last_in_set set_append)
  have mem: "?b \<noteq> [] \<Longrightarrow> ci_end (last ?b) \<in> dvals d"
    using l canon_interval_ok[OF assms] by (auto simp: mem_dvals interval_ok_def)
  show "Domain_ValueAtOrBefore d v \<in> dvals d \<and> Domain_ValueAtOrBefore d v \<le> v"
    if "\<exists>y \<in> dvals d. y \<le> v"
  proof -
    have ne: "?b \<noteq> []" using that nil by blast
    have "v \<le> ci_end (last ?b) \<Longrightarrow> v \<in> dvals d" using mem_dvals_upper_bound[OF assms] ne by blast
    with val[OF ne] mem[OF ne] show ?thesis by simp
  qed
  show "y \<le> Domain_ValueAtOrBefore d v" if "y \<in> dvals d" "y \<le> v"
  proof -
    have ne: "?b \<noteq> []" using that nil by blast
    with val last_before_is_below[OF assms ne that] that show ?thesis by simp
  qed
  show "Domain_ValueAtOrBefore d v = v" if "\<not> (\<exists>y \<in> dvals d. y \<le> v)"
  proof (cases "?b = []")
    case True
    then show ?thesis by (simp add: Domain_ValueAtOrBefore_def)
  next
    case False
    then have "\<not> ci_end (last ?b) \<le> v" using mem that by blast
    with val[OF False] show ?thesis by simp
  qed
qed

text \<open>The least value not below the input, or the input itself when there is none.\<close>

lemma Domain_ValueAtOrAfter_spec:
  assumes "canon d" "\<exists>y \<in> dvals d. v \<le> y"
  shows "Domain_ValueAtOrAfter d v \<in> dvals d \<and> v \<le> Domain_ValueAtOrAfter d v \<and>
    (\<forall>y \<in> dvals d. v \<le> y \<longrightarrow> Domain_ValueAtOrAfter d v \<le> y)"
proof (cases "v \<in> dvals d")
  case True
  then have b: "before_upper_bound v d \<noteq> []" "v \<le> ci_end (last (before_upper_bound v d))"
    using mem_dvals_upper_bound[OF assms(1)] by blast+
  then have "Domain_ValueAtOrAfter d v = v"
    by (auto simp: Domain_ValueAtOrAfter_def split: list.split)
  with True show ?thesis by simp
next
  case False
  let ?b = "before_upper_bound v d" and ?f = "from_upper_bound v d"
  have nb: "?b \<noteq> [] \<Longrightarrow> \<not> v \<le> ci_end (last ?b)"
    using False mem_dvals_upper_bound[OF assms(1)] by blast
  have low: "y < v" if y: "y \<in> dvals ?b" for y
  proof -
    have "?b \<noteq> []" using y by auto
    then have e: "ci_end (last ?b) < v" using nb by simp
    have "y \<in> dvals d" using y upper_bound_split[of v d] by (metis UnI1 dvals_append)
    moreover have "y \<le> v"
    proof (rule ccontr)
      assume "\<not> y \<le> v"
      obtain i where i: "i \<in> set ?b" "ci_start i \<le> y" "y \<le> ci_end i" using y by (auto simp: mem_dvals)
      then have "v \<in> ivals i" using before_upper_bound_le[OF i(1)] \<open>\<not> y \<le> v\<close> by simp
      then have "v \<in> dvals d" using i(1) upper_bound_split[of v d]
        by (metis Un_iff dvals_append mem_dvals mem_ivals)
      with False show False by simp
    qed
    ultimately show ?thesis
      using last_before_is_below[OF assms(1) \<open>?b \<noteq> []\<close>] e by force
  qed
  have "?f \<noteq> []" using assms(2) low upper_bound_split[of v d] by (metis append_Nil2 linorder_not_le)
  then obtain j r where f: "?f = j # r" by (cases ?f) auto
  have r: "Domain_ValueAtOrAfter d v = ci_start j"
    using nb by (auto simp: Domain_ValueAtOrAfter_def f split: list.split)
  have c: "canon (j # r)" using assms(1) f upper_bound_split[of v d] by (metis canon_append)
  have dv: "dvals d = dvals ?b \<union> dvals (j # r)"
    using f upper_bound_split[of v d] by (metis dvals_append)
  have "v < ci_start j" using from_upper_bound_gt[OF assms(1), of j v] f by simp
  moreover have "ci_start j \<in> dvals d" using dv start_mem[OF c] by simp
  moreover have "ci_start j \<le> y" if "y \<in> dvals d" "v \<le> y" for y
    using that dv low dvals_Cons_lower[OF c] by force
  ultimately show ?thesis using r by simp
qed

lemma Domain_IsIncludedIn_iff:
  "canon d \<Longrightarrow> canon e \<Longrightarrow> Domain_IsIncludedIn d e \<longleftrightarrow> dvals d \<subseteq> dvals e"
proof (induction d e rule: Domain_IsIncludedIn.induct)
  case (1 e)
  then show ?case by simp
next
  case (2 i r e)
  have i: "interval_ok i" "canon r" "\<forall>j \<in> set r. ci_end i + 1 < ci_start j"
    using "2.prems" by (auto simp: canon_Cons)
  let ?drop = "dropWhile (\<lambda>j. ci_end i > ci_end j) e"
  let ?take = "takeWhile (\<lambda>j. ci_end i > ci_end j) e"
  have e: "e = ?take @ ?drop" by simp
  have cd: "canon ?drop" "canon ?take" using "2.prems"(2) e canon_append by metis+
  have taken: "x \<in> dvals ?take \<Longrightarrow> x < ci_end i" for x
    by (force simp: mem_dvals dest: set_takeWhileD)
  have de: "dvals e = dvals ?take \<union> dvals ?drop" using e dvals_append by metis
  show ?case
  proof (cases ?drop)
    case Nil
    have "dvals e = dvals ?take" using de unfolding Nil by simp
    then have "ci_end i \<notin> dvals e" using taken by blast
    moreover have "ci_end i \<in> dvals (i # r)" using i(1) by (simp add: interval_ok_def)
    moreover have "\<not> Domain_IsIncludedIn (i # r) e"
      unfolding Domain_IsIncludedIn.simps Nil by simp
    ultimately show ?thesis by blast
  next
    case (Cons k ks)
    have k: "ci_end i \<le> ci_end k" using hd_dropWhile[of "\<lambda>j. ci_end i > ci_end j" e] Cons by simp
    have co: "canon (k # ks)" using cd Cons by simp
    have gap: "\<forall>j \<in> set ?take. ci_end j + 1 < ci_start k"
      using "2.prems"(2) e Cons by (metis canon_append list.set_intros(1))
    show ?thesis
    proof (cases "ci_start i < ci_start k")
      case True
      have low: "x < ci_start k \<Longrightarrow> x \<notin> dvals ?drop" for x
        using dvals_Cons_lower[OF co, of x] Cons by force
      have "\<exists>x \<in> ivals i. x \<notin> dvals e"
      proof (cases "ci_end i < ci_start k")
        case True
        then have "ci_end i \<notin> dvals e" using low taken de by blast
        then show ?thesis using i(1) by (intro bexI[of _ "ci_end i"]) (auto simp: interval_ok_def)
      next
        case False
        have "ci_start k - 1 \<notin> dvals ?take" using gap by (force simp: mem_dvals)
        then have "ci_start k - 1 \<notin> dvals e" using low[of "ci_start k - 1"] de by simp
        then show ?thesis using True False
          by (intro bexI[of _ "ci_start k - 1"]) auto
      qed
      then have "\<not> dvals (i # r) \<subseteq> dvals e" by auto
      moreover have "\<not> Domain_IsIncludedIn (i # r) e"
        unfolding Domain_IsIncludedIn.simps Cons using True by simp
      ultimately show ?thesis by blast
    next
      case False
      then have "ivals i \<subseteq> dvals (k # ks)" using k by auto
      then have sub: "ivals i \<subseteq> dvals e" using de unfolding Cons by blast
      have "x \<notin> dvals ?take" if "x \<in> dvals r" for x
        using that i(3) taken[of x] by (force simp: mem_dvals)
      then have "dvals r \<subseteq> dvals e \<longleftrightarrow> dvals r \<subseteq> dvals (k # ks)"
        using de unfolding Cons by blast
      moreover have "Domain_IsIncludedIn r (k # ks) \<longleftrightarrow> dvals r \<subseteq> dvals (k # ks)"
        using "2.IH"[OF Cons False] i(2) co by simp
      moreover have "Domain_IsIncludedIn (i # r) e \<longleftrightarrow> Domain_IsIncludedIn r (k # ks)"
        unfolding Domain_IsIncludedIn.simps Cons using False by simp
      ultimately show ?thesis using sub by simp
    qed
  qed
qed

lemma Domain_OverlapsWith_iff:
  "canon d \<Longrightarrow> canon e \<Longrightarrow> Domain_OverlapsWith d e \<longleftrightarrow> dvals d \<inter> dvals e \<noteq> {}"
proof (induction d e rule: Domain_OverlapsWith.induct)
  case (1 a as b bs)
  have ca: "interval_ok a" "canon as" and cb: "interval_ok b" "canon bs"
    using 1 by (auto simp: canon_Cons)
  consider "ci_start a \<le> ci_start b" "ci_end a < ci_start b"
    | "\<not> ci_start a \<le> ci_start b" "ci_end b < ci_start a"
    | "ci_start a \<le> ci_start b" "\<not> ci_end a < ci_start b"
    | "\<not> ci_start a \<le> ci_start b" "\<not> ci_end b < ci_start a" by blast
  then show ?case
  proof cases
    case 1
    then have "ivals a \<inter> dvals (b # bs) = {}" using dvals_Cons_lower[OF "1.prems"(2)] by force
    then show ?thesis using 1 "1.IH"(1) ca "1.prems"(2) by auto
  next
    case 2
    then have "dvals (a # as) \<inter> ivals b = {}" using dvals_Cons_lower[OF "1.prems"(1)] by force
    then show ?thesis using 2 "1.IH"(2) cb "1.prems"(1) by auto
  next
    case 3
    then have "ci_start b \<in> dvals (a # as) \<inter> dvals (b # bs)" using cb by (simp add: interval_ok_def)
    then show ?thesis using 3 by (simp del: dvals_simps) blast
  next
    case 4
    then have "ci_start a \<in> dvals (a # as) \<inter> dvals (b # bs)" using ca by (simp add: interval_ok_def)
    then show ?thesis using 4 by (simp del: dvals_simps) blast
  qed
qed simp_all

section \<open>Size and iteration\<close>

lemma finite_dvals: "finite (dvals d)"
  by (simp add: dvals_def ivals_def)

lemma card_dvals:
  "canon d \<Longrightarrow> int (card (dvals d)) = (\<Sum>i\<leftarrow>d. ci_end i - ci_start i) + int (length d)"
proof (induction d)
  case (Cons i d)
  have "ivals i \<inter> dvals d = {}" using dvals_tail_gap[OF Cons.prems] by fastforce
  then have "card (dvals (i # d)) = card (ivals i) + card (dvals d)"
    by (simp add: card_Un_disjoint finite_dvals ivals_def)
  moreover have "int (card (ivals i)) = ci_end i - ci_start i + 1"
    using Cons.prems by (simp add: ivals_def canon_Cons interval_ok_def)
  ultimately show ?case using Cons by (simp add: canon_Cons)
qed simp

lemma size_fold:
  assumes "\<forall>i \<in> set d. interval_ok i" "0 \<le> s"
  shows "foldl (\<lambda>size i. CapAdd size (CapSub (ci_end i) (ci_start i))) (clamp64 s) d =
    clamp64 (s + (\<Sum>i\<leftarrow>d. ci_end i - ci_start i))"
  using assms
proof (induction d arbitrary: s)
  case (Cons i d)
  have i: "in_int64 (ci_end i)" "in_int64 (ci_start i)" "0 \<le> ci_end i - ci_start i"
    using Cons.prems by (auto simp: interval_ok_def)
  have "CapAdd (clamp64 s) (CapSub (ci_end i) (ci_start i)) = clamp64 (clamp64 s + clamp64 (ci_end i - ci_start i))"
    using i by (simp add: CapSub_clamp CapAdd_clamp int64_intros)
  also have "\<dots> = clamp64 (s + (ci_end i - ci_start i))"
    using i(3) Cons.prems(2) by (auto simp: clamp64_def)
  finally show ?case
    using Cons.IH[of "s + (ci_end i - ci_start i)"] Cons.prems i(3) by (simp add: algebra_simps)
qed simp

text \<open>The number of values, capped.  A list has fewer than \<open>2^63\<close> intervals.\<close>

lemma Domain_Size_spec:
  assumes "canon d" "int (length d) \<le> kint64max"
  shows "Domain_Size d = min kint64max (int (card (dvals d)))"
proof -
  have ok: "\<forall>i \<in> set d. interval_ok i" using assms(1) by (simp add: canon_def)
  have nn: "0 \<le> (\<Sum>i\<leftarrow>d. ci_end i - ci_start i)"
    using ok by (induction d) (auto simp: interval_ok_def)
  have "Domain_Size d = CapAdd (clamp64 (\<Sum>i\<leftarrow>d. ci_end i - ci_start i)) (int (length d))"
    using size_fold[OF ok, of 0] by (simp add: Domain_Size_def)
  also have "\<dots> = clamp64 (clamp64 (\<Sum>i\<leftarrow>d. ci_end i - ci_start i) + int (length d))"
    using assms(2) by (intro CapAdd_clamp int64_intros) (simp add: in_int64_def)
  also have "\<dots> = min kint64max (int (card (dvals d)))"
    using nn by (auto simp: card_dvals[OF assms(1)] clamp64_def)
  finally show ?thesis .
qed

lemma set_Domain_Values: "set (Domain_Values d) = dvals d"
  by (auto simp: Domain_Values_def mem_dvals)

lemma sorted_Domain_Values: "canon d \<Longrightarrow> sorted_wrt (<) (Domain_Values d)"
proof (induction d)
  case (Cons i d)
  have "x < y" if "x \<in> set [ci_start i..ci_end i]" "y \<in> set (Domain_Values d)" for x y
    using that dvals_tail_gap[OF Cons.prems, of y] by (auto simp: set_Domain_Values)
  moreover have "sorted_wrt (<) (Domain_Values d)" using Cons by (simp add: canon_Cons)
  ultimately show ?case by (simp add: Domain_Values_def sorted_wrt_append)
qed (simp add: Domain_Values_def)

text \<open>What a range-based \<open>for\<close> over \<open>Values()\<close> sees from an iterator on: the values left in the
  current interval, then the later intervals.\<close>

fun iter_rest :: "domain_iterator \<Rightarrow> int64 list" where
  "iter_rest (v, []) = []"
| "iter_rest (v, i # r) = [v..ci_end i] @ Domain_Values r"

definition iter_ok :: "domain_iterator \<Rightarrow> bool" where
  "iter_ok it \<longleftrightarrow> canon (snd it) \<and> (snd it \<noteq> [] \<longrightarrow> fst it \<in> ivals (hd (snd it)))"

lemma iter_begin_spec: "canon d \<Longrightarrow> iter_ok (iter_begin d) \<and> iter_rest (iter_begin d) = Domain_Values d"
  by (cases d) (auto simp: iter_ok_def Domain_Values_def canon_Cons interval_ok_def)

lemma iter_next_spec:
  assumes "iter_ok it" "\<not> iter_at_end it"
  shows "iter_ok (iter_next it)" "iter_rest it = fst it # iter_rest (iter_next it)"
proof -
  obtain v i r where it: "it = (v, i # r)" using assms(2) by (cases it; cases "snd it") (auto simp: iter_at_end_def)
  have v: "ci_start i \<le> v" "v \<le> ci_end i" and c: "canon (i # r)"
    using assms(1) by (auto simp: it iter_ok_def)
  have up: "[v..ci_end i] = v # [v + 1..ci_end i]" using v by (simp add: upto.simps)
  have "iter_ok (iter_next it) \<and> iter_rest it = fst it # iter_rest (iter_next it)"
  proof (cases r)
    case Nil
    then show ?thesis using up v c by (auto simp: it iter_ok_def Domain_Values_def)
  next
    case (Cons j s)
    then show ?thesis using up v c
      by (auto simp: it iter_ok_def Domain_Values_def canon_Cons interval_ok_def)
  qed
  then show "iter_ok (iter_next it)" "iter_rest it = fst it # iter_rest (iter_next it)" by simp_all
qed

end
