(* ===== verification/DomainOps.thy ===== *)
theory DomainOps
  imports SortedIntervals
begin

text \<open>
  The set operations of \<open>class Domain\<close> (\<open>or-tools/ortools/util/sorted_interval_list.cc\<close>):
  complement, negation, intersection and union.  Every operation is shown to keep the class
  invariant \<open>canon\<close> and to compute exactly the set its comment in the header promises.
\<close>

section \<open>Set operations\<close>

text \<open>\<open>Complement\<close>: \<open>next_start\<close> is the first value after the intervals read so far; the
  \<open>return\<close> inside the loop is the case of an interval that reaches \<open>kint64max\<close>.\<close>

fun complement_loop :: "int64 \<Rightarrow> domain \<Rightarrow> domain" where
  "complement_loop next_start [] = [Interval next_start kint64max]"
| "complement_loop next_start (i # r) =
     (if ci_start i \<noteq> kint64min then [Interval next_start (ci_start i - 1)] else []) @
     (if ci_end i = kint64max then [] else complement_loop (ci_end i + 1) r)"

definition Domain_Complement :: "domain \<Rightarrow> domain" where
  "Domain_Complement d = complement_loop kint64min d"

definition negate_interval :: "closed_interval \<Rightarrow> closed_interval" where
  "negate_interval i =
     Interval (if ci_end i = kint64min then kint64max else - ci_end i)
              (if ci_start i = kint64min then kint64max else - ci_start i)"

definition Domain_NegateInPlace :: "domain \<Rightarrow> domain" where
  "Domain_NegateInPlace d =
     (if d = [] then d
      else let r = rev d;
               r' = (if ci_end (last r) = kint64min then butlast r else r)
           in map negate_interval r')"

definition Domain_Negation :: "domain \<Rightarrow> domain" where
  "Domain_Negation d = Domain_NegateInPlace d"

text \<open>\<open>IntersectionWith\<close>: two indices, the one whose interval ends first moves.\<close>

fun Domain_IntersectionWith :: "domain \<Rightarrow> domain \<Rightarrow> domain" where
  "Domain_IntersectionWith (a # as) (b # bs) =
     (if ci_start a \<le> ci_start b
      then (if ci_end a < ci_start b then Domain_IntersectionWith as (b # bs)
            else if ci_end a \<le> ci_end b
            then Interval (ci_start b) (ci_end a) # Domain_IntersectionWith as (b # bs)
            else Interval (ci_start b) (ci_end b) # Domain_IntersectionWith (a # as) bs)
      else (if ci_end b < ci_start a then Domain_IntersectionWith (a # as) bs
            else if ci_end b \<le> ci_end a
            then Interval (ci_start a) (ci_end b) # Domain_IntersectionWith (a # as) bs
            else Interval (ci_start a) (ci_end a) # Domain_IntersectionWith as (b # bs)))"
| "Domain_IntersectionWith _ _ = []"

text \<open>\<open>std::merge\<close> on the starts; on a tie the first range goes first.\<close>

fun std_merge :: "domain \<Rightarrow> domain \<Rightarrow> domain" where
  "std_merge (a # as) (b # bs) =
     (if ci_start b < ci_start a then b # std_merge (a # as) bs else a # std_merge as (b # bs))"
| "std_merge [] bs = bs"
| "std_merge as [] = as"

definition Domain_UnionWith :: "domain \<Rightarrow> domain \<Rightarrow> domain" where
  "Domain_UnionWith a b = UnionOfSortedIntervals (std_merge a b)"

section \<open>Set operations: what they compute\<close>

lemma canon_start_mem: "canon d \<Longrightarrow> i \<in> set d \<Longrightarrow> ci_start i \<in> dvals d"
  by (auto simp: canon_def interval_ok_def mem_dvals)

text \<open>Prefixing an interval keeps the invariant when the values behind it are beyond the gap.\<close>

lemma canon_ConsI:
  assumes "interval_ok i" "canon d" "\<And>x. x \<in> dvals d \<Longrightarrow> ci_end i + 1 < x"
  shows "canon (i # d)"
  using assms canon_start_mem by (auto simp: canon_Cons)

lemma canon_append_gap:
  "canon a \<Longrightarrow> canon b \<Longrightarrow> (\<And>i x. i \<in> set a \<Longrightarrow> x \<in> dvals b \<Longrightarrow> ci_end i + 1 < x) \<Longrightarrow> canon (a @ b)"
  using canon_start_mem by (auto simp: canon_append)

lemma complement_loop_spec:
  assumes "canon d" "in_int64 n" "\<forall>i \<in> set d. n \<le> ci_start i \<and> (ci_start i = n \<longrightarrow> n = kint64min)"
  shows "dvals (complement_loop n d) = {n..kint64max} - dvals d \<and> canon (complement_loop n d)"
  using assms
proof (induction n d rule: complement_loop.induct)
  case (1 n)
  then show ?case by (auto simp: interval_ok_def in_int64_def)
next
  case (2 n i r)
  have i: "interval_ok i" "canon r" "\<forall>j \<in> set r. ci_end i + 1 < ci_start j"
    using "2.prems"(1) by (auto simp: canon_Cons)
  have gap: "x \<in> dvals r \<Longrightarrow> ci_end i + 1 < x" for x using dvals_tail_gap[OF "2.prems"(1)] .
  define P where "P = (if ci_start i \<noteq> kint64min then [Interval n (ci_start i - 1)] else [])"
  have pre: "dvals P = {n..<ci_start i}" "canon P" "j \<in> set P \<Longrightarrow> ci_end j = ci_start i - 1" for j
    using "2.prems" i(1) by (auto simp: P_def interval_ok_def in_int64_def split: if_splits)
  have eq: "complement_loop n (i # r) =
      P @ (if ci_end i = kint64max then [] else complement_loop (ci_end i + 1) r)"
    by (simp add: P_def)
  have n: "n \<le> ci_start i" using "2.prems"(3) by simp
  show ?case
  proof (cases "ci_end i = kint64max")
    case True
    then have "x \<notin> dvals r" for x
      using gap[of x] canon_in_int64[OF i(2), of x] by (auto simp: in_int64_def)
    then have "dvals r = {}" by (simp add: set_eq_iff)
    then have "dvals (i # r) = {ci_start i..kint64max}" using True by (auto simp: ivals_def)
    then have "dvals P = {n..kint64max} - dvals (i # r)"
      unfolding pre(1) using n i(1) by (auto simp: interval_ok_def in_int64_def)
    then show ?thesis unfolding eq using pre(2) True by simp
  next
    case False
    let ?t = "complement_loop (ci_end i + 1) r"
    have "in_int64 (ci_end i + 1)" using False i(1) by (auto simp: interval_ok_def in_int64_def)
    moreover have "\<forall>j \<in> set r. ci_end i + 1 \<le> ci_start j \<and> (ci_start j = ci_end i + 1 \<longrightarrow> ci_end i + 1 = kint64min)"
      using i(3) by fastforce
    ultimately have IH: "dvals ?t = {ci_end i + 1..kint64max} - dvals r" "canon ?t"
      using "2.IH"[OF False i(2)] by blast+
    have "dvals (P @ ?t) = {n..kint64max} - dvals (i # r)"
    proof (rule set_eqI)
      fix x
      have b: "ci_start i \<le> ci_end i" "ci_end i \<le> kint64max" using i(1) by (auto simp: interval_ok_def in_int64_def)
      have m: "x \<in> dvals (P @ ?t) \<longleftrightarrow> x \<in> {n..<ci_start i} \<or> x \<in> {ci_end i + 1..kint64max} - dvals r"
        using pre(1) IH(1) by simp
      show "x \<in> dvals (P @ ?t) \<longleftrightarrow> x \<in> {n..kint64max} - dvals (i # r)"
        unfolding m using gap[of x] n b by auto
    qed
    moreover have "canon (P @ ?t)"
      using pre(2,3) IH i(1) by (intro canon_append_gap) (fastforce simp: interval_ok_def)+
    ultimately show ?thesis unfolding eq using False by simp
  qed
qed

lemma Domain_Complement_spec:
  assumes "canon d"
  shows "dvals (Domain_Complement d) = {x. in_int64 x} - dvals d" "canon (Domain_Complement d)"
proof -
  have "\<forall>i \<in> set d. kint64min \<le> ci_start i"
    using canon_interval_ok[OF assms] by (auto simp: interval_ok_def in_int64_def)
  then show "dvals (Domain_Complement d) = {x. in_int64 x} - dvals d" "canon (Domain_Complement d)"
    using complement_loop_spec[OF assms, of kint64min]
    by (auto simp: Domain_Complement_def in_int64_def)
qed

lemma negate_map_spec:
  assumes "canon e" "\<forall>i \<in> set e. ci_end i \<noteq> kint64min"
  shows "dvals (map negate_interval (rev e)) = {x. in_int64 x \<and> - x \<in> dvals e}"
    "canon (map negate_interval (rev e))"
proof -
  have ok: "interval_ok i" "ci_end i \<noteq> kint64min" if "i \<in> set e" for i
    using assms that by (auto simp: canon_def)
  have iv: "ivals (negate_interval i) = {x. in_int64 x \<and> - x \<in> ivals i}" if "i \<in> set e" for i
    using ok[OF that] by (auto simp: negate_interval_def interval_ok_def in_int64_def)
  show "dvals (map negate_interval (rev e)) = {x. in_int64 x \<and> - x \<in> dvals e}"
    using iv by (auto simp: dvals_def)
  have "sorted_wrt (\<lambda>x y. ci_end (negate_interval y) + 1 < ci_start (negate_interval x)) e"
    by (rule sorted_wrt_mono_rel[of _ "\<lambda>i j. ci_end i + 1 < ci_start j"])
      (use assms ok in \<open>auto simp: canon_def negate_interval_def interval_ok_def in_int64_def\<close>)
  moreover have "interval_ok (negate_interval i)" if "i \<in> set e" for i
    using ok[OF that] by (auto simp: negate_interval_def interval_ok_def in_int64_def)
  ultimately show "canon (map negate_interval (rev e))"
    by (auto simp: canon_def sorted_wrt_map_iff sorted_wrt_rev)
qed

lemma NegateInPlace_eq:
  assumes "d \<noteq> []"
  shows "Domain_NegateInPlace d =
    map negate_interval (rev (if ci_end (hd d) = kint64min then tl d else d))"
  using assms by (cases d) (auto simp: Domain_NegateInPlace_def)

text \<open>\<open>kint64min\<close> has no negation in range and is dropped.\<close>

lemma Domain_NegateInPlace_spec:
  assumes "canon d"
  shows "dvals (Domain_NegateInPlace d) = {x. in_int64 x \<and> - x \<in> dvals d}" (is ?v)
    "canon (Domain_NegateInPlace d)" (is ?c)
proof -
  have "?v \<and> ?c"
  proof (cases d)
    case Nil
    then show ?thesis by (simp add: Domain_NegateInPlace_def)
  next
    case (Cons i r)
    have i: "interval_ok i" "canon r" "\<forall>j \<in> set r. ci_end i + 1 < ci_start j"
      using assms Cons by (auto simp: canon_Cons)
    have rmin: "\<forall>j \<in> set r. ci_end j \<noteq> kint64min"
      using i canon_interval_ok[OF i(2)] by (fastforce simp: interval_ok_def in_int64_def)
    show ?thesis
    proof (cases "ci_end i = kint64min")
      case True
      then have "ivals i = {kint64min}" using i(1) by (auto simp: interval_ok_def in_int64_def)
      then have "{x. in_int64 x \<and> - x \<in> dvals d} = {x. in_int64 x \<and> - x \<in> dvals r}"
        by (auto simp: Cons in_int64_def)
      then show ?thesis using negate_map_spec[OF i(2) rmin] NegateInPlace_eq[of d] Cons True by simp
    next
      case False
      then show ?thesis using negate_map_spec[of d] NegateInPlace_eq[of d] assms Cons rmin by simp
    qed
  qed
  then show ?v ?c by simp_all
qed

lemma Domain_Negation_spec:
  assumes "canon d"
  shows "dvals (Domain_Negation d) = {x. in_int64 x \<and> - x \<in> dvals d}" "canon (Domain_Negation d)"
  using Domain_NegateInPlace_spec[OF assms] by (simp_all add: Domain_Negation_def)

lemma Domain_IntersectionWith_spec:
  "canon d \<Longrightarrow> canon e \<Longrightarrow>
    dvals (Domain_IntersectionWith d e) = dvals d \<inter> dvals e \<and> canon (Domain_IntersectionWith d e)"
proof (induction d e rule: Domain_IntersectionWith.induct)
  case (1 a as b bs)
  note ca = "1.prems"(1) and cb = "1.prems"(2)
  have oa: "interval_ok a" "canon as" and ob: "interval_ok b" "canon bs"
    using ca cb by (auto simp: canon_Cons)
  note ga = dvals_tail_gap[OF ca] and gb = dvals_tail_gap[OF cb]
  note la = dvals_Cons_lower[OF ca] and lb = dvals_Cons_lower[OF cb]
  consider (skip_a) "ci_start a \<le> ci_start b" "ci_end a < ci_start b"
    | (cut_a) "ci_start a \<le> ci_start b" "\<not> ci_end a < ci_start b" "ci_end a \<le> ci_end b"
    | (in_a) "ci_start a \<le> ci_start b" "\<not> ci_end a < ci_start b" "\<not> ci_end a \<le> ci_end b"
    | (skip_b) "\<not> ci_start a \<le> ci_start b" "ci_end b < ci_start a"
    | (cut_b) "\<not> ci_start a \<le> ci_start b" "\<not> ci_end b < ci_start a" "ci_end b \<le> ci_end a"
    | (in_b) "\<not> ci_start a \<le> ci_start b" "\<not> ci_end b < ci_start a" "\<not> ci_end b \<le> ci_end a"
    by blast
  then show ?case
  proof cases
    case skip_a
    then have "ivals a \<inter> dvals (b # bs) = {}" using lb by force
    with skip_a "1.IH"(1)[OF skip_a oa(2) cb] show ?thesis by auto
  next
    case cut_a
    let ?i = "Interval (ci_start b) (ci_end a)"
    have "interval_ok ?i" using cut_a oa ob by (simp add: interval_ok_def)
    then have "canon (?i # Domain_IntersectionWith as (b # bs))"
      using "1.IH"(2)[OF cut_a oa(2) cb] ga by (intro canon_ConsI) auto
    moreover have "ivals ?i = ivals a \<inter> dvals (b # bs)"
      using cut_a gb by (auto) (use gb in force)
    ultimately show ?thesis using cut_a "1.IH"(2)[OF cut_a oa(2) cb] by auto
  next
    case in_a
    let ?i = "Interval (ci_start b) (ci_end b)"
    have "interval_ok ?i" using ob by (simp add: interval_ok_def)
    then have "canon (?i # Domain_IntersectionWith (a # as) bs)"
      using "1.IH"(3)[OF in_a ca ob(2)] gb by (intro canon_ConsI) auto
    moreover have "ivals ?i = dvals (a # as) \<inter> ivals b"
      using in_a by auto
    ultimately show ?thesis using in_a "1.IH"(3)[OF in_a ca ob(2)] by auto
  next
    case skip_b
    then have "dvals (a # as) \<inter> ivals b = {}" using la by force
    with skip_b "1.IH"(4)[OF skip_b ca ob(2)] show ?thesis by auto
  next
    case cut_b
    let ?i = "Interval (ci_start a) (ci_end b)"
    have "interval_ok ?i" using cut_b oa ob by (simp add: interval_ok_def)
    then have "canon (?i # Domain_IntersectionWith (a # as) bs)"
      using "1.IH"(5)[OF cut_b ca ob(2)] gb by (intro canon_ConsI) auto
    moreover have "ivals ?i = dvals (a # as) \<inter> ivals b"
      using cut_b ga by (auto) (use ga in force)
    ultimately show ?thesis using cut_b "1.IH"(5)[OF cut_b ca ob(2)] by auto
  next
    case in_b
    let ?i = "Interval (ci_start a) (ci_end a)"
    have "interval_ok ?i" using oa by (simp add: interval_ok_def)
    then have "canon (?i # Domain_IntersectionWith as (b # bs))"
      using "1.IH"(6)[OF in_b oa(2) cb] ga by (intro canon_ConsI) auto
    moreover have "ivals ?i = ivals a \<inter> dvals (b # bs)"
      using in_b by auto
    ultimately show ?thesis using in_b "1.IH"(6)[OF in_b oa(2) cb] by auto
  qed
qed simp_all

lemma set_std_merge: "set (std_merge a b) = set a \<union> set b"
  by (induction a b rule: std_merge.induct) auto

lemma sorted_std_merge:
  "sorted (map ci_start a) \<Longrightarrow> sorted (map ci_start b) \<Longrightarrow> sorted (map ci_start (std_merge a b))"
  by (induction a b rule: std_merge.induct) (auto simp: set_std_merge)

lemma Domain_UnionWith_spec:
  assumes "canon a" "canon b"
  shows "dvals (Domain_UnionWith a b) = dvals a \<union> dvals b" "canon (Domain_UnionWith a b)"
proof -
  have "\<forall>i \<in> set (std_merge a b). interval_ok i" using assms by (auto simp: set_std_merge canon_def)
  moreover have "sorted (map ci_start (std_merge a b))"
    using assms by (intro sorted_std_merge canon_sorted_starts)
  moreover have "dvals (std_merge a b) = dvals a \<union> dvals b" by (auto simp: dvals_def set_std_merge)
  ultimately show "dvals (Domain_UnionWith a b) = dvals a \<union> dvals b" "canon (Domain_UnionWith a b)"
    using UnionOfSortedIntervals_spec[of "std_merge a b"] by (simp_all add: Domain_UnionWith_def)
qed

end
