(* ===== verification/DomainDiv.thy ===== *)
theory DomainDiv
  imports DomainArith
begin

text \<open>
  Quotients and remainders of \<open>class Domain\<close> (\<open>or-tools/ortools/util/sorted_interval_list.cc\<close>):
  \<open>DivisionBy\<close> and \<open>InverseMultiplicationBy\<close> compute exact sets, \<open>PositiveModuloBySuperset\<close>
  and \<open>DivisionBySuperset\<close> supersets of all the quotients and remainders.
\<close>

section \<open>The operations\<close>

text \<open>The caller checks \<open>coeff \<noteq> 0\<close> (a CHECK of the source).\<close>

definition Domain_DivisionBy :: "domain \<Rightarrow> int64 \<Rightarrow> domain" where
  "Domain_DivisionBy d coeff =
     (let abs_coeff = std_abs coeff;
          r = UnionOfSortedIntervals
                (map (\<lambda>i. Interval (ci_start i sdiv abs_coeff) (ci_end i sdiv abs_coeff)) d)
      in if coeff < 0 then Domain_NegateInPlace r else r)"

definition CeilRatio :: "int64 \<Rightarrow> int64 \<Rightarrow> int64" where
  "CeilRatio value positive_coeff =
     (let result = value sdiv positive_coeff;
          adjust = (if result * positive_coeff < value then 1 else 0)
      in result + adjust)"

definition FloorRatio :: "int64 \<Rightarrow> int64 \<Rightarrow> int64" where
  "FloorRatio value positive_coeff =
     (let result = value sdiv positive_coeff;
          adjust = (if result * positive_coeff > value then 1 else 0)
      in result - adjust)"

text \<open>The compaction loop of \<open>InverseMultiplicationBy\<close>, with the interval written last, if any.\<close>

fun inverse_mult_loop :: "int64 \<Rightarrow> closed_interval option \<Rightarrow> domain \<Rightarrow> domain" where
  "inverse_mult_loop c prev [] = (case prev of None \<Rightarrow> [] | Some p \<Rightarrow> [p])"
| "inverse_mult_loop c prev (i # r) =
     (let start = CeilRatio (ci_start i) c;
          stop = FloorRatio (ci_end i) c
      in if start > stop then inverse_mult_loop c prev r
         else case prev of
             None \<Rightarrow> inverse_mult_loop c (Some (Interval start stop)) r
           | Some p \<Rightarrow>
               if start = ci_end p + 1
               then inverse_mult_loop c (Some (Interval (ci_start p) stop)) r
               else p # inverse_mult_loop c (Some (Interval start stop)) r)"

definition Domain_InverseMultiplicationBy :: "domain \<Rightarrow> int64 \<Rightarrow> domain" where
  "Domain_InverseMultiplicationBy d coeff =
     (if coeff = 0 then (if Domain_Contains d 0 then Domain_AllValues else [])
      else let r = inverse_mult_loop (std_abs coeff) None d
           in if coeff < 0 then Domain_NegateInPlace r else r)"

definition ModuloHelper :: "int64 \<Rightarrow> int64 \<Rightarrow> domain \<Rightarrow> domain" where
  "ModuloHelper mn mx m =
     (let max_mod = wrap64 (Domain_Max m - 1)
      in if Domain_Min m = Domain_Max m
         then let size = wrap64 (mx - mn);
                  v1 = mn smod Domain_Max m
              in if wrap64 (v1 + size) > max_mod then Domain_range 0 max_mod
                 else Domain_range v1 (wrap64 (v1 + size))
         else Domain_range 0 (min mx max_mod))"

definition Domain_PositiveModuloBySuperset :: "domain \<Rightarrow> domain \<Rightarrow> domain" where
  "Domain_PositiveModuloBySuperset d m =
     (if d = [] then []
      else let max_mod = wrap64 (Domain_Max m - 1)
           in if Domain_Max d \<ge> 0 \<and> Domain_Min d \<le> 0
              then Domain_range (max (Domain_Min d) (- max_mod)) (min (Domain_Max d) max_mod)
              else if Domain_Min d > 0 then ModuloHelper (Domain_Min d) (Domain_Max d) m
              else Domain_Negation
                     (ModuloHelper (wrap64 (- Domain_Max d)) (wrap64 (- Domain_Min d)) m))"

definition positive_superset :: "int64 \<Rightarrow> int64 \<Rightarrow> int64 \<Rightarrow> int64 \<Rightarrow> domain" where
  "positive_superset lmin lmax rmin rmax =
     Domain_range (min (lmin sdiv rmax) (lmin sdiv rmin)) (max (lmax sdiv rmin) (lmax sdiv rmax))"

definition safe_div :: "int64 \<Rightarrow> int64 \<Rightarrow> int64" where
  "safe_div a b = (if a = kint64min \<and> b = - 1 then kint64max else a sdiv b)"

definition negative_superset :: "int64 \<Rightarrow> int64 \<Rightarrow> int64 \<Rightarrow> int64 \<Rightarrow> domain" where
  "negative_superset lmin lmax rmin rmax =
     Domain_range (min (safe_div lmax rmin) (safe_div lmax rmax))
                  (max (safe_div lmin rmax) (safe_div lmin rmin))"

definition Domain_DivisionBySuperset :: "domain \<Rightarrow> domain \<Rightarrow> domain" where
  "Domain_DivisionBySuperset d divisor =
     (if d = [] \<or> divisor = [] then []
      else if Domain_Min divisor = 0 \<and> Domain_Max divisor = 0 then []
      else if Domain_Min divisor \<ge> 0
      then positive_superset (Domain_Min d) (Domain_Max d) (max (Domain_Min divisor) 1) (Domain_Max divisor)
      else if Domain_Max divisor \<le> 0
      then negative_superset (Domain_Min d) (Domain_Max d) (Domain_Min divisor) (min (Domain_Max divisor) (- 1))
      else Domain_UnionWith
             (negative_superset (Domain_Min d) (Domain_Max d) (Domain_Min divisor)
                (Domain_ValueAtOrBefore divisor (- 1)))
             (positive_superset (Domain_Min d) (Domain_Max d) (Domain_ValueAtOrAfter divisor 1)
                (Domain_Max divisor)))"


section \<open>Truncated division\<close>

lemma sdiv_uminus_right: "a sdiv (- c) = - (a sdiv c)" for a c :: int
  by (simp add: signed_divide_int_def sgn_if)

lemma sdiv_mult_self: "0 < c \<Longrightarrow> (y * c) sdiv c = y" for c y :: int
  using nonzero_mult_div_cancel_right[of c "- y"]
  by (cases "0 \<le> y") (simp_all add: signed_divide_int_def sgn_if abs_mult zero_less_mult_iff)

lemma sdiv_surj_interval:
  fixes c s e y :: int
  assumes "0 < c" "s \<le> e" "s sdiv c \<le> y" "y \<le> e sdiv c"
  shows "\<exists>x. s \<le> x \<and> x \<le> e \<and> x sdiv c = y"
proof -
  have up: "y * c \<le> e" if "0 < y"
  proof -
    have "0 \<le> e"
      using that assms(1,4) sdiv_bounds[of c e] by (auto simp: max_def split: if_splits)
    then show ?thesis using assms(1,4) by (simp add: sdiv_pos le_div_iff_mult_le)
  qed
  have down: "s \<le> y * c" if "y < 0"
  proof -
    have "s < 0"
      using that assms(1,3) sdiv_bounds[of c s] by (auto simp: min_def split: if_splits)
    then have "- y \<le> (- s) div c" using assms(1,3) by (simp add: sdiv_pos)
    then show ?thesis using assms(1) by (simp add: le_div_iff_mult_le)
  qed
  consider "0 < y" "s \<le> y * c" | "y < 0" "y * c \<le> e" | "0 < y" "y * c < s" | "y < 0" "e < y * c"
    | "y = 0" "s \<le> 0" "0 \<le> e" | "y = 0" "0 < s" | "y = 0" "e < 0" by linarith
  then show ?thesis
  proof cases
    case 1
    then show ?thesis using up sdiv_mult_self[OF assms(1)] by blast
  next
    case 2
    then show ?thesis using down sdiv_mult_self[OF assms(1)] by blast
  next
    case 3
    then have "s sdiv c = y"
      using assms(3) sdiv_mono[OF assms(1), of "y * c" s] sdiv_mult_self[OF assms(1), of y] by simp
    then show ?thesis using assms(2) by blast
  next
    case 4
    then have "e sdiv c = y"
      using assms(4) sdiv_mono[OF assms(1), of e "y * c"] sdiv_mult_self[OF assms(1), of y] by simp
    then show ?thesis using assms(2) by blast
  next
    case 5
    moreover have "(0 :: int) sdiv c = 0" using assms(1) by (simp add: sdiv_pos)
    ultimately show ?thesis by blast
  next
    case 6
    then have "s sdiv c = y" using assms(3) assms(1) sdiv_bounds[of c s] by simp
    then show ?thesis using assms(2) by blast
  next
    case 7
    then have "e sdiv c = y" using assms(4) assms(1) sdiv_bounds[of c e] by simp
    then show ?thesis using assms(2) by blast
  qed
qed

lemma sdiv_between_denominators:
  fixes a r y R :: int
  assumes "0 < r" "r \<le> y" "y \<le> R"
  shows "min (a sdiv R) (a sdiv r) \<le> a sdiv y" "a sdiv y \<le> max (a sdiv r) (a sdiv R)"
proof -
  have pos: "0 < y" "0 < R" using assms by simp_all
  have m: "0 \<le> n \<Longrightarrow> n div R \<le> n div y \<and> n div y \<le> n div r" for n :: int
    using zdiv_mono2[of n y R] zdiv_mono2[of n r y] assms pos by simp
  show "min (a sdiv R) (a sdiv r) \<le> a sdiv y" "a sdiv y \<le> max (a sdiv r) (a sdiv R)"
    using m[of a] m[of "- a"] by (cases "0 \<le> a"; simp add: sdiv_pos assms(1) pos min_def max_def)+
qed

section \<open>Division by a constant\<close>

lemma Domain_DivisionBy_spec:
  assumes "canon d" "in_int64 c" "c \<noteq> kint64min" "c \<noteq> 0"
  shows "dvals (Domain_DivisionBy d c) = {y. in_int64 y \<and> (\<exists>x \<in> dvals d. y = x sdiv c)}"
    "canon (Domain_DivisionBy d c)"
proof -
  define r where "r = UnionOfSortedIntervals
    (map (\<lambda>i. Interval (ci_start i sdiv \<bar>c\<bar>) (ci_end i sdiv \<bar>c\<bar>)) d)"
  have c: "0 < \<bar>c\<bar>" using assms(4) by simp
  have mono: "x sdiv \<bar>c\<bar> \<le> y sdiv \<bar>c\<bar>" if "x \<le> y" for x y using sdiv_mono[OF c that] .
  have range: "in_int64 (x sdiv \<bar>c\<bar>)" if "in_int64 x" for x using in_int64_sdiv[OF that c] .
  note u = union_map_mono_spec[OF assms(1), of "\<lambda>x. x sdiv \<bar>c\<bar>", OF mono range, folded r_def]
  have r: "canon r" "dvals r = (\<lambda>x. x sdiv \<bar>c\<bar>) ` dvals d"
  proof -
    show "canon r" by (rule u(1))
    have "y \<in> (\<lambda>x. x sdiv \<bar>c\<bar>) ` dvals d" if y: "y \<in> dvals r" for y
    proof -
      obtain i where i: "i \<in> set d" "ci_start i sdiv \<bar>c\<bar> \<le> y" "y \<le> ci_end i sdiv \<bar>c\<bar>"
        using y u(2) by blast
      have "ci_start i \<le> ci_end i" using canon_interval_ok[OF assms(1) i(1)] by (simp add: interval_ok_def)
      from sdiv_surj_interval[OF c this i(2,3)] obtain x
        where "ci_start i \<le> x" "x \<le> ci_end i" "x sdiv \<bar>c\<bar> = y" by blast
      moreover from this(1,2) i(1) have "x \<in> dvals d" by (auto simp: mem_dvals)
      ultimately show ?thesis by blast
    qed
    then show "dvals r = (\<lambda>x. x sdiv \<bar>c\<bar>) ` dvals d" using u(3) by blast
  qed
  have eq: "Domain_DivisionBy d c = (if c < 0 then Domain_NegateInPlace r else r)"
    using assms(2,3) by (simp add: Domain_DivisionBy_def r_def Let_def)
  show "canon (Domain_DivisionBy d c)" using r(1) Domain_NegateInPlace_spec(2) by (simp add: eq)
  show "dvals (Domain_DivisionBy d c) = {y. in_int64 y \<and> (\<exists>x \<in> dvals d. y = x sdiv c)}"
  proof (cases "c < 0")
    case True
    then have "x sdiv \<bar>c\<bar> = - (x sdiv c)" for x by (simp add: sdiv_uminus_right)
    then have neg: "- y \<in> (\<lambda>x. x sdiv \<bar>c\<bar>) ` dvals d \<longleftrightarrow> (\<exists>x \<in> dvals d. y = x sdiv c)" for y
      by (simp only:) auto
    show ?thesis
      using True Domain_NegateInPlace_spec(1)[OF r(1)] unfolding r(2) eq neg by simp
  next
    case False
    then show ?thesis
      using r canon_in_int64[OF r(1)] by (auto simp: eq)
  qed
qed

section \<open>Inverse of a multiplication\<close>

lemma le_FloorRatio: "0 < c \<Longrightarrow> x \<le> FloorRatio e c \<longleftrightarrow> x * c \<le> e"
  and FloorRatio_div: "0 < c \<Longrightarrow> FloorRatio e c = e div c"
proof -
  assume c: "0 < c"
  have "FloorRatio e c = e div c"
  proof (cases "0 \<le> e")
    case True
    then have "\<not> e div c * c > e" "e sdiv c = e div c"
      using c le_div_iff_mult_le[OF c, of "e div c" e] by (simp_all add: sdiv_pos)
    then show ?thesis by (simp add: FloorRatio_def Let_def)
  next
    case False
    let ?q = "- ((- e) div c)"
    have q: "(- e) div c * c \<le> - e" "- e < (- e) div c * c + c"
      using c pos_mod_bound[OF c, of "- e"] pos_mod_sign[OF c, of "- e"] div_mult_mod_eq[of "- e" c] by linarith+
    have s: "e sdiv c = ?q" using c False by (simp add: sdiv_pos)
    have "e div c = (if ?q * c > e then ?q - 1 else ?q)"
      by (rule int_div_pos_eq[of _ _ _ "e - (if ?q * c > e then ?q - 1 else ?q) * c"])
        (use q c in \<open>auto simp: algebra_simps\<close>)
    then show ?thesis using s by (simp add: FloorRatio_def Let_def)
  qed
  then show "FloorRatio e c = e div c" "x \<le> FloorRatio e c \<longleftrightarrow> x * c \<le> e"
    using le_div_iff_mult_le[OF c] by simp_all
qed

lemma CeilRatio_le: "0 < c \<Longrightarrow> CeilRatio s c \<le> x \<longleftrightarrow> s \<le> x * c"
  and CeilRatio_Floor: "CeilRatio s c = - FloorRatio (- s) c"
proof -
  have "(- s) sdiv c = - (s sdiv c)" by (simp add: signed_divide_int_def sgn_if)
  then show e: "CeilRatio s c = - FloorRatio (- s) c"
    by (simp add: CeilRatio_def FloorRatio_def Let_def)
  show "0 < c \<Longrightarrow> CeilRatio s c \<le> x \<longleftrightarrow> s \<le> x * c"
    using le_FloorRatio[of c "- x" "- s"] by (auto simp: e)
qed

lemma ratio_gap:
  assumes "0 < c" "e < s"
  shows "FloorRatio e c < CeilRatio s c"
proof (rule ccontr)
  assume "\<not> ?thesis"
  then have "CeilRatio s c \<le> FloorRatio e c" by simp
  then have "s \<le> FloorRatio e c * c" using CeilRatio_le[OF assms(1), of s "FloorRatio e c"] by simp
  moreover have "FloorRatio e c * c \<le> e" using le_FloorRatio[OF assms(1), of "FloorRatio e c" e] by simp
  ultimately show False using assms(2) by simp
qed

lemma FloorRatio_bounds:
  assumes "0 < c"
  shows "min a 0 \<le> FloorRatio a c" "FloorRatio a c \<le> max a 0"
proof -
  have "min a 0 * c \<le> a"
    using assms mult_left_mono_neg[of 1 c a] by (auto simp: min_def)
  then show "min a 0 \<le> FloorRatio a c" using le_FloorRatio[OF assms, of "min a 0" a] by simp
  show "FloorRatio a c \<le> max a 0"
    using assms zdiv_mono2[of a 1 c] zdiv_mono1[of a 0 c]
    by (cases "0 \<le> a"; simp add: FloorRatio_div)
qed

lemma in_int64_ratios:
  assumes "0 < c" "in_int64 a"
  shows "in_int64 (FloorRatio a c)" "in_int64 (CeilRatio a c)"
  using FloorRatio_bounds[OF assms(1), of a] FloorRatio_bounds[OF assms(1), of "- a"] assms(2)
  by (auto simp: in_int64_def CeilRatio_Floor min_def max_def split: if_splits)

definition prev_vals :: "closed_interval option \<Rightarrow> int set" where
  "prev_vals prev = (case prev of None \<Rightarrow> {} | Some p \<Rightarrow> ivals p)"

lemma inverse_mult_interval:
  assumes "0 < c"
  shows "x * c \<in> ivals i \<longleftrightarrow> CeilRatio (ci_start i) c \<le> x \<and> x \<le> FloorRatio (ci_end i) c"
  by (simp add: CeilRatio_le[OF assms] le_FloorRatio[OF assms])

lemma inverse_mult_loop_spec:
  assumes "0 < c" "canon d"
    "\<And>p. prev = Some p \<Longrightarrow> interval_ok p \<and> (\<forall>i \<in> set d. ci_end p < CeilRatio (ci_start i) c)"
  shows "canon (inverse_mult_loop c prev d) \<and>
    dvals (inverse_mult_loop c prev d) = prev_vals prev \<union> {x. x * c \<in> dvals d}"
  using assms(2,3)
proof (induction d arbitrary: prev)
  case Nil
  then show ?case by (auto simp: prev_vals_def split: option.splits)
next
  case (Cons i r)
  let ?start = "CeilRatio (ci_start i) c" and ?stop = "FloorRatio (ci_end i) c"
  have cr: "canon r" and oi: "interval_ok i" and gap: "\<forall>j \<in> set r. ci_end i < ci_start j"
    using Cons.prems(1) by (auto simp: canon_Cons)
  have split: "{x. x * c \<in> dvals (i # r)} = {?start..?stop} \<union> {x. x * c \<in> dvals r}"
    unfolding dvals_simps Un_iff inverse_mult_interval[OF assms(1)] by auto
  show ?case
  proof (cases "?start > ?stop")
    case True
    have "canon (inverse_mult_loop c prev r) \<and>
      dvals (inverse_mult_loop c prev r) = prev_vals prev \<union> {x. x * c \<in> dvals r}"
      using Cons.IH[OF cr] Cons.prems(2) by (meson list.set_intros(2))
    then show ?thesis using True split by simp
  next
    case False
    have later: "\<forall>j \<in> set r. ?stop < CeilRatio (ci_start j) c" using gap ratio_gap[OF assms(1)] by blast
    have ok: "interval_ok (Interval ?start ?stop)"
      using False oi in_int64_ratios[OF assms(1)] by (simp add: interval_ok_def)
    have new: "canon (inverse_mult_loop c (Some (Interval a ?stop)) r) \<and>
      dvals (inverse_mult_loop c (Some (Interval a ?stop)) r) = {a..?stop} \<union> {x. x * c \<in> dvals r}"
      if "interval_ok (Interval a ?stop)" for a
      using Cons.IH[OF cr, of "Some (Interval a ?stop)"] that later by (auto simp: prev_vals_def)
    show ?thesis
    proof (cases prev)
      case None
      then show ?thesis using False new[OF ok] split by (simp add: Let_def prev_vals_def)
    next
      case (Some p)
      have p: "interval_ok p" "ci_end p < ?start" using Cons.prems(2)[OF Some] by auto
      show ?thesis
      proof (cases "?start = ci_end p + 1")
        case True
        have "interval_ok (Interval (ci_start p) ?stop)" using p True False ok by (simp add: interval_ok_def)
        from new[OF this] show ?thesis
          using False True Some p split by (auto simp: Let_def prev_vals_def interval_ok_def)
      next
        case gap: False
        have vals: "x \<in> dvals (inverse_mult_loop c (Some (Interval ?start ?stop)) r) \<Longrightarrow> ci_end p + 1 < x" for x
        proof -
          assume "x \<in> dvals (inverse_mult_loop c (Some (Interval ?start ?stop)) r)"
          then have "?start \<le> x \<or> (\<exists>j \<in> set r. CeilRatio (ci_start j) c \<le> x)"
            using new[OF ok] inverse_mult_interval[OF assms(1)] unfolding dvals_def by auto
          then have "?start \<le> x" using later False by force
          then show "ci_end p + 1 < x" using gap p(2) by simp
        qed
        have "canon (p # inverse_mult_loop c (Some (Interval ?start ?stop)) r)"
          using canon_ConsI[OF p(1) _ vals] new[OF ok] by blast
        then show ?thesis using False gap Some new[OF ok] split by (auto simp: Let_def prev_vals_def)
      qed
    qed
  qed
qed

text \<open>All the values whose product with the coefficient is in the domain.\<close>

lemma Domain_InverseMultiplicationBy_spec:
  assumes "canon d" "in_int64 c" "c \<noteq> kint64min"
  shows "dvals (Domain_InverseMultiplicationBy d c) = {x. in_int64 x \<and> x * c \<in> dvals d}"
    "canon (Domain_InverseMultiplicationBy d c)"
proof -
  have "dvals (Domain_InverseMultiplicationBy d c) = {x. in_int64 x \<and> x * c \<in> dvals d} \<and>
    canon (Domain_InverseMultiplicationBy d c)"
  proof (cases "c = 0")
    case True
    then show ?thesis using Domain_Contains_iff[OF assms(1)]
      by (simp add: Domain_InverseMultiplicationBy_def Domain_AllValues_def in_int64_def set_eq_iff)
  next
    case False
    define r where "r = inverse_mult_loop \<bar>c\<bar> None d"
    have r: "canon r" "dvals r = {x. x * \<bar>c\<bar> \<in> dvals d}"
      using inverse_mult_loop_spec[of "\<bar>c\<bar>" d None] False assms(1) by (simp_all add: r_def prev_vals_def)
    have eq: "Domain_InverseMultiplicationBy d c = (if c < 0 then Domain_NegateInPlace r else r)"
      using assms(2,3) False by (simp add: Domain_InverseMultiplicationBy_def r_def Let_def)
    show ?thesis
      using Domain_NegateInPlace_spec[OF r(1)] r canon_in_int64[OF r(1)] False
      by (cases "c < 0") (auto simp: eq)
  qed
  then show "dvals (Domain_InverseMultiplicationBy d c) = {x. in_int64 x \<and> x * c \<in> dvals d}"
    "canon (Domain_InverseMultiplicationBy d c)" by simp_all
qed

section \<open>Remainders\<close>

lemma smod_bounds:
  fixes x m :: int
  assumes "0 < m"
  shows "min x 0 \<le> x smod m" "x smod m \<le> max x 0" "- m < x smod m" "x smod m < m"
proof -
  have e: "x smod m = (if 0 \<le> x then x mod m else - ((- x) mod m))"
    using assms by (simp add: signed_modulo_int_def sgn_if)
  show "min x 0 \<le> x smod m" "x smod m \<le> max x 0" "- m < x smod m" "x smod m < m"
    using assms zmod_le_nonneg_dividend[of x m] zmod_le_nonneg_dividend[of "- x" m]
      pos_mod_bound[OF assms, of x] pos_mod_sign[OF assms, of x]
      pos_mod_bound[OF assms, of "- x"] pos_mod_sign[OF assms, of "- x"]
    unfolding e min_def max_def by (smt (verit))+
qed

lemma smod_uminus: "(- x) smod m = - (x smod m)" for x m :: int
  by (simp add: signed_modulo_int_def signed_divide_int_def sgn_if)

lemma ModuloHelper_spec:
  assumes "0 < mn" "in_int64 mx" "canon m" "m \<noteq> []" "0 < Domain_Min m"
    "mn \<le> x" "x \<le> mx" "k \<in> dvals m"
  shows "x smod k \<in> dvals (ModuloHelper mn mx m)" "canon (ModuloHelper mn mx m)"
proof -
  let ?max = "Domain_Max m - 1"
  have k: "0 < k" "k \<le> Domain_Max m"
    using Domain_Min_spec(2)[OF assms(3,4,8)] Domain_Max_spec(2)[OF assms(3,4,8)] assms(5) by simp_all
  have M: "in_int64 (Domain_Max m)" using canon_in_int64 Domain_Max_spec(1) assms(3,4) by blast
  have w: "wrap64 ?max = ?max" "wrap64 (mx - mn) = mx - mn" and im: "in_int64 ?max"
    using k M assms(1,2,6,7) by (simp_all add: in_int64_def)
  have x: "x smod k = x mod k" using assms(1,6) k by (simp add: signed_modulo_int_def sgn_if)
  have xm: "0 \<le> x mod k" "x mod k \<le> ?max" "x mod k \<le> mx"
    using k pos_mod_bound[OF k(1), of x] pos_mod_sign[OF k(1), of x] zmod_le_nonneg_dividend[of x k]
      assms(1,6,7) by linarith+
  have "x smod k \<in> dvals (ModuloHelper mn mx m) \<and> canon (ModuloHelper mn mx m)"
  proof (cases "Domain_Min m = Domain_Max m")
    case True
    have km: "Domain_Max m = k" using True k Domain_Min_spec(2)[OF assms(3,4,8)] by simp
    have v1: "mn smod k = mn mod k" using assms(1) k by (simp add: signed_modulo_int_def sgn_if)
    have b: "0 \<le> mn mod k" "mn mod k \<le> mn" using k assms(1) zmod_le_nonneg_dividend[of mn k] by simp_all
    have w2: "wrap64 (mn mod k + (mx - mn)) = mn mod k + (mx - mn)"
      using b assms(2,6,7) assms(1) by (simp add: in_int64_def)
    have MH: "ModuloHelper mn mx m = (if mn mod k + (mx - mn) > k - 1 then Domain_range 0 (k - 1)
        else Domain_range (mn mod k) (mn mod k + (mx - mn)))"
    proof -
      have "wrap64 (k - 1) = k - 1" using w(1) km by simp
      then show ?thesis unfolding ModuloHelper_def Let_def if_P[OF True] w(2) unfolding km v1 w2 by simp
    qed
    show ?thesis
    proof (cases "mn mod k + (mx - mn) > k - 1")
      case True
      then show ?thesis using xm im unfolding x MH if_P[OF True] km by simp
    next
      case False
      have "x mod k = (mn mod k + (x - mn)) mod k" by (simp add: mod_add_left_eq)
      also have "\<dots> = mn mod k + (x - mn)" using False b assms(6,7) by (intro mod_pos_pos_trivial) linarith+
      finally have c: "mn mod k \<le> x mod k" "x mod k \<le> mn mod k + (mx - mn)" using assms(6,7) by linarith+
      have "in_int64 (mn mod k)" "in_int64 (mn mod k + (mx - mn))"
        using b assms(1,2,6,7) by (simp_all add: in_int64_def)
      then show ?thesis using c unfolding x MH if_not_P[OF False] by simp
    qed
  next
    case False
    then show ?thesis using xm x im assms(2) by (simp add: ModuloHelper_def w int64_intros)
  qed
  then show "x smod k \<in> dvals (ModuloHelper mn mx m)" "canon (ModuloHelper mn mx m)" by simp_all
qed

text \<open>A negative dividend is negated first: the bound \<open>kint64min\<close> has no negation.\<close>

lemma Domain_PositiveModuloBySuperset_spec:
  assumes "canon d" "canon m" "m \<noteq> []" "0 < Domain_Min m" "kint64min \<notin> dvals d" "x \<in> dvals d" "k \<in> dvals m"
  shows "x smod k \<in> dvals (Domain_PositiveModuloBySuperset d m)"
    "canon (Domain_PositiveModuloBySuperset d m)"
proof -
  let ?max = "Domain_Max m - 1"
  have d: "d \<noteq> []" using assms(6) by auto
  have k: "0 < k" "k \<le> Domain_Max m"
    using Domain_Min_spec(2)[OF assms(2,3,7)] Domain_Max_spec(2)[OF assms(2,3,7)] assms(4) by simp_all
  have M: "in_int64 (Domain_Max m)" using canon_in_int64 Domain_Max_spec(1) assms(2,3) by blast
  have w: "wrap64 ?max = ?max" and im: "in_int64 ?max" "in_int64 (- ?max)"
    using k M by (simp_all add: in_int64_def)
  have xb: "Domain_Min d \<le> x" "x \<le> Domain_Max d"
    using Domain_Min_spec(2) Domain_Max_spec(2) assms(1,6) d by blast+
  have db: "in_int64 (Domain_Min d)" "in_int64 (Domain_Max d)"
    using canon_in_int64 Domain_Min_spec(1) Domain_Max_spec(1) assms(1) d by blast+
  have nm: "Domain_Min d \<noteq> kint64min" using Domain_Min_spec(1)[OF assms(1) d] assms(5) by metis
  note b = smod_bounds[OF k(1), of x]
  consider "Domain_Max d \<ge> 0 \<and> Domain_Min d \<le> 0" | "0 < Domain_Min d" | "Domain_Max d < 0"
    by linarith
  then have "x smod k \<in> dvals (Domain_PositiveModuloBySuperset d m) \<and>
    canon (Domain_PositiveModuloBySuperset d m)"
  proof cases
    case 1
    have "max (Domain_Min d) (- ?max) \<le> x smod k" "x smod k \<le> min (Domain_Max d) ?max"
      using b k xb 1 by linarith+
    then show ?thesis using 1 d im db
      by (simp add: Domain_PositiveModuloBySuperset_def w int64_intros)
  next
    case 2
    then show ?thesis
      using ModuloHelper_spec[OF 2 db(2) assms(2-4) xb assms(7)] d
      by (simp add: Domain_PositiveModuloBySuperset_def)
  next
    case 3
    have n: "in_int64 (- Domain_Max d)" "in_int64 (- Domain_Min d)" "0 < - Domain_Max d"
      using db nm 3 xb by (auto simp: in_int64_def)
    note h = ModuloHelper_spec[OF n(3,2) assms(2-4) _ _ assms(7), of "- x"]
    have "- (x smod k) \<in> dvals (ModuloHelper (- Domain_Max d) (- Domain_Min d) m)"
      "canon (ModuloHelper (- Domain_Max d) (- Domain_Min d) m)"
      using h xb by (simp_all add: smod_uminus)
    moreover have "in_int64 (x smod k)" using b(3,4) k M by (simp add: in_int64_def)
    ultimately show ?thesis
      using 3 d n xb Domain_Negation_spec by (simp add: Domain_PositiveModuloBySuperset_def)
  qed
  then show "x smod k \<in> dvals (Domain_PositiveModuloBySuperset d m)"
    "canon (Domain_PositiveModuloBySuperset d m)" by simp_all
qed

section \<open>Quotients of two domains\<close>

lemma safe_div_eq:
  assumes "in_int64 a" "b < 0"
  shows "safe_div a b = min kint64max (a sdiv b)" "in_int64 (safe_div a b)"
proof -
  have e: "a sdiv b = - (a sdiv (- b))" using sdiv_uminus_right[of a "- b"] by simp
  have f: "min a 0 \<le> a sdiv (- b)" "a sdiv (- b) \<le> max a 0" using sdiv_bounds[of "- b" a] assms(2) by simp_all
  have g: "a sdiv (- b) \<noteq> kint64min" if "\<not> (a = kint64min \<and> b = - 1)"
  proof
    assume h: "a sdiv (- b) = kint64min"
    then have "a = kint64min" using f assms(1) by (simp add: in_int64_def min_def split: if_splits)
    moreover from this that have "2 \<le> - b" using assms(2) by simp
    moreover have "9223372036854775808 div (- b) \<le> 9223372036854775808 div 2"
      by (rule zdiv_mono2) (use \<open>2 \<le> - b\<close> in simp_all)
    ultimately show False using h by (simp add: sdiv_pos)
  qed
  have one: "kint64min sdiv (- 1) = 9223372036854775808" by (simp add: signed_divide_int_def)
  show "safe_div a b = min kint64max (a sdiv b)"
  proof (cases "a = kint64min \<and> b = - 1")
    case True
    then show ?thesis using one by (simp add: safe_div_def)
  next
    case False
    have "kint64min \<le> min a 0" using assms(1) by (simp add: in_int64_def)
    then have "kint64min \<le> a sdiv (- b)" using f(1) by (rule order_trans)
    then have "kint64min < a sdiv (- b)" using g[OF False] by (simp add: order_le_less)
    then have "a sdiv b \<le> kint64max" using e by linarith
    then show ?thesis unfolding safe_div_def if_not_P[OF False] by simp
  qed
  moreover have "max a 0 \<le> kint64max" using assms(1) by (simp add: in_int64_def)
  then have "- kint64max \<le> a sdiv b" using e f(2) by linarith
  ultimately show "in_int64 (safe_div a b)" by (simp add: in_int64_def)
qed

lemma positive_superset_spec:
  assumes "in_int64 lmin" "in_int64 lmax" "0 < rmin" "lmin \<le> x" "x \<le> lmax" "rmin \<le> y" "y \<le> rmax"
  shows "x sdiv y \<in> dvals (positive_superset lmin lmax rmin rmax)"
    "canon (positive_superset lmin lmax rmin rmax)"
proof -
  have y: "0 < y" "0 < rmax" using assms by simp_all
  have "min (lmin sdiv rmax) (lmin sdiv rmin) \<le> x sdiv y"
    using sdiv_between_denominators(1)[OF assms(3,6,7), of lmin] sdiv_mono[OF y(1) assms(4)] by linarith
  moreover have "x sdiv y \<le> max (lmax sdiv rmin) (lmax sdiv rmax)"
    using sdiv_between_denominators(2)[OF assms(3,6,7), of lmax] sdiv_mono[OF y(1) assms(5)] by linarith
  ultimately show "x sdiv y \<in> dvals (positive_superset lmin lmax rmin rmax)"
    by (simp add: positive_superset_def)
  show "canon (positive_superset lmin lmax rmin rmax)"
    unfolding positive_superset_def
    by (rule Domain_range_spec(2)) (simp_all add: in_int64_sdiv int64_intros assms y)
qed

lemma negative_superset_spec:
  assumes "in_int64 lmin" "in_int64 lmax" "rmax < 0" "lmin \<le> x" "x \<le> lmax" "rmin \<le> y" "y \<le> rmax"
  shows "in_int64 (x sdiv y) \<Longrightarrow> x sdiv y \<in> dvals (negative_superset lmin lmax rmin rmax)"
    "canon (negative_superset lmin lmax rmin rmax)"
proof -
  have y: "y < 0" "rmin < 0" using assms by simp_all
  have neg: "a sdiv b = - (a sdiv (- b))" for a b :: int using sdiv_uminus_right[of a "- b"] by simp
  note den = sdiv_between_denominators[of "- rmax" "- y" "- rmin"]
  have lo: "min (lmax sdiv rmin) (lmax sdiv rmax) \<le> x sdiv y"
    using den(2)[of lmax] sdiv_mono[of "- y" x lmax] y assms
    unfolding neg[of lmax rmin] neg[of lmax rmax] neg[of x y] by linarith
  have hi: "x sdiv y \<le> max (lmin sdiv rmax) (lmin sdiv rmin)"
    using den(1)[of lmin] sdiv_mono[of "- y" lmin x] y assms
    unfolding neg[of lmin rmin] neg[of lmin rmax] neg[of x y] by linarith
  note s = safe_div_eq[OF assms(1) y(2)] safe_div_eq[OF assms(1,3)]
    safe_div_eq[OF assms(2) y(2)] safe_div_eq[OF assms(2,3)]
  show "x sdiv y \<in> dvals (negative_superset lmin lmax rmin rmax)" if r: "in_int64 (x sdiv y)"
    using lo hi r unfolding negative_superset_def Domain_range_spec(1) s(1,3,5,7)
    by (auto simp: in_int64_def)
  show "canon (negative_superset lmin lmax rmin rmax)"
    unfolding negative_superset_def by (rule Domain_range_spec(2)) (simp_all add: int64_intros s(2,4,6,8))
qed

text \<open>The only quotient of two int64 that is not an int64 is \<open>kint64min / -1\<close>.\<close>

lemma Domain_DivisionBySuperset_spec:
  assumes "canon d" "canon e" "x \<in> dvals d" "y \<in> dvals e" "y \<noteq> 0" "in_int64 (x sdiv y)"
  shows "x sdiv y \<in> dvals (Domain_DivisionBySuperset d e) \<and> canon (Domain_DivisionBySuperset d e)"
proof -
  let ?lo = "Domain_Min d" and ?hi = "Domain_Max d" and ?mn = "Domain_Min e" and ?mx = "Domain_Max e"
  have ne: "d \<noteq> []" "e \<noteq> []" using assms(3,4) by auto
  have xb: "?lo \<le> x" "x \<le> ?hi" using Domain_Min_spec(2) Domain_Max_spec(2) assms(1,3) ne by blast+
  have yb: "?mn \<le> y" "y \<le> ?mx" using Domain_Min_spec(2) Domain_Max_spec(2) assms(2,4) ne by blast+
  have db: "in_int64 ?lo" "in_int64 ?hi"
    using canon_in_int64 Domain_Min_spec(1) Domain_Max_spec(1) assms(1) ne by blast+
  have nz: "\<not> (?mn = 0 \<and> ?mx = 0)" using yb assms(5) by linarith
  have ne': "\<not> (d = [] \<or> e = [])" using ne by simp
  note D = Domain_DivisionBySuperset_def if_not_P[OF ne'] if_not_P[OF nz]
  consider "0 \<le> ?mn" | "\<not> 0 \<le> ?mn" "?mx \<le> 0" | "\<not> 0 \<le> ?mn" "\<not> ?mx \<le> 0" by blast
  then show ?thesis
  proof cases
    case 1
    have "max ?mn 1 \<le> y" "0 < max ?mn 1" using yb 1 assms(5) by linarith+
    from positive_superset_spec[OF db this(2) xb this(1) yb(2)] show ?thesis
      unfolding D if_P[OF 1] by simp
  next
    case 2
    have "y \<le> min ?mx (- 1)" "min ?mx (- 1) < 0" using yb 2 assms(5) by linarith+
    from negative_superset_spec[OF db this(2) xb yb(1) this(1)] assms(6) show ?thesis
      unfolding D if_not_P[OF 2(1)] if_P[OF 2(2)] by simp
  next
    case 3
    let ?b = "Domain_ValueAtOrBefore e (- 1)" and ?a = "Domain_ValueAtOrAfter e 1"
    have "?mn \<in> dvals e" "?mx \<in> dvals e" using Domain_Min_spec(1) Domain_Max_spec(1) assms(2) ne(2) by blast+
    then have b: "?b \<in> dvals e" "?b \<le> - 1" "\<And>z. z \<in> dvals e \<Longrightarrow> z \<le> - 1 \<Longrightarrow> z \<le> ?b"
      and a: "?a \<in> dvals e" "1 \<le> ?a" "\<And>z. z \<in> dvals e \<Longrightarrow> 1 \<le> z \<Longrightarrow> ?a \<le> z"
    proof -
      have m: "\<exists>z \<in> dvals e. z \<le> - 1" "\<exists>z \<in> dvals e. 1 \<le> z"
        using 3 by (intro bexI[OF _ \<open>?mn \<in> dvals e\<close>], linarith) (use 3 in \<open>intro bexI[OF _ \<open>?mx \<in> dvals e\<close>], linarith\<close>)
      show "?b \<in> dvals e" "?b \<le> - 1" "?a \<in> dvals e" "1 \<le> ?a"
        using Domain_ValueAtOrBefore_spec(1)[OF assms(2) m(1)] Domain_ValueAtOrAfter_spec[OF assms(2) m(2)] by simp_all
      show "z \<le> ?b" if "z \<in> dvals e" "z \<le> - 1" for z by (rule Domain_ValueAtOrBefore_spec(2)[OF assms(2) that])
      show "?a \<le> z" if "z \<in> dvals e" "1 \<le> z" for z using Domain_ValueAtOrAfter_spec[OF assms(2) m(2)] that by simp
    qed
    have ba: "?mn \<le> ?b" "?a \<le> ?mx" "?b < 0" "0 < ?a"
      using a(1,2) b(1,2) Domain_Min_spec(2) Domain_Max_spec(2) assms(2) ne(2) by (blast, blast, simp, simp)
    note neg = negative_superset_spec[OF db ba(3) xb]
    note pos = positive_superset_spec[OF db ba(4) xb]
    have c: "canon (negative_superset ?lo ?hi ?mn ?b)" "canon (positive_superset ?lo ?hi ?a ?mx)"
      using neg(2)[OF ba(1) order_refl] pos(2)[OF order_refl ba(2)] .
    have "x sdiv y \<in> dvals (negative_superset ?lo ?hi ?mn ?b) \<union> dvals (positive_superset ?lo ?hi ?a ?mx)"
    proof (cases "y \<le> - 1")
      case True
      then show ?thesis using neg(1)[OF yb(1) b(3)[OF assms(4) True] assms(6)] by simp
    next
      case False
      then have "1 \<le> y" using assms(5) by simp
      then show ?thesis using pos(1)[OF a(3)[OF assms(4)] yb(2)] by simp
    qed
    then show ?thesis
      unfolding D if_not_P[OF 3(1)] if_not_P[OF 3(2)] using Domain_UnionWith_spec[OF c] by simp
  qed
qed

end
