(* ===== verification/DomainImplied.thy ===== *)
theory DomainImplied
  imports DomainDiv
begin

text \<open>
  Operations of \<open>class Domain\<close> (\<open>or-tools/ortools/util/sorted_interval_list.cc\<close>) that compare a domain with
  another one interval by interval: the one value of the difference, the simplification by an implied domain; and
  the sums of the smallest and the largest values.
\<close>

section \<open>The unique value of a difference\<close>

text \<open>The loop over the intervals, the current one without the values already dealt with, and the intervals to
  exclude from the index \<open>i\<close> on.\<close>

function unique_loop :: "domain \<Rightarrow> domain \<Rightarrow> int64 option \<Rightarrow> int64 option" where
  "unique_loop [] to_exclude result = result"
| "unique_loop (interval # r) to_exclude result =
     (let start = ci_start interval; stop = ci_end interval
      in if \<not> start \<le> stop then unique_loop r to_exclude result
         else case dropWhile (\<lambda>j. ci_end j < start) to_exclude of
             j # js \<Rightarrow>
               if ci_start j \<le> start then
                 if ci_end j = kint64max then result
                 else unique_loop (Interval (ci_end j + 1) stop # r) (j # js) result
               else if stop = start \<or> ci_start j = start + 1 then
                 if result \<noteq> None then None
                 else if ci_end j = kint64max then Some start
                 else unique_loop (Interval (ci_end j + 1) stop # r) (j # js) (Some start)
               else None
           | [] \<Rightarrow>
               if stop = start then (if result \<noteq> None then None else unique_loop r [] (Some start))
               else None)"
  by pat_completeness auto
termination
proof (relation "measures [\<lambda>(is, _, _). length is, \<lambda>(is, _, _). nat (ci_end (hd is) + 1 - ci_start (hd is))]")
  have above: "\<not> ci_end j < v" if "dropWhile (\<lambda>j. ci_end j < v) ex = j # js" for v ex j js
    using hd_dropWhile[of "\<lambda>j. ci_end j < v" ex] that by simp
  show "((Interval (ci_end j + 1) stop # r, j # js, result), interval # r, ex, result)
      \<in> measures [\<lambda>(is, _, _). length is, \<lambda>(is, _, _). nat (ci_end (hd is) + 1 - ci_start (hd is))]"
    if "start = ci_start interval" "stop = ci_end interval" "\<not> \<not> start \<le> stop"
      "dropWhile (\<lambda>j. ci_end j < start) ex = j # js" for interval r ex result start stop j js
    using that above[OF that(4)] by simp
  show "((Interval (ci_end j + 1) stop # r, j # js, Some start), interval # r, ex, result)
      \<in> measures [\<lambda>(is, _, _). length is, \<lambda>(is, _, _). nat (ci_end (hd is) + 1 - ci_start (hd is))]"
    if "start = ci_start interval" "stop = ci_end interval" "\<not> \<not> start \<le> stop"
      "dropWhile (\<lambda>j. ci_end j < start) ex = j # js" for interval r ex result start stop j js
    using that above[OF that(4)] by simp
qed simp_all

declare unique_loop.simps [simp del]

definition Domain_UniqueValueNotIn :: "domain \<Rightarrow> domain \<Rightarrow> int64 option" where
  "Domain_UniqueValueNotIn d other = unique_loop d other None"

section \<open>Simplification by an implied domain\<close>

text \<open>The scan of the implied intervals up to the first one that ends beyond the interval: those from there on, and
  the two extreme points, if there are any.\<close>

fun implied_scan ::
  "closed_interval \<Rightarrow> domain \<Rightarrow> (int64 \<times> int64) option \<Rightarrow> domain \<times> (int64 \<times> int64) option" where
  "implied_scan interval [] points = ([], points)"
| "implied_scan interval (current # r) points =
     (let points1 =
            (if ci_end current \<ge> ci_start interval \<and> ci_start current \<le> ci_end interval then
               let inter_max = min (ci_end interval) (ci_end current)
               in (case points of
                     None \<Rightarrow> Some (max (ci_start interval) (ci_start current), inter_max)
                   | Some (min_point, _) \<Rightarrow> Some (min_point, inter_max))
             else points)
      in if ci_end current > ci_end interval then (current # r, points1) else implied_scan interval r points1)"

definition points_interval :: "(int64 \<times> int64) option \<Rightarrow> domain" where
  "points_interval points = (case points of None \<Rightarrow> [] | Some (a, b) \<Rightarrow> [Interval a b])"

fun implied_loop :: "domain \<Rightarrow> domain \<Rightarrow> (int64 \<times> int64) option \<Rightarrow> domain" where
  "implied_loop [] implied points = points_interval points"
| "implied_loop (interval # r) implied points =
     (let closes = (points \<noteq> None \<and> ci_start (hd implied) < ci_start interval);
          (implied1, points1) = implied_scan interval implied (if closes then None else points)
      in (if closes then points_interval points else []) @
         (if implied1 = [] then points_interval points1 else implied_loop r implied1 points1))"

definition Domain_SimplifyUsingImpliedDomain :: "domain \<Rightarrow> domain \<Rightarrow> domain" where
  "Domain_SimplifyUsingImpliedDomain d implied = (if implied = [] then [] else implied_loop d implied None)"

section \<open>Sums of extreme values\<close>

text \<open>The loop variable is an \<open>int\<close>: the start of the interval is narrowed, and \<open>None\<close> is its overflow.\<close>

fun k_min_interval :: "nat \<Rightarrow> int32 \<Rightarrow> int64 \<Rightarrow> int64 \<Rightarrow> (nat \<times> int64) option" where
  "k_min_interval left v stop current_sum =
     (if \<not> v \<le> stop then Some (left, current_sum)
      else case left of
          0 \<Rightarrow> Some (left, current_sum)
        | Suc l \<Rightarrow> if v = kint32max then None else k_min_interval l (v + 1) stop (wrap64 (current_sum + v)))"

declare k_min_interval.simps [simp del]

fun k_min_loop :: "domain \<Rightarrow> nat \<Rightarrow> int64 \<Rightarrow> int64 option" where
  "k_min_loop [] left current_sum = Some current_sum"
| "k_min_loop (interval # r) left current_sum =
     (if left = 0 then Some current_sum
      else case k_min_interval left (wrap32 (ci_start interval)) (ci_end interval) current_sum of
          None \<Rightarrow> None
        | Some (left1, new_sum) \<Rightarrow> k_min_loop r left1 new_sum)"

definition SumOfKMinValueInDomain :: "domain \<Rightarrow> int32 \<Rightarrow> int64 option" where
  "SumOfKMinValueInDomain d k = k_min_loop d (nat k) 0"

definition SumOfKMaxValueInDomain :: "domain \<Rightarrow> int32 \<Rightarrow> int64 option" where
  "SumOfKMaxValueInDomain d k = map_option (\<lambda>s. wrap64 (- s)) (SumOfKMinValueInDomain (Domain_Negation d) k)"


section \<open>The unique value: correctness\<close>

definition the_only :: "int set \<Rightarrow> int option" where
  "the_only S = (if \<exists>v. S = {v} then Some (the_elem S) else None)"

lemma the_only_simps [simp]: "the_only {} = None" "the_only {v} = Some v"
  by (auto simp: the_only_def)

lemma the_only_two: "a \<in> S \<Longrightarrow> b \<in> S \<Longrightarrow> a \<noteq> b \<Longrightarrow> the_only S = None"
  by (auto simp: the_only_def)

lemma the_only_Some: "the_only S = Some v \<longleftrightarrow> S = {v}"
  by (auto simp: the_only_def split: if_splits)

text \<open>The current interval may be used up.\<close>

definition open_canon :: "domain \<Rightarrow> bool" where
  "open_canon is \<longleftrightarrow> (case is of [] \<Rightarrow> True
     | i # r \<Rightarrow> canon r \<and> in_int64 (ci_end i) \<and> in_int64 (ci_start i) \<and> (\<forall>x \<in> dvals r. ci_end i + 1 < x))"

lemma canon_open: "canon d \<Longrightarrow> open_canon d"
  using dvals_tail_gap by (cases d) (auto simp: open_canon_def canon_Cons interval_ok_def)

lemma canon_dropWhile: "canon d \<Longrightarrow> canon (dropWhile P d)"
  by (metis canon_append takeWhile_dropWhile_id)

lemma dvals_dropWhile_end:
  assumes "v \<le> x"
  shows "x \<in> dvals (dropWhile (\<lambda>j. ci_end j < v) d) \<longleftrightarrow> x \<in> dvals d"
  using assms by (induction d) auto

text \<open>When the excluded values go up to the greatest int64, the loop returns the first value it finds, so the answer
  is right only if there is one.\<close>

lemma unique_loop_spec:
  assumes "open_canon is" "canon ex" "set_option result \<inter> dvals is = {}"
    and "kint64max \<notin> dvals ex \<or> the_only (set_option result \<union> (dvals is - dvals ex)) \<noteq> None"
  shows "unique_loop is ex result = the_only (set_option result \<union> (dvals is - dvals ex))"
  using assms
proof (induction "is" arbitrary: ex result
    rule: wf_induct_rule[OF wf_measures[of "[length, \<lambda>is. nat (ci_end (hd is) + 1 - ci_start (hd is))]"]])
  case (1 "is")
  show ?case
  proof (cases "is")
    case Nil
    then show ?thesis by (cases result) (simp_all add: unique_loop.simps)
  next
    case (Cons i r)
    define s e where "s = ci_start i" and "e = ci_end i"
    have r: "canon r" "\<And>x. x \<in> dvals r \<Longrightarrow> e + 1 < x" and b: "in_int64 e" "in_int64 s"
      using "1.prems"(1) by (auto simp: open_canon_def e_def s_def Cons)
    have X: "dvals is = {s..e} \<union> dvals r" by (auto simp: s_def e_def Cons)
    note IH_tail = "1.IH"[of r, OF _ canon_open[OF r(1)]]
    show ?thesis
    proof (cases "s \<le> e")
      case False
      then have "dvals is = dvals r" by (simp add: X)
      then show ?thesis
        using False IH_tail[of ex result] "1.prems" by (simp add: unique_loop.simps(2) Cons flip: s_def e_def)
    next
      case le: True
      define ex1 where "ex1 = dropWhile (\<lambda>j. ci_end j < s) ex"
      define S where "S = dvals is - dvals ex"
      have c1: "canon ex1" unfolding ex1_def by (rule canon_dropWhile[OF "1.prems"(2)])
      have low: "s \<le> x" if "x \<in> dvals is" for x using that r(2)[of x] le by (auto simp: X)
      have D: "S = dvals is - dvals ex1"
        using low dvals_dropWhile_end[of s _ ex] by (auto simp: S_def ex1_def)
      have sub: "x \<in> dvals ex1 \<Longrightarrow> x \<in> dvals ex" for x
        unfolding ex1_def by (induction ex) (auto split: if_splits)
      have max: "kint64max \<notin> dvals ex1 \<or> the_only (set_option result \<union> S) \<noteq> None"
        using "1.prems"(4) sub by (auto simp: S_def)
      have sr: "s \<notin> set_option result" using "1.prems"(3) le by (auto simp: X)
      note code = unique_loop.simps(2)[of i r ex result, folded s_def e_def, unfolded Let_def, folded ex1_def Cons]
      have "unique_loop is ex result = the_only (set_option result \<union> S)"
      proof (cases ex1)
        case Nil
        then have S: "S = {s..e} \<union> dvals r" using D unfolding X by simp
        show ?thesis
        proof (cases "s = e")
          case True
          have s0: "s \<in> S" using S True by simp
          show ?thesis
          proof (cases result)
            case None
            have "set_option (Some s) \<inter> dvals r = {}" using r(2)[of s] True by auto
            then have "unique_loop r [] (Some s) = the_only (set_option (Some s) \<union> (dvals r - dvals []))"
              by (intro IH_tail) (simp_all add: Cons)
            then show ?thesis using code le Nil None True S by simp
          next
            case (Some v)
            then have "the_only (set_option result \<union> S) = None" using s0 sr by (intro the_only_two[of v _ s]) auto
            then show ?thesis using code le Nil Some True by simp
          qed
        next
          case False
          then have "the_only (set_option result \<union> S) = None" using le S by (intro the_only_two[of s _ "s + 1"]) auto
          then show ?thesis using code le Nil False by simp
        qed
      next
        case ex1: (Cons j js)
        have j: "s \<le> ci_end j" using hd_dropWhile[of "\<lambda>j. ci_end j < s" ex] ex1 unfolding ex1_def by simp
        note cj = c1[unfolded ex1]
        have ok: "ci_start j \<le> ci_end j" "in_int64 (ci_end j)" using cj by (auto simp: canon_Cons interval_ok_def)
        define is' where "is' = Interval (ci_end j + 1) e # r"
        have tail: "x \<in> dvals ex1 \<longleftrightarrow> ci_start j \<le> x" if "x \<le> ci_end j" for x
          using dvals_tail_gap[OF cj, of x] that by (auto simp: ex1)
        have X': "dvals is' = {ci_end j + 1..e} \<union> dvals r" by (auto simp: is'_def)
        have IH: "unique_loop is' (j # js) result' = the_only (set_option result' \<union> (dvals is' - dvals ex1))"
          if "ci_end j \<noteq> kint64max" "set_option result' \<inter> dvals is' = {}"
            "kint64max \<notin> dvals ex1 \<or> the_only (set_option result' \<union> (dvals is' - dvals ex1)) \<noteq> None" for result'
          unfolding ex1
        proof (rule "1.IH"[of is' "j # js" result', OF _ _ cj that(2) that(3)[unfolded ex1]])
          show "(is', is) \<in> measures [length, \<lambda>is. nat (ci_end (hd is) + 1 - ci_start (hd is))]"
            using j le by (simp add: is'_def Cons flip: s_def e_def)
          show "open_canon is'"
            using that(1) r b ok by (auto simp: is'_def open_canon_def in_int64_def)
        qed
        show ?thesis
        proof (cases "ci_start j \<le> s")
          case True
          show ?thesis
          proof (cases "ci_end j = kint64max")
            case last: True
            have "x \<in> dvals ex1" if "x \<in> dvals is" for x
              using that r(2)[of x] tail[of x] canon_in_int64[OF r(1), of x] b True low[of x] last
              by (auto simp: X in_int64_def)
            then have "S = {}" using D by blast
            then show ?thesis using code le ex1 True last by (cases result) simp_all
          next
            case False
            have S': "S = dvals is' - dvals ex1"
            proof -
              have "x \<in> dvals is'" if "x \<in> S" for x
                using that tail[of x] True low[of x] by (cases "x \<le> ci_end j") (auto simp: D X X')
              moreover have "dvals is' \<subseteq> dvals is" using j by (auto simp: X X')
              ultimately show ?thesis using D by blast
            qed
            have "unique_loop is' (j # js) result = the_only (set_option result \<union> S)"
              unfolding S' using "1.prems"(3) j max False unfolding S' by (intro IH) (auto simp: X X')
            then show ?thesis using code le ex1 True False by (simp add: is'_def)
          qed
        next
          case after: False
          have s0: "s \<in> S" using after tail[of s] j le by (simp add: D X)
          show ?thesis
          proof (cases "e = s \<or> ci_start j = s + 1")
            case False
            have "s + 1 \<in> S" using False after tail[of "s + 1"] ok le by (auto simp: D X)
            then have "the_only (set_option result \<union> S) = None" using s0 by (intro the_only_two[of s _ "s + 1"]) auto
            then show ?thesis using code le ex1 after False by simp
          next
            case one: True
            show ?thesis
            proof (cases result)
              case (Some v)
              then have "the_only (set_option result \<union> S) = None" using s0 sr by (intro the_only_two[of v _ s]) auto
              then show ?thesis using code le ex1 after one Some by simp
            next
              case None
              have S': "S = {s} \<union> (dvals is' - dvals ex1)"
              proof -
                have "x = s \<or> x \<in> dvals is'" if "x \<in> S" for x
                  using that tail[of x] one j low[of x] after by (cases "x \<le> ci_end j") (auto simp: D X X')
                moreover have "dvals is' - dvals ex1 \<subseteq> S" using j by (auto simp: D X X')
                ultimately show ?thesis using s0 D by blast
              qed
              show ?thesis
              proof (cases "ci_end j = kint64max")
                case last: True
                then have "kint64max \<in> dvals ex1" using tail[of kint64max] ok by simp
                then obtain y where "the_only S = Some y" using max None by auto
                then have "the_only S = Some s" using s0 by (simp add: the_only_Some)
                then show ?thesis using code le ex1 after one None last by simp
              next
                case False
                have "s \<notin> dvals is'" using r(2)[of s] le j by (auto simp: X')
                then have "unique_loop is' (j # js) (Some s) = the_only S"
                  unfolding S' using max None False unfolding S' by (subst IH) auto
                then show ?thesis using code le ex1 after one None False by (simp add: is'_def)
              qed
            qed
          qed
        qed
      qed
      then show ?thesis unfolding S_def .
    qed
  qed
qed

lemma Domain_UniqueValueNotIn_spec:
  assumes "canon d" "canon other" "kint64max \<notin> dvals other \<or> the_only (dvals d - dvals other) \<noteq> None"
  shows "Domain_UniqueValueNotIn d other = the_only (dvals d - dvals other)"
  using unique_loop_spec[OF canon_open[OF assms(1)] assms(2), of None] assms(3)
  by (simp add: Domain_UniqueValueNotIn_def)

section \<open>Simplification by an implied domain: correctness\<close>

definition opt_points :: "(int64 \<times> int64) option \<Rightarrow> int set" where
  "opt_points points = (case points of None \<Rightarrow> {} | Some (a, b) \<Rightarrow> {a, b})"

lemma implied_scan_rest: "fst (implied_scan i im points) = dropWhile (\<lambda>c. \<not> ci_end c > ci_end i) im"
  by (induction i im points rule: implied_scan.induct) (auto simp: Let_def)

text \<open>The scan extends the points to the last common value, and starts at the first one when there were none.\<close>

lemma implied_scan_points:
  assumes "interval_ok i" "canon im" "\<And>a b x. points = Some (a, b) \<Longrightarrow> x \<in> dvals im \<inter> ivals i \<Longrightarrow> b \<le> x"
  shows "(dvals im \<inter> ivals i = {} \<and> snd (implied_scan i im points) = points) \<or>
     (\<exists>u \<in> dvals im \<inter> ivals i. \<exists>v \<in> dvals im \<inter> ivals i. dvals im \<inter> ivals i \<subseteq> {u..v} \<and>
        snd (implied_scan i im points) = Some (case points of None \<Rightarrow> u | Some (a, _) \<Rightarrow> a, v))"
  using assms
proof (induction i im points rule: implied_scan.induct)
  case (1 i points)
  then show ?case by simp
next
  case (2 i c r points)
  define C where "C = ivals c \<inter> ivals i"
  have c: "interval_ok c" "canon r" using "2.prems"(2) by (auto simp: canon_Cons)
  note gap = dvals_tail_gap[OF "2.prems"(2)]
  show ?case
  proof (cases "ci_end c \<ge> ci_start i \<and> ci_start c \<le> ci_end i")
    case False
    then have "C = {}" by (auto simp: C_def)
    show ?thesis
    proof (cases "ci_end c > ci_end i")
      case True
      then have "dvals (c # r) \<inter> ivals i = {}" using \<open>C = {}\<close> gap by (force simp: C_def)
      then show ?thesis using False True by (auto simp: Let_def)
    next
      case le: False
      have eq: "dvals (c # r) \<inter> ivals i = dvals r \<inter> ivals i" using \<open>C = {}\<close> by (auto simp: C_def)
      have "implied_scan i (c # r) points = implied_scan i r points" using False le by (auto simp: Let_def)
      moreover note "2.IH"[OF refl le, unfolded if_not_P[OF False], OF "2.prems"(1) c(2)]
      ultimately show ?thesis unfolding eq using "2.prems"(3) unfolding eq by simp
    qed
  next
    case True
    define u v where "u = max (ci_start i) (ci_start c)" and "v = min (ci_end i) (ci_end c)"
    define points1 where "points1 = Some (case points of None \<Rightarrow> u | Some (a, _) \<Rightarrow> a, v)"
    have C: "C = {u..v}" "u \<le> v" using True c(1) "2.prems"(1) by (auto simp: C_def u_def v_def interval_ok_def)
    show ?thesis
    proof (cases "ci_end c > ci_end i")
      case more: True
      then have eq: "dvals (c # r) \<inter> ivals i = {u..v}" using C gap by (force simp: C_def)
      show ?thesis unfolding eq using C True more
        by (intro disjI2 bexI[of _ u] bexI[of _ v]) (auto simp: u_def v_def split: option.split)
    next
      case le: False
      have eq: "dvals (c # r) \<inter> ivals i = {u..v} \<union> (dvals r \<inter> ivals i)" using C by (auto simp: C_def)
      have scan: "implied_scan i (c # r) points = implied_scan i r points1"
        using True le by (auto simp: points1_def u_def v_def Let_def split: option.split)
      have ends: "v < x" if "x \<in> dvals r" for x using gap[of x] that by (auto simp: v_def)
      have "(dvals r \<inter> ivals i = {} \<and> snd (implied_scan i r points1) = points1) \<or>
         (\<exists>u' \<in> dvals r \<inter> ivals i. \<exists>v' \<in> dvals r \<inter> ivals i. dvals r \<inter> ivals i \<subseteq> {u'..v'} \<and>
            snd (implied_scan i r points1) = Some (case points1 of None \<Rightarrow> u' | Some (a, _) \<Rightarrow> a, v'))"
      proof -
        have p: "(if ci_start i \<le> ci_end c \<and> ci_start c \<le> ci_end i
            then let inter_max = min (ci_end i) (ci_end c)
              in case points of None \<Rightarrow> Some (max (ci_start i) (ci_start c), inter_max)
                | Some (min_point, x) \<Rightarrow> Some (min_point, inter_max)
            else points) = points1"
          using True by (auto simp: points1_def u_def v_def Let_def split: option.split)
        show ?thesis
          by (rule "2.IH"[OF p[symmetric] le "2.prems"(1) c(2)]) (auto simp: points1_def intro: less_imp_le ends)
      qed
      then show ?thesis
      proof
        assume "dvals r \<inter> ivals i = {} \<and> snd (implied_scan i r points1) = points1"
        then show ?thesis unfolding eq scan using C by (intro disjI2 bexI[of _ u] bexI[of _ v]) (auto simp: points1_def)
      next
        assume "\<exists>u' \<in> dvals r \<inter> ivals i. \<exists>v' \<in> dvals r \<inter> ivals i. dvals r \<inter> ivals i \<subseteq> {u'..v'} \<and>
            snd (implied_scan i r points1) = Some (case points1 of None \<Rightarrow> u' | Some (a, _) \<Rightarrow> a, v')"
        then obtain u' v' where v': "v' \<in> dvals r \<inter> ivals i" "dvals r \<inter> ivals i \<subseteq> {u'..v'}"
          "snd (implied_scan i r points1) = Some (case points of None \<Rightarrow> u | Some (a, _) \<Rightarrow> a, v')"
          by (auto simp: points1_def)
        have "u \<le> x \<and> x \<le> v'" if "x \<in> dvals r \<inter> ivals i" for x
          using v'(1,2) ends[of v'] ends[of x] C(2) that by auto
        moreover have "v < v'" using v'(1) ends by blast
        ultimately have "{u..v} \<union> (dvals r \<inter> ivals i) \<subseteq> {u..v'}" by auto
        moreover have "u \<in> {u..v} \<union> (dvals r \<inter> ivals i)" "v' \<in> {u..v} \<union> (dvals r \<inter> ivals i)" using C v'(1) by auto
        ultimately show ?thesis unfolding eq scan using v'(3) by blast
      qed
    qed
  qed
qed

text \<open>What the loop returns for the intervals after \<open>t\<close>, given the points found before: its intervals end at
  common values or at the points, they hold every common value and no other implied value beyond \<open>t\<close>, and an implied
  value outside the domain separates any two of them.\<close>

definition simplified :: "int \<Rightarrow> int set \<Rightarrow> int set \<Rightarrow> (int64 \<times> int64) option \<Rightarrow> domain \<Rightarrow> bool" where
  "simplified t D M points R \<longleftrightarrow>
     sorted_wrt (\<lambda>i j. \<exists>v \<in> M - D. t < v \<and> ci_end i < v \<and> v < ci_start j) R \<and>
     (\<forall>i \<in> set R. ci_start i \<le> ci_end i \<and> {ci_start i, ci_end i} \<subseteq> opt_points points \<union> (D \<inter> M)) \<and>
     D \<inter> M \<subseteq> dvals R \<and> dvals R \<inter> M \<inter> {t<..} \<subseteq> D \<and>
     (\<forall>a b. points = Some (a, b) \<longrightarrow> R \<noteq> [] \<and> ci_start (hd R) = a \<and> b \<le> ci_end (hd R))"

lemma simplified_points:
  assumes "D \<inter> M = {}" "\<forall>a b. points = Some (a, b) \<longrightarrow> a \<le> b \<and> b \<le> t"
  shows "simplified t D M points (points_interval points)"
  using assms by (cases points) (auto simp: simplified_def points_interval_def opt_points_def)

lemma simplified_starts:
  assumes "simplified t D M points R" "\<And>x. x \<in> opt_points points \<union> (D \<inter> M) \<Longrightarrow> s \<le> x" "x \<in> dvals R"
  shows "s \<le> x"
proof -
  obtain i where i: "i \<in> set R" "ci_start i \<le> x" using assms(3) by (auto simp: mem_dvals)
  then have "ci_start i \<in> opt_points points \<union> (D \<inter> M)" using assms(1) by (simp add: simplified_def)
  then show ?thesis using assms(2) i(2) by fastforce
qed

lemma implied_loop_spec:
  assumes "canon d" "canon im" "im \<noteq> []" "t < ci_end (hd im)" "\<And>x. x \<in> dvals d \<Longrightarrow> t + 1 < x"
    and "\<And>a b. points = Some (a, b) \<Longrightarrow> a \<le> b \<and> b \<le> t"
  shows "simplified t (dvals d) (dvals im) points (implied_loop d im points)"
  using assms
proof (induction d arbitrary: im points t)
  case Nil
  then show ?case by (auto intro: simplified_points)
next
  case (Cons i r)
  define s e where "s = ci_start i" and "e = ci_end i"
  define D M where "D = dvals (i # r)" and "M = dvals im"
  define closes where "closes \<longleftrightarrow> points \<noteq> None \<and> ci_start (hd im) < s"
  define q where "q = (if closes then None else points)"
  obtain im1 points1 where scan: "implied_scan i im q = (im1, points1)" by fastforce
  define R1 where "R1 = (if im1 = [] then points_interval points1 else implied_loop r im1 points1)"
  have code: "implied_loop (i # r) im points = (if closes then points_interval points else []) @ R1"
    using scan by (simp add: Let_def closes_def s_def q_def R1_def)
  have i: "interval_ok i" "canon r" "s \<le> e" using Cons.prems(1) by (auto simp: canon_Cons interval_ok_def s_def e_def)
  have D: "D = {s..e} \<union> dvals r" by (auto simp: D_def s_def e_def)
  have r: "e + 1 < x" if "x \<in> dvals r" for x using dvals_tail_gap[OF Cons.prems(1) that] by (simp add: e_def)
  have ts: "t + 1 < s" using Cons.prems(5)[of s] i(3) by (simp add: s_def e_def)
  have im1: "im1 = dropWhile (\<lambda>c. \<not> ci_end c > e) im" using implied_scan_rest[of i im q] scan by (simp add: e_def)
  have M1: "dvals im1 \<subseteq> M" unfolding M_def im1 by (induction im) auto
  have M1': "x \<in> dvals im1" if "x \<in> M" "e < x" for x
    using that unfolding M_def im1 by (induction im) auto
  have C: "D \<inter> M = (M \<inter> ivals i) \<union> (dvals r \<inter> dvals im1)"
    using M1 M1' r by (force simp: D s_def e_def)
  have pts: "a \<le> b \<and> b \<le> t" if "q = Some (a, b)" for a b
    using that Cons.prems(6) by (auto simp: q_def split: if_splits)
  have points1: "(M \<inter> ivals i = {} \<and> points1 = q) \<or>
     (\<exists>u \<in> M \<inter> ivals i. \<exists>v \<in> M \<inter> ivals i. M \<inter> ivals i \<subseteq> {u..v} \<and>
        points1 = Some (case q of None \<Rightarrow> u | Some (a, _) \<Rightarrow> a, v))"
    using implied_scan_points[OF i(1) Cons.prems(2), of q] scan pts ts by (fastforce simp: M_def s_def)
  have p1: "a \<le> b \<and> b \<le> e" if "points1 = Some (a, b)" for a b
    using points1 that pts ts i(3) by (fastforce simp: s_def e_def split: option.splits)
  have R1: "simplified e (dvals r) (dvals im1) points1 R1"
  proof (cases "im1 = []")
    case True
    then show ?thesis unfolding R1_def using simplified_points[of "dvals r" "{}" points1 e] p1 by simp
  next
    case False
    then have "e < ci_end (hd im1)" using hd_dropWhile[of "\<lambda>c. \<not> ci_end c > e" im] unfolding im1 by simp
    moreover have "canon im1" unfolding im1 by (rule canon_dropWhile[OF Cons.prems(2)])
    ultimately have "simplified e (dvals r) (dvals im1) points1 (implied_loop r im1 points1)"
      using False i(2) r p1 by (intro Cons.IH) auto
    then show ?thesis using False by (simp add: R1_def)
  qed
  have gap: "sorted_wrt (\<lambda>i j. \<exists>v \<in> M - D. t < v \<and> ci_end i < v \<and> v < ci_start j) R1"
  proof (rule sorted_wrt_mono_rel)
    show "sorted_wrt (\<lambda>i j. \<exists>v \<in> dvals im1 - dvals r. e < v \<and> ci_end i < v \<and> v < ci_start j) R1"
      using R1 by (simp add: simplified_def)
    show "\<exists>v \<in> M - D. t < v \<and> ci_end i < v \<and> v < ci_start j"
      if sep: "\<exists>v \<in> dvals im1 - dvals r. e < v \<and> ci_end i < v \<and> v < ci_start j" for i j
    proof -
      obtain v where "v \<in> dvals im1" "v \<notin> dvals r" "e < v" "ci_end i < v" "v < ci_start j" using sep by blast
      then show ?thesis using M1 ts \<open>s \<le> e\<close> by (intro bexI[of _ v]) (auto simp: D)
    qed
  qed
  have ends1: "ci_start k \<le> ci_end k" "{ci_start k, ci_end k} \<subseteq> opt_points points1 \<union> (dvals r \<inter> dvals im1)"
    if "k \<in> set R1" for k using R1 that by (auto simp: simplified_def)
  have tail1: "dvals r \<inter> dvals im1 \<subseteq> dvals R1" "dvals R1 \<inter> M \<inter> {e<..} \<subseteq> D"
    using R1 M1' by (auto simp: simplified_def D)
  have head1: "R1 \<noteq> [] \<and> ci_start (hd R1) = a \<and> {a..b} \<subseteq> dvals R1" if "points1 = Some (a, b)" for a b
    using R1 that unfolding simplified_def by (cases R1) auto
  show ?case
  proof (cases closes)
    case True
    then obtain a b where ab: "points = Some (a, b)" "a \<le> b" "b \<le> t" using Cons.prems(6) by (auto simp: closes_def)
    have q: "q = None" using True by (simp add: q_def)
    have pC: "opt_points points1 \<subseteq> M \<inter> ivals i" using points1 by (auto simp: q opt_points_def)
    have low: "s \<le> x" if "x \<in> dvals R1" for x
      using simplified_starts[OF R1 _ that, of s] pC r i(3) by (force simp: s_def e_def)
    have starts: "s \<le> ci_start k" if "k \<in> set R1" for k
      using low[of "ci_start k"] ends1(1)[OF that] that by (force simp: mem_dvals)
    define v0 where "v0 = max (ci_start (hd im)) (t + 1)"
    have "hd im \<in> set im" "ci_start (hd im) \<le> ci_end (hd im)"
      using Cons.prems(2,3) by (auto simp: canon_def interval_ok_def)
    then have v0: "v0 \<in> M" "t < v0" "v0 < s"
      using Cons.prems(4) True ts by (auto simp: v0_def M_def mem_dvals closes_def intro!: bexI[of _ "hd im"])
    have v0D: "v0 \<notin> D" using v0(3) r i(3) by (force simp: D)
    have inC: "M \<inter> ivals i \<subseteq> dvals R1"
      using points1 head1 by (fastforce simp: q)
    have R: "implied_loop (i # r) im points = Interval a b # R1"
      using code True ab(1) by (simp add: points_interval_def)
    have "\<exists>v \<in> M - D. t < v \<and> b < v \<and> v < ci_start k" if "k \<in> set R1" for k
      using v0 v0D ab(3) starts[OF that] by (intro bexI[of _ v0]) auto
    moreover have "opt_points points1 \<union> (dvals r \<inter> dvals im1) \<subseteq> D \<inter> M" using pC M1 C by auto
    then have "{ci_start k, ci_end k} \<subseteq> D \<inter> M" if "k \<in> set R1" for k using ends1(2)[OF that] by blast
    moreover have "D \<inter> M \<subseteq> dvals R1" unfolding C using inC tail1(1) by blast
    moreover have "dvals R1 \<inter> M \<subseteq> D"
    proof
      fix x assume x: "x \<in> dvals R1 \<inter> M"
      then show "x \<in> D" using tail1(2) low[of x] by (cases "e < x") (auto simp: D)
    qed
    moreover have "ivals (Interval a b) \<inter> {t<..} = {}" using ab(3) by auto
    ultimately show ?thesis
      unfolding simplified_def R D_def[symmetric] M_def[symmetric] using gap ab ends1(1)
      by (simp add: opt_points_def) blast
  next
    case False
    then have q: "q = points" by (simp add: q_def)
    have R: "implied_loop (i # r) im points = R1" using code False by simp
    have none: "x \<notin> M" if "points \<noteq> None" "t < x" "x < s" for x
    proof -
      have "s \<le> ci_start (hd im)" using False that(1) by (simp add: closes_def)
      then show ?thesis
        using dvals_Cons_lower[of "hd im" "tl im" x] Cons.prems(2,3) that(3) by (cases im) (auto simp: M_def)
    qed
    have sub: "opt_points points1 \<subseteq> opt_points points \<union> (M \<inter> ivals i)"
      using points1 by (auto simp: q opt_points_def split: option.splits)
    then have "opt_points points1 \<union> (dvals r \<inter> dvals im1) \<subseteq> opt_points points \<union> (D \<inter> M)" unfolding C by blast
    then have "{ci_start k, ci_end k} \<subseteq> opt_points points \<union> (D \<inter> M)" if "k \<in> set R1" for k
      using ends1(2)[OF that] by blast
    moreover have inC: "M \<inter> ivals i \<subseteq> dvals R1"
      using points1 head1 pts ts by (fastforce simp: q s_def split: option.splits)
    then have "D \<inter> M \<subseteq> dvals R1" unfolding C using tail1(1) by blast
    moreover have "x \<in> D" if x: "x \<in> dvals R1" "x \<in> M" "t < x" for x
    proof (cases "e < x")
      case True
      then show ?thesis using tail1(2) x by blast
    next
      case le: False
      have "s \<le> x"
      proof (cases points)
        case None
        show ?thesis
          using simplified_starts[OF R1 _ x(1), of s] sub r i(3) None by (force simp: opt_points_def s_def e_def)
      next
        case (Some ab)
        then show ?thesis using none[OF _ x(3)] x(2) by force
      qed
      then show ?thesis using le by (simp add: D)
    qed
    moreover have "R1 \<noteq> [] \<and> ci_start (hd R1) = a \<and> b \<le> ci_end (hd R1)" if "points = Some (a, b)" for a b
    proof -
      have "b < s" "q = Some (a, b)" using pts[of a b] ts that by (auto simp: q)
      then have "\<exists>b'. points1 = Some (a, b') \<and> b \<le> b'" using points1 by (auto simp: s_def)
      then show ?thesis using R1 by (auto simp: simplified_def)
    qed
    ultimately show ?thesis
      unfolding simplified_def R D_def[symmetric] M_def[symmetric] using gap ends1(1) by blast
  qed
qed

text \<open>The simplified domain as a set: the points between two common values with no implied value in between that the
  domain excludes.\<close>

definition implied_hull :: "int set \<Rightarrow> int set \<Rightarrow> int set" where
  "implied_hull D M = {x. \<exists>a \<in> D \<inter> M. \<exists>b \<in> D \<inter> M. a \<le> x \<and> x \<le> b \<and> {a..b} \<inter> M \<subseteq> D}"

lemma sorted_wrt_same_or_separated:
  assumes "sorted_wrt P xs" "x \<in> set xs" "y \<in> set xs"
  shows "x = y \<or> P x y \<or> P y x"
  using assms by (induction xs) auto

lemma simplified_hull:
  assumes "simplified t D M None R" "\<And>x. x \<in> D \<Longrightarrow> t < x"
  shows "dvals R = implied_hull D M"
proof (intro set_eqI iffI)
  fix x assume "x \<in> dvals R"
  then obtain i where i: "i \<in> set R" "ci_start i \<le> x" "x \<le> ci_end i" by (auto simp: mem_dvals)
  then have e: "ci_start i \<in> D \<inter> M" "ci_end i \<in> D \<inter> M" using assms(1) by (auto simp: simplified_def opt_points_def)
  have "{ci_start i..ci_end i} \<subseteq> dvals R \<inter> {t<..}"
    using i(1) e(1) assms(2)[of "ci_start i"] by (auto simp: mem_dvals)
  then have "{ci_start i..ci_end i} \<inter> M \<subseteq> D" using assms(1) by (auto simp: simplified_def)
  then show "x \<in> implied_hull D M" using e i(2,3) unfolding implied_hull_def by blast
next
  fix x assume "x \<in> implied_hull D M"
  then obtain a b where ab: "a \<in> D \<inter> M" "b \<in> D \<inter> M" "a \<le> x" "x \<le> b" "{a..b} \<inter> M \<subseteq> D"
    by (auto simp: implied_hull_def)
  have "D \<inter> M \<subseteq> dvals R" using assms(1) by (simp add: simplified_def)
  then have "a \<in> dvals R" "b \<in> dvals R" using ab(1,2) by blast+
  then obtain i j where ij: "i \<in> set R" "j \<in> set R" "a \<in> ivals i" "b \<in> ivals j" unfolding dvals_def by blast
  define P where "P = (\<lambda>i j. \<exists>v \<in> M - D. t < v \<and> ci_end i < v \<and> v < ci_start j)"
  have "sorted_wrt P R" using assms(1) unfolding simplified_def P_def by blast
  from sorted_wrt_same_or_separated[OF this ij(1,2)] consider "i = j" | "P i j" | "P j i" by blast
  then show "x \<in> dvals R"
  proof cases
    case 1
    then show ?thesis using ij ab(3,4) by (auto simp: mem_dvals intro!: bexI[of _ j])
  next
    case 2
    then obtain v where v: "v \<in> M" "v \<notin> D" "ci_end i < v" "v < ci_start j" by (auto simp: P_def)
    then have "v \<in> {a..b} \<inter> M" using ij(3,4) by auto
    then show ?thesis using ab(5) v(2) by blast
  next
    case 3
    then show ?thesis using ab(3,4) ij(3,4) by (auto simp: P_def)
  qed
qed

lemma simplified_canon:
  assumes "simplified t D M None R" "\<And>x. x \<in> D \<Longrightarrow> in_int64 x"
  shows "canon R"
proof -
  have "interval_ok i" if "i \<in> set R" for i
    using assms that by (auto simp: simplified_def opt_points_def interval_ok_def)
  moreover have "sorted_wrt (\<lambda>i j. ci_end i + 1 < ci_start j) R"
    using assms(1) unfolding simplified_def by (auto elim!: sorted_wrt_mono_rel[rotated])
  ultimately show ?thesis by (simp add: canon_def)
qed

lemma Domain_SimplifyUsingImpliedDomain_spec:
  assumes "canon d" "canon implied"
  shows "canon (Domain_SimplifyUsingImpliedDomain d implied)"
    "dvals (Domain_SimplifyUsingImpliedDomain d implied) = implied_hull (dvals d) (dvals implied)"
proof -
  let ?R = "Domain_SimplifyUsingImpliedDomain d implied"
  define t where "t = kint64min - 2"
  have low: "t + 1 < x" if "in_int64 x" for x using that by (simp add: t_def in_int64_def)
  have "simplified t (dvals d) (dvals implied) None ?R"
  proof (cases "implied = []")
    case True
    then show ?thesis by (simp add: Domain_SimplifyUsingImpliedDomain_def simplified_def)
  next
    case False
    then have "interval_ok (hd implied)" using assms(2) by (simp add: canon_def)
    then have "t < ci_end (hd implied)" using low[of "ci_end (hd implied)"] by (simp add: interval_ok_def)
    then have "simplified t (dvals d) (dvals implied) None (implied_loop d implied None)"
      using assms False low canon_in_int64[OF assms(1)] by (intro implied_loop_spec) auto
    then show ?thesis using False by (simp add: Domain_SimplifyUsingImpliedDomain_def)
  qed
  then show "canon ?R" "dvals ?R = implied_hull (dvals d) (dvals implied)"
    using simplified_canon[of t "dvals d"] simplified_hull[of t "dvals d"] canon_in_int64[OF assms(1)] low[THEN less_trans[of t "t + 1", simplified]]
    by blast+
qed

lemma implied_hull_Int: "implied_hull D M \<inter> M = D \<inter> M"
  by (fastforce simp: implied_hull_def)

text \<open>The search for the unique value stops at an excluded interval that reaches the greatest int64, even if a later
  interval has another value before it.\<close>

lemma UniqueValueNotIn_stops_early:
  "Domain_UniqueValueNotIn [Interval 1 1, Interval 5 5] [Interval 7 kint64max] = Some 1"
  by (simp add: Domain_UniqueValueNotIn_def unique_loop.simps)

section \<open>Sums of extreme values: correctness\<close>

lemma k_min_interval_spec:
  assumes "in_int64 s" "in_int32 v" "stop < kint32max"
  shows "k_min_interval left v stop s =
    Some (left - length [v..stop], wrap64 (s + sum_list (take left [v..stop])))"
  using assms
proof (induction left v stop s rule: k_min_interval.induct)
  case (1 left v stop s)
  show ?case
  proof (cases "v \<le> stop")
    case False
    then show ?thesis using "1.prems" by (simp add: k_min_interval.simps)
  next
    case le: True
    show ?thesis
    proof (cases left)
      case 0
      then show ?thesis using le "1.prems" by (simp add: k_min_interval.simps)
    next
      case (Suc l)
      have "k_min_interval left v stop s = k_min_interval l (v + 1) stop (wrap64 (s + v))"
        using Suc le "1.prems" by (subst k_min_interval.simps) simp
      moreover have "in_int32 (v + 1)" "v \<noteq> kint32max" using le "1.prems" by (simp_all add: in_int32_def)
      ultimately show ?thesis
        using "1.IH"[OF _ Suc] Suc le "1.prems" upto_rec1[OF le]
        by (simp add: wrap64_wrap64_add add.assoc in_int64_wrap64)
    qed
  qed
qed

text \<open>While the values are below the greatest \<open>int\<close>, the sum is that of the first values of the iterator.\<close>

lemma k_min_loop_spec:
  assumes "in_int64 s" "\<forall>i \<in> set d. in_int32 (ci_start i) \<and> ci_end i < kint32max"
  shows "k_min_loop d left s = Some (wrap64 (s + sum_list (take left (Domain_Values d))))"
  using assms
proof (induction d left s rule: k_min_loop.induct)
  case (2 i r left s)
  let ?vs = "[ci_start i..ci_end i]"
  have "k_min_interval left (wrap32 (ci_start i)) (ci_end i) s =
    Some (left - length ?vs, wrap64 (s + sum_list (take left ?vs)))"
    using k_min_interval_spec[OF "2.prems"(1), of "ci_start i" "ci_end i"] "2.prems"(2) by simp
  then show ?case
    using "2.IH" "2.prems" by (auto simp: Domain_Values_def wrap64_wrap64_add add.assoc in_int64_wrap64)
qed (simp add: Domain_Values_def)

lemma SumOfKMinValueInDomain_spec:
  assumes "\<forall>i \<in> set d. in_int32 (ci_start i) \<and> ci_end i < kint32max"
  shows "SumOfKMinValueInDomain d k = Some (wrap64 (sum_list (take (nat k) (Domain_Values d))))"
  using k_min_loop_spec[OF _ assms] by (simp add: SumOfKMinValueInDomain_def in_int64_def)

text \<open>The loop variable is an \<open>int\<close>, so a greater value counts as its low 32 bits.\<close>

lemma SumOfKMinValueInDomain_narrows: "SumOfKMinValueInDomain [Interval 4294967297 4294967297] 1 = Some 1"
  by (simp add: SumOfKMinValueInDomain_def k_min_interval.simps wrap32_def wrap64_def)

end
