(* ===== verification/DomainQuadratic.thy ===== *)
theory DomainQuadratic
  imports DomainDiv
begin

text \<open>
  \<open>Domain::QuadraticSuperset\<close> (\<open>or-tools/ortools/util/sorted_interval_list.cc\<close>): a superset of the products of two
  affine expressions of one variable. The intermediate values of the code are 128 bits wide and stay in range.
\<close>

section \<open>The superset\<close>

definition quad_evaluate :: "int64 \<Rightarrow> int64 \<Rightarrow> int64 \<Rightarrow> int64 \<Rightarrow> int64 \<Rightarrow> int64" where
  "quad_evaluate a b c d x = CapProd (CapAdd (CapProd a x) b) (CapAdd (CapProd c x) d)"

definition EvaluateQuadraticProdInterval ::
  "int64 \<Rightarrow> int64 \<Rightarrow> int64 \<Rightarrow> int64 \<Rightarrow> int64 \<Rightarrow> int64 \<Rightarrow> closed_interval" where
  "EvaluateQuadraticProdInterval a b c d variable_min variable_max =
     (let nominator = - a * d - b * c;
          denominator = a * c;
          evaluated_minimum_point = (nominator sdiv denominator) sdiv 2;
          at_min_x = quad_evaluate a b c d variable_min;
          at_max_x = quad_evaluate a b c d variable_max;
          min_var = min at_min_x at_max_x;
          max_var = max at_min_x at_max_x
      in if evaluated_minimum_point > variable_min \<and> evaluated_minimum_point < variable_max then
           let rounder = (if (nominator > 0) = (denominator > 0) then 1 else - 1);
               point1 = quad_evaluate a b c d evaluated_minimum_point;
               point2 = quad_evaluate a b c d (evaluated_minimum_point + rounder)
           in Interval (min min_var (min point1 point2)) (max max_var (max point1 point2))
         else Interval min_var max_var)"

definition Domain_QuadraticSuperset :: "domain \<Rightarrow> int64 \<Rightarrow> int64 \<Rightarrow> int64 \<Rightarrow> int64 \<Rightarrow> domain" where
  "Domain_QuadraticSuperset dm a b c d =
     (if Domain_IsEmpty dm then []
      else if Domain_Size dm < kDomainComplexityLimit then Domain_FromValues (map (quad_evaluate a b c d) (Domain_Values dm))
      else if a = 0 then Domain_AdditionWith (fst (Domain_MultiplicationBy dm (CapProd c b))) (Domain_value (CapProd d b))
      else if c = 0 then Domain_AdditionWith (fst (Domain_MultiplicationBy dm (CapProd a d))) (Domain_value (CapProd d b))
      else UnionOfSortedIntervals
        (std_sort (map (\<lambda>i. EvaluateQuadraticProdInterval a b c d (ci_start i) (ci_end i)) dm)))"

text \<open>The intermediate values fit in 128 bits.\<close>

lemma quad_int128:
  assumes "in_int64 a" "in_int64 b" "in_int64 c" "in_int64 d"
  shows "- (2 ^ 127) \<le> - a * d - b * c" "- a * d - b * c < 2 ^ 127"
proof -
  have m: "x * y \<le> 2 ^ 126" "- (2 ^ 63 * (2 ^ 63 - 1)) \<le> x * y" if "in_int64 x" "in_int64 y" for x y
  proof -
    have y: "- (2 ^ 63) \<le> y" "y \<le> 2 ^ 63 - 1" and x: "- (2 ^ 63) \<le> x" "x \<le> 2 ^ 63 - 1"
      using that by (simp_all add: in_int64_def)
    note s = between_scaled[OF x, of y]
    have "- (2 ^ 63) * y \<le> 2 ^ 126" "(2 ^ 63 - 1) * y \<le> 2 ^ 126"
      "- (2 ^ 63 * (2 ^ 63 - 1)) \<le> - (2 ^ 63) * y" "- (2 ^ 63 * (2 ^ 63 - 1)) \<le> (2 ^ 63 - 1) * y" using y by simp_all
    then show "x * y \<le> 2 ^ 126" "- (2 ^ 63 * (2 ^ 63 - 1)) \<le> x * y" using s by linarith+
  qed
  show "- (2 ^ 127) \<le> - a * d - b * c" "- a * d - b * c < 2 ^ 127"
    using m[OF assms(1,4)] m[OF assms(2,3)] by simp_all
qed

section \<open>The extremes of a quadratic on an interval\<close>

lemma quad_diff: "(q * y * y - n * y) - (q * x * x - n * x) = (y - x) * (q * (x + y) - n)" for q n x y :: int
  by (simp add: algebra_simps)

lemma quad_mono:
  fixes q n x y :: int
  assumes "x \<le> y"
  shows "n \<le> q * (x + y) \<Longrightarrow> q * x * x - n * x \<le> q * y * y - n * y"
    "q * (x + y) \<le> n \<Longrightarrow> q * y * y - n * y \<le> q * x * x - n * x"
  using assms quad_diff[of q y n x] mult_nonneg_nonneg[of "y - x" "q * (x + y) - n"]
    mult_nonneg_nonpos[of "y - x" "q * (x + y) - n"] by linarith+

text \<open>A convex quadratic is greatest at an end, and least at the integers around its extreme or, if they are not
  inside, at the end nearest to it, unless the extreme is more than halfway to the neighbour of that end.\<close>

lemma quad_convex:
  fixes q n p p2 lo x hi :: int
  assumes "0 < q" "lo \<le> x" "x \<le> hi"
    and around: "2 * q * p \<le> n \<and> n \<le> 2 * q * (p + 1) \<and> p2 = p + 1 \<or> 2 * q * (p - 1) \<le> n \<and> n \<le> 2 * q * p \<and> p2 = p - 1"
    and ends: "p = lo \<or> p = hi \<Longrightarrow> \<bar>n - 2 * q * p\<bar> \<le> q"
  defines "h \<equiv> \<lambda>x. q * x * x - n * x"
  shows "h x \<le> h lo \<or> h x \<le> h hi"
    "h lo \<le> h x \<or> h hi \<le> h x \<or> lo < p \<and> p < hi \<and> (h p \<le> h x \<or> h p2 \<le> h x)"
proof -
  have mono: "n \<le> q * (y + z) \<Longrightarrow> h y \<le> h z" "q * (y + z) \<le> n \<Longrightarrow> h z \<le> h y" if "y \<le> z" for y z
    using quad_mono[OF that] by (simp_all add: h_def)
  have around': "2 * (q * (p - 1)) \<le> n" "n \<le> 2 * (q * (p + 1))" using around assms(1) by (auto simp: algebra_simps)
  show "h x \<le> h lo \<or> h x \<le> h hi"
  proof (cases "q * (lo + x) \<le> n")
    case True
    then show ?thesis using mono(2)[OF assms(2)] by simp
  next
    case False
    have "q * (lo + x) \<le> q * (x + hi)" using assms(1-3) by (intro mult_left_mono) auto
    then show ?thesis using False mono(1)[OF assms(3)] by simp
  qed
  have below: "h y \<le> h x" if "x \<le> y" "2 * (q * y) \<le> n" for y
  proof (rule mono(2)[OF that(1)])
    have "q * (x + y) \<le> q * (2 * y)" using assms(1) that(1) by (intro mult_left_mono) auto
    then show "q * (x + y) \<le> n" using that(2) by (simp add: algebra_simps)
  qed
  have above: "h y \<le> h x" if "y \<le> x" "n \<le> 2 * (q * y)" for y
  proof (rule mono(1)[OF that(1)])
    have "q * (2 * y) \<le> q * (y + x)" using assms(1) that(1) by (intro mult_left_mono) auto
    then show "n \<le> q * (y + x)" using that(2) by (simp add: algebra_simps)
  qed
  have scale: "q * y \<le> q * z" if "y \<le> z" for y z using that assms(1) by (intro mult_left_mono) auto
  consider "lo < p" "p < hi" | "p < lo" | "hi < p" | "p = lo" | "p = hi" by linarith
  then show "h lo \<le> h x \<or> h hi \<le> h x \<or> lo < p \<and> p < hi \<and> (h p \<le> h x \<or> h p2 \<le> h x)"
  proof cases
    case 1
    have "x \<le> p \<or> p + 1 \<le> x" "x \<le> p - 1 \<or> p \<le> x" by linarith+
    then show ?thesis
      using around 1 below[of p] above[of "p + 1"] below[of "p - 1"] above[of p] by (auto simp: mult.assoc)
  next
    case 2
    then show ?thesis using above[OF assms(2)] around'(2) scale[of "p + 1" lo] by linarith
  next
    case 3
    then show ?thesis using below[OF assms(3)] around'(1) scale[of hi "p - 1"] by linarith
  next
    case 4
    have "x = lo \<or> q * (2 * lo + 1) \<le> q * (lo + x)" using assms(2) scale[of "2 * lo + 1" "lo + x"] by linarith
    moreover have "n \<le> q * (2 * lo + 1)" using ends 4 by (auto simp: algebra_simps)
    ultimately show ?thesis using mono(1)[OF assms(2)] by force
  next
    case 5
    have "x = hi \<or> q * (x + hi) \<le> q * (2 * hi - 1)" using assms(3) scale[of "x + hi" "2 * hi - 1"] by linarith
    moreover have "q * (2 * hi - 1) \<le> n" using ends 5 by (auto simp: algebra_simps)
    ultimately show ?thesis using mono(2)[OF assms(3)] by force
  qed
qed

text \<open>The extreme, truncated toward zero, and the next integer away from zero are around the true one.\<close>

definition quad_point :: "int \<Rightarrow> int \<Rightarrow> int" where
  "quad_point n q = (n sdiv q) sdiv 2"

definition quad_point2 :: "int \<Rightarrow> int \<Rightarrow> int" where
  "quad_point2 n q = quad_point n q + (if (n > 0) = (q > 0) then 1 else - 1)"

lemma quad_point_abs: "q \<noteq> 0 \<Longrightarrow> quad_point n q = sgn n * sgn q * (\<bar>n\<bar> div (2 * \<bar>q\<bar>))"
proof -
  assume "q \<noteq> 0"
  have "\<bar>n\<bar> div \<bar>q\<bar> div 2 = \<bar>n\<bar> div (2 * \<bar>q\<bar>)" by (subst mult.commute, subst zdiv_zmult2_eq) simp_all
  moreover have "0 \<le> \<bar>n\<bar> div \<bar>q\<bar>" using \<open>q \<noteq> 0\<close> by (simp add: pos_imp_zdiv_nonneg_iff)
  ultimately show ?thesis using \<open>q \<noteq> 0\<close>
    by (auto simp: quad_point_def signed_divide_int_def sgn_if)
qed

lemma quad_point_around:
  fixes n q :: int
  assumes "q \<noteq> 0"
  defines "p \<equiv> quad_point n q" and "p2 \<equiv> quad_point2 n q" and "m \<equiv> sgn q * n"
  shows "2 * \<bar>q\<bar> * p \<le> m \<and> m \<le> 2 * \<bar>q\<bar> * (p + 1) \<and> p2 = p + 1 \<or>
    2 * \<bar>q\<bar> * (p - 1) \<le> m \<and> m \<le> 2 * \<bar>q\<bar> * p \<and> p2 = p - 1"
proof -
  define k where "k = \<bar>n\<bar> div (2 * \<bar>q\<bar>)"
  have "2 * \<bar>q\<bar> * k + \<bar>n\<bar> mod (2 * \<bar>q\<bar>) = \<bar>n\<bar>" by (simp add: k_def)
  moreover have "0 \<le> \<bar>n\<bar> mod (2 * \<bar>q\<bar>)" "\<bar>n\<bar> mod (2 * \<bar>q\<bar>) < 2 * \<bar>q\<bar>" using assms(1) by simp_all
  ultimately have k: "2 * \<bar>q\<bar> * k \<le> \<bar>n\<bar>" "\<bar>n\<bar> \<le> 2 * \<bar>q\<bar> * (k + 1)"
    by (simp_all add: distrib_left)
  have p: "p = sgn n * sgn q * k" "p2 = p + (if (n > 0) = (q > 0) then 1 else - 1)"
    using quad_point_abs[OF assms(1)] by (simp_all add: p_def p2_def k_def quad_point2_def)
  consider "0 < n" "0 < q" | "0 < n" "q < 0" | "n < 0" "0 < q" | "n < 0" "q < 0" | "n = 0" "0 < q" | "n = 0" "q < 0"
    using assms(1) by linarith
  then show ?thesis using k by cases (auto simp: p m_def algebra_simps)
qed

text \<open>The condition under which the evaluated points are enough: when the truncated extreme is an end of the interval,
  the true one is at most half a unit away from it.\<close>

definition quad_regular :: "int64 \<Rightarrow> int64 \<Rightarrow> int64 \<Rightarrow> int64 \<Rightarrow> closed_interval \<Rightarrow> bool" where
  "quad_regular a b c d i =
     (let n = - a * d - b * c; q = a * c; p = quad_point n q
      in p = ci_start i \<or> p = ci_end i \<longrightarrow> \<bar>n - 2 * q * p\<bar> \<le> \<bar>q\<bar>)"

text \<open>No factor saturates.\<close>

definition quad_fits :: "int64 \<Rightarrow> int64 \<Rightarrow> int64 \<Rightarrow> int64 \<Rightarrow> int64 \<Rightarrow> bool" where
  "quad_fits a b c d x \<longleftrightarrow> in_int64 (a * x) \<and> in_int64 (a * x + b) \<and> in_int64 (c * x) \<and> in_int64 (c * x + d)"

lemma quad_evaluate_fits:
  "in_int64 b \<Longrightarrow> in_int64 d \<Longrightarrow> quad_fits a b c d x \<Longrightarrow> quad_evaluate a b c d x = clamp64 ((a * x + b) * (c * x + d))"
  by (simp add: quad_fits_def quad_evaluate_def CapProd_clamp CapAdd_clamp)

lemma quad_expand:
  fixes a b c d x :: int
  assumes "a * c \<noteq> 0"
  shows "(a * x + b) * (c * x + d) = sgn (a * c) * (\<bar>a * c\<bar> * x * x - sgn (a * c) * (- a * d - b * c) * x) + b * d"
proof -
  have "sgn (a * c) * sgn (a * c) = 1" "sgn (a * c) * \<bar>a * c\<bar> = a * c" using assms by (simp_all add: sgn_if)
  then have "sgn (a * c) * (\<bar>a * c\<bar> * x * x - sgn (a * c) * (- a * d - b * c) * x) = a * c * x * x - (- a * d - b * c) * x"
    by (metis (no_types, lifting) mult.assoc mult_1 right_diff_distrib)
  then show ?thesis by (simp add: algebra_simps)
qed

lemma quad_evaluate_int64: "in_int64 (quad_evaluate a b c d x)"
  by (simp add: quad_evaluate_def CapProd_clamp in_int64_clamp64)

lemma EvaluateQuadraticProdInterval_ok:
  "interval_ok (EvaluateQuadraticProdInterval a b c d lo hi)"
  by (auto simp: EvaluateQuadraticProdInterval_def Let_def interval_ok_def quad_evaluate_int64 min_le_iff_disj le_max_iff_disj
      intro!: in_int64_min in_int64_max)

lemma EvaluateQuadraticProdInterval_spec:
  assumes "a \<noteq> 0" "c \<noteq> 0" "lo \<le> x" "x \<le> hi" "in_int64 b" "in_int64 d" "\<And>y. lo \<le> y \<Longrightarrow> y \<le> hi \<Longrightarrow> quad_fits a b c d y"
    and "quad_regular a b c d (Interval lo hi)"
  shows "quad_evaluate a b c d x \<in> ivals (EvaluateQuadraticProdInterval a b c d lo hi)"
proof -
  define n q where "n = - a * d - b * c" and "q = a * c"
  define p p2 where "p = quad_point n q" and "p2 = quad_point2 n q"
  define h where "h y = \<bar>q\<bar> * y * y - sgn q * n * y" for y
  have q: "q \<noteq> 0" "0 < \<bar>q\<bar>" using assms(1,2) by (simp_all add: q_def)
  have ev: "quad_evaluate a b c d y = clamp64 (sgn q * h y + b * d)" if "lo \<le> y" "y \<le> hi" for y
    using quad_evaluate_fits[OF assms(5,6) assms(7)[OF that]] quad_expand[of a c y b d] q(1) by (simp add: h_def q_def n_def)
  define E where "E = {lo, hi} \<union> (if lo < p \<and> p < hi then {p, p2} else {})"
  have "p = lo \<or> p = hi \<Longrightarrow> \<bar>sgn q * n - 2 * \<bar>q\<bar> * p\<bar> \<le> \<bar>q\<bar>"
    using assms(8) q(1) by (auto simp: quad_regular_def Let_def p_def n_def q_def sgn_if abs_if split: if_splits)
  note convex = quad_convex[OF q(2) assms(3,4) quad_point_around[OF q(1), of n, folded p_def p2_def] this, folded h_def]
  have "\<exists>e \<in> E. h x \<le> h e" "\<exists>e \<in> E. h e \<le> h x" using convex by (auto simp: E_def)
  then obtain e1 e2 where e: "e1 \<in> E" "e2 \<in> E" "sgn q * h x \<le> sgn q * h e1" "sgn q * h e2 \<le> sgn q * h x"
    using q(1) by (cases "0 < q") (auto simp: sgn_if)
  have inside: "lo \<le> y \<and> y \<le> hi" if "y \<in> E" for y
    using that assms(3,4) by (auto simp: E_def p2_def quad_point2_def p_def split: if_splits)
  have "quad_evaluate a b c d x \<le> quad_evaluate a b c d e1" "quad_evaluate a b c d e2 \<le> quad_evaluate a b c d x"
    using ev[OF assms(3,4)] ev[of e1] ev[of e2] inside[OF e(1)] inside[OF e(2)] e(3,4) by (simp_all add: clamp64_mono)
  moreover have "EvaluateQuadraticProdInterval a b c d lo hi =
      (let l = quad_evaluate a b c d lo; h = quad_evaluate a b c d hi;
           v = quad_evaluate a b c d p; w = quad_evaluate a b c d p2
       in if lo < p \<and> p < hi then Interval (min (min l h) (min v w)) (max (max l h) (max v w))
          else Interval (min l h) (max l h))"
    by (simp add: EvaluateQuadraticProdInterval_def Let_def p2_def quad_point2_def p_def quad_point_def n_def q_def)
  ultimately show ?thesis
    using e(1,2) by (auto simp: E_def Let_def min_le_iff_disj le_max_iff_disj split: if_splits)
qed

section \<open>The superset of a domain\<close>

text \<open>When one factor is constant the superset is computed from the products of the coefficients.\<close>

definition quad_linear_fits :: "int64 \<Rightarrow> int64 \<Rightarrow> int64 \<Rightarrow> bool" where
  "quad_linear_fits k e x \<longleftrightarrow> in_int64 k \<and> k \<noteq> kint64min \<and> in_int64 e \<and> in_int64 (x * k) \<and>
     (k < 0 \<longrightarrow> x * k \<noteq> kint64min) \<and> in_int64 (x * k + e)"

text \<open>What the superset relies on: nothing for a domain small enough to be enumerated.\<close>

definition quad_safe :: "domain \<Rightarrow> int64 \<Rightarrow> int64 \<Rightarrow> int64 \<Rightarrow> int64 \<Rightarrow> bool" where
  "quad_safe dm a b c d \<longleftrightarrow> Domain_Size dm < kDomainComplexityLimit \<or>
     (\<forall>x \<in> dvals dm. quad_fits a b c d x) \<and>
     (if a = 0 then \<forall>x \<in> dvals dm. quad_linear_fits (c * b) (d * b) x
      else if c = 0 then \<forall>x \<in> dvals dm. quad_linear_fits (a * d) (d * b) x
      else \<forall>i \<in> set dm. quad_regular a b c d i)"

lemma quad_linear_spec:
  assumes "canon dm" "x \<in> dvals dm" "quad_linear_fits k e x"
  shows "x * k + e \<in> dvals (Domain_AdditionWith (fst (Domain_MultiplicationBy dm k)) (Domain_value e))"
    "canon (Domain_AdditionWith (fst (Domain_MultiplicationBy dm k)) (Domain_value e))"
proof -
  have k: "in_int64 k" "k \<noteq> kint64min" and e: "in_int64 e" using assms(3) by (simp_all add: quad_linear_fits_def)
  note M = Domain_MultiplicationBy_spec[OF assms(1) k]
  have "x * k \<in> product_set (dvals dm) k" using assms(2,3) by (auto simp: product_set_def quad_linear_fits_def)
  then have "x * k \<in> dvals (fst (Domain_MultiplicationBy dm k))" using M(3) by blast
  moreover have "canon (Domain_value e)" "dvals (Domain_value e) = {e}" using e by simp_all
  moreover have "in_int64 (x * k + e)" using assms(3) by (simp add: quad_linear_fits_def)
  ultimately show "x * k + e \<in> dvals (Domain_AdditionWith (fst (Domain_MultiplicationBy dm k)) (Domain_value e))"
    "canon (Domain_AdditionWith (fst (Domain_MultiplicationBy dm k)) (Domain_value e))"
    using Domain_AdditionWith_spec[OF M(1)] by auto
qed

lemma Domain_QuadraticSuperset_spec:
  assumes "canon dm" "in_int64 b" "in_int64 d" "quad_safe dm a b c d" "x \<in> dvals dm"
  shows "quad_evaluate a b c d x \<in> dvals (Domain_QuadraticSuperset dm a b c d)"
    "canon (Domain_QuadraticSuperset dm a b c d)"
proof -
  let ?R = "Domain_QuadraticSuperset dm a b c d"
  note D = Domain_QuadraticSuperset_def
  have ne: "\<not> Domain_IsEmpty dm" using assms(1,5) by (auto simp: Domain_IsEmpty_iff)
  have "quad_evaluate a b c d x \<in> dvals ?R \<and> canon ?R"
  proof (cases "Domain_Size dm < kDomainComplexityLimit")
    case True
    note F = FromValues_spec[of "map (quad_evaluate a b c d) (Domain_Values dm)"]
    show ?thesis
      using F ne True assms(5) by (simp add: D quad_evaluate_int64 set_Domain_Values)
  next
    case big: False
    then have fits: "quad_fits a b c d y" if "y \<in> dvals dm" for y using assms(4) that by (simp add: quad_safe_def)
    note ev = quad_evaluate_fits[OF assms(2,3) fits[OF assms(5)]]
    consider "a = 0" | "a \<noteq> 0" "c = 0" | "a \<noteq> 0" "c \<noteq> 0" by blast
    then show ?thesis
    proof cases
      case 1
      then have l: "quad_linear_fits (c * b) (d * b) x" using assms(4,5) big by (simp add: quad_safe_def)
      then have "CapProd c b = c * b" "CapProd d b = d * b" "quad_evaluate a b c d x = x * (c * b) + d * b"
        using 1 ev by (simp_all add: CapProd_clamp quad_linear_fits_def algebra_simps)
      then show ?thesis using quad_linear_spec[OF assms(1,5) l] ne big 1 by (simp add: D)
    next
      case 2
      then have l: "quad_linear_fits (a * d) (d * b) x" using assms(4,5) big by (simp add: quad_safe_def)
      then have "CapProd a d = a * d" "CapProd d b = d * b" "quad_evaluate a b c d x = x * (a * d) + d * b"
        using 2 ev by (simp_all add: CapProd_clamp quad_linear_fits_def algebra_simps)
      then show ?thesis using quad_linear_spec[OF assms(1,5) l] ne big 2 by (simp add: D)
    next
      case 3
      define m where "m = map (\<lambda>i. EvaluateQuadraticProdInterval a b c d (ci_start i) (ci_end i)) dm"
      have R: "?R = UnionOfSortedIntervals (std_sort m)" using ne big 3 by (simp add: D m_def)
      obtain i where i: "i \<in> set dm" "ci_start i \<le> x" "x \<le> ci_end i" using assms(5) by (auto simp: mem_dvals)
      have "quad_regular a b c d (Interval (ci_start i) (ci_end i))"
        using assms(4) big 3 i(1) by (simp add: quad_safe_def)
      moreover have "quad_fits a b c d y" if "ci_start i \<le> y" "y \<le> ci_end i" for y
        using fits[of y] that i(1) by (auto simp: mem_dvals)
      ultimately have "quad_evaluate a b c d x \<in> ivals (EvaluateQuadraticProdInterval a b c d (ci_start i) (ci_end i))"
        using EvaluateQuadraticProdInterval_spec[OF 3 i(2,3) assms(2,3)] by blast
      then have "quad_evaluate a b c d x \<in> dvals m" unfolding dvals_def m_def using i(1) by auto
      moreover have "\<forall>k \<in> set m. interval_ok k" by (simp add: m_def EvaluateQuadraticProdInterval_ok)
      ultimately show ?thesis unfolding R using union_std_sort_spec[of m] by blast
    qed
  qed
  then show "quad_evaluate a b c d x \<in> dvals ?R" "canon ?R" by simp_all
qed

text \<open>The condition on the extreme cannot be dropped: the product of \<open>2 x - 1\<close> and \<open>x - 1\<close> is zero at one.\<close>

lemma QuadraticSuperset_misses_a_value:
  "Domain_QuadraticSuperset [Interval 0 200] 2 (- 1) 1 (- 1) = [Interval 1 79401] \<and> quad_evaluate 2 (- 1) 1 (- 1) 1 = 0"
  by (simp add: Domain_QuadraticSuperset_def Domain_IsEmpty_def EvaluateQuadraticProdInterval_def quad_evaluate_def
      CapProd_clamp CapAdd_clamp clamp64_def CapSub_clamp signed_divide_int_def Domain_Size_def std_sort_def Let_def
      kDomainComplexityLimit_def in_int64_def)

end
