(* ===== verification/Doubles.thy ===== *)
theory Doubles
  imports Prelude Complex_Main
begin

text \<open>
  IEEE 754 binary64, as far as the objective code of the solver uses it: a finite double is the
  rational number it denotes (the two zeros are one value), and every operation rounds the exact
  result to the nearest double, ties to even, with overflow to an infinity.
\<close>

datatype double = Fin rat | Inf bool | NaN  \<comment> \<open>\<open>Inf True\<close> is the negative infinity\<close>

section \<open>Rounding\<close>

text \<open>Powers of two by repeated squaring, for an exponent of either sign.\<close>

function pow2_int :: "int \<Rightarrow> int" where
  "pow2_int e =
     (if e \<le> 0 then 1
      else let r = pow2_int (e div 2) in if even e then r * r else 2 * (r * r))"
  by pat_completeness auto
termination
  by (relation "measure nat") auto

declare pow2_int.simps [simp del]

definition pow2 :: "int \<Rightarrow> rat" where
  "pow2 e = (if 0 \<le> e then of_int (pow2_int e) else 1 / of_int (pow2_int (- e)))"

text \<open>The number of binary digits of a positive integer.\<close>

function int_bits :: "int \<Rightarrow> int" where
  "int_bits n = (if n \<le> 0 then 0 else 1 + int_bits (n div 2))"
  by pat_completeness auto
termination
  by (relation "measure nat") auto

declare int_bits.simps [simp del]

text \<open>The exponent \<open>e\<close> with \<open>pow2 e \<le> q < pow2 (e + 1)\<close>, of a positive rational.\<close>

definition exponent :: "rat \<Rightarrow> int" where
  "exponent q =
     (let (n, d) = quotient_of q;
          k = int_bits n - int_bits d
      in if pow2 k \<le> q then k else k - 1)"

definition round_half_even :: "rat \<Rightarrow> int" where
  "round_half_even q =
     (let f = \<lfloor>q\<rfloor>; r = q - of_int f
      in if r < 1 / 2 then f else if r > 1 / 2 then f + 1 else if even f then f else f + 1)"

definition round_pos :: "rat \<Rightarrow> rat" where
  "round_pos q = (let p = max (exponent q - 52) (- 1074) in of_int (round_half_even (q / pow2 p)) * pow2 p)"

definition d_round :: "rat \<Rightarrow> double" where
  "d_round q =
     (if q = 0 then Fin 0
      else let a = round_pos \<bar>q\<bar>
           in if pow2 1024 \<le> a then Inf (q < 0) else Fin (if q < 0 then - a else a))"

section \<open>Operations\<close>

text \<open>\<open>static_cast<double>\<close> of an integer.\<close>

definition d_of_int :: "int \<Rightarrow> double" where
  "d_of_int i = d_round (of_int i)"

fun d_neg :: "double \<Rightarrow> double" where
  "d_neg (Fin a) = Fin (- a)"
| "d_neg (Inf s) = Inf (\<not> s)"
| "d_neg NaN = NaN"

fun d_abs :: "double \<Rightarrow> double" where
  "d_abs (Fin a) = Fin \<bar>a\<bar>"
| "d_abs (Inf s) = Inf False"
| "d_abs NaN = NaN"

fun d_add :: "double \<Rightarrow> double \<Rightarrow> double" where
  "d_add (Fin a) (Fin b) = d_round (a + b)"
| "d_add NaN _ = NaN"
| "d_add _ NaN = NaN"
| "d_add (Inf s) (Inf t) = (if s = t then Inf s else NaN)"
| "d_add (Inf s) (Fin _) = Inf s"
| "d_add (Fin _) (Inf t) = Inf t"

fun d_mul :: "double \<Rightarrow> double \<Rightarrow> double" where
  "d_mul (Fin a) (Fin b) = d_round (a * b)"
| "d_mul NaN _ = NaN"
| "d_mul _ NaN = NaN"
| "d_mul (Inf s) (Inf t) = Inf (s \<noteq> t)"
| "d_mul (Inf s) (Fin b) = (if b = 0 then NaN else Inf (s \<noteq> (b < 0)))"
| "d_mul (Fin a) (Inf t) = (if a = 0 then NaN else Inf ((a < 0) \<noteq> t))"

definition d_sub :: "double \<Rightarrow> double \<Rightarrow> double" where
  "d_sub a b = d_add a (d_neg b)"

text \<open>A zero divisor is taken as the positive zero.\<close>

fun d_div :: "double \<Rightarrow> double \<Rightarrow> double" where
  "d_div (Fin a) (Fin b) = (if b = 0 then (if a = 0 then NaN else Inf (a < 0)) else d_round (a / b))"
| "d_div NaN _ = NaN"
| "d_div _ NaN = NaN"
| "d_div (Inf s) (Inf t) = NaN"
| "d_div (Inf s) (Fin b) = Inf (s \<noteq> (b < 0))"
| "d_div (Fin a) (Inf t) = Fin 0"

text \<open>\<open>operator<\<close>: false as soon as one side is a NaN.\<close>

fun d_less :: "double \<Rightarrow> double \<Rightarrow> bool" where
  "d_less (Fin a) (Fin b) \<longleftrightarrow> a < b"
| "d_less NaN _ \<longleftrightarrow> False"
| "d_less _ NaN \<longleftrightarrow> False"
| "d_less (Inf s) (Inf t) \<longleftrightarrow> s \<and> \<not> t"
| "d_less (Inf s) (Fin _) \<longleftrightarrow> s"
| "d_less (Fin _) (Inf t) \<longleftrightarrow> \<not> t"

definition d_min :: "double \<Rightarrow> double \<Rightarrow> double" where
  "d_min a b = (if d_less b a then b else a)"

definition d_max :: "double \<Rightarrow> double \<Rightarrow> double" where
  "d_max a b = (if d_less a b then b else a)"

fun d_eq :: "double \<Rightarrow> double \<Rightarrow> bool" where
  "d_eq NaN _ \<longleftrightarrow> False"
| "d_eq _ NaN \<longleftrightarrow> False"
| "d_eq a b \<longleftrightarrow> a = b"

fun isfinite :: "double \<Rightarrow> bool" where
  "isfinite (Fin _) \<longleftrightarrow> True"
| "isfinite _ \<longleftrightarrow> False"

text \<open>Neither zero, subnormal, infinite nor NaN.\<close>

fun isnormal :: "double \<Rightarrow> bool" where
  "isnormal (Fin a) \<longleftrightarrow> pow2 (- 1022) \<le> \<bar>a\<bar>"
| "isnormal _ \<longleftrightarrow> False"

end
