(* ===== verification/CpProto.thy ===== *)
theory CpProto
  imports Doubles
begin

text \<open>
  The messages of \<open>or-tools/ortools/sat/cp_model.proto\<close>: one record per message, with the
  fields of the proto in its order.  A repeated field is a list, an optional sub-message an
  \<open>option\<close> (read through an accessor that yields the default instance when it is absent, as the
  generated code does), and the \<open>oneof constraint\<close> a datatype with a constructor per case.
\<close>

section \<open>Messages\<close>

record IntegerVariableProto =
  iv_name :: string
  iv_domain :: "int64 list"

record LinearExpressionProto =
  le_vars :: "int32 list"
  le_coeffs :: "int64 list"
  le_offset :: int64

record BoolArgumentProto =
  ba_literals :: "int32 list"

record LinearArgumentProto =
  la_target :: "LinearExpressionProto option"
  la_exprs :: "LinearExpressionProto list"

record AllDifferentConstraintProto =
  ad_exprs :: "LinearExpressionProto list"

record LinearConstraintProto =
  lc_vars :: "int32 list"
  lc_coeffs :: "int64 list"
  lc_domain :: "int64 list"

record ElementConstraintProto =
  el_index :: int32
  el_target :: int32
  el_vars :: "int32 list"
  el_linear_index :: "LinearExpressionProto option"
  el_linear_target :: "LinearExpressionProto option"
  el_exprs :: "LinearExpressionProto list"

record IntervalConstraintProto =
  in_start :: "LinearExpressionProto option"
  in_end :: "LinearExpressionProto option"
  in_size :: "LinearExpressionProto option"

record NoOverlapConstraintProto =
  no_intervals :: "int32 list"

record NoOverlap2DConstraintProto =
  n2_x_intervals :: "int32 list"
  n2_y_intervals :: "int32 list"

record CumulativeConstraintProto =
  cu_capacity :: "LinearExpressionProto option"
  cu_intervals :: "int32 list"
  cu_demands :: "LinearExpressionProto list"

record ReservoirConstraintProto =
  re_min_level :: int64
  re_max_level :: int64
  re_time_exprs :: "LinearExpressionProto list"
  re_level_changes :: "LinearExpressionProto list"
  re_active_literals :: "int32 list"

record CircuitConstraintProto =
  ci_tails :: "int32 list"
  ci_heads :: "int32 list"
  ci_literals :: "int32 list"

record RoutesConstraintProto =
  ro_tails :: "int32 list"
  ro_heads :: "int32 list"
  ro_literals :: "int32 list"
  ro_demands :: "int32 list"
  ro_capacity :: int64
  ro_dimensions :: "LinearExpressionProto list list"

record TableConstraintProto =
  ta_vars :: "int32 list"
  ta_values :: "int64 list"
  ta_exprs :: "LinearExpressionProto list"
  ta_negated :: bool

record InverseConstraintProto =
  inv_f_direct :: "int32 list"
  inv_f_inverse :: "int32 list"
  inv_f_expr_direct :: "LinearExpressionProto list"
  inv_f_expr_inverse :: "LinearExpressionProto list"

record AutomatonConstraintProto =
  au_starting_state :: int64
  au_final_states :: "int64 list"
  au_transition_tail :: "int64 list"
  au_transition_head :: "int64 list"
  au_transition_label :: "int64 list"
  au_vars :: "int32 list"
  au_exprs :: "LinearExpressionProto list"

record ListOfVariablesProto =
  lv_vars :: "int32 list"

datatype ConstraintCase =
    kBoolOr BoolArgumentProto
  | kBoolAnd BoolArgumentProto
  | kAtMostOne BoolArgumentProto
  | kExactlyOne BoolArgumentProto
  | kBoolXor BoolArgumentProto
  | kIntDiv LinearArgumentProto
  | kIntMod LinearArgumentProto
  | kIntProd LinearArgumentProto
  | kLinMax LinearArgumentProto
  | kLinear LinearConstraintProto
  | kAllDiff AllDifferentConstraintProto
  | kElement ElementConstraintProto
  | kCircuit CircuitConstraintProto
  | kRoutes RoutesConstraintProto
  | kTable TableConstraintProto
  | kAutomaton AutomatonConstraintProto
  | kInverse InverseConstraintProto
  | kReservoir ReservoirConstraintProto
  | kInterval IntervalConstraintProto
  | kNoOverlap NoOverlapConstraintProto
  | kNoOverlap2D NoOverlap2DConstraintProto
  | kCumulative CumulativeConstraintProto
  | kDummyConstraint ListOfVariablesProto
  | CONSTRAINT_NOT_SET

record ConstraintProto =
  ct_name :: string
  ct_enforcement_literal :: "int32 list"
  ct_constraint :: ConstraintCase

record CpObjectiveProto =
  ob_vars :: "int32 list"
  ob_coeffs :: "int64 list"
  ob_offset :: double
  ob_scaling_factor :: double
  ob_domain :: "int64 list"
  ob_scaling_was_exact :: bool
  ob_integer_before_offset :: int64
  ob_integer_after_offset :: int64
  ob_integer_scaling_factor :: int64

record FloatObjectiveProto =
  fo_vars :: "int32 list"
  fo_coeffs :: "double list"
  fo_offset :: double
  fo_maximize :: bool

record DecisionStrategyProto =
  ds_variables :: "int32 list"
  ds_exprs :: "LinearExpressionProto list"
  ds_variable_selection_strategy :: int32
  ds_domain_reduction_strategy :: int32

record PartialVariableAssignment =
  pa_vars :: "int32 list"
  pa_values :: "int64 list"

record CpModelProto =
  m_name :: string
  m_variables :: "IntegerVariableProto list"
  m_constraints :: "ConstraintProto list"
  m_objective :: "CpObjectiveProto option"
  m_floating_point_objective :: "FloatObjectiveProto option"
  m_search_strategy :: "DecisionStrategyProto list"
  m_solution_hint :: "PartialVariableAssignment option"
  m_assumptions :: "int32 list"

datatype CpSolverStatus = UNKNOWN | MODEL_INVALID | FEASIBLE | INFEASIBLE | OPTIMAL

section \<open>Default instances and accessors\<close>

definition LinearExpressionProto_default :: LinearExpressionProto where
  "LinearExpressionProto_default = \<lparr> le_vars = [], le_coeffs = [], le_offset = 0 \<rparr>"

definition expr_or_default :: "LinearExpressionProto option \<Rightarrow> LinearExpressionProto" where
  "expr_or_default e = (case e of Some x \<Rightarrow> x | None \<Rightarrow> LinearExpressionProto_default)"

definition IntervalConstraintProto_default :: IntervalConstraintProto where
  "IntervalConstraintProto_default = \<lparr> in_start = None, in_end = None, in_size = None \<rparr>"

definition ct_interval :: "ConstraintProto \<Rightarrow> IntervalConstraintProto" where
  "ct_interval ct =
     (case ct_constraint ct of kInterval i \<Rightarrow> i | _ \<Rightarrow> IntervalConstraintProto_default)"

definition CpModelProto_default :: CpModelProto where
  "CpModelProto_default =
     \<lparr> m_name = [], m_variables = [], m_constraints = [], m_objective = None,
       m_floating_point_objective = None, m_search_strategy = [], m_solution_hint = None,
       m_assumptions = [] \<rparr>"

abbreviation variables_size :: "CpModelProto \<Rightarrow> int" where
  "variables_size m \<equiv> int (length (m_variables m))"

abbreviation constraints_size :: "CpModelProto \<Rightarrow> int" where
  "constraints_size m \<equiv> int (length (m_constraints m))"

text \<open>Reading a repeated field at an index (in range in every use of the code).\<close>

definition elt :: "'a list \<Rightarrow> int \<Rightarrow> 'a" where
  "elt xs i = xs ! nat i"

lemma elt_of_nat [simp]: "elt xs (int n) = xs ! n"
  by (simp add: elt_def)

lemma elt_0 [simp]: "elt xs 0 = xs ! 0"
  by (simp add: elt_def)

end
