(* ===== verification/CpUtils.thy ===== *)
theory CpUtils
  imports CpProto DomainArith
begin

text \<open>
  The helpers of \<open>or-tools/ortools/sat/cp_model_utils.{h,cc}\<close> on model messages: signed variable
  references, the two generic traversals of a constraint (the references it uses, and a function
  applied to all of them), the domain fields of a message, and the rewriting of linear
  expressions and constraints.
\<close>

section \<open>References\<close>

text \<open>A reference \<open>r < 0\<close> is the negation of the variable \<open>- r - 1\<close>.\<close>

definition NegatedRef :: "int32 \<Rightarrow> int32" where
  "NegatedRef ref = - ref - 1"

definition PositiveRef :: "int32 \<Rightarrow> int32" where
  "PositiveRef ref = max ref (NegatedRef ref)"

definition RefIsPositive :: "int32 \<Rightarrow> bool" where
  "RefIsPositive ref \<longleftrightarrow> ref \<ge> 0"

definition HasEnforcementLiteral :: "ConstraintProto \<Rightarrow> bool" where
  "HasEnforcementLiteral ct \<longleftrightarrow> ct_enforcement_literal ct \<noteq> []"

definition EnforcementLiteral :: "ConstraintProto \<Rightarrow> int32" where
  "EnforcementLiteral ct = hd (ct_enforcement_literal ct)"

section \<open>The references used by a constraint\<close>

record IndexReferences =
  ir_variables :: "int32 list"
  ir_literals :: "int32 list"

definition exprs_vars :: "LinearExpressionProto list \<Rightarrow> int32 list" where
  "exprs_vars es = concat (map le_vars es)"

abbreviation opt_vars :: "LinearExpressionProto option \<Rightarrow> int32 list" where
  "opt_vars e \<equiv> le_vars (expr_or_default e)"

text \<open>The legacy fields of an element constraint take precedence.\<close>

definition element_is_legacy :: "ElementConstraintProto \<Rightarrow> bool" where
  "element_is_legacy e \<longleftrightarrow> el_index e \<noteq> 0 \<or> el_target e \<noteq> 0 \<or> el_vars e \<noteq> []"

definition element_is_linear :: "ElementConstraintProto \<Rightarrow> bool" where
  "element_is_linear e \<longleftrightarrow> el_linear_index e \<noteq> None \<or> el_linear_target e \<noteq> None \<or> el_exprs e \<noteq> []"

definition linear_argument_vars :: "LinearArgumentProto \<Rightarrow> int32 list" where
  "linear_argument_vars a = opt_vars (la_target a) @ exprs_vars (la_exprs a)"

fun GetReferencesUsedByCase :: "ConstraintCase \<Rightarrow> IndexReferences" where
  "GetReferencesUsedByCase (kBoolOr a) = \<lparr> ir_variables = [], ir_literals = ba_literals a \<rparr>"
| "GetReferencesUsedByCase (kBoolAnd a) = \<lparr> ir_variables = [], ir_literals = ba_literals a \<rparr>"
| "GetReferencesUsedByCase (kAtMostOne a) = \<lparr> ir_variables = [], ir_literals = ba_literals a \<rparr>"
| "GetReferencesUsedByCase (kExactlyOne a) = \<lparr> ir_variables = [], ir_literals = ba_literals a \<rparr>"
| "GetReferencesUsedByCase (kBoolXor a) = \<lparr> ir_variables = [], ir_literals = ba_literals a \<rparr>"
| "GetReferencesUsedByCase (kIntDiv a) = \<lparr> ir_variables = linear_argument_vars a, ir_literals = [] \<rparr>"
| "GetReferencesUsedByCase (kIntMod a) = \<lparr> ir_variables = linear_argument_vars a, ir_literals = [] \<rparr>"
| "GetReferencesUsedByCase (kLinMax a) = \<lparr> ir_variables = linear_argument_vars a, ir_literals = [] \<rparr>"
| "GetReferencesUsedByCase (kIntProd a) = \<lparr> ir_variables = linear_argument_vars a, ir_literals = [] \<rparr>"
| "GetReferencesUsedByCase (kLinear a) = \<lparr> ir_variables = lc_vars a, ir_literals = [] \<rparr>"
| "GetReferencesUsedByCase (kAllDiff a) = \<lparr> ir_variables = exprs_vars (ad_exprs a), ir_literals = [] \<rparr>"
| "GetReferencesUsedByCase (kDummyConstraint a) = \<lparr> ir_variables = lv_vars a, ir_literals = [] \<rparr>"
| "GetReferencesUsedByCase (kElement e) =
     \<lparr> ir_variables =
         (if element_is_legacy e then el_index e # el_target e # el_vars e
          else if element_is_linear e
          then opt_vars (el_linear_index e) @ opt_vars (el_linear_target e) @ exprs_vars (el_exprs e)
          else []),
       ir_literals = [] \<rparr>"
| "GetReferencesUsedByCase (kCircuit a) = \<lparr> ir_variables = [], ir_literals = ci_literals a \<rparr>"
| "GetReferencesUsedByCase (kRoutes a) = \<lparr> ir_variables = [], ir_literals = ro_literals a \<rparr>"
| "GetReferencesUsedByCase (kInverse a) =
     \<lparr> ir_variables =
         (if inv_f_direct a \<noteq> [] then inv_f_direct a @ inv_f_inverse a
          else exprs_vars (inv_f_expr_direct a) @ exprs_vars (inv_f_expr_inverse a)),
       ir_literals = [] \<rparr>"
| "GetReferencesUsedByCase (kReservoir a) =
     \<lparr> ir_variables = exprs_vars (re_time_exprs a) @ exprs_vars (re_level_changes a),
       ir_literals = re_active_literals a \<rparr>"
| "GetReferencesUsedByCase (kTable a) =
     \<lparr> ir_variables = (if ta_vars a \<noteq> [] then ta_vars a else exprs_vars (ta_exprs a)), ir_literals = [] \<rparr>"
| "GetReferencesUsedByCase (kAutomaton a) =
     \<lparr> ir_variables = (if au_vars a \<noteq> [] then au_vars a else exprs_vars (au_exprs a)), ir_literals = [] \<rparr>"
| "GetReferencesUsedByCase (kInterval a) =
     \<lparr> ir_variables = opt_vars (in_start a) @ opt_vars (in_size a) @ opt_vars (in_end a), ir_literals = [] \<rparr>"
| "GetReferencesUsedByCase (kNoOverlap a) = \<lparr> ir_variables = [], ir_literals = [] \<rparr>"
| "GetReferencesUsedByCase (kNoOverlap2D a) = \<lparr> ir_variables = [], ir_literals = [] \<rparr>"
| "GetReferencesUsedByCase (kCumulative a) =
     \<lparr> ir_variables = opt_vars (cu_capacity a) @ exprs_vars (cu_demands a), ir_literals = [] \<rparr>"
| "GetReferencesUsedByCase CONSTRAINT_NOT_SET = \<lparr> ir_variables = [], ir_literals = [] \<rparr>"

definition GetReferencesUsedByConstraint :: "ConstraintProto \<Rightarrow> IndexReferences" where
  "GetReferencesUsedByConstraint ct = GetReferencesUsedByCase (ct_constraint ct)"

text \<open>Both lists go to one vector; the result is sorted without duplicates.\<close>

definition UsedVariables :: "ConstraintProto \<Rightarrow> int32 list" where
  "UsedVariables ct =
     (let r = GetReferencesUsedByConstraint ct
      in remdups (sort (map PositiveRef (ir_variables r @ ir_literals r @ ct_enforcement_literal ct))))"

fun UsedIntervalsOfCase :: "ConstraintCase \<Rightarrow> int32 list" where
  "UsedIntervalsOfCase (kNoOverlap a) = no_intervals a"
| "UsedIntervalsOfCase (kNoOverlap2D a) = n2_x_intervals a @ n2_y_intervals a"
| "UsedIntervalsOfCase (kCumulative a) = cu_intervals a"
| "UsedIntervalsOfCase _ = []"

definition UsedIntervals :: "ConstraintProto \<Rightarrow> int32 list" where
  "UsedIntervals ct = remdups (sort (UsedIntervalsOfCase (ct_constraint ct)))"

section \<open>A function applied to all references\<close>

definition map_expr :: "(int32 \<Rightarrow> int32) \<Rightarrow> LinearExpressionProto \<Rightarrow> LinearExpressionProto" where
  "map_expr f e = e\<lparr> le_vars := map f (le_vars e) \<rparr>"

text \<open>\<open>mutable_target()\<close> and the like create the sub-message when it is absent.\<close>

definition map_opt_expr :: "(int32 \<Rightarrow> int32) \<Rightarrow> LinearExpressionProto option \<Rightarrow> LinearExpressionProto option" where
  "map_opt_expr f e = Some (map_expr f (expr_or_default e))"

definition map_linear_argument :: "(int32 \<Rightarrow> int32) \<Rightarrow> LinearArgumentProto \<Rightarrow> LinearArgumentProto" where
  "map_linear_argument f a =
     a\<lparr> la_target := map_opt_expr f (la_target a), la_exprs := map (map_expr f) (la_exprs a) \<rparr>"

fun ApplyToAllLiteralsOfCase :: "(int32 \<Rightarrow> int32) \<Rightarrow> ConstraintCase \<Rightarrow> ConstraintCase" where
  "ApplyToAllLiteralsOfCase f (kBoolOr a) = kBoolOr (a\<lparr> ba_literals := map f (ba_literals a) \<rparr>)"
| "ApplyToAllLiteralsOfCase f (kBoolAnd a) = kBoolAnd (a\<lparr> ba_literals := map f (ba_literals a) \<rparr>)"
| "ApplyToAllLiteralsOfCase f (kAtMostOne a) = kAtMostOne (a\<lparr> ba_literals := map f (ba_literals a) \<rparr>)"
| "ApplyToAllLiteralsOfCase f (kExactlyOne a) = kExactlyOne (a\<lparr> ba_literals := map f (ba_literals a) \<rparr>)"
| "ApplyToAllLiteralsOfCase f (kBoolXor a) = kBoolXor (a\<lparr> ba_literals := map f (ba_literals a) \<rparr>)"
| "ApplyToAllLiteralsOfCase f (kCircuit a) = kCircuit (a\<lparr> ci_literals := map f (ci_literals a) \<rparr>)"
| "ApplyToAllLiteralsOfCase f (kRoutes a) = kRoutes (a\<lparr> ro_literals := map f (ro_literals a) \<rparr>)"
| "ApplyToAllLiteralsOfCase f (kReservoir a) =
     kReservoir (a\<lparr> re_active_literals := map f (re_active_literals a) \<rparr>)"
| "ApplyToAllLiteralsOfCase f c = c"

definition ApplyToAllLiteralIndices :: "(int32 \<Rightarrow> int32) \<Rightarrow> ConstraintProto \<Rightarrow> ConstraintProto" where
  "ApplyToAllLiteralIndices f ct =
     ct\<lparr> ct_enforcement_literal := map f (ct_enforcement_literal ct),
         ct_constraint := ApplyToAllLiteralsOfCase f (ct_constraint ct) \<rparr>"

fun ApplyToAllVariablesOfCase :: "(int32 \<Rightarrow> int32) \<Rightarrow> ConstraintCase \<Rightarrow> ConstraintCase" where
  "ApplyToAllVariablesOfCase f (kIntDiv a) = kIntDiv (map_linear_argument f a)"
| "ApplyToAllVariablesOfCase f (kIntMod a) = kIntMod (map_linear_argument f a)"
| "ApplyToAllVariablesOfCase f (kLinMax a) = kLinMax (map_linear_argument f a)"
| "ApplyToAllVariablesOfCase f (kIntProd a) = kIntProd (map_linear_argument f a)"
| "ApplyToAllVariablesOfCase f (kLinear a) = kLinear (a\<lparr> lc_vars := map f (lc_vars a) \<rparr>)"
| "ApplyToAllVariablesOfCase f (kAllDiff a) = kAllDiff (a\<lparr> ad_exprs := map (map_expr f) (ad_exprs a) \<rparr>)"
| "ApplyToAllVariablesOfCase f (kDummyConstraint a) = kDummyConstraint (a\<lparr> lv_vars := map f (lv_vars a) \<rparr>)"
| "ApplyToAllVariablesOfCase f (kElement e) =
     kElement
       (if element_is_legacy e
        then e\<lparr> el_index := f (el_index e), el_target := f (el_target e), el_vars := map f (el_vars e) \<rparr>
        else if element_is_linear e
        then e\<lparr> el_linear_index := map_opt_expr f (el_linear_index e),
                el_linear_target := map_opt_expr f (el_linear_target e),
                el_exprs := map (map_expr f) (el_exprs e) \<rparr>
        else e)"
| "ApplyToAllVariablesOfCase f (kInverse a) =
     kInverse
       (if inv_f_direct a \<noteq> []
        then a\<lparr> inv_f_direct := map f (inv_f_direct a), inv_f_inverse := map f (inv_f_inverse a) \<rparr>
        else a\<lparr> inv_f_expr_direct := map (map_expr f) (inv_f_expr_direct a),
                inv_f_expr_inverse := map (map_expr f) (inv_f_expr_inverse a) \<rparr>)"
| "ApplyToAllVariablesOfCase f (kReservoir a) =
     kReservoir (a\<lparr> re_time_exprs := map (map_expr f) (re_time_exprs a),
                    re_level_changes := map (map_expr f) (re_level_changes a) \<rparr>)"
| "ApplyToAllVariablesOfCase f (kTable a) =
     kTable (if ta_vars a \<noteq> [] then a\<lparr> ta_vars := map f (ta_vars a) \<rparr>
             else a\<lparr> ta_exprs := map (map_expr f) (ta_exprs a) \<rparr>)"
| "ApplyToAllVariablesOfCase f (kAutomaton a) =
     kAutomaton (if au_vars a \<noteq> [] then a\<lparr> au_vars := map f (au_vars a) \<rparr>
                 else a\<lparr> au_exprs := map (map_expr f) (au_exprs a) \<rparr>)"
| "ApplyToAllVariablesOfCase f (kInterval a) =
     kInterval (a\<lparr> in_start := map_opt_expr f (in_start a), in_size := map_opt_expr f (in_size a),
                   in_end := map_opt_expr f (in_end a) \<rparr>)"
| "ApplyToAllVariablesOfCase f (kCumulative a) =
     kCumulative (a\<lparr> cu_capacity := map_opt_expr f (cu_capacity a),
                     cu_demands := map (map_expr f) (cu_demands a) \<rparr>)"
| "ApplyToAllVariablesOfCase f c = c"

definition ApplyToAllVariableIndices :: "(int32 \<Rightarrow> int32) \<Rightarrow> ConstraintProto \<Rightarrow> ConstraintProto" where
  "ApplyToAllVariableIndices f ct = ct\<lparr> ct_constraint := ApplyToAllVariablesOfCase f (ct_constraint ct) \<rparr>"

fun ApplyToAllIntervalsOfCase :: "(int32 \<Rightarrow> int32) \<Rightarrow> ConstraintCase \<Rightarrow> ConstraintCase" where
  "ApplyToAllIntervalsOfCase f (kNoOverlap a) = kNoOverlap (a\<lparr> no_intervals := map f (no_intervals a) \<rparr>)"
| "ApplyToAllIntervalsOfCase f (kNoOverlap2D a) =
     kNoOverlap2D (a\<lparr> n2_x_intervals := map f (n2_x_intervals a), n2_y_intervals := map f (n2_y_intervals a) \<rparr>)"
| "ApplyToAllIntervalsOfCase f (kCumulative a) = kCumulative (a\<lparr> cu_intervals := map f (cu_intervals a) \<rparr>)"
| "ApplyToAllIntervalsOfCase f c = c"

definition ApplyToAllIntervalIndices :: "(int32 \<Rightarrow> int32) \<Rightarrow> ConstraintProto \<Rightarrow> ConstraintProto" where
  "ApplyToAllIntervalIndices f ct = ct\<lparr> ct_constraint := ApplyToAllIntervalsOfCase f (ct_constraint ct) \<rparr>"

fun ConstraintCaseName :: "ConstraintCase \<Rightarrow> string" where
  "ConstraintCaseName (kBoolOr _) = ''kBoolOr''"
| "ConstraintCaseName (kBoolAnd _) = ''kBoolAnd''"
| "ConstraintCaseName (kAtMostOne _) = ''kAtMostOne''"
| "ConstraintCaseName (kExactlyOne _) = ''kExactlyOne''"
| "ConstraintCaseName (kBoolXor _) = ''kBoolXor''"
| "ConstraintCaseName (kIntDiv _) = ''kIntDiv''"
| "ConstraintCaseName (kIntMod _) = ''kIntMod''"
| "ConstraintCaseName (kLinMax _) = ''kLinMax''"
| "ConstraintCaseName (kIntProd _) = ''kIntProd''"
| "ConstraintCaseName (kLinear _) = ''kLinear''"
| "ConstraintCaseName (kAllDiff _) = ''kAllDiff''"
| "ConstraintCaseName (kDummyConstraint _) = ''kDummyConstraint''"
| "ConstraintCaseName (kElement _) = ''kElement''"
| "ConstraintCaseName (kCircuit _) = ''kCircuit''"
| "ConstraintCaseName (kRoutes _) = ''kRoutes''"
| "ConstraintCaseName (kInverse _) = ''kInverse''"
| "ConstraintCaseName (kReservoir _) = ''kReservoir''"
| "ConstraintCaseName (kTable _) = ''kTable''"
| "ConstraintCaseName (kAutomaton _) = ''kAutomaton''"
| "ConstraintCaseName (kInterval _) = ''kInterval''"
| "ConstraintCaseName (kNoOverlap _) = ''kNoOverlap''"
| "ConstraintCaseName (kNoOverlap2D _) = ''kNoOverlap2D''"
| "ConstraintCaseName (kCumulative _) = ''kCumulative''"
| "ConstraintCaseName CONSTRAINT_NOT_SET = ''kEmpty''"

section \<open>Domain fields\<close>

text \<open>The field is a flat list of interval bounds.\<close>

fun DomainInProtoContains :: "int64 list \<Rightarrow> int64 \<Rightarrow> bool" where
  "DomainInProtoContains (a # b # r) v \<longleftrightarrow> (v \<ge> a \<and> v \<le> b) \<or> DomainInProtoContains r v"
| "DomainInProtoContains _ v \<longleftrightarrow> False"

definition FillDomainInProto :: "domain \<Rightarrow> int64 list" where
  "FillDomainInProto d = concat (map (\<lambda>i. [ci_start i, ci_end i]) d)"

definition ReadDomainFromProto :: "int64 list \<Rightarrow> domain" where
  "ReadDomainFromProto flat = Domain_FromFlatSpanOfIntervals flat"

text \<open>The CHECK on the number of values makes it fail (\<open>None\<close>).\<close>

fun AllValuesInDomain :: "int64 list \<Rightarrow> int64 list option" where
  "AllValuesInDomain flat =
     (let vs = concat (map (\<lambda>i. [ci_start i..ci_end i]) (pairs_of_flat flat))
      in if int (length vs) > 1000001 then None else Some vs)"

section \<open>Objective values\<close>

definition ScaleObjectiveValue :: "CpObjectiveProto \<Rightarrow> int64 \<Rightarrow> double" where
  "ScaleObjectiveValue proto v =
     (let r0 = (if v = kint64max then Inf False else if v = kint64min then Inf True else d_of_int v);
          r1 = d_add r0 (ob_offset proto)
      in if d_eq (ob_scaling_factor proto) (Fin 0) then r1 else d_mul (ob_scaling_factor proto) r1)"

definition UnscaleObjectiveValue :: "CpObjectiveProto \<Rightarrow> double \<Rightarrow> double" where
  "UnscaleObjectiveValue proto v =
     (let r = (if \<not> d_eq (ob_scaling_factor proto) (Fin 0) then d_div v (ob_scaling_factor proto) else v)
      in d_sub r (ob_offset proto))"

definition PostsolveInnerObjectiveValue :: "CpObjectiveProto \<Rightarrow> int64 \<Rightarrow> int64" where
  "PostsolveInnerObjectiveValue proto v =
     (if ob_integer_scaling_factor proto = 0 then wrap64 (v + ob_integer_before_offset proto)
      else wrap64 (wrap64 (wrap64 (v + ob_integer_before_offset proto) * ob_integer_scaling_factor proto)
                   + ob_integer_after_offset proto))"

definition PresolveInnerObjectiveValue :: "CpObjectiveProto \<Rightarrow> int64 \<Rightarrow> int64" where
  "PresolveInnerObjectiveValue proto v =
     (if ob_integer_scaling_factor proto = 0 then wrap64 (v - ob_integer_before_offset proto)
      else wrap64 (wrap64 (wrap64 (v - ob_integer_after_offset proto) sdiv ob_integer_scaling_factor proto)
                   - ob_integer_before_offset proto))"

text \<open>The loop over the terms of the objective, with the partial sum.\<close>

fun inner_objective_loop :: "int64 list \<Rightarrow> int64 \<Rightarrow> (int32 \<times> int64) list \<Rightarrow> int64" where
  "inner_objective_loop solution acc [] = acc"
| "inner_objective_loop solution acc ((ref, coeff) # r) =
     (let c = (if RefIsPositive ref then coeff else wrap64 (- coeff))
      in inner_objective_loop solution (wrap64 (acc + wrap64 (c * elt solution (PositiveRef ref)))) r)"

definition ComputeInnerObjective :: "CpObjectiveProto \<Rightarrow> int64 list \<Rightarrow> int64" where
  "ComputeInnerObjective obj solution = inner_objective_loop solution 0 (zip (ob_vars obj) (ob_coeffs obj))"

section \<open>Linear expressions\<close>

text \<open>\<open>std::gcd\<close> of non-negative operands.\<close>

definition LinearExpressionGcd :: "LinearExpressionProto \<Rightarrow> int64 \<Rightarrow> int64" where
  "LinearExpressionGcd expr g =
     foldl (\<lambda>g c. gcd g (std_abs c)) (gcd g (std_abs (le_offset expr))) (le_coeffs expr)"

definition DivideLinearExpression :: "int64 \<Rightarrow> LinearExpressionProto \<Rightarrow> LinearExpressionProto" where
  "DivideLinearExpression divisor expr =
     (if divisor = 1 then expr
      else expr\<lparr> le_offset := wrap64 (le_offset expr sdiv divisor),
                 le_coeffs := map (\<lambda>c. wrap64 (c sdiv divisor)) (le_coeffs expr) \<rparr>)"

definition SetToNegatedLinearExpression :: "LinearExpressionProto \<Rightarrow> LinearExpressionProto" where
  "SetToNegatedLinearExpression e =
     \<lparr> le_vars = map NegatedRef (le_vars e), le_coeffs = take (length (le_vars e)) (le_coeffs e),
       le_offset = wrap64 (- le_offset e) \<rparr>"

definition ExpressionContainsSingleRef :: "LinearExpressionProto \<Rightarrow> bool" where
  "ExpressionContainsSingleRef e \<longleftrightarrow>
     le_offset e = 0 \<and> length (le_vars e) = 1 \<and> std_abs (hd (le_coeffs e)) = 1"

definition ExpressionIsAffine :: "LinearExpressionProto \<Rightarrow> bool" where
  "ExpressionIsAffine e \<longleftrightarrow> length (le_vars e) \<le> 1"

definition GetSingleRefFromExpression :: "LinearExpressionProto \<Rightarrow> int32" where
  "GetSingleRefFromExpression e =
     (if hd (le_coeffs e) = 1 then hd (le_vars e) else NegatedRef (hd (le_vars e)))"

text \<open>The CHECK on the number of variables makes it fail (\<open>None\<close>).\<close>

definition AffineExpressionValueAt :: "LinearExpressionProto \<Rightarrow> int64 \<Rightarrow> int64 option" where
  "AffineExpressionValueAt e v =
     (if length (le_vars e) = 1 then Some (wrap64 (le_offset e + wrap64 (v * hd (le_coeffs e)))) else None)"

definition GetInnerVarValue :: "LinearExpressionProto \<Rightarrow> int64 \<Rightarrow> int64" where
  "GetInnerVarValue e v = wrap64 (wrap64 (v - le_offset e) sdiv hd (le_coeffs e))"

definition AffineExpressionContainsVar :: "LinearExpressionProto \<Rightarrow> int32 \<Rightarrow> bool" where
  "AffineExpressionContainsVar e var \<longleftrightarrow> length (le_vars e) = 1 \<and> hd (le_vars e) = var"

text \<open>The coefficients of a variable are summed in a hash map; a missing key reads as zero.\<close>

definition add_coeff :: "(int32 \<Rightarrow> int64) \<Rightarrow> int32 \<Rightarrow> int64 \<Rightarrow> (int32 \<Rightarrow> int64)" where
  "add_coeff m v c = m(v := wrap64 (m v + c))"

fun equal_coeffs_loop ::
    "int64 \<Rightarrow> (int32 \<Rightarrow> int64) \<Rightarrow> (int32 \<times> int64) list \<Rightarrow> (int32 \<times> int64) list \<Rightarrow> (int32 \<Rightarrow> int64)" where
  "equal_coeffs_loop s m ((va, ca) # a) ((vb, cb) # b) =
     equal_coeffs_loop s (add_coeff (add_coeff m va ca) vb (wrap64 (wrap64 (- cb) * s))) a b"
| "equal_coeffs_loop s m _ _ = m"

definition LinearExpressionProtosAreEqual ::
    "LinearExpressionProto \<Rightarrow> LinearExpressionProto \<Rightarrow> int64 \<Rightarrow> bool" where
  "LinearExpressionProtosAreEqual a b b_scaling \<longleftrightarrow>
     length (le_vars a) = length (le_vars b) \<and>
     le_offset a = wrap64 (le_offset b * b_scaling) \<and>
     (let m = equal_coeffs_loop b_scaling (\<lambda>_. 0) (zip (le_vars a) (le_coeffs a)) (zip (le_vars b) (le_coeffs b))
      in \<forall>v \<in> set (le_vars a @ le_vars b). m v = 0)"

text \<open>The accumulator is the unique variable met so far (\<open>- 1\<close> when there is none); the CHECK on
  positive references makes it fail.\<close>

fun only_one_var_loop :: "int32 \<Rightarrow> int32 list \<Rightarrow> bool option" where
  "only_one_var_loop u [] = Some (u \<noteq> - 1)"
| "only_one_var_loop u (v # r) =
     (if \<not> RefIsPositive v then None
      else if u = - 1 then only_one_var_loop v r
      else if v \<noteq> u then Some False else only_one_var_loop u r)"

definition ExpressionsContainsOnlyOneVar :: "LinearExpressionProto list \<Rightarrow> bool option" where
  "ExpressionsContainsOnlyOneVar es = only_one_var_loop (- 1) (exprs_vars es)"

definition IsAffineIntAbs :: "ConstraintProto \<Rightarrow> bool" where
  "IsAffineIntAbs ct =
     (case ct_constraint ct of
        kLinMax a \<Rightarrow>
          (case la_exprs a of
             [e0, e1] \<Rightarrow>
               length (opt_vars (la_target a)) \<le> 1 \<and> length (le_vars e0) = 1 \<and> length (le_vars e1) = 1 \<and>
               le_offset e0 = wrap64 (- le_offset e1) \<and>
               PositiveRef (hd (le_vars e0)) = PositiveRef (hd (le_vars e1)) \<and>
               (let left_coeff = (if RefIsPositive (hd (le_vars e0)) then hd (le_coeffs e0)
                                  else wrap64 (- hd (le_coeffs e0)));
                    right_coeff = (if RefIsPositive (hd (le_vars e1)) then hd (le_coeffs e1)
                                   else wrap64 (- hd (le_coeffs e1)))
                in left_coeff = wrap64 (- right_coeff))
           | _ \<Rightarrow> False)
      | _ \<Rightarrow> False)"

section \<open>Linear constraints\<close>

definition AddLinearExpressionToLinearConstraint ::
    "LinearExpressionProto \<Rightarrow> int64 \<Rightarrow> LinearConstraintProto \<Rightarrow> LinearConstraintProto" where
  "AddLinearExpressionToLinearConstraint expr coefficient lin =
     (let l = lin\<lparr> lc_vars := lc_vars lin @ le_vars expr,
                     lc_coeffs := lc_coeffs lin @
                       map (\<lambda>c. wrap64 (c * coefficient)) (take (length (le_vars expr)) (le_coeffs expr)) \<rparr>;
          shift = wrap64 (coefficient * le_offset expr)
      in if shift \<noteq> 0
         then l\<lparr> lc_domain := FillDomainInProto
                   (Domain_AdditionWith (ReadDomainFromProto (lc_domain l)) (Domain_value (wrap64 (- shift)))) \<rparr>
         else l)"

text \<open>Returns the constraint and the offset.\<close>

definition AddWeightedLiteralToLinearConstraint ::
    "int32 \<Rightarrow> int64 \<Rightarrow> LinearConstraintProto \<Rightarrow> int64 \<Rightarrow> LinearConstraintProto \<times> int64" where
  "AddWeightedLiteralToLinearConstraint lit coeff lin offset =
     (if coeff = 0 then (lin, offset)
      else if RefIsPositive lit
      then (lin\<lparr> lc_vars := lc_vars lin @ [lit], lc_coeffs := lc_coeffs lin @ [coeff] \<rparr>, offset)
      else (lin\<lparr> lc_vars := lc_vars lin @ [NegatedRef lit],
                   lc_coeffs := lc_coeffs lin @ [wrap64 (- coeff)] \<rparr>,
            wrap64 (offset + coeff)))"

fun literals_loop :: "int32 list \<Rightarrow> int64 \<Rightarrow> int64 \<Rightarrow> LinearConstraintProto \<Rightarrow> LinearConstraintProto" where
  "literals_loop [] lb ub l = l\<lparr> lc_domain := lc_domain l @ [lb, ub] \<rparr>"
| "literals_loop (lit # r) lb ub l =
     (if RefIsPositive lit
      then literals_loop r lb ub (l\<lparr> lc_vars := lc_vars l @ [lit], lc_coeffs := lc_coeffs l @ [1] \<rparr>)
      else literals_loop r (wrap64 (lb - 1)) (wrap64 (ub - 1))
             (l\<lparr> lc_vars := lc_vars l @ [NegatedRef lit], lc_coeffs := lc_coeffs l @ [- 1] \<rparr>))"

definition LiteralsToLinear :: "int32 list \<Rightarrow> int64 \<Rightarrow> int64 \<Rightarrow> LinearConstraintProto" where
  "LiteralsToLinear literals lb ub =
     literals_loop literals lb ub \<lparr> lc_vars = [], lc_coeffs = [], lc_domain = [] \<rparr>"

text \<open>\<open>None\<close> when a product saturates: the coefficients added so far are then left behind, but every
  caller drops the constraint.\<close>

fun safe_products :: "int64 \<Rightarrow> int64 list \<Rightarrow> int64 list option" where
  "safe_products k [] = Some []"
| "safe_products k (c # r) =
     (let prod = CapProd c k
      in if AtMinOrMaxInt64 prod then None else map_option ((#) prod) (safe_products k r))"

definition SafeAddLinearExpressionToLinearConstraint ::
    "LinearExpressionProto \<Rightarrow> int64 \<Rightarrow> LinearConstraintProto \<Rightarrow> LinearConstraintProto option" where
  "SafeAddLinearExpressionToLinearConstraint expr coefficient lin =
     (case safe_products coefficient (take (length (le_vars expr)) (le_coeffs expr)) of
        None \<Rightarrow> None
      | Some ps \<Rightarrow>
          (let shift = CapProd coefficient (le_offset expr)
           in if AtMinOrMaxInt64 shift then None
              else let d = Domain_AdditionWith (ReadDomainFromProto (lc_domain lin)) (Domain_value (- shift))
                   in if AtMinOrMaxInt64 (Domain_Min d) \<or> AtMinOrMaxInt64 (Domain_Max d) then None
                      else Some (lin\<lparr> lc_vars := lc_vars lin @ le_vars expr,
                                        lc_coeffs := lc_coeffs lin @ ps,
                                        lc_domain := FillDomainInProto d \<rparr>)))"

section \<open>The value of a linear expression\<close>

text \<open>The mathematical value under an assignment, with no machine arithmetic.\<close>

definition ref_value :: "int list \<Rightarrow> int32 \<Rightarrow> int" where
  "ref_value x ref = (if ref \<ge> 0 then elt x ref else - elt x (- ref - 1))"

definition terms_sum :: "int list \<Rightarrow> (int32 \<times> int64) list \<Rightarrow> int" where
  "terms_sum x ts = sum_list (map (\<lambda>(v, c). ref_value x v * c) ts)"

definition expr_value :: "int list \<Rightarrow> LinearExpressionProto \<Rightarrow> int" where
  "expr_value x e = le_offset e + terms_sum x (zip (le_vars e) (le_coeffs e))"

definition linear_activity :: "int list \<Rightarrow> LinearConstraintProto \<Rightarrow> int" where
  "linear_activity x l = terms_sum x (zip (lc_vars l) (lc_coeffs l))"

lemma terms_sum_simps [simp]:
  "terms_sum x [] = 0"
  "terms_sum x ((v, c) # ts) = ref_value x v * c + terms_sum x ts"
  "terms_sum x (ts @ us) = terms_sum x ts + terms_sum x us"
  by (simp_all add: terms_sum_def)

lemma ref_value_NegatedRef [simp]: "ref_value x (NegatedRef r) = - ref_value x r"
  by (auto simp: ref_value_def NegatedRef_def)

lemma NegatedRef_NegatedRef [simp]: "NegatedRef (NegatedRef r) = r"
  by (simp add: NegatedRef_def)

lemma PositiveRef_cases: "PositiveRef r = (if RefIsPositive r then r else NegatedRef r)"
  by (auto simp: PositiveRef_def NegatedRef_def RefIsPositive_def)

text \<open>A literal is the negation \<open>1 - x\<close> of its variable when the reference is negative.\<close>

definition literal_value :: "int list \<Rightarrow> int32 \<Rightarrow> int" where
  "literal_value x lit = (if RefIsPositive lit then elt x lit else 1 - elt x (NegatedRef lit))"

section \<open>The two traversals agree\<close>

lemma le_vars_map_expr [simp]: "le_vars (map_expr f e) = map f (le_vars e)"
  by (simp add: map_expr_def)

lemma exprs_vars_map_expr [simp]: "exprs_vars (map (map_expr f) es) = map f (exprs_vars es)"
  by (induction es) (simp_all add: exprs_vars_def)

lemma opt_vars_map_opt_expr [simp]: "opt_vars (map_opt_expr f e) = map f (opt_vars e)"
  by (simp add: map_opt_expr_def expr_or_default_def)

lemma linear_argument_vars_map [simp]:
  "linear_argument_vars (map_linear_argument f a) = map f (linear_argument_vars a)"
  by (simp add: linear_argument_vars_def map_linear_argument_def)

text \<open>The format of an element constraint does not depend on the values of its references: true of
  every element constraint that passes validation.\<close>

definition element_format_fixed :: "ConstraintCase \<Rightarrow> bool" where
  "element_format_fixed c \<longleftrightarrow>
     (case c of kElement e \<Rightarrow> el_vars e \<noteq> [] \<or> (el_index e = 0 \<and> el_target e = 0) | _ \<Rightarrow> True)"

lemma references_apply_element:
  assumes "element_format_fixed (kElement e)"
  shows "GetReferencesUsedByCase (ApplyToAllVariablesOfCase f (kElement e)) =
    \<lparr> ir_variables = map f (ir_variables (GetReferencesUsedByCase (kElement e))), ir_literals = [] \<rparr>"
proof -
  consider "el_vars e \<noteq> []" | "\<not> element_is_legacy e" "element_is_linear e"
    | "\<not> element_is_legacy e" "\<not> element_is_linear e"
    using assms by (auto simp: element_format_fixed_def element_is_legacy_def)
  then show ?thesis
  proof cases
    case 1
    then show ?thesis by (simp add: element_is_legacy_def)
  next
    case 2
    then have "\<not> element_is_legacy (e\<lparr> el_linear_index := map_opt_expr f (el_linear_index e),
        el_linear_target := map_opt_expr f (el_linear_target e), el_exprs := map (map_expr f) (el_exprs e) \<rparr>)"
      "element_is_linear (e\<lparr> el_linear_index := map_opt_expr f (el_linear_index e),
        el_linear_target := map_opt_expr f (el_linear_target e), el_exprs := map (map_expr f) (el_exprs e) \<rparr>)"
      by (simp_all add: element_is_legacy_def element_is_linear_def map_opt_expr_def)
    then show ?thesis using 2 by simp
  next
    case 3
    then show ?thesis by simp
  qed
qed

lemma references_apply_variables:
  assumes "element_format_fixed c"
  shows "GetReferencesUsedByCase (ApplyToAllVariablesOfCase f c) =
    \<lparr> ir_variables = map f (ir_variables (GetReferencesUsedByCase c)),
      ir_literals = ir_literals (GetReferencesUsedByCase c) \<rparr>"
proof (cases c)
  case (kElement e)
  then show ?thesis using references_apply_element[of e f] assms by simp
qed simp_all

lemma references_apply_literals:
  "GetReferencesUsedByCase (ApplyToAllLiteralsOfCase f c) =
    \<lparr> ir_variables = ir_variables (GetReferencesUsedByCase c),
      ir_literals = map f (ir_literals (GetReferencesUsedByCase c)) \<rparr>"
  by (cases c) simp_all

lemma references_apply_intervals:
  "UsedIntervalsOfCase (ApplyToAllIntervalsOfCase f c) = map f (UsedIntervalsOfCase c)"
  by (cases c) simp_all

lemma ConstraintCaseName_apply:
  "ConstraintCaseName (ApplyToAllVariablesOfCase f c) = ConstraintCaseName c"
  "ConstraintCaseName (ApplyToAllLiteralsOfCase f c) = ConstraintCaseName c"
  "ConstraintCaseName (ApplyToAllIntervalsOfCase f c) = ConstraintCaseName c"
  by (cases c; simp)+

lemma set_UsedVariables:
  "set (UsedVariables ct) = PositiveRef ` (set (ir_variables (GetReferencesUsedByConstraint ct)) \<union>
     set (ir_literals (GetReferencesUsedByConstraint ct)) \<union> set (ct_enforcement_literal ct))"
  by (auto simp: UsedVariables_def Let_def)

lemma sorted_UsedVariables: "sorted (UsedVariables ct) \<and> distinct (UsedVariables ct)"
  by (simp add: UsedVariables_def Let_def sorted_remdups)

section \<open>Domain fields\<close>

lemma DomainInProtoContains_dvals: "DomainInProtoContains flat v \<longleftrightarrow> v \<in> dvals (pairs_of_flat flat)"
  by (induction flat rule: pairs_of_flat.induct) auto

lemma FillDomainInProto_eq: "FillDomainInProto d = Domain_FlattenedIntervals d"
  by (simp add: FillDomainInProto_def Domain_FlattenedIntervals_def)

lemma bounds_of_pairs:
  "\<forall>v \<in> set flat. in_int64 v \<Longrightarrow> bounds_in_range (pairs_of_flat flat)"
  by (induction flat rule: pairs_of_flat.induct) (auto simp: bounds_in_range_def)

lemma ReadDomainFromProto_spec:
  assumes "\<forall>v \<in> set flat. in_int64 v"
  shows "dvals (ReadDomainFromProto flat) = {v. DomainInProtoContains flat v}"
    "canon (ReadDomainFromProto flat)"
  using sort_remove_union_spec[OF bounds_of_pairs[OF assms]]
  by (simp_all add: ReadDomainFromProto_def Domain_FromFlatSpanOfIntervals_def DomainInProtoContains_dvals)

lemma Fill_Read_roundtrip: "canon d \<Longrightarrow> ReadDomainFromProto (FillDomainInProto d) = d"
  by (simp add: ReadDomainFromProto_def FillDomainInProto_eq FromFlatSpan_FlattenedIntervals)

lemma DomainInProtoContains_Fill: "DomainInProtoContains (FillDomainInProto d) v \<longleftrightarrow> v \<in> dvals d"
  by (simp add: DomainInProtoContains_dvals FillDomainInProto_eq pairs_of_flat_FlattenedIntervals)

section \<open>Rewriting keeps the value\<close>

lemma terms_sum_map_coeff: "terms_sum x (zip vs (map (\<lambda>c. c * k) cs)) = k * terms_sum x (zip vs cs)"
proof (induction vs arbitrary: cs)
  case (Cons v vs)
  then show ?case by (cases cs) (simp_all add: algebra_simps)
qed simp

lemma terms_sum_map_ref:
  assumes "\<And>v. ref_value x (f v) = s * ref_value x v"
  shows "terms_sum x (zip (map f vs) cs) = s * terms_sum x (zip vs cs)"
proof (induction vs arbitrary: cs)
  case (Cons v vs)
  then show ?case by (cases cs) (simp_all add: assms algebra_simps)
qed simp

lemma SetToNegatedLinearExpression_value:
  assumes "length (le_coeffs e) = length (le_vars e)" "in_int64 (le_offset e)" "le_offset e \<noteq> kint64min"
  shows "expr_value x (SetToNegatedLinearExpression e) = - expr_value x e"
proof -
  have "in_int64 (- le_offset e)" using assms(2,3) by (auto simp: in_int64_def)
  then show ?thesis
    using terms_sum_map_ref[of x NegatedRef "- 1"] assms(1)
    by (simp add: expr_value_def SetToNegatedLinearExpression_def)
qed

lemma map_wrap64_id: "\<forall>c \<in> set cs. in_int64 (f c) \<Longrightarrow> map (\<lambda>c. wrap64 (f c)) cs = map f cs"
  by simp

text \<open>Adding \<open>k\<close> times an expression to a constraint: the new constraint asks that the old activity
  plus \<open>k\<close> times the value of the expression lie in the old domain.\<close>

lemma shift_domain_contains:
  assumes "\<forall>v \<in> set flat. in_int64 v" "in_int64 (- s)" "in_int64 y"
  shows "DomainInProtoContains (FillDomainInProto
      (Domain_AdditionWith (ReadDomainFromProto flat) (Domain_value (- s)))) y
    \<longleftrightarrow> DomainInProtoContains flat (y + s)"
proof -
  note r = ReadDomainFromProto_spec[OF assms(1)]
  have "y \<in> dvals (Domain_AdditionWith (ReadDomainFromProto flat) (Domain_value (- s))) \<longleftrightarrow>
    (\<exists>v. DomainInProtoContains flat v \<and> y = v - s)"
    using Domain_AdditionWith_spec(1)[OF r(2), of "Domain_value (- s)"] assms(2,3) by (simp add: r(1))
  also have "\<dots> \<longleftrightarrow> DomainInProtoContains flat (y + s)" by (auto intro: exI[of _ "y + s"])
  finally show ?thesis by (simp add: DomainInProtoContains_Fill)
qed

lemma AddLinearExpressionToLinearConstraint_feasible:
  assumes "length (lc_coeffs l) = length (lc_vars l)" "length (le_coeffs e) = length (le_vars e)"
    "\<forall>c \<in> set (le_coeffs e). in_int64 (c * k)" "in_int64 (k * le_offset e)" "in_int64 (- (k * le_offset e))"
    "\<forall>v \<in> set (lc_domain l). in_int64 v"
  defines "l' \<equiv> AddLinearExpressionToLinearConstraint e k l"
  assumes "in_int64 (linear_activity x l')"
  shows "linear_activity x l' + k * le_offset e = linear_activity x l + k * expr_value x e"
    "DomainInProtoContains (lc_domain l') (linear_activity x l') \<longleftrightarrow>
      DomainInProtoContains (lc_domain l) (linear_activity x l + k * expr_value x e)"
proof -
  have m: "map (\<lambda>c. wrap64 (c * k)) (le_coeffs e) = map (\<lambda>c. c * k) (le_coeffs e)"
    using assms(3) by (rule map_wrap64_id)
  have v: "lc_vars l' = lc_vars l @ le_vars e" "lc_coeffs l' = lc_coeffs l @ map (\<lambda>c. c * k) (le_coeffs e)"
    using assms(2) m by (simp_all add: l'_def AddLinearExpressionToLinearConstraint_def Let_def)
  have d: "lc_domain l' = (if k * le_offset e \<noteq> 0 then FillDomainInProto
      (Domain_AdditionWith (ReadDomainFromProto (lc_domain l)) (Domain_value (- (k * le_offset e))))
      else lc_domain l)"
    using assms(4,5) by (simp add: l'_def AddLinearExpressionToLinearConstraint_def Let_def)
  show s: "linear_activity x l' + k * le_offset e = linear_activity x l + k * expr_value x e"
    using assms(1) by (simp add: linear_activity_def v terms_sum_map_coeff expr_value_def algebra_simps)
  show "DomainInProtoContains (lc_domain l') (linear_activity x l') \<longleftrightarrow>
      DomainInProtoContains (lc_domain l) (linear_activity x l + k * expr_value x e)"
    using shift_domain_contains[OF assms(6,5,8)] s by (auto simp: d)
qed

text \<open>The bounds move by one for each negated literal.\<close>

lemma literals_loop_spec:
  assumes "in_int64 (lb - int (length lits))" "in_int64 (ub - int (length lits))" "in_int64 lb" "in_int64 ub"
    "length (lc_coeffs l) = length (lc_vars l)"
  defines "l' \<equiv> literals_loop lits lb ub l" and "n \<equiv> int (length (filter (\<lambda>r. \<not> RefIsPositive r) lits))"
  shows "lc_domain l' = lc_domain l @ [lb - n, ub - n] \<and>
    linear_activity x l' + n = linear_activity x l + sum_list (map (literal_value x) lits)"
  using assms(1-5) unfolding l'_def n_def
proof (induction lits arbitrary: lb ub l)
  case (Cons lit r)
  have w: "in_int64 (lb - 1)" "in_int64 (ub - 1)" "in_int64 (lb - int (length r))" "in_int64 (ub - int (length r))"
    "in_int64 (lb - 1 - int (length r))" "in_int64 (ub - 1 - int (length r))"
    using Cons.prems(1-4) by (auto simp: in_int64_def)
  show ?case
  proof (cases "RefIsPositive lit")
    case True
    have "linear_activity x (l\<lparr>lc_vars := lc_vars l @ [lit], lc_coeffs := lc_coeffs l @ [1]\<rparr>) =
        linear_activity x l + literal_value x lit"
      using True Cons.prems(5)
      by (simp add: linear_activity_def literal_value_def ref_value_def RefIsPositive_def)
    then show ?thesis
      using Cons.IH[of lb ub "l\<lparr>lc_vars := lc_vars l @ [lit], lc_coeffs := lc_coeffs l @ [1]\<rparr>"]
        True Cons.prems w by simp
  next
    case False
    have "linear_activity x (l\<lparr>lc_vars := lc_vars l @ [NegatedRef lit], lc_coeffs := lc_coeffs l @ [- 1]\<rparr>) + 1 =
        linear_activity x l + literal_value x lit"
      using False Cons.prems(5)
      by (simp add: linear_activity_def literal_value_def ref_value_def RefIsPositive_def NegatedRef_def)
    then show ?thesis
      using Cons.IH[of "lb - 1" "ub - 1" "l\<lparr>lc_vars := lc_vars l @ [NegatedRef lit], lc_coeffs := lc_coeffs l @ [- 1]\<rparr>"]
        False Cons.prems w by (simp add: diff_diff_eq add.commute)
  qed
qed (simp add: linear_activity_def)

lemma LiteralsToLinear_feasible:
  assumes "in_int64 (lb - int (length lits))" "in_int64 (ub - int (length lits))" "in_int64 lb" "in_int64 ub"
  shows "DomainInProtoContains (lc_domain (LiteralsToLinear lits lb ub))
      (linear_activity x (LiteralsToLinear lits lb ub)) \<longleftrightarrow>
    lb \<le> sum_list (map (literal_value x) lits) \<and> sum_list (map (literal_value x) lits) \<le> ub"
  using literals_loop_spec[OF assms, of "\<lparr> lc_vars = [], lc_coeffs = [], lc_domain = [] \<rparr>" x]
  by (auto simp: LiteralsToLinear_def linear_activity_def)

lemma AddWeightedLiteral_value:
  assumes "length (lc_coeffs l) = length (lc_vars l)" "in_int64 (- c)" "in_int64 (off + c)"
  shows "linear_activity x (fst (AddWeightedLiteralToLinearConstraint lit c l off)) +
      snd (AddWeightedLiteralToLinearConstraint lit c l off) =
    linear_activity x l + off + c * literal_value x lit"
  using assms
  by (auto simp: AddWeightedLiteralToLinearConstraint_def linear_activity_def literal_value_def
      ref_value_def RefIsPositive_def NegatedRef_def algebra_simps)

section \<open>Comparing expressions up to a scaling\<close>

lemma wrap64_cong_iff: "wrap64 a = wrap64 b \<longleftrightarrow> 2 ^ 64 dvd (a - b)"
proof -
  have "wrap64 a = wrap64 b \<longleftrightarrow> (a + 2 ^ 63) mod 2 ^ 64 = (b + 2 ^ 63) mod 2 ^ 64"
    unfolding wrap64_def by linarith
  also have "\<dots> \<longleftrightarrow> 2 ^ 64 dvd (a + 2 ^ 63 - (b + 2 ^ 63))" by (simp only: mod_eq_dvd_iff)
  finally show ?thesis by simp
qed

lemma wrap64_dvd: "2 ^ 64 dvd (wrap64 a - a)"
  using wrap64_cong_iff[of "wrap64 a" a] by (simp add: int64_intros)

lemma sum_add_coeff_dvd:
  assumes "finite K" "v \<in> K"
  shows "2 ^ 64 dvd ((\<Sum>k \<in> K. ref_value x k * add_coeff m v c k) - (\<Sum>k \<in> K. ref_value x k * m k) - ref_value x v * c)"
proof -
  have "(\<Sum>k \<in> K. ref_value x k * add_coeff m v c k) =
      ref_value x v * wrap64 (m v + c) + (\<Sum>k \<in> K - {v}. ref_value x k * m k)"
    using assms by (simp add: sum.remove[of K v] add_coeff_def)
  moreover have "(\<Sum>k \<in> K. ref_value x k * m k) = ref_value x v * m v + (\<Sum>k \<in> K - {v}. ref_value x k * m k)"
    using assms by (simp add: sum.remove[of K v])
  ultimately have "(\<Sum>k \<in> K. ref_value x k * add_coeff m v c k) - (\<Sum>k \<in> K. ref_value x k * m k) - ref_value x v * c
      = ref_value x v * (wrap64 (m v + c) - (m v + c))"
    by (simp add: algebra_simps)
  then show ?thesis using wrap64_dvd dvd_mult by metis
qed

lemma equal_coeffs_loop_dvd:
  assumes "finite K" "length a = length b" "fst ` set a \<subseteq> K" "fst ` set b \<subseteq> K"
  shows "2 ^ 64 dvd ((\<Sum>k \<in> K. ref_value x k * equal_coeffs_loop s m a b k) - (\<Sum>k \<in> K. ref_value x k * m k)
    - (terms_sum x a - s * terms_sum x b))"
  using assms(2-4)
proof (induction a b arbitrary: m rule: list_induct2)
  case (Cons p a q b)
  obtain va ca where p: "p = (va, ca)" by (cases p)
  obtain vb cb where q: "q = (vb, cb)" by (cases q)
  define m1 where "m1 = add_coeff m va ca"
  define cb' where "cb' = wrap64 (wrap64 (- cb) * s)"
  define m2 where "m2 = add_coeff m1 vb cb'"
  let ?S = "\<lambda>m. \<Sum>k \<in> K. ref_value x k * m k"
  have vK: "va \<in> K" "vb \<in> K" using Cons.prems by (simp_all add: p q)
  have d1: "2 ^ 64 dvd (?S m1 - ?S m - ref_value x va * ca)"
    unfolding m1_def by (rule sum_add_coeff_dvd[OF assms(1) vK(1)])
  have d2: "2 ^ 64 dvd (?S m2 - ?S m1 - ref_value x vb * cb')"
    unfolding m2_def by (rule sum_add_coeff_dvd[OF assms(1) vK(2)])
  have "2 ^ 64 dvd (wrap64 (wrap64 (- cb) * s) - wrap64 (- cb) * s)" by (rule wrap64_dvd)
  moreover have "2 ^ 64 dvd (wrap64 (- cb) - (- cb)) * s" by (rule dvd_mult2) (rule wrap64_dvd)
  ultimately have "2 ^ 64 dvd ((wrap64 (wrap64 (- cb) * s) - wrap64 (- cb) * s) + (wrap64 (- cb) - (- cb)) * s)"
    by (rule dvd_add)
  then have "2 ^ 64 dvd (cb' + s * cb)" by (simp add: cb'_def algebra_simps)
  then have d3: "2 ^ 64 dvd (ref_value x vb * (cb' + s * cb))" by (rule dvd_mult)
  have d4: "2 ^ 64 dvd (?S (equal_coeffs_loop s m2 a b) - ?S m2 - (terms_sum x a - s * terms_sum x b))"
    using Cons.IH[of m2] Cons.prems by simp
  have e: "equal_coeffs_loop s m (p # a) (q # b) = equal_coeffs_loop s m2 a b"
    by (simp add: p q m1_def m2_def cb'_def)
  have "?S (equal_coeffs_loop s m2 a b) - ?S m - (terms_sum x (p # a) - s * terms_sum x (q # b)) =
      (?S (equal_coeffs_loop s m2 a b) - ?S m2 - (terms_sum x a - s * terms_sum x b)) +
      (?S m2 - ?S m1 - ref_value x vb * cb') + (?S m1 - ?S m - ref_value x va * ca) +
      ref_value x vb * (cb' + s * cb)"
    by (simp add: p q algebra_simps)
  with dvd_add[OF dvd_add[OF dvd_add[OF d4 d2] d1] d3] show ?case unfolding e by (simp only:)
qed simp

text \<open>No hypothesis on overflows: the comparison is exact modulo the width of the machine integers.\<close>

lemma LinearExpressionProtosAreEqual_sound:
  assumes "length (le_coeffs a) = length (le_vars a)" "length (le_coeffs b) = length (le_vars b)"
    "LinearExpressionProtosAreEqual a b s"
  shows "wrap64 (expr_value x a) = wrap64 (s * expr_value x b)"
proof -
  let ?K = "set (le_vars a @ le_vars b)"
  let ?A = "zip (le_vars a) (le_coeffs a)" and ?B = "zip (le_vars b) (le_coeffs b)"
  let ?m = "equal_coeffs_loop s (\<lambda>_. 0) ?A ?B"
  have len: "length (le_vars a) = length (le_vars b)" and off: "le_offset a = wrap64 (le_offset b * s)"
    and z: "\<forall>v \<in> ?K. ?m v = 0"
    using assms(3) by (simp_all add: LinearExpressionProtosAreEqual_def Let_def)
  have "(\<Sum>k \<in> ?K. ref_value x k * ?m k) = 0" using z by simp
  moreover have "fst ` set ?A \<subseteq> ?K" "fst ` set ?B \<subseteq> ?K" by (auto dest: set_zip_leftD)
  ultimately have "2 ^ 64 dvd (0 - 0 - (terms_sum x ?A - s * terms_sum x ?B))"
    using equal_coeffs_loop_dvd[of ?K ?A ?B x s "\<lambda>_. 0"] assms(1,2) len by simp
  then have "2 ^ 64 dvd (terms_sum x ?A - s * terms_sum x ?B)" by (simp add: dvd_diff_commute)
  moreover have "2 ^ 64 dvd (le_offset a - le_offset b * s)" unfolding off by (rule wrap64_dvd)
  ultimately have "2 ^ 64 dvd ((terms_sum x ?A - s * terms_sum x ?B) + (le_offset a - le_offset b * s))"
    by (rule dvd_add)
  then show ?thesis unfolding wrap64_cong_iff by (simp add: expr_value_def algebra_simps)
qed

section \<open>Objective transformations\<close>

text \<open>The two maps between inner and outer objective values are inverse to each other as long as the
  bounds are in range (what \<open>ValidateCpModel\<close> checks on the objective domain).\<close>

lemma Presolve_Postsolve_roundtrip:
  assumes "in_int64 (v + ob_integer_before_offset p)"
    "in_int64 ((v + ob_integer_before_offset p) * ob_integer_scaling_factor p)"
    "in_int64 ((v + ob_integer_before_offset p) * ob_integer_scaling_factor p + ob_integer_after_offset p)"
    "in_int64 v"
  shows "PresolveInnerObjectiveValue p (PostsolveInnerObjectiveValue p v) = v"
proof -
  have "(a * k) sdiv k = a" if "k \<noteq> 0" for a k :: int
    using that by (simp add: signed_divide_int_def sgn_mult abs_mult sgn_mult_abs mult.assoc flip: mult.commute[of "sgn k"])
  then show ?thesis using assms
    by (simp add: PresolveInnerObjectiveValue_def PostsolveInnerObjectiveValue_def)
qed

lemma inner_objective_loop_eq:
  "wrap64 (inner_objective_loop x acc ts) = wrap64 (acc + terms_sum x ts)"
proof (induction ts arbitrary: acc)
  case (Cons t ts)
  obtain ref c where t: "t = (ref, c)" by (cases t)
  have e: "wrap64 (acc + wrap64 (- c) * y) = wrap64 (acc - c * y)" for y
    using wrap64_mult_wrap64[of y "- c"] wrap64_add_wrap64[of acc "wrap64 (- c) * y"]
      wrap64_add_wrap64[of acc "- c * y"] by (simp add: mult.commute)
  have "wrap64 (acc + wrap64 ((if RefIsPositive ref then c else wrap64 (- c)) * elt x (PositiveRef ref))) =
      wrap64 (acc + ref_value x ref * c)"
    by (auto simp: e wrap64_add_wrap64 ref_value_def RefIsPositive_def PositiveRef_cases NegatedRef_def mult.commute)
  then show ?case using Cons.IH by (simp add: t Let_def wrap64_wrap64_add) (metis add.assoc wrap64_wrap64_add)
qed simp

end
