(* ===== verification/DomainProps.thy ===== *)
theory DomainProps
  imports DomainImplied DomainQuadratic CpUtils
begin

text \<open>
  What the domains of \<open>or-tools/ortools/util/sorted_interval_list.cc\<close> promise to the code that uses
  them.  The locale \<open>normal_sets\<close> is the interface: sets of integers kept in a normal form with
  union, intersection and complement; the laws of a Boolean algebra hold for it as equalities of
  the representations, so two domains can be compared interval by interval.  The interpretation is
  the model of class \<open>Domain\<close>.
\<close>

section \<open>Sets in normal form\<close>

locale normal_sets =
  fixes normal :: "'d \<Rightarrow> bool" and vals :: "'d \<Rightarrow> int set" and univ :: "int set"
    and union :: "'d \<Rightarrow> 'd \<Rightarrow> 'd" and inter :: "'d \<Rightarrow> 'd \<Rightarrow> 'd" and compl :: "'d \<Rightarrow> 'd"
    and bot top :: 'd
  assumes normal_unique: "normal a \<Longrightarrow> normal b \<Longrightarrow> vals a = vals b \<Longrightarrow> a = b"
    and vals_univ: "normal a \<Longrightarrow> vals a \<subseteq> univ"
    and union_law: "normal a \<Longrightarrow> normal b \<Longrightarrow> vals (union a b) = vals a \<union> vals b \<and> normal (union a b)"
    and inter_law: "normal a \<Longrightarrow> normal b \<Longrightarrow> vals (inter a b) = vals a \<inter> vals b \<and> normal (inter a b)"
    and compl_law: "normal a \<Longrightarrow> vals (compl a) = univ - vals a \<and> normal (compl a)"
    and bot_law: "vals bot = {} \<and> normal bot"
    and top_law: "vals top = univ \<and> normal top"
begin

lemma closed: "normal a \<Longrightarrow> normal b \<Longrightarrow> normal (union a b)"
  "normal a \<Longrightarrow> normal b \<Longrightarrow> normal (inter a b)" "normal a \<Longrightarrow> normal (compl a)"
  using union_law inter_law compl_law by blast+

lemma vals_simps: "normal a \<Longrightarrow> normal b \<Longrightarrow> vals (union a b) = vals a \<union> vals b"
  "normal a \<Longrightarrow> normal b \<Longrightarrow> vals (inter a b) = vals a \<inter> vals b" "normal a \<Longrightarrow> vals (compl a) = univ - vals a"
  using union_law inter_law compl_law by blast+

lemmas algebra_simps_set = closed vals_simps

lemma union_commute: "normal a \<Longrightarrow> normal b \<Longrightarrow> union a b = union b a"
  by (rule normal_unique) (auto simp: algebra_simps_set)

lemma inter_commute: "normal a \<Longrightarrow> normal b \<Longrightarrow> inter a b = inter b a"
  by (rule normal_unique) (auto simp: algebra_simps_set)

lemma union_assoc: "normal a \<Longrightarrow> normal b \<Longrightarrow> normal c \<Longrightarrow> union (union a b) c = union a (union b c)"
  by (rule normal_unique) (auto simp: algebra_simps_set)

lemma inter_assoc: "normal a \<Longrightarrow> normal b \<Longrightarrow> normal c \<Longrightarrow> inter (inter a b) c = inter a (inter b c)"
  by (rule normal_unique) (auto simp: algebra_simps_set)

lemma inter_distrib: "normal a \<Longrightarrow> normal b \<Longrightarrow> normal c \<Longrightarrow> inter a (union b c) = union (inter a b) (inter a c)"
  by (rule normal_unique) (auto simp: algebra_simps_set)

lemma union_distrib: "normal a \<Longrightarrow> normal b \<Longrightarrow> normal c \<Longrightarrow> union a (inter b c) = inter (union a b) (union a c)"
  by (rule normal_unique) (auto simp: algebra_simps_set)

lemma absorption: "normal a \<Longrightarrow> normal b \<Longrightarrow> union a (inter a b) = a"
  "normal a \<Longrightarrow> normal b \<Longrightarrow> inter a (union a b) = a"
  by (rule normal_unique; auto simp: algebra_simps_set)+

lemma compl_compl: "normal a \<Longrightarrow> compl (compl a) = a"
  using vals_univ[of a] by (intro normal_unique) (auto simp: algebra_simps_set)

lemma de_morgan: "normal a \<Longrightarrow> normal b \<Longrightarrow> compl (union a b) = inter (compl a) (compl b)"
  "normal a \<Longrightarrow> normal b \<Longrightarrow> compl (inter a b) = union (compl a) (compl b)"
  by (rule normal_unique; auto simp: algebra_simps_set)+

text \<open>The bounds, from any element without values and any element with all of them.\<close>

lemma bounds: "normal a \<Longrightarrow> union a bot = a" "normal a \<Longrightarrow> inter a top = a"
  using bot_law top_law vals_univ[of a] by (auto intro!: normal_unique simp: algebra_simps_set)

lemma complements: "normal a \<Longrightarrow> union a (compl a) = top" "normal a \<Longrightarrow> inter a (compl a) = bot"
  using bot_law top_law vals_univ[of a] by (auto intro!: normal_unique simp: algebra_simps_set)

lemma empty_meet: "normal a \<Longrightarrow> normal b \<Longrightarrow> vals (inter a b) = {} \<longleftrightarrow> vals a \<subseteq> vals (compl b)"
  using vals_univ[of a] by (auto simp: algebra_simps_set)

end

interpretation dom: normal_sets canon dvals "{x. in_int64 x}"
  Domain_UnionWith Domain_IntersectionWith Domain_Complement "[]" Domain_AllValues
proof unfold_locales
  show "a = b" if "canon a" "canon b" "dvals a = dvals b" for a b using that by (rule canon_unique)
  show "dvals a \<subseteq> {x. in_int64 x}" if "canon a" for a using canon_in_int64[OF that] by blast
  show "dvals (Domain_UnionWith a b) = dvals a \<union> dvals b \<and> canon (Domain_UnionWith a b)" if "canon a" "canon b" for a b
    using Domain_UnionWith_spec[OF that] by (rule conjI)
  show "dvals (Domain_IntersectionWith a b) = dvals a \<inter> dvals b \<and> canon (Domain_IntersectionWith a b)"
    if "canon a" "canon b" for a b
    using that by (rule Domain_IntersectionWith_spec)
  show "dvals (Domain_Complement a) = {x. in_int64 x} - dvals a \<and> canon (Domain_Complement a)" if "canon a" for a
    using Domain_Complement_spec[OF that] by (rule conjI)
  show "dvals [] = {} \<and> canon []" by simp
  show "dvals Domain_AllValues = {x. in_int64 x} \<and> canon Domain_AllValues"
    using dvals_AllValues by (simp add: Domain_AllValues_def in_int64_def)
qed

section \<open>Properties of the domains\<close>

lemmas canon_eval = canon_def interval_ok_def in_int64_def

text \<open>Two domains that the code keeps in its normal form (sorted, non-empty, non-adjacent intervals)
  hold the same values only when they are the same list of intervals, so the interval-wise comparison
  of the code decides equality of sets.\<close>

theorem Domain_normal_form_unique:
  assumes "canon d" "canon e"
  shows "dvals d = dvals e \<longleftrightarrow> d = e"
  using assms canon_unique by blast

theorem Domain_normal_form_unique_witness:
  "dvals [Interval 1 3, Interval 5 5] \<noteq> dvals [Interval 1 3, Interval 6 6]"
  using Domain_normal_form_unique[of "[Interval 1 3, Interval 5 5]" "[Interval 1 3, Interval 6 6]"]
  by (simp add: canon_eval)

text \<open>C27: Union, intersection and complement of domains in normal form are a Boolean algebra, as equalities of
  interval lists: the empty domain and the domain of all values are its bounds, union and intersection are
  commutative, associative and distribute over each other, a domain and its complement have no common value and
  all values together, and De Morgan, absorption and double complement hold.\<close>

theorem Domain_boolean_algebra:
  assumes "canon a" "canon b" "canon c"
  shows "Domain_UnionWith a [] = a \<and> Domain_IntersectionWith a Domain_AllValues = a \<and>
    Domain_UnionWith a (Domain_Complement a) = Domain_AllValues \<and> Domain_IntersectionWith a (Domain_Complement a) = [] \<and>
    Domain_UnionWith a b = Domain_UnionWith b a \<and> Domain_IntersectionWith a b = Domain_IntersectionWith b a \<and>
    Domain_UnionWith (Domain_UnionWith a b) c = Domain_UnionWith a (Domain_UnionWith b c) \<and>
    Domain_IntersectionWith (Domain_IntersectionWith a b) c = Domain_IntersectionWith a (Domain_IntersectionWith b c) \<and>
    Domain_Complement (Domain_UnionWith a b) = Domain_IntersectionWith (Domain_Complement a) (Domain_Complement b) \<and>
    Domain_Complement (Domain_IntersectionWith a b) = Domain_UnionWith (Domain_Complement a) (Domain_Complement b) \<and>
    Domain_Complement (Domain_Complement a) = a \<and>
    Domain_IntersectionWith a (Domain_UnionWith b c) =
      Domain_UnionWith (Domain_IntersectionWith a b) (Domain_IntersectionWith a c) \<and>
    Domain_UnionWith a (Domain_IntersectionWith b c) =
      Domain_IntersectionWith (Domain_UnionWith a b) (Domain_UnionWith a c) \<and>
    Domain_UnionWith a (Domain_IntersectionWith a b) = a \<and> Domain_IntersectionWith a (Domain_UnionWith a b) = a"
  using assms by (intro conjI dom.bounds dom.complements dom.union_commute dom.inter_commute dom.union_assoc dom.inter_assoc
      dom.de_morgan dom.compl_compl dom.inter_distrib dom.union_distrib dom.absorption)

theorem Domain_boolean_algebra_witness:
  "Domain_Complement (Domain_UnionWith [Interval 1 3] [Interval 4 5]) =
   Domain_IntersectionWith (Domain_Complement [Interval 1 3]) (Domain_Complement [Interval 4 5])"
proof -
  have "canon [Interval 1 3]" "canon [Interval 4 5]" by (simp_all add: canon_eval)
  from Domain_boolean_algebra[OF this canon_Nil] show ?thesis by blast
qed






text \<open>C30: The binary search of Contains is membership, and the pair of nearest-value queries returns the
  greatest value not above and the least value not below the argument, whenever there is one.\<close>

theorem Domain_lookup:
  assumes "canon d"
  shows "(Domain_Contains d v \<longleftrightarrow> v \<in> dvals d) \<and>
    ((\<exists>y \<in> dvals d. y \<le> v) \<longrightarrow> Domain_ValueAtOrBefore d v = Max {y \<in> dvals d. y \<le> v}) \<and>
    ((\<exists>y \<in> dvals d. v \<le> y) \<longrightarrow> Domain_ValueAtOrAfter d v = Min {y \<in> dvals d. v \<le> y})"
proof (intro conjI impI)
  show "Domain_Contains d v \<longleftrightarrow> v \<in> dvals d" using assms by (rule Domain_Contains_iff)
  show "Domain_ValueAtOrBefore d v = Max {y \<in> dvals d. y \<le> v}" if "\<exists>y \<in> dvals d. y \<le> v"
    using Domain_ValueAtOrBefore_spec(1,2)[OF assms] that finite_dvals[of d] by (intro Max_eqI[symmetric]) auto
  show "Domain_ValueAtOrAfter d v = Min {y \<in> dvals d. v \<le> y}" if "\<exists>y \<in> dvals d. v \<le> y"
    using Domain_ValueAtOrAfter_spec[OF assms that] finite_dvals[of d] by (intro Min_eqI[symmetric]) auto
qed

theorem Domain_lookup_witness: "Domain_Contains [Interval 1 3, Interval 5 5] 3"
  using Domain_lookup[of "[Interval 1 3, Interval 5 5]" 3] by (simp add: canon_eval)

text \<open>The sum of two domains is exactly the set of the sums that fit in 64 bits, although the code
  adds the bounds with saturation and stops early at the extremes.\<close>

theorem Domain_AdditionWith_exact:
  assumes "canon a" "canon b"
  shows "dvals (Domain_AdditionWith a b) = {s. in_int64 s \<and> (\<exists>y \<in> dvals a. \<exists>z \<in> dvals b. s = y + z)} \<and>
    canon (Domain_AdditionWith a b)"
  using Domain_AdditionWith_spec[OF assms] by blast

theorem Domain_AdditionWith_exact_witness:
  "dvals (Domain_AdditionWith [Interval 1 kint64max] [Interval 2 3]) =
    {s. in_int64 s \<and> (\<exists>y \<in> {1..kint64max}. \<exists>z \<in> {2..3}. s = y + z)}"
  using Domain_AdditionWith_exact[of "[Interval 1 kint64max]" "[Interval 2 3]"]
  by (simp add: canon_eval ivals_def)

text \<open>Dividing a domain by a constant, truncating toward zero, gives exactly the quotients of its values.\<close>

theorem Domain_DivisionBy_exact:
  assumes "canon d" "in_int64 c" "c \<noteq> kint64min" "c \<noteq> 0"
  shows "dvals (Domain_DivisionBy d c) = (\<lambda>x. x sdiv c) ` dvals d - {x. \<not> in_int64 x} \<and> canon (Domain_DivisionBy d c)"
  using Domain_DivisionBy_spec[OF assms] by auto

theorem Domain_DivisionBy_exact_witness: "canon (Domain_DivisionBy [Interval (- 7) 8] (- 2))"
  using Domain_DivisionBy_exact[of "[Interval (- 7) 8]" "- 2"] by (simp add: canon_eval)

text \<open>C31: Multiplying a domain by a constant keeps every product that fits in 64 bits (but the least int64
  for a negative constant); when the result is declared exact it holds nothing else, and the inverse
  multiplication of an exact result by a non-zero constant gives back the values of those products.\<close>

theorem Domain_Multiplication_inverse:
  assumes "canon d" "in_int64 c" "c \<noteq> kint64min"
  shows "canon (fst (Domain_MultiplicationBy d c)) \<and>
    product_set (dvals d) c \<subseteq> dvals (fst (Domain_MultiplicationBy d c)) \<and>
    (snd (Domain_MultiplicationBy d c) \<longrightarrow>
       dvals (fst (Domain_MultiplicationBy d c)) = product_set (dvals d) c \<and>
       (c \<noteq> 0 \<longrightarrow> dvals (Domain_InverseMultiplicationBy (fst (Domain_MultiplicationBy d c)) c) =
          {x \<in> dvals d. in_int64 (x * c) \<and> (c < 0 \<longrightarrow> x * c \<noteq> kint64min)}))"
proof (intro conjI impI)
  note M = Domain_MultiplicationBy_spec[OF assms]
  show "canon (fst (Domain_MultiplicationBy d c))" "product_set (dvals d) c \<subseteq> dvals (fst (Domain_MultiplicationBy d c))"
    by (rule M(1), rule M(3))
  assume ex: "snd (Domain_MultiplicationBy d c)"
  show eq: "dvals (fst (Domain_MultiplicationBy d c)) = product_set (dvals d) c" by (rule M(2)[OF ex])
  assume c: "c \<noteq> 0"
  show "dvals (Domain_InverseMultiplicationBy (fst (Domain_MultiplicationBy d c)) c) = {x \<in> dvals d. in_int64 (x * c) \<and> (c < 0 \<longrightarrow> x * c \<noteq> kint64min)}"
    unfolding Domain_InverseMultiplicationBy_spec(1)[OF M(1) assms(2,3)] eq product_set_def
    using c canon_in_int64[OF assms(1)] by auto
qed

theorem Domain_Multiplication_inverse_witness: "canon (fst (Domain_MultiplicationBy [Interval 1 3] 5))"
  using Domain_Multiplication_inverse[of "[Interval 1 3]" 5] by (simp add: canon_eval)

text \<open>C32: The superset of the quotients of two domains holds every quotient, truncated toward zero, of a
  value by a non-zero value that fits in 64 bits.\<close>

theorem Domain_DivisionBySuperset_safe:
  assumes "canon d" "canon e" "x \<in> dvals d" "y \<in> dvals e" "y \<noteq> 0" "in_int64 (x sdiv y)"
  shows "x sdiv y \<in> dvals (Domain_DivisionBySuperset d e) \<and> canon (Domain_DivisionBySuperset d e)"
  using assms by (rule Domain_DivisionBySuperset_spec)

theorem Domain_DivisionBySuperset_safe_witness:
  "(- 7) sdiv 2 \<in> dvals (Domain_DivisionBySuperset [Interval (- 7) 5] [Interval (- 1) 2])"
  using Domain_DivisionBySuperset_safe[of "[Interval (- 7) 5]" "[Interval (- 1) 2]" "- 7" 2]
  by (simp add: canon_eval signed_divide_int_def)

text \<open>The superset of the remainders of a domain modulo a positive domain holds every C++ remainder, sign
  of the dividend included, as long as the dividend cannot be the least int64.\<close>

theorem Domain_PositiveModuloBySuperset_safe:
  assumes "canon d" "canon m" "m \<noteq> []" "0 < Domain_Min m" "kint64min \<notin> dvals d" "x \<in> dvals d" "k \<in> dvals m"
  shows "x smod k \<in> dvals (Domain_PositiveModuloBySuperset d m) \<and> canon (Domain_PositiveModuloBySuperset d m)"
  using Domain_PositiveModuloBySuperset_spec[OF assms] by (rule conjI)

theorem Domain_PositiveModuloBySuperset_safe_witness:
  "(- 7) smod 5 \<in> dvals (Domain_PositiveModuloBySuperset [Interval (- 7) 8] [Interval 3 5])"
  using Domain_PositiveModuloBySuperset_safe[of "[Interval (- 7) 8]" "[Interval 3 5]" "- 7" 5]
  by (simp add: canon_eval Domain_Min_def)

text \<open>C33: The product of two domains computed with interval arithmetic contains every saturated product of their
  values, whatever overflows on the way; the superset of the squares contains the saturated square of every value
  but the least int64, whose negation is not an int64.\<close>

theorem Domain_products_safe:
  assumes "canon d" "canon e" "x \<in> dvals d" "y \<in> dvals e"
  shows "CapProd x y \<in> dvals (Domain_ContinuousMultiplicationByDomain d e) \<and>
    (x \<noteq> kint64min \<longrightarrow> CapProd x x \<in> dvals (Domain_SquareSuperset d))"
  using assms Domain_ContinuousMultiplicationByDomain_spec(2) Domain_SquareSuperset_spec(2) by blast

theorem Domain_products_safe_witness:
  "CapProd 3 kint64max \<in> dvals (Domain_ContinuousMultiplicationByDomain [Interval 1 3] [Interval 1 kint64max])"
  using Domain_products_safe[of "[Interval 1 3]" "[Interval 1 kint64max]" 3 kint64max] by (simp add: canon_eval)

text \<open>C0: The search for the one value of a domain outside another finds the value exactly when there is only one,
  provided that the other domain does not reach the greatest int64; when it does, the only value is still found.\<close>

theorem Domain_UniqueValueNotIn_correct:
  assumes "canon d" "canon other" "kint64max \<notin> dvals other \<or> (\<exists>w. dvals d - dvals other = {w})"
  shows "Domain_UniqueValueNotIn d other = Some v \<longleftrightarrow> dvals d - dvals other = {v}"
  using Domain_UniqueValueNotIn_spec[OF assms(1,2)] assms(3) the_only_Some[of "dvals d - dvals other"] by (metis option.simps(3))

theorem Domain_UniqueValueNotIn_correct_witness:
  "Domain_UniqueValueNotIn [Interval 1 4] [Interval 1 2, Interval 4 9] = Some 3"
proof -
  have "dvals [Interval 1 4] - dvals [Interval 1 2, Interval 4 9] = {3}" by auto
  then show ?thesis using Domain_UniqueValueNotIn_correct[of "[Interval 1 4]" "[Interval 1 2, Interval 4 9]" 3] by (simp add: canon_eval)
qed

text \<open>C0: Simplifying a domain by one that is implied keeps the same values among the implied ones, and makes the
  fewest intervals that end at such values: the result is, in normal form, the set of the points between two common
  values with no implied value between them that the domain excludes.\<close>

theorem Domain_SimplifyUsingImpliedDomain_correct:
  assumes "canon d" "canon implied"
  defines "r \<equiv> Domain_SimplifyUsingImpliedDomain d implied" and "common \<equiv> dvals d \<inter> dvals implied"
  shows "canon r \<and> dvals r \<inter> dvals implied = common \<and>
    dvals r = {x. \<exists>y \<in> common. \<exists>z \<in> common. y \<le> x \<and> x \<le> z \<and> {y..z} \<inter> dvals implied \<subseteq> dvals d}"
  unfolding r_def common_def using Domain_SimplifyUsingImpliedDomain_spec[OF assms(1,2)] implied_hull_Int
  by (simp add: implied_hull_def)

theorem Domain_SimplifyUsingImpliedDomain_correct_witness:
  "canon (Domain_SimplifyUsingImpliedDomain [Interval 1 3, Interval 6 9] [Interval 2 2, Interval 8 20])"
  using Domain_SimplifyUsingImpliedDomain_correct[of "[Interval 1 3, Interval 6 9]" "[Interval 2 2, Interval 8 20]"]
  by (simp add: canon_eval)

text \<open>C0: The superset of the products of two affine expressions of one variable contains the saturated product for
  every value of its domain: always when the domain is small, and otherwise when no factor saturates and no extreme
  that the code rounds to an end of an interval is more than half a unit away from it.\<close>

theorem Domain_QuadraticSuperset_safe:
  assumes "canon dm" "in_int64 b" "in_int64 d" "quad_safe dm a b c d" "x \<in> dvals dm"
  shows "CapProd (CapAdd (CapProd a x) b) (CapAdd (CapProd c x) d) \<in> dvals (Domain_QuadraticSuperset dm a b c d)"
  using Domain_QuadraticSuperset_spec(1)[OF assms] by (simp add: quad_evaluate_def)

theorem Domain_QuadraticSuperset_safe_witness:
  "CapProd (CapAdd (CapProd 2 50) 1) (CapAdd (CapProd 1 50) (- 100)) \<in> dvals (Domain_QuadraticSuperset [Interval 0 200] 2 1 1 (- 100))"
proof -
  have "quad_safe [Interval 0 200] 2 1 1 (- 100)"
    by (auto simp: quad_safe_def quad_fits_def quad_regular_def quad_point_def signed_divide_int_def in_int64_def)
  then show ?thesis using Domain_QuadraticSuperset_safe[of "[Interval 0 200]" 1 "- 100" 2 1 50] by (simp add: canon_eval)
qed










text \<open>C34: A domain survives the trip through the flat list of bounds of the proto: what is written reads back
  as the same intervals, and membership tested on the flat list is membership in the domain.\<close>

theorem Domain_flat_roundtrip:
  assumes "canon d"
  shows "ReadDomainFromProto (FillDomainInProto d) = d \<and> Domain_FromFlatSpanOfIntervals (Domain_FlattenedIntervals d) = d \<and>
    (DomainInProtoContains (FillDomainInProto d) v \<longleftrightarrow> v \<in> dvals d)"
  using Fill_Read_roundtrip[OF assms] FromFlatSpan_FlattenedIntervals[OF assms] DomainInProtoContains_Fill by blast

theorem Domain_flat_roundtrip_witness:
  "ReadDomainFromProto (FillDomainInProto [Interval 1 3, Interval 5 5]) = [Interval 1 3, Interval 5 5]"
  using Domain_flat_roundtrip[of "[Interval 1 3, Interval 5 5]"] by (simp add: canon_eval)

text \<open>C35: The saturated operations computed by wrapping 64-bit machine arithmetic and sign tests are the
  exact results clamped to the range of int64, for every pair of machine words.\<close>

theorem Cap_operations_clamp:
  "sint (CapAddGeneric x y) = clamp64 (sint x + sint y) \<and> sint (CapSubGeneric x y) = clamp64 (sint x - sint y) \<and>
   sint (CapProdGeneric x y) = clamp64 (sint x * sint y)"
  by (simp add: CapAddGeneric_eq CapSubGeneric_eq CapProdGeneric_eq CapAdd_clamp CapSub_clamp CapProd_clamp)

end
