(* ===== verification/IntervalSets.thy ===== *)
theory IntervalSets
  imports SortedIntervals
begin

text \<open>
  \<open>class SortedDisjointIntervalList\<close> of \<open>or-tools/ortools/util/sorted_interval_list.{h,cc}\<close>: a mutable set
  of intervals kept sorted by start and then end (a \<open>std::set\<close>), here the list of its elements in that
  order; an iterator is the suffix that it points to.
\<close>

section \<open>Insertion\<close>

text \<open>\<open>IntervalComparator\<close>\<close>

definition IntervalComparator :: "closed_interval \<Rightarrow> closed_interval \<Rightarrow> bool" where
  "IntervalComparator a b \<longleftrightarrow>
     (if ci_start a \<noteq> ci_start b then ci_start a < ci_start b else ci_end a < ci_end b)"

text \<open>The elements before the new interval, nearest first, that the backward walk reaches (\<open>it1\<close> ends at the
  last of them), and the elements after it up to \<open>it2\<close>.\<close>

definition merged_before :: "int64 \<Rightarrow> closed_interval list \<Rightarrow> closed_interval list" where
  "merged_before start rev_before =
     (if start = kint64min then rev_before else takeWhile (\<lambda>p. \<not> ci_end p < start - 1) rev_before)"

definition merged_after :: "int64 \<Rightarrow> closed_interval list \<Rightarrow> closed_interval list" where
  "merged_after stop after =
     (if stop = kint64max then after else takeWhile (\<lambda>i. ci_start i \<le> stop + 1) after)"

text \<open>The elements from \<open>it1\<close> to \<open>it3\<close> become one interval, from the least start to the greater of the last end
  and the new end.\<close>

definition SortedDisjointIntervalList_InsertInterval :: "domain \<Rightarrow> int64 \<Rightarrow> int64 \<Rightarrow> domain" where
  "SortedDisjointIntervalList_InsertInterval ls start stop =
     (let new = Interval start stop
      in if start > stop \<or> new \<in> set ls then ls
         else let before = takeWhile (\<lambda>i. IntervalComparator i new) ls;
                  after = dropWhile (\<lambda>i. IntervalComparator i new) ls;
                  mb = merged_before start (rev before);
                  ma = merged_after stop after;
                  merged = rev mb @ new # ma
              in if mb = [] \<and> ma = [] then before @ new # after
                 else rev (drop (length mb) (rev before)) @
                      Interval (min (ci_start (hd merged)) start) (max (ci_end (last merged)) stop) #
                      drop (length ma) after)"

definition SortedDisjointIntervalList_InsertAll :: "domain \<Rightarrow> int64 list \<Rightarrow> int64 list \<Rightarrow> domain option" where
  "SortedDisjointIntervalList_InsertAll ls starts ends =
     (if length starts \<noteq> length ends then None
      else Some (foldl (\<lambda>l (s, e). SortedDisjointIntervalList_InsertInterval l s e) ls (zip starts ends)))"

section \<open>Lookup\<close>

text \<open>The suffix that the iterator points to; the empty one is \<open>end()\<close>.\<close>

definition SortedDisjointIntervalList_FirstIntervalGreaterOrEqual :: "domain \<Rightarrow> int64 \<Rightarrow> domain" where
  "SortedDisjointIntervalList_FirstIntervalGreaterOrEqual ls value =
     (let before = before_upper_bound value ls; it = from_upper_bound value ls
      in if before = [] then it
         else if ci_end (last before) \<ge> value then last before # it else it)"

definition SortedDisjointIntervalList_LastIntervalLessOrEqual :: "domain \<Rightarrow> int64 \<Rightarrow> domain" where
  "SortedDisjointIntervalList_LastIntervalLessOrEqual ls value =
     (let before = before_upper_bound value ls
      in if before = [] then [] else last before # from_upper_bound value ls)"

section \<open>Complement\<close>

fun complement_on_loop :: "int64 \<Rightarrow> domain \<Rightarrow> int64 \<Rightarrow> domain \<Rightarrow> int64 \<times> domain" where
  "complement_on_loop stop res next_start [] = (next_start, res)"
| "complement_on_loop stop res next_start (i # is) =
     (let next_end = CapSub (ci_start i) 1
      in if next_end > stop then (next_start, res)
         else complement_on_loop stop
                (if next_start \<le> next_end then SortedDisjointIntervalList_InsertInterval res next_start next_end else res)
                (CapAdd (ci_end i) 1) is)"

text \<open>What follows the loop.\<close>

fun last_gap :: "int64 \<Rightarrow> int64 \<times> domain \<Rightarrow> domain" where
  "last_gap stop (next_start, res) =
     (if next_start \<le> stop then SortedDisjointIntervalList_InsertInterval res next_start stop else res)"

definition SortedDisjointIntervalList_BuildComplementOnInterval :: "domain \<Rightarrow> int64 \<Rightarrow> int64 \<Rightarrow> domain" where
  "SortedDisjointIntervalList_BuildComplementOnInterval ls start stop =
     last_gap stop (complement_on_loop stop [] start
       (SortedDisjointIntervalList_FirstIntervalGreaterOrEqual ls start))"

section \<open>The invariant and the values\<close>

text \<open>The parts of a canonical list around a new interval.\<close>

lemma canon_before_after:
  fixes start stop :: int64
  assumes "canon ls"
  defines "before \<equiv> takeWhile (\<lambda>i. IntervalComparator i (Interval start stop)) ls"
    and "after \<equiv> dropWhile (\<lambda>i. IntervalComparator i (Interval start stop)) ls"
  shows "canon before" "canon after" "\<forall>i \<in> set before. \<forall>j \<in> set after. ci_end i + 1 < ci_start j"
    "\<forall>i \<in> set before. ci_start i \<le> start \<and> (ci_start i = start \<longrightarrow> ci_end i < stop)"
    "\<forall>i \<in> set after. start \<le> ci_start i"
proof -
  have split: "ls = before @ after" by (simp add: before_def after_def)
  show parts: "canon before" "canon after" "\<forall>i \<in> set before. \<forall>j \<in> set after. ci_end i + 1 < ci_start j"
    using assms(1) unfolding split canon_append by blast+
  show "\<forall>i \<in> set before. ci_start i \<le> start \<and> (ci_start i = start \<longrightarrow> ci_end i < stop)"
    unfolding before_def by (auto dest!: set_takeWhileD simp: IntervalComparator_def split: if_split_asm)
  show "\<forall>i \<in> set after. start \<le> ci_start i"
  proof (cases after)
    case (Cons j r)
    then have "\<not> IntervalComparator j (Interval start stop)"
      using hd_dropWhile[of "\<lambda>i. IntervalComparator i (Interval start stop)" ls] by (simp add: after_def)
    then have "start \<le> ci_start j" by (auto simp: IntervalComparator_def split: if_split_asm)
    then show ?thesis using parts(2) Cons by (auto simp: canon_Cons interval_ok_def)
  qed simp
qed

lemma merged_before_spec:
  assumes "canon before" "\<forall>i \<in> set before. ci_start i \<le> start"
    "\<And>i. i \<in> set before \<Longrightarrow> start = kint64min \<Longrightarrow> start - 1 \<le> ci_end i"
  obtains "merged_before start (rev before) = []" "\<forall>i \<in> set before. ci_end i < start - 1"
  | kb p where "merged_before start (rev before) = [p]" "before = kb @ [p]" "start - 1 \<le> ci_end p"
proof (cases before rule: rev_cases)
  case Nil
  then show ?thesis using that(1) by (simp add: merged_before_def)
next
  case (snoc kb p)
  have gap: "ci_end i + 1 < ci_start p" if "i \<in> set kb" for i
    using assms(1) that unfolding snoc canon_append by simp
  have below: "ci_end i < start - 1" if "i \<in> set kb" for i
    using gap[OF that] assms(2) snoc by fastforce
  show ?thesis
  proof (cases "ci_end p < start - 1")
    case True
    then have "start \<noteq> kint64min" using assms(3)[of p] snoc by auto
    then show ?thesis using that(1) True below snoc by (auto simp: merged_before_def)
  next
    case False
    have "kb = []" if "start = kint64min"
    proof (rule ccontr)
      assume "kb \<noteq> []"
      then obtain i where "i \<in> set kb" by fastforce
      then show False using below assms(3)[of i] that snoc by fastforce
    qed
    moreover have "takeWhile (\<lambda>p. \<not> ci_end p < start - 1) (rev kb) = []"
      by (cases kb rule: rev_cases) (use below in auto)
    ultimately have "merged_before start (rev before) = [p]" using False snoc by (simp add: merged_before_def)
    then show ?thesis using that(2)[of p kb] snoc False by simp
  qed
qed

lemma merged_after_spec:
  assumes "canon after" "in_int64 stop"
  defines "ma \<equiv> merged_after stop after"
  shows "after = ma @ drop (length ma) after" "\<forall>i \<in> set ma. ci_start i \<le> stop + 1"
    "\<forall>i \<in> set (drop (length ma) after). stop + 1 < ci_start i"
proof -
  have ok: "ci_start i \<le> kint64max" if "i \<in> set after" for i
    using canon_interval_ok[OF assms(1) that] by (simp add: interval_ok_def in_int64_def)
  show "after = ma @ drop (length ma) after" "\<forall>i \<in> set ma. ci_start i \<le> stop + 1"
    using ok unfolding ma_def merged_after_def
    by (auto simp: dropWhile_eq_drop[symmetric] dest!: set_takeWhileD intro: order_trans[OF ok])
  show "\<forall>i \<in> set (drop (length ma) after). stop + 1 < ci_start i"
  proof (cases "stop = kint64max")
    case True
    then show ?thesis by (simp add: ma_def merged_after_def)
  next
    case False
    then have d: "drop (length ma) after = dropWhile (\<lambda>i. ci_start i \<le> stop + 1) after"
      by (simp add: ma_def merged_after_def dropWhile_eq_drop)
    show ?thesis
    proof (cases "drop (length ma) after")
      case (Cons j r)
      then have "stop + 1 < ci_start j" using d hd_dropWhile[of "\<lambda>i. ci_start i \<le> stop + 1" after] by simp
      moreover have "canon (j # r)"
        using assms(1) Cons by (metis append_take_drop_id canon_append)
      ultimately show ?thesis using Cons by (auto simp: canon_Cons interval_ok_def)
    qed simp
  qed
qed

text \<open>A run of intervals that start at most one past the end of the new one fills up to the last end.\<close>

lemma filled_run:
  assumes "canon ma" "\<forall>i \<in> set ma. start \<le> ci_start i \<and> ci_start i \<le> stop + 1" "start \<le> stop" "ma \<noteq> []"
  shows "{start..stop} \<union> dvals ma = {start..max (ci_end (last ma)) stop}"
proof -
  obtain r l where ma: "ma = r @ [l]" using assms(4) by (metis append_butlast_last_id)
  have l: "start \<le> ci_start l" "ci_start l \<le> stop + 1" "ci_start l \<le> ci_end l"
    using assms(1,2) ma by (auto simp: canon_append interval_ok_def)
  have "dvals r \<subseteq> {start..stop}"
  proof
    fix x assume "x \<in> dvals r"
    then obtain i where i: "i \<in> set r" "ci_start i \<le> x" "x \<le> ci_end i" by (auto simp: mem_dvals)
    then have "ci_end i + 1 < ci_start l" "start \<le> ci_start i" using assms(1,2) ma by (auto simp: canon_append)
    then show "x \<in> {start..stop}" using i l by auto
  qed
  then have "{start..stop} \<union> dvals r = {start..stop}" by blast
  then have "{start..stop} \<union> dvals ma = {start..stop} \<union> ivals l" by (simp add: ma Un_assoc[symmetric])
  also have "\<dots> = {start..max (ci_end l) stop}" using l assms(3) by (auto simp: ivals_def)
  finally show ?thesis by (simp add: ma)
qed

theorem InsertInterval_spec:
  assumes ls: "canon ls" and new: "in_int64 start" "in_int64 stop" "start \<le> stop"
    and outside: "\<forall>i \<in> set ls. ci_start i < start \<longrightarrow> ci_end i \<le> stop"
  shows "canon (SortedDisjointIntervalList_InsertInterval ls start stop)"
    "dvals (SortedDisjointIntervalList_InsertInterval ls start stop) = dvals ls \<union> {start..stop}"
proof -
  define before where "before = takeWhile (\<lambda>i. IntervalComparator i (Interval start stop)) ls"
  define after where "after = dropWhile (\<lambda>i. IntervalComparator i (Interval start stop)) ls"
  define mb where "mb = merged_before start (rev before)"
  define ma where "ma = merged_after stop after"
  define ka where "ka = drop (length ma) after"
  define kb where "kb = rev (drop (length mb) (rev before))"
  define hi where "hi = (if ma = [] then stop else max (ci_end (last ma)) stop)"
  define lo where "lo = (if mb = [] then start else ci_start (hd mb))"
  note parts = canon_before_after[OF ls, of start stop, folded before_def after_def]
  have ls_eq: "ls = before @ after" by (simp add: before_def after_def)
  note after_parts = merged_after_spec[OF parts(2) new(2), folded ma_def, folded ka_def]
  have canon_after: "canon ma" "canon ka" "\<forall>i \<in> set ma. \<forall>j \<in> set ka. ci_end i + 1 < ci_start j"
    using parts(2) after_parts(1) unfolding canon_append[symmetric] by (simp_all add: canon_append)
  have stop_le: "stop \<le> hi" by (simp add: hi_def)
  have run: "{start..stop} \<union> dvals ma = {start..hi}"
  proof (cases "ma = []")
    case False
    have "\<forall>i \<in> set ma. start \<le> ci_start i \<and> ci_start i \<le> stop + 1"
      using parts(5) after_parts(1,2) by (metis Un_iff set_append)
    from filled_run[OF canon_after(1) this new(3) False] show ?thesis using False by (simp add: hi_def)
  qed (simp add: hi_def)
  have hi_ok: "in_int64 hi" "\<forall>j \<in> set ka. hi + 1 < ci_start j"
  proof -
    have "interval_ok (last ma)" if "ma \<noteq> []" using canon_interval_ok[OF canon_after(1)] that by simp
    then show "in_int64 hi" using new(2) by (auto simp: hi_def interval_ok_def in_int64_def)
    show "\<forall>j \<in> set ka. hi + 1 < ci_start j"
      using after_parts(3) canon_after(3) by (auto simp: hi_def max_def)
  qed
  have low: "start - 1 \<le> ci_end i" if "i \<in> set before" "start = kint64min" for i
    using canon_interval_ok[OF parts(1) that(1)] that(2) by (simp add: interval_ok_def in_int64_def)
  have before_le: "\<forall>i \<in> set before. ci_start i \<le> start" using parts(4) by blast
  have front: "(mb = [] \<and> kb = before \<and> lo = start \<and> (\<forall>i \<in> set before. ci_end i < start - 1)) \<or>
      (\<exists>p. mb = [p] \<and> before = kb @ [p] \<and> lo = ci_start p \<and> start - 1 \<le> ci_end p)"
  proof (rule merged_before_spec[OF parts(1) before_le low])
    assume "merged_before start (rev before) = []" "\<forall>i \<in> set before. ci_end i < start - 1"
    then show ?thesis by (simp add: mb_def[symmetric] kb_def lo_def)
  next
    fix k p assume p: "merged_before start (rev before) = [p]" "before = k @ [p]" "start - 1 \<le> ci_end p"
    have "mb = [p]" using p(1) by (simp add: mb_def)
    then have "kb = k" "lo = ci_start p" using p(2) by (simp_all add: kb_def lo_def)
    then show ?thesis using p(2,3) \<open>mb = [p]\<close> by simp
  qed
  have vals_after: "dvals after = dvals ma \<union> dvals ka"
    using arg_cong[OF after_parts(1), of dvals] by simp
  have gap: "\<forall>i \<in> set before. \<forall>j \<in> set ka. ci_end i + 1 < ci_start j"
    using parts(3) unfolding ka_def by (blast dest: in_set_dropD)
  have result: "canon (kb @ Interval lo hi # ka) \<and> dvals (kb @ Interval lo hi # ka) = dvals ls \<union> {start..stop} \<and>
      min (ci_start (hd (rev mb @ Interval start stop # ma))) start = lo"
    using front
  proof
    assume f: "mb = [] \<and> kb = before \<and> lo = start \<and> (\<forall>i \<in> set before. ci_end i < start - 1)"
    have "dvals ls \<union> {start..stop} = dvals before \<union> ({start..stop} \<union> dvals ma) \<union> dvals ka"
      unfolding ls_eq dvals_append vals_after by blast
    then have "dvals ls \<union> {start..stop} = dvals before \<union> {start..hi} \<union> dvals ka" unfolding run .
    moreover have "canon (before @ Interval start hi # ka)"
      using parts(1) gap f canon_after(2) hi_ok stop_le new
      unfolding canon_append canon_Cons interval_ok_def by auto
    ultimately show ?thesis using f by (auto simp: ivals_def)
  next
    assume "\<exists>p. mb = [p] \<and> before = kb @ [p] \<and> lo = ci_start p \<and> start - 1 \<le> ci_end p"
    then obtain p where f: "mb = [p]" "before = kb @ [p]" "lo = ci_start p" "start - 1 \<le> ci_end p" by blast
    have p: "ci_start p \<le> start" "ci_end p \<le> stop" "interval_ok p" "canon kb" "\<forall>i \<in> set kb. ci_end i + 1 < ci_start p"
      using before_le parts(4) outside f(2) parts(1) ls_eq canon_interval_ok[OF ls, of p]
      by (fastforce simp: canon_append)+
    have "ivals p \<union> {start..hi} = {ci_start p..hi}"
      using p(1,2) f(4) stop_le by (auto simp: ivals_def)
    moreover have "dvals ls \<union> {start..stop} = dvals kb \<union> (ivals p \<union> ({start..stop} \<union> dvals ma)) \<union> dvals ka"
      unfolding ls_eq f(2) dvals_append vals_after by auto
    ultimately have "dvals ls \<union> {start..stop} = dvals kb \<union> {ci_start p..hi} \<union> dvals ka" unfolding run by simp
    moreover have "canon (kb @ Interval (ci_start p) hi # ka)"
    proof -
      have "\<forall>i \<in> set kb. \<forall>j \<in> set ka. ci_end i + 1 < ci_start j"
        using gap f(2) by auto
      then show ?thesis using p canon_after(2) hi_ok stop_le new(3)
        unfolding canon_append canon_Cons interval_ok_def by auto
    qed
    ultimately show ?thesis using f p(1) by (auto simp: ivals_def)
  qed
  have "SortedDisjointIntervalList_InsertInterval ls start stop = kb @ Interval lo hi # ka" if "Interval start stop \<notin> set ls"
  proof (cases "mb = [] \<and> ma = []")
    case True
    then have "kb = before" "lo = start" "hi = stop" "ka = after" by (simp_all add: kb_def lo_def hi_def ka_def)
    then show ?thesis using True that new(3)
      unfolding SortedDisjointIntervalList_InsertInterval_def Let_def before_def[symmetric] after_def[symmetric]
        mb_def[symmetric] ma_def[symmetric] by simp
  next
    case False
    have "max (ci_end (last (rev mb @ Interval start stop # ma))) stop = hi" by (simp add: hi_def)
    then show ?thesis using False that new(3) result
      unfolding SortedDisjointIntervalList_InsertInterval_def Let_def before_def[symmetric] after_def[symmetric]
        mb_def[symmetric] ma_def[symmetric] by (auto simp: kb_def ka_def)
  qed
  moreover have "SortedDisjointIntervalList_InsertInterval ls start stop = ls" "{start..stop} \<subseteq> dvals ls"
    if "Interval start stop \<in> set ls"
    using that by (auto simp: SortedDisjointIntervalList_InsertInterval_def mem_dvals intro!: bexI[of _ "Interval start stop"])
  ultimately
  show "canon (SortedDisjointIntervalList_InsertInterval ls start stop)"
    "dvals (SortedDisjointIntervalList_InsertInterval ls start stop) = dvals ls \<union> {start..stop}"
    using ls result by (metis sup.absorb1)+
qed

lemma ends_below: "canon d \<Longrightarrow> (\<forall>i \<in> set d. ci_end i < n) \<longleftrightarrow> (\<forall>x \<in> dvals d. x < n)"
  by (force simp: mem_dvals canon_def interval_ok_def)

section \<open>Lookup and complement\<close>

lemma FirstIntervalGreaterOrEqual_eq:
  assumes "canon ls"
  shows "SortedDisjointIntervalList_FirstIntervalGreaterOrEqual ls v = dropWhile (\<lambda>i. ci_end i < v) ls"
proof -
  define b where "b = before_upper_bound v ls"
  define u where "u = from_upper_bound v ls"
  have ls: "ls = b @ u" by (simp add: b_def u_def upper_bound_split)
  have parts: "canon b" "canon u" using assms canon_append[of b u] ls by metis+
  have u: "\<not> ci_end j < v" if "j \<in> set u" for j
  proof -
    have "v < ci_start j" using from_upper_bound_gt[OF assms, of j v] that by (simp add: u_def)
    moreover have "ci_start j \<le> ci_end j"
      using canon_interval_ok[OF parts(2) that] by (simp add: interval_ok_def)
    ultimately show ?thesis by simp
  qed
  have drop_u: "dropWhile (\<lambda>i. ci_end i < v) u = u" using u by (cases u) simp_all
  have drop_b: "dropWhile (\<lambda>i. ci_end i < v) (r @ l # u) = (if ci_end l < v then u else l # u)" if "b = r @ [l]" for r l
  proof -
    have "ci_start l \<le> v" using before_upper_bound_le[of l v ls] that by (simp add: b_def[symmetric])
    moreover have "ci_end i + 1 < ci_start l" if "i \<in> set r" for i
      using parts(1) \<open>b = r @ [l]\<close> that by (simp add: canon_append)
    ultimately have "\<forall>i \<in> set r. ci_end i < v" by fastforce
    then show ?thesis using drop_u by (simp add: dropWhile_append2)
  qed
  have eq: "SortedDisjointIntervalList_FirstIntervalGreaterOrEqual ls v =
    (if b = [] then u else if ci_end (last b) \<ge> v then last b # u else u)"
    by (simp add: SortedDisjointIntervalList_FirstIntervalGreaterOrEqual_def Let_def b_def u_def)
  have "dropWhile (\<lambda>i. ci_end i < v) (b @ u) = (if b = [] then u else if ci_end (last b) \<ge> v then last b # u else u)"
    using drop_u drop_b by (cases b rule: rev_cases) simp_all
  then show ?thesis unfolding eq using ls by metis
qed

lemma LastIntervalLessOrEqual_spec:
  assumes "canon ls" "SortedDisjointIntervalList_LastIntervalLessOrEqual ls v = i # r"
  shows "\<exists>l. ls = l @ i # r" "ci_start i \<le> v" "\<forall>j \<in> set r. v < ci_start j"
proof -
  define b where "b = before_upper_bound v ls"
  have b: "b \<noteq> []" "i = last b" "r = from_upper_bound v ls"
    using assms(2) by (auto simp: SortedDisjointIntervalList_LastIntervalLessOrEqual_def b_def Let_def split: if_split_asm)
  have "ls = butlast b @ i # r"
    using upper_bound_split[of v ls] append_butlast_last_id[OF b(1)] b(2,3)
    by (metis append_Cons append_assoc append_self_conv2 b_def)
  then show "\<exists>l. ls = l @ i # r" by blast
  show "ci_start i \<le> v" using before_upper_bound_le[of i v ls] b(1,2) by (simp add: b_def)
  show "\<forall>j \<in> set r. v < ci_start j" using from_upper_bound_gt[OF assms(1)] b(3) by blast
qed

lemma complement_on_loop_spec:
  assumes "canon res" "\<forall>x \<in> dvals res. x < ns" "canon is" "\<forall>i \<in> set is. ns \<le> ci_end i"
    "\<forall>i \<in> set is. kint64min < ci_start i \<and> ci_end i < kint64max" "in_int64 ns" "in_int64 stop"
    "complement_on_loop stop res ns is = (ns', res')"
  shows "canon (last_gap stop (ns', res')) \<and>
    dvals (last_gap stop (ns', res')) = dvals res \<union> ({ns..stop} - dvals is)"
  using assms
proof (induction "is" arbitrary: res ns)
  case Nil
  then have eqs: "ns' = ns" "res' = res" by simp_all
  show ?case
  proof (cases "ns \<le> stop")
    case True
    have "\<forall>i \<in> set res. ci_start i < ns \<longrightarrow> ci_end i \<le> stop"
      using ends_below[OF Nil.prems(1)] Nil.prems(2) True by fastforce
    from InsertInterval_spec[OF Nil.prems(1,6,7) True this] show ?thesis using True eqs by (simp)
  qed (use Nil eqs in \<open>simp\<close>)
next
  case (Cons i "is")
  have i: "kint64min < ci_start i" "ci_end i < kint64max" "ns \<le> ci_end i" "ci_start i \<le> ci_end i" "canon is"
    "\<forall>j \<in> set is. ci_end i + 1 < ci_start j" "in_int64 (ci_start i)" "in_int64 (ci_end i)"
    using Cons.prems(3-5) by (simp_all add: canon_Cons interval_ok_def)
  have cap: "CapSub (ci_start i) 1 = ci_start i - 1" "CapAdd (ci_end i) 1 = ci_end i + 1"
    using i by (auto simp: CapSub_clamp CapAdd_clamp clamp64_def in_int64_def)
  define next_end where "next_end = ci_start i - 1"
  have tail_above: "ci_end i + 1 < x" if "x \<in> dvals is" for x using that i(6) by (auto simp: mem_dvals)
  show ?case
  proof (cases "next_end > stop")
    case True
    then have eqs: "ns' = ns" "res' = res" using Cons.prems(8) cap by (simp_all add: next_end_def)
    have none: "{ns..stop} - dvals (i # is) = {ns..stop}"
      using True i tail_above by (force simp: next_end_def ivals_def)
    show ?thesis
    proof (cases "ns \<le> stop")
      case le: True
      have "\<forall>i \<in> set res. ci_start i < ns \<longrightarrow> ci_end i \<le> stop"
        using ends_below[OF Cons.prems(1)] Cons.prems(2) le by fastforce
      from InsertInterval_spec[OF Cons.prems(1,6,7) le this] show ?thesis
        using le eqs none by (simp)
    qed (use Cons.prems(1) eqs in \<open>simp\<close>)
  next
    case False
    define res1 where "res1 = (if ns \<le> next_end then SortedDisjointIntervalList_InsertInterval res ns next_end else res)"
    have res1: "canon res1" "dvals res1 = dvals res \<union> {ns..next_end}"
    proof -
      have "canon res1 \<and> dvals res1 = dvals res \<union> {ns..next_end}"
      proof (cases "ns \<le> next_end")
        case le: True
        have "\<forall>i \<in> set res. ci_start i < ns \<longrightarrow> ci_end i \<le> next_end"
          using ends_below[OF Cons.prems(1)] Cons.prems(2) le by fastforce
        moreover have "in_int64 next_end" using i by (auto simp: next_end_def in_int64_def)
        ultimately show ?thesis using InsertInterval_spec[OF Cons.prems(1,6) _ le] le by (simp add: res1_def)
      qed (use Cons.prems(1) in \<open>simp add: res1_def\<close>)
      then show "canon res1" "dvals res1 = dvals res \<union> {ns..next_end}" by simp_all
    qed
    have loop: "complement_on_loop stop res1 (ci_end i + 1) is = (ns', res')"
      using Cons.prems(8) False cap by (simp add: next_end_def res1_def cong: if_cong split del: if_split)
    have below: "\<forall>x \<in> dvals res1. x < ci_end i + 1"
      using res1(2) Cons.prems(2) i by (auto simp: next_end_def)
    have above: "\<forall>j \<in> set is. ci_end i + 1 \<le> ci_end j"
      using i(5,6) by (force simp: canon_def interval_ok_def)
    have fits: "in_int64 (ci_end i + 1)" using i by (auto simp: in_int64_def)
    have bounds: "\<forall>i \<in> set is. kint64min < ci_start i \<and> ci_end i < kint64max" using Cons.prems(5) by simp
    have "{ns..next_end} \<union> ({ci_end i + 1..stop} - dvals is) = {ns..stop} - dvals (i # is)"
      using False i tail_above by (force simp: next_end_def ivals_def)
    then have "dvals res \<union> ({ns..stop} - dvals (i # is)) = dvals res1 \<union> ({ci_end i + 1..stop} - dvals is)"
      using res1(2) by blast
    then show ?thesis
      using Cons.IH[OF res1(1) below i(5) above bounds fits Cons.prems(7) loop] by simp
  qed
qed

lemma dropWhile_dvals:
  assumes "canon ls"
  shows "canon (dropWhile (\<lambda>i. ci_end i < v) ls)" "{v..w} - dvals (dropWhile (\<lambda>i. ci_end i < v) ls) = {v..w} - dvals ls"
    "\<forall>i \<in> set (dropWhile (\<lambda>i. ci_end i < v) ls). v \<le> ci_end i"
proof -
  define d where "d = dropWhile (\<lambda>i. ci_end i < v) ls"
  define t where "t = takeWhile (\<lambda>i. ci_end i < v) ls"
  have ls: "ls = t @ d" by (simp add: d_def t_def)
  have c: "canon d" using assms canon_append[of t d] ls by metis
  then show "canon (dropWhile (\<lambda>i. ci_end i < v) ls)" by (simp add: d_def)
  have "\<forall>i \<in> set t. ci_end i < v" by (auto simp: t_def dest: set_takeWhileD)
  then have "\<forall>x \<in> dvals t. x < v" by (force simp: mem_dvals)
  moreover have "dvals ls = dvals t \<union> dvals d" using dvals_append[of t d] ls by metis
  ultimately have "{v..w} - dvals d = {v..w} - dvals ls" by force
  then show "{v..w} - dvals (dropWhile (\<lambda>i. ci_end i < v) ls) = {v..w} - dvals ls" by (simp add: d_def)
  show "\<forall>i \<in> set (dropWhile (\<lambda>i. ci_end i < v) ls). v \<le> ci_end i"
  proof -
    have "\<forall>i \<in> set d. v \<le> ci_end i"
    proof (cases d)
      case (Cons j r)
      then have "v \<le> ci_end j" using hd_dropWhile[of "\<lambda>i. ci_end i < v" ls] by (simp add: d_def)
      moreover have "v \<le> ci_end i" if "i \<in> set r" for i
        using calculation c canon_interval_ok[OF c, of i] that Cons by (fastforce simp: canon_Cons interval_ok_def)
      ultimately show ?thesis using Cons by simp
    qed simp
    then show ?thesis by (simp add: d_def)
  qed
qed

lemma BuildComplementOnInterval_spec:
  assumes "canon ls" "\<forall>i \<in> set ls. kint64min < ci_start i \<and> ci_end i < kint64max" "in_int64 start" "in_int64 stop"
  shows "canon (SortedDisjointIntervalList_BuildComplementOnInterval ls start stop)"
    "dvals (SortedDisjointIntervalList_BuildComplementOnInterval ls start stop) = {start..stop} - dvals ls"
proof -
  define d where "d = dropWhile (\<lambda>i. ci_end i < start) ls"
  obtain ns' res' where loop: "complement_on_loop stop [] start d = (ns', res')" by fastforce
  note dw = dropWhile_dvals[OF assms(1), of start, folded d_def]
  have bounds: "\<forall>i \<in> set d. kint64min < ci_start i \<and> ci_end i < kint64max"
    using assms(2) by (auto simp: d_def dest: set_dropWhileD)
  have "canon [] \<and> (\<forall>x \<in> dvals []. x < start)" by simp
  from complement_on_loop_spec[OF _ _ dw(1,3) bounds assms(3,4) loop] this
  show "canon (SortedDisjointIntervalList_BuildComplementOnInterval ls start stop)"
    "dvals (SortedDisjointIntervalList_BuildComplementOnInterval ls start stop) = {start..stop} - dvals ls"
    using dw(2)[of stop] loop
    by (simp_all add: SortedDisjointIntervalList_BuildComplementOnInterval_def
        FirstIntervalGreaterOrEqual_eq[OF assms(1)] d_def[symmetric])
qed

section \<open>Properties\<close>

text \<open>C37: Inserting an interval that reaches at least as far as every interval starting before it keeps the list
  sorted, disjoint and without adjacent intervals, and adds exactly the values of the new interval.\<close>

theorem InsertInterval_correct:
  assumes "canon ls" "in_int64 start" "in_int64 stop" "start \<le> stop"
    "\<forall>i \<in> set ls. ci_start i < start \<longrightarrow> ci_end i \<le> stop"
  shows "canon (SortedDisjointIntervalList_InsertInterval ls start stop) \<and>
    dvals (SortedDisjointIntervalList_InsertInterval ls start stop) = dvals ls \<union> {start..stop}"
  using InsertInterval_spec[OF assms] by blast

theorem InsertInterval_correct_witness:
  "dvals (SortedDisjointIntervalList_InsertInterval [Interval 0 3, Interval 7 9] 2 7) =
    dvals [Interval 0 3, Interval 7 9] \<union> {2..7}"
  using InsertInterval_correct[of "[Interval 0 3, Interval 7 9]" 2 7]
  by (simp add: canon_def interval_ok_def in_int64_def)

text \<open>The hypothesis of the previous property cannot be dropped: an interval strictly inside an element cuts
  the element off at its own end, so values that were in the list are lost.\<close>

theorem InsertInterval_truncates_contained:
  "SortedDisjointIntervalList_InsertInterval [Interval 0 10] 2 5 = [Interval 0 5] \<and>
   10 \<in> dvals [Interval 0 10] \<and>
   10 \<notin> dvals (SortedDisjointIntervalList_InsertInterval [Interval 0 10] 2 5)"
proof -
  have "SortedDisjointIntervalList_InsertInterval [Interval 0 10] 2 5 = [Interval 0 5]" by code_simp
  then show ?thesis by (simp add: ivals_def)
qed

text \<open>The complement up to the greatest int64 keeps that value although the list contains it.\<close>

lemma BuildComplement_keeps_greatest:
  "SortedDisjointIntervalList_BuildComplementOnInterval [Interval 0 kint64max] (- 5) kint64max =
    [Interval (- 5) (- 1), Interval kint64max kint64max]"
  by code_simp

end
