(* ===== verification/SatBase.thy ===== *)
theory SatBase
  imports Prelude
begin

text \<open>
  The literals and assignments of \<open>or-tools/ortools/sat/sat_base.h\<close>, and what a clause means under a valuation
  of the variables.  A literal is its index: twice the variable, plus one when negated.
\<close>

unbundle bit_operations_syntax

section \<open>Literals and assignments\<close>

type_synonym literal = nat

definition Literal_of_signed :: "int \<Rightarrow> literal option" where
  "Literal_of_signed signed_value =
     (if signed_value = 0 then None
      else if signed_value > 0 then Some (nat ((signed_value - 1) * 2))
      else Some (nat ((- signed_value - 1) * 2) XOR 1))"

definition SignedValue :: "literal \<Rightarrow> int" where
  "SignedValue l = (if l AND 1 \<noteq> 0 then - (int (l div 2) + 1) else int (l div 2) + 1)"

definition Variable :: "literal \<Rightarrow> nat" where "Variable l = l div 2"
definition Negated :: "literal \<Rightarrow> literal" where "Negated l = l XOR 1"

text \<open>\<open>VariablesAssignment\<close>: two bits per variable, indexed by the literals.\<close>

type_synonym variables_assignment = "bool list"

definition Assignment_LiteralIsTrue :: "variables_assignment \<Rightarrow> literal \<Rightarrow> bool" where
  "Assignment_LiteralIsTrue a l = a ! l"
definition Assignment_LiteralIsFalse :: "variables_assignment \<Rightarrow> literal \<Rightarrow> bool" where
  "Assignment_LiteralIsFalse a l = a ! Negated l"
definition Assignment_LiteralIsAssigned :: "variables_assignment \<Rightarrow> literal \<Rightarrow> bool" where
  "Assignment_LiteralIsAssigned a l \<longleftrightarrow> a ! l \<or> a ! Negated l"
definition AssignFromTrueLiteral :: "literal \<Rightarrow> variables_assignment \<Rightarrow> variables_assignment" where
  "AssignFromTrueLiteral l a = a[l := True]"
definition UnassignLiteral :: "literal \<Rightarrow> variables_assignment \<Rightarrow> variables_assignment" where
  "UnassignLiteral l a = a[l := False, Negated l := False]"

section \<open>Literals\<close>

lemma Negated_eq: "Negated l = (if even l then l + 1 else l - 1)"
  by (simp add: Negated_def xor_Suc_0_eq)

lemma Negated_Negated [simp]: "Negated (Negated l) = l"
  by (auto simp: Negated_eq)

lemma Negated_eq_iff [simp]: "Negated a = Negated b \<longleftrightarrow> a = b"
  by (metis Negated_Negated)

lemma Negated_neq [simp]: "Negated l \<noteq> l" "l \<noteq> Negated l"
  by (auto simp: Negated_eq elim!: oddE)

lemma Variable_Negated [simp]: "Variable (Negated l) = Variable l"
  by (auto simp: Variable_def Negated_eq elim!: evenE oddE)

lemma Variable_eq_iff: "Variable a = Variable b \<longleftrightarrow> a = b \<or> a = Negated b"
  by (auto simp: Variable_def Negated_eq elim!: evenE oddE)

lemma Negated_less [simp]: "Negated l < 2 * n \<longleftrightarrow> l < 2 * n"
  by (auto simp: Negated_eq) presburger+

lemma Variable_less: "Variable l < n \<longleftrightarrow> l < 2 * n"
  by (auto simp: Variable_def)

text \<open>The other watched literal, by exclusive or.\<close>

lemma xor_other [simp]: "(a::nat) XOR b XOR a = b" "(b::nat) XOR a XOR a = b"
  by (simp_all add: bit_eq_iff bit_xor_iff) auto

definition lit_true :: "(nat \<Rightarrow> bool) \<Rightarrow> literal \<Rightarrow> bool" where
  "lit_true v l \<longleftrightarrow> v (Variable l) = even l"

definition holds :: "(nat \<Rightarrow> bool) \<Rightarrow> literal list \<Rightarrow> bool" where
  "holds v c \<longleftrightarrow> (\<exists>l \<in> set c. lit_true v l)"

lemma lit_true_Negated [simp]: "lit_true v (Negated l) \<longleftrightarrow> \<not> lit_true v l"
  by (auto simp: lit_true_def) (auto simp: Negated_eq)

lemma lit_true_update: "lit_true (v(Variable p := even p)) l \<longleftrightarrow> (if Variable l = Variable p then l = p else lit_true v l)"
  by (auto simp: lit_true_def Variable_eq_iff) (auto simp: Negated_eq split: if_splits)

text \<open>An assignment and the literals that it makes true.\<close>

lemma Assignment_LiteralIsAssigned_iff: "Assignment_LiteralIsAssigned a l \<longleftrightarrow> Assignment_LiteralIsTrue a l \<or> Assignment_LiteralIsFalse a l"
  by (simp add: Assignment_LiteralIsAssigned_def Assignment_LiteralIsTrue_def Assignment_LiteralIsFalse_def)

lemma Assignment_LiteralIsFalse_Negated: "Assignment_LiteralIsFalse a l \<longleftrightarrow> Assignment_LiteralIsTrue a (Negated l)"
  by (simp add: Assignment_LiteralIsFalse_def Assignment_LiteralIsTrue_def)

lemma true_AssignFromTrueLiteral:
  "l < length a \<Longrightarrow> Assignment_LiteralIsTrue (AssignFromTrueLiteral l a) x \<longleftrightarrow> x = l \<or> Assignment_LiteralIsTrue a x"
  by (simp add: AssignFromTrueLiteral_def Assignment_LiteralIsTrue_def nth_list_update)

lemma length_assignment [simp]: "length (AssignFromTrueLiteral l a) = length a" "length (UnassignLiteral l a) = length a"
  by (simp_all add: AssignFromTrueLiteral_def UnassignLiteral_def)

lemma true_UnassignLiteral:
  "l < 2 * n \<Longrightarrow> length a = 2 * n \<Longrightarrow>
   Assignment_LiteralIsTrue (UnassignLiteral l a) x \<longleftrightarrow> Assignment_LiteralIsTrue a x \<and> Variable x \<noteq> Variable l"
  by (auto simp: UnassignLiteral_def Assignment_LiteralIsTrue_def nth_list_update Variable_eq_iff)

end
