(* ===== verification/DratChecker.thy ===== *)
theory DratChecker
  imports SatBase "HOL-Library.Monad_Syntax"
begin

text \<open>
  The checker of DRAT proofs of unsatisfiability, \<open>or-tools/ortools/sat/drat_checker.{h,cc}\<close>.

  Every clause keeps its slice of the
  array \<open>literals_\<close>.  An index that may be \<open>kNoClauseIndex\<close> or \<open>kNoLiteralIndex\<close> is an option, and so is
  \<open>deleted_index\<close>, whose \<open>kint32max\<close> stands for never.  A stack is a list with its top first.  The hash set
  \<open>clause_set_\<close> is the list of the indices in it.  The clock of \<open>Check\<close> is a predicate on the clause about to be
  checked.
\<close>

section \<open>The state\<close>

record drat_clause =
  cl_literals :: "literal list"
  rat_literal_index :: "literal option"
  num_copies :: int
  deleted_index :: "nat option"
  deleted_clauses :: "nat list"
  is_needed_for_proof :: bool
  tmp_is_needed_for_proof_step :: bool

definition Clause :: "literal list \<Rightarrow> drat_clause" where
  "Clause ls = \<lparr> cl_literals = ls, rat_literal_index = None, num_copies = 1, deleted_index = None,
     deleted_clauses = [], is_needed_for_proof = False, tmp_is_needed_for_proof_step = False \<rparr>"

definition IsDeleted :: "drat_clause \<Rightarrow> nat \<Rightarrow> bool" where
  "IsDeleted c i = (case deleted_index c of None \<Rightarrow> False | Some d \<Rightarrow> d \<le> i)"

record drat_checker =
  first_inferred_clause_index :: "nat option"
  clauses :: "drat_clause list"
  clause_set :: "nat list"
  num_variables :: nat
  assigned :: "literal list"
  assigned_values :: variables_assignment
  assignment_source :: "nat option list"
  high_priority_literals :: "(literal \<times> nat) list"
  low_priority_literals :: "(literal \<times> nat) list"
  watched_literals :: "nat list list"
  single_literal_clauses :: "nat list"
  unit_stack :: "nat list"
  tmp_assignment :: variables_assignment
  num_rat_checks :: nat

definition DratChecker_init :: drat_checker where
  "DratChecker_init = \<lparr> first_inferred_clause_index = None, clauses = [], clause_set = [], num_variables = 0,
     assigned = [], assigned_values = [], assignment_source = [], high_priority_literals = [],
     low_priority_literals = [], watched_literals = [], single_literal_clauses = [], unit_stack = [],
     tmp_assignment = [], num_rat_checks = 0 \<rparr>"

abbreviation clause_at :: "drat_checker \<Rightarrow> nat \<Rightarrow> drat_clause" where "clause_at st i \<equiv> clauses st ! i"
abbreviation literals_at :: "drat_checker \<Rightarrow> nat \<Rightarrow> literal list" where
  "literals_at st i \<equiv> cl_literals (clauses st ! i)"

definition update_clause :: "nat \<Rightarrow> (drat_clause \<Rightarrow> drat_clause) \<Rightarrow> drat_checker \<Rightarrow> drat_checker" where
  "update_clause i f st = st\<lparr> clauses := (clauses st)[i := f (clauses st ! i)] \<rparr>"

section \<open>Loading the problem and the proof\<close>

text \<open>The literals sorted and without duplicates; a clause with a literal and its negation is always true and
  not added.\<close>

definition MaybeAddClause :: "literal list \<Rightarrow> drat_checker \<Rightarrow> nat option \<times> drat_checker" where
  "MaybeAddClause clause st =
     (let ls = remdups_adj (sort clause)
      in if \<exists>i \<in> set [1..<length ls]. ls ! i = Negated (ls ! (i - 1)) then (None, st)
         else (Some (length (clauses st)),
               st\<lparr> clauses := clauses st @ [Clause ls],
                   num_variables := (if clause = [] then num_variables st
                                     else max (num_variables st) (Variable (last ls) + 1)) \<rparr>))"

definition RemoveLastClause :: "drat_checker \<Rightarrow> drat_checker" where
  "RemoveLastClause st = st\<lparr> clauses := butlast (clauses st) \<rparr>"

definition find_clause :: "nat \<Rightarrow> drat_checker \<Rightarrow> nat option" where
  "find_clause i st = List.find (\<lambda>j. literals_at st j = literals_at st i) (clause_set st)"

definition AddProblemClause :: "literal list \<Rightarrow> drat_checker \<Rightarrow> drat_checker" where
  "AddProblemClause clause st =
     (case MaybeAddClause clause st of
        (None, st1) \<Rightarrow> st1
      | (Some i, st1) \<Rightarrow>
          (case find_clause i st1 of
             Some j \<Rightarrow> RemoveLastClause (update_clause j (num_copies_update (\<lambda>n. n + 1)) st1)
           | None \<Rightarrow> st1\<lparr> clause_set := i # clause_set st1 \<rparr>))"

text \<open>\<open>None\<close> is a failed CHECK: a tautology, or a copy of an inferred clause with another RAT literal.\<close>

definition AddInferredClause :: "literal list \<Rightarrow> drat_checker \<Rightarrow> drat_checker option" where
  "AddInferredClause clause st =
     (case MaybeAddClause clause st of
        (None, st1) \<Rightarrow> None
      | (Some i, st1) \<Rightarrow>
          let first = (case first_inferred_clause_index st1 of None \<Rightarrow> i | Some f \<Rightarrow> f);
              st2 = st1\<lparr> first_inferred_clause_index := Some first \<rparr>
          in (case find_clause i st2 of
               Some j \<Rightarrow>
                 if j \<ge> first \<and> clause \<noteq> [] \<and> rat_literal_index (clause_at st2 j) \<noteq> Some (hd clause) then None
                 else Some (RemoveLastClause (update_clause j (num_copies_update (\<lambda>n. n + 1)) st2))
             | None \<Rightarrow>
                 Some (update_clause i
                   (rat_literal_index_update (\<lambda>_. if clause = [] then None else Some (hd clause)))
                   (st2\<lparr> clause_set := i # clause_set st2 \<rparr>))))"

definition DeleteClause :: "literal list \<Rightarrow> drat_checker \<Rightarrow> drat_checker" where
  "DeleteClause clause st =
     (case MaybeAddClause clause st of
        (None, st1) \<Rightarrow> st1
      | (Some i, st1) \<Rightarrow>
          RemoveLastClause
            (case find_clause i st1 of
               None \<Rightarrow> st1
             | Some j \<Rightarrow>
                 let st2 = update_clause j (num_copies_update (\<lambda>n. n - 1)) st1
                 in if num_copies (clause_at st2 j) = 0 then
                      let st3 = update_clause j (deleted_index_update (\<lambda>_. Some (length (clauses st2) - 1))) st2;
                          st4 = (if length (cl_literals (last (clauses st3))) \<ge> 2
                                 then update_clause (length (clauses st3) - 2)
                                        (deleted_clauses_update (\<lambda>d. d @ [j])) st3
                                 else st3)
                      in st4\<lparr> clause_set := remove1 j (clause_set st4) \<rparr>
                    else st2))"

section \<open>Unit propagation\<close>

definition WatchClause :: "nat \<Rightarrow> drat_checker \<Rightarrow> drat_checker" where
  "WatchClause i st =
     (let l0 = literals_at st i ! 0; l1 = literals_at st i ! 1;
          w = (watched_literals st)[l0 := watched_literals st ! l0 @ [i]]
      in st\<lparr> watched_literals := w[l1 := w ! l1 @ [i]] \<rparr>)"

definition Init :: "drat_checker \<Rightarrow> drat_checker" where
  "Init st =
     (let st1 = st\<lparr> assigned := [], assigned_values := replicate (2 * num_variables st) False,
            assignment_source := replicate (num_variables st) None, high_priority_literals := [],
            low_priority_literals := [], watched_literals := replicate (2 * num_variables st) [],
            single_literal_clauses := [], unit_stack := [],
            tmp_assignment := replicate (2 * num_variables st) False, num_rat_checks := 0 \<rparr>
      in foldl (\<lambda>st i.
           let c = clause_at st i
           in if length (cl_literals c) \<ge> 2 then (if deleted_index c = None then WatchClause i st else st)
              else if length (cl_literals c) = 1
                   then st\<lparr> single_literal_clauses := single_literal_clauses st @ [i] \<rparr>
              else st) st1 [0..<length (clauses st)])"

text \<open>A unit clause goes on the stack of its priority.\<close>

definition push_literal :: "literal \<Rightarrow> nat \<Rightarrow> drat_checker \<Rightarrow> drat_checker" where
  "push_literal l i st =
     (if is_needed_for_proof (clause_at st i)
      then st\<lparr> high_priority_literals := (l, i) # high_priority_literals st \<rparr>
      else st\<lparr> low_priority_literals := (l, i) # low_priority_literals st \<rparr>)"

text \<open>The first literal after the two watched ones that is not false.\<close>

definition find_watch :: "variables_assignment \<Rightarrow> literal list \<Rightarrow> nat option" where
  "find_watch a ls = List.find (\<lambda>i. \<not> Assignment_LiteralIsFalse a (ls ! i)) [2..<length ls]"

text \<open>The loop over the clauses that watch \<open>false_literal\<close>: those kept so far, and the conflict if there is
  one.\<close>

fun propagate_loop ::
  "nat \<Rightarrow> literal \<Rightarrow> nat list \<Rightarrow> nat list \<Rightarrow> nat option \<Rightarrow> drat_checker \<Rightarrow>
     nat list \<times> nat option \<times> drat_checker" where
  "propagate_loop num_clauses false_literal [] kept conflict st = (kept, conflict, st)"
| "propagate_loop num_clauses false_literal (i # is) kept conflict st =
     (if i \<ge> num_clauses then propagate_loop num_clauses false_literal is kept conflict st
      else if conflict \<noteq> None then propagate_loop num_clauses false_literal is (kept @ [i]) conflict st
      else let ls = literals_at st i; other = ls ! 0 XOR ls ! 1 XOR false_literal
      in if Assignment_LiteralIsTrue (assigned_values st) other
         then propagate_loop num_clauses false_literal is (kept @ [i]) conflict st
         else case find_watch (assigned_values st) ls of
           Some k \<Rightarrow>
             propagate_loop num_clauses false_literal is kept conflict
               (let st1 = update_clause i (cl_literals_update (\<lambda>_. ls[0 := other, 1 := ls ! k, k := false_literal])) st
                in st1\<lparr> watched_literals :=
                     (watched_literals st1)[ls ! k := watched_literals st1 ! (ls ! k) @ [i]] \<rparr>)
         | None \<Rightarrow>
             if Assignment_LiteralIsFalse (assigned_values st) other
             then propagate_loop num_clauses false_literal is (kept @ [i]) (Some i) st
             else propagate_loop num_clauses false_literal is (kept @ [i]) conflict (push_literal other i st))"

definition assign_literal :: "literal \<Rightarrow> nat option \<Rightarrow> drat_checker \<Rightarrow> drat_checker" where
  "assign_literal l source st =
     st\<lparr> assigned := assigned st @ [l], assigned_values := AssignFromTrueLiteral l (assigned_values st),
         assignment_source := (assignment_source st)[Variable l := source] \<rparr>"

definition AssignAndPropagate ::
  "nat \<Rightarrow> literal \<Rightarrow> nat option \<Rightarrow> drat_checker \<Rightarrow> nat option \<times> drat_checker" where
  "AssignAndPropagate num_clauses l source st =
     (let st1 = assign_literal l source st;
          false_literal = Negated l;
          (kept, conflict, st2) =
            propagate_loop num_clauses false_literal (watched_literals st1 ! false_literal) [] None st1
      in (conflict, st2\<lparr> watched_literals := (watched_literals st2)[false_literal := kept] \<rparr>))"

section \<open>Marking the clauses of a conflict\<close>

definition mark_clause_and_sources :: "nat \<Rightarrow> drat_checker \<Rightarrow> drat_checker" where
  "mark_clause_and_sources i st =
     foldl (\<lambda>st l. case assignment_source st ! Variable l of
                    None \<Rightarrow> st
                  | Some j \<Rightarrow> update_clause j (tmp_is_needed_for_proof_step_update (\<lambda>_. True)) st)
       (update_clause i (is_needed_for_proof_update (\<lambda>_. True)) st) (literals_at st i)"

fun mark_units :: "nat list \<Rightarrow> drat_checker \<Rightarrow> drat_checker" where
  "mark_units [] st = st"
| "mark_units (u # us) st =
     mark_units us
       (if tmp_is_needed_for_proof_step (clause_at st u)
        then update_clause u (tmp_is_needed_for_proof_step_update (\<lambda>_. False)) (mark_clause_and_sources u st)
        else st)"

definition MarkAsNeededForProof :: "nat \<Rightarrow> drat_checker \<Rightarrow> drat_checker" where
  "MarkAsNeededForProof i st = mark_units (unit_stack st) (mark_clause_and_sources i st)"

section \<open>The RUP and RAT checks\<close>

fun falsify_literals :: "nat \<Rightarrow> literal list \<Rightarrow> drat_checker \<Rightarrow> nat option \<times> drat_checker" where
  "falsify_literals num_clauses [] st = (None, st)"
| "falsify_literals num_clauses (l # ls) st =
     (case AssignAndPropagate num_clauses (Negated l) None st of
        (Some i, st1) \<Rightarrow> (Some i, st1)
      | (None, st1) \<Rightarrow> falsify_literals num_clauses ls st1)"

definition push_single :: "nat \<Rightarrow> drat_checker \<Rightarrow> nat \<Rightarrow> drat_checker" where
  "push_single num_clauses st i =
     (if i < num_clauses \<and> \<not> IsDeleted (clause_at st i) num_clauses
      then push_literal (literals_at st i ! 0) i st else st)"

text \<open>The next literal to assign, from the stack of high priority when it is not empty.\<close>

definition pop_literal :: "drat_checker \<Rightarrow> ((literal \<times> nat) \<times> drat_checker) option" where
  "pop_literal st =
     (case high_priority_literals st of
        p # ps \<Rightarrow> Some (p, st\<lparr> high_priority_literals := ps \<rparr>)
      | [] \<Rightarrow> (case low_priority_literals st of
          p # ps \<Rightarrow> Some (p, st\<lparr> low_priority_literals := ps \<rparr>)
        | [] \<Rightarrow> None))"

partial_function (option) unit_loop ::
  "nat \<Rightarrow> nat option \<Rightarrow> drat_checker \<Rightarrow> (nat option \<times> drat_checker) option" where
  "unit_loop num_clauses conflict st =
     (case pop_literal st of
        None \<Rightarrow> Some (conflict, st)
      | Some ((l, i), st1) \<Rightarrow>
          if conflict \<noteq> None then Some (conflict, st)
          else if Assignment_LiteralIsAssigned (assigned_values st1) l then
            (if Assignment_LiteralIsFalse (assigned_values st1) l then Some (Some i, st1)
             else unit_loop num_clauses conflict st1)
          else let (conflict', st2) = AssignAndPropagate num_clauses l (Some i) (st1\<lparr> unit_stack := i # unit_stack st1 \<rparr>)
               in unit_loop num_clauses conflict' st2)"

declare unit_loop.simps [code]

definition unassign_all :: "drat_checker \<Rightarrow> drat_checker" where
  "unassign_all st =
     st\<lparr> assigned_values := foldl (\<lambda>a l. UnassignLiteral l a) (assigned_values st) (assigned st), assigned := [],
         high_priority_literals := [], low_priority_literals := [], unit_stack := [] \<rparr>"

definition HasRupProperty :: "nat \<Rightarrow> literal list \<Rightarrow> drat_checker \<Rightarrow> (bool \<times> drat_checker) option" where
  "HasRupProperty num_clauses clause st =
     (let (conflict, st1) = falsify_literals num_clauses clause st;
          st2 = foldl (push_single num_clauses) st1 (single_literal_clauses st1)
      in do {
        (conflict, st3) \<leftarrow> unit_loop num_clauses conflict st2;
        Some (conflict \<noteq> None,
              unassign_all (case conflict of None \<Rightarrow> st3 | Some i \<Rightarrow> MarkAsNeededForProof i st3)) })"

fun resolve_loop :: "literal \<Rightarrow> variables_assignment \<Rightarrow> literal list \<Rightarrow> literal list \<Rightarrow> literal list option" where
  "resolve_loop complementary a [] resolvent = Some resolvent"
| "resolve_loop complementary a (l # ls) resolvent =
     (if l \<noteq> Negated complementary then
        if Assignment_LiteralIsFalse a l then None
        else resolve_loop complementary a ls (if Assignment_LiteralIsAssigned a l then resolvent else resolvent @ [l])
      else resolve_loop complementary a ls resolvent)"

text \<open>The resolvent, or \<open>None\<close> when it is a tautology.  The temporary assignment is undone on return.\<close>

definition Resolve :: "literal list \<Rightarrow> literal list \<Rightarrow> literal \<Rightarrow> variables_assignment \<Rightarrow> literal list option \<times> variables_assignment" where
  "Resolve clause other_clause complementary a =
     (let rest = filter (\<lambda>l. l \<noteq> complementary) clause;
          a1 = foldl (\<lambda>a l. AssignFromTrueLiteral l a) a rest
      in (resolve_loop complementary a1 other_clause rest, foldl (\<lambda>a l. UnassignLiteral l a) a1 rest))"

fun rat_loop :: "nat \<Rightarrow> literal \<Rightarrow> nat list \<Rightarrow> drat_checker \<Rightarrow> (bool \<times> drat_checker) option" where
  "rat_loop i pivot [] st = Some (True, st)"
| "rat_loop i pivot (j # js) st =
     (if \<not> IsDeleted (clause_at st j) i \<and> Negated pivot \<in> set (literals_at st j) then
        let (resolvent, a) = Resolve (literals_at st i) (literals_at st j) pivot (tmp_assignment st);
            st1 = st\<lparr> tmp_assignment := a \<rparr>
        in case resolvent of
             None \<Rightarrow> Some (False, st1)
           | Some r \<Rightarrow> do {
               (rup, st2) \<leftarrow> HasRupProperty i r st1;
               if rup then rat_loop i pivot js st2 else Some (False, st2) }
      else rat_loop i pivot js st)"

section \<open>The check of a proof\<close>

datatype drat_status = UNKNOWN | VALID | INVALID

fun check_loop :: "(nat \<Rightarrow> bool) \<Rightarrow> nat list \<Rightarrow> drat_checker \<Rightarrow> (drat_status \<times> drat_checker) option" where
  "check_loop limit_reached [] st = Some (VALID, st)"
| "check_loop limit_reached (i # is) st =
     (if limit_reached i then Some (UNKNOWN, st)
      else let st1 = foldl (\<lambda>st j. WatchClause j st) st (deleted_clauses (clause_at st i))
      in if \<not> is_needed_for_proof (clause_at st1 i) then check_loop limit_reached is st1
         else do {
           (rup, st2) \<leftarrow> HasRupProperty i (literals_at st1 i) st1;
           if rup then check_loop limit_reached is st2
           else case rat_literal_index (clause_at st2 i) of
                  None \<Rightarrow> Some (INVALID, st2)
                | Some pivot \<Rightarrow> do {
                    (rat, st3) \<leftarrow> rat_loop i pivot [0..<i] (st2\<lparr> num_rat_checks := num_rat_checks st2 + 1 \<rparr>);
                    if rat then check_loop limit_reached is st3 else Some (INVALID, st3) } })"

definition Check :: "(nat \<Rightarrow> bool) \<Rightarrow> drat_checker \<Rightarrow> (drat_status \<times> drat_checker) option" where
  "Check limit_reached st =
     (case first_inferred_clause_index st of
        None \<Rightarrow> Some (INVALID, st)
      | Some first \<Rightarrow>
          if clauses st = [] \<or> cl_literals (last (clauses st)) \<noteq> [] then Some (INVALID, st)
          else check_loop limit_reached (rev [first..<length (clauses st)])
                 (Init (update_clause (length (clauses st) - 1) (is_needed_for_proof_update (\<lambda>_. True)) st)))"

text \<open>The needed clauses, with the RAT literal moved to the front.\<close>

definition needed_literals :: "drat_clause \<Rightarrow> literal list" where
  "needed_literals c =
     (case rat_literal_index c of
        None \<Rightarrow> cl_literals c
      | Some l \<Rightarrow>
          let ls = cl_literals c; k = length (takeWhile (\<lambda>x. x \<noteq> l) ls)
          in ls[0 := ls ! k, k := ls ! 0])"

definition GetClausesNeededForProof :: "nat \<Rightarrow> nat \<Rightarrow> drat_checker \<Rightarrow> literal list list" where
  "GetClausesNeededForProof b e st =
     map needed_literals (filter is_needed_for_proof (map (\<lambda>i. clause_at st i) [b..<e]))"

definition GetUnsatSubProblem :: "drat_checker \<Rightarrow> literal list list" where
  "GetUnsatSubProblem st =
     (case first_inferred_clause_index st of None \<Rightarrow> [] | Some first \<Rightarrow> GetClausesNeededForProof 0 first st)"

definition GetOptimizedProof :: "drat_checker \<Rightarrow> literal list list" where
  "GetOptimizedProof st =
     (case first_inferred_clause_index st of None \<Rightarrow> []
      | Some first \<Rightarrow> GetClausesNeededForProof first (length (clauses st)) st)"

section \<open>A whole run\<close>

text \<open>The lines of a proof: an inferred clause, or a deleted one.\<close>

datatype proof_line = Infer "literal list" | Delete "literal list"

fun add_line :: "drat_checker \<Rightarrow> proof_line \<Rightarrow> drat_checker option" where
  "add_line st (Infer c) = AddInferredClause c st"
| "add_line st (Delete c) = Some (DeleteClause c st)"

fun add_lines :: "proof_line list \<Rightarrow> drat_checker \<Rightarrow> drat_checker option" where
  "add_lines [] st = Some st"
| "add_lines (l # ls) st = (case add_line st l of None \<Rightarrow> None | Some st1 \<Rightarrow> add_lines ls st1)"

definition load :: "literal list list \<Rightarrow> proof_line list \<Rightarrow> drat_checker option" where
  "load problem lines = add_lines lines (foldl (\<lambda>st c. AddProblemClause c st) DratChecker_init problem)"

end
