(* ===== verification/DratTrail.thy ===== *)
theory DratTrail
  imports DratChecker "HOL-Library.Multiset"
begin

text \<open>
  What unit propagation and the marking of the needed clauses
  guarantee: when a clause has the RUP property, the clauses marked for it imply it.
\<close>

section \<open>Well-formed states\<close>

text \<open>What the checker relies on: clauses without duplicate or complementary literals, arrays as long as the
  variables require, and watch lists that hold each clause once under its first two literals.\<close>

definition clause_ok :: "nat \<Rightarrow> literal list \<Rightarrow> bool" where
  "clause_ok n ls \<longleftrightarrow> distinct ls \<and> (\<forall>l \<in> set ls. l < 2 * n \<and> Negated l \<notin> set ls)"

definition arrays_ok :: "drat_checker \<Rightarrow> bool" where
  "arrays_ok st \<longleftrightarrow> length (assigned_values st) = 2 * num_variables st \<and>
     length (assignment_source st) = num_variables st \<and> length (watched_literals st) = 2 * num_variables st \<and>
     (\<forall>c \<in> set (clauses st). clause_ok (num_variables st) (cl_literals c)) \<and>
     (\<forall>i \<in> set (single_literal_clauses st). i < length (clauses st) \<and> length (literals_at st i) = 1)"

definition watches :: "drat_checker \<Rightarrow> nat \<Rightarrow> nat list \<Rightarrow> literal \<Rightarrow> bool" where
  "watches st n w l \<longleftrightarrow> distinct w \<and>
     (\<forall>i \<in> set w. i < length (clauses st) \<and> 2 \<le> length (literals_at st i) \<and> l \<in> set (take 2 (literals_at st i)) \<and>
       (i < n \<longrightarrow> \<not> IsDeleted (clause_at st i) n))"

text \<open>A clause that a check at \<open>n\<close> may use.\<close>

definition active :: "drat_checker \<Rightarrow> nat \<Rightarrow> nat \<Rightarrow> bool" where
  "active st n i \<longleftrightarrow> i < n \<and> i < length (clauses st) \<and> \<not> IsDeleted (clause_at st i) n"

text \<open>The parts that propagation leaves alone.  The literals of a clause are only permuted.\<close>

definition reordered :: "drat_checker \<Rightarrow> drat_checker \<Rightarrow> bool" where
  "reordered st st' \<longleftrightarrow>
     (num_variables st', assigned st', assigned_values st', assignment_source st', single_literal_clauses st',
      unit_stack st', tmp_assignment st', first_inferred_clause_index st') =
     (num_variables st, assigned st, assigned_values st, assignment_source st, single_literal_clauses st,
      unit_stack st, tmp_assignment st, first_inferred_clause_index st) \<and>
     length (clauses st') = length (clauses st) \<and>
     (\<forall>i < length (clauses st). mset (literals_at st' i) = mset (literals_at st i) \<and>
        (clause_at st' i)\<lparr> cl_literals := [] \<rparr> = (clause_at st i)\<lparr> cl_literals := [] \<rparr>)"

lemma reordered_refl [simp, intro]: "reordered st st"
  by (simp add: reordered_def)

lemma reordered_trans [trans]: "reordered a b \<Longrightarrow> reordered b c \<Longrightarrow> reordered a c"
  by (simp add: reordered_def)

lemma reordered_same:
  assumes "reordered st st'"
  shows "num_variables st' = num_variables st" "assigned st' = assigned st" "assigned_values st' = assigned_values st"
    "assignment_source st' = assignment_source st" "single_literal_clauses st' = single_literal_clauses st"
    "unit_stack st' = unit_stack st" "tmp_assignment st' = tmp_assignment st"
    "first_inferred_clause_index st' = first_inferred_clause_index st" "length (clauses st') = length (clauses st)"
  using assms by (simp_all add: reordered_def)

lemma reordered_clause:
  assumes "reordered st st'" "i < length (clauses st)"
  shows "mset (literals_at st' i) = mset (literals_at st i)" "set (literals_at st' i) = set (literals_at st i)"
    "length (literals_at st' i) = length (literals_at st i)"
    "deleted_index (clause_at st' i) = deleted_index (clause_at st i)"
    "is_needed_for_proof (clause_at st' i) = is_needed_for_proof (clause_at st i)"
    "rat_literal_index (clause_at st' i) = rat_literal_index (clause_at st i)"
    "deleted_clauses (clause_at st' i) = deleted_clauses (clause_at st i)"
    "IsDeleted (clause_at st' i) n = IsDeleted (clause_at st i) n"
proof -
  from assms show m: "mset (literals_at st' i) = mset (literals_at st i)" by (simp add: reordered_def)
  then show "set (literals_at st' i) = set (literals_at st i)" "length (literals_at st' i) = length (literals_at st i)"
    by (metis set_mset_mset) (metis m size_mset)
  have "(clause_at st' i)\<lparr> cl_literals := [] \<rparr> = (clause_at st i)\<lparr> cl_literals := [] \<rparr>"
    using assms by (simp add: reordered_def)
  then show "deleted_index (clause_at st' i) = deleted_index (clause_at st i)"
    "is_needed_for_proof (clause_at st' i) = is_needed_for_proof (clause_at st i)"
    "rat_literal_index (clause_at st' i) = rat_literal_index (clause_at st i)"
    "deleted_clauses (clause_at st' i) = deleted_clauses (clause_at st i)"
    by (cases "clause_at st i"; cases "clause_at st' i"; simp)+
  then show "IsDeleted (clause_at st' i) n = IsDeleted (clause_at st i) n" by (simp add: IsDeleted_def)
qed

lemma active_reordered: "reordered st st' \<Longrightarrow> active st' n i = active st n i"
  using reordered_clause(8)[of st st' i n] by (auto simp: active_def reordered_same)

lemma mset_clause_ok: "mset ls' = mset ls \<Longrightarrow> clause_ok n ls' = clause_ok n ls"
  unfolding clause_ok_def by (metis distinct_count_atmost_1 set_mset_mset)

section \<open>The loop over a watch list\<close>

lemma mset_new_watch:
  fixes ls :: "literal list"
  assumes "2 \<le> k" "k < length ls" "f \<in> set (take 2 ls)" "other = ls ! 0 XOR ls ! 1 XOR f"
  shows "mset (ls[0 := other, 1 := ls ! k, k := f]) = mset ls"
    and "set (take 2 (ls[0 := other, 1 := ls ! k, k := f])) = {other, ls ! k}"
    and "other \<in> set (take 2 ls)" "set (take 2 ls) = {f, other}"
proof -
  obtain a b r where ls: "ls = a # b # r" using assms(1,2) by (cases ls; cases "tl ls") auto
  obtain m where k: "k = Suc (Suc m)" "m < length r" using assms(1,2) ls by (cases k; cases "k - 1") auto
  have *: "f = a \<and> other = b \<or> f = b \<and> other = a"
  proof -
    have "f = a \<or> f = b" using assms(3) ls by (auto simp: numeral_2_eq_2)
    moreover have "other = a XOR (b XOR f)" using assms(4) ls by simp
    ultimately show ?thesis by (elim disjE) simp_all
  qed
  have swap: "add_mset (r ! m) (mset (r[m := x])) = add_mset x (mset r)" for x
    using k(2) by (simp add: mset_update insert_DiffM)
  show "mset (ls[0 := other, 1 := ls ! k, k := f]) = mset ls"
    using * swap[of f] by (auto simp: ls k add_mset_commute)
  show "set (take 2 (ls[0 := other, 1 := ls ! k, k := f])) = {other, ls ! k}" "other \<in> set (take 2 ls)"
    "set (take 2 ls) = {f, other}"
    using * by (auto simp: ls k numeral_2_eq_2)
qed

lemma find_watch_Some:
  "find_watch a ls = Some k \<Longrightarrow> 2 \<le> k \<and> k < length ls \<and> \<not> Assignment_LiteralIsFalse a (ls ! k)"
  by (auto simp: find_watch_def find_Some_iff) 

lemma find_watch_None:
  assumes "find_watch a ls = None" "l \<in> set ls" "l \<notin> set (take 2 ls)"
  shows "Assignment_LiteralIsFalse a l"
proof -
  obtain k where k: "k < length ls" "ls ! k = l" using assms(2) by (auto simp: in_set_conv_nth)
  moreover have "2 \<le> k"
  proof (rule ccontr)
    assume "\<not> 2 \<le> k"
    then have "l \<in> set (take 2 ls)" using k by (force simp: in_set_conv_nth)
    then show False using assms(3) by simp
  qed
  ultimately show ?thesis using assms(1) by (force simp: find_watch_def find_None_iff)
qed

text \<open>A literal on a stack is the only one of its clause that is not false; a conflict is a clause with false
  literals only.\<close>

definition unit_for :: "drat_checker \<Rightarrow> nat \<Rightarrow> literal \<Rightarrow> nat \<Rightarrow> bool" where
  "unit_for st n l i \<longleftrightarrow> active st n i \<and> l \<in> set (literals_at st i) \<and>
     (\<forall>x \<in> set (literals_at st i) - {l}. Assignment_LiteralIsFalse (assigned_values st) x)"

definition conflict_at :: "drat_checker \<Rightarrow> nat \<Rightarrow> nat \<Rightarrow> bool" where
  "conflict_at st n i \<longleftrightarrow> active st n i \<and> (\<forall>x \<in> set (literals_at st i). Assignment_LiteralIsFalse (assigned_values st) x)"

definition pending :: "drat_checker \<Rightarrow> (literal \<times> nat) list" where
  "pending st = high_priority_literals st @ low_priority_literals st"

definition pending_ok :: "drat_checker \<Rightarrow> nat \<Rightarrow> bool" where
  "pending_ok st n \<longleftrightarrow> (\<forall>(l, i) \<in> set (pending st). unit_for st n l i)"

lemma unit_for_reordered: "reordered st st' \<Longrightarrow> unit_for st' n l i = unit_for st n l i"
  using reordered_clause(2,8)[of st st' i] by (auto simp: unit_for_def active_def reordered_same)

lemma conflict_at_reordered: "reordered st st' \<Longrightarrow> conflict_at st' n i = conflict_at st n i"
  using reordered_clause(2,8)[of st st' i] by (auto simp: conflict_at_def active_def reordered_same)

lemma arrays_ok_reordered:
  assumes "arrays_ok st" "reordered st st'" "length (watched_literals st') = length (watched_literals st)"
  shows "arrays_ok st'"
proof -
  have "clause_ok (num_variables st') (cl_literals c)" if c: "c \<in> set (clauses st')" for c
  proof -
    obtain i where i: "i < length (clauses st)" "c = clause_at st' i"
      using c by (auto simp: in_set_conv_nth reordered_same(9)[OF assms(2)])
    then have "clause_ok (num_variables st) (literals_at st i)" using assms(1) by (simp add: arrays_ok_def)
    then show ?thesis
      using mset_clause_ok[OF reordered_clause(1)[OF assms(2) i(1)]] i(2) assms(2) by (simp add: reordered_same)
  qed
  then show ?thesis using assms by (simp add: arrays_ok_def reordered_same reordered_clause(3))
qed

lemma reordered_push: "reordered st (push_literal l i st)"
  by (simp add: push_literal_def reordered_def)

lemma watched_push [simp]: "watched_literals (push_literal l i st) = watched_literals st"
  by (simp add: push_literal_def)

lemma set_pending_push: "set (pending (push_literal l i st)) = insert (l, i) (set (pending st))"
  by (auto simp: pending_def push_literal_def)

lemma watches_reordered:
  assumes "watches st n w l" "reordered st st'"
    "\<And>i. i \<in> set w \<Longrightarrow> l \<in> set (take 2 (literals_at st i)) \<Longrightarrow> l \<in> set (take 2 (literals_at st' i))"
  shows "watches st' n w l"
  using assms reordered_clause(3,8)[OF assms(2)] by (auto simp: watches_def reordered_same)

lemma watches_subset: "watches st n w l \<Longrightarrow> distinct w' \<Longrightarrow> set w' \<subseteq> set w \<Longrightarrow> watches st n w' l"
  unfolding watches_def by blast

definition all_watches :: "drat_checker \<Rightarrow> nat \<Rightarrow> literal \<Rightarrow> bool" where
  "all_watches st n f \<longleftrightarrow>
     (\<forall>x < 2 * num_variables st. x \<noteq> f \<longrightarrow> watches st n (watched_literals st ! x) x)"

definition watch_instead :: "nat \<Rightarrow> literal \<Rightarrow> literal \<Rightarrow> nat \<Rightarrow> drat_checker \<Rightarrow> drat_checker" where
  "watch_instead i other f k st =
     (let ls = literals_at st i; st1 = update_clause i (cl_literals_update (\<lambda>_. ls[0 := other, 1 := ls ! k, k := f])) st
      in st1\<lparr> watched_literals := (watched_literals st1)[ls ! k := watched_literals st1 ! (ls ! k) @ [i]] \<rparr>)"

text \<open>A clause is fully watched when it is in the watch lists of both of its first two literals.  Propagation
  takes clauses from \<open>n\<close> on out of the lists and loses no other.\<close>

definition watched_in :: "(literal \<Rightarrow> nat list) \<Rightarrow> drat_checker \<Rightarrow> nat \<Rightarrow> bool" where
  "watched_in w st i \<longleftrightarrow> i < length (clauses st) \<and> 2 \<le> length (literals_at st i) \<and>
     i \<in> set (w (literals_at st i ! 0)) \<and> i \<in> set (w (literals_at st i ! 1))"

abbreviation fully_watched :: "drat_checker \<Rightarrow> nat \<Rightarrow> bool" where
  "fully_watched st \<equiv> watched_in ((!) (watched_literals st)) st"

text \<open>In the loop over the list of \<open>f\<close>, that list is what is kept and what is to come.\<close>

abbreviation watch_lists :: "drat_checker \<Rightarrow> literal \<Rightarrow> nat list \<Rightarrow> literal \<Rightarrow> nat list" where
  "watch_lists st f w \<equiv> ((!) (watched_literals st))(f := w)"

definition keeps_watched ::
  "nat \<Rightarrow> (literal \<Rightarrow> nat list) \<Rightarrow> drat_checker \<Rightarrow> (literal \<Rightarrow> nat list) \<Rightarrow> drat_checker \<Rightarrow> bool" where
  "keeps_watched n w st w' st' \<longleftrightarrow> (\<forall>i < n. watched_in w st i \<longrightarrow> watched_in w' st' i)"

abbreviation keeps_fully_watched :: "nat \<Rightarrow> drat_checker \<Rightarrow> drat_checker \<Rightarrow> bool" where
  "keeps_fully_watched n st st' \<equiv> keeps_watched n ((!) (watched_literals st)) st ((!) (watched_literals st')) st'"

lemma keeps_watched_refl [simp]: "keeps_watched n w st w st"
  by (simp add: keeps_watched_def)

lemma keeps_watched_trans [trans]:
  "keeps_watched n w st w1 st1 \<Longrightarrow> keeps_watched n w1 st1 w' st' \<Longrightarrow> keeps_watched n w st w' st'"
  by (simp add: keeps_watched_def)

lemma keeps_watched_same: "clauses st' = clauses st \<Longrightarrow> keeps_watched n w st w st'"
  by (simp add: keeps_watched_def watched_in_def)

lemma keeps_watched_drop: "n \<le> i \<Longrightarrow> keeps_watched n (w(f := kept @ i # is)) st (w(f := kept @ is)) st"
  by (auto simp: keeps_watched_def watched_in_def split: if_splits)

lemma watch_instead:
  assumes ok: "arrays_ok st" and f: "f < 2 * num_variables st" "Assignment_LiteralIsFalse (assigned_values st) f"
    and aw: "all_watches st n f" and wf: "watches st n (kept @ i # is) f"
    and other: "other = literals_at st i ! 0 XOR literals_at st i ! 1 XOR f"
    and k: "find_watch (assigned_values st) (literals_at st i) = Some k"
  defines "st' \<equiv> watch_instead i other f k st"
  shows "reordered st st'" "arrays_ok st'" "all_watches st' n f" "watches st' n (kept @ is) f" "pending st' = pending st"
    "length (watched_literals st') = length (watched_literals st)"
    "keeps_watched n (watch_lists st f (kept @ i # is)) st (watch_lists st' f (kept @ is)) st'"
proof -
  define ls where "ls = literals_at st i"
  have i: "i < length (clauses st)" "f \<in> set (take 2 ls)" "2 \<le> length ls" "i \<notin> set (kept @ is)"
    and ni: "i < n \<longrightarrow> \<not> IsDeleted (clause_at st i) n" using wf by (auto simp: watches_def ls_def)
  have k2: "2 \<le> k" "k < length ls" "\<not> Assignment_LiteralIsFalse (assigned_values st) (ls ! k)"
    using find_watch_Some[OF k] by (simp_all add: ls_def)
  note new = mset_new_watch[OF k2(1,2) i(2), of other, OF other[folded ls_def]]
  have lits: "literals_at st' j = (if j = i then ls[0 := other, 1 := ls ! k, k := f] else literals_at st j)" for j
    using i(1) by (simp add: st'_def watch_instead_def Let_def update_clause_def ls_def nth_list_update)
  have rest: "(clause_at st' j)\<lparr> cl_literals := [] \<rparr> = (clause_at st j)\<lparr> cl_literals := [] \<rparr>" for j
    using i(1) by (simp add: st'_def watch_instead_def Let_def update_clause_def nth_list_update)
  show re: "reordered st st'"
    unfolding reordered_def using lits rest new(1)
    by (auto simp: ls_def) (auto simp: st'_def watch_instead_def Let_def update_clause_def)
  show len: "length (watched_literals st') = length (watched_literals st)"
    by (simp add: st'_def watch_instead_def Let_def update_clause_def)
  show "arrays_ok st'" by (rule arrays_ok_reordered[OF ok re len])
  show "pending st' = pending st" by (simp add: st'_def watch_instead_def Let_def update_clause_def pending_def)
  have clause: "clause_ok (num_variables st) ls" using ok i(1) by (simp add: arrays_ok_def ls_def)
  have lk: "ls ! k < 2 * num_variables st" "ls ! k \<noteq> f" "ls ! k \<notin> set (take 2 ls)"
  proof -
    show "ls ! k < 2 * num_variables st" using clause k2(2) by (simp add: clause_ok_def)
    show "ls ! k \<noteq> f" using f(2) k2(3) by auto
    have "distinct ls" using clause by (simp add: clause_ok_def)
    then show "ls ! k \<notin> set (take 2 ls)" using k2(1,2) by (auto simp: in_set_conv_nth nth_eq_iff_index_eq)
  qed
  have keep: "watches st' n w x" if "watches st n w x" "x \<noteq> f" for w x
  proof (rule watches_reordered[OF that(1) re])
    fix j assume "x \<in> set (take 2 (literals_at st j))"
    then show "x \<in> set (take 2 (literals_at st' j))"
      using that(2) new(2,4) by (cases "j = i") (auto simp: lits ls_def)
  qed
  have watched: "watched_literals st' ! x =
      (if x = ls ! k then watched_literals st ! x @ [i] else watched_literals st ! x)" for x
    using lk(1) ok by (simp add: st'_def watch_instead_def Let_def update_clause_def ls_def arrays_ok_def nth_list_update)
  have "0 < length ls" "Suc 0 < length ls" using i(3) by linarith+
  then have first: "ls[0 := other, 1 := ls ! k, k := f] ! 0 = other" "ls[0 := other, 1 := ls ! k, k := f] ! Suc 0 = ls ! k"
    using k2(1) by simp_all
  have "other \<noteq> f"
  proof -
    have "distinct (take 2 ls)" using clause by (simp add: clause_ok_def distinct_take)
    then have "card (set (take 2 ls)) = 2" using i(3) by (simp add: distinct_card)
    then show ?thesis using new(4) by auto
  qed
  have two: "set (take 2 ls) = {ls ! 0, ls ! Suc 0}"
    using i(3) by (cases ls; cases "tl ls") (auto simp: numeral_2_eq_2)
  have old: "i \<in> set (watched_literals st ! other)" if "watched_in (watch_lists st f (kept @ i # is)) st i"
    using that \<open>other \<noteq> f\<close> new(3) two by (auto simp: watched_in_def ls_def[symmetric])
  show "keeps_watched n (watch_lists st f (kept @ i # is)) st (watch_lists st' f (kept @ is)) st'"
    unfolding keeps_watched_def
  proof (intro allI impI)
    fix j assume j: "watched_in (watch_lists st f (kept @ i # is)) st j"
    show "watched_in (watch_lists st' f (kept @ is)) st' j"
    proof (cases "j = i")
      case True
      then show ?thesis using old j i(1,3) first \<open>other \<noteq> f\<close> lk(2) reordered_same(9)[OF re]
        by (simp add: watched_in_def lits watched)
    next
      case False
      then show ?thesis using j reordered_same(9)[OF re] by (auto simp: watched_in_def lits watched split: if_splits)
    qed
  qed
  show "all_watches st' n f"
  proof -
    have "watches st' n (watched_literals st' ! x) x" if x: "x < 2 * num_variables st" "x \<noteq> f" for x
    proof -
      have old: "watches st n (watched_literals st ! x) x" using aw x by (simp add: all_watches_def)
      show ?thesis
      proof (cases "x = ls ! k")
        case True
        then have "i \<notin> set (watched_literals st ! x)" using old lk(3) by (auto simp: watches_def ls_def)
        moreover have "x \<in> set (take 2 (literals_at st' i))" using new(2) True by (simp add: lits)
        moreover have "2 \<le> length (literals_at st' i)" using i(3) by (simp add: lits)
        moreover have "i < n \<longrightarrow> \<not> IsDeleted (clause_at st' i) n" using ni reordered_clause(8)[OF re i(1)] by simp
        ultimately show ?thesis
          using keep[OF old x(2)] True i(1) reordered_same(9)[OF re] by (auto simp: watched watches_def)
      qed (use keep[OF old x(2)] watched in simp)
    qed
    then show ?thesis by (simp add: all_watches_def reordered_same[OF re])
  qed
  have "watches st n (kept @ is) f" by (rule watches_subset[OF wf]) (use wf in \<open>auto simp: watches_def\<close>)
  then show "watches st' n (kept @ is) f"
    by (rule watches_reordered[OF _ re]) (use i(4) in \<open>auto simp: lits\<close>)
qed

lemma pending_ok_reordered: "reordered st st' \<Longrightarrow> pending st' = pending st \<Longrightarrow> pending_ok st' n = pending_ok st n"
  by (simp add: pending_ok_def unit_for_reordered)

lemma propagate_loop_spec:
  assumes "propagate_loop n f is kept cf st = (kept', cf', st')"
    "arrays_ok st" "f < 2 * num_variables st" "Assignment_LiteralIsFalse (assigned_values st) f"
    "all_watches st n f" "watches st n (kept @ is) f" "pending_ok st n" "\<forall>i. cf = Some i \<longrightarrow> conflict_at st n i"
  shows "reordered st st' \<and> arrays_ok st' \<and> all_watches st' n f \<and> watches st' n kept' f \<and> pending_ok st' n \<and>
    (\<forall>i. cf' = Some i \<longrightarrow> conflict_at st' n i) \<and>
    keeps_watched n (watch_lists st f (kept @ is)) st (watch_lists st' f kept') st'"
  using assms
proof (induction "is" arbitrary: kept cf st)
  case Nil
  then show ?case by simp
next
  case (Cons i "is")
  have skip: "watches st n (kept @ is) f"
    by (rule watches_subset[OF Cons.prems(6)]) (use Cons.prems(6) in \<open>auto simp: watches_def\<close>)
  have keep: "watches st n ((kept @ [i]) @ is) f" using Cons.prems(6) by simp
  note same = Cons.prems(2-5)
  define ls where "ls = literals_at st i"
  define other where "other = ls ! 0 XOR ls ! 1 XOR f"
  have i: "i < length (clauses st)" "f \<in> set (take 2 ls)" "2 \<le> length ls" "i < n \<Longrightarrow> active st n i"
    using Cons.prems(6) by (auto simp: watches_def ls_def active_def)
  have other_mem: "other \<in> set (take 2 ls)" "set (take 2 ls) = {f, other}"
  proof -
    obtain a b r where "ls = a # b # r" using i(3) by (cases ls; cases "tl ls") auto
    then show "other \<in> set (take 2 ls)" "set (take 2 ls) = {f, other}"
      using i(2) by (auto simp: other_def numeral_2_eq_2)
  qed
  consider (old) "i \<ge> n" | (conflict) "i < n" "cf \<noteq> None"
    | (true) "i < n" "cf = None" "Assignment_LiteralIsTrue (assigned_values st) other"
    | (new) k where "i < n" "cf = None" "\<not> Assignment_LiteralIsTrue (assigned_values st) other"
        "find_watch (assigned_values st) ls = Some k"
    | (falsified) "i < n" "cf = None" "\<not> Assignment_LiteralIsTrue (assigned_values st) other"
        "find_watch (assigned_values st) ls = None" "Assignment_LiteralIsFalse (assigned_values st) other"
    | (unit) "i < n" "cf = None" "\<not> Assignment_LiteralIsTrue (assigned_values st) other"
        "find_watch (assigned_values st) ls = None" "\<not> Assignment_LiteralIsFalse (assigned_values st) other"
    by (cases "find_watch (assigned_values st) ls") fastforce+
  then show ?case
  proof cases
    case old
    then have "propagate_loop n f is kept cf st = (kept', cf', st')" using Cons.prems(1) by simp
    from Cons.IH[OF this same skip Cons.prems(7,8)] show ?thesis using keeps_watched_trans[OF keeps_watched_drop[OF old]] by blast
  next
    case conflict
    then show ?thesis using Cons.IH[OF _ same keep Cons.prems(7,8)] Cons.prems(1) by simp
  next
    case true
    then show ?thesis using Cons.IH[OF _ same keep Cons.prems(7,8)] Cons.prems(1)
      by (simp add: Let_def ls_def other_def)
  next
    case new
    note w = watch_instead[OF same Cons.prems(6) other_def[unfolded ls_def] new(4)[unfolded ls_def]]
    have "propagate_loop n f is kept cf (watch_instead i other f k st) = (kept', cf', st')"
      using Cons.prems(1) new by (simp add: Let_def ls_def other_def watch_instead_def)
    then have "reordered (watch_instead i other f k st) st' \<and> arrays_ok st' \<and> all_watches st' n f \<and>
        watches st' n kept' f \<and> pending_ok st' n \<and> (\<forall>i. cf' = Some i \<longrightarrow> conflict_at st' n i) \<and>
        keeps_watched n (watch_lists (watch_instead i other f k st) f (kept @ is)) (watch_instead i other f k st)
          (watch_lists st' f kept') st'"
      using w(2-4) Cons.prems(3,4,7) pending_ok_reordered[OF w(1,5), of n]
      by (intro Cons.IH) (auto simp: new(2) reordered_same(1-3)[OF w(1)])
    then show ?thesis using reordered_trans[OF w(1)] keeps_watched_trans[OF w(7)] by blast
  next
    case falsified
    have "conflict_at st n i"
      unfolding conflict_at_def
    proof (intro conjI ballI)
      show "Assignment_LiteralIsFalse (assigned_values st) x" if "x \<in> set (literals_at st i)" for x
        using find_watch_None[OF falsified(4), of x] that falsified(5) Cons.prems(4) other_mem(2)
        by (cases "x \<in> set (take 2 ls)") (auto simp: ls_def)
    qed (use i falsified in simp)
    then have c: "\<forall>j. Some i = Some j \<longrightarrow> conflict_at st n j" by simp
    have "propagate_loop n f is (kept @ [i]) (Some i) st = (kept', cf', st')"
      using Cons.prems(1) falsified by (simp add: Let_def ls_def other_def)
    from Cons.IH[OF this same keep Cons.prems(7) c] show ?thesis by simp
  next
    case unit
    have "unit_for st n other i"
      unfolding unit_for_def
    proof (intro conjI ballI)
      show "Assignment_LiteralIsFalse (assigned_values st) x" if "x \<in> set (literals_at st i) - {other}" for x
        using find_watch_None[OF unit(4), of x] that Cons.prems(4) other_mem(2)
        by (cases "x \<in> set (take 2 ls)") (auto simp: ls_def)
      show "other \<in> set (literals_at st i)" using other_mem(1) by (auto simp: ls_def dest: in_set_takeD)
    qed (use i unit in simp)
    then have p: "pending_ok (push_literal other i st) n"
      using Cons.prems(7) by (auto simp: pending_ok_def set_pending_push unit_for_reordered[OF reordered_push])
    note re = reordered_push[of st other i]
    have "watches (push_literal other i st) n w x = watches st n w x" for w x
      by (simp add: watches_def push_literal_def)
    then have "all_watches (push_literal other i st) n f" "watches (push_literal other i st) n ((kept @ [i]) @ is) f"
      using Cons.prems(5) keep by (simp_all add: all_watches_def reordered_same[OF re])
    moreover have "arrays_ok (push_literal other i st)" by (rule arrays_ok_reordered[OF Cons.prems(2) re]) simp
    moreover have "propagate_loop n f is (kept @ [i]) cf (push_literal other i st) = (kept', cf', st')"
      using Cons.prems(1) unit by (simp add: Let_def ls_def other_def)
    ultimately have "reordered (push_literal other i st) st' \<and> arrays_ok st' \<and> all_watches st' n f \<and>
        watches st' n kept' f \<and> pending_ok st' n \<and> (\<forall>i. cf' = Some i \<longrightarrow> conflict_at st' n i) \<and>
        keeps_watched n (watch_lists (push_literal other i st) f ((kept @ [i]) @ is)) (push_literal other i st)
          (watch_lists st' f kept') st'"
      using Cons.prems(3,4) p
      by (intro Cons.IH) (auto simp: unit(2) reordered_same[OF re])
    moreover have "keeps_watched n (watch_lists st f (kept @ i # is)) st
        (watch_lists (push_literal other i st) f ((kept @ [i]) @ is)) (push_literal other i st)"
      by (simp add: keeps_watched_same push_literal_def)
    ultimately show ?thesis using reordered_trans[OF re] keeps_watched_trans by blast
  qed
qed

section \<open>The trail\<close>

text \<open>How the assigned literals, the latest first, and the stack of unit clauses came about: a literal is the
  negation of one of the clause that is checked, or the only literal of its source that is not false.\<close>

inductive trail ::
  "(nat \<Rightarrow> bool) \<Rightarrow> (nat \<Rightarrow> literal set) \<Rightarrow> (nat \<Rightarrow> nat option) \<Rightarrow> literal set \<Rightarrow> literal list \<Rightarrow> nat list \<Rightarrow> bool"
  for act cl src C where
  trail_Nil: "trail act cl src C [] []"
| trail_falsified: "trail act cl src C as us \<Longrightarrow> Negated l \<in> C \<Longrightarrow> src (Variable l) = None \<Longrightarrow>
    Variable l \<notin> Variable ` set as \<Longrightarrow> trail act cl src C (l # as) us"
| trail_unit: "trail act cl src C as us \<Longrightarrow> src (Variable l) = Some i \<Longrightarrow> act i \<Longrightarrow> l \<in> cl i \<Longrightarrow>
    \<forall>x \<in> cl i - {l}. Negated x \<in> set as \<Longrightarrow> Variable l \<notin> Variable ` set as \<Longrightarrow> trail act cl src C (l # as) (i # us)"

inductive_cases trail_ConsE: "trail act cl src C (l # as) us"

lemma trail_cong:
  assumes "trail act cl src C as us" "\<And>i. act i \<Longrightarrow> act' i \<and> cl' i = cl i"
    "\<And>l. l \<in> set as \<Longrightarrow> src' (Variable l) = src (Variable l)"
  shows "trail act' cl' src' C as us"
  using assms
proof (induction rule: trail.induct)
  case (trail_falsified as us l)
  then show ?case by (intro trail.trail_falsified) simp_all
next
  case (trail_unit as us l i)
  then show ?case by (intro trail.trail_unit) simp_all
qed (rule trail.trail_Nil)

lemma trail_consistent: "trail act cl src C as us \<Longrightarrow> l \<in> set as \<Longrightarrow> Negated l \<notin> set as"
proof (induction arbitrary: l rule: trail.induct)
  case (trail_falsified as us a)
  then have "\<forall>x \<in> set as. Variable x \<noteq> Variable a" by (metis imageI)
  then show ?case using trail_falsified.IH trail_falsified.prems by (auto simp: Variable_eq_iff)
next
  case (trail_unit as us a i)
  then have "\<forall>x \<in> set as. Variable x \<noteq> Variable a" by (metis imageI)
  then show ?case using trail_unit.IH trail_unit.prems by (auto simp: Variable_eq_iff)
qed simp

definition trail_of :: "drat_checker \<Rightarrow> nat \<Rightarrow> literal list \<Rightarrow> bool" where
  "trail_of st n C \<longleftrightarrow>
     trail (active st n) (\<lambda>i. set (literals_at st i)) (\<lambda>v. assignment_source st ! v) (set C)
       (rev (assigned st)) (unit_stack st) \<and>
     (\<forall>l \<in> set (assigned st). l < 2 * num_variables st) \<and>
     (\<forall>l < 2 * num_variables st. Assignment_LiteralIsTrue (assigned_values st) l \<longleftrightarrow> l \<in> set (assigned st))"

lemma trail_of_reordered:
  assumes "trail_of st n C" "reordered st st'"
  shows "trail_of st' n C"
proof -
  have "trail (active st' n) (\<lambda>i. set (literals_at st' i)) (\<lambda>v. assignment_source st' ! v) (set C)
    (rev (assigned st)) (unit_stack st)"
    using assms(1) unfolding trail_of_def
    by (elim conjE, elim trail_cong)
      (use reordered_clause(2,8)[OF assms(2)] in \<open>auto simp: reordered_same[OF assms(2)] active_def\<close>)
  then show ?thesis using assms by (simp add: trail_of_def reordered_same)
qed

text \<open>The state while a clause is checked.\<close>

definition rup_inv :: "drat_checker \<Rightarrow> nat \<Rightarrow> literal list \<Rightarrow> bool" where
  "rup_inv st n C \<longleftrightarrow> arrays_ok st \<and> all_watches st n (2 * num_variables st) \<and> pending_ok st n \<and> trail_of st n C"

lemma assign_literal_simps [simp]:
  "clauses (assign_literal l s st) = clauses st" "num_variables (assign_literal l s st) = num_variables st"
  "watched_literals (assign_literal l s st) = watched_literals st" "pending (assign_literal l s st) = pending st"
  "assigned (assign_literal l s st) = assigned st @ [l]" "unit_stack (assign_literal l s st) = unit_stack st"
  "assignment_source (assign_literal l s st) = (assignment_source st)[Variable l := s]"
  "assigned_values (assign_literal l s st) = AssignFromTrueLiteral l (assigned_values st)"
  "single_literal_clauses (assign_literal l s st) = single_literal_clauses st"
  by (simp_all add: assign_literal_def pending_def)

lemma false_after_assign:
  "l < length a \<Longrightarrow> Assignment_LiteralIsFalse (AssignFromTrueLiteral l a) x \<longleftrightarrow>
    x = Negated l \<or> Assignment_LiteralIsFalse a x"
  by (metis Assignment_LiteralIsFalse_Negated Negated_Negated true_AssignFromTrueLiteral)

lemma AssignAndPropagate_spec:
  assumes "AssignAndPropagate n l s st = (cf, st')" "arrays_ok st" "all_watches st n (2 * num_variables st)"
    "pending_ok st n" "l < 2 * num_variables st"
  shows "reordered (assign_literal l s st) st' \<and> arrays_ok st' \<and> all_watches st' n (2 * num_variables st') \<and>
    pending_ok st' n \<and> (\<forall>i. cf = Some i \<longrightarrow> conflict_at st' n i) \<and> keeps_fully_watched n st st'"
proof -
  define st1 where "st1 = assign_literal l s st"
  define f where "f = Negated l"
  obtain kept st2 where loop: "propagate_loop n f (watched_literals st1 ! f) [] None st1 = (kept, cf, st2)"
    and st': "st' = st2\<lparr> watched_literals := (watched_literals st2)[f := kept] \<rparr>"
    using assms(1) by (auto simp: AssignAndPropagate_def Let_def st1_def f_def split: prod.splits)
  have len: "length (assigned_values st) = 2 * num_variables st" using assms(2) by (simp add: arrays_ok_def)
  have f: "f < 2 * num_variables st1" "Assignment_LiteralIsFalse (assigned_values st1) f"
    using assms(5) len by (simp_all add: f_def st1_def false_after_assign)
  have "arrays_ok st1" using assms(2) by (simp add: arrays_ok_def st1_def)
  moreover have w: "watches st1 n w x = watches st n w x" for w x by (simp add: watches_def st1_def)
  then have "all_watches st1 n f" "watches st1 n ([] @ watched_literals st1 ! f) f"
    using assms(3) f(1) by (simp_all add: all_watches_def st1_def f_def)
  moreover have "pending_ok st1 n"
    using assms(4,5) len unfolding pending_ok_def unit_for_def
    by (fastforce simp: st1_def active_def false_after_assign)
  ultimately have res: "reordered st1 st2" "arrays_ok st2" "all_watches st2 n f" "watches st2 n kept f"
    "pending_ok st2 n" "\<forall>i. cf = Some i \<longrightarrow> conflict_at st2 n i"
    "keeps_watched n (watch_lists st1 f (watched_literals st1 ! f)) st1 (watch_lists st2 f kept) st2"
    using propagate_loop_spec[OF loop _ f] by auto
  have "keeps_watched n ((!) (watched_literals st)) st (watch_lists st1 f (watched_literals st1 ! f)) st1"
    by (simp add: st1_def keeps_watched_same)
  also have "keeps_watched n (watch_lists st1 f (watched_literals st1 ! f)) st1 (watch_lists st2 f kept) st2" by (rule res(7))
  also have "keeps_watched n (watch_lists st2 f kept) st2 ((!) (watched_literals st')) st'"
  proof -
    have "f < length (watched_literals st2)" using f(1) res(2) reordered_same(1)[OF res(1)] by (simp add: arrays_ok_def)
    then have "watch_lists st2 f kept = (!) (watched_literals st')" by (auto simp: st' nth_list_update)
    then show ?thesis using keeps_watched_same[of st' st2] by (simp add: st')
  qed
  finally have keeps: "keeps_fully_watched n st st'" .
  have re: "reordered st2 st'" by (simp add: st' reordered_def)
  have wl: "length (watched_literals st') = length (watched_literals st2)" by (simp add: st')
  have "watches st' n w x = watches st2 n w x" for w x by (simp add: watches_def st')
  then have "all_watches st' n (2 * num_variables st')"
    using res(2-4) f(1) reordered_same[OF res(1)]
    by (auto simp: all_watches_def st' nth_list_update arrays_ok_def)
  moreover have "pending_ok st' n" using pending_ok_reordered[OF re] res(5) by (simp add: st' pending_def)
  ultimately show ?thesis
    using res reordered_trans[OF res(1) re] arrays_ok_reordered[OF res(2) re wl] conflict_at_reordered[OF re] keeps
    by (simp add: st1_def)
qed

lemma not_assigned_iff:
  assumes "trail_of st n C" "arrays_ok st" "l < 2 * num_variables st"
  shows "\<not> Assignment_LiteralIsAssigned (assigned_values st) l \<longleftrightarrow> Variable l \<notin> Variable ` set (assigned st)"
  using assms unfolding Assignment_LiteralIsAssigned_iff Assignment_LiteralIsFalse_Negated
  by (auto simp: trail_of_def image_iff Variable_eq_iff)

lemma trail_of_assign:
  assumes "trail_of st n C" "arrays_ok st" "l < 2 * num_variables st" "Variable l \<notin> Variable ` set (assigned st)"
    "s = None \<Longrightarrow> Negated l \<in> set C \<and> us = unit_stack st"
    "\<And>i. s = Some i \<Longrightarrow> unit_for st n l i \<and> us = i # unit_stack st"
  shows "trail_of (assign_literal l s (st\<lparr> unit_stack := us \<rparr>)) n C"
proof -
  let ?src = "\<lambda>v. (assignment_source st)[Variable l := s] ! v"
  have src_old: "?src (Variable x) = assignment_source st ! Variable x" if "x \<in> set (assigned st)" for x
    using assms(4) that by (metis imageI nth_list_update_neq)
  have old: "trail (active st n) (\<lambda>i. set (literals_at st i)) ?src (set C) (rev (assigned st)) (unit_stack st)"
    using assms(1) unfolding trail_of_def
    by (elim conjE, elim trail_cong) (simp_all add: src_old)
  have src: "?src (Variable l) = s" using assms(2,3) Variable_less[of l] by (simp add: arrays_ok_def)
  have new: "trail (active st n) (\<lambda>i. set (literals_at st i)) ?src (set C) (l # rev (assigned st)) us"
  proof (cases s)
    case None
    then show ?thesis using trail_falsified[OF old] assms(4,5) src by simp
  next
    case (Some i)
    have "\<forall>x \<in> set (literals_at st i) - {l}. Negated x \<in> set (rev (assigned st))"
    proof
      fix x assume x: "x \<in> set (literals_at st i) - {l}"
      have "x < 2 * num_variables st"
        using x assms(2) assms(6)[OF Some] by (auto simp: arrays_ok_def clause_ok_def unit_for_def active_def)
      then have "Assignment_LiteralIsTrue (assigned_values st) (Negated x) \<longleftrightarrow> Negated x \<in> set (assigned st)"
        using assms(1) by (simp add: trail_of_def)
      then show "Negated x \<in> set (rev (assigned st))"
        using assms(6)[OF Some] x by (simp add: unit_for_def Assignment_LiteralIsFalse_Negated)
    qed
    then show ?thesis
      using trail_unit[OF old, of l i] assms(4) assms(6)[OF Some] src Some by (simp add: unit_for_def)
  qed
  have "active (st\<lparr> unit_stack := us \<rparr>) n = active st n" "active (assign_literal l s st') n = active st' n" for st'
    by (simp_all add: active_def fun_eq_iff)
  then show ?thesis
    using new assms(1-3) by (auto simp: trail_of_def true_AssignFromTrueLiteral arrays_ok_def)
qed

text \<open>The clauses and what does not change during a whole check of a clause.\<close>

definition same_problem :: "drat_checker \<Rightarrow> drat_checker \<Rightarrow> bool" where
  "same_problem st st' \<longleftrightarrow>
     (num_variables st', single_literal_clauses st', tmp_assignment st', first_inferred_clause_index st') =
     (num_variables st, single_literal_clauses st, tmp_assignment st, first_inferred_clause_index st) \<and>
     length (clauses st') = length (clauses st) \<and>
     (\<forall>i < length (clauses st). mset (literals_at st' i) = mset (literals_at st i) \<and>
        (clause_at st' i)\<lparr> cl_literals := [] \<rparr> = (clause_at st i)\<lparr> cl_literals := [] \<rparr>)"

lemma same_problem_refl [simp, intro]: "same_problem st st"
  by (simp add: same_problem_def)

lemma same_problem_trans [trans]: "same_problem a b \<Longrightarrow> same_problem b c \<Longrightarrow> same_problem a c"
  by (simp add: same_problem_def)

lemma same_problem_reordered: "reordered st st' \<Longrightarrow> same_problem st st'"
  by (simp add: reordered_def same_problem_def)

lemma same_problem_assign: "same_problem st (assign_literal l s (st\<lparr> unit_stack := us \<rparr>))"
  by (simp add: same_problem_def assign_literal_def)

lemma rup_step:
  assumes "rup_inv st n C" "l < 2 * num_variables st" "Variable l \<notin> Variable ` set (assigned st)"
    "s = None \<Longrightarrow> Negated l \<in> set C \<and> us = unit_stack st"
    "\<And>i. s = Some i \<Longrightarrow> unit_for st n l i \<and> us = i # unit_stack st"
    "AssignAndPropagate n l s (st\<lparr> unit_stack := us \<rparr>) = (cf, st')"
  shows "rup_inv st' n C" "same_problem st st'" "\<forall>i. cf = Some i \<longrightarrow> conflict_at st' n i"
    "assigned st' = assigned st @ [l]" "keeps_fully_watched n st st'"
proof -
  let ?st1 = "st\<lparr> unit_stack := us \<rparr>"
  have "arrays_ok ?st1" "all_watches ?st1 n (2 * num_variables ?st1)" "pending_ok ?st1 n" "l < 2 * num_variables ?st1"
    using assms(1,2)
    by (simp_all add: rup_inv_def arrays_ok_def all_watches_def watches_def pending_ok_def unit_for_def active_def pending_def)
  from AssignAndPropagate_spec[OF assms(6) this]
  have res: "reordered (assign_literal l s ?st1) st'" "arrays_ok st'" "all_watches st' n (2 * num_variables st')"
    "pending_ok st' n" "\<forall>i. cf = Some i \<longrightarrow> conflict_at st' n i" "keeps_fully_watched n ?st1 st'" by auto
  have "keeps_fully_watched n st ?st1" by (simp add: keeps_watched_same)
  then show "keeps_fully_watched n st st'" using res(6) by (rule keeps_watched_trans)
  have "trail_of st' n C"
    by (rule trail_of_reordered[OF trail_of_assign res(1)]) (use assms(1-5) in \<open>auto simp: rup_inv_def\<close>)
  then show "rup_inv st' n C" using res by (simp add: rup_inv_def)
  show "same_problem st st'"
    using same_problem_trans[OF same_problem_assign same_problem_reordered[OF res(1)]] .
  show "\<forall>i. cf = Some i \<longrightarrow> conflict_at st' n i" by (rule res(5))
  show "assigned st' = assigned st @ [l]" using reordered_same(2)[OF res(1)] by simp
qed

section \<open>The loops of the RUP check\<close>

lemma falsify_literals_spec:
  assumes "falsify_literals n ls st = (cf, st')" "rup_inv st n C" "clause_ok (num_variables st) ls" "set ls \<subseteq> set C"
    "\<forall>l \<in> set ls. Variable l \<notin> Variable ` set (assigned st)"
  shows "rup_inv st' n C \<and> same_problem st st' \<and> (\<forall>i. cf = Some i \<longrightarrow> conflict_at st' n i) \<and>
    keeps_fully_watched n st st'"
  using assms
proof (induction ls arbitrary: st)
  case (Cons l ls)
  obtain cf1 st1 where step: "AssignAndPropagate n (Negated l) None st = (cf1, st1)" by fastforce
  have "Negated l < 2 * num_variables st" using Cons.prems(3) by (simp add: clause_ok_def)
  note r = rup_step[OF Cons.prems(2) this, of None "unit_stack st" cf1 st1]
  have r: "rup_inv st1 n C" "same_problem st st1" "\<forall>i. cf1 = Some i \<longrightarrow> conflict_at st1 n i"
    "assigned st1 = assigned st @ [Negated l]" "keeps_fully_watched n st st1"
    using r Cons.prems(4,5) step by simp_all
  show ?case
  proof (cases cf1)
    case None
    then have "falsify_literals n ls st1 = (cf, st')" using Cons.prems(1) step by simp
    moreover have "\<forall>x \<in> set ls. Variable x \<notin> Variable ` set (assigned st1)"
      using Cons.prems(3,5) r(4) by (auto simp: clause_ok_def Variable_eq_iff)
    moreover have "clause_ok (num_variables st1) ls" using Cons.prems(3) r(2) by (simp add: clause_ok_def same_problem_def)
    ultimately show ?thesis
      using Cons.IH[OF _ r(1)] Cons.prems(4) same_problem_trans[OF r(2)] keeps_watched_trans[OF r(5)] by auto
  next
    case (Some i)
    then show ?thesis using Cons.prems(1) step r by simp
  qed
qed simp

lemma push_single_spec:
  assumes "rup_inv st n C" "set is \<subseteq> set (single_literal_clauses st)"
  shows "rup_inv (foldl (push_single n) st is) n C \<and> reordered st (foldl (push_single n) st is) \<and>
    keeps_fully_watched n st (foldl (push_single n) st is)"
proof -
  have keeps: "keeps_fully_watched n st (push_single n st i)" for st i
    by (simp add: push_single_def keeps_watched_same push_literal_def)
  have step: "rup_inv (push_single n st i) n C \<and> reordered st (push_single n st i)"
    if "rup_inv st n C" "i \<in> set (single_literal_clauses st)" for st i
  proof (cases "active st n i")
    case True
    define l where "l = literals_at st i ! 0"
    have "length (literals_at st i) = 1" using that by (auto simp: rup_inv_def arrays_ok_def)
    then have "literals_at st i = [l]" by (cases "literals_at st i") (auto simp: l_def)
    then have "unit_for st n l i" using True by (simp add: unit_for_def)
    then have p: "pending_ok (push_literal l i st) n"
      using that(1) by (auto simp: rup_inv_def pending_ok_def set_pending_push unit_for_reordered[OF reordered_push])
    have "watches (push_literal l i st) n w x = watches st n w x" for w x
      by (simp add: watches_def push_literal_def)
    then have "all_watches (push_literal l i st) n (2 * num_variables (push_literal l i st))"
      using that(1) by (simp add: rup_inv_def all_watches_def reordered_same[OF reordered_push])
    moreover have "arrays_ok (push_literal l i st)"
      by (rule arrays_ok_reordered[OF _ reordered_push]) (use that(1) in \<open>simp_all add: rup_inv_def\<close>)
    ultimately have "rup_inv (push_literal l i st) n C"
      using p that(1) trail_of_reordered[OF _ reordered_push] by (auto simp: rup_inv_def)
    then show ?thesis using True reordered_push by (auto simp: push_single_def active_def l_def)
  next
    case False
    then have "push_single n st i = st" using that by (auto simp: push_single_def active_def rup_inv_def arrays_ok_def)
    then show ?thesis using that by simp
  qed
  show ?thesis using assms
  proof (induction "is" arbitrary: st)
    case (Cons i "is")
    have s: "rup_inv (push_single n st i) n C" "reordered st (push_single n st i)"
      using step[OF Cons.prems(1)] Cons.prems(2) by auto
    then show ?case
      using Cons.IH[OF s(1)] Cons.prems(2) reordered_same(5)[OF s(2)]
        reordered_trans[OF s(2)] keeps_watched_trans[OF keeps[of st i]] by auto
  qed simp
qed

lemma pop_literal_Some:
  assumes "pop_literal st = Some ((l, i), st1)"
  shows "set (pending st) = insert (l, i) (set (pending st1))" "length (pending st) = Suc (length (pending st1))"
    "reordered st st1" "watched_literals st1 = watched_literals st" "unit_stack st1 = unit_stack st"
    "clauses st1 = clauses st"
  using assms by (auto simp: pop_literal_def pending_def reordered_def split: list.splits)

lemma rup_inv_pop:
  assumes "rup_inv st n C" "pop_literal st = Some ((l, i), st1)"
  shows "rup_inv st1 n C" "same_problem st st1" "assigned st1 = assigned st" "unit_for st1 n l i" "l < 2 * num_variables st1"
    "keeps_fully_watched n st st1"
proof -
  note pop = pop_literal_Some[OF assms(2)]
  have w: "watches st1 n w x = watches st n w x" for w x by (simp add: watches_def pop(6))
  have "arrays_ok st1" by (rule arrays_ok_reordered[OF _ pop(3)]) (use assms(1) pop(4) in \<open>simp_all add: rup_inv_def\<close>)
  moreover have "all_watches st1 n (2 * num_variables st1)"
    using assms(1) by (simp add: rup_inv_def all_watches_def w pop(4) reordered_same[OF pop(3)])
  moreover have "pending_ok st1 n" "unit_for st1 n l i"
    using assms(1) pop(1) by (auto simp: rup_inv_def pending_ok_def unit_for_reordered[OF pop(3)])
  moreover have "trail_of st1 n C" using trail_of_reordered[OF _ pop(3)] assms(1) by (simp add: rup_inv_def)
  ultimately show "rup_inv st1 n C" "unit_for st1 n l i" by (simp_all add: rup_inv_def)
  show "same_problem st st1" by (rule same_problem_reordered[OF pop(3)])
  show "keeps_fully_watched n st st1" using keeps_watched_same[OF pop(6)] by (simp add: pop(4))
  show "assigned st1 = assigned st" by (rule reordered_same(2)[OF pop(3)])
  show "l < 2 * num_variables st1"
    using \<open>unit_for st1 n l i\<close> \<open>arrays_ok st1\<close> by (auto simp: unit_for_def active_def arrays_ok_def clause_ok_def)
qed

lemma distinct_trail: "trail act cl src C as us \<Longrightarrow> distinct as"
  by (induction rule: trail.induct) auto

lemma length_assigned:
  assumes "trail_of st n C"
  shows "length (assigned st) \<le> 2 * num_variables st"
proof -
  have "distinct (assigned st)" using assms distinct_trail by (fastforce simp: trail_of_def)
  moreover have "set (assigned st) \<subseteq> {..<2 * num_variables st}" using assms by (auto simp: trail_of_def)
  ultimately show ?thesis by (metis card_lessThan card_mono distinct_card finite_lessThan)
qed

lemma unit_loop_spec:
  assumes "rup_inv st n C" "\<forall>i. cf = Some i \<longrightarrow> conflict_at st n i"
  shows "\<exists>cf' st'. unit_loop n cf st = Some (cf', st') \<and> rup_inv st' n C \<and> same_problem st st' \<and>
    (\<forall>i. cf' = Some i \<longrightarrow> conflict_at st' n i) \<and> keeps_fully_watched n st st'"
  using assms
proof (induction st arbitrary: cf rule: wf_induct_rule[OF wf_measures[of
      "[\<lambda>st. 2 * num_variables st - length (assigned st), \<lambda>st. length (pending st)]"]])
  case (1 st)
  show ?case
  proof (cases "pop_literal st")
    case None
    then have "unit_loop n cf st = Some (cf, st)" by (simp add: unit_loop.simps[of n cf st])
    then show ?thesis using 1(2,3) by auto
  next
    case (Some p)
    then obtain l i st1 where pop: "pop_literal st = Some ((l, i), st1)" by (metis prod.exhaust)
    note inv = rup_inv_pop[OF 1(2) pop]
    have nv: "num_variables st1 = num_variables st" using inv(2) by (simp add: same_problem_def)
    show ?thesis
    proof (cases "cf = None")
      case False
      then have "unit_loop n cf st = Some (cf, st)" using pop by (simp add: unit_loop.simps[of n cf st])
      then show ?thesis using 1(2,3) by auto
    next
      case cf: True
      consider (conflict) "Assignment_LiteralIsFalse (assigned_values st1) l"
        | (known) "Assignment_LiteralIsAssigned (assigned_values st1) l" "\<not> Assignment_LiteralIsFalse (assigned_values st1) l"
        | (new) "\<not> Assignment_LiteralIsAssigned (assigned_values st1) l"
        by blast
      then show ?thesis
      proof cases
        case conflict
        then have "unit_loop n cf st = Some (Some i, st1)"
          using pop cf by (simp add: unit_loop.simps[of n None st] Assignment_LiteralIsAssigned_iff)
        moreover have "conflict_at st1 n i" using inv(4) conflict by (auto simp: unit_for_def conflict_at_def)
        ultimately show ?thesis using inv by auto
      next
        case known
        then have eq: "unit_loop n cf st = unit_loop n cf st1" by (subst unit_loop.simps) (simp add: pop cf)
        have smaller: "(st1, st) \<in> measures [\<lambda>st. 2 * num_variables st - length (assigned st), \<lambda>st. length (pending st)]"
          using inv(3) nv pop_literal_Some(2)[OF pop] by simp
        have "\<forall>j. cf = Some j \<longrightarrow> conflict_at st1 n j" using cf by auto
        from 1(1)[OF smaller inv(1) this] show ?thesis unfolding eq using same_problem_trans[OF inv(2)] keeps_watched_trans[OF inv(6)] by blast
      next
        case new
        let ?st2 = "st1\<lparr> unit_stack := i # unit_stack st1 \<rparr>"
        obtain cf2 st2 where step: "AssignAndPropagate n l (Some i) ?st2 = (cf2, st2)" by fastforce
        then have eq: "unit_loop n cf st = unit_loop n cf2 st2"
          by (subst unit_loop.simps) (simp add: pop cf new)
        have fresh: "Variable l \<notin> Variable ` set (assigned st1)"
          using not_assigned_iff[OF _ _ inv(5)] new inv(1) by (auto simp: rup_inv_def)
        have source: "Some i = None \<Longrightarrow> Negated l \<in> set C \<and> i # unit_stack st1 = unit_stack st1"
          "\<And>j. Some i = Some j \<Longrightarrow> unit_for st1 n l j \<and> i # unit_stack st1 = j # unit_stack st1"
          using inv(4) by simp_all
        note r = rup_step[OF inv(1,5) fresh source step]
        have room: "length (assigned st) < 2 * num_variables st"
          using length_assigned[of st2 n C] r(1,2,4) inv(3) nv by (simp add: rup_inv_def same_problem_def)
        have smaller: "(st2, st) \<in> measures [\<lambda>st. 2 * num_variables st - length (assigned st), \<lambda>st. length (pending st)]"
        proof -
          have "num_variables st2 = num_variables st" "length (assigned st2) = Suc (length (assigned st))"
            using r(2,4) inv(3) nv by (simp_all add: same_problem_def)
          then show ?thesis using room by (simp add: diff_less_mono2)
        qed
        from 1(1)[OF smaller r(1,3)] show ?thesis
          unfolding eq using same_problem_trans[OF same_problem_trans[OF inv(2) r(2)]]
            keeps_watched_trans[OF keeps_watched_trans[OF inv(6) r(5)]] by blast
      qed
    qed
  qed
qed

section \<open>Marking\<close>

text \<open>Marking only sets flags.\<close>

definition unflag :: "drat_clause \<Rightarrow> drat_clause" where
  "unflag c = c\<lparr> is_needed_for_proof := False, tmp_is_needed_for_proof_step := False \<rparr>"

definition unflagged :: "drat_checker \<Rightarrow> drat_checker" where
  "unflagged st = st\<lparr> clauses := map unflag (clauses st) \<rparr>"

lemma unflagged_update [simp]:
  "unflagged (update_clause i (is_needed_for_proof_update f) st) = unflagged st"
  "unflagged (update_clause i (tmp_is_needed_for_proof_step_update f) st) = unflagged st"
proof -
  have "map unflag ((clauses st)[i := g (clauses st ! i)]) = map unflag (clauses st)"
    if "\<And>c. unflag (g c) = unflag c" for g
    by (metis list_update_id map_update that)
  then show "unflagged (update_clause i (is_needed_for_proof_update f) st) = unflagged st"
    "unflagged (update_clause i (tmp_is_needed_for_proof_step_update f) st) = unflagged st"
    by (simp_all add: unflagged_def update_clause_def unflag_def)
qed

lemma unflagged_mark: "unflagged (mark_clause_and_sources i st) = unflagged st"
proof -
  have "unflagged (foldl (\<lambda>st l. case assignment_source st ! Variable l of None \<Rightarrow> st
      | Some j \<Rightarrow> update_clause j (tmp_is_needed_for_proof_step_update (\<lambda>_. True)) st) st ls) = unflagged st" for st ls
    by (induction ls arbitrary: st) (auto split: option.split)
  then show ?thesis by (simp add: mark_clause_and_sources_def)
qed

lemma unflagged_mark_units: "unflagged (mark_units us st) = unflagged st"
  by (induction us arbitrary: st) (simp_all add: unflagged_mark)

lemma unflagged_same:
  assumes "unflagged st' = unflagged st"
  shows "num_variables st' = num_variables st" "assigned st' = assigned st" "assigned_values st' = assigned_values st"
    "assignment_source st' = assignment_source st" "watched_literals st' = watched_literals st"
    "single_literal_clauses st' = single_literal_clauses st" "tmp_assignment st' = tmp_assignment st"
    "first_inferred_clause_index st' = first_inferred_clause_index st" "length (clauses st') = length (clauses st)"
  using assms by (cases st; cases st'; auto simp: unflagged_def dest: map_eq_imp_length_eq)+

lemma unflagged_clause:
  assumes "unflagged st' = unflagged st" "i < length (clauses st)"
  shows "literals_at st' i = literals_at st i" "deleted_index (clause_at st' i) = deleted_index (clause_at st i)"
    "rat_literal_index (clause_at st' i) = rat_literal_index (clause_at st i)"
    "deleted_clauses (clause_at st' i) = deleted_clauses (clause_at st i)"
    "IsDeleted (clause_at st' i) n = IsDeleted (clause_at st i) n"
proof -
  have "map unflag (clauses st') = map unflag (clauses st)"
    using assms(1) by (cases st; cases st') (simp add: unflagged_def)
  then have eq: "unflag (clause_at st' i) = unflag (clause_at st i)"
    using assms(2) by (metis length_map nth_map)
  show "literals_at st' i = literals_at st i" "deleted_index (clause_at st' i) = deleted_index (clause_at st i)"
    "rat_literal_index (clause_at st' i) = rat_literal_index (clause_at st i)"
    "deleted_clauses (clause_at st' i) = deleted_clauses (clause_at st i)"
    using eq by (cases "clause_at st i"; cases "clause_at st' i"; simp add: unflag_def)+
  then show "IsDeleted (clause_at st' i) n = IsDeleted (clause_at st i) n" by (simp add: IsDeleted_def)
qed

lemma unflagged_active: "unflagged st' = unflagged st \<Longrightarrow> active st' n i = active st n i"
  using unflagged_clause(5)[of st' st i n] unflagged_same(9)[of st' st] by (auto simp: active_def)

definition needed :: "drat_checker \<Rightarrow> nat set" where
  "needed st = {i. i < length (clauses st) \<and> is_needed_for_proof (clause_at st i)}"

definition stepped :: "drat_checker \<Rightarrow> nat set" where
  "stepped st = {i. i < length (clauses st) \<and> tmp_is_needed_for_proof_step (clause_at st i)}"

lemma flags_update:
  assumes "i < length (clauses st)"
  shows "needed (update_clause i (is_needed_for_proof_update (\<lambda>_. True)) st) = insert i (needed st)"
    "stepped (update_clause i (is_needed_for_proof_update (\<lambda>_. True)) st) = stepped st"
    "needed (update_clause i (tmp_is_needed_for_proof_step_update (\<lambda>_. b)) st) = needed st"
    "stepped (update_clause i (tmp_is_needed_for_proof_step_update (\<lambda>_. True)) st) = insert i (stepped st)"
    "stepped (update_clause i (tmp_is_needed_for_proof_step_update (\<lambda>_. False)) st) = stepped st - {i}"
  using assms by (auto simp: needed_def stepped_def update_clause_def nth_list_update)

text \<open>The sources of the literals of a clause.\<close>

definition sources :: "drat_checker \<Rightarrow> nat \<Rightarrow> nat set" where
  "sources st i = {j. \<exists>l \<in> set (literals_at st i). assignment_source st ! Variable l = Some j}"

lemma flags_mark:
  assumes "i < length (clauses st)" "sources st i \<subseteq> {..<length (clauses st)}"
  shows "needed (mark_clause_and_sources i st) = insert i (needed st)"
    "stepped (mark_clause_and_sources i st) = stepped st \<union> sources st i"
proof -
  let ?f = "\<lambda>st l. case assignment_source st ! Variable l of None \<Rightarrow> st
      | Some j \<Rightarrow> update_clause j (tmp_is_needed_for_proof_step_update (\<lambda>_. True)) st"
  have "needed (foldl ?f st ls) = needed st \<and>
      stepped (foldl ?f st ls) = stepped st \<union> {j. \<exists>l \<in> set ls. assignment_source st ! Variable l = Some j}"
    if "{j. \<exists>l \<in> set ls. assignment_source st ! Variable l = Some j} \<subseteq> {..<length (clauses st)}" for ls st
    using that
  proof (induction ls arbitrary: st)
    case (Cons l ls)
    show ?case
    proof (cases "assignment_source st ! Variable l")
      case None
      then show ?thesis using Cons.IH[of st] Cons.prems by auto
    next
      case (Some j)
      define st1 where "st1 = update_clause j (tmp_is_needed_for_proof_step_update (\<lambda>_. True)) st"
      have j: "j < length (clauses st)" using Cons.prems Some by auto
      have st1: "assignment_source st1 = assignment_source st" "length (clauses st1) = length (clauses st)"
        by (simp_all add: st1_def update_clause_def)
      have "needed (foldl ?f st1 ls) = needed st1 \<and>
          stepped (foldl ?f st1 ls) = stepped st1 \<union> {j. \<exists>l \<in> set ls. assignment_source st1 ! Variable l = Some j}"
        by (rule Cons.IH) (use Cons.prems st1 in auto)
      moreover have "needed st1 = needed st" "stepped st1 = insert j (stepped st)"
        using flags_update[OF j] by (simp_all add: st1_def)
      ultimately show ?thesis using Some st1 by (auto simp: st1_def[symmetric])
    qed
  qed simp
  from this[where ls = "literals_at st i" and st = "update_clause i (is_needed_for_proof_update (\<lambda>_. True)) st"]
  show "needed (mark_clause_and_sources i st) = insert i (needed st)"
    "stepped (mark_clause_and_sources i st) = stepped st \<union> sources st i"
    using flags_update[OF assms(1)] assms(2)
    by (simp_all add: mark_clause_and_sources_def sources_def update_clause_def)
qed

lemma sources_unflagged:
  assumes "unflagged st' = unflagged st" "i < length (clauses st)"
  shows "sources st' i = sources st i"
  using unflagged_clause(1)[OF assms] unflagged_same(4)[OF assms(1)] by (simp only: sources_def)

lemma mark_units_step:
  assumes "u < length (clauses st)" "sources st u \<subseteq> {..<length (clauses st)}"
  defines "st1 \<equiv> (if tmp_is_needed_for_proof_step (clause_at st u)
    then update_clause u (tmp_is_needed_for_proof_step_update (\<lambda>_. False)) (mark_clause_and_sources u st) else st)"
  shows "needed st1 = needed st \<union> (if u \<in> stepped st then {u} else {})"
    "stepped st1 = (if u \<in> stepped st then (stepped st \<union> sources st u) - {u} else stepped st)"
    "unflagged st1 = unflagged st"
proof -
  have "length (clauses (mark_clause_and_sources u st)) = length (clauses st)"
    by (rule unflagged_same(9)[OF unflagged_mark])
  then have u: "u < length (clauses (mark_clause_and_sources u st))" using assms(1) by simp
  have flag: "tmp_is_needed_for_proof_step (clause_at st u) \<longleftrightarrow> u \<in> stepped st" using assms(1) by (simp add: stepped_def)
  show "needed st1 = needed st \<union> (if u \<in> stepped st then {u} else {})"
    unfolding st1_def flag using flags_mark(1)[OF assms(1,2)] flags_update(3)[OF u] by simp
  show "stepped st1 = (if u \<in> stepped st then (stepped st \<union> sources st u) - {u} else stepped st)"
    unfolding st1_def flag using flags_mark(2)[OF assms(1,2)] flags_update(5)[OF u] by simp
  show "unflagged st1 = unflagged st" by (simp add: st1_def unflagged_mark)
qed

lemma stepped_bound: "stepped st \<subseteq> {..<length (clauses st)}"
  by (auto simp: stepped_def)

lemma mark_units_needed: "i \<in> needed st \<Longrightarrow> i \<in> needed (mark_units us st)"
proof -
  have mono: "is_needed_for_proof (clause_at st i) \<Longrightarrow> is_needed_for_proof (clause_at (update_clause j g st) i)"
    if "\<And>c. is_needed_for_proof c \<Longrightarrow> is_needed_for_proof (g c)" for st i j g
    using that by (cases "j < length (clauses st)") (auto simp: update_clause_def nth_list_update list_update_beyond)
  have "is_needed_for_proof (clause_at st i) \<Longrightarrow> is_needed_for_proof (clause_at (foldl (\<lambda>st l. case assignment_source st ! Variable l of
      None \<Rightarrow> st | Some j \<Rightarrow> update_clause j (tmp_is_needed_for_proof_step_update (\<lambda>_. True)) st) st ls) i)" for st ls
  proof (induction ls arbitrary: st)
    case (Cons l ls)
    show ?case
    proof (cases "assignment_source st ! Variable l")
      case (Some k)
      have "is_needed_for_proof (clause_at (update_clause k (tmp_is_needed_for_proof_step_update (\<lambda>_. True)) st) i)"
        by (rule mono) (simp_all add: Cons.prems)
      from Cons.IH[OF this] show ?thesis by (simp add: Some)
    qed (use Cons in simp)
  qed simp
  then have clause: "is_needed_for_proof (clause_at st i) \<Longrightarrow> is_needed_for_proof (clause_at (mark_clause_and_sources j st) i)" for st j
    unfolding mark_clause_and_sources_def by (simp add: mono)
  have "is_needed_for_proof (clause_at st i) \<Longrightarrow> is_needed_for_proof (clause_at (mark_units us st) i)"
  proof (induction us arbitrary: st)
    case (Cons u us)
    have "is_needed_for_proof (clause_at (update_clause u (tmp_is_needed_for_proof_step_update (\<lambda>_. False))
        (mark_clause_and_sources u st)) i)"
      by (rule mono) (simp_all add: clause[OF Cons.prems])
    then show ?case using Cons by simp
  qed simp
  moreover assume "i \<in> needed st"
  ultimately show "i \<in> needed (mark_units us st)"
    using unflagged_same(9)[OF unflagged_mark_units] by (simp add: needed_def)
qed

lemma trail_source: "trail act cl src C as us \<Longrightarrow> x \<in> set as \<Longrightarrow> src (Variable x) = Some i \<Longrightarrow> act i \<and> x \<in> cl i"
  by (induction rule: trail.induct) auto

text \<open>The literals whose source is flagged are true wherever the marked clauses hold and the checked clause is
  false: the sources of a unit clause are lower on the stack.\<close>

lemma mark_units_sound:
  assumes "trail act cl src C as us" "\<And>i. act i \<Longrightarrow> i < length (clauses st) \<and> cl i = set (literals_at st i)"
    "src = (\<lambda>v. assignment_source st ! v)"
    "\<And>i. act i \<Longrightarrow> i \<in> needed (mark_units us st) \<Longrightarrow> holds v (literals_at st i)" "\<forall>l \<in> C. \<not> lit_true v l"
    "\<And>i. act i \<Longrightarrow> sources st i \<subseteq> {..<length (clauses st)}"
    "l \<in> set as" "src (Variable l) = None \<or> (\<exists>i \<in> stepped st. src (Variable l) = Some i)"
  shows "lit_true v l"
  using assms
proof (induction arbitrary: st l rule: trail.induct)
  case (trail_falsified as us a)
  then show ?case
    using trail_falsified.IH[OF trail_falsified.prems(1-5)] by (metis lit_true_Negated set_ConsD)
next
  case (trail_unit as us a u)
  have u: "u < length (clauses st)" "sources st u \<subseteq> {..<length (clauses st)}"
    using trail_unit.hyps trail_unit.prems by auto
  define st1 where "st1 = (if tmp_is_needed_for_proof_step (clause_at st u)
    then update_clause u (tmp_is_needed_for_proof_step_update (\<lambda>_. False)) (mark_clause_and_sources u st) else st)"
  note st1 = mark_units_step[OF u, folded st1_def]
  have mark: "mark_units (u # us) st = mark_units us st1" by (simp add: st1_def)
  have lits: "literals_at st1 i = literals_at st i" if "i < length (clauses st)" for i
    by (rule unflagged_clause(1)[OF st1(3) that])
  have IH: "lit_true v x" if "x \<in> set as" "src (Variable x) = None \<or> (\<exists>i \<in> stepped st1. src (Variable x) = Some i)" for x
  proof (rule trail_unit.IH[OF _ _ _ _ _ that])
    show "i < length (clauses st1) \<and> cl i = set (literals_at st1 i)" if "act i" for i
      using trail_unit.prems(1)[OF that] lits unflagged_same(9)[OF st1(3)] by simp
    show "src = (\<lambda>v. assignment_source st1 ! v)" using trail_unit.prems(2) unflagged_same(4)[OF st1(3)] by simp
    show "holds v (literals_at st1 i)" if "act i" "i \<in> needed (mark_units us st1)" for i
      using trail_unit.prems(3)[OF that(1)] that(2) mark lits trail_unit.prems(1)[OF that(1)] by simp
    show "\<forall>l \<in> C. \<not> lit_true v l" by (rule trail_unit.prems(4))
    show "sources st1 i \<subseteq> {..<length (clauses st1)}" if "act i" for i
      using trail_unit.prems(1,5)[OF that] sources_unflagged[OF st1(3)] unflagged_same(9)[OF st1(3)] by simp
  qed
  have not_u: "src (Variable x) \<noteq> Some u" if x: "x \<in> set as" for x
  proof
    assume "src (Variable x) = Some u"
    then have "x \<in> cl u" using trail_source[OF trail_unit.hyps(1) x] by simp
    moreover have "x \<noteq> a" using x trail_unit.hyps(6) by auto
    ultimately have "Negated x \<in> set as" using trail_unit.hyps(5) by simp
    then show False using trail_consistent[OF trail_unit.hyps(1) x] by simp
  qed
  show ?case
  proof (cases "u \<in> stepped st")
    case False
    then have "l \<noteq> a" using trail_unit.hyps(2) trail_unit.prems(7) by auto
    then show ?thesis using IH[of l] trail_unit.prems(6,7) st1(2) False by simp
  next
    case True
    have earlier: "lit_true v x" if "x \<in> set as" "src (Variable x) = None \<or> (\<exists>i \<in> stepped st \<union> sources st u. src (Variable x) = Some i)" for x
      using IH[OF that(1)] that st1(2) True not_u[OF that(1)] by auto
    show ?thesis
    proof (cases "l = a")
      case False
      then show ?thesis using earlier[of l] trail_unit.prems(6,7) by auto
    next
      case l: True
      have "u \<in> needed (mark_units (u # us) st)"
        using mark_units_needed[of u st1 us] st1(1) True mark by auto
      then have "holds v (literals_at st u)" using trail_unit.prems(3)[OF trail_unit.hyps(3)] by simp
      moreover have "\<not> lit_true v x" if x: "x \<in> set (literals_at st u)" "x \<noteq> a" for x
      proof -
        have neg: "Negated x \<in> set as" using trail_unit.hyps(5) trail_unit.prems(1)[OF trail_unit.hyps(3)] x by simp
        have "i \<in> sources st u" if "src (Variable x) = Some i" for i
          using x that trail_unit.prems(2) by (auto simp: sources_def)
        then have "lit_true v (Negated x)" using earlier[OF neg] by (cases "src (Variable x)") auto
        then show ?thesis by simp
      qed
      ultimately show ?thesis using l by (auto simp: holds_def)
    qed
  qed
qed simp

lemma mark_units_bound:
  assumes "set us \<subseteq> {..<length (clauses st)}" "\<And>u. u \<in> set us \<Longrightarrow> sources st u \<subseteq> {..<length (clauses st)}"
  shows "needed (mark_units us st) \<subseteq> needed st \<union> set us"
  using assms
proof (induction us arbitrary: st)
  case (Cons u us)
  have u: "u < length (clauses st)" "sources st u \<subseteq> {..<length (clauses st)}" using Cons.prems by auto
  define st1 where "st1 = (if tmp_is_needed_for_proof_step (clause_at st u)
    then update_clause u (tmp_is_needed_for_proof_step_update (\<lambda>_. False)) (mark_clause_and_sources u st) else st)"
  note st1 = mark_units_step[OF u, folded st1_def]
  have "needed (mark_units us st1) \<subseteq> needed st1 \<union> set us"
  proof (rule Cons.IH)
    show "set us \<subseteq> {..<length (clauses st1)}" using Cons.prems(1) unflagged_same(9)[OF st1(3)] by simp
    show "sources st1 x \<subseteq> {..<length (clauses st1)}" if x: "x \<in> set us" for x
    proof -
      have "x < length (clauses st)" "sources st x \<subseteq> {..<length (clauses st)}" using Cons.prems x by auto
      then show ?thesis using sources_unflagged[OF st1(3)] unflagged_same(9)[OF st1(3)] by simp
    qed
  qed
  then show ?case using st1(1) by (auto simp: st1_def[symmetric] split: if_splits)
qed simp

section \<open>The RUP check\<close>

lemma trail_active: "trail act cl src C as us \<Longrightarrow> u \<in> set us \<Longrightarrow> act u"
  by (induction rule: trail.induct) auto

lemma trail_none_or_active: "trail act cl src C as us \<Longrightarrow> x \<in> set as \<Longrightarrow> src (Variable x) = Some i \<Longrightarrow> act i"
  by (rule conjunct1[OF trail_source])

lemma trail_restrict: "trail act cl src C as us \<Longrightarrow> trail (\<lambda>i. act i \<and> i \<in> set us) cl src C as us"
proof (induction rule: trail.induct)
  case (trail_unit as us l i)
  have "trail (\<lambda>j. act j \<and> j \<in> set (i # us)) cl src C as us" by (rule trail_cong[OF trail_unit.IH]) auto
  then show ?case using trail_unit.hyps by (intro trail.trail_unit) simp_all
qed (simp_all add: trail.intros)

text \<open>On a trail that ends in a conflict, the marked clauses imply the clause that is checked.\<close>

lemma conflict_false_literals:
  assumes "trail_of st n C" "arrays_ok st" "active st n i" "x \<in> set (literals_at st i)"
    "Assignment_LiteralIsFalse (assigned_values st) x"
  shows "Negated x \<in> set (assigned st)"
proof -
  have "x < 2 * num_variables st" using assms(2-4) by (auto simp: arrays_ok_def clause_ok_def active_def)
  then show ?thesis using assms(1,5) by (simp add: trail_of_def Assignment_LiteralIsFalse_Negated)
qed

lemma sources_bound:
  assumes "trail_of st n C" "\<And>x. x \<in> set (literals_at st i) \<Longrightarrow> x \<in> set (assigned st) \<or> Negated x \<in> set (assigned st)"
  shows "sources st i \<subseteq> {..<length (clauses st)}"
proof
  fix j assume "j \<in> sources st i"
  then obtain x where x: "x \<in> set (literals_at st i)" "assignment_source st ! Variable x = Some j"
    by (auto simp: sources_def)
  obtain y where y: "y \<in> set (assigned st)" "Variable y = Variable x" using assms(2)[OF x(1)] Variable_Negated by blast
  have "trail (active st n) (\<lambda>i. set (literals_at st i)) (\<lambda>v. assignment_source st ! v) (set C)
       (rev (assigned st)) (unit_stack st)" using assms(1) by (simp add: trail_of_def)
  from trail_none_or_active[OF this, of y j] have "active st n j" using x(2) y by simp
  then show "j \<in> {..<length (clauses st)}" by (simp add: active_def)
qed

lemma trail_unit_literals:
  "trail act cl src C as us \<Longrightarrow> u \<in> set us \<Longrightarrow> x \<in> cl u \<Longrightarrow> x \<in> set as \<or> Negated x \<in> set as"
  by (induction rule: trail.induct) auto

lemma MarkAsNeededForProof_spec:
  assumes inv: "rup_inv st n C" and i: "conflict_at st n i"
  defines "st' \<equiv> MarkAsNeededForProof i st"
  shows "unflagged st' = unflagged st" "needed st \<subseteq> needed st'" "needed st' \<subseteq> needed st \<union> {i. active st n i}"
    "(\<And>j. active st n j \<Longrightarrow> j \<in> needed st' \<Longrightarrow> holds v (literals_at st j)) \<Longrightarrow> holds v C"
proof -
  define st1 where "st1 = mark_clause_and_sources i st"
  have t: "trail (active st n) (\<lambda>i. set (literals_at st i)) (\<lambda>v. assignment_source st ! v) (set C)
       (rev (assigned st)) (unit_stack st)" and arrays: "arrays_ok st" and tr: "trail_of st n C"
    using inv by (simp_all add: rup_inv_def trail_of_def)
  have i_len: "i < length (clauses st)" "active st n i" using i by (simp_all add: conflict_at_def active_def)
  have neg: "Negated x \<in> set (assigned st)" if "x \<in> set (literals_at st i)" for x
    using conflict_false_literals[OF tr arrays i_len(2) that] i that by (simp add: conflict_at_def)
  have src_i: "sources st i \<subseteq> {..<length (clauses st)}" by (rule sources_bound[OF tr]) (simp add: neg)
  have src_u: "sources st u \<subseteq> {..<length (clauses st)}" if "u \<in> set (unit_stack st)" for u
    by (rule sources_bound[OF tr]) (use trail_unit_literals[OF t that] in simp)
  have un1: "unflagged st1 = unflagged st" by (simp add: st1_def unflagged_mark)
  have us: "unit_stack st1 = unit_stack st" using un1 by (cases st; cases st1) (simp add: unflagged_def)
  have us_len: "u < length (clauses st)" if "u \<in> set (unit_stack st)" for u
    using trail_active[OF t that] by (simp add: active_def)
  note same = unflagged_same[OF un1]
  have st': "st' = mark_units (unit_stack st) st1" by (simp add: st'_def MarkAsNeededForProof_def st1_def)
  show un: "unflagged st' = unflagged st" by (simp add: st' unflagged_mark_units un1)
  note flags = flags_mark[OF i_len(1) src_i, folded st1_def]
  show "needed st \<subseteq> needed st'" using flags(1) mark_units_needed[of _ st1] by (auto simp: st')
  have src1: "sources st1 u \<subseteq> {..<length (clauses st1)}" if "u \<in> set (unit_stack st)" for u
    using sources_unflagged[OF un1 us_len[OF that]] src_u[OF that] same(9) by simp
  have "needed st' \<subseteq> needed st1 \<union> set (unit_stack st)"
    unfolding st' by (rule mark_units_bound) (use us_len same(9) src1 in auto)
  then show "needed st' \<subseteq> needed st \<union> {i. active st n i}"
    using flags(1) i_len(2) trail_active[OF t] by auto
  show "holds v C" if marked: "\<And>j. active st n j \<Longrightarrow> j \<in> needed st' \<Longrightarrow> holds v (literals_at st j)"
  proof (rule ccontr)
    assume "\<not> holds v C"
    then have C: "\<forall>l \<in> set C. \<not> lit_true v l" by (simp add: holds_def)
    have lits1: "literals_at st1 j = literals_at st j" if "active st n j" for j
      using unflagged_clause(1)[OF un1] that by (simp add: active_def)
    have flagged: "lit_true v l" if l: "l \<in> set (assigned st)"
      "assignment_source st ! Variable l = None \<or> (\<exists>i \<in> stepped st1. assignment_source st ! Variable l = Some i)" for l
    proof (rule mark_units_sound[where st = st1 and l = l and v = v])
      show "trail (\<lambda>j. active st n j \<and> j \<in> set (unit_stack st)) (\<lambda>i. set (literals_at st i))
        (\<lambda>v. assignment_source st ! v) (set C) (rev (assigned st)) (unit_stack st)" by (rule trail_restrict[OF t])
    qed (use l C lits1 marked same src1 in \<open>auto simp: active_def st'\<close>)
    have "\<not> lit_true v x" if x: "x \<in> set (literals_at st i)" for x
    proof -
      have "j \<in> stepped st1" if "assignment_source st ! Variable x = Some j" for j
        using flags(2) x that by (auto simp: sources_def)
      then have "lit_true v (Negated x)"
        using flagged[OF neg[OF x]] by (cases "assignment_source st ! Variable x") auto
      then show ?thesis by simp
    qed
    moreover have "i \<in> needed st'" using flags(1) mark_units_needed[of i st1] by (simp add: st')
    ultimately show False using marked[OF i_len(2)] by (auto simp: holds_def)
  qed
qed

section \<open>Between two checks\<close>

text \<open>Nothing is assigned and no literal waits.\<close>

definition idle :: "drat_checker \<Rightarrow> nat \<Rightarrow> bool" where
  "idle st n \<longleftrightarrow> arrays_ok st \<and> all_watches st n (2 * num_variables st) \<and> pending st = [] \<and>
     assigned st = [] \<and> assigned_values st = replicate (2 * num_variables st) False \<and> unit_stack st = [] \<and>
     tmp_assignment st = replicate (2 * num_variables st) False"

definition same_core :: "drat_checker \<Rightarrow> drat_checker \<Rightarrow> bool" where
  "same_core st st' \<longleftrightarrow>
     num_variables st' = num_variables st \<and> first_inferred_clause_index st' = first_inferred_clause_index st \<and>
     length (clauses st') = length (clauses st) \<and>
     (\<forall>i < length (clauses st). mset (literals_at st' i) = mset (literals_at st i) \<and>
        deleted_index (clause_at st' i) = deleted_index (clause_at st i) \<and>
        rat_literal_index (clause_at st' i) = rat_literal_index (clause_at st i) \<and>
        deleted_clauses (clause_at st' i) = deleted_clauses (clause_at st i))"

lemma same_core_refl [simp, intro]: "same_core st st"
  by (simp add: same_core_def)

lemma same_core_trans [trans]: "same_core a b \<Longrightarrow> same_core b c \<Longrightarrow> same_core a c"
  by (simp add: same_core_def)

lemma clause_core_eq:
  assumes "c\<lparr> cl_literals := [] \<rparr> = d\<lparr> cl_literals := [] \<rparr>"
  shows "deleted_index c = deleted_index d" "rat_literal_index c = rat_literal_index d"
    "deleted_clauses c = deleted_clauses d"
  using assms by (cases c; cases d; simp)+

lemma same_core_problem:
  assumes "same_problem st st'"
  shows "same_core st st'"
proof -
  have "mset (literals_at st' i) = mset (literals_at st i)"
    "(clause_at st' i)\<lparr> cl_literals := [] \<rparr> = (clause_at st i)\<lparr> cl_literals := [] \<rparr>" if "i < length (clauses st)" for i
    using assms that by (simp_all add: same_problem_def)
  note parts = this(1) clause_core_eq[OF this(2)]
  show ?thesis unfolding same_core_def using assms parts by (auto simp: same_problem_def)
qed

lemma same_core_unflagged: "unflagged st' = unflagged st \<Longrightarrow> same_core st st'"
  unfolding same_core_def
  using unflagged_same(1,8,9)[of st' st] unflagged_clause(1-4)[of st' st] by metis

lemma same_core_clause:
  assumes "same_core st st'" "i < length (clauses st)"
  shows "set (literals_at st' i) = set (literals_at st i)" "length (literals_at st' i) = length (literals_at st i)"
    "IsDeleted (clause_at st' i) n = IsDeleted (clause_at st i) n" "holds v (literals_at st' i) = holds v (literals_at st i)"
proof -
  from assms have m: "mset (literals_at st' i) = mset (literals_at st i)" by (simp add: same_core_def)
  then show s: "set (literals_at st' i) = set (literals_at st i)" by (metis set_mset_mset)
  show "length (literals_at st' i) = length (literals_at st i)" by (metis m size_mset)
  show "IsDeleted (clause_at st' i) n = IsDeleted (clause_at st i) n" using assms by (simp add: IsDeleted_def same_core_def)
  show "holds v (literals_at st' i) = holds v (literals_at st i)" using s by (simp add: holds_def)
qed

lemma same_core_active: "same_core st st' \<Longrightarrow> active st' n i = active st n i"
  using same_core_clause(3)[of st st' i n] by (auto simp: active_def same_core_def)

lemma idle_rup_inv: "idle st n \<Longrightarrow> rup_inv st n C"
  by (simp add: idle_def rup_inv_def pending_ok_def trail_of_def trail_Nil Assignment_LiteralIsTrue_def)

lemma unassign_values:
  assumes "length a = 2 * m" "\<forall>l \<in> set ls. l < 2 * m" "\<forall>l < 2 * m. Assignment_LiteralIsTrue a l \<longrightarrow> l \<in> set ls"
  shows "foldl (\<lambda>a l. UnassignLiteral l a) a ls = replicate (2 * m) False"
proof -
  have run: "length (foldl (\<lambda>a l. UnassignLiteral l a) a ls) = 2 * m \<and>
      (\<forall>x. Assignment_LiteralIsTrue (foldl (\<lambda>a l. UnassignLiteral l a) a ls) x \<longleftrightarrow>
        Assignment_LiteralIsTrue a x \<and> Variable x \<notin> Variable ` set ls)"
    if "length a = 2 * m" "\<forall>l \<in> set ls. l < 2 * m" for a
    using that
  proof (induction ls arbitrary: a)
    case (Cons l ls)
    have "length (UnassignLiteral l a) = 2 * m" "\<forall>l \<in> set ls. l < 2 * m" using Cons.prems by simp_all
    note IH = Cons.IH[OF this]
    then show ?case using true_UnassignLiteral[of l m a] Cons.prems by auto
  qed simp
  show ?thesis
  proof (rule nth_equalityI)
    show "foldl (\<lambda>a l. UnassignLiteral l a) a ls ! x = replicate (2 * m) False ! x"
      if "x < length (foldl (\<lambda>a l. UnassignLiteral l a) a ls)" for x
      using run[OF assms(1,2)] assms(3) that by (auto simp: Assignment_LiteralIsTrue_def)
  qed (use run[OF assms(1,2)] in simp)
qed

lemma needed_same_problem:
  assumes "same_problem st st'"
  shows "needed st' = needed st"
proof -
  have "is_needed_for_proof (clause_at st' i) = is_needed_for_proof (clause_at st i)" if "i < length (clauses st)" for i
  proof -
    have "(clause_at st' i)\<lparr> cl_literals := [] \<rparr> = (clause_at st i)\<lparr> cl_literals := [] \<rparr>"
      using assms that by (simp add: same_problem_def)
    then show ?thesis by (cases "clause_at st i"; cases "clause_at st' i"; simp)
  qed
  moreover have "length (clauses st') = length (clauses st)" using assms by (simp add: same_problem_def)
  ultimately show ?thesis by (auto simp: needed_def)
qed

lemma unflagged_arrays_ok:
  assumes "unflagged st' = unflagged st" "arrays_ok st"
  shows "arrays_ok st'"
proof -
  note same = unflagged_same[OF assms(1)] and clause = unflagged_clause(1)[OF assms(1)]
  have "clause_ok (num_variables st') (cl_literals c)" if c: "c \<in> set (clauses st')" for c
  proof -
    obtain i where "i < length (clauses st)" "c = clause_at st' i" using c same(9) by (auto simp: in_set_conv_nth)
    then show ?thesis using assms(2) clause[of i] same(1) by (simp add: arrays_ok_def)
  qed
  then show ?thesis using assms(2) clause by (simp add: arrays_ok_def same)
qed

lemma unflagged_watches:
  assumes "unflagged st' = unflagged st"
  shows "watches st' n w l = watches st n w l"
  unfolding watches_def using unflagged_clause(1,5)[OF assms] unflagged_same(9)[OF assms] by (metis (no_types, lifting))

lemma idle_unassign_all:
  assumes "rup_inv st n C" "unflagged st' = unflagged st" "tmp_assignment st = replicate (2 * num_variables st) False"
  shows "idle (unassign_all st') n" "same_core st (unassign_all st')"
    "keeps_fully_watched n st (unassign_all st')"
proof -
  let ?u = "unassign_all st'"
  note same = unflagged_same[OF assms(2)]
  have fields: "clauses ?u = clauses st'" "num_variables ?u = num_variables st'" "watched_literals ?u = watched_literals st'"
    "single_literal_clauses ?u = single_literal_clauses st'" "assignment_source ?u = assignment_source st'"
    "tmp_assignment ?u = tmp_assignment st'" "assigned ?u = []" "unit_stack ?u = []" "pending ?u = []"
    "first_inferred_clause_index ?u = first_inferred_clause_index st'"
    by (simp_all add: unassign_all_def pending_def)
  have vals: "assigned_values ?u = replicate (2 * num_variables st) False"
    using assms(1) unassign_values[of "assigned_values st" "num_variables st" "assigned st"]
    by (simp add: unassign_all_def same rup_inv_def trail_of_def arrays_ok_def)
  have "arrays_ok st'" using unflagged_arrays_ok[OF assms(2)] assms(1) by (simp add: rup_inv_def)
  then have "arrays_ok ?u" by (simp add: arrays_ok_def fields vals same)
  moreover have "watches ?u n w l = watches st n w l" for w l
    using unflagged_watches[OF assms(2), of n w l] by (simp add: watches_def fields)
  then have "all_watches ?u n (2 * num_variables ?u)" using assms(1) by (simp add: rup_inv_def all_watches_def fields same)
  ultimately show "idle ?u n" using assms(3) by (simp add: idle_def fields vals same)
  show "keeps_fully_watched n st ?u"
    using unflagged_clause(1)[OF assms(2)] by (simp add: keeps_watched_def watched_in_def fields same)
  show "same_core st ?u" using same_core_unflagged[OF assms(2)] by (simp add: same_core_def fields)
qed

lemma needed_unassign_all [simp]: "needed (unassign_all st) = needed st"
  by (simp add: needed_def unassign_all_def)

text \<open>The clauses a check at \<open>n\<close> may use, among the marked ones \<open>N\<close>, hold.\<close>

definition active_hold :: "drat_checker \<Rightarrow> nat \<Rightarrow> nat set \<Rightarrow> (nat \<Rightarrow> bool) \<Rightarrow> bool" where
  "active_hold st n N v \<longleftrightarrow> (\<forall>i. active st n i \<longrightarrow> i \<in> N \<longrightarrow> holds v (literals_at st i))"

lemma active_hold_mono: "active_hold st n N' v \<Longrightarrow> N \<subseteq> N' \<Longrightarrow> active_hold st n N v"
  by (auto simp: active_hold_def)

lemma active_hold_core: "same_core st st' \<Longrightarrow> active_hold st' n N v = active_hold st n N v"
proof -
  assume core: "same_core st st'"
  have "holds v (literals_at st' i) = holds v (literals_at st i)" if "active st n i" for i
    using same_core_clause(4)[OF core] that by (simp add: active_def)
  then show ?thesis using same_core_active[OF core] by (auto simp: active_hold_def)
qed

text \<open>The check returns, keeps the invariant, marks clauses it may use only, and is right when it succeeds.\<close>

theorem HasRupProperty_spec:
  assumes "idle st n" "clause_ok (num_variables st) C"
  obtains b st' where "HasRupProperty n C st = Some (b, st')" "idle st' n" "same_core st st'"
    "needed st \<subseteq> needed st'" "needed st' \<subseteq> needed st \<union> {i. active st n i}"
    "\<And>v. b \<Longrightarrow> active_hold st n (needed st') v \<Longrightarrow> holds v C" "keeps_fully_watched n st st'"
proof -
  obtain cf st1 where fals: "falsify_literals n C st = (cf, st1)" by fastforce
  have f: "rup_inv st1 n C" "same_problem st st1" "\<forall>i. cf = Some i \<longrightarrow> conflict_at st1 n i"
    "keeps_fully_watched n st st1"
    using falsify_literals_spec[OF fals idle_rup_inv[OF assms(1)] assms(2)] assms(1) by (auto simp: idle_def)
  define st2 where "st2 = foldl (push_single n) st1 (single_literal_clauses st1)"
  have re: "rup_inv st2 n C" "reordered st1 st2" "keeps_fully_watched n st1 st2" using push_single_spec[OF f(1) subset_refl] by (simp_all add: st2_def)
  note s = re(1) same_problem_reordered[OF re(2)]
  have "conflict_at st2 n i" if "cf = Some i" for i
    using f(3) that conflict_at_reordered[OF re(2)] by simp
  then obtain cf3 st3 where loop: "unit_loop n cf st2 = Some (cf3, st3)" and l: "rup_inv st3 n C" "same_problem st2 st3"
    "\<forall>i. cf3 = Some i \<longrightarrow> conflict_at st3 n i" "keeps_fully_watched n st2 st3"
    using unit_loop_spec[OF s(1), of cf] by blast
  define st4 where "st4 = (case cf3 of None \<Rightarrow> st3 | Some i \<Rightarrow> MarkAsNeededForProof i st3)"
  have rup: "HasRupProperty n C st = Some (cf3 \<noteq> None, unassign_all st4)"
    by (simp add: HasRupProperty_def fals st2_def[symmetric] loop st4_def)
  have prob: "same_problem st st3" using f(2) s(2) l(2) same_problem_trans by blast
  have un: "unflagged st4 = unflagged st3"
    using MarkAsNeededForProof_spec(1)[OF l(1)] l(3) by (cases cf3) (simp_all add: st4_def)
  have tmp: "tmp_assignment st3 = replicate (2 * num_variables st3) False"
    using assms(1) prob by (simp add: idle_def same_problem_def)
  note idle = idle_unassign_all[OF l(1) un tmp]
  have core: "same_core st (unassign_all st4)" using same_core_trans[OF same_core_problem[OF prob] idle(2)] .
  have act: "active st3 n i = active st n i" for i by (rule same_core_active[OF same_core_problem[OF prob]])
  have need: "needed st3 = needed st" by (rule needed_same_problem[OF prob])
  have keeps: "keeps_fully_watched n st (unassign_all st4)"
    using keeps_watched_trans[OF keeps_watched_trans[OF keeps_watched_trans[OF f(4) re(3)] l(4)] idle(3)] .
  show thesis
  proof (rule that[OF rup idle(1) core _ _ _ keeps])
    show "needed st \<subseteq> needed (unassign_all st4)" "needed (unassign_all st4) \<subseteq> needed st \<union> {i. active st n i}"
      using MarkAsNeededForProof_spec(2,3)[OF l(1)] l(3) need act by (cases cf3; simp add: st4_def)+
    fix v
    assume b: "cf3 \<noteq> None" and marked: "active_hold st n (needed (unassign_all st4)) v"
    obtain i where i: "cf3 = Some i" using b by blast
    show "holds v C"
    proof (rule MarkAsNeededForProof_spec(4)[OF l(1)])
      show "conflict_at st3 n i" using l(3) i by simp
      show "holds v (literals_at st3 j)" if "active st3 n j" "j \<in> needed (MarkAsNeededForProof i st3)" for j
        using marked that act same_core_clause(4)[OF same_core_problem[OF prob], of j v]
        by (auto simp: active_hold_def st4_def i active_def)
    qed
  qed
qed

end
