(* ===== verification/DratSound.thy ===== *)
theory DratSound
  imports DratTrail
begin

text \<open>
  From the check of one clause to the check of a proof: resolution, the RAT check, the backward pass over
  the inferred clauses, and what loading a problem and a proof establishes.
\<close>

section \<open>Resolution\<close>

lemma resolve_loop_eq:
  "resolve_loop p a ls res = Some R \<longleftrightarrow>
     (\<forall>l \<in> set ls. l \<noteq> Negated p \<longrightarrow> \<not> Assignment_LiteralIsFalse a l) \<and>
     R = res @ filter (\<lambda>l. l \<noteq> Negated p \<and> \<not> Assignment_LiteralIsAssigned a l) ls"
  by (induction ls arbitrary: res) auto

lemma assign_all:
  assumes "length a = 2 * m" "\<forall>l \<in> set ls. l < 2 * m"
  shows "length (foldl (\<lambda>a l. AssignFromTrueLiteral l a) a ls) = 2 * m \<and>
    (\<forall>x. Assignment_LiteralIsTrue (foldl (\<lambda>a l. AssignFromTrueLiteral l a) a ls) x \<longleftrightarrow>
      x \<in> set ls \<or> Assignment_LiteralIsTrue a x)"
  using assms
proof (induction ls arbitrary: a)
  case (Cons l ls)
  have "length (AssignFromTrueLiteral l a) = 2 * m" "\<forall>l \<in> set ls. l < 2 * m" using Cons.prems by simp_all
  note IH = Cons.IH[OF this]
  then show ?case using true_AssignFromTrueLiteral[of l a] Cons.prems by auto
qed simp

lemma Resolve_spec:
  assumes "clause_ok m C" "clause_ok m D" "p \<in> set C" "Negated p \<in> set D"
    "Resolve C D p (replicate (2 * m) False) = (R, a)"
  shows "a = replicate (2 * m) False"
    "\<And>r. R = Some r \<Longrightarrow> clause_ok m r \<and> set r = (set C - {p}) \<union> (set D - {Negated p})"
proof -
  define rest where "rest = filter (\<lambda>l. l \<noteq> p) C"
  define a1 where "a1 = foldl (\<lambda>a l. AssignFromTrueLiteral l a) (replicate (2 * m) False) rest"
  have bound: "\<forall>l \<in> set rest. l < 2 * m" using assms(1) by (auto simp: rest_def clause_ok_def)
  have len: "length a1 = 2 * m" and "\<And>x. Assignment_LiteralIsTrue a1 x \<longleftrightarrow>
      x \<in> set rest \<or> Assignment_LiteralIsTrue (replicate (2 * m) False) x"
    using assign_all[OF _ bound, of "replicate (2 * m) False"] by (simp_all add: a1_def)
  then have true: "Assignment_LiteralIsTrue a1 x \<longleftrightarrow> x \<in> set rest" if "x < 2 * m" for x
    using that by (simp add: Assignment_LiteralIsTrue_def)
  have run: "R = resolve_loop p a1 D rest" "a = foldl (\<lambda>a l. UnassignLiteral l a) a1 rest"
    using assms(5) by (simp_all add: Resolve_def Let_def rest_def a1_def)
  show "a = replicate (2 * m) False"
    unfolding run(2) by (rule unassign_values[OF len bound]) (simp add: true)
  fix r assume "R = Some r"
  then have r: "\<forall>l \<in> set D. l \<noteq> Negated p \<longrightarrow> \<not> Assignment_LiteralIsFalse a1 l"
    "r = rest @ filter (\<lambda>l. l \<noteq> Negated p \<and> \<not> Assignment_LiteralIsAssigned a1 l) D"
    using run(1) by (simp_all add: resolve_loop_eq)
  have false: "Assignment_LiteralIsFalse a1 x \<longleftrightarrow> Negated x \<in> set rest" if "x < 2 * m" for x
    using true[of "Negated x"] that by (simp add: Assignment_LiteralIsFalse_Negated)
  have D: "x < 2 * m" if "x \<in> set D" for x using assms(2) that by (simp add: clause_ok_def)
  have clash: "Negated x \<notin> set rest" if "x \<in> set D" "x \<noteq> Negated p" for x using r(1) that false[OF D[OF that(1)]] by auto
  have added: "x \<in> set r \<longleftrightarrow> x \<in> set rest \<or> x \<in> set D \<and> x \<noteq> Negated p" for x
    using r(2) true[OF D] false[OF D] clash by (auto simp: Assignment_LiteralIsAssigned_iff)
  have "set rest = set C - {p}" by (auto simp: rest_def)
  then have set_r: "set r = (set C - {p}) \<union> (set D - {Negated p})" using added by auto
  have "distinct r"
    using assms(1,2) r(2) true[OF D] by (auto simp: rest_def clause_ok_def Assignment_LiteralIsAssigned_iff)
  moreover have "Negated x \<notin> set r" if x: "x \<in> set r" for x
  proof -
    have "Negated x \<notin> set rest" if "x \<in> set rest" using assms(1) that by (auto simp: rest_def clause_ok_def)
    moreover have "Negated x \<notin> set D" if "x \<in> set D" using assms(2) that by (auto simp: clause_ok_def)
    moreover have "Negated x \<notin> set rest" if "x \<in> set D" "x \<noteq> Negated p" using clash[OF that] .
    moreover have "x \<notin> set rest" if "Negated x \<in> set D" "Negated x \<noteq> Negated p" using clash[OF that] by simp
    ultimately show ?thesis using x unfolding added by blast
  qed
  moreover have "x < 2 * m" if "x \<in> set r" for x using that bound D unfolding added by blast
  ultimately show "clause_ok m r \<and> set r = (set C - {p}) \<union> (set D - {Negated p})"
    using set_r by (simp add: clause_ok_def)
qed

text \<open>Making the pivot true repairs an assignment when every resolvent holds.\<close>

lemma rat_repair:
  assumes "p \<in> set C" "\<not> holds v C" "Negated p \<notin> set C"
    "\<And>D. D \<in> F \<Longrightarrow> holds v D" "\<And>D l. D \<in> F \<Longrightarrow> l \<in> set D \<Longrightarrow> Negated l \<notin> set D"
    "\<And>D. D \<in> F \<Longrightarrow> Negated p \<in> set D \<Longrightarrow> \<exists>l \<in> (set C - {p}) \<union> (set D - {Negated p}). lit_true v l"
  defines "v' \<equiv> v(Variable p := even p)"
  shows "holds v' C" "\<And>D. D \<in> F \<Longrightarrow> holds v' D"
proof -
  have p: "lit_true v' p" by (simp add: v'_def lit_true_update)
  then show "holds v' C" using assms(1) by (auto simp: holds_def)
  fix D assume D: "D \<in> F"
  have keep: "lit_true v' l" if "lit_true v l" "l \<noteq> Negated p" for l
    using that p by (auto simp: v'_def lit_true_update Variable_eq_iff)
  show "holds v' D"
  proof (cases "Negated p \<in> set D")
    case True
    then obtain l where "l \<in> set D" "l \<noteq> Negated p" "lit_true v l"
      using assms(6)[OF D] assms(2) by (auto simp: holds_def)
    then show ?thesis using keep by (auto simp: holds_def)
  next
    case False
    then show ?thesis using assms(4)[OF D] keep by (auto simp: holds_def)
  qed
qed

section \<open>The RAT check\<close>

lemma idle_clause_ok: "idle st n \<Longrightarrow> i < length (clauses st) \<Longrightarrow> clause_ok (num_variables st) (literals_at st i)"
  by (simp add: idle_def arrays_ok_def)

lemma rat_loop_spec:
  assumes "idle st i" "i < length (clauses st)" "p \<in> set (literals_at st i)" "\<forall>j \<in> set js. j < i"
  obtains b st' where "rat_loop i p js st = Some (b, st')" "idle st' i" "same_core st st'"
    "needed st \<subseteq> needed st'" "needed st' \<subseteq> needed st \<union> {j. active st i j}"
    "\<And>v j. b \<Longrightarrow> j \<in> set js \<Longrightarrow> active st i j \<Longrightarrow> Negated p \<in> set (literals_at st j) \<Longrightarrow>
       active_hold st i (needed st') v \<Longrightarrow>
       \<exists>l \<in> (set (literals_at st i) - {p}) \<union> (set (literals_at st j) - {Negated p}). lit_true v l"
  using assms
proof (induction js arbitrary: st thesis)
  case Nil
  show ?case by (rule Nil.prems(1)[of True st]) (use Nil.prems in auto)
next
  case (Cons j js)
  have j: "j < i" "j < length (clauses st)" using Cons.prems(3,5) by auto
  show ?case
  proof (cases "\<not> IsDeleted (clause_at st j) i \<and> Negated p \<in> set (literals_at st j)")
    case False
    then have eq: "rat_loop i p (j # js) st = rat_loop i p js st" by auto
    have bound: "\<forall>j \<in> set js. j < i" using Cons.prems(5) by simp
    show ?thesis
    proof (rule Cons.IH[OF _ Cons.prems(2-4) bound])
      fix b st'
      assume res: "rat_loop i p js st = Some (b, st')" "idle st' i" "same_core st st'"
        "needed st \<subseteq> needed st'" "needed st' \<subseteq> needed st \<union> {j. active st i j}"
        "\<And>v j. b \<Longrightarrow> j \<in> set js \<Longrightarrow> active st i j \<Longrightarrow> Negated p \<in> set (literals_at st j) \<Longrightarrow>
           active_hold st i (needed st') v \<Longrightarrow>
           \<exists>l \<in> (set (literals_at st i) - {p}) \<union> (set (literals_at st j) - {Negated p}). lit_true v l"
      show thesis
        by (rule Cons.prems(1)[OF res(1)[folded eq] res(2-5)]) (use False res(6) in \<open>auto simp: active_def\<close>)
    qed
  next
    case True
    obtain R a where R: "Resolve (literals_at st i) (literals_at st j) p (tmp_assignment st) = (R, a)" by fastforce
    have tmp: "tmp_assignment st = replicate (2 * num_variables st) False" using Cons.prems(2) by (simp add: idle_def)
    note spec = Resolve_spec[OF idle_clause_ok[OF Cons.prems(2,3)] idle_clause_ok[OF Cons.prems(2) j(2)]
        Cons.prems(4) conjunct2[OF True] R[unfolded tmp]]
    have st_a: "st\<lparr> tmp_assignment := a \<rparr> = st" using spec(1) tmp by simp
    show ?thesis
    proof (cases R)
      case None
      have "rat_loop i p (j # js) st = Some (False, st)" using True R None st_a by simp
      then show ?thesis by (rule Cons.prems(1)) (use Cons.prems in auto)
    next
      case (Some r)
      have r: "clause_ok (num_variables st) r"
        "set r = (set (literals_at st i) - {p}) \<union> (set (literals_at st j) - {Negated p})" using spec(2)[OF Some] by simp_all
      obtain b1 st1 where rup: "HasRupProperty i r st = Some (b1, st1)" "idle st1 i" "same_core st st1"
        "needed st \<subseteq> needed st1" "needed st1 \<subseteq> needed st \<union> {j. active st i j}"
        "\<And>v. b1 \<Longrightarrow> active_hold st i (needed st1) v \<Longrightarrow> holds v r"
        by (rule HasRupProperty_spec[OF Cons.prems(2) r(1)]) (rule that)
      show ?thesis
      proof (cases b1)
        case False
        then have "rat_loop i p (j # js) st = Some (False, st1)" using True R Some st_a rup(1) by simp
        then show ?thesis by (rule Cons.prems(1)) (use rup in auto)
      next
        case b1: True
        then have eq: "rat_loop i p (j # js) st = rat_loop i p js st1" using True R Some st_a rup(1) by simp
        have len: "i < length (clauses st1)" using Cons.prems(3) rup(3) by (simp add: same_core_def)
        have sets: "set (literals_at st1 k) = set (literals_at st k)" if "k < length (clauses st)" for k
          by (rule same_core_clause(1)[OF rup(3) that])
        have p1: "p \<in> set (literals_at st1 i)" using sets[OF Cons.prems(3)] Cons.prems(4) by simp
        have bound: "\<forall>j \<in> set js. j < i" using Cons.prems(5) by simp
        show ?thesis
        proof (rule Cons.IH[OF _ rup(2) len p1 bound])
          fix b st'
          assume res: "rat_loop i p js st1 = Some (b, st')" "idle st' i" "same_core st1 st'"
            "needed st1 \<subseteq> needed st'" "needed st' \<subseteq> needed st1 \<union> {j. active st1 i j}"
            "\<And>v j. b \<Longrightarrow> j \<in> set js \<Longrightarrow> active st1 i j \<Longrightarrow> Negated p \<in> set (literals_at st1 j) \<Longrightarrow>
               active_hold st1 i (needed st') v \<Longrightarrow>
               \<exists>l \<in> (set (literals_at st1 i) - {p}) \<union> (set (literals_at st1 j) - {Negated p}). lit_true v l"
          note act = same_core_active[OF rup(3)]
          show thesis
          proof (rule Cons.prems(1)[OF res(1)[folded eq] res(2) same_core_trans[OF rup(3) res(3)]])
            show "needed st \<subseteq> needed st'" "needed st' \<subseteq> needed st \<union> {j. active st i j}"
              using rup(4,5) res(4,5) act by auto
            fix v k assume k: "b" "k \<in> set (j # js)" "active st i k" "Negated p \<in> set (literals_at st k)"
              "active_hold st i (needed st') v"
            have k_len: "k < length (clauses st)" using k(3) by (simp add: active_def)
            show "\<exists>l \<in> (set (literals_at st i) - {p}) \<union> (set (literals_at st k) - {Negated p}). lit_true v l"
            proof (cases "k \<in> set js")
              case True
              then show ?thesis
                using res(6)[OF k(1) True, of v] k(3-5) act sets[OF k_len] sets[OF Cons.prems(3)] active_hold_core[OF rup(3)]
                by simp
            next
              case False
              then have "k = j" using k(2) by simp
              have "holds v r" by (rule rup(6)[OF b1]) (rule active_hold_mono[OF k(5) res(4)])
              then show ?thesis using r(2) \<open>k = j\<close> by (simp add: holds_def)
            qed
          qed
        qed
      qed
    qed
  qed
qed

section \<open>Watching more clauses\<close>

definition unwatched :: "drat_checker \<Rightarrow> nat \<Rightarrow> bool" where
  "unwatched st j \<longleftrightarrow> (\<forall>x < 2 * num_variables st. j \<notin> set (watched_literals st ! x))"

lemma WatchClause_only: "WatchClause j st = st\<lparr> watched_literals := watched_literals (WatchClause j st) \<rparr>"
  by (simp add: WatchClause_def Let_def)

lemma WatchClause_spec:
  assumes "arrays_ok st" "all_watches st n (2 * num_variables st)" "j < length (clauses st)"
    "2 \<le> length (literals_at st j)" "j < n \<longrightarrow> \<not> IsDeleted (clause_at st j) n" "unwatched st j"
  shows "arrays_ok (WatchClause j st)" "all_watches (WatchClause j st) n (2 * num_variables st)"
    "\<And>k. k \<noteq> j \<Longrightarrow> unwatched st k \<Longrightarrow> unwatched (WatchClause j st) k"
proof -
  let ?l0 = "literals_at st j ! 0" and ?l1 = "literals_at st j ! 1"
  have take2: "set (take 2 (literals_at st j)) = {?l0, ?l1}"
    using assms(4) by (cases "literals_at st j"; cases "tl (literals_at st j)") (auto simp: numeral_2_eq_2)
  have ok: "clause_ok (num_variables st) (literals_at st j)" using assms(1,3) by (simp add: arrays_ok_def)
  have len: "0 < length (literals_at st j)" "1 < length (literals_at st j)" using assms(4) by linarith+
  have "distinct (literals_at st j)" using ok by (simp add: clause_ok_def)
  from nth_eq_iff_index_eq[OF this len] have "?l0 \<noteq> ?l1" by simp
  moreover have "?l0 < 2 * num_variables st" "?l1 < 2 * num_variables st"
    using ok nth_mem[OF len(1)] nth_mem[OF len(2)] by (simp_all add: clause_ok_def)
  ultimately have w: "watched_literals (WatchClause j st) ! x =
      watched_literals st ! x @ (if x = ?l0 \<or> x = ?l1 then [j] else [])" if "x < 2 * num_variables st" for x
    using assms(1) that by (auto simp: WatchClause_def Let_def arrays_ok_def nth_list_update)
  have same: "clauses (WatchClause j st) = clauses st" "num_variables (WatchClause j st) = num_variables st"
    by (simp_all add: WatchClause_def Let_def)
  show "arrays_ok (WatchClause j st)"
    using assms(1) by (simp add: arrays_ok_def WatchClause_def Let_def)
  have "watches (WatchClause j st) n (watched_literals (WatchClause j st) ! x) x" if x: "x < 2 * num_variables st" for x
    using assms(2-6) x take2 w[OF x] by (auto simp: all_watches_def watches_def unwatched_def same)
  then show "all_watches (WatchClause j st) n (2 * num_variables st)" by (simp add: all_watches_def same)
  show "unwatched (WatchClause j st) k" if "k \<noteq> j" "unwatched st k" for k
    using that w by (auto simp: unwatched_def same)
qed

lemma watch_all:
  assumes "arrays_ok st" "all_watches st n (2 * num_variables st)" "distinct js"
    "\<And>j. j \<in> set js \<Longrightarrow> j < length (clauses st) \<and> 2 \<le> length (literals_at st j) \<and>
      (j < n \<longrightarrow> \<not> IsDeleted (clause_at st j) n) \<and> unwatched st j"
  defines "st' \<equiv> foldl (\<lambda>st j. WatchClause j st) st js"
  shows "arrays_ok st' \<and> all_watches st' n (2 * num_variables st) \<and> st' = st\<lparr> watched_literals := watched_literals st' \<rparr>"
  using assms(1-4) unfolding st'_def
proof (induction js arbitrary: st)
  case (Cons j js)
  let ?st1 = "WatchClause j st"
  note only = WatchClause_only[of j st]
  have same: "clauses ?st1 = clauses st" "num_variables ?st1 = num_variables st" by (subst only, simp)+
  have j: "j < length (clauses st)" "2 \<le> length (literals_at st j)" "j < n \<longrightarrow> \<not> IsDeleted (clause_at st j) n"
    "unwatched st j" using Cons.prems(4)[of j] by auto
  note w = WatchClause_spec[OF Cons.prems(1,2) j]
  have "arrays_ok (foldl (\<lambda>st j. WatchClause j st) ?st1 js) \<and>
      all_watches (foldl (\<lambda>st j. WatchClause j st) ?st1 js) n (2 * num_variables ?st1) \<and>
      foldl (\<lambda>st j. WatchClause j st) ?st1 js =
      ?st1\<lparr> watched_literals := watched_literals (foldl (\<lambda>st j. WatchClause j st) ?st1 js) \<rparr>"
  proof (rule Cons.IH)
    show "k < length (clauses ?st1) \<and> 2 \<le> length (literals_at ?st1 k) \<and>
      (k < n \<longrightarrow> \<not> IsDeleted (clause_at ?st1 k) n) \<and> unwatched ?st1 k" if "k \<in> set js" for k
      using Cons.prems(3,4) w(3)[of k] that same by auto
  qed (use w same Cons.prems(3) in simp_all)
  moreover have "?st1\<lparr> watched_literals := W \<rparr> = st\<lparr> watched_literals := W \<rparr>" for W by (subst only) simp
  ultimately show ?case using same by simp
qed simp

section \<open>The start of the check\<close>

lemma Init_spec:
  assumes "\<forall>c \<in> set (clauses st). clause_ok (num_variables st) (cl_literals c)"
  shows "idle (Init st) (length (clauses st))" "clauses (Init st) = clauses st"
    "num_variables (Init st) = num_variables st" "first_inferred_clause_index (Init st) = first_inferred_clause_index st"
proof -
  let ?step = "\<lambda>st i. let c = clause_at st i
    in if length (cl_literals c) \<ge> 2 then (if deleted_index c = None then WatchClause i st else st)
       else if length (cl_literals c) = 1 then st\<lparr> single_literal_clauses := single_literal_clauses st @ [i] \<rparr>
       else st"
  define st0 where "st0 = st\<lparr> assigned := [], assigned_values := replicate (2 * num_variables st) False,
            assignment_source := replicate (num_variables st) None, high_priority_literals := [],
            low_priority_literals := [], watched_literals := replicate (2 * num_variables st) [],
            single_literal_clauses := [], unit_stack := [],
            tmp_assignment := replicate (2 * num_variables st) False, num_rat_checks := 0 \<rparr>"
  define n where "n = length (clauses st)"
  define good where "good = (\<lambda>s k. idle s n \<and> clauses s = clauses st \<and> num_variables s = num_variables st \<and>
    first_inferred_clause_index s = first_inferred_clause_index st \<and> (\<forall>j \<ge> k. unwatched s j))"
  have "good st0 0"
    using assms by (simp add: good_def st0_def idle_def arrays_ok_def all_watches_def watches_def pending_def unwatched_def)
  moreover have "good (?step s k) (Suc k)" if g: "good s k" and k: "k < n" for s k
  proof -
    have same: "clauses s = clauses st" "num_variables s = num_variables st"
      "first_inferred_clause_index s = first_inferred_clause_index st" "\<forall>j \<ge> k. unwatched s j" and id: "idle s n"
      using g by (simp_all add: good_def)
    consider (watch) "2 \<le> length (literals_at s k)" "deleted_index (clause_at s k) = None"
      | (single) "length (literals_at s k) = 1" | (other) "?step s k = s" by (fastforce simp: Let_def)
    then show ?thesis
    proof cases
      case watch
      then have step: "?step s k = WatchClause k s" by simp
      note only = WatchClause_only[of k s]
      have "k < length (clauses s)" "k < n \<longrightarrow> \<not> IsDeleted (clause_at s k) n" "unwatched s k"
        using k same watch(2) by (simp_all add: n_def IsDeleted_def)
      note w = WatchClause_spec[OF _ _ this(1) watch(1) this(2,3)]
      have "pending (WatchClause k s) = pending s" "assigned (WatchClause k s) = assigned s"
        "num_variables (WatchClause k s) = num_variables s" "assigned_values (WatchClause k s) = assigned_values s"
        "unit_stack (WatchClause k s) = unit_stack s" "tmp_assignment (WatchClause k s) = tmp_assignment s"
        "clauses (WatchClause k s) = clauses s"
        "first_inferred_clause_index (WatchClause k s) = first_inferred_clause_index s"
        by (simp_all add: WatchClause_def Let_def pending_def)
      then show ?thesis unfolding step using w id same by (simp add: good_def idle_def)
    next
      case single
      then have step: "?step s k = s\<lparr> single_literal_clauses := single_literal_clauses s @ [k] \<rparr>" by simp
      show ?thesis unfolding step using id same single k
        by (simp add: good_def idle_def arrays_ok_def all_watches_def watches_def pending_def unwatched_def n_def)
    next
      case other
      show ?thesis unfolding other using g by (simp add: good_def)
    qed
  qed
  then have "good (foldl ?step s [k..<n]) n" if "good s k" "k \<le> n" for s k
    using that
  proof (induction "n - k" arbitrary: s k)
    case (Suc m)
    then have "k < n" by simp
    then have "[k..<n] = k # [Suc k..<n]" by (rule upt_conv_Cons)
    moreover have "good (foldl ?step (?step s k) [Suc k..<n]) n"
      by (rule Suc.hyps(1)) (use Suc.hyps(2) Suc.prems \<open>k < n\<close> in simp_all)
    ultimately show ?case by simp
  qed simp
  ultimately have "good (foldl ?step st0 [0..<n]) n" by simp
  then have "good (Init st) n" by (simp add: Init_def st0_def n_def)
  then show "idle (Init st) (length (clauses st))" "clauses (Init st) = clauses st"
    "num_variables (Init st) = num_variables st" "first_inferred_clause_index (Init st) = first_inferred_clause_index st"
    by (simp_all add: good_def n_def)
qed

section \<open>The backward pass\<close>

definition deletions_ok :: "drat_checker \<Rightarrow> bool" where
  "deletions_ok st \<longleftrightarrow> (\<forall>i < length (clauses st). distinct (deleted_clauses (clause_at st i)) \<and>
     (\<forall>j \<in> set (deleted_clauses (clause_at st i)). j \<le> i \<and> 2 \<le> length (literals_at st j) \<and>
        deleted_index (clause_at st j) = Some (i + 1)))"

definition rats_ok :: "drat_checker \<Rightarrow> bool" where
  "rats_ok st \<longleftrightarrow> (\<forall>i < length (clauses st). \<forall>l. rat_literal_index (clause_at st i) = Some l \<longrightarrow> l \<in> set (literals_at st i))"

lemma deletions_ok_core: "same_core st st' \<Longrightarrow> deletions_ok st \<Longrightarrow> deletions_ok st'"
  unfolding deletions_ok_def
proof (intro allI impI conjI ballI)
  fix i assume core: "same_core st st'" and ok: "\<forall>i<length (clauses st). distinct (deleted_clauses (clause_at st i)) \<and>
     (\<forall>j \<in> set (deleted_clauses (clause_at st i)). j \<le> i \<and> 2 \<le> length (literals_at st j) \<and>
        deleted_index (clause_at st j) = Some (i + 1))" and "i < length (clauses st')"
  then have i: "i < length (clauses st)" "deleted_clauses (clause_at st' i) = deleted_clauses (clause_at st i)"
    by (simp_all add: same_core_def)
  then show "distinct (deleted_clauses (clause_at st' i))" using ok by simp
  fix j assume "j \<in> set (deleted_clauses (clause_at st' i))"
  then have j: "j \<le> i" "2 \<le> length (literals_at st j)" "deleted_index (clause_at st j) = Some (i + 1)" "j < length (clauses st)"
    using ok i by fastforce+
  then show "j \<le> i" "2 \<le> length (literals_at st' j)" "deleted_index (clause_at st' j) = Some (i + 1)"
    using same_core_clause(2)[OF core j(4)] core by (simp_all add: same_core_def)
qed

lemma rats_ok_core: "same_core st st' \<Longrightarrow> rats_ok st \<Longrightarrow> rats_ok st'"
  using same_core_clause(1)[of st st'] by (simp add: rats_ok_def same_core_def)

text \<open>A clause may be added: an assignment of the marked clauses before it can be changed to satisfy it too.\<close>

definition justified :: "drat_checker \<Rightarrow> nat \<Rightarrow> nat set \<Rightarrow> bool" where
  "justified st i N \<longleftrightarrow>
     (\<forall>v. active_hold st i N v \<longrightarrow> (\<exists>v'. active_hold st i N v' \<and> holds v' (literals_at st i)))"

lemma justified_core: "same_core st st' \<Longrightarrow> i < length (clauses st) \<Longrightarrow> justified st' i N = justified st i N"
  unfolding justified_def by (simp add: active_hold_core same_core_clause(4))

lemma idle_watch_deleted:
  assumes "idle st (Suc m)" "deletions_ok st" "m < length (clauses st)"
  defines "st1 \<equiv> foldl (\<lambda>st j. WatchClause j st) st (deleted_clauses (clause_at st m))"
  shows "idle st1 m" "same_core st st1" "needed st1 = needed st"
proof -
  have del: "\<not> IsDeleted c m" if "\<not> IsDeleted c (Suc m)" for c
    using that by (auto simp: IsDeleted_def split: option.splits)
  have aw: "all_watches st m (2 * num_variables st)"
    using assms(1) del by (fastforce simp: idle_def all_watches_def watches_def)
  have js: "distinct (deleted_clauses (clause_at st m))"
    "\<And>j. j \<in> set (deleted_clauses (clause_at st m)) \<Longrightarrow> j \<le> m \<and> 2 \<le> length (literals_at st j) \<and>
        deleted_index (clause_at st j) = Some (Suc m)"
    using assms(2,3) by (auto simp: deletions_ok_def)
  have "unwatched st j" if "j \<in> set (deleted_clauses (clause_at st m))" for j
    using js(2)[OF that] assms(1) by (fastforce simp: unwatched_def idle_def all_watches_def watches_def IsDeleted_def)
  then have "arrays_ok st1 \<and> all_watches st1 m (2 * num_variables st) \<and> st1 = st\<lparr> watched_literals := watched_literals st1 \<rparr>"
    unfolding st1_def
    by (intro watch_all) (use assms(1,3) aw js in \<open>fastforce simp: idle_def IsDeleted_def\<close>)+
  then have st1: "arrays_ok st1" "all_watches st1 m (2 * num_variables st)"
    and only: "st1 = st\<lparr> watched_literals := watched_literals st1 \<rparr>" by simp_all
  have fields: "num_variables st1 = num_variables st" "clauses st1 = clauses st" "pending st1 = pending st"
    "assigned st1 = assigned st" "assigned_values st1 = assigned_values st" "unit_stack st1 = unit_stack st"
    "tmp_assignment st1 = tmp_assignment st" "first_inferred_clause_index st1 = first_inferred_clause_index st"
    by (subst only, simp add: pending_def)+
  show "idle st1 m" using assms(1) st1 by (simp add: idle_def fields)
  show "same_core st st1" by (simp add: same_core_def fields)
  show "needed st1 = needed st" by (simp add: needed_def fields)
qed

lemma idle_count: "idle (st\<lparr> num_rat_checks := x \<rparr>) n = idle st n"
  by (simp add: idle_def arrays_ok_def all_watches_def watches_def pending_def)

text \<open>The outcome of a pass: it returns, and when the proof is valid every marked clause that it went through is
  justified.\<close>

definition pass_result :: "drat_checker \<Rightarrow> nat \<Rightarrow> nat \<Rightarrow> (drat_status \<times> drat_checker) option \<Rightarrow> bool" where
  "pass_result st f k out \<longleftrightarrow>
     (\<exists>r st'. out = Some (r, st') \<and>
       (r = VALID \<longrightarrow> same_core st st' \<and> needed st \<subseteq> needed st' \<and> needed st' \<subseteq> needed st \<union> {..<k - 1} \<and>
          (\<forall>i \<in> needed st'. f \<le> i \<longrightarrow> i < k \<longrightarrow> justified st i (needed st'))))"

lemma pass_result_step:
  assumes "pass_result st1 f m out" "same_core st st1" "needed st \<subseteq> needed st1" "needed st1 \<subseteq> needed st \<union> {..<m}"
    "m < length (clauses st)" "m \<in> needed st \<Longrightarrow> (\<And>N. needed st1 \<subseteq> N \<Longrightarrow> justified st m N)"
  shows "pass_result st f (Suc m) out"
proof -
  obtain r st' where out: "out = Some (r, st')" and valid: "r = VALID \<Longrightarrow> same_core st1 st' \<and> needed st1 \<subseteq> needed st' \<and>
      needed st' \<subseteq> needed st1 \<union> {..<m - 1} \<and> (\<forall>i \<in> needed st'. f \<le> i \<longrightarrow> i < m \<longrightarrow> justified st1 i (needed st'))"
    using assms(1) by (auto simp: pass_result_def)
  have "same_core st st' \<and> needed st \<subseteq> needed st' \<and> needed st' \<subseteq> needed st \<union> {..<Suc m - 1} \<and>
      (\<forall>i \<in> needed st'. f \<le> i \<longrightarrow> i < Suc m \<longrightarrow> justified st i (needed st'))" if "r = VALID"
  proof (intro conjI ballI impI)
    note v = valid[OF that]
    show "same_core st st'" using same_core_trans[OF assms(2)] v by blast
    show "needed st \<subseteq> needed st'" using v assms(3) by blast
    show "needed st' \<subseteq> needed st \<union> {..<Suc m - 1}" using v assms(4) by fastforce
    fix i assume i: "i \<in> needed st'" "f \<le> i" "i < Suc m"
    show "justified st i (needed st')"
    proof (cases "i = m")
      case True
      then have "m \<in> needed st" using i(1) v assms(4) by fastforce
      then show ?thesis using assms(6)[of "needed st'"] v True by blast
    next
      case False
      then show ?thesis using v i justified_core[OF assms(2), of i] assms(5) by auto
    qed
  qed
  then show ?thesis using out by (auto simp: pass_result_def)
qed

lemma pass_result_invalid: "r \<noteq> VALID \<Longrightarrow> pass_result st f k (Some (r, st'))"
  by (simp add: pass_result_def)

lemma rup_justified:
  assumes "same_core st st1" "m < length (clauses st)"
    "\<And>v. active_hold st1 m N' v \<Longrightarrow> holds v (literals_at st1 m)" "N' \<subseteq> N"
  shows "justified st m N"
  unfolding justified_def using assms(3) active_hold_mono[OF _ assms(4)]
  by (metis active_hold_core[OF assms(1)] same_core_clause(4)[OF assms(1,2)])

lemma rat_justified:
  assumes "idle st m" "m < length (clauses st)" "p \<in> set (literals_at st m)" "N' \<subseteq> N"
    "\<And>v j. active st m j \<Longrightarrow> Negated p \<in> set (literals_at st j) \<Longrightarrow> active_hold st m N' v \<Longrightarrow>
       \<exists>l \<in> (set (literals_at st m) - {p}) \<union> (set (literals_at st j) - {Negated p}). lit_true v l"
  shows "justified st m N"
  unfolding justified_def
proof (intro allI impI)
  fix v assume v: "active_hold st m N v"
  have v': "active_hold st m N' v" by (rule active_hold_mono[OF v assms(4)])
  have ok: "clause_ok (num_variables st) (literals_at st j)" if "j < length (clauses st)" for j
    by (rule idle_clause_ok[OF assms(1) that])
  show "\<exists>v'. active_hold st m N v' \<and> holds v' (literals_at st m)"
  proof (cases "holds v (literals_at st m)")
    case False
    let ?F = "{literals_at st j |j. active st m j \<and> j \<in> N}"
    note repair = rat_repair[of p "literals_at st m" v ?F]
    have notin: "Negated p \<notin> set (literals_at st m)" using ok[OF assms(2)] assms(3) by (simp add: clause_ok_def)
    have F: "holds v D" "\<And>l. l \<in> set D \<Longrightarrow> Negated l \<notin> set D"
      "Negated p \<in> set D \<Longrightarrow> \<exists>l \<in> (set (literals_at st m) - {p}) \<union> (set D - {Negated p}). lit_true v l"
      if D: "D \<in> ?F" for D
    proof -
      obtain j where j: "D = literals_at st j" "active st m j" "j \<in> N" using D by blast
      show "holds v D" using v j by (simp add: active_hold_def)
      show "Negated l \<notin> set D" if "l \<in> set D" for l using ok[of j] j that by (simp add: clause_ok_def active_def)
      show "\<exists>l \<in> (set (literals_at st m) - {p}) \<union> (set D - {Negated p}). lit_true v l" if "Negated p \<in> set D"
        using assms(5)[OF j(2) _ v'] that j(1) by simp
    qed
    have "holds (v(Variable p := even p)) (literals_at st m)" "\<And>D. D \<in> ?F \<Longrightarrow> holds (v(Variable p := even p)) D"
      by (rule repair[OF assms(3) False notin F], assumption+)+
    then show ?thesis by (intro exI[of _ "v(Variable p := even p)"]) (auto simp: active_hold_def)
  qed (use v in blast)
qed

lemma check_loop_spec:
  assumes "idle st k" "deletions_ok st" "rats_ok st" "f \<le> k" "k \<le> length (clauses st)"
  shows "pass_result st f k (check_loop limit_reached (rev [f..<k]) st)"
  using assms
proof (induction "k - f" arbitrary: k st)
  case 0
  then show ?case by (auto simp: pass_result_def)
next
  case (Suc d)
  then obtain m where k: "k = Suc m" "f \<le> m" by (cases k) auto
  then have d: "d = m - f" and m: "m < length (clauses st)" using Suc.hyps(2) Suc.prems by simp_all
  have indices: "rev [f..<k] = m # rev [f..<m]" using k by simp
  define st1 where "st1 = foldl (\<lambda>st j. WatchClause j st) st (deleted_clauses (clause_at st m))"
  note st1 = idle_watch_deleted[OF Suc.prems(1)[unfolded k] Suc.prems(2) m, folded st1_def]
  have rec: "pass_result st2 f m (check_loop limit_reached (rev [f..<m]) st2)" if "idle st2 m" "same_core st st2" for st2
    by (rule Suc.hyps(1)[OF d that(1) deletions_ok_core[OF that(2) Suc.prems(2)] rats_ok_core[OF that(2) Suc.prems(3)] k(2)])
      (use m that(2) in \<open>simp add: same_core_def\<close>)
  show ?case
  proof (cases "limit_reached m")
    case True
    then have "check_loop limit_reached (rev [f..<k]) st = Some (UNKNOWN, st)" by (simp add: indices)
    then show ?thesis by (simp add: pass_result_invalid)
  next
    case on: False
    have m1: "m < length (clauses st1)" using m st1(2) by (simp add: same_core_def)
    have need: "is_needed_for_proof (clause_at st1 m) \<longleftrightarrow> m \<in> needed st" using m1 st1(3) by (auto simp: needed_def)
    show ?thesis
    proof (cases "m \<in> needed st")
      case False
      then have eq: "check_loop limit_reached (rev [f..<k]) st = check_loop limit_reached (rev [f..<m]) st1"
        using on need by (simp add: indices st1_def[symmetric])
      show ?thesis unfolding eq unfolding k(1)
        by (rule pass_result_step[OF rec[OF st1(1,2)] st1(2) _ _ m]) (use False st1(3) in auto)
    next
      case marked: True
      obtain b st2 where rup: "HasRupProperty m (literals_at st1 m) st1 = Some (b, st2)" "idle st2 m" "same_core st1 st2"
        "needed st1 \<subseteq> needed st2" "needed st2 \<subseteq> needed st1 \<union> {i. active st1 m i}"
        "\<And>v. b \<Longrightarrow> active_hold st1 m (needed st2) v \<Longrightarrow> holds v (literals_at st1 m)"
        by (rule HasRupProperty_spec[OF st1(1) idle_clause_ok[OF st1(1) m1]]) (rule that)
      have core2: "same_core st st2" by (rule same_core_trans[OF st1(2) rup(3)])
      have bound2: "needed st2 \<subseteq> needed st \<union> {..<m}" using rup(5) st1(3) by (auto simp: active_def)
      show ?thesis
      proof (cases b)
        case True
        then have eq: "check_loop limit_reached (rev [f..<k]) st = check_loop limit_reached (rev [f..<m]) st2"
          using on need marked rup(1) by (simp add: indices st1_def[symmetric])
        have "justified st m N" if "needed st2 \<subseteq> N" for N
          by (rule rup_justified[OF st1(2) m rup(6)[OF True] that])
        then show ?thesis
          unfolding eq unfolding k(1) using rup(4) st1(3)
          by (intro pass_result_step[OF rec[OF rup(2) core2] core2 _ bound2 m]) simp_all
      next
        case not_rup: False
        show ?thesis
        proof (cases "rat_literal_index (clause_at st2 m)")
          case None
          then have "check_loop limit_reached (rev [f..<k]) st = Some (INVALID, st2)"
            using on need marked rup(1) not_rup by (simp add: indices st1_def[symmetric])
          then show ?thesis by (simp add: pass_result_invalid)
        next
          case (Some p)
          define st2' where "st2' = st2\<lparr> num_rat_checks := num_rat_checks st2 + 1 \<rparr>"
          have core2': "same_core st st2'" using core2 by (simp add: st2'_def same_core_def)
          have m2: "m < length (clauses st2')" using m core2' by (simp add: same_core_def)
          have "rats_ok st2'" by (rule rats_ok_core[OF core2' Suc.prems(3)])
          then have p: "p \<in> set (literals_at st2' m)" using Some m2 by (simp add: rats_ok_def st2'_def)
          have idle2: "idle st2' m" using rup(2) by (simp add: st2'_def idle_count)
          have need2: "needed st2' = needed st2" by (simp add: st2'_def needed_def)
          have js: "\<forall>j \<in> set [0..<m]. j < m" by simp
          obtain b3 st3 where rat: "rat_loop m p [0..<m] st2' = Some (b3, st3)" "idle st3 m" "same_core st2' st3"
            "needed st2' \<subseteq> needed st3" "needed st3 \<subseteq> needed st2' \<union> {j. active st2' m j}"
            "\<And>v j. b3 \<Longrightarrow> j \<in> set [0..<m] \<Longrightarrow> active st2' m j \<Longrightarrow> Negated p \<in> set (literals_at st2' j) \<Longrightarrow>
               active_hold st2' m (needed st3) v \<Longrightarrow>
               \<exists>l \<in> (set (literals_at st2' m) - {p}) \<union> (set (literals_at st2' j) - {Negated p}). lit_true v l"
            by (rule rat_loop_spec[OF idle2 m2 p js]) (rule that)
          have core3: "same_core st st3" by (rule same_core_trans[OF core2' rat(3)])
          have bound3: "needed st3 \<subseteq> needed st \<union> {..<m}" using rat(5) need2 bound2 by (auto simp: active_def)
          show ?thesis
          proof (cases b3)
            case False
            then have "check_loop limit_reached (rev [f..<k]) st = Some (INVALID, st3)"
              using on need marked rup(1) not_rup Some rat(1)[unfolded st2'_def]
              by (simp add: indices st1_def[symmetric])
            then show ?thesis by (simp add: pass_result_invalid)
          next
            case True
            then have eq: "check_loop limit_reached (rev [f..<k]) st = check_loop limit_reached (rev [f..<m]) st3"
              using on need marked rup(1) not_rup Some rat(1)[unfolded st2'_def]
              by (simp add: indices st1_def[symmetric])
            have "justified st m N" if "needed st3 \<subseteq> N" for N
            proof -
              have "justified st2' m N"
                by (rule rat_justified[OF idle2 m2 p that])
                  (use rat(6)[OF True] in \<open>auto simp: active_def\<close>)
              then show ?thesis using justified_core[OF core2' m] by simp
            qed
            then show ?thesis
              unfolding eq unfolding k(1) using rat(4) need2 rup(4) st1(3)
              by (intro pass_result_step[OF rec[OF rat(2) core3] core3 _ bound3 m]) auto
          qed
        qed
      qed
    qed
  qed
qed

section \<open>What loading establishes\<close>

text \<open>The clauses as they are before the check: well formed, none marked, and a clause is deleted just after
  the clause that lists it.\<close>

definition loaded :: "drat_checker \<Rightarrow> bool" where
  "loaded st \<longleftrightarrow>
     (\<forall>i < length (clauses st). clause_ok (num_variables st) (literals_at st i) \<and> \<not> is_needed_for_proof (clause_at st i)) \<and>
     deletions_ok st \<and> rats_ok st \<and> distinct (clause_set st) \<and>
     (\<forall>j \<in> set (clause_set st). j < length (clauses st) \<and> deleted_index (clause_at st j) = None) \<and>
     (\<forall>f. first_inferred_clause_index st = Some f \<longrightarrow> f \<le> length (clauses st))"

text \<open>The clauses before the first inferred one are clauses of the problem.\<close>

definition from_problem :: "literal list list \<Rightarrow> drat_checker \<Rightarrow> bool" where
  "from_problem problem st \<longleftrightarrow>
     (\<forall>i < length (clauses st). (\<forall>f. first_inferred_clause_index st = Some f \<longrightarrow> i < f) \<longrightarrow>
        (\<exists>c \<in> set problem. set (literals_at st i) = set c))"

lemma sorted_clause:
  fixes c :: "literal list"
  assumes "ls = remdups_adj (sort c)"
  shows "set ls = set c" "sorted_wrt (<) ls" "distinct ls"
proof -
  show "set ls = set c" by (simp add: assms)
  have "sorted xs \<Longrightarrow> sorted_wrt (<) (remdups_adj xs)" for xs :: "literal list"
    by (induction xs rule: remdups_adj.induct) (auto simp: order_less_le)
  then show "sorted_wrt (<) ls" by (simp add: assms)
  then show "distinct ls" by (simp add: strict_sorted_iff)
qed

lemma adjacent_negation:
  assumes "sorted_wrt (<) ls" "l \<in> set ls" "Negated l \<in> set ls"
  shows "\<exists>i \<in> set [1..<length ls]. ls ! i = Negated (ls ! (i - 1))"
proof -
  have *: "\<exists>i \<in> set [1..<length ls]. ls ! i = Negated (ls ! (i - 1))"
    if l: "l \<in> set ls" "Negated l \<in> set ls" "Negated l = l + 1" for l
  proof -
    obtain i j where i: "i < length ls" "ls ! i = l" and j: "j < length ls" "ls ! j = l + 1"
      using l by (auto simp: in_set_conv_nth)
    have less: "ls ! x < ls ! y \<longleftrightarrow> x < y" if "x < length ls" "y < length ls" for x y
      using assms(1) that by (metis linorder_neqE_nat order_less_asym sorted_wrt_iff_nth_less)
    have "i < j" using less[OF i(1) j(1)] i(2) j(2) by simp
    moreover have "\<not> i + 1 < j"
    proof
      assume "i + 1 < j"
      then have "ls ! i < ls ! (i + 1)" "ls ! (i + 1) < ls ! j" using less i(1) j(1) by simp_all
      then show False using i(2) j(2) by simp
    qed
    ultimately have "j = i + 1" by simp
    then show ?thesis using i j l(3) by (intro bexI[of _ j]) auto
  qed
  show ?thesis
  proof (cases "even l")
    case True
    then show ?thesis using *[of l] assms by (simp add: Negated_eq)
  next
    case False
    then have "Negated (Negated l) = Negated l + 1" by (auto simp: Negated_eq elim: oddE)
    then show ?thesis using *[of "Negated l"] assms by simp
  qed
qed

lemma clause_ok_mono: "clause_ok n ls \<Longrightarrow> n \<le> m \<Longrightarrow> clause_ok m ls"
  by (fastforce simp: clause_ok_def)

lemma MaybeAddClause_None: "MaybeAddClause c st = (None, st1) \<Longrightarrow> st1 = st"
  by (simp add: MaybeAddClause_def Let_def split: if_splits)

lemma MaybeAddClause_Some:
  assumes "MaybeAddClause c st = (Some i, st1)"
  obtains ls where "i = length (clauses st)" "clauses st1 = clauses st @ [Clause ls]" "set ls = set c"
    "clause_ok (num_variables st1) ls" "num_variables st \<le> num_variables st1" "clause_set st1 = clause_set st"
    "first_inferred_clause_index st1 = first_inferred_clause_index st"
proof -
  define ls where "ls = remdups_adj (sort c)"
  note ls = sorted_clause[OF ls_def]
  have no: "\<not> (\<exists>i \<in> set [1..<length ls]. ls ! i = Negated (ls ! (i - 1)))" and i: "i = length (clauses st)"
    and st1: "st1 = st\<lparr> clauses := clauses st @ [Clause ls],
      num_variables := (if c = [] then num_variables st else max (num_variables st) (Variable (last ls) + 1)) \<rparr>"
    using assms by (simp_all add: MaybeAddClause_def Let_def ls_def[symmetric] split: if_splits)
  have "l < 2 * num_variables st1" if l: "l \<in> set ls" for l
  proof -
    have "l \<le> last ls" using ls(2) l by (cases ls rule: rev_cases) (auto simp: sorted_wrt_append)
    moreover have "c \<noteq> []" using l ls(1) by auto
    ultimately have "Variable l < num_variables st1" by (simp add: st1 Variable_def less_max_iff_disj div_le_mono less_Suc_eq_le)
    then show ?thesis by (simp add: Variable_less)
  qed
  then have "clause_ok (num_variables st1) ls"
    using ls(3) no adjacent_negation[OF ls(2)] by (auto simp: clause_ok_def)
  then show thesis using that[of ls] i ls(1) by (simp add: st1)
qed

text \<open>Loading only appends clauses, counts copies and records deletions.\<close>

definition uncounted :: "drat_clause \<Rightarrow> drat_clause" where
  "uncounted c = c\<lparr> num_copies := 0 \<rparr>"

lemma uncounted_clause:
  assumes "map uncounted cs' = map uncounted cs" "i < length cs"
  shows "cl_literals (cs' ! i) = cl_literals (cs ! i)" "rat_literal_index (cs' ! i) = rat_literal_index (cs ! i)"
    "deleted_index (cs' ! i) = deleted_index (cs ! i)" "deleted_clauses (cs' ! i) = deleted_clauses (cs ! i)"
    "is_needed_for_proof (cs' ! i) = is_needed_for_proof (cs ! i)"
proof -
  have "uncounted (cs' ! i) = uncounted (cs ! i)" using assms by (metis length_map nth_map)
  then show "cl_literals (cs' ! i) = cl_literals (cs ! i)" "rat_literal_index (cs' ! i) = rat_literal_index (cs ! i)"
    "deleted_index (cs' ! i) = deleted_index (cs ! i)" "deleted_clauses (cs' ! i) = deleted_clauses (cs ! i)"
    "is_needed_for_proof (cs' ! i) = is_needed_for_proof (cs ! i)"
    by (cases "cs ! i"; cases "cs' ! i"; simp add: uncounted_def)+
qed

lemma loaded_uncounted:
  assumes "loaded st" "map uncounted (clauses st') = map uncounted (clauses st)" "num_variables st \<le> num_variables st'"
    "clause_set st' = clause_set st" "\<forall>f. first_inferred_clause_index st' = Some f \<longrightarrow> f \<le> length (clauses st)"
  shows "loaded st'"
proof -
  note same = uncounted_clause[OF assms(2)]
  have len: "length (clauses st') = length (clauses st)" using assms(2) map_eq_imp_length_eq by blast
  have "clause_ok (num_variables st') (literals_at st' i)" "\<not> is_needed_for_proof (clause_at st' i)"
    if "i < length (clauses st)" for i
    using assms(1,3) same[OF that] that clause_ok_mono by (auto simp: loaded_def)
  moreover have "deletions_ok st'"
    unfolding deletions_ok_def len
  proof (intro allI impI)
    fix i assume i: "i < length (clauses st)"
    have old: "distinct (deleted_clauses (clause_at st i))"
      "\<And>j. j \<in> set (deleted_clauses (clause_at st i)) \<Longrightarrow>
        j \<le> i \<and> 2 \<le> length (literals_at st j) \<and> deleted_index (clause_at st j) = Some (i + 1)"
      using assms(1) i by (auto simp: loaded_def deletions_ok_def)
    have "j \<le> i \<and> 2 \<le> length (literals_at st' j) \<and> deleted_index (clause_at st' j) = Some (i + 1)"
      if "j \<in> set (deleted_clauses (clause_at st i))" for j
    proof -
      have "j < length (clauses st)" using old(2)[OF that] i by linarith
      from same(1,3)[OF this] show ?thesis using old(2)[OF that] by simp
    qed
    then show "distinct (deleted_clauses (clause_at st' i)) \<and> (\<forall>j \<in> set (deleted_clauses (clause_at st' i)).
        j \<le> i \<and> 2 \<le> length (literals_at st' j) \<and> deleted_index (clause_at st' j) = Some (i + 1))"
      using old(1) same(4)[OF i] by simp
  qed
  moreover have "rats_ok st'" using assms(1) same(1,2) by (simp add: loaded_def rats_ok_def len)
  ultimately show ?thesis using assms(1,4,5) same(3) by (simp add: loaded_def len)
qed

lemma from_problem_uncounted:
  assumes "from_problem problem st" "map uncounted (clauses st') = map uncounted (clauses st)"
    "\<And>i. i < length (clauses st) \<Longrightarrow> (\<forall>f. first_inferred_clause_index st' = Some f \<longrightarrow> i < f) \<Longrightarrow>
       (\<forall>f. first_inferred_clause_index st = Some f \<longrightarrow> i < f)"
  shows "from_problem problem st'"
proof -
  have "length (clauses st') = length (clauses st)" by (rule map_eq_imp_length_eq[OF assms(2)])
  moreover have "set (literals_at st' i) = set (literals_at st i)" if "i < length (clauses st)" for i
    using uncounted_clause(1)[OF assms(2) that] by simp
  ultimately show ?thesis
    unfolding from_problem_def using assms(1,3) by (metis from_problem_def)
qed

text \<open>A copy of a clause that is there only counts.\<close>

lemma map_uncounted_count:
  assumes "j < length cs"
  shows "map uncounted (clauses (RemoveLastClause (update_clause j (num_copies_update f) (st\<lparr> clauses := cs @ [c] \<rparr>)))) =
    map uncounted cs"
proof -
  have "map uncounted (cs[j := num_copies_update f (cs ! j)]) = map uncounted cs"
    using assms by (intro nth_equalityI) (auto simp: nth_list_update uncounted_def)
  then show ?thesis using assms
    by (simp add: RemoveLastClause_def update_clause_def nth_append butlast_append list_update_append)
qed

lemma find_clause_Some:
  assumes "find_clause i st = Some j"
  shows "j \<in> set (clause_set st)" "literals_at st j = literals_at st i"
  using assms by (auto simp: find_clause_def find_Some_iff in_set_conv_nth)

text \<open>A new clause at the end.\<close>

lemma loaded_append:
  assumes "loaded st" "clauses st' = clauses st @ [c]" "num_variables st \<le> num_variables st'"
    "clause_ok (num_variables st') (cl_literals c)" "\<not> is_needed_for_proof c" "deleted_clauses c = []" "deleted_index c = None"
    "\<forall>l. rat_literal_index c = Some l \<longrightarrow> l \<in> set (cl_literals c)"
    "clause_set st' = length (clauses st) # clause_set st"
    "\<forall>f. first_inferred_clause_index st' = Some f \<longrightarrow> f \<le> length (clauses st')"
  shows "loaded st'"
proof -
  have old: "clause_at st' i = clause_at st i" if "i < length (clauses st)" for i
    using that assms(2) by (simp add: nth_append)
  have new: "clause_at st' (length (clauses st)) = c" using assms(2) by simp
  have cases: "i < length (clauses st) \<or> i = length (clauses st)" if "i < length (clauses st')" for i
    using that assms(2) by auto
  have "clause_ok (num_variables st') (literals_at st' i) \<and> \<not> is_needed_for_proof (clause_at st' i)"
    if "i < length (clauses st')" for i
    using cases[OF that] old[of i] new assms(1,3-5) clause_ok_mono by (auto simp: loaded_def)
  moreover have "deletions_ok st'"
    unfolding deletions_ok_def
  proof (intro allI impI)
    fix i assume "i < length (clauses st')"
    then consider "i < length (clauses st)" | "i = length (clauses st)" using cases by blast
    then show "distinct (deleted_clauses (clause_at st' i)) \<and> (\<forall>j \<in> set (deleted_clauses (clause_at st' i)).
        j \<le> i \<and> 2 \<le> length (literals_at st' j) \<and> deleted_index (clause_at st' j) = Some (i + 1))"
    proof cases
      case 1
      have "deletions_ok st" using assms(1) by (simp add: loaded_def)
      then have "distinct (deleted_clauses (clause_at st i))" "\<forall>j \<in> set (deleted_clauses (clause_at st i)).
        j \<le> i \<and> 2 \<le> length (literals_at st j) \<and> deleted_index (clause_at st j) = Some (i + 1)"
        using 1 by (auto simp: deletions_ok_def)
      then show ?thesis using old[OF 1] old 1 by auto
    qed (simp add: new assms(6))
  qed
  moreover have "rats_ok st'"
    unfolding rats_ok_def using cases old new assms(1,8) by (metis loaded_def rats_ok_def)
  moreover have "distinct (clause_set st')" using assms(1,9) by (auto simp: loaded_def)
  moreover have "j < length (clauses st') \<and> deleted_index (clause_at st' j) = None" if "j \<in> set (clause_set st')" for j
    using that assms(1,7,9) old[of j] new assms(2) by (auto simp: loaded_def)
  ultimately show ?thesis using assms(10) by (simp add: loaded_def)
qed

lemma Clause_simps [simp]:
  "cl_literals (Clause ls) = ls" "rat_literal_index (Clause ls) = None" "deleted_index (Clause ls) = None"
  "deleted_clauses (Clause ls) = []" "\<not> is_needed_for_proof (Clause ls)"
  by (simp_all add: Clause_def)

lemma RemoveLastClause_simps [simp]:
  "num_variables (RemoveLastClause st) = num_variables st" "clause_set (RemoveLastClause st) = clause_set st"
  "first_inferred_clause_index (RemoveLastClause st) = first_inferred_clause_index st"
  by (simp_all add: RemoveLastClause_def)

lemma update_clause_simps [simp]:
  "num_variables (update_clause i g st) = num_variables st" "clause_set (update_clause i g st) = clause_set st"
  "first_inferred_clause_index (update_clause i g st) = first_inferred_clause_index st"
  by (simp_all add: update_clause_def)

lemma AddProblemClause_loaded:
  assumes "loaded st" "from_problem problem st" "first_inferred_clause_index st = None"
  shows "loaded (AddProblemClause c st)" "from_problem (problem @ [c]) (AddProblemClause c st)"
    "first_inferred_clause_index (AddProblemClause c st) = None"
proof -
  have more: "from_problem (problem @ [c]) st" using assms(2) by (fastforce simp: from_problem_def)
  have "loaded (AddProblemClause c st) \<and> from_problem (problem @ [c]) (AddProblemClause c st) \<and>
    first_inferred_clause_index (AddProblemClause c st) = None"
  proof (cases "MaybeAddClause c st")
    case (Pair oi st1)
    show ?thesis
    proof (cases oi)
      case None
      then have "st1 = st" using MaybeAddClause_None Pair by simp
      then have "AddProblemClause c st = st" using Pair None by (simp add: AddProblemClause_def)
      then show ?thesis using assms(1,3) more by simp
    next
      case (Some i)
      obtain ls where add: "i = length (clauses st)" "clauses st1 = clauses st @ [Clause ls]" "set ls = set c"
        "clause_ok (num_variables st1) ls" "num_variables st \<le> num_variables st1" "clause_set st1 = clause_set st"
        "first_inferred_clause_index st1 = first_inferred_clause_index st"
        by (rule MaybeAddClause_Some[OF Pair[unfolded Some]]) (rule that)
      show ?thesis
      proof (cases "find_clause i st1")
        case None
        then have eq: "AddProblemClause c st = st1\<lparr> clause_set := i # clause_set st1 \<rparr>"
          using Pair Some by (simp add: AddProblemClause_def)
        have "loaded (AddProblemClause c st)"
          unfolding eq by (rule loaded_append[OF assms(1), where c = "Clause ls"]) (use add assms(3) in simp_all)
        moreover have "from_problem (problem @ [c]) (AddProblemClause c st)"
          unfolding eq from_problem_def using more add assms(3)
          by (auto simp: from_problem_def nth_append less_Suc_eq)
        ultimately show ?thesis using add(7) assms(3) eq by simp
      next
        case (Some j)
        have j: "j < length (clauses st)"
          using find_clause_Some(1)[OF Some] assms(1) add(6) by (auto simp: loaded_def)
        have eq: "AddProblemClause c st = RemoveLastClause (update_clause j (num_copies_update (\<lambda>n. n + 1)) st1)"
          using Pair \<open>oi = Some i\<close> Some by (simp add: AddProblemClause_def)
        have "st1 = st1\<lparr> clauses := clauses st @ [Clause ls] \<rparr>" using add(2) by simp
        then have un: "map uncounted (clauses (AddProblemClause c st)) = map uncounted (clauses st)"
          unfolding eq by (metis map_uncounted_count[OF j])
        have first: "first_inferred_clause_index (AddProblemClause c st) = None" using add(7) assms(3) eq by simp
        have "loaded (AddProblemClause c st)"
          by (rule loaded_uncounted[OF assms(1) un]) (use add eq first in simp_all)
        moreover have "from_problem (problem @ [c]) (AddProblemClause c st)"
          by (rule from_problem_uncounted[OF more un]) (simp add: assms(3))
        ultimately show ?thesis using first by blast
      qed
    qed
  qed
  then show "loaded (AddProblemClause c st)" "from_problem (problem @ [c]) (AddProblemClause c st)"
    "first_inferred_clause_index (AddProblemClause c st) = None" by simp_all
qed

lemma AddInferredClause_loaded:
  assumes "loaded st" "from_problem problem st" "AddInferredClause c st = Some st'"
  shows "loaded st'" "from_problem problem st'"
proof -
  obtain i st1 where maybe: "MaybeAddClause c st = (Some i, st1)"
    using assms(3) by (auto simp: AddInferredClause_def split: prod.splits option.splits)
  obtain ls where add: "i = length (clauses st)" "clauses st1 = clauses st @ [Clause ls]" "set ls = set c"
    "clause_ok (num_variables st1) ls" "num_variables st \<le> num_variables st1" "clause_set st1 = clause_set st"
    "first_inferred_clause_index st1 = first_inferred_clause_index st"
    by (rule MaybeAddClause_Some[OF maybe]) (rule that)
  define first where "first = (case first_inferred_clause_index st1 of None \<Rightarrow> i | Some f \<Rightarrow> f)"
  define st2 where "st2 = st1\<lparr> first_inferred_clause_index := Some first \<rparr>"
  have first: "first \<le> length (clauses st)"
    "\<forall>f. first_inferred_clause_index st = Some f \<longrightarrow> f = first" "first_inferred_clause_index st = None \<longrightarrow> first = length (clauses st)"
    using assms(1) add(1,7) by (auto simp: first_def loaded_def split: option.splits)
  have "loaded st' \<and> from_problem problem st'"
  proof (cases "find_clause i st2")
    case None
    define r where "r = (if c = [] then None else Some (hd c))"
    have st': "st' = update_clause i (rat_literal_index_update (\<lambda>_. r)) (st2\<lparr> clause_set := i # clause_set st2 \<rparr>)"
      using assms(3) maybe None by (simp add: AddInferredClause_def Let_def first_def st2_def r_def)
    have cl: "clauses st' = clauses st @ [(Clause ls)\<lparr> rat_literal_index := r \<rparr>]"
      using add(1,2) by (simp add: st' update_clause_def st2_def list_update_append)
    have fields: "first_inferred_clause_index st' = Some first" "clause_set st' = i # clause_set st"
      "num_variables st' = num_variables st1" by (simp_all add: st' st2_def add(6))
    have "loaded st'"
    proof (rule loaded_append[OF assms(1) cl])
      show "\<forall>l. rat_literal_index ((Clause ls)\<lparr> rat_literal_index := r \<rparr>) = Some l \<longrightarrow>
        l \<in> set (cl_literals ((Clause ls)\<lparr> rat_literal_index := r \<rparr>))"
        using add(3) by (auto simp: r_def)
    qed (use add first(1) in \<open>simp_all add: fields cl\<close>)
    moreover have "from_problem problem st'"
      unfolding from_problem_def
    proof (intro allI impI)
      fix k assume "k < length (clauses st')" "\<forall>f. first_inferred_clause_index st' = Some f \<longrightarrow> k < f"
      then have "k < first" by (simp add: st' st2_def)
      then have "k < length (clauses st)" "\<forall>f. first_inferred_clause_index st = Some f \<longrightarrow> k < f" using first by auto
      then show "\<exists>c \<in> set problem. set (literals_at st' k) = set c"
        using assms(2) cl by (auto simp: from_problem_def nth_append)
    qed
    ultimately show ?thesis by simp
  next
    case (Some j)
    have j: "j < length (clauses st)"
      using find_clause_Some(1)[OF Some] assms(1) add(6) by (auto simp: loaded_def st2_def)
    have st': "st' = RemoveLastClause (update_clause j (num_copies_update (\<lambda>n. n + 1)) st2)"
      using assms(3) maybe Some by (auto simp: AddInferredClause_def Let_def first_def st2_def split: if_splits)
    have "st2 = st2\<lparr> clauses := clauses st @ [Clause ls] \<rparr>" using add(2) by (simp add: st2_def)
    then have un: "map uncounted (clauses st') = map uncounted (clauses st)"
      unfolding st' by (metis map_uncounted_count[OF j])
    have "loaded st'"
      by (rule loaded_uncounted[OF assms(1) un]) (use add first(1) in \<open>simp_all add: st' st2_def\<close>)
    moreover have "from_problem problem st'"
      by (rule from_problem_uncounted[OF assms(2) un]) (use first(2) in \<open>auto simp: st' st2_def\<close>)
    ultimately show ?thesis by simp
  qed
  then show "loaded st'" "from_problem problem st'" by simp_all
qed

text \<open>A deleted clause is listed by the last clause before the deletion.\<close>

lemma loaded_delete:
  assumes "loaded st" "j \<in> set (clause_set st)"
    "length (clauses st') = length (clauses st)" "num_variables st \<le> num_variables st'"
    "\<And>i. i < length (clauses st) \<Longrightarrow> literals_at st' i = literals_at st i \<and>
       rat_literal_index (clause_at st' i) = rat_literal_index (clause_at st i) \<and>
       is_needed_for_proof (clause_at st' i) = is_needed_for_proof (clause_at st i)"
    "\<And>i. i < length (clauses st) \<Longrightarrow> deleted_index (clause_at st' i) =
       (if i = j then Some (length (clauses st)) else deleted_index (clause_at st i))"
    "\<And>i. i < length (clauses st) \<Longrightarrow> deleted_clauses (clause_at st' i) =
       (if i + 1 = length (clauses st) \<and> 2 \<le> length (literals_at st j) then deleted_clauses (clause_at st i) @ [j]
        else deleted_clauses (clause_at st i))"
    "clause_set st' = remove1 j (clause_set st)"
    "first_inferred_clause_index st' = first_inferred_clause_index st"
  shows "loaded st'"
proof -
  have dels: "deletions_ok st" using assms(1) by (simp add: loaded_def)
  have j: "j < length (clauses st)" "deleted_index (clause_at st j) = None" using assms(1,2) by (auto simp: loaded_def)
  have "deletions_ok st'"
    unfolding deletions_ok_def assms(3)
  proof (intro allI impI)
    fix i assume i: "i < length (clauses st)"
    have old: "distinct (deleted_clauses (clause_at st i))"
      "\<And>k. k \<in> set (deleted_clauses (clause_at st i)) \<Longrightarrow>
        k \<le> i \<and> 2 \<le> length (literals_at st k) \<and> deleted_index (clause_at st k) = Some (i + 1)"
      using dels i by (auto simp: deletions_ok_def)
    have notin: "j \<notin> set (deleted_clauses (clause_at st i))" using old(2)[of j] j(2) by auto
    have keep: "k \<le> i \<and> 2 \<le> length (literals_at st' k) \<and> deleted_index (clause_at st' k) = Some (i + 1)"
      if "k \<in> set (deleted_clauses (clause_at st i))" for k
    proof -
      have "k < length (clauses st)" "k \<noteq> j" using old(2)[OF that] i notin that by auto
      then show ?thesis using old(2)[OF that] assms(5,6) by simp
    qed
    show "distinct (deleted_clauses (clause_at st' i)) \<and> (\<forall>k \<in> set (deleted_clauses (clause_at st' i)).
        k \<le> i \<and> 2 \<le> length (literals_at st' k) \<and> deleted_index (clause_at st' k) = Some (i + 1))"
      using old(1) notin keep assms(5,6)[OF j(1)] j(1) by (auto simp: assms(7)[OF i])
  qed
  moreover have "rats_ok st'" using assms(1,3,5) by (simp add: loaded_def rats_ok_def)
  moreover have "clause_ok (num_variables st') (literals_at st' i) \<and> \<not> is_needed_for_proof (clause_at st' i)"
    if "i < length (clauses st)" for i
    using assms(1,4) assms(5)[OF that] that clause_ok_mono by (auto simp: loaded_def)
  moreover have "distinct (clause_set st')" using assms(1,8) by (simp add: loaded_def)
  moreover have "k < length (clauses st') \<and> deleted_index (clause_at st' k) = None" if "k \<in> set (clause_set st')" for k
    using that assms(1,3,6,8) by (auto simp: loaded_def)
  ultimately show ?thesis using assms(1,3,9) by (simp add: loaded_def)
qed

lemma DeleteClause_loaded:
  assumes "loaded st" "from_problem problem st"
  shows "loaded (DeleteClause c st)" "from_problem problem (DeleteClause c st)"
proof -
  have "loaded (DeleteClause c st) \<and> from_problem problem (DeleteClause c st)"
  proof (cases "MaybeAddClause c st")
    case (Pair oi st1)
    show ?thesis
    proof (cases oi)
      case None
      then have "DeleteClause c st = st" using MaybeAddClause_None Pair by (simp add: DeleteClause_def)
      then show ?thesis using assms by simp
    next
      case (Some i)
      obtain ls where add: "i = length (clauses st)" "clauses st1 = clauses st @ [Clause ls]" "set ls = set c"
        "clause_ok (num_variables st1) ls" "num_variables st \<le> num_variables st1" "clause_set st1 = clause_set st"
        "first_inferred_clause_index st1 = first_inferred_clause_index st"
        by (rule MaybeAddClause_Some[OF Pair[unfolded Some]]) (rule that)
      let ?n = "length (clauses st)"
      show ?thesis
      proof (cases "find_clause i st1")
        case None
        then have eq: "DeleteClause c st = RemoveLastClause st1" using Pair Some by (simp add: DeleteClause_def)
        then have un: "map uncounted (clauses (DeleteClause c st)) = map uncounted (clauses st)"
          by (simp add: RemoveLastClause_def add(2))
        have "loaded (DeleteClause c st)"
          by (rule loaded_uncounted[OF assms(1) un]) (use add assms(1) in \<open>simp_all add: eq loaded_def\<close>)
        moreover have "from_problem problem (DeleteClause c st)"
          by (rule from_problem_uncounted[OF assms(2) un]) (simp add: eq add(7))
        ultimately show ?thesis by simp
      next
        case found: (Some j)
        have j: "j < ?n" "j \<in> set (clause_set st)" "literals_at st j = ls"
          using find_clause_Some[OF found] assms(1) add(1,2,6) by (auto simp: loaded_def nth_append)
        define st2 where "st2 = update_clause j (num_copies_update (\<lambda>n. n - 1)) st1"
        have st1: "st1 = st1\<lparr> clauses := clauses st @ [Clause ls] \<rparr>" using add(2) by simp
        show ?thesis
        proof (cases "num_copies (clause_at st2 j) = 0")
          case False
          then have eq: "DeleteClause c st = RemoveLastClause st2"
            using Pair Some found by (simp add: DeleteClause_def Let_def st2_def)
          then have un: "map uncounted (clauses (DeleteClause c st)) = map uncounted (clauses st)"
            unfolding eq st2_def by (metis st1 map_uncounted_count[OF j(1)])
          have "loaded (DeleteClause c st)"
            by (rule loaded_uncounted[OF assms(1) un]) (use add assms(1) in \<open>simp_all add: eq st2_def loaded_def\<close>)
          moreover have "from_problem problem (DeleteClause c st)"
            by (rule from_problem_uncounted[OF assms(2) un]) (simp add: eq st2_def add(7))
          ultimately show ?thesis by simp
        next
          case True
          define A where "A = (num_copies_update (\<lambda>n. n - 1) (clause_at st j))\<lparr> deleted_index := Some ?n \<rparr>"
          define cs where "cs = (clauses st)[j := A]"
          have st3: "clauses (update_clause j (deleted_index_update (\<lambda>_. Some (length (clauses st2) - 1))) st2) = cs @ [Clause ls]"
            using j(1) add(2) by (simp add: st2_def update_clause_def cs_def A_def nth_append list_update_append)
          have long: "length (cl_literals (Clause ls)) \<ge> 2 \<longleftrightarrow> 2 \<le> length (literals_at st j)" using j(3) by simp
          have eq: "clauses (DeleteClause c st) =
              (if 2 \<le> length (literals_at st j) then cs[?n - 1 := deleted_clauses_update (\<lambda>d. d @ [j]) (cs ! (?n - 1))] else cs)"
          proof -
            have "length cs = ?n" by (simp add: cs_def)
            moreover have "length (cs @ [Clause ls]) - 2 = ?n - 1" using j(1) by (simp add: cs_def)
            ultimately show ?thesis
              using Pair Some found True st3 j(1,3)
              by (simp add: DeleteClause_def Let_def st2_def[symmetric] RemoveLastClause_def)
                (auto simp: update_clause_def nth_append list_update_append butlast_append)
          qed
          have fields: "clause_set (DeleteClause c st) = remove1 j (clause_set st)"
            "num_variables (DeleteClause c st) = num_variables st1"
            "first_inferred_clause_index (DeleteClause c st) = first_inferred_clause_index st"
            using Pair Some found True add(6,7) by (simp_all add: DeleteClause_def Let_def st2_def)
          have len: "length (clauses (DeleteClause c st)) = ?n" by (simp add: eq cs_def)
          have nth: "clause_at (DeleteClause c st) k =
              (if k + 1 = ?n \<and> 2 \<le> length (literals_at st j) then deleted_clauses_update (\<lambda>d. d @ [j]) (cs ! k) else cs ! k)"
            if "k < ?n" for k using that by (auto simp: eq nth_list_update cs_def)
          have cs: "cs ! k = (if k = j then A else clause_at st k)" if "k < ?n" for k
            using that by (simp add: cs_def nth_list_update)
          have same: "literals_at (DeleteClause c st) k = literals_at st k"
            "rat_literal_index (clause_at (DeleteClause c st) k) = rat_literal_index (clause_at st k)"
            "is_needed_for_proof (clause_at (DeleteClause c st) k) = is_needed_for_proof (clause_at st k)"
            if "k < ?n" for k using that by (simp_all add: nth cs A_def)
          have "loaded (DeleteClause c st)"
          proof (rule loaded_delete[OF assms(1) j(2) len _ _ _ _ fields(1,3)])
            show "num_variables st \<le> num_variables (DeleteClause c st)" using add(5) fields(2) by simp
          qed (use same in \<open>simp_all add: nth cs A_def\<close>)
          moreover have "from_problem problem (DeleteClause c st)"
            using assms(2) same(1) len by (simp add: from_problem_def fields(3))
          ultimately show ?thesis by simp
        qed
      qed
    qed
  qed
  then show "loaded (DeleteClause c st)" "from_problem problem (DeleteClause c st)" by simp_all
qed

lemma load_loaded:
  assumes "load problem lines = Some st"
  shows "loaded st \<and> from_problem problem st"
proof -
  have init: "loaded DratChecker_init" "from_problem [] DratChecker_init" "first_inferred_clause_index DratChecker_init = None"
    by (simp_all add: loaded_def deletions_ok_def rats_ok_def from_problem_def DratChecker_init_def)
  have prob: "loaded (foldl (\<lambda>st c. AddProblemClause c st) st cs) \<and>
      from_problem (done @ cs) (foldl (\<lambda>st c. AddProblemClause c st) st cs)"
    if "loaded st" "from_problem done st" "first_inferred_clause_index st = None" for cs "done" st
    using that
  proof (induction cs arbitrary: "done" st)
    case (Cons c cs)
    note a = AddProblemClause_loaded[OF Cons.prems, of c]
    show ?case using Cons.IH[OF a] by simp
  qed simp
  have lines: "loaded st' \<and> from_problem problem st'"
    if "add_lines ls st = Some st'" "loaded st" "from_problem problem st" for ls st st'
    using that
  proof (induction ls arbitrary: st)
    case (Cons l ls)
    then obtain st1 where "add_line st l = Some st1" "add_lines ls st1 = Some st'" by (auto split: option.splits)
    moreover from this(1) have "loaded st1" "from_problem problem st1"
      using AddInferredClause_loaded[OF Cons.prems(2,3)] DeleteClause_loaded[OF Cons.prems(2,3)] by (cases l; auto)+
    ultimately show ?case using Cons.IH by blast
  qed simp
  show ?thesis using lines[OF assms[unfolded load_def]] prob[OF init, of problem] by simp
qed

end
