(* ===== verification/DratProps.thy ===== *)
theory DratProps
  imports DratSound
begin

text \<open>
  The properties of the DRAT proof checker: a proof accepted as valid really shows that the problem is
  unsatisfiable, the check always returns, and a check of one clause restores the watch lists.
\<close>

definition unsatisfiable :: "literal list list \<Rightarrow> bool" where
  "unsatisfiable F \<longleftrightarrow> (\<nexists>v. \<forall>c \<in> set F. holds v c)"

lemma set_needed_literals:
  assumes "\<And>l. rat_literal_index c = Some l \<Longrightarrow> l \<in> set (cl_literals c)"
  shows "set (needed_literals c) = set (cl_literals c)"
proof (cases "rat_literal_index c")
  case (Some l)
  define k where "k = length (takeWhile (\<lambda>x. x \<noteq> l) (cl_literals c))"
  have "l \<in> set ls \<Longrightarrow> length (takeWhile (\<lambda>x. x \<noteq> l) ls) < length ls" for ls
    by (induction ls) auto
  then have k: "k < length (cl_literals c)" using assms[OF Some] by (simp add: k_def)
  have "mset ((cl_literals c)[0 := cl_literals c ! k, k := cl_literals c ! 0]) = mset (cl_literals c)"
    using k by (intro mset_swap) auto
  then have "set ((cl_literals c)[0 := cl_literals c ! k, k := cl_literals c ! 0]) = set (cl_literals c)"
    by (metis set_mset_mset)
  then show ?thesis by (simp add: needed_literals_def Some Let_def k_def)
qed (simp add: needed_literals_def)

text \<open>The outcome of the check of a loaded proof.\<close>

lemma Check_loaded:
  assumes "loaded st" "first_inferred_clause_index st = Some first" "clauses st \<noteq> []" "cl_literals (last (clauses st)) = []"
  defines "st0 \<equiv> Init (update_clause (length (clauses st) - 1) (is_needed_for_proof_update (\<lambda>_. True)) st)"
  shows "pass_result st0 first (length (clauses st)) (Check limit_reached st)" "same_core st st0"
    "needed st0 = {length (clauses st) - 1}"
proof -
  let ?n = "length (clauses st)"
  let ?st1 = "update_clause (?n - 1) (is_needed_for_proof_update (\<lambda>_. True)) st"
  have n: "0 < ?n" using assms(3) by simp
  have at: "clause_at ?st1 i = (if i = ?n - 1 then (clause_at st i)\<lparr> is_needed_for_proof := True \<rparr> else clause_at st i)"
    if "i < ?n" for i
    using that by (simp add: update_clause_def nth_list_update)
  have len: "length (clauses ?st1) = ?n" by (simp add: update_clause_def)
  have "\<forall>c \<in> set (clauses ?st1). clause_ok (num_variables ?st1) (cl_literals c)"
    using assms(1) at len by (auto simp: in_set_conv_nth loaded_def)
  note init = Init_spec[OF this, folded st0_def]
  show core: "same_core st st0" using at len init by (simp add: same_core_def)
  show "needed st0 = {?n - 1}"
    using at len init(2) n assms(1) by (auto simp: needed_def loaded_def split: if_splits)
  have "Check limit_reached st = check_loop limit_reached (rev [first..<?n]) st0"
    using assms(2-4) by (simp add: Check_def st0_def)
  moreover have "pass_result st0 first ?n (check_loop limit_reached (rev [first..<?n]) st0)"
    by (rule check_loop_spec)
      (use assms(1,2) init(1,2) len core in \<open>auto simp: loaded_def intro: deletions_ok_core rats_ok_core\<close>)
  ultimately show "pass_result st0 first ?n (Check limit_reached st)" by simp
qed

text \<open>An assignment of the marked problem clauses extends over the marked clauses one after the other.\<close>

lemma justified_chain:
  assumes "\<And>i. f \<le> i \<Longrightarrow> i < m \<Longrightarrow> i \<in> N \<Longrightarrow> justified st i N" "active_hold st f N v" "f \<le> k" "k \<le> m"
  shows "\<exists>v. active_hold st k N v"
  using assms(3,4)
proof (induction k)
  case 0
  then show ?case using assms(2) by auto
next
  case (Suc k)
  have act: "active st (Suc k) i \<Longrightarrow> i = k \<or> active st k i" for i
    by (auto simp: active_def IsDeleted_def split: option.splits)
  show ?case
  proof (cases "f \<le> k")
    case True
    then obtain v where v: "active_hold st k N v" using Suc by auto
    show ?thesis
    proof (cases "k \<in> N")
      case True
      then obtain v' where "active_hold st k N v'" "holds v' (literals_at st k)"
        using assms(1)[OF \<open>f \<le> k\<close>] Suc.prems(2) v by (auto simp: justified_def)
      then show ?thesis using act by (auto simp: active_hold_def intro!: exI[of _ v'])
    next
      case False
      then show ?thesis using v act by (auto simp: active_hold_def intro!: exI[of _ v])
    qed
  next
    case False
    then show ?thesis using assms(2) Suc.prems(1) by (metis le_SucE)
  qed
qed

text \<open>C4: When the checker answers VALID for a problem and a proof, the clauses it extracts as the
  unsatisfiable part have no satisfying assignment, each of them is a clause of the problem up to order and
  duplicates, and so the problem is unsatisfiable.\<close>

theorem DratChecker_sound:
  assumes "load problem lines = Some st" "Check limit_reached st = Some (VALID, st')"
  shows "unsatisfiable (GetUnsatSubProblem st') \<and>
    (\<forall>c \<in> set (GetUnsatSubProblem st'). \<exists>d \<in> set problem. set c = set d) \<and> unsatisfiable problem"
proof -
  let ?n = "length (clauses st)"
  have ld: "loaded st" and fp: "from_problem problem st" using load_loaded[OF assms(1)] by simp_all
  obtain first where first: "first_inferred_clause_index st = Some first" and ne: "clauses st \<noteq> []"
    and empty: "cl_literals (last (clauses st)) = []"
    using assms(2) by (auto simp: Check_def split: option.splits if_splits)
  obtain st0 where st0: "pass_result st0 first ?n (Some (VALID, st'))" "same_core st st0" "needed st0 = {?n - 1}"
    using Check_loaded(1)[OF ld first ne empty, of limit_reached] Check_loaded(2,3)[OF ld first ne empty] assms(2)
    by metis
  then have core: "same_core st0 st'" and marked: "?n - 1 \<in> needed st'"
    and just: "\<And>i. i \<in> needed st' \<Longrightarrow> first \<le> i \<Longrightarrow> i < ?n \<Longrightarrow> justified st0 i (needed st')"
    by (auto simp: pass_result_def)
  have core': "same_core st st'" by (rule same_core_trans[OF st0(2) core])
  have le: "first \<le> ?n" using ld first by (simp add: loaded_def)
  have n: "0 < ?n" using ne by simp
  have last: "\<not> holds v (literals_at st0 (?n - 1))" for v
    using empty ne n same_core_clause(4)[OF st0(2), of "?n - 1" v] by (simp add: last_conv_nth holds_def)
  have rats: "rats_ok st'" using rats_ok_core[OF core'] ld by (simp add: loaded_def)
  have lits: "set (needed_literals (clause_at st' i)) = set (literals_at st i)" if "i < ?n" for i
  proof -
    have "set (needed_literals (clause_at st' i)) = set (literals_at st' i)"
      by (rule set_needed_literals) (use rats core' that in \<open>simp add: rats_ok_def same_core_def\<close>)
    then show ?thesis using same_core_clause(1)[OF core' that] by simp
  qed
  have sub: "set (GetUnsatSubProblem st') = needed_literals ` (\<lambda>i. clause_at st' i) ` {i. i < first \<and> i \<in> needed st'}"
    using first core' le by (auto simp: GetUnsatSubProblem_def GetClausesNeededForProof_def same_core_def needed_def)
  have "\<not> (\<forall>c \<in> set (GetUnsatSubProblem st'). holds v c)" for v
  proof
    assume v: "\<forall>c \<in> set (GetUnsatSubProblem st'). holds v c"
    have hold: "holds v (literals_at st0 i)" if "i < first" "i \<in> needed st'" for i
      using v that lits[of i] le same_core_clause(4)[OF st0(2), of i v] by (auto simp: sub holds_def)
    then have "active_hold st0 first (needed st') v" by (auto simp: active_hold_def active_def)
    then show False
    proof (cases "first = ?n")
      case True
      then show False using hold[OF _ marked] last n by auto
    next
      case False
      then have "first \<le> ?n - 1" using le by simp
      then obtain w where "active_hold st0 (?n - 1) (needed st') w"
        using justified_chain[of first "?n" "needed st'" st0 v "?n - 1"] just
          \<open>active_hold st0 first (needed st') v\<close> by auto
      then show False using just[OF marked \<open>first \<le> ?n - 1\<close>] n last by (auto simp: justified_def)
    qed
  qed
  then have unsat: "unsatisfiable (GetUnsatSubProblem st')" by (simp add: unsatisfiable_def)
  moreover have part: "\<exists>d \<in> set problem. set c = set d" if c: "c \<in> set (GetUnsatSubProblem st')" for c
  proof -
    obtain i where i: "i < first" "set c = set (literals_at st i)" using c lits le by (auto simp: sub)
    then show ?thesis using fp first le by (auto simp: from_problem_def)
  qed
  moreover have "unsatisfiable problem"
    unfolding unsatisfiable_def
  proof
    assume "\<exists>v. \<forall>c \<in> set problem. holds v c"
    then obtain v where "\<forall>c \<in> set problem. holds v c" by blast
    then have "\<forall>c \<in> set (GetUnsatSubProblem st'). holds v c" using part by (metis holds_def)
    then show False using unsat by (auto simp: unsatisfiable_def)
  qed
  ultimately show ?thesis by blast
qed

text \<open>The example of the unit test of the checker.\<close>

definition sample_problem :: "literal list list" where
  "sample_problem = map (List.map_filter Literal_of_signed) [[-2, 3], [1, 3], [-1, 2], [-1, -2], [1, -2], [2, -3]]"

definition sample_proof :: "proof_line list" where
  "sample_proof = [Infer (List.map_filter Literal_of_signed [-2]), Infer []]"

lemma sample_valid:
  "\<exists>st st'. load sample_problem sample_proof = Some st \<and> Check (\<lambda>_. False) st = Some (VALID, st')"
proof -
  have "load sample_problem sample_proof \<noteq> None" by code_simp
  then obtain st where st: "load sample_problem sample_proof = Some st" by blast
  have "map_option fst (Check (\<lambda>_. False) (the (load sample_problem sample_proof))) = Some VALID" by code_simp
  then show ?thesis using st by auto
qed

theorem DratChecker_sound_witness: "unsatisfiable sample_problem"
proof -
  obtain st st' where "load sample_problem sample_proof = Some st" "Check (\<lambda>_. False) st = Some (VALID, st')"
    using sample_valid by blast
  from DratChecker_sound[OF this] show ?thesis by blast
qed

text \<open>C5: The check of a loaded proof returns, whatever the proof: the propagation loops end.\<close>

theorem DratChecker_returns:
  assumes "load problem lines = Some st"
  shows "\<exists>status st'. Check limit_reached st = Some (status, st')"
proof (cases "first_inferred_clause_index st")
  case (Some first)
  show ?thesis
  proof (cases "clauses st = [] \<or> cl_literals (last (clauses st)) \<noteq> []")
    case False
    then show ?thesis
      using Check_loaded(1)[OF conjunct1[OF load_loaded[OF assms]] Some, of limit_reached]
      unfolding pass_result_def by blast
  qed (use Some in \<open>auto simp: Check_def\<close>)
qed (simp add: Check_def)

theorem DratChecker_returns_witness: "\<exists>status st'. Check (\<lambda>_. False) (the (load sample_problem sample_proof)) = Some (status, st')"
proof -
  obtain st where "load sample_problem sample_proof = Some st" using sample_valid by blast
  with DratChecker_returns[OF this, of "\<lambda>_. False"] show ?thesis by simp
qed

text \<open>C6: A check of one clause restores the state between checks: nothing is assigned, every watch list holds
  each clause at most once and only when the list is that of one of its first two literals, and no clause before
  the checked one is lost: those that were in the lists of both of their first two literals still are.  It permutes
  literals and sets marks only, it marks only clauses that it may use, and when it succeeds every assignment of the
  marked clauses satisfies the clause.\<close>

theorem HasRupProperty_invariant:
  assumes "idle st n" "clause_ok (num_variables st) C"
  shows "\<exists>b st'. HasRupProperty n C st = Some (b, st') \<and> idle st' n \<and> same_core st st' \<and>
    {i. i < n \<and> fully_watched st i} \<subseteq> {i. fully_watched st' i} \<and>
    needed st \<subseteq> needed st' \<and> needed st' \<subseteq> needed st \<union> {i. active st n i} \<and>
    (b \<longrightarrow> (\<forall>v. active_hold st n (needed st') v \<longrightarrow> holds v C))"
  by (rule HasRupProperty_spec[OF assms]) (auto simp: keeps_watched_def)

theorem HasRupProperty_invariant_witness:
  "\<exists>b st'. HasRupProperty 1 [2] (Init (AddProblemClause [0, 2] DratChecker_init)) = Some (b, st') \<and> idle st' 1 \<and>
    fully_watched st' 0"
proof -
  let ?st = "AddProblemClause [0, 2] DratChecker_init"
  have st: "length (clauses ?st) = 1" "num_variables ?st = 2" "\<forall>c \<in> set (clauses ?st). clause_ok 2 (cl_literals c)"
    by (simp_all add: AddProblemClause_def MaybeAddClause_def DratChecker_init_def find_clause_def Clause_def
        clause_ok_def Negated_eq Variable_def)
  have "idle (Init ?st) 1" "num_variables (Init ?st) = 2" using Init_spec[of ?st] st by simp_all
  moreover have "clause_ok 2 [2]" by (simp add: clause_ok_def Negated_eq)
  moreover have "fully_watched (Init ?st) 0" unfolding watched_in_def by code_simp
  ultimately show ?thesis using HasRupProperty_invariant[of "Init ?st" 1 "[2]"] by (auto 4 4)
qed

end
