(* ===== verification/ProtoProps.thy ===== *)
theory ProtoProps
  imports CpUtils
begin

text \<open>
  The properties of the helpers of \<open>or-tools/ortools/sat/cp_model_utils.cc\<close> on protos: the traversals of
  the references of a constraint, and the rewritings of linear expressions and constraints.
\<close>

abbreviation affine :: "int32 list \<Rightarrow> int64 list \<Rightarrow> int64 \<Rightarrow> LinearExpressionProto" where
  "affine vs cs k \<equiv> \<lparr> le_vars = vs, le_coeffs = cs, le_offset = k \<rparr>"

text \<open>C36: Renaming the variables, literals or intervals of a constraint renames exactly what the getters
  report, and leaves the other references and the kind of the constraint alone; an element constraint that
  uses neither of its two formats is the only exception.\<close>

theorem Apply_Get_references:
  assumes "element_format_fixed c"
  shows "GetReferencesUsedByCase (ApplyToAllVariablesOfCase f c) =
      \<lparr> ir_variables = map f (ir_variables (GetReferencesUsedByCase c)),
        ir_literals = ir_literals (GetReferencesUsedByCase c) \<rparr> \<and>
    GetReferencesUsedByCase (ApplyToAllLiteralsOfCase f c) =
      \<lparr> ir_variables = ir_variables (GetReferencesUsedByCase c),
        ir_literals = map f (ir_literals (GetReferencesUsedByCase c)) \<rparr> \<and>
    UsedIntervalsOfCase (ApplyToAllIntervalsOfCase f c) = map f (UsedIntervalsOfCase c) \<and>
    ConstraintCaseName (ApplyToAllVariablesOfCase f c) = ConstraintCaseName c"
  using references_apply_variables[OF assms] references_apply_literals references_apply_intervals
    ConstraintCaseName_apply by blast

theorem Apply_Get_references_witness:
  "GetReferencesUsedByCase (ApplyToAllVariablesOfCase NegatedRef (kAllDiff \<lparr> ad_exprs = [affine [3, 4] [1, 1] 0] \<rparr>)) =
    \<lparr> ir_variables = [- 4, - 5], ir_literals = [] \<rparr>"
  using Apply_Get_references[of "kAllDiff \<lparr> ad_exprs = [affine [3, 4] [1, 1] 0] \<rparr>" NegatedRef]
  by (simp add: element_format_fixed_def NegatedRef_def exprs_vars_def)

text \<open>Adding a scaled linear expression to a linear constraint, with its offset moved into the domain,
  gives a constraint that is satisfied exactly when the sum of the old activity and the scaled value of the
  expression lies in the old domain.\<close>

theorem AddLinearExpressionToLinearConstraint_correct:
  assumes "length (lc_coeffs l) = length (lc_vars l)" "length (le_coeffs e) = length (le_vars e)"
    "\<forall>c \<in> set (le_coeffs e). in_int64 (c * k)" "in_int64 (k * le_offset e)" "in_int64 (- (k * le_offset e))"
    "\<forall>v \<in> set (lc_domain l). in_int64 v"
    "in_int64 (linear_activity x (AddLinearExpressionToLinearConstraint e k l))"
  shows "DomainInProtoContains (lc_domain (AddLinearExpressionToLinearConstraint e k l))
      (linear_activity x (AddLinearExpressionToLinearConstraint e k l)) \<longleftrightarrow>
    DomainInProtoContains (lc_domain l) (linear_activity x l + k * expr_value x e)"
  using assms by (rule AddLinearExpressionToLinearConstraint_feasible(2))

theorem AddLinearExpressionToLinearConstraint_correct_witness:
  "DomainInProtoContains (lc_domain (AddLinearExpressionToLinearConstraint (affine [0] [2] 5) 3
      \<lparr> lc_vars = [1], lc_coeffs = [1], lc_domain = [0, 30] \<rparr>))
    (linear_activity [1, 2] (AddLinearExpressionToLinearConstraint (affine [0] [2] 5) 3
      \<lparr> lc_vars = [1], lc_coeffs = [1], lc_domain = [0, 30] \<rparr>)) \<longleftrightarrow>
   DomainInProtoContains [0, 30] (2 + 3 * 7)"
  using AddLinearExpressionToLinearConstraint_correct[of "\<lparr> lc_vars = [1], lc_coeffs = [1], lc_domain = [0, 30] \<rparr>"
      "affine [0] [2] 5" 3 "[1, 2]"]
  by (simp add: AddLinearExpressionToLinearConstraint_def linear_activity_def expr_value_def in_int64_def
      ref_value_def elt_def RefIsPositive_def)

text \<open>The linear constraint built from a list of literals, negated ones included, and two bounds is
  satisfied exactly when the number of true literals is between the bounds.\<close>

theorem LiteralsToLinear_correct:
  assumes "in_int64 (lb - int (length lits))" "in_int64 (ub - int (length lits))" "in_int64 lb" "in_int64 ub"
  shows "DomainInProtoContains (lc_domain (LiteralsToLinear lits lb ub))
      (linear_activity x (LiteralsToLinear lits lb ub)) \<longleftrightarrow>
    lb \<le> sum_list (map (literal_value x) lits) \<and> sum_list (map (literal_value x) lits) \<le> ub"
  using assms by (rule LiteralsToLinear_feasible)

theorem LiteralsToLinear_correct_witness:
  "DomainInProtoContains (lc_domain (LiteralsToLinear [0, - 2] 1 1)) (linear_activity [1, 1] (LiteralsToLinear [0, - 2] 1 1))"
  using LiteralsToLinear_correct[of 1 "[0, - 2]" 1 "[1, 1]"]
  by (simp add: in_int64_def literal_value_def ref_value_def elt_def RefIsPositive_def NegatedRef_def PositiveRef_def)

text \<open>When the code declares one linear expression equal to a scaling of another, their values agree in
  64-bit arithmetic for every assignment, in spite of repeated variables, negated references and wrapping
  coefficients.\<close>

theorem LinearExpressionProtosAreEqual_correct:
  assumes "length (le_coeffs a) = length (le_vars a)" "length (le_coeffs b) = length (le_vars b)"
    "LinearExpressionProtosAreEqual a b s"
  shows "wrap64 (expr_value x a) = wrap64 (s * expr_value x b)"
  using assms by (rule LinearExpressionProtosAreEqual_sound)

theorem LinearExpressionProtosAreEqual_correct_witness:
  "wrap64 (expr_value [7, 9] (affine [0, 1, 0] [2, 4, 2] 6)) = wrap64 (2 * expr_value [7, 9] (affine [1, 0, 0] [2, 1, 1] 3))"
  by (rule LinearExpressionProtosAreEqual_correct)
    (simp_all add: LinearExpressionProtosAreEqual_def add_coeff_def RefIsPositive_def wrap64_def PositiveRef_def NegatedRef_def)

text \<open>Mapping an inner objective value through the postsolve transformation and back through the
  presolve one is the identity when nothing overflows.\<close>

theorem Presolve_Postsolve_objective:
  assumes "in_int64 (v + ob_integer_before_offset p)"
    "in_int64 ((v + ob_integer_before_offset p) * ob_integer_scaling_factor p)"
    "in_int64 ((v + ob_integer_before_offset p) * ob_integer_scaling_factor p + ob_integer_after_offset p)"
    "in_int64 v"
  shows "PresolveInnerObjectiveValue p (PostsolveInnerObjectiveValue p v) = v"
  using assms by (rule Presolve_Postsolve_roundtrip)

theorem Presolve_Postsolve_objective_witness:
  "PresolveInnerObjectiveValue \<lparr> ob_vars = [], ob_coeffs = [], ob_offset = Fin 0, ob_scaling_factor = Fin 1, ob_domain = [],
     ob_scaling_was_exact = False, ob_integer_before_offset = 3, ob_integer_after_offset = 5, ob_integer_scaling_factor = 4 \<rparr>
   (PostsolveInnerObjectiveValue \<lparr> ob_vars = [], ob_coeffs = [], ob_offset = Fin 0, ob_scaling_factor = Fin 1, ob_domain = [],
     ob_scaling_was_exact = False, ob_integer_before_offset = 3, ob_integer_after_offset = 5, ob_integer_scaling_factor = 4 \<rparr> 7) = 7"
  by (rule Presolve_Postsolve_objective) (simp_all add: in_int64_def)

end
