(* ===== verification/Diffn.thy ===== *)
theory Diffn
  imports Prelude "HOL-Library.Product_Lexorder"
begin

text \<open>
  The search for two intersecting rectangles of \<open>or-tools/ortools/sat/diffn_util.cc\<close>: the sweep line
  \<open>FindOneIntersectionIfPresentImpl\<close>, and the conversion \<open>ConvertToRectangle32WithNonZeroSizes\<close> that
  turns degenerate rectangles into boxes of positive area before it.
\<close>

section \<open>Rectangles\<close>

record Rectangle =
  x_min :: int64
  x_max :: int64
  y_min :: int64
  y_max :: int64

definition Rectangle_IsDisjoint :: "'a Rectangle_scheme \<Rightarrow> 'a Rectangle_scheme \<Rightarrow> bool" where
  "Rectangle_IsDisjoint a b \<longleftrightarrow>
     x_min a \<ge> x_max b \<or> x_min b \<ge> x_max a \<or> y_min a \<ge> y_max b \<or> y_min b \<ge> y_max a"

text \<open>The sweep line of \<open>FindOneIntersectionIfPresentImpl\<close> (\<open>diffn_util.cc\<close>).  The ordered set of
  the rectangles met by the line is the list of their indices, by increasing \<open>y_min\<close>; rectangles
  that the line has passed stay in it until they are met.  \<open>before\<close> holds the elements below the new
  rectangle, the last one first, and \<open>after\<close> the elements above.\<close>

fun split_interval_set :: "'a Rectangle_scheme list \<Rightarrow> int64 \<Rightarrow> nat list \<Rightarrow> nat list \<Rightarrow> nat list \<times> nat list" where
  "split_interval_set rs y before [] = (before, [])"
| "split_interval_set rs y before (j # s) =
     (if y_min (rs ! j) < y then split_interval_set rs y (j # before) s else (before, j # s))"

fun drop_stale_after :: "'a Rectangle_scheme list \<Rightarrow> nat \<Rightarrow> nat list \<Rightarrow> nat list + nat \<times> nat" where
  "drop_stale_after rs i [] = Inl []"
| "drop_stale_after rs i (j # s) =
     (if x_max (rs ! j) \<le> x_min (rs ! i) then drop_stale_after rs i s
      else if y_max (rs ! i) > y_min (rs ! j) then Inr (j, i)
      else Inl (j # s))"

definition sweep_step :: "'a Rectangle_scheme list \<Rightarrow> nat list \<Rightarrow> nat \<Rightarrow> nat list + nat \<times> nat" where
  "sweep_step rs interval_set i =
     (let y = y_min (rs ! i); x = x_min (rs ! i);
          (before, after) = split_interval_set rs y [] interval_set;
          finish = (\<lambda>b s. case drop_stale_after rs i s of
                       Inr p \<Rightarrow> Inr p
                     | Inl s' \<Rightarrow> Inl (rev b @ i # s'))
      in case after of
           j # s \<Rightarrow>
             if y_min (rs ! j) = y
             then (if x_max (rs ! j) \<le> x then finish before s else Inr (j, i))
             else (case before of
                     [] \<Rightarrow> finish [] after
                   | b # bs \<Rightarrow>
                       if x_max (rs ! b) \<le> x then finish bs after
                       else if y_max (rs ! b) > y then Inr (b, i) else finish before after)
         | [] \<Rightarrow>
             (case before of
                [] \<Rightarrow> finish [] []
              | b # bs \<Rightarrow>
                  if x_max (rs ! b) \<le> x then finish bs []
                  else if y_max (rs ! b) > y then Inr (b, i) else finish before []))"

fun sweep_loop :: "'a Rectangle_scheme list \<Rightarrow> nat list \<Rightarrow> nat list \<Rightarrow> (nat \<times> nat) option" where
  "sweep_loop rs interval_set [] = None"
| "sweep_loop rs interval_set (i # is) =
     (case sweep_step rs interval_set i of
        Inr p \<Rightarrow> Some p
      | Inl s \<Rightarrow> sweep_loop rs s is)"

definition FindOneIntersectionIfPresent :: "'a Rectangle_scheme list \<Rightarrow> (nat \<times> nat) option" where
  "FindOneIntersectionIfPresent rs = sweep_loop rs [] [0..<length rs]"

section \<open>Rectangles of zero area\<close>

text \<open>The coordinates of \<open>Rectangle32\<close> are small integers; its index is that of the rectangle it stands
  for.  \<open>ConvertToRectangle32WithNonZeroSizes\<close> sweeps the ends, points and beginnings of each axis in
  order and numbers them.\<close>

record Rectangle32 = Rectangle +
  r_index :: nat

definition Rectangle32_zero :: Rectangle32 where
  "Rectangle32_zero = \<lparr> x_min = 0, x_max = 0, y_min = 0, y_max = 0, r_index = 0 \<rparr>"

definition Rectangle32_IsInsideOf :: "Rectangle32 \<Rightarrow> Rectangle32 \<Rightarrow> bool" where
  "Rectangle32_IsInsideOf a b \<longleftrightarrow>
     x_min a \<ge> x_min b \<and> x_max a \<le> x_max b \<and> y_min a \<ge> y_min b \<and> y_max a \<le> y_max b"

datatype Event = kEnd | kPoint | kBegin

instantiation Event :: linorder
begin

fun event_number :: "Event \<Rightarrow> nat" where
  "event_number kEnd = 0"
| "event_number kPoint = 1"
| "event_number kBegin = 2"

definition less_eq_Event :: "Event \<Rightarrow> Event \<Rightarrow> bool" where
  "less_eq_Event a b \<longleftrightarrow> event_number a \<le> event_number b"

definition less_Event :: "Event \<Rightarrow> Event \<Rightarrow> bool" where
  "less_Event a b \<longleftrightarrow> event_number a < event_number b"

lemma event_number_inject: "event_number a = event_number b \<Longrightarrow> a = b"
  by (cases a; cases b) simp_all

instance
  by standard (auto simp: less_eq_Event_def less_Event_def dest: event_number_inject)

end

type_synonym axis_event = "int64 \<times> Event \<times> nat"

text \<open>The events of one axis, \<open>lo\<close> and \<open>hi\<close> being the bounds on it.\<close>

definition axis_events_of :: "int64 \<Rightarrow> int64 \<Rightarrow> nat \<Rightarrow> axis_event list" where
  "axis_events_of lo hi i =
     (if wrap64 (hi - lo) = 0 then [(lo, kPoint, i)] else [(lo, kBegin, i), (hi, kEnd, i)])"

definition axis_events :: "(Rectangle \<Rightarrow> int64) \<Rightarrow> (Rectangle \<Rightarrow> int64) \<Rightarrow> Rectangle list \<Rightarrow> axis_event list" where
  "axis_events lo hi rs = concat (map (\<lambda>i. axis_events_of (lo (rs ! i)) (hi (rs ! i)) i) [0..<length rs])"

text \<open>One event: the current cell, then the bound it sets.\<close>

definition next_cell :: "int64 \<Rightarrow> Event \<Rightarrow> int32 \<Rightarrow> int64 \<Rightarrow> Event \<Rightarrow> int32" where
  "next_cell prev prev_event cur_index y event =
     (if (prev_event \<noteq> event \<and> prev_event \<noteq> kEnd) \<or> prev \<noteq> y \<or> event = kPoint \<or> cur_index = - 1
      then cur_index + 1 else cur_index)"

fun set_y :: "axis_event \<Rightarrow> int32 \<Rightarrow> Rectangle32 \<Rightarrow> Rectangle32" where
  "set_y (y, kBegin, i) c r = r\<lparr> y_min := c, r_index := i \<rparr>"
| "set_y (y, kEnd, i) c r = r\<lparr> y_max := c \<rparr>"
| "set_y (y, kPoint, i) c r = r\<lparr> y_min := c, y_max := c + 1, r_index := i \<rparr>"

fun set_x :: "axis_event \<Rightarrow> int32 \<Rightarrow> Rectangle32 \<Rightarrow> Rectangle32" where
  "set_x (x, kBegin, i) c r = r\<lparr> x_min := c \<rparr>"
| "set_x (x, kEnd, i) c r = r\<lparr> x_max := c \<rparr>"
| "set_x (x, kPoint, i) c r = r\<lparr> x_min := c, x_max := c + 1 \<rparr>"

fun compress_loop :: "(axis_event \<Rightarrow> int32 \<Rightarrow> Rectangle32 \<Rightarrow> Rectangle32) \<Rightarrow> int64 \<Rightarrow> Event \<Rightarrow> int32 \<Rightarrow>
    Rectangle32 list \<Rightarrow> axis_event list \<Rightarrow> Rectangle32 list \<times> int32" where
  "compress_loop set_bound prev prev_event cur_index rs [] = (rs, cur_index)"
| "compress_loop set_bound prev prev_event cur_index rs ((y, event, i) # es) =
     (let c = next_cell prev prev_event cur_index y event
      in compress_loop set_bound y event c (rs[i := set_bound (y, event, i) c (rs ! i)]) es)"

text \<open>The largest box seen so far, by a measure of what is left of it.\<close>

definition update_largest :: "Rectangle32 \<Rightarrow> Rectangle32 \<Rightarrow> Rectangle32" where
  "update_largest largest r =
     (let current_size = min (y_max r - y_min r) (x_max r - x_min r);
          remaining_x = x_max largest - x_min r;
          largest_remaining_size =
            (if remaining_x > 0 then min (y_max largest - y_min largest) remaining_x else - 1)
      in if current_size > largest_remaining_size then r else largest)"

text \<open>The last loop keeps the boxes in reverse order: the last one pushed is the first of the list.\<close>

fun contained_loop :: "Rectangle32 list \<Rightarrow> Rectangle32 list \<Rightarrow> Rectangle32 \<Rightarrow> (nat \<times> nat) list \<Rightarrow> axis_event list \<Rightarrow>
    Rectangle32 list \<times> (nat \<times> nat) list" where
  "contained_loop rs sorted_rev largest pairs [] = (rev sorted_rev, rev pairs)"
| "contained_loop rs sorted_rev largest pairs ((x, event, i) # es) =
     (if event = kBegin \<or> event = kPoint
      then let r = rs ! i
           in case sorted_rev of
                [] \<Rightarrow> contained_loop rs [r] r pairs es
              | prev # _ \<Rightarrow>
                  if Rectangle32_IsInsideOf r prev
                  then contained_loop rs sorted_rev largest ((r_index r, r_index prev) # pairs) es
                  else if r_index largest \<noteq> r_index prev \<and> Rectangle32_IsInsideOf r largest
                  then contained_loop rs sorted_rev largest ((r_index r, r_index largest) # pairs) es
                  else contained_loop rs (r # sorted_rev) (update_largest largest r) pairs es
      else contained_loop rs sorted_rev largest pairs es)"

text \<open>The boxes in the order of their \<open>x_min\<close>, the contained pairs, and the bounding box.\<close>

definition ConvertToRectangle32WithNonZeroSizes ::
    "Rectangle list \<Rightarrow> Rectangle32 list \<times> (nat \<times> nat) list \<times> (int32 \<times> int32)" where
  "ConvertToRectangle32WithNonZeroSizes rs =
     (if rs = [] then ([], [], (0, 0))
      else let y_events = sort (axis_events y_min y_max rs);
               x_events = sort (axis_events x_min x_max rs);
               (ry, cy) = compress_loop set_y 0 kEnd (- 1) (replicate (length rs) Rectangle32_zero) y_events;
               (rx, cx) = compress_loop set_x 0 kEnd (- 1) ry x_events;
               (boxes, pairs) = contained_loop rx [] Rectangle32_zero [] x_events
           in (boxes, pairs, (cx + 1, cy + 1)))"

definition FindOneIntersectionIfPresentWithZeroArea :: "Rectangle list \<Rightarrow> (nat \<times> nat) option" where
  "FindOneIntersectionIfPresentWithZeroArea rs =
     (let (boxes, extra_arcs, bounding_box) = ConvertToRectangle32WithNonZeroSizes rs
      in if extra_arcs \<noteq> [] then Some (hd extra_arcs)
         else case FindOneIntersectionIfPresent boxes of
             None \<Rightarrow> None
           | Some (i, j) \<Rightarrow> Some (r_index (boxes ! i), r_index (boxes ! j)))"

end
