(* ===== verification/SweepLine.thy ===== *)
theory SweepLine
  imports Diffn
begin

text \<open>
  Correctness of the sweep line of \<open>FindOneIntersectionIfPresentImpl\<close>
  (\<open>or-tools/ortools/sat/diffn_util.cc\<close>): on rectangles of positive area sorted by \<open>x_min\<close> it
  reports a pair exactly when two rectangles intersect, although it removes the rectangles that the
  line has passed only when it meets them.
\<close>

definition proper :: "'a Rectangle_scheme \<Rightarrow> bool" where
  "proper r \<longleftrightarrow> x_min r < x_max r \<and> y_min r < y_max r"

lemma Rectangle_IsDisjoint_sym: "Rectangle_IsDisjoint a b \<longleftrightarrow> Rectangle_IsDisjoint b a"
  by (auto simp: Rectangle_IsDisjoint_def)

text \<open>The elements of the set, stale ones included, are pairwise disjoint in \<open>y\<close> and in order.\<close>

definition stacked :: "'a Rectangle_scheme list \<Rightarrow> nat list \<Rightarrow> bool" where
  "stacked rs s \<longleftrightarrow> sorted_wrt (\<lambda>i j. y_max (rs ! i) \<le> y_min (rs ! j)) s"

definition stale :: "'a Rectangle_scheme list \<Rightarrow> nat \<Rightarrow> nat \<Rightarrow> bool" where
  "stale rs i k \<longleftrightarrow> x_max (rs ! k) \<le> x_min (rs ! i)"

lemma split_interval_set_eq:
  "split_interval_set rs y b s =
    (rev (takeWhile (\<lambda>j. y_min (rs ! j) < y) s) @ b, dropWhile (\<lambda>j. y_min (rs ! j) < y) s)"
  by (induction s arbitrary: b) auto

lemma drop_stale_after_Inl:
  assumes "drop_stale_after rs i s = Inl s'"
  shows "s' = dropWhile (stale rs i) s" "s' \<noteq> [] \<Longrightarrow> y_max (rs ! i) \<le> y_min (rs ! hd s')"
  using assms by (induction rs i s rule: drop_stale_after.induct) (auto simp: stale_def split: if_splits)

lemma drop_stale_after_Inr:
  assumes "drop_stale_after rs i s = Inr (j, k)"
  shows "k = i" "j \<in> set s" "\<not> stale rs i j" "y_max (rs ! i) > y_min (rs ! j)"
  using assms by (induction rs i s rule: drop_stale_after.induct) (auto simp: stale_def split: if_splits)

text \<open>The set after the lines that come before the loop on the following elements: what is kept below
  the new rectangle, and what is left above it.  \<open>Inr\<close> is an intersection found there.\<close>

definition sweep_around :: "'a Rectangle_scheme list \<Rightarrow> nat list \<Rightarrow> nat \<Rightarrow> (nat list \<times> nat list) + nat" where
  "sweep_around rs s i =
     (let below = takeWhile (\<lambda>j. y_min (rs ! j) < y_min (rs ! i)) s;
          above = dropWhile (\<lambda>j. y_min (rs ! j) < y_min (rs ! i)) s
      in if above \<noteq> [] \<and> y_min (rs ! hd above) = y_min (rs ! i)
         then (if stale rs i (hd above) then Inl (below, tl above) else Inr (hd above))
         else if below = [] then Inl ([], above)
         else if stale rs i (last below) then Inl (butlast below, above)
         else if y_max (rs ! last below) > y_min (rs ! i) then Inr (last below)
         else Inl (below, above))"

lemma sweep_step_around:
  "sweep_step rs s i =
    (case sweep_around rs s i of
       Inr j \<Rightarrow> Inr (j, i)
     | Inl (b, a) \<Rightarrow> (case drop_stale_after rs i a of Inr p \<Rightarrow> Inr p | Inl s' \<Rightarrow> Inl (b @ i # s')))"
proof -
  define below where "below = takeWhile (\<lambda>j. y_min (rs ! j) < y_min (rs ! i)) s"
  define above where "above = dropWhile (\<lambda>j. y_min (rs ! j) < y_min (rs ! i)) s"
  have sp: "split_interval_set rs (y_min (rs ! i)) [] s = (rev below, above)"
    by (simp add: split_interval_set_eq below_def above_def)
  have ar: "sweep_around rs s i =
     (if above \<noteq> [] \<and> y_min (rs ! hd above) = y_min (rs ! i)
         then (if stale rs i (hd above) then Inl (below, tl above) else Inr (hd above))
         else if below = [] then Inl ([], above)
         else if stale rs i (last below) then Inl (butlast below, above)
         else if y_max (rs ! last below) > y_min (rs ! i) then Inr (last below)
         else Inl (below, above))"
    by (simp add: sweep_around_def Let_def below_def above_def)
  show ?thesis
  proof (cases below rule: rev_cases)
    case Nil
    then show ?thesis unfolding sweep_step_def Let_def sp ar
      by (cases above) (auto simp: stale_def split: sum.split)
  next
    case (snoc bs b)
    then show ?thesis unfolding sweep_step_def Let_def sp ar
      by (cases above) (auto simp: stale_def split: sum.split)
  qed
qed

lemma stacked_append:
  "stacked rs (a @ b) \<longleftrightarrow> stacked rs a \<and> stacked rs b \<and> (\<forall>i \<in> set a. \<forall>j \<in> set b. y_max (rs ! i) \<le> y_min (rs ! j))"
  by (simp add: stacked_def sorted_wrt_append)

lemma stacked_Cons:
  "stacked rs (i # b) \<longleftrightarrow> (\<forall>j \<in> set b. y_max (rs ! i) \<le> y_min (rs ! j)) \<and> stacked rs b"
  by (simp add: stacked_def)

text \<open>What the step leaves around the new rectangle \<open>i\<close>.\<close>

lemma sweep_around_Inl:
  assumes "sweep_around rs s i = Inl (b, a)" "stacked rs s" "\<forall>k \<in> set s. proper (rs ! k)"
  shows "\<forall>k \<in> set b. y_max (rs ! k) \<le> y_min (rs ! i)" "\<forall>k \<in> set a. y_min (rs ! i) \<le> y_min (rs ! k)"
    "stacked rs (b @ a)" "set b \<union> set a \<subseteq> set s" "\<forall>k \<in> set s. k \<in> set b \<union> set a \<or> stale rs i k"
proof -
  define below where "below = takeWhile (\<lambda>j. y_min (rs ! j) < y_min (rs ! i)) s"
  define above where "above = dropWhile (\<lambda>j. y_min (rs ! j) < y_min (rs ! i)) s"
  have s: "s = below @ above" by (simp add: below_def above_def)
  have st: "stacked rs below" "stacked rs above" "\<And>j k. j \<in> set below \<Longrightarrow> k \<in> set above \<Longrightarrow> y_max (rs ! j) \<le> y_min (rs ! k)"
    using assms(2) by (auto simp: s stacked_append)
  have ab: "y_min (rs ! i) \<le> y_min (rs ! k)" if "k \<in> set above" for k
  proof (cases above)
    case (Cons h t)
    have "\<not> y_min (rs ! h) < y_min (rs ! i)"
      using hd_dropWhile[of "\<lambda>j. y_min (rs ! j) < y_min (rs ! i)" s, folded above_def] Cons by simp
    moreover have "y_min (rs ! h) \<le> y_min (rs ! k)"
    proof (cases "k = h")
      case False
      then have "y_max (rs ! h) \<le> y_min (rs ! k)" using st(2) that by (auto simp: Cons stacked_Cons)
      moreover have "y_min (rs ! h) < y_max (rs ! h)" using assms(3) by (simp add: s Cons proper_def)
      ultimately show ?thesis by simp
    qed simp
    ultimately show ?thesis by simp
  qed (use that in simp)
  have A: "sweep_around rs s i =
     (if above \<noteq> [] \<and> y_min (rs ! hd above) = y_min (rs ! i)
         then (if stale rs i (hd above) then Inl (below, tl above) else Inr (hd above))
         else if below = [] then Inl ([], above)
         else if stale rs i (last below) then Inl (butlast below, above)
         else if y_max (rs ! last below) > y_min (rs ! i) then Inr (last below)
         else Inl (below, above))"
    by (simp add: sweep_around_def Let_def below_def above_def)
  consider (same) "above \<noteq> []" "y_min (rs ! hd above) = y_min (rs ! i)" "stale rs i (hd above)" "b = below" "a = tl above"
    | (none) "below = []" "b = []" "a = above"
    | (erase) "below \<noteq> []" "stale rs i (last below)" "b = butlast below" "a = above"
    | (keep) "below \<noteq> []" "y_max (rs ! last below) \<le> y_min (rs ! i)" "b = below" "a = above"
  proof (cases "above \<noteq> [] \<and> y_min (rs ! hd above) = y_min (rs ! i)")
    case True
    then show ?thesis using assms(1) same unfolding A if_P[OF True] by (simp split: if_split_asm)
  next
    case F: False
    show ?thesis
    proof (cases "below = []")
      case True
      then show ?thesis using assms(1) none unfolding A if_not_P[OF F] by simp
    next
      case False
      show ?thesis
      proof (cases "stale rs i (last below)")
        case True
        then show ?thesis using assms(1) erase False unfolding A if_not_P[OF F] if_not_P[OF False] by simp
      next
        case S: False
        then show ?thesis using assms(1) keep[OF False] unfolding A if_not_P[OF F] if_not_P[OF False] if_not_P[OF S]
          by (simp split: if_split_asm)
      qed
    qed
  qed
  then have "(\<forall>k \<in> set b. y_max (rs ! k) \<le> y_min (rs ! i)) \<and> (\<forall>k \<in> set a. y_min (rs ! i) \<le> y_min (rs ! k)) \<and>
    stacked rs (b @ a) \<and> set b \<union> set a \<subseteq> set s \<and> (\<forall>k \<in> set s. k \<in> set b \<union> set a \<or> stale rs i k)"
  proof cases
    case same
    obtain h t where t: "above = h # t" using same(1) by (cases above) auto
    have h: "y_min (rs ! h) = y_min (rs ! i)" "stale rs i h" "a = t" using same t by simp_all
    have "\<forall>k \<in> set below. y_max (rs ! k) \<le> y_min (rs ! i)"
    proof
      fix k assume "k \<in> set below"
      from st(3)[OF this, of h] show "y_max (rs ! k) \<le> y_min (rs ! i)" using h(1) t by simp
    qed
    moreover have "stacked rs t" using st(2) unfolding t stacked_Cons by blast
    moreover have "\<And>k. k \<in> set t \<Longrightarrow> y_min (rs ! i) \<le> y_min (rs ! k)" using ab by (simp add: t)
    moreover have "\<And>j k. j \<in> set below \<Longrightarrow> k \<in> set t \<Longrightarrow> y_max (rs ! j) \<le> y_min (rs ! k)"
      using st(3) by (simp add: t)
    ultimately show ?thesis using st(1) h(2) unfolding h(3) same(4) s t by (simp add: stacked_append) blast
  next
    case none
    then show ?thesis using st ab by (simp add: s)
  next
    case erase
    obtain bl x where bl: "below = bl @ [x]" using erase(1) by (cases below rule: rev_cases) auto
    have x: "stale rs i x" "b = bl" using erase bl by simp_all
    have "x \<in> set (takeWhile (\<lambda>j. y_min (rs ! j) < y_min (rs ! i)) s)" using bl by (simp flip: below_def)
    then have "y_min (rs ! x) < y_min (rs ! i)" by (rule set_takeWhileD[THEN conjunct2])
    moreover have bls: "stacked rs bl" "\<And>k. k \<in> set bl \<Longrightarrow> y_max (rs ! k) \<le> y_min (rs ! x)"
      using st(1) unfolding bl by (simp_all add: stacked_append)
    ultimately have "\<And>k. k \<in> set bl \<Longrightarrow> y_max (rs ! k) \<le> y_min (rs ! i)" by fastforce
    moreover have "stacked rs (bl @ above)" using bls(1) st(2,3) by (simp add: stacked_append bl)
    ultimately show ?thesis using ab x by (simp add: erase(4) s bl) blast
  next
    case keep
    obtain bl x where bl: "below = bl @ [x]" using keep(1) by (cases below rule: rev_cases) auto
    have x: "y_max (rs ! x) \<le> y_min (rs ! i)" using keep(2) bl by simp
    have "proper (rs ! x)" using assms(3) by (simp add: s bl)
    moreover have "\<And>k. k \<in> set bl \<Longrightarrow> y_max (rs ! k) \<le> y_min (rs ! x)"
      using st(1) unfolding bl by (simp add: stacked_append)
    ultimately have "\<And>k. k \<in> set bl \<Longrightarrow> y_max (rs ! k) \<le> y_min (rs ! i)" using x by (fastforce simp: proper_def)
    moreover have "stacked rs (below @ above)" using st by (simp add: stacked_append)
    ultimately show ?thesis using ab x by (simp add: keep(3,4) s bl)
  qed
  then show "\<forall>k \<in> set b. y_max (rs ! k) \<le> y_min (rs ! i)" "\<forall>k \<in> set a. y_min (rs ! i) \<le> y_min (rs ! k)"
    "stacked rs (b @ a)" "set b \<union> set a \<subseteq> set s" "\<forall>k \<in> set s. k \<in> set b \<union> set a \<or> stale rs i k" by blast+
qed

lemma sweep_around_Inr:
  assumes "sweep_around rs s i = Inr j" "\<forall>k \<in> set s. proper (rs ! k)" "proper (rs ! i)"
  shows "j \<in> set s" "\<not> stale rs i j" "y_min (rs ! j) \<le> y_min (rs ! i)" "y_min (rs ! i) < y_max (rs ! j)"
proof -
  define below where "below = takeWhile (\<lambda>j. y_min (rs ! j) < y_min (rs ! i)) s"
  define above where "above = dropWhile (\<lambda>j. y_min (rs ! j) < y_min (rs ! i)) s"
  have s: "s = below @ above" by (simp add: below_def above_def)
  have A: "sweep_around rs s i =
     (if above \<noteq> [] \<and> y_min (rs ! hd above) = y_min (rs ! i)
         then (if stale rs i (hd above) then Inl (below, tl above) else Inr (hd above))
         else if below = [] then Inl ([], above)
         else if stale rs i (last below) then Inl (butlast below, above)
         else if y_max (rs ! last below) > y_min (rs ! i) then Inr (last below)
         else Inl (below, above))"
    by (simp add: sweep_around_def Let_def below_def above_def)
  consider (same) "above \<noteq> []" "y_min (rs ! hd above) = y_min (rs ! i)" "\<not> stale rs i (hd above)" "j = hd above"
    | (below) "below \<noteq> []" "\<not> stale rs i (last below)" "y_max (rs ! last below) > y_min (rs ! i)" "j = last below"
    using assms(1) unfolding A by (auto split: if_split_asm)
  then have "j \<in> set s \<and> \<not> stale rs i j \<and> y_min (rs ! j) \<le> y_min (rs ! i) \<and> y_min (rs ! i) < y_max (rs ! j)"
  proof cases
    case same
    have "hd above \<in> set s" using same(1) by (simp add: s)
    then show ?thesis using same assms(2) by (auto simp: proper_def)
  next
    case below
    have "last below \<in> set below" using below(1) by simp
    then have "y_min (rs ! last below) < y_min (rs ! i)"
      using set_takeWhileD unfolding below_def by fastforce
    then show ?thesis using below by (simp add: s)
  qed
  then show "j \<in> set s" "\<not> stale rs i j" "y_min (rs ! j) \<le> y_min (rs ! i)" "y_min (rs ! i) < y_max (rs ! j)"
    by blast+
qed

section \<open>The invariant of the loop\<close>

definition sweep_inv :: "'a Rectangle_scheme list \<Rightarrow> nat list \<Rightarrow> nat \<Rightarrow> bool" where
  "sweep_inv rs s n \<longleftrightarrow>
     set s \<subseteq> {..<n} \<and> stacked rs s \<and>
     (\<forall>j < n. \<forall>i < j. Rectangle_IsDisjoint (rs ! i) (rs ! j)) \<and>
     (\<forall>k < n. k \<in> set s \<or> (\<forall>m. n \<le> m \<longrightarrow> m < length rs \<longrightarrow> stale rs m k))"

lemma sweep_step_inv:
  assumes "sweep_inv rs s n" "n < length rs" "\<forall>r \<in> set rs. proper r" "sorted (map x_min rs)"
  shows "sweep_step rs s n = Inl s' \<Longrightarrow> sweep_inv rs s' (Suc n)"
    "sweep_step rs s n = Inr (j, k) \<Longrightarrow> k = n \<and> j < n \<and> \<not> Rectangle_IsDisjoint (rs ! j) (rs ! n)"
proof -
  have ord: "x_min (rs ! i) \<le> x_min (rs ! j)" if "i \<le> j" "j < length rs" for i j
    using sorted_nth_mono[OF assms(4), of i j] that by simp
  have pr: "\<forall>k \<in> set s. proper (rs ! k)" "proper (rs ! n)"
    using assms(1-3) by (auto simp: sweep_inv_def subset_iff)
  have sub: "\<And>k. k \<in> set s \<Longrightarrow> k < n" and st: "stacked rs s"
    and dis: "\<forall>j < n. \<forall>i < j. Rectangle_IsDisjoint (rs ! i) (rs ! j)"
    and gone: "\<And>k m. k < n \<Longrightarrow> k \<notin> set s \<Longrightarrow> n \<le> m \<Longrightarrow> m < length rs \<Longrightarrow> stale rs m k"
    using assms(1) by (auto simp: sweep_inv_def)
  have later: "stale rs m k" if "stale rs n k" "n \<le> m" "m < length rs" for m k
    using that ord[of n m] by (simp add: stale_def)
  have xo: "x_min (rs ! j) < x_max (rs ! n)" if "j < n" for j
    using ord[of j n] that assms(2) pr(2) by (simp add: proper_def)
  show "sweep_inv rs s' (Suc n)" if step: "sweep_step rs s n = Inl s'"
  proof -
    obtain b a where ba: "sweep_around rs s n = Inl (b, a)"
      using step by (auto simp: sweep_step_around split: sum.splits)
    obtain a' where a': "drop_stale_after rs n a = Inl a'" and s': "s' = b @ n # a'"
      using step ba by (auto simp: sweep_step_around split: sum.splits)
    note f = sweep_around_Inl[OF ba st pr(1)]
    note d = drop_stale_after_Inl[OF a']
    have sa': "set a' \<subseteq> set a" by (simp add: d(1) set_dropWhileD subsetI)
    have stba: "stacked rs b" "stacked rs a" "\<forall>i \<in> set b. \<forall>j \<in> set a. y_max (rs ! i) \<le> y_min (rs ! j)"
      using f(3) by (auto simp: stacked_append)
    have "a = takeWhile (stale rs n) a @ a'" by (simp add: d(1))
    then have sta': "stacked rs a'" using stba(2) by (metis stacked_append)
    have na: "y_max (rs ! n) \<le> y_min (rs ! k)" if k: "k \<in> set a'" for k
    proof -
      have ne: "a' \<noteq> []" using k by auto
      show ?thesis
      proof (cases "k = hd a'")
        case True
        then show ?thesis using d(2)[OF ne] by simp
      next
        case False
        obtain h t where ht: "a' = h # t" using ne by (cases a') auto
        then have "y_max (rs ! h) \<le> y_min (rs ! k)" using sta' k False by (auto simp: stacked_Cons)
        moreover have "proper (rs ! h)" using pr(1) f(4) sa' ht by auto
        ultimately show ?thesis using d(2)[OF ne] ht by (simp add: proper_def)
      qed
    qed
    have "stacked rs s'"
      using f(1) na stba sta' sa' by (auto simp: s' stacked_append stacked_Cons)
    moreover have "set s' \<subseteq> {..<Suc n}" using f(4) sa' sub by (fastforce simp: s')
    moreover have gone': "k \<in> set s' \<or> stale rs m k" if k: "k < Suc n" "Suc n \<le> m" "m < length rs" for k m
    proof (cases "k = n")
      case False
      then have "k \<in> set s \<Longrightarrow> k \<in> set s' \<or> stale rs n k"
        using f(5) d(1) by (auto simp: s' dest: set_dropWhileD) (metis Un_iff append.right_neutral set_append set_takeWhileD takeWhile_dropWhile_id)
      then show ?thesis using gone[of k m] later[of k m] k False by force
    qed (simp add: s')
    moreover have "Rectangle_IsDisjoint (rs ! k) (rs ! n)" if k: "k < n" for k
    proof -
      have "k \<in> set s' \<or> stale rs n k"
      proof (cases "k \<in> set s")
        case True
        then show ?thesis
          using f(5) d(1) by (auto simp: s' dest: set_dropWhileD) (metis Un_iff append.right_neutral set_append set_takeWhileD takeWhile_dropWhile_id)
      next
        case False
        then show ?thesis using gone[of k n] k assms(2) by simp
      qed
      then consider "stale rs n k" | "k \<in> set b" | "k \<in> set a'" using k by (auto simp: s')
      then show ?thesis
      proof cases
        case 1
        then show ?thesis by (simp add: stale_def Rectangle_IsDisjoint_def)
      next
        case 2
        then show ?thesis using f(1) by (simp add: Rectangle_IsDisjoint_def)
      next
        case 3
        then show ?thesis using na by (simp add: Rectangle_IsDisjoint_def)
      qed
    qed
    ultimately show ?thesis using dis unfolding sweep_inv_def by (auto simp: less_Suc_eq)
  qed
  show "k = n \<and> j < n \<and> \<not> Rectangle_IsDisjoint (rs ! j) (rs ! n)" if step: "sweep_step rs s n = Inr (j, k)"
  proof (cases "sweep_around rs s n")
    case (Inr j')
    then have j: "j' = j" "k = n" using step by (auto simp: sweep_step_around)
    note f = sweep_around_Inr[OF Inr pr]
    have "j < n" using f(1) sub j by simp
    then show ?thesis using f xo[OF \<open>j < n\<close>] pr j by (auto simp: Rectangle_IsDisjoint_def stale_def proper_def)
  next
    case (Inl ba)
    obtain b a where ba: "ba = (b, a)" by (cases ba)
    have da: "drop_stale_after rs n a = Inr (j, k)"
      using step Inl ba by (auto simp: sweep_step_around split: sum.splits)
    note f = sweep_around_Inl[OF Inl[unfolded ba] st pr(1)]
    note d = drop_stale_after_Inr[OF da]
    have j: "j \<in> set s" using d(2) f(4) by blast
    then have jn: "j < n" "proper (rs ! j)" using sub pr(1) by auto
    moreover have "y_min (rs ! n) \<le> y_min (rs ! j)" using f(2) d(2) by blast
    ultimately show ?thesis using d xo[OF jn(1)] pr(2) by (auto simp: Rectangle_IsDisjoint_def stale_def proper_def)
  qed
qed

lemma sweep_loop_inv:
  assumes "\<forall>r \<in> set rs. proper r" "sorted (map x_min rs)" "sweep_inv rs s n" "n \<le> length rs"
  shows "(sweep_loop rs s [n..<length rs] = None \<longrightarrow>
      (\<forall>j < length rs. \<forall>i < j. Rectangle_IsDisjoint (rs ! i) (rs ! j))) \<and>
    (\<forall>i j. sweep_loop rs s [n..<length rs] = Some (i, j) \<longrightarrow>
      i < j \<and> j < length rs \<and> \<not> Rectangle_IsDisjoint (rs ! i) (rs ! j) \<and>
      (\<forall>b < j. \<forall>a < b. Rectangle_IsDisjoint (rs ! a) (rs ! b)))"
  using assms(3,4)
proof (induction "length rs - n" arbitrary: s n)
  case 0
  then show ?case by (simp add: sweep_inv_def)
next
  case (Suc m)
  then have n: "n < length rs" by simp
  then have up: "[n..<length rs] = n # [Suc n..<length rs]" by (rule upt_conv_Cons)
  note inv = sweep_step_inv[OF Suc.prems(1) n assms(1,2)]
  show ?case
  proof (cases "sweep_step rs s n")
    case (Inl s')
    have "m = length rs - Suc n" "Suc n \<le> length rs" using Suc.hyps(2) n by simp_all
    from Suc.hyps(1)[OF this(1) inv(1)[OF Inl] this(2)] show ?thesis by (simp add: up Inl)
  next
    case (Inr p)
    obtain j k where "p = (j, k)" by (cases p)
    then show ?thesis using inv(2)[of j k] Inr n Suc.prems(1) by (simp add: up sweep_inv_def)
  qed
qed

theorem FindOneIntersectionIfPresent_spec:
  assumes "\<forall>r \<in> set rs. proper r" "sorted (map x_min rs)"
  shows "FindOneIntersectionIfPresent rs = None \<longleftrightarrow>
      (\<forall>j < length rs. \<forall>i < j. Rectangle_IsDisjoint (rs ! i) (rs ! j))"
    "FindOneIntersectionIfPresent rs = Some (i, j) \<Longrightarrow>
      i < j \<and> j < length rs \<and> \<not> Rectangle_IsDisjoint (rs ! i) (rs ! j) \<and>
      (\<forall>b < j. \<forall>a < b. Rectangle_IsDisjoint (rs ! a) (rs ! b))"
proof -
  have inv: "sweep_inv rs [] 0" by (simp add: sweep_inv_def stacked_def)
  note l = sweep_loop_inv[OF assms inv, simplified, folded FindOneIntersectionIfPresent_def]
  show "FindOneIntersectionIfPresent rs = Some (i, j) \<Longrightarrow>
      i < j \<and> j < length rs \<and> \<not> Rectangle_IsDisjoint (rs ! i) (rs ! j) \<and>
      (\<forall>b < j. \<forall>a < b. Rectangle_IsDisjoint (rs ! a) (rs ! b))" using l by blast
  show "FindOneIntersectionIfPresent rs = None \<longleftrightarrow>
      (\<forall>j < length rs. \<forall>i < j. Rectangle_IsDisjoint (rs ! i) (rs ! j))"
    using l by (cases "FindOneIntersectionIfPresent rs") auto
qed

end
