(* ===== verification/ZeroArea.thy ===== *)
theory ZeroArea
  imports SweepLine "HOL-Library.Multiset"
begin

text \<open>
  \<open>ConvertToRectangle32WithNonZeroSizes\<close> of \<open>or-tools/ortools/sat/diffn_util.cc\<close> gives every rectangle,
  segments and points included, a box of positive area such that two boxes intersect exactly when the
  rectangles do; so the sweep line answers for degenerate rectangles as well.
\<close>

section \<open>The cells of sorted events\<close>

text \<open>Must the second of two events, the first one being before it, be in a later cell?\<close>

fun bump :: "axis_event \<Rightarrow> axis_event \<Rightarrow> bool" where
  "bump (y, e, i) (y', e', i') \<longleftrightarrow> (e \<noteq> e' \<and> e \<noteq> kEnd) \<or> y \<noteq> y' \<or> e' = kPoint"

text \<open>The numbers that the loop gives to the events.\<close>

fun cells_after :: "axis_event \<Rightarrow> int \<Rightarrow> axis_event list \<Rightarrow> int list" where
  "cells_after p c [] = []"
| "cells_after p c (e # es) = (let c' = (if bump p e then c + 1 else c) in c' # cells_after e c' es)"

definition cells :: "axis_event list \<Rightarrow> int list" where
  "cells es = (case es of [] \<Rightarrow> [] | e # r \<Rightarrow> 0 # cells_after e 0 r)"

lemma length_cells_after [simp]: "length (cells_after p c es) = length es"
  by (induction es arbitrary: p c) (simp_all add: Let_def)

lemma length_cells [simp]: "length (cells es) = length es"
  by (simp add: cells_def split: list.split)

lemma Event_less_eq_simps [simp]:
  "kEnd \<le> e" "e \<le> kEnd \<longleftrightarrow> e = kEnd" "e \<le> kBegin" "kBegin \<le> e \<longleftrightarrow> e = kBegin"
  "kPoint \<le> e \<longleftrightarrow> e \<noteq> kEnd" "e \<le> kPoint \<longleftrightarrow> e \<noteq> kBegin"
  by (cases e; simp add: less_eq_Event_def)+

lemma bump_chain:
  assumes "p \<le> q" "q \<le> r" "bump p r"
  shows "bump p q \<or> bump q r"
proof -
  obtain y e i where p: "p = (y, e, i)" by (cases p)
  obtain y' e' i' where q: "q = (y', e', i')" by (cases q)
  obtain y'' e'' i'' where r: "r = (y'', e'', i'')" by (cases r)
  show ?thesis using assms by (auto simp: p q r less_eq_prod_def)
qed

lemma cells_after_bounds:
  assumes "sorted (p # es)" "k < length es"
  shows "c \<le> cells_after p c es ! k \<and> (bump p (es ! k) \<longrightarrow> c < cells_after p c es ! k)"
  using assms
proof (induction es arbitrary: p c k)
  case (Cons e es)
  define c' where "c' = (if bump p e then c + 1 else c)"
  have eq: "cells_after p c (e # es) = c' # cells_after e c' es" by (simp add: c'_def Let_def)
  show ?case
  proof (cases k)
    case 0
    then show ?thesis unfolding eq by (simp add: c'_def)
  next
    case (Suc m)
    have srt: "sorted (e # es)" "p \<le> e" using Cons.prems(1) by simp_all
    have m: "m < length es" using Cons.prems(2) Suc by simp
    have IH: "c' \<le> cells_after e c' es ! m \<and> (bump e (es ! m) \<longrightarrow> c' < cells_after e c' es ! m)"
      by (rule Cons.IH[OF srt(1) m])
    have "e \<le> es ! m" using srt(1) m by simp
    then have "bump p (es ! m) \<Longrightarrow> bump p e \<or> bump e (es ! m)" using bump_chain srt(2) by blast
    then show ?thesis using IH unfolding Suc eq by (auto simp: c'_def split: if_split_asm)
  qed
qed simp

lemma cells_after_mono:
  assumes "sorted (p # es)" "j < k" "k < length es"
  shows "cells_after p c es ! j \<le> cells_after p c es ! k \<and>
    (bump (es ! j) (es ! k) \<longrightarrow> cells_after p c es ! j < cells_after p c es ! k)"
  using assms
proof (induction es arbitrary: p c j k)
  case (Cons e es)
  obtain m where m: "k = Suc m" using Cons.prems(2) by (cases k) auto
  define c' where "c' = (if bump p e then c + 1 else c)"
  have eq: "cells_after p c (e # es) = c' # cells_after e c' es" by (simp add: c'_def Let_def)
  have srt: "sorted (e # es)" "m < length es" using Cons.prems m by simp_all
  show ?case
  proof (cases j)
    case 0
    then show ?thesis using cells_after_bounds[OF srt, of c'] unfolding eq by (simp add: m)
  next
    case (Suc i)
    then show ?thesis using Cons.IH[OF srt(1) _ srt(2), of i c'] Cons.prems(2) unfolding eq by (simp add: m)
  qed
qed simp

lemma cells_mono:
  assumes "sorted es" "j < k" "k < length es"
  shows "cells es ! j \<le> cells es ! k \<and> (bump (es ! j) (es ! k) \<longrightarrow> cells es ! j < cells es ! k)"
proof (cases es)
  case (Cons e r)
  obtain m where m: "k = Suc m" using assms(2) by (cases k) auto
  show ?thesis
  proof (cases j)
    case 0
    then show ?thesis using cells_after_bounds[of e r m 0] assms by (simp add: cells_def Cons m)
  next
    case (Suc i)
    then show ?thesis using cells_after_mono[of e r i m 0] assms by (simp add: cells_def Cons m)
  qed
qed (use assms in simp)

text \<open>The cell of an event of the list.\<close>

definition cell :: "axis_event list \<Rightarrow> axis_event \<Rightarrow> int" where
  "cell es e = the (map_of (zip es (cells es)) e)"

lemma cell_nth:
  assumes "distinct es" "k < length es"
  shows "cell es (es ! k) = cells es ! k"
  using assms by (simp add: cell_def map_of_zip_nth)

lemma cell_mono:
  assumes "sorted es" "distinct es" "e \<in> set es" "f \<in> set es" "e < f"
  shows "cell es e \<le> cell es f" "bump e f \<Longrightarrow> cell es e < cell es f"
proof -
  obtain j where j: "j < length es" "es ! j = e" using assms(3) by (auto simp: in_set_conv_nth)
  obtain k where k: "k < length es" "es ! k = f" using assms(4) by (auto simp: in_set_conv_nth)
  have "j < k"
  proof (rule ccontr)
    assume "\<not> j < k"
    then have "f \<le> e" using sorted_nth_mono[OF assms(1), of k j] j k by simp
    then show False using assms(5) by simp
  qed
  then show "cell es e \<le> cell es f" "bump e f \<Longrightarrow> cell es e < cell es f"
    using cells_mono[OF assms(1) _ k(1)] cell_nth[OF assms(2)] j k by auto
qed

section \<open>What the loop leaves in the boxes\<close>

abbreviation ev_index :: "axis_event \<Rightarrow> nat" where
  "ev_index e \<equiv> snd (snd e)"

definition put :: "(axis_event \<Rightarrow> int32 \<Rightarrow> Rectangle32 \<Rightarrow> Rectangle32) \<Rightarrow> axis_event \<times> int \<Rightarrow>
    Rectangle32 list \<Rightarrow> Rectangle32 list" where
  "put f ec rs = rs[ev_index (fst ec) := f (fst ec) (snd ec) (rs ! ev_index (fst ec))]"

lemma length_fold_put [simp]: "length (fold (put f) xs rs) = length rs"
  by (induction xs arbitrary: rs) (simp_all add: put_def)

lemma compress_loop_fold:
  assumes "0 \<le> c"
  shows "fst (compress_loop f y e c rs es) = fold (put f) (zip es (cells_after (y, e, i) c es)) rs"
  using assms
proof (induction es arbitrary: y e c rs i)
  case (Cons ev es)
  obtain y' e' i' where ev: "ev = (y', e', i')" by (cases ev)
  have "next_cell y e c y' e' = (if bump (y, e, i) ev then c + 1 else c)"
    using Cons.prems by (simp add: next_cell_def ev)
  moreover have "0 \<le> next_cell y e c y' e'" using Cons.prems by (simp add: next_cell_def)
  ultimately show ?case using Cons.IH[of "next_cell y e c y' e'" y' e' _ i']
    by (simp add: ev Let_def put_def)
qed simp

lemma compress_loop_cells:
  "fst (compress_loop f 0 kEnd (- 1) rs es) = fold (put f) (zip es (cells es)) rs"
proof (cases es)
  case (Cons e r)
  obtain y ev i where e: "e = (y, ev, i)" by (cases e)
  show ?thesis
    using compress_loop_fold[of 0 f y ev "rs[i := f (y, ev, i) 0 (rs ! i)]" r i]
    by (simp add: Cons e cells_def next_cell_def put_def)
qed (simp add: cells_def)

lemma fold_put_nth:
  assumes "i < length rs"
  shows "fold (put f) xs rs ! i = fold (\<lambda>(e, c). f e c) (filter (\<lambda>(e, c). ev_index e = i) xs) (rs ! i)"
  using assms
proof (induction xs arbitrary: rs)
  case (Cons x xs)
  obtain e c where x: "x = (e, c)" by (cases x)
  have "i < length (put f x rs)" using Cons.prems by (simp add: put_def)
  moreover have "put f x rs ! i = (if ev_index e = i then f e c (rs ! i) else rs ! i)"
    using Cons.prems by (simp add: put_def x)
  ultimately show ?case using Cons.IH[of "put f x rs"] by (simp add: x)
qed simp

lemma zip_cells:
  assumes "distinct es" "(e, c) \<in> set (zip es (cells es))"
  shows "c = cell es e"
  using assms cell_nth[OF assms(1)] by (auto simp: set_zip)

text \<open>The list of pairs is known from its first components when the second ones are a function of them.\<close>

lemma pairs_of_function:
  "\<forall>(e, c) \<in> set xs. c = g e \<Longrightarrow> xs = map (\<lambda>e. (e, g e)) (map fst xs)"
  by (induction xs) auto

lemma fold_over_function:
  assumes "\<forall>(e, c) \<in> set xs. c = g e"
  shows "fold (\<lambda>(e, c). f e c) xs r = fold (\<lambda>e. f e (g e)) (map fst xs) r"
  by (subst pairs_of_function[OF assms]) (simp add: fold_map comp_def)

lemma map_fst_filter_zip:
  "length es = length cs \<Longrightarrow> map fst (filter (\<lambda>(e, c). P e) (zip es cs)) = filter P es"
  by (induction es cs rule: list_induct2) simp_all

lemma compress_result:
  assumes "distinct es" "i < length rs"
  shows "fst (compress_loop f 0 kEnd (- 1) rs es) ! i =
    fold (\<lambda>e. f e (cell es e)) (filter (\<lambda>e. ev_index e = i) es) (rs ! i)"
proof -
  define xs where "xs = filter (\<lambda>(e, c). ev_index e = i) (zip es (cells es))"
  have "\<forall>(e, c) \<in> set xs. c = cell es e" using zip_cells[OF assms(1)] by (auto simp: xs_def)
  moreover have "map fst xs = filter (\<lambda>e. ev_index e = i) es"
    unfolding xs_def by (rule map_fst_filter_zip) simp
  moreover have "fst (compress_loop f 0 kEnd (- 1) rs es) ! i = fold (\<lambda>(e, c). f e c) xs (rs ! i)"
    unfolding compress_loop_cells xs_def by (rule fold_put_nth[OF assms(2)])
  ultimately show ?thesis using fold_over_function[of xs "cell es" f] by simp
qed

section \<open>One axis\<close>

text \<open>The bounds of the rectangles on the axis, with the sizes that are not negative.\<close>

definition axis_ok :: "(Rectangle \<Rightarrow> int64) \<Rightarrow> (Rectangle \<Rightarrow> int64) \<Rightarrow> Rectangle list \<Rightarrow> bool" where
  "axis_ok lo hi rs \<longleftrightarrow> (\<forall>r \<in> set rs. lo r \<le> hi r \<and> in_int64 (lo r) \<and> in_int64 (hi r))"

lemma size_zero_iff:
  assumes "in_int64 a" "in_int64 b"
  shows "wrap64 (b - a) = 0 \<longleftrightarrow> a = b"
proof
  assume "wrap64 (b - a) = 0"
  then have "(b - a + 2 ^ 63) mod 2 ^ 64 = 2 ^ 63" by (simp add: wrap64_def)
  then have "(b - a + 2 ^ 63) mod 2 ^ 64 = 2 ^ 63 mod (2 ^ 64 :: int)" by simp
  then have "2 ^ 64 dvd (b - a)" using mod_eq_dvd_iff[of "b - a + 2 ^ 63" "2 ^ 64" "2 ^ 63"] by simp
  moreover have "\<bar>b - a\<bar> < 2 ^ 64" using assms unfolding in_int64_def by (simp add: abs_less_iff)
  ultimately have "b - a = 0" using dvd_imp_le_int[of "b - a" "2 ^ 64"] by fastforce
  then show "a = b" by simp
qed (simp add: wrap64_def)

text \<open>The event that sets the lower bound.\<close>

definition start_event :: "int64 \<Rightarrow> int64 \<Rightarrow> nat \<Rightarrow> axis_event" where
  "start_event lo hi i = (lo, if lo = hi then kPoint else kBegin, i)"

lemma axis_events_of_eq:
  assumes "in_int64 lo" "in_int64 hi"
  shows "axis_events_of lo hi i = (if lo = hi then [start_event lo hi i] else [start_event lo hi i, (hi, kEnd, i)])"
  using size_zero_iff[OF assms] by (simp add: axis_events_of_def start_event_def)

lemma ev_index_axis_events_of: "e \<in> set (axis_events_of lo hi i) \<Longrightarrow> ev_index e = i"
  by (auto simp: axis_events_of_def split: if_split_asm)

lemma filter_concat_index:
  assumes "\<And>j e. e \<in> set (g j) \<Longrightarrow> ev_index e = j" "distinct js"
  shows "filter (\<lambda>e. ev_index e = i) (concat (map g js)) = (if i \<in> set js then g i else [])"
  using assms(2)
proof (induction js)
  case (Cons j js)
  have "filter (\<lambda>e. ev_index e = i) (g j) = (if i = j then g j else [])"
    using assms(1)[of _ j] by (auto simp: filter_empty_conv intro!: filter_True)
  then show ?case using Cons by auto
qed simp

lemma filter_axis_events:
  assumes "i < length rs"
  shows "filter (\<lambda>e. ev_index e = i) (axis_events lo hi rs) = axis_events_of (lo (rs ! i)) (hi (rs ! i)) i"
  unfolding axis_events_def using filter_concat_index[of "\<lambda>i. axis_events_of (lo (rs ! i)) (hi (rs ! i)) i" "[0..<length rs]" i]
    ev_index_axis_events_of assms by simp

lemma distinct_axis_events: "distinct (axis_events lo hi rs)"
proof -
  have "distinct (concat (map (\<lambda>i. axis_events_of (lo (rs ! i)) (hi (rs ! i)) i) [0..<n]))" for n
  proof (induction n)
    case (Suc n)
    have "distinct (axis_events_of (lo (rs ! n)) (hi (rs ! n)) n)" by (simp add: axis_events_of_def)
    moreover have "set (axis_events_of (lo (rs ! n)) (hi (rs ! n)) n) \<inter>
        set (concat (map (\<lambda>i. axis_events_of (lo (rs ! i)) (hi (rs ! i)) i) [0..<n])) = {}"
      by (force dest: ev_index_axis_events_of)
    ultimately show ?case using Suc by auto
  qed simp
  then show ?thesis by (simp add: axis_events_def)
qed

lemma filter_sorted_axis_events:
  assumes "axis_ok lo hi rs" "i < length rs"
  shows "filter (\<lambda>e. ev_index e = i) (sort (axis_events lo hi rs)) = axis_events_of (lo (rs ! i)) (hi (rs ! i)) i"
proof -
  have r: "lo (rs ! i) \<le> hi (rs ! i)" "in_int64 (lo (rs ! i))" "in_int64 (hi (rs ! i))"
    using assms by (auto simp: axis_ok_def)
  have "sorted (axis_events_of (lo (rs ! i)) (hi (rs ! i)) i)"
    using r by (simp add: axis_events_of_eq start_event_def less_eq_prod_def)
  then show ?thesis using filter_axis_events[OF assms(2), of lo hi] by (simp add: filter_sort sort_key_id_if_sorted)
qed

text \<open>The bounds of the boxes: the cell of the event that starts the rectangle, and the cell of its end,
  or the next cell for a rectangle of size zero.\<close>

definition lo_cell :: "(Rectangle \<Rightarrow> int64) \<Rightarrow> (Rectangle \<Rightarrow> int64) \<Rightarrow> Rectangle list \<Rightarrow> nat \<Rightarrow> int" where
  "lo_cell lo hi rs i = cell (sort (axis_events lo hi rs)) (start_event (lo (rs ! i)) (hi (rs ! i)) i)"

definition hi_cell :: "(Rectangle \<Rightarrow> int64) \<Rightarrow> (Rectangle \<Rightarrow> int64) \<Rightarrow> Rectangle list \<Rightarrow> nat \<Rightarrow> int" where
  "hi_cell lo hi rs i =
     (if lo (rs ! i) = hi (rs ! i) then lo_cell lo hi rs i + 1
      else cell (sort (axis_events lo hi rs)) (hi (rs ! i), kEnd, i))"

lemma axis_events_mem:
  assumes "axis_ok lo hi rs" "i < length rs"
  shows "start_event (lo (rs ! i)) (hi (rs ! i)) i \<in> set (axis_events lo hi rs)"
    "lo (rs ! i) \<noteq> hi (rs ! i) \<Longrightarrow> (hi (rs ! i), kEnd, i) \<in> set (axis_events lo hi rs)"
proof -
  have r: "in_int64 (lo (rs ! i))" "in_int64 (hi (rs ! i))" using assms by (auto simp: axis_ok_def)
  have sub: "set (axis_events_of (lo (rs ! i)) (hi (rs ! i)) i) \<subseteq> set (axis_events lo hi rs)"
    unfolding filter_axis_events[OF assms(2), of lo hi, symmetric] by (rule filter_is_subset)
  show "start_event (lo (rs ! i)) (hi (rs ! i)) i \<in> set (axis_events lo hi rs)"
    "lo (rs ! i) \<noteq> hi (rs ! i) \<Longrightarrow> (hi (rs ! i), kEnd, i) \<in> set (axis_events lo hi rs)"
    using sub r by (auto simp: axis_events_of_eq split: if_split_asm)
qed

lemmas axis_cell_mono =
  cell_mono[OF sorted_sort, unfolded distinct_sort set_sort, OF distinct_axis_events]

lemma axis_positive:
  assumes "axis_ok lo hi rs" "i < length rs"
  shows "lo_cell lo hi rs i < hi_cell lo hi rs i"
proof (cases "lo (rs ! i) = hi (rs ! i)")
  case False
  have "lo (rs ! i) \<le> hi (rs ! i)" using assms by (auto simp: axis_ok_def)
  then have "start_event (lo (rs ! i)) (hi (rs ! i)) i < (hi (rs ! i), kEnd, i)"
    using False by (simp add: start_event_def less_prod_def)
  moreover have "bump (start_event (lo (rs ! i)) (hi (rs ! i)) i) (hi (rs ! i), kEnd, i)"
    using False by (simp add: start_event_def)
  ultimately show ?thesis
    using axis_cell_mono(2)[OF axis_events_mem[OF assms]] False by (simp add: lo_cell_def hi_cell_def)
qed (simp add: hi_cell_def)

text \<open>The first rectangle starts before the second one ends.\<close>

lemma axis_starts_before:
  assumes "axis_ok lo hi rs" "i < length rs" "j < length rs" "lo (rs ! i) < hi (rs ! j)"
  shows "lo_cell lo hi rs i < hi_cell lo hi rs j"
proof (cases "lo (rs ! j) = hi (rs ! j)")
  case True
  have "start_event (lo (rs ! i)) (hi (rs ! i)) i < start_event (lo (rs ! j)) (hi (rs ! j)) j"
    using assms(4) True by (simp add: start_event_def less_prod_def)
  then have "lo_cell lo hi rs i \<le> lo_cell lo hi rs j"
    unfolding lo_cell_def using axis_cell_mono(1) axis_events_mem(1)[OF assms(1)] assms(2,3) by blast
  then show ?thesis using True by (simp add: hi_cell_def)
next
  case False
  have "start_event (lo (rs ! i)) (hi (rs ! i)) i < (hi (rs ! j), kEnd, j)"
    using assms(4) by (simp add: start_event_def less_prod_def)
  moreover have "bump (start_event (lo (rs ! i)) (hi (rs ! i)) i) (hi (rs ! j), kEnd, j)"
    using assms(4) by (simp add: start_event_def)
  ultimately show ?thesis
    using axis_cell_mono(2)[OF axis_events_mem(1)[OF assms(1,2)] axis_events_mem(2)[OF assms(1,3) False]] False
    by (simp add: lo_cell_def hi_cell_def)
qed

text \<open>The first rectangle ends before the second one starts; two points at the same place are apart one
  way or the other.\<close>

lemma axis_ends_before:
  assumes "axis_ok lo hi rs" "i < length rs" "j < length rs" "i \<noteq> j" "hi (rs ! i) \<le> lo (rs ! j)"
  shows "hi_cell lo hi rs i \<le> lo_cell lo hi rs j \<or> hi_cell lo hi rs j \<le> lo_cell lo hi rs i"
proof -
  define si where "si = start_event (lo (rs ! i)) (hi (rs ! i)) i"
  define sj where "sj = start_event (lo (rs ! j)) (hi (rs ! j)) j"
  have ok: "lo (rs ! i) \<le> hi (rs ! i)" "lo (rs ! j) \<le> hi (rs ! j)" using assms(1-3) by (auto simp: axis_ok_def)
  have mem: "si \<in> set (axis_events lo hi rs)" "sj \<in> set (axis_events lo hi rs)"
    unfolding si_def sj_def using axis_events_mem(1)[OF assms(1)] assms(2,3) by blast+
  have lt: "si < sj" if "lo (rs ! i) < lo (rs ! j)" using that by (simp add: si_def sj_def start_event_def less_prod_def)
  show ?thesis
  proof (cases "lo (rs ! i) = hi (rs ! i)")
    case False
    have "(hi (rs ! i), kEnd, i) < sj"
      using assms(5) by (auto simp: sj_def start_event_def less_prod_def less_Event_def)
    then have "hi_cell lo hi rs i \<le> lo_cell lo hi rs j"
      using axis_cell_mono(1)[OF axis_events_mem(2)[OF assms(1,2) False] mem(2)] False
      by (simp add: hi_cell_def lo_cell_def sj_def)
    then show ?thesis by simp
  next
    case point: True
    show ?thesis
    proof (cases "lo (rs ! i) = lo (rs ! j) \<and> lo (rs ! j) = hi (rs ! j) \<and> j < i")
      case True
      have "sj < si" "bump sj si" using True point by (auto simp: si_def sj_def start_event_def less_prod_def)
      then have "hi_cell lo hi rs j \<le> lo_cell lo hi rs i"
        using axis_cell_mono(2)[OF mem(2,1)] True by (simp add: hi_cell_def lo_cell_def si_def sj_def)
      then show ?thesis by simp
    next
      case False
      have "si < sj" "bump si sj"
        using False point ok assms(4,5) by (auto simp: si_def sj_def start_event_def less_prod_def less_Event_def)
      then have "hi_cell lo hi rs i \<le> lo_cell lo hi rs j"
        using axis_cell_mono(2)[OF mem] point by (simp add: hi_cell_def lo_cell_def si_def sj_def)
      then show ?thesis by simp
    qed
  qed
qed

lemma axis_overlap_iff:
  assumes "axis_ok lo hi rs" "i < length rs" "j < length rs" "i \<noteq> j"
  shows "(lo (rs ! i) < hi (rs ! j) \<and> lo (rs ! j) < hi (rs ! i)) \<longleftrightarrow>
    (lo_cell lo hi rs i < hi_cell lo hi rs j \<and> lo_cell lo hi rs j < hi_cell lo hi rs i)"
  using axis_starts_before[OF assms(1,2,3)] axis_starts_before[OF assms(1,3,2)]
    axis_ends_before[OF assms] axis_ends_before[OF assms(1,3,2) assms(4)[symmetric]] by (meson not_less)

section \<open>The boxes\<close>

definition box_of :: "Rectangle list \<Rightarrow> nat \<Rightarrow> Rectangle32" where
  "box_of rs i = \<lparr> x_min = lo_cell x_min x_max rs i, x_max = hi_cell x_min x_max rs i,
     y_min = lo_cell y_min y_max rs i, y_max = hi_cell y_min y_max rs i, r_index = i \<rparr>"

definition rectangles_ok :: "Rectangle list \<Rightarrow> bool" where
  "rectangles_ok rs \<longleftrightarrow> axis_ok x_min x_max rs \<and> axis_ok y_min y_max rs"

lemma proper_box_of: "rectangles_ok rs \<Longrightarrow> i < length rs \<Longrightarrow> proper (box_of rs i)"
  using axis_positive by (simp add: proper_def box_of_def rectangles_ok_def)

lemma box_of_disjoint_iff:
  assumes "rectangles_ok rs" "i < length rs" "j < length rs" "i \<noteq> j"
  shows "Rectangle_IsDisjoint (box_of rs i) (box_of rs j) \<longleftrightarrow> Rectangle_IsDisjoint (rs ! i) (rs ! j)"
proof -
  have dis: "Rectangle_IsDisjoint a b \<longleftrightarrow>
      \<not> (x_min a < x_max b \<and> x_min b < x_max a \<and> y_min a < y_max b \<and> y_min b < y_max a)"
    for a b :: "'b Rectangle_scheme" by (auto simp: Rectangle_IsDisjoint_def)
  have dis': "Rectangle_IsDisjoint (rs ! i) (rs ! j) \<longleftrightarrow>
      \<not> ((x_min (rs ! i) < x_max (rs ! j) \<and> x_min (rs ! j) < x_max (rs ! i)) \<and>
         (y_min (rs ! i) < y_max (rs ! j) \<and> y_min (rs ! j) < y_max (rs ! i)))"
    by (auto simp: Rectangle_IsDisjoint_def)
  show ?thesis
    unfolding dis' using axis_overlap_iff[of x_min x_max rs i j] axis_overlap_iff[of y_min y_max rs i j] assms
    by (auto simp: Rectangle_IsDisjoint_def box_of_def rectangles_ok_def)
qed

lemma set_loops_box:
  assumes "rectangles_ok rs" "i < length rs"
  shows "fst (compress_loop set_x 0 kEnd (- 1)
      (fst (compress_loop set_y 0 kEnd (- 1) (replicate (length rs) Rectangle32_zero) (sort (axis_events y_min y_max rs))))
      (sort (axis_events x_min x_max rs))) ! i = box_of rs i"
proof -
  define ys where "ys = sort (axis_events y_min y_max rs)"
  define xs where "xs = sort (axis_events x_min x_max rs)"
  define ry where "ry = fst (compress_loop set_y 0 kEnd (- 1) (replicate (length rs) Rectangle32_zero) ys)"
  have ok: "axis_ok x_min x_max rs" "axis_ok y_min y_max rs" using assms(1) by (simp_all add: rectangles_ok_def)
  have b: "in_int64 (x_min (rs ! i))" "in_int64 (x_max (rs ! i))" "in_int64 (y_min (rs ! i))" "in_int64 (y_max (rs ! i))"
    using ok assms(2) by (auto simp: axis_ok_def)
  have ry_len: "length ry = length rs" by (simp add: ry_def compress_loop_cells)
  have "ry ! i = fold (\<lambda>e. set_y e (cell ys e)) (axis_events_of (y_min (rs ! i)) (y_max (rs ! i)) i) Rectangle32_zero"
    unfolding ry_def using compress_result[of ys i "replicate (length rs) Rectangle32_zero" set_y] assms(2)
      filter_sorted_axis_events[OF ok(2) assms(2)] by (simp add: ys_def distinct_axis_events)
  then have ry: "ry ! i = Rectangle32_zero\<lparr> y_min := lo_cell y_min y_max rs i, y_max := hi_cell y_min y_max rs i, r_index := i \<rparr>"
    using b by (simp add: axis_events_of_eq start_event_def lo_cell_def hi_cell_def ys_def Rectangle32_zero_def)
  have "fst (compress_loop set_x 0 kEnd (- 1) ry xs) ! i =
      fold (\<lambda>e. set_x e (cell xs e)) (axis_events_of (x_min (rs ! i)) (x_max (rs ! i)) i) (ry ! i)"
    using compress_result[of xs i ry set_x] assms(2) ry_len
      filter_sorted_axis_events[OF ok(1) assms(2)] by (simp add: xs_def distinct_axis_events)
  also have "\<dots> = box_of rs i"
    using b by (simp add: ry axis_events_of_eq start_event_def lo_cell_def hi_cell_def xs_def box_of_def Rectangle32_zero_def)
  finally show ?thesis unfolding ry_def xs_def ys_def .
qed

section \<open>The loop over the boxes\<close>

text \<open>The indices of the events that start a rectangle.\<close>

definition start_indices :: "axis_event list \<Rightarrow> nat list" where
  "start_indices es = map ev_index (filter (\<lambda>(x, e, i). e \<noteq> kEnd) es)"

lemma start_indices_simps [simp]:
  "start_indices [] = []"
  "start_indices ((x, e, i) # es) = (if e = kEnd then start_indices es else i # start_indices es)"
  by (simp_all add: start_indices_def)

lemma update_largest_cases: "update_largest l r = l \<or> update_largest l r = r"
  by (simp add: update_largest_def Let_def)

lemma contained_loop_none:
  "contained_loop rs sorted_rev largest pairs es = (boxes, []) \<Longrightarrow>
    pairs = [] \<and> boxes = rev sorted_rev @ map (\<lambda>i. rs ! i) (start_indices es)"
proof (induction es arbitrary: sorted_rev largest pairs)
  case (Cons e es)
  obtain x event i where e: "e = (x, event, i)" by (cases e)
  show ?case
  proof (cases "event = kEnd")
    case True
    then show ?thesis using Cons by (simp add: e)
  next
    case False
    then have ev: "event = kBegin \<or> event = kPoint" by (cases event) auto
    show ?thesis
    proof (cases sorted_rev)
      case Nil
      then show ?thesis using Cons.IH[of "[rs ! i]" "rs ! i" pairs] Cons.prems ev False by (simp add: e Let_def)
    next
      case sr: (Cons prev r)
      have "\<not> Rectangle32_IsInsideOf (rs ! i) prev"
        using Cons.IH[of sorted_rev largest "(r_index (rs ! i), r_index prev) # pairs"] Cons.prems ev sr
        by (auto simp: e Let_def)
      moreover have no_largest: "\<not> (r_index largest \<noteq> r_index prev \<and> Rectangle32_IsInsideOf (rs ! i) largest)"
        using Cons.IH[of sorted_rev largest "(r_index (rs ! i), r_index largest) # pairs"] Cons.prems ev sr calculation
        by (auto simp: e Let_def)
      ultimately have "contained_loop rs (rs ! i # sorted_rev) (update_largest largest (rs ! i)) pairs es = (boxes, [])"
        using Cons.prems ev sr if_not_P[OF no_largest] by (simp add: e Let_def del: de_Morgan_conj)
      from Cons.IH[OF this] show ?thesis using False by (simp add: e)
    qed
  qed
qed simp

text \<open>A contained pair is a box inside another one.\<close>

lemma contained_loop_pairs:
  assumes "contained_loop rs sorted_rev largest pairs es = (boxes, extra)"
    "sorted_rev \<noteq> [] \<Longrightarrow> largest \<in> set sorted_rev" "set sorted_rev \<subseteq> (\<lambda>i. rs ! i) ` P"
    "P \<inter> set (start_indices es) = {}" "distinct (start_indices es)" "q \<in> set extra"
  shows "q \<in> set pairs \<or> (\<exists>i j. i \<in> P \<union> set (start_indices es) \<and> j \<in> P \<union> set (start_indices es) \<and> i \<noteq> j \<and>
    q = (r_index (rs ! i), r_index (rs ! j)) \<and> Rectangle32_IsInsideOf (rs ! i) (rs ! j))"
  using assms
proof (induction es arbitrary: sorted_rev largest pairs P)
  case (Cons e es)
  obtain x event i where e: "e = (x, event, i)" by (cases e)
  show ?case
  proof (cases "event = kEnd")
    case True
    then have "contained_loop rs sorted_rev largest pairs es = (boxes, extra)" using Cons.prems(1) e by simp
    from Cons.IH[OF this Cons.prems(2,3) _ _ Cons.prems(6)] show ?thesis using Cons.prems(4,5) True e by simp
  next
    case False
    then have ev: "event = kBegin \<or> event = kPoint" by (cases event) auto
    have ids: "set (start_indices (e # es)) = insert i (set (start_indices es))" "i \<notin> set (start_indices es)"
      "distinct (start_indices es)" "i \<notin> P"
      using Cons.prems(4,5) False e by simp_all
    have old: ?thesis
      if a: "contained_loop rs sorted_rev largest ((r_index (rs ! i), r_index r) # pairs) es = (boxes, extra)"
        and b: "r \<in> set sorted_rev" and c: "Rectangle32_IsInsideOf (rs ! i) r" for r
    proof -
      obtain j where j: "j \<in> P" "r = rs ! j" using b Cons.prems(3) by blast
      then have "i \<noteq> j" using ids(4) by blast
      with Cons.IH[OF a Cons.prems(2,3) _ ids(3) Cons.prems(6)] show ?thesis
        using Cons.prems(4) ids c j by (simp add: ids(1)) blast
    qed
    have new: ?thesis
      if new_run: "contained_loop rs (rs ! i # sorted_rev) l pairs es = (boxes, extra)"
        and l: "rs ! i # sorted_rev \<noteq> [] \<Longrightarrow> l \<in> set (rs ! i # sorted_rev)" for l
    proof -
      have "set (rs ! i # sorted_rev) \<subseteq> (\<lambda>i. rs ! i) ` insert i P" using Cons.prems(3) by auto
      from Cons.IH[OF new_run l this _ ids(3) Cons.prems(6)] show ?thesis
        using Cons.prems(4) ids by simp
    qed
    show ?thesis
    proof (cases sorted_rev)
      case Nil
      then show ?thesis using new[of "rs ! i"] Cons.prems(1) ev by (simp add: e Let_def)
    next
      case (Cons prev r)
      have lg: "largest \<in> set sorted_rev" using Cons.prems(2) Cons by simp
      consider (prev) "Rectangle32_IsInsideOf (rs ! i) prev"
        | (large) "\<not> Rectangle32_IsInsideOf (rs ! i) prev" "r_index largest \<noteq> r_index prev" "Rectangle32_IsInsideOf (rs ! i) largest"
        | (push) "\<not> Rectangle32_IsInsideOf (rs ! i) prev" "\<not> (r_index largest \<noteq> r_index prev \<and> Rectangle32_IsInsideOf (rs ! i) largest)"
        by blast
      then show ?thesis
      proof cases
        case prev
        then show ?thesis using old[of prev] Cons.prems(1) ev Cons by (simp add: e Let_def)
      next
        case large
        then show ?thesis using old[of largest] lg Cons.prems(1) ev Cons by (simp add: e Let_def)
      next
        case push
        have "contained_loop rs (rs ! i # sorted_rev) (update_largest largest (rs ! i)) pairs es = (boxes, extra)"
          using push Cons.prems(1) ev Cons
          by (cases "r_index largest = r_index prev") (simp_all add: e Let_def)
        moreover have "update_largest largest (rs ! i) \<in> set (rs ! i # sorted_rev)"
          using update_largest_cases[of largest "rs ! i"] lg by auto
        ultimately show ?thesis by (intro new)
      qed
    qed
  qed
qed auto

section \<open>The search\<close>

lemma start_indices_axis:
  assumes "axis_ok lo hi rs"
  shows "distinct (start_indices (sort (axis_events lo hi rs)))"
    "set (start_indices (sort (axis_events lo hi rs))) = {..<length rs}"
proof -
  have one: "filter (\<lambda>(x, e, i). e \<noteq> kEnd) (axis_events_of (lo (rs ! i)) (hi (rs ! i)) i) =
      [start_event (lo (rs ! i)) (hi (rs ! i)) i]" if "i < length rs" for i
  proof -
    have "in_int64 (lo (rs ! i))" "in_int64 (hi (rs ! i))" using that assms by (auto simp: axis_ok_def)
    then show ?thesis by (simp add: axis_events_of_eq start_event_def)
  qed
  have "start_indices (axis_events lo hi rs) = [0..<length rs]"
  proof -
    have "map ev_index (filter (\<lambda>(x, e, i). e \<noteq> kEnd)
        (concat (map (\<lambda>i. axis_events_of (lo (rs ! i)) (hi (rs ! i)) i) [0..<n]))) = [0..<n]" if "n \<le> length rs" for n
      using that by (induction n) (simp_all add: one start_event_def)
    then show ?thesis by (simp add: start_indices_def axis_events_def)
  qed
  moreover have "mset (start_indices (sort (axis_events lo hi rs))) = mset (start_indices (axis_events lo hi rs))"
    by (simp add: start_indices_def mset_filter)
  ultimately have m: "mset (start_indices (sort (axis_events lo hi rs))) = mset [0..<length rs]" by simp
  show "distinct (start_indices (sort (axis_events lo hi rs)))" using mset_eq_imp_distinct_iff[OF m] by simp
  show "set (start_indices (sort (axis_events lo hi rs))) = {..<length rs}"
    using mset_eq_setD[OF m] by (simp add: atLeast0LessThan)
qed

text \<open>The boxes come out in the order of their lower bound.\<close>

lemma sorted_start_cells:
  assumes "axis_ok lo hi rs"
  shows "sorted (map (lo_cell lo hi rs) (start_indices (sort (axis_events lo hi rs))))"
proof -
  define es where "es = sort (axis_events lo hi rs)"
  have start: "e = start_event (lo (rs ! ev_index e)) (hi (rs ! ev_index e)) (ev_index e)"
    if "e \<in> set es" "fst (snd e) \<noteq> kEnd" for e
  proof -
    from that(1) obtain i where i: "i < length rs" "e \<in> set (axis_events_of (lo (rs ! i)) (hi (rs ! i)) i)"
      by (auto simp: es_def axis_events_def)
    have "in_int64 (lo (rs ! i))" "in_int64 (hi (rs ! i))" using i(1) assms by (auto simp: axis_ok_def)
    then show ?thesis using i(2) that(2) by (auto simp: axis_events_of_eq start_event_def split: if_split_asm)
  qed
  have srt: "sorted (filter (\<lambda>e. fst (snd e) \<noteq> kEnd) es)" "distinct (filter (\<lambda>e. fst (snd e) \<noteq> kEnd) es)"
    by (simp_all add: es_def sorted_wrt_filter distinct_axis_events)
  define fs where "fs = filter (\<lambda>e. fst (snd e) \<noteq> kEnd) es"
  have "sorted_wrt (\<lambda>a b. a < b) fs" using srt unfolding fs_def by (simp add: strict_sorted_iff)
  then have "sorted_wrt (\<lambda>a b. lo_cell lo hi rs (ev_index a) \<le> lo_cell lo hi rs (ev_index b)) fs"
  proof (rule sorted_wrt_mono_rel[rotated])
    fix a b assume ab: "a \<in> set fs" "b \<in> set fs" "a < b"
    have "lo_cell lo hi rs (ev_index e) = cell es e" if "e \<in> set fs" for e
      using start[of e] that by (simp add: lo_cell_def es_def fs_def)
    then show "lo_cell lo hi rs (ev_index a) \<le> lo_cell lo hi rs (ev_index b)"
      using ab axis_cell_mono(1)[of a lo hi rs b] by (simp add: es_def fs_def)
  qed
  moreover have "start_indices es = map ev_index fs" by (simp add: start_indices_def split_def fs_def)
  ultimately show ?thesis by (simp add: es_def[symmetric] sorted_wrt_map)
qed

lemma inside_not_disjoint:
  "proper a \<Longrightarrow> Rectangle32_IsInsideOf a b \<Longrightarrow> \<not> Rectangle_IsDisjoint a b"
  by (auto simp: proper_def Rectangle32_IsInsideOf_def Rectangle_IsDisjoint_def)

text \<open>The outcome of the conversion: contained pairs, or all the boxes in the order of their lower bounds.\<close>

definition conversion :: "Rectangle list \<Rightarrow> Rectangle32 list \<times> (nat \<times> nat) list" where
  "conversion rs = contained_loop (fst (compress_loop set_x 0 kEnd (- 1)
      (fst (compress_loop set_y 0 kEnd (- 1) (replicate (length rs) Rectangle32_zero) (sort (axis_events y_min y_max rs))))
      (sort (axis_events x_min x_max rs)))) [] Rectangle32_zero [] (sort (axis_events x_min x_max rs))"

lemma FindOne_conversion:
  "FindOneIntersectionIfPresentWithZeroArea rs =
    (let (boxes, extra) = conversion rs
     in if extra \<noteq> [] then Some (hd extra)
        else case FindOneIntersectionIfPresent boxes of
            None \<Rightarrow> None | Some (i, j) \<Rightarrow> Some (r_index (boxes ! i), r_index (boxes ! j)))"
proof (cases "rs = []")
  case True
  then have "conversion rs = ([], [])" by (simp add: conversion_def axis_events_def)
  then show ?thesis using True
    by (simp add: FindOneIntersectionIfPresentWithZeroArea_def ConvertToRectangle32WithNonZeroSizes_def)
next
  case False
  then obtain bb where "ConvertToRectangle32WithNonZeroSizes rs = (fst (conversion rs), snd (conversion rs), bb)"
    by (simp add: ConvertToRectangle32WithNonZeroSizes_def conversion_def Let_def split_def)
  then show ?thesis
    by (simp add: FindOneIntersectionIfPresentWithZeroArea_def Let_def split_def split: option.split)
qed

lemma conversion_pairs:
  assumes ok: "rectangles_ok rs" and "conversion rs = (boxes, extra)" "q \<in> set extra"
  shows "\<exists>i j. i < length rs \<and> j < length rs \<and> i \<noteq> j \<and> q = (i, j) \<and> \<not> Rectangle_IsDisjoint (rs ! i) (rs ! j)"
proof -
  define ks where "ks = start_indices (sort (axis_events x_min x_max rs))"
  have ax: "axis_ok x_min x_max rs" using ok by (simp add: rectangles_ok_def)
  have ks: "distinct ks" "set ks = {..<length rs}" using start_indices_axis[OF ax] by (simp_all add: ks_def)
  note bs = set_loops_box[OF ok]
  obtain i j where "i \<in> set ks" "j \<in> set ks" "i \<noteq> j" "q = (r_index (box_of rs i), r_index (box_of rs j))"
      "Rectangle32_IsInsideOf (box_of rs i) (box_of rs j)"
    using contained_loop_pairs[OF assms(2)[unfolded conversion_def] _ _ _ _ assms(3), of "{}"] ks bs
    unfolding ks_def by fastforce
  then have ij: "i < length rs" "j < length rs" "i \<noteq> j" "q = (i, j)" "Rectangle32_IsInsideOf (box_of rs i) (box_of rs j)"
    using ks(2) by (auto simp: box_of_def)
  then have "\<not> Rectangle_IsDisjoint (rs ! i) (rs ! j)"
    using inside_not_disjoint[OF proper_box_of[OF ok ij(1)]] box_of_disjoint_iff[OF ok] by blast
  then show ?thesis using ij by blast
qed

lemma conversion_boxes:
  assumes ok: "rectangles_ok rs" and "conversion rs = (boxes, [])"
  obtains ks where "distinct ks" "set ks = {..<length rs}" "boxes = map (box_of rs) ks" "sorted (map x_min boxes)"
proof -
  define ks where "ks = start_indices (sort (axis_events x_min x_max rs))"
  have ax: "axis_ok x_min x_max rs" using ok by (simp add: rectangles_ok_def)
  have ks: "distinct ks" "set ks = {..<length rs}" using start_indices_axis[OF ax] by (simp_all add: ks_def)
  have boxes: "boxes = map (box_of rs) ks"
    using contained_loop_none[OF assms(2)[unfolded conversion_def]] set_loops_box[OF ok] ks(2) by (simp add: ks_def)
  then have "sorted (map x_min boxes)"
    using sorted_start_cells[OF ax] by (simp add: ks_def box_of_def comp_def)
  then show ?thesis using that ks boxes by blast
qed

lemma pairwise_permuted:
  assumes "distinct ks" "set ks = {..<n}" "\<And>u v. R u v \<longleftrightarrow> R v u"
  shows "(\<forall>b < n. \<forall>a < b. R (ks ! a) (ks ! b)) \<longleftrightarrow> (\<forall>j < n. \<forall>i < j. R i (j :: nat))"
proof -
  have len: "length ks = n" using distinct_card[OF assms(1)] assms(2) by simp
  have sym: "(\<forall>b < n. \<forall>a < b. S a b) \<longleftrightarrow> (\<forall>a < n. \<forall>b < n. a \<noteq> b \<longrightarrow> S a b)"
    if "\<And>u v. S u v \<longleftrightarrow> S v u" for S :: "nat \<Rightarrow> nat \<Rightarrow> bool"
  proof (intro iffI allI impI)
    fix a b assume h: "\<forall>b < n. \<forall>a < b. S a b" "a < n" "b < n" "a \<noteq> b"
    then consider "a < b" | "b < a" by linarith
    then show "S a b" using h that[of a b] by cases blast+
  next
    fix b a assume "\<forall>a < n. \<forall>b < n. a \<noteq> b \<longrightarrow> S a b" "b < n" "a < b"
    then show "S a b" by (metis less_trans less_not_refl2)
  qed
  have "(\<forall>b < n. \<forall>a < b. R (ks ! a) (ks ! b)) \<longleftrightarrow> (\<forall>a < n. \<forall>b < n. a \<noteq> b \<longrightarrow> R (ks ! a) (ks ! b))"
    by (rule sym) (rule assms(3))
  also have "\<dots> \<longleftrightarrow> (\<forall>i \<in> set ks. \<forall>j \<in> set ks. i \<noteq> j \<longrightarrow> R i j)"
    by (simp add: all_set_conv_all_nth len nth_eq_iff_index_eq[OF assms(1)])
  also have "\<dots> \<longleftrightarrow> (\<forall>a < n. \<forall>b < n. a \<noteq> b \<longrightarrow> R a b)" unfolding assms(2) by blast
  also have "\<dots> \<longleftrightarrow> (\<forall>j < n. \<forall>i < j. R i j)" by (rule sym[symmetric]) (rule assms(3))
  finally show ?thesis .
qed

theorem FindOneIntersectionIfPresentWithZeroArea_spec:
  assumes ok: "rectangles_ok rs"
  shows "FindOneIntersectionIfPresentWithZeroArea rs = None \<longleftrightarrow>
      (\<forall>j < length rs. \<forall>i < j. Rectangle_IsDisjoint (rs ! i) (rs ! j))" (is "?none \<longleftrightarrow> ?apart")
    "FindOneIntersectionIfPresentWithZeroArea rs = Some (i, j) \<Longrightarrow>
      i < length rs \<and> j < length rs \<and> i \<noteq> j \<and> \<not> Rectangle_IsDisjoint (rs ! i) (rs ! j)"
proof -
  obtain boxes extra where be: "conversion rs = (boxes, extra)" by fastforce
  have pair: "\<not> ?apart" if "i < length rs" "j < length rs" "i \<noteq> j" "\<not> Rectangle_IsDisjoint (rs ! i) (rs ! j)" for i j
    using that Rectangle_IsDisjoint_sym by (metis linorder_neqE_nat)
  have "(?none \<longleftrightarrow> ?apart) \<and> (FindOneIntersectionIfPresentWithZeroArea rs = Some (i, j) \<longrightarrow>
      i < length rs \<and> j < length rs \<and> i \<noteq> j \<and> \<not> Rectangle_IsDisjoint (rs ! i) (rs ! j))"
  proof (cases "extra = []")
    case False
    then show ?thesis using conversion_pairs[OF ok be, of "hd extra"] pair
      by (auto simp: FindOne_conversion be)
  next
    case True
    obtain ks where ks: "distinct ks" "set ks = {..<length rs}" "boxes = map (box_of rs) ks" "sorted (map x_min boxes)"
      using conversion_boxes[OF ok be[unfolded True]] by blast
    have len: "length ks = length rs" using distinct_card[OF ks(1)] ks(2) by simp
    have k_in: "ks ! a < length rs" if "a < length rs" for a using nth_mem[of a ks] that len ks(2) by simp
    have k_ne: "ks ! a \<noteq> ks ! b" if "a < b" "b < length rs" for a b
      using that nth_eq_iff_index_eq[OF ks(1)] len by simp
    have k_eq: "Rectangle_IsDisjoint (boxes ! a) (boxes ! b) \<longleftrightarrow> Rectangle_IsDisjoint (rs ! (ks ! a)) (rs ! (ks ! b))"
      if "a < b" "b < length rs" for a b
      using box_of_disjoint_iff[OF ok k_in k_in k_ne] that len by (simp add: ks(3))
    have "\<forall>r \<in> set boxes. proper r" using ks(2,3) proper_box_of[OF ok] by simp
    note spec = FindOneIntersectionIfPresent_spec[OF this ks(4)]
    have "?none \<longleftrightarrow> FindOneIntersectionIfPresent boxes = None"
      by (auto simp: FindOne_conversion be True split: option.split)
    also have "\<dots> \<longleftrightarrow> (\<forall>b < length rs. \<forall>a < b. Rectangle_IsDisjoint (rs ! (ks ! a)) (rs ! (ks ! b)))"
      unfolding spec(1) using k_eq by (simp add: ks(3) len)
    also have "\<dots> \<longleftrightarrow> ?apart"
      by (rule pairwise_permuted[OF ks(1,2)]) (rule Rectangle_IsDisjoint_sym)
    finally have "?none \<longleftrightarrow> ?apart" .
    moreover have "i < length rs \<and> j < length rs \<and> i \<noteq> j \<and> \<not> Rectangle_IsDisjoint (rs ! i) (rs ! j)"
      if found: "FindOneIntersectionIfPresentWithZeroArea rs = Some (i, j)"
    proof -
      obtain a b where ab: "FindOneIntersectionIfPresent boxes = Some (a, b)" "i = r_index (boxes ! a)" "j = r_index (boxes ! b)"
        using found True by (auto simp: FindOne_conversion be split: option.splits)
      have f: "a < b" "b < length rs" "\<not> Rectangle_IsDisjoint (boxes ! a) (boxes ! b)"
        using spec(2)[OF ab(1)] len by (auto simp: ks(3))
      then have "i = ks ! a" "j = ks ! b" using ab(2,3) len by (simp_all add: ks(3) box_of_def)
      then show ?thesis using f k_eq k_in k_ne by simp
    qed
    ultimately show ?thesis by blast
  qed
  then show "?none \<longleftrightarrow> ?apart" "FindOneIntersectionIfPresentWithZeroArea rs = Some (i, j) \<Longrightarrow>
      i < length rs \<and> j < length rs \<and> i \<noteq> j \<and> \<not> Rectangle_IsDisjoint (rs ! i) (rs ! j)" by blast+
qed

end
