(* ===== verification/CpChecker.thy ===== *)
theory CpChecker
  imports CpUtils Diffn
begin

text \<open>
  The feasibility half of \<open>or-tools/ortools/sat/cp_model_checker.cc\<close>: \<open>class ConstraintChecker\<close>,
  one function per kind of constraint, and \<open>SolutionIsFeasible\<close>.  The member \<open>variable_values_\<close>
  is the argument \<open>x\<close>.  A function that can divide by zero or reach a \<open>LOG(FATAL)\<close> returns an
  \<open>option\<close>, with \<open>None\<close> when the process stops; the loops of the circuit and routes checks run on
  fuel, and running out of it is \<open>None\<close> as well (it never happens).
\<close>

section \<open>Values\<close>

definition LiteralIsTrue :: "int64 list \<Rightarrow> int32 \<Rightarrow> bool" where
  "LiteralIsTrue x l \<longleftrightarrow> (if l \<ge> 0 then elt x l \<noteq> 0 else elt x (- l - 1) = 0)"

definition LiteralIsFalse :: "int64 list \<Rightarrow> int32 \<Rightarrow> bool" where
  "LiteralIsFalse x l \<longleftrightarrow> \<not> LiteralIsTrue x l"

definition Value :: "int64 list \<Rightarrow> int32 \<Rightarrow> int64" where
  "Value x var = (if var \<ge> 0 then elt x var else wrap64 (- elt x (- var - 1)))"

definition ConstraintIsEnforced :: "int64 list \<Rightarrow> ConstraintProto \<Rightarrow> bool" where
  "ConstraintIsEnforced x ct \<longleftrightarrow> \<not> list_ex (LiteralIsFalse x) (ct_enforcement_literal ct)"

fun expression_loop :: "int64 list \<Rightarrow> int64 \<Rightarrow> (int32 \<times> int64) list \<Rightarrow> int64" where
  "expression_loop x s [] = s"
| "expression_loop x s ((v, c) # ts) = expression_loop x (wrap64 (s + wrap64 (Value x v * c))) ts"

definition LinearExpressionValue :: "int64 list \<Rightarrow> LinearExpressionProto \<Rightarrow> int64" where
  "LinearExpressionValue x expr = expression_loop x (le_offset expr) (zip (le_vars expr) (le_coeffs expr))"

section \<open>Boolean constraints\<close>

definition BoolOrConstraintIsFeasible :: "int64 list \<Rightarrow> BoolArgumentProto \<Rightarrow> bool" where
  "BoolOrConstraintIsFeasible x a \<longleftrightarrow> list_ex (LiteralIsTrue x) (ba_literals a)"

definition BoolAndConstraintIsFeasible :: "int64 list \<Rightarrow> BoolArgumentProto \<Rightarrow> bool" where
  "BoolAndConstraintIsFeasible x a \<longleftrightarrow> \<not> list_ex (LiteralIsFalse x) (ba_literals a)"

definition num_true_literals :: "int64 list \<Rightarrow> int32 list \<Rightarrow> int32" where
  "num_true_literals x ls = foldl (\<lambda>n l. if LiteralIsTrue x l then n + 1 else n) 0 ls"

definition AtMostOneConstraintIsFeasible :: "int64 list \<Rightarrow> BoolArgumentProto \<Rightarrow> bool" where
  "AtMostOneConstraintIsFeasible x a \<longleftrightarrow> num_true_literals x (ba_literals a) \<le> 1"

definition ExactlyOneConstraintIsFeasible :: "int64 list \<Rightarrow> BoolArgumentProto \<Rightarrow> bool" where
  "ExactlyOneConstraintIsFeasible x a \<longleftrightarrow> num_true_literals x (ba_literals a) = 1"

definition BoolXorConstraintIsFeasible :: "int64 list \<Rightarrow> BoolArgumentProto \<Rightarrow> bool" where
  "BoolXorConstraintIsFeasible x a \<longleftrightarrow>
     foldl (\<lambda>s l. s XOR (if LiteralIsTrue x l then 1 else 0)) (0 :: int32) (ba_literals a) = 1"

section \<open>Arithmetic constraints\<close>

text \<open>The sum reads the values without the sign of the reference (a DCHECK of the source).\<close>

fun linear_loop :: "int64 list \<Rightarrow> int64 \<Rightarrow> (int32 \<times> int64) list \<Rightarrow> int64" where
  "linear_loop x s [] = s"
| "linear_loop x s ((v, c) # ts) = linear_loop x (wrap64 (s + wrap64 (elt x v * c))) ts"

definition LinearConstraintIsFeasible :: "int64 list \<Rightarrow> LinearConstraintProto \<Rightarrow> bool" where
  "LinearConstraintIsFeasible x l \<longleftrightarrow>
     DomainInProtoContains (lc_domain l) (linear_loop x 0 (zip (lc_vars l) (lc_coeffs l)))"

abbreviation target_value :: "int64 list \<Rightarrow> LinearArgumentProto \<Rightarrow> int64" where
  "target_value x a \<equiv> LinearExpressionValue x (expr_or_default (la_target a))"

definition LinMaxConstraintIsFeasible :: "int64 list \<Rightarrow> LinearArgumentProto \<Rightarrow> bool" where
  "LinMaxConstraintIsFeasible x a \<longleftrightarrow>
     target_value x a = foldl (\<lambda>m e. max m (LinearExpressionValue x e)) kint64min (la_exprs a)"

definition IntProdConstraintIsFeasible :: "int64 list \<Rightarrow> LinearArgumentProto \<Rightarrow> bool" where
  "IntProdConstraintIsFeasible x a \<longleftrightarrow>
     target_value x a = foldl (\<lambda>p e. CapProd p (LinearExpressionValue x e)) 1 (la_exprs a)"

text \<open>The two divisions that trap.\<close>

definition division_traps :: "int64 \<Rightarrow> int64 \<Rightarrow> bool" where
  "division_traps n d \<longleftrightarrow> d = 0 \<or> (n = kint64min \<and> d = - 1)"

definition IntDivConstraintIsFeasible :: "int64 list \<Rightarrow> LinearArgumentProto \<Rightarrow> bool option" where
  "IntDivConstraintIsFeasible x a =
     (let n = LinearExpressionValue x (la_exprs a ! 0); d = LinearExpressionValue x (la_exprs a ! 1)
      in if division_traps n d then None else Some (target_value x a = n sdiv d))"

definition IntModConstraintIsFeasible :: "int64 list \<Rightarrow> LinearArgumentProto \<Rightarrow> bool option" where
  "IntModConstraintIsFeasible x a =
     (let n = LinearExpressionValue x (la_exprs a ! 0); d = LinearExpressionValue x (la_exprs a ! 1)
      in if division_traps n d then None else Some (target_value x a = n smod d))"

fun all_diff_loop :: "int64 set \<Rightarrow> int64 list \<Rightarrow> bool" where
  "all_diff_loop values [] \<longleftrightarrow> True"
| "all_diff_loop values (v # vs) \<longleftrightarrow> v \<notin> values \<and> all_diff_loop (insert v values) vs"

definition AllDiffConstraintIsFeasible :: "int64 list \<Rightarrow> AllDifferentConstraintProto \<Rightarrow> bool" where
  "AllDiffConstraintIsFeasible x a \<longleftrightarrow> all_diff_loop {} (map (LinearExpressionValue x) (ad_exprs a))"

section \<open>Scheduling constraints\<close>

definition IntervalStart :: "int64 list \<Rightarrow> IntervalConstraintProto \<Rightarrow> int64" where
  "IntervalStart x i = LinearExpressionValue x (expr_or_default (in_start i))"

definition IntervalSize :: "int64 list \<Rightarrow> IntervalConstraintProto \<Rightarrow> int64" where
  "IntervalSize x i = LinearExpressionValue x (expr_or_default (in_size i))"

definition IntervalEnd :: "int64 list \<Rightarrow> IntervalConstraintProto \<Rightarrow> int64" where
  "IntervalEnd x i = LinearExpressionValue x (expr_or_default (in_end i))"

definition IntervalConstraintIsFeasible :: "int64 list \<Rightarrow> IntervalConstraintProto \<Rightarrow> bool" where
  "IntervalConstraintIsFeasible x i \<longleftrightarrow>
     \<not> IntervalSize x i < 0 \<and> wrap64 (IntervalStart x i + IntervalSize x i) = IntervalEnd x i"

text \<open>The enforced intervals among those a constraint refers to.\<close>

definition enforced_intervals :: "int64 list \<Rightarrow> CpModelProto \<Rightarrow> int32 list \<Rightarrow> IntervalConstraintProto list" where
  "enforced_intervals x model is =
     map ct_interval (filter (ConstraintIsEnforced x) (map (elt (m_constraints model)) is))"

fun no_overlap_loop :: "int64 \<Rightarrow> (int64 \<times> int64) list \<Rightarrow> bool" where
  "no_overlap_loop previous_end [] \<longleftrightarrow> True"
| "no_overlap_loop previous_end ((start, duration) # r) \<longleftrightarrow>
     \<not> start < previous_end \<and> no_overlap_loop (wrap64 (start + duration)) r"

definition NoOverlapConstraintIsFeasible :: "int64 list \<Rightarrow> CpModelProto \<Rightarrow> NoOverlapConstraintProto \<Rightarrow> bool" where
  "NoOverlapConstraintIsFeasible x model a \<longleftrightarrow>
     no_overlap_loop kint64min
       (sort (map (\<lambda>i. (IntervalStart x i, IntervalSize x i)) (enforced_intervals x model (no_intervals a))))"

text \<open>The two events of a task: its demand at the start, the opposite at the end.\<close>

definition cumulative_events ::
    "int64 list \<Rightarrow> CpModelProto \<Rightarrow> int32 \<times> LinearExpressionProto \<Rightarrow> (int64 \<times> int64) list" where
  "cumulative_events x model = (\<lambda>(i, demand_expr).
     let ct = elt (m_constraints model) i
     in if \<not> ConstraintIsEnforced x ct then []
        else let start = IntervalStart x (ct_interval ct);
                 duration = IntervalSize x (ct_interval ct);
                 demand = LinearExpressionValue x demand_expr
             in if duration = 0 \<or> demand = 0 then []
                else [(start, demand), (wrap64 (start + duration), wrap64 (- demand))])"

fun cumulative_loop :: "int64 \<Rightarrow> int64 \<Rightarrow> (int64 \<times> int64) list \<Rightarrow> bool" where
  "cumulative_loop capacity current_load [] \<longleftrightarrow> True"
| "cumulative_loop capacity current_load ((time, delta) # r) \<longleftrightarrow>
     (let load = wrap64 (current_load + delta)
      in \<not> load > capacity \<and> cumulative_loop capacity load r)"

definition CumulativeConstraintIsFeasible ::
    "int64 list \<Rightarrow> CpModelProto \<Rightarrow> CumulativeConstraintProto \<Rightarrow> bool" where
  "CumulativeConstraintIsFeasible x model a \<longleftrightarrow>
     (let capacity = LinearExpressionValue x (expr_or_default (cu_capacity a))
      in \<not> capacity < 0 \<and>
         cumulative_loop capacity 0
           (sort (concat (map (cumulative_events x model) (zip (cu_intervals a) (cu_demands a))))))"

text \<open>An ordered map from times to changes.\<close>

fun btree_add :: "(int64 \<times> int64) list \<Rightarrow> int64 \<Rightarrow> int64 \<Rightarrow> (int64 \<times> int64) list" where
  "btree_add [] t d = [(t, d)]"
| "btree_add ((u, e) # r) t d =
     (if t < u then (t, d) # (u, e) # r
      else if t = u then (u, wrap64 (e + d)) # r
      else (u, e) # btree_add r t d)"

text \<open>The active events; \<open>Value(active_literal) == 1\<close> is the test of the code.\<close>

definition reservoir_events :: "int64 list \<Rightarrow> ReservoirConstraintProto \<Rightarrow> (int64 \<times> int64) list" where
  "reservoir_events x a =
     (let has_active_variables = (length (re_active_literals a) > 0)
      in map (\<lambda>i. (LinearExpressionValue x (re_time_exprs a ! i), LinearExpressionValue x (re_level_changes a ! i)))
           (filter (\<lambda>i. \<not> has_active_variables \<or> Value x (re_active_literals a ! i) = 1)
              [0..<length (re_time_exprs a)]))"

fun reservoir_loop :: "int64 \<Rightarrow> int64 \<Rightarrow> int64 \<Rightarrow> (int64 \<times> int64) list \<Rightarrow> bool" where
  "reservoir_loop lo hi current_level [] \<longleftrightarrow> True"
| "reservoir_loop lo hi current_level ((time, delta) # r) \<longleftrightarrow>
     (let level = wrap64 (current_level + delta)
      in \<not> (level < lo \<or> level > hi) \<and> reservoir_loop lo hi level r)"

definition ReservoirConstraintIsFeasible :: "int64 list \<Rightarrow> ReservoirConstraintProto \<Rightarrow> bool" where
  "ReservoirConstraintIsFeasible x a \<longleftrightarrow>
     reservoir_loop (re_min_level a) (re_max_level a) 0
       (foldl (\<lambda>m (t, d). btree_add m t d) [] (reservoir_events x a))"

section \<open>Rectangles\<close>

definition enforced_rectangles :: "int64 list \<Rightarrow> CpModelProto \<Rightarrow> NoOverlap2DConstraintProto \<Rightarrow> Rectangle list" where
  "enforced_rectangles x model a =
     map (\<lambda>(cx, cy). \<lparr> x_min = IntervalStart x (ct_interval cx), x_max = IntervalEnd x (ct_interval cx),
                       y_min = IntervalStart x (ct_interval cy), y_max = IntervalEnd x (ct_interval cy) \<rparr>)
       (filter (\<lambda>(cx, cy). ConstraintIsEnforced x cx \<and> ConstraintIsEnforced x cy)
          (map (\<lambda>(i, j). (elt (m_constraints model) i, elt (m_constraints model) j))
             (zip (n2_x_intervals a) (n2_y_intervals a))))"

definition has_zero_size :: "Rectangle \<Rightarrow> bool" where
  "has_zero_size r \<longleftrightarrow> x_min r = x_max r \<or> y_min r = y_max r"

text \<open>A CHECK fails (\<open>None\<close>) when the two lists differ in length.\<close>

definition NoOverlap2DConstraintIsFeasible ::
    "int64 list \<Rightarrow> CpModelProto \<Rightarrow> NoOverlap2DConstraintProto \<Rightarrow> bool option" where
  "NoOverlap2DConstraintIsFeasible x model a =
     (if length (n2_x_intervals a) \<noteq> length (n2_y_intervals a) then None
      else let rects = sort_key x_min (enforced_rectangles x model a)
           in Some ((if list_ex has_zero_size rects then FindOneIntersectionIfPresentWithZeroArea rects
                     else FindOneIntersectionIfPresent rects) = None))"

end
