(* ===== verification/CpGraphCheck.thy ===== *)
theory CpGraphCheck
  imports CpChecker
begin

text \<open>
  The checks of \<open>class ConstraintChecker\<close> (\<open>or-tools/ortools/sat/cp_model_checker.cc\<close>) that index
  arrays or walk a graph: element, table, automaton, inverse, circuit and routes.
\<close>

section \<open>Element, table and automaton\<close>

text \<open>The index is stored in an \<open>int\<close>: the conversion from int64 keeps the low 32 bits.\<close>

definition ElementConstraintIsFeasible :: "int64 list \<Rightarrow> ElementConstraintProto \<Rightarrow> bool" where
  "ElementConstraintIsFeasible x e \<longleftrightarrow>
     (if el_vars e \<noteq> []
      then let index = wrap32 (Value x (el_index e))
           in \<not> (index < 0 \<or> index \<ge> int (length (el_vars e))) \<and>
              Value x (elt (el_vars e) index) = Value x (el_target e)
      else if el_exprs e \<noteq> []
      then let index = wrap32 (LinearExpressionValue x (expr_or_default (el_linear_index e)))
           in \<not> (index < 0 \<or> index \<ge> int (length (el_exprs e))) \<and>
              LinearExpressionValue x (elt (el_exprs e) index) =
              LinearExpressionValue x (expr_or_default (el_linear_target e))
      else False)"

definition table_solution :: "int64 list \<Rightarrow> TableConstraintProto \<Rightarrow> int64 list" where
  "table_solution x a =
     (if ta_exprs a = [] then map (Value x) (ta_vars a) else map (LinearExpressionValue x) (ta_exprs a))"

text \<open>The inner \<open>while\<close>: does the row at the front of the values equal the solution?\<close>

fun row_matches :: "int64 list \<Rightarrow> int64 list \<Rightarrow> bool" where
  "row_matches [] vs \<longleftrightarrow> True"
| "row_matches (s # ss) (v # vs) \<longleftrightarrow> s = v \<and> row_matches ss vs"
| "row_matches (s # ss) [] \<longleftrightarrow> False"

function table_rows :: "int64 list \<Rightarrow> int64 list \<Rightarrow> bool" where
  "table_rows sol vs =
     (if sol = [] \<or> vs = [] then False
      else if row_matches sol vs then True else table_rows sol (drop (length sol) vs))"
  by pat_completeness auto
termination
  by (relation "measure (\<lambda>(sol, vs). length vs)") auto

declare table_rows.simps [simp del]

definition TableConstraintIsFeasible :: "int64 list \<Rightarrow> TableConstraintProto \<Rightarrow> bool" where
  "TableConstraintIsFeasible x a \<longleftrightarrow>
     (let solution = table_solution x a
      in if solution = [] then True
         else if table_rows solution (ta_values a) then \<not> ta_negated a else ta_negated a)"

text \<open>The last transition with a given tail and label wins.\<close>

definition transition_map :: "AutomatonConstraintProto \<Rightarrow> int64 \<times> int64 \<Rightarrow> int64 option" where
  "transition_map a =
     foldl (\<lambda>m (tail, head, label). m((tail, label) \<mapsto> head)) (\<lambda>_. None)
       (zip (au_transition_tail a) (zip (au_transition_head a) (au_transition_label a)))"

definition automaton_labels :: "int64 list \<Rightarrow> AutomatonConstraintProto \<Rightarrow> int64 list" where
  "automaton_labels x a =
     (if au_vars a = [] then map (LinearExpressionValue x) (au_exprs a) else map (Value x) (au_vars a))"

fun automaton_walk :: "(int64 \<times> int64 \<Rightarrow> int64 option) \<Rightarrow> int64 \<Rightarrow> int64 list \<Rightarrow> int64 option" where
  "automaton_walk m state [] = Some state"
| "automaton_walk m state (l # ls) =
     (case m (state, l) of None \<Rightarrow> None | Some state' \<Rightarrow> automaton_walk m state' ls)"

definition AutomatonConstraintIsFeasible :: "int64 list \<Rightarrow> AutomatonConstraintProto \<Rightarrow> bool" where
  "AutomatonConstraintIsFeasible x a \<longleftrightarrow>
     (case automaton_walk (transition_map a) (au_starting_state a) (automaton_labels x a) of
        None \<Rightarrow> False
      | Some current_state \<Rightarrow> list_ex (\<lambda>final. current_state = final) (au_final_states a))"

section \<open>Inverse\<close>

fun inverse_loop :: "(int \<Rightarrow> int64) \<Rightarrow> (int \<Rightarrow> int64) \<Rightarrow> int \<Rightarrow> int list \<Rightarrow> bool" where
  "inverse_loop direct back num [] \<longleftrightarrow> True"
| "inverse_loop direct back num (i # is) \<longleftrightarrow>
     (let fi = wrap32 (direct i)
      in \<not> (fi < 0 \<or> num \<le> fi) \<and> i = back fi \<and> inverse_loop direct back num is)"

definition InverseConstraintIsFeasible :: "int64 list \<Rightarrow> InverseConstraintProto \<Rightarrow> bool" where
  "InverseConstraintIsFeasible x a \<longleftrightarrow>
     length (inv_f_direct a) = length (inv_f_inverse a) \<and>
     inverse_loop (\<lambda>i. Value x (elt (inv_f_direct a) i)) (\<lambda>i. Value x (elt (inv_f_inverse a) i))
       (int (length (inv_f_direct a))) [0..int (length (inv_f_direct a)) - 1] \<and>
     length (inv_f_expr_direct a) = length (inv_f_expr_inverse a) \<and>
     inverse_loop (\<lambda>i. LinearExpressionValue x (elt (inv_f_expr_direct a) i))
       (\<lambda>i. LinearExpressionValue x (elt (inv_f_expr_inverse a) i))
       (int (length (inv_f_expr_direct a))) [0..int (length (inv_f_expr_direct a)) - 1]"

section \<open>Circuit\<close>

type_synonym arc = "int32 \<times> int32 \<times> int32"

text \<open>The \<open>nexts\<close> of the arcs whose literal is not false; \<open>None\<close> on a second arc out of a node.\<close>

fun circuit_nexts :: "int64 list \<Rightarrow> (int32 \<Rightarrow> int32 option) \<Rightarrow> arc list \<Rightarrow> (int32 \<Rightarrow> int32 option) option" where
  "circuit_nexts x nexts [] = Some nexts"
| "circuit_nexts x nexts ((tail, head, lit) # r) =
     (if LiteralIsFalse x lit then circuit_nexts x nexts r
      else if nexts tail \<noteq> None then None
      else circuit_nexts x (nexts(tail \<mapsto> head)) r)"

text \<open>The loop over the nodes: the last node met that is not a self-loop, and their number;
  \<open>None\<close> when a node has no next.\<close>

fun circuit_nodes_loop ::
    "(int32 \<Rightarrow> int32 option) \<Rightarrow> int32 \<times> int \<Rightarrow> int32 list \<Rightarrow> (int32 \<times> int) option" where
  "circuit_nodes_loop nexts s [] = Some s"
| "circuit_nodes_loop nexts s (node # ns) =
     (case nexts node of
        None \<Rightarrow> None
      | Some n \<Rightarrow> if n = node then circuit_nodes_loop nexts s ns
                 else circuit_nodes_loop nexts (node, snd s + 1) ns)"

text \<open>Follows the nexts until a visited node is met: that node and the number of nodes visited.\<close>

fun circuit_walk :: "nat \<Rightarrow> (int32 \<Rightarrow> int32 option) \<Rightarrow> int32 set \<Rightarrow> int32 \<Rightarrow> int \<Rightarrow> (int32 \<times> int) option" where
  "circuit_walk fuel nexts visited current num_visited =
     (if current \<in> visited then Some (current, num_visited)
      else case fuel of
          0 \<Rightarrow> None
        | Suc f \<Rightarrow> circuit_walk f nexts (insert current visited)
                    (case nexts current of Some n \<Rightarrow> n | None \<Rightarrow> 0) (num_visited + 1))"

declare circuit_walk.simps [simp del]

text \<open>\<open>nodes\<close> lists the set of nodes in the order of the hash set.\<close>

definition circuit_check :: "int64 list \<Rightarrow> int32 list \<Rightarrow> arc list \<Rightarrow> bool option" where
  "circuit_check x nodes arcs =
     (case circuit_nexts x (\<lambda>_. None) arcs of
        None \<Rightarrow> Some False
      | Some nexts \<Rightarrow>
          (case circuit_nodes_loop nexts (0, 0) nodes of
             None \<Rightarrow> Some False
           | Some (in_cycle, cycle_size) \<Rightarrow>
               if cycle_size = 0 then Some True
               else case circuit_walk (Suc (length nodes)) nexts {} in_cycle 0 of
                   None \<Rightarrow> None
                 | Some (current, num_visited) \<Rightarrow>
                     Some (current = in_cycle \<and> num_visited = cycle_size)))"

text \<open>The arcs that can be read.\<close>

definition circuit_arcs :: "CircuitConstraintProto \<Rightarrow> arc list" where
  "circuit_arcs a = zip (ci_tails a) (zip (ci_heads a) (ci_literals a))"

definition arc_nodes :: "arc list \<Rightarrow> int32 list" where
  "arc_nodes arcs = remdups (concat (map (\<lambda>(t, h, l). [t, h]) arcs))"

text \<open>The loop runs over the tails.  When there are fewer heads or literals and no earlier arc makes the function
  return, it reads past the end of a repeated field: no result.\<close>

definition CircuitConstraintIsFeasible :: "int64 list \<Rightarrow> CircuitConstraintProto \<Rightarrow> bool option" where
  "CircuitConstraintIsFeasible x a =
     (let arcs = circuit_arcs a
      in if length arcs < length (ci_tails a) \<and> circuit_nexts x (\<lambda>_. None) arcs \<noteq> None then None
         else circuit_check x (arc_nodes arcs) arcs)"

section \<open>Routes\<close>

record routes_state =
  rs_num_used_arcs :: int
  rs_num_self_arcs :: int
  rs_tail_to_head :: "int32 \<Rightarrow> int32"
  rs_incoming :: "int32 set"
  rs_outgoing :: "int32 set"
  rs_depot_nexts :: "int32 list"

definition routes_init :: routes_state where
  "routes_init = \<lparr> rs_num_used_arcs = 0, rs_num_self_arcs = 0, rs_tail_to_head = (\<lambda>_. - 1),
     rs_incoming = {}, rs_outgoing = {}, rs_depot_nexts = [] \<rparr>"

text \<open>One arc whose literal is true: \<open>Inl False\<close> when the function returns false, and \<open>Inl True\<close> when a
  negative node makes it read before the start of a vector.\<close>

definition routes_arc :: "routes_state \<Rightarrow> int32 \<Rightarrow> int32 \<Rightarrow> bool + routes_state" where
  "routes_arc s tail head =
     (if tail < 0 then Inl True
      else if tail \<noteq> 0 \<and> tail \<in> rs_outgoing s then Inl False
      else let s1 = (if tail \<noteq> 0 then s\<lparr> rs_outgoing := insert tail (rs_outgoing s) \<rparr> else s)
           in if head < 0 then Inl True
              else if head \<noteq> 0 \<and> head \<in> rs_incoming s1 then Inl False
              else let s2 = (if head \<noteq> 0 then s1\<lparr> rs_incoming := insert head (rs_incoming s1) \<rparr> else s1)
                   in if tail = head
                      then (if tail = 0 then Inl False else Inr (s2\<lparr> rs_num_self_arcs := rs_num_self_arcs s2 + 1 \<rparr>))
                      else let s3 = s2\<lparr> rs_num_used_arcs := rs_num_used_arcs s2 + 1 \<rparr>
                           in Inr (if tail = 0
                                    then s3\<lparr> rs_depot_nexts := rs_depot_nexts s3 @ [head] \<rparr>
                                    else s3\<lparr> rs_tail_to_head := (rs_tail_to_head s3)(tail := head) \<rparr>))"

fun routes_arcs_loop :: "int64 list \<Rightarrow> routes_state \<Rightarrow> arc list \<Rightarrow> bool + routes_state" where
  "routes_arcs_loop x s [] = Inr s"
| "routes_arcs_loop x s ((tail, head, lit) # r) =
     (if LiteralIsTrue x lit
      then case routes_arc s tail head of Inl e \<Rightarrow> Inl e | Inr s' \<Rightarrow> routes_arcs_loop x s' r
      else routes_arcs_loop x s r)"

text \<open>\<open>while (start != 0)\<close>: the new count, \<open>Inl False\<close> when the function returns false, and
  \<open>Inl True\<close> when the fuel runs out.\<close>

fun route_walk :: "nat \<Rightarrow> (int32 \<Rightarrow> int32) \<Rightarrow> int32 \<Rightarrow> int \<Rightarrow> bool + int" where
  "route_walk fuel next start count =
     (if start = 0 then Inr count
      else case fuel of
          0 \<Rightarrow> Inl True
        | Suc f \<Rightarrow> if next start = - 1 then Inl False else route_walk f next (next start) (count + 1))"

declare route_walk.simps [simp del]

fun routes_depot_loop :: "nat \<Rightarrow> (int32 \<Rightarrow> int32) \<Rightarrow> int \<Rightarrow> int32 list \<Rightarrow> bool + int" where
  "routes_depot_loop fuel next count [] = Inr count"
| "routes_depot_loop fuel next count (start # r) =
     (case route_walk fuel next start (count + 1) of
        Inl e \<Rightarrow> Inl e
      | Inr c \<Rightarrow> routes_depot_loop fuel next c r)"

definition routes_num_nodes :: "arc list \<Rightarrow> int" where
  "routes_num_nodes arcs = foldl (\<lambda>n (t, h, l). max (max n (1 + t)) (1 + h)) 0 arcs"

definition routes_check :: "int64 list \<Rightarrow> arc list \<Rightarrow> bool option" where
  "routes_check x arcs =
     (case routes_arcs_loop x routes_init arcs of
        Inl True \<Rightarrow> None
      | Inl False \<Rightarrow> Some False
      | Inr s \<Rightarrow>
          if routes_num_nodes arcs = 0 then Some True
          else case routes_depot_loop (Suc (length arcs)) (rs_tail_to_head s) 0 (rs_depot_nexts s) of
              Inl True \<Rightarrow> None
            | Inl False \<Rightarrow> Some False
            | Inr count \<Rightarrow>
                Some (count = rs_num_used_arcs s \<and>
                      count - int (length (rs_depot_nexts s)) + 1 + rs_num_self_arcs s = routes_num_nodes arcs))"

text \<open>The arcs that can be read.  Fewer heads than tails, or fewer literals unless the function returns before it
  comes to one that is missing: no result.\<close>

definition routes_arcs :: "RoutesConstraintProto \<Rightarrow> arc list" where
  "routes_arcs a = zip (ro_tails a) (zip (ro_heads a) (ro_literals a))"

definition RoutesConstraintIsFeasible :: "int64 list \<Rightarrow> RoutesConstraintProto \<Rightarrow> bool option" where
  "RoutesConstraintIsFeasible x a =
     (let arcs = routes_arcs a
      in if length (ro_heads a) < length (ro_tails a) then None
         else if length (ro_literals a) < length (ro_tails a) \<and> \<not> isl (routes_arcs_loop x routes_init arcs) then None
         else routes_check x arcs)"

end
