(* ===== verification/CircuitWalk.thy ===== *)
theory CircuitWalk
  imports CpGraphCheck
begin

text \<open>
  Correctness of \<open>CircuitConstraintIsFeasible\<close> (\<open>or-tools/ortools/sat/cp_model_checker.cc\<close>): the
  walk along the nexts always stops, and it accepts exactly the assignments whose true arcs give
  every node one successor and link the nodes without a self-loop into a single cycle.
\<close>

section \<open>Iterating a function until a value comes back\<close>

definition orbit :: "('a \<Rightarrow> 'a) \<Rightarrow> 'a \<Rightarrow> nat \<Rightarrow> 'a list" where
  "orbit f c k = map (\<lambda>i. (f ^^ i) c) [0..<k]"

lemma orbit_simps [simp]: "orbit f c 0 = []" "length (orbit f c k) = k" "i < k \<Longrightarrow> orbit f c k ! i = (f ^^ i) c"
  by (simp_all add: orbit_def)

lemma orbit_Suc: "orbit f c (Suc k) = orbit f c k @ [(f ^^ k) c]"
  by (simp add: orbit_def)

lemma orbit_closed:
  assumes "c \<in> A" "\<And>a. a \<in> A \<Longrightarrow> f a \<in> A"
  shows "(f ^^ i) c \<in> A" "set (orbit f c k) \<subseteq> A"
proof -
  show *: "(f ^^ i) c \<in> A" for i using assms by (induction i) auto
  show "set (orbit f c k) \<subseteq> A" using * by (auto simp: orbit_def)
qed

lemma distinct_orbit_le:
  assumes "distinct (orbit f c k)" "j \<le> k"
  shows "distinct (orbit f c j)"
proof -
  have "orbit f c j = take j (orbit f c k)" using assms(2) by (simp add: orbit_def take_map)
  then show ?thesis using assms(1) by (simp add: distinct_take)
qed

text \<open>Inside a finite set some iterate is met twice, and the iterates before the first one are distinct.\<close>

lemma first_return:
  assumes "finite A" "c \<in> A" "\<And>a. a \<in> A \<Longrightarrow> f a \<in> A"
  obtains k where "0 < k" "k \<le> card A" "distinct (orbit f c k)" "(f ^^ k) c \<in> set (orbit f c k)"
proof -
  have long: "\<not> distinct (orbit f c (Suc (card A)))"
  proof
    assume "distinct (orbit f c (Suc (card A)))"
    then have "card (set (orbit f c (Suc (card A)))) = Suc (card A)" by (simp add: distinct_card)
    moreover have "card (set (orbit f c (Suc (card A)))) \<le> card A"
      using orbit_closed(2)[of c A f] assms by (intro card_mono) auto
    ultimately show False by simp
  qed
  define k where "k = (LEAST k. \<not> distinct (orbit f c (Suc k)))"
  have k: "\<not> distinct (orbit f c (Suc k))" unfolding k_def by (rule LeastI) (rule long)
  have le: "k \<le> card A" unfolding k_def by (rule Least_le) (rule long)
  have d: "distinct (orbit f c k)"
  proof (cases k)
    case (Suc m)
    then show ?thesis using not_less_Least[of m "\<lambda>k. \<not> distinct (orbit f c (Suc k))"] by (simp add: k_def)
  qed simp
  have "(f ^^ k) c \<in> set (orbit f c k)" using k d by (simp add: orbit_Suc)
  moreover have "0 < k" using calculation by (cases k) auto
  ultimately show ?thesis using that le d by blast
qed

text \<open>A first return is the only one.\<close>

lemma first_return_unique:
  assumes "distinct (orbit f c k)" "(f ^^ k) c \<in> set (orbit f c k)"
    "distinct (orbit f c l)" "(f ^^ l) c \<in> set (orbit f c l)"
  shows "k = l"
proof -
  have "\<not> k < l" if "distinct (orbit f c l)" "(f ^^ k) c \<in> set (orbit f c k)" for k l
  proof
    assume "k < l"
    then have "distinct (orbit f c (Suc k))" using distinct_orbit_le[OF that(1)] by simp
    then show False using that(2) by (simp add: orbit_Suc)
  qed
  then show ?thesis using assms by (metis linorder_less_linear)
qed

section \<open>The walk\<close>

abbreviation next_of :: "(int32 \<Rightarrow> int32 option) \<Rightarrow> int32 \<Rightarrow> int32" where
  "next_of nexts n \<equiv> (case nexts n of Some m \<Rightarrow> m | None \<Rightarrow> 0)"

lemma circuit_walk_run:
  assumes "distinct (orbit (next_of nexts) c k)" "(next_of nexts ^^ k) c \<in> set (orbit (next_of nexts) c k)"
    "j \<le> k" "k - j \<le> fuel"
  shows "circuit_walk fuel nexts (set (orbit (next_of nexts) c j)) ((next_of nexts ^^ j) c) (int j) =
    Some ((next_of nexts ^^ k) c, int k)"
  using assms(3,4)
proof (induction "k - j" arbitrary: j fuel)
  case 0
  then have "j = k" by simp
  then show ?case using assms(2) by (simp add: circuit_walk.simps)
next
  case (Suc m)
  obtain f where f: "fuel = Suc f" using Suc(2,4) by (cases fuel) auto
  have fresh: "(next_of nexts ^^ j) c \<notin> set (orbit (next_of nexts) c j)"
    using distinct_orbit_le[OF assms(1), of "Suc j"] Suc(2) by (simp add: orbit_Suc)
  have "circuit_walk f nexts (set (orbit (next_of nexts) c (Suc j))) ((next_of nexts ^^ Suc j) c) (int (Suc j)) =
      Some ((next_of nexts ^^ k) c, int k)"
    using Suc by (intro Suc(1)) (auto simp: f)
  then show ?case using fresh by (subst circuit_walk.simps) (simp add: f orbit_Suc add.commute)
qed

section \<open>The nexts and the nodes\<close>

text \<open>The arcs whose literal is true, as pairs of a tail and a head.\<close>

definition used_arcs :: "int64 list \<Rightarrow> arc list \<Rightarrow> (int32 \<times> int32) list" where
  "used_arcs x arcs = map (\<lambda>(t, h, l). (t, h)) (filter (\<lambda>(t, h, l). LiteralIsTrue x l) arcs)"

lemma used_arcs_simps [simp]:
  "used_arcs x [] = []"
  "used_arcs x ((t, h, l) # r) = (if LiteralIsTrue x l then (t, h) # used_arcs x r else used_arcs x r)"
  by (simp_all add: used_arcs_def)

lemma circuit_nexts_None:
  "circuit_nexts x m arcs = None \<longleftrightarrow>
    \<not> (distinct (map fst (used_arcs x arcs)) \<and> (\<forall>n \<in> set (map fst (used_arcs x arcs)). m n = None))"
proof (induction x m arcs rule: circuit_nexts.induct)
  case (2 x nexts tail head lit r)
  show ?case
  proof (cases "LiteralIsFalse x lit \<or> nexts tail \<noteq> None")
    case True
    show ?thesis
    proof (cases "LiteralIsFalse x lit")
      case T: True
      then show ?thesis using 2(1)[OF T] by (simp add: LiteralIsFalse_def)
    next
      case F: False
      then have "nexts tail \<noteq> None" using True by simp
      then show ?thesis using F by (simp add: LiteralIsFalse_def)
    qed
  next
    case False
    then have lit: "\<not> LiteralIsFalse x lit" "nexts tail = None" by simp_all
    have "circuit_nexts x nexts ((tail, head, lit) # r) = circuit_nexts x (nexts(tail \<mapsto> head)) r"
      using lit by simp
    moreover have "(\<forall>n \<in> A. (nexts(tail \<mapsto> head)) n = None) \<longleftrightarrow> tail \<notin> A \<and> (\<forall>n \<in> A. nexts n = None)" for A
      by (metis fun_upd_apply option.distinct(1))
    moreover have "used_arcs x ((tail, head, lit) # r) = (tail, head) # used_arcs x r"
      using lit by (simp add: LiteralIsFalse_def)
    ultimately show ?thesis using 2(2)[OF lit(1)] lit(2) by (simp only: list.map fst_conv distinct.simps list.set ball_simps simp_thms) blast
  qed
qed simp

lemma circuit_nexts_Some:
  "circuit_nexts x m arcs = Some m' \<Longrightarrow> m' n = Some h \<longleftrightarrow> m n = Some h \<or> (n, h) \<in> set (used_arcs x arcs)"
proof (induction x m arcs rule: circuit_nexts.induct)
  case (2 x nexts tail head lit r)
  show ?case
  proof (cases "LiteralIsFalse x lit")
    case True
    then show ?thesis using 2(1)[OF True] 2(3) by (simp add: LiteralIsFalse_def)
  next
    case False
    then have new: "nexts tail = None" using 2(3) by (auto split: if_split_asm)
    have rest: "circuit_nexts x (nexts(tail \<mapsto> head)) r = Some m'" using 2(3) False new by simp
    have "tail \<notin> fst ` set (used_arcs x r)"
      using circuit_nexts_None[of x "nexts(tail \<mapsto> head)" r] rest by (metis fun_upd_same list.set_map option.distinct(1))
    then have "(tail, h) \<notin> set (used_arcs x r)" by force
    then show ?thesis using 2(2)[OF False _ rest] new False by (auto simp: LiteralIsFalse_def)
  qed
qed simp

lemma circuit_nodes_loop_None: "circuit_nodes_loop nexts s ns = None \<longleftrightarrow> (\<exists>n \<in> set ns. nexts n = None)"
  by (induction nexts s ns rule: circuit_nodes_loop.induct) (auto split: option.splits)

lemma circuit_nodes_loop_Some:
  assumes "circuit_nodes_loop nexts (c, k) ns = Some (c', k')"
  defines "moving \<equiv> filter (\<lambda>n. nexts n \<noteq> Some n) ns"
  shows "k' = k + int (length moving)" "c' = (if moving = [] then c else last moving)"
proof -
  have "k' = k + int (length (filter (\<lambda>n. nexts n \<noteq> Some n) ns)) \<and>
      c' = last (c # filter (\<lambda>n. nexts n \<noteq> Some n) ns)"
    using assms(1) by (induction nexts "(c, k)" ns arbitrary: c k rule: circuit_nodes_loop.induct)
      (auto split: option.splits if_split_asm)
  then show "k' = k + int (length moving)" "c' = (if moving = [] then c else last moving)"
    by (simp_all add: moving_def)
qed

section \<open>The circuit\<close>

text \<open>Every node has exactly one used arc out of it, and the nodes whose arc is not a self-loop are
  the nodes of one cycle of used arcs.\<close>

definition single_circuit :: "(int32 \<times> int32) list \<Rightarrow> int32 set \<Rightarrow> bool" where
  "single_circuit used N \<longleftrightarrow>
     (\<forall>n \<in> N. length (filter (\<lambda>(t, h). t = n) used) = 1) \<and>
     (\<exists>cyc. distinct cyc \<and> set cyc = {n \<in> N. (n, n) \<notin> set used} \<and>
        (\<forall>i < length cyc. (cyc ! i, cyc ! (Suc i mod length cyc)) \<in> set used))"

lemma one_arc_each:
  fixes used :: "(int32 \<times> int32) list"
  assumes "fst ` set used \<subseteq> N"
  shows "(\<forall>n \<in> N. length (filter (\<lambda>(t, h). t = n) used) = 1) \<longleftrightarrow>
    distinct (map fst used) \<and> N \<subseteq> fst ` set used"
proof -
  have zero: "length (filter (\<lambda>(t, h). t = n) us) = 0 \<longleftrightarrow> n \<notin> fst ` set us"
    for us :: "(int32 \<times> int32) list" and n by (induction us) auto
  have dist: "distinct (map fst us) \<longleftrightarrow> (\<forall>n \<in> fst ` set us. length (filter (\<lambda>(t, h). t = n) us) = 1)"
    for us :: "(int32 \<times> int32) list"
  proof (induction us)
    case (Cons a us)
    show ?case
    proof (cases "fst a \<in> fst ` set us")
      case True
      then have "length (filter (\<lambda>(t, h). t = fst a) us) \<noteq> 0" using zero by blast
      then have "length (filter (\<lambda>(t, h). t = fst a) (a # us)) \<noteq> 1" by (simp add: split_def)
      then show ?thesis using True by simp
    next
      case False
      then have "filter (\<lambda>(t, h). t = fst a) us = []" using zero by (metis length_0_conv)
      moreover have "(\<lambda>(t, h). t = n) a \<longleftrightarrow> False" if "n \<in> fst ` set us" for n using that False by (auto simp: split_def)
      ultimately show ?thesis using False Cons by (simp add: split_def)
    qed
  qed simp
  have "(\<forall>n \<in> N. length (filter (\<lambda>(t, h). t = n) used) = 1) \<longrightarrow> N \<subseteq> fst ` set used"
  proof (intro impI subsetI)
    fix n assume "\<forall>n \<in> N. length (filter (\<lambda>(t, h). t = n) used) = 1" "n \<in> N"
    then show "n \<in> fst ` set used" using zero[of n used] by fastforce
  qed
  then show ?thesis unfolding dist using assms by blast
qed

lemma cycle_iterates:
  assumes "\<And>i. i < length cyc \<Longrightarrow> f (cyc ! i) = cyc ! (Suc i mod length cyc)" "p < length cyc"
  shows "(f ^^ i) (cyc ! p) = cyc ! ((p + i) mod length cyc)"
proof (induction i)
  case (Suc i)
  have "(p + i) mod length cyc < length cyc" using assms(2) by (intro mod_less_divisor) auto
  then show ?case using Suc assms(1) by (simp add: mod_Suc_eq)
qed (use assms(2) in simp)

text \<open>The condition the code checks on the first return to a visited node.\<close>

lemma cycle_iff_first_return:
  assumes N: "finite N" "c \<in> M" "M = {n \<in> N. f n \<noteq> n}" "\<And>n. n \<in> N \<Longrightarrow> f n \<in> N"
    and k: "distinct (orbit f c k)" "(f ^^ k) c \<in> set (orbit f c k)"
  shows "((f ^^ k) c = c \<and> k = card M) \<longleftrightarrow>
    (\<exists>cyc. distinct cyc \<and> set cyc = M \<and> (\<forall>i < length cyc. f (cyc ! i) = cyc ! (Suc i mod length cyc)))"
proof
  assume returns: "(f ^^ k) c = c \<and> k = card M"
  have k0: "0 < k" using k(2) by (cases k) auto
  have step: "f (orbit f c k ! i) = orbit f c k ! (Suc i mod k)" if "i < k" for i
  proof (cases "Suc i = k")
    case True
    have "f (orbit f c k ! i) = (f ^^ Suc i) c" using that by simp
    then show ?thesis unfolding True using conjunct1[OF returns] k0 by simp
  qed (use that in simp)
  have sub: "set (orbit f c k) \<subseteq> M"
  proof
    fix n assume "n \<in> set (orbit f c k)"
    then obtain i where i: "i < k" "n = (f ^^ i) c" by (auto simp: orbit_def)
    have nN: "n \<in> N" using orbit_closed(1)[of c N f i] N i by auto
    have "f n \<noteq> n"
    proof
      assume fix_n: "f n = n"
      have "Suc i mod k = i"
      proof -
        have "Suc i mod k < k" using k0 by simp
        moreover have "orbit f c k ! (Suc i mod k) = orbit f c k ! i" using step[OF i(1)] fix_n i by simp
        ultimately show ?thesis using nth_eq_iff_index_eq[OF k(1)] i(1) by simp
      qed
      then have "k = 1" using i(1) by (cases "Suc i = k") auto
      then have "f c = c" using conjunct1[OF returns] by simp
      then show False using N(2,3) by simp
    qed
    then show "n \<in> M" using nN N(3) by simp
  qed
  have "finite M" using N(1,3) by simp
  moreover have "card (set (orbit f c k)) = card M" using distinct_card[OF k(1)] returns by simp
  ultimately have "set (orbit f c k) = M" using sub card_subset_eq by metis
  then show "\<exists>cyc. distinct cyc \<and> set cyc = M \<and> (\<forall>i < length cyc. f (cyc ! i) = cyc ! (Suc i mod length cyc))"
    using k(1) step by (intro exI[of _ "orbit f c k"]) auto
next
  assume "\<exists>cyc. distinct cyc \<and> set cyc = M \<and> (\<forall>i < length cyc. f (cyc ! i) = cyc ! (Suc i mod length cyc))"
  then obtain cyc where cyc: "distinct cyc" "set cyc = M"
    "\<And>i. i < length cyc \<Longrightarrow> f (cyc ! i) = cyc ! (Suc i mod length cyc)" by auto
  obtain p where p: "p < length cyc" "cyc ! p = c" using N(2) cyc(2) by (metis in_set_conv_nth)
  have it: "(f ^^ i) c = cyc ! ((p + i) mod length cyc)" for i
    using cycle_iterates[OF cyc(3) p(1), of i] p(2) by simp
  have returns: "(f ^^ length cyc) c = c" using it[of "length cyc"] p by simp
  have inside: "m mod length cyc < length cyc" for m using p(1) by (intro mod_less_divisor) linarith
  have diff: "(p + i) mod length cyc \<noteq> (p + j) mod length cyc" if "i < j" "j < length cyc" for i j
  proof
    assume "(p + i) mod length cyc = (p + j) mod length cyc"
    then have "length cyc dvd (p + j) - (p + i)"
      using mod_eq_dvd_iff_nat[of "p + i" "p + j" "length cyc"] that by simp
    then show False using that nat_dvd_not_less[of "j - i" "length cyc"] by simp
  qed
  have "distinct (orbit f c (length cyc))"
  proof (subst distinct_conv_nth, intro allI impI)
    fix i j assume ij: "i < length (orbit f c (length cyc))" "j < length (orbit f c (length cyc))" "i \<noteq> j"
    have "(p + i) mod length cyc \<noteq> (p + j) mod length cyc"
      using ij diff by (metis linorder_neqE_nat orbit_simps(2))
    then show "orbit f c (length cyc) ! i \<noteq> orbit f c (length cyc) ! j"
      using ij it nth_eq_iff_index_eq[OF cyc(1) inside inside] by simp
  qed
  moreover have "(f ^^ length cyc) c \<in> set (orbit f c (length cyc))"
  proof -
    have "(f ^^ 0) c \<in> set (orbit f c (length cyc))" unfolding orbit_def using p(1) by (intro imageI[THEN subsetD[OF eq_refl[OF set_map[symmetric]]]]) auto
    then show ?thesis using returns by simp
  qed
  ultimately have "k = length cyc" using first_return_unique[OF k] by blast
  then show "(f ^^ k) c = c \<and> k = card M" using returns distinct_card[OF cyc(1)] cyc(2) by simp
qed


section \<open>The check\<close>

lemma circuit_check_spec:
  assumes nodes: "distinct nodes" "\<And>t h l. (t, h, l) \<in> set arcs \<Longrightarrow> t \<in> set nodes \<and> h \<in> set nodes"
  shows "circuit_check x nodes arcs = Some (single_circuit (used_arcs x arcs) (set nodes))"
proof -
  define used where "used = used_arcs x arcs"
  define N where "N = set nodes"
  define M where "M = {n \<in> N. (n, n) \<notin> set used}"
  have ends: "t \<in> N \<and> h \<in> N" if "(t, h) \<in> set used" for t h
    using that nodes(2) by (auto simp: used_def used_arcs_def N_def)
  then have tails: "fst ` set used \<subseteq> N" by auto
  note one = one_arc_each[OF tails]
  show ?thesis
  proof (cases "circuit_nexts x (\<lambda>_. None) arcs")
    case None
    then have "\<not> distinct (map fst used)" by (simp add: circuit_nexts_None used_def)
    then have "\<not> single_circuit used N" unfolding single_circuit_def one by blast
    then show ?thesis using None by (simp add: circuit_check_def used_def N_def)
  next
    case (Some nexts)
    have dist: "distinct (map fst used)"
      using circuit_nexts_None[of x "\<lambda>_. None" arcs] Some by (simp add: used_def)
    have nx: "nexts n = Some h \<longleftrightarrow> (n, h) \<in> set used" for n h
      using circuit_nexts_Some[OF Some, of n h] by (simp add: used_def)
    show ?thesis
    proof (cases "\<exists>n \<in> N. nexts n = None")
      case True
      then obtain n where n: "n \<in> N" "nexts n = None" by blast
      then have "n \<notin> fst ` set used" using nx[of n] by (metis imageE option.distinct(1) prod.collapse)
      then have "\<not> N \<subseteq> fst ` set used" using n(1) by blast
      then have "\<not> single_circuit used N" unfolding single_circuit_def one by blast
      moreover have "circuit_nodes_loop nexts (0, 0) nodes = None"
        using True by (simp add: circuit_nodes_loop_None N_def)
      ultimately show ?thesis using Some by (simp add: circuit_check_def used_def N_def)
    next
      case total: False
      define f where "f = next_of nexts"
      have f: "nexts n = Some (f n)" if "n \<in> N" for n using total that by (auto simp: f_def)
      have fN: "f n \<in> N" if "n \<in> N" for n using ends f nx that by blast
      have step: "(n, h) \<in> set used \<longleftrightarrow> f n = h" if "n \<in> N" for n h
        using f[OF that] by (simp flip: nx)
      have M: "M = {n \<in> N. f n \<noteq> n}" using step by (auto simp: M_def)
      have "N \<subseteq> fst ` set used" using f nx by force
      then have single: "single_circuit used N \<longleftrightarrow> (\<exists>cyc. distinct cyc \<and> set cyc = M \<and>
          (\<forall>i < length cyc. (cyc ! i, cyc ! (Suc i mod length cyc)) \<in> set used))"
        unfolding single_circuit_def one M_def using dist by blast
      also have "\<dots> \<longleftrightarrow> (\<exists>cyc. distinct cyc \<and> set cyc = M \<and>
          (\<forall>i < length cyc. f (cyc ! i) = cyc ! (Suc i mod length cyc)))"
        using step M by (metis (no_types, lifting) mem_Collect_eq nth_mem)
      finally have single: "single_circuit used N \<longleftrightarrow> (\<exists>cyc. distinct cyc \<and> set cyc = M \<and>
          (\<forall>i < length cyc. f (cyc ! i) = cyc ! (Suc i mod length cyc)))" .
      obtain c k where ck: "circuit_nodes_loop nexts (0, 0) nodes = Some (c, k)"
        using total circuit_nodes_loop_None[of nexts "(0, 0)" nodes] by (auto simp: N_def)
      define moving where "moving = filter (\<lambda>n. nexts n \<noteq> Some n) nodes"
      have mv: "set moving = M" "distinct moving" using nodes(1) nx by (auto simp: moving_def M_def N_def)
      then have cM: "card M = length moving" by (metis distinct_card)
      have k: "k = int (card M)" "c = (if moving = [] then 0 else last moving)"
        using circuit_nodes_loop_Some[OF ck] by (simp_all add: moving_def cM)
      show ?thesis
      proof (cases "M = {}")
        case True
        then have "single_circuit used N" unfolding single by (intro exI[of _ "[]"]) simp
        then show ?thesis using Some ck k True by (simp add: circuit_check_def used_def N_def)
      next
        case False
        then have "moving \<noteq> []" using mv by auto
        then have "c \<in> set moving" unfolding k(2) by simp
        then have cN: "c \<in> M" unfolding mv(1) .
        then have cN: "c \<in> M" "c \<in> N" unfolding M_def by simp_all
        have finN: "finite N" "card N \<le> length nodes" by (simp_all add: N_def card_length)
        obtain r where r: "0 < r" "r \<le> card N" "distinct (orbit f c r)" "(f ^^ r) c \<in> set (orbit f c r)"
          using first_return[of N c f] finN(1) cN(2) fN by blast
        have walk: "circuit_walk (Suc (length nodes)) nexts {} c 0 = Some ((f ^^ r) c, int r)"
          using circuit_walk_run[of nexts c r 0 "Suc (length nodes)"] r finN by (simp add: f_def)
        have "finite M" using finN(1) by (simp add: M_def)
        then have "k \<noteq> 0" unfolding k(1) using False by simp
        then have "circuit_check x nodes arcs = Some ((f ^^ r) c = c \<and> int r = k)"
          unfolding circuit_check_def Some option.case ck prod.case walk by (rule if_not_P)
        also have "((f ^^ r) c = c \<and> int r = k) \<longleftrightarrow> (f ^^ r) c = c \<and> r = card M" unfolding k(1) by simp
        also have "\<dots> \<longleftrightarrow> single_circuit used N"
          unfolding single by (rule cycle_iff_first_return[OF finN(1) cN(1) M fN r(3,4)])
        finally show ?thesis unfolding used_def N_def .
      qed
    qed
  qed
qed

lemma arc_nodes_facts:
  "distinct (arc_nodes arcs)" "(t, h, l) \<in> set arcs \<Longrightarrow> t \<in> set (arc_nodes arcs) \<and> h \<in> set (arc_nodes arcs)"
  by (force simp: arc_nodes_def)+

lemma CircuitConstraintIsFeasible_eq:
  "CircuitConstraintIsFeasible x a =
    (if length (circuit_arcs a) < length (ci_tails a) \<and> distinct (map fst (used_arcs x (circuit_arcs a))) then None
     else Some (single_circuit (used_arcs x (circuit_arcs a)) (set (arc_nodes (circuit_arcs a)))))"
proof -
  have "circuit_check x (arc_nodes (circuit_arcs a)) (circuit_arcs a) =
      Some (single_circuit (used_arcs x (circuit_arcs a)) (set (arc_nodes (circuit_arcs a))))"
    by (rule circuit_check_spec) (use arc_nodes_facts in blast)+
  moreover have "circuit_nexts x (\<lambda>_. None) (circuit_arcs a) \<noteq> None \<longleftrightarrow> distinct (map fst (used_arcs x (circuit_arcs a)))"
    by (simp add: circuit_nexts_None)
  ultimately show ?thesis by (simp add: CircuitConstraintIsFeasible_def Let_def)
qed

end
