(* ===== verification/CheckProps.thy ===== *)
theory CheckProps
  imports ZeroArea CircuitWalk
begin

text \<open>
  The properties of the geometric and graph checks of \<open>or-tools/ortools/sat/cp_model_checker.cc\<close> and of
  the sweep line of \<open>diffn_util.cc\<close> that they rest on.
\<close>

text \<open>C20: On rectangles of positive area sorted by their left side, the sweep line answers \<open>None\<close> exactly when
  the rectangles are pairwise disjoint; a pair it returns does intersect, is in order, and no two of the
  rectangles before its second component intersect.\<close>

theorem FindOneIntersectionIfPresent_correct:
  assumes "\<forall>r \<in> set rs. x_min r < x_max r \<and> y_min r < y_max r" "sorted (map x_min rs)"
  shows "(FindOneIntersectionIfPresent rs = None \<longleftrightarrow>
      (\<forall>j < length rs. \<forall>i < j. Rectangle_IsDisjoint (rs ! i) (rs ! j))) \<and>
    (FindOneIntersectionIfPresent rs = Some (i, j) \<longrightarrow>
      i < j \<and> j < length rs \<and> \<not> Rectangle_IsDisjoint (rs ! i) (rs ! j) \<and>
      (\<forall>b < j. \<forall>a < b. Rectangle_IsDisjoint (rs ! a) (rs ! b)))"
proof -
  have "\<forall>r \<in> set rs. proper r" using assms(1) by (simp add: proper_def)
  from FindOneIntersectionIfPresent_spec[OF this assms(2)] show ?thesis by blast
qed

theorem FindOneIntersectionIfPresent_correct_witness:
  "FindOneIntersectionIfPresent [\<lparr> x_min = 0, x_max = 2, y_min = 0, y_max = 2 \<rparr>, \<lparr> x_min = 2, x_max = 4, y_min = 1, y_max = 3 \<rparr>] = None"
  using FindOneIntersectionIfPresent_correct[of
      "[\<lparr> x_min = 0, x_max = 2, y_min = 0, y_max = 2 \<rparr>, \<lparr> x_min = 2, x_max = 4, y_min = 1, y_max = 3 \<rparr>]"]
  by (simp add: Rectangle_IsDisjoint_def less_Suc_eq)

text \<open>C21: For any rectangles of non-negative sizes, points and segments included, the search that first grows
  the degenerate ones answers \<open>None\<close> exactly when the original rectangles are pairwise disjoint, and a pair
  it returns is a pair of distinct original rectangles that intersect.\<close>

theorem FindOneIntersectionIfPresentWithZeroArea_correct:
  assumes "\<forall>r \<in> set rs. x_min r \<le> x_max r \<and> in_int64 (x_min r) \<and> in_int64 (x_max r) \<and>
      y_min r \<le> y_max r \<and> in_int64 (y_min r) \<and> in_int64 (y_max r)"
  shows "(FindOneIntersectionIfPresentWithZeroArea rs = None \<longleftrightarrow>
      (\<forall>j < length rs. \<forall>i < j. Rectangle_IsDisjoint (rs ! i) (rs ! j))) \<and>
    (FindOneIntersectionIfPresentWithZeroArea rs = Some (i, j) \<longrightarrow>
      i < length rs \<and> j < length rs \<and> i \<noteq> j \<and> \<not> Rectangle_IsDisjoint (rs ! i) (rs ! j))"
proof -
  have "rectangles_ok rs" using assms by (simp add: rectangles_ok_def axis_ok_def)
  from FindOneIntersectionIfPresentWithZeroArea_spec[OF this] show ?thesis by blast
qed

theorem FindOneIntersectionIfPresentWithZeroArea_correct_witness:
  "FindOneIntersectionIfPresentWithZeroArea
    [\<lparr> x_min = 0, x_max = 4, y_min = 0, y_max = 4 \<rparr>, \<lparr> x_min = 2, x_max = 2, y_min = 1, y_max = 3 \<rparr>] \<noteq> None"
  using FindOneIntersectionIfPresentWithZeroArea_correct[of
    "[\<lparr> x_min = 0, x_max = 4, y_min = 0, y_max = 4 \<rparr>, \<lparr> x_min = 2, x_max = 2, y_min = 1, y_max = 3 \<rparr>]"]
  by (simp add: Rectangle_IsDisjoint_def in_int64_def less_Suc_eq)

text \<open>C22: The circuit check returns, unless it reads past the end of the heads or the literals, which it does
  exactly when one of them is shorter than the tails and no two true arcs that can be read leave the same node.  It
  accepts exactly when every node has one true arc out of it and the nodes whose arc is not a self-loop form a
  single cycle of true arcs.\<close>

theorem Circuit_correct:
  "CircuitConstraintIsFeasible x a =
    (if length (circuit_arcs a) < length (ci_tails a) \<and> distinct (map fst (used_arcs x (circuit_arcs a))) then None
     else Some (single_circuit (used_arcs x (circuit_arcs a)) (set (arc_nodes (circuit_arcs a)))))"
  by (rule CircuitConstraintIsFeasible_eq)

end
