(* ===== verification/CpSolution.thy ===== *)
theory CpSolution
  imports CpGraphCheck
begin

text \<open>
  The top of the checker in \<open>or-tools/ortools/sat/cp_model_checker.cc\<close>: the dispatch on the kind of
  a constraint and \<open>SolutionIsFeasible\<close>, which decides whether an assignment solves a model.
\<close>

section \<open>Dispatch\<close>

fun ConstraintCaseIsFeasible ::
    "int64 list \<Rightarrow> CpModelProto \<Rightarrow> ConstraintCase \<Rightarrow> bool option" where
  "ConstraintCaseIsFeasible x model (kBoolOr a) = Some (BoolOrConstraintIsFeasible x a)"
| "ConstraintCaseIsFeasible x model (kBoolAnd a) = Some (BoolAndConstraintIsFeasible x a)"
| "ConstraintCaseIsFeasible x model (kAtMostOne a) = Some (AtMostOneConstraintIsFeasible x a)"
| "ConstraintCaseIsFeasible x model (kExactlyOne a) = Some (ExactlyOneConstraintIsFeasible x a)"
| "ConstraintCaseIsFeasible x model (kBoolXor a) = Some (BoolXorConstraintIsFeasible x a)"
| "ConstraintCaseIsFeasible x model (kLinear a) = Some (LinearConstraintIsFeasible x a)"
| "ConstraintCaseIsFeasible x model (kIntProd a) = Some (IntProdConstraintIsFeasible x a)"
| "ConstraintCaseIsFeasible x model (kIntDiv a) = IntDivConstraintIsFeasible x a"
| "ConstraintCaseIsFeasible x model (kIntMod a) = IntModConstraintIsFeasible x a"
| "ConstraintCaseIsFeasible x model (kLinMax a) = Some (LinMaxConstraintIsFeasible x a)"
| "ConstraintCaseIsFeasible x model (kAllDiff a) = Some (AllDiffConstraintIsFeasible x a)"
| "ConstraintCaseIsFeasible x model (kInterval a) = Some (IntervalConstraintIsFeasible x a)"
| "ConstraintCaseIsFeasible x model (kNoOverlap a) = Some (NoOverlapConstraintIsFeasible x model a)"
| "ConstraintCaseIsFeasible x model (kNoOverlap2D a) = NoOverlap2DConstraintIsFeasible x model a"
| "ConstraintCaseIsFeasible x model (kCumulative a) = Some (CumulativeConstraintIsFeasible x model a)"
| "ConstraintCaseIsFeasible x model (kElement a) = Some (ElementConstraintIsFeasible x a)"
| "ConstraintCaseIsFeasible x model (kTable a) = Some (TableConstraintIsFeasible x a)"
| "ConstraintCaseIsFeasible x model (kAutomaton a) = Some (AutomatonConstraintIsFeasible x a)"
| "ConstraintCaseIsFeasible x model (kCircuit a) = CircuitConstraintIsFeasible x a"
| "ConstraintCaseIsFeasible x model (kRoutes a) = RoutesConstraintIsFeasible x a"
| "ConstraintCaseIsFeasible x model (kInverse a) = Some (InverseConstraintIsFeasible x a)"
| "ConstraintCaseIsFeasible x model (kReservoir a) = Some (ReservoirConstraintIsFeasible x a)"
| "ConstraintCaseIsFeasible x model CONSTRAINT_NOT_SET = Some True"
| "ConstraintCaseIsFeasible x model (kDummyConstraint a) = None"

definition ConstraintIsFeasible ::
    "int64 list \<Rightarrow> CpModelProto \<Rightarrow> ConstraintProto \<Rightarrow> bool option" where
  "ConstraintIsFeasible x model ct =
     (if \<not> ConstraintIsEnforced x ct then Some True
      else ConstraintCaseIsFeasible x model (ct_constraint ct))"

section \<open>Solutions\<close>

text \<open>The loop over the constraints stops at the first one that fails.\<close>

fun constraints_loop ::
    "int64 list \<Rightarrow> CpModelProto \<Rightarrow> ConstraintProto list \<Rightarrow> bool option" where
  "constraints_loop x model [] = Some True"
| "constraints_loop x model (ct # cts) =
     (case ConstraintIsFeasible x model ct of
        Some True \<Rightarrow> constraints_loop x model cts
      | r \<Rightarrow> r)"

fun objective_loop :: "int64 list \<Rightarrow> int64 \<Rightarrow> (int32 \<times> int64) list \<Rightarrow> int64" where
  "objective_loop x s [] = s"
| "objective_loop x s ((v, c) # ts) = objective_loop x (wrap64 (s + wrap64 (Value x v * c))) ts"

definition objective_in_domain :: "int64 list \<Rightarrow> CpObjectiveProto \<Rightarrow> bool" where
  "objective_in_domain x obj \<longleftrightarrow>
     ob_domain obj = [] \<or>
     DomainInProtoContains (ob_domain obj) (objective_loop x 0 (zip (ob_vars obj) (ob_coeffs obj)))"

definition SolutionIsFeasible ::
    "CpModelProto \<Rightarrow> int64 list \<Rightarrow> bool option" where
  "SolutionIsFeasible model x =
     (if length x \<noteq> length (m_variables model) then Some False
      else if \<not> list_all2 (\<lambda>v a. DomainInProtoContains (iv_domain v) a) (m_variables model) x then Some False
      else case constraints_loop x model (m_constraints model) of
          Some True \<Rightarrow>
            (case m_objective model of
               None \<Rightarrow> Some True
             | Some obj \<Rightarrow> Some (objective_in_domain x obj))
        | r \<Rightarrow> r)"

end
