(* ===== verification/CpValidate.thy ===== *)
theory CpValidate
  imports CpUtils DomainDiv
begin

text \<open>
  The validation half of \<open>or-tools/ortools/sat/cp_model_checker.cc\<close>: \<open>ValidateCpModel\<close> and the
  function it calls for each kind of constraint.  The code returns an error message, empty when
  the model is valid; \<open>Invalid\<close> carries the fixed part of the message (the code appends a dump
  of the offending proto), and \<open>CheckFailed\<close> is the process stopped by a failed CHECK.
\<close>

section \<open>Results\<close>

datatype validation = Valid | Invalid string | CheckFailed

text \<open>\<open>RETURN_IF_NOT_EMPTY(v); w\<close>\<close>

definition and_then :: "validation \<Rightarrow> validation \<Rightarrow> validation" where
  "and_then v w = (case v of Valid \<Rightarrow> w | _ \<Rightarrow> v)"

fun for_all :: "('a \<Rightarrow> validation) \<Rightarrow> 'a list \<Rightarrow> validation" where
  "for_all f [] = Valid"
| "for_all f (x # xs) = and_then (f x) (for_all f xs)"

definition reject_if :: "bool \<Rightarrow> string \<Rightarrow> validation" where
  "reject_if c msg = (if c then Invalid msg else Valid)"

section \<open>References and variables\<close>

fun DomainInProtoIsValid_from :: "int64 \<Rightarrow> int64 list \<Rightarrow> bool" where
  "DomainInProtoIsValid_from prev (a # b # r) \<longleftrightarrow>
     a \<le> b \<and> \<not> prev \<ge> a \<and> \<not> wrap64 (prev + 1) \<ge> a \<and> DomainInProtoIsValid_from b r"
| "DomainInProtoIsValid_from prev _ \<longleftrightarrow> True"

definition DomainInProtoIsValid :: "int64 list \<Rightarrow> bool" where
  "DomainInProtoIsValid flat \<longleftrightarrow>
     (case flat of
        [] \<Rightarrow> True
      | a # b # r \<Rightarrow> even (length flat) \<and> a \<le> b \<and> DomainInProtoIsValid_from b r
      | _ \<Rightarrow> False)"

definition VariableReferenceIsValid :: "CpModelProto \<Rightarrow> int32 \<Rightarrow> bool" where
  "VariableReferenceIsValid model reference \<longleftrightarrow>
     \<not> reference \<ge> variables_size model \<and> reference \<ge> - variables_size model"

definition VariableIndexIsValid :: "CpModelProto \<Rightarrow> int32 \<Rightarrow> bool" where
  "VariableIndexIsValid model var \<longleftrightarrow> var \<ge> 0 \<and> var < variables_size model"

text \<open>\<open>domain(0)\<close> and \<open>domain(domain_size() - 1)\<close> of a variable.\<close>

definition var_lb :: "CpModelProto \<Rightarrow> int32 \<Rightarrow> int64" where
  "var_lb model v = hd (iv_domain (elt (m_variables model) v))"

definition var_ub :: "CpModelProto \<Rightarrow> int32 \<Rightarrow> int64" where
  "var_ub model v = last (iv_domain (elt (m_variables model) v))"

definition LiteralReferenceIsValid :: "CpModelProto \<Rightarrow> int32 \<Rightarrow> bool" where
  "LiteralReferenceIsValid model reference \<longleftrightarrow>
     VariableReferenceIsValid model reference \<and>
     var_lb model (PositiveRef reference) \<ge> 0 \<and> var_ub model (PositiveRef reference) \<le> 1"

definition ValidateIntegerVariable :: "CpModelProto \<Rightarrow> int32 \<Rightarrow> validation" where
  "ValidateIntegerVariable model v =
     (let d = iv_domain (elt (m_variables model) v)
      in if d = [] then Invalid ''has no domain()''
         else if odd (length d) then Invalid ''has an odd domain() size''
         else if \<not> DomainInProtoIsValid d then Invalid ''has and invalid domain() format''
         else let lb = hd d; ub = last d
              in if lb < - kint64max sdiv 2 \<or> ub > kint64max sdiv 2
                 then Invalid ''domain do not fall in [-kint64max / 2, kint64max / 2]''
                 else if lb < 0 \<and> lb + kint64max < ub
                 then Invalid ''has a domain that is too large''
                 else Valid)"

definition ValidateVariablesUsedInConstraint :: "CpModelProto \<Rightarrow> ConstraintProto \<Rightarrow> validation" where
  "ValidateVariablesUsedInConstraint model ct =
     (let references = GetReferencesUsedByConstraint ct
      in and_then (for_all (\<lambda>v. reject_if (\<not> VariableReferenceIsValid model v) ''Out of bound integer variable'')
                     (ir_variables references))
        (and_then (for_all (\<lambda>l. reject_if (\<not> LiteralReferenceIsValid model l) ''Invalid enforcement literal'')
                     (ct_enforcement_literal ct))
                  (for_all (\<lambda>l. reject_if (\<not> LiteralReferenceIsValid model l) ''Invalid literal'')
                     (ir_literals references))))"

definition is_interval :: "ConstraintProto \<Rightarrow> bool" where
  "is_interval ct \<longleftrightarrow> (case ct_constraint ct of kInterval _ \<Rightarrow> True | _ \<Rightarrow> False)"

definition ValidateIntervalsUsedInConstraint :: "bool \<Rightarrow> CpModelProto \<Rightarrow> int \<Rightarrow> validation" where
  "ValidateIntervalsUsedInConstraint after_presolve model c =
     for_all (\<lambda>i.
       if i < 0 \<or> i \<ge> constraints_size model then Invalid ''Out of bound interval''
       else if after_presolve \<and> i \<ge> c then Invalid ''must appear before in the list of constraints''
       else reject_if (\<not> is_interval (elt (m_constraints model) i)) ''does not refer to an interval constraint'')
       (UsedIntervals (elt (m_constraints model) c))"

section \<open>Bounds of references and expressions\<close>

definition MinOfRef :: "CpModelProto \<Rightarrow> int32 \<Rightarrow> int64" where
  "MinOfRef model ref =
     (if RefIsPositive ref then var_lb model ref else wrap64 (- var_ub model (PositiveRef ref)))"

definition MaxOfRef :: "CpModelProto \<Rightarrow> int32 \<Rightarrow> int64" where
  "MaxOfRef model ref =
     (if RefIsPositive ref then var_ub model ref else wrap64 (- var_lb model (PositiveRef ref)))"

definition min_term :: "CpModelProto \<Rightarrow> int32 \<times> int64 \<Rightarrow> int64" where
  "min_term model = (\<lambda>(ref, coeff).
     if coeff \<ge> 0 then CapProd (MinOfRef model ref) coeff else CapProd (MaxOfRef model ref) coeff)"

definition max_term :: "CpModelProto \<Rightarrow> int32 \<times> int64 \<Rightarrow> int64" where
  "max_term model = (\<lambda>(ref, coeff).
     if coeff \<ge> 0 then CapProd (MaxOfRef model ref) coeff else CapProd (MinOfRef model ref) coeff)"

definition MinOfExpression :: "CpModelProto \<Rightarrow> LinearExpressionProto \<Rightarrow> int64" where
  "MinOfExpression model e =
     foldl (\<lambda>s t. CapAdd s (min_term model t)) (le_offset e) (zip (le_vars e) (le_coeffs e))"

definition MaxOfExpression :: "CpModelProto \<Rightarrow> LinearExpressionProto \<Rightarrow> int64" where
  "MaxOfExpression model e =
     foldl (\<lambda>s t. CapAdd s (max_term model t)) (le_offset e) (zip (le_vars e) (le_coeffs e))"

definition ExpressionIsFixed :: "CpModelProto \<Rightarrow> LinearExpressionProto \<Rightarrow> bool" where
  "ExpressionIsFixed model e \<longleftrightarrow>
     list_all (\<lambda>(v, c). c = 0 \<or>
       (let d = iv_domain (elt (m_variables model) v) in length d = 2 \<and> hd d = last d))
       (zip (le_vars e) (le_coeffs e))"

definition ExpressionFixedValue :: "CpModelProto \<Rightarrow> LinearExpressionProto \<Rightarrow> int64" where
  "ExpressionFixedValue model e = MinOfExpression model e"

definition IntervalSizeMax :: "CpModelProto \<Rightarrow> int \<Rightarrow> int64" where
  "IntervalSizeMax model i =
     MaxOfExpression model (expr_or_default (in_size (ct_interval (elt (m_constraints model) i))))"

definition DomainOfRef :: "CpModelProto \<Rightarrow> int32 \<Rightarrow> domain" where
  "DomainOfRef model ref =
     (let d = ReadDomainFromProto (iv_domain (elt (m_variables model) (PositiveRef ref)))
      in if RefIsPositive ref then d else Domain_Negation d)"

section \<open>Overflow detection\<close>

text \<open>\<open>LinearOverflowChecker::AddTerm\<close>: the new sums, or \<open>None\<close> when it returns false.\<close>

definition LinearOverflowChecker_AddTerm ::
    "int64 \<times> int64 \<Rightarrow> int64 \<Rightarrow> int64 \<Rightarrow> int64 \<Rightarrow> (int64 \<times> int64) option" where
  "LinearOverflowChecker_AddTerm s coeff min_domain max_domain =
     (if coeff = kint64min then None
      else let prod1 = CapProd min_domain coeff;
               prod2 = CapProd max_domain coeff
           in if AtMinOrMaxInt64 prod1 \<or> AtMinOrMaxInt64 prod2 then None
              else let sum_min = CapAdd (fst s) (min 0 (min prod1 prod2));
                       sum_max = CapAdd (snd s) (max 0 (max prod1 prod2))
                   in if sum_min \<ge> - kint64max sdiv 2 \<and> sum_max \<le> kint64max sdiv 2
                      then Some (sum_min, sum_max) else None)"

datatype overflow = PossibleOverflow | Bounds int64 int64 | RefCheckFailed

fun overflow_loop :: "CpModelProto \<Rightarrow> int64 \<times> int64 \<Rightarrow> (int32 \<times> int64) list \<Rightarrow> overflow" where
  "overflow_loop model s [] = Bounds (fst s) (snd s)"
| "overflow_loop model s ((ref, coeff) # r) =
     (if \<not> RefIsPositive ref then RefCheckFailed
      else case LinearOverflowChecker_AddTerm s coeff (var_lb model ref) (var_ub model ref) of
          None \<Rightarrow> PossibleOverflow
        | Some s' \<Rightarrow> overflow_loop model s' r)"

definition PossibleIntegerOverflow ::
    "CpModelProto \<Rightarrow> int32 list \<Rightarrow> int64 list \<Rightarrow> int64 \<Rightarrow> overflow" where
  "PossibleIntegerOverflow model vars coeffs offset =
     (let off = std_abs offset
      in if off > kint64max sdiv 2 then PossibleOverflow
         else overflow_loop model (wrap64 (- std_abs off), std_abs off) (zip vars coeffs))"

text \<open>\<open>if (PossibleIntegerOverflow(...)) return msg;\<close>\<close>

definition reject_overflow :: "overflow \<Rightarrow> string \<Rightarrow> validation" where
  "reject_overflow r msg =
     (case r of PossibleOverflow \<Rightarrow> Invalid msg | RefCheckFailed \<Rightarrow> CheckFailed | Bounds _ _ \<Rightarrow> Valid)"

definition ValidateLinearExpression :: "CpModelProto \<Rightarrow> LinearExpressionProto \<Rightarrow> validation" where
  "ValidateLinearExpression model expr =
     (if length (le_coeffs expr) \<noteq> length (le_vars expr)
      then Invalid ''coeffs_size() != vars_size() in linear expression''
      else and_then (for_all (\<lambda>v. reject_if (\<not> RefIsPositive v) ''Invalid negated variable in linear expression'')
                       (le_vars expr))
                    (reject_overflow (PossibleIntegerOverflow model (le_vars expr) (le_coeffs expr) (le_offset expr))
                       ''Possible overflow in linear expression''))"

definition ValidateLinearConstraint :: "CpModelProto \<Rightarrow> LinearConstraintProto \<Rightarrow> validation" where
  "ValidateLinearConstraint model l =
     (if \<not> DomainInProtoIsValid (lc_domain l) then Invalid ''Invalid domain in constraint''
      else if length (lc_coeffs l) \<noteq> length (lc_vars l)
      then Invalid ''coeffs_size() != vars_size() in constraint''
      else and_then (for_all (\<lambda>v. reject_if (\<not> RefIsPositive v) ''Invalid negated variable in linear constraint'')
                       (lc_vars l))
                    (reject_overflow (PossibleIntegerOverflow model (lc_vars l) (lc_coeffs l) 0)
                       ''Possible integer overflow in constraint''))"

section \<open>Arithmetic constraints\<close>

definition ValidateIntModConstraint :: "CpModelProto \<Rightarrow> LinearArgumentProto \<Rightarrow> validation" where
  "ValidateIntModConstraint model a =
     (if length (la_exprs a) \<noteq> 2 then Invalid ''An int_mod constraint should have exactly 2 terms''
      else if la_target a = None then Invalid ''An int_mod constraint should have a target''
      else and_then (ValidateLinearExpression model (la_exprs a ! 0))
          (and_then (ValidateLinearExpression model (la_exprs a ! 1))
          (and_then (ValidateLinearExpression model (expr_or_default (la_target a)))
             (reject_if (MinOfExpression model (la_exprs a ! 1) \<le> 0)
                ''An int_mod must have a strictly positive modulo argument''))))"

definition product_domain_step :: "CpModelProto \<Rightarrow> domain \<Rightarrow> LinearExpressionProto \<Rightarrow> domain" where
  "product_domain_step model d expr =
     (let min_expr = MinOfExpression model expr;
          max_expr = MaxOfExpression model expr
      in if min_expr = 0 \<and> max_expr = 0 then d
         else Domain_ContinuousMultiplicationByDomain d (Domain_range min_expr max_expr))"

definition ValidateIntProdConstraint :: "CpModelProto \<Rightarrow> LinearArgumentProto \<Rightarrow> validation" where
  "ValidateIntProdConstraint model a =
     (if la_target a = None then Invalid ''An int_prod constraint should have a target''
      else and_then (for_all (ValidateLinearExpression model) (la_exprs a))
          (and_then (ValidateLinearExpression model (expr_or_default (la_target a)))
             (let product_domain = foldl (product_domain_step model) (Domain_value 1) (la_exprs a)
              in if Domain_Max product_domain \<le> - kint64max \<or> Domain_Min product_domain \<ge> kint64max
                 then Invalid ''integer overflow in constraint''
                 else reject_if (length (la_exprs a) > 2 \<and>
                        (Domain_Max product_domain \<ge> kint64max \<or> Domain_Min product_domain \<le> - kint64max))
                        ''Potential integer overflow in constraint'')))"

definition ValidateIntDivConstraint :: "CpModelProto \<Rightarrow> LinearArgumentProto \<Rightarrow> validation" where
  "ValidateIntDivConstraint model a =
     (if length (la_exprs a) \<noteq> 2 then Invalid ''An int_div constraint should have exactly 2 terms''
      else if la_target a = None then Invalid ''An int_div constraint should have a target''
      else and_then (ValidateLinearExpression model (la_exprs a ! 0))
          (and_then (ValidateLinearExpression model (la_exprs a ! 1))
          (and_then (ValidateLinearExpression model (expr_or_default (la_target a)))
             (let denom = la_exprs a ! 1; offset = le_offset denom
              in if ExpressionIsFixed model denom
                 then reject_if (ExpressionFixedValue model denom = 0) ''Division by 0''
                 else let coeff = hd (le_coeffs denom)
                      in if coeff = 0 then CheckFailed
                         else let inverse_of_zero = wrap64 (wrap64 (- offset) sdiv coeff)
                              in reject_if (wrap64 (wrap64 (inverse_of_zero * coeff) + offset) = 0 \<and>
                                     Domain_Contains (DomainOfRef model (hd (le_vars denom))) inverse_of_zero)
                                   ''The domain of the divisor cannot contain 0''))))"

definition AppendToOverflowValidator ::
    "LinearExpressionProto \<Rightarrow> LinearExpressionProto \<Rightarrow> int64 \<Rightarrow> LinearExpressionProto" where
  "AppendToOverflowValidator input output k =
     \<lparr> le_vars = le_vars output @ le_vars input,
       le_coeffs = le_coeffs output @ map (\<lambda>c. wrap64 (c * k)) (le_coeffs input),
       le_offset = CapAdd (std_abs (le_offset output)) (std_abs (le_offset input)) \<rparr>"

section \<open>Element, inverse, table, automaton\<close>

definition element_vars_overflow :: "CpModelProto \<Rightarrow> ElementConstraintProto \<Rightarrow> int32 \<Rightarrow> validation" where
  "element_vars_overflow model e ref =
     (if \<not> VariableIndexIsValid model ref then Invalid ''Element vars must be valid variables''
      else reject_overflow (PossibleIntegerOverflow model [el_target e, ref] [1, - 1] 0)
             ''Domain of the variables involved in element constraint may cause overflow'')"

definition element_expr_overflow ::
    "CpModelProto \<Rightarrow> ElementConstraintProto \<Rightarrow> LinearExpressionProto \<Rightarrow> validation" where
  "element_expr_overflow model e expr =
     and_then (ValidateLinearExpression model expr)
       (let od = AppendToOverflowValidator expr (expr_or_default (el_linear_target e)) (- 1);
            offset = CapSub (le_offset od) (le_offset expr)
        in reject_overflow (PossibleIntegerOverflow model (le_vars od) (le_coeffs od) offset)
             ''Domain of the variables involved in element constraint may cause overflow'')"

definition ValidateElementConstraint :: "CpModelProto \<Rightarrow> ElementConstraintProto \<Rightarrow> validation" where
  "ValidateElementConstraint model e =
     (let in_linear_format = (el_linear_index e \<noteq> None \<or> el_linear_target e \<noteq> None \<or> el_exprs e \<noteq> []);
          in_legacy_format = (el_vars e \<noteq> [] \<or> el_index e \<noteq> 0 \<or> el_target e \<noteq> 0)
      in if in_linear_format \<and> in_legacy_format
         then Invalid ''Inconsistent element with both legacy and new format defined''
         else if el_vars e = [] \<and> el_exprs e = []
         then Invalid ''Empty element constraint is interpreted as vars[]''
         else if in_legacy_format \<and>
           (\<not> VariableIndexIsValid model (el_index e) \<or> \<not> VariableIndexIsValid model (el_target e))
         then Invalid ''Element constraint index and target must valid variables''
         else and_then (for_all (element_vars_overflow model e) (el_vars e))
             (if in_linear_format
              then and_then (ValidateLinearExpression model (expr_or_default (el_linear_index e)))
                  (and_then (ValidateLinearExpression model (expr_or_default (el_linear_target e)))
                     (for_all (element_expr_overflow model e) (el_exprs e)))
              else Valid))"

definition ValidateInverseConstraint :: "CpModelProto \<Rightarrow> InverseConstraintProto \<Rightarrow> validation" where
  "ValidateInverseConstraint model a =
     (if length (inv_f_direct a) \<noteq> length (inv_f_inverse a) \<or>
         length (inv_f_expr_direct a) \<noteq> length (inv_f_expr_inverse a)
      then Invalid ''Non-matching fields size in inverse''
      else if inv_f_inverse a \<noteq> [] \<and> inv_f_expr_inverse a \<noteq> []
      then Invalid ''Inconsistent inverse with both legacy and new format defined''
      else and_then
          (if inv_f_direct a \<noteq> []
           then for_all (\<lambda>v. reject_if (\<not> VariableIndexIsValid model v)
                               ''Invalid variable index in inverse constraint'')
                  (inv_f_direct a @ inv_f_inverse a)
           else Valid)
          (if inv_f_expr_direct a \<noteq> []
           then for_all (ValidateLinearExpression model) (inv_f_expr_direct a @ inv_f_expr_inverse a)
           else Valid))"

definition ValidateTableConstraint :: "CpModelProto \<Rightarrow> TableConstraintProto \<Rightarrow> validation" where
  "ValidateTableConstraint model a =
     (if ta_vars a \<noteq> [] \<and> ta_exprs a \<noteq> []
      then Invalid ''Inconsistent table with both legacy and new format defined''
      else if ta_vars a = [] \<and> ta_exprs a = [] \<and> ta_values a \<noteq> []
      then Invalid ''Inconsistent table empty expressions and non-empty tuples''
      else if ta_vars a = [] \<and> ta_exprs a = [] \<and> ta_values a = [] then Valid
      else let arity = (if ta_vars a = [] then length (ta_exprs a) else length (ta_vars a))
           in if length (ta_values a) mod arity \<noteq> 0
              then Invalid ''The flat encoding of a table constraint tuples must be a multiple of the number of expressions''
              else and_then (for_all (\<lambda>v. reject_if (\<not> VariableIndexIsValid model v)
                                 ''Invalid variable index in table constraint'') (ta_vars a))
                            (for_all (ValidateLinearExpression model) (ta_exprs a)))"

text \<open>The transitions in order, with the map from (tail, label) to head built so far.\<close>

fun automaton_transitions ::
    "(int64 \<times> int64 \<Rightarrow> int64 option) \<Rightarrow> (int64 \<times> int64 \<times> int64) list \<Rightarrow> validation" where
  "automaton_transitions m [] = Valid"
| "automaton_transitions m ((tail, head, label) # r) =
     (if label \<le> kint64min + 1 \<or> label = kint64max
      then Invalid ''labels in the automaton constraint are too big''
      else case m (tail, label) of
          None \<Rightarrow> automaton_transitions (m((tail, label) \<mapsto> head)) r
        | Some h \<Rightarrow> if h = head then Invalid ''automaton: duplicate transition''
                   else Invalid ''automaton: incompatible transitions'')"

definition automaton_arcs :: "AutomatonConstraintProto \<Rightarrow> (int64 \<times> int64 \<times> int64) list" where
  "automaton_arcs a = zip (au_transition_tail a) (zip (au_transition_head a) (au_transition_label a))"

definition ValidateAutomatonConstraint :: "CpModelProto \<Rightarrow> AutomatonConstraintProto \<Rightarrow> validation" where
  "ValidateAutomatonConstraint model a =
     (if au_vars a \<noteq> [] \<and> au_exprs a \<noteq> []
      then Invalid ''Inconsistent automaton with both legacy and new format defined''
      else if length (au_transition_tail a) \<noteq> length (au_transition_head a) \<or>
              length (au_transition_tail a) \<noteq> length (au_transition_label a)
      then Invalid ''The transitions repeated fields must have the same size''
      else and_then (for_all (\<lambda>v. reject_if (\<not> VariableIndexIsValid model v)
                        ''Invalid variable index in automaton constraint'') (au_vars a))
          (and_then (for_all (ValidateLinearExpression model) (au_exprs a))
             (automaton_transitions (\<lambda>_. None) (automaton_arcs a))))"

section \<open>Graphs\<close>

fun graph_self_loops :: "bool \<Rightarrow> int32 set \<Rightarrow> (int32 \<times> int32) list \<Rightarrow> validation" where
  "graph_self_loops is_route self_loops [] = Valid"
| "graph_self_loops is_route self_loops ((tail, head) # r) =
     (if head \<noteq> tail then graph_self_loops is_route self_loops r
      else if head \<in> self_loops
      then Invalid ''Circuit/Route constraint contains multiple self-loop involving node''
      else if is_route \<and> tail = 0
      then Invalid ''A route constraint cannot have a self-loop on the depot (node 0)''
      else graph_self_loops is_route (insert head self_loops) r)"

definition ValidateGraphInput :: "bool \<Rightarrow> int32 list \<Rightarrow> int32 list \<Rightarrow> int32 list \<Rightarrow> validation" where
  "ValidateGraphInput is_route tails heads literals =
     (if length heads \<noteq> length tails \<or> length literals \<noteq> length tails
      then Invalid ''Wrong field sizes in graph''
      else graph_self_loops is_route {} (zip tails heads))"

definition ValidateRoutesConstraint :: "CpModelProto \<Rightarrow> RoutesConstraintProto \<Rightarrow> validation" where
  "ValidateRoutesConstraint model a =
     and_then (for_all (\<lambda>n. reject_if (n < 0) ''All node in a route constraint must be in [0, num_nodes)'')
                 (ro_tails a @ ro_heads a))
       (let ns = ro_tails a @ ro_heads a;
            max_node = foldl max 0 ns;
            num = length (remdups ns)
        in if num \<noteq> 0 \<and> max_node \<noteq> int num - 1
           then Invalid ''All nodes in a route constraint must have incident arcs''
           else and_then
               (for_all (\<lambda>dimension.
                  if length dimension \<noteq> num
                  then Invalid ''its elements must be of size num_nodes''
                  else for_all (\<lambda>expr.
                      and_then (for_all (\<lambda>v. reject_if (\<not> VariableReferenceIsValid model v)
                                   ''Out of bound integer variable in route constraint'') (le_vars expr))
                               (ValidateLinearExpression model expr)) dimension)
                  (ro_dimensions a))
               (ValidateGraphInput True (ro_tails a) (ro_heads a) (ro_literals a)))"

section \<open>Scheduling constraints\<close>

text \<open>The argument \<open>enforced\<close> is \<open>!ct.enforcement_literal().empty()\<close>.\<close>

definition ValidateIntervalConstraint :: "CpModelProto \<Rightarrow> bool \<Rightarrow> IntervalConstraintProto \<Rightarrow> validation" where
  "ValidateIntervalConstraint model enforced arg =
     (let start = expr_or_default (in_start arg); size = expr_or_default (in_size arg);
          stop = expr_or_default (in_end arg)
      in if in_start arg = None then Invalid ''Interval must have a start expression''
         else if in_size arg = None then Invalid ''Interval must have a size expression''
         else if in_end arg = None then Invalid ''Interval must have a end expression''
         else if length (le_vars start) > 1
         then Invalid ''Interval with a start expression containing more than one variable''
         else and_then (ValidateLinearExpression model start)
           (let v1 = AppendToOverflowValidator start LinearExpressionProto_default 1
            in if length (le_vars size) > 1
               then Invalid ''Interval with a size expression containing more than one variable''
               else and_then (ValidateLinearExpression model size)
                 (if \<not> enforced \<and> MinOfExpression model size < 0
                  then Invalid ''The size of a performed interval must be >= 0''
                  else let v2 = AppendToOverflowValidator size v1 1
                       in if length (le_vars stop) > 1
                          then Invalid ''Interval with a end expression containing more than one variable''
                          else and_then (ValidateLinearExpression model stop)
                            (let v3 = AppendToOverflowValidator stop v2 (- 1)
                             in reject_overflow (PossibleIntegerOverflow model (le_vars v3) (le_coeffs v3) (le_offset v3))
                                  ''Possible overflow in interval''))))"

text \<open>The sum of the maxima, with the early return when it saturates.\<close>

fun sum_saturates :: "int64 \<Rightarrow> int64 list \<Rightarrow> bool" where
  "sum_saturates s [] = False"
| "sum_saturates s (x # xs) = (let s' = CapAdd s x in s' = kint64max \<or> sum_saturates s' xs)"

definition ValidateCumulativeConstraint :: "CpModelProto \<Rightarrow> CumulativeConstraintProto \<Rightarrow> validation" where
  "ValidateCumulativeConstraint model a =
     (if length (cu_intervals a) \<noteq> length (cu_demands a)
      then Invalid ''intervals_size() != demands_size() in constraint''
      else and_then (ValidateLinearExpression model (expr_or_default (cu_capacity a)))
          (and_then (for_all (ValidateLinearExpression model) (cu_demands a))
          (and_then (for_all (\<lambda>d.
              if MinOfExpression model d < 0 then Invalid ''Demand must be positive in constraint''
              else reject_if (length (le_vars d) > 1) ''Demand must be affine or constant in constraint'')
              (cu_demands a))
            (if length (opt_vars (cu_capacity a)) > 1
             then Invalid ''capacity must be affine or constant in constraint''
             else reject_if (sum_saturates 0 (map (MaxOfExpression model) (cu_demands a)))
                    ''The sum of max demands do not fit on an int64_t in constraint''))))"

definition ValidateNoOverlap2DConstraint :: "CpModelProto \<Rightarrow> NoOverlap2DConstraintProto \<Rightarrow> validation" where
  "ValidateNoOverlap2DConstraint model a =
     (if length (n2_x_intervals a) \<noteq> length (n2_y_intervals a)
      then Invalid ''The two lists of intervals must have the same size''
      else reject_if (sum_saturates 0
               (map (\<lambda>(x, y). CapProd (IntervalSizeMax model x) (IntervalSizeMax model y))
                  (zip (n2_x_intervals a) (n2_y_intervals a))))
             ''Integer overflow when summing all areas in constraint'')"

definition ValidateReservoirConstraint :: "CpModelProto \<Rightarrow> ReservoirConstraintProto \<Rightarrow> validation" where
  "ValidateReservoirConstraint model a =
     (if length (re_time_exprs a) \<noteq> length (re_level_changes a)
      then Invalid ''time_exprs and level_changes fields must be of the same size''
      else and_then (for_all (\<lambda>expr. and_then (ValidateLinearExpression model expr)
              (reject_if (MinOfExpression model expr \<le> - kint64max sdiv 4 \<or>
                          MaxOfExpression model expr \<ge> kint64max sdiv 4)
                 ''Potential integer overflow on time_expr of a reservoir'')) (re_time_exprs a))
          (and_then (for_all (ValidateLinearExpression model) (re_level_changes a))
            (if re_min_level a > 0 then Invalid ''The min level of a reservoir must be <= 0''
             else if re_max_level a < 0 then Invalid ''The max level of a reservoir must be >= 0''
             else if sum_saturates 0
                 (map (\<lambda>d. max (CapAbs (MinOfExpression model d)) (CapAbs (MaxOfExpression model d))) (re_level_changes a))
             then Invalid ''Possible integer overflow in constraint''
             else if length (re_active_literals a) > 0 \<and> length (re_active_literals a) \<noteq> length (re_time_exprs a)
             then Invalid ''Wrong array length of active_literals variables''
             else reject_if (length (re_level_changes a) > 0 \<and> length (re_level_changes a) \<noteq> length (re_time_exprs a))
                    ''Wrong array length of level_changes variables'')))"

section \<open>Objectives, strategies and hints\<close>

definition scaled_is_finite :: "CpObjectiveProto \<Rightarrow> int64 \<Rightarrow> bool" where
  "scaled_is_finite obj bound \<longleftrightarrow>
     isfinite (d_add (d_abs (d_mul (ob_scaling_factor obj) (d_of_int bound))) (d_abs (ob_offset obj)))"

definition ValidateObjective :: "CpModelProto \<Rightarrow> CpObjectiveProto \<Rightarrow> validation" where
  "ValidateObjective model obj =
     (if \<not> DomainInProtoIsValid (ob_domain obj) then Invalid ''The objective has and invalid domain() format''
      else if length (ob_vars obj) \<noteq> length (ob_coeffs obj)
      then Invalid ''vars and coeffs size do not match in objective''
      else and_then (for_all (\<lambda>v. reject_if (\<not> VariableIndexIsValid model v)
                       ''Out of bound integer variable in objective'') (ob_vars obj))
          (case PossibleIntegerOverflow model (ob_vars obj) (ob_coeffs obj) 0 of
             PossibleOverflow \<Rightarrow> Invalid ''Possible integer overflow in objective''
           | RefCheckFailed \<Rightarrow> CheckFailed
           | Bounds lo hi \<Rightarrow>
               if \<not> isfinite (ob_offset obj) then Invalid ''Objective offset must be finite''
               else reject_if
                   (\<not> d_eq (ob_scaling_factor obj) (Fin 0) \<and> \<not> d_eq (ob_scaling_factor obj) (Fin 1) \<and>
                    \<not> d_eq (ob_scaling_factor obj) (Fin (- 1)) \<and>
                    (\<not> scaled_is_finite obj lo \<or> \<not> scaled_is_finite obj hi))
                   ''Possible floating point overflow in objective when multiplied by the scaling factor''))"

text \<open>The sums of the negative and of the positive parts of the terms.\<close>

fun float_objective_sums ::
    "CpModelProto \<Rightarrow> double \<times> double \<Rightarrow> (int32 \<times> double) list \<Rightarrow> double \<times> double" where
  "float_objective_sums model s [] = s"
| "float_objective_sums model s ((ref, c) # r) =
     (let coeff = (if RefIsPositive ref then c else d_neg c);
          prod1 = d_mul (d_of_int (var_lb model (PositiveRef ref))) coeff;
          prod2 = d_mul (d_of_int (var_ub model (PositiveRef ref))) coeff
      in float_objective_sums model
           (d_add (fst s) (d_min (Fin 0) (d_min prod1 prod2)),
            d_add (snd s) (d_max (Fin 0) (d_max prod1 prod2))) r)"

definition ValidateFloatingPointObjective ::
    "double \<Rightarrow> CpModelProto \<Rightarrow> FloatObjectiveProto \<Rightarrow> validation" where
  "ValidateFloatingPointObjective max_valid_magnitude model obj =
     (if length (fo_vars obj) \<noteq> length (fo_coeffs obj)
      then Invalid ''vars and coeffs size do not match in objective''
      else and_then (for_all (\<lambda>v. reject_if (\<not> VariableIndexIsValid model v)
                       ''Out of bound integer variable in objective'') (fo_vars obj))
          (and_then (for_all (\<lambda>c.
               if \<not> isfinite c then Invalid ''Coefficients must be finite in objective''
               else reject_if (d_less max_valid_magnitude (d_abs c))
                      ''Coefficients larger than params.mip_max_valid_magnitude()'') (fo_coeffs obj))
            (if \<not> isfinite (fo_offset obj) then Invalid ''Offset must be finite in objective''
             else let (sum_min, sum_max) =
                    float_objective_sums model (fo_offset obj, fo_offset obj) (zip (fo_vars obj) (fo_coeffs obj))
                  in reject_if (\<not> isfinite (d_mul (Fin 2) sum_min) \<or> \<not> isfinite (d_mul (Fin 2) sum_max))
                       ''Possible floating point overflow in objective'')))"

text \<open>The enum values \<open>CHOOSE_FIRST\<close> to \<open>CHOOSE_MAX_DOMAIN_SIZE\<close> are 0 to 4, \<open>SELECT_MIN_VALUE\<close> to
  \<open>SELECT_RANDOM_HALF\<close> 0 to 5, and \<open>SELECT_MEDIAN_VALUE\<close> is 4.\<close>

definition median_domain_too_large :: "CpModelProto \<Rightarrow> int32 \<Rightarrow> bool" where
  "median_domain_too_large model v \<longleftrightarrow>
     Domain_Size (ReadDomainFromProto (iv_domain (elt (m_variables model) v))) > 100000"

definition ValidateStrategy :: "CpModelProto \<Rightarrow> DecisionStrategyProto \<Rightarrow> validation" where
  "ValidateStrategy model strategy =
     (let vss = ds_variable_selection_strategy strategy; drs = ds_domain_reduction_strategy strategy
      in if vss \<notin> {0, 1, 2, 3, 4} then Invalid ''Unknown or unsupported variable_selection_strategy''
         else if drs \<notin> {0, 1, 2, 3, 4, 5} then Invalid ''Unknown or unsupported domain_reduction_strategy''
         else if ds_variables strategy \<noteq> [] \<and> ds_exprs strategy \<noteq> []
         then Invalid ''Strategy can't have both variables and exprs''
         else and_then (for_all (\<lambda>ref.
               if \<not> VariableReferenceIsValid model ref then Invalid ''Invalid variable reference in strategy''
               else reject_if (drs = 4 \<and> median_domain_too_large model (PositiveRef ref))
                      ''Variable has a domain too large'') (ds_variables strategy))
             (for_all (\<lambda>expr.
               if length (le_vars expr) > 1 then Invalid ''expression must be affine in strategy''
               else and_then (for_all (\<lambda>v. reject_if (\<not> VariableReferenceIsValid model v)
                                 ''Invalid variable reference in strategy'') (le_vars expr))
                 (case ValidateLinearExpression model expr of
                    CheckFailed \<Rightarrow> CheckFailed
                  | Invalid _ \<Rightarrow> Invalid ''Invalid affine expr in strategy''
                  | Valid \<Rightarrow>
                      if drs = 4
                      then for_all (\<lambda>v. reject_if (median_domain_too_large model v)
                                     ''Variable has a domain too large'') (le_vars expr)
                      else Valid)) (ds_exprs strategy)))"

definition ValidateSearchStrategies :: "CpModelProto \<Rightarrow> validation" where
  "ValidateSearchStrategies model = for_all (ValidateStrategy model) (m_search_strategy model)"

fun hint_duplicates :: "int32 set \<Rightarrow> int32 list \<Rightarrow> bool" where
  "hint_duplicates seen [] = False"
| "hint_duplicates seen (v # vs) =
     (PositiveRef v \<in> seen \<or> hint_duplicates (insert (PositiveRef v) seen) vs)"

definition ValidateSolutionHint :: "CpModelProto \<Rightarrow> validation" where
  "ValidateSolutionHint model =
     (case m_solution_hint model of
        None \<Rightarrow> Valid
      | Some hint \<Rightarrow>
          if length (pa_vars hint) \<noteq> length (pa_values hint)
          then Invalid ''Invalid solution hint: vars and values do not have the same size.''
          else and_then (for_all (\<lambda>v. reject_if (\<not> VariableIndexIsValid model v)
                           ''Invalid variable in solution hint'') (pa_vars hint))
              (if hint_duplicates {} (pa_vars hint)
               then Invalid ''The solution hint contains duplicate variables''
               else for_all (\<lambda>x. reject_if (x = kint64min \<or> x = kint64max)
                      ''The solution hint cannot contains the INT_MIN or INT_MAX values.'') (pa_values hint)))"

section \<open>The whole model\<close>

definition domain_magnitude :: "IntegerVariableProto \<Rightarrow> int64" where
  "domain_magnitude v =
     (let lo = hd (iv_domain v); hi = last (iv_domain v)
      in max (max (std_abs lo) (std_abs hi)) (wrap64 (hi - lo)))"

fun ValidateConstraintByCase :: "CpModelProto \<Rightarrow> bool \<Rightarrow> ConstraintCase \<Rightarrow> validation" where
  "ValidateConstraintByCase model enforced (kLinear l) = ValidateLinearConstraint model l"
| "ValidateConstraintByCase model enforced (kLinMax a) =
     and_then (ValidateLinearExpression model (expr_or_default (la_target a)))
              (for_all (ValidateLinearExpression model) (la_exprs a))"
| "ValidateConstraintByCase model enforced (kIntProd a) = ValidateIntProdConstraint model a"
| "ValidateConstraintByCase model enforced (kIntDiv a) = ValidateIntDivConstraint model a"
| "ValidateConstraintByCase model enforced (kIntMod a) = ValidateIntModConstraint model a"
| "ValidateConstraintByCase model enforced (kInverse a) = ValidateInverseConstraint model a"
| "ValidateConstraintByCase model enforced (kAllDiff a) = for_all (ValidateLinearExpression model) (ad_exprs a)"
| "ValidateConstraintByCase model enforced (kElement a) = ValidateElementConstraint model a"
| "ValidateConstraintByCase model enforced (kTable a) = ValidateTableConstraint model a"
| "ValidateConstraintByCase model enforced (kAutomaton a) = ValidateAutomatonConstraint model a"
| "ValidateConstraintByCase model enforced (kCircuit a) =
     ValidateGraphInput False (ci_tails a) (ci_heads a) (ci_literals a)"
| "ValidateConstraintByCase model enforced (kRoutes a) = ValidateRoutesConstraint model a"
| "ValidateConstraintByCase model enforced (kInterval a) = ValidateIntervalConstraint model enforced a"
| "ValidateConstraintByCase model enforced (kReservoir a) = ValidateReservoirConstraint model a"
| "ValidateConstraintByCase model enforced (kDummyConstraint a) =
     Invalid ''The dummy constraint should never appear in a model.''"
| "ValidateConstraintByCase model enforced _ = Valid"

text \<open>The second pass, over the constraints that use intervals.\<close>

fun ValidateIntervalUser :: "CpModelProto \<Rightarrow> ConstraintCase \<Rightarrow> validation" where
  "ValidateIntervalUser model (kCumulative a) = ValidateCumulativeConstraint model a"
| "ValidateIntervalUser model (kNoOverlap2D a) = ValidateNoOverlap2DConstraint model a"
| "ValidateIntervalUser model _ = Valid"

fun uses_intervals :: "ConstraintCase \<Rightarrow> bool" where
  "uses_intervals (kCumulative _) \<longleftrightarrow> True"
| "uses_intervals (kNoOverlap _) \<longleftrightarrow> True"
| "uses_intervals (kNoOverlap2D _) \<longleftrightarrow> True"
| "uses_intervals _ \<longleftrightarrow> False"

definition objective_bound_overflows :: "CpObjectiveProto \<Rightarrow> int64 \<Rightarrow> bool" where
  "objective_bound_overflows obj v =
     (let t1 = CapAdd v (ob_integer_before_offset obj);
          t2 = CapProd t1 (ob_integer_scaling_factor obj);
          t3 = CapAdd t2 (ob_integer_after_offset obj)
      in AtMinOrMaxInt64 t1 \<or> AtMinOrMaxInt64 t2 \<or> AtMinOrMaxInt64 t3)"

definition ValidateModelObjective :: "CpModelProto \<Rightarrow> CpObjectiveProto \<Rightarrow> validation" where
  "ValidateModelObjective model obj =
     (if \<not> d_eq (ob_scaling_factor obj) (Fin 0) \<and> \<not> isnormal (ob_scaling_factor obj)
      then Invalid ''A model cannot have an objective with a nan, inf or subnormal scaling factor''
      else and_then (ValidateObjective model obj)
        (if ob_integer_scaling_factor obj \<noteq> 0 \<or> ob_integer_before_offset obj \<noteq> 0 \<or> ob_integer_after_offset obj \<noteq> 0
         then if ob_domain obj = [] then Invalid ''Objective integer scaling or offset is set without an objective domain.''
              else reject_if (list_ex (objective_bound_overflows obj) (ob_domain obj))
                     ''Internal fields related to the postsolve of the integer objective are causing a potential integer overflow''
         else Valid))"

definition ValidateCpModel :: "bool \<Rightarrow> CpModelProto \<Rightarrow> validation" where
  "ValidateCpModel after_presolve model =
     and_then (for_all (ValidateIntegerVariable model) (map int [0..<length (m_variables model)]))
    (and_then (reject_if (foldl (\<lambda>s v. CapAdd s (domain_magnitude v)) 0 (m_variables model) = kint64max)
                 ''The sum of all variable domains do not fit on an int64_t'')
    (and_then (for_all (\<lambda>ct. and_then (ValidateVariablesUsedInConstraint model ct)
                 (ValidateConstraintByCase model (HasEnforcementLiteral ct) (ct_constraint ct)))
                 (m_constraints model))
    (and_then (for_all (\<lambda>c. and_then (ValidateIntervalsUsedInConstraint after_presolve model c)
                 (ValidateIntervalUser model (ct_constraint (elt (m_constraints model) c))))
                 (filter (\<lambda>c. uses_intervals (ct_constraint (elt (m_constraints model) c)))
                    (map int [0..<length (m_constraints model)])))
    (and_then (reject_if (m_objective model \<noteq> None \<and> m_floating_point_objective model \<noteq> None)
                 ''A model cannot have both an objective and a floating point objective.'')
    (and_then (case m_objective model of None \<Rightarrow> Valid | Some obj \<Rightarrow> ValidateModelObjective model obj)
    (and_then (ValidateSearchStrategies model)
    (and_then (ValidateSolutionHint model)
       (for_all (\<lambda>ref. reject_if (\<not> LiteralReferenceIsValid model ref)
                         ''Invalid literal reference in the 'assumptions' field.'') (m_assumptions model)))))))))"

definition ValidateInputCpModel :: "double \<Rightarrow> CpModelProto \<Rightarrow> validation" where
  "ValidateInputCpModel mip_max_valid_magnitude model =
     and_then (ValidateCpModel False model)
       (case m_floating_point_objective model of
          None \<Rightarrow> Valid
        | Some obj \<Rightarrow> ValidateFloatingPointObjective mip_max_valid_magnitude model obj)"

end
