(* ===== verification/ValidateFacts.thy ===== *)
theory ValidateFacts
  imports CpValidate CpChecker "HOL-Library.Multiset"
begin

text \<open>
  What a model that passed \<open>ValidateCpModel\<close> guarantees, for the components that rely on it: its
  domain fields are canonical, its references are in range, and the value of every linear
  expression fits with a margin, whatever the order in which its terms are summed.
\<close>

named_theorems valid_simps \<open>when a validation step accepts\<close>

section \<open>Combinators\<close>

lemma and_then_Valid [valid_simps]: "and_then v w = Valid \<longleftrightarrow> v = Valid \<and> w = Valid"
  by (auto simp: and_then_def split: validation.splits)

lemma for_all_Valid [valid_simps]: "for_all f xs = Valid \<longleftrightarrow> (\<forall>x \<in> set xs. f x = Valid)"
  by (induction xs) (auto simp: and_then_Valid)

lemma reject_if_Valid [valid_simps]: "reject_if c msg = Valid \<longleftrightarrow> \<not> c"
  by (simp add: reject_if_def)

lemma reject_overflow_Valid [valid_simps]:
  "reject_overflow r msg = Valid \<longleftrightarrow> (\<exists>lo hi. r = Bounds lo hi)"
  by (auto simp: reject_overflow_def split: overflow.splits)

lemma and_then_Valid_eq: "and_then v w = CheckFailed \<longleftrightarrow> v = CheckFailed \<or> v = Valid \<and> w = CheckFailed"
  by (auto simp: and_then_def split: validation.splits)

lemma for_all_no_CheckFailed:
  "(\<And>x. x \<in> set xs \<Longrightarrow> f x \<noteq> CheckFailed) \<Longrightarrow> for_all f xs \<noteq> CheckFailed"
  by (induction xs) (auto simp: and_then_Valid_eq)

section \<open>Domain fields\<close>

text \<open>Half of the range of int64: the bound on the domains of variables and on the sums.\<close>

abbreviation half :: int where "half \<equiv> 4611686018427387903"

lemma half_sdiv: "kint64max sdiv 2 = half" "- kint64max sdiv 2 = - half"
  by (simp_all add: signed_divide_int_def)

lemma valid_from_canon:
  assumes "DomainInProtoIsValid_from prev flat" "in_int64 prev" "\<forall>v \<in> set flat. in_int64 v"
  shows "canon (pairs_of_flat flat) \<and> (\<forall>v \<in> dvals (pairs_of_flat flat). prev + 1 < v)"
  using assms
proof (induction prev flat rule: DomainInProtoIsValid_from.induct)
  case (1 prev a b r)
  have w: "prev < a" "a \<le> b" "in_int64 a" "in_int64 b" using "1.prems" by auto
  then have "wrap64 (prev + 1) = prev + 1" using "1.prems"(2) by (simp add: in_int64_def)
  then have p: "prev + 1 < a" using "1.prems"(1) by simp
  have c: "canon (pairs_of_flat r)" and g: "\<And>v. v \<in> dvals (pairs_of_flat r) \<Longrightarrow> b + 1 < v"
    using "1.IH" "1.prems" w by auto
  have "prev + 1 < v" if "v \<in> dvals (pairs_of_flat r)" for v using g[OF that] p w(2) by linarith
  then show ?case using p w c g canon_ConsI[of "Interval a b" "pairs_of_flat r"]
    by (auto simp: interval_ok_def)
qed simp_all

text \<open>A field accepted by \<open>DomainInProtoIsValid\<close> is the canonical list of a \<open>Domain\<close>.\<close>

lemma DomainInProtoIsValid_canon:
  assumes "DomainInProtoIsValid flat" "\<forall>v \<in> set flat. in_int64 v"
  shows "canon (pairs_of_flat flat)"
proof (cases "\<exists>a b r. flat = a # b # r")
  case True
  then obtain a b r where f: "flat = a # b # r" by blast
  have "canon (pairs_of_flat r)" "\<And>v. v \<in> dvals (pairs_of_flat r) \<Longrightarrow> b + 1 < v"
    using valid_from_canon[of b r] assms by (auto simp: f DomainInProtoIsValid_def)
  then show ?thesis using assms canon_ConsI[of "Interval a b" "pairs_of_flat r"]
    by (auto simp: f interval_ok_def DomainInProtoIsValid_def)
next
  case False
  then have "flat = [] \<or> (\<exists>a. flat = [a])" by (metis neq_Nil_conv)
  then show ?thesis by auto
qed

lemma flat_of_pairs: "even (length flat) \<Longrightarrow> FillDomainInProto (pairs_of_flat flat) = flat"
  by (induction flat rule: pairs_of_flat.induct) (auto simp: FillDomainInProto_def)

lemma Fill_Read_valid:
  assumes "DomainInProtoIsValid flat" "\<forall>v \<in> set flat. in_int64 v"
  shows "ReadDomainFromProto flat = pairs_of_flat flat" "FillDomainInProto (ReadDomainFromProto flat) = flat"
proof -
  have even: "even (length flat)" using assms(1) by (auto simp: DomainInProtoIsValid_def split: list.splits)
  have "ReadDomainFromProto (FillDomainInProto (pairs_of_flat flat)) = pairs_of_flat flat"
    by (rule Fill_Read_roundtrip) (rule DomainInProtoIsValid_canon[OF assms])
  then show "ReadDomainFromProto flat = pairs_of_flat flat" by (simp add: flat_of_pairs even)
  then show "FillDomainInProto (ReadDomainFromProto flat) = flat" by (simp add: flat_of_pairs even)
qed

lemma last_flat_pairs:
  "even (length flat) \<Longrightarrow> flat \<noteq> [] \<Longrightarrow> ci_end (last (pairs_of_flat flat)) = last flat"
  by (induction flat rule: pairs_of_flat.induct) (auto simp: neq_Nil_conv)

lemma pairs_of_flat_Nil: "even (length flat) \<Longrightarrow> pairs_of_flat flat = [] \<longleftrightarrow> flat = []"
  by (cases flat rule: pairs_of_flat.cases) auto

lemma flat_bounds:
  assumes "DomainInProtoIsValid flat" "\<forall>v \<in> set flat. in_int64 v" "DomainInProtoContains flat a"
  shows "hd flat \<le> a" "a \<le> last flat"
proof -
  have even: "even (length flat)" using assms(1) by (auto simp: DomainInProtoIsValid_def split: list.splits)
  have ne: "flat \<noteq> []" using assms(3) by auto
  note c = DomainInProtoIsValid_canon[OF assms(1,2)]
  have p: "pairs_of_flat flat \<noteq> []" using pairs_of_flat_Nil[OF even] ne by simp
  have m: "a \<in> dvals (pairs_of_flat flat)" using assms(3) by (simp add: DomainInProtoContains_dvals)
  have "Domain_Max (pairs_of_flat flat) = last flat"
    using last_flat_pairs[OF even ne] by (simp add: Domain_Max_def)
  moreover have "Domain_Min (pairs_of_flat flat) = hd flat"
    using ne even by (cases flat rule: pairs_of_flat.cases) (auto simp: Domain_Min_def)
  ultimately show "hd flat \<le> a" "a \<le> last flat"
    using Domain_Min_spec(2)[OF c p m] Domain_Max_spec(2)[OF c p m] by simp_all
qed

section \<open>Variables and assignments\<close>

definition domains_typed :: "CpModelProto \<Rightarrow> bool" where
  "domains_typed model \<longleftrightarrow> (\<forall>v \<in> set (m_variables model). \<forall>b \<in> set (iv_domain v). in_int64 b)"

definition variables_valid :: "CpModelProto \<Rightarrow> bool" where
  "variables_valid model \<longleftrightarrow> domains_typed model \<and>
     (\<forall>v < length (m_variables model). ValidateIntegerVariable model (int v) = Valid)"

text \<open>The first test of \<open>SolutionIsFeasible\<close>: one value per variable, inside its domain.\<close>

definition in_domains :: "CpModelProto \<Rightarrow> int64 list \<Rightarrow> bool" where
  "in_domains model x \<longleftrightarrow>
     length x = length (m_variables model) \<and>
     list_all2 (\<lambda>v a. DomainInProtoContains (iv_domain v) a) (m_variables model) x"

lemma variable_valid_facts:
  assumes "variables_valid model" "v < length (m_variables model)"
  shows "DomainInProtoIsValid (iv_domain (m_variables model ! v))"
    "\<forall>b \<in> set (iv_domain (m_variables model ! v)). in_int64 b"
    "iv_domain (m_variables model ! v) \<noteq> []"
    "- half \<le> var_lb model (int v)" "var_ub model (int v) \<le> half"
proof -
  let ?d = "iv_domain (m_variables model ! v)"
  have V: "ValidateIntegerVariable model (int v) = Valid" using assms by (simp add: variables_valid_def)
  have "?d \<noteq> [] \<and> DomainInProtoIsValid ?d \<and> \<not> (hd ?d < - half \<or> last ?d > half)"
    using V unfolding ValidateIntegerVariable_def Let_def half_sdiv by (simp split: if_split_asm)
  then show "DomainInProtoIsValid ?d" "?d \<noteq> []" "- half \<le> var_lb model (int v)" "var_ub model (int v) \<le> half"
    by (simp_all add: var_lb_def var_ub_def)
  show "\<forall>b \<in> set ?d. in_int64 b"
    using assms nth_mem[OF assms(2)] unfolding variables_valid_def domains_typed_def by blast
qed

lemma in_domains_bounds:
  assumes "variables_valid model" "in_domains model x" "0 \<le> v" "v < variables_size model"
  shows "var_lb model v \<le> elt x v" "elt x v \<le> var_ub model v" "\<bar>elt x v\<bar> \<le> half"
proof -
  obtain n where n: "v = int n" "n < length (m_variables model)" using assms(3,4) by (cases v) auto
  note f = variable_valid_facts[OF assms(1) n(2)]
  have "DomainInProtoContains (iv_domain (m_variables model ! n)) (x ! n)"
    using assms(2) n(2) unfolding in_domains_def by (blast dest: list_all2_nthD)
  from flat_bounds[OF f(1,2) this] show b: "var_lb model v \<le> elt x v" "elt x v \<le> var_ub model v"
    by (simp_all add: n(1) var_lb_def var_ub_def)
  show "\<bar>elt x v\<bar> \<le> half" using b f(4,5) unfolding n(1)[symmetric] by linarith
qed

section \<open>Sums that cannot overflow\<close>

text \<open>The negative and the positive part of what a term can contribute.\<close>

definition low_part :: "CpModelProto \<Rightarrow> int32 \<times> int64 \<Rightarrow> int" where
  "low_part model = (\<lambda>(v, c). min 0 (min (var_lb model v * c) (var_ub model v * c)))"

definition high_part :: "CpModelProto \<Rightarrow> int32 \<times> int64 \<Rightarrow> int" where
  "high_part model = (\<lambda>(v, c). max 0 (max (var_lb model v * c) (var_ub model v * c)))"

lemma clamp64_not_below: "s \<le> a \<Longrightarrow> in_int64 a \<Longrightarrow> - half \<le> clamp64 s \<Longrightarrow> clamp64 s = s"
  by (auto simp: clamp64_def in_int64_def)

lemma clamp64_not_above: "a \<le> s \<Longrightarrow> in_int64 a \<Longrightarrow> clamp64 s \<le> half \<Longrightarrow> clamp64 s = s"
  by (auto simp: clamp64_def in_int64_def)

lemma AddTerm_Some:
  assumes "LinearOverflowChecker_AddTerm (a, b) c l h = Some (a', b')" "in_int64 a" "in_int64 b"
  shows "a' = a + min 0 (min (l * c) (h * c))" "b' = b + max 0 (max (l * c) (h * c))"
    "- half \<le> a'" "b' \<le> half" "in_int64 (l * c)" "in_int64 (h * c)"
proof -
  let ?p = "CapProd l c" and ?q = "CapProd h c"
  have capped: "\<not> AtMinOrMaxInt64 ?p" "\<not> AtMinOrMaxInt64 ?q"
    and r: "a' = CapAdd a (min 0 (min ?p ?q))" "b' = CapAdd b (max 0 (max ?p ?q))"
    and m: "- half \<le> a'" "b' \<le> half"
    using assms(1) unfolding LinearOverflowChecker_AddTerm_def Let_def half_sdiv
    by (auto split: if_split_asm)
  have p: "?p = l * c" "?q = h * c" using capped CapProd_not_capped by auto
  then show ip: "in_int64 (l * c)" "in_int64 (h * c)" by (metis in_int64_cap(3))+
  have ia: "in_int64 (min 0 (min (l * c) (h * c)))" "in_int64 (max 0 (max (l * c) (h * c)))"
    using ip by (simp_all add: int64_intros)
  have ra: "a' = clamp64 (a + min 0 (min (l * c) (h * c)))" using r(1) assms(2) ia(1) by (simp only: p CapAdd_clamp)
  have rb: "b' = clamp64 (b + max 0 (max (l * c) (h * c)))" using r(2) assms(3) ia(2) by (simp only: p CapAdd_clamp)
  show "- half \<le> a'" "b' \<le> half" by (rule m)+
  show "a' = a + min 0 (min (l * c) (h * c))"
    unfolding ra by (rule clamp64_not_below[of _ a]) (use assms(2) m(1) ra in simp_all)
  show "b' = b + max 0 (max (l * c) (h * c))"
    unfolding rb by (rule clamp64_not_above[of b]) (use assms(3) m(2) rb in simp_all)
qed

lemma overflow_loop_Bounds:
  assumes "overflow_loop model (a, b) ts = Bounds lo hi" "- half \<le> a" "b \<le> half" "in_int64 a" "in_int64 b"
  shows "lo = a + sum_list (map (low_part model) ts)" "hi = b + sum_list (map (high_part model) ts)"
    "- half \<le> lo" "hi \<le> half" "\<forall>(v, c) \<in> set ts. RefIsPositive v"
proof -
  have "lo = a + sum_list (map (low_part model) ts) \<and> hi = b + sum_list (map (high_part model) ts) \<and>
    - half \<le> lo \<and> hi \<le> half \<and> (\<forall>(v, c) \<in> set ts. RefIsPositive v)"
    using assms
  proof (induction ts arbitrary: a b)
    case (Cons t ts)
    obtain v c where t: "t = (v, c)" by (cases t)
    have pos: "RefIsPositive v" using Cons.prems(1) by (simp add: t split: if_split_asm)
    obtain a' b' where s: "LinearOverflowChecker_AddTerm (a, b) c (var_lb model v) (var_ub model v) = Some (a', b')"
      and rest: "overflow_loop model (a', b') ts = Bounds lo hi"
      using Cons.prems(1) pos by (auto simp: t split: option.splits)
    note st = AddTerm_Some[OF s Cons.prems(4,5)]
    have "a' \<le> a" "b \<le> b'" using st(1,2) by simp_all
    then have i: "in_int64 a'" "in_int64 b'" using st(3,4) Cons.prems(4,5) by (simp_all add: in_int64_def)
    show ?case using Cons.IH[OF rest st(3,4) i] pos st(1,2)
      by (simp add: t low_part_def high_part_def)
  qed simp
  then show "lo = a + sum_list (map (low_part model) ts)" "hi = b + sum_list (map (high_part model) ts)"
    "- half \<le> lo" "hi \<le> half" "\<forall>(v, c) \<in> set ts. RefIsPositive v" by simp_all
qed

text \<open>The value \<open>kint64min\<close> slips through the test on the offset: \<open>std::abs\<close> wraps on it.\<close>

lemma PossibleIntegerOverflow_Bounds:
  assumes "PossibleIntegerOverflow model vs cs off = Bounds lo hi" "in_int64 off" "off \<noteq> kint64min"
  shows "lo = - \<bar>off\<bar> + sum_list (map (low_part model) (zip vs cs))"
    "hi = \<bar>off\<bar> + sum_list (map (high_part model) (zip vs cs))"
    "- half \<le> lo" "hi \<le> half" "\<bar>off\<bar> \<le> half" "\<forall>(v, c) \<in> set (zip vs cs). RefIsPositive v"
proof -
  have a: "std_abs off = \<bar>off\<bar>" using assms(2,3) by simp
  have o: "\<bar>off\<bar> \<le> half" and l: "overflow_loop model (wrap64 (- std_abs \<bar>off\<bar>), std_abs \<bar>off\<bar>) (zip vs cs) = Bounds lo hi"
    using assms(1) unfolding PossibleIntegerOverflow_def Let_def a half_sdiv by (simp_all split: if_split_asm)
  have o': "- half \<le> - \<bar>off\<bar>" using o by simp
  have i: "in_int64 \<bar>off\<bar>" "in_int64 (- \<bar>off\<bar>)" using o by (simp_all add: in_int64_def)
  have w: "std_abs \<bar>off\<bar> = \<bar>off\<bar>" "wrap64 (- \<bar>off\<bar>) = - \<bar>off\<bar>"
    using i o by (simp_all add: std_abs_def)
  note f = overflow_loop_Bounds[OF l[unfolded w] o' o i(2,1)]
  show "lo = - \<bar>off\<bar> + sum_list (map (low_part model) (zip vs cs))"
    "hi = \<bar>off\<bar> + sum_list (map (high_part model) (zip vs cs))"
    "- half \<le> lo" "hi \<le> half" "\<bar>off\<bar> \<le> half" "\<forall>(v, c) \<in> set (zip vs cs). RefIsPositive v"
    using f o by auto
qed

text \<open>Every sum of some of the terms lies between the bounds: in particular the partial sums of the
  terms in any order.\<close>

lemma term_between_parts:
  assumes "var_lb model v \<le> a" "a \<le> var_ub model v"
  shows "low_part model (v, c) \<le> a * c" "a * c \<le> high_part model (v, c)"
  using between_scaled[OF assms, of c] by (simp_all add: low_part_def high_part_def min_le_iff_disj le_max_iff_disj)

lemma parts_sign: "low_part model t \<le> 0" "0 \<le> high_part model t"
  by (cases t; simp add: low_part_def high_part_def)+

definition bounded_by :: "CpModelProto \<Rightarrow> int list \<Rightarrow> (int32 \<times> int64) list \<Rightarrow> bool" where
  "bounded_by model x ts \<longleftrightarrow>
     (\<forall>(v, c) \<in> set ts. 0 \<le> v \<and> var_lb model v \<le> elt x v \<and> elt x v \<le> var_ub model v)"

lemma terms_sum_between:
  assumes "bounded_by model x ts"
  shows "sum_list (map (low_part model) ts) \<le> terms_sum x ts" "terms_sum x ts \<le> sum_list (map (high_part model) ts)"
proof -
  have "sum_list (map (low_part model) ts) \<le> terms_sum x ts \<and> terms_sum x ts \<le> sum_list (map (high_part model) ts)"
    using assms
  proof (induction ts)
    case (Cons t ts)
    obtain v c where t: "t = (v, c)" by (cases t)
    have "low_part model (v, c) \<le> ref_value x v * c" "ref_value x v * c \<le> high_part model (v, c)"
      using term_between_parts[of model v "elt x v" c] Cons.prems
      by (auto simp: t bounded_by_def ref_value_def)
    moreover have "bounded_by model x ts" using Cons.prems by (auto simp: bounded_by_def)
    ultimately show ?case using Cons.IH by (simp add: t)
  qed simp
  then show "sum_list (map (low_part model) ts) \<le> terms_sum x ts"
    "terms_sum x ts \<le> sum_list (map (high_part model) ts)" by simp_all
qed

lemma sub_sums:
  assumes "mset us \<subseteq># mset ts"
  shows "sum_list (map (low_part model) ts) \<le> sum_list (map (low_part model) us)"
    "sum_list (map (high_part model) us) \<le> sum_list (map (high_part model) ts)"
proof -
  obtain r where r: "mset ts = mset us + r" using assms by (metis subset_mset.add_diff_inverse)
  obtain rs where rs: "mset rs = r" using ex_mset by blast
  have "mset ts = mset (us @ rs)" using r rs by simp
  then have "sum_list (map f ts) = sum_list (map f us) + sum_list (map f rs)" for f :: "_ \<Rightarrow> int"
    by (metis map_append mset_map sum_list_append sum_mset_sum_list)
  moreover have "sum_list (map (low_part model) rs) \<le> 0" by (induction rs) (auto intro: add_nonpos_nonpos parts_sign)
  moreover have "0 \<le> sum_list (map (high_part model) rs)" by (induction rs) (auto intro: add_nonneg_nonneg parts_sign)
  ultimately show "sum_list (map (low_part model) ts) \<le> sum_list (map (low_part model) us)"
    "sum_list (map (high_part model) us) \<le> sum_list (map (high_part model) ts)" by simp_all
qed

section \<open>The value of a validated expression\<close>

lemma Value_ref_value:
  assumes "in_int64 (ref_value x v)"
  shows "Value x v = ref_value x v"
  using assms by (cases "0 \<le> v") (simp_all add: Value_def ref_value_def)

lemma expression_loop_exact:
  assumes "\<And>us vs. ts = us @ vs \<Longrightarrow> in_int64 (s + terms_sum x us)"
    "\<And>v c. (v, c) \<in> set ts \<Longrightarrow> in_int64 (ref_value x v) \<and> in_int64 (ref_value x v * c)"
  shows "expression_loop x s ts = s + terms_sum x ts"
  using assms
proof (induction ts arbitrary: s)
  case (Cons t ts)
  obtain v c where t: "t = (v, c)" by (cases t)
  have p: "in_int64 (ref_value x v)" "in_int64 (ref_value x v * c)" using Cons.prems(2)[of v c] by (simp_all add: t)
  have s: "in_int64 (s + ref_value x v * c)" using Cons.prems(1)[of "[t]" ts] by (simp add: t)
  have "expression_loop x (s + ref_value x v * c) ts = s + ref_value x v * c + terms_sum x ts"
  proof (rule Cons.IH)
    show "in_int64 (s + ref_value x v * c + terms_sum x us)" if "ts = us @ vs" for us vs
      using Cons.prems(1)[of "t # us" vs] that by (simp add: t algebra_simps)
    show "in_int64 (ref_value x u) \<and> in_int64 (ref_value x u * d)" if "(u, d) \<in> set ts" for u d
      using Cons.prems(2)[of u d] that by simp
  qed
  then show ?case using p s by (simp add: t Value_ref_value)
qed simp

text \<open>No overflow was found, and the assignment is within the bounds.\<close>

definition checked_terms :: "CpModelProto \<Rightarrow> int list \<Rightarrow> int \<Rightarrow> (int32 \<times> int64) list \<Rightarrow> bool" where
  "checked_terms model x off ts \<longleftrightarrow>
     bounded_by model x ts \<and>
     (\<forall>(v, c) \<in> set ts. - half \<le> var_lb model v \<and> var_ub model v \<le> half) \<and>
     (ts = [] \<and> in_int64 off \<or>
      \<bar>off\<bar> \<le> half \<and> - half \<le> - \<bar>off\<bar> + sum_list (map (low_part model) ts) \<and>
      \<bar>off\<bar> + sum_list (map (high_part model) ts) \<le> half)"

lemma checked_partial_sums:
  assumes "checked_terms model x off ts" "mset us \<subseteq># mset ts"
  shows "in_int64 (off + terms_sum x us)" "ts \<noteq> [] \<Longrightarrow> \<bar>off + terms_sum x us\<bar> \<le> half"
proof -
  have b: "bounded_by model x us"
  proof -
    have "set us \<subseteq> set ts" using set_mset_mono[OF assms(2)] by simp
    then show ?thesis using assms(1) unfolding checked_terms_def bounded_by_def by blast
  qed
  note p = sub_sums[OF assms(2), of model] terms_sum_between[OF b]
  have "ts = [] \<Longrightarrow> us = []" using assms(2) by simp
  moreover have main: "ts \<noteq> [] \<Longrightarrow> \<bar>off + terms_sum x us\<bar> \<le> half"
  proof -
    assume "ts \<noteq> []"
    then have q: "\<bar>off\<bar> \<le> half" "- half \<le> - \<bar>off\<bar> + sum_list (map (low_part model) ts)"
      "\<bar>off\<bar> + sum_list (map (high_part model) ts) \<le> half"
      using assms(1) by (auto simp: checked_terms_def)
    show ?thesis using p q by linarith
  qed
  ultimately show "in_int64 (off + terms_sum x us)"
    using assms(1) by (cases "ts = []") (auto simp: checked_terms_def in_int64_def)
  show "ts \<noteq> [] \<Longrightarrow> \<bar>off + terms_sum x us\<bar> \<le> half" by (rule main)
qed

lemma checked_products:
  assumes "checked_terms model x off ts" "(v, c) \<in> set ts"
  shows "in_int64 (ref_value x v)" "in_int64 (ref_value x v * c)"
proof -
  have b: "0 \<le> v" "var_lb model v \<le> elt x v" "elt x v \<le> var_ub model v" "- half \<le> var_lb model v" "var_ub model v \<le> half"
    using assms by (auto simp: checked_terms_def bounded_by_def)
  then show "in_int64 (ref_value x v)" by (simp add: ref_value_def in_int64_def)
  have "mset [(v, c)] \<subseteq># mset ts" using assms(2) by simp
  from sub_sums[OF this, of model] have "sum_list (map (low_part model) ts) \<le> low_part model (v, c)"
    "high_part model (v, c) \<le> sum_list (map (high_part model) ts)" by simp_all
  moreover have "ts \<noteq> []" using assms(2) by auto
  then have "- half \<le> - \<bar>off\<bar> + sum_list (map (low_part model) ts)" "\<bar>off\<bar> + sum_list (map (high_part model) ts) \<le> half"
    using assms(1) by (auto simp: checked_terms_def)
  moreover have "low_part model (v, c) \<le> elt x v * c" "elt x v * c \<le> high_part model (v, c)"
    using term_between_parts b by simp_all
  ultimately have "- half \<le> elt x v * c" "elt x v * c \<le> half" by linarith+
  then show "in_int64 (ref_value x v * c)" using b(1) by (simp add: ref_value_def in_int64_def)
qed

lemma checked_expression_loop:
  assumes "checked_terms model x off ts"
  shows "expression_loop x off ts = off + terms_sum x ts"
proof (rule expression_loop_exact)
  show "in_int64 (off + terms_sum x us)" if "ts = us @ vs" for us vs
    using checked_partial_sums(1)[OF assms, of us] that by simp
  show "in_int64 (ref_value x v) \<and> in_int64 (ref_value x v * c)" if "(v, c) \<in> set ts" for v c
    using checked_products[OF assms that] by simp
qed

lemma checked_linear_loop:
  assumes "checked_terms model x off ts"
  shows "linear_loop x off ts = expression_loop x off ts"
proof -
  have "\<forall>(v, c) \<in> set ts. 0 \<le> v" using assms by (auto simp: checked_terms_def bounded_by_def)
  then show ?thesis by (induction ts arbitrary: off) (auto simp: Value_def)
qed

text \<open>The bounds computed by \<open>MinOfExpression\<close> and \<open>MaxOfExpression\<close> enclose the value.\<close>

lemma checked_min_max_terms:
  assumes "checked_terms model x off ts" "(v, c) \<in> set ts"
  shows "min_term model (v, c) = min (var_lb model v * c) (var_ub model v * c)"
    "max_term model (v, c) = max (var_lb model v * c) (var_ub model v * c)"
    "min_term model (v, c) \<le> elt x v * c" "elt x v * c \<le> max_term model (v, c)"
    "low_part model (v, c) \<le> min_term model (v, c)" "max_term model (v, c) \<le> high_part model (v, c)"
proof -
  have b: "0 \<le> v" "var_lb model v \<le> elt x v" "elt x v \<le> var_ub model v"
    using assms by (auto simp: checked_terms_def bounded_by_def)
  have "mset [(v, c)] \<subseteq># mset ts" using assms(2) by simp
  from sub_sums[OF this, of model] have "sum_list (map (low_part model) ts) \<le> low_part model (v, c)"
    "high_part model (v, c) \<le> sum_list (map (high_part model) ts)" by simp_all
  moreover have "ts \<noteq> []" using assms(2) by auto
  then have "- half \<le> - \<bar>off\<bar> + sum_list (map (low_part model) ts)" "\<bar>off\<bar> + sum_list (map (high_part model) ts) \<le> half"
    using assms(1) by (auto simp: checked_terms_def)
  ultimately have lh: "- half \<le> low_part model (v, c)" "high_part model (v, c) \<le> half" by linarith+
  have "low_part model (v, c) \<le> var_lb model v * c" "low_part model (v, c) \<le> var_ub model v * c"
    "var_lb model v * c \<le> high_part model (v, c)" "var_ub model v * c \<le> high_part model (v, c)"
    using abs_ge_zero unfolding low_part_def high_part_def prod.case min_def max_def by (auto split: if_split)
  then have "in_int64 (var_lb model v * c)" "in_int64 (var_ub model v * c)"
    using lh by (simp_all add: in_int64_def)
  moreover have "0 \<le> c \<Longrightarrow> var_lb model v * c \<le> var_ub model v * c" using b by (intro mult_right_mono) auto
  moreover have "\<not> 0 \<le> c \<Longrightarrow> var_ub model v * c \<le> var_lb model v * c" using b by (intro mult_right_mono_neg) auto
  ultimately show mm: "min_term model (v, c) = min (var_lb model v * c) (var_ub model v * c)"
    "max_term model (v, c) = max (var_lb model v * c) (var_ub model v * c)"
    using b(1) by (auto simp: min_term_def max_term_def MinOfRef_def MaxOfRef_def RefIsPositive_def CapProd_exact)
  show "min_term model (v, c) \<le> elt x v * c" "elt x v * c \<le> max_term model (v, c)"
    unfolding mm using between_scaled[OF b(2,3), of c] by simp_all
  show "low_part model (v, c) \<le> min_term model (v, c)" "max_term model (v, c) \<le> high_part model (v, c)"
    unfolding mm low_part_def high_part_def prod.case by linarith+
qed

lemma foldl_CapAdd_exact:
  assumes "\<And>us vs. ts = us @ vs \<Longrightarrow> in_int64 (s + sum_list (map f us))"
  shows "foldl (\<lambda>s t. CapAdd s (f t)) s ts = s + sum_list (map f ts)"
  using assms
proof (induction ts arbitrary: s)
  case (Cons t ts)
  have "in_int64 (s + f t)" using Cons.prems[of "[t]" ts] by simp
  then show ?case
    using Cons.IH[of "s + f t"] Cons.prems[of "t # _" _] by (simp add: CapAdd_exact add.assoc)
qed simp

lemma checked_min_max:
  assumes "checked_terms model x off ts"
  shows "foldl (\<lambda>s t. CapAdd s (min_term model t)) off ts = off + sum_list (map (min_term model) ts)"
    "foldl (\<lambda>s t. CapAdd s (max_term model t)) off ts = off + sum_list (map (max_term model) ts)"
    "off + sum_list (map (min_term model) ts) \<le> off + terms_sum x ts"
    "off + terms_sum x ts \<le> off + sum_list (map (max_term model) ts)"
    "ts \<noteq> [] \<Longrightarrow> - half \<le> off + sum_list (map (min_term model) ts)"
    "ts \<noteq> [] \<Longrightarrow> off + sum_list (map (max_term model) ts) \<le> half"
proof -
  have e: "elt x v = ref_value x v" if "(v, c) \<in> set ts" for v c
    using assms that by (auto simp: checked_terms_def bounded_by_def ref_value_def)
  have between: "sum_list (map (low_part model) us) \<le> sum_list (map (min_term model) us) \<and>
      sum_list (map (min_term model) us) \<le> terms_sum x us \<and>
      terms_sum x us \<le> sum_list (map (max_term model) us) \<and>
      sum_list (map (max_term model) us) \<le> sum_list (map (high_part model) us)"
    if "set us \<subseteq> set ts" for us
    using that
  proof (induction us)
    case (Cons t us)
    obtain v c where t: "t = (v, c)" by (cases t)
    have "(v, c) \<in> set ts" using Cons.prems by (simp add: t)
    from checked_min_max_terms(3-6)[OF assms this] e[OF this] Cons show ?case by (simp add: t)
  qed simp
  have bounds: "ts = [] \<and> in_int64 off \<or> - half \<le> off + sum_list (map (low_part model) ts) \<and>
      off + sum_list (map (high_part model) ts) \<le> half"
    using assms unfolding checked_terms_def by linarith
  have range: "in_int64 (off + sum_list (map (min_term model) us)) \<and> in_int64 (off + sum_list (map (max_term model) us))"
    if d: "ts = us @ vs" for us vs
  proof -
    have sub: "mset us \<subseteq># mset ts" "set us \<subseteq> set ts" by (simp_all add: d)
    have "ts = [] \<Longrightarrow> us = []" by (simp add: d)
    moreover have "ts \<noteq> [] \<Longrightarrow> ?thesis"
    proof -
      assume "ts \<noteq> []"
      then have "- half \<le> off + sum_list (map (low_part model) ts)" "off + sum_list (map (high_part model) ts) \<le> half"
        using bounds by auto
      then show ?thesis
        using sub_sums[OF sub(1), of model] between[OF sub(2)] unfolding in_int64_def by linarith
    qed
    ultimately show ?thesis using bounds by (cases "ts = []") (auto simp: in_int64_def)
  qed
  show "foldl (\<lambda>s t. CapAdd s (min_term model t)) off ts = off + sum_list (map (min_term model) ts)"
    by (rule foldl_CapAdd_exact) (use range in blast)
  show "foldl (\<lambda>s t. CapAdd s (max_term model t)) off ts = off + sum_list (map (max_term model) ts)"
    by (rule foldl_CapAdd_exact) (use range in blast)
  show "off + sum_list (map (min_term model) ts) \<le> off + terms_sum x ts"
    "off + terms_sum x ts \<le> off + sum_list (map (max_term model) ts)"
    "ts \<noteq> [] \<Longrightarrow> - half \<le> off + sum_list (map (min_term model) ts)"
    "ts \<noteq> [] \<Longrightarrow> off + sum_list (map (max_term model) ts) \<le> half"
    using between[of ts] bounds by auto
qed

text \<open>References that validation found in range.\<close>

definition refs_in_range :: "CpModelProto \<Rightarrow> int32 list \<Rightarrow> bool" where
  "refs_in_range model vs \<longleftrightarrow> (\<forall>v \<in> set vs. VariableReferenceIsValid model v)"

lemma bounded_by_in_domains:
  assumes "variables_valid model" "in_domains model x" "refs_in_range model vs"
    "\<forall>(v, c) \<in> set (zip vs cs). RefIsPositive v"
  shows "bounded_by model x (zip vs cs)"
    "\<forall>(v, c) \<in> set (zip vs cs). - half \<le> var_lb model v \<and> var_ub model v \<le> half"
proof -
  have r: "0 \<le> v \<and> v < variables_size model" if "(v, c) \<in> set (zip vs cs)" for v c
    using assms(3,4) set_zip_leftD[OF that] that
    by (auto simp: refs_in_range_def VariableReferenceIsValid_def RefIsPositive_def)
  show "bounded_by model x (zip vs cs)"
    unfolding bounded_by_def using r in_domains_bounds(1,2)[OF assms(1,2)] by blast
  have "- half \<le> var_lb model v \<and> var_ub model v \<le> half" if v: "0 \<le> v" "v < variables_size model" for v
  proof -
    obtain n where n: "v = int n" "n < length (m_variables model)" using v by (cases v) auto
    show ?thesis unfolding n(1) using variable_valid_facts(4,5)[OF assms(1) n(2)] by blast
  qed
  then show "\<forall>(v, c) \<in> set (zip vs cs). - half \<le> var_lb model v \<and> var_ub model v \<le> half"
    using r by blast
qed

lemma PossibleIntegerOverflow_kint64min:
  assumes "PossibleIntegerOverflow model vs cs kint64min = Bounds lo hi"
  shows "zip vs cs = []"
proof (rule ccontr)
  assume "zip vs cs \<noteq> []"
  then obtain v c r where z: "zip vs cs = (v, c) # r" by (metis list.exhaust surj_pair)
  have a: "std_abs kint64min = kint64min" "wrap64 (- kint64min) = kint64min" by (simp_all add: std_abs_def wrap64_def)
  have "overflow_loop model (kint64min, kint64min) ((v, c) # r) = Bounds lo hi"
    using assms unfolding PossibleIntegerOverflow_def Let_def a z half_sdiv by simp
  then obtain s where s: "LinearOverflowChecker_AddTerm (kint64min, kint64min) c (var_lb model v) (var_ub model v) = Some s"
    by (auto split: if_split_asm option.splits)
  obtain a' b' where s': "s = (a', b')" by (cases s)
  have m: "in_int64 kint64min" by simp
  from AddTerm_Some(1,3)[OF s[unfolded s'] m m] show False by linarith
qed

text \<open>\<open>PossibleIntegerOverflow\<close> is sound: when it accepts, the sum is safe in every order.\<close>

lemma PossibleIntegerOverflow_checked:
  assumes "PossibleIntegerOverflow model vs cs off = Bounds lo hi" "in_int64 off"
    "variables_valid model" "in_domains model x" "refs_in_range model vs"
  shows "checked_terms model x off (zip vs cs)"
proof (cases "off = kint64min")
  case True
  then have "zip vs cs = []" using PossibleIntegerOverflow_kint64min assms(1) by blast
  then show ?thesis unfolding \<open>zip vs cs = []\<close> using assms(2) by (simp add: checked_terms_def bounded_by_def)
next
  case False
  note p = PossibleIntegerOverflow_Bounds[OF assms(1,2) False]
  note b = bounded_by_in_domains[OF assms(3-5) p(6)]
  show ?thesis using p b by (simp add: checked_terms_def)
qed

lemma ValidateLinearExpression_checked:
  assumes "ValidateLinearExpression model e = Valid" "in_int64 (le_offset e)"
    "variables_valid model" "in_domains model x" "refs_in_range model (le_vars e)"
  shows "checked_terms model x (le_offset e) (zip (le_vars e) (le_coeffs e))"
    "length (le_coeffs e) = length (le_vars e)" "\<forall>v \<in> set (le_vars e). RefIsPositive v"
proof -
  have v: "length (le_coeffs e) = length (le_vars e) \<and> (\<forall>v \<in> set (le_vars e). RefIsPositive v) \<and>
      (\<exists>lo hi. PossibleIntegerOverflow model (le_vars e) (le_coeffs e) (le_offset e) = Bounds lo hi)"
    using assms(1) by (simp add: ValidateLinearExpression_def valid_simps split: if_split_asm)
  then show "length (le_coeffs e) = length (le_vars e)" "\<forall>v \<in> set (le_vars e). RefIsPositive v" by simp_all
  show "checked_terms model x (le_offset e) (zip (le_vars e) (le_coeffs e))"
    using v PossibleIntegerOverflow_checked assms(2-5) by blast
qed

lemma LinearExpressionValue_exact:
  assumes "checked_terms model x (le_offset e) (zip (le_vars e) (le_coeffs e))"
  shows "LinearExpressionValue x e = expr_value x e" "in_int64 (expr_value x e)"
    "MinOfExpression model e \<le> expr_value x e" "expr_value x e \<le> MaxOfExpression model e"
    "\<bar>le_offset e\<bar> \<le> half \<Longrightarrow> \<bar>expr_value x e\<bar> \<le> half"
proof -
  show "LinearExpressionValue x e = expr_value x e"
    unfolding LinearExpressionValue_def expr_value_def by (rule checked_expression_loop[OF assms])
  show "in_int64 (expr_value x e)"
    unfolding expr_value_def by (rule checked_partial_sums(1)[OF assms]) simp
  show "MinOfExpression model e \<le> expr_value x e" "expr_value x e \<le> MaxOfExpression model e"
    unfolding MinOfExpression_def MaxOfExpression_def expr_value_def checked_min_max(1,2)[OF assms]
    by (rule checked_min_max(3,4)[OF assms])+
  show "\<bar>expr_value x e\<bar> \<le> half" if "\<bar>le_offset e\<bar> \<le> half"
    using checked_partial_sums(2)[OF assms, of "zip (le_vars e) (le_coeffs e)"] that
    by (cases "zip (le_vars e) (le_coeffs e)") (auto simp add: expr_value_def)
qed

end
