(* ===== verification/CheckLoops.thy ===== *)
theory CheckLoops
  imports CpGraphCheck "HOL-Library.Multiset"
begin

text \<open>
  The loops of \<open>class ConstraintChecker\<close>, each against the mathematical statement it decides: counts,
  parity, distinctness, disjoint intervals, load profiles, reservoir levels, rows of a table, runs
  of an automaton and inverse permutations.  The machine sums are exact here; the hypotheses that
  say so are discharged from validation in the theory of the whole checker.
\<close>

section \<open>Booleans\<close>

lemma num_true_literals_eq: "num_true_literals x ls = int (length (filter (LiteralIsTrue x) ls))"
proof -
  have "foldl (\<lambda>n l. if LiteralIsTrue x l then n + 1 else n) k ls = k + int (length (filter (LiteralIsTrue x) ls))" for k
    by (induction ls arbitrary: k) auto
  then show ?thesis by (simp add: num_true_literals_def)
qed

lemma bool_xor_eq:
  "BoolXorConstraintIsFeasible x a \<longleftrightarrow> odd (length (filter (LiteralIsTrue x) (ba_literals a)))"
proof -
  have "foldl (\<lambda>s l. s XOR (if LiteralIsTrue x l then 1 else 0)) k ls =
      (if odd (length (filter (LiteralIsTrue x) ls)) then 1 - k else k)" if "k = 0 \<or> k = 1" for k :: int and ls
    using that by (induction ls arbitrary: k) (auto simp: xor.commute)
  from this[of 0 "ba_literals a"] show ?thesis by (simp add: BoolXorConstraintIsFeasible_def)
qed

lemma all_diff_loop_eq: "all_diff_loop s vs \<longleftrightarrow> distinct vs \<and> set vs \<inter> s = {}"
  by (induction vs arbitrary: s) auto

lemma foldl_max_eq: "foldl (\<lambda>m e. max m (f e)) k es = Max (insert k (f ` set es))"
proof (induction es arbitrary: k)
  case (Cons e es)
  then show ?case by (cases "es = []") (simp_all add: max.assoc insert_commute)
qed simp

section \<open>Symmetric relations on the elements of a list\<close>

lemma sorted_wrt_insert_middle:
  assumes "symp R"
  shows "sorted_wrt R (a @ x # b) \<longleftrightarrow> sorted_wrt R (a @ b) \<and> (\<forall>y \<in> set (a @ b). R x y)"
  using assms by (auto simp: sorted_wrt_append dest: sympD)

lemma sorted_wrt_mset:
  assumes "symp R" "mset xs = mset ys"
  shows "sorted_wrt R xs \<longleftrightarrow> sorted_wrt R ys"
  using assms(2)
proof (induction xs arbitrary: ys)
  case (Cons x xs)
  then have "x \<in> set ys" by (metis list.set_intros(1) set_mset_mset)
  then obtain a b where ys: "ys = a @ x # b" by (meson split_list)
  then have m: "mset xs = mset (a @ b)" using Cons.prems by simp
  then have "set xs = set a \<union> set b" by (metis set_append set_mset_mset)
  then show ?case using Cons.IH[OF m] sorted_wrt_insert_middle[OF assms(1), of a x b] ys by auto
qed simp

section \<open>No overlap\<close>

definition disjoint_tasks :: "int \<times> int \<Rightarrow> int \<times> int \<Rightarrow> bool" where
  "disjoint_tasks p q \<longleftrightarrow> fst p + snd p \<le> fst q \<or> fst q + snd q \<le> fst p"

lemma disjoint_tasks_sym: "symp disjoint_tasks"
  by (auto simp: symp_def disjoint_tasks_def)

lemma disjoint_tasks_ordered:
  assumes "p \<le> q" "0 \<le> snd p" "0 \<le> snd q"
  shows "disjoint_tasks p q \<longleftrightarrow> fst p + snd p \<le> fst q"
  using assms by (auto simp: disjoint_tasks_def less_eq_prod_def)

lemma no_overlap_loop_chain:
  assumes "\<forall>(s, d) \<in> set ps. 0 \<le> d \<and> in_int64 (s + d)"
  shows "no_overlap_loop e ps \<longleftrightarrow>
    sorted_wrt (\<lambda>p q. fst p + snd p \<le> fst q) ps \<and> (\<forall>p \<in> set ps. e \<le> fst p)"
  using assms
proof (induction ps arbitrary: e)
  case (Cons p ps)
  obtain s d where p: "p = (s, d)" by (cases p)
  have d: "0 \<le> d" and w: "wrap64 (s + d) = s + d" using Cons.prems by (auto simp: p)
  have ih: "no_overlap_loop (s + d) ps \<longleftrightarrow>
      sorted_wrt (\<lambda>p q. fst p + snd p \<le> fst q) ps \<and> (\<forall>p \<in> set ps. s + d \<le> fst p)"
    using Cons.IH[of "s + d"] Cons.prems by simp
  have "e \<le> s \<Longrightarrow> s + d \<le> fst q \<Longrightarrow> e \<le> fst q" for q :: "int \<times> int" using d by linarith
  then show ?case using ih by (auto simp: p w)
qed simp

lemma no_overlap_loop_spec:
  assumes "\<forall>(s, d) \<in> set ps. 0 \<le> d \<and> in_int64 s \<and> in_int64 (s + d)"
  shows "no_overlap_loop kint64min (sort ps) \<longleftrightarrow> sorted_wrt disjoint_tasks ps"
proof -
  have "no_overlap_loop kint64min (sort ps) \<longleftrightarrow> sorted_wrt (\<lambda>p q. fst p + snd p \<le> fst q) (sort ps)"
    using no_overlap_loop_chain[of "sort ps" kint64min] assms by (force simp: in_int64_def)
  also have "\<dots> \<longleftrightarrow> sorted_wrt disjoint_tasks (sort ps)"
  proof -
    have "sorted_wrt (\<lambda>p q. p \<le> q) (sort ps)" by simp
    then have "sorted_wrt (\<lambda>p q. fst p + snd p \<le> fst q) (sort ps) \<longleftrightarrow>
        sorted_wrt disjoint_tasks (sort ps)"
      using assms unfolding sorted_wrt_iff_nth_less
      by (smt (verit) case_prodD disjoint_tasks_ordered nth_mem prod.collapse set_sort order.strict_trans)
    then show ?thesis .
  qed
  also have "\<dots> \<longleftrightarrow> sorted_wrt disjoint_tasks ps"
    by (rule sorted_wrt_mset[OF disjoint_tasks_sym]) simp
  finally show ?thesis .
qed

section \<open>Load profiles\<close>

text \<open>The sum of the changes up to a time.\<close>

definition level_at :: "(int \<times> int) list \<Rightarrow> int \<Rightarrow> int" where
  "level_at es t = sum_list (map snd (filter (\<lambda>e. fst e \<le> t) es))"

lemma level_at_eq: "level_at es t = (\<Sum>e \<in># filter_mset (\<lambda>e. fst e \<le> t) (mset es). snd e)"
  by (simp add: level_at_def sum_mset_sum_list flip: mset_filter mset_map)

lemma level_at_mset: "mset es = mset fs \<Longrightarrow> level_at es t = level_at fs t"
  by (simp add: level_at_eq)

lemma level_at_append: "level_at (es @ fs) t = level_at es t + level_at fs t"
  by (simp add: level_at_def)

lemma level_at_sorted:
  assumes "sorted es"
  shows "level_at es t = sum_list (map snd (takeWhile (\<lambda>e. fst e \<le> t) es))"
proof -
  have "filter (\<lambda>e. fst e \<le> t) es = takeWhile (\<lambda>e. fst e \<le> t) es"
    using assms
  proof (induction es)
    case (Cons e es)
    have "filter (\<lambda>e. fst e \<le> t) es = []" if "\<not> fst e \<le> t"
      using Cons.prems that by (fastforce simp: filter_empty_conv less_eq_prod_def)
    then show ?case using Cons by auto
  qed simp
  then show ?thesis by (simp add: level_at_def)
qed

text \<open>In the order of the events, every partial sum is bounded by a level, because the decreases of
  an instant come before its increases.\<close>

lemma prefix_sum_bounded:
  assumes "sorted es" "es = us @ vs" "0 \<le> C" "\<And>t. level_at es t \<le> C"
  shows "sum_list (map snd us) \<le> C"
  using assms(2)
proof (induction us arbitrary: vs rule: rev_induct)
  case (snoc e us)
  show ?case
  proof (cases "snd e \<le> 0")
    case True
    then show ?thesis using snoc.IH[of "e # vs"] snoc.prems by simp
  next
    case False
    have so: "sorted (us @ e # vs)" using assms(1) snoc.prems by simp
    have up: "0 \<le> snd f" if "f \<in> set vs" "fst f \<le> fst e" for f
      using so that False by (fastforce simp: sorted_append less_eq_prod_def)
    have low: "fst f \<le> fst e" if "f \<in> set us" for f
      using so that by (fastforce simp: sorted_append less_eq_prod_def)
    have "level_at es (fst e) = sum_list (map snd us) + snd e + level_at vs (fst e)"
      using low by (simp add: snoc.prems level_at_def)
    moreover have "0 \<le> level_at vs (fst e)"
      unfolding level_at_def using up by (intro sum_list_nonneg) auto
    ultimately show ?thesis using assms(4)[of "fst e"] by simp
  qed
qed (simp add: assms(3))

lemma prefix_sums_iff_levels:
  assumes "sorted es" "0 \<le> C"
  shows "(\<forall>us vs. es = us @ vs \<longrightarrow> sum_list (map snd us) \<le> C) \<longleftrightarrow> (\<forall>t. level_at es t \<le> C)"
proof
  assume p: "\<forall>us vs. es = us @ vs \<longrightarrow> sum_list (map snd us) \<le> C"
  show "\<forall>t. level_at es t \<le> C"
    unfolding level_at_sorted[OF assms(1)] using p takeWhile_dropWhile_id by metis
qed (use prefix_sum_bounded assms in blast)

lemma cumulative_loop_prefixes:
  assumes "\<And>us vs. es = us @ vs \<Longrightarrow> in_int64 (c + sum_list (map snd us))"
  shows "cumulative_loop C c es \<longleftrightarrow>
    (\<forall>us vs. es = us @ vs \<longrightarrow> us \<noteq> [] \<longrightarrow> c + sum_list (map snd us) \<le> C)"
  using assms
proof (induction es arbitrary: c)
  case (Cons e es)
  obtain t d where e: "e = (t, d)" by (cases e)
  have w: "wrap64 (c + d) = c + d" using Cons.prems[of "[e]" es] by (simp add: e)
  have ih: "cumulative_loop C (c + d) es \<longleftrightarrow>
      (\<forall>us vs. es = us @ vs \<longrightarrow> us \<noteq> [] \<longrightarrow> c + d + sum_list (map snd us) \<le> C)"
  proof (rule Cons.IH)
    show "in_int64 (c + d + sum_list (map snd us))" if "es = us @ vs" for us vs
      using Cons.prems[of "e # us" vs] that by (simp add: e add.assoc)
  qed
  have "(\<forall>us vs. e # es = us @ vs \<longrightarrow> us \<noteq> [] \<longrightarrow> c + sum_list (map snd us) \<le> C) \<longleftrightarrow>
      c + d \<le> C \<and> (\<forall>us vs. es = us @ vs \<longrightarrow> us \<noteq> [] \<longrightarrow> c + d + sum_list (map snd us) \<le> C)"
    (is "?L \<longleftrightarrow> ?R")
  proof
    assume L: ?L
    have "c + d \<le> C" using L[rule_format, of "[e]" es] by (simp add: e)
    moreover have "c + d + sum_list (map snd us) \<le> C" if "es = us @ vs" for us vs
      using L[rule_format, of "e # us" vs] that by (simp add: e add.assoc)
    ultimately show ?R by blast
  next
    assume R: ?R
    show ?L
    proof (intro allI impI)
      fix us vs assume "e # es = us @ vs" "us \<noteq> []"
      then obtain us' where us: "us = e # us'" "es = us' @ vs" by (cases us) auto
      show "c + sum_list (map snd us) \<le> C"
        using R us by (cases "us' = []") (auto simp: e add.assoc)
    qed
  qed
  then show ?case using ih w by (simp add: e Let_def not_less)
qed simp

text \<open>The load never exceeds the capacity, at any time.\<close>

lemma cumulative_loop_spec:
  assumes "0 \<le> C" "\<And>us vs. sort es = us @ vs \<Longrightarrow> in_int64 (sum_list (map snd us))"
  shows "cumulative_loop C 0 (sort es) \<longleftrightarrow> (\<forall>t. level_at es t \<le> C)"
proof -
  have "cumulative_loop C 0 (sort es) \<longleftrightarrow>
      (\<forall>us vs. sort es = us @ vs \<longrightarrow> us \<noteq> [] \<longrightarrow> 0 + sum_list (map snd us) \<le> C)"
    by (rule cumulative_loop_prefixes) (simp add: assms(2))
  also have "\<dots> \<longleftrightarrow> (\<forall>us vs. sort es = us @ vs \<longrightarrow> sum_list (map snd us) \<le> C)"
    using assms(1) by auto
  also have "\<dots> \<longleftrightarrow> (\<forall>t. level_at (sort es) t \<le> C)"
    by (rule prefix_sums_iff_levels) (simp_all add: assms(1))
  also have "\<dots> \<longleftrightarrow> (\<forall>t. level_at es t \<le> C)"
    using level_at_mset[of "sort es" es] by simp
  finally show ?thesis .
qed

text \<open>A task contributes its demand while it runs.\<close>

definition task_events :: "int \<times> int \<times> int \<Rightarrow> (int \<times> int) list" where
  "task_events = (\<lambda>(s, p, d). if p = 0 \<or> d = 0 then [] else [(s, d), (s + p, - d)])"

definition task_load :: "(int \<times> int \<times> int) list \<Rightarrow> int \<Rightarrow> int" where
  "task_load tasks t = sum_list (map (\<lambda>(s, p, d). if s \<le> t \<and> t < s + p then d else 0) tasks)"

lemma level_at_task_events:
  assumes "\<forall>(s, p, d) \<in> set tasks. 0 \<le> p"
  shows "level_at (concat (map task_events tasks)) t = task_load tasks t"
  using assms
proof (induction tasks)
  case Nil
  then show ?case by (simp add: level_at_def task_load_def)
next
  case (Cons a tasks)
  obtain s p d where a: "a = (s, p, d)" by (cases a)
  have "level_at (task_events a) t = (if s \<le> t \<and> t < s + p then d else 0)"
    using Cons.prems by (auto simp: a task_events_def level_at_def)
  then show ?case using Cons by (simp add: level_at_append task_load_def a)
qed

lemma sub_event_sums:
  assumes "\<forall>(s, p, d) \<in> set tasks. 0 \<le> d" "mset us \<subseteq># mset (concat (map task_events tasks))"
  shows "\<bar>sum_list (map snd us)\<bar> \<le> sum_list (map (\<lambda>(s, p, d). d) tasks)"
proof -
  let ?es = "concat (map task_events tasks)"
  have pos: "sum_list (map (\<lambda>e. max 0 (snd e)) ?es) \<le> sum_list (map (\<lambda>(s, p, d). d) tasks)"
    and neg: "sum_list (map (\<lambda>e. max 0 (- snd e)) ?es) \<le> sum_list (map (\<lambda>(s, p, d). d) tasks)"
    using assms(1) by (induction tasks) (auto simp: task_events_def)
  obtain rs where "mset ?es = mset (us @ rs)"
    using assms(2) by (metis ex_mset mset_append subset_mset.add_diff_inverse)
  then have sum: "sum_list (map f ?es) = sum_list (map f us) + sum_list (map f rs)" for f :: "_ \<Rightarrow> int"
    by (metis map_append mset_map sum_list_append sum_mset_sum_list)
  have nn: "0 \<le> sum_list (map (\<lambda>e. max 0 (snd e)) rs)" "0 \<le> sum_list (map (\<lambda>e. max 0 (- snd e)) rs)"
    for rs :: "(int \<times> int) list"
    by (intro sum_list_nonneg; auto)+
  have split: "sum_list (map snd us) = sum_list (map (\<lambda>e. max 0 (snd e)) us) - sum_list (map (\<lambda>e. max 0 (- snd e)) us)"
    for us :: "(int \<times> int) list"
    by (induction us) auto
  show ?thesis using pos neg sum[of "\<lambda>e. max 0 (snd e)"] sum[of "\<lambda>e. max 0 (- snd e)"] nn[of rs] nn[of us] split[of us]
    by linarith
qed

section \<open>Reservoir\<close>

definition abs_sum :: "(int \<times> int) list \<Rightarrow> int" where
  "abs_sum es = sum_list (map (\<lambda>e. \<bar>snd e\<bar>) es)"

lemma abs_sum_simps [simp]: "abs_sum [] = 0" "abs_sum (e # es) = \<bar>snd e\<bar> + abs_sum es"
  by (simp_all add: abs_sum_def)

lemma abs_sum_nonneg: "0 \<le> abs_sum es"
  by (induction es) simp_all

abbreviation keys_sorted :: "(int \<times> int) list \<Rightarrow> bool" where
  "keys_sorted m \<equiv> sorted_wrt (\<lambda>p q. fst p < fst q) m"

lemma btree_add_spec:
  assumes "keys_sorted m" "abs_sum m + \<bar>d\<bar> \<le> kint64max"
  shows "keys_sorted (btree_add m t d)" "abs_sum (btree_add m t d) \<le> abs_sum m + \<bar>d\<bar>"
    "level_at (btree_add m t d) u = level_at m u + (if t \<le> u then d else 0)"
    "fst ` set (btree_add m t d) = insert t (fst ` set m)"
proof -
  have "keys_sorted (btree_add m t d) \<and> abs_sum (btree_add m t d) \<le> abs_sum m + \<bar>d\<bar> \<and>
    level_at (btree_add m t d) u = level_at m u + (if t \<le> u then d else 0) \<and>
    fst ` set (btree_add m t d) = insert t (fst ` set m)"
    using assms
  proof (induction m)
    case Nil
    then show ?case by (simp add: level_at_def)
  next
    case (Cons p m)
    obtain v e where p: "p = (v, e)" by (cases p)
    have ks: "keys_sorted m" "\<forall>q \<in> set m. v < fst q" using Cons.prems(1) by (auto simp: p)
    consider "t < v" | "t = v" | "v < t" by linarith
    then show ?case
    proof cases
      case 1
      then show ?thesis using Cons.prems by (auto simp: p level_at_def)
    next
      case 2
      have "in_int64 (e + d)"
        using Cons.prems(2) abs_sum_nonneg[of m] unfolding p in_int64_def abs_sum_simps snd_conv by linarith
      then show ?thesis using 2 Cons.prems ks by (auto simp: p level_at_def)
    next
      case 3
      have ih: "keys_sorted (btree_add m t d)" "abs_sum (btree_add m t d) \<le> abs_sum m + \<bar>d\<bar>"
        "level_at (btree_add m t d) u = level_at m u + (if t \<le> u then d else 0)"
        "fst ` set (btree_add m t d) = insert t (fst ` set m)"
        using Cons.IH[OF ks(1)] Cons.prems(2) by (simp_all add: p)
      have "\<forall>q \<in> set (btree_add m t d). v < fst q"
      proof
        fix q assume "q \<in> set (btree_add m t d)"
        then have "fst q \<in> insert t (fst ` set m)" using ih(4) by blast
        then show "v < fst q" using ks(2) 3 by auto
      qed
      then show ?thesis using 3 ih by (auto simp: p level_at_def)
    qed
  qed
  then show "keys_sorted (btree_add m t d)" "abs_sum (btree_add m t d) \<le> abs_sum m + \<bar>d\<bar>"
    "level_at (btree_add m t d) u = level_at m u + (if t \<le> u then d else 0)"
    "fst ` set (btree_add m t d) = insert t (fst ` set m)" by simp_all
qed

lemma btree_fold_spec:
  assumes "keys_sorted m" "abs_sum m + abs_sum es \<le> kint64max"
  defines "m' \<equiv> foldl (\<lambda>m (t, d). btree_add m t d) m es"
  shows "keys_sorted m'" "abs_sum m' \<le> abs_sum m + abs_sum es" "level_at m' u = level_at m u + level_at es u"
  using assms(1,2) unfolding m'_def
proof (induction es arbitrary: m)
  case (Cons e es)
  case 1
  obtain t d where e: "e = (t, d)" by (cases e)
  have b: "abs_sum m + \<bar>d\<bar> \<le> kint64max" using 1(2) abs_sum_nonneg[of es] by (simp add: e)
  note a = btree_add_spec[OF 1(1) b]
  from Cons(1)[of "btree_add m t d"] a(1,2)[of t] 1(2) show ?case by (simp add: e)
next
  case (Cons e es)
  case 2
  obtain t d where e: "e = (t, d)" by (cases e)
  have b: "abs_sum m + \<bar>d\<bar> \<le> kint64max" using 2(2) abs_sum_nonneg[of es] by (simp add: e)
  note a = btree_add_spec[OF 2(1) b]
  from Cons(2)[of "btree_add m t d"] a(1,2)[of t] 2(2) show ?case by (simp add: e)
next
  case (Cons e es)
  case 3
  obtain t d where e: "e = (t, d)" by (cases e)
  have b: "abs_sum m + \<bar>d\<bar> \<le> kint64max" using 3(2) abs_sum_nonneg[of es] by (simp add: e)
  note a = btree_add_spec[OF 3(1) b]
  from Cons(3)[of "btree_add m t d"] a(1,2,3)[of t] 3(2) show ?case by (simp add: e level_at_def)
qed (simp_all add: level_at_def)

lemma level_at_keys_sorted:
  assumes "keys_sorted m"
  shows "level_at m t = sum_list (map snd (takeWhile (\<lambda>e. fst e \<le> t) m))"
proof -
  have "sorted m" using assms by (rule sorted_wrt_mono_rel[rotated]) (auto simp: less_eq_prod_def)
  then show ?thesis by (rule level_at_sorted)
qed

lemma keys_sorted_prefix_level:
  assumes "keys_sorted (us @ e # vs)"
  shows "sum_list (map snd (us @ [e])) = level_at (us @ e # vs) (fst e)"
proof -
  have "\<forall>q \<in> set us. fst q \<le> fst e" "\<forall>q \<in> set vs. \<not> fst q \<le> fst e"
    using assms by (auto simp: sorted_wrt_append)
  then show ?thesis by (simp add: level_at_def filter_empty_conv)
qed

lemma reservoir_loop_prefixes:
  assumes "\<And>us vs. m = us @ vs \<Longrightarrow> in_int64 (c + sum_list (map snd us))"
  shows "reservoir_loop lo hi c m \<longleftrightarrow>
    (\<forall>us e vs. m = us @ e # vs \<longrightarrow> lo \<le> c + sum_list (map snd (us @ [e])) \<and> c + sum_list (map snd (us @ [e])) \<le> hi)"
  using assms
proof (induction m arbitrary: c)
  case (Cons p m)
  obtain t d where p: "p = (t, d)" by (cases p)
  have w: "wrap64 (c + d) = c + d" using Cons.prems[of "[p]" m] by (simp add: p)
  have ih: "reservoir_loop lo hi (c + d) m \<longleftrightarrow> (\<forall>us e vs. m = us @ e # vs \<longrightarrow>
      lo \<le> c + d + sum_list (map snd (us @ [e])) \<and> c + d + sum_list (map snd (us @ [e])) \<le> hi)"
  proof (rule Cons.IH)
    show "in_int64 (c + d + sum_list (map snd us))" if "m = us @ vs" for us vs
      using Cons.prems[of "p # us" vs] that by (simp add: p add.assoc)
  qed
  have "(\<forall>us e vs. p # m = us @ e # vs \<longrightarrow> P (us @ [e])) \<longleftrightarrow>
      P [p] \<and> (\<forall>us e vs. m = us @ e # vs \<longrightarrow> P (p # us @ [e]))" for P
  proof
    assume l: "\<forall>us e vs. p # m = us @ e # vs \<longrightarrow> P (us @ [e])"
    show "P [p] \<and> (\<forall>us e vs. m = us @ e # vs \<longrightarrow> P (p # us @ [e]))"
      using l[rule_format, of "[]" p m] l[rule_format, of "p # _"] by simp
  next
    assume r: "P [p] \<and> (\<forall>us e vs. m = us @ e # vs \<longrightarrow> P (p # us @ [e]))"
    show "\<forall>us e vs. p # m = us @ e # vs \<longrightarrow> P (us @ [e])"
    proof (intro allI impI)
      fix us e vs assume "p # m = us @ e # vs"
      then consider "us = []" "p = e" | us' where "us = p # us'" "m = us' @ e # vs" by (cases us) auto
      then show "P (us @ [e])"
      proof cases
        case 1
        then show ?thesis using r by simp
      next
        case (2 us')
        then show ?thesis using r[THEN conjunct2, rule_format, of us' e vs] by simp
      qed
    qed
  qed
  from this[of "\<lambda>l. lo \<le> c + sum_list (map snd l) \<and> c + sum_list (map snd l) \<le> hi"]
  show ?case using ih w by (simp add: p Let_def not_less add.assoc conj_assoc)
qed simp

lemma abs_sum_prefix: "\<bar>sum_list (map snd us)\<bar> \<le> abs_sum (us @ vs)"
  using abs_sum_nonneg[of vs] by (induction us) (auto simp: abs_sum_def)

text \<open>The level stays between its bounds at all times.\<close>

lemma reservoir_loop_spec:
  assumes "abs_sum es \<le> kint64max" "lo \<le> 0" "0 \<le> hi"
  shows "reservoir_loop lo hi 0 (foldl (\<lambda>m (t, d). btree_add m t d) [] es) \<longleftrightarrow>
    (\<forall>t. lo \<le> level_at es t \<and> level_at es t \<le> hi)"
proof -
  define m where "m = foldl (\<lambda>m (t, d). btree_add m t d) [] es"
  have m: "keys_sorted m" "abs_sum m \<le> abs_sum es" "\<And>t. level_at m t = level_at es t"
    using btree_fold_spec[of "[]" es] assms(1) by (simp_all add: m_def level_at_def)
  have "reservoir_loop lo hi 0 m \<longleftrightarrow>
    (\<forall>us e vs. m = us @ e # vs \<longrightarrow> lo \<le> 0 + sum_list (map snd (us @ [e])) \<and> 0 + sum_list (map snd (us @ [e])) \<le> hi)"
  proof (rule reservoir_loop_prefixes)
    show "in_int64 (0 + sum_list (map snd us))" if "m = us @ vs" for us vs
      using abs_sum_prefix[of us vs] m(2) assms(1) unfolding that in_int64_def by linarith
  qed
  also have "\<dots> \<longleftrightarrow> (\<forall>t. lo \<le> level_at m t \<and> level_at m t \<le> hi)"
  proof
    assume p: "\<forall>us e vs. m = us @ e # vs \<longrightarrow> lo \<le> 0 + sum_list (map snd (us @ [e])) \<and> 0 + sum_list (map snd (us @ [e])) \<le> hi"
    show "\<forall>t. lo \<le> level_at m t \<and> level_at m t \<le> hi"
    proof
      fix t
      let ?us = "takeWhile (\<lambda>e. fst e \<le> t) m"
      have l: "level_at m t = sum_list (map snd ?us)" by (rule level_at_keys_sorted[OF m(1)])
      show "lo \<le> level_at m t \<and> level_at m t \<le> hi"
      proof (cases ?us rule: rev_cases)
        case Nil
        then show ?thesis using l assms(2,3) by simp
      next
        case (snoc us e)
        then have "m = us @ e # dropWhile (\<lambda>e. fst e \<le> t) m" by (metis append.assoc append_Cons append_Nil takeWhile_dropWhile_id)
        then show ?thesis using p l snoc by (metis add_0)
      qed
    qed
  next
    assume l: "\<forall>t. lo \<le> level_at m t \<and> level_at m t \<le> hi"
    then show "\<forall>us e vs. m = us @ e # vs \<longrightarrow> lo \<le> 0 + sum_list (map snd (us @ [e])) \<and> 0 + sum_list (map snd (us @ [e])) \<le> hi"
      using keys_sorted_prefix_level m(1) by (metis add_0)
  qed
  finally show ?thesis by (simp add: m(3) flip: m_def)
qed

section \<open>Tables, automata and inverses\<close>

lemma row_matches_eq: "row_matches sol vs \<longleftrightarrow> (\<exists>rest. vs = sol @ rest)"
  by (induction sol vs rule: row_matches.induct) auto

text \<open>The rows of the flat list of values.\<close>

function rows_of :: "nat \<Rightarrow> 'a list \<Rightarrow> 'a list list" where
  "rows_of n vs = (if n = 0 \<or> vs = [] then [] else take n vs # rows_of n (drop n vs))"
  by pat_completeness auto
termination
  by (relation "measure (\<lambda>(n, vs). length vs)") auto

declare rows_of.simps [simp del]

lemma table_rows_eq:
  assumes "sol \<noteq> []" "length sol dvd length vs"
  shows "table_rows sol vs \<longleftrightarrow> sol \<in> set (rows_of (length sol) vs)"
  using assms
proof (induction sol vs rule: table_rows.induct)
  case (1 sol vs)
  show ?case
  proof (cases "vs = []")
    case True
    then show ?thesis by (simp add: table_rows.simps rows_of.simps)
  next
    case False
    have len: "length sol \<le> length vs" using "1.prems"(2) False by (simp add: dvd_imp_le)
    have "row_matches sol vs \<longleftrightarrow> take (length sol) vs = sol"
      using len by (auto simp: row_matches_eq) (metis append_take_drop_id)
    moreover have "length sol dvd length (drop (length sol) vs)" using "1.prems"(2) by simp
    ultimately show ?thesis using "1.IH" "1.prems"(1) False
      by (subst table_rows.simps, subst rows_of.simps) auto
  qed
qed

text \<open>A run of the automaton: the states it goes through.\<close>

fun automaton_run :: "(int \<times> int \<Rightarrow> int option) \<Rightarrow> int \<Rightarrow> int list \<Rightarrow> int list \<Rightarrow> bool" where
  "automaton_run m q [] [] \<longleftrightarrow> True"
| "automaton_run m q (l # ls) (r # rs) \<longleftrightarrow> m (q, l) = Some r \<and> automaton_run m r ls rs"
| "automaton_run m q _ _ \<longleftrightarrow> False"

lemma automaton_run_Cons:
  "automaton_run m q (l # ls) qs \<longleftrightarrow>
    (\<exists>q' qs'. qs = q' # qs' \<and> m (q, l) = Some q' \<and> automaton_run m q' ls qs')"
  by (cases qs) simp_all

lemma automaton_run_Nil: "automaton_run m q [] qs \<longleftrightarrow> qs = []"
  by (cases qs) simp_all

lemma automaton_walk_iff_run:
  "automaton_walk m q ls = Some r \<longleftrightarrow> (\<exists>qs. automaton_run m q ls qs \<and> r = last (q # qs))"
proof (induction ls arbitrary: q)
  case Nil
  then show ?case by (auto simp: automaton_run_Nil)
next
  case (Cons l ls)
  show ?case
  proof (cases "m (q, l)")
    case None
    then show ?thesis unfolding automaton_run_Cons by simp
  next
    case (Some q')
    then have "(\<exists>qs. automaton_run m q (l # ls) qs \<and> r = last (q # qs)) \<longleftrightarrow>
        (\<exists>qs'. automaton_run m q' ls qs' \<and> r = last (q' # qs'))"
      unfolding automaton_run_Cons by (metis last_ConsR list.discI option.inject)
    then show ?thesis using Some Cons.IH[of q'] by simp
  qed
qed

text \<open>With no two transitions for the same tail and label the map holds exactly the transitions.\<close>

lemma foldl_transition_map:
  assumes "distinct (map (\<lambda>(t, h, l). (t, l)) arcs)" "\<forall>(t, h, l) \<in> set arcs. m (t, l) = None"
  shows "foldl (\<lambda>m (tail, head, label). m((tail, label) \<mapsto> head)) m arcs (q, l) = Some r \<longleftrightarrow>
    m (q, l) = Some r \<or> (q, r, l) \<in> set arcs"
  using assms
proof (induction arcs arbitrary: m)
  case (Cons a arcs)
  obtain t h k where a: "a = (t, h, k)" by (cases a)
  define m1 where "m1 = m((t, k) \<mapsto> h)"
  have "\<forall>(u, g, j) \<in> set arcs. m1 (u, j) = None"
    using Cons.prems by (force simp: a m1_def)
  moreover have "distinct (map (\<lambda>(t, h, l). (t, l)) arcs)" using Cons.prems(1) by (simp add: a)
  ultimately have ih: "foldl (\<lambda>m (tail, head, label). m((tail, label) \<mapsto> head)) m1 arcs (q, l) = Some r \<longleftrightarrow>
      m1 (q, l) = Some r \<or> (q, r, l) \<in> set arcs"
    by (intro Cons.IH)
  have n: "m (t, k) = None" "(t, l', k) \<notin> set arcs" for l'
    using Cons.prems by (force simp: a)+
  have step: "foldl (\<lambda>m (tail, head, label). m((tail, label) \<mapsto> head)) m (a # arcs) =
      foldl (\<lambda>m (tail, head, label). m((tail, label) \<mapsto> head)) m1 arcs"
    by (simp only: a m1_def foldl_Cons prod.case)
  show ?case unfolding step ih using n by (auto simp: a m1_def)
qed simp

text \<open>A left inverse on a finite range is an inverse: the comment of the code says it is sufficient
  to check one side.\<close>

lemma inverse_loop_iff:
  "inverse_loop d b n is \<longleftrightarrow> (\<forall>i \<in> set is. 0 \<le> wrap32 (d i) \<and> wrap32 (d i) < n \<and> b (wrap32 (d i)) = i)"
  by (induction "is") (auto simp: Let_def not_less not_le)

lemma left_inverse_sufficient:
  assumes "\<And>i. 0 \<le> i \<Longrightarrow> i < n \<Longrightarrow> 0 \<le> d i \<and> d i < n \<and> b (d i) = (i :: int)"
    "0 \<le> i" "i < n" "0 \<le> j" "j < n"
  shows "d i = j \<longleftrightarrow> b j = i"
proof -
  have inj: "inj_on d {0..<n}" by (rule inj_on_inverseI[where g = b]) (use assms(1) in auto)
  have "d ` {0..<n} = {0..<n}"
  proof (rule card_subset_eq)
    show "d ` {0..<n} \<subseteq> {0..<n}" using assms(1) by auto
    show "card (d ` {0..<n}) = card {0..<n}" by (rule card_image[OF inj])
  qed simp
  then have "j \<in> d ` {0..<n}" using assms(4,5) by simp
  then obtain k where k: "0 \<le> k" "k < n" "d k = j" by auto
  then have "b j = k" using assms(1) by blast
  then show ?thesis using k inj assms(2,3) assms(1)[of i] by (metis)
qed

end
