(* ===== verification/RoutesWalk.thy ===== *)
theory RoutesWalk
  imports CircuitWalk
begin

text \<open>
  Correctness of \<open>RoutesConstraintIsFeasible\<close> (\<open>or-tools/ortools/sat/cp_model_checker.cc\<close>): the walks
  from the depot always stop, and the counters accept exactly the assignments in which every other
  node is visited by one route or is left out by a self-loop.
\<close>

section \<open>The loop over the arcs\<close>

text \<open>The arcs that the loop accepts: at most one out of and one into each node but the depot, and no
  self-loop on the depot.\<close>

definition legal :: "(int32 \<times> int32) list \<Rightarrow> bool" where
  "legal u \<longleftrightarrow> distinct (filter (\<lambda>n. n \<noteq> 0) (map fst u)) \<and> distinct (filter (\<lambda>n. n \<noteq> 0) (map snd u)) \<and> (0, 0) \<notin> set u"

definition routes_inv :: "routes_state \<Rightarrow> (int32 \<times> int32) list \<Rightarrow> bool" where
  "routes_inv s u \<longleftrightarrow>
     rs_outgoing s = {t \<in> fst ` set u. t \<noteq> 0} \<and> rs_incoming s = {h \<in> snd ` set u. h \<noteq> 0} \<and>
     rs_num_self_arcs s = int (length (filter (\<lambda>(t, h). t = h) u)) \<and>
     rs_num_used_arcs s = int (length (filter (\<lambda>(t, h). t \<noteq> h) u)) \<and>
     rs_depot_nexts s = map snd (filter (\<lambda>(t, h). t = 0) u) \<and>
     (\<forall>t h. t \<noteq> 0 \<longrightarrow> (t, h) \<in> set u \<longrightarrow> t \<noteq> h \<longrightarrow> rs_tail_to_head s t = h) \<and>
     (\<forall>t. (\<forall>h. (t, h) \<in> set u \<longrightarrow> t = 0 \<or> t = h) \<longrightarrow> rs_tail_to_head s t = - 1)"

lemma legal_snoc:
  "legal (u @ [(t, h)]) \<longleftrightarrow> legal u \<and> (t \<noteq> 0 \<longrightarrow> t \<notin> fst ` set u) \<and> (h \<noteq> 0 \<longrightarrow> h \<notin> snd ` set u) \<and> \<not> (t = 0 \<and> h = 0)"
  by (auto simp: legal_def)

lemma routes_arc_Inl:
  assumes "routes_inv s u" "legal u" "0 \<le> t" "0 \<le> h"
  shows "routes_arc s t h = Inl e \<longleftrightarrow> \<not> e \<and> \<not> legal (u @ [(t, h)])"
  using assms by (auto simp: routes_arc_def routes_inv_def legal_snoc Let_def)

lemma routes_arc_Inr:
  assumes inv: "routes_inv s u" and leg: "legal u" and r: "routes_arc s t h = Inr s'" and nn: "0 \<le> t" "0 \<le> h"
  shows "routes_inv s' (u @ [(t, h)])"
proof -
  have ok: "t \<noteq> 0 \<Longrightarrow> t \<notin> fst ` set u" "h \<noteq> 0 \<Longrightarrow> h \<notin> snd ` set u" "\<not> (t = 0 \<and> h = 0)"
    using routes_arc_Inl[OF inv leg nn, of False] r by (auto simp: legal_snoc)
  have fresh: "rs_tail_to_head s t = - 1" if "t \<noteq> 0"
  proof -
    have "(t, h') \<notin> set u" for h' using ok(1)[OF that] by (metis fst_conv image_eqI)
    then show ?thesis using inv unfolding routes_inv_def by blast
  qed
  note i = inv[unfolded routes_inv_def]
  define s2 where "s2 = s\<lparr> rs_outgoing := (if t \<noteq> 0 then insert t (rs_outgoing s) else rs_outgoing s),
    rs_incoming := (if h \<noteq> 0 then insert h (rs_incoming s) else rs_incoming s) \<rparr>"
  have s': "s' = (if t = h then s2\<lparr> rs_num_self_arcs := rs_num_self_arcs s + 1 \<rparr>
      else if t = 0 then s2\<lparr> rs_num_used_arcs := rs_num_used_arcs s + 1, rs_depot_nexts := rs_depot_nexts s @ [h] \<rparr>
      else s2\<lparr> rs_num_used_arcs := rs_num_used_arcs s + 1, rs_tail_to_head := (rs_tail_to_head s)(t := h) \<rparr>)"
    using r by (cases "t = 0"; cases "h = 0"; cases "t = h")
      (simp_all add: routes_arc_def Let_def s2_def split: if_split_asm)
  have sets: "{t' \<in> fst ` set (u @ [(t, h)]). t' \<noteq> 0} = (if t \<noteq> 0 then insert t {t' \<in> fst ` set u. t' \<noteq> 0} else {t' \<in> fst ` set u. t' \<noteq> 0})"
    "{h' \<in> snd ` set (u @ [(t, h)]). h' \<noteq> 0} = (if h \<noteq> 0 then insert h {h' \<in> snd ` set u. h' \<noteq> 0} else {h' \<in> snd ` set u. h' \<noteq> 0})"
    by auto
  have fields: "rs_outgoing s' = {t' \<in> fst ` set (u @ [(t, h)]). t' \<noteq> 0}" "rs_incoming s' = {h' \<in> snd ` set (u @ [(t, h)]). h' \<noteq> 0}"
    "rs_num_self_arcs s' = int (length (filter (\<lambda>(t, h). t = h) (u @ [(t, h)])))"
    "rs_num_used_arcs s' = int (length (filter (\<lambda>(t, h). t \<noteq> h) (u @ [(t, h)])))"
    "rs_depot_nexts s' = map snd (filter (\<lambda>(t, h). t = 0) (u @ [(t, h)]))"
    "rs_tail_to_head s' = (if t = h \<or> t = 0 then rs_tail_to_head s else (rs_tail_to_head s)(t := h))"
    unfolding s' sets using i[THEN conjunct1] i[THEN conjunct2, THEN conjunct1] i[THEN conjunct2, THEN conjunct2, THEN conjunct1]
      i[THEN conjunct2, THEN conjunct2, THEN conjunct2, THEN conjunct1]
      i[THEN conjunct2, THEN conjunct2, THEN conjunct2, THEN conjunct2, THEN conjunct1] ok(3)
    by (simp_all add: s2_def)
  have next1: "rs_tail_to_head s' t' = h'" if "t' \<noteq> 0" "(t', h') \<in> set (u @ [(t, h)])" "t' \<noteq> h'" for t' h'
  proof (cases "t' = t")
    case True
    then have "(t', h') \<notin> set u" using ok(1) that(1) by (metis fst_conv image_eqI)
    then show ?thesis using that True unfolding fields(6) by auto
  next
    case False
    then have "(t', h') \<in> set u" using that(2) by simp
    then have "rs_tail_to_head s t' = h'" using i that(1,3) by blast
    then show ?thesis using False unfolding fields(6) by simp
  qed
  have next2: "rs_tail_to_head s' t' = - 1" if "\<forall>h'. (t', h') \<in> set (u @ [(t, h)]) \<longrightarrow> t' = 0 \<or> t' = h'" for t'
  proof -
    have "rs_tail_to_head s t' = - 1" using that i by simp
    moreover have "t' = t \<Longrightarrow> t = h \<or> t = 0" using that by auto
    ultimately show ?thesis unfolding fields(6) by auto
  qed
  show ?thesis unfolding routes_inv_def using fields(1-5) next1 next2 by blast
qed

lemma routes_arcs_loop_spec:
  assumes "routes_inv s u" "legal u" "\<And>t h l. (t, h, l) \<in> set arcs \<Longrightarrow> 0 \<le> t \<and> 0 \<le> h"
  shows "routes_arcs_loop x s arcs = Inl e \<longleftrightarrow> \<not> e \<and> \<not> legal (u @ used_arcs x arcs)"
    "routes_arcs_loop x s arcs = Inr s' \<Longrightarrow> routes_inv s' (u @ used_arcs x arcs)"
proof -
  have legal_prefix: "legal (u @ v) \<Longrightarrow> legal u" for u v by (auto simp: legal_def)
  have "(\<forall>e. routes_arcs_loop x s arcs = Inl e \<longleftrightarrow> \<not> e \<and> \<not> legal (u @ used_arcs x arcs)) \<and>
    (\<forall>s'. routes_arcs_loop x s arcs = Inr s' \<longrightarrow> routes_inv s' (u @ used_arcs x arcs))"
    using assms
  proof (induction arcs arbitrary: s u)
    case (Cons arc arcs)
    obtain t h l where arc: "arc = (t, h, l)" by (cases arc)
    have nn: "0 \<le> t" "0 \<le> h" using Cons.prems(3)[of t h l] arc by simp_all
    have rest: "\<And>t h l. (t, h, l) \<in> set arcs \<Longrightarrow> 0 \<le> t \<and> 0 \<le> h"
      by (rule Cons.prems(3), rule list.set_intros(2))
    show ?case
    proof (cases "LiteralIsTrue x l")
      case False
      then show ?thesis using Cons.IH[OF Cons.prems(1,2) rest] by (simp add: arc)
    next
      case lit: True
      have split: "u @ used_arcs x (arc # arcs) = (u @ [(t, h)]) @ used_arcs x arcs" using lit by (simp add: arc)
      show ?thesis
      proof (cases "routes_arc s t h")
        case (Inl e)
        then have "\<not> e" "\<not> legal (u @ [(t, h)])" using routes_arc_Inl[OF Cons.prems(1,2) nn] by blast+
        then have "\<not> legal ((u @ [(t, h)]) @ used_arcs x arcs)" using legal_prefix by blast
        then show ?thesis using Inl lit \<open>\<not> e\<close> unfolding split by (auto simp: arc)
      next
        case (Inr s1)
        have "routes_inv s1 (u @ [(t, h)])" by (rule routes_arc_Inr[OF Cons.prems(1,2) Inr nn])
        moreover have "legal (u @ [(t, h)])" using routes_arc_Inl[OF Cons.prems(1,2) nn, of False] Inr by simp
        ultimately show ?thesis using Cons.IH[of s1 "u @ [(t, h)]"] Inr rest lit unfolding split by (simp add: arc)
      qed
    qed
  qed simp
  then show "routes_arcs_loop x s arcs = Inl e \<longleftrightarrow> \<not> e \<and> \<not> legal (u @ used_arcs x arcs)"
    "routes_arcs_loop x s arcs = Inr s' \<Longrightarrow> routes_inv s' (u @ used_arcs x arcs)" by blast+
qed

lemma routes_inv_init: "routes_inv routes_init []" "legal []"
  by (simp_all add: routes_inv_def routes_init_def legal_def)

lemmas routes_loop = routes_arcs_loop_spec[OF routes_inv_init, simplified]

section \<open>The walks\<close>

text \<open>The nodes with a next are in a finite set; the nexts of different nodes are different unless they are
  the depot, and never a node that the depot leads to.\<close>

locale route_nexts =
  fixes f :: "int32 \<Rightarrow> int32" and starts :: "int32 set" and T :: "int32 set"
  assumes nexts: "finite T" "0 \<notin> T" "n \<in> T \<longleftrightarrow> n \<noteq> 0 \<and> f n \<noteq> - 1"
    and injective: "a \<in> T \<Longrightarrow> b \<in> T \<Longrightarrow> f a = f b \<Longrightarrow> f a \<noteq> 0 \<Longrightarrow> a = b"
    and not_start: "a \<in> T \<Longrightarrow> f a \<noteq> 0 \<Longrightarrow> f a \<notin> starts"
    and starts_nonzero: "0 \<notin> starts"
begin

text \<open>Two walks never meet.\<close>

lemma walks_meet:
  assumes "d \<in> starts" "e \<in> starts" "\<forall>a < i. (f ^^ a) d \<in> T" "\<forall>a < j. (f ^^ a) e \<in> T"
    "(f ^^ i) d = (f ^^ j) e" "(f ^^ i) d \<noteq> 0"
  shows "i = j \<and> d = e"
  using assms
proof (induction i arbitrary: j)
  case 0
  show ?case
  proof (cases j)
    case (Suc k)
    then have "f ((f ^^ k) e) = d" "(f ^^ k) e \<in> T" "d \<noteq> 0" using 0 by auto
    then show ?thesis using not_start 0(1) by blast
  qed (use 0 in simp)
next
  case (Suc i)
  show ?case
  proof (cases j)
    case 0
    then have "f ((f ^^ i) d) = e" "(f ^^ i) d \<in> T" "e \<noteq> 0" using Suc.prems by auto
    then show ?thesis using not_start Suc.prems(2) by blast
  next
    case (Suc k)
    have m: "(f ^^ i) d \<in> T" "(f ^^ k) e \<in> T" "f ((f ^^ i) d) = f ((f ^^ k) e)" "f ((f ^^ i) d) \<noteq> 0"
      using Suc.prems Suc by auto
    have eq: "(f ^^ i) d = (f ^^ k) e" by (rule injective[OF m])
    have "(f ^^ i) d \<noteq> 0" using m(1) nexts(2) by metis
    then have "i = k \<and> d = e" using Suc.IH[OF Suc.prems(1,2) _ _ eq] Suc.prems(3,4) Suc by simp
    then show ?thesis using Suc by simp
  qed
qed

lemma walk_distinct:
  assumes "d \<in> starts" "\<forall>a < k. (f ^^ a) d \<in> T"
  shows "distinct (orbit f d k)"
proof (subst distinct_conv_nth, intro allI impI)
  fix i j assume ij: "i < length (orbit f d k)" "j < length (orbit f d k)" "i \<noteq> j"
  have "(f ^^ i) d \<noteq> 0" using ij assms(2) nexts(2) by auto
  then show "orbit f d k ! i \<noteq> orbit f d k ! j"
    using walks_meet[OF assms(1) assms(1), of i j] assms(2) ij by auto
qed

text \<open>So each walk leaves the nodes that have a next.\<close>

lemma walk_ends:
  assumes "d \<in> starts"
  obtains k where "k \<le> card T" "\<forall>a < k. (f ^^ a) d \<in> T" "(f ^^ k) d \<notin> T"
proof -
  have "\<exists>k \<le> card T. (f ^^ k) d \<notin> T"
  proof (rule ccontr)
    assume "\<not> ?thesis"
    then have all: "\<forall>a < Suc (card T). (f ^^ a) d \<in> T" by auto
    then have "card (set (orbit f d (Suc (card T)))) = Suc (card T)"
      using distinct_card[OF walk_distinct[OF assms all]] by simp
    moreover have "card (set (orbit f d (Suc (card T)))) \<le> card T"
      using all nexts(1) by (intro card_mono) (auto simp: orbit_def)
    ultimately show False by simp
  qed
  then obtain k where k: "k \<le> card T" "(f ^^ k) d \<notin> T" by blast
  define m where "m = (LEAST m. (f ^^ m) d \<notin> T)"
  have "(f ^^ m) d \<notin> T" "m \<le> k" unfolding m_def using k(2) by (rule LeastI, rule Least_le)
  moreover have "\<forall>a < m. (f ^^ a) d \<in> T" using not_less_Least unfolding m_def by blast
  ultimately show ?thesis using that[of m] k(1) order_trans by blast
qed

text \<open>Distinct starts lead to disjoint walks, so the nodes that are visited can be counted.\<close>

lemma visited_card:
  assumes "distinct ds" "set ds \<subseteq> starts" "\<And>d. d \<in> set ds \<Longrightarrow> \<forall>a < steps d. (f ^^ a) d \<in> T"
  shows "card (\<Union>d \<in> set ds. set (orbit f d (steps d))) = sum_list (map steps ds)"
  using assms
proof (induction ds)
  case (Cons d ds)
  have disjoint: "set (orbit f d (steps d)) \<inter> (\<Union>e \<in> set ds. set (orbit f e (steps e))) = {}"
  proof (rule ccontr)
    assume "\<not> ?thesis"
    then obtain e i j where e: "e \<in> set ds" "i < steps d" "j < steps e" "(f ^^ i) d = (f ^^ j) e"
      by (auto simp: orbit_def)
    have "(f ^^ i) d \<noteq> 0" using Cons.prems(3)[of d] e(2) nexts(2) by auto
    then have "d = e" using walks_meet[of d e i j] Cons.prems(2,3) e by auto
    then show False using Cons.prems(1) e(1) by simp
  qed
  have "card (set (orbit f d (steps d))) = steps d"
    using distinct_card[OF walk_distinct[of d "steps d"]] Cons.prems(2,3) by simp
  moreover have "finite (\<Union>e \<in> set ds. set (orbit f e (steps e)))" by simp
  ultimately show ?case using Cons disjoint by (simp add: card_Un_disjoint)
qed simp

end

text \<open>The nexts of a list of used arcs.\<close>

definition route_next :: "(int32 \<times> int32) list \<Rightarrow> int32 \<Rightarrow> int32" where
  "route_next u t =
     (if legal u \<and> t \<noteq> 0 then (case find (\<lambda>(a, h). a = t \<and> h \<noteq> t) u of Some (a, h) \<Rightarrow> h | None \<Rightarrow> - 1) else - 1)"

definition route_tails :: "(int32 \<times> int32) list \<Rightarrow> int32 set" where
  "route_tails u = {t. t \<noteq> 0 \<and> route_next u t \<noteq> - 1}"

definition route_starts :: "(int32 \<times> int32) list \<Rightarrow> int32 set" where
  "route_starts u = (if legal u then {h. (0, h) \<in> set u} else {})"

lemma distinct_filter_map:
  assumes "distinct (filter P (map g xs))" "x \<in> set xs" "y \<in> set xs" "g x = g y" "P (g x)"
  shows "x = y"
  using assms by (induction xs) (auto simp: image_iff split: if_split_asm)

lemma legal_unique:
  assumes "legal u" "(t, h) \<in> set u" "(t', h') \<in> set u"
  shows "t = t' \<Longrightarrow> t \<noteq> 0 \<Longrightarrow> h = h'" "h = h' \<Longrightarrow> h \<noteq> 0 \<Longrightarrow> t = t'"
proof -
  have d: "distinct (filter (\<lambda>n. n \<noteq> 0) (map fst u))" "distinct (filter (\<lambda>n. n \<noteq> 0) (map snd u))"
    using assms(1) by (simp_all add: legal_def)
  show "h = h'" if "t = t'" "t \<noteq> 0" using distinct_filter_map[OF d(1) assms(2,3)] that by simp
  show "t = t'" if "h = h'" "h \<noteq> 0" using distinct_filter_map[OF d(2) assms(2,3)] that by simp
qed

lemma find_SomeD: "find P xs = Some x \<Longrightarrow> x \<in> set xs \<and> P x"
  by (induction xs) (auto split: if_split_asm)

lemma route_next_arc:
  assumes "route_next u t \<noteq> - 1"
  shows "legal u \<and> t \<noteq> 0 \<and> (t, route_next u t) \<in> set u \<and> route_next u t \<noteq> t"
proof (cases "find (\<lambda>(a, h). a = t \<and> h \<noteq> t) u")
  case None
  then have "route_next u t = - 1" by (simp add: route_next_def)
  then show ?thesis using assms by simp
next
  case (Some p)
  obtain a h where p: "p = (a, h)" by (cases p)
  have l: "legal u \<and> t \<noteq> 0" using assms unfolding route_next_def by presburger
  then have "route_next u t = h" using Some p by (simp add: route_next_def)
  moreover have "(a, h) \<in> set u" "a = t" "h \<noteq> t"
    using find_SomeD[OF Some[unfolded p]] unfolding prod.case by blast+
  ultimately show ?thesis using l by blast
qed

lemma route_next_eq:
  assumes "legal u" "(t, h) \<in> set u" "t \<noteq> 0" "h \<noteq> t"
  shows "route_next u t = h"
proof (cases "find (\<lambda>(a, h). a = t \<and> h \<noteq> t) u")
  case None
  then have "\<not> (\<exists>p \<in> set u. (\<lambda>(a, h). a = t \<and> h \<noteq> t) p)" by (auto simp: find_None_iff)
  then show ?thesis using assms(2,4) by fastforce
next
  case (Some p)
  obtain a h' where p: "p = (a, h')" by (cases p)
  have a: "(a, h') \<in> set u" "a = t"
    using find_SomeD[OF Some[unfolded p]] unfolding prod.case by blast+
  have "h = h'" by (rule legal_unique(1)[OF assms(1,2) a(1) a(2)[symmetric] assms(3)])
  moreover have "route_next u t = h'" unfolding route_next_def Some p using assms(1,3) by simp
  ultimately show ?thesis by simp
qed

lemma routes_inv_next:
  assumes "routes_inv s u" "legal u" "t \<noteq> 0"
  shows "rs_tail_to_head s t = route_next u t"
proof (cases "\<exists>h. (t, h) \<in> set u \<and> h \<noteq> t")
  case True
  then obtain h where h: "(t, h) \<in> set u" "h \<noteq> t" by blast
  then have "rs_tail_to_head s t = h" using assms by (auto simp: routes_inv_def)
  then show ?thesis using route_next_eq[OF assms(2) h(1) assms(3) h(2)] by simp
next
  case False
  then have "rs_tail_to_head s t = - 1" using assms by (auto simp: routes_inv_def)
  moreover have "route_next u t = - 1" using route_next_arc[of u t] False by blast
  ultimately show ?thesis by simp
qed

interpretation rn: route_nexts "route_next u" "route_starts u" "route_tails u" for u
proof unfold_locales
  have sub: "route_tails u \<subseteq> fst ` set u" using route_next_arc by (force simp: route_tails_def)
  show "finite (route_tails u)" by (rule finite_subset[OF sub]) simp
  show "0 \<notin> route_tails u" by (simp add: route_tails_def)
  show "n \<in> route_tails u \<longleftrightarrow> n \<noteq> 0 \<and> route_next u n \<noteq> - 1" for n by (simp add: route_tails_def)
  show "a = b" if "a \<in> route_tails u" "b \<in> route_tails u" "route_next u a = route_next u b" "route_next u a \<noteq> 0" for a b
    using route_next_arc[of u a] route_next_arc[of u b] legal_unique(2)[of u a "route_next u a" b "route_next u b"] that
    by (simp add: route_tails_def)
  show "route_next u a \<notin> route_starts u" if "a \<in> route_tails u" "route_next u a \<noteq> 0" for a
    using route_next_arc[of u a] legal_unique(2)[of u a "route_next u a" 0 "route_next u a"] that
    by (auto simp: route_tails_def route_starts_def)
  show "0 \<notin> route_starts u" by (auto simp: route_starts_def legal_def)
qed

section \<open>The loop over the routes\<close>

lemma route_walk_run:
  assumes "\<forall>a < k. (f ^^ a) d \<noteq> 0 \<and> f ((f ^^ a) d) \<noteq> - 1" "k < fuel"
    "(f ^^ k) d = 0 \<or> f ((f ^^ k) d) = - 1"
  shows "route_walk fuel f d c = (if (f ^^ k) d = 0 then Inr (c + int k) else Inl False)"
  using assms
proof (induction k arbitrary: d c fuel)
  case 0
  then obtain g where "fuel = Suc g" by (cases fuel) auto
  then show ?case using 0 by (auto simp: route_walk.simps[of "Suc _"])
next
  case (Suc k)
  obtain g where g: "fuel = Suc g" using Suc.prems(2) by (cases fuel) auto
  have shift: "(f ^^ Suc a) d = (f ^^ a) (f d)" for a by (simp add: funpow_swap1)
  have here: "d \<noteq> 0" "f d \<noteq> - 1" using Suc.prems(1) by force+
  have "route_walk g f (f d) (c + 1) = (if (f ^^ k) (f d) = 0 then Inr (c + 1 + int k) else Inl False)"
  proof (rule Suc.IH)
    show "\<forall>a < k. (f ^^ a) (f d) \<noteq> 0 \<and> f ((f ^^ a) (f d)) \<noteq> - 1"
      using Suc.prems(1) shift by (metis Suc_less_eq)
    show "k < g" using Suc.prems(2) g by simp
    show "(f ^^ k) (f d) = 0 \<or> f ((f ^^ k) (f d)) = - 1" using Suc.prems(3) shift by metis
  qed
  then show ?case using here by (simp add: route_walk.simps[of "Suc g"] g funpow_swap1 algebra_simps)
qed

lemma route_walk_cong:
  assumes "\<And>t. t \<noteq> 0 \<Longrightarrow> f t = g t"
  shows "route_walk fuel f d c = route_walk fuel g d c"
proof (induction fuel arbitrary: d c)
  case 0
  then show ?case by (simp add: route_walk.simps)
next
  case (Suc fuel)
  then show ?case using assms by (simp add: route_walk.simps[of "Suc fuel"])
qed

lemma routes_depot_loop_run:
  assumes "\<And>d c. d \<in> set ds \<Longrightarrow> route_walk fuel f d c = (if returns d then Inr (c + int (steps d)) else Inl False)"
  shows "routes_depot_loop fuel f c ds =
    (if \<forall>d \<in> set ds. returns d then Inr (c + int (length ds) + int (sum_list (map steps ds))) else Inl False)"
  using assms by (induction ds arbitrary: c) (simp_all add: algebra_simps)

section \<open>The check\<close>

definition walk_steps :: "(int32 \<times> int32) list \<Rightarrow> int32 \<Rightarrow> nat" where
  "walk_steps u d = (LEAST k. (route_next u ^^ k) d \<notin> route_tails u)"

lemma walk_steps:
  assumes "d \<in> route_starts u"
  shows "walk_steps u d \<le> card (route_tails u)" "\<forall>a < walk_steps u d. (route_next u ^^ a) d \<in> route_tails u"
    "(route_next u ^^ walk_steps u d) d \<notin> route_tails u"
proof -
  obtain k where k: "k \<le> card (route_tails u)" "\<forall>a < k. (route_next u ^^ a) d \<in> route_tails u"
    "(route_next u ^^ k) d \<notin> route_tails u"
    using rn.walk_ends[OF assms] by blast
  have "walk_steps u d = k" unfolding walk_steps_def
    using k(2,3) by (intro Least_equality) (auto simp: not_less[symmetric])
  then show "walk_steps u d \<le> card (route_tails u)" "\<forall>a < walk_steps u d. (route_next u ^^ a) d \<in> route_tails u"
    "(route_next u ^^ walk_steps u d) d \<notin> route_tails u" using k by simp_all
qed

text \<open>The node where the walk stops, and the nodes visited before.\<close>

definition walk_stop :: "(int32 \<times> int32) list \<Rightarrow> int32 \<Rightarrow> int32" where
  "walk_stop u d = (route_next u ^^ walk_steps u d) d"

definition visited :: "(int32 \<times> int32) list \<Rightarrow> int32 set" where
  "visited u = (\<Union>d \<in> route_starts u. set (orbit (route_next u) d (walk_steps u d)))"

lemma visited_sub: "visited u \<subseteq> route_tails u"
  using walk_steps(2) by (fastforce simp: visited_def orbit_def)

lemma card_tails_le: "card (route_tails u) \<le> length u"
proof -
  have "route_tails u \<subseteq> set (map fst u)" using route_next_arc by (force simp: route_tails_def)
  then have "card (route_tails u) \<le> card (set (map fst u))" by (intro card_mono) auto
  also have "\<dots> \<le> length (map fst u)" by (rule card_length)
  finally show ?thesis by simp
qed

lemma length_used_arcs: "length (used_arcs x arcs) \<le> length arcs"
  by (simp add: used_arcs_def)

lemma route_walk_result:
  assumes "d \<in> route_starts u" "length u < fuel" "\<And>t. t \<noteq> 0 \<Longrightarrow> f t = route_next u t"
  shows "route_walk fuel f d c = (if walk_stop u d = 0 then Inr (c + int (walk_steps u d)) else Inl False)"
proof -
  note w = walk_steps[OF assms(1)]
  have "route_walk fuel f d c = route_walk fuel (route_next u) d c" using assms(3) by (rule route_walk_cong)
  also have "\<dots> = (if walk_stop u d = 0 then Inr (c + int (walk_steps u d)) else Inl False)"
    unfolding walk_stop_def
  proof (rule route_walk_run)
    show "\<forall>a < walk_steps u d. (route_next u ^^ a) d \<noteq> 0 \<and> route_next u ((route_next u ^^ a) d) \<noteq> - 1"
      using w(2) by (simp add: route_tails_def)
    show "walk_steps u d < fuel" using w(1) card_tails_le[of u] assms(2) by linarith
    show "(route_next u ^^ walk_steps u d) d = 0 \<or> route_next u ((route_next u ^^ walk_steps u d) d) = - 1"
      using w(3) by (simp add: route_tails_def)
  qed
  finally show ?thesis .
qed

text \<open>The depot and the nodes from 1 up: every node but the depot has exactly one used arc out of it and
  one into it, and is on a self-loop or reached from the depot.\<close>

definition covered_by_routes :: "(int32 \<times> int32) list \<Rightarrow> int \<Rightarrow> bool" where
  "covered_by_routes used N \<longleftrightarrow>
     (0, 0) \<notin> set used \<and>
     (\<forall>n. 0 < n \<longrightarrow> n < N \<longrightarrow>
        length (filter (\<lambda>(t, h). t = n) used) = 1 \<and> length (filter (\<lambda>(t, h). h = n) used) = 1 \<and>
        ((n, n) \<in> set used \<or> (0, n) \<in> (set used)\<^sup>+))"

definition self_nodes :: "(int32 \<times> int32) list \<Rightarrow> int32 set" where
  "self_nodes u = {n. (n, n) \<in> set u}"

lemma distinct_map_filter:
  "distinct (filter P (map g xs)) \<Longrightarrow> (\<And>x. x \<in> set xs \<Longrightarrow> Q x \<Longrightarrow> P (g x)) \<Longrightarrow> distinct (map g (filter Q xs))"
  by (induction xs) (auto split: if_split_asm)

lemma card_self_nodes:
  assumes "legal u"
  shows "card (self_nodes u) = length (filter (\<lambda>(t, h). t = h) u)"
proof -
  have "distinct (map fst (filter (\<lambda>(t, h). t = h) u))"
    using assms by (intro distinct_map_filter[where P = "\<lambda>n. n \<noteq> 0"]) (auto simp: legal_def)
  moreover have "set (map fst (filter (\<lambda>(t, h). t = h) u)) = self_nodes u" by (force simp: self_nodes_def)
  ultimately show ?thesis by (metis distinct_card length_map)
qed

text \<open>The arcs that are not self-loops leave the depot or a node with a next.\<close>

definition in_range :: "(int32 \<times> int32) list \<Rightarrow> int \<Rightarrow> bool" where
  "in_range u N \<longleftrightarrow> (\<forall>(t, h) \<in> set u. 0 \<le> t \<and> t < N \<and> 0 \<le> h \<and> h < N)"

lemma route_tails_eq:
  assumes "legal u" "in_range u N"
  shows "t \<in> route_tails u \<longleftrightarrow> t \<noteq> 0 \<and> (\<exists>h. (t, h) \<in> set u \<and> h \<noteq> t)"
proof
  assume "t \<in> route_tails u"
  then have r: "t \<noteq> 0" "route_next u t \<noteq> - 1" by (simp_all add: route_tails_def)
  then show "t \<noteq> 0 \<and> (\<exists>h. (t, h) \<in> set u \<and> h \<noteq> t)" using route_next_arc[OF r(2)] by blast
next
  assume "t \<noteq> 0 \<and> (\<exists>h. (t, h) \<in> set u \<and> h \<noteq> t)"
  then obtain h where h: "t \<noteq> 0" "(t, h) \<in> set u" "h \<noteq> t" by blast
  then have "route_next u t = h" using route_next_eq[OF assms(1)] by simp
  moreover have "0 \<le> h" using assms(2) h(2) by (auto simp: in_range_def)
  ultimately show "t \<in> route_tails u" using h(1) by (simp add: route_tails_def)
qed

lemma card_route_tails:
  assumes "legal u" "in_range u N"
  shows "length (filter (\<lambda>(t, h). t \<noteq> h) u) = length (filter (\<lambda>(t, h). t = 0) u) + card (route_tails u)"
proof -
  have "distinct (map fst (filter (\<lambda>(t, h). t \<noteq> h \<and> t \<noteq> 0) u))"
  proof (rule distinct_map_filter[where P = "\<lambda>n. n \<noteq> 0"])
    show "distinct (filter (\<lambda>n. n \<noteq> 0) (map fst u))" using assms(1) by (simp add: legal_def)
  qed (simp add: split_def)
  moreover have "set (map fst (filter (\<lambda>(t, h). t \<noteq> h \<and> t \<noteq> 0) u)) = route_tails u"
  proof (rule set_eqI)
    fix t
    have "t \<in> set (map fst (filter (\<lambda>(t, h). t \<noteq> h \<and> t \<noteq> 0) u)) \<longleftrightarrow> t \<noteq> 0 \<and> (\<exists>h. (t, h) \<in> set u \<and> h \<noteq> t)"
      by (simp add: image_iff split_def) fastforce
    then show "t \<in> set (map fst (filter (\<lambda>(t, h). t \<noteq> h \<and> t \<noteq> 0) u)) \<longleftrightarrow> t \<in> route_tails u"
      unfolding route_tails_eq[OF assms, of t] .
  qed
  ultimately have T: "card (route_tails u) = length (filter (\<lambda>(t, h). t \<noteq> h \<and> t \<noteq> 0) u)"
    using distinct_card[of "map fst (filter (\<lambda>(t, h). t \<noteq> h \<and> t \<noteq> 0) u)"] unfolding length_map by metis
  have "(0, 0) \<notin> set u" using assms(1) by (simp add: legal_def)
  then have "length (filter (\<lambda>(t, h). t \<noteq> h) u) =
      length (filter (\<lambda>(t, h). t = 0) u) + length (filter (\<lambda>(t, h). t \<noteq> h \<and> t \<noteq> 0) u)"
  proof (induction u)
    case (Cons a u)
    obtain t h where "a = (t, h)" by (cases a)
    then show ?case using Cons by (cases "t = h"; cases "t = 0") simp_all
  qed simp
  then show ?thesis using T by simp
qed

lemma starts_list:
  assumes "legal u"
  shows "set (map snd (filter (\<lambda>(t, h). t = 0) u)) = route_starts u"
    "distinct (map snd (filter (\<lambda>(t, h). t = 0) u))"
proof -
  show "set (map snd (filter (\<lambda>(t, h). t = 0) u)) = route_starts u"
    using assms by (auto simp: route_starts_def image_iff split_def)
  show "distinct (map snd (filter (\<lambda>(t, h). t = 0) u))"
    using assms by (intro distinct_map_filter[where P = "\<lambda>n. n \<noteq> 0"]) (auto simp: legal_def)
qed

text \<open>The walks of the code, whatever the nodes are.\<close>

lemma routes_depot_loop_result:
  assumes "routes_inv s u" "legal u" "length u < fuel"
  shows "routes_depot_loop fuel (rs_tail_to_head s) 0 (rs_depot_nexts s) =
    (if \<forall>d \<in> route_starts u. walk_stop u d = 0
     then Inr (int (length (rs_depot_nexts s)) + int (sum_list (map (walk_steps u) (rs_depot_nexts s)))) else Inl False)"
proof -
  have ds: "set (rs_depot_nexts s) = route_starts u"
    using starts_list(1)[OF assms(2)] assms(1) by (simp add: routes_inv_def)
  have walk: "route_walk fuel (rs_tail_to_head s) d c =
      (if walk_stop u d = 0 then Inr (c + int (walk_steps u d)) else Inl False)" if "d \<in> set (rs_depot_nexts s)" for d c
    using route_walk_result[OF _ assms(3)] routes_inv_next[OF assms(1,2)] that ds by blast
  show ?thesis
    using routes_depot_loop_run[of "rs_depot_nexts s" fuel "rs_tail_to_head s" "\<lambda>d. walk_stop u d = 0" "walk_steps u" 0] walk
    unfolding ds by simp
qed

text \<open>What the counters decide.\<close>

lemma routes_check_counts:
  assumes "legal (used_arcs x arcs)" "in_range (used_arcs x arcs) (routes_num_nodes arcs)" "0 < routes_num_nodes arcs"
    and nn: "\<And>t h l. (t, h, l) \<in> set arcs \<Longrightarrow> 0 \<le> t \<and> 0 \<le> h"
  defines "u \<equiv> used_arcs x arcs"
  shows "routes_check x arcs = Some ((\<forall>d \<in> route_starts u. walk_stop u d = 0) \<and>
    visited u = route_tails u \<and> int (card (route_tails u)) + 1 + int (card (self_nodes u)) = routes_num_nodes arcs)"
proof -
  obtain s where s: "routes_arcs_loop x routes_init arcs = Inr s" "routes_inv s u"
    using routes_loop[OF nn] assms(1) unfolding u_def by (cases "routes_arcs_loop x routes_init arcs") auto
  define ds where "ds = map snd (filter (\<lambda>(t, h). t = 0) u)"
  have u: "legal u" "in_range u (routes_num_nodes arcs)" using assms(1,2) by (simp_all add: u_def)
  have ds: "set ds = route_starts u" "distinct ds" using starts_list[OF u(1)] by (simp_all add: ds_def)
  have fields: "rs_depot_nexts s = ds" "rs_num_self_arcs s = int (card (self_nodes u))"
    "rs_num_used_arcs s = int (length ds) + int (card (route_tails u))"
    using s(2) card_self_nodes[OF u(1)] card_route_tails[OF u] by (simp_all add: routes_inv_def ds_def)
  have loop: "routes_depot_loop (Suc (length arcs)) (rs_tail_to_head s) 0 ds =
      (if \<forall>d \<in> route_starts u. walk_stop u d = 0
       then Inr (int (length ds) + int (sum_list (map (walk_steps u) ds))) else Inl False)"
    using routes_depot_loop_result[OF s(2) u(1), of "Suc (length arcs)"] length_used_arcs[of x arcs]
    unfolding fields(1) by (simp add: u_def)
  have "card (visited u) = sum_list (map (walk_steps u) ds)"
    unfolding visited_def ds(1)[symmetric] using ds walk_steps(2) by (intro rn.visited_card) auto
  moreover have "visited u = route_tails u \<longleftrightarrow> card (visited u) = card (route_tails u)"
    using visited_sub[of u] rn.nexts(1)[of u] card_subset_eq by metis
  ultimately have eq: "sum_list (map (walk_steps u) ds) = card (route_tails u) \<longleftrightarrow> visited u = route_tails u" by metis
  show ?thesis
    using assms(3) unfolding routes_check_def s(1) sum.case fields loop eq[symmetric] by (auto simp: algebra_simps)
qed

section \<open>The routes\<close>

lemma count_list_map: "length (filter (\<lambda>p. g p = n) u) = count_list (map g u) n"
  by (induction u) auto

lemma distinct_count: "distinct xs \<longleftrightarrow> (\<forall>n \<in> set xs. count_list xs n = 1)"
proof (induction xs)
  case (Cons a xs)
  have "count_list xs a = 0 \<longleftrightarrow> a \<notin> set xs" by (simp add: count_list_0_iff)
  then show ?case using Cons by auto
qed simp

lemma count_list_filter: "P n \<Longrightarrow> count_list (filter P xs) n = count_list xs n"
  by (induction xs) auto

text \<open>At most one arc out of and into each node, as counts.\<close>

lemma legal_counts:
  assumes "in_range u N"
  shows "legal u \<longleftrightarrow> (0, 0) \<notin> set u \<and> (\<forall>n. 0 < n \<longrightarrow> n < N \<longrightarrow> count_list (map fst u) n \<le> 1 \<and> count_list (map snd u) n \<le> 1)"
proof -
  have "distinct (filter (\<lambda>n. n \<noteq> 0) (map g u)) \<longleftrightarrow> (\<forall>n. 0 < n \<longrightarrow> n < N \<longrightarrow> count_list (map g u) n \<le> 1)"
    if range: "\<And>p. p \<in> set u \<Longrightarrow> 0 \<le> g p \<and> g p < N" for g
  proof -
    have "distinct (filter (\<lambda>n. n \<noteq> 0) (map g u)) \<longleftrightarrow> (\<forall>n \<in> g ` set u. n \<noteq> 0 \<longrightarrow> count_list (map g u) n = 1)"
      by (subst distinct_count) (auto simp: count_list_filter)
    also have "\<dots> \<longleftrightarrow> (\<forall>n. 0 < n \<longrightarrow> n < N \<longrightarrow> count_list (map g u) n \<le> 1)"
    proof (intro iffI allI impI ballI)
      fix n assume h: "\<forall>n \<in> g ` set u. n \<noteq> 0 \<longrightarrow> count_list (map g u) n = 1" "0 < n" "n < N"
      then show "count_list (map g u) n \<le> 1"
        by (cases "n \<in> g ` set u") (auto simp: count_list_0_iff)
    next
      fix n assume h: "\<forall>n. 0 < n \<longrightarrow> n < N \<longrightarrow> count_list (map g u) n \<le> 1" "n \<in> g ` set u" "n \<noteq> 0"
      then have "0 < n \<and> n < N" using range by force
      then have "count_list (map g u) n \<le> 1" using h(1) by blast
      moreover have "count_list (map g u) n \<noteq> 0" using h(2) by (simp add: count_list_0_iff)
      ultimately show "count_list (map g u) n = 1" by linarith
    qed
    finally show ?thesis .
  qed
  from this[of fst] this[of snd] show ?thesis
    using assms unfolding legal_def in_range_def by fastforce
qed

lemma covered_counts:
  "covered_by_routes u N \<longleftrightarrow>
     (0, 0) \<notin> set u \<and> (\<forall>n. 0 < n \<longrightarrow> n < N \<longrightarrow> count_list (map fst u) n = 1 \<and> count_list (map snd u) n = 1 \<and>
       ((n, n) \<in> set u \<or> (0, n) \<in> (set u)\<^sup>+))"
  unfolding covered_by_routes_def split_def count_list_map ..

lemma covered_legal: "in_range u N \<Longrightarrow> covered_by_routes u N \<Longrightarrow> legal u"
  by (simp add: legal_counts covered_counts)

text \<open>With one arc into each node, a walk that cannot go on is back at the depot.\<close>

lemma covered_walk_stop:
  assumes "in_range u N" "covered_by_routes u N" "d \<in> route_starts u"
  shows "walk_stop u d = 0"
proof (rule ccontr)
  assume nz: "walk_stop u d \<noteq> 0"
  define e where "e = walk_stop u d"
  have leg: "legal u" using covered_legal assms(1,2) by blast
  note w = walk_steps[OF assms(3)]
  have "\<exists>p. (p, e) \<in> set u \<and> p \<noteq> e"
  proof (cases "walk_steps u d")
    case 0
    then have "e = d" by (simp add: e_def walk_stop_def)
    then show ?thesis using assms(3) nz leg by (auto simp: route_starts_def e_def)
  next
    case (Suc k)
    define p where "p = (route_next u ^^ k) d"
    have "p \<in> route_tails u" "e = route_next u p" using w(2) Suc by (simp_all add: p_def e_def walk_stop_def)
    then show ?thesis using route_next_arc[of u p] by (auto simp: route_tails_def)
  qed
  then obtain p where p: "(p, e) \<in> set u" "p \<noteq> e" by blast
  then have e: "0 < e" "e < N" using assms(1) nz by (auto simp: in_range_def e_def)
  have "e \<in> fst ` set u"
    using assms(2) e unfolding covered_counts by (metis count_list_0_iff list.set_map zero_neq_one)
  then obtain h where h: "(e, h) \<in> set u" by force
  have "e \<notin> route_tails u" using w(3) by (simp add: e_def walk_stop_def)
  then have "h = e" using route_tails_eq[OF leg assms(1), of e] h e(1) by auto
  then show False using legal_unique(2)[OF leg p(1) h] p(2) e(1) by simp
qed

text \<open>The nodes that are visited are those reached from the depot.\<close>

lemma visited_reached:
  assumes "legal u" "n \<in> visited u"
  shows "(0, n) \<in> (set u)\<^sup>+"
proof -
  obtain d i where d: "d \<in> route_starts u" "i < walk_steps u d" "n = (route_next u ^^ i) d"
    using assms(2) by (auto simp: visited_def orbit_def)
  have "(0, (route_next u ^^ i) d) \<in> (set u)\<^sup>+" using d(2)
  proof (induction i)
    case 0
    then show ?case using d(1) assms(1) by (auto simp: route_starts_def)
  next
    case (Suc i)
    have "(route_next u ^^ i) d \<in> route_tails u" using walk_steps(2)[OF d(1)] Suc.prems by simp
    then have "((route_next u ^^ i) d, (route_next u ^^ Suc i) d) \<in> set u"
      using route_next_arc[of u "(route_next u ^^ i) d"] by (simp add: route_tails_def)
    then show ?case using Suc by (meson Suc_lessD trancl.trancl_into_trancl)
  qed
  then show ?thesis using d(3) by simp
qed

lemma covered_reached:
  assumes "in_range u N" "covered_by_routes u N" "(0, n) \<in> (set u)\<^sup>+"
  shows "n = 0 \<or> n \<in> visited u \<or> (n, n) \<in> set u"
proof -
  have leg: "legal u" using covered_legal assms(1,2) by blast
  have start: "m = 0 \<or> m \<in> visited u" if m: "(0, m) \<in> set u" for m
  proof -
    have d: "m \<in> route_starts u" using m leg by (simp add: route_starts_def)
    have "walk_steps u m = 0 \<Longrightarrow> m = 0"
      using covered_walk_stop[OF assms(1,2) d] by (simp add: walk_stop_def)
    moreover have "m \<in> visited u" if "0 < walk_steps u m"
      unfolding visited_def using d that by (intro UN_I[of m]) (auto simp: orbit_def intro: image_eqI[of _ _ 0])
    ultimately show ?thesis by blast
  qed
  show ?thesis using assms(3)
  proof (induction rule: trancl_induct)
    case (step n m)
    consider "n = 0" | "n \<in> visited u" | "(n, n) \<in> set u" "n \<noteq> 0" using step.IH by blast
    then show ?case
    proof cases
      case 1
      then show ?thesis using start step.hyps(2) by blast
    next
      case 2
      then obtain d i where d: "d \<in> route_starts u" "i < walk_steps u d" "n = (route_next u ^^ i) d"
        by (auto simp: visited_def orbit_def)
      have n: "n \<in> route_tails u" using walk_steps(2)[OF d(1)] d(2,3) by simp
      then have "(n, route_next u n) \<in> set u" "n \<noteq> 0" using route_next_arc[of u n] by (simp_all add: route_tails_def)
      then have m: "m = (route_next u ^^ Suc i) d" using legal_unique(1)[OF leg step.hyps(2)] d(3) by simp
      show ?thesis
      proof (cases "Suc i = walk_steps u d")
        case True
        then show ?thesis using covered_walk_stop[OF assms(1,2) d(1)] m by (simp add: walk_stop_def)
      next
        case False
        then have "Suc i \<in> set [0..<walk_steps u d]" using d(2) by simp
        then have "m \<in> set (orbit (route_next u) d (walk_steps u d))"
          unfolding orbit_def set_map m by (rule imageI)
        then have "m \<in> visited u" unfolding visited_def using d(1) by blast
        then show ?thesis by simp
      qed
    next
      case 3
      then show ?thesis using legal_unique(1)[OF leg step.hyps(2) 3(1)] by simp
    qed
  qed (use start in blast)
qed

lemma tails_self_facts:
  assumes "legal u" "in_range u N"
  shows "route_tails u \<subseteq> {1..<N}" "self_nodes u \<subseteq> {1..<N}" "route_tails u \<inter> self_nodes u = {}"
    "n \<in> fst ` set u \<Longrightarrow> n \<noteq> 0 \<Longrightarrow> n \<in> route_tails u \<union> self_nodes u"
proof -
  have pos: "t = 0 \<or> t \<in> {1..<N}" if "(t, h) \<in> set u" for t h using that assms(2) by (auto simp: in_range_def)
  show "route_tails u \<subseteq> {1..<N}" using route_tails_eq[OF assms] pos by blast
  have "(0, 0) \<notin> set u" using assms(1) by (simp add: legal_def)
  then show "self_nodes u \<subseteq> {1..<N}" using pos by (force simp: self_nodes_def)
  show "route_tails u \<inter> self_nodes u = {}"
    using route_tails_eq[OF assms] legal_unique(1)[OF assms(1)] by (auto simp: self_nodes_def)
  show "n \<in> route_tails u \<union> self_nodes u" if "n \<in> fst ` set u" "n \<noteq> 0"
    using that route_tails_eq[OF assms, of n] by (auto simp: self_nodes_def)
qed

lemma counts_iff_covered:
  assumes leg: "legal u" and range: "in_range u N" and "0 < N"
  shows "((\<forall>d \<in> route_starts u. walk_stop u d = 0) \<and> visited u = route_tails u \<and>
      int (card (route_tails u)) + 1 + int (card (self_nodes u)) = N) \<longleftrightarrow> covered_by_routes u N"
proof -
  note f = tails_self_facts[OF leg range]
  have fin: "finite (route_tails u)" "finite (self_nodes u)" using f(1,2) finite_subset by blast+
  have un: "card (route_tails u \<union> self_nodes u) = card (route_tails u) + card (self_nodes u)"
    using card_Un_disjoint[OF fin f(3)] .
  have "int (card {1..<N}) = N - 1" using assms(3) by simp
  then have "int (card (route_tails u)) + 1 + int (card (self_nodes u)) = N \<longleftrightarrow>
      card (route_tails u \<union> self_nodes u) = card {1..<N}" unfolding un by linarith
  also have "\<dots> \<longleftrightarrow> route_tails u \<union> self_nodes u = {1..<N}"
  proof
    assume "card (route_tails u \<union> self_nodes u) = card {1..<N}"
    with f(1,2) show "route_tails u \<union> self_nodes u = {1..<N}"
      by (intro card_subset_eq) simp_all
  qed (rule arg_cong)
  finally have size: "int (card (route_tails u)) + 1 + int (card (self_nodes u)) = N \<longleftrightarrow>
      route_tails u \<union> self_nodes u = {1..<N}" .
  show ?thesis unfolding size
  proof
    assume h: "(\<forall>d \<in> route_starts u. walk_stop u d = 0) \<and> visited u = route_tails u \<and> route_tails u \<union> self_nodes u = {1..<N}"
    have "count_list (map fst u) n = 1 \<and> count_list (map snd u) n = 1 \<and> ((n, n) \<in> set u \<or> (0, n) \<in> (set u)\<^sup>+)"
      if n: "0 < n" "n < N" for n
    proof -
      have n_in: "n \<in> route_tails u \<union> self_nodes u" using h n by simp
      then have reach: "(n, n) \<in> set u \<or> (0, n) \<in> (set u)\<^sup>+"
        using h visited_reached[OF leg] by (auto simp: self_nodes_def)
      have "\<exists>p. (p, n) \<in> set u" using reach by (meson tranclD2)
      then have "n \<in> snd ` set u" by force
      moreover have "n \<in> fst ` set u"
        using n_in route_tails_eq[OF leg range, of n] by (auto simp: self_nodes_def image_iff) force+
      ultimately have "count_list (map fst u) n \<noteq> 0" "count_list (map snd u) n \<noteq> 0"
        by (simp_all add: count_list_0_iff)
      moreover have "count_list (map fst u) n \<le> 1 \<and> count_list (map snd u) n \<le> 1"
        using leg n unfolding legal_counts[OF range] by blast
      ultimately show ?thesis using reach by linarith
    qed
    then show "covered_by_routes u N" using leg unfolding covered_counts legal_def by blast
  next
    assume cov: "covered_by_routes u N"
    have out: "n \<in> route_tails u \<union> self_nodes u" if "n \<in> {1..<N}" for n
    proof -
      have "count_list (map fst u) n = 1" using cov that unfolding covered_counts by simp
      then have "n \<in> fst ` set u" by (metis count_list_0_iff list.set_map zero_neq_one)
      then show ?thesis using f(4) that by simp
    qed
    have "n \<in> visited u" if n: "n \<in> route_tails u" for n
    proof -
      have ns: "(n, n) \<notin> set u" using f(3) n by (auto simp: self_nodes_def)
      have "n \<in> {1..<N}" using f(1) n by blast
      then have "0 < n" "n < N" by simp_all
      then have "(0, n) \<in> (set u)\<^sup>+" using cov ns unfolding covered_counts by blast
      then show ?thesis using covered_reached[OF range cov] ns n f(1) by force
    qed
    then show "(\<forall>d \<in> route_starts u. walk_stop u d = 0) \<and> visited u = route_tails u \<and> route_tails u \<union> self_nodes u = {1..<N}"
      using visited_sub[of u] out f(1,2) covered_walk_stop[OF range cov] by blast
  qed
qed

lemma routes_num_nodes_bounds:
  fixes n :: int and arcs :: "arc list"
  shows "n \<le> foldl (\<lambda>n (t, h, l). max (max n (1 + t)) (1 + h)) n arcs"
  "(t, h, l) \<in> set arcs \<Longrightarrow> t < foldl (\<lambda>n (t, h, l). max (max n (1 + t)) (1 + h)) n arcs \<and>
    h < foldl (\<lambda>n (t, h, l). max (max n (1 + t)) (1 + h)) n arcs"
proof -
  have mono: "n \<le> foldl (\<lambda>n (t, h, l). max (max n (1 + t)) (1 + h)) n arcs" for n :: int and arcs :: "arc list"
  proof (induction arcs arbitrary: n)
    case (Cons a arcs)
    obtain t h l where a: "a = (t, h, l)" by (cases a)
    have "n \<le> max (max n (1 + t)) (1 + h)" by simp
    also have "\<dots> \<le> foldl (\<lambda>n (t, h, l). max (max n (1 + t)) (1 + h)) (max (max n (1 + t)) (1 + h)) arcs"
      by (rule Cons.IH)
    finally show ?case by (simp add: a)
  qed simp
  show "n \<le> foldl (\<lambda>n (t, h, l). max (max n (1 + t)) (1 + h)) n arcs" by (rule mono)
  show "(t, h, l) \<in> set arcs \<Longrightarrow> t < foldl (\<lambda>n (t, h, l). max (max n (1 + t)) (1 + h)) n arcs \<and>
      h < foldl (\<lambda>n (t, h, l). max (max n (1 + t)) (1 + h)) n arcs"
  proof (induction arcs arbitrary: n)
    case (Cons a arcs)
    show ?case
    proof (cases "a = (t, h, l)")
      case True
      then show ?thesis using mono[of "max (max n (1 + t)) (1 + h)" arcs] by simp
    next
      case False
      then show ?thesis using Cons by simp
    qed
  qed simp
qed

theorem routes_check_spec:
  assumes "\<And>t h l. (t, h, l) \<in> set arcs \<Longrightarrow> 0 \<le> t \<and> 0 \<le> h"
  shows "routes_check x arcs = Some (covered_by_routes (used_arcs x arcs) (routes_num_nodes arcs))"
proof -
  define u where "u = used_arcs x arcs"
  have range: "in_range u (routes_num_nodes arcs)"
    using assms routes_num_nodes_bounds(2)[of _ _ _ arcs 0]
    by (auto simp: in_range_def u_def used_arcs_def routes_num_nodes_def)
  show ?thesis
  proof (cases "legal u")
    case False
    then have "routes_arcs_loop x routes_init arcs = Inl False" using routes_loop(1)[OF assms] by (simp add: u_def)
    moreover have "\<not> covered_by_routes u (routes_num_nodes arcs)" using False covered_legal[OF range] by blast
    ultimately show ?thesis by (simp add: routes_check_def u_def)
  next
    case leg: True
    show ?thesis
    proof (cases "0 < routes_num_nodes arcs")
      case True
      show ?thesis
        using routes_check_counts[OF leg[unfolded u_def] range[unfolded u_def] True assms]
          counts_iff_covered[OF leg range True] by (simp add: u_def)
    next
      case False
      then have z: "routes_num_nodes arcs = 0"
        using routes_num_nodes_bounds(1)[of 0 arcs] by (simp add: routes_num_nodes_def)
      then have "u = []" using range by (cases u) (auto simp: in_range_def)
      moreover obtain s where "routes_arcs_loop x routes_init arcs = Inr s"
        using routes_loop(1)[OF assms] leg by (cases "routes_arcs_loop x routes_init arcs") (auto simp: u_def)
      ultimately show ?thesis using z by (simp add: routes_check_def covered_by_routes_def flip: u_def)
    qed
  qed
qed

text \<open>The whole function: it also has to read a head and a literal for each tail.\<close>

theorem RoutesConstraintIsFeasible_eq:
  assumes "\<And>t h l. (t, h, l) \<in> set (routes_arcs a) \<Longrightarrow> 0 \<le> t \<and> 0 \<le> h"
  shows "RoutesConstraintIsFeasible x a =
    (if length (ro_heads a) < length (ro_tails a) \<or>
        length (ro_literals a) < length (ro_tails a) \<and> legal (used_arcs x (routes_arcs a)) then None
     else Some (covered_by_routes (used_arcs x (routes_arcs a)) (routes_num_nodes (routes_arcs a))))"
proof -
  have "isl (routes_arcs_loop x routes_init (routes_arcs a)) \<longleftrightarrow> \<not> legal (used_arcs x (routes_arcs a))"
  proof -
    have "routes_arcs_loop x routes_init (routes_arcs a) = Inl e \<longleftrightarrow> \<not> e \<and> \<not> legal (used_arcs x (routes_arcs a))" for e
      by (rule routes_loop(1)) (rule assms)
    then show ?thesis by (cases "routes_arcs_loop x routes_init (routes_arcs a)") auto
  qed
  then show ?thesis using routes_check_spec[OF assms] by (simp add: RoutesConstraintIsFeasible_def Let_def)
qed

end
