(* ===== verification/Meaning.thy ===== *)
theory Meaning
  imports CpSolution ValidateFacts CheckLoops RoutesWalk ZeroArea
begin

text \<open>
  The meaning of the constraints of a CP-SAT model, as mathematics on the values of the variables: no
  machine integers, no loops, no order of evaluation.  The theory \<open>Refinement\<close> shows that the checker
  of \<open>or-tools/ortools/sat/cp_model_checker.cc\<close> decides it on every model that passes validation.
\<close>

section \<open>Literals, expressions and intervals\<close>

definition lit :: "int list \<Rightarrow> int32 \<Rightarrow> bool" where
  "lit x l \<longleftrightarrow> literal_value x l = 1"

definition true_literals :: "int list \<Rightarrow> int32 list \<Rightarrow> nat" where
  "true_literals x ls = length (filter (lit x) ls)"

abbreviation opt_value :: "int list \<Rightarrow> LinearExpressionProto option \<Rightarrow> int" where
  "opt_value x e \<equiv> expr_value x (expr_or_default e)"

definition enforced :: "int list \<Rightarrow> ConstraintProto \<Rightarrow> bool" where
  "enforced x ct \<longleftrightarrow> (\<forall>l \<in> set (ct_enforcement_literal ct). lit x l)"

abbreviation start_of :: "int list \<Rightarrow> ConstraintProto \<Rightarrow> int" where
  "start_of x ct \<equiv> opt_value x (in_start (ct_interval ct))"

abbreviation size_of :: "int list \<Rightarrow> ConstraintProto \<Rightarrow> int" where
  "size_of x ct \<equiv> opt_value x (in_size (ct_interval ct))"

abbreviation end_of :: "int list \<Rightarrow> ConstraintProto \<Rightarrow> int" where
  "end_of x ct \<equiv> opt_value x (in_end (ct_interval ct))"

text \<open>The intervals of a list that are performed.\<close>

definition performed :: "int list \<Rightarrow> CpModelProto \<Rightarrow> int32 list \<Rightarrow> ConstraintProto list" where
  "performed x model is = filter (enforced x) (map (elt (m_constraints model)) is)"

definition performed_tasks :: "int list \<Rightarrow> CpModelProto \<Rightarrow> CumulativeConstraintProto \<Rightarrow> (int \<times> int \<times> int) list" where
  "performed_tasks x model a =
     map (\<lambda>(i, d). let ct = elt (m_constraints model) i in (start_of x ct, size_of x ct, expr_value x d))
       (filter (\<lambda>(i, d). enforced x (elt (m_constraints model) i)) (zip (cu_intervals a) (cu_demands a)))"

definition performed_boxes :: "int list \<Rightarrow> CpModelProto \<Rightarrow> NoOverlap2DConstraintProto \<Rightarrow> Rectangle list" where
  "performed_boxes x model a =
     map (\<lambda>(i, j). \<lparr> x_min = start_of x i, x_max = end_of x i, y_min = start_of x j, y_max = end_of x j \<rparr>)
       (filter (\<lambda>(i, j). enforced x i \<and> enforced x j)
          (zip (map (elt (m_constraints model)) (n2_x_intervals a)) (map (elt (m_constraints model)) (n2_y_intervals a))))"

definition active_changes :: "int list \<Rightarrow> ReservoirConstraintProto \<Rightarrow> (int \<times> int) list" where
  "active_changes x a =
     map (\<lambda>k. (expr_value x (re_time_exprs a ! k), expr_value x (re_level_changes a ! k)))
       (filter (\<lambda>k. re_active_literals a = [] \<or> lit x (re_active_literals a ! k)) [0..<length (re_time_exprs a)])"

definition table_tuple :: "int list \<Rightarrow> TableConstraintProto \<Rightarrow> int list" where
  "table_tuple x a = (if ta_vars a = [] then map (expr_value x) (ta_exprs a) else map (elt x) (ta_vars a))"

definition automaton_word :: "int list \<Rightarrow> AutomatonConstraintProto \<Rightarrow> int list" where
  "automaton_word x a = (if au_vars a = [] then map (expr_value x) (au_exprs a) else map (elt x) (au_vars a))"

text \<open>Some path of transitions reads the word and ends in a final state.\<close>

fun accepts :: "(int \<times> int \<times> int) list \<Rightarrow> int list \<Rightarrow> int \<Rightarrow> int list \<Rightarrow> bool" where
  "accepts arcs finals q [] \<longleftrightarrow> q \<in> set finals"
| "accepts arcs finals q (l # ls) \<longleftrightarrow>
     (\<exists>(tail, head, label) \<in> set arcs. tail = q \<and> label = l \<and> accepts arcs finals head ls)"

text \<open>The two arrays of an inverse constraint, each the inverse permutation of the other.\<close>

definition inverse_of :: "int list \<Rightarrow> int list \<Rightarrow> bool" where
  "inverse_of f g \<longleftrightarrow>
     length f = length g \<and>
     (\<forall>i < length f. 0 \<le> f ! i \<and> f ! i < int (length f) \<and> 0 \<le> g ! i \<and> g ! i < int (length f)) \<and>
     (\<forall>i < length f. \<forall>j < length f. f ! i = int j \<longleftrightarrow> g ! j = int i)"

definition select :: "int list \<Rightarrow> int \<Rightarrow> int \<Rightarrow> bool" where
  "select vals index target \<longleftrightarrow> 0 \<le> index \<and> index < int (length vals) \<and> vals ! nat index = target"

text \<open>The arcs of a graph constraint whose literal is true.\<close>

definition true_arcs :: "int list \<Rightarrow> arc list \<Rightarrow> (int32 \<times> int32) list" where
  "true_arcs x arcs = map (\<lambda>(t, h, l). (t, h)) (filter (\<lambda>(t, h, l). lit x l) arcs)"

section \<open>Constraints\<close>

fun meaning :: "int list \<Rightarrow> CpModelProto \<Rightarrow> ConstraintCase \<Rightarrow> bool" where
  "meaning x m (kBoolOr a) \<longleftrightarrow> (\<exists>l \<in> set (ba_literals a). lit x l)"
| "meaning x m (kBoolAnd a) \<longleftrightarrow> (\<forall>l \<in> set (ba_literals a). lit x l)"
| "meaning x m (kAtMostOne a) \<longleftrightarrow> true_literals x (ba_literals a) \<le> 1"
| "meaning x m (kExactlyOne a) \<longleftrightarrow> true_literals x (ba_literals a) = 1"
| "meaning x m (kBoolXor a) \<longleftrightarrow> odd (true_literals x (ba_literals a))"
| "meaning x m (kLinear a) \<longleftrightarrow> DomainInProtoContains (lc_domain a) (linear_activity x a)"
| "meaning x m (kIntProd a) \<longleftrightarrow> opt_value x (la_target a) = prod_list (map (expr_value x) (la_exprs a))"
| "meaning x m (kIntDiv a) \<longleftrightarrow> opt_value x (la_target a) = expr_value x (la_exprs a ! 0) sdiv expr_value x (la_exprs a ! 1)"
| "meaning x m (kIntMod a) \<longleftrightarrow> opt_value x (la_target a) = expr_value x (la_exprs a ! 0) smod expr_value x (la_exprs a ! 1)"
| "meaning x m (kLinMax a) \<longleftrightarrow>
     la_exprs a \<noteq> [] \<and> opt_value x (la_target a) = Max (expr_value x ` set (la_exprs a))"
| "meaning x m (kAllDiff a) \<longleftrightarrow> distinct (map (expr_value x) (ad_exprs a))"
| "meaning x m (kInterval a) \<longleftrightarrow>
     0 \<le> opt_value x (in_size a) \<and> opt_value x (in_start a) + opt_value x (in_size a) = opt_value x (in_end a)"
| "meaning x m (kNoOverlap a) \<longleftrightarrow>
     sorted_wrt disjoint_tasks (map (\<lambda>ct. (start_of x ct, size_of x ct)) (performed x m (no_intervals a)))"
| "meaning x m (kNoOverlap2D a) \<longleftrightarrow> sorted_wrt Rectangle_IsDisjoint (performed_boxes x m a)"
| "meaning x m (kCumulative a) \<longleftrightarrow>
     0 \<le> opt_value x (cu_capacity a) \<and> (\<forall>t. task_load (performed_tasks x m a) t \<le> opt_value x (cu_capacity a))"
| "meaning x m (kElement a) \<longleftrightarrow>
     (if el_vars a \<noteq> [] then select (map (elt x) (el_vars a)) (elt x (el_index a)) (elt x (el_target a))
      else select (map (expr_value x) (el_exprs a)) (opt_value x (el_linear_index a)) (opt_value x (el_linear_target a)))"
| "meaning x m (kTable a) \<longleftrightarrow>
     table_tuple x a = [] \<or>
     (table_tuple x a \<in> set (rows_of (length (table_tuple x a)) (ta_values a)) \<longleftrightarrow> \<not> ta_negated a)"
| "meaning x m (kAutomaton a) \<longleftrightarrow>
     accepts (automaton_arcs a) (au_final_states a) (au_starting_state a) (automaton_word x a)"
| "meaning x m (kInverse a) \<longleftrightarrow>
     inverse_of (map (elt x) (inv_f_direct a)) (map (elt x) (inv_f_inverse a)) \<and>
     inverse_of (map (expr_value x) (inv_f_expr_direct a)) (map (expr_value x) (inv_f_expr_inverse a))"
| "meaning x m (kCircuit a) \<longleftrightarrow> single_circuit (true_arcs x (circuit_arcs a)) (set (arc_nodes (circuit_arcs a)))"
| "meaning x m (kRoutes a) \<longleftrightarrow> covered_by_routes (true_arcs x (routes_arcs a)) (routes_num_nodes (routes_arcs a))"
| "meaning x m (kReservoir a) \<longleftrightarrow>
     (\<forall>t. re_min_level a \<le> level_at (active_changes x a) t \<and> level_at (active_changes x a) t \<le> re_max_level a)"
| "meaning x m CONSTRAINT_NOT_SET \<longleftrightarrow> True"
| "meaning x m (kDummyConstraint a) \<longleftrightarrow> False"

text \<open>A constraint whose enforcement literals are not all true asks for nothing.\<close>

definition satisfied :: "int list \<Rightarrow> CpModelProto \<Rightarrow> ConstraintProto \<Rightarrow> bool" where
  "satisfied x model ct \<longleftrightarrow> (enforced x ct \<longrightarrow> meaning x model (ct_constraint ct))"

definition objective_activity :: "int list \<Rightarrow> CpObjectiveProto \<Rightarrow> int" where
  "objective_activity x obj = terms_sum x (zip (ob_vars obj) (ob_coeffs obj))"

text \<open>The solutions of a model.\<close>

definition solves :: "int list \<Rightarrow> CpModelProto \<Rightarrow> bool" where
  "solves x model \<longleftrightarrow>
     length x = length (m_variables model) \<and>
     (\<forall>v < length x. DomainInProtoContains (iv_domain (m_variables model ! v)) (x ! v)) \<and>
     (\<forall>ct \<in> set (m_constraints model). satisfied x model ct) \<and>
     (case m_objective model of
        None \<Rightarrow> True
      | Some obj \<Rightarrow> ob_domain obj = [] \<or> DomainInProtoContains (ob_domain obj) (objective_activity x obj))"

end
