(* ===== verification/Refinement.thy ===== *)
theory Refinement
  imports Meaning
begin

text \<open>
  The checker of \<open>or-tools/ortools/sat/cp_model_checker.cc\<close> decides the meaning of the constraints: on a
  model that passes validation, and for values inside the domains of the variables, each check computes
  without overflow what \<open>meaning\<close> states.
\<close>

section \<open>What validation gives to an expression\<close>

text \<open>The offset is an int64 but the least one, which slips through the overflow test.\<close>

definition expr_typed :: "LinearExpressionProto \<Rightarrow> bool" where
  "expr_typed e \<longleftrightarrow> in_int64 (le_offset e) \<and> le_offset e \<noteq> kint64min"

definition expr_ok :: "CpModelProto \<Rightarrow> int list \<Rightarrow> LinearExpressionProto \<Rightarrow> bool" where
  "expr_ok model x e \<longleftrightarrow> LinearExpressionValue x e = expr_value x e \<and> \<bar>expr_value x e\<bar> \<le> half \<and>
     MinOfExpression model e \<le> expr_value x e \<and> expr_value x e \<le> MaxOfExpression model e \<and>
     in_int64 (MinOfExpression model e) \<and> in_int64 (MaxOfExpression model e)"

lemma bounds_int64:
  assumes "in_int64 (le_offset e)"
  shows "in_int64 (MinOfExpression model e)" "in_int64 (MaxOfExpression model e)"
proof -
  have "in_int64 (foldl (\<lambda>s t. CapAdd s (f t)) s ts)" if "in_int64 s" for f s and ts :: "(int \<times> int) list"
    using that by (induction ts arbitrary: s) (simp_all add: in_int64_cap)
  then show "in_int64 (MinOfExpression model e)" "in_int64 (MaxOfExpression model e)"
    using assms by (simp_all add: MinOfExpression_def MaxOfExpression_def)
qed

definition assignment :: "CpModelProto \<Rightarrow> int list \<Rightarrow> bool" where
  "assignment model x \<longleftrightarrow> variables_valid model \<and> in_domains model x"

lemma validated_expr_ok:
  assumes "assignment model x" "ValidateLinearExpression model e = Valid" "expr_typed e" "refs_in_range model (le_vars e)"
  shows "expr_ok model x e"
proof -
  have typed: "in_int64 (le_offset e)" "le_offset e \<noteq> kint64min" using assms(3) by (simp_all add: expr_typed_def)
  have v: "variables_valid model" "in_domains model x" using assms(1) by (simp_all add: assignment_def)
  have checked: "checked_terms model x (le_offset e) (zip (le_vars e) (le_coeffs e))"
    by (rule ValidateLinearExpression_checked(1)[OF assms(2) typed(1) v assms(4)])
  obtain lo hi where "PossibleIntegerOverflow model (le_vars e) (le_coeffs e) (le_offset e) = Bounds lo hi"
    using assms(2) by (auto simp: ValidateLinearExpression_def valid_simps split: if_split_asm)
  then have "\<bar>le_offset e\<bar> \<le> half" by (rule PossibleIntegerOverflow_Bounds(5)[OF _ typed])
  then show ?thesis using LinearExpressionValue_exact[OF checked] bounds_int64[OF typed(1)] by (simp add: expr_ok_def)
qed

lemma expr_ok_int64: "expr_ok model x e \<Longrightarrow> in_int64 (expr_value x e)"
  by (auto simp: expr_ok_def in_int64_def)

lemma default_expr_ok: "expr_ok model x LinearExpressionProto_default"
  by (simp add: expr_ok_def LinearExpressionProto_default_def LinearExpressionValue_def expr_value_def
      MinOfExpression_def MaxOfExpression_def in_int64_def)

text \<open>The values of the variables that a constraint refers to.\<close>

lemma variable_value:
  assumes "assignment model x" "VariableReferenceIsValid model v"
  shows "Value x v = ref_value x v" "\<bar>ref_value x v\<bar> \<le> half"
proof -
  have r: "- variables_size model \<le> v" "v < variables_size model"
    using assms(2) by (auto simp: VariableReferenceIsValid_def)
  have A: "variables_valid model" "in_domains model x" using assms(1) by (simp_all add: assignment_def)
  show b: "\<bar>ref_value x v\<bar> \<le> half"
    using in_domains_bounds(3)[OF A, of v] in_domains_bounds(3)[OF A, of "- v - 1"] r
    by (auto simp: ref_value_def)
  show "Value x v = ref_value x v"
    by (rule Value_ref_value) (use b in \<open>auto simp: in_int64_def\<close>)
qed

section \<open>Literals\<close>

lemma literal_true:
  assumes "assignment model x" "LiteralReferenceIsValid model l"
  shows "LiteralIsTrue x l \<longleftrightarrow> lit x l" "literal_value x l \<in> {0, 1}"
proof -
  have A: "variables_valid model" "in_domains model x" using assms(1) by (simp_all add: assignment_def)
  have l: "- variables_size model \<le> l" "l < variables_size model"
    "0 \<le> var_lb model (PositiveRef l)" "var_ub model (PositiveRef l) \<le> 1"
    using assms(2) by (auto simp: LiteralReferenceIsValid_def VariableReferenceIsValid_def)
  have p: "0 \<le> PositiveRef l" "PositiveRef l < variables_size model"
    using l(1,2) by (auto simp: PositiveRef_def NegatedRef_def)
  have "elt x (PositiveRef l) \<in> {0, 1}"
    using in_domains_bounds(1,2)[OF A p] l(3,4) by auto
  then show "LiteralIsTrue x l \<longleftrightarrow> lit x l" "literal_value x l \<in> {0, 1}"
    by (auto simp: LiteralIsTrue_def lit_def literal_value_def PositiveRef_def RefIsPositive_def NegatedRef_def)
qed

definition literals_valid :: "CpModelProto \<Rightarrow> int32 list \<Rightarrow> bool" where
  "literals_valid model ls \<longleftrightarrow> (\<forall>l \<in> set ls. LiteralReferenceIsValid model l)"

lemma literals_facts:
  assumes "assignment model x" "literals_valid model ls"
  shows "filter (LiteralIsTrue x) ls = filter (lit x) ls" "list_ex (LiteralIsTrue x) ls \<longleftrightarrow> (\<exists>l \<in> set ls. lit x l)"
    "list_ex (LiteralIsFalse x) ls \<longleftrightarrow> \<not> (\<forall>l \<in> set ls. lit x l)"
  using literal_true(1)[OF assms(1)] assms(2)
  by (auto simp: literals_valid_def list_ex_iff LiteralIsFalse_def intro!: filter_cong)

lemma boolean_refinement:
  assumes "assignment model x" "literals_valid model (ba_literals a)"
  shows "BoolOrConstraintIsFeasible x a \<longleftrightarrow> meaning x model (kBoolOr a)"
    "BoolAndConstraintIsFeasible x a \<longleftrightarrow> meaning x model (kBoolAnd a)"
    "AtMostOneConstraintIsFeasible x a \<longleftrightarrow> meaning x model (kAtMostOne a)"
    "ExactlyOneConstraintIsFeasible x a \<longleftrightarrow> meaning x model (kExactlyOne a)"
    "BoolXorConstraintIsFeasible x a \<longleftrightarrow> meaning x model (kBoolXor a)"
  using literals_facts[OF assms]
  by (simp_all add: BoolOrConstraintIsFeasible_def BoolAndConstraintIsFeasible_def AtMostOneConstraintIsFeasible_def
      ExactlyOneConstraintIsFeasible_def num_true_literals_eq bool_xor_eq true_literals_def)


section \<open>Arithmetic\<close>

lemma linear_refinement:
  assumes "assignment model x" "ValidateLinearConstraint model l = Valid" "refs_in_range model (lc_vars l)"
  shows "LinearConstraintIsFeasible x l \<longleftrightarrow> meaning x model (kLinear l)"
proof -
  have A: "variables_valid model" "in_domains model x" using assms(1) by (simp_all add: assignment_def)
  obtain lo hi where b: "PossibleIntegerOverflow model (lc_vars l) (lc_coeffs l) 0 = Bounds lo hi"
    using assms(2) by (auto simp: ValidateLinearConstraint_def valid_simps split: if_split_asm)
  have c: "checked_terms model x 0 (zip (lc_vars l) (lc_coeffs l))"
    by (rule PossibleIntegerOverflow_checked[OF b _ A assms(3)]) (simp add: in_int64_def)
  show ?thesis
    by (simp add: LinearConstraintIsFeasible_def checked_linear_loop[OF c] checked_expression_loop[OF c] linear_activity_def)
qed

abbreviation exprs_ok :: "CpModelProto \<Rightarrow> int list \<Rightarrow> LinearExpressionProto list \<Rightarrow> bool" where
  "exprs_ok model x es \<equiv> \<forall>e \<in> set es. expr_ok model x e"

lemma exprs_values: "exprs_ok model x es \<Longrightarrow> map (LinearExpressionValue x) es = map (expr_value x) es"
  by (simp add: expr_ok_def)

lemma lin_max_refinement:
  assumes "expr_ok model x (expr_or_default (la_target a))" "exprs_ok model x (la_exprs a)"
  shows "LinMaxConstraintIsFeasible x a \<longleftrightarrow> meaning x model (kLinMax a)"
proof (cases "la_exprs a = []")
  case True
  then show ?thesis using assms(1) by (auto simp: LinMaxConstraintIsFeasible_def expr_ok_def)
next
  case False
  define vs where "vs = expr_value x ` set (la_exprs a)"
  have vs: "finite vs" "vs \<noteq> {}" "\<And>v. v \<in> vs \<Longrightarrow> kint64min < v"
    using False assms(2) by (auto simp: vs_def expr_ok_def)
  have "LinearExpressionValue x ` set (la_exprs a) = vs" using assms(2) by (force simp: vs_def expr_ok_def)
  then have "foldl (\<lambda>m e. max m (LinearExpressionValue x e)) kint64min (la_exprs a) = Max (insert kint64min vs)"
    by (simp add: foldl_max_eq)
  also have "\<dots> = Max vs"
    using vs Max_in[OF vs(1,2)] by (simp add: Max_insert max_absorb2 less_imp_le)
  finally show ?thesis using False assms(1) by (simp add: LinMaxConstraintIsFeasible_def expr_ok_def vs_def)
qed

lemma all_diff_refinement:
  assumes "exprs_ok model x (ad_exprs a)"
  shows "AllDiffConstraintIsFeasible x a \<longleftrightarrow> meaning x model (kAllDiff a)"
  by (simp add: AllDiffConstraintIsFeasible_def all_diff_loop_eq exprs_values[OF assms])

lemma interval_refinement:
  assumes "expr_ok model x (expr_or_default (in_start i))" "expr_ok model x (expr_or_default (in_size i))"
    "expr_ok model x (expr_or_default (in_end i))"
  shows "IntervalConstraintIsFeasible x i \<longleftrightarrow> meaning x model (kInterval i)"
proof -
  have "in_int64 (opt_value x (in_start i) + opt_value x (in_size i))"
    using assms(1,2) unfolding expr_ok_def in_int64_def by linarith
  then show ?thesis using assms
    by (auto simp: IntervalConstraintIsFeasible_def IntervalStart_def IntervalSize_def IntervalEnd_def expr_ok_def)
qed

text \<open>The divisions: the denominator cannot be zero, and no quotient overflows.\<close>

lemma no_trap:
  assumes "expr_ok model x n" "expr_value x d \<noteq> 0" "expr_ok model x d"
  shows "\<not> division_traps (LinearExpressionValue x n) (LinearExpressionValue x d)"
  using assms by (auto simp: division_traps_def expr_ok_def)

lemma division_refinement:
  assumes "length (la_exprs a) = 2" "exprs_ok model x (la_exprs a)" "expr_ok model x (expr_or_default (la_target a))"
    "expr_value x (la_exprs a ! 1) \<noteq> 0"
  shows "IntDivConstraintIsFeasible x a = Some (meaning x model (kIntDiv a))"
    "IntModConstraintIsFeasible x a = Some (meaning x model (kIntMod a))"
proof -
  have ok: "expr_ok model x (la_exprs a ! 0)" "expr_ok model x (la_exprs a ! 1)"
    using assms(1,2) by (auto simp: nth_mem)
  show "IntDivConstraintIsFeasible x a = Some (meaning x model (kIntDiv a))"
    "IntModConstraintIsFeasible x a = Some (meaning x model (kIntMod a))"
    using no_trap[OF ok(1) assms(4) ok(2)] ok assms(3)
    by (simp_all add: IntDivConstraintIsFeasible_def IntModConstraintIsFeasible_def expr_ok_def)
qed

text \<open>A denominator with at most one variable that validation accepts is never zero.\<close>

lemma fixed_value:
  assumes ok: "expr_ok model x e" and fixed: "ExpressionIsFixed model e"
    and pos: "\<forall>v \<in> set (le_vars e). RefIsPositive v"
  shows "MinOfExpression model e = expr_value x e"
proof -
  have "min_term model (v, c) = max_term model (v, c)" if vc: "(v, c) \<in> set (zip (le_vars e) (le_coeffs e))" for v c
  proof (cases "c = 0")
    case True
    then show ?thesis by (simp add: min_term_def max_term_def CapProd_clamp clamp64_def)
  next
    case False
    then have "var_lb model v = var_ub model v"
      using fixed vc by (auto simp: ExpressionIsFixed_def list_all_iff Let_def var_lb_def var_ub_def)
    moreover have "RefIsPositive v" using pos vc by (meson set_zip_leftD)
    ultimately show ?thesis by (simp add: min_term_def max_term_def MinOfRef_def MaxOfRef_def)
  qed
  then have "MinOfExpression model e = MaxOfExpression model e"
    unfolding MinOfExpression_def MaxOfExpression_def by (intro foldl_cong) auto
  then show ?thesis using ok by (simp add: expr_ok_def)
qed

lemma root_of_affine:
  assumes "off + v * c = 0" "c \<noteq> 0" "\<bar>v\<bar> \<le> half" "in_int64 off" "off \<noteq> kint64min"
  shows "wrap64 (wrap64 (- off) sdiv c) = v" "wrap64 (wrap64 (v * c) + off) = 0"
proof -
  have neg: "in_int64 (- off)" "- off = v * c" using assms by (auto simp: in_int64_def)
  have "(v * c) sdiv c = v"
  proof (cases "0 < c")
    case False
    then have "(v * c) sdiv c = - ((- v * - c) sdiv (- c))" using sdiv_uminus_right[of "v * c" "- c"] by simp
    also have "(- v * - c) sdiv (- c) = - v" using False assms(2) by (intro sdiv_mult_self) simp
    finally show ?thesis by simp
  qed (rule sdiv_mult_self)
  moreover have "in_int64 v" using assms(3) by (auto simp: in_int64_def)
  ultimately show "wrap64 (wrap64 (- off) sdiv c) = v" using neg by simp
  have "wrap64 (v * c) = - off" using wrap64_id[OF neg(1)] unfolding neg(2) .
  then show "wrap64 (wrap64 (v * c) + off) = 0" by (simp add: wrap64_def)
qed

lemma affine_denominator_nonzero:
  assumes A: "assignment model x" and valid: "ValidateIntDivConstraint model a = Valid"
    and ok: "exprs_ok model x (la_exprs a)" and affine: "length (le_vars (la_exprs a ! 1)) \<le> 1"
    and refs: "refs_in_range model (le_vars (la_exprs a ! 1))" and typed: "expr_typed (la_exprs a ! 1)"
  shows "expr_value x (la_exprs a ! 1) \<noteq> 0"
proof
  define d where "d = la_exprs a ! 1"
  assume "expr_value x (la_exprs a ! 1) = 0"
  then have zero: "expr_value x d = 0" by (simp add: d_def)
  have two: "length (la_exprs a) = 2" using valid by (auto simp: ValidateIntDivConstraint_def split: if_split_asm)
  have d_valid: "ValidateLinearExpression model d = Valid"
    and rest: "(if ExpressionIsFixed model d then reject_if (ExpressionFixedValue model d = 0) ''Division by 0''
      else let coeff = hd (le_coeffs d) in if coeff = 0 then CheckFailed
        else let inverse_of_zero = wrap64 (wrap64 (- le_offset d) sdiv coeff)
          in reject_if (wrap64 (wrap64 (inverse_of_zero * coeff) + le_offset d) = 0 \<and>
               Domain_Contains (DomainOfRef model (hd (le_vars d))) inverse_of_zero)
             ''The domain of the divisor cannot contain 0'') = Valid"
    using valid two by (auto simp: ValidateIntDivConstraint_def valid_simps d_def Let_def split: if_split_asm)
  have d_ok: "expr_ok model x d" using ok two by (simp add: d_def)
  have len: "length (le_coeffs d) = length (le_vars d)" and pos: "\<forall>v \<in> set (le_vars d). RefIsPositive v"
    using d_valid by (auto simp: ValidateLinearExpression_def valid_simps split: if_split_asm)
  show False
  proof (cases "ExpressionIsFixed model d")
    case True
    then show ?thesis using rest fixed_value[OF d_ok True pos] zero by (simp add: ExpressionFixedValue_def valid_simps)
  next
    case False
    obtain v c where vc: "le_vars d = [v]" "le_coeffs d = [c]"
    proof (cases "le_vars d")
      case Nil
      then show ?thesis using False len by (simp add: ExpressionIsFixed_def)
    next
      case (Cons v vs)
      then show ?thesis using that affine len by (cases "le_coeffs d") (auto simp: d_def)
    qed
    have c: "c \<noteq> 0" using False vc by (auto simp: ExpressionIsFixed_def)
    have v: "0 \<le> v" "v < variables_size model"
      using refs pos vc by (auto simp: refs_in_range_def VariableReferenceIsValid_def RefIsPositive_def d_def)
    have AV: "variables_valid model" "in_domains model x" using A by (simp_all add: assignment_def)
    note b = in_domains_bounds(3)[OF AV v]
    have z: "le_offset d + elt x v * c = 0" using zero vc v(1) by (simp add: expr_value_def ref_value_def)
    have off: "in_int64 (le_offset d)" "le_offset d \<noteq> kint64min" using typed by (simp_all add: expr_typed_def d_def)
    note root = root_of_affine[OF z c b off]
    have nv: "nat v < length (m_variables model)" using v by (simp add: nat_less_iff)
    have "DomainInProtoContains (iv_domain (elt (m_variables model) v)) (elt x v)"
      using AV(2) list_all2_nthD[OF _ nv] unfolding in_domains_def elt_def by blast
    moreover have "\<forall>b \<in> set (iv_domain (elt (m_variables model) v)). in_int64 b"
      using AV(1) v by (auto simp: variables_valid_def domains_typed_def elt_def)
    ultimately have "Domain_Contains (DomainOfRef model v) (elt x v)"
      using Domain_Contains_iff[OF ReadDomainFromProto_spec(2)] ReadDomainFromProto_spec(1) v(1)
      by (simp add: DomainOfRef_def RefIsPositive_def PositiveRef_def NegatedRef_def)
    then show ?thesis using rest False vc c root by (simp add: Let_def valid_simps)
  qed
qed

section \<open>Products\<close>

text \<open>The interval of the products of the first expressions, while no bound is at an end of int64, holds
  the product; it grows in absolute value, so a result that is not at an end was never at one.\<close>

definition saturated :: "closed_interval \<Rightarrow> bool" where
  "saturated i \<longleftrightarrow> ci_end i \<ge> kint64max \<or> ci_start i \<le> - kint64max"

lemma product_domain_single: "Domain_ContinuousMultiplicationByDomain [i] [j] = [product_interval i j]"
  by (simp add: Domain_ContinuousMultiplicationByDomain_def std_sort_def)

lemma saturated_CapProd:
  assumes "kint64max \<le> \<bar>b\<bar>" "v \<noteq> 0"
  shows "CapProd b v \<ge> kint64max \<or> CapProd b v \<le> - kint64max"
proof -
  have "\<bar>b\<bar> * 1 \<le> \<bar>b\<bar> * \<bar>v\<bar>" using assms(2) by (intro mult_left_mono) simp_all
  then have "kint64max \<le> \<bar>b * v\<bar>" using assms(1) by (simp add: abs_mult)
  then show ?thesis by (auto simp: CapProd_clamp clamp64_def)
qed

lemma saturated_product:
  assumes "saturated i" "interval_ok i" "ci_start j \<noteq> 0 \<or> ci_end j \<noteq> 0"
  shows "saturated (product_interval i j)"
proof -
  obtain b where b: "b = ci_start i \<or> b = ci_end i" "kint64max \<le> \<bar>b\<bar>"
    using assms(1) unfolding saturated_def by force
  obtain v where v: "v = ci_start j \<or> v = ci_end j" "v \<noteq> 0" using assms(3) by blast
  have "CapProd b v \<le> ci_end (product_interval i j)" "ci_start (product_interval i j) \<le> CapProd b v"
    using b(1) v(1) by (auto simp: product_interval_def Let_def)
  then show ?thesis using saturated_CapProd[OF b(2) v(2)] by (auto simp: saturated_def)
qed

lemma product_domain_fold:
  assumes "exprs_ok model x es" "interval_ok i"
  obtains k where "foldl (product_domain_step model) [i] es = [k]" "interval_ok k" "saturated i \<Longrightarrow> saturated k"
proof -
  have "\<exists>k. foldl (product_domain_step model) [i] es = [k] \<and> interval_ok k \<and> (saturated i \<longrightarrow> saturated k)"
    using assms
  proof (induction es arbitrary: i)
    case (Cons e es)
    define j where "j = Interval (MinOfExpression model e) (MaxOfExpression model e)"
    have e: "MinOfExpression model e \<le> MaxOfExpression model e" "interval_ok j"
      using Cons.prems(1) by (auto simp: expr_ok_def interval_ok_def j_def)
    show ?case
    proof (cases "MinOfExpression model e = 0 \<and> MaxOfExpression model e = 0")
      case True
      then have "product_domain_step model [i] e = [i]" by (simp add: product_domain_step_def)
      then show ?thesis using Cons.IH[of i] Cons.prems by simp
    next
      case False
      have step: "product_domain_step model [i] e = [product_interval i j]"
        using e(1) unfolding product_domain_step_def Let_def if_not_P[OF False]
        by (simp add: Domain_range_def product_domain_single j_def)
      have "interval_ok (product_interval i j)" by (rule product_interval_spec(1)[OF Cons.prems(2) e(2)])
      moreover have "saturated i \<Longrightarrow> saturated (product_interval i j)"
        using saturated_product[OF _ Cons.prems(2), of j] False by (simp add: j_def)
      ultimately show ?thesis using Cons.IH[of "product_interval i j"] Cons.prems(1) step by auto
    qed
  qed auto
  then show ?thesis using that by blast
qed

lemma product_fold_exact:
  assumes "exprs_ok model x es" "interval_ok i" "foldl (product_domain_step model) [i] es = [k]" "\<not> saturated k"
    "in_int64 p" "p = 0 \<or> p \<in> ivals i"
  shows "foldl (\<lambda>p e. CapProd p (LinearExpressionValue x e)) p es = p * prod_list (map (expr_value x) es)"
  using assms
proof (induction es arbitrary: i p)
  case (Cons e es)
  define j where "j = Interval (MinOfExpression model e) (MaxOfExpression model e)"
  define v where "v = expr_value x e"
  have e: "LinearExpressionValue x e = v" "v \<in> ivals j" "interval_ok j" "ci_start j \<le> ci_end j"
    using Cons.prems(1) by (auto simp: expr_ok_def interval_ok_def j_def v_def)
  have rest: "exprs_ok model x es" using Cons.prems(1) by simp
  have "\<exists>i'. interval_ok i' \<and> product_domain_step model [i] e = [i'] \<and> CapProd p v = p * v \<and>
      (p * v = 0 \<or> p * v \<in> ivals i')"
  proof (cases "MinOfExpression model e = 0 \<and> MaxOfExpression model e = 0")
    case True
    then have "product_domain_step model [i] e = [i]" "v = 0"
      using e(2) by (simp_all add: product_domain_step_def j_def)
    then show ?thesis using Cons.prems(2) by (simp add: CapProd_exact in_int64_def)
  next
    case False
    define i' where "i' = product_interval i j"
    have ok: "interval_ok i'" unfolding i'_def by (rule product_interval_spec(1)[OF Cons.prems(2) e(3)])
    have step: "product_domain_step model [i] e = [i']"
      using e(4) unfolding product_domain_step_def Let_def if_not_P[OF False]
      by (simp add: Domain_range_def product_domain_single j_def i'_def)
    show ?thesis
    proof (cases "p = 0")
      case True
      then show ?thesis using ok step by (simp add: CapProd_exact in_int64_def)
    next
      case nz: False
      then have mem: "CapProd p v \<in> ivals i'"
        using product_interval_spec(2)[OF Cons.prems(2) e(3) _ e(2)] Cons.prems(6) by (simp add: i'_def)
      have "\<not> saturated i'"
        using product_domain_fold[OF rest ok] Cons.prems(3,4) step by (metis foldl_Cons list.inject)
      then have "\<not> AtMinOrMaxInt64 (CapProd p v)"
        using mem ok by (auto simp: saturated_def AtMinOrMaxInt64_def interval_ok_def in_int64_def)
      then have "CapProd p v = p * v" by (rule CapProd_not_capped)
      then show ?thesis using mem ok step by auto
    qed
  qed
  then obtain i' where i': "interval_ok i'" "product_domain_step model [i] e = [i']" "CapProd p v = p * v"
      "p * v = 0 \<or> p * v \<in> ivals i'" by blast
  have "in_int64 (p * v)" using in_int64_cap(3)[of p v] i'(3) by simp
  from Cons.IH[OF rest i'(1) _ Cons.prems(4) this i'(4)] show ?case
    using Cons.prems(3) i'(2,3) e(1) by (simp add: v_def mult.assoc)
qed simp

lemma clamp_equals_small: "\<bar>t\<bar> \<le> half \<Longrightarrow> t = clamp64 y \<longleftrightarrow> t = y" for t y :: int
  by (auto simp: clamp64_def)

lemma int_prod_refinement:
  assumes "expr_ok model x (expr_or_default (la_target a))" "exprs_ok model x (la_exprs a)"
    "ValidateIntProdConstraint model a = Valid"
  shows "IntProdConstraintIsFeasible x a \<longleftrightarrow> meaning x model (kIntProd a)"
proof -
  define fp where "fp = foldl (\<lambda>p e. CapProd p (LinearExpressionValue x e)) 1 (la_exprs a)"
  have t: "target_value x a = opt_value x (la_target a)" "\<bar>opt_value x (la_target a)\<bar> \<le> half"
    using assms(1) by (simp_all add: expr_ok_def)
  have "opt_value x (la_target a) = fp \<longleftrightarrow> opt_value x (la_target a) = prod_list (map (expr_value x) (la_exprs a))"
  proof (cases "length (la_exprs a) > 2")
    case True
    have one: "interval_ok (Interval 1 1)" by (simp add: interval_ok_def in_int64_def)
    obtain k where k: "foldl (product_domain_step model) [Interval 1 1] (la_exprs a) = [k]" "interval_ok k"
      using product_domain_fold[OF assms(2) one] by metis
    have "\<not> saturated k"
      using assms(3) True k(1)
      by (auto simp: ValidateIntProdConstraint_def valid_simps Let_def Domain_value_def Domain_Max_def Domain_Min_def
          saturated_def split: if_split_asm)
    from product_fold_exact[OF assms(2) one k(1) this, of 1] show ?thesis
      by (simp add: fp_def in_int64_def)
  next
    case False
    then consider "la_exprs a = []" | e where "la_exprs a = [e]" | e f where "la_exprs a = [e, f]"
      by (cases "la_exprs a"; cases "tl (la_exprs a)"; cases "tl (tl (la_exprs a))") auto
    then show ?thesis
    proof cases
      case 1
      then show ?thesis by (simp add: fp_def)
    next
      case (2 e)
      then have "in_int64 (expr_value x e)" using assms(2) by (auto intro: expr_ok_int64)
      then show ?thesis using 2 assms(2) by (simp add: fp_def CapProd_exact expr_ok_def)
    next
      case (3 e f)
      then have "in_int64 (expr_value x e)" using assms(2) by (auto intro: expr_ok_int64)
      then have "fp = clamp64 (expr_value x e * expr_value x f)"
        using 3 assms(2) by (simp add: fp_def CapProd_exact CapProd_clamp expr_ok_def)
      then show ?thesis using clamp_equals_small[OF t(2)] 3 by simp
    qed
  qed
  then show ?thesis using t(1) by (simp add: IntProdConstraintIsFeasible_def fp_def)
qed

end
