(* ===== verification/RefinementSched.thy ===== *)
theory RefinementSched
  imports Refinement
begin

text \<open>
  The scheduling half of the refinement: interval users, cumulative and reservoir constraints.
\<close>

section \<open>Intervals\<close>

text \<open>An interval constraint that holds, with its expressions.\<close>

definition good_interval :: "CpModelProto \<Rightarrow> int list \<Rightarrow> ConstraintProto \<Rightarrow> bool" where
  "good_interval model x ct \<longleftrightarrow>
     (ConstraintIsEnforced x ct \<longleftrightarrow> enforced x ct) \<and>
     expr_ok model x (expr_or_default (in_start (ct_interval ct))) \<and>
     expr_ok model x (expr_or_default (in_size (ct_interval ct))) \<and>
     expr_ok model x (expr_or_default (in_end (ct_interval ct))) \<and>
     (enforced x ct \<longrightarrow> 0 \<le> size_of x ct \<and> start_of x ct + size_of x ct = end_of x ct)"

lemma good_interval_values:
  assumes "good_interval model x ct"
  shows "IntervalStart x (ct_interval ct) = start_of x ct" "IntervalSize x (ct_interval ct) = size_of x ct"
    "IntervalEnd x (ct_interval ct) = end_of x ct"
    "in_int64 (start_of x ct)" "in_int64 (size_of x ct)" "in_int64 (end_of x ct)"
    "in_int64 (start_of x ct + size_of x ct)"
proof -
  show "IntervalStart x (ct_interval ct) = start_of x ct" "IntervalSize x (ct_interval ct) = size_of x ct"
    "IntervalEnd x (ct_interval ct) = end_of x ct"
    using assms by (simp_all add: good_interval_def IntervalStart_def IntervalSize_def IntervalEnd_def expr_ok_def)
  show "in_int64 (start_of x ct)" "in_int64 (size_of x ct)" "in_int64 (end_of x ct)"
    using assms unfolding good_interval_def by (blast intro: expr_ok_int64)+
  show "in_int64 (start_of x ct + size_of x ct)"
    using assms unfolding good_interval_def expr_ok_def in_int64_def by linarith
qed

abbreviation good_intervals :: "CpModelProto \<Rightarrow> int list \<Rightarrow> int32 list \<Rightarrow> bool" where
  "good_intervals model x is \<equiv> \<forall>i \<in> set is. good_interval model x (elt (m_constraints model) i)"

lemma enforced_intervals_eq:
  assumes "good_intervals model x is"
  shows "enforced_intervals x model is = map ct_interval (performed x model is)"
proof -
  have "filter (ConstraintIsEnforced x) (map (elt (m_constraints model)) is) =
      filter (enforced x) (map (elt (m_constraints model)) is)"
    using assms by (intro filter_cong) (auto simp: good_interval_def)
  then show ?thesis by (simp add: enforced_intervals_def performed_def)
qed

lemma performed_good:
  "good_intervals model x is \<Longrightarrow> ct \<in> set (performed x model is) \<Longrightarrow> good_interval model x ct \<and> enforced x ct"
  by (auto simp: performed_def)

lemma no_overlap_refinement:
  assumes "good_intervals model x (no_intervals a)"
  shows "NoOverlapConstraintIsFeasible x model a \<longleftrightarrow> meaning x model (kNoOverlap a)"
proof -
  note g = performed_good[OF assms]
  define ps where "ps = map (\<lambda>ct. (start_of x ct, size_of x ct)) (performed x model (no_intervals a))"
  have "map (\<lambda>i. (IntervalStart x i, IntervalSize x i)) (enforced_intervals x model (no_intervals a)) = ps"
    using good_interval_values(1,2)[OF conjunct1[OF g]] by (simp add: enforced_intervals_eq[OF assms] ps_def)
  moreover have "\<forall>(s, d) \<in> set ps. 0 \<le> d \<and> in_int64 s \<and> in_int64 (s + d)"
  proof -
    have "0 \<le> size_of x ct \<and> in_int64 (start_of x ct) \<and> in_int64 (start_of x ct + size_of x ct)"
      if "ct \<in> set (performed x model (no_intervals a))" for ct
      using g[OF that] good_interval_values(4,7)[OF conjunct1[OF g[OF that]]] by (simp add: good_interval_def)
    then show ?thesis by (auto simp: ps_def)
  qed
  ultimately show ?thesis
    using no_overlap_loop_spec[of ps] by (simp add: NoOverlapConstraintIsFeasible_def ps_def)
qed

section \<open>Rectangles\<close>

lemma Rectangle_IsDisjoint_symp: "symp Rectangle_IsDisjoint"
  using Rectangle_IsDisjoint_sym by (auto simp: symp_def)

lemma enforced_rectangles_eq:
  assumes "good_intervals model x (n2_x_intervals a)" "good_intervals model x (n2_y_intervals a)"
  shows "enforced_rectangles x model a = performed_boxes x model a"
    "r \<in> set (performed_boxes x model a) \<Longrightarrow> x_min r \<le> x_max r \<and> in_int64 (x_min r) \<and> in_int64 (x_max r) \<and>
      y_min r \<le> y_max r \<and> in_int64 (y_min r) \<and> in_int64 (y_max r)"
proof -
  define ps where "ps = zip (map (elt (m_constraints model)) (n2_x_intervals a)) (map (elt (m_constraints model)) (n2_y_intervals a))"
  have good: "good_interval model x (fst p) \<and> good_interval model x (snd p)" if "p \<in> set ps" for p
  proof -
    obtain i j where p: "p = (i, j)" by (cases p)
    have "i \<in> elt (m_constraints model) ` set (n2_x_intervals a)" "j \<in> elt (m_constraints model) ` set (n2_y_intervals a)"
      using set_zip_leftD[of i j] set_zip_rightD[of i j] that unfolding ps_def p set_map[symmetric] by blast+
    then show ?thesis using assms by (auto simp: p)
  qed
  have zip_eq: "map (\<lambda>(i, j). (elt (m_constraints model) i, elt (m_constraints model) j))
      (zip (n2_x_intervals a) (n2_y_intervals a)) = ps"
    by (simp add: ps_def zip_map_map)
  have same: "filter (\<lambda>(cx, cy). ConstraintIsEnforced x cx \<and> ConstraintIsEnforced x cy) ps =
      filter (\<lambda>(i, j). enforced x i \<and> enforced x j) ps"
    using good by (intro filter_cong) (auto simp: good_interval_def split_def)
  show "enforced_rectangles x model a = performed_boxes x model a"
    unfolding enforced_rectangles_def performed_boxes_def zip_eq same ps_def[symmetric]
  proof (rule map_cong[OF refl])
    fix p assume "p \<in> set (filter (\<lambda>(i, j). enforced x i \<and> enforced x j) ps)"
    then have "good_interval model x (fst p)" "good_interval model x (snd p)" using good[of p] by auto
    from good_interval_values(1,3)[OF this(1)] good_interval_values(1,3)[OF this(2)]
    show "(\<lambda>(cx, cy). \<lparr> x_min = IntervalStart x (ct_interval cx), x_max = IntervalEnd x (ct_interval cx),
          y_min = IntervalStart x (ct_interval cy), y_max = IntervalEnd x (ct_interval cy) \<rparr>) p =
        (\<lambda>(i, j). \<lparr> x_min = start_of x i, x_max = end_of x i, y_min = start_of x j, y_max = end_of x j \<rparr>) p"
      by (simp add: split_def)
  qed
  show "x_min r \<le> x_max r \<and> in_int64 (x_min r) \<and> in_int64 (x_max r) \<and>
      y_min r \<le> y_max r \<and> in_int64 (y_min r) \<and> in_int64 (y_max r)" if "r \<in> set (performed_boxes x model a)"
  proof -
    obtain p where p: "p \<in> set ps" "enforced x (fst p)" "enforced x (snd p)"
      "r = \<lparr> x_min = start_of x (fst p), x_max = end_of x (fst p), y_min = start_of x (snd p), y_max = end_of x (snd p) \<rparr>"
    proof -
      obtain i j where "(i, j) \<in> set ps" "enforced x i" "enforced x j"
        "r = \<lparr> x_min = start_of x i, x_max = end_of x i, y_min = start_of x j, y_max = end_of x j \<rparr>"
        using \<open>r \<in> set (performed_boxes x model a)\<close> unfolding performed_boxes_def ps_def[symmetric] by auto
      then show ?thesis using that[of "(i, j)"] by simp
    qed
    have g: "good_interval model x (fst p)" "good_interval model x (snd p)" using good[OF p(1)] by simp_all
    have "start_of x ct \<le> end_of x ct" if "good_interval model x ct" "enforced x ct" for ct
      using that unfolding good_interval_def by linarith
    then show ?thesis using p g good_interval_values(4,6)[OF g(1)] good_interval_values(4,6)[OF g(2)] by simp
  qed
qed

lemma pairwise_index: "(\<forall>j < length rs. \<forall>i < j. P (rs ! i) (rs ! j)) \<longleftrightarrow> sorted_wrt P rs"
  by (auto simp: sorted_wrt_iff_nth_less)

lemma no_overlap_2d_refinement:
  assumes len: "length (n2_x_intervals a) = length (n2_y_intervals a)"
    and good: "good_intervals model x (n2_x_intervals a)" "good_intervals model x (n2_y_intervals a)"
  shows "NoOverlap2DConstraintIsFeasible x model a = Some (meaning x model (kNoOverlap2D a))"
proof -
  define rs where "rs = sort_key x_min (performed_boxes x model a)"
  note boxes = enforced_rectangles_eq[OF good]
  have mset: "mset rs = mset (performed_boxes x model a)" by (simp add: rs_def)
  have ok: "r \<in> set rs \<Longrightarrow> x_min r \<le> x_max r \<and> in_int64 (x_min r) \<and> in_int64 (x_max r) \<and>
      y_min r \<le> y_max r \<and> in_int64 (y_min r) \<and> in_int64 (y_max r)" for r
    using boxes(2) by (simp add: rs_def)
  have "(if list_ex has_zero_size rs then FindOneIntersectionIfPresentWithZeroArea rs
      else FindOneIntersectionIfPresent rs) = None \<longleftrightarrow> sorted_wrt Rectangle_IsDisjoint rs"
  proof (cases "list_ex has_zero_size rs")
    case True
    have "rectangles_ok rs" using ok by (simp add: rectangles_ok_def axis_ok_def)
    then show ?thesis
      using True FindOneIntersectionIfPresentWithZeroArea_spec(1) pairwise_index by metis
  next
    case False
    have "\<forall>r \<in> set rs. proper r"
      using False ok by (force simp: list_ex_iff has_zero_size_def proper_def order_less_le)
    moreover have "sorted (map x_min rs)" by (simp add: rs_def)
    ultimately show ?thesis
      using False FindOneIntersectionIfPresent_spec(1)[of rs] pairwise_index[of rs Rectangle_IsDisjoint] by simp
  qed
  also have "\<dots> \<longleftrightarrow> sorted_wrt Rectangle_IsDisjoint (performed_boxes x model a)"
    by (rule sorted_wrt_mset[OF Rectangle_IsDisjoint_symp mset])
  finally have "(if list_ex has_zero_size rs then FindOneIntersectionIfPresentWithZeroArea rs
      else FindOneIntersectionIfPresent rs) = None \<longleftrightarrow> meaning x model (kNoOverlap2D a)" by simp
  then show ?thesis using len unfolding NoOverlap2DConstraintIsFeasible_def boxes(1) Let_def rs_def[symmetric] by simp
qed

section \<open>Cumulative\<close>

lemma sum_saturates_False:
  assumes "\<not> sum_saturates s vs" "0 \<le> s" "s \<le> kint64max" "\<forall>v \<in> set vs. 0 \<le> v"
  shows "s + sum_list vs \<le> kint64max"
  using assms
proof (induction vs arbitrary: s)
  case (Cons v vs)
  have "CapAdd s v = s + v" using Cons.prems by (auto simp: Let_def CapAdd_def AddOverflows_def CapWithSignOf_def in_int64_def split: if_split_asm)
  moreover have "CapAdd s v \<le> kint64max"
    using Cons.prems by (auto simp: Let_def CapAdd_def AddOverflows_def CapWithSignOf_def in_int64_def)
  ultimately show ?case using Cons.IH[of "s + v"] Cons.prems by (simp add: Let_def add.assoc)
qed simp

definition task_of :: "int list \<Rightarrow> CpModelProto \<Rightarrow> int32 \<times> LinearExpressionProto \<Rightarrow> int \<times> int \<times> int" where
  "task_of x model = (\<lambda>(i, d). let ct = elt (m_constraints model) i in (start_of x ct, size_of x ct, expr_value x d))"

lemma cumulative_events_eq:
  assumes "\<forall>(i, d) \<in> set zs. good_interval model x (elt (m_constraints model) i) \<and> expr_ok model x d"
  shows "concat (map (cumulative_events x model) zs) =
    concat (map task_events (map (task_of x model) (filter (\<lambda>(i, d). enforced x (elt (m_constraints model) i)) zs)))"
  using assms
proof (induction zs)
  case (Cons z zs)
  obtain i d where z: "z = (i, d)" by (cases z)
  define ct where "ct = elt (m_constraints model) i"
  have g: "good_interval model x ct" and d: "expr_ok model x d" using Cons.prems by (simp_all add: z ct_def)
  have demand: "LinearExpressionValue x d = expr_value x d" "in_int64 (- expr_value x d)"
    using d by (auto simp: expr_ok_def in_int64_def)
  have enf: "ConstraintIsEnforced x ct \<longleftrightarrow> enforced x ct" using g by (simp add: good_interval_def)
  have "cumulative_events x model z = (if enforced x ct then task_events (task_of x model z) else [])"
    unfolding cumulative_events_def task_of_def z prod.case Let_def ct_def[symmetric] enf
    using good_interval_values[OF g] demand by (simp add: task_events_def)
  then show ?case using Cons by (simp add: z ct_def[symmetric] split_def)
qed simp

lemma sum_demands:
  assumes "length is = length ds" "\<not> sum_saturates 0 (map (MaxOfExpression model) ds)"
    "\<forall>d \<in> set ds. expr_ok model x d \<and> 0 \<le> MinOfExpression model d"
  shows "sum_list (map (\<lambda>(i, d). expr_value x d) (filter P (zip is ds))) \<le> kint64max"
proof -
  have "sum_list (map (\<lambda>(i, d). expr_value x d) (filter P (zip is ds))) \<le> sum_list (map (MaxOfExpression model) ds)"
    using assms(1,3) by (induction "is" ds rule: list_induct2) (force simp: expr_ok_def)+
  also have "\<dots> \<le> kint64max"
    using sum_saturates_False[OF assms(2)] assms(3) by (force simp: expr_ok_def)
  finally show ?thesis .
qed

lemma cumulative_refinement:
  assumes len: "length (cu_intervals a) = length (cu_demands a)"
    and good: "good_intervals model x (cu_intervals a)"
    and demands: "\<forall>d \<in> set (cu_demands a). expr_ok model x d \<and> 0 \<le> MinOfExpression model d"
    and capacity: "expr_ok model x (expr_or_default (cu_capacity a))"
    and fits: "\<not> sum_saturates 0 (map (MaxOfExpression model) (cu_demands a))"
  shows "CumulativeConstraintIsFeasible x model a \<longleftrightarrow> meaning x model (kCumulative a)"
proof -
  define zs where "zs = zip (cu_intervals a) (cu_demands a)"
  define tasks where "tasks = performed_tasks x model a"
  define C where "C = opt_value x (cu_capacity a)"
  have tasks: "tasks = map (task_of x model) (filter (\<lambda>(i, d). enforced x (elt (m_constraints model) i)) zs)"
    by (simp add: tasks_def performed_tasks_def zs_def task_of_def)
  have zs: "good_interval model x (elt (m_constraints model) i) \<and> expr_ok model x d \<and> 0 \<le> expr_value x d"
    if "(i, d) \<in> set zs" for i d
    using that good demands unfolding zs_def
    by (meson expr_ok_def order_trans set_zip_leftD set_zip_rightD)
  have events: "concat (map (cumulative_events x model) zs) = concat (map task_events tasks)"
    unfolding tasks by (rule cumulative_events_eq) (use zs in auto)
  have nonneg: "\<forall>(s, p, d) \<in> set tasks. 0 \<le> p \<and> 0 \<le> d"
    using zs by (fastforce simp: tasks task_of_def Let_def good_interval_def)
  have total: "sum_list (map (\<lambda>(s, p, d). d) tasks) \<le> kint64max"
    using sum_demands[OF len fits demands, of "\<lambda>(i, d). enforced x (elt (m_constraints model) i)"]
    by (simp add: tasks zs_def task_of_def Let_def split_def comp_def)
  have "in_int64 (sum_list (map snd us))" if "sort (concat (map task_events tasks)) = us @ vs" for us vs
  proof -
    have "mset us \<subseteq># mset (concat (map task_events tasks))"
      using arg_cong[OF that, of mset] by simp
    then have "\<bar>sum_list (map snd us)\<bar> \<le> sum_list (map (\<lambda>(s, p, d). d) tasks)"
      by (intro sub_event_sums) (use nonneg in auto)
    then show ?thesis using total by (auto simp: in_int64_def)
  qed
  then have "0 \<le> C \<Longrightarrow> cumulative_loop C 0 (sort (concat (map task_events tasks))) \<longleftrightarrow> (\<forall>t. task_load tasks t \<le> C)"
    using cumulative_loop_spec[of C "concat (map task_events tasks)"] level_at_task_events[of tasks] nonneg
    by (simp add: split_def)
  moreover have "LinearExpressionValue x (expr_or_default (cu_capacity a)) = C"
    using capacity by (simp add: expr_ok_def C_def)
  ultimately show ?thesis
    unfolding CumulativeConstraintIsFeasible_def meaning.simps zs_def[symmetric] events tasks_def[symmetric] C_def[symmetric]
    by (auto simp: Let_def)
qed

section \<open>Reservoir\<close>

lemma abs_between: "lo \<le> v \<Longrightarrow> v \<le> hi \<Longrightarrow> in_int64 v \<Longrightarrow> \<bar>v\<bar> \<le> kint64max \<Longrightarrow> \<bar>v\<bar> \<le> max (CapAbs lo) (CapAbs hi)"
  for v :: int
  by (auto simp: CapAbs_def)

lemma CapAbs_nonneg: "0 \<le> CapAbs v"
  by (simp add: CapAbs_def)

lemma sum_selected:
  fixes f g :: "nat \<Rightarrow> int"
  assumes "\<And>k. k < n \<Longrightarrow> 0 \<le> f k \<and> f k \<le> g k"
  shows "sum_list (map f (filter P [0..<n])) \<le> sum_list (map g [0..<n])"
  using assms
proof (induction n)
  case (Suc n)
  then have "sum_list (map f (filter P [0..<n])) \<le> sum_list (map g [0..<n])" "0 \<le> f n \<and> f n \<le> g n" by simp_all
  then show ?case by auto
qed simp

lemma reservoir_refinement:
  assumes len: "length (re_level_changes a) = length (re_time_exprs a)"
    and times: "exprs_ok model x (re_time_exprs a)" and changes: "exprs_ok model x (re_level_changes a)"
    and active: "re_active_literals a \<noteq> [] \<Longrightarrow> length (re_active_literals a) = length (re_time_exprs a)"
      "\<forall>l \<in> set (re_active_literals a). 0 \<le> l \<and> (elt x l = 0 \<or> elt x l = 1)"
    and levels: "re_min_level a \<le> 0" "0 \<le> re_max_level a"
    and fits: "\<not> sum_saturates 0 (map (\<lambda>d. max (CapAbs (MinOfExpression model d)) (CapAbs (MaxOfExpression model d)))
        (re_level_changes a))"
  shows "ReservoirConstraintIsFeasible x a \<longleftrightarrow> meaning x model (kReservoir a)"
proof -
  define n where "n = length (re_time_exprs a)"
  define P where "P = (\<lambda>k. re_active_literals a = [] \<or> lit x (re_active_literals a ! k))"
  define M where "M = (\<lambda>d. max (CapAbs (MinOfExpression model d)) (CapAbs (MaxOfExpression model d)))"
  have value_k: "LinearExpressionValue x (re_time_exprs a ! k) = expr_value x (re_time_exprs a ! k)"
    "LinearExpressionValue x (re_level_changes a ! k) = expr_value x (re_level_changes a ! k)"
    "0 \<le> \<bar>expr_value x (re_level_changes a ! k)\<bar>" "\<bar>expr_value x (re_level_changes a ! k)\<bar> \<le> M (re_level_changes a ! k)"
    if "k < n" for k
  proof -
    have ok: "expr_ok model x (re_time_exprs a ! k)" "expr_ok model x (re_level_changes a ! k)"
      using that times changes len by (auto simp: n_def)
    show "LinearExpressionValue x (re_time_exprs a ! k) = expr_value x (re_time_exprs a ! k)"
      "LinearExpressionValue x (re_level_changes a ! k) = expr_value x (re_level_changes a ! k)"
      "0 \<le> \<bar>expr_value x (re_level_changes a ! k)\<bar>"
      using ok by (simp_all add: expr_ok_def)
    show "\<bar>expr_value x (re_level_changes a ! k)\<bar> \<le> M (re_level_changes a ! k)"
      unfolding M_def using ok(2) by (intro abs_between) (auto simp: expr_ok_def in_int64_def)
  qed
  have "Value x (re_active_literals a ! k) = 1 \<longleftrightarrow> lit x (re_active_literals a ! k)"
    if "k < n" "re_active_literals a \<noteq> []" for k
  proof -
    have "re_active_literals a ! k \<in> set (re_active_literals a)" using that active(1) by (simp add: n_def)
    then show ?thesis using active(2) by (auto simp: Value_def lit_def literal_value_def RefIsPositive_def)
  qed
  then have events: "reservoir_events x a = active_changes x a"
    unfolding reservoir_events_def active_changes_def Let_def
    using value_k(1,2) by (intro map_cong filter_cong) (auto simp: n_def[symmetric])
  have "abs_sum (active_changes x a) =
      sum_list (map (\<lambda>k. \<bar>expr_value x (re_level_changes a ! k)\<bar>) (filter P [0..<n]))"
    by (simp add: abs_sum_def active_changes_def P_def n_def comp_def)
  also have "\<dots> \<le> sum_list (map (\<lambda>k. M (re_level_changes a ! k)) [0..<n])"
    by (rule sum_selected) (use value_k(3,4) in blast)
  also have "map (\<lambda>k. M (re_level_changes a ! k)) [0..<n] = map M (re_level_changes a)"
    unfolding n_def len[symmetric] by (rule nth_equalityI) simp_all
  also have "sum_list (map M (re_level_changes a)) \<le> kint64max"
    using sum_saturates_False[OF fits] CapAbs_nonneg by (simp add: M_def le_max_iff_disj)
  finally show ?thesis
    using reservoir_loop_spec[OF _ levels] by (simp add: ReservoirConstraintIsFeasible_def events)
qed

end
