(* ===== verification/RefinementGraph.thy ===== *)
theory RefinementGraph
  imports Refinement
begin

text \<open>
  The refinement for the constraints that index arrays or walk a graph: element, table, automaton,
  inverse, circuit and routes.
\<close>

section \<open>Values of legacy variables\<close>

lemma index_values:
  assumes "assignment model x" "\<forall>v \<in> set vs. VariableIndexIsValid model v"
  shows "map (Value x) vs = map (elt x) vs"
  using assms(2) by (simp add: VariableIndexIsValid_def Value_def)

section \<open>Element\<close>

lemma element_refinement:
  assumes legacy: "el_vars e \<noteq> [] \<Longrightarrow> VariableIndexIsValid model (el_index e) \<and> VariableIndexIsValid model (el_target e) \<and>
      (\<forall>v \<in> set (el_vars e). VariableIndexIsValid model v) \<and> in_int32 (elt x (el_index e))"
    and linear: "el_vars e = [] \<Longrightarrow> expr_ok model x (expr_or_default (el_linear_index e)) \<and>
      expr_ok model x (expr_or_default (el_linear_target e)) \<and> exprs_ok model x (el_exprs e) \<and>
      in_int32 (opt_value x (el_linear_index e))"
  shows "ElementConstraintIsFeasible x e \<longleftrightarrow> meaning x model (kElement e)"
proof (cases "el_vars e = []")
  case False
  define i where "i = elt x (el_index e)"
  have v: "Value x (el_index e) = i" "Value x (el_target e) = elt x (el_target e)" "wrap32 i = i"
    using legacy[OF False] by (simp_all add: i_def Value_def VariableIndexIsValid_def)
  have "Value x (elt (el_vars e) i) = map (elt x) (el_vars e) ! nat i" if "0 \<le> i" "i < int (length (el_vars e))"
  proof -
    have "el_vars e ! nat i \<in> set (el_vars e)" using that by (intro nth_mem) (simp add: nat_less_iff)
    then show ?thesis using that legacy[OF False] by (simp add: Value_def elt_def VariableIndexIsValid_def nat_less_iff)
  qed
  then show ?thesis using False v by (auto simp: ElementConstraintIsFeasible_def Let_def select_def i_def)
next
  case True
  define i where "i = opt_value x (el_linear_index e)"
  have v: "LinearExpressionValue x (expr_or_default (el_linear_index e)) = i"
    "LinearExpressionValue x (expr_or_default (el_linear_target e)) = opt_value x (el_linear_target e)" "wrap32 i = i"
    using linear[OF True] by (simp_all add: i_def expr_ok_def)
  have "LinearExpressionValue x (elt (el_exprs e) i) = map (expr_value x) (el_exprs e) ! nat i"
    if "0 \<le> i" "i < int (length (el_exprs e))"
  proof -
    have "el_exprs e ! nat i \<in> set (el_exprs e)" using that by (intro nth_mem) (simp add: nat_less_iff)
    then show ?thesis using that linear[OF True] by (simp add: elt_def expr_ok_def nat_less_iff)
  qed
  then show ?thesis using True v by (auto simp: ElementConstraintIsFeasible_def Let_def select_def i_def)
qed

section \<open>Table\<close>

lemma table_refinement:
  assumes A: "assignment model x" and valid: "ValidateTableConstraint model a = Valid"
    and ok: "exprs_ok model x (ta_exprs a)"
  shows "TableConstraintIsFeasible x a \<longleftrightarrow> meaning x model (kTable a)"
proof -
  define sol where "sol = table_tuple x a"
  have one: "ta_vars a = [] \<or> ta_exprs a = []"
    using valid by (auto simp: ValidateTableConstraint_def split: if_split_asm)
  have "\<forall>v \<in> set (ta_vars a). VariableIndexIsValid model v"
    using valid by (auto simp: ValidateTableConstraint_def Let_def valid_simps split: if_split_asm)
  then have sol: "table_solution x a = sol"
    using one exprs_values[OF ok] index_values[OF A] by (auto simp: table_solution_def sol_def table_tuple_def)
  show ?thesis
  proof (cases "sol = []")
    case True
    then show ?thesis using sol by (simp add: TableConstraintIsFeasible_def sol_def[symmetric])
  next
    case False
    have "length sol dvd length (ta_values a)"
      using valid False one by (auto simp: ValidateTableConstraint_def Let_def sol_def table_tuple_def mod_eq_0_iff_dvd split: if_split_asm)
    from table_rows_eq[OF False this] show ?thesis
      using False sol by (auto simp: TableConstraintIsFeasible_def Let_def sol_def[symmetric])
  qed
qed

section \<open>Automaton\<close>

lemma automaton_transitions_distinct:
  assumes "automaton_transitions m arcs = Valid"
  shows "distinct (map (\<lambda>(t, h, l). (t, l)) arcs)" "\<forall>(t, h, l) \<in> set arcs. m (t, l) = None"
proof -
  have "distinct (map (\<lambda>(t, h, l). (t, l)) arcs) \<and> (\<forall>(t, h, l) \<in> set arcs. m (t, l) = None)"
    using assms
  proof (induction arcs arbitrary: m)
    case (Cons arc arcs)
    obtain t h l where arc: "arc = (t, h, l)" by (cases arc)
    have none: "m (t, l) = None" and rest: "automaton_transitions (m((t, l) \<mapsto> h)) arcs = Valid"
      using Cons.prems by (auto simp: arc split: if_split_asm option.splits)
    have IH: "distinct (map (\<lambda>(t, h, l). (t, l)) arcs)"
      "\<And>t' h' l'. (t', h', l') \<in> set arcs \<Longrightarrow> (m((t, l) \<mapsto> h)) (t', l') = None"
      using Cons.IH[OF rest] by auto
    have "(t', l') \<noteq> (t, l) \<and> m (t', l') = None" if "(t', h', l') \<in> set arcs" for t' h' l'
      using IH(2)[OF that] by (auto split: if_split_asm)
    then show ?case using IH(1) none by (force simp: arc)
  qed simp
  then show "distinct (map (\<lambda>(t, h, l). (t, l)) arcs)" "\<forall>(t, h, l) \<in> set arcs. m (t, l) = None" by blast+
qed

lemma automaton_walk_accepts:
  assumes "\<And>q l r. m (q, l) = Some r \<longleftrightarrow> (q, r, l) \<in> set arcs"
  shows "(case automaton_walk m q ls of None \<Rightarrow> False | Some s \<Rightarrow> s \<in> set finals) \<longleftrightarrow> accepts arcs finals q ls"
proof (induction ls arbitrary: q)
  case (Cons l ls)
  show ?case
  proof (cases "m (q, l)")
    case None
    then have "\<not> accepts arcs finals q (l # ls)" using assms[of q l] by auto
    then show ?thesis using None by simp
  next
    case (Some r)
    then have "r' = r" if "(q, r', l) \<in> set arcs" for r' using assms[of q l r'] that by simp
    moreover have "(q, r, l) \<in> set arcs" using Some assms[of q l r] by simp
    ultimately have "accepts arcs finals q (l # ls) \<longleftrightarrow> accepts arcs finals r ls"
      unfolding accepts.simps by blast
    then show ?thesis using Some Cons.IH[of r] by simp
  qed
qed simp

lemma transition_map_arcs:
  assumes "automaton_transitions (\<lambda>_. None) (automaton_arcs a) = Valid"
  shows "transition_map a (q, l) = Some r \<longleftrightarrow> (q, r, l) \<in> set (automaton_arcs a)"
  using foldl_transition_map[OF automaton_transitions_distinct[OF assms]]
  by (simp add: transition_map_def automaton_arcs_def)

lemma automaton_feasible_accepts:
  assumes "\<And>q l r. transition_map a (q, l) = Some r \<longleftrightarrow> (q, r, l) \<in> set (automaton_arcs a)"
  shows "AutomatonConstraintIsFeasible x a \<longleftrightarrow>
    accepts (automaton_arcs a) (au_final_states a) (au_starting_state a) (automaton_labels x a)"
  using automaton_walk_accepts[OF assms]
  by (simp add: AutomatonConstraintIsFeasible_def list_ex_iff cong: option.case_cong)

lemma automaton_refinement:
  assumes A: "assignment model x" and valid: "ValidateAutomatonConstraint model a = Valid"
    and ok: "exprs_ok model x (au_exprs a)"
  shows "AutomatonConstraintIsFeasible x a \<longleftrightarrow> meaning x model (kAutomaton a)"
proof -
  have "\<forall>v \<in> set (au_vars a). VariableIndexIsValid model v"
    and steps: "automaton_transitions (\<lambda>_. None) (automaton_arcs a) = Valid"
    using valid by (auto simp: ValidateAutomatonConstraint_def valid_simps split: if_split_asm)
  then have "automaton_labels x a = automaton_word x a"
    using exprs_values[OF ok] index_values[OF A] by (auto simp: automaton_labels_def automaton_word_def)
  then show ?thesis using automaton_feasible_accepts[OF transition_map_arcs[OF steps]] by simp
qed

section \<open>Inverse\<close>

lemma inverse_loop_refinement:
  assumes vals: "\<And>i. i < n \<Longrightarrow> direct (int i) = f ! i" "\<And>i. i < n \<Longrightarrow> reverse (int i) = g ! i"
    and len: "length f = n" "length g = n" and fits: "\<And>i. i < n \<Longrightarrow> in_int32 (f ! i)"
  shows "inverse_loop direct reverse (int n) [0..int n - 1] \<longleftrightarrow> inverse_of f g"
proof -
  have "inverse_loop direct reverse (int n) [0..int n - 1] \<longleftrightarrow>
      (\<forall>i < n. 0 \<le> f ! i \<and> f ! i < int n \<and> g ! nat (f ! i) = int i)"
  proof -
    have "set [0..int n - 1] = int ` {..<n}"
      by (auto simp: image_iff) (metis lessThan_iff nat_0_le nat_less_iff zle_diff1_eq)
    then have "(\<forall>i \<in> set [0..int n - 1]. P i) \<longleftrightarrow> (\<forall>i < n. P (int i))" for P
      by auto
    moreover have "reverse (f ! i) = g ! nat (f ! i)" if "i < n" "0 \<le> f ! i" "f ! i < int n" for i
      using vals(2)[of "nat (f ! i)"] that by (simp add: nat_less_iff)
    ultimately show ?thesis using vals(1) fits by (auto simp: inverse_loop_iff)
  qed
  also have "\<dots> \<longleftrightarrow> inverse_of f g"
  proof
    assume L: "\<forall>i < n. 0 \<le> f ! i \<and> f ! i < int n \<and> g ! nat (f ! i) = int i"
    have left: "0 \<le> f ! nat i \<and> f ! nat i < int n \<and> g ! nat (f ! nat i) = i" if "0 \<le> i" "i < int n" for i
      using L[rule_format, of "nat i"] that by (simp add: nat_less_iff)
    have iff: "f ! i = int j \<longleftrightarrow> g ! j = int i" if "i < n" "j < n" for i j
      using left_inverse_sufficient[of "int n" "\<lambda>i. f ! nat i" "\<lambda>i. g ! nat i" "int i" "int j"] left that by simp
    have "0 \<le> g ! i \<and> g ! i < int n" if i: "i < n" for i
    proof -
      define F where "F = (\<lambda>k. nat (f ! k))"
      have "inj_on F {..<n}"
      proof (rule inj_onI)
        fix a b assume "a \<in> {..<n}" "b \<in> {..<n}" "F a = F b"
        then have "int a = int b" using L unfolding F_def by (metis lessThan_iff)
        then show "a = b" by simp
      qed
      moreover have "F ` {..<n} \<subseteq> {..<n}" using L by (auto simp: F_def nat_less_iff)
      ultimately have "F ` {..<n} = {..<n}" by (simp add: endo_inj_surj)
      then obtain k where "k < n" "F k = i" using i by (metis imageE lessThan_iff)
      then show ?thesis using L by (auto simp: F_def)
    qed
    then show "inverse_of f g" using L iff len by (simp add: inverse_of_def)
  next
    assume R: "inverse_of f g"
    show "\<forall>i < n. 0 \<le> f ! i \<and> f ! i < int n \<and> g ! nat (f ! i) = int i"
    proof (intro allI impI)
      fix i assume i: "i < n"
      have b: "0 \<le> f ! i" "f ! i < int n" using R i len by (auto simp: inverse_of_def)
      then have "f ! i = int (nat (f ! i))" "nat (f ! i) < n" by (auto simp: nat_less_iff)
      then show "0 \<le> f ! i \<and> f ! i < int n \<and> g ! nat (f ! i) = int i"
        using R i len b unfolding inverse_of_def by metis
    qed
  qed
  finally show ?thesis .
qed

lemma inverse_refinement:
  assumes A: "assignment model x" and valid: "ValidateInverseConstraint model a = Valid"
    and ok: "exprs_ok model x (inv_f_expr_direct a)" "exprs_ok model x (inv_f_expr_inverse a)"
    and fits: "\<forall>v \<in> set (inv_f_direct a). in_int32 (elt x v)" "\<forall>e \<in> set (inv_f_expr_direct a). in_int32 (expr_value x e)"
  shows "InverseConstraintIsFeasible x a \<longleftrightarrow> meaning x model (kInverse a)"
proof -
  have len: "length (inv_f_direct a) = length (inv_f_inverse a)"
    "length (inv_f_expr_direct a) = length (inv_f_expr_inverse a)"
    using valid by (auto simp: ValidateInverseConstraint_def split: if_split_asm)
  have idx: "\<forall>v \<in> set (inv_f_direct a). VariableIndexIsValid model v" "\<forall>v \<in> set (inv_f_inverse a). VariableIndexIsValid model v"
    using valid len(1) by (auto simp: ValidateInverseConstraint_def valid_simps split: if_split_asm)
  have "inverse_loop (\<lambda>i. Value x (elt (inv_f_direct a) i)) (\<lambda>i. Value x (elt (inv_f_inverse a) i))
      (int (length (inv_f_direct a))) [0..int (length (inv_f_direct a)) - 1] \<longleftrightarrow>
    inverse_of (map (elt x) (inv_f_direct a)) (map (elt x) (inv_f_inverse a))"
    using idx fits(1) len(1) by (intro inverse_loop_refinement) (auto simp: Value_def VariableIndexIsValid_def)
  moreover have "inverse_loop (\<lambda>i. LinearExpressionValue x (elt (inv_f_expr_direct a) i))
      (\<lambda>i. LinearExpressionValue x (elt (inv_f_expr_inverse a) i))
      (int (length (inv_f_expr_direct a))) [0..int (length (inv_f_expr_direct a)) - 1] \<longleftrightarrow>
    inverse_of (map (expr_value x) (inv_f_expr_direct a)) (map (expr_value x) (inv_f_expr_inverse a))"
    using ok fits(2) len(2) by (intro inverse_loop_refinement) (auto simp: expr_ok_def)
  ultimately show ?thesis using len by (simp add: InverseConstraintIsFeasible_def)
qed

section \<open>Graphs\<close>

lemma true_arcs_eq:
  assumes "assignment model x" "literals_valid model ls"
  shows "used_arcs x (zip ts (zip hs ls)) = true_arcs x (zip ts (zip hs ls))"
proof -
  have "LiteralIsTrue x l \<longleftrightarrow> lit x l" if "(t, h, l) \<in> set (zip ts (zip hs ls))" for t h l
    using literal_true(1)[OF assms(1)] assms(2) that unfolding literals_valid_def
    by (meson set_zip_rightD)
  then have "filter (\<lambda>(t, h, l). LiteralIsTrue x l) (zip ts (zip hs ls)) = filter (\<lambda>(t, h, l). lit x l) (zip ts (zip hs ls))"
    by (intro filter_cong) auto
  then show ?thesis by (simp add: used_arcs_def true_arcs_def)
qed

lemma circuit_refinement:
  assumes A: "assignment model x" "literals_valid model (ci_literals a)"
    and valid: "ValidateGraphInput False (ci_tails a) (ci_heads a) (ci_literals a) = Valid"
  shows "CircuitConstraintIsFeasible x a = Some (meaning x model (kCircuit a))"
proof -
  have "length (circuit_arcs a) = length (ci_tails a)"
    using valid by (auto simp: ValidateGraphInput_def circuit_arcs_def split: if_split_asm)
  then show ?thesis using CircuitConstraintIsFeasible_eq[of x a] true_arcs_eq[OF A] by (simp add: circuit_arcs_def)
qed

lemma routes_refinement:
  assumes A: "assignment model x" "literals_valid model (ro_literals a)"
    and valid: "ValidateRoutesConstraint model a = Valid"
  shows "RoutesConstraintIsFeasible x a = Some (meaning x model (kRoutes a))"
proof -
  have "\<forall>n \<in> set (ro_tails a @ ro_heads a). 0 \<le> n"
  proof -
    have "for_all (\<lambda>n. reject_if (n < 0) ''All node in a route constraint must be in [0, num_nodes)'')
        (ro_tails a @ ro_heads a) = Valid"
      using valid unfolding ValidateRoutesConstraint_def and_then_Valid by (rule conjunct1)
    then show ?thesis unfolding for_all_Valid reject_if_Valid not_less .
  qed
  then have nodes: "0 \<le> t \<and> 0 \<le> h" if "(t, h, l) \<in> set (routes_arcs a)" for t h l
  proof -
    have "t \<in> set (ro_tails a)" "h \<in> set (ro_heads a)"
      using that unfolding routes_arcs_def by (blast dest: set_zip_leftD set_zip_rightD)+
    then show ?thesis using \<open>\<forall>n \<in> _. 0 \<le> n\<close> by simp
  qed
  have "ValidateGraphInput True (ro_tails a) (ro_heads a) (ro_literals a) = Valid"
    using valid by (auto simp: ValidateRoutesConstraint_def and_then_Valid Let_def split: if_split_asm)
  then have "length (ro_heads a) = length (ro_tails a)" "length (ro_literals a) = length (ro_tails a)"
    by (auto simp: ValidateGraphInput_def split: if_split_asm)
  with RoutesConstraintIsFeasible_eq[OF nodes] show ?thesis
    using true_arcs_eq[OF A] by (simp add: routes_arcs_def)
qed

end
