(* ===== verification/RefinementModel.thy ===== *)
theory RefinementModel
  imports RefinementSched RefinementGraph
begin

text \<open>
  The refinement for a whole model: on a model that \<open>ValidateCpModel\<close> accepts, \<open>SolutionIsFeasible\<close>
  always returns, and returns whether the assignment solves the model.
\<close>

section \<open>The corner cases\<close>

text \<open>The expressions that the check of a constraint evaluates.\<close>

fun case_exprs :: "ConstraintCase \<Rightarrow> LinearExpressionProto list" where
  "case_exprs (kIntDiv a) = expr_or_default (la_target a) # la_exprs a"
| "case_exprs (kIntMod a) = expr_or_default (la_target a) # la_exprs a"
| "case_exprs (kIntProd a) = expr_or_default (la_target a) # la_exprs a"
| "case_exprs (kLinMax a) = expr_or_default (la_target a) # la_exprs a"
| "case_exprs (kAllDiff a) = ad_exprs a"
| "case_exprs (kElement e) =
     (if el_vars e = [] then expr_or_default (el_linear_index e) # expr_or_default (el_linear_target e) # el_exprs e else [])"
| "case_exprs (kTable a) = ta_exprs a"
| "case_exprs (kAutomaton a) = au_exprs a"
| "case_exprs (kInverse a) = inv_f_expr_direct a @ inv_f_expr_inverse a"
| "case_exprs (kReservoir a) = re_time_exprs a @ re_level_changes a"
| "case_exprs (kInterval a) = [expr_or_default (in_start a), expr_or_default (in_size a), expr_or_default (in_end a)]"
| "case_exprs (kCumulative a) = expr_or_default (cu_capacity a) # cu_demands a"
| "case_exprs _ = []"

text \<open>Where the code departs from the meaning on a model it accepts: a denominator of several
  variables is not checked, an index is cut to 32 bits, and a negated literal of a reservoir is never
  seen as true.\<close>

fun regular_case :: "int list \<Rightarrow> ConstraintCase \<Rightarrow> bool" where
  "regular_case x (kIntDiv a) \<longleftrightarrow> length (le_vars (la_exprs a ! 1)) \<le> 1"
| "regular_case x (kElement e) \<longleftrightarrow>
     in_int32 (if el_vars e = [] then opt_value x (el_linear_index e) else elt x (el_index e))"
| "regular_case x (kInverse a) \<longleftrightarrow>
     list_all (\<lambda>v. in_int32 (elt x v)) (inv_f_direct a) \<and> list_all (\<lambda>e. in_int32 (expr_value x e)) (inv_f_expr_direct a)"
| "regular_case x (kReservoir a) \<longleftrightarrow> list_all (\<lambda>l. 0 \<le> l) (re_active_literals a)"
| "regular_case x _ \<longleftrightarrow> True"

definition regular :: "int list \<Rightarrow> ConstraintCase \<Rightarrow> bool" where
  "regular x c \<longleftrightarrow> list_all expr_typed (case_exprs c) \<and> regular_case x c"

section \<open>What validation says of the expressions\<close>

abbreviation case_variables :: "ConstraintCase \<Rightarrow> int32 list" where
  "case_variables c \<equiv> ir_variables (GetReferencesUsedByCase c)"

abbreviation case_literals :: "ConstraintCase \<Rightarrow> int32 list" where
  "case_literals c \<equiv> ir_literals (GetReferencesUsedByCase c)"

lemma set_exprs_vars: "e \<in> set es \<Longrightarrow> set (le_vars e) \<subseteq> set (exprs_vars es)"
  by (auto simp: exprs_vars_def)

lemma two_elements: "length es = 2 \<Longrightarrow> e \<in> set es \<longleftrightarrow> e = es ! 0 \<or> e = es ! 1"
  by (auto simp: in_set_conv_nth less_2_cases_iff)

lemma interval_exprs_valid:
  assumes "ValidateIntervalConstraint model b a = Valid"
  shows "ValidateLinearExpression model (expr_or_default (in_start a)) = Valid"
    "ValidateLinearExpression model (expr_or_default (in_size a)) = Valid"
    "ValidateLinearExpression model (expr_or_default (in_end a)) = Valid"
  using assms unfolding ValidateIntervalConstraint_def Let_def
  by (simp_all only: and_then_Valid validation.distinct simp_thms split: if_split_asm)

lemma element_valid:
  assumes "ValidateElementConstraint model e = Valid"
  shows "el_vars e = [] \<Longrightarrow> \<not> element_is_legacy e \<and> element_is_linear e"
    "el_vars e = [] \<Longrightarrow> ValidateLinearExpression model (expr_or_default (el_linear_index e)) = Valid \<and>
       ValidateLinearExpression model (expr_or_default (el_linear_target e)) = Valid \<and>
       (\<forall>e' \<in> set (el_exprs e). ValidateLinearExpression model e' = Valid)"
    "el_vars e \<noteq> [] \<Longrightarrow> VariableIndexIsValid model (el_index e) \<and> VariableIndexIsValid model (el_target e) \<and>
       (\<forall>v \<in> set (el_vars e). VariableIndexIsValid model v)"
  using assms
  by (auto simp: ValidateElementConstraint_def Let_def valid_simps element_is_legacy_def element_is_linear_def
      element_expr_overflow_def element_vars_overflow_def split: if_split_asm)

lemma case_exprs_valid:
  assumes "ValidateConstraintByCase model b c = Valid" "ValidateIntervalUser model c = Valid" "e \<in> set (case_exprs c)"
  shows "ValidateLinearExpression model e = Valid \<and> set (le_vars e) \<subseteq> set (case_variables c)"
proof (cases c)
  case (kElement el)
  then show ?thesis using assms element_valid[of model el] set_exprs_vars[of e "el_exprs el"]
    by (auto split: if_split_asm)
next
  case (kIntDiv a)
  then have len: "length (la_exprs a) = 2"
    using assms(1) by (auto simp: ValidateIntDivConstraint_def split: if_split_asm)
  show ?thesis using kIntDiv assms set_exprs_vars[of e "la_exprs a"] two_elements[OF len]
    by (auto simp: ValidateIntDivConstraint_def valid_simps linear_argument_vars_def split: if_split_asm)
next
  case (kIntMod a)
  then have len: "length (la_exprs a) = 2"
    using assms(1) by (auto simp: ValidateIntModConstraint_def split: if_split_asm)
  show ?thesis using kIntMod assms set_exprs_vars[of e "la_exprs a"] two_elements[OF len]
    by (auto simp: ValidateIntModConstraint_def valid_simps linear_argument_vars_def split: if_split_asm)
next
  case (kInterval a)
  then show ?thesis using assms interval_exprs_valid[of model b a] by auto
next
  case (kTable a)
  then show ?thesis using assms set_exprs_vars[of e "ta_exprs a"]
    by (auto simp: ValidateTableConstraint_def Let_def valid_simps split: if_split_asm)
next
  case (kAutomaton a)
  then show ?thesis using assms set_exprs_vars[of e "au_exprs a"]
    by (auto simp: ValidateAutomatonConstraint_def valid_simps split: if_split_asm)
next
  case (kInverse a)
  then show ?thesis
    using assms set_exprs_vars[of e "inv_f_expr_direct a"] set_exprs_vars[of e "inv_f_expr_inverse a"]
    by (auto simp: ValidateInverseConstraint_def valid_simps split: if_split_asm)
next
  case (kReservoir a)
  then show ?thesis
    using assms set_exprs_vars[of e "re_time_exprs a"] set_exprs_vars[of e "re_level_changes a"]
    by (auto simp: ValidateReservoirConstraint_def valid_simps split: if_split_asm)
next
  case (kCumulative a)
  then show ?thesis using assms set_exprs_vars[of e "cu_demands a"]
    by (auto simp: ValidateCumulativeConstraint_def valid_simps split: if_split_asm)
qed (use assms set_exprs_vars in \<open>auto simp: ValidateIntProdConstraint_def valid_simps linear_argument_vars_def split: if_split_asm\<close>)

section \<open>One constraint\<close>

definition constraint_valid :: "bool \<Rightarrow> CpModelProto \<Rightarrow> ConstraintProto \<Rightarrow> bool" where
  "constraint_valid b model ct \<longleftrightarrow>
     ValidateVariablesUsedInConstraint model ct = Valid \<and>
     ValidateConstraintByCase model (HasEnforcementLiteral ct) (ct_constraint ct) = Valid \<and>
     ValidateIntervalUser model (ct_constraint ct) = Valid \<and>
     (\<forall>i \<in> set (UsedIntervalsOfCase (ct_constraint ct)).
        0 \<le> i \<and> i < constraints_size model \<and> is_interval (elt (m_constraints model) i))"

lemma constraint_references:
  assumes "constraint_valid b model ct"
  shows "refs_in_range model (case_variables (ct_constraint ct))" "literals_valid model (case_literals (ct_constraint ct))"
    "literals_valid model (ct_enforcement_literal ct)"
  using assms by (simp_all add: constraint_valid_def ValidateVariablesUsedInConstraint_def Let_def valid_simps
      GetReferencesUsedByConstraint_def refs_in_range_def literals_valid_def)

lemma constraint_exprs_ok:
  assumes "assignment model x" "constraint_valid b model ct" "regular x (ct_constraint ct)"
  shows "exprs_ok model x (case_exprs (ct_constraint ct))"
proof
  fix e assume e: "e \<in> set (case_exprs (ct_constraint ct))"
  have v: "ValidateLinearExpression model e = Valid" "set (le_vars e) \<subseteq> set (case_variables (ct_constraint ct))"
    using case_exprs_valid[OF _ _ e] assms(2) unfolding constraint_valid_def by blast+
  have "refs_in_range model (le_vars e)"
    using v(2) constraint_references(1)[OF assms(2)] by (auto simp: refs_in_range_def)
  moreover have "expr_typed e" using assms(3) e by (simp add: regular_def list_all_iff)
  ultimately show "expr_ok model x e" using validated_expr_ok[OF assms(1) v(1)] by blast
qed

lemma enforced_eq:
  assumes "assignment model x" "constraint_valid b model ct"
  shows "ConstraintIsEnforced x ct \<longleftrightarrow> enforced x ct"
  using literals_facts(3)[OF assms(1) constraint_references(3)[OF assms(2)]]
  by (simp add: ConstraintIsEnforced_def enforced_def)

text \<open>The constraints other than the users of intervals.\<close>

lemma plain_case_refinement:
  assumes A: "assignment model x" and valid: "constraint_valid b model ct" and reg: "regular x (ct_constraint ct)"
    and plain: "\<not> uses_intervals (ct_constraint ct)"
  shows "ConstraintCaseIsFeasible x model (ct_constraint ct) = Some (meaning x model (ct_constraint ct))"
proof -
  note ok = constraint_exprs_ok[OF A valid reg]
  note refs = constraint_references[OF valid]
  have case_valid: "ValidateConstraintByCase model (HasEnforcementLiteral ct) (ct_constraint ct) = Valid"
    using valid by (simp add: constraint_valid_def)
  show ?thesis
  proof (cases "ct_constraint ct")
    case (kIntDiv a)
    have "ValidateIntDivConstraint model a = Valid" using case_valid kIntDiv by simp
    moreover from this have two: "length (la_exprs a) = 2"
      by (auto simp: ValidateIntDivConstraint_def split: if_split_asm)
    moreover have "expr_typed (la_exprs a ! 1)" using reg two by (auto simp: kIntDiv regular_def list_all_iff)
    moreover have "refs_in_range model (le_vars (la_exprs a ! 1))"
      using refs(1) two set_exprs_vars[of "la_exprs a ! 1" "la_exprs a"]
      by (auto simp: kIntDiv refs_in_range_def linear_argument_vars_def)
    ultimately have "expr_value x (la_exprs a ! 1) \<noteq> 0"
      using affine_denominator_nonzero[OF A, of a] ok reg by (simp add: kIntDiv regular_def)
    then show ?thesis using division_refinement(1)[OF two, of model x] ok kIntDiv by simp
  next
    case (kIntMod a)
    have two: "length (la_exprs a) = 2" and "\<not> MinOfExpression model (la_exprs a ! 1) \<le> 0"
      using case_valid kIntMod by (auto simp: ValidateIntModConstraint_def valid_simps split: if_split_asm)
    moreover have "expr_ok model x (la_exprs a ! 1)" using ok two by (simp add: kIntMod)
    ultimately have "expr_value x (la_exprs a ! 1) \<noteq> 0" by (auto simp: expr_ok_def)
    then show ?thesis using division_refinement(2)[OF two, of model x] ok kIntMod by simp
  next
    case (kElement e)
    then show ?thesis using case_valid element_valid[of model e] ok reg element_refinement[of e model x]
      by (auto simp: regular_def)
  next
    case (kReservoir a)
    have pos: "0 \<le> l \<and> (elt x l = 0 \<or> elt x l = 1)" if "l \<in> set (re_active_literals a)" for l
    proof -
      have "0 \<le> l" using that reg by (simp add: kReservoir regular_def list_all_iff)
      then show ?thesis using literal_true(2)[OF A, of l] that refs(2)
        by (auto simp: kReservoir literals_valid_def literal_value_def RefIsPositive_def)
    qed
    have "ValidateReservoirConstraint model a = Valid" using case_valid kReservoir by simp
    then have "length (re_level_changes a) = length (re_time_exprs a)"
      "re_active_literals a \<noteq> [] \<Longrightarrow> length (re_active_literals a) = length (re_time_exprs a)"
      "re_min_level a \<le> 0" "0 \<le> re_max_level a"
      "\<not> sum_saturates 0 (map (\<lambda>d. max (CapAbs (MinOfExpression model d)) (CapAbs (MaxOfExpression model d)))
        (re_level_changes a))"
      by (simp_all add: ValidateReservoirConstraint_def valid_simps not_less split: if_split_asm)
    then show ?thesis using reservoir_refinement[of a model x] ok pos by (simp add: kReservoir)
  next
    case (kLinear l)
    then show ?thesis using linear_refinement[OF A, of l] case_valid refs(1) by simp
  next
    case (kIntProd a)
    then show ?thesis using int_prod_refinement[of model x a] ok case_valid by simp
  next
    case (kTable a)
    then show ?thesis using table_refinement[OF A, of a] ok case_valid by simp
  next
    case (kAutomaton a)
    then show ?thesis using automaton_refinement[OF A, of a] ok case_valid by simp
  next
    case (kInverse a)
    then show ?thesis using inverse_refinement[OF A, of a] ok case_valid reg
      by (simp add: regular_def list_all_iff)
  next
    case (kRoutes a)
    then show ?thesis using routes_refinement[OF A, of a] refs(2) case_valid by simp
  next
    case (kCircuit a)
    then show ?thesis using circuit_refinement[OF A, of a] refs(2) case_valid by simp
  next
    case (kInterval a)
    then show ?thesis using interval_refinement[of model x a] ok by simp
  next
    case (kAllDiff a)
    then show ?thesis using all_diff_refinement[of a model x] ok by simp
  next
    case (kLinMax a)
    then show ?thesis using lin_max_refinement[of model x a] ok by simp
  next
    case (kDummyConstraint a)
    then show ?thesis using case_valid by simp
  qed (use boolean_refinement[OF A] refs(2) plain in simp_all)
qed

text \<open>The users of intervals, once the intervals hold.\<close>

lemma satisfied_interval_good:
  assumes A: "assignment model x" and valid: "constraint_valid b model ct" and reg: "regular x (ct_constraint ct)"
    and interval: "is_interval ct" and sat: "satisfied x model ct"
  shows "good_interval model x ct"
proof -
  obtain i where i: "ct_constraint ct = kInterval i"
    using interval by (auto simp: is_interval_def split: ConstraintCase.splits)
  then show ?thesis
    using constraint_exprs_ok[OF A valid reg] enforced_eq[OF A valid] sat
    by (simp add: good_interval_def ct_interval_def satisfied_def)
qed

lemma user_case_refinement:
  assumes A: "assignment model x" and valid: "constraint_valid b model ct" and reg: "regular x (ct_constraint ct)"
    and user: "uses_intervals (ct_constraint ct)"
    and good: "good_intervals model x (UsedIntervalsOfCase (ct_constraint ct))"
  shows "ConstraintCaseIsFeasible x model (ct_constraint ct) = Some (meaning x model (ct_constraint ct))"
proof -
  note ok = constraint_exprs_ok[OF A valid reg]
  have user_valid: "ValidateIntervalUser model (ct_constraint ct) = Valid" using valid by (simp add: constraint_valid_def)
  show ?thesis
  proof (cases "ct_constraint ct")
    case (kNoOverlap a)
    then show ?thesis using no_overlap_refinement[of a model x] good by simp
  next
    case (kNoOverlap2D a)
    have "length (n2_x_intervals a) = length (n2_y_intervals a)"
      using user_valid kNoOverlap2D by (auto simp: ValidateNoOverlap2DConstraint_def split: if_split_asm)
    then show ?thesis using no_overlap_2d_refinement[of a model x] good kNoOverlap2D by simp
  next
    case (kCumulative a)
    have "ValidateCumulativeConstraint model a = Valid" using user_valid kCumulative by simp
    then have "length (cu_intervals a) = length (cu_demands a)"
      "\<forall>d \<in> set (cu_demands a). 0 \<le> MinOfExpression model d"
      "\<not> sum_saturates 0 (map (MaxOfExpression model) (cu_demands a))"
      by (auto simp: ValidateCumulativeConstraint_def valid_simps split: if_split_asm)
    then show ?thesis using cumulative_refinement[of a model x] good ok kCumulative by simp
  qed (use user in simp_all)
qed

lemma user_case_total:
  assumes "constraint_valid b model ct" "uses_intervals (ct_constraint ct)"
  shows "\<exists>r. ConstraintCaseIsFeasible x model (ct_constraint ct) = Some r"
proof (cases "ct_constraint ct")
  case (kNoOverlap2D a)
  then have "length (n2_x_intervals a) = length (n2_y_intervals a)"
    using assms(1) by (auto simp: constraint_valid_def ValidateNoOverlap2DConstraint_def split: if_split_asm)
  then show ?thesis by (simp add: kNoOverlap2D NoOverlap2DConstraintIsFeasible_def Let_def)
qed (use assms in simp_all)

section \<open>The whole model\<close>

lemma ValidateCpModel_constraints:
  assumes "ValidateCpModel b model = Valid" "ct \<in> set (m_constraints model)"
  shows "constraint_valid b model ct"
proof -
  have passes: "for_all (\<lambda>ct. and_then (ValidateVariablesUsedInConstraint model ct)
        (ValidateConstraintByCase model (HasEnforcementLiteral ct) (ct_constraint ct))) (m_constraints model) = Valid"
    "for_all (\<lambda>c. and_then (ValidateIntervalsUsedInConstraint b model c)
        (ValidateIntervalUser model (ct_constraint (elt (m_constraints model) c))))
      (filter (\<lambda>c. uses_intervals (ct_constraint (elt (m_constraints model) c)))
        (map int [0..<length (m_constraints model)])) = Valid"
    using assms(1) unfolding ValidateCpModel_def and_then_Valid by blast+
  obtain k where k: "k < length (m_constraints model)" "ct = m_constraints model ! k"
    using assms(2) by (auto simp: in_set_conv_nth)
  have "ValidateIntervalUser model (ct_constraint ct) = Valid \<and>
      (\<forall>i \<in> set (UsedIntervalsOfCase (ct_constraint ct)).
        0 \<le> i \<and> i < constraints_size model \<and> is_interval (elt (m_constraints model) i))"
  proof (cases "uses_intervals (ct_constraint ct)")
    case True
    then have "ValidateIntervalsUsedInConstraint b model (int k) = Valid"
      "ValidateIntervalUser model (ct_constraint ct) = Valid"
      using bspec[OF passes(2)[unfolded for_all_Valid], of "int k"] k by (simp_all add: valid_simps)
    then show ?thesis
      by (auto simp: ValidateIntervalsUsedInConstraint_def UsedIntervals_def k(2) valid_simps split: if_split_asm)
  next
    case False
    then show ?thesis by (cases "ct_constraint ct") simp_all
  qed
  moreover have "ValidateVariablesUsedInConstraint model ct = Valid \<and>
      ValidateConstraintByCase model (HasEnforcementLiteral ct) (ct_constraint ct) = Valid"
    using passes(1) assms(2) by (simp add: valid_simps)
  ultimately show ?thesis by (simp add: constraint_valid_def)
qed

lemma ValidateCpModel_variables:
  assumes "ValidateCpModel b model = Valid" "domains_typed model"
  shows "variables_valid model"
proof -
  have "for_all (ValidateIntegerVariable model) (map int [0..<length (m_variables model)]) = Valid"
    using assms(1) unfolding ValidateCpModel_def and_then_Valid by blast
  then show ?thesis using assms(2) by (simp add: variables_valid_def valid_simps)
qed

lemma ValidateCpModel_objective:
  assumes "ValidateCpModel b model = Valid" "m_objective model = Some obj" "assignment model x"
  shows "objective_in_domain x obj \<longleftrightarrow>
    ob_domain obj = [] \<or> DomainInProtoContains (ob_domain obj) (objective_activity x obj)"
proof -
  have "ValidateModelObjective model obj = Valid"
    using assms(1,2) unfolding ValidateCpModel_def and_then_Valid by simp
  then have "ValidateObjective model obj = Valid"
    by (simp add: ValidateModelObjective_def valid_simps split: if_split_asm)
  then obtain lo hi where b: "PossibleIntegerOverflow model (ob_vars obj) (ob_coeffs obj) 0 = Bounds lo hi"
    and idx: "\<forall>v \<in> set (ob_vars obj). VariableIndexIsValid model v"
    by (auto simp: ValidateObjective_def valid_simps split: if_split_asm overflow.split_asm)
  have "refs_in_range model (ob_vars obj)"
    using idx by (auto simp: refs_in_range_def VariableIndexIsValid_def VariableReferenceIsValid_def)
  moreover have "variables_valid model" "in_domains model x" using assms(3) by (simp_all add: assignment_def)
  ultimately have c: "checked_terms model x 0 (zip (ob_vars obj) (ob_coeffs obj))"
    using PossibleIntegerOverflow_checked[OF b] by simp
  have "objective_loop x s ts = expression_loop x s ts" for s ts
    by (induction x s ts rule: objective_loop.induct) simp_all
  then show ?thesis
    using checked_expression_loop[OF c] by (simp add: objective_in_domain_def objective_activity_def)
qed

lemma constraints_loop_eq:
  assumes "\<And>ct. ct \<in> set cts \<Longrightarrow> \<exists>r. ConstraintIsFeasible x model ct = Some r"
  shows "constraints_loop x model cts = Some (\<forall>ct \<in> set cts. ConstraintIsFeasible x model ct = Some True)"
  using assms
proof (induction cts)
  case (Cons ct cts)
  obtain r where "ConstraintIsFeasible x model ct = Some r" using Cons.prems by auto
  then show ?case using Cons by (cases r) auto
qed simp

lemma constraints_refinement:
  assumes valid: "ValidateCpModel b model = Valid" and A: "assignment model x"
    and reg: "\<forall>ct \<in> set (m_constraints model). regular x (ct_constraint ct)"
  shows "constraints_loop x model (m_constraints model) = Some (\<forall>ct \<in> set (m_constraints model). satisfied x model ct)"
proof -
  define cts where "cts = m_constraints model"
  have cv: "constraint_valid b model ct" "regular x (ct_constraint ct)" if "ct \<in> set cts" for ct
    using ValidateCpModel_constraints[OF valid] reg that by (auto simp: cts_def)
  have plain: "ConstraintIsFeasible x model ct = Some (satisfied x model ct)"
    if "ct \<in> set cts" "\<not> uses_intervals (ct_constraint ct)" for ct
    using plain_case_refinement[OF A cv[OF that(1)] that(2)] enforced_eq[OF A cv(1)[OF that(1)]]
    by (simp add: ConstraintIsFeasible_def satisfied_def)
  have total: "\<exists>r. ConstraintIsFeasible x model ct = Some r" if "ct \<in> set cts" for ct
    using plain[OF that] user_case_total[OF cv(1)[OF that], of x]
    by (cases "uses_intervals (ct_constraint ct)") (auto simp: ConstraintIsFeasible_def)
  have "(\<forall>ct \<in> set cts. ConstraintIsFeasible x model ct = Some True) \<longleftrightarrow> (\<forall>ct \<in> set cts. satisfied x model ct)"
  proof (cases "\<forall>ct \<in> set cts. is_interval ct \<longrightarrow> satisfied x model ct")
    case True
    have "ConstraintIsFeasible x model ct = Some (satisfied x model ct)" if ct: "ct \<in> set cts" for ct
    proof (cases "uses_intervals (ct_constraint ct)")
      case user: True
      have "good_interval model x (elt cts i)" if "i \<in> set (UsedIntervalsOfCase (ct_constraint ct))" for i
      proof -
        have i: "0 \<le> i" "i < int (length cts)" "is_interval (elt cts i)"
          using cv(1)[OF ct] that by (auto simp: constraint_valid_def cts_def)
        then have "elt cts i \<in> set cts" by (simp add: elt_def nat_less_iff)
        then show ?thesis using satisfied_interval_good[OF A cv _ _] i(3) True by blast
      qed
      then show ?thesis
        using user_case_refinement[OF A cv[OF ct] user] enforced_eq[OF A cv(1)[OF ct]]
        by (simp add: ConstraintIsFeasible_def satisfied_def cts_def)
    qed (rule plain[OF ct])
    then show ?thesis by simp
  next
    case False
    then obtain ct where ct: "ct \<in> set cts" "is_interval ct" "\<not> satisfied x model ct" by blast
    then have "\<not> uses_intervals (ct_constraint ct)" by (auto simp: is_interval_def split: ConstraintCase.splits)
    then show ?thesis using plain[OF ct(1)] ct(1,3) by auto
  qed
  then show ?thesis using constraints_loop_eq[of cts x model] total by (simp add: cts_def)
qed

lemma SolutionIsFeasible_refinement:
  assumes valid: "ValidateCpModel b model = Valid" and typed: "domains_typed model"
    and reg: "\<forall>ct \<in> set (m_constraints model). regular x (ct_constraint ct)"
  shows "SolutionIsFeasible model x = Some (solves x model)"
proof (cases "in_domains model x")
  case False
  then have "SolutionIsFeasible model x = Some False" by (auto simp: in_domains_def SolutionIsFeasible_def)
  moreover have "\<not> solves x model" using False by (auto simp: in_domains_def solves_def list_all2_conv_all_nth)
  ultimately show ?thesis by simp
next
  case True
  then have A: "assignment model x" using ValidateCpModel_variables[OF valid typed] by (simp add: assignment_def)
  define sat where "sat \<longleftrightarrow> (\<forall>ct \<in> set (m_constraints model). satisfied x model ct)"
  have loop: "constraints_loop x model (m_constraints model) = Some sat"
    unfolding sat_def by (rule constraints_refinement[OF valid A reg])
  have objective: "(case m_objective model of None \<Rightarrow> Some True | Some obj \<Rightarrow> Some (objective_in_domain x obj)) =
      Some (case m_objective model of None \<Rightarrow> True
        | Some obj \<Rightarrow> ob_domain obj = [] \<or> DomainInProtoContains (ob_domain obj) (objective_activity x obj))"
    using ValidateCpModel_objective[OF valid _ A] by (simp split: option.split)
  have len: "length x = length (m_variables model)"
    "list_all2 (\<lambda>v a. DomainInProtoContains (iv_domain v) a) (m_variables model) x"
    using True by (simp_all add: in_domains_def)
  have doms: "\<forall>v < length x. DomainInProtoContains (iv_domain (m_variables model ! v)) (x ! v)"
    using len by (simp add: list_all2_conv_all_nth)
  show ?thesis
  proof (cases sat)
    case True
    then show ?thesis
      unfolding SolutionIsFeasible_def solves_def sat_def[symmetric] loop objective using len doms by simp
  next
    case False
    then show ?thesis
      unfolding SolutionIsFeasible_def solves_def sat_def[symmetric] loop using len by simp
  qed
qed

end
