(* ===== verification/ValidateSafe.thy ===== *)
theory ValidateSafe
  imports ValidateFacts
begin

text \<open>
  \<open>ValidateCpModel\<close> always returns a message: the CHECKs it runs into (a negated reference in
  \<open>PossibleIntegerOverflow\<close>) are excluded by the tests made before them.  The one exception is the
  \<open>CHECK_NE(coeff, 0)\<close> of \<open>ValidateIntDivConstraint\<close>, which an input model can reach.
\<close>

section \<open>Validation does not stop the process\<close>

lemma reject_if_no_check [simp]: "reject_if c msg \<noteq> CheckFailed"
  by (simp add: reject_if_def)

lemma for_all_no_check [simp]: "(\<And>x. x \<in> set xs \<Longrightarrow> f x \<noteq> CheckFailed) \<Longrightarrow> for_all f xs \<noteq> CheckFailed"
  by (rule for_all_no_CheckFailed)

lemma overflow_loop_no_check: "\<forall>(v, c) \<in> set ts. RefIsPositive v \<Longrightarrow> overflow_loop model s ts \<noteq> RefCheckFailed"
  by (induction model s ts rule: overflow_loop.induct) (auto split: option.split)

lemma PossibleIntegerOverflow_no_check:
  assumes "\<forall>v \<in> set vs. RefIsPositive v"
  shows "PossibleIntegerOverflow model vs cs off \<noteq> RefCheckFailed"
proof -
  have "\<forall>(v, c) \<in> set (zip vs cs). RefIsPositive v" using assms by (auto dest: set_zip_leftD)
  from overflow_loop_no_check[OF this] show ?thesis by (simp add: PossibleIntegerOverflow_def Let_def)
qed

lemma reject_overflow_no_check:
  assumes "\<forall>v \<in> set vs. RefIsPositive v"
  shows "reject_overflow (PossibleIntegerOverflow model vs cs off) msg \<noteq> CheckFailed"
  using PossibleIntegerOverflow_no_check[OF assms] by (auto simp: reject_overflow_def split: overflow.split)

lemma index_positive: "VariableIndexIsValid model v \<Longrightarrow> RefIsPositive v"
  by (simp add: VariableIndexIsValid_def RefIsPositive_def)

lemma ValidateLinearExpression_no_check [simp]: "ValidateLinearExpression model e \<noteq> CheckFailed"
proof (cases "\<forall>v \<in> set (le_vars e). RefIsPositive v")
  case True
  from reject_overflow_no_check[OF this] show ?thesis
    by (auto simp: ValidateLinearExpression_def and_then_Valid_eq valid_simps)
next
  case False
  then show ?thesis by (auto simp: ValidateLinearExpression_def and_then_Valid_eq valid_simps)
qed

lemma valid_expr_positive: "ValidateLinearExpression model e = Valid \<Longrightarrow> \<forall>v \<in> set (le_vars e). RefIsPositive v"
  by (auto simp: ValidateLinearExpression_def valid_simps split: if_split_asm)

lemma ValidateLinearConstraint_no_check: "ValidateLinearConstraint model l \<noteq> CheckFailed"
proof (cases "\<forall>v \<in> set (lc_vars l). RefIsPositive v")
  case True
  from reject_overflow_no_check[OF this] show ?thesis
    by (auto simp: ValidateLinearConstraint_def and_then_Valid_eq)
next
  case False
  then show ?thesis by (auto simp: ValidateLinearConstraint_def and_then_Valid_eq valid_simps)
qed

lemma map_overflow_no_check:
  assumes "ValidateLinearExpression model e = Valid" "\<forall>v \<in> set (le_vars o'). RefIsPositive v"
  shows "\<forall>v \<in> set (le_vars (AppendToOverflowValidator e o' k)). RefIsPositive v"
  using valid_expr_positive[OF assms(1)] assms(2) by (auto simp: AppendToOverflowValidator_def)

lemma ValidateElementConstraint_no_check: "ValidateElementConstraint model e \<noteq> CheckFailed"
proof -
  have vars: "element_vars_overflow model e v \<noteq> CheckFailed" if "VariableIndexIsValid model (el_target e)" for v
  proof (cases "VariableIndexIsValid model v")
    case True
    then have "\<forall>v' \<in> set [el_target e, v]. RefIsPositive v'" using that index_positive by auto
    from reject_overflow_no_check[OF this] show ?thesis using True by (simp add: element_vars_overflow_def)
  qed (simp add: element_vars_overflow_def)
  have exprs: "element_expr_overflow model e e' \<noteq> CheckFailed"
    if "ValidateLinearExpression model (expr_or_default (el_linear_target e)) = Valid" for e'
  proof (cases "ValidateLinearExpression model e' = Valid")
    case True
    from reject_overflow_no_check[OF map_overflow_no_check[OF True valid_expr_positive[OF that]]] show ?thesis
      by (simp add: element_expr_overflow_def and_then_Valid_eq Let_def)
  qed (simp add: element_expr_overflow_def and_then_Valid_eq)
  show ?thesis
    using vars exprs by (auto simp: ValidateElementConstraint_def Let_def and_then_Valid_eq)
qed

lemma ValidateIntervalConstraint_no_check: "ValidateIntervalConstraint model b a \<noteq> CheckFailed"
proof -
  define v1 where "v1 = AppendToOverflowValidator (expr_or_default (in_start a)) LinearExpressionProto_default 1"
  define v2 where "v2 = AppendToOverflowValidator (expr_or_default (in_size a)) v1 1"
  define v3 where "v3 = AppendToOverflowValidator (expr_or_default (in_end a)) v2 (- 1)"
  have "reject_overflow (PossibleIntegerOverflow model (le_vars v3) (le_coeffs v3) (le_offset v3)) msg \<noteq> CheckFailed"
    if "ValidateLinearExpression model (expr_or_default (in_start a)) = Valid"
      "ValidateLinearExpression model (expr_or_default (in_size a)) = Valid"
      "ValidateLinearExpression model (expr_or_default (in_end a)) = Valid" for msg
    unfolding v3_def v2_def v1_def
    by (intro reject_overflow_no_check map_overflow_no_check[of model] that) (simp add: LinearExpressionProto_default_def)
  then show ?thesis
    by (simp add: ValidateIntervalConstraint_def Let_def and_then_Valid_eq v1_def[symmetric] v2_def[symmetric] v3_def[symmetric])
qed

lemma automaton_transitions_no_check: "automaton_transitions m ts \<noteq> CheckFailed"
  by (induction m ts rule: automaton_transitions.induct) (auto split: option.split simp del: fun_upd_apply)

lemma graph_no_check: "ValidateGraphInput r ts hs ls \<noteq> CheckFailed"
proof -
  have "graph_self_loops r s arcs \<noteq> CheckFailed" for s arcs
    by (induction r s arcs rule: graph_self_loops.induct) auto
  then show ?thesis by (simp add: ValidateGraphInput_def)
qed

lemma ValidateIntDivConstraint_no_check:
  assumes "ExpressionIsFixed model (la_exprs a ! 1) \<or> hd (le_coeffs (la_exprs a ! 1)) \<noteq> 0"
  shows "ValidateIntDivConstraint model a \<noteq> CheckFailed"
  using assms by (auto simp: ValidateIntDivConstraint_def and_then_Valid_eq Let_def)

fun denominator_ok :: "CpModelProto \<Rightarrow> ConstraintCase \<Rightarrow> bool" where
  "denominator_ok model (kIntDiv a) \<longleftrightarrow>
     ExpressionIsFixed model (la_exprs a ! 1) \<or> hd (le_coeffs (la_exprs a ! 1)) \<noteq> 0"
| "denominator_ok model _ \<longleftrightarrow> True"

lemma ValidateConstraintByCase_no_check:
  assumes "denominator_ok model c"
  shows "ValidateConstraintByCase model b c \<noteq> CheckFailed"
proof (cases c)
  case (kIntDiv a)
  then show ?thesis using ValidateIntDivConstraint_no_check[of model a] assms by simp
next
  case (kRoutes a)
  then show ?thesis
    by (simp add: ValidateRoutesConstraint_def and_then_Valid_eq Let_def graph_no_check)
qed (simp_all add: ValidateLinearConstraint_no_check ValidateElementConstraint_no_check
    ValidateIntervalConstraint_no_check automaton_transitions_no_check graph_no_check and_then_Valid_eq Let_def
    ValidateIntProdConstraint_def ValidateIntModConstraint_def ValidateInverseConstraint_def
    ValidateTableConstraint_def ValidateAutomatonConstraint_def ValidateReservoirConstraint_def)

lemma ValidateIntervalUser_no_check: "ValidateIntervalUser model c \<noteq> CheckFailed"
  by (cases c) (simp_all add: ValidateCumulativeConstraint_def ValidateNoOverlap2DConstraint_def and_then_Valid_eq)

lemma ValidateObjective_no_check: "ValidateObjective model obj \<noteq> CheckFailed"
proof (cases "\<forall>v \<in> set (ob_vars obj). VariableIndexIsValid model v")
  case True
  then have "\<forall>v \<in> set (ob_vars obj). RefIsPositive v" using index_positive by blast
  from PossibleIntegerOverflow_no_check[OF this] show ?thesis
    by (auto simp: ValidateObjective_def and_then_Valid_eq split: overflow.split)
next
  case False
  then show ?thesis by (auto simp: ValidateObjective_def and_then_Valid_eq valid_simps)
qed

lemma ValidateStrategy_no_check: "ValidateStrategy model s \<noteq> CheckFailed"
  by (simp add: ValidateStrategy_def Let_def and_then_Valid_eq split: validation.split)

end
