(* ===== verification/SolutionProps.thy ===== *)
theory SolutionProps
  imports RefinementModel ValidateSafe
begin

text \<open>
  What the checker of \<open>or-tools/ortools/sat/cp_model_checker.cc\<close> guarantees: the properties of
  validation and of \<open>SolutionIsFeasible\<close> on whole models, and the inputs on which it departs from
  the meaning of the constraints.
\<close>

section \<open>Small models\<close>

definition int_var :: "int64 list \<Rightarrow> IntegerVariableProto" where
  "int_var d = \<lparr> iv_name = [], iv_domain = d \<rparr>"

definition var_expr :: "int32 \<Rightarrow> LinearExpressionProto" where
  "var_expr v = \<lparr> le_vars = [v], le_coeffs = [1], le_offset = 0 \<rparr>"

definition const_expr :: "int64 \<Rightarrow> LinearExpressionProto" where
  "const_expr k = \<lparr> le_vars = [], le_coeffs = [], le_offset = k \<rparr>"

definition ct_of :: "ConstraintCase \<Rightarrow> ConstraintProto" where
  "ct_of c = \<lparr> ct_name = [], ct_enforcement_literal = [], ct_constraint = c \<rparr>"

definition model_of :: "int64 list list \<Rightarrow> ConstraintCase list \<Rightarrow> CpModelProto" where
  "model_of ds cs = CpModelProto_default\<lparr> m_variables := map int_var ds, m_constraints := map ct_of cs \<rparr>"

text \<open>Two tasks on a line, a boolean, and an all-different of the starts.\<close>

definition sample_interval :: "int32 \<Rightarrow> int64 \<Rightarrow> ConstraintCase" where
  "sample_interval v d = kInterval \<lparr> in_start = Some (var_expr v),
     in_end = Some \<lparr> le_vars = [v], le_coeffs = [1], le_offset = d \<rparr>, in_size = Some (const_expr d) \<rparr>"

definition sample_model :: CpModelProto where
  "sample_model = model_of [[0, 10], [0, 10], [0, 1]]
     [sample_interval 0 3, sample_interval 1 2, kNoOverlap \<lparr> no_intervals = [0, 1] \<rparr>,
      kAllDiff \<lparr> ad_exprs = [var_expr 0, var_expr 1] \<rparr>, kBoolOr \<lparr> ba_literals = [2, - 3] \<rparr>]"

lemma sample_model_valid: "ValidateCpModel False sample_model = Valid"
  by code_simp

lemma sample_feasible: "SolutionIsFeasible sample_model [0, 3, 1] = Some True"
  by code_simp

section \<open>Validation\<close>

text \<open>C3: ValidateCpModel returns a message on every model, whatever its fields hold, provided that each
  int_div constraint has a fixed denominator or a first coefficient of it that is not zero.\<close>

theorem ValidateCpModel_never_aborts:
  assumes "\<forall>ct \<in> set (m_constraints model). denominator_ok model (ct_constraint ct)"
  shows "ValidateCpModel after_presolve model \<noteq> CheckFailed"
proof -
  have "for_all (ValidateIntegerVariable model) vs \<noteq> CheckFailed" for vs
    by (simp add: ValidateIntegerVariable_def Let_def)
  moreover have "for_all (\<lambda>ct. and_then (ValidateVariablesUsedInConstraint model ct)
      (ValidateConstraintByCase model (HasEnforcementLiteral ct) (ct_constraint ct))) (m_constraints model) \<noteq> CheckFailed"
    using assms ValidateConstraintByCase_no_check
    by (simp add: and_then_Valid_eq ValidateVariablesUsedInConstraint_def Let_def)
  moreover have "for_all (\<lambda>c. and_then (ValidateIntervalsUsedInConstraint after_presolve model c)
      (ValidateIntervalUser model (ct_constraint (elt (m_constraints model) c)))) cs \<noteq> CheckFailed" for cs
    using ValidateIntervalUser_no_check by (simp add: and_then_Valid_eq ValidateIntervalsUsedInConstraint_def)
  moreover have "(case m_objective model of None \<Rightarrow> Valid | Some obj \<Rightarrow> ValidateModelObjective model obj) \<noteq> CheckFailed"
    using ValidateObjective_no_check
    by (simp add: ValidateModelObjective_def and_then_Valid_eq split: option.split)
  moreover have "ValidateSearchStrategies model \<noteq> CheckFailed"
    using ValidateStrategy_no_check by (simp add: ValidateSearchStrategies_def)
  moreover have "ValidateSolutionHint model \<noteq> CheckFailed"
    by (simp add: ValidateSolutionHint_def and_then_Valid_eq split: option.split)
  ultimately show ?thesis unfolding ValidateCpModel_def and_then_Valid_eq by simp
qed

text \<open>An int_div with the denominator \<open>x + 3\<close>.\<close>

definition division_model :: CpModelProto where
  "division_model = model_of [[0, 10], [0, 10]]
     [kIntDiv \<lparr> la_target = Some (var_expr 1),
        la_exprs = [const_expr 8, \<lparr> le_vars = [0], le_coeffs = [1], le_offset = 3 \<rparr>] \<rparr>]"

theorem ValidateCpModel_never_aborts_witness: "ValidateCpModel False division_model \<noteq> CheckFailed"
  by (rule ValidateCpModel_never_aborts) code_simp

text \<open>C2: For an expression that validation accepts and values inside the domains, the sums that the checker
  forms never leave int64, in whatever order the terms are added and wherever one stops; so the loop returns
  the exact value in every order, and the exact value lies between the bounds that MinOfExpression and
  MaxOfExpression compute.\<close>

theorem ValidateLinearExpression_no_overflow:
  assumes valid: "ValidateLinearExpression model e = Valid" and offset: "in_int64 (le_offset e)"
    and model: "variables_valid model" "in_domains model x" "refs_in_range model (le_vars e)"
    and order: "mset ts = mset (zip (le_vars e) (le_coeffs e))"
  shows "(\<forall>k. in_int64 (le_offset e + terms_sum x (take k ts))) \<and>
    expression_loop x (le_offset e) ts = expr_value x e \<and>
    MinOfExpression model e \<le> expr_value x e \<and> expr_value x e \<le> MaxOfExpression model e"
proof -
  note c = ValidateLinearExpression_checked(1)[OF valid offset model]
  have "mset us \<subseteq># mset (zip (le_vars e) (le_coeffs e))" if "ts = us @ vs" for us vs
    using arg_cong[OF that, of mset] order by simp
  then have sums: "in_int64 (le_offset e + terms_sum x us)" if "ts = us @ vs" for us vs
    using checked_partial_sums(1)[OF c] that by blast
  moreover have "in_int64 (ref_value x v) \<and> in_int64 (ref_value x v * k)" if "(v, k) \<in> set ts" for v k
    using checked_products[OF c, of v k] that mset_eq_setD[OF order] by blast
  ultimately have "expression_loop x (le_offset e) ts = le_offset e + terms_sum x ts"
    by (rule expression_loop_exact)
  moreover have "terms_sum x ts = terms_sum x (zip (le_vars e) (le_coeffs e))"
  proof -
    have "mset (map (\<lambda>(v, c). ref_value x v * c) ts) =
        mset (map (\<lambda>(v, c). ref_value x v * c) (zip (le_vars e) (le_coeffs e)))"
      using order by simp
    then show ?thesis unfolding terms_sum_def by (simp only: sum_mset_sum_list[symmetric])
  qed
  ultimately show ?thesis
    using LinearExpressionValue_exact(3,4)[OF c] sums[OF append_take_drop_id[symmetric]] by (simp add: expr_value_def)
qed

lemma sample_variables:
  "variables_valid sample_model" "in_domains sample_model [0, 3, 1]" "domains_typed sample_model"
proof -
  show t: "domains_typed sample_model"
    by code_simp
  show "variables_valid sample_model" by (rule ValidateCpModel_variables[OF sample_model_valid t])
  show "in_domains sample_model [0, 3, 1]" unfolding in_domains_def by code_simp
qed

theorem ValidateLinearExpression_no_overflow_witness:
  "expression_loop [0, 3, 1] 5 [(1, 7), (0, 4000000000000000)] = 26"
proof -
  define e where "e = \<lparr> le_vars = [0, 1], le_coeffs = [4000000000000000, 7], le_offset = (5 :: int) \<rparr>"
  have valid: "ValidateLinearExpression sample_model e = Valid" unfolding e_def by code_simp
  have offset: "in_int64 (le_offset e)" by (simp add: e_def in_int64_def)
  have refs: "refs_in_range sample_model (le_vars e)"
    by (simp add: e_def refs_in_range_def VariableReferenceIsValid_def sample_model_def model_of_def CpModelProto_default_def)
  have order: "mset [(1, 7), (0, 4000000000000000)] = mset (zip (le_vars e) (le_coeffs e))"
    by (simp add: e_def)
  from ValidateLinearExpression_no_overflow[OF valid offset sample_variables(1,2) refs order]
  show ?thesis by (simp add: e_def expr_value_def ref_value_def elt_def)
qed

section \<open>Solutions\<close>

text \<open>C1: On every model that ValidateCpModel accepts, with the fields of the messages in their ranges and none
  of the corner cases listed in \<open>regular\<close>, SolutionIsFeasible returns for every assignment of any length, and
  answers true exactly for the solutions of the model: values in the domains, every enforced constraint
  satisfied in its mathematical meaning, the objective inside its domain.\<close>

theorem SolutionIsFeasible_correct:
  assumes "ValidateCpModel after_presolve model = Valid" "domains_typed model"
    and "\<forall>ct \<in> set (m_constraints model). regular x (ct_constraint ct)"
  shows "SolutionIsFeasible model x = Some (solves x model)"
  using assms by (rule SolutionIsFeasible_refinement)

theorem SolutionIsFeasible_correct_witness: "solves [0, 3, 1] sample_model \<and> \<not> solves [0, 2, 1] sample_model"
proof -
  have regular: "\<forall>ct \<in> set (m_constraints sample_model). regular x (ct_constraint ct)" for x
    by (simp add: sample_model_def model_of_def ct_of_def CpModelProto_default_def sample_interval_def regular_def
        expr_typed_def var_expr_def const_expr_def expr_or_default_def in_int64_def)
  have "SolutionIsFeasible sample_model [0, 2, 1] = Some False" by code_simp
  then show ?thesis
    using SolutionIsFeasible_correct[OF sample_model_valid sample_variables(3) regular] sample_feasible by simp
qed

end
