(* ===== verification/ConstraintProps.thy ===== *)
theory ConstraintProps
  imports SolutionProps
begin

text \<open>
  The checks of single constraints: what each of the loops of \<open>class ConstraintChecker\<close> decides, each
  on the widest inputs for which it does.
\<close>

section \<open>Graphs\<close>




section \<open>Scheduling\<close>

text \<open>For tasks of non-negative sizes and ends in int64, the sweep of the no-overlap check over the tasks
  sorted by start accepts exactly when the tasks are pairwise disjoint.\<close>

theorem no_overlap_loop_correct:
  assumes "\<forall>(start, duration) \<in> set tasks. 0 \<le> duration \<and> in_int64 start \<and> in_int64 (start + duration)"
  shows "no_overlap_loop kint64min (sort tasks) \<longleftrightarrow> sorted_wrt disjoint_tasks tasks"
  using assms by (rule no_overlap_loop_spec)

theorem no_overlap_loop_correct_witness:
  "sorted_wrt disjoint_tasks [(5, 2), (0, 5), (7, 0)] \<and> \<not> sorted_wrt disjoint_tasks [(5, 2), (0, 6)]"
  using no_overlap_loop_correct[of "[(5, 2), (0, 5), (7, 0)]"] no_overlap_loop_correct[of "[(5, 2), (0, 6)]"]
  by (simp add: in_int64_def)

text \<open>C24: For intervals that hold, demands that are not negative and whose largest values have a sum in int64,
  the sweep of the cumulative check over the sorted events accepts exactly when the capacity is not negative
  and at no time do the running tasks ask for more than it.\<close>

theorem Cumulative_correct:
  assumes "length (cu_intervals a) = length (cu_demands a)"
    and "\<forall>i \<in> set (cu_intervals a). good_interval model x (elt (m_constraints model) i)"
    and "\<forall>d \<in> set (cu_demands a). expr_ok model x d \<and> 0 \<le> MinOfExpression model d"
    and "expr_ok model x (expr_or_default (cu_capacity a))"
    and "\<not> sum_saturates 0 (map (MaxOfExpression model) (cu_demands a))"
  shows "CumulativeConstraintIsFeasible x model a \<longleftrightarrow>
    0 \<le> opt_value x (cu_capacity a) \<and> (\<forall>t. task_load (performed_tasks x model a) t \<le> opt_value x (cu_capacity a))"
  using cumulative_refinement[OF assms] by simp

text \<open>Two tasks of sizes 3 and 2, with demands 2 and 1, under a capacity of 2.\<close>

definition sample_cumulative :: CumulativeConstraintProto where
  "sample_cumulative = \<lparr> cu_capacity = Some (const_expr 2), cu_intervals = [0, 1],
     cu_demands = [const_expr 2, const_expr 1] \<rparr>"

lemma const_expr_ok: "\<bar>k\<bar> \<le> half \<Longrightarrow> expr_ok model x (const_expr k)"
  by (auto simp: expr_ok_def const_expr_def LinearExpressionValue_def expr_value_def MinOfExpression_def
      MaxOfExpression_def in_int64_def)

lemma sample_intervals_good:
  assumes "i = 0 \<or> i = 1"
  shows "good_interval sample_model [0, 3, 1] (elt (m_constraints sample_model) i)"
proof -
  define ct where "ct = elt (m_constraints sample_model) i"
  have ct: "ct \<in> set (m_constraints sample_model)" "is_interval ct" "regular [0, 3, 1] (ct_constraint ct)"
    "satisfied [0, 3, 1] sample_model ct"
    using assms by (auto simp: ct_def sample_model_def model_of_def ct_of_def CpModelProto_default_def sample_interval_def
        is_interval_def regular_def expr_typed_def var_expr_def const_expr_def expr_or_default_def in_int64_def
        satisfied_def expr_value_def ref_value_def elt_def)
  have "assignment sample_model [0, 3, 1]" using sample_variables by (simp add: assignment_def)
  from satisfied_interval_good[OF this ValidateCpModel_constraints[OF sample_model_valid ct(1)] ct(3,2,4)]
  show ?thesis by (simp add: ct_def)
qed

theorem Cumulative_correct_witness:
  "\<forall>t. task_load (performed_tasks [0, 3, 1] sample_model sample_cumulative) t \<le> 2"
proof -
  have good: "\<forall>i \<in> set (cu_intervals sample_cumulative).
      good_interval sample_model [0, 3, 1] (elt (m_constraints sample_model) i)"
    using sample_intervals_good by (simp add: sample_cumulative_def)
  have demands: "\<forall>d \<in> set (cu_demands sample_cumulative).
      expr_ok sample_model [0, 3, 1] d \<and> 0 \<le> MinOfExpression sample_model d"
    using const_expr_ok by (simp add: sample_cumulative_def) (simp add: const_expr_def MinOfExpression_def)
  have rest: "length (cu_intervals sample_cumulative) = length (cu_demands sample_cumulative)"
    "expr_ok sample_model [0, 3, 1] (expr_or_default (cu_capacity sample_cumulative))"
    "opt_value [0, 3, 1] (cu_capacity sample_cumulative) = 2"
    using const_expr_ok[of 2] by (simp_all add: sample_cumulative_def expr_or_default_def const_expr_def expr_value_def)
  have "\<not> sum_saturates 0 (map (MaxOfExpression sample_model) (cu_demands sample_cumulative))"
    "CumulativeConstraintIsFeasible [0, 3, 1] sample_model sample_cumulative"
    by code_simp+
  with Cumulative_correct[OF rest(1) good demands rest(2)] show ?thesis by (simp add: rest(3))
qed

text \<open>C25: For rectangles of non-negative sizes whose intervals hold, degenerate ones included, the 2D no-overlap
  check always returns, and accepts exactly when the performed rectangles are pairwise disjoint.\<close>

theorem NoOverlap2D_correct:
  assumes "length (n2_x_intervals a) = length (n2_y_intervals a)"
    and "\<forall>i \<in> set (n2_x_intervals a). good_interval model x (elt (m_constraints model) i)"
    and "\<forall>i \<in> set (n2_y_intervals a). good_interval model x (elt (m_constraints model) i)"
  shows "NoOverlap2DConstraintIsFeasible x model a = Some (sorted_wrt Rectangle_IsDisjoint (performed_boxes x model a))"
  using no_overlap_2d_refinement[OF assms] by simp

theorem NoOverlap2D_correct_witness:
  "sorted_wrt Rectangle_IsDisjoint (performed_boxes [0, 3, 1] sample_model \<lparr> n2_x_intervals = [0, 1], n2_y_intervals = [1, 1] \<rparr>)"
proof -
  define a where "a = \<lparr> n2_x_intervals = [0, 1], n2_y_intervals = [1, 1 :: int32] \<rparr>"
  have good: "\<forall>i \<in> set (n2_x_intervals a). good_interval sample_model [0, 3, 1] (elt (m_constraints sample_model) i)"
    "\<forall>i \<in> set (n2_y_intervals a). good_interval sample_model [0, 3, 1] (elt (m_constraints sample_model) i)"
    using sample_intervals_good by (simp_all add: a_def)
  have len: "length (n2_x_intervals a) = length (n2_y_intervals a)" by (simp add: a_def)
  have "NoOverlap2DConstraintIsFeasible [0, 3, 1] sample_model a = Some True" unfolding a_def by code_simp
  with NoOverlap2D_correct[OF len good] show ?thesis by (simp add: a_def)
qed

text \<open>When the absolute changes have a sum in int64, the pass over the ordered map of the changes accepts
  exactly when at every time the sum of the changes so far is between the two levels, in whatever order the
  events were given and however many fall on one time.\<close>

theorem reservoir_loop_correct:
  assumes "sum_list (map (\<lambda>(t, d). \<bar>d\<bar>) events) \<le> kint64max" "min_level \<le> 0" "0 \<le> max_level"
  shows "reservoir_loop min_level max_level 0 (foldl (\<lambda>m (t, d). btree_add m t d) [] events) \<longleftrightarrow>
    (\<forall>t. min_level \<le> level_at events t \<and> level_at events t \<le> max_level)"
proof -
  have "abs_sum events \<le> kint64max" using assms(1) by (simp add: abs_sum_def split_def)
  from reservoir_loop_spec[OF this assms(2,3)] show ?thesis .
qed

theorem reservoir_loop_correct_witness:
  "\<forall>t. 0 \<le> level_at [(4, - 2), (1, 3), (4, 1), (9, - 2)] t \<and> level_at [(4, - 2), (1, 3), (4, 1), (9, - 2)] t \<le> 3"
  using reservoir_loop_correct[of "[(4, - 2), (1, 3), (4, 1), (9, - 2)]" 0 3]
  by (simp add: Let_def in_int64_def)

section \<open>Automata and permutations\<close>

text \<open>C26: When validation accepts the automaton, following the transition map from the starting state accepts
  exactly the words that label some path of transitions to a final state.\<close>

theorem Automaton_correct:
  assumes "ValidateAutomatonConstraint model a = Valid"
  shows "AutomatonConstraintIsFeasible x a \<longleftrightarrow>
    accepts (automaton_arcs a) (au_final_states a) (au_starting_state a) (automaton_labels x a)"
proof -
  have "automaton_transitions (\<lambda>_. None) (automaton_arcs a) = Valid"
    using assms by (auto simp: ValidateAutomatonConstraint_def valid_simps split: if_split_asm)
  from transition_map_arcs[OF this] show ?thesis by (rule automaton_feasible_accepts)
qed

definition sample_automaton :: AutomatonConstraintProto where
  "sample_automaton = \<lparr> au_starting_state = 0, au_final_states = [2], au_transition_tail = [0, 1, 1],
     au_transition_head = [1, 1, 2], au_transition_label = [7, 8, 9], au_vars = [0, 1, 2], au_exprs = [] \<rparr>"

theorem Automaton_correct_witness:
  "accepts [(0, 1, 7), (1, 1, 8), (1, 2, 9)] [2] 0 [7, 8, 9] \<and>
    \<not> accepts [(0, 1, 7), (1, 1, 8), (1, 2, 9)] [2] 0 [7, 8, 8]"
proof -
  have "ValidateAutomatonConstraint sample_model sample_automaton = Valid" by code_simp
  from Automaton_correct[OF this, of "[7, 8, 9]"] Automaton_correct[OF this, of "[7, 8, 8]"]
  have "AutomatonConstraintIsFeasible [7, 8, 9] sample_automaton \<longleftrightarrow>
      accepts [(0, 1, 7), (1, 1, 8), (1, 2, 9)] [2] 0 [7, 8, 9]"
    "AutomatonConstraintIsFeasible [7, 8, 8] sample_automaton \<longleftrightarrow>
      accepts [(0, 1, 7), (1, 1, 8), (1, 2, 9)] [2] 0 [7, 8, 8]"
    by (simp_all add: sample_automaton_def automaton_arcs_def automaton_labels_def Value_def elt_def del: accepts.simps)
  moreover have "AutomatonConstraintIsFeasible [7, 8, 9] sample_automaton"
    "\<not> AutomatonConstraintIsFeasible [7, 8, 8] sample_automaton" by code_simp+
  ultimately show ?thesis by blast
qed

text \<open>When the direct values fit an int, the one-sided loop of the inverse check decides that the two arrays
  are inverse permutations of each other.\<close>

theorem inverse_loop_correct:
  assumes "length f = length g" "\<And>i. i < length f \<Longrightarrow> in_int32 (f ! i)"
  shows "inverse_loop (elt f) (elt g) (int (length f)) [0..int (length f) - 1] \<longleftrightarrow> inverse_of f g"
  by (rule inverse_loop_refinement) (use assms in simp_all)

theorem inverse_loop_correct_witness: "inverse_of [2, 0, 1] [1, 2, 0] \<and> \<not> inverse_of [2, 0, 0] [1, 2, 0]"
proof -
  have "inverse_loop (elt [2, 0, 1]) (elt [1, 2, 0]) (int (length [2, 0, 1 :: int])) [0..int (length [2, 0, 1 :: int]) - 1]"
    "\<not> inverse_loop (elt [2, 0, 0]) (elt [1, 2, 0]) (int (length [2, 0, 0 :: int])) [0..int (length [2, 0, 0 :: int]) - 1]"
    by code_simp+
  moreover have "in_int32 ([2, 0, 1] ! i)" "in_int32 ([2, 0, 0] ! i)" if "i < 3" for i
    using that by (auto simp: in_int32_def less_Suc_eq numeral_3_eq_3)
  ultimately show ?thesis
    using inverse_loop_correct[of "[2, 0, 1]" "[1, 2, 0]"] inverse_loop_correct[of "[2, 0, 0]" "[1, 2, 0]"] by simp
qed

end
