(* ===== verification/CornerCases.thy ===== *)
theory CornerCases
  imports SolutionProps
begin

text \<open>
  Concrete models that \<open>ValidateCpModel\<close> accepts and on which the checker of
  \<open>or-tools/ortools/sat/cp_model_checker.cc\<close> departs from the meaning of a constraint, or stops the
  process.  They show that no condition of \<open>regular\<close> can be dropped from \<open>SolutionIsFeasible_correct\<close>.
\<close>

section \<open>Reservoirs\<close>

definition reservoir_model :: CpModelProto where
  "reservoir_model = model_of [[0, 1]]
     [kReservoir \<lparr> re_min_level = 0, re_max_level = 3, re_time_exprs = [const_expr 0],
        re_level_changes = [const_expr 5], re_active_literals = [- 1] \<rparr>]"

text \<open>The reservoir check never counts an event whose active literal is a negated variable: in this valid
  model, with one event of level 5 and the maximum 3, the assignment that makes the negated literal true
  is accepted, although it is not a solution.\<close>

lemma reservoir_negated_literal_ignored:
  "ValidateCpModel False reservoir_model = Valid \<and> SolutionIsFeasible reservoir_model [0] = Some True \<and>
    \<not> solves [0] reservoir_model"
proof (intro conjI)
  show "ValidateCpModel False reservoir_model = Valid" by code_simp
  show "SolutionIsFeasible reservoir_model [0] = Some True" by code_simp
  define a where "a = \<lparr> re_min_level = 0, re_max_level = 3, re_time_exprs = [const_expr 0],
    re_level_changes = [const_expr 5], re_active_literals = [- 1] \<rparr>"
  have "level_at (active_changes [0] a) 0 = 5" unfolding a_def by code_simp
  then have "\<not> level_at (active_changes [0] a) 0 \<le> re_max_level a" by (simp add: a_def)
  then have "\<not> meaning [0] reservoir_model (kReservoir a)" unfolding meaning.simps by blast
  moreover have "ct_of (kReservoir a) \<in> set (m_constraints reservoir_model)"
    by (simp add: reservoir_model_def model_of_def a_def)
  moreover have "enforced [0] (ct_of (kReservoir a))" by (simp add: enforced_def ct_of_def)
  ultimately have "\<exists>ct \<in> set (m_constraints reservoir_model). \<not> satisfied [0] reservoir_model ct"
    by (auto simp: satisfied_def ct_of_def)
  then show "\<not> solves [0] reservoir_model" unfolding solves_def by blast
qed

section \<open>Divisions\<close>

text \<open>The denominator \<open>u + v\<close> with \<open>u\<close> in \<open>1..2\<close> and \<open>v\<close> in \<open>-1..1\<close>: only \<open>u\<close> is looked at, so the model
  is accepted, and at \<open>u = 1, v = -1\<close> the checker divides by zero.\<close>

definition two_term_division_model :: CpModelProto where
  "two_term_division_model = model_of [[1, 2], [- 1, 1], [0, 10]]
     [kIntDiv \<lparr> la_target = Some (var_expr 2),
        la_exprs = [const_expr 8, \<lparr> le_vars = [0, 1], le_coeffs = [1, 1], le_offset = 0 \<rparr>] \<rparr>]"

lemma two_term_denominator_divides_by_zero:
  "ValidateCpModel False two_term_division_model = Valid" "SolutionIsFeasible two_term_division_model [1, - 1, 0] = None"
  by code_simp+

text \<open>A first coefficient of zero in a denominator that is not fixed stops the validation.\<close>

definition zero_coefficient_division_model :: CpModelProto where
  "zero_coefficient_division_model = model_of [[1, 2], [1, 2], [0, 10]]
     [kIntDiv \<lparr> la_target = Some (var_expr 2),
        la_exprs = [const_expr 8, \<lparr> le_vars = [0, 1], le_coeffs = [0, 1], le_offset = 0 \<rparr>] \<rparr>]"

lemma zero_coefficient_fails_check: "ValidateCpModel False zero_coefficient_division_model = CheckFailed"
  by code_simp

text \<open>The offset kint64min passes the overflow test, since \<open>std::abs\<close> returns it unchanged: the numerator
  is the least int64, the denominator is -1, and the quotient traps.\<close>

definition least_offset_model :: CpModelProto where
  "least_offset_model = model_of [[0, 10]]
     [kIntDiv \<lparr> la_target = Some (var_expr 0), la_exprs = [const_expr kint64min, const_expr (- 1)] \<rparr>]"

lemma least_offset_traps:
  "ValidateCpModel False least_offset_model = Valid" "SolutionIsFeasible least_offset_model [0] = None"
  by code_simp+

section \<open>Indices\<close>

text \<open>The index \<open>2 ^ 32\<close> is stored in an int and becomes 0.\<close>

definition wide_index_model :: CpModelProto where
  "wide_index_model = model_of [[0, 1], [4294967296, 4294967296]]
     [kElement \<lparr> el_index = 1, el_target = 0, el_vars = [0], el_linear_index = None, el_linear_target = None,
        el_exprs = [] \<rparr>]"

lemma wide_index_wraps:
  "ValidateCpModel False wide_index_model = Valid" "SolutionIsFeasible wide_index_model [0, 4294967296] = Some True"
  "\<not> solves [0, 4294967296] wide_index_model"
proof -
  show "ValidateCpModel False wide_index_model = Valid" by code_simp
  show "SolutionIsFeasible wide_index_model [0, 4294967296] = Some True" by code_simp
  show "\<not> solves [0, 4294967296] wide_index_model"
    by (simp add: solves_def satisfied_def wide_index_model_def model_of_def ct_of_def enforced_def select_def elt_def)
qed

section \<open>The least int64 in a domain\<close>

text \<open>\<open>SmallestValue\<close> keeps the least int64, the value farthest from zero, since its absolute value wraps.\<close>

lemma SmallestValue_of_least: "Domain_SmallestValue [Interval kint64min kint64min, Interval 1000 1000] = kint64min"
  by code_simp

text \<open>\<open>2 ^ 62\<close> times \<open>-2\<close> is the least int64, which the superset of the products does not contain: the product
  with the absolute value saturates one short.\<close>

lemma ContinuousMultiplicationBy_misses_least:
  "4611686018427387904 * (- 2) = kint64min"
  "Domain_ContinuousMultiplicationBy [Interval 4611686018427387904 4611686018427387904] (- 2) =
    [Interval (- kint64max) (- kint64max)]"
  by code_simp+

end
