(* ===== verification/Shim.thy ===== *)
theory Shim
  imports Prelude
begin

text \<open>
  The native shim \<open>native/cpsat_shim.cpp\<close> as a state machine.  A stop token is shared by any number of
  streaming solves; each has a worker thread (\<open>RunStream\<close>), a queue guarded by a mutex, a condition
  variable, and the handle that owns the thread.  One transition is one critical section, or one action
  between two of them, so the interleavings of the transitions are those of the threads.  The search itself
  (\<open>SolveCpModel\<close>) is the environment: it reports any solutions, in any number, and returns any response
  once the callbacks it started have returned.
\<close>

section \<open>Bytes\<close>

type_synonym bytes = string

text \<open>A Lean byte array of \<open>len\<close> bytes; the length is an int, and a negative one asks for an allocation of
  almost \<open>2 ^ 64\<close> bytes, which fails (\<open>None\<close>).\<close>

definition cpsat_bytes_of :: "bytes \<Rightarrow> int32 \<Rightarrow> bytes option" where
  "cpsat_bytes_of data len = (if len < 0 then None else Some (take (nat len) data))"

section \<open>State\<close>

record StreamUpdate =
  su_is_done :: bool
  su_bytes :: bytes

text \<open>The shared state of a stream, with the threads that are inside its operations: the callers of
  \<open>cpsat_solve_stream_next\<close> that are about to test the queue, those blocked in \<open>cv.wait\<close>, and the callbacks
  that have pushed an update and not yet called \<open>notify_one\<close>.\<close>

record StreamState =
  ss_queue :: "StreamUpdate list"
  ss_finished :: bool
  ss_checking :: nat
  ss_waiting :: nat
  ss_notifies :: nat

text \<open>Where the worker thread is in \<open>RunStream\<close>; the response is kept from the return of the solver to the
  final push.\<close>

datatype worker =
    Launched
  | Searching
  | Solved bytes
  | Unregistered bytes
  | Published
  | Exited

text \<open>The life of a handle: in use, in the finalizer before its stop block, before its join, deleted.\<close>

datatype handle_phase = HandleOpen | HandleStopping | HandleJoining | HandleDeleted

text \<open>\<open>sh_limit_stopped\<close> is the flag of the \<open>ModelSharedTimeLimit\<close> that the worker owns.\<close>

record StreamHandle =
  sh_worker :: worker
  sh_state :: StreamState
  sh_phase :: handle_phase
  sh_limit_stopped :: bool

text \<open>\<open>tk_active_stream_limit\<close> is the index of the stream whose limit the token points to.  The token is
  reference counted: \<open>tk_refs\<close> is its count, \<open>tk_user_refs\<close> the references that Lean code holds, and
  \<open>tk_stop_calls\<close> the calls of \<open>cpsat_stop_token_stop\<close> before their critical section.\<close>

record LeanStopToken =
  tk_stopped :: bool
  tk_active_stream_limit :: "nat option"
  tk_legacy_stopped :: bool
  tk_stop_calls :: nat
  tk_refs :: nat
  tk_user_refs :: nat

record shim =
  sm_token :: LeanStopToken
  sm_streams :: "StreamHandle list"

section \<open>Operations\<close>

definition StreamState_init :: StreamState where
  "StreamState_init = \<lparr> ss_queue = [], ss_finished = False, ss_checking = 0, ss_waiting = 0, ss_notifies = 0 \<rparr>"

definition cpsat_new_stop_token :: LeanStopToken where
  "cpsat_new_stop_token = \<lparr> tk_stopped = False, tk_active_stream_limit = None, tk_legacy_stopped = False,
     tk_stop_calls = 0, tk_refs = 1, tk_user_refs = 1 \<rparr>"

definition shim_init :: shim where
  "shim_init = \<lparr> sm_token = cpsat_new_stop_token, sm_streams = [] \<rparr>"

abbreviation stream :: "shim \<Rightarrow> nat \<Rightarrow> StreamHandle" where
  "stream s i \<equiv> sm_streams s ! i"

definition on_stream :: "nat \<Rightarrow> (StreamHandle \<Rightarrow> StreamHandle) \<Rightarrow> shim \<Rightarrow> shim" where
  "on_stream i f s = s\<lparr> sm_streams := (sm_streams s)[i := f (stream s i)] \<rparr>"

definition on_token :: "(LeanStopToken \<Rightarrow> LeanStopToken) \<Rightarrow> shim \<Rightarrow> shim" where
  "on_token f s = s\<lparr> sm_token := f (sm_token s) \<rparr>"

definition on_state :: "(StreamState \<Rightarrow> StreamState) \<Rightarrow> StreamHandle \<Rightarrow> StreamHandle" where
  "on_state f h = h\<lparr> sh_state := f (sh_state h) \<rparr>"

text \<open>The critical section that stops: \<open>stopped = true\<close>, and \<open>Stop()\<close> on the registered limit.\<close>

definition stop_locked :: "shim \<Rightarrow> shim" where
  "stop_locked s =
     (let s1 = on_token (tk_stopped_update (\<lambda>_. True)) s
      in case tk_active_stream_limit (sm_token s1) of
          None \<Rightarrow> s1
        | Some j \<Rightarrow> on_stream j (sh_limit_stopped_update (\<lambda>_. True)) s1)"

text \<open>The critical section of \<open>RunStream\<close> that registers its limit with the token.\<close>

definition register_limit :: "nat \<Rightarrow> shim \<Rightarrow> shim" where
  "register_limit i s =
     (let s1 = on_token (tk_active_stream_limit_update (\<lambda>_. Some i)) s
      in if tk_stopped (sm_token s1) then on_stream i (sh_limit_stopped_update (\<lambda>_. True)) s1 else s1)"

definition unregister_limit :: "shim \<Rightarrow> shim" where
  "unregister_limit = on_token (tk_active_stream_limit_update (\<lambda>_. None))"

definition push_update :: "bool \<Rightarrow> bytes \<Rightarrow> StreamState \<Rightarrow> StreamState" where
  "push_update is_done b st = st\<lparr> ss_queue := ss_queue st @ [\<lparr> su_is_done = is_done, su_bytes = b \<rparr>] \<rparr>"

text \<open>\<open>notify_one\<close> sends one of the blocked callers, if any, back to its test of the queue.\<close>

definition notify_one :: "StreamState \<Rightarrow> StreamState" where
  "notify_one st =
     (if ss_waiting st > 0
      then st\<lparr> ss_waiting := ss_waiting st - 1, ss_checking := ss_checking st + 1 \<rparr> else st)"

text \<open>The observer pushes under the lock, and notifies after it.\<close>

definition observe :: "bytes \<Rightarrow> StreamState \<Rightarrow> StreamState" where
  "observe b st = (push_update False b st)\<lparr> ss_notifies := ss_notifies st + 1 \<rparr>"

definition observer_notify :: "StreamState \<Rightarrow> StreamState" where
  "observer_notify st = notify_one (st\<lparr> ss_notifies := ss_notifies st - 1 \<rparr>)"

definition publish :: "bytes \<Rightarrow> StreamState \<Rightarrow> StreamState" where
  "publish b st = (push_update True b st)\<lparr> ss_finished := True \<rparr>"

text \<open>\<open>cpsat_solve_stream_start\<close>: a new stream, and a reference to the token for its handle.\<close>

definition cpsat_solve_stream_start :: "shim \<Rightarrow> shim" where
  "cpsat_solve_stream_start s =
     on_token (\<lambda>t. t\<lparr> tk_refs := tk_refs t + 1 \<rparr>)
       (s\<lparr> sm_streams := sm_streams s @
          [\<lparr> sh_worker = Launched, sh_state = StreamState_init, sh_phase = HandleOpen, sh_limit_stopped = False \<rparr>] \<rparr>)"

text \<open>One pass through the loop of \<open>cpsat_solve_stream_next\<close>, under the lock.\<close>

datatype next_result = Update StreamUpdate | AlreadyFinished | Blocks

definition next_loop :: "StreamState \<Rightarrow> StreamState \<times> next_result" where
  "next_loop st =
     (case ss_queue st of
        u # q \<Rightarrow> (st\<lparr> ss_queue := q, ss_checking := ss_checking st - 1 \<rparr>, Update u)
      | [] \<Rightarrow>
          if ss_finished st then (st\<lparr> ss_checking := ss_checking st - 1 \<rparr>, AlreadyFinished)
          else (st\<lparr> ss_checking := ss_checking st - 1, ss_waiting := ss_waiting st + 1 \<rparr>, Blocks))"

text \<open>The pair that a call returns, built from the popped update after the lock is released.\<close>

definition next_pair :: "StreamUpdate \<Rightarrow> (bool \<times> bytes) option" where
  "next_pair u = map_option (Pair (su_is_done u)) (cpsat_bytes_of (su_bytes u) (wrap32 (int (length (su_bytes u)))))"

section \<open>Transitions\<close>

text \<open>\<open>Duplicate\<close>, \<open>Drop\<close>: Lean code copies or drops a reference to the token.  \<open>StopCall\<close>,
  \<open>StopLocked\<close>: the two halves of \<open>cpsat_stop_token_stop\<close>.  \<open>Register\<close> to \<open>NotifyFinal\<close>: the worker and its
  callbacks.  \<open>Call\<close> to \<open>Wait\<close>: a call of \<open>cpsat_solve_stream_next\<close>.  The last three: the finalizer.\<close>

datatype event =
    Duplicate | Drop | StopCall | StopLocked | Start
  | Register nat | Observe nat bytes | Notify nat | Solve nat bytes | Unregister nat | Publish nat | NotifyFinal nat
  | Call nat | Return nat StreamUpdate | Fail nat | Wait nat
  | FinalizeLoad nat | FinalizeStop nat | Join nat

inductive step :: "shim \<Rightarrow> event \<Rightarrow> shim \<Rightarrow> bool" where
  Duplicate: "tk_user_refs (sm_token s) > 0 \<Longrightarrow>
    step s Duplicate (on_token (\<lambda>t. t\<lparr> tk_refs := tk_refs t + 1, tk_user_refs := tk_user_refs t + 1 \<rparr>) s)"
| Drop: "tk_user_refs (sm_token s) > tk_stop_calls (sm_token s) \<Longrightarrow>
    step s Drop (on_token (\<lambda>t. t\<lparr> tk_refs := tk_refs t - 1, tk_user_refs := tk_user_refs t - 1 \<rparr>) s)"
| StopCall: "tk_user_refs (sm_token s) > tk_stop_calls (sm_token s) \<Longrightarrow>
    step s StopCall (on_token (\<lambda>t. t\<lparr> tk_legacy_stopped := True, tk_stop_calls := tk_stop_calls t + 1 \<rparr>) s)"
| StopLocked: "tk_stop_calls (sm_token s) > 0 \<Longrightarrow>
    step s StopLocked (on_token (\<lambda>t. t\<lparr> tk_stop_calls := tk_stop_calls t - 1 \<rparr>) (stop_locked s))"
| Start: "tk_user_refs (sm_token s) > 0 \<Longrightarrow> step s Start (cpsat_solve_stream_start s)"
| Register: "i < length (sm_streams s) \<Longrightarrow> sh_worker (stream s i) = Launched \<Longrightarrow>
    step s (Register i) (on_stream i (sh_worker_update (\<lambda>_. Searching)) (register_limit i s))"
| Observe: "i < length (sm_streams s) \<Longrightarrow> sh_worker (stream s i) = Searching \<Longrightarrow>
    step s (Observe i b) (on_stream i (on_state (observe b)) s)"
| Notify: "i < length (sm_streams s) \<Longrightarrow> ss_notifies (sh_state (stream s i)) > 0 \<Longrightarrow>
    step s (Notify i) (on_stream i (on_state observer_notify) s)"
| Solve: "i < length (sm_streams s) \<Longrightarrow> sh_worker (stream s i) = Searching \<Longrightarrow>
    ss_notifies (sh_state (stream s i)) = 0 \<Longrightarrow>
    step s (Solve i b) (on_stream i (sh_worker_update (\<lambda>_. Solved b)) s)"
| Unregister: "i < length (sm_streams s) \<Longrightarrow> sh_worker (stream s i) = Solved b \<Longrightarrow>
    step s (Unregister i) (on_stream i (sh_worker_update (\<lambda>_. Unregistered b)) (unregister_limit s))"
| Publish: "i < length (sm_streams s) \<Longrightarrow> sh_worker (stream s i) = Unregistered b \<Longrightarrow>
    step s (Publish i) (on_stream i (on_state (publish b) \<circ> sh_worker_update (\<lambda>_. Published)) s)"
| NotifyFinal: "i < length (sm_streams s) \<Longrightarrow> sh_worker (stream s i) = Published \<Longrightarrow>
    step s (NotifyFinal i) (on_stream i (on_state notify_one \<circ> sh_worker_update (\<lambda>_. Exited)) s)"
| Call: "i < length (sm_streams s) \<Longrightarrow> sh_phase (stream s i) = HandleOpen \<Longrightarrow>
    step s (Call i) (on_stream i (on_state (\<lambda>st. st\<lparr> ss_checking := ss_checking st + 1 \<rparr>)) s)"
| Return: "i < length (sm_streams s) \<Longrightarrow> ss_checking (sh_state (stream s i)) > 0 \<Longrightarrow>
    next_loop (sh_state (stream s i)) = (st, Update u) \<Longrightarrow>
    step s (Return i u) (on_stream i (on_state (\<lambda>_. st)) s)"
| Fail: "i < length (sm_streams s) \<Longrightarrow> ss_checking (sh_state (stream s i)) > 0 \<Longrightarrow>
    next_loop (sh_state (stream s i)) = (st, AlreadyFinished) \<Longrightarrow>
    step s (Fail i) (on_stream i (on_state (\<lambda>_. st)) s)"
| Wait: "i < length (sm_streams s) \<Longrightarrow> ss_checking (sh_state (stream s i)) > 0 \<Longrightarrow>
    next_loop (sh_state (stream s i)) = (st, Blocks) \<Longrightarrow>
    step s (Wait i) (on_stream i (on_state (\<lambda>_. st)) s)"
| FinalizeLoad: "i < length (sm_streams s) \<Longrightarrow> sh_phase (stream s i) = HandleOpen \<Longrightarrow>
    ss_checking (sh_state (stream s i)) = 0 \<Longrightarrow> ss_waiting (sh_state (stream s i)) = 0 \<Longrightarrow>
    step s (FinalizeLoad i) (on_stream i (\<lambda>h. h\<lparr> sh_phase :=
      if ss_finished (sh_state h) then HandleJoining else HandleStopping \<rparr>) s)"
| FinalizeStop: "i < length (sm_streams s) \<Longrightarrow> sh_phase (stream s i) = HandleStopping \<Longrightarrow>
    step s (FinalizeStop i) (on_stream i (sh_phase_update (\<lambda>_. HandleJoining)) (stop_locked s))"
| Join: "i < length (sm_streams s) \<Longrightarrow> sh_phase (stream s i) = HandleJoining \<Longrightarrow> sh_worker (stream s i) = Exited \<Longrightarrow>
    step s (Join i) (on_token (\<lambda>t. t\<lparr> tk_refs := tk_refs t - 1 \<rparr>)
      (on_stream i (sh_phase_update (\<lambda>_. HandleDeleted)) s))"

text \<open>A run, with the events so far, the latest first.\<close>

inductive run :: "event list \<Rightarrow> shim \<Rightarrow> bool" where
  run_init: "run [] shim_init"
| run_step: "run tr s \<Longrightarrow> step s e s' \<Longrightarrow> run (e # tr) s'"

inductive_simps run_Nil: "run [] s"
inductive_simps run_Cons: "run (e # tr) s"

section \<open>Executing a step\<close>

text \<open>The same transitions as a function; \<open>None\<close> when the event cannot happen.\<close>

fun exec_next :: "shim \<Rightarrow> nat \<Rightarrow> (next_result \<Rightarrow> bool) \<Rightarrow> shim option" where
  "exec_next s i P =
     (if i < length (sm_streams s) \<and> ss_checking (sh_state (stream s i)) > 0 \<and> P (snd (next_loop (sh_state (stream s i))))
      then Some (on_stream i (on_state (\<lambda>st. fst (next_loop st))) s) else None)"

fun exec :: "event \<Rightarrow> shim \<Rightarrow> shim option" where
  "exec Duplicate s = (if tk_user_refs (sm_token s) > 0
     then Some (on_token (\<lambda>t. t\<lparr> tk_refs := tk_refs t + 1, tk_user_refs := tk_user_refs t + 1 \<rparr>) s) else None)"
| "exec Drop s = (if tk_user_refs (sm_token s) > tk_stop_calls (sm_token s)
     then Some (on_token (\<lambda>t. t\<lparr> tk_refs := tk_refs t - 1, tk_user_refs := tk_user_refs t - 1 \<rparr>) s) else None)"
| "exec StopCall s = (if tk_user_refs (sm_token s) > tk_stop_calls (sm_token s)
     then Some (on_token (\<lambda>t. t\<lparr> tk_legacy_stopped := True, tk_stop_calls := tk_stop_calls t + 1 \<rparr>) s) else None)"
| "exec StopLocked s = (if tk_stop_calls (sm_token s) > 0
     then Some (on_token (\<lambda>t. t\<lparr> tk_stop_calls := tk_stop_calls t - 1 \<rparr>) (stop_locked s)) else None)"
| "exec Start s = (if tk_user_refs (sm_token s) > 0 then Some (cpsat_solve_stream_start s) else None)"
| "exec (Register i) s = (if i < length (sm_streams s) \<and> sh_worker (stream s i) = Launched
     then Some (on_stream i (sh_worker_update (\<lambda>_. Searching)) (register_limit i s)) else None)"
| "exec (Observe i b) s = (if i < length (sm_streams s) \<and> sh_worker (stream s i) = Searching
     then Some (on_stream i (on_state (observe b)) s) else None)"
| "exec (Notify i) s = (if i < length (sm_streams s) \<and> ss_notifies (sh_state (stream s i)) > 0
     then Some (on_stream i (on_state observer_notify) s) else None)"
| "exec (Solve i b) s = (if i < length (sm_streams s) \<and> sh_worker (stream s i) = Searching \<and>
       ss_notifies (sh_state (stream s i)) = 0
     then Some (on_stream i (sh_worker_update (\<lambda>_. Solved b)) s) else None)"
| "exec (Unregister i) s = (if i < length (sm_streams s)
     then case sh_worker (stream s i) of
         Solved b \<Rightarrow> Some (on_stream i (sh_worker_update (\<lambda>_. Unregistered b)) (unregister_limit s)) | _ \<Rightarrow> None
     else None)"
| "exec (Publish i) s = (if i < length (sm_streams s)
     then case sh_worker (stream s i) of
         Unregistered b \<Rightarrow> Some (on_stream i (on_state (publish b) \<circ> sh_worker_update (\<lambda>_. Published)) s) | _ \<Rightarrow> None
     else None)"
| "exec (NotifyFinal i) s = (if i < length (sm_streams s) \<and> sh_worker (stream s i) = Published
     then Some (on_stream i (on_state notify_one \<circ> sh_worker_update (\<lambda>_. Exited)) s) else None)"
| "exec (Call i) s = (if i < length (sm_streams s) \<and> sh_phase (stream s i) = HandleOpen
     then Some (on_stream i (on_state (\<lambda>st. st\<lparr> ss_checking := ss_checking st + 1 \<rparr>)) s) else None)"
| "exec (Return i u) s = exec_next s i (\<lambda>r. r = Update u)"
| "exec (Fail i) s = exec_next s i (\<lambda>r. r = AlreadyFinished)"
| "exec (Wait i) s = exec_next s i (\<lambda>r. r = Blocks)"
| "exec (FinalizeLoad i) s = (if i < length (sm_streams s) \<and> sh_phase (stream s i) = HandleOpen \<and>
       ss_checking (sh_state (stream s i)) = 0 \<and> ss_waiting (sh_state (stream s i)) = 0
     then Some (on_stream i (\<lambda>h. h\<lparr> sh_phase := if ss_finished (sh_state h) then HandleJoining else HandleStopping \<rparr>) s)
     else None)"
| "exec (FinalizeStop i) s = (if i < length (sm_streams s) \<and> sh_phase (stream s i) = HandleStopping
     then Some (on_stream i (sh_phase_update (\<lambda>_. HandleJoining)) (stop_locked s)) else None)"
| "exec (Join i) s = (if i < length (sm_streams s) \<and> sh_phase (stream s i) = HandleJoining \<and> sh_worker (stream s i) = Exited
     then Some (on_token (\<lambda>t. t\<lparr> tk_refs := tk_refs t - 1 \<rparr>) (on_stream i (sh_phase_update (\<lambda>_. HandleDeleted)) s))
     else None)"

lemma exec_next_Some:
  "exec_next s i P = Some s' \<longleftrightarrow> i < length (sm_streams s) \<and> ss_checking (sh_state (stream s i)) > 0 \<and>
    (\<exists>st r. next_loop (sh_state (stream s i)) = (st, r) \<and> P r \<and> s' = on_stream i (on_state (\<lambda>_. st)) s)"
  by (cases "next_loop (sh_state (stream s i))") (auto simp: on_stream_def on_state_def)

theorem exec_step: "exec e s = Some s' \<longleftrightarrow> step s e s'"
proof
  assume "exec e s = Some s'"
  then show "step s e s'"
    by (cases e) (auto simp: exec_next_Some simp del: exec_next.simps One_nat_def intro: step.intros
        split: if_split_asm worker.split_asm)
next
  assume "step s e s'"
  then show "exec e s = Some s'"
    by cases (auto simp: exec_next_Some simp del: exec_next.simps)
qed

text \<open>A sequence of events, the first one first.\<close>

fun exec_all :: "event list \<Rightarrow> shim \<Rightarrow> shim option" where
  "exec_all [] s = Some s"
| "exec_all (e # es) s = (case exec e s of None \<Rightarrow> None | Some s' \<Rightarrow> exec_all es s')"

lemma exec_all_append:
  "exec_all (es @ fs) s = (case exec_all es s of None \<Rightarrow> None | Some s' \<Rightarrow> exec_all fs s')"
  by (induction es arbitrary: s) (simp_all split: option.split)

lemma run_exec_all: "run tr s \<Longrightarrow> exec_all es s = Some s' \<Longrightarrow> run (rev es @ tr) s'"
proof (induction es arbitrary: tr s)
  case (Cons e es)
  then obtain s1 where s1: "exec e s = Some s1" "exec_all es s1 = Some s'" by (auto split: option.split_asm)
  then have "run (e # tr) s1" using Cons.prems(1) run_step exec_step by blast
  from Cons.IH[OF this s1(2)] show ?case by simp
qed simp

end
