(* ===== verification/ShimInvariants.thy ===== *)
theory ShimInvariants
  imports Shim
begin

text \<open>
  Invariants of the native shim: what every transition keeps, whatever the interleaving of the threads, and
  the progress of a call of \<open>cpsat_solve_stream_next\<close>.
\<close>

section \<open>Invariants of runs\<close>

text \<open>A property of a run and its last state that holds at the start and that every transition keeps.\<close>

locale stable =
  fixes I :: "event list \<Rightarrow> shim \<Rightarrow> bool"
  assumes start: "I [] shim_init"
    and keeps: "run tr s \<Longrightarrow> I tr s \<Longrightarrow> step s e s' \<Longrightarrow> I (e # tr) s'"
begin

lemma always: "run tr s \<Longrightarrow> I tr s"
  by (induction rule: run.induct) (use start keeps in auto)

lemma after: "run tr s \<Longrightarrow> exec_all es s = Some s' \<Longrightarrow> I (rev es @ tr) s'"
  by (rule always[OF run_exec_all])

end

named_theorems shim_simps \<open>the effect of the operations on the parts of the state\<close>

lemma on_stream_parts [shim_simps]:
  "length (sm_streams (on_stream i f s)) = length (sm_streams s)"
  "sm_token (on_stream i f s) = sm_token s"
  "i < length (sm_streams s) \<Longrightarrow> stream (on_stream i f s) i = f (stream s i)"
  "i \<noteq> j \<Longrightarrow> stream (on_stream i f s) j = stream s j"
  by (simp_all add: on_stream_def)

lemma stream_on_stream:
  "j < length (sm_streams s) \<Longrightarrow> stream (on_stream i f s) j = (if i = j then f (stream s j) else stream s j)"
  by (simp add: on_stream_def)

lemma on_token_parts [shim_simps]:
  "sm_streams (on_token f s) = sm_streams s" "sm_token (on_token f s) = f (sm_token s)"
  by (simp_all add: on_token_def)

lemma on_state_parts [shim_simps]:
  "sh_worker (on_state f h) = sh_worker h" "sh_phase (on_state f h) = sh_phase h"
  "sh_limit_stopped (on_state f h) = sh_limit_stopped h" "sh_state (on_state f h) = f (sh_state h)"
  by (simp_all add: on_state_def)

lemma stop_locked_parts [shim_simps]:
  "length (sm_streams (stop_locked s)) = length (sm_streams s)"
  "sm_token (stop_locked s) = (sm_token s)\<lparr> tk_stopped := True \<rparr>"
  "j < length (sm_streams s) \<Longrightarrow> sh_worker (stream (stop_locked s) j) = sh_worker (stream s j)"
  "j < length (sm_streams s) \<Longrightarrow> sh_state (stream (stop_locked s) j) = sh_state (stream s j)"
  "j < length (sm_streams s) \<Longrightarrow> sh_phase (stream (stop_locked s) j) = sh_phase (stream s j)"
  "j < length (sm_streams s) \<Longrightarrow> sh_limit_stopped (stream (stop_locked s) j) \<longleftrightarrow>
     sh_limit_stopped (stream s j) \<or> tk_active_stream_limit (sm_token s) = Some j"
  by (auto simp: stop_locked_def Let_def shim_simps stream_on_stream split: option.split)

lemma register_limit_parts [shim_simps]:
  "length (sm_streams (register_limit i s)) = length (sm_streams s)"
  "sm_token (register_limit i s) = (sm_token s)\<lparr> tk_active_stream_limit := Some i \<rparr>"
  "j < length (sm_streams s) \<Longrightarrow> sh_worker (stream (register_limit i s) j) = sh_worker (stream s j)"
  "j < length (sm_streams s) \<Longrightarrow> sh_state (stream (register_limit i s) j) = sh_state (stream s j)"
  "j < length (sm_streams s) \<Longrightarrow> sh_phase (stream (register_limit i s) j) = sh_phase (stream s j)"
  "j < length (sm_streams s) \<Longrightarrow> sh_limit_stopped (stream (register_limit i s) j) \<longleftrightarrow>
     sh_limit_stopped (stream s j) \<or> tk_stopped (sm_token s) \<and> i = j"
  by (auto simp: register_limit_def Let_def shim_simps stream_on_stream)

lemma unregister_limit_parts [shim_simps]:
  "sm_streams (unregister_limit s) = sm_streams s"
  "sm_token (unregister_limit s) = (sm_token s)\<lparr> tk_active_stream_limit := None \<rparr>"
  by (simp_all add: unregister_limit_def shim_simps)

lemma start_parts [shim_simps]:
  "length (sm_streams (cpsat_solve_stream_start s)) = Suc (length (sm_streams s))"
  "sm_token (cpsat_solve_stream_start s) = (sm_token s)\<lparr> tk_refs := tk_refs (sm_token s) + 1 \<rparr>"
  "j \<le> length (sm_streams s) \<Longrightarrow> stream (cpsat_solve_stream_start s) j =
     (if j = length (sm_streams s)
      then \<lparr> sh_worker = Launched, sh_state = StreamState_init, sh_phase = HandleOpen, sh_limit_stopped = False \<rparr>
      else stream s j)"
  by (auto simp: cpsat_solve_stream_start_def shim_simps nth_append)

section \<open>The life of the token\<close>

text \<open>The handles that hold a reference.\<close>

definition open_handles :: "shim \<Rightarrow> nat" where
  "open_handles s = sum_list (map (\<lambda>h. if sh_phase h = HandleDeleted then 0 else 1) (sm_streams s))"

definition references_inv :: "event list \<Rightarrow> shim \<Rightarrow> bool" where
  "references_inv tr s \<longleftrightarrow>
     tk_refs (sm_token s) = tk_user_refs (sm_token s) + open_handles s \<and>
     tk_stop_calls (sm_token s) \<le> tk_user_refs (sm_token s)"

lemma open_handles_update:
  assumes "i < length (sm_streams s)"
  shows "open_handles (on_stream i f s) + (if sh_phase (stream s i) = HandleDeleted then 0 else 1) =
    open_handles s + (if sh_phase (f (stream s i)) = HandleDeleted then 0 else 1)"
  using assms elem_le_sum_list[of i "map (\<lambda>h. if sh_phase h = HandleDeleted then 0 else (1 :: nat)) (sm_streams s)"]
  by (simp add: open_handles_def on_stream_def map_update sum_list_update)

lemma open_handles_same:
  assumes "sh_phase (f (stream s i)) = sh_phase (stream s i)"
  shows "open_handles (on_stream i f s) = open_handles s"
proof (cases "i < length (sm_streams s)")
  case True
  then show ?thesis using open_handles_update[of i s f] assms by (simp split: if_split_asm)
qed (simp add: on_stream_def open_handles_def list_update_beyond)

lemma open_handles_token [simp]: "open_handles (on_token f s) = open_handles s"
  by (simp add: open_handles_def shim_simps)

lemma open_handles_limit:
  "open_handles (stop_locked s) = open_handles s" "open_handles (register_limit i s) = open_handles s"
  "open_handles (unregister_limit s) = open_handles s"
  by (simp_all add: stop_locked_def register_limit_def unregister_limit_def Let_def open_handles_same split: option.split)

interpretation references: stable references_inv
proof
  show "references_inv [] shim_init"
    by (simp add: references_inv_def shim_init_def cpsat_new_stop_token_def open_handles_def)
next
  fix tr s e s'
  assume I: "references_inv tr s" and st: "step s e s'"
  from st show "references_inv (e # tr) s'"
  proof cases
    case Start
    then show ?thesis using I
      by (simp add: references_inv_def shim_simps) (simp add: open_handles_def cpsat_solve_stream_start_def on_token_def)
  next
    case (FinalizeLoad i)
    then show ?thesis
      using I open_handles_update[of i s "\<lambda>h. h\<lparr> sh_phase := if ss_finished (sh_state h) then HandleJoining else HandleStopping \<rparr>"]
      by (simp add: references_inv_def shim_simps split: if_split_asm)
  next
    case (FinalizeStop i)
    then have "open_handles (on_stream i (sh_phase_update (\<lambda>_. HandleJoining)) (stop_locked s)) = open_handles s"
      using open_handles_update[of i "stop_locked s" "sh_phase_update (\<lambda>_. HandleJoining)"]
      by (simp add: shim_simps open_handles_limit)
    then show ?thesis using I FinalizeStop by (simp add: references_inv_def shim_simps)
  next
    case (Join i)
    then show ?thesis using I open_handles_update[of i s "sh_phase_update (\<lambda>_. HandleDeleted)"]
      by (simp add: references_inv_def shim_simps)
  qed (use I in \<open>auto simp: references_inv_def shim_simps open_handles_same open_handles_limit\<close>)
qed

text \<open>The registered limit belongs to a worker that is inside the solver, and a handle is deleted only after
  its worker has exited.\<close>

fun in_search :: "worker \<Rightarrow> bool" where
  "in_search Searching \<longleftrightarrow> True"
| "in_search (Solved b) \<longleftrightarrow> True"
| "in_search _ \<longleftrightarrow> False"

definition ownership_inv :: "event list \<Rightarrow> shim \<Rightarrow> bool" where
  "ownership_inv tr s \<longleftrightarrow>
     (\<forall>i < length (sm_streams s). sh_phase (stream s i) = HandleDeleted \<longrightarrow> sh_worker (stream s i) = Exited) \<and>
     (\<forall>i. tk_active_stream_limit (sm_token s) = Some i \<longrightarrow>
        i < length (sm_streams s) \<and> in_search (sh_worker (stream s i)))"

interpretation ownership: stable ownership_inv
proof
  show "ownership_inv [] shim_init"
    by (simp add: ownership_inv_def shim_init_def cpsat_new_stop_token_def)
next
  fix tr s e s'
  assume I: "ownership_inv tr s" and st: "step s e s'"
  from st show "ownership_inv (e # tr) s'"
    by cases (use I in \<open>auto simp: ownership_inv_def shim_simps stream_on_stream\<close>)
qed

section \<open>The stream of a transition\<close>

fun event_stream :: "event \<Rightarrow> nat option" where
  "event_stream (Register i) = Some i"
| "event_stream (Observe i b) = Some i"
| "event_stream (Notify i) = Some i"
| "event_stream (Solve i b) = Some i"
| "event_stream (Unregister i) = Some i"
| "event_stream (Publish i) = Some i"
| "event_stream (NotifyFinal i) = Some i"
| "event_stream (Call i) = Some i"
| "event_stream (Return i u) = Some i"
| "event_stream (Fail i) = Some i"
| "event_stream (Wait i) = Some i"
| "event_stream (FinalizeLoad i) = Some i"
| "event_stream (FinalizeStop i) = Some i"
| "event_stream (Join i) = Some i"
| "event_stream _ = None"

text \<open>A transition touches at most the flag of the limit of another stream.\<close>

lemma step_other:
  assumes "step s e s'" "i < length (sm_streams s)" "event_stream e \<noteq> Some i"
  shows "sh_worker (stream s' i) = sh_worker (stream s i)" "sh_state (stream s' i) = sh_state (stream s i)"
    "sh_phase (stream s' i) = sh_phase (stream s i)"
  using assms by (cases; simp add: shim_simps)+

lemma step_length:
  assumes "step s e s'"
  shows "length (sm_streams s') = length (sm_streams s) + (if e = Start then 1 else 0)"
  using assms by cases (simp_all add: shim_simps)

lemma event_in_range:
  assumes "step s e s'" "event_stream e = Some i"
  shows "i < length (sm_streams s)"
  using assms by cases simp_all

section \<open>The queue\<close>

text \<open>What a run has shown of a stream: the responses observed by the callbacks, the final one, and the
  updates returned to callers, in their order.\<close>

fun observed :: "nat \<Rightarrow> event list \<Rightarrow> bytes list" where
  "observed i [] = []"
| "observed i (Observe j b # tr) = observed i tr @ (if i = j then [b] else [])"
| "observed i (_ # tr) = observed i tr"

fun answer :: "nat \<Rightarrow> event list \<Rightarrow> bytes option" where
  "answer i [] = None"
| "answer i (Solve j b # tr) = (if i = j then Some b else answer i tr)"
| "answer i (_ # tr) = answer i tr"

fun delivered :: "nat \<Rightarrow> event list \<Rightarrow> StreamUpdate list" where
  "delivered i [] = []"
| "delivered i (Return j u # tr) = delivered i tr @ (if i = j then [u] else [])"
| "delivered i (_ # tr) = delivered i tr"

fun calls_failed :: "nat \<Rightarrow> event list \<Rightarrow> nat" where
  "calls_failed i [] = 0"
| "calls_failed i (Fail j # tr) = calls_failed i tr + (if i = j then 1 else 0)"
| "calls_failed i (_ # tr) = calls_failed i tr"

definition improving :: "bytes \<Rightarrow> StreamUpdate" where
  "improving b = \<lparr> su_is_done = False, su_bytes = b \<rparr>"

definition done_update :: "bytes \<Rightarrow> StreamUpdate" where
  "done_update b = \<lparr> su_is_done = True, su_bytes = b \<rparr>"

text \<open>The updates that a stream has produced.\<close>

definition produced :: "nat \<Rightarrow> event list \<Rightarrow> bool \<Rightarrow> StreamUpdate list" where
  "produced i tr finished = map improving (observed i tr) @ (if finished then [done_update (the (answer i tr))] else [])"

fun worker_answer :: "worker \<Rightarrow> bytes option \<Rightarrow> bool" where
  "worker_answer Launched r \<longleftrightarrow> r = None"
| "worker_answer Searching r \<longleftrightarrow> r = None"
| "worker_answer (Solved b) r \<longleftrightarrow> r = Some b"
| "worker_answer (Unregistered b) r \<longleftrightarrow> r = Some b"
| "worker_answer Published r \<longleftrightarrow> r \<noteq> None"
| "worker_answer Exited r \<longleftrightarrow> r \<noteq> None"

definition stream_delivery :: "nat \<Rightarrow> event list \<Rightarrow> StreamHandle \<Rightarrow> bool" where
  "stream_delivery i tr h \<longleftrightarrow>
     delivered i tr @ ss_queue (sh_state h) = produced i tr (ss_finished (sh_state h)) \<and>
     (ss_finished (sh_state h) \<longleftrightarrow> sh_worker h = Published \<or> sh_worker h = Exited) \<and>
     worker_answer (sh_worker h) (answer i tr)"

definition delivery_inv :: "event list \<Rightarrow> shim \<Rightarrow> bool" where
  "delivery_inv tr s \<longleftrightarrow>
     (\<forall>i < length (sm_streams s). stream_delivery i tr (stream s i)) \<and>
     (\<forall>i \<ge> length (sm_streams s). observed i tr = [] \<and> answer i tr = None \<and> delivered i tr = [])"

lemmas queue_defs = push_update_def publish_def observe_def observer_notify_def notify_one_def improving_def done_update_def

lemma next_loop_cases:
  assumes "next_loop st = (st', r)"
  shows "case r of
      Update u \<Rightarrow> ss_queue st = u # ss_queue st' \<and> ss_finished st' = ss_finished st
    | AlreadyFinished \<Rightarrow> ss_queue st = [] \<and> ss_queue st' = [] \<and> ss_finished st \<and> ss_finished st'
    | Blocks \<Rightarrow> ss_queue st = [] \<and> ss_queue st' = [] \<and> \<not> ss_finished st \<and> \<not> ss_finished st'"
  using assms by (auto simp: next_loop_def split: list.split_asm if_split_asm)

lemma queue_operations [simp]:
  "ss_queue (observe b st) = ss_queue st @ [improving b]" "ss_finished (observe b st) = ss_finished st"
  "ss_queue (publish b st) = ss_queue st @ [done_update b]" "ss_finished (publish b st)"
  "ss_queue (notify_one st) = ss_queue st" "ss_finished (notify_one st) = ss_finished st"
  "ss_queue (observer_notify st) = ss_queue st" "ss_finished (observer_notify st) = ss_finished st"
  by (simp_all add: queue_defs)

interpretation delivery: stable delivery_inv
proof
  show "delivery_inv [] shim_init" by (simp add: delivery_inv_def shim_init_def)
next
  fix tr s e s'
  assume I: "delivery_inv tr s" and st: "step s e s'"
  from st show "delivery_inv (e # tr) s'"
  proof cases
    case (Return i st u)
    then show ?thesis using I next_loop_cases[OF Return(5)]
      by (auto simp: delivery_inv_def stream_delivery_def produced_def shim_simps stream_on_stream)
  next
    case (Fail i st)
    then show ?thesis using I next_loop_cases[OF Fail(5)]
      by (auto simp: delivery_inv_def stream_delivery_def produced_def shim_simps stream_on_stream)
  next
    case (Wait i st)
    then show ?thesis using I next_loop_cases[OF Wait(5)]
      by (auto simp: delivery_inv_def stream_delivery_def produced_def shim_simps stream_on_stream)
  qed (use I in \<open>auto simp: delivery_inv_def stream_delivery_def produced_def shim_simps stream_on_stream
      StreamState_init_def less_Suc_eq\<close>)
qed

section \<open>Callers of next\<close>

text \<open>The calls of \<open>cpsat_solve_stream_next\<close> in progress, and the runs in which they never overlap.\<close>

fun calls_open :: "nat \<Rightarrow> event list \<Rightarrow> nat" where
  "calls_open i [] = 0"
| "calls_open i (Call j # tr) = calls_open i tr + (if i = j then 1 else 0)"
| "calls_open i (Return j u # tr) = calls_open i tr - (if i = j then 1 else 0)"
| "calls_open i (Fail j # tr) = calls_open i tr - (if i = j then 1 else 0)"
| "calls_open i (_ # tr) = calls_open i tr"

fun single_caller :: "nat \<Rightarrow> event list \<Rightarrow> bool" where
  "single_caller i [] \<longleftrightarrow> True"
| "single_caller i (Call j # tr) \<longleftrightarrow> single_caller i tr \<and> (i = j \<longrightarrow> calls_open i tr = 0)"
| "single_caller i (_ # tr) \<longleftrightarrow> single_caller i tr"

text \<open>A blocked caller with something to read has a notification on its way.\<close>

definition caller_state :: "nat \<Rightarrow> event list \<Rightarrow> StreamHandle \<Rightarrow> bool" where
  "caller_state i tr h \<longleftrightarrow>
     (let st = sh_state h
      in calls_open i tr = ss_checking st + ss_waiting st \<and>
         (single_caller i tr \<longrightarrow>
            calls_open i tr \<le> 1 \<and>
            (ss_waiting st > 0 \<longrightarrow> ss_queue st \<noteq> [] \<or> ss_finished st \<longrightarrow>
               ss_notifies st > 0 \<or> sh_worker h = Published)) \<and>
         (sh_phase h \<noteq> HandleOpen \<longrightarrow> calls_open i tr = 0))"

definition caller_inv :: "event list \<Rightarrow> shim \<Rightarrow> bool" where
  "caller_inv tr s \<longleftrightarrow>
     (\<forall>i < length (sm_streams s). caller_state i tr (stream s i)) \<and>
     (\<forall>i \<ge> length (sm_streams s). calls_open i tr = 0)"

lemma caller_operations [simp]:
  "ss_checking (observe b st) = ss_checking st" "ss_waiting (observe b st) = ss_waiting st"
  "ss_notifies (observe b st) = ss_notifies st + 1"
  "ss_checking (publish b st) = ss_checking st" "ss_waiting (publish b st) = ss_waiting st"
  "ss_notifies (publish b st) = ss_notifies st"
  "ss_checking (notify_one st) = (if ss_waiting st > 0 then ss_checking st + 1 else ss_checking st)"
  "ss_waiting (notify_one st) = ss_waiting st - 1"
  "ss_notifies (notify_one st) = ss_notifies st"
  "ss_checking (observer_notify st) = (if ss_waiting st > 0 then ss_checking st + 1 else ss_checking st)"
  "ss_waiting (observer_notify st) = ss_waiting st - 1"
  "ss_notifies (observer_notify st) = ss_notifies st - 1"
  by (simp_all add: queue_defs)

lemma next_loop_callers:
  assumes "next_loop st = (st', r)"
  shows "ss_checking st' = ss_checking st - 1" "ss_notifies st' = ss_notifies st" "ss_finished st' = ss_finished st"
    "ss_waiting st' = ss_waiting st + (if r = Blocks then 1 else 0)"
    "r = Blocks \<Longrightarrow> ss_queue st' = [] \<and> \<not> ss_finished st'"
  using assms by (auto simp: next_loop_def split: list.split_asm if_split_asm)

lemma caller_state_init: "calls_open i tr = 0 \<Longrightarrow>
  caller_state i tr \<lparr> sh_worker = Launched, sh_state = StreamState_init, sh_phase = HandleOpen, sh_limit_stopped = False \<rparr>"
  by (simp add: caller_state_def StreamState_init_def)

lemma caller_step_other:
  assumes "step s e s'" "i < length (sm_streams s)" "event_stream e \<noteq> Some i" "caller_state i tr (stream s i)"
  shows "caller_state i (e # tr) (stream s' i)"
proof -
  have "calls_open i (e # tr) = calls_open i tr" "single_caller i (e # tr) = single_caller i tr"
    using assms(3) by (cases e; simp)+
  then show ?thesis
    using assms(4) step_other[OF assms(1-3)] by (auto simp: caller_state_def Let_def)
qed

lemma caller_step_own:
  assumes "step s e s'" "i < length (sm_streams s)" "event_stream e = Some i" "caller_state i tr (stream s i)"
    "ss_finished (sh_state (stream s i)) \<longleftrightarrow> sh_worker (stream s i) = Published \<or> sh_worker (stream s i) = Exited"
  shows "caller_state i (e # tr) (stream s' i)"
  using assms(1)
proof cases
  case (Return j st u)
  then have j: "j = i" using assms(3) by simp
  show ?thesis using Return(2-5) assms(4,5) next_loop_callers[OF Return(5)] unfolding j Return(1)
    by (simp add: caller_state_def Let_def shim_simps) linarith
next
  case (Fail j st)
  then have j: "j = i" using assms(3) by simp
  show ?thesis using Fail(2-5) assms(4,5) next_loop_callers[OF Fail(5)] unfolding j Fail(1)
    by (simp add: caller_state_def Let_def shim_simps) linarith
next
  case (Wait j st)
  then have j: "j = i" using assms(3) by simp
  show ?thesis using Wait(2-5) assms(4,5) next_loop_callers[OF Wait(5)] unfolding j Wait(1)
    by (auto simp: caller_state_def Let_def shim_simps)
qed (use assms(2-5) in \<open>auto simp: caller_state_def Let_def shim_simps\<close>)

lemma calls_open_step:
  assumes "run tr s" "caller_inv tr s" "step s e s'" "i < length (sm_streams s)"
  shows "caller_state i (e # tr) (stream s' i)"
proof (cases "event_stream e = Some i")
  case True
  have "stream_delivery i tr (stream s i)" using delivery.always[OF assms(1)] assms(4) by (simp add: delivery_inv_def)
  then show ?thesis
    using caller_step_own[OF assms(3,4) True] assms(2,4) by (simp add: caller_inv_def stream_delivery_def)
next
  case False
  then show ?thesis using caller_step_other[OF assms(3,4)] assms(2,4) by (simp add: caller_inv_def)
qed

interpretation caller: stable caller_inv
proof
  show "caller_inv [] shim_init" by (simp add: caller_inv_def shim_init_def)
next
  fix tr s e s'
  assume r: "run tr s" and I: "caller_inv tr s" and st: "step s e s'"
  have old: "\<forall>i < length (sm_streams s). caller_state i (e # tr) (stream s' i)"
    using calls_open_step[OF r I st] by blast
  have rest: "\<forall>i \<ge> length (sm_streams s). calls_open i (e # tr) = 0"
    using st by cases (use I in \<open>auto simp: caller_inv_def\<close>)
  show "caller_inv (e # tr) s'"
  proof (cases "e = Start")
    case True
    then have "s' = cpsat_solve_stream_start s" using st by (auto elim: step.cases)
    then show ?thesis using old rest caller_state_init[of "length (sm_streams s)" "e # tr"]
      by (auto simp: caller_inv_def shim_simps less_Suc_eq)
  next
    case False
    then have "length (sm_streams s') = length (sm_streams s)"
      using step_length[OF st] by simp
    then show ?thesis using old rest by (simp add: caller_inv_def)
  qed
qed

section \<open>Stopping\<close>

text \<open>The streams between their registration and their unregistration, and the runs in which two of them
  overlap.\<close>

fun registered :: "event list \<Rightarrow> nat set" where
  "registered [] = {}"
| "registered (Register i # tr) = insert i (registered tr)"
| "registered (Unregister i # tr) = registered tr - {i}"
| "registered (_ # tr) = registered tr"

fun overlapped :: "event list \<Rightarrow> bool" where
  "overlapped [] \<longleftrightarrow> False"
| "overlapped (Register i # tr) \<longleftrightarrow> overlapped tr \<or> registered tr \<noteq> {}"
| "overlapped (_ # tr) \<longleftrightarrow> overlapped tr"

abbreviation searching :: "shim \<Rightarrow> nat \<Rightarrow> bool" where
  "searching s i \<equiv> i < length (sm_streams s) \<and> in_search (sh_worker (stream s i))"

lemma searching_step:
  assumes "step s e s'"
  shows "searching s' j \<longleftrightarrow> (if e = Register j then True else if e = Unregister j then False else searching s j)"
proof (cases "event_stream e = Some j")
  case True
  from assms show ?thesis by cases (use True in \<open>simp_all add: shim_simps\<close>)
next
  case False
  then have ne: "e \<noteq> Register j" "e \<noteq> Unregister j" by auto
  show ?thesis
  proof (cases "j < length (sm_streams s)")
    case True
    then show ?thesis using step_other(1)[OF assms True False] step_length[OF assms] ne by simp
  next
    case old: False
    have "\<not> searching s' j"
    proof (cases "e = Start")
      case True
      then have "s' = cpsat_solve_stream_start s" using assms by (auto elim: step.cases)
      then show ?thesis using old by (cases "j = length (sm_streams s)") (simp_all add: shim_simps)
    qed (use old step_length[OF assms] in simp)
    then show ?thesis using old ne by simp
  qed
qed

definition stop_inv :: "event list \<Rightarrow> shim \<Rightarrow> bool" where
  "stop_inv tr s \<longleftrightarrow>
     (\<forall>i. i \<in> registered tr \<longleftrightarrow> searching s i) \<and>
     (\<forall>i < length (sm_streams s). tk_stopped (sm_token s) \<longrightarrow> tk_active_stream_limit (sm_token s) = Some i \<longrightarrow>
        sh_limit_stopped (stream s i)) \<and>
     (\<not> overlapped tr \<longrightarrow> (\<forall>i. searching s i \<longrightarrow> tk_active_stream_limit (sm_token s) = Some i))"

lemma limit_stopped_step:
  assumes "step s e s'" "i < length (sm_streams s')"
    "\<forall>i < length (sm_streams s). tk_stopped (sm_token s) \<longrightarrow> tk_active_stream_limit (sm_token s) = Some i \<longrightarrow>
      sh_limit_stopped (stream s i)"
    "tk_active_stream_limit (sm_token s) = Some i \<Longrightarrow> i < length (sm_streams s)"
    "tk_stopped (sm_token s')" "tk_active_stream_limit (sm_token s') = Some i"
  shows "sh_limit_stopped (stream s' i)"
  using assms(1)
proof cases
  case Start
  then show ?thesis using assms(3-) by (auto simp: shim_simps)
qed (use assms(2-) in \<open>auto simp: shim_simps stream_on_stream split: if_split_asm\<close>)

lemma active_step:
  assumes "step s e s'" "\<forall>j. e \<noteq> Register j \<and> e \<noteq> Unregister j"
  shows "tk_active_stream_limit (sm_token s') = tk_active_stream_limit (sm_token s)"
  using assms by cases (simp_all add: shim_simps)

interpretation stopping: stable stop_inv
proof
  show "stop_inv [] shim_init" by (simp add: stop_inv_def shim_init_def)
next
  fix tr s e s'
  assume r: "run tr s" and I: "stop_inv tr s" and st: "step s e s'"
  have reg: "i \<in> registered tr \<longleftrightarrow> searching s i" for i using I by (simp add: stop_inv_def)
  have "i \<in> registered (e # tr) \<longleftrightarrow> searching s' i" for i
    unfolding searching_step[OF st] by (cases e) (use reg in auto)
  moreover have "tk_stopped (sm_token s') \<longrightarrow> tk_active_stream_limit (sm_token s') = Some i \<longrightarrow> sh_limit_stopped (stream s' i)"
    if "i < length (sm_streams s')" for i
    using limit_stopped_step[OF st that] I ownership.always[OF r]
    unfolding stop_inv_def ownership_inv_def by blast
  moreover have "tk_active_stream_limit (sm_token s') = Some i" if "\<not> overlapped (e # tr)" "searching s' i" for i
  proof -
    have old: "searching s i \<Longrightarrow> tk_active_stream_limit (sm_token s) = Some i" for i
      using I that(1) unfolding stop_inv_def by (cases e) auto
    consider j where "e = Register j" | j where "e = Unregister j" | "\<forall>j. e \<noteq> Register j \<and> e \<noteq> Unregister j"
      by (cases e) auto
    then show ?thesis
    proof cases
      case (1 j)
      then have "\<not> searching s i" using that(1) reg[of i] by auto
      then have "i = j" using that(2) 1 unfolding searching_step[OF st] by (auto split: if_split_asm)
      then show ?thesis using st 1 by (auto elim: step.cases simp: shim_simps)
    next
      case (2 j)
      then have s: "searching s i" "i \<noteq> j" using that(2) unfolding searching_step[OF st] by (auto split: if_split_asm)
      have "searching s j" using st 2 by (auto elim: step.cases)
      then show ?thesis using old[OF s(1)] old[of j] s(2) by simp
    next
      case 3
      then have "searching s i" using that(2) unfolding searching_step[OF st] by (auto split: if_split_asm)
      then show ?thesis using old active_step[OF st 3] by simp
    qed
  qed
  ultimately show "stop_inv (e # tr) s'" unfolding stop_inv_def by blast
qed

section \<open>Every call returns\<close>

text \<open>A continuation in which the one call in progress on stream \<open>i\<close> ends, within \<open>n\<close> transitions and without
  another call on that stream.\<close>

definition call_ends :: "shim \<Rightarrow> nat \<Rightarrow> nat \<Rightarrow> bool" where
  "call_ends s i n \<longleftrightarrow> (\<exists>es s' e. exec_all (es @ [e]) s = Some s' \<and> length es < n \<and> Call i \<notin> set es \<and> (e = Fail i \<or> (\<exists>u. e = Return i u)))"

lemma call_ends_now: "exec e s = Some s' \<Longrightarrow> e = Fail i \<or> (\<exists>u. e = Return i u) \<Longrightarrow> call_ends s i (Suc n)"
  unfolding call_ends_def
  by (intro exI[of _ "[]"] exI[of _ s'] exI[of _ e]) (auto simp del: exec.simps)

lemma call_ends_mono: "call_ends s i n \<Longrightarrow> n \<le> m \<Longrightarrow> call_ends s i m"
  unfolding call_ends_def using less_le_trans by blast

lemma call_ends_later:
  assumes "exec e s = Some s'" "call_ends s' i n" "e \<noteq> Call i"
  shows "call_ends s i (Suc n)"
proof -
  obtain es s2 f where "exec_all (es @ [f]) s' = Some s2" "length es < n" "Call i \<notin> set es" "f = Fail i \<or> (\<exists>u. f = Return i u)"
    using assms(2) unfolding call_ends_def by blast
  then have "exec_all ((e # es) @ [f]) s = Some s2" "length (e # es) < Suc n" "Call i \<notin> set (e # es)" using assms(1,3) by simp_all
  then show ?thesis using \<open>f = Fail i \<or> _\<close> unfolding call_ends_def by blast
qed

text \<open>A call that tests the queue of a stream that has something for it ends at once.\<close>

lemma checking_ends:
  assumes "i < length (sm_streams s)" "ss_checking (sh_state (stream s i)) > 0"
    "ss_queue (sh_state (stream s i)) \<noteq> [] \<or> ss_finished (sh_state (stream s i))"
  shows "call_ends s i (Suc n)"
proof (cases "ss_queue (sh_state (stream s i))")
  case Nil
  then obtain s' where "exec (Fail i) s = Some s'" using assms by (auto simp: next_loop_def)
  then show ?thesis by (rule call_ends_now) simp
next
  case (Cons u q)
  then obtain s' where "exec (Return i u) s = Some s'" using assms by (auto simp: next_loop_def)
  then show ?thesis by (rule call_ends_now) simp
qed

text \<open>The steps of the worker that remain before the last notification.\<close>

fun worker_steps :: "worker \<Rightarrow> nat" where
  "worker_steps Launched = 5"
| "worker_steps Searching = 4"
| "worker_steps (Solved b) = 3"
| "worker_steps (Unregistered b) = 2"
| "worker_steps Published = 1"
| "worker_steps Exited = 0"

abbreviation measure_of :: "shim \<Rightarrow> nat \<Rightarrow> nat" where
  "measure_of s i \<equiv> 2 * (worker_steps (sh_worker (stream s i)) + ss_notifies (sh_state (stream s i))) +
     ss_checking (sh_state (stream s i))"

text \<open>A call in progress has a transition that brings it closer to its end.\<close>

lemma call_progress:
  assumes "run tr s" "i < length (sm_streams s)" "single_caller i tr" "calls_open i tr = 1"
  shows "call_ends s i (Suc n) \<or>
    (\<exists>e s'. exec e s = Some s' \<and> e \<noteq> Call i \<and> single_caller i (e # tr) \<and> calls_open i (e # tr) = 1 \<and>
      measure_of s' i < measure_of s i)"
proof -
  define h where "h = stream s i"
  define st where "st = sh_state h"
  have C: "caller_state i tr h" using caller.always[OF assms(1)] assms(2) by (simp add: caller_inv_def h_def)
  have D: "stream_delivery i tr h" using delivery.always[OF assms(1)] assms(2) by (simp add: delivery_inv_def h_def)
  have one: "ss_checking st + ss_waiting st = 1" using C assms(4) by (simp add: caller_state_def st_def Let_def)
  have goes_on: ?thesis if "exec e s = Some s'" "measure_of s' i < measure_of s i"
      "e \<in> {Wait i, Notify i, Register i, Solve i [], Unregister i, Publish i, NotifyFinal i}" for e s'
  proof -
    have "single_caller i (e # tr)" "calls_open i (e # tr) = 1" "e \<noteq> Call i" using that(3) assms(3,4) by auto
    then show ?thesis using that(1,2) by blast
  qed
  show ?thesis
  proof (cases "ss_checking st > 0")
    case True
    show ?thesis
    proof (cases "ss_queue st \<noteq> [] \<or> ss_finished st")
      case False
      then obtain s' where "exec (Wait i) s = Some s'" "measure_of s' i < measure_of s i"
        using assms(2) True by (auto simp: next_loop_def shim_simps st_def h_def)
      then show ?thesis using goes_on by blast
    next
      case ready: True
      then show ?thesis using checking_ends[OF assms(2)] True by (auto simp: st_def h_def)
    qed
  next
    case False
    then have waits: "ss_waiting st = 1" "ss_checking st = 0" using one by simp_all
    show ?thesis
    proof (cases "ss_notifies st > 0")
      case True
      then obtain s' where "exec (Notify i) s = Some s'" "measure_of s' i < measure_of s i"
        using assms(2) waits by (auto simp: shim_simps st_def h_def)
      then show ?thesis using goes_on by blast
    next
      case quiet: False
      have "sh_worker h \<noteq> Exited"
        using C D waits quiet assms(3) by (auto simp: caller_state_def stream_delivery_def st_def Let_def)
      then consider "sh_worker h = Launched" | "sh_worker h = Searching" | b where "sh_worker h = Solved b"
        | b where "sh_worker h = Unregistered b" | "sh_worker h = Published" by (cases "sh_worker h") auto
      then have "\<exists>e s'. exec e s = Some s' \<and> measure_of s' i < measure_of s i \<and>
          e \<in> {Register i, Solve i [], Unregister i, Publish i, NotifyFinal i}"
      proof cases
        case 1 then show ?thesis using assms(2) waits
          by (intro exI[of _ "Register i"]) (auto simp: shim_simps st_def h_def)
      next
        case 2 then show ?thesis using assms(2) waits quiet
          by (intro exI[of _ "Solve i []"]) (auto simp: shim_simps st_def h_def)
      next
        case (3 b) then show ?thesis using assms(2) waits
          by (intro exI[of _ "Unregister i"]) (auto simp: shim_simps st_def h_def)
      next
        case (4 b) then show ?thesis using assms(2) waits
          by (intro exI[of _ "Publish i"]) (auto simp: shim_simps st_def h_def)
      next
        case 5 then show ?thesis using assms(2) waits
          by (intro exI[of _ "NotifyFinal i"]) (auto simp: shim_simps st_def h_def)
      qed
      then show ?thesis using goes_on by blast
    qed
  qed
qed

text \<open>A call on a stream that has something for it needs no more than the notification on its way.\<close>

lemma served_call_ends:
  assumes "run tr s" "i < length (sm_streams s)" "single_caller i tr" "calls_open i tr = 1"
    "ss_queue (sh_state (stream s i)) \<noteq> [] \<or> ss_finished (sh_state (stream s i))"
  shows "\<exists>es s' e. exec_all (es @ [e]) s = Some s' \<and> es \<in> {[], [Notify i], [NotifyFinal i]} \<and>
    (e = Fail i \<or> (\<exists>u. e = Return i u))"
proof -
  define st where "st = sh_state (stream s i)"
  have C: "caller_state i tr (stream s i)" using caller.always[OF assms(1)] assms(2) by (simp add: caller_inv_def)
  then have one: "ss_checking st + ss_waiting st = 1" using assms(4) by (simp add: caller_state_def st_def Let_def)
  have ends: "\<exists>s' e. exec e s1 = Some s' \<and> (e = Fail i \<or> (\<exists>u. e = Return i u))"
    if s1: "i < length (sm_streams s1)" "ss_checking (sh_state (stream s1 i)) > 0"
      "ss_queue (sh_state (stream s1 i)) = ss_queue st" "ss_finished (sh_state (stream s1 i)) = ss_finished st" for s1
  proof -
    have "call_ends s1 i (Suc 0)" by (rule checking_ends[OF s1(1,2)]) (use s1(3,4) assms(5) in \<open>simp add: st_def\<close>)
    then obtain s' e where "exec e s1 = Some s'" "e = Fail i \<or> (\<exists>u. e = Return i u)"
      by (auto simp: call_ends_def simp del: exec.simps split: option.split_asm)
    then show ?thesis by blast
  qed
  have after: ?thesis
    if s1: "exec e1 s = Some s1" "e1 \<in> {Notify i, NotifyFinal i}" "i < length (sm_streams s1)"
      "ss_checking (sh_state (stream s1 i)) > 0" "ss_queue (sh_state (stream s1 i)) = ss_queue st"
      "ss_finished (sh_state (stream s1 i)) = ss_finished st" for e1 s1
  proof -
    obtain s' e where "exec e s1 = Some s'" "e = Fail i \<or> (\<exists>u. e = Return i u)" using ends[OF s1(3-6)] by blast
    moreover from this have "exec_all ([e1] @ [e]) s = Some s'" using s1(1) by simp
    ultimately show ?thesis using s1(2) by blast
  qed
  have "ss_waiting st > 0 \<longrightarrow> ss_notifies st > 0 \<or> sh_worker (stream s i) = Published"
    using C assms(3,5) by (simp add: caller_state_def st_def Let_def)
  moreover have "ss_checking st > 0 \<or> ss_waiting st > 0" using one by linarith
  ultimately consider "ss_checking st > 0" | "ss_waiting st > 0" "ss_notifies st > 0"
    | "ss_waiting st > 0" "sh_worker (stream s i) = Published"
    by argo
  then show ?thesis
  proof cases
    case 1
    then obtain s' e where "exec e s = Some s'" "e = Fail i \<or> (\<exists>u. e = Return i u)"
      using ends[OF assms(2)] by (auto simp: st_def)
    moreover from this have "exec_all ([] @ [e]) s = Some s'" by simp
    ultimately show ?thesis by blast
  next
    case 2
    then show ?thesis
      using assms(2) by (intro after[of "Notify i" "on_stream i (on_state observer_notify) s"]) (simp_all add: shim_simps st_def)
  next
    case 3
    then show ?thesis
      using assms(2)
      by (intro after[of "NotifyFinal i" "on_stream i (on_state notify_one \<circ> sh_worker_update (\<lambda>_. Exited)) s"])
        (simp_all add: shim_simps st_def)
  qed
qed

lemma call_ends_within:
  assumes "run tr s" "i < length (sm_streams s)" "single_caller i tr" "calls_open i tr = 1"
  shows "call_ends s i (Suc (measure_of s i))"
  using assms
proof (induction "measure_of s i" arbitrary: tr s rule: less_induct)
  case less
  from call_progress[OF less.prems, of "measure_of s i"] show ?case
  proof
    assume "\<exists>e s'. exec e s = Some s' \<and> e \<noteq> Call i \<and> single_caller i (e # tr) \<and> calls_open i (e # tr) = 1 \<and> measure_of s' i < measure_of s i"
    then obtain e s' where e: "exec e s = Some s'" "single_caller i (e # tr)" "calls_open i (e # tr) = 1"
      "measure_of s' i < measure_of s i" "e \<noteq> Call i" by blast
    have st: "step s e s'" using e(1) exec_step by blast
    have "i < length (sm_streams s')" using less.prems(2) step_length[OF st] by simp
    from less.hyps[OF e(4) run_step[OF less.prems(1) st] this e(2,3)]
    have "call_ends s' i (Suc (measure_of s' i))" .
    then have "call_ends s' i (measure_of s i)" by (rule call_ends_mono) (use e(4) in simp)
    then show ?thesis using e(5) by (rule call_ends_later[OF e(1)])
  qed
qed

end
