(* ===== verification/ShimProps.thy ===== *)
theory ShimProps
  imports ShimInvariants
begin

text \<open>
  Properties of the native shim in every interleaving of its threads: memory safety, delivery in order,
  errors, progress and stopping; and two runs in which a token or a handle that is shared is not served.
\<close>

section \<open>Properties\<close>

text \<open>A run of one stream: two solutions are observed, the caller blocks, is woken, and reads everything.\<close>

definition sample_events :: "event list" where
  "sample_events = [Start, Call 0, Register 0, Wait 0, Observe 0 ''a'', Notify 0, Return 0 (improving ''a''),
     StopCall, StopLocked, Observe 0 ''b'', Notify 0, Solve 0 ''c'', Unregister 0, Publish 0, NotifyFinal 0,
     Call 0, Return 0 (improving ''b''), Call 0, Return 0 (done_update ''c''), Call 0]"

definition sample_state :: shim where
  "sample_state = the (exec_all sample_events shim_init)"

lemma sample_run: "run (rev sample_events) sample_state"
proof -
  have "exec_all sample_events shim_init = Some sample_state"
    unfolding sample_state_def by (rule option.collapse[symmetric]) code_simp
  from run_exec_all[OF run_init this] show ?thesis by simp
qed

text \<open>C15: In every interleaving of the worker threads, the callbacks, the callers, the stop calls and the
  finalizers, a token is not freed while some worker may still lock it or some handle holds it, and the limit
  that the token points to belongs to a worker whose Model still exists.\<close>

theorem shim_memory_safe:
  assumes "run tr s"
  shows "(\<forall>i < length (sm_streams s). sh_worker (stream s i) \<noteq> Exited \<or> sh_phase (stream s i) \<noteq> HandleDeleted \<longrightarrow>
      tk_refs (sm_token s) > 0) \<and>
    (\<forall>i. tk_active_stream_limit (sm_token s) = Some i \<longrightarrow>
      i < length (sm_streams s) \<and> sh_worker (stream s i) \<notin> {Launched, Published, Exited})"
proof -
  have R: "references_inv tr s" and O: "ownership_inv tr s"
    using references.always[OF assms] ownership.always[OF assms] by blast+
  have "open_handles s > 0" if i: "i < length (sm_streams s)" "sh_phase (stream s i) \<noteq> HandleDeleted" for i
    using elem_le_sum_list[of i "map (\<lambda>h. if sh_phase h = HandleDeleted then 0 else (1 :: nat)) (sm_streams s)"] i
    by (simp add: open_handles_def)
  then show ?thesis using R O by (fastforce simp: references_inv_def ownership_inv_def)
qed

theorem shim_memory_safe_witness: "tk_refs (sm_token sample_state) > 0"
proof -
  have "0 < length (sm_streams sample_state)" "sh_phase (stream sample_state 0) \<noteq> HandleDeleted" by code_simp+
  then show ?thesis using shim_memory_safe[OF sample_run] by blast
qed

text \<open>C16: At every moment of every run, what the callers of a stream have been given, followed by what is still in
  its queue, is the sequence of the responses observed by the callbacks in their order, each as an
  improvement, and after them, once the worker has published it, the final response as the one done update:
  nothing is lost, repeated or reordered.\<close>

theorem stream_delivers_in_order:
  assumes "run tr s" "i < length (sm_streams s)"
  shows "delivered i tr @ ss_queue (sh_state (stream s i)) =
    map (\<lambda>b. \<lparr> su_is_done = False, su_bytes = b \<rparr>) (observed i tr) @
    (if ss_finished (sh_state (stream s i)) then [\<lparr> su_is_done = True, su_bytes = the (answer i tr) \<rparr>] else [])"
  using delivery.always[OF assms(1)] assms(2)
  by (simp add: delivery_inv_def stream_delivery_def produced_def improving_def[abs_def] done_update_def)

theorem stream_delivers_in_order_witness:
  "delivered 0 (rev sample_events) =
    [\<lparr> su_is_done = False, su_bytes = ''a'' \<rparr>, \<lparr> su_is_done = False, su_bytes = ''b'' \<rparr>, \<lparr> su_is_done = True, su_bytes = ''c'' \<rparr>]"
proof -
  have "0 < length (sm_streams sample_state)" "ss_queue (sh_state (stream sample_state 0)) = []"
    "ss_finished (sh_state (stream sample_state 0))" by code_simp+
  moreover have "observed 0 (rev sample_events) = [''a'', ''b'']" "answer 0 (rev sample_events) = Some ''c''" by code_simp+
  ultimately show ?thesis using stream_delivers_in_order[OF sample_run, of 0] by simp
qed

text \<open>C19: A call of next fails only when the final response has been returned by an earlier call, as the last
  update of the stream; and once it has been returned, a call neither blocks nor returns anything again.\<close>

theorem next_fails_exactly_after_done:
  assumes "run tr s" "i < length (sm_streams s)"
  shows "(snd (next_loop (sh_state (stream s i))) = AlreadyFinished \<longrightarrow>
      delivered i tr \<noteq> [] \<and> su_is_done (last (delivered i tr))) \<and>
    ((\<exists>u \<in> set (delivered i tr). su_is_done u) \<longrightarrow> snd (next_loop (sh_state (stream s i))) = AlreadyFinished)"
proof -
  define st where "st = sh_state (stream s i)"
  have D: "delivered i tr @ ss_queue st = produced i tr (ss_finished st)"
    using delivery.always[OF assms(1)] assms(2) by (simp add: delivery_inv_def stream_delivery_def st_def)
  have "delivered i tr \<noteq> [] \<and> su_is_done (last (delivered i tr))" if "snd (next_loop st) = AlreadyFinished"
  proof -
    have "ss_queue st = []" "ss_finished st" using that by (auto simp: next_loop_def split: list.split_asm if_split_asm)
    then have "delivered i tr = map improving (observed i tr) @ [done_update (the (answer i tr))]"
      using D by (simp add: produced_def)
    then show ?thesis by (simp add: done_update_def)
  qed
  moreover have "snd (next_loop st) = AlreadyFinished" if u: "u \<in> set (delivered i tr)" "su_is_done u" for u
  proof -
    have "ss_queue st = [] \<and> ss_finished st"
    proof (cases "ss_queue st = []")
      case True
      then show ?thesis using D u by (auto simp: produced_def improving_def split: if_split_asm)
    next
      case False
      then have "delivered i tr @ butlast (ss_queue st) = butlast (produced i tr (ss_finished st))"
        using D by (metis butlast_append)
      moreover have "set (butlast (produced i tr (ss_finished st))) \<subseteq> improving ` set (observed i tr)"
        by (auto simp: produced_def dest: in_set_butlastD)
      ultimately have "u \<in> improving ` set (observed i tr)" using u(1) by (metis Un_iff set_append subsetD)
      then show ?thesis using u(2) by (auto simp: improving_def)
    qed
    then show ?thesis by (simp add: next_loop_def)
  qed
  ultimately show ?thesis by (auto simp: st_def)
qed

theorem next_fails_exactly_after_done_witness: "snd (next_loop (sh_state (stream sample_state 0))) = AlreadyFinished"
proof -
  have "0 < length (sm_streams sample_state)" "\<exists>u \<in> set (delivered 0 (rev sample_events)). su_is_done u" by code_simp+
  then show ?thesis using next_fails_exactly_after_done[OF sample_run, of 0] by blast
qed

text \<open>C17: When calls of next on a stream do not overlap, the one in progress, blocked or not, can always end: some
  transitions, at most twelve plus two for each notification under way, none of them another call, let it return an
  update or fail.  And no wake-up is ever lost: whenever the queue has an update, or the worker has finished, the
  call ends after at most one notification that is already on its way.\<close>

theorem next_call_ends:
  assumes "run tr s" "i < length (sm_streams s)" "single_caller i tr" "calls_open i tr = 1"
  shows "(\<exists>es s' e. exec_all (es @ [e]) s = Some s' \<and> (e = Fail i \<or> (\<exists>u. e = Return i u)) \<and>
      Call i \<notin> set es \<and> length es \<le> 11 + 2 * ss_notifies (sh_state (stream s i))) \<and>
    (ss_queue (sh_state (stream s i)) \<noteq> [] \<or> ss_finished (sh_state (stream s i)) \<longrightarrow>
      (\<exists>es s' e. exec_all (es @ [e]) s = Some s' \<and> (e = Fail i \<or> (\<exists>u. e = Return i u)) \<and>
        es \<in> {[], [Notify i], [NotifyFinal i]}))"
proof -
  have "ss_checking (sh_state (stream s i)) \<le> 1"
    using caller.always[OF assms(1)] assms(2,4) by (simp add: caller_inv_def caller_state_def Let_def)
  moreover have "worker_steps (sh_worker (stream s i)) \<le> 5" by (cases "sh_worker (stream s i)") simp_all
  ultimately have bound: "measure_of s i \<le> 11 + 2 * ss_notifies (sh_state (stream s i))"
    unfolding distrib_left by simp
  obtain es s' e where "exec_all (es @ [e]) s = Some s'" "length es < Suc (measure_of s i)"
    "Call i \<notin> set es" "e = Fail i \<or> (\<exists>u. e = Return i u)"
    using call_ends_within[OF assms] unfolding call_ends_def by blast
  then have "exec_all (es @ [e]) s = Some s'" "e = Fail i \<or> (\<exists>u. e = Return i u)" "Call i \<notin> set es"
    "length es \<le> 11 + 2 * ss_notifies (sh_state (stream s i))" using bound by simp_all
  then show ?thesis using served_call_ends[OF assms] by blast
qed

text \<open>A caller is blocked when the observer pushes a solution and has not notified yet.\<close>

definition blocked_events :: "event list" where
  "blocked_events = [Start, Call 0, Register 0, Wait 0, Observe 0 ''a'']"

definition blocked_state :: shim where
  "blocked_state = the (exec_all blocked_events shim_init)"

theorem next_call_ends_witness:
  "\<exists>es s' e. exec_all (es @ [e]) blocked_state = Some s' \<and> (e = Fail 0 \<or> (\<exists>u. e = Return 0 u)) \<and>
    es \<in> {[], [Notify 0], [NotifyFinal 0]}"
proof -
  have "exec_all blocked_events shim_init = Some blocked_state"
    unfolding blocked_state_def by (rule option.collapse[symmetric]) code_simp
  then have r: "run (rev blocked_events) blocked_state" using run_exec_all[OF run_init] by fastforce
  have "0 < length (sm_streams blocked_state)" "single_caller 0 (rev blocked_events)" "calls_open 0 (rev blocked_events) = 1"
    "ss_queue (sh_state (stream blocked_state 0)) \<noteq> []"
    by code_simp+
  then show ?thesis using next_call_ends[OF r] by blast
qed

text \<open>C18: As long as the searches that use a token have not overlapped, a stop is never lost: once the token is
  stopped, before or after the worker registers its limit, the limit of a worker inside the solver has been
  told to stop.\<close>

theorem stop_reaches_search:
  assumes "run tr s" "\<not> overlapped tr" "tk_stopped (sm_token s)"
    and "i < length (sm_streams s)" "sh_worker (stream s i) = Searching"
  shows "sh_limit_stopped (stream s i)"
  using stopping.always[OF assms(1)] assms(2-) by (simp add: stop_inv_def)

theorem stop_reaches_search_witness:
  "\<exists>s. exec_all [Start, StopCall, StopLocked, Register 0] shim_init = Some s \<and> sh_limit_stopped (stream s 0)"
proof -
  define es where "es = [Start, StopCall, StopLocked, Register 0]"
  define s where "s = the (exec_all es shim_init)"
  have s: "exec_all es shim_init = Some s" unfolding s_def es_def by (rule option.collapse[symmetric]) code_simp
  have "run (rev es) s" using run_exec_all[OF run_init s] by simp
  moreover have "\<not> overlapped (rev es)" "tk_stopped (sm_token s)" "0 < length (sm_streams s)"
    "sh_worker (stream s 0) = Searching"
    unfolding s_def es_def by code_simp+
  ultimately show ?thesis using stop_reaches_search s unfolding es_def by blast
qed

text \<open>An update of less than two gigabytes reaches Lean unchanged: the length survives the conversion to int,
  and the copy has all the bytes.\<close>

theorem next_pair_exact:
  assumes "length (su_bytes u) < 2 ^ 31"
  shows "next_pair u = Some (su_is_done u, su_bytes u)"
proof -
  have "in_int32 (int (length (su_bytes u)))" using assms by (simp add: in_int32_def)
  then show ?thesis by (simp add: next_pair_def cpsat_bytes_of_def)
qed

theorem next_pair_exact_witness: "next_pair (done_update ''xyz'') = Some (True, ''xyz'')"
  using next_pair_exact[of "done_update ''xyz''"] by (simp add: done_update_def)

section \<open>Sharing a token or a handle\<close>

text \<open>Two streams on one token: when the first search ends, it clears the slot that the second one has taken,
  and a later stop sets the flag of the token but does not reach the second search, which goes on.\<close>

lemma stop_misses_overlapped_stream:
  "\<exists>s. exec_all [Start, Start, Register 0, Register 1, Solve 0 ''r'', Unregister 0, StopCall, StopLocked] shim_init = Some s \<and>
     tk_stopped (sm_token s) \<and> sh_worker (stream s 1) = Searching \<and> \<not> sh_limit_stopped (stream s 1)"
proof -
  define s where "s = the (exec_all [Start, Start, Register 0, Register 1, Solve 0 ''r'', Unregister 0, StopCall, StopLocked] shim_init)"
  have "exec_all [Start, Start, Register 0, Register 1, Solve 0 ''r'', Unregister 0, StopCall, StopLocked] shim_init = Some s"
    unfolding s_def by (rule option.collapse[symmetric]) code_simp
  moreover have "tk_stopped (sm_token s)" "sh_worker (stream s 1) = Searching" "\<not> sh_limit_stopped (stream s 1)"
    unfolding s_def by code_simp+
  ultimately show ?thesis by blast
qed

text \<open>Two callers blocked on one handle: the final notification wakes one of them, and the other one, which
  should get the error, stays blocked whatever happens next.\<close>

lemma exited_stays:
  assumes "step s e s'" "i < length (sm_streams s)" "sh_worker (stream s i) = Exited" "ss_notifies (sh_state (stream s i)) = 0"
  shows "i < length (sm_streams s') \<and> sh_worker (stream s' i) = Exited \<and> ss_notifies (sh_state (stream s' i)) = 0 \<and>
    ss_waiting (sh_state (stream s i)) \<le> ss_waiting (sh_state (stream s' i))"
proof (cases "event_stream e = Some i")
  case True
  from assms(1) show ?thesis
  proof cases
    case (Return j st u)
    then show ?thesis using True assms(2-) next_loop_callers[OF Return(5)] by (simp add: shim_simps)
  next
    case (Fail j st)
    then show ?thesis using True assms(2-) next_loop_callers[OF Fail(5)] by (simp add: shim_simps)
  next
    case (Wait j st)
    then show ?thesis using True assms(2-) next_loop_callers[OF Wait(5)] by (simp add: shim_simps)
  qed (use True assms(2-) in \<open>simp_all add: shim_simps\<close>)
next
  case False
  then show ?thesis using step_other[OF assms(1,2) False] step_length[OF assms(1)] assms(2-) by simp
qed

lemma exited_stays_blocked:
  assumes "exec_all es s = Some s'" "i < length (sm_streams s)" "sh_worker (stream s i) = Exited"
    "ss_notifies (sh_state (stream s i)) = 0"
  shows "ss_waiting (sh_state (stream s i)) \<le> ss_waiting (sh_state (stream s' i))"
  using assms
proof (induction es arbitrary: s)
  case (Cons e es)
  then obtain s1 where s1: "exec e s = Some s1" "exec_all es s1 = Some s'" by (auto split: option.split_asm)
  then have "step s e s1" using exec_step by blast
  from exited_stays[OF this Cons.prems(2-4)] show ?case using Cons.IH[OF s1(2)] by linarith
qed simp

lemma second_caller_blocks_forever:
  "\<exists>s. exec_all [Start, Register 0, Call 0, Wait 0, Call 0, Wait 0, Solve 0 ''r'', Unregister 0, Publish 0, NotifyFinal 0] shim_init
       = Some s \<and>
     (\<forall>es s'. exec_all es s = Some s' \<longrightarrow> ss_waiting (sh_state (stream s' 0)) \<ge> 1)"
proof -
  define s where "s = the (exec_all [Start, Register 0, Call 0, Wait 0, Call 0, Wait 0, Solve 0 ''r'', Unregister 0,
    Publish 0, NotifyFinal 0] shim_init)"
  have "exec_all [Start, Register 0, Call 0, Wait 0, Call 0, Wait 0, Solve 0 ''r'', Unregister 0, Publish 0, NotifyFinal 0] shim_init
      = Some s"
    unfolding s_def by (rule option.collapse[symmetric]) code_simp
  moreover have "0 < length (sm_streams s)" "sh_worker (stream s 0) = Exited" "ss_notifies (sh_state (stream s 0)) = 0"
    "ss_waiting (sh_state (stream s 0)) = 1"
    unfolding s_def by code_simp+
  ultimately show ?thesis using exited_stays_blocked[of _ s] by metis
qed

end
