(* ===== verification/Postsolve.thy ===== *)
theory Postsolve
  imports CpChecker DomainDiv "HOL-Library.Monad_Syntax"
begin

text \<open>
  The postsolve of \<open>or-tools/ortools/sat/cp_model_postsolve.cc\<close>: from a solution of the presolved model and the
  constraints that presolve removed (the mapping model), the values of the variables of the original model.
  The state is the vector \<open>domains\<close>, one domain per variable of the mapping model.  \<open>None\<close> is a process that
  stops: a failed CHECK, a LOG(FATAL), a division that traps, a read outside a repeated field or a target
  that is not a variable.  The CHECKs that compare with a size compare without sign, so a negative value fails.
\<close>

section \<open>Domains of references\<close>

definition domain_of :: "domain list \<Rightarrow> int32 \<Rightarrow> domain" where
  "domain_of domains ref = elt domains (PositiveRef ref)"

definition set_domain :: "int32 \<Rightarrow> domain \<Rightarrow> domain list \<Rightarrow> domain list" where
  "set_domain ref d domains = domains[nat (PositiveRef ref) := d]"

text \<open>The value that makes a literal true or false.\<close>

definition true_value :: "int32 \<Rightarrow> int64" where "true_value ref = (if RefIsPositive ref then 1 else 0)"
definition false_value :: "int32 \<Rightarrow> int64" where "false_value ref = (if RefIsPositive ref then 0 else 1)"

section \<open>Boolean constraints\<close>

fun clause_loop :: "int32 list \<Rightarrow> bool \<Rightarrow> domain list \<Rightarrow> bool \<times> domain list" where
  "clause_loop [] satisfied domains = (satisfied, domains)"
| "clause_loop (ref # refs) satisfied domains =
     (if Domain_IsFixed (domain_of domains ref)
      then clause_loop refs (satisfied \<or> Domain_FixedValue (domain_of domains ref) = true_value ref) domains
      else clause_loop refs satisfied (set_domain ref (Domain_value (false_value ref)) domains))"

definition PostsolveClause :: "BoolArgumentProto \<Rightarrow> domain list \<Rightarrow> domain list option" where
  "PostsolveClause a domains =
     (if ba_literals a = [] then None
      else let (satisfied, domains1) = clause_loop (ba_literals a) False domains;
               first_ref = hd (ba_literals a)
      in Some (if satisfied then domains1 else set_domain first_ref (Domain_value (true_value first_ref)) domains1))"

fun exactly_one_loop :: "int32 list \<Rightarrow> bool \<Rightarrow> int32 list \<Rightarrow> domain list \<Rightarrow> (bool \<times> int32 list) option" where
  "exactly_one_loop [] satisfied free_variables domains = Some (satisfied, free_variables)"
| "exactly_one_loop (ref # refs) satisfied free_variables domains =
     (if Domain_IsFixed (domain_of domains ref) then
        if Domain_FixedValue (domain_of domains ref) = true_value ref then
          if satisfied then None else exactly_one_loop refs True free_variables domains
        else exactly_one_loop refs satisfied free_variables domains
      else exactly_one_loop refs satisfied (free_variables @ [ref]) domains)"

definition fix_false :: "int32 list \<Rightarrow> domain list \<Rightarrow> domain list" where
  "fix_false refs domains = foldl (\<lambda>d ref. set_domain ref (Domain_value (false_value ref)) d) domains refs"

definition PostsolveExactlyOne :: "BoolArgumentProto \<Rightarrow> domain list \<Rightarrow> domain list option" where
  "PostsolveExactlyOne a domains =
     (case exactly_one_loop (ba_literals a) False [] domains of
        None \<Rightarrow> None
      | Some (True, free_variables) \<Rightarrow> Some (fix_false free_variables domains)
      | Some (False, free_variables) \<Rightarrow>
          if free_variables = [] then None
          else let ref = last free_variables
               in Some (fix_false (butlast free_variables) (set_domain ref (Domain_value (true_value ref)) domains)))"

section \<open>Linear constraints\<close>

fun SetEnforcementLiteralToFalse :: "int32 list \<Rightarrow> domain list \<Rightarrow> domain list option" where
  "SetEnforcementLiteralToFalse [] domains = None"
| "SetEnforcementLiteralToFalse (enf # r) domains =
     (if Domain_IsFixed (domain_of domains enf) then SetEnforcementLiteralToFalse r domains
      else Some (set_domain enf (Domain_value (false_value enf)) domains))"

definition fix_unassigned_enforcement_to_true :: "int32 list \<Rightarrow> domain list \<Rightarrow> domain list" where
  "fix_unassigned_enforcement_to_true enfs domains =
     foldl (\<lambda>d enf. if Domain_IsFixed (domain_of d enf) then d else set_domain enf (Domain_value (true_value enf)) d)
       domains enfs"

text \<open>The activity of the fixed variables, and the terms of the others.\<close>

fun split_terms :: "(int32 \<times> int64) list \<Rightarrow> int64 \<Rightarrow> (int32 \<times> int64) list \<Rightarrow> domain list \<Rightarrow>
    (int64 \<times> (int32 \<times> int64) list) option" where
  "split_terms [] fixed_activity free domains = Some (fixed_activity, free)"
| "split_terms ((var, coeff) # ts) fixed_activity free domains =
     (if \<not> (0 \<le> var \<and> var < int (length domains)) then None
      else if coeff = 0 then split_terms ts fixed_activity free domains
      else if Domain_IsFixed (elt domains var)
      then split_terms ts (wrap64 (fixed_activity + wrap64 (Domain_FixedValue (elt domains var) * coeff))) free domains
      else split_terms ts fixed_activity (free @ [(var, coeff)]) domains)"

text \<open>\<open>rhs_domains\<close>: what the sum of the first free terms may be, one more substituted each time.\<close>

fun rhs_domains_from :: "domain list \<Rightarrow> (int32 \<times> int64) list \<Rightarrow> domain \<Rightarrow> domain list" where
  "rhs_domains_from domains [] rhs = [rhs]"
| "rhs_domains_from domains ((var, coeff) # ts) rhs =
     rhs # rhs_domains_from domains ts
       (Domain_AdditionWith (fst (Domain_MultiplicationBy (elt domains var) (wrap64 (- coeff)))) rhs)"

definition free_domain :: "domain list \<Rightarrow> domain \<Rightarrow> int64 \<Rightarrow> int32 \<Rightarrow> int64 \<Rightarrow> domain" where
  "free_domain domains rhs fixed_activity var coeff =
     Domain_IntersectionWith
       (Domain_InverseMultiplicationBy (Domain_AdditionWith rhs (Domain_value (wrap64 (- fixed_activity)))) coeff)
       (elt domains var)"

text \<open>The values of the free variables, from the last to the first.\<close>

fun assign_loop :: "domain list \<Rightarrow> int64 \<Rightarrow> ((int32 \<times> int64) \<times> domain) list \<Rightarrow> (int32 \<times> int64) list option" where
  "assign_loop domains fixed_activity [] = Some []"
| "assign_loop domains fixed_activity (((var, coeff), rhs) # r) =
     (let domain = free_domain domains rhs fixed_activity var coeff
      in if Domain_IsEmpty domain then None
         else let v = Domain_SmallestValue domain
              in do { vs \<leftarrow> assign_loop domains (wrap64 (fixed_activity + wrap64 (coeff * v))) r;
                      Some ((var, v) # vs) })"

definition PostsolveLinear :: "ConstraintProto \<Rightarrow> LinearConstraintProto \<Rightarrow> domain list \<Rightarrow> domain list option" where
  "PostsolveLinear ct a domains =
     (case split_terms (zip (lc_vars a) (lc_coeffs a)) 0 [] domains of
        None \<Rightarrow> None
      | Some (fixed_activity, free) \<Rightarrow>
          let enfs = ct_enforcement_literal ct; initial_rhs = ReadDomainFromProto (lc_domain a)
          in case free of
            [] \<Rightarrow>
              if \<not> Domain_Contains initial_rhs fixed_activity then SetEnforcementLiteralToFalse enfs domains
              else Some (fix_unassigned_enforcement_to_true enfs domains)
          | [(var, coeff)] \<Rightarrow>
              let domain = free_domain domains initial_rhs fixed_activity var coeff
              in if Domain_IsEmpty domain then SetEnforcementLiteralToFalse enfs domains
                 else Some (set_domain var (Domain_value (Domain_SmallestValue domain))
                        (fix_unassigned_enforcement_to_true enfs domains))
          | _ \<Rightarrow> do {
              vs \<leftarrow> assign_loop domains fixed_activity
                     (rev (zip free (rhs_domains_from domains (butlast free) initial_rhs)));
              Some (fix_unassigned_enforcement_to_true enfs
                (foldl (\<lambda>d (var, v). set_domain var (Domain_value v) d) domains (rev vs))) })"

section \<open>Functional constraints\<close>

definition EvaluateLinearExpression :: "LinearExpressionProto \<Rightarrow> domain list \<Rightarrow> int64" where
  "EvaluateLinearExpression expr domains =
     foldl (\<lambda>s (ref, coeff).
       let increment = wrap64 (Domain_Min (domain_of domains ref) * coeff)
       in wrap64 (s + (if RefIsPositive ref then increment else wrap64 (- increment))))
       (le_offset expr) (zip (le_vars expr) (le_coeffs expr))"

definition LinearExpressionIsFixed :: "LinearExpressionProto \<Rightarrow> domain list \<Rightarrow> bool" where
  "LinearExpressionIsFixed expr domains = list_all (\<lambda>var. Domain_IsFixed (elt domains var)) (le_vars expr)"

text \<open>Solving an affine target \<open>coeff * var + offset = v\<close>.\<close>

definition solve_target :: "LinearExpressionProto \<Rightarrow> int64 \<Rightarrow> int64 option" where
  "solve_target target v =
     (let term_value = wrap64 (v - le_offset target); coeff = hd (le_coeffs target)
      in if division_traps term_value coeff \<or> term_value smod coeff \<noteq> 0 then None
         else Some (term_value sdiv coeff))"

definition PostsolveLinMax :: "LinearArgumentProto \<Rightarrow> domain list \<Rightarrow> domain list option" where
  "PostsolveLinMax a domains =
     (let max_value = foldl (\<lambda>m expr. max m (EvaluateLinearExpression expr domains)) kint64min (la_exprs a);
          target = expr_or_default (la_target a)
      in if length (le_vars target) \<noteq> 1 \<or> \<not> RefIsPositive (hd (le_vars target)) then None
         else do {
           v \<leftarrow> solve_target target max_value;
           Some (set_domain (hd (le_vars target)) (Domain_value v) domains) })"

definition PostsolveIntMod :: "LinearArgumentProto \<Rightarrow> domain list \<Rightarrow> domain list option" where
  "PostsolveIntMod a domains =
     (let exp = EvaluateLinearExpression (la_exprs a ! 0) domains;
          modulus = EvaluateLinearExpression (la_exprs a ! 1) domains;
          target = expr_or_default (la_target a)
      in if division_traps exp modulus \<or> length (le_vars target) \<noteq> 1 \<or> \<not> RefIsPositive (hd (le_vars target)) then None
         else do {
           v \<leftarrow> solve_target target (exp smod modulus);
           if Domain_Contains (elt domains (hd (le_vars target))) v
           then Some (set_domain (hd (le_vars target)) (Domain_value v) domains) else None })"

definition PostsolveIntProd :: "LinearArgumentProto \<Rightarrow> domain list \<Rightarrow> domain list option" where
  "PostsolveIntProd a domains =
     (let wanted = foldl (\<lambda>p expr. wrap64 (p * EvaluateLinearExpression expr domains)) 1 (la_exprs a);
          target = expr_or_default (la_target a)
      in if length (le_vars target) \<noteq> 1 \<or> \<not> RefIsPositive (hd (le_vars target)) then None
         else do {
           v \<leftarrow> solve_target target wanted;
           Some (set_domain (hd (le_vars target)) (Domain_value v) domains) })"

text \<open>\<open>exprs(i)\<close>, whose parameter is an \<open>int\<close>: the index is narrowed first.\<close>

definition element_at :: "ElementConstraintProto \<Rightarrow> int64 \<Rightarrow> LinearExpressionProto option" where
  "element_at a i =
     (let k = wrap32 i in if 0 \<le> k \<and> k < int (length (el_exprs a)) then Some (elt (el_exprs a) k) else None)"

fun select_index :: "ElementConstraintProto \<Rightarrow> domain list \<Rightarrow> int64 \<Rightarrow> int64 list \<Rightarrow> int64 option" where
  "select_index a domains wanted [] = None"
| "select_index a domains wanted (v # vs) =
     (let index = expr_or_default (el_linear_index a);
          index_value = wrap64 (le_offset index + wrap64 (v * hd (le_coeffs index)))
      in do {
        expr \<leftarrow> element_at a index_value;
        if EvaluateLinearExpression expr domains = wanted then Some index_value
        else select_index a domains wanted vs })"

definition PostsolveElement :: "ElementConstraintProto \<Rightarrow> domain list \<Rightarrow> domain list option" where
  "PostsolveElement a domains =
     (let index = expr_or_default (el_linear_index a); target = expr_or_default (el_linear_target a)
      in if LinearExpressionIsFixed index domains then do {
           expr \<leftarrow> element_at a (EvaluateLinearExpression index domains);
           let expr_value = EvaluateLinearExpression expr domains;
           if le_vars target = [] then Some domains
           else if \<not> RefIsPositive (hd (le_vars target)) then None
           else if division_traps (wrap64 (expr_value - le_offset target)) (hd (le_coeffs target)) then None
           else Some (set_domain (hd (le_vars target)) (Domain_value (GetInnerVarValue target expr_value)) domains) }
         else do {
           selected_index_value \<leftarrow> select_index a domains (EvaluateLinearExpression target domains)
             (Domain_Values (elt domains (hd (le_vars index))));
           let selected = wrap32 selected_index_value;
           if selected = - 1 \<or> division_traps (wrap64 (selected - le_offset index)) (hd (le_coeffs index)) then None
           else Some (set_domain (hd (le_vars index)) (Domain_value (GetInnerVarValue index selected)) domains) })"

section \<open>The whole postsolve\<close>

definition literal_fixed_false :: "domain list \<Rightarrow> int32 \<Rightarrow> bool" where
  "literal_fixed_false domains enf \<longleftrightarrow>
     (let d = domain_of domains enf in Domain_IsFixed d \<and> RefIsPositive enf = (Domain_FixedValue d = 0))"

definition literal_fixed_true :: "domain list \<Rightarrow> int32 \<Rightarrow> bool" where
  "literal_fixed_true domains enf \<longleftrightarrow>
     (let d = domain_of domains enf in Domain_IsFixed d \<and> RefIsPositive enf = (Domain_FixedValue d = 1))"

definition ArbitrarilyFixVariables :: "ConstraintProto \<Rightarrow> domain list \<Rightarrow> domain list" where
  "ArbitrarilyFixVariables ct domains =
     foldl (\<lambda>d var. if Domain_IsFixed (domain_of d var) then d
                    else set_domain var (Domain_value (Domain_Min (domain_of d var))) d)
       domains (UsedVariables ct)"

fun PostsolveByCase :: "ConstraintProto \<Rightarrow> ConstraintCase \<Rightarrow> domain list \<Rightarrow> domain list option" where
  "PostsolveByCase ct (kBoolOr a) domains = PostsolveClause a domains"
| "PostsolveByCase ct (kExactlyOne a) domains = PostsolveExactlyOne a domains"
| "PostsolveByCase ct (kLinear a) domains = PostsolveLinear ct a domains"
| "PostsolveByCase ct (kLinMax a) domains = PostsolveLinMax a domains"
| "PostsolveByCase ct (kElement a) domains = PostsolveElement a domains"
| "PostsolveByCase ct (kIntMod a) domains = PostsolveIntMod a domains"
| "PostsolveByCase ct (kIntProd a) domains = PostsolveIntProd a domains"
| "PostsolveByCase ct _ domains = None"

text \<open>A linear constraint on one variable with enforcement literals, which only restricts the domain.\<close>

definition enforced_linear1 :: "ConstraintProto \<Rightarrow> LinearConstraintProto option" where
  "enforced_linear1 ct =
     (case ct_constraint ct of
        kLinear a \<Rightarrow> if length (lc_vars a) = 1 \<and> ct_enforcement_literal ct \<noteq> [] then Some a else None
      | _ \<Rightarrow> None)"

definition restrict_linear1 :: "LinearConstraintProto \<Rightarrow> domain list \<Rightarrow> domain list" where
  "restrict_linear1 a domains =
     (let var = hd (lc_vars a);
          implied = Domain_InverseMultiplicationBy (ReadDomainFromProto (lc_domain a)) (hd (lc_coeffs a))
      in set_domain var (Domain_IntersectionWith (elt domains var) implied) domains)"

definition postsolve_constraint :: "ConstraintProto \<Rightarrow> domain list \<Rightarrow> domain list option" where
  "postsolve_constraint ct domains =
     (let can_be_ignored = list_ex (literal_fixed_false domains) (ct_enforcement_literal ct);
          is_enforced = list_all (literal_fixed_true domains) (ct_enforcement_literal ct)
      in case enforced_linear1 ct of
           Some a \<Rightarrow>
             if can_be_ignored then Some domains
             else if is_enforced then Some (restrict_linear1 a domains)
             else PostsolveByCase ct (ct_constraint ct) domains
         | None \<Rightarrow>
             if can_be_ignored then Some (ArbitrarilyFixVariables ct domains)
             else PostsolveByCase ct (ct_constraint ct) domains)"

fun postsolve_loop :: "ConstraintProto list \<Rightarrow> domain list \<Rightarrow> domain list option" where
  "postsolve_loop [] domains = Some domains"
| "postsolve_loop (ct # cts) domains =
     (case postsolve_constraint ct domains of None \<Rightarrow> None | Some domains1 \<Rightarrow> postsolve_loop cts domains1)"

text \<open>The CHECK on the mapping lets the index just past the end through; that write has no defined result.\<close>

definition initial_domains :: "CpModelProto \<Rightarrow> int32 list \<Rightarrow> int64 list \<Rightarrow> domain list option" where
  "initial_domains mapping_proto postsolve_mapping solution =
     (let n = length (m_variables mapping_proto)
      in if length solution \<noteq> length postsolve_mapping then None
         else if \<not> list_all (\<lambda>i. 0 \<le> i \<and> i < int n) postsolve_mapping then None
         else let fixed = foldl (\<lambda>d (i, v). d[nat i := Domain_value v]) (replicate n [])
                            (zip postsolve_mapping solution);
                  domains = map (\<lambda>(d, var). if Domain_IsEmpty d then ReadDomainFromProto (iv_domain var) else d)
                              (zip fixed (m_variables mapping_proto))
              in if list_ex Domain_IsEmpty domains then None else Some domains)"

definition PostsolveResponse :: "int64 \<Rightarrow> CpModelProto \<Rightarrow> int32 list \<Rightarrow> int64 list \<Rightarrow> int64 list option" where
  "PostsolveResponse num_variables_in_original_model mapping_proto postsolve_mapping solution =
     do {
       domains \<leftarrow> initial_domains mapping_proto postsolve_mapping solution;
       domains' \<leftarrow> postsolve_loop (rev (m_constraints mapping_proto)) domains;
       if 0 \<le> num_variables_in_original_model \<and> num_variables_in_original_model \<le> int (length domains')
       then Some (map Domain_SmallestValue (take (nat num_variables_in_original_model) domains')) else None }"

section \<open>Tightened domains\<close>

text \<open>The reduction of the domain of an original variable by an affine relation with a new one.  The
  coefficients are read into \<open>int\<close>.\<close>

definition affine_reduction :: "nat \<Rightarrow> ConstraintProto \<Rightarrow> domain list \<Rightarrow> domain list" where
  "affine_reduction num_original_vars ct domains =
     (case ct_constraint ct of
        kLinear lin \<Rightarrow>
          if length (lc_vars lin) = 2 \<and> length (lc_domain lin) = 2 \<and> lc_domain lin ! 0 = lc_domain lin ! 1 then
            let n = int num_original_vars;
                swap = (lc_vars lin ! 1 < n \<and> lc_vars lin ! 0 \<ge> n);
                v1 = lc_vars lin ! (if swap then 1 else 0); v2 = lc_vars lin ! (if swap then 0 else 1);
                c1 = wrap32 (lc_coeffs lin ! (if swap then 1 else 0));
                c2 = wrap32 (lc_coeffs lin ! (if swap then 0 else 1))
            in if v1 < n \<and> v2 \<ge> n then
                 let restriction = Domain_InverseMultiplicationBy
                       (Domain_AdditionWith (Domain_value (lc_domain lin ! 0))
                         (Domain_ContinuousMultiplicationBy (elt domains v2) (wrap32 (- c2)))) c1
                 in if Domain_IsIncludedIn (elt domains v1) restriction then domains
                    else domains[nat v1 := Domain_IntersectionWith (elt domains v1) restriction]
               else domains
          else domains
      | _ \<Rightarrow> domains)"

text \<open>The domains with what the search found: variable by variable when there is no mapping, else through it.\<close>

definition tightened_domains ::
  "nat \<Rightarrow> ConstraintProto list \<Rightarrow> int32 list \<Rightarrow> domain list \<Rightarrow> domain list \<Rightarrow> domain list" where
  "tightened_domains num_original cts postsolve_mapping search_domains domains =
     (if search_domains = [] then domains
      else if postsolve_mapping = [] then
        map (\<lambda>(d, s). Domain_IntersectionWith d s) (zip (take num_original domains) search_domains) @
        drop num_original domains
      else foldl (\<lambda>d ct. affine_reduction num_original ct d)
             (foldl (\<lambda>d (i, s). d[nat i := Domain_IntersectionWith (elt d i) s]) domains
               (zip postsolve_mapping search_domains)) cts)"

definition FillTightenedDomainInResponse ::
  "CpModelProto \<Rightarrow> CpModelProto \<Rightarrow> int32 list \<Rightarrow> domain list \<Rightarrow> int64 list list option" where
  "FillTightenedDomainInResponse original_model mapping_proto postsolve_mapping search_domains =
     (let num_original = length (m_variables original_model);
          domains = map (\<lambda>v. ReadDomainFromProto (iv_domain v)) (m_variables mapping_proto);
          original = map (\<lambda>v. ReadDomainFromProto (iv_domain v)) (m_variables original_model)
      in if \<not> num_original \<le> length domains \<or> \<not> list_all2 Domain_IsIncludedIn (take num_original domains) original then None
         else if search_domains \<noteq> [] \<and> postsolve_mapping = [] \<and> \<not> num_original \<le> length search_domains then None
         else if search_domains \<noteq> [] \<and> postsolve_mapping \<noteq> [] \<and> length postsolve_mapping \<noteq> length search_domains then None
         else Some (map FillDomainInProto (take num_original
                (tightened_domains num_original (m_constraints mapping_proto) postsolve_mapping search_domains domains))))"

end
