(* ===== verification/PostsolveFacts.thy ===== *)
theory PostsolveFacts
  imports Postsolve Meaning
begin

text \<open>
  What the steps of the postsolve guarantee.  An assignment \<open>fits\<close> the domains when each of its values is in
  the domain of its variable; a constraint is \<open>settled\<close> when every assignment that fits satisfies it.  A
  constraint that is settled stays settled when domains shrink, and when a variable it does not use is
  written.  Each kind of constraint that the postsolve handles is settled after its step, under the
  precondition \<open>ready\<close> that the presolve has to establish.
\<close>

section \<open>Domains that fit\<close>

definition fits :: "int list \<Rightarrow> domain list \<Rightarrow> bool" where
  "fits x domains \<longleftrightarrow> length x = length domains \<and> (\<forall>v < length x. x ! v \<in> dvals (domains ! v))"

definition settled :: "CpModelProto \<Rightarrow> domain list \<Rightarrow> ConstraintProto \<Rightarrow> bool" where
  "settled model domains ct \<longleftrightarrow> (\<forall>x. fits x domains \<longrightarrow> satisfied x model ct)"

definition sane :: "domain list \<Rightarrow> bool" where
  "sane domains \<longleftrightarrow> (\<forall>d \<in> set domains. canon d \<and> d \<noteq> [])"

lemma fits_elt: "fits x domains \<Longrightarrow> 0 \<le> v \<Longrightarrow> v < int (length domains) \<Longrightarrow> elt x v \<in> dvals (elt domains v)"
  unfolding fits_def elt_def by (metis nat_less_iff)

lemma sane_elt: "sane domains \<Longrightarrow> 0 \<le> v \<Longrightarrow> v < int (length domains) \<Longrightarrow> canon (elt domains v) \<and> elt domains v \<noteq> []"
  unfolding sane_def elt_def by (metis nat_less_iff nth_mem)

lemma PositiveRef_nonneg [simp]: "0 \<le> PositiveRef ref"
  by (simp add: PositiveRef_def NegatedRef_def)

lemma length_set_domain [simp]: "length (set_domain ref d domains) = length domains"
  by (simp add: set_domain_def)

lemma elt_set_domain:
  assumes "PositiveRef ref < int (length domains)" "0 \<le> v"
  shows "elt (set_domain ref d domains) v = (if v = PositiveRef ref then d else elt domains v)"
proof -
  have "nat (PositiveRef ref) < length domains" using assms(1) PositiveRef_nonneg[of ref] by linarith
  moreover have "nat (PositiveRef ref) = nat v \<longleftrightarrow> v = PositiveRef ref"
    using assms(2) PositiveRef_nonneg[of ref] by linarith
  ultimately show ?thesis by (simp add: elt_def set_domain_def nth_list_update)
qed

lemma sane_set_domain: "sane domains \<Longrightarrow> canon d \<Longrightarrow> d \<noteq> [] \<Longrightarrow> sane (set_domain ref d domains)"
  unfolding sane_def set_domain_def using set_update_subset_insert[of domains "nat (PositiveRef ref)" d] by auto

lemma sane_set_value: "sane domains \<Longrightarrow> in_int64 v \<Longrightarrow> sane (set_domain ref (Domain_value v) domains)"
  by (rule sane_set_domain) (simp_all, simp add: Domain_value_def)

text \<open>A fixed domain has one value.\<close>

lemma fixed_dvals:
  assumes "canon d" "d \<noteq> []" "Domain_IsFixed d"
  shows "dvals d = {Domain_FixedValue d}" "dvals d = {Domain_Min d}"
proof -
  obtain v where v: "dvals d = {v}" using Domain_IsFixed_iff[OF assms(1,2)] assms(3) by blast
  have "Domain_Min d = v" using Domain_Min_spec(1)[OF assms(1,2)] v by simp
  then show "dvals d = {Domain_FixedValue d}" "dvals d = {Domain_Min d}"
    using v by (simp_all add: Domain_FixedValue_def Domain_Min_def)
qed

section \<open>The smallest value\<close>

lemma smallest_step_cases: "smallest_step r b = r \<or> smallest_step r b = b"
  by (auto simp: smallest_step_def Let_def)

lemma smallest_loop_mem:
  assumes "\<forall>i \<in> set r. interval_ok i" "S = dvals r \<union> {s}"
  shows "smallest_loop s r \<in> S"
  using assms
proof (induction r arbitrary: s S)
  case (Cons i r)
  have i: "ci_start i \<le> ci_end i" using Cons.prems(1) by (simp add: interval_ok_def)
  define t where "t = smallest_step (smallest_step s (ci_start i)) (ci_end i)"
  have "t \<in> {s, ci_start i, ci_end i}" unfolding t_def using smallest_step_cases by (metis insertCI)
  moreover have "smallest_loop t r \<in> dvals r \<union> {t}" using Cons.IH[of "dvals r \<union> {t}" t] Cons.prems(1) by simp
  ultimately show ?case using i Cons.prems(2) by (auto simp: t_def)
qed simp

lemma Domain_SmallestValue_mem: "canon d \<Longrightarrow> d \<noteq> [] \<Longrightarrow> Domain_SmallestValue d \<in> dvals d"
  using smallest_loop_mem[of d "dvals d \<union> {Domain_Min d}" "Domain_Min d"] Domain_Min_spec(1)[of d]
  by (auto simp: Domain_SmallestValue_def canon_def)

lemma fits_SmallestValue: "sane domains \<Longrightarrow> fits (map Domain_SmallestValue domains) domains"
  by (simp add: fits_def sane_def Domain_SmallestValue_mem)

section \<open>Shrinking and writing\<close>

definition shrinks :: "domain list \<Rightarrow> domain list \<Rightarrow> bool" where
  "shrinks domains domains' \<longleftrightarrow>
     length domains' = length domains \<and> (\<forall>v < length domains. dvals (domains' ! v) \<subseteq> dvals (domains ! v))"

lemma shrinks_refl [simp]: "shrinks d d"
  by (simp add: shrinks_def)

lemma shrinks_trans: "shrinks a b \<Longrightarrow> shrinks b c \<Longrightarrow> shrinks a c"
  unfolding shrinks_def by (metis order_trans)

lemma shrinks_fits: "shrinks d d' \<Longrightarrow> fits x d' \<Longrightarrow> fits x d"
  unfolding shrinks_def fits_def by (metis subsetD)

lemma settled_mono: "settled model d ct \<Longrightarrow> shrinks d d' \<Longrightarrow> settled model d' ct"
  unfolding settled_def using shrinks_fits by blast

lemma shrinks_set_domain:
  assumes "dvals d \<subseteq> dvals (domain_of domains ref)"
  shows "shrinks domains (set_domain ref d domains)"
  unfolding shrinks_def
proof (intro conjI allI impI)
  fix v assume "v < length domains"
  then show "dvals (set_domain ref d domains ! v) \<subseteq> dvals (domains ! v)"
    using assms by (cases "v = nat (PositiveRef ref)") (simp_all add: set_domain_def domain_of_def elt_def)
qed simp

section \<open>Satisfaction depends on the variables used\<close>

definition same_on :: "int set \<Rightarrow> int list \<Rightarrow> int list \<Rightarrow> bool" where
  "same_on V x y \<longleftrightarrow> (\<forall>v \<in> V. elt x v = elt y v)"

lemma ref_value_same: "same_on V x y \<Longrightarrow> PositiveRef ref \<in> V \<Longrightarrow> ref_value x ref = ref_value y ref"
  by (auto simp: same_on_def ref_value_def PositiveRef_cases RefIsPositive_def NegatedRef_def split: if_splits)

lemma lit_same: "same_on V x y \<Longrightarrow> PositiveRef ref \<in> V \<Longrightarrow> lit x ref = lit y ref"
  by (auto simp: same_on_def lit_def literal_value_def PositiveRef_cases RefIsPositive_def NegatedRef_def split: if_splits)

lemma terms_sum_same:
  assumes "same_on V x y" "PositiveRef ` fst ` set ts \<subseteq> V"
  shows "terms_sum x ts = terms_sum y ts"
proof -
  have "(\<lambda>(v, c). ref_value x v * c) t = (\<lambda>(v, c). ref_value y v * c) t" if t: "t \<in> set ts" for t
  proof (cases t)
    case (Pair v c)
    then have "PositiveRef v \<in> V" using t assms(2) by force
    then show ?thesis using ref_value_same[OF assms(1)] Pair by simp
  qed
  then have m: "map (\<lambda>(v, c). ref_value x v * c) ts = map (\<lambda>(v, c). ref_value y v * c) ts" by (rule map_cong[OF refl])
  show ?thesis unfolding terms_sum_def m ..
qed

lemma fst_zip_subset: "fst ` set (zip a b) \<subseteq> set a"
  by (auto dest: set_zip_leftD)

lemma expr_value_same: "same_on V x y \<Longrightarrow> PositiveRef ` set (le_vars e) \<subseteq> V \<Longrightarrow> expr_value x e = expr_value y e"
  unfolding expr_value_def using terms_sum_same[of V x y] fst_zip_subset[of "le_vars e" "le_coeffs e"] by fastforce

text \<open>The constraints that the postsolve handles.\<close>

fun supported :: "ConstraintCase \<Rightarrow> bool" where
  "supported (kBoolOr a) \<longleftrightarrow> True"
| "supported (kExactlyOne a) \<longleftrightarrow> True"
| "supported (kLinear a) \<longleftrightarrow> True"
| "supported (kLinMax a) \<longleftrightarrow> True"
| "supported (kElement a) \<longleftrightarrow> \<not> element_is_legacy a \<and> element_is_linear a"
| "supported (kIntMod a) \<longleftrightarrow> 2 \<le> length (la_exprs a)"
| "supported (kIntProd a) \<longleftrightarrow> True"
| "supported _ \<longleftrightarrow> False"

lemma supported_cases:
  assumes "supported c"
  obtains a where "c = kBoolOr a" | a where "c = kExactlyOne a" | a where "c = kLinear a" | a where "c = kLinMax a"
    | a where "c = kElement a" "\<not> element_is_legacy a" "element_is_linear a"
    | a where "c = kIntMod a" "2 \<le> length (la_exprs a)" | a where "c = kIntProd a"
  using assms by (cases c) auto

lemma true_literals_same: "same_on V x y \<Longrightarrow> PositiveRef ` set ls \<subseteq> V \<Longrightarrow> true_literals x ls = true_literals y ls"
  unfolding true_literals_def using lit_same[of V x y] by (metis (no_types, lifting) filter_cong image_subset_iff)

lemma exprs_same:
  assumes "same_on V x y" "PositiveRef ` set (exprs_vars es) \<subseteq> V"
  shows "\<forall>e \<in> set es. expr_value x e = expr_value y e"
  using expr_value_same[OF assms(1)] assms(2) by (fastforce simp: exprs_vars_def)

lemma linear_argument_same:
  assumes "same_on V x y" "PositiveRef ` set (linear_argument_vars a) \<subseteq> V"
  shows "opt_value x (la_target a) = opt_value y (la_target a)" "\<forall>e \<in> set (la_exprs a). expr_value x e = expr_value y e"
  using assms exprs_same[of V x y "la_exprs a"] expr_value_same[of V x y] by (auto simp: linear_argument_vars_def image_Un)

lemma meaning_same:
  assumes "supported c" "same_on V x y"
    and "PositiveRef ` (set (ir_variables (GetReferencesUsedByCase c)) \<union> set (ir_literals (GetReferencesUsedByCase c))) \<subseteq> V"
  shows "meaning x model c = meaning y model c"
  using assms(1)
proof (cases rule: supported_cases)
  case (1 a)
  then show ?thesis using assms(3) lit_same[OF assms(2)] by (auto simp: image_Un)
next
  case (2 a)
  then show ?thesis using assms(3) true_literals_same[OF assms(2)] by (auto simp: image_Un)
next
  case (3 a)
  have "linear_activity x a = linear_activity y a"
    unfolding linear_activity_def using 3 assms(3) fst_zip_subset[of "lc_vars a" "lc_coeffs a"]
    by (intro terms_sum_same[OF assms(2)]) auto
  then show ?thesis using 3 by simp
next
  case (4 a)
  then have "expr_value x ` set (la_exprs a) = expr_value y ` set (la_exprs a)"
    using linear_argument_same(2)[OF assms(2), of a] assms(3) by (auto intro!: image_cong)
  then show ?thesis using 4 linear_argument_same(1)[OF assms(2), of a] assms(3) by simp
next
  case (5 a)
  then have v: "PositiveRef ` set (opt_vars (el_linear_index a)) \<subseteq> V" "PositiveRef ` set (opt_vars (el_linear_target a)) \<subseteq> V"
    "PositiveRef ` set (exprs_vars (el_exprs a)) \<subseteq> V"
    using assms(3) by (auto simp: image_Un)
  have "map (expr_value x) (el_exprs a) = map (expr_value y) (el_exprs a)" using exprs_same[OF assms(2) v(3)] by (simp only: map_eq_conv)
  moreover have "el_vars a = []" using 5(2) by (simp add: element_is_legacy_def)
  ultimately show ?thesis
    unfolding 5(1) meaning.simps expr_value_same[OF assms(2) v(1)] expr_value_same[OF assms(2) v(2)] by metis
next
  case (6 a)
  then have "la_exprs a ! 0 \<in> set (la_exprs a)" "la_exprs a ! 1 \<in> set (la_exprs a)" by (auto intro!: nth_mem)
  then show ?thesis using linear_argument_same[OF assms(2), of a] assms(3) 6 by simp
next
  case (7 a)
  then have v: "PositiveRef ` set (linear_argument_vars a) \<subseteq> V" using assms(3) by simp
  have m: "map (expr_value x) (la_exprs a) = map (expr_value y) (la_exprs a)"
    using linear_argument_same(2)[OF assms(2) v] by (simp only: map_eq_conv)
  show ?thesis unfolding 7 meaning.simps m linear_argument_same(1)[OF assms(2) v] ..
qed

lemma satisfied_same:
  assumes "supported (ct_constraint ct)" "same_on (set (UsedVariables ct)) x y"
  shows "satisfied x model ct = satisfied y model ct"
proof -
  have "enforced x ct = enforced y ct"
    unfolding enforced_def using lit_same[OF assms(2)] by (auto simp: set_UsedVariables)
  moreover have "meaning x model (ct_constraint ct) = meaning y model (ct_constraint ct)"
    by (rule meaning_same[OF assms]) (auto simp: set_UsedVariables GetReferencesUsedByConstraint_def)
  ultimately show ?thesis by (simp add: satisfied_def)
qed

text \<open>A step that widens only domains of variables the constraint does not use leaves it settled.\<close>

lemma settled_untouched:
  assumes "supported (ct_constraint ct)" "settled model d ct" "sane d" "length d' = length d"
    and "\<forall>v \<in> set (UsedVariables ct). v < int (length d) \<and> dvals (elt d' v) \<subseteq> dvals (elt d v)"
  shows "settled model d' ct"
  unfolding settled_def
proof (intro allI impI)
  fix x assume x: "fits x d'"
  have nn: "0 \<le> v" if "v \<in> set (UsedVariables ct)" for v using that by (auto simp: set_UsedVariables)
  define U where "U = nat ` set (UsedVariables ct)"
  define y where "y = map (\<lambda>v. if v \<in> U then x ! v else Domain_Min (d ! v)) [0..<length d]"
  have "fits y d"
    unfolding fits_def
  proof (intro conjI allI impI)
    show "length y = length d" by (simp add: y_def)
    fix v assume v: "v < length y"
    then have vd: "v < length d" by (simp add: y_def)
    show "y ! v \<in> dvals (d ! v)"
    proof (cases "v \<in> U")
      case True
      then obtain w where w: "w \<in> set (UsedVariables ct)" "v = nat w" by (auto simp: U_def)
      have "x ! v \<in> dvals (d' ! v)" using x vd assms(4) by (simp add: fits_def)
      then show ?thesis using w assms(5) True vd by (auto simp: y_def elt_def)
    next
      case False
      have "canon (d ! v) \<and> d ! v \<noteq> []" using assms(3) vd by (simp add: sane_def)
      then show ?thesis using False vd Domain_Min_spec(1) by (simp add: y_def)
    qed
  qed
  moreover have "same_on (set (UsedVariables ct)) x y"
    unfolding same_on_def
  proof
    fix v assume v: "v \<in> set (UsedVariables ct)"
    then have "nat v < length d" "nat v \<in> U" using nn[OF v] bspec[OF assms(5) v] by (auto simp: U_def v)
    then show "elt x v = elt y v" by (simp add: elt_def y_def)
  qed
  ultimately show "satisfied x model ct" using assms(2) satisfied_same[OF assms(1)] by (auto simp: settled_def)
qed

end
