(* ===== verification/PostsolveSteps.thy ===== *)
theory PostsolveSteps
  imports PostsolveFacts
begin

text \<open>
  The steps of the postsolve for clauses, exactly-one constraints and linear constraints: what each does to
  the domains, and that the constraint is settled after it.
\<close>

section \<open>Literals\<close>

lemma lit_iff_true_value: "lit x ref \<longleftrightarrow> elt x (PositiveRef ref) = true_value ref"
  by (auto simp: lit_def literal_value_def true_value_def PositiveRef_cases)

lemma true_false_value [simp]: "true_value ref \<noteq> false_value ref" "false_value ref \<noteq> true_value ref"
  "in_int64 (true_value ref)" "in_int64 (false_value ref)"
  by (simp_all add: true_value_def false_value_def)

lemma domain_of_set_domain:
  "PositiveRef ref < int (length domains) \<Longrightarrow>
    domain_of (set_domain ref d domains) ref' = (if PositiveRef ref' = PositiveRef ref then d else domain_of domains ref')"
  by (simp add: domain_of_def elt_set_domain)

lemma sane_domain_of: "sane domains \<Longrightarrow> PositiveRef ref < int (length domains) \<Longrightarrow>
    canon (domain_of domains ref) \<and> domain_of domains ref \<noteq> []"
  by (simp add: domain_of_def sane_elt)

lemma lit_of_value:
  "fits x domains \<Longrightarrow> PositiveRef ref < int (length domains) \<Longrightarrow> dvals (domain_of domains ref) = {v} \<Longrightarrow>
    lit x ref = (v = true_value ref)"
  using fits_elt[of x domains "PositiveRef ref"] by (simp add: domain_of_def lit_iff_true_value)

lemma IsFixed_value [simp]: "Domain_IsFixed (Domain_value v)" "Domain_FixedValue (Domain_value v) = v"
  by (simp_all add: Domain_IsFixed_def Domain_value_def Domain_Min_def Domain_Max_def Domain_FixedValue_def)

abbreviation refs_in :: "domain list \<Rightarrow> int32 list \<Rightarrow> bool" where
  "refs_in domains refs \<equiv> \<forall>ref \<in> set refs. PositiveRef ref < int (length domains)"

text \<open>A constraint with a false enforcement literal is satisfied.\<close>

lemma settled_not_enforced:
  assumes "l \<in> set (ct_enforcement_literal ct)" "PositiveRef l < int (length domains)"
    and "dvals (domain_of domains l) = {v}" "v \<noteq> true_value l"
  shows "settled model domains ct"
  unfolding settled_def satisfied_def enforced_def using assms lit_of_value by blast

section \<open>Clauses\<close>

lemma clause_loop_spec:
  assumes "clause_loop refs s domains = (s', domains')" "sane domains" "refs_in domains refs"
  shows "length domains' = length domains" "sane domains'"
    "0 \<le> v \<Longrightarrow> Domain_IsFixed (elt domains v) \<Longrightarrow> elt domains' v = elt domains v"
    "s' \<Longrightarrow> s \<or> (\<exists>l \<in> set refs. dvals (domain_of domains' l) = {true_value l})"
proof -
  have "length domains' = length domains \<and> sane domains' \<and>
    (\<forall>v. 0 \<le> v \<and> Domain_IsFixed (elt domains v) \<longrightarrow> elt domains' v = elt domains v) \<and>
    (s' \<longrightarrow> s \<or> (\<exists>l \<in> set refs. dvals (domain_of domains' l) = {true_value l}))"
    using assms
  proof (induction refs s domains rule: clause_loop.induct)
    case (2 ref refs s domains)
    show ?case
    proof (cases "Domain_IsFixed (domain_of domains ref)")
      case True
      note ih = "2.IH"(1)[OF True]
      have loop: "clause_loop refs (s \<or> Domain_FixedValue (domain_of domains ref) = true_value ref) domains = (s', domains')"
        using "2.prems"(1) True by simp
      have r: "refs_in domains refs" using "2.prems"(3) by simp
      from ih[OF loop "2.prems"(2) r]
      have I: "length domains' = length domains" "sane domains'"
        "\<forall>v. 0 \<le> v \<and> Domain_IsFixed (elt domains v) \<longrightarrow> elt domains' v = elt domains v"
        "s' \<longrightarrow> (s \<or> Domain_FixedValue (domain_of domains ref) = true_value ref) \<or>
           (\<exists>l \<in> set refs. dvals (domain_of domains' l) = {true_value l})" by blast+
      have "dvals (domain_of domains' ref) = {Domain_FixedValue (domain_of domains ref)}"
        using I(3) True fixed_dvals(1)[OF conjunct1[OF sane_domain_of[OF "2.prems"(2)]] conjunct2[OF sane_domain_of[OF "2.prems"(2)]]]
          "2.prems"(3) by (simp add: domain_of_def)
      then show ?thesis using I by auto
    next
      case False
      let ?d = "set_domain ref (Domain_value (false_value ref)) domains"
      have loop: "clause_loop refs s ?d = (s', domains')" using "2.prems"(1) False by simp
      have r: "refs_in ?d refs" and ref: "PositiveRef ref < int (length domains)" using "2.prems"(3) by simp_all
      have "sane ?d" using sane_set_value[OF "2.prems"(2)] by simp
      from "2.IH"(2)[OF False loop this r]
      have I: "length domains' = length domains" "sane domains'"
        "\<forall>v. 0 \<le> v \<and> Domain_IsFixed (elt ?d v) \<longrightarrow> elt domains' v = elt ?d v"
        "s' \<longrightarrow> s \<or> (\<exists>l \<in> set refs. dvals (domain_of domains' l) = {true_value l})" by simp_all
      have "\<forall>v. 0 \<le> v \<and> Domain_IsFixed (elt domains v) \<longrightarrow> elt domains' v = elt domains v"
        using I(3) False elt_set_domain[OF ref] by (auto simp: domain_of_def)
      then show ?thesis using I by auto
    qed
  qed simp
  then show "length domains' = length domains" "sane domains'"
    "0 \<le> v \<Longrightarrow> Domain_IsFixed (elt domains v) \<Longrightarrow> elt domains' v = elt domains v"
    "s' \<Longrightarrow> s \<or> (\<exists>l \<in> set refs. dvals (domain_of domains' l) = {true_value l})" by blast+
qed

lemma PostsolveClause_spec:
  assumes "PostsolveClause a domains = Some domains'" "sane domains" "refs_in domains (ba_literals a)"
  shows "length domains' = length domains" "sane domains'"
    "\<exists>l \<in> set (ba_literals a). dvals (domain_of domains' l) = {true_value l}"
proof -
  obtain s d1 where l: "clause_loop (ba_literals a) False domains = (s, d1)" by fastforce
  note spec = clause_loop_spec[OF l assms(2,3)]
  have ne: "ba_literals a \<noteq> []" and
    d': "domains' = (if s then d1 else set_domain (hd (ba_literals a)) (Domain_value (true_value (hd (ba_literals a)))) d1)"
    using assms(1) l by (auto simp: PostsolveClause_def Let_def split: if_splits)
  show "length domains' = length domains" using d' spec(1) by simp
  show "sane domains'" using d' spec(2) sane_set_value[OF spec(2)] by simp
  have hd: "hd (ba_literals a) \<in> set (ba_literals a)" using ne by simp
  show "\<exists>l \<in> set (ba_literals a). dvals (domain_of domains' l) = {true_value l}"
  proof (cases s)
    case True
    then show ?thesis using spec(4) d' by simp
  next
    case False
    then have "dvals (domain_of domains' (hd (ba_literals a))) = {true_value (hd (ba_literals a))}"
      using d' assms(3) hd by (simp add: domain_of_set_domain spec(1))
    then show ?thesis using hd by blast
  qed
qed

lemma settled_clause:
  assumes "ct_constraint ct = kBoolOr a" "PostsolveClause a domains = Some domains'" "sane domains"
    and "refs_in domains (ba_literals a)"
  shows "settled model domains' ct"
  unfolding settled_def
proof (intro allI impI)
  fix x assume x: "fits x domains'"
  note spec = PostsolveClause_spec[OF assms(2,3,4)]
  obtain l where l: "l \<in> set (ba_literals a)" "dvals (domain_of domains' l) = {true_value l}" using spec(3) by blast
  then have "lit x l" using lit_of_value[OF x _ l(2)] assms(4) spec(1) by simp
  then show "satisfied x model ct" using l(1) assms(1) by (auto simp: satisfied_def)
qed

section \<open>Exactly one\<close>

definition fixed_true :: "domain list \<Rightarrow> int32 \<Rightarrow> bool" where
  "fixed_true domains ref \<longleftrightarrow>
     Domain_IsFixed (domain_of domains ref) \<and> Domain_FixedValue (domain_of domains ref) = true_value ref"

lemma exactly_one_loop_spec:
  assumes "exactly_one_loop refs s fr domains = Some (s', fr')"
  shows "fr' = fr @ filter (\<lambda>ref. \<not> Domain_IsFixed (domain_of domains ref)) refs"
    "of_bool s' = of_bool s + length (filter (fixed_true domains) refs)"
proof -
  have "fr' = fr @ filter (\<lambda>ref. \<not> Domain_IsFixed (domain_of domains ref)) refs \<and>
    of_bool s' = of_bool s + length (filter (fixed_true domains) refs)"
    using assms
    by (induction refs s fr domains rule: exactly_one_loop.induct) (auto simp: fixed_true_def of_bool_def split: if_splits)
  then show "fr' = fr @ filter (\<lambda>ref. \<not> Domain_IsFixed (domain_of domains ref)) refs"
    "of_bool s' = of_bool s + length (filter (fixed_true domains) refs)" by auto
qed

lemma length_fix_false [simp]: "length (fix_false refs domains) = length domains"
  unfolding fix_false_def by (rule foldl_invariant) simp_all

lemma fix_false_simps [simp]:
  "fix_false [] domains = domains"
  "fix_false (ref # refs) domains = fix_false refs (set_domain ref (Domain_value (false_value ref)) domains)"
  by (simp_all add: fix_false_def)

lemma sane_fix_false: "sane domains \<Longrightarrow> sane (fix_false refs domains)"
  unfolding fix_false_def by (rule foldl_invariant) (simp_all add: sane_set_value)

lemma fix_false_at:
  assumes "refs_in domains refs" "distinct (map PositiveRef refs)"
  shows "PositiveRef ref \<notin> PositiveRef ` set refs \<Longrightarrow> domain_of (fix_false refs domains) ref = domain_of domains ref"
    "ref \<in> set refs \<Longrightarrow> domain_of (fix_false refs domains) ref = Domain_value (false_value ref)"
  using assms by (induction refs arbitrary: domains) (auto simp: domain_of_set_domain)

lemma PostsolveExactlyOne_sane:
  assumes "PostsolveExactlyOne a domains = Some domains'" "sane domains"
  shows "length domains' = length domains" "sane domains'"
  using assms by (auto simp: PostsolveExactlyOne_def Let_def sane_fix_false sane_set_value
      split: option.splits prod.splits bool.splits if_splits)

lemma length_filter_eq_one: "distinct xs \<Longrightarrow> y \<in> set xs \<Longrightarrow> length (filter (\<lambda>x. x = y) xs) = 1"
  by (induction xs) (auto simp: filter_empty_conv)

lemma settled_exactly_one:
  assumes "ct_constraint ct = kExactlyOne a" "PostsolveExactlyOne a domains = Some domains'" "sane domains"
    and "refs_in domains (ba_literals a)" "distinct (map PositiveRef (ba_literals a))"
  shows "settled model domains' ct"
  unfolding settled_def
proof (intro allI impI)
  fix x assume x: "fits x domains'"
  let ?ls = "ba_literals a"
  define fr where "fr = filter (\<lambda>ref. \<not> Domain_IsFixed (domain_of domains ref)) ?ls"
  obtain s fr0 where "exactly_one_loop ?ls False [] domains = Some (s, fr0)"
    using assms(2) by (cases "exactly_one_loop ?ls False [] domains") (auto simp: PostsolveExactlyOne_def)
  note loop = this exactly_one_loop_spec[OF this]
  have fr0: "fr0 = fr" using loop(2) by (simp add: fr_def)
  have dfr: "distinct (map PositiveRef fr)" unfolding fr_def using assms(5) by (auto simp: distinct_map inj_on_def)
  have rfr: "refs_in domains fr" using assms(4) by (simp add: fr_def)
  have inj: "r = r'" if "r \<in> set ?ls" "r' \<in> set ?ls" "PositiveRef r = PositiveRef r'" for r r'
    using assms(5) that by (auto simp: distinct_map inj_on_def)
  have len: "length domains' = length domains" using PostsolveExactlyOne_sane[OF assms(2,3)] by simp
  have fixed: "dvals (domain_of domains r) = {Domain_FixedValue (domain_of domains r)}"
    if "r \<in> set ?ls" "Domain_IsFixed (domain_of domains r)" for r
    using fixed_dvals(1) sane_domain_of[OF assms(3)] assms(4) that by blast
  have notin: "PositiveRef r \<notin> PositiveRef ` set fr" if "r \<in> set ?ls" "Domain_IsFixed (domain_of domains r)" for r
    using that inj by (auto simp: fr_def)
  have "true_literals x ?ls = 1"
  proof (cases s)
    case True
    then have d': "domains' = fix_false fr domains" using assms(2) loop(1) by (simp add: PostsolveExactlyOne_def fr0)
    have "lit x r = fixed_true domains r" if r: "r \<in> set ?ls" for r
    proof (cases "Domain_IsFixed (domain_of domains r)")
      case T: True
      then have "dvals (domain_of domains' r) = {Domain_FixedValue (domain_of domains r)}"
        using fix_false_at(1)[OF rfr dfr notin[OF r T]] fixed[OF r T] d' by simp
      then show ?thesis using lit_of_value[OF x] len assms(4) r T by (simp add: fixed_true_def)
    next
      case F: False
      then have "dvals (domain_of domains' r) = {false_value r}"
        using fix_false_at(2)[OF rfr dfr, of r] r d' by (simp add: fr_def)
      then show ?thesis using lit_of_value[OF x] len assms(4) r F by (simp add: fixed_true_def)
    qed
    then have "filter (lit x) ?ls = filter (fixed_true domains) ?ls" by (rule filter_cong[OF refl])
    then show ?thesis using loop(3) True by (simp add: true_literals_def)
  next
    case False
    then have ne: "fr \<noteq> []" and d': "domains' = fix_false (butlast fr)
        (set_domain (last fr) (Domain_value (true_value (last fr))) domains)"
      using assms(2) loop(1) by (auto simp: PostsolveExactlyOne_def fr0 Let_def split: if_splits)
    have split: "fr = butlast fr @ [last fr]" using ne by simp
    have lastin: "last fr \<in> set fr" "last fr \<in> set ?ls" using ne last_in_set[OF ne] by (auto simp: fr_def)
    let ?e = "set_domain (last fr) (Domain_value (true_value (last fr))) domains"
    have B: "refs_in ?e (butlast fr)" using rfr by (auto dest: in_set_butlastD)
    have D: "distinct (map PositiveRef (butlast fr))" "PositiveRef (last fr) \<notin> PositiveRef ` set (butlast fr)"
      using dfr split by (metis distinct_append map_append, metis (no_types, lifting) disjoint_iff distinct_append
          image_eqI image_set list.set_intros(1) list.simps(9) map_append)
    have e: "domain_of ?e r = (if PositiveRef r = PositiveRef (last fr) then Domain_value (true_value (last fr)) else domain_of domains r)" for r
      using domain_of_set_domain rfr lastin(1) by blast
    have "lit x r = (r = last fr)" if r: "r \<in> set ?ls" for r
    proof -
      consider "r = last fr" | "r \<in> set (butlast fr)" "r \<noteq> last fr" | "r \<notin> set fr" using split by (metis rotate1.simps(2) set_ConsD set_rotate1)
      then show ?thesis
      proof cases
        case 1
        then have "dvals (domain_of domains' r) = {true_value r}"
          using fix_false_at(1)[OF B D(1) D(2)] d' e by simp
        then show ?thesis using lit_of_value[OF x] len assms(4) r 1 by simp
      next
        case 2
        then have "dvals (domain_of domains' r) = {false_value r}" using fix_false_at(2)[OF B D(1)] d' by simp
        then show ?thesis using lit_of_value[OF x] len assms(4) r 2 by simp
      next
        case 3
        then have T: "Domain_IsFixed (domain_of domains r)" using r by (simp add: fr_def)
        have n: "PositiveRef r \<notin> PositiveRef ` set (butlast fr)" "PositiveRef r \<noteq> PositiveRef (last fr)"
          using notin[OF r T] lastin(1) by (auto dest: in_set_butlastD)
        have dv: "dvals (domain_of domains' r) = {Domain_FixedValue (domain_of domains r)}"
          using fix_false_at(1)[OF B D(1) n(1)] d' e n(2) fixed[OF r T] by simp
        have "\<not> fixed_true domains r" using loop(3) False r by (simp add: filter_empty_conv)
        then show ?thesis using lit_of_value[OF x _ dv] len assms(4) r T 3 lastin(1) by (auto simp: fixed_true_def)
      qed
    qed
    then have f: "filter (lit x) ?ls = filter (\<lambda>r. r = last fr) ?ls" by (rule filter_cong[OF refl])
    have "distinct ?ls" using assms(5) by (simp add: distinct_map)
    from length_filter_eq_one[OF this lastin(2)] show ?thesis by (simp add: true_literals_def f)
  qed
  then show "satisfied x model ct" using assms(1) by (simp add: satisfied_def)
qed

end
