(* ===== verification/PostsolveSums.thy ===== *)
theory PostsolveSums
  imports PostsolveSteps
begin

text \<open>
  The steps of the postsolve for linear constraints.  The activity is bounded by \<open>activity_bound\<close>, so the
  64-bit sums are exact; the values are chosen from the last free variable to the first, and the one chosen
  last brings the activity into the right-hand side.
\<close>

section \<open>Enforcement literals\<close>

lemma SetEnforcementLiteralToFalse_spec:
  assumes "SetEnforcementLiteralToFalse ls domains = Some domains'" "sane domains" "refs_in domains ls"
  shows "length domains' = length domains" "sane domains'"
    "\<exists>l \<in> set ls. dvals (domain_of domains' l) = {false_value l}"
proof -
  have "length domains' = length domains \<and> sane domains' \<and>
    (\<exists>l \<in> set ls. dvals (domain_of domains' l) = {false_value l})"
    using assms
    by (induction ls domains rule: SetEnforcementLiteralToFalse.induct)
      (auto simp: sane_set_value domain_of_set_domain split: if_splits)
  then show "length domains' = length domains" "sane domains'"
    "\<exists>l \<in> set ls. dvals (domain_of domains' l) = {false_value l}" by auto
qed

lemma settled_enforcement_false:
  assumes "SetEnforcementLiteralToFalse (ct_enforcement_literal ct) domains = Some domains'" "sane domains"
    and "refs_in domains (ct_enforcement_literal ct)"
  shows "settled model domains' ct"
proof -
  note spec = SetEnforcementLiteralToFalse_spec[OF assms]
  obtain l where l: "l \<in> set (ct_enforcement_literal ct)" "dvals (domain_of domains' l) = {false_value l}"
    using spec(3) by blast
  then show ?thesis using settled_not_enforced[OF l(1) _ l(2)] assms(3) spec(1) by simp
qed

lemma fix_true_simps:
  "fix_unassigned_enforcement_to_true [] d = d"
  "fix_unassigned_enforcement_to_true (l # ls) d = fix_unassigned_enforcement_to_true ls
     (if Domain_IsFixed (domain_of d l) then d else set_domain l (Domain_value (true_value l)) d)"
  by (simp_all add: fix_unassigned_enforcement_to_true_def)

lemma fix_true_spec:
  assumes "refs_in d ls"
  shows "length (fix_unassigned_enforcement_to_true ls d) = length d"
    "sane d \<Longrightarrow> sane (fix_unassigned_enforcement_to_true ls d)"
    "0 \<le> v \<Longrightarrow> Domain_IsFixed (elt d v) \<Longrightarrow> elt (fix_unassigned_enforcement_to_true ls d) v = elt d v"
proof -
  have "length (fix_unassigned_enforcement_to_true ls d) = length d \<and>
    (sane d \<longrightarrow> sane (fix_unassigned_enforcement_to_true ls d)) \<and>
    (0 \<le> v \<and> Domain_IsFixed (elt d v) \<longrightarrow> elt (fix_unassigned_enforcement_to_true ls d) v = elt d v)"
    using assms
  proof (induction ls arbitrary: d)
    case (Cons l ls)
    show ?case
    proof (cases "Domain_IsFixed (domain_of d l)")
      case True
      then show ?thesis using Cons by (simp add: fix_true_simps)
    next
      case False
      let ?e = "set_domain l (Domain_value (true_value l)) d"
      have f: "fix_unassigned_enforcement_to_true (l # ls) d = fix_unassigned_enforcement_to_true ls ?e"
        using False by (simp add: fix_true_simps)
      have l: "PositiveRef l < int (length d)" using Cons.prems by simp
      have "elt ?e v = elt d v" if "0 \<le> v" "Domain_IsFixed (elt d v)"
        using that False elt_set_domain[OF l that(1)] by (auto simp: domain_of_def)
      moreover have "sane d \<longrightarrow> sane ?e" using sane_set_value by simp
      moreover have "refs_in ?e ls" using Cons.prems by simp
      ultimately show ?thesis using Cons.IH[of ?e] unfolding f by auto
    qed
  qed (simp add: fix_true_simps)
  then show "length (fix_unassigned_enforcement_to_true ls d) = length d"
    "sane d \<Longrightarrow> sane (fix_unassigned_enforcement_to_true ls d)"
    "0 \<le> v \<Longrightarrow> Domain_IsFixed (elt d v) \<Longrightarrow> elt (fix_unassigned_enforcement_to_true ls d) v = elt d v" by auto
qed

section \<open>Activities\<close>

definition abs_bound :: "domain \<Rightarrow> int" where
  "abs_bound d = max \<bar>Domain_Min d\<bar> \<bar>Domain_Max d\<bar>"

definition activity_bound :: "domain list \<Rightarrow> (int32 \<times> int64) list \<Rightarrow> int" where
  "activity_bound domains ts = sum_list (map (\<lambda>(v, c). abs_bound (elt domains v) * \<bar>c\<bar>) ts)"

lemma activity_bound_simps [simp]:
  "activity_bound domains [] = 0"
  "activity_bound domains ((v, c) # ts) = abs_bound (elt domains v) * \<bar>c\<bar> + activity_bound domains ts"
  "activity_bound domains (ts @ us) = activity_bound domains ts + activity_bound domains us"
  by (simp_all add: activity_bound_def)

lemma abs_bound_nonneg [simp]: "0 \<le> abs_bound d"
  by (simp add: abs_bound_def)

lemma activity_bound_nonneg [simp]: "0 \<le> activity_bound domains ts"
  by (induction ts) (auto simp: activity_bound_def)

lemma abs_le_bound: "canon d \<Longrightarrow> y \<in> dvals d \<Longrightarrow> \<bar>y\<bar> \<le> abs_bound d"
  using Domain_Min_spec(2)[of d y] Domain_Max_spec(2)[of d y] by (cases "d = []") (auto simp: abs_bound_def)

lemma activity_bound_filter: "activity_bound domains (filter P ts) \<le> activity_bound domains ts"
proof (induction ts)
  case (Cons t ts)
  obtain v c where t: "t = (v, c)" by (cases t)
  have "0 \<le> abs_bound (elt domains v) * \<bar>c\<bar>" by simp
  then show ?case using Cons unfolding t by (simp del: abs_ge_zero abs_bound_nonneg)
qed simp

abbreviation vars_in :: "domain list \<Rightarrow> (int32 \<times> int64) list \<Rightarrow> bool" where
  "vars_in domains ts \<equiv> \<forall>(v, c) \<in> set ts. 0 \<le> v \<and> v < int (length domains)"

text \<open>The terms of the fixed variables, and those of the others.\<close>

definition is_free :: "domain list \<Rightarrow> int32 \<times> int64 \<Rightarrow> bool" where
  "is_free domains = (\<lambda>(v, c). c \<noteq> 0 \<and> \<not> Domain_IsFixed (elt domains v))"

definition fixed_sum :: "domain list \<Rightarrow> (int32 \<times> int64) list \<Rightarrow> int" where
  "fixed_sum domains ts =
     sum_list (map (\<lambda>(v, c). if c \<noteq> 0 \<and> Domain_IsFixed (elt domains v) then Domain_FixedValue (elt domains v) * c else 0) ts)"

lemma split_terms_spec:
  assumes "split_terms ts fa free domains = Some (fa', free')"
  shows "free' = free @ filter (is_free domains) ts" "vars_in domains ts" "in_int64 fa \<Longrightarrow> fa' = wrap64 (fa + fixed_sum domains ts)"
proof -
  have "free' = free @ filter (is_free domains) ts \<and> vars_in domains ts \<and> (in_int64 fa \<longrightarrow> fa' = wrap64 (fa + fixed_sum domains ts))"
    using assms
  proof (induction ts fa free domains rule: split_terms.induct)
    case (2 v c ts fa free domains)
    have r: "0 \<le> v \<and> v < int (length domains)" using "2.prems" by (auto split: if_splits)
    then have nr: "\<not> \<not> (0 \<le> v \<and> v < int (length domains))" by simp
    consider "c = 0" | "c \<noteq> 0" "Domain_IsFixed (elt domains v)" | "c \<noteq> 0" "\<not> Domain_IsFixed (elt domains v)" by blast
    then show ?case
    proof cases
      case 1
      then show ?thesis using "2.IH"(1)[OF nr 1] "2.prems" r by (simp add: is_free_def fixed_sum_def)
    next
      case 2
      let ?f = "wrap64 (fa + wrap64 (Domain_FixedValue (elt domains v) * c))"
      have "in_int64 ?f" by (rule in_int64_wrap64)
      moreover have "wrap64 (?f + s) = wrap64 (fa + Domain_FixedValue (elt domains v) * c + s)" for s
        by (simp add: wrap64_add_wrap64 wrap64_wrap64_add)
      ultimately show ?thesis using "2.IH"(2)[OF nr 2] "2.prems" r 2
        by (simp add: is_free_def fixed_sum_def add.assoc)
    next
      case 3
      then show ?thesis using "2.IH"(3)[OF nr 3] "2.prems" r by (simp add: is_free_def fixed_sum_def)
    qed
  qed (simp add: fixed_sum_def)
  then show "free' = free @ filter (is_free domains) ts" "vars_in domains ts"
    "in_int64 fa \<Longrightarrow> fa' = wrap64 (fa + fixed_sum domains ts)" by blast+
qed

lemma abs_fixed_sum_le:
  assumes "sane domains" "vars_in domains ts"
  shows "\<bar>fixed_sum domains ts\<bar> + activity_bound domains (filter (is_free domains) ts) \<le> activity_bound domains ts"
  using assms(2)
proof (induction ts)
  case (Cons t ts)
  obtain v c where t: "t = (v, c)" by (cases t)
  have v: "canon (elt domains v) \<and> elt domains v \<noteq> []" using Cons.prems sane_elt[OF assms(1)] t by simp
  have nn: "0 \<le> abs_bound (elt domains v) * \<bar>c\<bar>" by simp
  have ih: "\<bar>fixed_sum domains ts\<bar> + activity_bound domains (filter (is_free domains) ts) \<le> activity_bound domains ts"
    using Cons by simp
  show ?case
  proof (cases "c \<noteq> 0 \<and> Domain_IsFixed (elt domains v)")
    case True
    then have "dvals (elt domains v) = {Domain_FixedValue (elt domains v)}" using fixed_dvals(1) v by blast
    then have "\<bar>Domain_FixedValue (elt domains v)\<bar> \<le> abs_bound (elt domains v)" using abs_le_bound v by blast
    then have "\<bar>Domain_FixedValue (elt domains v) * c\<bar> \<le> abs_bound (elt domains v) * \<bar>c\<bar>"
      by (simp add: abs_mult mult_right_mono)
    then show ?thesis using ih True by (simp add: t fixed_sum_def is_free_def)
  next
    case False
    then show ?thesis using ih nn by (auto simp: t fixed_sum_def is_free_def)
  qed
qed (simp add: fixed_sum_def)

text \<open>When the fixed variables keep their value, the activity is the fixed part and that of the free terms.\<close>

lemma terms_sum_split:
  assumes "vars_in domains ts"
    and "\<forall>(v, c) \<in> set ts. Domain_IsFixed (elt domains v) \<longrightarrow> elt x v = Domain_FixedValue (elt domains v)"
  shows "terms_sum x ts = fixed_sum domains ts + terms_sum x (filter (is_free domains) ts)"
  using assms
proof (induction ts)
  case (Cons t ts)
  obtain v c where t: "t = (v, c)" by (cases t)
  have "ref_value x v = elt x v" using Cons.prems(1) t by (simp add: ref_value_def)
  moreover have "terms_sum x ts = fixed_sum domains ts + terms_sum x (filter (is_free domains) ts)" using Cons by simp
  ultimately show ?case using Cons.prems(2) by (cases "c = 0") (simp_all add: t fixed_sum_def is_free_def)
qed (simp add: fixed_sum_def)

section \<open>Choosing the values\<close>

lemma free_domain_spec:
  assumes "canon rhs" "canon (elt domains var)" "in_int64 c" "c \<noteq> kint64min" "in_int64 (- fa)"
  shows "canon (free_domain domains rhs (fa) var c)"
    "v \<in> dvals (free_domain domains rhs fa var c) \<Longrightarrow> v \<in> dvals (elt domains var) \<and> fa + c * v \<in> dvals rhs"
proof -
  let ?a = "Domain_AdditionWith rhs (Domain_value (- fa))"
  have cv: "canon (Domain_value (- fa))" using assms(5) by simp
  note a = Domain_AdditionWith_spec[OF assms(1) cv]
  note m = Domain_InverseMultiplicationBy_spec[OF a(2) assms(3,4)]
  note i = Domain_IntersectionWith_spec[OF m(2) assms(2)]
  have e: "free_domain domains rhs fa var c = Domain_IntersectionWith (Domain_InverseMultiplicationBy ?a c) (elt domains var)"
    using assms(5) by (simp add: free_domain_def)
  show "canon (free_domain domains rhs fa var c)" using i e by simp
  show "v \<in> dvals (elt domains var) \<and> fa + c * v \<in> dvals rhs" if "v \<in> dvals (free_domain domains rhs fa var c)"
  proof -
    have "v \<in> dvals (elt domains var)" "v * c \<in> dvals ?a" using that i m(1) by (auto simp: e)
    then obtain y where "y \<in> dvals rhs" "v * c = y + - fa" using a(1) by auto
    then show ?thesis using \<open>v \<in> dvals (elt domains var)\<close> by (simp add: algebra_simps)
  qed
qed

text \<open>The same with a sum that may have wrapped: the domain is canonical in any case.\<close>

lemma canon_free_domain:
  assumes "canon rhs" "canon (elt domains var)" "in_int64 c" "c \<noteq> kint64min"
  shows "canon (free_domain domains rhs fa var c)"
proof -
  have cv: "canon (Domain_value (wrap64 (- fa)))" by (simp add: in_int64_wrap64)
  note a = Domain_AdditionWith_spec[OF assms(1) cv]
  note m = Domain_InverseMultiplicationBy_spec[OF a(2) assms(3,4)]
  show ?thesis unfolding free_domain_def using Domain_IntersectionWith_spec[OF m(2) assms(2)] by simp
qed

abbreviation coeffs_ok :: "(int32 \<times> int64) list \<Rightarrow> bool" where
  "coeffs_ok ts \<equiv> \<forall>(v, c) \<in> set ts. in_int64 c \<and> c \<noteq> kint64min"

lemma rhs_domains_from_canon:
  assumes "canon rhs" "sane domains" "vars_in domains ts" "coeffs_ok ts"
  shows "\<forall>d \<in> set (rhs_domains_from domains ts rhs). canon d"
  using assms
proof (induction domains ts rhs rule: rhs_domains_from.induct)
  case (2 domains var coeff ts rhs)
  have c: "in_int64 (- coeff)" "- coeff \<noteq> kint64min" using "2.prems"(4) by (auto simp: in_int64_def)
  have v: "canon (elt domains var)" using sane_elt[OF "2.prems"(2)] "2.prems"(3) by simp
  note m = Domain_MultiplicationBy_spec(1)[OF v c]
  note a = Domain_AdditionWith_spec(2)[OF m "2.prems"(1)]
  show ?case using "2.IH"[of] a "2.prems" c by simp
qed simp

lemma length_rhs_domains_from [simp]: "length (rhs_domains_from domains ts rhs) = Suc (length ts)"
  by (induction domains ts rhs rule: rhs_domains_from.induct) simp_all

lemma hd_rhs_domains_from: "rhs_domains_from domains ts rhs \<noteq> [] \<and> hd (rhs_domains_from domains ts rhs) = rhs"
  by (cases "(domains, ts, rhs)" rule: rhs_domains_from.cases) auto

text \<open>Each value is in the domain of its variable; the sum after the last choice is in the last right-hand side.\<close>

lemma assign_loop_spec:
  assumes "assign_loop domains fa l = Some vs" "sane domains" "vars_in domains (map fst l)" "coeffs_ok (map fst l)"
    and "\<forall>(t, d) \<in> set l. canon d"
  shows "map fst vs = map (fst \<circ> fst) l" "\<forall>(v, y) \<in> set vs. y \<in> dvals (elt domains v)"
    "l \<noteq> [] \<Longrightarrow> \<bar>fa\<bar> + activity_bound domains (map fst l) \<le> kint64max \<Longrightarrow>
       fa + sum_list (map2 (\<lambda>(v, y) ((w, c), d). c * y) vs l) \<in> dvals (snd (last l))"
proof -
  have "map fst vs = map (fst \<circ> fst) l \<and> (\<forall>(v, y) \<in> set vs. y \<in> dvals (elt domains v)) \<and>
    (l \<noteq> [] \<and> \<bar>fa\<bar> + activity_bound domains (map fst l) \<le> kint64max \<longrightarrow>
       fa + sum_list (map2 (\<lambda>(v, y) ((w, c), d). c * y) vs l) \<in> dvals (snd (last l)))"
    using assms
  proof (induction domains fa l arbitrary: vs rule: assign_loop.induct)
    case (2 domains fa var c rhs r vs)
    let ?D = "free_domain domains rhs fa var c"
    let ?v = "Domain_SmallestValue ?D"
    have v: "canon (elt domains var)" using sane_elt[OF "2.prems"(2)] "2.prems"(3) by simp
    have c: "in_int64 c" "c \<noteq> kint64min" and rhs: "canon rhs" using "2.prems"(4,5) by simp_all
    have ne: "\<not> Domain_IsEmpty ?D" using "2.prems"(1) by (auto simp: Let_def)
    then obtain ws where ws: "assign_loop domains (wrap64 (fa + wrap64 (c * ?v))) r = Some ws" "vs = (var, ?v) # ws"
      using "2.prems"(1) by (auto simp: Let_def split: Option.bind_splits)
    note cD = canon_free_domain[OF rhs v c, of fa]
    have mem: "?v \<in> dvals ?D" using Domain_SmallestValue_mem[OF cD] ne by (simp add: Domain_IsEmpty_def)
    have "dvals ?D \<subseteq> dvals (elt domains var)"
    proof -
      have cv: "canon (Domain_value (wrap64 (- fa)))" by (simp add: in_int64_wrap64)
      note a = Domain_AdditionWith_spec[OF rhs cv]
      note m = Domain_InverseMultiplicationBy_spec[OF a(2) c]
      show ?thesis unfolding free_domain_def using Domain_IntersectionWith_spec[OF m(2) v] by simp
    qed
    then have mv: "?v \<in> dvals (elt domains var)" using mem by blast
    have pr: "vars_in domains (map fst r)" "coeffs_ok (map fst r)" "\<forall>(t, d) \<in> set r. canon d"
      using "2.prems"(3-5) by simp_all
    note ih = "2.IH"[OF refl ne refl ws(1) "2.prems"(2) pr]
    have "fa + sum_list (map2 (\<lambda>(v, y) ((w, c), d). c * y) vs (((var, c), rhs) # r)) \<in> dvals (snd (last (((var, c), rhs) # r)))"
      if b: "\<bar>fa\<bar> + activity_bound domains (map fst (((var, c), rhs) # r)) \<le> kint64max"
    proof -
      have le: "\<bar>c * ?v\<bar> \<le> abs_bound (elt domains var) * \<bar>c\<bar>"
        using abs_le_bound[OF v mv] by (simp add: abs_mult mult.commute mult_left_mono)
      have nb: "0 \<le> activity_bound domains (map fst r)" by simp
      have i: "in_int64 (c * ?v)" "in_int64 (fa + c * ?v)" "in_int64 (- fa)"
        using b le nb by (auto simp: in_int64_def simp del: activity_bound_nonneg)
      show ?thesis
      proof (cases "r = []")
        case True
        then have "fa + c * ?v \<in> dvals rhs" using free_domain_spec(2)[OF rhs v c i(3) mem] by simp
        then show ?thesis using True ws by simp
      next
        case False
        have "\<bar>fa + c * ?v\<bar> + activity_bound domains (map fst r) \<le> kint64max" using b le by simp
        then show ?thesis using ih False i ws(2) by (simp add: add.assoc)
      qed
    qed
    then show ?case using ih mv ws(2) by simp
  qed simp
  then show "map fst vs = map (fst \<circ> fst) l" "\<forall>(v, y) \<in> set vs. y \<in> dvals (elt domains v)"
    "l \<noteq> [] \<Longrightarrow> \<bar>fa\<bar> + activity_bound domains (map fst l) \<le> kint64max \<Longrightarrow>
       fa + sum_list (map2 (\<lambda>(v, y) ((w, c), d). c * y) vs l) \<in> dvals (snd (last l))" by blast+
qed

section \<open>The whole step\<close>

definition assign_values :: "domain list \<Rightarrow> (int32 \<times> int64) list \<Rightarrow> domain list" where
  "assign_values domains vs = foldl (\<lambda>d (var, v). set_domain var (Domain_value v) d) domains vs"

lemma assign_values_simps [simp]:
  "assign_values domains [] = domains"
  "assign_values domains ((v, y) # vs) = assign_values (set_domain v (Domain_value y) domains) vs"
  by (simp_all add: assign_values_def)

lemma assign_values_spec:
  assumes "vars_in domains vs" "distinct (map fst vs)"
  shows "length (assign_values domains vs) = length domains"
    "0 \<le> w \<Longrightarrow> w \<notin> fst ` set vs \<Longrightarrow> elt (assign_values domains vs) w = elt domains w"
    "(v, y) \<in> set vs \<Longrightarrow> elt (assign_values domains vs) v = Domain_value y"
proof -
  have "length (assign_values domains vs) = length domains \<and>
    (0 \<le> w \<and> w \<notin> fst ` set vs \<longrightarrow> elt (assign_values domains vs) w = elt domains w) \<and>
    ((v, y) \<in> set vs \<longrightarrow> elt (assign_values domains vs) v = Domain_value y)" for w v y
    using assms
  proof (induction vs arbitrary: domains w v y)
    case (Cons t vs)
    obtain a b where t: "t = (a, b)" by (cases t)
    have a: "PositiveRef a = a" using Cons.prems(1) t by (simp add: PositiveRef_cases RefIsPositive_def)
    have al: "PositiveRef a < int (length domains)" using Cons.prems(1) t a by simp
    let ?e = "set_domain a (Domain_value b) domains"
    have e: "elt ?e u = (if u = a then Domain_value b else elt domains u)" if "0 \<le> u" for u
      using elt_set_domain[OF al that] a by simp
    have ih: "length (assign_values ?e vs) = length ?e \<and>
      (0 \<le> w \<and> w \<notin> fst ` set vs \<longrightarrow> elt (assign_values ?e vs) w = elt ?e w) \<and>
      ((v, y) \<in> set vs \<longrightarrow> elt (assign_values ?e vs) v = Domain_value y)" for w v y
      by (rule Cons.IH) (use Cons.prems t in auto)
    have "elt (assign_values ?e vs) a = Domain_value b"
      using ih[of a] e[of a] Cons.prems t by auto
    then show ?case using ih[of w v y] e[of w] t by auto
  qed simp
  then show "length (assign_values domains vs) = length domains"
    "0 \<le> w \<Longrightarrow> w \<notin> fst ` set vs \<Longrightarrow> elt (assign_values domains vs) w = elt domains w"
    "(v, y) \<in> set vs \<Longrightarrow> elt (assign_values domains vs) v = Domain_value y" by blast+
qed

lemma sane_assign_values:
  "sane domains \<Longrightarrow> \<forall>(v, y) \<in> set vs. in_int64 y \<Longrightarrow> sane (assign_values domains vs)"
  by (induction vs arbitrary: domains) (auto simp: sane_set_value)

text \<open>What the code needs of the message: lengths that agree and coefficients that have an opposite.\<close>

definition linear_typed :: "LinearConstraintProto \<Rightarrow> bool" where
  "linear_typed a \<longleftrightarrow> length (lc_coeffs a) = length (lc_vars a) \<and>
     list_all (\<lambda>c. in_int64 c \<and> c \<noteq> kint64min) (lc_coeffs a) \<and> list_all in_int64 (lc_domain a)"

lemma map2_pairs_sum:
  assumes "map fst vs = map fst ts" "\<forall>(v, y) \<in> set vs. ref_value x v = y"
  shows "terms_sum x ts = sum_list (map2 (\<lambda>(v, y) (w, c). c * y) vs ts)"
  using assms by (induction vs arbitrary: ts) (auto simp: Cons_eq_map_conv mult.commute)

lemma map2_fst_right: "map2 (\<lambda>a (b, d). f a b) xs ys = map2 f xs (map fst ys)"
  by (induction xs arbitrary: ys) (auto simp: zip_Cons1 split: list.splits)

lemma terms_sum_rev: "terms_sum x (rev ts) = terms_sum x ts"
  by (induction ts) auto

lemma activity_bound_rev: "activity_bound d (rev ts) = activity_bound d ts"
  by (induction ts) (auto simp: activity_bound_def)

abbreviation lterms :: "LinearConstraintProto \<Rightarrow> (int32 \<times> int64) list" where
  "lterms a \<equiv> zip (lc_vars a) (lc_coeffs a)"

lemma settled_by_values:
  assumes "ct_constraint ct = kLinear a" "sane domains" "length domains' = length domains" "vars_in domains (lterms a)"
    and "\<forall>(v, c) \<in> set (lterms a). Domain_IsFixed (elt domains v) \<longrightarrow> elt domains' v = elt domains v"
    and "map fst vs = map fst (filter (is_free domains) (lterms a))"
    and "\<forall>(v, y) \<in> set vs. elt domains' v = Domain_value y"
    and "DomainInProtoContains (lc_domain a)
      (fixed_sum domains (lterms a) + sum_list (map2 (\<lambda>(v, y) (w, c). c * y) vs (filter (is_free domains) (lterms a))))"
  shows "settled model domains' ct"
  unfolding settled_def
proof (intro allI impI)
  fix x assume x: "fits x domains'"
  have val: "elt x v \<in> dvals (elt domains' v)" if "(v, c) \<in> set (lterms a)" for v c
    using fits_elt[OF x] assms(3,4) that by auto
  have "elt x v = Domain_FixedValue (elt domains v)" if t: "(v, c) \<in> set (lterms a)" "Domain_IsFixed (elt domains v)" for v c
  proof -
    have "canon (elt domains v) \<and> elt domains v \<noteq> []" using sane_elt[OF assms(2)] assms(4) t(1) by auto
    then have "dvals (elt domains v) = {Domain_FixedValue (elt domains v)}" using fixed_dvals(1) t(2) by blast
    moreover have "elt domains' v = elt domains v" using assms(5) t by auto
    ultimately show ?thesis using val[OF t(1)] by simp
  qed
  then have s: "terms_sum x (lterms a) = fixed_sum domains (lterms a) + terms_sum x (filter (is_free domains) (lterms a))"
    by (intro terms_sum_split[OF assms(4)]) auto
  have "ref_value x v = y" if t: "(v, y) \<in> set vs" for v y
  proof -
    have "v \<in> fst ` set vs" using t by force
    then have "v \<in> fst ` set (filter (is_free domains) (lterms a))" using assms(6) by (metis list.set_map)
    then obtain c where c: "(v, c) \<in> set (lterms a)" by auto
    then have "elt x v = y" using val[OF c] assms(7) t by auto
    then show ?thesis using assms(4) c by (auto simp: ref_value_def)
  qed
  then have "terms_sum x (filter (is_free domains) (lterms a)) =
      sum_list (map2 (\<lambda>(v, y) (w, c). c * y) vs (filter (is_free domains) (lterms a)))"
    by (intro map2_pairs_sum[OF assms(6)]) auto
  then show "satisfied x model ct" using assms(1,8) s by (simp add: satisfied_def linear_activity_def)
qed

lemma in_int64_dvals: "canon d \<Longrightarrow> v \<in> dvals d \<Longrightarrow> in_int64 v"
  by (rule canon_in_int64)

lemma distinct_free: "distinct (lc_vars a) \<Longrightarrow> distinct (map fst (filter P (lterms a)))"
proof -
  assume "distinct (lc_vars a)"
  then have "distinct (map fst (lterms a))" by (simp add: map_fst_zip_take)
  then show ?thesis by (auto simp: distinct_map intro: inj_on_subset)
qed

lemma linear_rhs:
  assumes "linear_typed a"
  shows "dvals (ReadDomainFromProto (lc_domain a)) = {v. DomainInProtoContains (lc_domain a) v}"
    "canon (ReadDomainFromProto (lc_domain a))"
  using ReadDomainFromProto_spec[of "lc_domain a"] assms by (simp_all add: linear_typed_def list_all_iff)

abbreviation free_terms :: "domain list \<Rightarrow> LinearConstraintProto \<Rightarrow> (int32 \<times> int64) list" where
  "free_terms domains a \<equiv> filter (is_free domains) (lterms a)"

lemma linear_free:
  assumes "linear_typed a" "vars_in domains (lterms a)"
  shows "vars_in domains (free_terms domains a)" "coeffs_ok (free_terms domains a)"
  using assms by (auto simp: linear_typed_def list_all_iff dest: set_zip_rightD)

lemma linear_exact:
  assumes "sane domains" "vars_in domains (lterms a)" "activity_bound domains (lterms a) \<le> kint64max"
  defines "S \<equiv> fixed_sum domains (lterms a)"
  shows "wrap64 S = S" "in_int64 (- S)" "\<bar>S\<bar> + activity_bound domains (free_terms domains a) \<le> kint64max"
proof -
  have b: "\<bar>S\<bar> + activity_bound domains (free_terms domains a) \<le> kint64max"
    using abs_fixed_sum_le[OF assms(1,2)] assms(3) unfolding S_def by linarith
  then have "\<bar>S\<bar> \<le> kint64max" using activity_bound_nonneg[of domains "free_terms domains a"] by linarith
  then have "in_int64 S" "in_int64 (- S)" by (auto simp: in_int64_def)
  then show "wrap64 S = S" "in_int64 (- S)" by simp_all
  show "\<bar>S\<bar> + activity_bound domains (free_terms domains a) \<le> kint64max" by (rule b)
qed

lemma linear_one:
  assumes "ct_constraint ct = kLinear a" "sane domains" "linear_typed a" "refs_in domains enfs"
    and "vars_in domains (lterms a)" "free_terms domains a = [(v, c)]"
  defines "D \<equiv> free_domain domains (ReadDomainFromProto (lc_domain a)) (wrap64 (fixed_sum domains (lterms a))) v c"
  defines "domains' \<equiv> set_domain v (Domain_value (Domain_SmallestValue D)) (fix_unassigned_enforcement_to_true enfs domains)"
  assumes "\<not> Domain_IsEmpty D"
  shows "length domains' = length domains" "sane domains'"
    "activity_bound domains (lterms a) \<le> kint64max \<Longrightarrow> settled model domains' ct"
proof -
  let ?y = "Domain_SmallestValue D"
  let ?F = "fix_unassigned_enforcement_to_true enfs domains"
  note fx = fix_true_spec[OF assms(4)]
  have c: "in_int64 c" "c \<noteq> kint64min" and r: "0 \<le> v" "v < int (length domains)"
    using linear_free[OF assms(3,5)] assms(6) by simp_all
  have v: "canon (elt domains v)" "PositiveRef v = v"
    using sane_elt[OF assms(2)] r by (simp_all add: PositiveRef_cases RefIsPositive_def)
  have cD: "canon D" unfolding D_def by (rule canon_free_domain[OF linear_rhs(2)[OF assms(3)] v(1) c])
  have y: "?y \<in> dvals D" using Domain_SmallestValue_mem[OF cD] assms(9) by (simp add: Domain_IsEmpty_def)
  have e: "elt domains' w = (if w = v then Domain_value ?y else elt ?F w)" if "0 \<le> w" for w
    using elt_set_domain[of v ?F w] that v(2) r(2) fx(1) by (simp add: domains'_def)
  have nf: "\<not> Domain_IsFixed (elt domains v)"
    using assms(6) by (metis (no_types, lifting) filter_eq_ConsD is_free_def case_prodD)
  show len: "length domains' = length domains" using fx(1) by (simp add: domains'_def)
  show "sane domains'"
    unfolding domains'_def using sane_set_value[OF fx(2)[OF assms(2)]] canon_in_int64[OF cD y] by simp
  show "settled model domains' ct" if b: "activity_bound domains (lterms a) \<le> kint64max"
  proof (rule settled_by_values[OF assms(1,2) len assms(5), of "[(v, ?y)]"])
    note ex = linear_exact[OF assms(2,5) b]
    have "fixed_sum domains (lterms a) + c * ?y \<in> dvals (ReadDomainFromProto (lc_domain a))"
      using free_domain_spec(2)[OF linear_rhs(2)[OF assms(3)] v(1) c ex(2)] y unfolding D_def ex(1) by blast
    then show "DomainInProtoContains (lc_domain a)
        (fixed_sum domains (lterms a) + sum_list (map2 (\<lambda>(v, y) (w, c). c * y) [(v, ?y)] (free_terms domains a)))"
      using assms(6) linear_rhs(1)[OF assms(3)] by simp
    show "\<forall>(w, c) \<in> set (lterms a). Domain_IsFixed (elt domains w) \<longrightarrow> elt domains' w = elt domains w"
      using fx(3) assms(5) e nf by auto
    show "map fst [(v, ?y)] = map fst (free_terms domains a)" using assms(6) by simp
    show "\<forall>(w, y) \<in> set [(v, ?y)]. elt domains' w = Domain_value y" using e[OF r(1)] by simp
  qed
qed

text \<open>The choices of several free variables, read in the order of the variables.\<close>

lemma assign_free_spec:
  assumes "sane domains" "linear_typed a" "vars_in domains (lterms a)" "free_terms domains a \<noteq> []"
  defines "rhss \<equiv> rhs_domains_from domains (butlast (free_terms domains a)) (ReadDomainFromProto (lc_domain a))"
  assumes "assign_loop domains fa (rev (zip (free_terms domains a) rhss)) = Some vs"
  shows "map fst (rev vs) = map fst (free_terms domains a)" "\<forall>(v, y) \<in> set (rev vs). in_int64 y"
    "\<bar>fa\<bar> + activity_bound domains (free_terms domains a) \<le> kint64max \<Longrightarrow>
      DomainInProtoContains (lc_domain a)
        (fa + sum_list (map2 (\<lambda>(v, y) (w, c). c * y) (rev vs) (free_terms domains a)))"
proof -
  define free where "free = free_terms domains a"
  define l where "l = rev (zip free rhss)"
  note ff = linear_free[OF assms(2,3), folded free_def]
  have ne: "free \<noteq> []" using assms(4) by (simp add: free_def)
  then have lr: "length rhss = length free" by (simp add: rhss_def free_def)
  have fl: "map fst l = rev free" using lr by (simp add: l_def rev_map[symmetric])
  have lne: "l \<noteq> []" using ne lr by (auto simp: l_def)
  have cb: "vars_in domains (butlast free)" "coeffs_ok (butlast free)" using ff by (auto dest!: in_set_butlastD)
  have "\<forall>d \<in> set rhss. canon d"
    unfolding rhss_def free_def[symmetric] by (rule rhs_domains_from_canon[OF linear_rhs(2)[OF assms(2)] assms(1) cb])
  then have lc: "\<forall>(t, d) \<in> set l. canon d" by (auto simp: l_def dest: set_zip_rightD)
  have lin: "vars_in domains (map fst l)" "coeffs_ok (map fst l)" using ff by (simp_all add: fl)
  note A = assign_loop_spec[OF assms(6)[folded free_def l_def] assms(1) lin lc]
  show fv: "map fst (rev vs) = map fst (free_terms domains a)"
    using A(1) fl unfolding free_def by (metis map_map rev_map rev_rev_ident)
  have "in_int64 y" if p: "(v, y) \<in> set vs" for v y
  proof -
    have "v \<in> set (map (fst \<circ> fst) l)" using p A(1) by (metis fst_conv image_eqI list.set_map)
    then have "0 \<le> v \<and> v < int (length domains)" using lin(1) by (auto split: prod.splits)
    then have "canon (elt domains v)" using sane_elt[OF assms(1)] by blast
    then show ?thesis using A(2) p canon_in_int64 by blast
  qed
  then show "\<forall>(v, y) \<in> set (rev vs). in_int64 y" by auto
  assume b: "\<bar>fa\<bar> + activity_bound domains (free_terms domains a) \<le> kint64max"
  obtain t0 f1 where f: "free = t0 # f1" using ne by (cases free) auto
  obtain r0 r1 where r: "rhss = r0 # r1" using lr f by (cases rhss) auto
  have "snd (last l) = ReadDomainFromProto (lc_domain a)"
    using hd_rhs_domains_from[of domains "butlast free" "ReadDomainFromProto (lc_domain a)"] r
    unfolding rhss_def free_def[symmetric] by (simp add: l_def f r last_rev)
  then have "fa + sum_list (map2 (\<lambda>(v, y) ((w, c), d). c * y) vs l) \<in> dvals (ReadDomainFromProto (lc_domain a))"
    using A(3)[OF lne] b by (simp add: fl activity_bound_rev free_def)
  moreover have "map2 (\<lambda>(v, y) ((w, c), d). c * y) vs l = rev (map2 (\<lambda>(v, y) (w, c). c * y) (rev vs) free)"
  proof -
    have "length vs = length free" using fv unfolding free_def by (metis length_map length_rev)
    then show ?thesis using map2_fst_right[of "\<lambda>(v, y) (w, c). c * y" vs l]
      by (simp add: case_prod_unfold fl rev_map zip_rev[symmetric])
  qed
  ultimately show "DomainInProtoContains (lc_domain a)
      (fa + sum_list (map2 (\<lambda>(v, y) (w, c). c * y) (rev vs) (free_terms domains a)))"
    using linear_rhs(1)[OF assms(2)] by (simp add: free_def)
qed

lemma linear_many:
  assumes "ct_constraint ct = kLinear a" "sane domains" "linear_typed a" "refs_in domains enfs"
    and "vars_in domains (lterms a)" "free_terms domains a \<noteq> []"
    and "assign_loop domains (wrap64 (fixed_sum domains (lterms a))) (rev (zip (free_terms domains a)
      (rhs_domains_from domains (butlast (free_terms domains a)) (ReadDomainFromProto (lc_domain a))))) = Some vs"
  defines "domains' \<equiv> fix_unassigned_enforcement_to_true enfs (assign_values domains (rev vs))"
  shows "length domains' = length domains" "sane domains'"
    "distinct (lc_vars a) \<Longrightarrow> activity_bound domains (lterms a) \<le> kint64max \<Longrightarrow> settled model domains' ct"
proof -
  let ?A = "assign_values domains (rev vs)"
  note A = assign_free_spec[OF assms(2,3,5,6,7)]
  have lenA: "length (assign_values domains ws) = length domains" for ws
    by (induction ws arbitrary: domains) auto
  have enfA: "refs_in ?A enfs" using assms(4) by (simp add: lenA)
  note fx = fix_true_spec[OF enfA]
  show len: "length domains' = length domains" using fx(1) lenA by (simp add: domains'_def)
  show "sane domains'" using fx(2)[OF sane_assign_values[OF assms(2) A(2)]] by (simp add: domains'_def)
  show "settled model domains' ct" if dist: "distinct (lc_vars a)" and b: "activity_bound domains (lterms a) \<le> kint64max"
  proof (rule settled_by_values[OF assms(1,2) len assms(5) _ A(1)])
    note ex = linear_exact[OF assms(2,5) b]
    have "v \<in> fst ` set (free_terms domains a)" if "(v, y) \<in> set (rev vs)" for v y
      using that A(1) by (metis fst_conv image_eqI list.set_map)
    then have vr: "vars_in domains (rev vs)" using linear_free(1)[OF assms(3,5)] by fastforce
    have dv: "distinct (map fst (rev vs))" using distinct_free[OF dist] A(1) by simp
    note V = assign_values_spec[OF vr dv]
    show "\<forall>(v, y) \<in> set (rev vs). elt domains' v = Domain_value y"
      using V(3) vr fx(3) by (fastforce simp: domains'_def)
    have "elt domains' w = elt domains w" if p: "(w, c) \<in> set (lterms a)" "Domain_IsFixed (elt domains w)" for w c
    proof -
      have w: "0 \<le> w" using assms(5) p by auto
      have "w \<notin> fst ` set (free_terms domains a)" using p(2) by (auto simp: is_free_def)
      then have "w \<notin> fst ` set (rev vs)" using A(1) by (metis list.set_map)
      then have "elt ?A w = elt domains w" using V(2)[OF w] by blast
      then show ?thesis using fx(3)[OF w] p(2) by (simp add: domains'_def)
    qed
    then show "\<forall>(w, c) \<in> set (lterms a). Domain_IsFixed (elt domains w) \<longrightarrow> elt domains' w = elt domains w" by blast
    show "DomainInProtoContains (lc_domain a)
        (fixed_sum domains (lterms a) + sum_list (map2 (\<lambda>(v, y) (w, c). c * y) (rev vs) (free_terms domains a)))"
      using A(3)[unfolded ex(1)] ex(3) by blast
  qed
qed

lemma PostsolveLinear_spec:
  assumes "PostsolveLinear ct a domains = Some domains'" "ct_constraint ct = kLinear a" "sane domains"
    and "linear_typed a" "refs_in domains (ct_enforcement_literal ct)"
  shows "length domains' = length domains" "sane domains'"
    "distinct (lc_vars a) \<Longrightarrow> activity_bound domains (lterms a) \<le> kint64max \<Longrightarrow> settled model domains' ct"
proof -
  define enfs where "enfs = ct_enforcement_literal ct"
  obtain fa f0 where sp: "split_terms (lterms a) 0 [] domains = Some (fa, f0)"
    using assms(1) unfolding PostsolveLinear_def by (auto split: option.splits)
  note spec = split_terms_spec[OF sp, simplified]
  note code = assms(1)[unfolded PostsolveLinear_def sp option.case prod.case spec(1) Let_def enfs_def[symmetric]]
  have enf: "refs_in domains enfs" using assms(5) by (simp add: enfs_def)
  note fx = fix_true_spec[OF enf]
  note off = settled_enforcement_false[of ct domains domains', folded enfs_def, OF _ assms(3) enf]
  note off_spec = SetEnforcementLiteralToFalse_spec[of enfs domains domains', OF _ assms(3) enf]
  have "length domains' = length domains \<and> sane domains' \<and>
    (distinct (lc_vars a) \<and> activity_bound domains (lterms a) \<le> kint64max \<longrightarrow> settled model domains' ct)"
  proof (cases "SetEnforcementLiteralToFalse enfs domains = Some domains'")
    case True
    then show ?thesis using off[OF True] off_spec[OF True] by simp
  next
    case no: False
    consider "free_terms domains a = []" | v c where "free_terms domains a = [(v, c)]"
      | t u r where "free_terms domains a = t # u # r" by (metis list.exhaust surj_pair)
    then show ?thesis
    proof cases
      case 1
      then have d': "domains' = fix_unassigned_enforcement_to_true enfs domains"
        and ct: "Domain_Contains (ReadDomainFromProto (lc_domain a)) fa" using code no by (simp_all split: if_splits)
      have "settled model domains' ct" if b: "activity_bound domains (lterms a) \<le> kint64max"
        unfolding d'
      proof (rule settled_by_values[OF assms(2,3) fx(1) spec(2), of "[]"])
        show "DomainInProtoContains (lc_domain a)
            (fixed_sum domains (lterms a) + sum_list (map2 (\<lambda>(v, y) (w, c). c * y) [] (free_terms domains a)))"
          using ct spec(3) linear_exact(1)[OF assms(3) spec(2) b] linear_rhs[OF assms(4)] by (simp add: Domain_Contains_iff)
        show "map fst [] = map fst (free_terms domains a)" using 1 by simp
        show "\<forall>(v, c) \<in> set (lterms a). Domain_IsFixed (elt domains v) \<longrightarrow>
            elt (fix_unassigned_enforcement_to_true enfs domains) v = elt domains v" using fx(3) spec(2) by auto
      qed simp
      then show ?thesis using fx(1) fx(2)[OF assms(3)] d' by simp
    next
      case (2 v c)
      have d': "\<not> Domain_IsEmpty (free_domain domains (ReadDomainFromProto (lc_domain a)) fa v c)"
        "domains' = set_domain v (Domain_value (Domain_SmallestValue
           (free_domain domains (ReadDomainFromProto (lc_domain a)) fa v c))) (fix_unassigned_enforcement_to_true enfs domains)"
        using code no unfolding 2 by (simp_all split: if_splits)
      show ?thesis using linear_one[OF assms(2,3,4) enf spec(2) 2] d' unfolding spec(3) by simp
    next
      case (3 t u r)
      then have ne: "free_terms domains a \<noteq> []" by simp
      obtain vs where "assign_loop domains fa (rev (zip (free_terms domains a) (rhs_domains_from domains
             (butlast (free_terms domains a)) (ReadDomainFromProto (lc_domain a))))) = Some vs"
          "domains' = fix_unassigned_enforcement_to_true enfs (assign_values domains (rev vs))"
        using code unfolding 3 list.case assign_values_def[symmetric]
        by (auto simp del: rev.simps zip_Cons_Cons butlast.simps rhs_domains_from.simps split: Option.bind_splits)
      then show ?thesis using linear_many[OF assms(2,3,4) enf spec(2) ne] unfolding spec(3) by simp
    qed
  qed
  then show "length domains' = length domains" "sane domains'"
    "distinct (lc_vars a) \<Longrightarrow> activity_bound domains (lterms a) \<le> kint64max \<Longrightarrow> settled model domains' ct" by blast+
qed

end
