(* ===== verification/PostsolveTargets.thy ===== *)
theory PostsolveTargets
  imports PostsolveSums
begin

text \<open>
  The steps of the postsolve for the constraints that define a target: maximum, product, modulo and element.
  Their inputs are fixed, so the code computes the value of every assignment that fits, and the affine target is
  solved for its variable.
\<close>

section \<open>Expressions of fixed variables\<close>

text \<open>The variables are fixed and none is \<open>t\<close>; the sum stays well inside the range.\<close>

definition expr_bound :: "LinearExpressionProto \<Rightarrow> domain list \<Rightarrow> int" where
  "expr_bound e domains = \<bar>le_offset e\<bar> +
     sum_list (map (\<lambda>(ref, c). \<bar>Domain_Min (domain_of domains ref) * c\<bar>) (zip (le_vars e) (le_coeffs e)))"

definition expr_ready :: "domain list \<Rightarrow> int32 \<Rightarrow> LinearExpressionProto \<Rightarrow> bool" where
  "expr_ready domains t e \<longleftrightarrow>
     list_all (\<lambda>ref. Domain_IsFixed (domain_of domains ref) \<and> PositiveRef ref \<noteq> t) (le_vars e) \<and>
     expr_bound e domains \<le> 2 ^ 62"

text \<open>An assignment whose values are the least ones of the domains, for some references.\<close>

abbreviation takes_min :: "int list \<Rightarrow> domain list \<Rightarrow> int32 list \<Rightarrow> bool" where
  "takes_min x domains refs \<equiv> \<forall>ref \<in> set refs. elt x (PositiveRef ref) = Domain_Min (domain_of domains ref)"

lemma ref_value_min:
  "elt x (PositiveRef ref) = Domain_Min (domain_of domains ref) \<Longrightarrow>
    ref_value x ref = (if RefIsPositive ref then Domain_Min (domain_of domains ref) else - Domain_Min (domain_of domains ref))"
  by (auto simp: ref_value_def PositiveRef_cases RefIsPositive_def NegatedRef_def split: if_splits)

definition add_term :: "domain list \<Rightarrow> int64 \<Rightarrow> int32 \<times> int64 \<Rightarrow> int64" where
  "add_term domains s = (\<lambda>(ref, coeff).
     let increment = wrap64 (Domain_Min (domain_of domains ref) * coeff)
     in wrap64 (s + (if RefIsPositive ref then increment else wrap64 (- increment))))"

lemma wrap64_minus_wrap64: "wrap64 (- wrap64 y) = wrap64 (- y)"
  using wrap64_mult_wrap64[of "- 1" y] by simp

lemma add_term_min:
  assumes "elt x (PositiveRef ref) = Domain_Min (domain_of domains ref)"
  shows "add_term domains s (ref, c) = wrap64 (s + ref_value x ref * c)"
  using ref_value_min[OF assms]
  by (simp add: add_term_def Let_def wrap64_minus_wrap64 wrap64_add_wrap64)

lemma foldl_add_term:
  assumes "takes_min x domains (map fst ts)"
  shows "wrap64 (foldl (add_term domains) s ts) = wrap64 (s + terms_sum x ts)"
  using assms
proof (induction ts arbitrary: s)
  case (Cons t ts)
  obtain ref c where t: "t = (ref, c)" by (cases t)
  have "wrap64 (foldl (add_term domains) s (t # ts)) = wrap64 (add_term domains s t + terms_sum x ts)"
    using Cons by simp
  also have "\<dots> = wrap64 (s + ref_value x ref * c + terms_sum x ts)"
    using add_term_min[of x ref domains s c] Cons.prems by (simp add: t wrap64_wrap64_add)
  finally show ?case by (simp add: t add.assoc)
qed simp

lemma foldl_add_term_range: "in_int64 s \<Longrightarrow> in_int64 (foldl (add_term domains) s ts)"
  by (rule foldl_invariant) (auto simp: add_term_def Let_def in_int64_wrap64)

lemma terms_sum_bound:
  assumes "takes_min x domains (map fst ts)"
  shows "\<bar>terms_sum x ts\<bar> \<le> sum_list (map (\<lambda>(ref, c). \<bar>Domain_Min (domain_of domains ref) * c\<bar>) ts)"
  using assms
proof (induction ts)
  case (Cons t ts)
  obtain ref c where t: "t = (ref, c)" by (cases t)
  have "\<bar>ref_value x ref * c\<bar> = \<bar>Domain_Min (domain_of domains ref) * c\<bar>"
    using ref_value_min[of x ref domains] Cons.prems by (simp add: t abs_mult)
  then show ?case using Cons by (simp add: t)
qed simp

lemma EvaluateLinearExpression_eq:
  assumes "takes_min x domains (le_vars e)" "expr_bound e domains \<le> 2 ^ 62"
  shows "EvaluateLinearExpression e domains = expr_value x e" "\<bar>expr_value x e\<bar> \<le> 2 ^ 62"
proof -
  let ?ts = "zip (le_vars e) (le_coeffs e)"
  have tm: "takes_min x domains (map fst ?ts)" using assms(1) by (auto dest: set_zip_leftD)
  have s: "\<bar>terms_sum x ?ts\<bar> + \<bar>le_offset e\<bar> \<le> 2 ^ 62" using terms_sum_bound[OF tm] assms(2) by (simp add: expr_bound_def)
  then show "\<bar>expr_value x e\<bar> \<le> 2 ^ 62" by (simp add: expr_value_def)
  have "in_int64 (le_offset e)" "in_int64 (expr_value x e)" using s by (auto simp: in_int64_def expr_value_def)
  moreover have "EvaluateLinearExpression e domains = foldl (add_term domains) (le_offset e) ?ts"
    unfolding EvaluateLinearExpression_def add_term_def ..
  ultimately show "EvaluateLinearExpression e domains = expr_value x e"
    using foldl_add_term[OF tm, of "le_offset e"] foldl_add_term_range[of "le_offset e" domains ?ts]
    by (simp add: expr_value_def)
qed

text \<open>Such an expression keeps its value when only \<open>t\<close> is written.\<close>

definition same_but :: "int32 \<Rightarrow> domain list \<Rightarrow> domain list \<Rightarrow> bool" where
  "same_but t domains domains' \<longleftrightarrow>
     length domains' = length domains \<and> (\<forall>v. 0 \<le> v \<and> v \<noteq> t \<longrightarrow> elt domains' v = elt domains v)"

lemma same_but_refl [simp]: "same_but t domains domains"
  by (simp add: same_but_def)

lemma same_but_set_domain:
  "0 \<le> t \<Longrightarrow> t < int (length domains) \<Longrightarrow> same_but t domains (set_domain t d domains)"
  using elt_set_domain[of t domains] by (simp add: same_but_def PositiveRef_cases RefIsPositive_def)

lemma expr_ready_value:
  assumes "sane domains" "same_but t domains domains'" "fits x domains'" "refs_in domains (le_vars e)" "expr_ready domains t e"
  shows "EvaluateLinearExpression e domains = expr_value x e" "\<bar>expr_value x e\<bar> \<le> 2 ^ 62"
proof -
  have "elt x (PositiveRef ref) = Domain_Min (domain_of domains ref)" if r: "ref \<in> set (le_vars e)" for ref
  proof -
    have f: "Domain_IsFixed (domain_of domains ref)" "PositiveRef ref \<noteq> t"
      using assms(5) r by (simp_all add: expr_ready_def list_all_iff)
    have "dvals (domain_of domains ref) = {Domain_Min (domain_of domains ref)}"
      using fixed_dvals(2)[OF _ _ f(1)] sane_domain_of[OF assms(1)] assms(4) r by blast
    moreover have "domain_of domains' ref = domain_of domains ref" using assms(2) f(2) by (simp add: same_but_def domain_of_def)
    moreover have "elt x (PositiveRef ref) \<in> dvals (domain_of domains' ref)"
      using fits_elt[OF assms(3), of "PositiveRef ref"] assms(2,4) r by (simp add: domain_of_def same_but_def)
    ultimately show ?thesis by simp
  qed
  then have m: "takes_min x domains (le_vars e)" by blast
  have b: "expr_bound e domains \<le> 2 ^ 62" using assms(5) by (simp add: expr_ready_def)
  show "EvaluateLinearExpression e domains = expr_value x e" "\<bar>expr_value x e\<bar> \<le> 2 ^ 62"
    by (rule EvaluateLinearExpression_eq[OF m b])+
qed

lemma in_int64_small: "\<bar>v\<bar> \<le> 2 ^ 62 \<Longrightarrow> in_int64 v"
  by (auto simp: in_int64_def)

section \<open>Affine targets\<close>

lemma abs_sdiv: "\<bar>a sdiv c\<bar> = \<bar>a\<bar> div \<bar>c\<bar>" for a c :: int
proof -
  have n: "0 \<le> \<bar>a\<bar> div \<bar>c\<bar>" by (cases "c = 0") (simp_all add: pos_imp_zdiv_nonneg_iff)
  have "\<bar>a sdiv c\<bar> = \<bar>sgn a\<bar> * \<bar>sgn c\<bar> * (\<bar>a\<bar> div \<bar>c\<bar>)"
    unfolding signed_divide_int_def abs_mult using abs_of_nonneg[OF n] by simp
  then show ?thesis by (cases "a = 0"; cases "c = 0") simp_all
qed

lemma abs_sdiv_le: "\<bar>a sdiv c\<bar> \<le> \<bar>a\<bar>" for a c :: int
  unfolding abs_sdiv using zdiv_mono2[of "\<bar>a\<bar>" 1 "\<bar>c\<bar>"] by (cases "c = 0") simp_all

lemma in_int64_sdiv_any:
  assumes "in_int64 a" "\<not> division_traps a c"
  shows "in_int64 (a sdiv c)"
proof (cases "a = kint64min")
  case True
  have c: "c \<noteq> 0" "c \<noteq> - 1" using assms(2) True by (auto simp: division_traps_def)
  show ?thesis
  proof (cases "c = 1")
    case False
    then have "2 \<le> \<bar>c\<bar>" using c by linarith
    then have "\<bar>a\<bar> div \<bar>c\<bar> \<le> \<bar>a\<bar> div 2" by (intro zdiv_mono2) auto
    then have "\<bar>a sdiv c\<bar> \<le> 2 ^ 62" unfolding abs_sdiv using True by simp
    then show ?thesis by (auto simp: in_int64_def)
  qed (simp add: True signed_divide_int_def)
next
  case False
  then have "\<bar>a\<bar> \<le> kint64max" using assms(1) by (auto simp: in_int64_def)
  then show ?thesis using abs_sdiv_le[of a c] by (auto simp: in_int64_def)
qed

lemma solve_target_spec:
  assumes "solve_target e v = Some w"
  shows "in_int64 w"
    "le_vars e = [t] \<Longrightarrow> length (le_coeffs e) = 1 \<Longrightarrow> RefIsPositive t \<Longrightarrow> in_int64 (v - le_offset e) \<Longrightarrow>
      elt x t = w \<Longrightarrow> expr_value x e = v"
proof -
  let ?n = "wrap64 (v - le_offset e)" and ?c = "hd (le_coeffs e)"
  have w: "\<not> division_traps ?n ?c" "?n smod ?c = 0" "w = ?n sdiv ?c"
    using assms by (auto simp: solve_target_def Let_def split: if_splits)
  show "in_int64 w" unfolding w(3) by (rule in_int64_sdiv_any[OF in_int64_wrap64 w(1)])
  assume e: "le_vars e = [t]" "length (le_coeffs e) = 1" "RefIsPositive t" "in_int64 (v - le_offset e)" "elt x t = w"
  obtain c where c: "le_coeffs e = [c]" using e(2) by (cases "le_coeffs e") auto
  have "w * c = v - le_offset e" using sdiv_mult_smod_eq[of ?n ?c] w e(4) c by simp
  then show "expr_value x e = v" using e c by (simp add: expr_value_def ref_value_def RefIsPositive_def)
qed

text \<open>What the target has to be, for the value to be representable.\<close>

definition target_ready :: "LinearExpressionProto \<Rightarrow> bool" where
  "target_ready e \<longleftrightarrow> length (le_coeffs e) = 1 \<and> \<bar>le_offset e\<bar> < 2 ^ 62"

abbreviation target_of :: "LinearArgumentProto \<Rightarrow> LinearExpressionProto" where
  "target_of a \<equiv> expr_or_default (la_target a)"

definition argument_ready :: "domain list \<Rightarrow> LinearArgumentProto \<Rightarrow> bool" where
  "argument_ready domains a \<longleftrightarrow> la_exprs a \<noteq> [] \<and> target_ready (target_of a) \<and>
     list_all (expr_ready domains (hd (le_vars (target_of a)))) (la_exprs a)"

text \<open>The shape the three steps share: a value is computed, the target is solved and its variable written.\<close>

lemma target_step:
  assumes "solve_target (target_of a) v = Some w" "length (le_vars (target_of a)) = 1"
    and "RefIsPositive (hd (le_vars (target_of a)))" "sane domains" "refs_in domains (linear_argument_vars a)"
  defines "domains' \<equiv> set_domain (hd (le_vars (target_of a))) (Domain_value w) domains"
  shows "length domains' = length domains" "sane domains'"
    "fits x domains' \<Longrightarrow> argument_ready domains a \<Longrightarrow> \<bar>v\<bar> \<le> 2 ^ 62 \<Longrightarrow> opt_value x (la_target a) = v"
    "fits x domains' \<Longrightarrow> argument_ready domains a \<Longrightarrow>
      \<forall>e \<in> set (la_exprs a). EvaluateLinearExpression e domains = expr_value x e \<and> \<bar>expr_value x e\<bar> \<le> 2 ^ 62"
proof -
  obtain t where t: "le_vars (target_of a) = [t]" using assms(2) by (cases "le_vars (target_of a)") auto
  have tp: "0 \<le> t" "PositiveRef t = t" "t < int (length domains)"
    using assms(3,5) t by (auto simp: RefIsPositive_def PositiveRef_cases linear_argument_vars_def)
  note sol = solve_target_spec[OF assms(1)]
  show "length domains' = length domains" "sane domains'" using sane_set_value[OF assms(4) sol(1)] by (simp_all add: domains'_def)
  assume x: "fits x domains'" and r: "argument_ready domains a"
  have d': "domains' = set_domain t (Domain_value w) domains" by (simp add: domains'_def t)
  show "opt_value x (la_target a) = v" if v: "\<bar>v\<bar> \<le> 2 ^ 62"
  proof -
    have "elt x t = w" using fits_elt[OF x tp(1)] elt_set_domain[of t domains t "Domain_value w"] tp by (simp add: d')
    moreover have "in_int64 (v - le_offset (target_of a))" using r v by (auto simp: argument_ready_def target_ready_def in_int64_def)
    ultimately show ?thesis using sol(2)[OF t] r tp(1) by (simp add: argument_ready_def target_ready_def RefIsPositive_def)
  qed
  have sb: "same_but t domains domains'" unfolding d' by (rule same_but_set_domain[OF tp(1,3)])
  have "EvaluateLinearExpression e domains = expr_value x e \<and> \<bar>expr_value x e\<bar> \<le> 2 ^ 62" if e: "e \<in> set (la_exprs a)" for e
  proof -
    have i: "refs_in domains (le_vars e)" using assms(5) e by (auto simp: linear_argument_vars_def exprs_vars_def)
    have "expr_ready domains t e" using r e t by (simp add: argument_ready_def list_all_iff)
    from expr_ready_value[OF assms(4) sb x i this] show ?thesis by blast
  qed
  then show "\<forall>e \<in> set (la_exprs a). EvaluateLinearExpression e domains = expr_value x e \<and> \<bar>expr_value x e\<bar> \<le> 2 ^ 62" by blast
qed

section \<open>Maximum, product and modulo\<close>

lemma foldl_max_Max:
  assumes "es \<noteq> []" "\<forall>e \<in> set es. kint64min \<le> f e"
  shows "foldl (\<lambda>m e. max m (f e)) kint64min es = Max (f ` set es)"
proof -
  have "foldl (\<lambda>m e. max m (f e)) s es = Max (insert s (f ` set es))" for s
  proof (induction es arbitrary: s)
    case (Cons e es)
    then show ?case by (cases "es = []") (simp_all add: max.assoc)
  qed simp
  then have "foldl (\<lambda>m e. max m (f e)) kint64min es = max kint64min (Max (f ` set es))" using assms(1) by simp
  also have "\<dots> = Max (f ` set es)"
    using assms by (intro max_absorb2) (auto simp: Max_ge_iff neq_Nil_conv)
  finally show ?thesis .
qed

lemma PostsolveLinMax_spec:
  assumes "PostsolveLinMax a domains = Some domains'" "sane domains" "refs_in domains (linear_argument_vars a)"
  shows "length domains' = length domains" "sane domains'"
    "ct_constraint ct = kLinMax a \<Longrightarrow> argument_ready domains a \<Longrightarrow> settled model domains' ct"
proof -
  define m where "m = foldl (\<lambda>m expr. max m (EvaluateLinearExpression expr domains)) kint64min (la_exprs a)"
  obtain w where w: "solve_target (target_of a) m = Some w" "length (le_vars (target_of a)) = 1"
    "RefIsPositive (hd (le_vars (target_of a)))"
    "domains' = set_domain (hd (le_vars (target_of a))) (Domain_value w) domains"
    using assms(1) by (auto simp: PostsolveLinMax_def Let_def m_def split: if_splits Option.bind_splits)
  note st = target_step[OF w(1-3) assms(2,3), folded w(4)]
  show "length domains' = length domains" "sane domains'" by (rule st)+
  assume ct: "ct_constraint ct = kLinMax a" and r: "argument_ready domains a"
  have ne: "la_exprs a \<noteq> []" using r by (simp add: argument_ready_def)
  show "settled model domains' ct" unfolding settled_def
  proof (intro allI impI)
    fix x assume x: "fits x domains'"
    note ev = st(4)[OF x r]
    have im: "(\<lambda>e. EvaluateLinearExpression e domains) ` set (la_exprs a) = expr_value x ` set (la_exprs a)"
      using ev by (intro image_cong) auto
    have m: "m = Max (expr_value x ` set (la_exprs a))"
      unfolding m_def im[symmetric] by (rule foldl_max_Max[OF ne]) (use ev in \<open>force simp: abs_le_iff\<close>)
    have "m \<in> expr_value x ` set (la_exprs a)" unfolding m using ne by (intro Max_in) auto
    then have "\<bar>m\<bar> \<le> 2 ^ 62" using ev by auto
    from st(3)[OF x r this] show "satisfied x model ct" using ct ne m by (simp add: satisfied_def)
  qed
qed

lemma wrap64_foldl_prod:
  "wrap64 (foldl (\<lambda>p e. wrap64 (p * f e)) s es) = wrap64 (s * prod_list (map f es))"
proof (induction es arbitrary: s)
  case (Cons e es)
  have "wrap64 (wrap64 (s * f e) * prod_list (map f es)) = wrap64 (s * f e * prod_list (map f es))"
    using wrap64_mult_wrap64[of "prod_list (map f es)" "s * f e"] by (simp add: mult.commute)
  then show ?case using Cons by (simp add: mult.assoc)
qed simp

lemma foldl_prod_exact:
  assumes "\<bar>prod_list (map f es)\<bar> \<le> 2 ^ 62"
  shows "foldl (\<lambda>p e. wrap64 (p * f e)) 1 es = prod_list (map f es)"
proof -
  have "in_int64 (foldl (\<lambda>p e. wrap64 (p * f e)) 1 es)"
    by (rule foldl_invariant) (auto simp: in_int64_wrap64)
  then show ?thesis using wrap64_foldl_prod[of f 1 es] in_int64_small[OF assms] by simp
qed

definition product_ready :: "domain list \<Rightarrow> LinearArgumentProto \<Rightarrow> bool" where
  "product_ready domains a \<longleftrightarrow>
     \<bar>prod_list (map (\<lambda>e. EvaluateLinearExpression e domains) (la_exprs a))\<bar> \<le> 2 ^ 62"

lemma PostsolveIntProd_spec:
  assumes "PostsolveIntProd a domains = Some domains'" "sane domains" "refs_in domains (linear_argument_vars a)"
  shows "length domains' = length domains" "sane domains'"
    "ct_constraint ct = kIntProd a \<Longrightarrow> argument_ready domains a \<Longrightarrow> product_ready domains a \<Longrightarrow> settled model domains' ct"
proof -
  define p where "p = foldl (\<lambda>p expr. wrap64 (p * EvaluateLinearExpression expr domains)) 1 (la_exprs a)"
  obtain w where w: "solve_target (target_of a) p = Some w" "length (le_vars (target_of a)) = 1"
    "RefIsPositive (hd (le_vars (target_of a)))"
    "domains' = set_domain (hd (le_vars (target_of a))) (Domain_value w) domains"
    using assms(1) by (auto simp: PostsolveIntProd_def Let_def p_def split: if_splits Option.bind_splits)
  note st = target_step[OF w(1-3) assms(2,3), folded w(4)]
  show "length domains' = length domains" "sane domains'" by (rule st)+
  assume ct: "ct_constraint ct = kIntProd a" and r: "argument_ready domains a" and pr: "product_ready domains a"
  show "settled model domains' ct" unfolding settled_def
  proof (intro allI impI)
    fix x assume x: "fits x domains'"
    have m: "map (\<lambda>e. EvaluateLinearExpression e domains) (la_exprs a) = map (expr_value x) (la_exprs a)"
      using st(4)[OF x r] by (intro map_cong[OF refl]) blast
    have "p = prod_list (map (expr_value x) (la_exprs a))" "\<bar>p\<bar> \<le> 2 ^ 62"
      using foldl_prod_exact pr unfolding p_def product_ready_def m[symmetric] by fastforce+
    with st(3)[OF x r] show "satisfied x model ct" using ct by (simp add: satisfied_def)
  qed
qed

lemma abs_smod_le: "\<bar>a smod b\<bar> \<le> \<bar>a\<bar>" for a b :: int
proof -
  have "0 \<le> \<bar>a\<bar> mod \<bar>b\<bar>" by (cases "b = 0") simp_all
  moreover have "\<bar>a\<bar> mod \<bar>b\<bar> \<le> \<bar>a\<bar>" by (rule zmod_le_nonneg_dividend) simp
  ultimately have "\<bar>a smod b\<bar> \<le> \<bar>sgn a\<bar> * \<bar>a\<bar>"
    unfolding signed_modulo_int_def abs_mult by (simp add: mult_left_mono)
  then show ?thesis by (cases "a = 0") simp_all
qed

lemma PostsolveIntMod_spec:
  assumes "PostsolveIntMod a domains = Some domains'" "sane domains" "refs_in domains (linear_argument_vars a)"
  shows "length domains' = length domains" "sane domains'"
    "ct_constraint ct = kIntMod a \<Longrightarrow> argument_ready domains a \<Longrightarrow> 2 \<le> length (la_exprs a) \<Longrightarrow> settled model domains' ct"
proof -
  define r where "r = EvaluateLinearExpression (la_exprs a ! 0) domains smod EvaluateLinearExpression (la_exprs a ! 1) domains"
  obtain w where w: "solve_target (target_of a) r = Some w" "length (le_vars (target_of a)) = 1"
    "RefIsPositive (hd (le_vars (target_of a)))"
    "domains' = set_domain (hd (le_vars (target_of a))) (Domain_value w) domains"
    using assms(1) by (auto simp: PostsolveIntMod_def Let_def r_def split: if_splits Option.bind_splits)
  note st = target_step[OF w(1-3) assms(2,3), folded w(4)]
  show "length domains' = length domains" "sane domains'" by (rule st)+
  assume ct: "ct_constraint ct = kIntMod a" and ar: "argument_ready domains a" and two: "2 \<le> length (la_exprs a)"
  have mem: "la_exprs a ! 0 \<in> set (la_exprs a)" "la_exprs a ! 1 \<in> set (la_exprs a)" using two by (auto intro!: nth_mem)
  show "settled model domains' ct" unfolding settled_def
  proof (intro allI impI)
    fix x assume x: "fits x domains'"
    note ev = bspec[OF st(4)[OF x ar] mem(1)] bspec[OF st(4)[OF x ar] mem(2)]
    have r: "r = expr_value x (la_exprs a ! 0) smod expr_value x (la_exprs a ! 1)" using ev by (simp add: r_def)
    have "\<bar>r\<bar> \<le> 2 ^ 62" unfolding r using order_trans[OF abs_smod_le] ev(1) by blast
    from st(3)[OF x ar this] show "satisfied x model ct" using ct r by (simp add: satisfied_def)
  qed
qed

end
