(* ===== verification/PostsolveRun.thy ===== *)
theory PostsolveRun
  imports PostsolveTargets
begin

text \<open>
  The step of the postsolve for element constraints, the constraints that are ignored or that only restrict a
  domain, and the whole loop over the mapping model.
\<close>

section \<open>Element constraints\<close>

abbreviation index_of :: "ElementConstraintProto \<Rightarrow> LinearExpressionProto" where
  "index_of a \<equiv> expr_or_default (el_linear_index a)"

abbreviation el_target_of :: "ElementConstraintProto \<Rightarrow> LinearExpressionProto" where
  "el_target_of a \<equiv> expr_or_default (el_linear_target a)"

text \<open>The index is fixed, to an \<open>int\<close>: the target is constant and already right, or it is affine and divisible.\<close>

definition element_fixed_ready :: "domain list \<Rightarrow> ElementConstraintProto \<Rightarrow> bool" where
  "element_fixed_ready domains a \<longleftrightarrow>
     in_int32 (EvaluateLinearExpression (index_of a) domains) \<and>
     (let e = elt (el_exprs a) (EvaluateLinearExpression (index_of a) domains);
          y = EvaluateLinearExpression e domains; target = el_target_of a
      in case le_vars target of
           [] \<Rightarrow> expr_ready domains (- 1) (index_of a) \<and> expr_ready domains (- 1) e \<and> y = le_offset target
         | [t] \<Rightarrow> expr_ready domains t (index_of a) \<and> expr_ready domains t e \<and> target_ready target \<and>
             (y - le_offset target) smod hd (le_coeffs target) = 0
         | _ \<Rightarrow> False)"

text \<open>The index is free: it is affine in one variable, each of whose values selects an expression, and everything
  else is fixed.\<close>

definition element_free_ready :: "domain list \<Rightarrow> ElementConstraintProto \<Rightarrow> bool" where
  "element_free_ready domains a \<longleftrightarrow>
     (case (le_vars (index_of a), le_coeffs (index_of a)) of
        ([v], [c]) \<Rightarrow> RefIsPositive v \<and>
          list_all (\<lambda>y. in_int32 (le_offset (index_of a) + y * c)) (Domain_Values (elt domains v)) \<and>
          \<bar>le_offset (index_of a)\<bar> + abs_bound (elt domains v) * \<bar>c\<bar> \<le> 2 ^ 62 \<and>
          expr_ready domains v (el_target_of a) \<and> list_all (expr_ready domains v) (el_exprs a)
      | _ \<Rightarrow> False)"

definition element_ready :: "domain list \<Rightarrow> ElementConstraintProto \<Rightarrow> bool" where
  "element_ready domains a \<longleftrightarrow>
     \<not> element_is_legacy a \<and> element_is_linear a \<and> int (length (el_exprs a)) \<le> kint32max \<and>
     (if LinearExpressionIsFixed (index_of a) domains then element_fixed_ready domains a
      else element_free_ready domains a)"

lemma in_int64_GetInnerVarValue [simp]: "in_int64 (GetInnerVarValue e v)"
  by (simp add: GetInnerVarValue_def in_int64_wrap64)

lemma element_meaning:
  assumes "\<not> element_is_legacy a" "0 \<le> i" "i < int (length (el_exprs a))" "opt_value x (el_linear_index a) = i"
    and "expr_value x (elt (el_exprs a) i) = opt_value x (el_linear_target a)"
  shows "meaning x model (kElement a)"
  using assms by (simp add: element_is_legacy_def select_def elt_def nat_less_iff)

abbreviation element_refs :: "ElementConstraintProto \<Rightarrow> int32 list" where
  "element_refs a \<equiv> le_vars (index_of a) @ le_vars (el_target_of a) @ exprs_vars (el_exprs a)"

lemma element_refs_in:
  assumes "refs_in domains (element_refs a)"
  shows "refs_in domains (le_vars (index_of a))" "refs_in domains (le_vars (el_target_of a))"
    "e \<in> set (el_exprs a) \<Longrightarrow> refs_in domains (le_vars e)"
  using assms by (auto simp: exprs_vars_def)

lemma element_at_spec:
  "element_at a i = Some e \<Longrightarrow> in_int32 i \<Longrightarrow> 0 \<le> i \<and> i < int (length (el_exprs a)) \<and> e = elt (el_exprs a) i \<and> e \<in> set (el_exprs a)"
  by (auto simp: element_at_def elt_def nat_less_iff Let_def split: if_splits)

lemma settled_element_fixed:
  assumes "element_at a (EvaluateLinearExpression (index_of a) domains) = Some e"
    and "domains' = (case le_vars (el_target_of a) of [] \<Rightarrow> domains
      | t # _ \<Rightarrow> set_domain t (Domain_value (GetInnerVarValue (el_target_of a) (EvaluateLinearExpression e domains))) domains)"
    and "list_all RefIsPositive (take 1 (le_vars (el_target_of a)))"
    and "sane domains" "refs_in domains (element_refs a)" "\<not> element_is_legacy a" "element_fixed_ready domains a"
    and "fits x domains'"
    and "\<forall>t \<in> set (take 1 (le_vars (el_target_of a))).
      \<not> division_traps (wrap64 (EvaluateLinearExpression e domains - le_offset (el_target_of a))) (hd (le_coeffs (el_target_of a)))"
  shows "meaning x model (kElement a)"
proof -
  let ?i = "EvaluateLinearExpression (index_of a) domains" and ?y = "EvaluateLinearExpression e domains"
  have "in_int32 ?i" using assms(7) by (simp add: element_fixed_ready_def)
  note at = element_at_spec[OF assms(1) this]
  have i: "0 \<le> ?i" "?i < int (length (el_exprs a))" and e: "e = elt (el_exprs a) ?i" and eset: "e \<in> set (el_exprs a)"
    using at by blast+
  note refs = element_refs_in[OF assms(5)]
  have concl: "meaning x model (kElement a)"
    if sb: "same_but t domains domains'" and er: "expr_ready domains t (index_of a)" "expr_ready domains t e"
      and tv: "\<bar>?y\<bar> \<le> 2 ^ 62 \<Longrightarrow> opt_value x (el_linear_target a) = ?y" for t
  proof (rule element_meaning[OF assms(6) i])
    note ev = expr_ready_value[OF assms(4) sb assms(8) refs(1) er(1)] expr_ready_value[OF assms(4) sb assms(8) refs(3)[OF eset] er(2)]
    show "opt_value x (el_linear_index a) = ?i" using ev(1) by simp
    have "opt_value x (el_linear_target a) = ?y" using tv ev(3,4) by simp
    then show "expr_value x (elt (el_exprs a) ?i) = opt_value x (el_linear_target a)" using ev(3) e by simp
  qed
  show ?thesis
  proof (cases "le_vars (el_target_of a)")
    case Nil
    then have "same_but (- 1) domains domains'" using assms(2) by simp
    then show ?thesis using assms(7) Nil e
      by (intro concl[of "- 1"]) (auto simp: element_fixed_ready_def Let_def expr_value_def)
  next
    case (Cons t r)
    then have r: "r = []" and er: "expr_ready domains t (index_of a)" "expr_ready domains t e"
      and tr: "target_ready (el_target_of a)" "(?y - le_offset (el_target_of a)) smod hd (le_coeffs (el_target_of a)) = 0"
      using assms(7) e by (auto simp: element_fixed_ready_def Let_def split: list.splits)
    have t: "0 \<le> t" "t < int (length domains)" "PositiveRef t = t"
      using assms(3) refs(2) Cons by (auto simp: RefIsPositive_def PositiveRef_cases)
    let ?w = "GetInnerVarValue (el_target_of a) ?y"
    have d': "domains' = set_domain t (Domain_value ?w) domains" using assms(2) Cons by simp
    have nt: "\<not> division_traps (wrap64 (?y - le_offset (el_target_of a))) (hd (le_coeffs (el_target_of a)))"
      using assms(9) Cons by simp
    have "elt x t = ?w" using fits_elt[OF assms(8) t(1)] elt_set_domain[of t domains t "Domain_value ?w"] t by (simp add: d')
    moreover have "solve_target (el_target_of a) ?y = Some ?w" if "in_int64 (?y - le_offset (el_target_of a))"
      using nt that tr(2) in_int64_sdiv_any[OF that]
      by (simp add: solve_target_def Let_def GetInnerVarValue_def)
    ultimately have "opt_value x (el_linear_target a) = ?y" if y: "\<bar>?y\<bar> \<le> 2 ^ 62"
    proof -
      have "in_int64 (?y - le_offset (el_target_of a))" using y tr(1) by (auto simp: target_ready_def in_int64_def)
      then show ?thesis
        using solve_target_spec(2)[of "el_target_of a" ?y ?w t x] \<open>elt x t = ?w\<close>
          \<open>in_int64 (?y - le_offset (el_target_of a)) \<Longrightarrow> solve_target (el_target_of a) ?y = Some ?w\<close> Cons r tr(1) t(1)
        by (simp add: target_ready_def RefIsPositive_def)
    qed
    then show ?thesis by (rule concl[OF same_but_set_domain[OF t(1,2), of "Domain_value ?w", folded d'] er])
  qed
qed

lemma select_index_spec:
  assumes "select_index a domains wanted vs = Some i"
  shows "\<exists>v \<in> set vs. \<exists>e. i = wrap64 (le_offset (index_of a) + wrap64 (v * hd (le_coeffs (index_of a)))) \<and>
    element_at a i = Some e \<and> EvaluateLinearExpression e domains = wanted"
  using assms
proof (induction vs)
  case (Cons v vs)
  let ?i = "wrap64 (le_offset (index_of a) + wrap64 (v * hd (le_coeffs (index_of a))))"
  obtain e where e: "element_at a ?i = Some e" using Cons.prems by (auto simp: Let_def split: Option.bind_splits)
  show ?case
  proof (cases "EvaluateLinearExpression e domains = wanted")
    case True
    then show ?thesis using Cons.prems e by (auto simp: Let_def)
  next
    case False
    then show ?thesis using Cons e by (auto simp: Let_def)
  qed
qed simp

lemma settled_element_free:
  assumes "select_index a domains (EvaluateLinearExpression (el_target_of a) domains)
      (Domain_Values (elt domains (hd (le_vars (index_of a))))) = Some i"
    and "\<not> division_traps (wrap64 (wrap32 i - le_offset (index_of a))) (hd (le_coeffs (index_of a)))"
  defines "domains' \<equiv> set_domain (hd (le_vars (index_of a)))
      (Domain_value (GetInnerVarValue (index_of a) (wrap32 i))) domains"
  assumes "sane domains" "refs_in domains (element_refs a)" "\<not> element_is_legacy a" "int (length (el_exprs a)) \<le> kint32max"
    and "element_free_ready domains a" "fits x domains'"
  shows "meaning x model (kElement a)"
proof -
  obtain v c where vc: "le_vars (index_of a) = [v]" "le_coeffs (index_of a) = [c]"
    and narrow: "\<forall>y \<in> dvals (elt domains v). in_int32 (le_offset (index_of a) + y * c)"
    and r: "RefIsPositive v" "\<bar>le_offset (index_of a)\<bar> + abs_bound (elt domains v) * \<bar>c\<bar> \<le> 2 ^ 62"
      "expr_ready domains v (el_target_of a)" "list_all (expr_ready domains v) (el_exprs a)"
    using assms(8) by (auto simp: element_free_ready_def list_all_iff set_Domain_Values split: list.splits)
  note refs = element_refs_in[OF assms(5)]
  have v: "0 \<le> v" "v < int (length domains)" "PositiveRef v = v"
    using r(1) refs(1) vc by (auto simp: RefIsPositive_def PositiveRef_cases)
  have cv: "canon (elt domains v)" using sane_elt[OF assms(4) v(1,2)] by blast
  obtain y e where y: "y \<in> dvals (elt domains v)" "i = wrap64 (le_offset (index_of a) + wrap64 (y * c))"
    and e: "element_at a i = Some e" "EvaluateLinearExpression e domains = EvaluateLinearExpression (el_target_of a) domains"
    using select_index_spec[OF assms(1)] vc by (auto simp: set_Domain_Values)
  have "\<bar>y * c\<bar> \<le> abs_bound (elt domains v) * \<bar>c\<bar>" using abs_le_bound[OF cv y(1)] by (simp add: abs_mult mult_right_mono)
  then have s: "\<bar>le_offset (index_of a)\<bar> + \<bar>y * c\<bar> \<le> 2 ^ 62" using r(2) by linarith
  then have ty: "in_int64 (y * c)" "in_int64 (le_offset (index_of a) + y * c)" by (auto simp: in_int64_def)
  then have i: "i = le_offset (index_of a) + y * c" using y(2) by simp
  note at = element_at_spec[OF e(1)[unfolded i] narrow[rule_format, OF y(1)], folded i]
  have w: "wrap32 i = i" using at assms(7) by (intro wrap32_id) (simp add: in_int32_def)
  have "c \<noteq> 0" using assms(2) vc by (simp add: division_traps_def)
  then have "y * c sdiv c = y" using sdiv_mult_smod_eq[of "y * c" c]
    by (simp add: signed_modulo_int_def abs_mult)
  then have inner: "GetInnerVarValue (index_of a) (wrap32 i) = y"
    unfolding w using ty(1) canon_in_int64[OF cv y(1)] by (simp add: GetInnerVarValue_def i vc)
  have d': "domains' = set_domain v (Domain_value y) domains" by (simp add: domains'_def inner vc)
  have sb: "same_but v domains domains'" unfolding d' by (rule same_but_set_domain[OF v(1,2)])
  have xv: "elt x v = y" using fits_elt[OF assms(9) v(1)] elt_set_domain[of v domains v "Domain_value y"] v by (simp add: d')
  show ?thesis
  proof (rule element_meaning[OF assms(6)])
    show "0 \<le> i" "i < int (length (el_exprs a))" using at by blast+
    show "opt_value x (el_linear_index a) = i" using xv v(1) by (simp add: expr_value_def vc ref_value_def i)
    have es: "e \<in> set (el_exprs a)" and ei: "elt (el_exprs a) i = e" using at by blast+
    then have er: "expr_ready domains v e" using r(4) unfolding list_all_iff by blast
    have le: "refs_in domains (le_vars e)" by (rule refs(3)[OF es])
    have "expr_value x e = opt_value x (el_linear_target a)"
      using expr_ready_value(1)[OF assms(4) sb assms(9) le er] e(2)
        expr_ready_value(1)[OF assms(4) sb assms(9) refs(2) r(3)] by metis
    then show "expr_value x (elt (el_exprs a) i) = opt_value x (el_linear_target a)" unfolding ei .
  qed
qed

lemma PostsolveElement_spec:
  assumes "PostsolveElement a domains = Some domains'" "sane domains"
  shows "length domains' = length domains" "sane domains'"
    "ct_constraint ct = kElement a \<Longrightarrow> element_ready domains a \<Longrightarrow> refs_in domains (element_refs a) \<Longrightarrow> settled model domains' ct"
proof -
  have "length domains' = length domains \<and> sane domains' \<and>
    (ct_constraint ct = kElement a \<and> element_ready domains a \<and> refs_in domains (element_refs a) \<longrightarrow> settled model domains' ct)"
  proof (cases "LinearExpressionIsFixed (index_of a) domains")
    case True
    then obtain e where e: "element_at a (EvaluateLinearExpression (index_of a) domains) = Some e"
      using assms(1) by (auto simp: PostsolveElement_def Let_def split: Option.bind_splits)
    have d': "domains' = (case le_vars (el_target_of a) of [] \<Rightarrow> domains
      | t # _ \<Rightarrow> set_domain t (Domain_value (GetInnerVarValue (el_target_of a) (EvaluateLinearExpression e domains))) domains)"
      and p: "list_all RefIsPositive (take 1 (le_vars (el_target_of a)))"
      and nt: "\<forall>t \<in> set (take 1 (le_vars (el_target_of a))).
        \<not> division_traps (wrap64 (EvaluateLinearExpression e domains - le_offset (el_target_of a))) (hd (le_coeffs (el_target_of a)))"
      using assms(1) True e
      by (cases "le_vars (el_target_of a)"; auto simp: PostsolveElement_def Let_def split: if_splits)+
    have "meaning x model (kElement a)"
      if "element_ready domains a" "refs_in domains (element_refs a)" "fits x domains'" for x
      using settled_element_fixed[OF e d' p assms(2) that(2) _ _ that(3) nt] that(1) True by (simp add: element_ready_def)
    then show ?thesis using assms(2) d'
      by (auto simp: settled_def satisfied_def sane_set_value split: list.splits)
  next
    case False
    then obtain i where i: "select_index a domains (EvaluateLinearExpression (el_target_of a) domains)
        (Domain_Values (elt domains (hd (le_vars (index_of a))))) = Some i"
      "\<not> division_traps (wrap64 (wrap32 i - le_offset (index_of a))) (hd (le_coeffs (index_of a)))"
      "domains' = set_domain (hd (le_vars (index_of a))) (Domain_value (GetInnerVarValue (index_of a) (wrap32 i))) domains"
      using assms(1) by (auto simp: PostsolveElement_def Let_def split: if_splits Option.bind_splits)
    have "meaning x model (kElement a)"
      if "element_ready domains a" "refs_in domains (element_refs a)" "fits x domains'" for x
      using settled_element_free[OF i(1,2) assms(2) that(2)] that(1,3) False i(3) by (simp add: element_ready_def)
    then show ?thesis using assms(2) i(3) by (auto simp: settled_def satisfied_def sane_set_value)
  qed
  then show "length domains' = length domains" "sane domains'"
    "ct_constraint ct = kElement a \<Longrightarrow> element_ready domains a \<Longrightarrow> refs_in domains (element_refs a) \<Longrightarrow> settled model domains' ct" by blast+
qed

section \<open>Constraints that are ignored or restrict a domain\<close>

lemma literal_fixed_false_value:
  assumes "literal_fixed_false domains l" "sane domains" "PositiveRef l < int (length domains)"
  shows "\<exists>v. dvals (domain_of domains l) = {v} \<and> v \<noteq> true_value l"
proof -
  let ?d = "domain_of domains l"
  have f: "Domain_IsFixed ?d" "RefIsPositive l = (Domain_FixedValue ?d = 0)"
    using assms(1) by (simp_all add: literal_fixed_false_def Let_def)
  have "dvals ?d = {Domain_FixedValue ?d}" using fixed_dvals(1) sane_domain_of[OF assms(2,3)] f(1) by blast
  moreover have "Domain_FixedValue ?d \<noteq> true_value l" using f(2) by (auto simp: true_value_def)
  ultimately show ?thesis by blast
qed

lemma settled_ignored:
  assumes "list_ex (literal_fixed_false domains) (ct_enforcement_literal ct)" "sane domains"
    and "refs_in domains (ct_enforcement_literal ct)"
  shows "settled model domains ct"
proof -
  obtain l where l: "l \<in> set (ct_enforcement_literal ct)" "literal_fixed_false domains l"
    using assms(1) by (auto simp: list_ex_iff)
  then show ?thesis using literal_fixed_false_value[OF l(2) assms(2)] assms(3) settled_not_enforced[OF l(1)] by blast
qed

lemma ArbitrarilyFixVariables_spec:
  assumes "sane domains" "\<forall>v \<in> set (UsedVariables ct). v < int (length domains)"
  shows "length (ArbitrarilyFixVariables ct domains) = length domains" "sane (ArbitrarilyFixVariables ct domains)"
    "shrinks domains (ArbitrarilyFixVariables ct domains)"
proof -
  let ?I = "\<lambda>d. length d = length domains \<and> sane d \<and> shrinks domains d"
  have "?I (ArbitrarilyFixVariables ct domains)"
    unfolding ArbitrarilyFixVariables_def
  proof (rule foldl_invariant)
    fix d v assume v: "v \<in> set (UsedVariables ct)" and I: "?I d"
    have "PositiveRef v = v" using v by (auto simp: set_UsedVariables PositiveRef_def NegatedRef_def)
    then have c: "canon (domain_of d v)" "domain_of d v \<noteq> []" using sane_domain_of[of d v] I assms(2) v by simp_all
    have m: "Domain_Min (domain_of d v) \<in> dvals (domain_of d v)" by (rule Domain_Min_spec(1)[OF c])
    have "sane (set_domain v (Domain_value (Domain_Min (domain_of d v))) d)"
      using sane_set_value canon_in_int64[OF c(1) m] I by blast
    moreover have "shrinks d (set_domain v (Domain_value (Domain_Min (domain_of d v))) d)"
      using shrinks_set_domain m by simp
    ultimately show "?I (if Domain_IsFixed (domain_of d v) then d
        else set_domain v (Domain_value (Domain_Min (domain_of d v))) d)"
      using I shrinks_trans by auto
  qed (simp add: assms(1))
  then show "length (ArbitrarilyFixVariables ct domains) = length domains" "sane (ArbitrarilyFixVariables ct domains)"
    "shrinks domains (ArbitrarilyFixVariables ct domains)" by blast+
qed

lemma enforced_linear1_cases:
  assumes "enforced_linear1 ct = Some a"
  obtains v where "ct_constraint ct = kLinear a" "lc_vars a = [v]" "ct_enforcement_literal ct \<noteq> []"
  using assms by (cases "ct_constraint ct") (auto simp: enforced_linear1_def length_Suc_conv split: if_splits)

lemma restrict_linear1_spec:
  assumes "enforced_linear1 ct = Some a" "linear_typed a" "list_all (\<lambda>v. 0 \<le> v \<and> v < int (length domains)) (lc_vars a)"
    and "sane domains"
  shows "length (restrict_linear1 a domains) = length domains"
    "[] \<notin> set (restrict_linear1 a domains) \<Longrightarrow> sane (restrict_linear1 a domains)"
    "settled model (restrict_linear1 a domains) ct" "shrinks domains (restrict_linear1 a domains)"
proof -
  obtain v where ct: "ct_constraint ct = kLinear a" "lc_vars a = [v]" using assms(1) by (rule enforced_linear1_cases)
  obtain c where c: "lc_coeffs a = [c]" using assms(2) ct(2) by (cases "lc_coeffs a") (auto simp: linear_typed_def)
  have v: "0 \<le> v" "v < int (length domains)" "PositiveRef v = v"
    using assms(3) ct(2) by (auto simp: PositiveRef_cases RefIsPositive_def)
  have cc: "in_int64 c" "c \<noteq> kint64min" using assms(2) c by (simp_all add: linear_typed_def)
  have cv: "canon (elt domains v)" using sane_elt[OF assms(4) v(1,2)] by blast
  define d where "d = Domain_IntersectionWith (elt domains v) (Domain_InverseMultiplicationBy (ReadDomainFromProto (lc_domain a)) c)"
  have r: "restrict_linear1 a domains = set_domain v d domains" by (simp add: restrict_linear1_def Let_def ct(2) c d_def)
  note m = Domain_InverseMultiplicationBy_spec[OF linear_rhs(2)[OF assms(2)] cc]
  note i = Domain_IntersectionWith_spec[OF cv m(2), folded d_def]
  show len: "length (restrict_linear1 a domains) = length domains" by (simp add: r)
  show "sane (restrict_linear1 a domains)" if "[] \<notin> set (restrict_linear1 a domains)"
  proof -
    have "d \<in> set (restrict_linear1 a domains)" unfolding r set_domain_def using v by (intro set_update_memI) linarith
    then show ?thesis using that i sane_set_domain[OF assms(4)] unfolding r by blast
  qed
  show "shrinks domains (restrict_linear1 a domains)"
    unfolding r by (rule shrinks_set_domain) (use i v in \<open>simp add: domain_of_def\<close>)
  show "settled model (restrict_linear1 a domains) ct" unfolding settled_def
  proof (intro allI impI)
    fix x assume x: "fits x (restrict_linear1 a domains)"
    have "elt x v \<in> dvals d" using fits_elt[OF x v(1)] elt_set_domain[of v domains v d] v by (simp add: r)
    then have "DomainInProtoContains (lc_domain a) (elt x v * c)" using i m(1) linear_rhs(1)[OF assms(2)] by simp
    then show "satisfied x model ct" using ct c v(1) by (simp add: satisfied_def linear_activity_def ref_value_def)
  qed
qed

section \<open>One step\<close>

text \<open>What the message has to be for the code to read it at all.\<close>

definition typed_constraint :: "nat \<Rightarrow> ConstraintProto \<Rightarrow> bool" where
  "typed_constraint n ct \<longleftrightarrow> list_all (\<lambda>v. v < int n) (UsedVariables ct) \<and>
     (case ct_constraint ct of kLinear a \<Rightarrow> linear_typed a \<and> list_all (\<lambda>v. 0 \<le> v) (lc_vars a) | _ \<Rightarrow> True)"

text \<open>What the presolve has to establish for a constraint to be solved by its step.\<close>

fun ready :: "domain list \<Rightarrow> ConstraintCase \<Rightarrow> bool" where
  "ready domains (kBoolOr a) \<longleftrightarrow> True"
| "ready domains (kExactlyOne a) \<longleftrightarrow> distinct (map PositiveRef (ba_literals a))"
| "ready domains (kLinear a) \<longleftrightarrow> distinct (lc_vars a) \<and> activity_bound domains (lterms a) \<le> kint64max"
| "ready domains (kLinMax a) \<longleftrightarrow> argument_ready domains a"
| "ready domains (kIntMod a) \<longleftrightarrow> argument_ready domains a \<and> 2 \<le> length (la_exprs a)"
| "ready domains (kIntProd a) \<longleftrightarrow> argument_ready domains a \<and> product_ready domains a"
| "ready domains (kElement a) \<longleftrightarrow> element_ready domains a"
| "ready domains _ \<longleftrightarrow> False"

definition settles :: "domain list \<Rightarrow> ConstraintProto \<Rightarrow> bool" where
  "settles domains ct \<longleftrightarrow> supported (ct_constraint ct) \<and>
     (list_ex (literal_fixed_false domains) (ct_enforcement_literal ct) \<or>
      enforced_linear1 ct \<noteq> None \<and> list_all (literal_fixed_true domains) (ct_enforcement_literal ct) \<or>
      ready domains (ct_constraint ct))"

lemma typed_refs:
  assumes "typed_constraint (length domains) ct"
  shows "refs_in domains (ct_enforcement_literal ct)" "\<forall>v \<in> set (UsedVariables ct). v < int (length domains)"
    "refs_in domains (ir_variables (GetReferencesUsedByCase (ct_constraint ct)))"
    "refs_in domains (ir_literals (GetReferencesUsedByCase (ct_constraint ct)))"
  using assms by (auto simp: typed_constraint_def list_all_iff set_UsedVariables GetReferencesUsedByConstraint_def)

lemma typed_linear:
  fixes domains :: "domain list"
  assumes "typed_constraint (length domains) ct" "ct_constraint ct = kLinear a"
  shows "linear_typed a" "list_all (\<lambda>v. 0 \<le> v \<and> v < int (length domains)) (lc_vars a)"
  using assms typed_refs(3)[OF assms(1)]
  by (auto simp: typed_constraint_def list_all_iff PositiveRef_cases RefIsPositive_def)

lemma PostsolveByCase_spec:
  assumes "PostsolveByCase ct (ct_constraint ct) domains = Some domains'" "sane domains" "typed_constraint (length domains) ct"
  shows "length domains' = length domains \<and> sane domains' \<and>
    (ready domains (ct_constraint ct) \<longrightarrow> settled model domains' ct)"
proof -
  note t = typed_refs[OF assms(3)]
  show ?thesis
  proof (cases "ct_constraint ct")
    case (kBoolOr a)
    have l: "PostsolveClause a domains = Some domains'" "refs_in domains (ba_literals a)" using assms(1) t(4) kBoolOr by simp_all
    show ?thesis using PostsolveClause_spec[OF l(1) assms(2) l(2)] settled_clause[OF kBoolOr l(1) assms(2) l(2)] by simp
  next
    case (kExactlyOne a)
    have l: "PostsolveExactlyOne a domains = Some domains'" "refs_in domains (ba_literals a)" using assms(1) t(4) kExactlyOne by simp_all
    show ?thesis using PostsolveExactlyOne_sane[OF l(1) assms(2)] settled_exactly_one[OF kExactlyOne l(1) assms(2) l(2)] kExactlyOne by simp
  next
    case (kLinear a)
    have l: "PostsolveLinear ct a domains = Some domains'" using assms(1) kLinear by simp
    show ?thesis using PostsolveLinear_spec[OF l kLinear assms(2) typed_linear(1)[OF assms(3) kLinear] t(1)] kLinear by simp
  next
    case (kLinMax a)
    have l: "PostsolveLinMax a domains = Some domains'" "refs_in domains (linear_argument_vars a)" using assms(1) t(3) kLinMax by simp_all
    show ?thesis using PostsolveLinMax_spec[OF l(1) assms(2) l(2)] kLinMax by simp
  next
    case (kIntMod a)
    have l: "PostsolveIntMod a domains = Some domains'" "refs_in domains (linear_argument_vars a)" using assms(1) t(3) kIntMod by simp_all
    show ?thesis using PostsolveIntMod_spec[OF l(1) assms(2) l(2)] kIntMod by simp
  next
    case (kIntProd a)
    have l: "PostsolveIntProd a domains = Some domains'" "refs_in domains (linear_argument_vars a)" using assms(1) t(3) kIntProd by simp_all
    show ?thesis using PostsolveIntProd_spec[OF l(1) assms(2) l(2)] kIntProd by simp
  next
    case (kElement a)
    have l: "PostsolveElement a domains = Some domains'" using assms(1) kElement by simp
    have "refs_in domains (element_refs a)" if "element_ready domains a"
      using t(3) kElement that by (simp add: element_ready_def)
    then show ?thesis using PostsolveElement_spec[OF l(1) assms(2)] kElement by simp
  qed (use assms(1) in simp_all)
qed

lemma postsolve_constraint_spec:
  assumes "postsolve_constraint ct domains = Some domains'" "sane domains" "typed_constraint (length domains) ct" "[] \<notin> set domains'"
  shows "length domains' = length domains" "sane domains'" "settles domains ct \<Longrightarrow> settled model domains' ct"
proof -
  define ignored where "ignored = list_ex (literal_fixed_false domains) (ct_enforcement_literal ct)"
  define on where "on = list_all (literal_fixed_true domains) (ct_enforcement_literal ct)"
  note t = typed_refs[OF assms(3)]
  note code = assms(1)[unfolded postsolve_constraint_def Let_def ignored_def[symmetric] on_def[symmetric]]
  have ign: "settled model domains ct" if ignored using settled_ignored[OF _ assms(2) t(1)] that by (simp add: ignored_def)
  have "length domains' = length domains \<and> sane domains' \<and> (settles domains ct \<longrightarrow> settled model domains' ct)"
  proof (cases "enforced_linear1 ct")
    case None
    show ?thesis
    proof (cases ignored)
      case True
      then have d': "domains' = ArbitrarilyFixVariables ct domains" using code None by simp
      show ?thesis using ArbitrarilyFixVariables_spec[OF assms(2) t(2)] settled_mono[OF ign[OF True]] by (simp add: d')
    next
      case False
      then have "PostsolveByCase ct (ct_constraint ct) domains = Some domains'" using code None by simp
      from PostsolveByCase_spec[OF this assms(2,3)] show ?thesis using False None by (simp add: settles_def ignored_def)
    qed
  next
    case (Some a)
    have lin: "ct_constraint ct = kLinear a" using Some by (rule enforced_linear1_cases)
    consider "ignored" | "\<not> ignored" "on" | "\<not> ignored" "\<not> on" by blast
    then show ?thesis
    proof cases
      case 1
      then show ?thesis using code Some ign assms(2) by simp
    next
      case 2
      then have d': "domains' = restrict_linear1 a domains" using code Some by simp
      show ?thesis using restrict_linear1_spec[OF Some typed_linear[OF assms(3) lin] assms(2)] assms(4) by (simp add: d')
    next
      case 3
      then have "PostsolveByCase ct (ct_constraint ct) domains = Some domains'" using code Some by simp
      from PostsolveByCase_spec[OF this assms(2,3)] show ?thesis using 3 by (simp add: settles_def ignored_def on_def)
    qed
  qed
  then show "length domains' = length domains" "sane domains'" "settles domains ct \<Longrightarrow> settled model domains' ct" by blast+
qed

section \<open>The whole run\<close>

text \<open>A constraint is untouched by a step when the step widens no domain of a variable it uses.\<close>

definition untouched :: "domain list \<Rightarrow> domain list \<Rightarrow> ConstraintProto \<Rightarrow> bool" where
  "untouched domains domains' ct \<longleftrightarrow>
     list_all (\<lambda>v. Domain_IsIncludedIn (elt domains' v) (elt domains v)) (UsedVariables ct)"

text \<open>The constraints whose step settles them and that no later step touches.\<close>

fun survivors :: "ConstraintProto list \<Rightarrow> ConstraintProto list \<Rightarrow> domain list \<Rightarrow> ConstraintProto list" where
  "survivors solved [] domains = solved"
| "survivors solved (ct # cts) domains =
     (case postsolve_constraint ct domains of
        None \<Rightarrow> solved
      | Some domains' \<Rightarrow>
          survivors ((if settles domains ct then [ct] else []) @ filter (untouched domains domains') solved) cts domains')"

text \<open>No restriction by a constraint on one variable empties a domain.\<close>

fun never_empty :: "ConstraintProto list \<Rightarrow> domain list \<Rightarrow> bool" where
  "never_empty [] domains = True"
| "never_empty (ct # cts) domains =
     (case postsolve_constraint ct domains of
        None \<Rightarrow> True
      | Some domains' \<Rightarrow> list_all (\<lambda>d. \<not> Domain_IsEmpty d) domains' \<and> never_empty cts domains')"

lemma untouched_settled:
  assumes "untouched d d' ct" "supported (ct_constraint ct)" "settled model d ct" "sane d" "sane d'" "length d' = length d"
    and "typed_constraint (length d) ct"
  shows "settled model d' ct"
proof (rule settled_untouched[OF assms(2,3,4,6)])
  show "\<forall>v \<in> set (UsedVariables ct). v < int (length d) \<and> dvals (elt d' v) \<subseteq> dvals (elt d v)"
  proof
    fix v assume v: "v \<in> set (UsedVariables ct)"
    then have r: "0 \<le> v" "v < int (length d)" using typed_refs(2)[OF assms(7)] by (auto simp: set_UsedVariables)
    have "canon (elt d v)" "canon (elt d' v)" using sane_elt[OF assms(4) r] sane_elt[OF assms(5)] r assms(6) by simp_all
    then show "v < int (length d) \<and> dvals (elt d' v) \<subseteq> dvals (elt d v)"
      using Domain_IsIncludedIn_iff[of "elt d' v" "elt d v"] assms(1) v r by (simp add: untouched_def list_all_iff)
  qed
qed

lemma postsolve_loop_spec:
  assumes "postsolve_loop cts domains = Some domains'" "sane domains" "\<forall>ct \<in> set cts. typed_constraint (length domains) ct"
    and "never_empty cts domains"
    and "\<forall>c \<in> set solved. supported (ct_constraint c) \<and> typed_constraint (length domains) c \<and> settled model domains c"
  shows "length domains' = length domains \<and> sane domains' \<and> (\<forall>c \<in> set (survivors solved cts domains). settled model domains' c)"
  using assms
proof (induction cts arbitrary: domains solved)
  case (Cons ct cts)
  obtain d1 where d1: "postsolve_constraint ct domains = Some d1" "postsolve_loop cts d1 = Some domains'"
    using Cons.prems(1) by (auto split: option.splits)
  have ne: "[] \<notin> set d1" "never_empty cts d1" using Cons.prems(4) d1(1) by (auto simp: list_all_iff Domain_IsEmpty_def)
  have ty: "typed_constraint (length domains) ct" using Cons.prems(3) by simp
  note st = postsolve_constraint_spec[OF d1(1) Cons.prems(2) ty ne(1)]
  let ?s = "(if settles domains ct then [ct] else []) @ filter (untouched domains d1) solved"
  have "\<forall>c \<in> set ?s. supported (ct_constraint c) \<and> typed_constraint (length d1) c \<and> settled model d1 c"
    using Cons.prems(5) st ty untouched_settled[OF _ _ _ Cons.prems(2) st(2,1)] by (auto simp: settles_def)
  moreover have "\<forall>c \<in> set cts. typed_constraint (length d1) c" using Cons.prems(3) st(1) by simp
  ultimately show ?case using Cons.IH[OF d1(2) st(2) _ ne(2), of ?s] d1(1) st(1) by simp
qed simp

end
