(* ===== verification/PostsolveFixed.thy ===== *)
theory PostsolveFixed
  imports PostsolveRun
begin

text \<open>
  The postsolve does not write to the fixed variables that it is not given to compute: which variables a step may
  overwrite is read off the constraint, and every other write is to a variable that is not fixed.
\<close>

section \<open>The presolved solution is kept\<close>

text \<open>The variables that a step may overwrite although they are fixed: the first literal of a clause that is not
  satisfied, the target of a function, and an element index of several variables.  Every other write is to a variable that is not fixed.\<close>

definition overwritten :: "ConstraintProto \<Rightarrow> int32 list" where
  "overwritten ct =
     (case ct_constraint ct of
        kBoolOr a \<Rightarrow> map PositiveRef (take 1 (ba_literals a))
      | kLinMax a \<Rightarrow> take 1 (le_vars (expr_or_default (la_target a)))
      | kIntMod a \<Rightarrow> take 1 (le_vars (expr_or_default (la_target a)))
      | kIntProd a \<Rightarrow> take 1 (le_vars (expr_or_default (la_target a)))
      | kElement a \<Rightarrow> take 1 (le_vars (el_target_of a)) @
          (if list_all RefIsPositive (le_vars (index_of a)) \<and> length (le_vars (index_of a)) = 1 then []
           else map PositiveRef (take 1 (le_vars (index_of a))))
      | _ \<Rightarrow> [])"

text \<open>A write to another variable, and the writes that are to variables that are not fixed.\<close>

lemma elt_set_domain_other: "PositiveRef r \<noteq> v \<Longrightarrow> 0 \<le> v \<Longrightarrow> elt (set_domain r d ds) v = elt ds v"
proof -
  assume "PositiveRef r \<noteq> v" "0 \<le> v"
  then have "nat (PositiveRef r) \<noteq> nat v" using PositiveRef_nonneg[of r] by linarith
  then show ?thesis by (simp add: elt_def set_domain_def)
qed

lemma not_fixed_other: "\<not> Domain_IsFixed (domain_of ds r) \<Longrightarrow> Domain_IsFixed (elt ds v) \<Longrightarrow> PositiveRef r \<noteq> v"
  by (auto simp: domain_of_def)

lemma clause_loop_keeps:
  assumes "0 \<le> v" "Domain_IsFixed (elt ds v)"
  shows "elt (snd (clause_loop refs b ds)) v = elt ds v"
  using assms(2)
proof (induction refs arbitrary: b ds)
  case (Cons r refs)
  have "elt (set_domain r d ds) v = elt ds v" if "\<not> Domain_IsFixed (domain_of ds r)" for d
    using elt_set_domain_other[OF not_fixed_other[OF that Cons.prems] assms(1)] .
  then show ?case using Cons by simp
qed simp

lemma exactly_one_loop_free:
  assumes "exactly_one_loop refs b free ds = Some (b', free')" "\<forall>r \<in> set free. \<not> Domain_IsFixed (domain_of ds r)"
  shows "\<forall>r \<in> set free'. \<not> Domain_IsFixed (domain_of ds r)"
  using assms
proof (induction refs arbitrary: b free)
  case (Cons r refs)
  show ?case
  proof (cases "Domain_IsFixed (domain_of ds r)")
    case True
    then obtain c where "exactly_one_loop refs c free ds = Some (b', free')"
      using Cons.prems(1) by (cases "Domain_FixedValue (domain_of ds r) = true_value r"; cases b) simp_all
    from Cons.IH[OF this Cons.prems(2)] show ?thesis .
  next
    case False
    then have "exactly_one_loop refs b (free @ [r]) ds = Some (b', free')" using Cons.prems(1) by simp
    from Cons.IH[OF this] show ?thesis using Cons.prems(2) False by simp
  qed
qed simp

lemma writes_keep:
  assumes "\<forall>(x, u) \<in> set ws. PositiveRef x \<noteq> v" "0 \<le> v"
  shows "elt (foldl (\<lambda>d (x, u). set_domain x (Domain_value u) d) ds ws) v = elt ds v"
  using assms(1) by (induction ws arbitrary: ds) (auto simp: elt_set_domain_other assms(2))

lemma fix_false_keeps:
  assumes "0 \<le> v" "\<forall>r \<in> set refs. PositiveRef r \<noteq> v"
  shows "elt (fix_false refs ds) v = elt ds v"
  unfolding fix_false_def using assms(2) by (induction refs arbitrary: ds) (simp_all add: elt_set_domain_other assms(1))

lemma PostsolveExactlyOne_keeps:
  assumes "PostsolveExactlyOne a ds = Some ds'" "0 \<le> v" "Domain_IsFixed (elt ds v)"
  shows "elt ds' v = elt ds v"
proof -
  obtain b free where run: "exactly_one_loop (ba_literals a) False [] ds = Some (b, free)"
    using assms(1) by (auto simp: PostsolveExactlyOne_def split: option.splits)
  have other: "PositiveRef r \<noteq> v" if "r \<in> set free" for r
    using exactly_one_loop_free[OF run] that not_fixed_other[OF _ assms(3)] by auto
  then have last: "PositiveRef (last free) \<noteq> v" if "free \<noteq> []" using that by simp
  show ?thesis
  proof (cases b)
    case True
    then show ?thesis using assms(1,2) run fix_false_keeps[OF assms(2)] other by (auto simp: PostsolveExactlyOne_def)
  next
    case False
    then have ne: "free \<noteq> []"
      and ds': "ds' = fix_false (butlast free) (set_domain (last free) (Domain_value (true_value (last free))) ds)"
      using assms(1) run by (auto simp: PostsolveExactlyOne_def Let_def split: if_split_asm)
    have "\<forall>r \<in> set (butlast free). PositiveRef r \<noteq> v" using other by (auto dest: in_set_butlastD)
    then show ?thesis
      unfolding ds' using fix_false_keeps[OF assms(2)] elt_set_domain_other[OF last[OF ne] assms(2)] by simp
  qed
qed

lemma SetEnforcementLiteralToFalse_keeps:
  "SetEnforcementLiteralToFalse enfs ds = Some ds' \<Longrightarrow> 0 \<le> v \<Longrightarrow> Domain_IsFixed (elt ds v) \<Longrightarrow> elt ds' v = elt ds v"
  by (induction enfs) (auto simp: elt_set_domain_other not_fixed_other split: if_split_asm)

text \<open>A fold of writes, each to a variable that is not fixed.\<close>

lemma fix_free_keeps:
  assumes "0 \<le> v" "Domain_IsFixed (elt ds v)"
  shows "elt (foldl (\<lambda>d r. if Domain_IsFixed (domain_of d r) then d else set_domain r (g d r) d) ds rs) v = elt ds v"
  using assms(2)
proof (induction rs arbitrary: ds)
  case (Cons r rs)
  have "elt (set_domain r d ds) v = elt ds v" if "\<not> Domain_IsFixed (domain_of ds r)" for d
    using elt_set_domain_other[OF not_fixed_other[OF that Cons.prems] assms(1)] .
  then show ?case using Cons by simp
qed simp

lemma fix_unassigned_enforcement_to_true_keeps:
  "0 \<le> v \<Longrightarrow> Domain_IsFixed (elt ds v) \<Longrightarrow> elt (fix_unassigned_enforcement_to_true enfs ds) v = elt ds v"
  unfolding fix_unassigned_enforcement_to_true_def by (rule fix_free_keeps)

lemma ArbitrarilyFixVariables_keeps:
  "0 \<le> v \<Longrightarrow> Domain_IsFixed (elt ds v) \<Longrightarrow> elt (ArbitrarilyFixVariables ct ds) v = elt ds v"
  unfolding ArbitrarilyFixVariables_def by (rule fix_free_keeps)

lemma split_terms_free:
  assumes "split_terms ts act free ds = Some (act', free')" "\<forall>(x, c) \<in> set free. 0 \<le> x \<and> \<not> Domain_IsFixed (elt ds x)"
  shows "\<forall>(x, c) \<in> set free'. 0 \<le> x \<and> \<not> Domain_IsFixed (elt ds x)"
  using assms by (induction ts act free ds rule: split_terms.induct) (auto split: if_split_asm)

lemma assign_loop_vars:
  "assign_loop ds act fs = Some vs \<Longrightarrow> map fst vs = map (fst \<circ> fst) fs"
  by (induction ds act fs arbitrary: vs rule: assign_loop.induct) (auto simp: Let_def split: if_split_asm Option.bind_splits)

lemma PostsolveLinear_keeps:
  assumes "PostsolveLinear ct a ds = Some ds'" "0 \<le> v" "Domain_IsFixed (elt ds v)"
  shows "elt ds' v = elt ds v"
proof -
  obtain act free where run: "split_terms (zip (lc_vars a) (lc_coeffs a)) 0 [] ds = Some (act, free)"
    using assms(1) by (auto simp: PostsolveLinear_def split: option.splits)
  have other: "PositiveRef x \<noteq> v" if "(x, c) \<in> set free" for x c
    using split_terms_free[OF run] that assms(3) by (auto simp: PositiveRef_cases RefIsPositive_def)
  note enforced = fix_unassigned_enforcement_to_true_keeps[OF assms(2,3)]
  note code = assms(1)[unfolded PostsolveLinear_def run option.case prod.case Let_def]
  consider "free = []" | x c where "free = [(x, c)]" | p q r where "free = p # q # r"
    by (metis list.exhaust surj_pair)
  then show ?thesis
  proof cases
    case 1
    then show ?thesis using code SetEnforcementLiteralToFalse_keeps[OF _ assms(2,3)] enforced by (auto split: if_split_asm)
  next
    case (2 x c)
    then show ?thesis
      using code SetEnforcementLiteralToFalse_keeps[OF _ assms(2,3)] enforced elt_set_domain_other[OF other assms(2)]
      by (auto split: if_split_asm)
  next
    case (3 p q r)
    then obtain vs where vs: "assign_loop ds act (rev (zip free (rhs_domains_from ds (butlast free) (ReadDomainFromProto (lc_domain a))))) = Some vs"
      and ds': "ds' = fix_unassigned_enforcement_to_true (ct_enforcement_literal ct)
        (foldl (\<lambda>d (x, v). set_domain x (Domain_value v) d) ds (rev vs))"
      using code by (auto split: Option.bind_splits prod.splits)
    have "set (map fst vs) \<subseteq> fst ` set free"
      unfolding assign_loop_vars[OF vs] by (auto dest: set_zip_leftD) (metis fst_conv image_eqI set_zip_leftD)
    then have "\<forall>(x, u) \<in> set (rev vs). PositiveRef x \<noteq> v" using other by fastforce
    then have "elt (foldl (\<lambda>d (x, u). set_domain x (Domain_value u) d) ds (rev vs)) v = elt ds v"
      by (rule writes_keep[OF _ assms(2)])
    then show ?thesis using fix_unassigned_enforcement_to_true_keeps[OF assms(2)] assms(3) by (simp add: ds')
  qed
qed

text \<open>The steps that compute a variable write to that variable only.\<close>

lemma PostsolveElement_keeps:
  assumes "PostsolveElement a ds = Some ds'" "0 \<le> v" "Domain_IsFixed (elt ds v)" "ct_constraint ct = kElement a" "v \<notin> set (overwritten ct)"
  shows "elt ds' v = elt ds v"
proof (cases "LinearExpressionIsFixed (index_of a) ds")
  case True
  then show ?thesis using assms
    by (cases "le_vars (el_target_of a)")
      (auto simp: PostsolveElement_def Let_def overwritten_def PositiveRef_cases elt_set_domain_other
        split: if_split_asm Option.bind_splits)
next
  case False
  then have ne: "le_vars (index_of a) \<noteq> []" by (auto simp: LinearExpressionIsFixed_def)
  have "\<exists>i. ds' = set_domain (hd (le_vars (index_of a))) (Domain_value i) ds"
    using assms(1) False by (auto simp: PostsolveElement_def Let_def split: if_split_asm Option.bind_splits)
  then obtain i where ds': "ds' = set_domain (hd (le_vars (index_of a))) (Domain_value i) ds" by blast
  have "PositiveRef (hd (le_vars (index_of a))) \<noteq> v"
  proof (cases "list_all RefIsPositive (le_vars (index_of a)) \<and> length (le_vars (index_of a)) = 1")
    case one: True
    then obtain x where x: "le_vars (index_of a) = [x]" "RefIsPositive x" by (auto simp: length_Suc_conv)
    then show ?thesis using False assms(3) by (auto simp: LinearExpressionIsFixed_def PositiveRef_cases)
  next
    case several: False
    then show ?thesis using assms(4,5) ne by (cases "le_vars (index_of a)") (auto simp: overwritten_def)
  qed
  then show ?thesis unfolding ds' by (rule elt_set_domain_other[OF _ assms(2)])
qed

lemma PostsolveByCase_keeps:
  assumes "PostsolveByCase ct (ct_constraint ct) ds = Some ds'" "0 \<le> v" "Domain_IsFixed (elt ds v)" "v \<notin> set (overwritten ct)"
  shows "elt ds' v = elt ds v"
proof (cases "ct_constraint ct")
  case (kBoolOr a)
  obtain b ds1 where run: "clause_loop (ba_literals a) False ds = (b, ds1)" by fastforce
  have "elt ds1 v = elt ds v" using clause_loop_keeps[OF assms(2,3), of "ba_literals a" False] run by simp
  then show ?thesis using assms(1,4) run elt_set_domain_other[OF _ assms(2)] kBoolOr
    by (cases "ba_literals a") (auto simp: PostsolveClause_def overwritten_def split: if_split_asm)
next
  case (kExactlyOne a)
  then show ?thesis using assms PostsolveExactlyOne_keeps by simp
next
  case (kLinear a)
  then show ?thesis using assms PostsolveLinear_keeps by simp
next
  case (kElement a)
  then show ?thesis using assms PostsolveElement_keeps by simp
next
  case (kLinMax a)
  then show ?thesis using assms
    by (cases "le_vars (expr_or_default (la_target a))")
      (auto simp: PostsolveLinMax_def Let_def overwritten_def PositiveRef_cases elt_set_domain_other
        split: if_split_asm Option.bind_splits)
next
  case (kIntMod a)
  then show ?thesis using assms
    by (cases "le_vars (expr_or_default (la_target a))")
      (auto simp: PostsolveIntMod_def Let_def overwritten_def PositiveRef_cases elt_set_domain_other
        split: if_split_asm Option.bind_splits)
next
  case (kIntProd a)
  then show ?thesis using assms
    by (cases "le_vars (expr_or_default (la_target a))")
      (auto simp: PostsolveIntProd_def Let_def overwritten_def PositiveRef_cases elt_set_domain_other
        split: if_split_asm Option.bind_splits)
qed (use assms(1) in simp_all)

text \<open>A whole step: a fixed variable keeps its value, unless its domain becomes empty.\<close>

lemma postsolve_constraint_keeps:
  assumes "postsolve_constraint ct ds = Some ds'" "sane ds" "typed_constraint (length ds) ct" "[] \<notin> set ds'"
    and "0 \<le> v" "v < int (length ds)" "dvals (elt ds v) = {s}" "v \<notin> set (overwritten ct)"
  shows "dvals (elt ds' v) = {s}"
proof -
  have cv: "canon (elt ds v)" "elt ds v \<noteq> []" using sane_elt[OF assms(2,5,6)] by simp_all
  have fixed: "Domain_IsFixed (elt ds v)" using Domain_IsFixed_iff[OF cv] assms(7) by blast
  note by_case = PostsolveByCase_keeps[OF _ assms(5) fixed assms(8)] and skip = ArbitrarilyFixVariables_keeps[OF assms(5) fixed, of ct]
  note st = postsolve_constraint_spec(1,2)[OF assms(1-4)]
  show ?thesis
  proof (cases "enforced_linear1 ct")
    case None
    then show ?thesis using assms(1,7) by_case skip by (auto simp: postsolve_constraint_def split: if_split_asm)
  next
    case (Some a)
    have lin: "ct_constraint ct = kLinear a" using Some by (rule enforced_linear1_cases)
    have "elt ds' v = elt ds v \<or> ds' = restrict_linear1 a ds"
      using assms(1) Some by_case by (auto simp: postsolve_constraint_def split: if_split_asm)
    then show ?thesis
    proof
      assume ds': "ds' = restrict_linear1 a ds"
      have "shrinks ds ds'" using restrict_linear1_spec(4)[OF Some typed_linear[OF assms(3) lin] assms(2)] by (simp add: ds')
      then have "dvals (elt ds' v) \<subseteq> dvals (elt ds v)" using assms(5,6) by (simp add: shrinks_def elt_def nat_less_iff)
      then have "dvals (elt ds' v) \<subseteq> {s}" using assms(7) by simp
      moreover have "dvals (elt ds' v) \<noteq> {}"
        using sane_elt[OF st(2) assms(5)] assms(6) st(1) dvals_empty_iff by simp
      ultimately show ?thesis by blast
    qed (use assms(7) in simp)
  qed
qed

lemma postsolve_loop_keeps:
  assumes "postsolve_loop cts domains = Some domains'" "sane domains" "\<forall>ct \<in> set cts. typed_constraint (length domains) ct"
    and "never_empty cts domains" "0 \<le> v" "v < int (length domains)" "dvals (elt domains v) = {s}"
    and "\<forall>ct \<in> set cts. v \<notin> set (overwritten ct)"
  shows "dvals (elt domains' v) = {s}"
  using assms
proof (induction cts arbitrary: domains)
  case (Cons ct cts)
  obtain d1 where d1: "postsolve_constraint ct domains = Some d1" "postsolve_loop cts d1 = Some domains'"
    using Cons.prems(1) by (auto split: option.splits)
  have ne: "[] \<notin> set d1" "never_empty cts d1" using Cons.prems(4) d1(1) by (auto simp: list_all_iff Domain_IsEmpty_def)
  have ty: "typed_constraint (length domains) ct" using Cons.prems(3) by simp
  note st = postsolve_constraint_spec(1,2)[OF d1(1) Cons.prems(2) ty ne(1)]
  have "dvals (elt d1 v) = {s}"
    using postsolve_constraint_keeps[OF d1(1) Cons.prems(2) ty ne(1) Cons.prems(5-7)] Cons.prems(8) by simp
  then show ?case using Cons.IH[OF d1(2) st(2) _ ne(2) Cons.prems(5)] Cons.prems(3,6,8) st(1) by simp
qed simp

end
