(* ===== verification/PostsolveProps.thy ===== *)
theory PostsolveProps
  imports PostsolveFixed SolutionProps
begin

text \<open>
  The properties of the postsolve: the solution it returns satisfies the constraints of the mapping model, keeps
  the values of the presolved solution, and the tightened domains keep every solution.
\<close>

section \<open>The initial domains\<close>

lemma scatter_domains:
  assumes "list_all (\<lambda>i. 0 \<le> i \<and> i < int n) is" "length is = length vs"
  defines "f \<equiv> foldl (\<lambda>d (i, v). d[nat i := Domain_value v]) (replicate n []) (zip is vs)"
  shows "length f = n" "\<forall>d \<in> set f. d = [] \<or> (\<exists>v \<in> set vs. d = Domain_value v)"
proof -
  let ?I = "\<lambda>d. length d = n \<and> (\<forall>e \<in> set d. e = [] \<or> (\<exists>v \<in> set vs. e = Domain_value v))"
  have "?I f" unfolding f_def
  proof (rule foldl_invariant)
    fix d iv assume "iv \<in> set (zip is vs)" "?I d"
    moreover obtain i v where "iv = (i, v)" by (cases iv)
    ultimately show "?I (case iv of (i, v) \<Rightarrow> d[nat i := Domain_value v])"
      using set_update_subset_insert[of d "nat i" "Domain_value v"] by (auto dest: set_zip_rightD)
  qed auto
  then show "length f = n" "\<forall>d \<in> set f. d = [] \<or> (\<exists>v \<in> set vs. d = Domain_value v)" by auto
qed

text \<open>The last write to a position stays; with distinct positions, each value is where it belongs.\<close>

lemma scatter_at:
  assumes "distinct is" "list_all (\<lambda>i. 0 \<le> i \<and> i < int (length d)) is" "length is = length vs" "k < length is"
  shows "foldl (\<lambda>d (i, v). d[nat i := Domain_value v]) d (zip is vs) ! nat (is ! k) = Domain_value (vs ! k)"
  using assms
proof (induction "is" arbitrary: d vs k)
  case (Cons i "is")
  obtain v vs' where vs: "vs = v # vs'" using Cons.prems(3) by (cases vs) auto
  let ?d = "d[nat i := Domain_value v]"
  have keep: "foldl (\<lambda>d (i, v). d[nat i := Domain_value v]) e (zip js ws) ! nat i = e ! nat i"
    if "i \<notin> set js" "list_all (\<lambda>i. 0 \<le> i) js" "0 \<le> i" for e js and ws :: "int list"
    using that
  proof (induction js arbitrary: e ws)
    case (Cons j js)
    then show ?case by (cases ws) (auto simp: nat_eq_iff)
  qed simp
  show ?case
  proof (cases k)
    case 0
    have "list_all (\<lambda>i. 0 \<le> i) is" using Cons.prems(2) by (auto simp: list_all_iff)
    moreover have "nat i < length d" using Cons.prems(2) by auto
    ultimately show ?thesis using keep[of "is" ?d vs'] Cons.prems(1,2) 0 vs by simp
  next
    case (Suc m)
    then show ?thesis using Cons.IH[of ?d vs' m] Cons.prems vs by simp
  qed
qed simp

definition variables_typed :: "CpModelProto \<Rightarrow> bool" where
  "variables_typed m \<longleftrightarrow> list_all (\<lambda>v. list_all in_int64 (iv_domain v)) (m_variables m)"

lemma initial_domains_spec:
  assumes "initial_domains m mapping sol = Some domains" "list_all in_int64 sol" "variables_typed m"
  shows "length domains = length (m_variables m)" "sane domains"
    "distinct mapping \<Longrightarrow> k < length mapping \<Longrightarrow>
      0 \<le> mapping ! k \<and> mapping ! k < int (length domains) \<and> elt domains (mapping ! k) = Domain_value (sol ! k)"
proof -
  define n where "n = length (m_variables m)"
  define f where "f = foldl (\<lambda>d (i, v). d[nat i := Domain_value v]) (replicate n []) (zip mapping sol)"
  have len: "length mapping = length sol" and r: "list_all (\<lambda>i. 0 \<le> i \<and> i < int n) mapping"
    and d: "domains = map (\<lambda>(d, var). if Domain_IsEmpty d then ReadDomainFromProto (iv_domain var) else d) (zip f (m_variables m))"
    and ne: "\<forall>d \<in> set domains. d \<noteq> []"
    using assms(1) by (auto simp: initial_domains_def Let_def n_def f_def list_ex_iff Domain_IsEmpty_def split: if_splits)
  note s = scatter_domains[OF r len, folded f_def]
  show ld: "length domains = length (m_variables m)" using s(1) d by (simp add: n_def)
  have "canon e" if e: "e \<in> set domains" for e
  proof -
    obtain g var where g: "(g, var) \<in> set (zip f (m_variables m))"
      and ev: "e = (if Domain_IsEmpty g then ReadDomainFromProto (iv_domain var) else g)" using e d by auto
    have "g \<in> set f" "var \<in> set (m_variables m)" using g by (auto dest: set_zip_leftD set_zip_rightD)
    then show ?thesis using s(2) assms(2,3) ReadDomainFromProto_spec(2)[of "iv_domain var"] ev
      by (auto simp: Domain_IsEmpty_def variables_typed_def list_all_iff)
  qed
  then show "sane domains" using ne by (simp add: sane_def)
  show "0 \<le> mapping ! k \<and> mapping ! k < int (length domains) \<and> elt domains (mapping ! k) = Domain_value (sol ! k)"
    if "distinct mapping" "k < length mapping"
  proof -
    have k: "0 \<le> mapping ! k" "mapping ! k < int n" using r that(2) by (auto simp: list_all_length)
    have "f ! nat (mapping ! k) = Domain_value (sol ! k)"
      unfolding f_def using scatter_at[OF that(1) _ len that(2), of "replicate n []"] r by simp
    then have "elt domains (mapping ! k) = Domain_value (sol ! k)"
      using k s(1) by (simp add: elt_def d n_def Domain_IsEmpty_def Domain_value_def)
    then show ?thesis using k ld by (simp add: n_def)
  qed
qed

section \<open>The solution of the original model\<close>

text \<open>The run over the constraints, from the last to the first, and those that are solved by it.\<close>

definition mapping_run :: "CpModelProto \<Rightarrow> int32 list \<Rightarrow> int64 list \<Rightarrow> domain list" where
  "mapping_run m mapping sol = (case initial_domains m mapping sol of None \<Rightarrow> [] | Some d \<Rightarrow> d)"

definition solved_constraints :: "CpModelProto \<Rightarrow> int32 list \<Rightarrow> int64 list \<Rightarrow> ConstraintProto list" where
  "solved_constraints m mapping sol = survivors [] (rev (m_constraints m)) (mapping_run m mapping sol)"

definition postsolve_never_empty :: "CpModelProto \<Rightarrow> int32 list \<Rightarrow> int64 list \<Rightarrow> bool" where
  "postsolve_never_empty m mapping sol \<longleftrightarrow> never_empty (rev (m_constraints m)) (mapping_run m mapping sol)"

definition mapping_typed :: "CpModelProto \<Rightarrow> bool" where
  "mapping_typed m \<longleftrightarrow> variables_typed m \<and> list_all (typed_constraint (length (m_variables m))) (m_constraints m)"

lemma PostsolveResponse_run:
  assumes "PostsolveResponse n m mapping sol = Some out" "list_all in_int64 sol" "mapping_typed m" "postsolve_never_empty m mapping sol"
  obtains domains' where "postsolve_loop (rev (m_constraints m)) (mapping_run m mapping sol) = Some domains'"
    "initial_domains m mapping sol = Some (mapping_run m mapping sol)" "sane domains'" "sane (mapping_run m mapping sol)"
    "length domains' = length (m_variables m)" "length (mapping_run m mapping sol) = length (m_variables m)"
    "out = take (nat n) (map Domain_SmallestValue domains')" "0 \<le> n" "n \<le> int (length domains')"
    "\<forall>c \<in> set (solved_constraints m mapping sol). settled m domains' c"
proof -
  obtain d d' where d: "initial_domains m mapping sol = Some d" "postsolve_loop (rev (m_constraints m)) d = Some d'"
    and n: "0 \<le> n" "n \<le> int (length d')" "out = take (nat n) (map Domain_SmallestValue d')"
    using assms(1) by (auto simp: PostsolveResponse_def take_map split: Option.bind_splits if_splits)
  have run: "mapping_run m mapping sol = d" using d(1) by (simp add: mapping_run_def)
  have vt: "variables_typed m" and ct: "\<forall>ct \<in> set (m_constraints m). typed_constraint (length (m_variables m)) ct"
    using assms(3) by (simp_all add: mapping_typed_def list_all_iff)
  note i = initial_domains_spec(1,2)[OF d(1) assms(2) vt]
  have "never_empty (rev (m_constraints m)) d" using assms(4) run by (simp add: postsolve_never_empty_def)
  from postsolve_loop_spec[OF d(2) i(2) _ this, of "[]" m] ct i(1)
  have l: "length d' = length d" "sane d'" "\<forall>c \<in> set (survivors [] (rev (m_constraints m)) d). settled m d' c" by simp_all
  show ?thesis
    by (rule that[of d']) (use d n l i run in \<open>simp_all add: solved_constraints_def\<close>)
qed

text \<open>C7: When no restriction empties a domain on the way, the solution that PostsolveResponse returns is the
  beginning of an assignment of the variables of the mapping model that satisfies every mapping constraint whose
  precondition held when it was processed and none of whose variables a later step widened.\<close>

theorem PostsolveResponse_sound:
  assumes "PostsolveResponse n m mapping sol = Some out"
    and "list_all in_int64 sol" "mapping_typed m" "postsolve_never_empty m mapping sol"
  shows "\<exists>x. length x = length (m_variables m) \<and> out = take (nat n) x \<and> int (length out) = n \<and>
    (\<forall>ct \<in> set (solved_constraints m mapping sol). satisfied x m ct)"
proof -
  obtain d where d: "sane d" "length d = length (m_variables m)" "out = take (nat n) (map Domain_SmallestValue d)"
    "0 \<le> n" "n \<le> int (length d)" "\<forall>c \<in> set (solved_constraints m mapping sol). settled m d c"
    using PostsolveResponse_run[OF assms] by metis
  have "\<forall>ct \<in> set (solved_constraints m mapping sol). satisfied (map Domain_SmallestValue d) m ct"
    using d(6) fits_SmallestValue[OF d(1)] by (simp add: settled_def)
  moreover have "int (length out) = n" using d(3-5) by simp
  ultimately show ?thesis using d(2,3) by (intro exI[of _ "map Domain_SmallestValue d"]) simp
qed

text \<open>A clause, an equality that defines a variable and a maximum that defines another.\<close>

definition sample_mapping :: CpModelProto where
  "sample_mapping = model_of [[0, 10], [0, 20], [0, 1], [0, 1], [0, 100]]
     [kLinMax \<lparr> la_target = Some (var_expr 4), la_exprs = [var_expr 0, var_expr 1] \<rparr>,
      kLinear \<lparr> lc_vars = [0, 1], lc_coeffs = [2, - 1], lc_domain = [- 1, - 1] \<rparr>,
      kBoolOr \<lparr> ba_literals = [2, - 4] \<rparr>]"

lemma sample_mapping_run:
  "PostsolveResponse 5 sample_mapping [0, 3] [4, 1] = Some [4, 9, 1, 1, 9]" "mapping_typed sample_mapping"
  "postsolve_never_empty sample_mapping [0, 3] [4, 1]"
  "solved_constraints sample_mapping [0, 3] [4, 1] = m_constraints sample_mapping"
  by code_simp+

theorem PostsolveResponse_sound_witness:
  "\<exists>x. length x = 5 \<and> [4, 9, 1, 1, 9] = take 5 x \<and> (\<forall>ct \<in> set (m_constraints sample_mapping). satisfied x sample_mapping ct)"
proof -
  have "list_all in_int64 [4, 1]" "length (m_variables sample_mapping) = 5" by code_simp+
  then show ?thesis
    using PostsolveResponse_sound[OF sample_mapping_run(1) _ sample_mapping_run(2,3)] sample_mapping_run(4) by simp
qed

section \<open>The presolved solution is kept\<close>

text \<open>C8: PostsolveResponse keeps the values of the presolved solution: an original variable that the mapping
  names gets its value in the presolved solution, provided that no mapping constraint is written to compute it,
  that is, none has it as first literal of a clause, as target, or in an index of several variables.  In particular
  no exactly-one, linear or enforcement step, and no step that is skipped, changes a variable that is fixed.\<close>

theorem PostsolveResponse_keeps_solution:
  assumes "PostsolveResponse n m mapping sol = Some out"
    and "list_all in_int64 sol" "mapping_typed m" "postsolve_never_empty m mapping sol"
    and "distinct mapping" "k < length mapping" "mapping ! k < n"
    and "list_all (\<lambda>ct. mapping ! k \<notin> set (overwritten ct)) (m_constraints m)"
  shows "elt out (mapping ! k) = sol ! k"
proof -
  let ?d = "mapping_run m mapping sol"
  obtain d where d: "postsolve_loop (rev (m_constraints m)) ?d = Some d" "initial_domains m mapping sol = Some ?d"
    "sane d" "sane ?d" "length d = length (m_variables m)" "length ?d = length (m_variables m)"
    "out = take (nat n) (map Domain_SmallestValue d)" "n \<le> int (length d)"
    using PostsolveResponse_run[OF assms(1-4)] by metis
  have vt: "variables_typed m" and ct: "\<forall>ct \<in> set (rev (m_constraints m)). typed_constraint (length ?d) ct"
    using assms(3) d(6) by (simp_all add: mapping_typed_def list_all_iff)
  note i = initial_domains_spec(3)[OF d(2) assms(2) vt assms(5,6)]
  have "never_empty (rev (m_constraints m)) ?d" using assms(4) by (simp add: postsolve_never_empty_def)
  then have fixed: "dvals (elt d (mapping ! k)) = {sol ! k}"
    using postsolve_loop_keeps[OF d(1,4) ct] i assms(8) by (simp add: list_all_iff)
  have r: "nat (mapping ! k) < length d" "nat (mapping ! k) < nat n" using i assms(7) d(5,6) by linarith+
  have "Domain_SmallestValue (elt d (mapping ! k)) \<in> dvals (elt d (mapping ! k))"
    using Domain_SmallestValue_mem sane_elt[OF d(3)] i d(5,6) by simp
  then show ?thesis using fixed d(7) r by (auto simp: elt_def)
qed

theorem PostsolveResponse_keeps_solution_witness:
  "elt [4, 9, 1, 1, 9] (3 :: int32) = (1 :: int64)"
proof -
  have c: "list_all in_int64 [4, 1]" "list_all (\<lambda>ct. [0, 3] ! 1 \<notin> set (overwritten ct)) (m_constraints sample_mapping)"
    by code_simp+
  from PostsolveResponse_keeps_solution[OF sample_mapping_run(1) c(1) sample_mapping_run(2,3) _ _ _ c(2)]
  show ?thesis by simp
qed

end
