(* ===== verification/Tightened.thy ===== *)
theory Tightened
  imports PostsolveProps
begin

text \<open>
  The tightened domains of a response: no solution of the mapping model is lost, for coefficients that fit in the
  \<open>int\<close> they are read into, and one is lost for a coefficient that does not.
\<close>

section \<open>Affine reductions\<close>

text \<open>An equality of two variables that always holds, with coefficients of 32 bits and exact products.\<close>

definition affine_exact :: "int list \<Rightarrow> ConstraintProto \<Rightarrow> bool" where
  "affine_exact x ct \<longleftrightarrow>
     (case ct_constraint ct of
        kLinear a \<Rightarrow> length (lc_vars a) = 2 \<and> length (lc_domain a) = 2 \<and> lc_domain a ! 0 = lc_domain a ! 1 \<longrightarrow>
          ct_enforcement_literal ct = [] \<and> length (lc_coeffs a) = 2 \<and> in_int64 (lc_domain a ! 0) \<and>
          list_all (\<lambda>(v, c). 0 \<le> v \<and> v < int (length x) \<and> \<bar>c\<bar> \<le> kint32max \<and> \<bar>elt x v * c\<bar> \<le> kint64max) (zip (lc_vars a) (lc_coeffs a))
      | _ \<Rightarrow> True)"

lemma length_two_cases: "length xs = 2 \<Longrightarrow> \<exists>a b. xs = [a, b]"
  by (auto simp: numeral_2_eq_2 length_Suc_conv)

text \<open>The restriction of one variable by the domain of the other contains the value.\<close>

lemma affine_restriction:
  assumes "canon d2" "y2 \<in> dvals d2" "in_int64 y1" "in_int64 b" "c1 * y1 + c2 * y2 = b"
    and "\<bar>c1\<bar> \<le> kint32max" "\<bar>c2\<bar> \<le> kint32max" "\<bar>y1 * c1\<bar> \<le> kint64max" "\<bar>y2 * c2\<bar> \<le> kint64max"
  defines "restriction \<equiv> Domain_InverseMultiplicationBy (Domain_AdditionWith (Domain_value b)
      (Domain_ContinuousMultiplicationBy d2 (wrap32 (- wrap32 c2)))) (wrap32 c1)"
  shows "canon restriction" "y1 \<in> dvals restriction"
proof -
  have w: "wrap32 (- wrap32 c2) = - c2" "wrap32 c1 = c1"
    using assms(6,7) by (simp_all add: in_int32_def abs_le_iff)
  have c: "in_int64 (- c2)" "- c2 \<noteq> kint64min" "in_int64 c1" "c1 \<noteq> kint64min"
    using assms(6,7) by (auto simp: in_int64_def)
  note m = Domain_ContinuousMultiplicationBy_spec[OF assms(1) c(1,2)]
  have p: "in_int64 (y2 * - c2)" "- c2 < 0 \<longrightarrow> y2 * - c2 \<noteq> kint64min" using assms(9) by (auto simp: in_int64_def)
  have b: "canon (Domain_value b)" using assms(4) by simp
  note a = Domain_AdditionWith_spec[OF b m(1)]
  note i = Domain_InverseMultiplicationBy_spec[OF a(2) c(3,4)]
  have r: "restriction = Domain_InverseMultiplicationBy (Domain_AdditionWith (Domain_value b)
      (Domain_ContinuousMultiplicationBy d2 (- c2))) c1" by (simp add: restriction_def w)
  show "canon restriction" unfolding r by (rule i(2))
  have "y1 * c1 = b + y2 * - c2" using assms(5) by (simp add: algebra_simps)
  moreover have "in_int64 (y1 * c1)" using assms(8) by (auto simp: in_int64_def)
  ultimately show "y1 \<in> dvals restriction" unfolding r i(1) a(1) using assms(3) m(2)[OF assms(2) p] by auto
qed

lemma fits_intersect_at:
  assumes "fits x domains" "\<forall>d \<in> set domains. canon d" "0 \<le> i" "i < int (length x)" "canon s" "elt x i \<in> dvals s"
  shows "fits x (domains[nat i := Domain_IntersectionWith (elt domains i) s])"
    "\<forall>d \<in> set (domains[nat i := Domain_IntersectionWith (elt domains i) s]). canon d"
proof -
  have len: "length x = length domains" using assms(1) by (simp add: fits_def)
  have c: "canon (elt domains i)" using assms(2-4) len unfolding elt_def by (metis nat_less_iff nth_mem)
  note sp = Domain_IntersectionWith_spec[OF c assms(5)]
  have "x ! k \<in> dvals (domains[nat i := Domain_IntersectionWith (elt domains i) s] ! k)" if "k < length x" for k
    using that assms(1,3,4,6) sp len by (cases "k = nat i") (simp_all add: fits_def elt_def)
  then show "fits x (domains[nat i := Domain_IntersectionWith (elt domains i) s])" using len by (simp add: fits_def)
  show "\<forall>d \<in> set (domains[nat i := Domain_IntersectionWith (elt domains i) s]). canon d"
    using assms(2) sp set_update_subset_insert[of domains "nat i" "Domain_IntersectionWith (elt domains i) s"] by auto
qed

text \<open>The update of one variable by the other, and when the code makes it.\<close>

definition reduce_by :: "domain list \<Rightarrow> int32 \<Rightarrow> int64 \<Rightarrow> int32 \<Rightarrow> int64 \<Rightarrow> int64 \<Rightarrow> domain list" where
  "reduce_by domains v1 c1 v2 c2 b =
     (let restriction = Domain_InverseMultiplicationBy (Domain_AdditionWith (Domain_value b)
            (Domain_ContinuousMultiplicationBy (elt domains v2) (wrap32 (- wrap32 c2)))) (wrap32 c1)
      in if Domain_IsIncludedIn (elt domains v1) restriction then domains
         else domains[nat v1 := Domain_IntersectionWith (elt domains v1) restriction])"

lemma affine_reduction_cases:
  "affine_reduction n ct domains = domains \<or>
   (\<exists>a v1 v2 c1 c2 b. ct_constraint ct = kLinear a \<and> length (lc_vars a) = 2 \<and> lc_domain a = [b, b] \<and>
      (v1 = lc_vars a ! 0 \<and> c1 = lc_coeffs a ! 0 \<and> v2 = lc_vars a ! 1 \<and> c2 = lc_coeffs a ! 1 \<or>
       v1 = lc_vars a ! 1 \<and> c1 = lc_coeffs a ! 1 \<and> v2 = lc_vars a ! 0 \<and> c2 = lc_coeffs a ! 0) \<and>
      affine_reduction n ct domains = reduce_by domains v1 c1 v2 c2 b)"
proof (cases "\<exists>a. ct_constraint ct = kLinear a \<and> length (lc_vars a) = 2 \<and> length (lc_domain a) = 2 \<and> lc_domain a ! 0 = lc_domain a ! 1")
  case False
  then show ?thesis by (cases "ct_constraint ct") (auto simp: affine_reduction_def)
next
  case True
  then obtain a b where a: "ct_constraint ct = kLinear a" "length (lc_vars a) = 2" "lc_domain a = [b, b]"
    using length_two_cases by fastforce
  have "affine_reduction n ct domains \<in> {domains,
      reduce_by domains (lc_vars a ! 0) (lc_coeffs a ! 0) (lc_vars a ! 1) (lc_coeffs a ! 1) b,
      reduce_by domains (lc_vars a ! 1) (lc_coeffs a ! 1) (lc_vars a ! 0) (lc_coeffs a ! 0) b}"
    by (simp add: affine_reduction_def a reduce_by_def Let_def)
  then show ?thesis using a by blast
qed

lemma reduce_by_keeps:
  assumes "\<forall>d \<in> set domains. canon d" "fits x domains" "0 \<le> v1" "v1 < int (length x)" "0 \<le> v2" "v2 < int (length x)"
    and "in_int64 b" "c1 * elt x v1 + c2 * elt x v2 = b" "\<bar>c1\<bar> \<le> kint32max" "\<bar>c2\<bar> \<le> kint32max"
    and "\<bar>elt x v1 * c1\<bar> \<le> kint64max" "\<bar>elt x v2 * c2\<bar> \<le> kint64max"
  shows "fits x (reduce_by domains v1 c1 v2 c2 b) \<and> (\<forall>d \<in> set (reduce_by domains v1 c1 v2 c2 b). canon d)"
proof -
  have len: "length x = length domains" using assms(2) by (simp add: fits_def)
  have mem: "canon (elt domains v)" "elt x v \<in> dvals (elt domains v)" "in_int64 (elt x v)"
    if "0 \<le> v" "v < int (length x)" for v
  proof -
    show "canon (elt domains v)" using assms(1) that len unfolding elt_def by (metis nat_less_iff nth_mem)
    then show "elt x v \<in> dvals (elt domains v)" "in_int64 (elt x v)"
      using fits_elt[OF assms(2) that(1)] that(2) len canon_in_int64 by metis+
  qed
  note res = affine_restriction[OF mem(1,2)[OF assms(5,6)] mem(3)[OF assms(3,4)] assms(7-12)]
  show ?thesis using fits_intersect_at[OF assms(2,1,3,4) res] assms(1,2) by (simp add: reduce_by_def Let_def)
qed

lemma affine_reduction_keeps:
  assumes "\<forall>d \<in> set domains. canon d" "fits x domains" "affine_exact x ct" "satisfied x model ct"
  shows "fits x (affine_reduction n ct domains) \<and> (\<forall>d \<in> set (affine_reduction n ct domains). canon d)"
  using affine_reduction_cases[of n ct domains]
proof (elim disjE exE conjE)
  assume "affine_reduction n ct domains = domains"
  then show ?thesis using assms(1,2) by simp
next
  fix a v1 v2 c1 c2 b
  assume ct: "ct_constraint ct = kLinear a" "length (lc_vars a) = 2" "lc_domain a = [b, b]"
    and red: "affine_reduction n ct domains = reduce_by domains v1 c1 v2 c2 b"
  have ex: "ct_enforcement_literal ct = []" "length (lc_coeffs a) = 2" "in_int64 b"
    "list_all (\<lambda>(v, c). 0 \<le> v \<and> v < int (length x) \<and> \<bar>c\<bar> \<le> kint32max \<and> \<bar>elt x v * c\<bar> \<le> kint64max) (zip (lc_vars a) (lc_coeffs a))"
    using assms(3) ct by (auto simp: affine_exact_def)
  obtain u w cu cw where f: "lc_vars a = [u, w]" "lc_coeffs a = [cu, cw]"
    using length_two_cases[OF ct(2)] length_two_cases[OF ex(2)] by auto
  have u: "0 \<le> u" "u < int (length x)" "\<bar>cu\<bar> \<le> kint32max" "\<bar>elt x u * cu\<bar> \<le> kint64max"
    and w: "0 \<le> w" "w < int (length x)" "\<bar>cw\<bar> \<le> kint32max" "\<bar>elt x w * cw\<bar> \<le> kint64max"
    using ex(4) f by simp_all
  have "meaning x model (kLinear a)" using assms(4) ex(1) ct(1) by (simp add: satisfied_def enforced_def)
  then have eq: "cu * elt x u + cw * elt x w = b" "cw * elt x w + cu * elt x u = b"
    using u(1) w(1) by (simp_all add: f ct(3) linear_activity_def ref_value_def mult.commute)
  note k1 = reduce_by_keeps[OF assms(1,2) u(1,2) w(1,2) ex(3) eq(1) u(3) w(3) u(4) w(4)]
  note k2 = reduce_by_keeps[OF assms(1,2) w(1,2) u(1,2) ex(3) eq(2) w(3) u(3) w(4) u(4)]
  { assume "v1 = lc_vars a ! 0" "c1 = lc_coeffs a ! 0" "v2 = lc_vars a ! 1" "c2 = lc_coeffs a ! 1"
    then show ?thesis using k1 red f by simp }
  { assume "v1 = lc_vars a ! 1" "c1 = lc_coeffs a ! 1" "v2 = lc_vars a ! 0" "c2 = lc_coeffs a ! 0"
    then show ?thesis using k2 red f by simp }
qed

lemma affine_reductions_keep:
  assumes "\<forall>d \<in> set domains. canon d" "fits x domains" "\<forall>ct \<in> set cts. affine_exact x ct \<and> satisfied x model ct"
  shows "fits x (foldl (\<lambda>d ct. affine_reduction n ct d) domains cts) \<and>
    (\<forall>d \<in> set (foldl (\<lambda>d ct. affine_reduction n ct d) domains cts). canon d)"
  using assms
proof (induction cts arbitrary: domains)
  case (Cons ct cts)
  have "fits x (affine_reduction n ct domains) \<and> (\<forall>d \<in> set (affine_reduction n ct domains). canon d)"
    by (rule affine_reduction_keeps[OF Cons.prems(1,2), of _ model]) (use Cons.prems(3) in auto)
  then show ?case using Cons.IH[of "affine_reduction n ct domains"] Cons.prems(3) by simp
qed simp

section \<open>The response\<close>

text \<open>What the search knows of the solution: the domains of the presolved variables contain its values.\<close>

definition in_search_domains :: "int list \<Rightarrow> int32 list \<Rightarrow> domain list \<Rightarrow> bool" where
  "in_search_domains x mapping search \<longleftrightarrow>
     list_all (\<lambda>(v, d). 0 \<le> v \<and> v < int (length x) \<and> Domain_Contains d (elt x v))
       (zip (if mapping = [] then map int [0..<length search] else mapping) search)"

definition domains_ok :: "domain list \<Rightarrow> bool" where
  "domains_ok ds \<longleftrightarrow> list_all (\<lambda>d. list_all (\<lambda>i. in_int64 (ci_start i) \<and> in_int64 (ci_end i)) d \<and> IntervalsAreSortedAndNonAdjacent d) ds"

lemma domains_ok_canon: "domains_ok ds \<Longrightarrow> d \<in> set ds \<Longrightarrow> canon d"
  using canon_iff_test[of d] by (simp add: domains_ok_def list_all_iff)

lemma intersect_mapped_keeps:
  assumes "\<forall>d \<in> set domains. canon d" "fits x domains"
    and "\<forall>(i, s) \<in> set ps. 0 \<le> i \<and> i < int (length x) \<and> canon s \<and> elt x i \<in> dvals s"
  shows "fits x (foldl (\<lambda>d (i, s). d[nat i := Domain_IntersectionWith (elt d i) s]) domains ps) \<and>
    (\<forall>d \<in> set (foldl (\<lambda>d (i, s). d[nat i := Domain_IntersectionWith (elt d i) s]) domains ps). canon d)"
  using assms
proof (induction ps arbitrary: domains)
  case (Cons p ps)
  obtain i s where p: "p = (i, s)" by (cases p)
  have i: "0 \<le> i" "i < int (length x)" "canon s" "elt x i \<in> dvals s" using Cons.prems(3) p by simp_all
  note f = fits_intersect_at[OF Cons.prems(2,1) i]
  show ?case using Cons.IH[OF f(2,1)] Cons.prems(3) p by simp
qed simp

lemma fits_initial:
  assumes "variables_typed m" "length x = length (m_variables m)"
    and "list_all2 (\<lambda>var v. DomainInProtoContains (iv_domain var) v) (m_variables m) x"
  shows "fits x (map (\<lambda>v. ReadDomainFromProto (iv_domain v)) (m_variables m))"
    "\<forall>d \<in> set (map (\<lambda>v. ReadDomainFromProto (iv_domain v)) (m_variables m)). canon d"
proof -
  have r: "dvals (ReadDomainFromProto (iv_domain v)) = {y. DomainInProtoContains (iv_domain v) y}"
    "canon (ReadDomainFromProto (iv_domain v))" if "v \<in> set (m_variables m)" for v
    using ReadDomainFromProto_spec[of "iv_domain v"] assms(1) that by (auto simp: variables_typed_def list_all_iff)
  then show "\<forall>d \<in> set (map (\<lambda>v. ReadDomainFromProto (iv_domain v)) (m_variables m)). canon d" by auto
  show "fits x (map (\<lambda>v. ReadDomainFromProto (iv_domain v)) (m_variables m))"
    using assms(2,3) r(1) by (simp add: fits_def list_all2_conv_all_nth)
qed

lemma FillTightenedDomainInResponse_Some:
  assumes "FillTightenedDomainInResponse original m mapping search = Some tightened"
  defines "n \<equiv> length (m_variables original)"
  shows "n \<le> length (m_variables m)" "search \<noteq> [] \<Longrightarrow> mapping = [] \<Longrightarrow> n \<le> length search"
    "tightened = map FillDomainInProto (take n (tightened_domains n (m_constraints m) mapping search
       (map (\<lambda>v. ReadDomainFromProto (iv_domain v)) (m_variables m))))"
  using assms(1) unfolding FillTightenedDomainInResponse_def Let_def n_def
  by (simp_all split: if_split_asm)

lemma tightened_unmapped:
  assumes "fits x domains" "\<forall>d \<in> set domains. canon d" "domains_ok search" "in_search_domains x [] search"
    and "n \<le> length search" "n \<le> length domains" "search \<noteq> []"
  shows "fits x (tightened_domains n cts [] search domains)"
proof -
  have lz: "length (zip (take n domains) search) = n" using assms(5,6) by simp
  have t: "tightened_domains n cts [] search domains =
      map (\<lambda>(d, s). Domain_IntersectionWith d s) (zip (take n domains) search) @ drop n domains" (is "_ = ?t")
    using assms(7) by (simp add: tightened_domains_def)
  have "x ! v \<in> dvals (?t ! v)" if v: "v < length domains" for v
  proof (cases "v < n")
    case True
    have sv: "v < length search" using True assms(5) by simp
    have "(int v, search ! v) \<in> set (zip (map int [0..<length search]) search)"
      using sv by (auto simp: in_set_zip intro!: exI[of _ v])
    then have "Domain_Contains (search ! v) (x ! v)" using assms(4) by (auto simp: in_search_domains_def list_all_iff)
    moreover have c: "canon (search ! v)" "canon (domains ! v)"
      using domains_ok_canon[OF assms(3)] assms(2) sv v by simp_all
    moreover have "?t ! v = Domain_IntersectionWith (domains ! v) (search ! v)"
      using True lz sv assms(6) by (simp add: nth_append)
    ultimately show ?thesis using Domain_IntersectionWith_spec[OF c(2,1)] Domain_Contains_iff[OF c(1)] assms(1) v
      by (simp add: fits_def)
  next
    case False
    then have "?t ! v = domains ! v" using lz assms(6) v by (simp add: nth_append)
    then show ?thesis using assms(1) v by (simp add: fits_def)
  qed
  moreover have "length ?t = length domains" using lz assms(6) by simp
  ultimately show ?thesis unfolding t using assms(1) by (simp add: fits_def)
qed

lemma tightened_mapped:
  assumes "fits x domains" "\<forall>d \<in> set domains. canon d" "domains_ok search" "in_search_domains x mapping search"
    and "mapping \<noteq> []" "\<forall>ct \<in> set cts. affine_exact x ct \<and> satisfied x model ct"
  shows "fits x (tightened_domains n cts mapping search domains)"
proof -
  have "0 \<le> i \<and> i < int (length x) \<and> canon s \<and> elt x i \<in> dvals s" if p: "(i, s) \<in> set (zip mapping search)" for i s
  proof -
    have c: "canon s" using domains_ok_canon[OF assms(3)] set_zip_rightD[OF p] by blast
    then show ?thesis using assms(4,5) p Domain_Contains_iff[OF c] by (auto simp: in_search_domains_def list_all_iff)
  qed
  then have ps: "\<forall>(i, s) \<in> set (zip mapping search). 0 \<le> i \<and> i < int (length x) \<and> canon s \<and> elt x i \<in> dvals s" by blast
  let ?d = "foldl (\<lambda>d (i, s). d[nat i := Domain_IntersectionWith (elt d i) s]) domains (zip mapping search)"
  have m: "fits x ?d" "\<forall>d \<in> set ?d. canon d" using intersect_mapped_keeps[OF assms(2,1) ps] by blast+
  show ?thesis
    using affine_reductions_keep[OF m(2,1) assms(6)] assms(1,5) by (simp add: tightened_domains_def)
qed

text \<open>C9: The tightened domains that FillTightenedDomainInResponse writes keep every solution of the mapping model
  whose values the search domains contain, when every equality of two variables in the mapping model is
  unconditional, has 32-bit coefficients and products that fit in 64 bits.\<close>

theorem FillTightenedDomainInResponse_keeps_solutions:
  assumes "FillTightenedDomainInResponse original m mapping search = Some tightened"
    and "variables_typed m" "list_all2 (\<lambda>var v. DomainInProtoContains (iv_domain var) v) (m_variables m) x"
    and "domains_ok search" "in_search_domains x mapping search"
    and "\<forall>ct \<in> set (m_constraints m). affine_exact x ct \<and> satisfied x m ct"
  shows "length tightened = length (m_variables original) \<and>
    (\<forall>v < length tightened. DomainInProtoContains (tightened ! v) (x ! v))"
proof -
  let ?n = "length (m_variables original)"
  define domains where "domains = map (\<lambda>v. ReadDomainFromProto (iv_domain v)) (m_variables m)"
  define d1 where "d1 = tightened_domains ?n (m_constraints m) mapping search domains"
  have len: "length x = length (m_variables m)" using assms(3) by (simp add: list_all2_lengthD)
  note ini = fits_initial[OF assms(2) len assms(3), folded domains_def]
  note f = FillTightenedDomainInResponse_Some[OF assms(1), folded domains_def, folded d1_def]
  have n: "?n \<le> length domains" using f(1) by (simp add: domains_def)
  consider "search = []" | "search \<noteq> []" "mapping = []" | "mapping \<noteq> []" by blast
  then have "fits x d1"
  proof cases
    case 1
    then show ?thesis using ini(1) by (simp add: d1_def tightened_domains_def)
  next
    case 2
    then show ?thesis
      using tightened_unmapped[OF ini assms(4) _ f(2) n] assms(5) by (simp add: d1_def)
  next
    case 3
    show ?thesis unfolding d1_def by (rule tightened_mapped[OF ini assms(4,5) 3 assms(6)])
  qed
  then have d: "length d1 = length x" "\<forall>v < length x. x ! v \<in> dvals (d1 ! v)" by (simp_all add: fits_def)
  have "length tightened = ?n" unfolding f(3) using n d(1) len by (simp add: domains_def)
  moreover have "DomainInProtoContains (tightened ! v) (x ! v)" if "v < ?n" for v
    using that d f(1) len unfolding f(3) by (simp add: DomainInProtoContains_Fill)
  ultimately show ?thesis by simp
qed

text \<open>An original variable that is half of a new one; the search has restricted the new one to \<open>[4, 9]\<close>.\<close>

definition affine_mapping :: "int64 \<Rightarrow> int64 list \<Rightarrow> CpModelProto" where
  "affine_mapping c d = model_of [[0, 10], d]
     [kLinear \<lparr> lc_vars = [0, 1], lc_coeffs = [c, - 1], lc_domain = [0, 0] \<rparr>]"

theorem FillTightenedDomainInResponse_keeps_solutions_witness:
  "DomainInProtoContains ([[2, 4]] ! 0) ([3, 6] ! 0)"
proof -
  let ?m = "affine_mapping 2 [0, 30]"
  have r: "FillTightenedDomainInResponse (model_of [[0, 10]] []) ?m [1] [[Interval 4 9]] = Some [[2, 4]]"
    "variables_typed ?m" "list_all2 (\<lambda>var v. DomainInProtoContains (iv_domain var) v) (m_variables ?m) [3, 6]"
    "domains_ok [[Interval 4 9]]" "in_search_domains [3, 6] [1] [[Interval 4 9]]"
    "list_all (affine_exact [3, 6]) (m_constraints ?m)" by code_simp+
  have "\<forall>ct \<in> set (m_constraints ?m). affine_exact [3, 6] ct \<and> satisfied [3, 6] ?m ct"
    using r(6) by (simp add: list_all_iff affine_mapping_def model_of_def ct_of_def satisfied_def linear_activity_def
        ref_value_def elt_def)
  from FillTightenedDomainInResponse_keeps_solutions[OF r(1-5) this] show ?thesis by simp
qed

section \<open>Wide coefficients\<close>

text \<open>The coefficient \<open>2 ^ 32 + 1\<close> is read as \<open>1\<close>: the solution \<open>(1, 2 ^ 32 + 1)\<close> is in the model and in the domains
  of the search, and its first value is not in the tightened domain.\<close>

lemma wide_coefficient_loses_solution:
  "FillTightenedDomainInResponse (model_of [[0, 10]] []) (affine_mapping 4294967297 [0, 0, 4294967297, 4294967297]) [1]
     [[Interval 0 0, Interval 4294967297 4294967297]] = Some [[0, 0]]"
  "in_search_domains [1, 4294967297] [1] [[Interval 0 0, Interval 4294967297 4294967297]]"
  "\<forall>ct \<in> set (m_constraints (affine_mapping 4294967297 d)). satisfied [1, 4294967297] (affine_mapping 4294967297 d) ct"
  "\<not> DomainInProtoContains [0, 0] 1"
proof -
  show "FillTightenedDomainInResponse (model_of [[0, 10]] []) (affine_mapping 4294967297 [0, 0, 4294967297, 4294967297]) [1]
     [[Interval 0 0, Interval 4294967297 4294967297]] = Some [[0, 0]]" by code_simp
  show "in_search_domains [1, 4294967297] [1] [[Interval 0 0, Interval 4294967297 4294967297]]" by code_simp
  show "\<forall>ct \<in> set (m_constraints (affine_mapping 4294967297 d)). satisfied [1, 4294967297] (affine_mapping 4294967297 d) ct"
    by (simp add: affine_mapping_def model_of_def ct_of_def satisfied_def linear_activity_def ref_value_def elt_def)
qed simp

end
