(* ===== verification/SatClauses.thy ===== *)
theory SatClauses
  imports SatBase
begin

text \<open>
  The operations on two sorted clauses of \<open>or-tools/ortools/sat/simplification.{h,cc}\<close> -- subsumption,
  self-subsuming resolution, resolution -- and what they compute.
\<close>

section \<open>Operations on two sorted clauses\<close>

text \<open>\<open>SimplifyClause\<close>: \<open>None\<close> is the answer false; otherwise the opposite literal, if any, and the new \<open>b\<close>.
  The second equation is not reached, since \<open>size_diff\<close> is then negative before.\<close>

fun simplify_loop :: "literal list \<Rightarrow> literal list \<Rightarrow> literal option \<Rightarrow> int \<Rightarrow> literal option option" where
  "simplify_loop [] b to_remove size_diff = Some to_remove"
| "simplify_loop (x # a) [] to_remove size_diff = None"
| "simplify_loop (x # a) (y # b) to_remove size_diff =
     (if x = y then simplify_loop a b to_remove size_diff
      else if x = Negated y then
        if to_remove \<noteq> None then None else simplify_loop a b (Some y) size_diff
      else if x < y then None
      else if size_diff - 1 < 0 then None
      else simplify_loop (x # a) b to_remove (size_diff - 1))"

definition SimplifyClause :: "literal list \<Rightarrow> literal list \<Rightarrow> (literal option \<times> literal list) option" where
  "SimplifyClause a b =
     (if length b < length a then None
      else case simplify_loop a b None (int (length b) - int (length a)) of
        None \<Rightarrow> None
      | Some None \<Rightarrow> Some (None, b)
      | Some (Some opposite_literal) \<Rightarrow> Some (Some opposite_literal, remove1 opposite_literal b))"

definition simplify_cost :: "literal list \<Rightarrow> literal list \<Rightarrow> int" where
  "simplify_cost a b = (if length b < length a then 0 else int (length a) + int (length b))"

fun differ_loop :: "literal \<Rightarrow> literal list \<Rightarrow> literal list \<Rightarrow> literal option \<Rightarrow> literal option" where
  "differ_loop l (x # a) (y # b) result =
     (if x = y then differ_loop l a b result
      else if x < y then if x \<noteq> l then None else differ_loop l a (y # b) result
      else if result \<noteq> None then None
      else differ_loop l (x # a) b (Some y))"
| "differ_loop l a b result =
     (if a \<noteq> [] \<and> hd a \<noteq> l then None
      else if b \<noteq> [] then if result \<noteq> None then None else Some (hd b)
      else result)"

definition DifferAtGivenLiteral :: "literal list \<Rightarrow> literal list \<Rightarrow> literal \<Rightarrow> literal option" where
  "DifferAtGivenLiteral a b l = differ_loop l a b None"

fun ComputeResolvant :: "literal \<Rightarrow> literal list \<Rightarrow> literal list \<Rightarrow> literal list option" where
  "ComputeResolvant x (p # a) (q # b) =
     (if p = q then map_option (Cons p) (ComputeResolvant x a b)
      else if p = Negated q then if p \<noteq> x then None else ComputeResolvant x a b
      else if p < q then map_option (Cons p) (ComputeResolvant x a (q # b))
      else map_option (Cons q) (ComputeResolvant x (p # a) b))"
| "ComputeResolvant x a b = Some (a @ b)"

fun resolvant_size_loop :: "literal \<Rightarrow> literal list \<Rightarrow> literal list \<Rightarrow> int \<Rightarrow> int" where
  "resolvant_size_loop x (p # a) (q # b) sz =
     (if p = q then resolvant_size_loop x a b (sz - 1)
      else if p = Negated q then if p \<noteq> x then - 1 else resolvant_size_loop x a b sz
      else if p < q then resolvant_size_loop x a (q # b) sz
      else resolvant_size_loop x (p # a) b sz)"
| "resolvant_size_loop x a b sz = sz"

definition ComputeResolvantSize :: "literal \<Rightarrow> literal list \<Rightarrow> literal list \<Rightarrow> int" where
  "ComputeResolvantSize x a b = resolvant_size_loop x a b (int (length a + length b) - 2)"

section \<open>Sorted clauses\<close>

definition good_clause :: "literal list \<Rightarrow> bool" where
  "good_clause c \<longleftrightarrow> sorted_wrt (<) c \<and> (\<forall>l \<in> set c. Negated l \<notin> set c)"

lemma good_Nil [simp]: "good_clause []"
  by (simp add: good_clause_def)

lemma good_Cons: "good_clause (x # c) \<longleftrightarrow> (\<forall>y \<in> set c. x < y) \<and> Negated x \<notin> set c \<and> good_clause c"
  by (auto simp: good_clause_def)

lemma good_ConsD: "good_clause (x # c) \<Longrightarrow> good_clause c"
  by (simp add: good_Cons)

lemma good_distinct: "good_clause c \<Longrightarrow> distinct c"
  by (auto simp: good_clause_def strict_sorted_iff)

lemma good_remove1: "good_clause c \<Longrightarrow> good_clause (remove1 l c)"
  by (induction c) (auto simp: good_Cons dest: in_set_remove1)

lemma good_negation: "good_clause c \<Longrightarrow> l \<in> set c \<Longrightarrow> Negated l \<notin> set c"
  by (simp add: good_clause_def)

text \<open>A literal and its negation are neighbours.\<close>

lemma Negated_between: "p < q \<Longrightarrow> p \<noteq> Negated q \<Longrightarrow> q \<le> r \<Longrightarrow> r \<noteq> Negated p"
  unfolding Negated_eq by (cases "even p"; cases "even q") (auto, presburger?)

lemma good_less_notin:
  assumes "good_clause (q # b)" "p < q" "p \<noteq> Negated q"
  shows "p \<notin> set (q # b)" "Negated p \<notin> set (q # b)"
proof -
  have "q \<le> r" if "r \<in> set (q # b)" for r using assms(1) that by (auto simp: good_Cons)
  then show "p \<notin> set (q # b)" "Negated p \<notin> set (q # b)"
    using assms(2) Negated_between[OF assms(2,3)] by (metis leD, metis)
qed

section \<open>What the operations compute\<close>

lemma simplify_loop_sound:
  "simplify_loop a b to_remove d = Some r \<Longrightarrow>
     (to_remove \<noteq> None \<longrightarrow> r = to_remove) \<and>
     (r = to_remove \<longrightarrow> set a \<subseteq> set b) \<and>
     (\<forall>y. r = Some y \<and> to_remove = None \<longrightarrow> y \<in> set b \<and> Negated y \<in> set a \<and> set a \<subseteq> insert (Negated y) (set b))"
proof (induction a b to_remove d rule: simplify_loop.induct)
  case (3 x a y b to_remove d)
  then show ?case by (auto split: if_splits)
qed auto

lemma simplify_loop_subset:
  "good_clause a \<Longrightarrow> good_clause b \<Longrightarrow> set a \<subseteq> set b \<Longrightarrow> d = int (length b) - int (length a) \<Longrightarrow>
   simplify_loop a b to_remove d = Some to_remove"
proof (induction a b to_remove d rule: simplify_loop.induct)
  case (3 x a y b to_remove d)
  have g: "good_clause a" "good_clause b" using "3.prems"(1,2) by (auto dest: good_ConsD)
  show ?case
  proof (cases "x = y")
    case True
    have "set a \<subseteq> set b" using "3.prems" True by (auto simp: good_Cons)
    then show ?thesis using "3.IH"(1)[OF True g] "3.prems"(4) True by simp
  next
    case xy: False
    have ny: "x \<noteq> Negated y" using "3.prems"(2,3) by (auto simp: good_Cons)
    have "\<not> x < y" using good_less_notin(1)[OF "3.prems"(2) _ ny] "3.prems"(3) by auto
    then have yx: "y < x" using xy by simp
    have "y \<notin> set (x # a)" using "3.prems"(1) yx by (auto simp: good_Cons)
    then have sub: "set (x # a) \<subseteq> set b" using "3.prems"(3) by auto
    have "length (x # a) \<le> length b"
      using card_mono[OF finite_set sub] good_distinct[OF "3.prems"(1)] card_length[of b] by (simp add: distinct_card del: list.set)
    then show ?thesis using "3.IH"(3) xy ny yx sub "3.prems"(1,4) g(2) by simp
  qed
qed auto

lemma simplify_loop_opposite:
  "good_clause a \<Longrightarrow> good_clause b \<Longrightarrow> y \<in> set b \<Longrightarrow> Negated y \<in> set a \<Longrightarrow> set a \<subseteq> insert (Negated y) (set b) \<Longrightarrow>
   d = int (length b) - int (length a) \<Longrightarrow> simplify_loop a b None d = Some (Some y)"
proof (induction a b "None :: literal option" d rule: simplify_loop.induct)
  case (3 x a q b d)
  have g: "good_clause a" "good_clause b" using "3.prems"(1,2) by (auto dest: good_ConsD)
  have ya: "y \<notin> set (x # a)" using good_negation[OF "3.prems"(1), of "Negated y"] "3.prems"(4) by auto
  have nb: "Negated y \<notin> set (q # b)" using good_negation[OF "3.prems"(2,3)] .
  show ?case
  proof (cases "x = q")
    case True
    then have "y \<in> set b" "Negated y \<in> set a" using "3.prems"(3,4) ya nb by auto
    moreover have "set a \<subseteq> insert (Negated y) (set b)" using "3.prems"(1,5) True by (auto simp: good_Cons)
    ultimately show ?thesis using "3.hyps"(1)[OF True g] "3.prems"(6) True by simp
  next
    case xq: False
    show ?thesis
    proof (cases "x = Negated q")
      case neg: True
      have qy: "q = y"
      proof (rule ccontr)
        assume "q \<noteq> y"
        then have "Negated q \<in> set (q # b)" using "3.prems"(5) neg by auto
        then show False using good_negation[OF "3.prems"(2), of q] by simp
      qed
      have "set a \<subseteq> set b" using "3.prems"(1,5) neg qy ya by (auto simp: good_Cons)
      then show ?thesis using simplify_loop_subset[OF g, of d "Some y"] "3.prems"(6) neg qy by simp
    next
      case ny: False
      have "\<not> x < q"
      proof
        assume "x < q"
        note nn = good_less_notin[OF "3.prems"(2) this ny]
        have "x = Negated y" using "3.prems"(5) nn(1) by auto
        then show False using "3.prems"(3) nn(2) by simp
      qed
      then have qx: "q < x" using xq by simp
      have "q \<noteq> Negated x" using ny by auto
      then have nq: "q \<notin> set (x # a)" "Negated q \<notin> set (x # a)" using good_less_notin[OF "3.prems"(1) qx] by auto
      have y: "y \<in> set b" using "3.prems"(3,4) nq(2) by auto
      have sub: "set (x # a) \<subseteq> insert (Negated y) (set b)" using "3.prems"(5) nq(1) by auto
      have "set (x # a) - {Negated y} \<subseteq> set b - {y}" using sub ya by auto
      from card_mono[OF _ this] have "card (set (x # a)) - 1 \<le> card (set b) - 1"
        using "3.prems"(4) y by (simp add: card_Diff_singleton del: list.set)
      moreover have "0 < length b" using y by (cases b) simp_all
      ultimately have "length (x # a) \<le> length b"
        using distinct_card[OF good_distinct[OF "3.prems"(1)]] distinct_card[OF good_distinct[OF g(2)]] by linarith
      then show ?thesis using "3.hyps"(2) xq ny qx sub y "3.prems"(1,4,6) g(2) by simp
    qed
  qed
qed auto

text \<open>The clause \<open>a\<close> is inside \<open>b\<close>, or is but for a literal whose negation is in \<open>b\<close>.\<close>

definition strengthens :: "literal list \<Rightarrow> literal \<Rightarrow> literal list \<Rightarrow> bool" where
  "strengthens a y b \<longleftrightarrow> y \<in> set b \<and> Negated y \<in> set a \<and> set a - {Negated y} \<subseteq> set b - {y}"

lemma SimplifyClause_spec:
  assumes "good_clause a" "good_clause b"
  shows "SimplifyClause a b =
     (if set a \<subseteq> set b then Some (None, b)
      else if \<exists>y. strengthens a y b then Some (Some (THE y. strengthens a y b), remove1 (THE y. strengthens a y b) b)
      else None)"
proof -
  let ?d = "int (length b) - int (length a)"
  have str: "strengthens a y b \<longleftrightarrow> y \<in> set b \<and> Negated y \<in> set a \<and> set a \<subseteq> insert (Negated y) (set b)" for y
    using good_negation[OF assms(1)] unfolding strengthens_def by auto
  have len: "length a \<le> length b" if "set a \<subseteq> set b"
    using card_mono[OF _ that] good_distinct[OF assms(1)] good_distinct[OF assms(2)] by (simp add: distinct_card)
  have slen: "length a \<le> length b" if "strengthens a y b" for y
  proof -
    have "card (set a - {Negated y}) \<le> card (set b - {y})" using that by (intro card_mono) (auto simp: strengthens_def)
    then have "card (set a) - 1 \<le> card (set b) - 1" using that by (simp add: strengthens_def card_Diff_singleton)
    moreover have "0 < length b" using that by (cases b) (simp_all add: strengthens_def)
    ultimately show ?thesis
      using distinct_card[OF good_distinct[OF assms(1)]] distinct_card[OF good_distinct[OF assms(2)]] by linarith
  qed
  show ?thesis
  proof (cases "set a \<subseteq> set b")
    case True
    then show ?thesis using simplify_loop_subset[OF assms True refl] len by (simp add: SimplifyClause_def)
  next
    case no: False
    show ?thesis
    proof (cases "\<exists>y. strengthens a y b")
      case True
      then obtain y where y: "strengthens a y b" by blast
      have l: "simplify_loop a b None ?d = Some (Some z)" if "strengthens a z b" for z
        using simplify_loop_opposite[OF assms, of z] that unfolding str by blast
      have "z = y" if "strengthens a z b" for z using l[OF y] l[OF that] by simp
      then have "(THE y. strengthens a y b) = y" using y by (intro the_equality)
      then show ?thesis using True no l[OF y] slen[OF y] by (simp add: SimplifyClause_def)
    next
      case False
      have "simplify_loop a b None ?d = None"
      proof (rule ccontr)
        assume "simplify_loop a b None ?d \<noteq> None"
        then obtain r where "simplify_loop a b None ?d = Some r" by blast
        from simplify_loop_sound[OF this] show False using no False unfolding str by (cases r) auto
      qed
      then show ?thesis using no False by (simp add: SimplifyClause_def)
    qed
  qed
qed

text \<open>The cases of the answer.\<close>

lemma SimplifyClause_cases:
  assumes "good_clause a" "good_clause b"
  obtains (fails) "SimplifyClause a b = None" "\<not> set a \<subseteq> set b" "\<And>y. \<not> strengthens a y b"
    | (subsumed) "SimplifyClause a b = Some (None, b)" "set a \<subseteq> set b"
    | (strengthened) y where "SimplifyClause a b = Some (Some y, remove1 y b)" "strengthens a y b"
proof (cases "set a \<subseteq> set b")
  case True
  then show ?thesis using subsumed by (simp add: SimplifyClause_spec[OF assms])
next
  case no: False
  show ?thesis
  proof (cases "\<exists>y. strengthens a y b")
    case True
    have u: "z = y" if "strengthens a y b" "strengthens a z b" for y z
    proof (rule ccontr)
      assume "z \<noteq> y"
      then have "Negated y \<in> set b" using that unfolding strengthens_def by auto
      then show False using that(1) good_negation[OF assms(2)] by (auto simp: strengthens_def)
    qed
    obtain y where y: "strengthens a y b" using True by blast
    then have "(THE y. strengthens a y b) = y" using u by (intro the_equality) auto
    then show ?thesis using strengthened[of y] y True no by (simp add: SimplifyClause_spec[OF assms])
  qed (use no fails in \<open>simp add: SimplifyClause_spec[OF assms]\<close>)
qed

text \<open>Resolution.\<close>

definition clash :: "literal \<Rightarrow> literal list \<Rightarrow> literal list \<Rightarrow> bool" where
  "clash x a b \<longleftrightarrow> (\<exists>l. l \<noteq> x \<and> l \<in> set a \<and> Negated l \<in> set b)"

definition resolved :: "literal \<Rightarrow> literal list \<Rightarrow> literal list \<Rightarrow> literal list \<Rightarrow> bool" where
  "resolved x a b c \<longleftrightarrow> sorted_wrt (<) c \<and> \<not> clash x a b \<and>
     (if x \<in> set a \<and> Negated x \<in> set b
      then set c = set a \<union> set b - {x, Negated x} else set c = set a \<union> set b)"

definition pairs :: "literal \<Rightarrow> literal list \<Rightarrow> literal list \<Rightarrow> int" where
  "pairs x a b = (if x \<in> set a \<and> Negated x \<in> set b then 2 else 0)"

lemma merge_same:
  assumes "good_clause (p # a)" "good_clause (p # b)"
  shows "clash x (p # a) (p # b) = clash x a b" "pairs x (p # a) (p # b) = pairs x a b"
    "resolved x a b c \<Longrightarrow> resolved x (p # a) (p # b) (p # c)"
proof -
  have n: "Negated p \<notin> set a" "Negated p \<notin> set b" "p \<notin> set a" "p \<notin> set b" using assms by (auto simp: good_Cons)
  show "clash x (p # a) (p # b) = clash x a b" using n by (auto simp: clash_def)
  then show "resolved x a b c \<Longrightarrow> resolved x (p # a) (p # b) (p # c)"
    using n assms by (auto simp: resolved_def good_Cons split: if_splits)
  show "pairs x (p # a) (p # b) = pairs x a b" using n by (auto simp: pairs_def)
qed

lemma merge_pair:
  assumes "good_clause (x # a)" "good_clause (Negated x # b)"
  shows "clash x (x # a) (Negated x # b) = clash x a b" "pairs x (x # a) (Negated x # b) = pairs x a b + 2"
    "resolved x a b c \<Longrightarrow> resolved x (x # a) (Negated x # b) c"
proof -
  have n: "x \<notin> set a" "Negated x \<notin> set b" "Negated x \<notin> set a" "x \<notin> set b" using assms by (auto simp: good_Cons)
  show "clash x (x # a) (Negated x # b) = clash x a b" using n by (auto simp: clash_def)
  then show "resolved x a b c \<Longrightarrow> resolved x (x # a) (Negated x # b) c" using n by (auto simp: resolved_def)
  show "pairs x (x # a) (Negated x # b) = pairs x a b + 2" using n by (auto simp: pairs_def)
qed

lemma merge_left:
  assumes "good_clause (p # a)" "good_clause (q # b)" "p < q" "p \<noteq> Negated q"
  shows "clash x (p # a) (q # b) = clash x a (q # b)" "pairs x (p # a) (q # b) = pairs x a (q # b)"
    "resolved x a (q # b) c \<Longrightarrow> resolved x (p # a) (q # b) (p # c)"
proof -
  note n = good_less_notin[OF assms(2,3,4)]
  have m: "p \<notin> set a" "Negated p \<notin> set a" using assms(1) by (auto simp: good_Cons)
  show k: "clash x (p # a) (q # b) = clash x a (q # b)" using n by (auto simp: clash_def)
  show "pairs x (p # a) (q # b) = pairs x a (q # b)" using n m by (auto simp: pairs_def)
  assume r: "resolved x a (q # b) c"
  have "\<forall>y \<in> set a \<union> set (q # b). p < y" using assms(1,2,3) by (auto simp: good_Cons)
  moreover have "set c \<subseteq> set a \<union> set (q # b)" using r by (auto simp: resolved_def split: if_splits)
  ultimately have "\<forall>y \<in> set c. p < y" by blast
  then show "resolved x (p # a) (q # b) (p # c)" using r n m k unfolding resolved_def by (auto split: if_splits)
qed

lemma merge_right:
  assumes "good_clause (p # a)" "good_clause (q # b)" "q < p" "p \<noteq> Negated q"
  shows "clash x (p # a) (q # b) = clash x (p # a) b" "pairs x (p # a) (q # b) = pairs x (p # a) b"
    "resolved x (p # a) b c \<Longrightarrow> resolved x (p # a) (q # b) (q # c)"
proof -
  have "q \<noteq> Negated p" using assms(4) by auto
  note n = good_less_notin[OF assms(1,3) this]
  have m: "q \<notin> set b" "Negated q \<notin> set b" using assms(2) by (auto simp: good_Cons)
  have nn: "l \<in> set (p # a) \<Longrightarrow> Negated l \<noteq> q" for l using n(2) by (metis Negated_Negated)
  show k: "clash x (p # a) (q # b) = clash x (p # a) b" using nn by (auto simp: clash_def)
  show "pairs x (p # a) (q # b) = pairs x (p # a) b" using nn by (auto simp: pairs_def)
  assume r: "resolved x (p # a) b c"
  have "\<forall>y \<in> set (p # a) \<union> set b. q < y" using assms(1,2,3) by (auto simp: good_Cons)
  moreover have "set c \<subseteq> set (p # a) \<union> set b" using r by (auto simp: resolved_def split: if_splits)
  ultimately have "\<forall>y \<in> set c. q < y" by blast
  moreover have "q \<noteq> x \<and> q \<noteq> Negated x" if "x \<in> set (p # a)" using n(1) nn[OF that] that by metis
  ultimately show "resolved x (p # a) (q # b) (q # c)" using r k nn unfolding resolved_def by (auto split: if_splits)
qed

definition resolution_result :: "literal \<Rightarrow> literal list \<Rightarrow> literal list \<Rightarrow> literal list option \<Rightarrow> bool" where
  "resolution_result x a b r =
     (case r of
        None \<Rightarrow> clash x a b \<and> (\<forall>sz. resolvant_size_loop x a b sz = - 1)
      | Some c \<Rightarrow> resolved x a b c \<and>
          (\<forall>sz. resolvant_size_loop x a b sz = sz + int (length c) - int (length a) - int (length b) + pairs x a b))"

lemma ComputeResolvant_loop:
  "good_clause a \<Longrightarrow> good_clause b \<Longrightarrow> resolution_result x a b (ComputeResolvant x a b)"
proof (induction x a b rule: ComputeResolvant.induct)
  case (1 x p a q b)
  note g = good_ConsD[OF "1.prems"(1)] good_ConsD[OF "1.prems"(2)]
  consider "p = q" | "p \<noteq> q" "p = Negated q" "p \<noteq> x" | "p \<noteq> q" "p = Negated q" "p = x"
    | "p \<noteq> q" "p \<noteq> Negated q" "p < q" | "p \<noteq> q" "p \<noteq> Negated q" "\<not> p < q" by blast
  then show ?case
  proof cases
    case 1
    note m = merge_same[OF "1.prems"(1), of b x, folded 1, OF "1.prems"(2)[folded 1]]
    show ?thesis using "1.IH"(1)[OF 1 g] m 1 by (auto simp: resolution_result_def split: option.splits)
  next
    case 2
    have "clash x (p # a) (q # b)" using 2 by (auto simp: clash_def)
    then show ?thesis using 2 by (simp add: resolution_result_def)
  next
    case 3
    have q: "q = Negated x" using 3 by simp
    note m = merge_pair[OF "1.prems"[unfolded 3(3) q]]
    show ?thesis using "1.IH"(2)[OF 3(1,2) _ g] 3(3) q m by (auto simp: resolution_result_def split: option.splits)
  next
    case 4
    note m = merge_left[OF "1.prems" 4(3,2)]
    show ?thesis using "1.IH"(3)[OF 4 g(1) "1.prems"(2)] 4 m by (auto simp: resolution_result_def split: option.splits)
  next
    case 5
    then have "q < p" by simp
    note m = merge_right[OF "1.prems" this 5(2)]
    show ?thesis using "1.IH"(4)[OF 5 "1.prems"(1) g(2)] 5 m by (auto simp: resolution_result_def split: option.splits)
  qed
qed (auto simp: good_clause_def resolution_result_def resolved_def clash_def pairs_def)

lemma ComputeResolvant_None_iff:
  assumes "good_clause a" "good_clause b"
  shows "ComputeResolvant x a b = None \<longleftrightarrow> clash x a b"
  using ComputeResolvant_loop[OF assms, of x] by (auto simp: resolution_result_def resolved_def split: option.splits)

lemma ComputeResolvant_Some:
  assumes "good_clause a" "good_clause b" "x \<in> set a" "Negated x \<in> set b" "ComputeResolvant x a b = Some c"
  shows "good_clause c" "set c = (set a - {x}) \<union> (set b - {Negated x})" "ComputeResolvantSize x a b = int (length c)"
proof -
  have r: "resolved x a b c" and l: "ComputeResolvantSize x a b = int (length c)"
    using ComputeResolvant_loop[OF assms(1,2), of x] assms(3-5)
    by (auto simp: resolution_result_def pairs_def ComputeResolvantSize_def)
  have n: "Negated x \<notin> set a" "x \<notin> set b"
    using good_negation[OF assms(1,3)] good_negation[OF assms(2,4)] by auto
  show s: "set c = (set a - {x}) \<union> (set b - {Negated x})" using r n assms(3,4) by (auto simp: resolved_def)
  have "Negated l \<notin> set c" if "l \<in> set c" for l
  proof
    assume m: "Negated l \<in> set c"
    have k: "\<And>m. m \<in> set a \<Longrightarrow> Negated m \<in> set b \<Longrightarrow> m = x" using r by (auto simp: resolved_def clash_def)
    show False using that m k[of l] k[of "Negated l"] good_negation[OF assms(1), of l] good_negation[OF assms(2), of l]
      unfolding s by auto
  qed
  then show "good_clause c" using r by (simp add: good_clause_def resolved_def)
  show "ComputeResolvantSize x a b = int (length c)" by (rule l)
qed

lemma ComputeResolvantSize_None: "good_clause a \<Longrightarrow> good_clause b \<Longrightarrow> ComputeResolvant x a b = None \<Longrightarrow> ComputeResolvantSize x a b = - 1"
  using ComputeResolvant_loop[of a b x] by (simp add: resolution_result_def ComputeResolvantSize_def)

section \<open>A difference in one literal\<close>

lemma differ_loop_some:
  assumes "sorted_wrt (<) a" "sorted_wrt (<) b" "length a = length b + 1 \<or> length a = length b \<and> l \<notin> set a"
  shows "differ_loop l a b (Some z) = Some y \<longleftrightarrow> y = z \<and> set a - set b \<subseteq> {l} \<and> set b \<subseteq> set a"
  using assms
proof (induction l a b "Some z" rule: differ_loop.induct)
  case (1 l p a q b)
  consider "p = q" | "p < q" "p \<noteq> l" | "p < q" "p = l" | "q < p" by force
  then show ?case
  proof cases
    case 1
    then have "set (p # a) - set (q # b) = set a - set b" "set (q # b) \<subseteq> set (p # a) \<longleftrightarrow> set b \<subseteq> set a"
      using "1.prems"(1,2) by auto
    then show ?thesis using "1.hyps"(1) "1.prems" 1 by auto
  next
    case 2
    then have "p \<notin> set (q # b)" using "1.prems"(2) by auto
    then show ?thesis using 2 by auto
  next
    case 3
    then have n: "p \<notin> set (q # b)" "l \<notin> set a" using "1.prems"(1,2) by auto
    then have "set (p # a) - set (q # b) \<subseteq> {l} \<longleftrightarrow> set a - set (q # b) \<subseteq> {l}" "set (q # b) \<subseteq> set (p # a) \<longleftrightarrow> set (q # b) \<subseteq> set a"
      using 3 by auto
    then show ?thesis using "1.hyps"(2) "1.prems" 3 n by auto
  next
    case 4
    then have "q \<notin> set (p # a)" using "1.prems"(1) by auto
    then show ?thesis using 4 by auto
  qed
qed (auto simp: length_Suc_conv)

lemma differ_loop_none:
  assumes "sorted_wrt (<) a" "sorted_wrt (<) b" "length b = length a \<or> length b = length a + 1 \<and> l \<notin> set a"
  shows "differ_loop l a b None = Some y \<longleftrightarrow> set a - set b \<subseteq> {l} \<and> set b - set a = {y}"
  using assms
proof (induction l a b "None :: literal option" rule: differ_loop.induct [case_names 1 left right])
  case (1 l p a q b)
  consider "p = q" | "p < q" "p \<noteq> l" | "p < q" "p = l" | "q < p" by force
  then show ?case
  proof cases
    case 1
    then have "set (p # a) - set (q # b) = set a - set b" "set (q # b) - set (p # a) = set b - set a"
      using "1.prems"(1,2) by auto
    then show ?thesis using "1.hyps"(1) "1.prems" 1 by auto
  next
    case 2
    then have "p \<notin> set (q # b)" using "1.prems"(2) by auto
    then show ?thesis using 2 by auto
  next
    case 3
    then have n: "p \<notin> set (q # b)" "l \<notin> set a" using "1.prems"(1,2) by auto
    then have "set (p # a) - set (q # b) \<subseteq> {l} \<longleftrightarrow> set a - set (q # b) \<subseteq> {l}" "set (q # b) - set (p # a) = set (q # b) - set a"
      using 3 by auto
    then show ?thesis using "1.hyps"(2) "1.prems" 3 n by auto
  next
    case 4
    then have n: "q \<notin> set (p # a)" "q \<notin> set b" using "1.prems"(1,2) by auto
    have "differ_loop l (p # a) b (Some q) = Some y \<longleftrightarrow> y = q \<and> set (p # a) - set b \<subseteq> {l} \<and> set b \<subseteq> set (p # a)"
      using "1.prems" by (intro differ_loop_some) auto
    moreover have "set (p # a) - set (q # b) = set (p # a) - set b" using n by auto
    moreover have "set (q # b) - set (p # a) = insert q (set b - set (p # a))" using n by auto
    ultimately show ?thesis using 4 n by auto
  qed
next
  case (left l b)
  then show ?case by (cases b) auto
next
  case (right l a)
  then show ?case by auto
qed

text \<open>The clause with one literal in place of another.\<close>

definition variant :: "literal \<Rightarrow> literal \<Rightarrow> literal list \<Rightarrow> literal list" where
  "variant l y c = sorted_list_of_set (insert y (set c - {l}))"

lemma set_variant [simp]: "set (variant l y c) = insert y (set c - {l})"
  unfolding variant_def by (rule set_sorted_list_of_set) simp

lemma sorted_variant: "sorted_wrt (<) (variant l y c)"
  unfolding variant_def by (rule strict_sorted_list_of_set)

lemma sorted_sets_eq: "sorted_wrt (<) a \<Longrightarrow> sorted_wrt (<) b \<Longrightarrow> set a = set b \<Longrightarrow> a = (b :: literal list)"
  by (simp add: strict_sorted_iff sorted_distinct_set_unique)

lemma variant_self: "good_clause c \<Longrightarrow> l \<in> set c \<Longrightarrow> variant l l c = c"
  by (rule sorted_sets_eq[OF sorted_variant]) (auto simp: good_clause_def)

lemma DifferAtGivenLiteral_Some:
  assumes "good_clause a" "good_clause b" "length a = length b" "l \<in> set a"
  shows "DifferAtGivenLiteral a b l = Some y \<longleftrightarrow> y \<notin> set a \<and> b = variant l y a"
proof -
  have s: "sorted_wrt (<) a" "sorted_wrt (<) b" using assms(1,2) by (simp_all add: good_clause_def)
  have c: "card (set a) = card (set b)" using assms(1-3) by (simp add: distinct_card good_distinct)
  have "set a - set b \<subseteq> {l} \<and> set b - set a = {y} \<longleftrightarrow> y \<notin> set a \<and> set b = insert y (set a - {l})" (is "?L \<longleftrightarrow> ?R")
  proof
    assume l: ?L
    have "card (set a - set b) = card (set b - set a)"
      using c by (simp add: card_Diff_subset_Int Int_commute)
    also have "\<dots> = 1" using l by simp
    finally have "set a - set b \<noteq> {}" by force
    then have "set a - set b = {l}" using l by auto
    then show ?R using l by auto
  next
    assume ?R
    then show ?L using assms(4) by auto
  qed
  moreover have "b = variant l y a \<longleftrightarrow> set b = insert y (set a - {l})"
    using sorted_sets_eq[OF s(2) sorted_variant, of l y a] by auto
  ultimately show ?thesis using differ_loop_none[OF s] assms(3) by (simp add: DifferAtGivenLiteral_def)
qed

end
