(* ===== verification/SatPostsolver.thy ===== *)
theory SatPostsolver
  imports SatBase "HOL-Library.Monad_Syntax"
begin

text \<open>
  The class \<open>SatPostsolver\<close> of \<open>or-tools/ortools/sat/simplification.{h,cc}\<close>, that turns a solution of the
  presolved clauses into a solution of the original ones.  An index that may be \<open>kNoBooleanVariable\<close> is an option.
\<close>

section \<open>The postsolver\<close>

record sat_postsolver =
  initial_num_variables :: nat
  po_num_variables :: nat
  po_clauses :: "(literal \<times> literal list) list"
  reverse_mapping :: "nat option list"
  po_assignment :: variables_assignment

definition resize_list :: "nat \<Rightarrow> 'a \<Rightarrow> 'a list \<Rightarrow> 'a list" where
  "resize_list n d xs = take n xs @ replicate (n - length xs) d"

definition Assignment_Resize :: "nat \<Rightarrow> variables_assignment \<Rightarrow> variables_assignment" where
  "Assignment_Resize n a = resize_list (2 * n) False a"

definition SatPostsolver_init :: "nat \<Rightarrow> sat_postsolver" where
  "SatPostsolver_init n = \<lparr> initial_num_variables = n, po_num_variables = n, po_clauses = [],
     reverse_mapping = map Some [0..<n], po_assignment = Assignment_Resize n [] \<rparr>"

text \<open>New variables get the next numbers.\<close>

definition extend_mapping :: "nat \<Rightarrow> sat_postsolver \<Rightarrow> sat_postsolver" where
  "extend_mapping new_size p =
     (if length (reverse_mapping p) < new_size then
        let n = po_num_variables p; n' = n + (new_size - length (reverse_mapping p))
        in p\<lparr> reverse_mapping := reverse_mapping p @ map Some [n..<n'], po_num_variables := n',
              po_assignment := Assignment_Resize n' (po_assignment p) \<rparr>
      else p)"

text \<open>\<open>None\<close> is a literal of a deleted variable.\<close>

definition ApplyReverseMapping :: "literal \<Rightarrow> sat_postsolver \<Rightarrow> (literal \<times> sat_postsolver) option" where
  "ApplyReverseMapping l p =
     (let p1 = extend_mapping (Variable l + 1) p
      in case reverse_mapping p1 ! Variable l of
           None \<Rightarrow> None
         | Some v \<Rightarrow> Some (if even l then 2 * v else 2 * v + 1, p1))"

fun map_literals :: "literal list \<Rightarrow> sat_postsolver \<Rightarrow> (literal list \<times> sat_postsolver) option" where
  "map_literals [] p = Some ([], p)"
| "map_literals (l # ls) p =
     do { (l', p1) \<leftarrow> ApplyReverseMapping l p;
          (ls', p2) \<leftarrow> map_literals ls p1;
          Some (l' # ls', p2) }"

definition SatPostsolver_Add :: "literal \<Rightarrow> literal list \<Rightarrow> sat_postsolver \<Rightarrow> sat_postsolver option" where
  "SatPostsolver_Add x clause p =
     do { (x', p1) \<leftarrow> ApplyReverseMapping x p;
          (clause', p2) \<leftarrow> map_literals clause p1;
          Some (p2\<lparr> po_clauses := po_clauses p2 @ [(x', clause')] \<rparr>) }"

definition FixVariable :: "literal \<Rightarrow> sat_postsolver \<Rightarrow> sat_postsolver option" where
  "FixVariable x p =
     do { (l, p1) \<leftarrow> ApplyReverseMapping x p;
          Some (p1\<lparr> po_assignment := AssignFromTrueLiteral l (po_assignment p1) \<rparr>) }"

definition set_image :: "nat option list \<Rightarrow> nat option \<times> nat option \<Rightarrow> nat option list" where
  "set_image new_mapping = (\<lambda>(image, old).
     case image of
       None \<Rightarrow> new_mapping
     | Some i \<Rightarrow>
         (if i < length new_mapping then new_mapping else resize_list (i + 1) None new_mapping)[i := old])"

definition ApplyMapping :: "nat option list \<Rightarrow> sat_postsolver \<Rightarrow> sat_postsolver" where
  "ApplyMapping mapping p =
     (let p1 = extend_mapping (length mapping) p
      in p1\<lparr> reverse_mapping := foldl set_image [] (zip mapping (reverse_mapping p1)) \<rparr>)"

definition assign_unassigned :: "variables_assignment \<Rightarrow> variables_assignment" where
  "assign_unassigned a =
     foldl (\<lambda>a v. if Assignment_LiteralIsAssigned a (2 * v) then a else AssignFromTrueLiteral (2 * v) a) a
       [0..<length a div 2]"

definition postsolve_step :: "literal \<times> literal list \<Rightarrow> variables_assignment \<Rightarrow> variables_assignment" where
  "postsolve_step = (\<lambda>(x, clause) a.
     if list_ex (Assignment_LiteralIsTrue a) clause then a
     else AssignFromTrueLiteral x (UnassignLiteral (Negated x) a))"

definition SatPostsolver_Postsolve :: "sat_postsolver \<Rightarrow> variables_assignment \<Rightarrow> variables_assignment" where
  "SatPostsolver_Postsolve p a =
     Assignment_Resize (initial_num_variables p) (foldr postsolve_step (po_clauses p) (assign_unassigned a))"

fun assign_solution :: "(bool \<times> nat option) list \<Rightarrow> variables_assignment \<Rightarrow> variables_assignment option" where
  "assign_solution [] a = Some a"
| "assign_solution ((b, v) # r) a =
     (case v of
        None \<Rightarrow> None
      | Some v \<Rightarrow> assign_solution r (AssignFromTrueLiteral (if b then 2 * v else 2 * v + 1) a))"

definition PostsolveSolution :: "bool list \<Rightarrow> sat_postsolver \<Rightarrow> (bool list \<times> sat_postsolver) option" where
  "PostsolveSolution solution p =
     (if length (reverse_mapping p) < length solution then None
      else do { a \<leftarrow> assign_solution (zip solution (reverse_mapping p)) (po_assignment p);
                let a' = SatPostsolver_Postsolve p a;
                Some (map (\<lambda>v. Assignment_LiteralIsTrue a' (2 * v)) [0..<initial_num_variables p],
                      p\<lparr> po_assignment := a' \<rparr>) })"

text \<open>The getter that puts the associated literal first.\<close>

definition SatPostsolver_Clause :: "sat_postsolver \<Rightarrow> nat \<Rightarrow> literal list" where
  "SatPostsolver_Clause p i =
     (let (x, clause) = po_clauses p ! i; j = length (takeWhile (\<lambda>l. l \<noteq> x) clause)
      in if j < length clause then clause[0 := clause ! j, j := clause ! 0] else clause)"

end
