(* ===== verification/AdjustableHeap.thy ===== *)
theory AdjustableHeap
  imports Prelude "HOL-Library.Multiset" "HOL-Library.Monad_Syntax"
begin

text \<open>
  The priority queue \<open>AdjustablePriorityQueue\<close> of \<open>or-tools/ortools/base/adjustable_priority_queue.h\<close>: a binary
  heap of pointers whose elements remember their position.  An element is its identity; the position it holds
  is the map \<open>heap_index\<close>, and \<open>lower a b\<close> is the comparator \<open>c_(*a, *b)\<close> on what the elements hold now.
\<close>

section \<open>The queue\<close>

record 'e pq =
  pq_elems :: "'e list"
  heap_index :: "'e \<Rightarrow> int"

text \<open>Storing an element at a position, which it is told.\<close>

definition place :: "'e \<Rightarrow> nat \<Rightarrow> 'e pq \<Rightarrow> 'e pq" where
  "place e i q = q\<lparr> pq_elems := (pq_elems q)[i := e], heap_index := (heap_index q)(e := int i) \<rparr>"

lemma length_place [simp]: "length (pq_elems (place e i q)) = length (pq_elems q)"
  by (simp add: place_def)

definition parent :: "nat \<Rightarrow> nat" where "parent i = (i - 1) div 2"

lemma parent_less: "0 < j \<Longrightarrow> parent j < j"
  unfolding parent_def by linarith

lemma parent_cases: "0 < j \<Longrightarrow> j = 1 + 2 * parent j \<or> j = 2 + 2 * parent j"
  unfolding parent_def by presburger

lemma parent_children [simp]: "parent (1 + 2 * i) = i" "parent (2 + 2 * i) = i" "parent (Suc (2 * i)) = i"
    "parent (Suc (Suc (2 * i))) = i"
  by (simp_all add: parent_def)

lemma parent_0 [simp]: "parent 0 = 0"
  by (simp add: parent_def)

lemma parent_iff: "0 < j \<Longrightarrow> parent j = i \<longleftrightarrow> j = 1 + 2 * i \<or> j = 2 + 2 * i"
  using parent_cases[of j] by auto

function adjust_up :: "('e \<Rightarrow> 'e \<Rightarrow> bool) \<Rightarrow> 'e \<Rightarrow> nat \<Rightarrow> 'e pq \<Rightarrow> 'e pq" where
  "adjust_up lower t i q =
     (if i > 0 \<and> lower (pq_elems q ! parent i) t
      then adjust_up lower t (parent i) (place (pq_elems q ! parent i) i q)
      else place t i q)"
  by pat_completeness auto
termination by (relation "measure (\<lambda>(_, _, i, _). i)") (auto simp: parent_less)

definition AdjustUpwards :: "('e \<Rightarrow> 'e \<Rightarrow> bool) \<Rightarrow> nat \<Rightarrow> 'e pq \<Rightarrow> 'e pq" where
  "AdjustUpwards lower i q = adjust_up lower (pq_elems q ! i) i q"

text \<open>The child that goes up: the right one when the left one is lower.\<close>

definition next_child :: "('e \<Rightarrow> 'e \<Rightarrow> bool) \<Rightarrow> nat \<Rightarrow> 'e pq \<Rightarrow> nat" where
  "next_child lower i q =
     (let left_child = 1 + 2 * i; right_child = left_child + 1
      in if right_child < length (pq_elems q) \<and> lower (pq_elems q ! left_child) (pq_elems q ! right_child)
         then right_child else left_child)"

lemma next_child_cases: "next_child lower i q = 1 + 2 * i \<or> next_child lower i q = 2 + 2 * i \<and> 2 + 2 * i < length (pq_elems q)"
  by (auto simp: next_child_def Let_def)

function adjust_down :: "('e \<Rightarrow> 'e \<Rightarrow> bool) \<Rightarrow> 'e \<Rightarrow> nat \<Rightarrow> 'e pq \<Rightarrow> 'e pq" where
  "adjust_down lower t i q =
     (if 1 + 2 * i < length (pq_elems q) \<and> lower t (pq_elems q ! next_child lower i q)
      then adjust_down lower t (next_child lower i q) (place (pq_elems q ! next_child lower i q) i q)
      else place t i q)"
  by pat_completeness auto
termination
proof (relation "measure (\<lambda>(_, _, i, q). length (pq_elems q) - i)")
  fix lower :: "'e \<Rightarrow> 'e \<Rightarrow> bool" and t i and q :: "'e pq"
  assume "1 + 2 * i < length (pq_elems q) \<and> lower t (pq_elems q ! next_child lower i q)"
  then show "((lower, t, next_child lower i q, place (pq_elems q ! next_child lower i q) i q), lower, t, i, q)
      \<in> measure (\<lambda>(_, _, i, q). length (pq_elems q) - i)"
    using next_child_cases[of lower i q] by auto
qed simp

declare adjust_up.simps [simp del] adjust_down.simps [simp del]

definition AdjustDownwards :: "('e \<Rightarrow> 'e \<Rightarrow> bool) \<Rightarrow> nat \<Rightarrow> 'e pq \<Rightarrow> 'e pq" where
  "AdjustDownwards lower i q = adjust_down lower (pq_elems q ! i) i q"

definition NoteChangedPriority :: "('e \<Rightarrow> 'e \<Rightarrow> bool) \<Rightarrow> 'e \<Rightarrow> 'e pq \<Rightarrow> 'e pq" where
  "NoteChangedPriority lower val q =
     (let i = nat (heap_index q val)
      in if lower (pq_elems q ! parent i) val then AdjustUpwards lower i q else AdjustDownwards lower i q)"

definition pq_Add :: "('e \<Rightarrow> 'e \<Rightarrow> bool) \<Rightarrow> 'e \<Rightarrow> 'e pq \<Rightarrow> 'e pq" where
  "pq_Add lower val q = AdjustUpwards lower (length (pq_elems q)) (q\<lparr> pq_elems := pq_elems q @ [val] \<rparr>)"

definition pq_Remove :: "('e \<Rightarrow> 'e \<Rightarrow> bool) \<Rightarrow> 'e \<Rightarrow> 'e pq \<Rightarrow> 'e pq" where
  "pq_Remove lower val q =
     (let last_pos = length (pq_elems q) - 1; i = nat (heap_index q val)
      in if i = last_pos then q\<lparr> pq_elems := butlast (pq_elems q) \<rparr>
         else let moved = pq_elems q ! last_pos; q1 = place moved i q
              in NoteChangedPriority lower moved (q1\<lparr> pq_elems := butlast (pq_elems q1) \<rparr>))"

definition pq_Contains :: "'e \<Rightarrow> 'e pq \<Rightarrow> bool" where
  "pq_Contains val q \<longleftrightarrow>
     (let i = heap_index q val
      in 0 \<le> i \<and> i < int (length (pq_elems q)) \<and> pq_elems q ! nat i = val)"

definition pq_Top :: "'e pq \<Rightarrow> 'e" where "pq_Top q = pq_elems q ! 0"

definition pq_Pop :: "('e \<Rightarrow> 'e \<Rightarrow> bool) \<Rightarrow> 'e pq \<Rightarrow> 'e pq" where
  "pq_Pop lower q = pq_Remove lower (pq_Top q) q"

definition pq_Clear :: "'e pq \<Rightarrow> 'e pq" where "pq_Clear q = q\<lparr> pq_elems := [] \<rparr>"

text \<open>The breadth-first search for the elements that tie with the top; the list is what is still to be
  checked, the positions in it only grow.\<close>

definition children_tied :: "('e \<Rightarrow> 'e \<Rightarrow> bool) \<Rightarrow> 'e pq \<Rightarrow> nat \<Rightarrow> nat list" where
  "children_tied lower q ind =
     filter (\<lambda>c. c < length (pq_elems q) \<and> \<not> lower (pq_elems q ! c) (pq_elems q ! ind)) [1 + 2 * ind, 2 + 2 * ind]"

partial_function (option) all_top_loop :: "('e \<Rightarrow> 'e \<Rightarrow> bool) \<Rightarrow> 'e pq \<Rightarrow> nat list \<Rightarrow> 'e list option" where
  "all_top_loop lower q todo =
     (case todo of
        [] \<Rightarrow> Some []
      | ind # r \<Rightarrow>
          do { tops \<leftarrow> all_top_loop lower q (r @ children_tied lower q ind);
               Some (pq_elems q ! ind # tops) })"

declare all_top_loop.simps [code]

definition AllTop :: "('e \<Rightarrow> 'e \<Rightarrow> bool) \<Rightarrow> 'e pq \<Rightarrow> 'e list option" where
  "AllTop lower q = (if pq_elems q = [] then Some [] else all_top_loop lower q [0])"

text \<open>\<open>CheckValid\<close>: no parent is lower than a child.\<close>

definition CheckValid :: "('e \<Rightarrow> 'e \<Rightarrow> bool) \<Rightarrow> 'e pq \<Rightarrow> bool" where
  "CheckValid lower q \<longleftrightarrow>
     list_all (\<lambda>i. list_all (\<lambda>c. c < length (pq_elems q) \<longrightarrow> \<not> lower (pq_elems q ! i) (pq_elems q ! c)) [1 + 2 * i, 2 + 2 * i])
       [0..<length (pq_elems q)]"

section \<open>The invariant\<close>

text \<open>Every element knows its position; the elements are different.\<close>

definition indexed :: "'e pq \<Rightarrow> bool" where
  "indexed q \<longleftrightarrow> distinct (pq_elems q) \<and> (\<forall>k < length (pq_elems q). heap_index q (pq_elems q ! k) = int k)"

definition heap :: "('e \<Rightarrow> 'e \<Rightarrow> bool) \<Rightarrow> 'e list \<Rightarrow> bool" where
  "heap lower l \<longleftrightarrow> (\<forall>j. 0 < j \<and> j < length l \<longrightarrow> \<not> lower (l ! parent j) (l ! j))"

text \<open>A queue: indexed and a heap.  A queue with one element whose priority has changed: only its edges may
  be wrong.\<close>

definition valid_queue :: "('e \<Rightarrow> 'e \<Rightarrow> bool) \<Rightarrow> 'e pq \<Rightarrow> bool" where
  "valid_queue lower q \<longleftrightarrow> indexed q \<and> heap lower (pq_elems q)"

definition valid_but :: "('e \<Rightarrow> 'e \<Rightarrow> bool) \<Rightarrow> nat \<Rightarrow> 'e pq \<Rightarrow> bool" where
  "valid_but lower i q \<longleftrightarrow> indexed q \<and> i < length (pq_elems q) \<and>
     (\<forall>j. 0 < j \<and> j < length (pq_elems q) \<and> j \<noteq> i \<and> parent j \<noteq> i \<longrightarrow> \<not> lower (pq_elems q ! parent j) (pq_elems q ! j)) \<and>
     (\<forall>j. 0 < i \<and> 0 < j \<and> j < length (pq_elems q) \<and> parent j = i \<longrightarrow> \<not> lower (pq_elems q ! parent i) (pq_elems q ! j))"

lemma CheckValid_iff: "CheckValid lower q \<longleftrightarrow> heap lower (pq_elems q)"
proof
  assume c: "CheckValid lower q"
  show "heap lower (pq_elems q)" unfolding heap_def
  proof (intro allI impI)
    fix j assume j: "0 < j \<and> j < length (pq_elems q)"
    then have p: "parent j < length (pq_elems q)" "j \<in> set [1 + 2 * parent j, 2 + 2 * parent j]"
      using parent_less[of j] parent_cases[of j] by auto
    show "\<not> lower (pq_elems q ! parent j) (pq_elems q ! j)"
      using c p j unfolding CheckValid_def list_all_iff by (metis atLeastLessThan_iff set_upt zero_le)
  qed
next
  assume h: "heap lower (pq_elems q)"
  have "\<not> lower (pq_elems q ! i) (pq_elems q ! c)" if "c \<in> {1 + 2 * i, 2 + 2 * i}" "c < length (pq_elems q)" for i c
    using h that parent_children(1,2)[of i] unfolding heap_def by (metis add_gr_0 insertE one_add_one singletonD zero_less_one)
  then show "CheckValid lower q" unfolding CheckValid_def list_all_iff by simp
qed

section \<open>The order\<close>

text \<open>What the comparator has to be: a strict weak order.\<close>

locale strict_weak_order =
  fixes lower :: "'e \<Rightarrow> 'e \<Rightarrow> bool"
  assumes asym: "lower a b \<Longrightarrow> \<not> lower b a"
    and neg_trans: "\<not> lower a b \<Longrightarrow> \<not> lower b c \<Longrightarrow> \<not> lower a c"
begin

lemma irrefl: "\<not> lower a a"
  using asym by blast

text \<open>A heap but for the place \<open>i\<close>, which still has to go up, or down.\<close>

definition heap_up :: "nat \<Rightarrow> 'e list \<Rightarrow> bool" where
  "heap_up i l \<longleftrightarrow> (\<forall>j. 0 < j \<and> j < length l \<and> j \<noteq> i \<longrightarrow> \<not> lower (l ! parent j) (l ! j)) \<and>
     (\<forall>j. 0 < i \<and> 0 < j \<and> j < length l \<and> parent j = i \<longrightarrow> \<not> lower (l ! parent i) (l ! j))"

definition heap_down :: "nat \<Rightarrow> 'e list \<Rightarrow> bool" where
  "heap_down i l \<longleftrightarrow> (\<forall>j. 0 < j \<and> j < length l \<and> parent j \<noteq> i \<longrightarrow> \<not> lower (l ! parent j) (l ! j)) \<and>
     (\<forall>j. 0 < i \<and> 0 < j \<and> j < length l \<and> parent j = i \<longrightarrow> \<not> lower (l ! parent i) (l ! j))"

lemma heap_up_swap:
  assumes "heap_up i (l[i := t])" "0 < i" "i < length l" "lower (l ! parent i) t"
  shows "heap_up (parent i) ((l[i := l ! parent i])[parent i := t])"
proof -
  let ?p = "parent i"
  let ?l = "(l[i := l ! ?p])[?p := t]"
  have pi: "?p < i" by (rule parent_less[OF assms(2)])
  have at: "?l ! i = l ! ?p" "?l ! ?p = t" "\<And>k. k \<noteq> i \<Longrightarrow> k \<noteq> ?p \<Longrightarrow> ?l ! k = l ! k" using pi assms(3) by simp_all
  have old: "\<not> lower (l[i := t] ! parent j) (l[i := t] ! j)" if "0 < j" "j < length l" "j \<noteq> i" for j
    using assms(1) that by (simp add: heap_up_def)
  have grand: "\<not> lower (l ! ?p) (l ! j)" if "0 < j" "j < length l" "parent j = i" for j
  proof -
    have "j \<noteq> i" using that parent_less[of j] by auto
    moreover have "\<not> lower (l[i := t] ! ?p) (l[i := t] ! j)"
      using assms(1,2) that unfolding heap_up_def length_list_update by blast
    ultimately show ?thesis using pi by simp
  qed
  show ?thesis unfolding heap_up_def
  proof (intro conjI allI impI)
    fix j assume j: "0 < j \<and> j < length ?l \<and> j \<noteq> ?p"
    then have jl: "0 < j" "j < length l" "j \<noteq> ?p" by simp_all
    show "\<not> lower (?l ! parent j) (?l ! j)"
    proof (cases "j = i")
      case True
      then show ?thesis using at asym[OF assms(4)] by simp
    next
      case ji: False
      consider "parent j = i" | "parent j = ?p" "parent j \<noteq> i" | "parent j \<noteq> i" "parent j \<noteq> ?p" by blast
      then show ?thesis
      proof cases
        case 1
        then show ?thesis using at ji jl grand by simp
      next
        case 2
        have "\<not> lower (l ! ?p) (l ! j)" using old[of j] jl ji 2 pi by (simp add: nth_list_update)
        then show ?thesis using at ji jl 2 asym[OF assms(4)] neg_trans[of t "l ! ?p" "l ! j"] by simp
      next
        case 3
        then show ?thesis using at ji jl old[of j] by simp
      qed
    qed
  next
    fix j assume j: "0 < ?p \<and> 0 < j \<and> j < length ?l \<and> parent j = ?p"
    have pp: "parent ?p < ?p" using j parent_less by blast
    have g: "\<not> lower (l ! parent ?p) (l ! ?p)" using old[of ?p] j pi pp assms(3) by simp
    show "\<not> lower (?l ! parent ?p) (?l ! j)"
    proof (cases "j = i")
      case True
      then show ?thesis using at pp pi g by simp
    next
      case False
      have "j \<noteq> ?p" using j parent_less[of j] by auto
      then have "\<not> lower (l ! ?p) (l ! j)" using old[of j] j False pi by (simp add: nth_list_update)
      then show ?thesis using at False \<open>j \<noteq> ?p\<close> pp pi neg_trans[OF g] by simp
    qed
  qed
qed

lemma heap_down_swap:
  assumes "heap_down i (l[i := t])" "i < length l" "c < length l" "0 < c" "parent c = i" "lower t (l ! c)"
    and "\<And>j. 0 < j \<Longrightarrow> j < length l \<Longrightarrow> parent j = i \<Longrightarrow> \<not> lower (l ! c) (l ! j)"
  shows "heap_down c ((l[i := l ! c])[c := t])"
proof -
  let ?l = "(l[i := l ! c])[c := t]"
  have ic: "i < c" using parent_less[OF assms(4)] assms(5) by simp
  have at: "?l ! i = l ! c" "?l ! c = t" "\<And>k. k \<noteq> i \<Longrightarrow> k \<noteq> c \<Longrightarrow> ?l ! k = l ! k" using ic assms(2,3) by simp_all
  have old: "\<not> lower (l[i := t] ! parent j) (l[i := t] ! j)" if "0 < j" "j < length l" "parent j \<noteq> i" for j
    using assms(1) that by (simp add: heap_down_def)
  have grand: "\<not> lower (l ! parent i) (l ! c)" if "0 < i"
  proof -
    have "\<not> lower (l[i := t] ! parent i) (l[i := t] ! c)"
      using assms(1,3,4,5) that unfolding heap_down_def length_list_update by blast
    then show ?thesis using ic parent_less[OF that] by simp
  qed
  show ?thesis unfolding heap_down_def
  proof (intro conjI allI impI)
    fix j assume j: "0 < j \<and> j < length ?l \<and> parent j \<noteq> c"
    then have jl: "0 < j" "j < length l" "parent j \<noteq> c" by simp_all
    show "\<not> lower (?l ! parent j) (?l ! j)"
    proof (cases "parent j = i")
      case True
      then have "j \<noteq> i" using parent_less[OF jl(1)] by auto
      then show ?thesis using True at jl assms(7)[OF jl(1,2) True] asym[OF assms(6)] by (cases "j = c") simp_all
    next
      case False
      then have "j \<noteq> c" using assms(5) by auto
      then show ?thesis using False at jl old[OF jl(1,2) False] grand parent_less[OF jl(1)] ic
        by (cases "j = i") (simp_all add: assms(2))
    qed
  next
    fix j assume j: "0 < c \<and> 0 < j \<and> j < length ?l \<and> parent j = c"
    then have "j \<noteq> i" "j \<noteq> c" "parent j \<noteq> i" using parent_less[of j] ic by auto
    then show "\<not> lower (?l ! parent c) (?l ! j)" using j old[of j] at assms(5) ic by simp
  qed
qed

text \<open>The mid-state of a move: all but the place \<open>i\<close> are indexed, and \<open>t\<close> belongs there.\<close>

definition moving :: "'e \<Rightarrow> nat \<Rightarrow> 'e pq \<Rightarrow> bool" where
  "moving t i q \<longleftrightarrow> i < length (pq_elems q) \<and> distinct ((pq_elems q)[i := t]) \<and>
     (\<forall>k < length (pq_elems q). k \<noteq> i \<longrightarrow> heap_index q (pq_elems q ! k) = int k)"

lemma indexed_place:
  assumes "moving t i q"
  shows "indexed (place t i q)"
proof -
  have "heap_index (place t i q) (pq_elems (place t i q) ! k) = int k" if k: "k < length (pq_elems q)" for k
  proof (cases "k = i")
    case False
    have "distinct ((pq_elems q)[i := t])" "i < length (pq_elems q)" using assms by (simp_all add: moving_def)
    then have "pq_elems q ! k \<noteq> t" using nth_eq_iff_index_eq[of "(pq_elems q)[i := t]" k i] k False by simp
    then show ?thesis using assms k False by (simp add: place_def moving_def)
  qed (use assms k in \<open>simp add: place_def moving_def\<close>)
  then show ?thesis using assms by (simp add: indexed_def moving_def place_def)
qed

lemma moving_place:
  assumes "moving t i q" "c < length (pq_elems q)" "c \<noteq> i"
  shows "moving t c (place (pq_elems q ! c) i q)"
    "mset ((pq_elems (place (pq_elems q ! c) i q))[c := t]) = mset ((pq_elems q)[i := t])"
proof -
  let ?l = "(pq_elems q)[i := t]"
  have i: "i < length (pq_elems q)" "distinct ?l" using assms(1) by (simp_all add: moving_def)
  have sw: "(pq_elems q)[i := pq_elems q ! c, c := t] = ?l[c := ?l ! i, i := ?l ! c]"
    using i(1) assms(2,3) by (simp add: list_update_swap)
  have m: "mset (?l[c := ?l ! i, i := ?l ! c]) = mset ?l" by (rule mset_swap) (use i(1) assms(2) in simp_all)
  show "mset ((pq_elems (place (pq_elems q ! c) i q))[c := t]) = mset ?l" using sw m by (simp add: place_def)
  have d: "distinct ((pq_elems q)[i := pq_elems q ! c, c := t])"
    unfolding sw using i assms(2) distinct_swap[of c ?l i] by simp
  have "heap_index (place (pq_elems q ! c) i q) (pq_elems (place (pq_elems q ! c) i q) ! k) = int k"
    if k: "k < length (pq_elems q)" "k \<noteq> c" for k
  proof (cases "k = i")
    case False
    have "?l ! k \<noteq> ?l ! c" using i(2) k assms(2) by (simp add: nth_eq_iff_index_eq)
    then have "pq_elems q ! k \<noteq> pq_elems q ! c" using False assms(3) by simp
    then show ?thesis using assms(1) k False by (simp add: place_def moving_def)
  qed (use i(1) in \<open>simp add: place_def\<close>)
  then show "moving t c (place (pq_elems q ! c) i q)"
    using d assms(2) by (simp add: moving_def) (simp add: place_def)
qed

lemma adjust_up_spec:
  assumes "moving t i q" "heap_up i ((pq_elems q)[i := t])"
  shows "indexed (adjust_up lower t i q) \<and> heap lower (pq_elems (adjust_up lower t i q)) \<and>
    mset (pq_elems (adjust_up lower t i q)) = mset ((pq_elems q)[i := t])"
  using assms
proof (induction i arbitrary: q rule: less_induct)
  case (less i)
  have il: "i < length (pq_elems q)" using less.prems(1) by (simp add: moving_def)
  show ?case
  proof (cases "i > 0 \<and> lower (pq_elems q ! parent i) t")
    case True
    let ?p = "parent i"
    let ?q = "place (pq_elems q ! ?p) i q"
    have p: "?p < i" using True parent_less by blast
    have step: "adjust_up lower t i q = adjust_up lower t ?p ?q" using True by (subst adjust_up.simps) simp
    note m = moving_place[OF less.prems(1), of ?p]
    have "heap_up ?p ((pq_elems ?q)[?p := t])"
      using heap_up_swap[OF less.prems(2) _ il] True by (simp add: place_def)
    then show ?thesis using less.IH[OF p, of ?q] m p il unfolding step by simp
  next
    case False
    have step: "adjust_up lower t i q = place t i q" by (subst adjust_up.simps) (rule if_not_P[OF False])
    have "heap lower ((pq_elems q)[i := t])" unfolding heap_def
    proof (intro allI impI)
      fix j assume j: "0 < j \<and> j < length ((pq_elems q)[i := t])"
      show "\<not> lower ((pq_elems q)[i := t] ! parent j) ((pq_elems q)[i := t] ! j)"
      proof (cases "j = i")
        case T: True
        then have "parent j \<noteq> i" using j parent_less[of j] by auto
        then show ?thesis using False T j il by simp
      qed (use less.prems(2) j in \<open>simp add: heap_up_def\<close>)
    qed
    then show ?thesis using indexed_place[OF less.prems(1)] unfolding step by (simp add: place_def)
  qed
qed

lemma next_child_greatest:
  assumes "1 + 2 * i < length (pq_elems q)" "0 < j" "j < length (pq_elems q)" "parent j = i"
  shows "\<not> lower (pq_elems q ! next_child lower i q) (pq_elems q ! j)"
proof -
  have "j = 1 + 2 * i \<or> j = 2 + 2 * i" using parent_cases[OF assms(2)] assms(4) by simp
  then show ?thesis using assms(3) irrefl asym by (auto simp: next_child_def Let_def)
qed

lemma adjust_down_spec:
  assumes "moving t i q" "heap_down i ((pq_elems q)[i := t])"
  shows "indexed (adjust_down lower t i q) \<and> heap lower (pq_elems (adjust_down lower t i q)) \<and>
    mset (pq_elems (adjust_down lower t i q)) = mset ((pq_elems q)[i := t])"
  using assms
proof (induction "length (pq_elems q) - i" arbitrary: i q rule: less_induct)
  case less
  have il: "i < length (pq_elems q)" using less.prems(1) by (simp add: moving_def)
  let ?c = "next_child lower i q"
  have c: "0 < ?c" "parent ?c = i" "i < ?c" using next_child_cases[of lower i q] by auto
  show ?case
  proof (cases "1 + 2 * i < length (pq_elems q) \<and> lower t (pq_elems q ! ?c)")
    case True
    let ?q = "place (pq_elems q ! ?c) i q"
    have cl: "?c < length (pq_elems q)" using True next_child_cases[of lower i q] by auto
    have step: "adjust_down lower t i q = adjust_down lower t ?c ?q" using True by (subst adjust_down.simps) simp
    have ci: "?c \<noteq> i" using c(3) by simp
    note m = moving_place[OF less.prems(1) cl ci]
    have "heap_down ?c ((pq_elems ?q)[?c := t])"
      using heap_down_swap[OF less.prems(2) il cl c(1,2)] True next_child_greatest by (simp add: place_def)
    moreover have "length (pq_elems ?q) - ?c < length (pq_elems q) - i" using c(3) cl by simp
    ultimately show ?thesis using less.hyps[of ?q ?c] m unfolding step by simp
  next
    case False
    have step: "adjust_down lower t i q = place t i q" by (subst adjust_down.simps) (rule if_not_P[OF False])
    have "heap lower ((pq_elems q)[i := t])" unfolding heap_def
    proof (intro allI impI)
      fix j assume j: "0 < j \<and> j < length ((pq_elems q)[i := t])"
      show "\<not> lower ((pq_elems q)[i := t] ! parent j) ((pq_elems q)[i := t] ! j)"
      proof (cases "parent j = i")
        case T: True
        then have ne: "j \<noteq> i" and two: "1 + 2 * i < length (pq_elems q)"
          using j parent_less[of j] parent_cases[of j] by auto
        then have "\<not> lower t (pq_elems q ! ?c)" using False by simp
        then have "\<not> lower t (pq_elems q ! j)" using next_child_greatest[OF two _ _ T] j neg_trans by simp
        then show ?thesis using T ne il by simp
      qed (use less.prems(2) j in \<open>simp add: heap_down_def\<close>)
    qed
    then show ?thesis using indexed_place[OF less.prems(1)] unfolding step by (simp add: place_def)
  qed
qed

lemma moving_self: "indexed q \<Longrightarrow> i < length (pq_elems q) \<Longrightarrow> moving (pq_elems q ! i) i q"
  by (simp add: moving_def indexed_def)

lemma NoteChangedPriority_spec:
  assumes "valid_but lower i q"
  shows "valid_queue lower (NoteChangedPriority lower (pq_elems q ! i) q)"
    "mset (pq_elems (NoteChangedPriority lower (pq_elems q ! i) q)) = mset (pq_elems q)"
proof -
  let ?t = "pq_elems q ! i"
  have il: "i < length (pq_elems q)" and ix: "indexed q" using assms by (simp_all add: valid_but_def)
  have hi: "nat (heap_index q ?t) = i" using ix il by (simp add: indexed_def)
  note mv = moving_self[OF ix il]
  have "valid_queue lower (NoteChangedPriority lower ?t q) \<and> mset (pq_elems (NoteChangedPriority lower ?t q)) = mset (pq_elems q)"
  proof (cases "lower (pq_elems q ! parent i) ?t")
    case True
    have i0: "0 < i" using True irrefl by (cases i) auto
    have child: "\<not> lower ?t (pq_elems q ! j)" if "0 < j" "j < length (pq_elems q)" "parent j = i" for j
      using assms i0 that asym[OF True] neg_trans unfolding valid_but_def by blast
    have "heap_up i (pq_elems q)"
      unfolding heap_up_def using assms child unfolding valid_but_def by metis
    then show ?thesis
      using adjust_up_spec[OF mv] True by (simp add: NoteChangedPriority_def Let_def hi AdjustUpwards_def valid_queue_def)
  next
    case False
    have "heap_down i (pq_elems q)"
      unfolding heap_down_def using assms False unfolding valid_but_def by metis
    then show ?thesis
      using adjust_down_spec[OF mv] False by (simp add: NoteChangedPriority_def Let_def hi AdjustDownwards_def valid_queue_def)
  qed
  then show "valid_queue lower (NoteChangedPriority lower ?t q)"
    "mset (pq_elems (NoteChangedPriority lower ?t q)) = mset (pq_elems q)" by blast+
qed

lemma pq_Contains_iff: "indexed q \<Longrightarrow> pq_Contains e q \<longleftrightarrow> e \<in> set (pq_elems q)"
proof
  assume "pq_Contains e q"
  then have "nat (heap_index q e) < length (pq_elems q)" "pq_elems q ! nat (heap_index q e) = e"
    by (auto simp: pq_Contains_def Let_def)
  then show "e \<in> set (pq_elems q)" using nth_mem by metis
next
  assume "indexed q" "e \<in> set (pq_elems q)"
  then show "pq_Contains e q" by (auto simp: pq_Contains_def Let_def indexed_def in_set_conv_nth)
qed

lemma pq_Add_spec:
  assumes "valid_queue lower q" "e \<notin> set (pq_elems q)"
  shows "valid_queue lower (pq_Add lower e q)" "mset (pq_elems (pq_Add lower e q)) = add_mset e (mset (pq_elems q))"
proof -
  let ?n = "length (pq_elems q)"
  let ?q = "q\<lparr> pq_elems := pq_elems q @ [e] \<rparr>"
  have "moving e ?n ?q" using assms by (auto simp: moving_def valid_queue_def indexed_def nth_append)
  moreover have "heap_up ?n (pq_elems q @ [e])"
    unfolding heap_up_def
  proof (intro conjI allI impI)
    fix j assume j: "0 < j \<and> j < length (pq_elems q @ [e]) \<and> j \<noteq> ?n"
    then have "parent j < ?n" "j < ?n" using parent_less[of j] by auto
    then show "\<not> lower ((pq_elems q @ [e]) ! parent j) ((pq_elems q @ [e]) ! j)"
      using assms(1) j by (simp add: valid_queue_def heap_def nth_append)
  next
    fix j assume "0 < ?n \<and> 0 < j \<and> j < length (pq_elems q @ [e]) \<and> parent j = ?n"
    then show "\<not> lower ((pq_elems q @ [e]) ! parent ?n) ((pq_elems q @ [e]) ! j)" using parent_less[of j] by auto
  qed
  ultimately show "valid_queue lower (pq_Add lower e q)" "mset (pq_elems (pq_Add lower e q)) = add_mset e (mset (pq_elems q))"
    using adjust_up_spec[of e ?n ?q] by (simp_all add: pq_Add_def AdjustUpwards_def valid_queue_def)
qed

lemma queue_butlast:
  assumes "valid_queue lower q"
  shows "valid_queue lower (q\<lparr> pq_elems := butlast (pq_elems q) \<rparr>)"
proof -
  have "heap lower (butlast (pq_elems q))" unfolding heap_def
  proof (intro allI impI)
    fix j assume j: "0 < j \<and> j < length (butlast (pq_elems q))"
    then have "parent j < length (butlast (pq_elems q))" "j < length (pq_elems q)" using parent_less[of j] by auto
    then show "\<not> lower (butlast (pq_elems q) ! parent j) (butlast (pq_elems q) ! j)"
      using assms j by (simp add: valid_queue_def heap_def nth_butlast)
  qed
  then show ?thesis using assms by (simp add: valid_queue_def indexed_def distinct_butlast nth_butlast)
qed

lemma mset_butlast_last: "l \<noteq> [] \<Longrightarrow> mset l = add_mset (l ! (length l - 1)) (mset (butlast l))"
proof -
  assume ne: "l \<noteq> []"
  have "mset l = mset (butlast l @ [last l])" using ne by simp
  then show ?thesis by (simp only: mset_append last_conv_nth[OF ne]) simp
qed

text \<open>The last element takes the place of the one removed.\<close>

lemma moved_last:
  assumes "valid_queue lower q" "i < length (pq_elems q) - 1"
  defines "m \<equiv> pq_elems q ! (length (pq_elems q) - 1)"
  defines "q' \<equiv> (place m i q)\<lparr> pq_elems := butlast (pq_elems (place m i q)) \<rparr>"
  shows "pq_elems q' = (butlast (pq_elems q))[i := m]" "valid_but lower i q'"
proof -
  let ?l = "pq_elems q" and ?n = "length (pq_elems q) - 1"
  have ne: "?l \<noteq> []" using assms(2) by auto
  show pe: "pq_elems q' = (butlast ?l)[i := m]" using assms(2) by (simp add: q'_def place_def butlast_list_update)
  note bq = queue_butlast[OF assms(1)]
  have hb: "heap lower (butlast ?l)" using bq by (simp add: valid_queue_def)
  have dl: "distinct ?l" using assms(1) by (simp add: valid_queue_def indexed_def)
  have notin: "m \<noteq> ?l ! k" if "k < ?n" for k
    using dl that ne nth_eq_iff_index_eq[OF dl, of ?n k] by (simp add: m_def)
  have notset: "m \<notin> set (butlast ?l)"
  proof
    assume "m \<in> set (butlast ?l)"
    then obtain k where "k < ?n" "butlast ?l ! k = m" by (metis in_set_conv_nth length_butlast)
    then show False using notin[of k] by (simp add: nth_butlast)
  qed
  have "distinct ((butlast ?l)[i := m])" using dl notset by (intro distinct_list_update) (auto simp: distinct_butlast)
  moreover have "heap_index q' ((butlast ?l)[i := m] ! k) = int k" if k: "k < ?n" for k
  proof (cases "k = i")
    case F: False
    have "heap_index q (?l ! k) = int k" using assms(1) k by (simp add: valid_queue_def indexed_def)
    then show ?thesis using F k notin[OF k] by (simp add: q'_def place_def nth_butlast)
  qed (use assms(2) in \<open>simp add: q'_def place_def\<close>)
  ultimately have ixq: "indexed q'" unfolding indexed_def pe by simp
  have at: "pq_elems q' ! k = ?l ! k" if "k < ?n" "k \<noteq> i" for k using that by (simp add: pe nth_butlast)
  have edge: "\<not> lower (?l ! parent j) (?l ! j)" if "0 < j" "j < ?n" for j
    using assms(1) that by (simp add: valid_queue_def heap_def)
  show "valid_but lower i q'" unfolding valid_but_def
  proof (intro conjI allI impI)
    fix j assume j: "0 < j \<and> j < length (pq_elems q') \<and> j \<noteq> i \<and> parent j \<noteq> i"
    then have "j < ?n" "parent j < ?n" using parent_less[of j] by (simp_all add: pe)
    then show "\<not> lower (pq_elems q' ! parent j) (pq_elems q' ! j)" using j at edge by simp
  next
    fix j assume j: "0 < i \<and> 0 < j \<and> j < length (pq_elems q') \<and> parent j = i"
    then have "j \<noteq> i" "j < ?n" "parent i < ?n" "parent i \<noteq> i" "i < ?n"
      using parent_less[of j] parent_less[of i] assms(2) by (auto simp: pe)
    then show "\<not> lower (pq_elems q' ! parent i) (pq_elems q' ! j)"
      using j at edge[of i] edge[of j] neg_trans by simp
  qed (use ixq assms(2) in \<open>simp_all add: pe\<close>)
qed

lemma pq_Remove_spec:
  assumes "valid_queue lower q" "e \<in> set (pq_elems q)"
  shows "valid_queue lower (pq_Remove lower e q)" "mset (pq_elems (pq_Remove lower e q)) = mset (pq_elems q) - {#e#}"
proof -
  let ?l = "pq_elems q" and ?n = "length (pq_elems q) - 1"
  obtain i where i: "i < length ?l" "e = ?l ! i" using assms(2) by (metis in_set_conv_nth)
  have hi: "nat (heap_index q e) = i" using assms(1) i by (simp add: valid_queue_def indexed_def)
  have ne: "?l \<noteq> []" using assms(2) by auto
  note ml = mset_butlast_last[OF ne]
  have "valid_queue lower (pq_Remove lower e q) \<and> mset (pq_elems (pq_Remove lower e q)) = mset ?l - {#e#}"
  proof (cases "i = ?n")
    case True
    then show ?thesis using queue_butlast[OF assms(1)] ml i(2) hi by (simp add: pq_Remove_def Let_def)
  next
    case False
    then have il: "i < ?n" using i(1) by linarith
    let ?q = "(place (?l ! ?n) i q)\<lparr> pq_elems := butlast (pq_elems (place (?l ! ?n) i q)) \<rparr>"
    note mv = moved_last[OF assms(1) il]
    note nc = NoteChangedPriority_spec[OF mv(2)]
    have "pq_Remove lower e q = NoteChangedPriority lower (pq_elems ?q ! i) ?q"
      using False hi il mv(1) by (simp add: pq_Remove_def Let_def)
    moreover have "mset (pq_elems ?q) = mset ?l - {#e#}"
    proof -
      have "e \<in># mset (butlast ?l)" using i(2) il nth_mem[of i "butlast ?l"] by (simp add: nth_butlast)
      then obtain M where M: "mset (butlast ?l) = add_mset e M" by (metis multi_member_split)
      show ?thesis unfolding mv(1) ml using il i(2) M by (simp add: mset_update nth_butlast)
    qed
    ultimately show ?thesis using nc by simp
  qed
  then show "valid_queue lower (pq_Remove lower e q)" "mset (pq_elems (pq_Remove lower e q)) = mset ?l - {#e#}" by blast+
qed

text \<open>No element is above the top.\<close>

lemma pq_Top_greatest:
  assumes "valid_queue lower q" "e \<in> set (pq_elems q)"
  shows "\<not> lower (pq_Top q) e"
proof -
  have "\<not> lower (pq_elems q ! 0) (pq_elems q ! j)" if "j < length (pq_elems q)" for j
    using that
  proof (induction j rule: less_induct)
    case (less j)
    show ?case
    proof (cases "j = 0")
      case False
      have "\<not> lower (pq_elems q ! parent j) (pq_elems q ! j)" using assms(1) less.prems False by (simp add: valid_queue_def heap_def)
      moreover have "\<not> lower (pq_elems q ! 0) (pq_elems q ! parent j)"
        using less.IH[of "parent j"] less.prems False parent_less[of j] by simp
      ultimately show ?thesis using neg_trans by metis
    qed (simp add: irrefl)
  qed
  then show ?thesis using assms(2) by (metis in_set_conv_nth pq_Top_def)
qed

text \<open>The positions that \<open>AllTop\<close> visits are closed: a child that ties with the top is visited after its
  parent.\<close>

lemma not_lower_iff:
  assumes "\<not> lower a b" "\<not> lower b a"
  shows "\<not> lower c a \<longleftrightarrow> \<not> lower c b"
  using assms neg_trans by blast

definition tied :: "'e pq \<Rightarrow> nat \<Rightarrow> bool" where
  "tied q j \<longleftrightarrow> j < length (pq_elems q) \<and> \<not> lower (pq_elems q ! j) (pq_Top q)"

lemma set_children_tied:
  assumes "valid_queue lower q" "tied q i"
  shows "set (children_tied lower q i) = {j. 0 < j \<and> parent j = i \<and> tied q j}"
proof -
  have "\<not> lower (pq_Top q) (pq_elems q ! i)" using pq_Top_greatest[OF assms(1)] assms(2) by (simp add: tied_def)
  then have e: "\<not> lower (pq_elems q ! c) (pq_elems q ! i) \<longleftrightarrow> \<not> lower (pq_elems q ! c) (pq_Top q)" for c
    using not_lower_iff assms(2) unfolding tied_def by blast
  have c: "j = 1 + 2 * i \<or> j = 2 + 2 * i \<longleftrightarrow> 0 < j \<and> parent j = i" for j using parent_iff[of j i] by auto
  have "j \<in> set (children_tied lower q i) \<longleftrightarrow> (j = 1 + 2 * i \<or> j = 2 + 2 * i) \<and> tied q j" for j
    by (auto simp: children_tied_def tied_def e)
  then show ?thesis unfolding c by blast
qed

definition todo_weight :: "'e pq \<Rightarrow> nat list \<Rightarrow> nat" where
  "todo_weight q todo = sum_list (map (\<lambda>i. 3 ^ (length (pq_elems q) - i)) todo)"

lemma todo_weight_step:
  assumes "i < length (pq_elems q)"
  shows "todo_weight q (r @ children_tied lower q i) < todo_weight q (i # r)"
proof -
  let ?n = "length (pq_elems q)"
  have "todo_weight q (children_tied lower q i) \<le> todo_weight q [1 + 2 * i, 2 + 2 * i]"
    by (auto simp: todo_weight_def children_tied_def)
  also have "\<dots> \<le> 3 ^ (?n - i - 1) + 3 ^ (?n - i - 1)"
    unfolding todo_weight_def by (simp add: add_mono power_increasing)
  also have "\<dots> < 3 ^ (?n - i)" using assms by (cases "?n - i") simp_all
  finally show ?thesis by (simp add: todo_weight_def)
qed

lemma all_top_loop_spec:
  assumes "valid_queue lower q" "\<forall>i \<in> set todo. tied q i"
  shows "\<exists>ps. all_top_loop lower q todo = Some (map (\<lambda>i. pq_elems q ! i) ps) \<and> set todo \<subseteq> set ps \<and>
    (\<forall>j \<in> set ps. tied q j) \<and> (\<forall>j. 0 < j \<and> tied q j \<and> parent j \<in> set ps \<longrightarrow> j \<in> set ps)"
  using assms(2)
proof (induction "todo_weight q todo" arbitrary: todo rule: less_induct)
  case less
  show ?case
  proof (cases todo)
    case Nil
    then show ?thesis by (intro exI[of _ "[]"]) (simp add: all_top_loop.simps)
  next
    case (Cons i r)
    have i: "tied q i" "i < length (pq_elems q)" using less.prems Cons by (simp_all add: tied_def)
    note ch = set_children_tied[OF assms(1) i(1)]
    have "\<forall>k \<in> set (r @ children_tied lower q i). tied q k" using less.prems Cons ch by auto
    from less.hyps[OF _ this] todo_weight_step[OF i(2), of r] obtain ps where
      ps: "all_top_loop lower q (r @ children_tied lower q i) = Some (map (\<lambda>i. pq_elems q ! i) ps)"
      "set (r @ children_tied lower q i) \<subseteq> set ps" "\<forall>j \<in> set ps. tied q j"
      "\<forall>j. 0 < j \<and> tied q j \<and> parent j \<in> set ps \<longrightarrow> j \<in> set ps" unfolding Cons by blast
    have "all_top_loop lower q todo = Some (map (\<lambda>i. pq_elems q ! i) (i # ps))"
      using ps(1) by (subst all_top_loop.simps) (simp add: Cons)
    moreover have "set todo \<subseteq> set (i # ps)" using ps(2) Cons by auto
    moreover have "\<forall>j \<in> set (i # ps). tied q j" using ps(3) i(1) by simp
    moreover have "j \<in> set (i # ps)" if "0 < j" "tied q j" "parent j \<in> set (i # ps)" for j
    proof (cases "parent j = i")
      case True
      then have "j \<in> set (children_tied lower q i)" unfolding ch using that by simp
      then show ?thesis using ps(2) by auto
    next
      case False
      then show ?thesis using that ps(4) by simp
    qed
    ultimately show ?thesis by blast
  qed
qed

lemma AllTop_spec:
  assumes "valid_queue lower q"
  shows "\<exists>tops. AllTop lower q = Some tops \<and>
    set tops = {e \<in> set (pq_elems q). \<forall>e' \<in> set (pq_elems q). \<not> lower e e'}"
proof (cases "pq_elems q = []")
  case False
  then have "tied q 0" by (simp add: tied_def pq_Top_def irrefl)
  then obtain ps where ps: "all_top_loop lower q [0] = Some (map (\<lambda>i. pq_elems q ! i) ps)" "0 \<in> set ps"
    "\<forall>j \<in> set ps. tied q j" "\<forall>j. 0 < j \<and> tied q j \<and> parent j \<in> set ps \<longrightarrow> j \<in> set ps"
    using all_top_loop_spec[OF assms, of "[0]"] by auto
  have all: "j \<in> set ps" if "tied q j" for j
    using that
  proof (induction j rule: less_induct)
    case (less j)
    show ?case
    proof (cases "j = 0")
      case j: False
      have "\<not> lower (pq_elems q ! parent j) (pq_elems q ! j)" "parent j < length (pq_elems q)"
        using assms less.prems j parent_less[of j] by (auto simp: valid_queue_def heap_def tied_def)
      moreover have "\<not> lower (pq_elems q ! j) (pq_Top q)" using less.prems by (simp add: tied_def)
      ultimately have "tied q (parent j)" unfolding tied_def using neg_trans by metis
      then show ?thesis using less.IH[of "parent j"] parent_less[of j] j ps(4) less.prems by blast
    qed (simp add: ps(2))
  qed
  have top: "pq_Top q \<in> set (pq_elems q)" using False by (simp add: pq_Top_def)
  have "tied q j \<longleftrightarrow> j < length (pq_elems q) \<and> (\<forall>e' \<in> set (pq_elems q). \<not> lower (pq_elems q ! j) e')" for j
  proof
    assume t: "tied q j"
    show "j < length (pq_elems q) \<and> (\<forall>e' \<in> set (pq_elems q). \<not> lower (pq_elems q ! j) e')"
    proof (intro conjI ballI)
      fix e' assume "e' \<in> set (pq_elems q)"
      then show "\<not> lower (pq_elems q ! j) e'"
        using neg_trans[of "pq_elems q ! j" "pq_Top q" e'] t pq_Top_greatest[OF assms] by (simp add: tied_def)
    qed (use t in \<open>simp add: tied_def\<close>)
  qed (use top in \<open>simp add: tied_def\<close>)
  then have "set (map (\<lambda>i. pq_elems q ! i) ps) = {e \<in> set (pq_elems q). \<forall>e' \<in> set (pq_elems q). \<not> lower e e'}"
  proof (intro equalityI subsetI)
    fix e assume "e \<in> set (map (\<lambda>i. pq_elems q ! i) ps)"
    then obtain j where "j \<in> set ps" "e = pq_elems q ! j" by auto
    then show "e \<in> {e \<in> set (pq_elems q). \<forall>e' \<in> set (pq_elems q). \<not> lower e e'}"
      using ps(3) \<open>\<And>j. tied q j \<longleftrightarrow> j < length (pq_elems q) \<and> (\<forall>e' \<in> set (pq_elems q). \<not> lower (pq_elems q ! j) e')\<close> by simp
  next
    fix e assume e: "e \<in> {e \<in> set (pq_elems q). \<forall>e' \<in> set (pq_elems q). \<not> lower e e'}"
    then obtain j where j: "j < length (pq_elems q)" "e = pq_elems q ! j" by (auto simp: in_set_conv_nth)
    then have "tied q j" using e \<open>\<And>j. tied q j \<longleftrightarrow> j < length (pq_elems q) \<and> (\<forall>e' \<in> set (pq_elems q). \<not> lower (pq_elems q ! j) e')\<close> by simp
    then show "e \<in> set (map (\<lambda>i. pq_elems q ! i) ps)" using all j by simp
  qed
  then show ?thesis using ps(1) False by (simp add: AllTop_def)
qed (simp add: AllTop_def)

end

text \<open>When the priority of one element changes, the queue is one whose element has to be moved.\<close>

lemma valid_but_changed:
  assumes "strict_weak_order lower" "valid_queue lower q" "i < length (pq_elems q)"
    and "\<And>a b. a \<noteq> pq_elems q ! i \<Longrightarrow> b \<noteq> pq_elems q ! i \<Longrightarrow> lower' a b = lower a b"
  shows "valid_but lower' i q"
proof -
  let ?l = "pq_elems q"
  have d: "distinct ?l" and ix: "indexed q" and h: "\<And>j. 0 < j \<Longrightarrow> j < length ?l \<Longrightarrow> \<not> lower (?l ! parent j) (?l ! j)"
    using assms(2) by (auto simp: valid_queue_def indexed_def heap_def)
  have same: "lower' (?l ! a) (?l ! b) = lower (?l ! a) (?l ! b)" if "a \<noteq> i" "b \<noteq> i" "a < length ?l" "b < length ?l" for a b
    using that assms(3) nth_eq_iff_index_eq[OF d] by (intro assms(4)) auto
  show ?thesis unfolding valid_but_def
  proof (intro conjI allI impI)
    fix j assume j: "0 < j \<and> j < length ?l \<and> j \<noteq> i \<and> parent j \<noteq> i"
    then have "parent j < length ?l" using parent_less[of j] by auto
    then show "\<not> lower' (?l ! parent j) (?l ! j)" using same[of "parent j" j] h[of j] j by simp
  next
    fix j assume j: "0 < i \<and> 0 < j \<and> j < length ?l \<and> parent j = i"
    then have "parent i < i" "i < j" using parent_less[of i] parent_less[of j] by auto
    then have "lower' (?l ! parent i) (?l ! j) = lower (?l ! parent i) (?l ! j)" using same[of "parent i" j] j by simp
    moreover have "\<not> lower (?l ! parent i) (?l ! j)"
      using h[of i] h[of j] j assms(3) strict_weak_order.neg_trans[OF assms(1)] by blast
    ultimately show "\<not> lower' (?l ! parent i) (?l ! j)" by simp
  qed (use ix assms(3) in auto)
qed

lemma valid_queue_cong:
  assumes "valid_queue lower q" "\<And>a b. a \<in> set (pq_elems q) \<Longrightarrow> b \<in> set (pq_elems q) \<Longrightarrow> lower' a b = lower a b"
  shows "valid_queue lower' q"
proof -
  have "heap lower' (pq_elems q)" unfolding heap_def
  proof (intro allI impI)
    fix j assume j: "0 < j \<and> j < length (pq_elems q)"
    then have "parent j < length (pq_elems q)" using parent_less[of j] by auto
    then show "\<not> lower' (pq_elems q ! parent j) (pq_elems q ! j)"
      using assms(1) assms(2)[of "pq_elems q ! parent j" "pq_elems q ! j"] j by (simp add: valid_queue_def heap_def)
  qed
  then show ?thesis using assms(1) by (simp add: valid_queue_def)
qed

lemma NoteChangedPriority_valid:
  assumes "strict_weak_order lower" "strict_weak_order lower'" "valid_queue lower q" "e \<in> set (pq_elems q)"
    and "\<And>a b. a \<noteq> e \<Longrightarrow> b \<noteq> e \<Longrightarrow> lower' a b = lower a b"
  shows "valid_queue lower' (NoteChangedPriority lower' e q)"
    "mset (pq_elems (NoteChangedPriority lower' e q)) = mset (pq_elems q)"
proof -
  obtain i where i: "i < length (pq_elems q)" "e = pq_elems q ! i" using assms(4) by (metis in_set_conv_nth)
  have "valid_but lower' i q" using valid_but_changed[OF assms(1,3) i(1)] assms(5) i(2) by blast
  from strict_weak_order.NoteChangedPriority_spec[OF assms(2) this] show
    "valid_queue lower' (NoteChangedPriority lower' e q)"
    "mset (pq_elems (NoteChangedPriority lower' e q)) = mset (pq_elems q)" by (simp_all add: i(2))
qed

end
