(* ===== verification/SatPresolve.thy ===== *)
theory SatPresolve
  imports SatClauses SatPostsolver AdjustableHeap "HOL-Library.Word"
begin

text \<open>
  The class \<open>SatPresolver\<close> of \<open>or-tools/ortools/sat/simplification.{h,cc}\<close>: subsumption, self-subsuming
  resolution, elimination of variables by resolution, blocked clauses and addition of variables.

  A clause index is a number, a deleted clause is empty; an index that may be \<open>kNoLiteralIndex\<close> or
  \<open>kNoBooleanVariable\<close> is an option.  The calls of \<open>postsolver_->Add\<close> are recorded in their order, since the
  presolver never reads the postsolver.  A weight of a priority queue is a count, so the double that holds it
  is an integer.  The clock is a predicate on the number of the query of \<open>LimitReached\<close>; without a time limit
  it is never true.
\<close>

section \<open>The state of the presolver\<close>

record sat_parameters =
  presolve_bve_threshold :: int
  presolve_bve_clause_weight :: int
  presolve_blocked_clause :: bool
  filter_sat_postsolve_clauses :: bool
  presolve_use_bva :: bool
  presolve_bva_threshold :: int

record sat_presolver =
  sp_clauses :: "literal list list"
  signatures :: "64 word list"
  in_clause_to_process :: "bool list"
  clause_to_process :: "nat list"
  literal_to_clauses :: "nat list list"
  literal_to_clause_sizes :: "int list"
  var_weights :: "int list"
  var_pq :: "nat pq"
  bva_weights :: "int list"
  bva_pq :: "literal pq"
  equiv_mapping :: "literal list"
  num_trivial_clauses :: nat
  num_inspected_signatures :: int
  num_inspected_literals :: int
  num_deleted_literals :: int
  postsolver_adds :: "(literal \<times> literal list) list"
  parameters :: sat_parameters
  limit_queries :: nat

definition pq_empty :: "nat pq" where "pq_empty = \<lparr> pq_elems = [], heap_index = (\<lambda>_. - 1) \<rparr>"

definition SatPresolver_init :: "sat_parameters \<Rightarrow> sat_presolver" where
  "SatPresolver_init params = \<lparr> sp_clauses = [], signatures = [], in_clause_to_process = [], clause_to_process = [],
     literal_to_clauses = [], literal_to_clause_sizes = [], var_weights = [], var_pq = pq_empty, bva_weights = [],
     bva_pq = pq_empty, equiv_mapping = [], num_trivial_clauses = 0, num_inspected_signatures = 0,
     num_inspected_literals = 0, num_deleted_literals = 0, postsolver_adds = [], parameters = params, limit_queries = 0 \<rparr>"

definition NumVariables :: "sat_presolver \<Rightarrow> nat" where
  "NumVariables st = length (literal_to_clause_sizes st) div 2"

definition SignatureOfClauseVariables :: "literal list \<Rightarrow> 64 word" where
  "SignatureOfClauseVariables clause = foldl (\<lambda>s l. s OR push_bit (Variable l mod 64) 1) 0 clause"

definition ComputeSignatureOfClauseVariables :: "nat \<Rightarrow> sat_presolver \<Rightarrow> 64 word" where
  "ComputeSignatureOfClauseVariables ci st = SignatureOfClauseVariables (sp_clauses st ! ci)"

section \<open>The priority queues\<close>

text \<open>\<open>PQElement\<close> orders by decreasing weight, \<open>BvaPqElement\<close> by increasing weight.\<close>

definition var_lower :: "int list \<Rightarrow> nat \<Rightarrow> nat \<Rightarrow> bool" where
  "var_lower w a b \<longleftrightarrow> w ! a > w ! b"

definition bva_lower :: "int list \<Rightarrow> literal \<Rightarrow> literal \<Rightarrow> bool" where
  "bva_lower w a b \<longleftrightarrow> w ! a < w ! b"

definition occurrences :: "nat \<Rightarrow> sat_presolver \<Rightarrow> int" where
  "occurrences v st = literal_to_clause_sizes st ! (2 * v) + literal_to_clause_sizes st ! (2 * v + 1)"

definition UpdatePriorityQueue :: "nat \<Rightarrow> sat_presolver \<Rightarrow> sat_presolver" where
  "UpdatePriorityQueue v st =
     (if var_weights st = [] then st
      else let w = (var_weights st)[v := occurrences v st]
           in st\<lparr> var_weights := w,
                  var_pq := (if pq_Contains v (var_pq st) then NoteChangedPriority (var_lower w) v (var_pq st)
                             else pq_Add (var_lower w) v (var_pq st)) \<rparr>)"

definition InitializePriorityQueue :: "sat_presolver \<Rightarrow> sat_presolver" where
  "InitializePriorityQueue st =
     foldl (\<lambda>s v. let w = (var_weights s)[v := occurrences v s]
                  in s\<lparr> var_weights := w, var_pq := pq_Add (var_lower w) v (var_pq s) \<rparr>)
       (st\<lparr> var_weights := resize_list (NumVariables st) 0 (var_weights st) \<rparr>) [0..<NumVariables st]"

definition UpdateBvaPriorityQueue :: "literal \<Rightarrow> sat_presolver \<Rightarrow> sat_presolver" where
  "UpdateBvaPriorityQueue l st =
     (if bva_weights st = [] then st
      else let w = (bva_weights st)[l := literal_to_clause_sizes st ! l]
           in st\<lparr> bva_weights := w,
                  bva_pq := (if pq_Contains l (bva_pq st) then NoteChangedPriority (bva_lower w) l (bva_pq st)
                             else bva_pq st) \<rparr>)"

definition AddToBvaPriorityQueue :: "literal \<Rightarrow> sat_presolver \<Rightarrow> sat_presolver" where
  "AddToBvaPriorityQueue l st =
     (if bva_weights st = [] then st
      else let w = (bva_weights st)[l := literal_to_clause_sizes st ! l]
           in st\<lparr> bva_weights := w,
                  bva_pq := (if w ! l > 2 then pq_Add (bva_lower w) l (bva_pq st) else bva_pq st) \<rparr>)"

definition InitializeBvaPriorityQueue :: "sat_presolver \<Rightarrow> sat_presolver" where
  "InitializeBvaPriorityQueue st =
     foldl (\<lambda>s l. let w = (bva_weights s)[l := literal_to_clause_sizes s ! l]
                  in s\<lparr> bva_weights := w, bva_pq := (if w ! l > 2 then pq_Add (bva_lower w) l (bva_pq s) else bva_pq s) \<rparr>)
       (st\<lparr> bva_weights := replicate (2 * NumVariables st) 0, bva_pq := pq_empty \<rparr>) [0..<2 * NumVariables st]"

section \<open>Adding and removing clauses\<close>

definition resize_occurrences :: "nat \<Rightarrow> sat_presolver \<Rightarrow> sat_presolver" where
  "resize_occurrences required_size st =
     (if required_size > length (literal_to_clauses st)
      then st\<lparr> literal_to_clauses := resize_list required_size [] (literal_to_clauses st),
               literal_to_clause_sizes := resize_list required_size 0 (literal_to_clause_sizes st) \<rparr>
      else st)"

definition SetNumVariables :: "nat \<Rightarrow> sat_presolver \<Rightarrow> sat_presolver" where
  "SetNumVariables num_variables st = resize_occurrences (2 * num_variables) st"

definition add_occurrence :: "nat \<Rightarrow> literal \<Rightarrow> sat_presolver \<Rightarrow> sat_presolver" where
  "add_occurrence ci e st =
     st\<lparr> literal_to_clauses := (literal_to_clauses st)[e := literal_to_clauses st ! e @ [ci]],
         literal_to_clause_sizes := (literal_to_clause_sizes st)[e := literal_to_clause_sizes st ! e + 1] \<rparr>"

text \<open>The literals mapped to their representatives, sorted, without duplicates; a clause with a literal and its
  negation is taken back.\<close>

definition canonical_clause :: "literal list \<Rightarrow> literal list \<Rightarrow> literal list" where
  "canonical_clause em clause = remdups_adj (sort (if em \<noteq> [] then map (\<lambda>l. em ! l) clause else clause))"

definition is_trivial :: "literal list \<Rightarrow> bool" where
  "is_trivial ls \<longleftrightarrow> (\<exists>i \<in> set [1..<length ls]. ls ! i = Negated (ls ! (i - 1)))"

definition push_clause :: "literal list \<Rightarrow> sat_presolver \<Rightarrow> sat_presolver" where
  "push_clause clause st =
     st\<lparr> sp_clauses := sp_clauses st @ [clause], in_clause_to_process := in_clause_to_process st @ [True],
         clause_to_process := clause_to_process st @ [length (sp_clauses st)],
         signatures := signatures st @ [SignatureOfClauseVariables clause] \<rparr>"

definition SatPresolver_AddClause :: "literal list \<Rightarrow> sat_presolver \<Rightarrow> sat_presolver" where
  "SatPresolver_AddClause clause st =
     (let ls = canonical_clause (equiv_mapping st) clause; ci = length (sp_clauses st)
      in if is_trivial ls then st\<lparr> num_trivial_clauses := num_trivial_clauses st + 1 \<rparr>
         else let max_literal = last ls;
                  st1 = resize_occurrences (max max_literal (Negated max_literal) + 1) (push_clause ls st)
              in foldl (\<lambda>s e. add_occurrence ci e s) st1 ls)"

definition AddBinaryClause :: "literal \<Rightarrow> literal \<Rightarrow> sat_presolver \<Rightarrow> sat_presolver" where
  "AddBinaryClause a b st = SatPresolver_AddClause [a, b] st"

definition AddClauseInternal :: "literal list \<Rightarrow> sat_presolver \<Rightarrow> sat_presolver" where
  "AddClauseInternal clause st =
     (let ci = length (sp_clauses st)
      in foldl (\<lambda>s e. UpdateBvaPriorityQueue e (UpdatePriorityQueue (Variable e) (add_occurrence ci e s)))
           (push_clause clause st) clause)"

definition remove_occurrence :: "literal \<Rightarrow> sat_presolver \<Rightarrow> sat_presolver" where
  "remove_occurrence e st =
     UpdateBvaPriorityQueue (2 * Variable e + 1) (UpdateBvaPriorityQueue (2 * Variable e)
       (UpdatePriorityQueue (Variable e)
         (st\<lparr> literal_to_clause_sizes := (literal_to_clause_sizes st)[e := literal_to_clause_sizes st ! e - 1] \<rparr>)))"

definition sp_Remove :: "nat \<Rightarrow> sat_presolver \<Rightarrow> sat_presolver" where
  "sp_Remove ci st =
     (let clause = sp_clauses st ! ci;
          st1 = foldl (\<lambda>s e. remove_occurrence e s)
                  (st\<lparr> num_deleted_literals := num_deleted_literals st + int (length clause),
                       signatures := (signatures st)[ci := 0] \<rparr>) clause
      in st1\<lparr> sp_clauses := (sp_clauses st1)[ci := []] \<rparr>)"

definition RemoveAndRegisterForPostsolve :: "nat \<Rightarrow> literal \<Rightarrow> sat_presolver \<Rightarrow> sat_presolver" where
  "RemoveAndRegisterForPostsolve ci x st =
     sp_Remove ci (st\<lparr> postsolver_adds := postsolver_adds st @ [(x, sp_clauses st ! ci)] \<rparr>)"

definition RemoveAllClauseContaining :: "literal \<Rightarrow> bool \<Rightarrow> sat_presolver \<Rightarrow> sat_presolver" where
  "RemoveAllClauseContaining x register_for_postsolve st =
     (let st1 = foldl (\<lambda>s i. if sp_clauses s ! i = [] then s
                             else if register_for_postsolve then RemoveAndRegisterForPostsolve i x s
                             else sp_Remove i s) st (literal_to_clauses st ! x)
      in st1\<lparr> literal_to_clauses := (literal_to_clauses st1)[x := []],
              literal_to_clause_sizes := (literal_to_clause_sizes st1)[x := 0] \<rparr>)"

definition RebuildLiteralToClauses :: "sat_presolver \<Rightarrow> sat_presolver" where
  "RebuildLiteralToClauses st =
     foldl (\<lambda>s (ci, clause).
         foldl (\<lambda>s lit. s\<lparr> literal_to_clauses := (literal_to_clauses s)[lit := literal_to_clauses s ! lit @ [ci]] \<rparr>) s clause)
       (st\<lparr> literal_to_clauses := replicate (length (literal_to_clauses st)) [], num_deleted_literals := 0 \<rparr>)
       (enumerate 0 (sp_clauses st))"

section \<open>Subsumption and self-subsuming resolution\<close>

definition FindLiteralWithShortestOccurrenceList :: "literal list \<Rightarrow> sat_presolver \<Rightarrow> literal" where
  "FindLiteralWithShortestOccurrenceList clause st =
     foldl (\<lambda>result l. if literal_to_clause_sizes st ! l < literal_to_clause_sizes st ! result then l else result)
       (hd clause) clause"

definition FindLiteralWithShortestOccurrenceListExcluding :: "literal list \<Rightarrow> literal \<Rightarrow> sat_presolver \<Rightarrow> literal option" where
  "FindLiteralWithShortestOccurrenceListExcluding clause to_exclude st =
     fst (foldl (\<lambda>(result, num_occurrences) l.
             if l = to_exclude then (result, num_occurrences)
             else if literal_to_clause_sizes st ! l < num_occurrences then (Some l, literal_to_clause_sizes st ! l)
             else (result, num_occurrences)) (None, kint32max) clause)"

text \<open>A clause that was strengthened: its new literals, and the queue.\<close>

definition inspect :: "literal list \<Rightarrow> nat \<Rightarrow> sat_presolver \<Rightarrow> sat_presolver" where
  "inspect clause ci st =
     st\<lparr> num_inspected_literals := num_inspected_literals st + simplify_cost clause (sp_clauses st ! ci) \<rparr>"

definition set_clause :: "nat \<Rightarrow> literal list \<Rightarrow> sat_presolver \<Rightarrow> sat_presolver" where
  "set_clause ci clause st = st\<lparr> sp_clauses := (sp_clauses st)[ci := clause] \<rparr>"

definition recompute_signature :: "nat \<Rightarrow> sat_presolver \<Rightarrow> sat_presolver" where
  "recompute_signature ci st = st\<lparr> signatures := (signatures st)[ci := ComputeSignatureOfClauseVariables ci st] \<rparr>"

definition requeue :: "nat \<Rightarrow> sat_presolver \<Rightarrow> sat_presolver" where
  "requeue ci st =
     (if in_clause_to_process st ! ci then st
      else st\<lparr> in_clause_to_process := (in_clause_to_process st)[ci := True],
               clause_to_process := clause_to_process st @ [ci] \<rparr>)"

definition erase_occurrence :: "nat \<Rightarrow> literal \<Rightarrow> sat_presolver \<Rightarrow> sat_presolver" where
  "erase_occurrence ci e st =
     UpdatePriorityQueue (Variable e)
       (st\<lparr> literal_to_clauses := (literal_to_clauses st)[e := filter (\<lambda>c. c \<noteq> ci) (literal_to_clauses st ! e)],
            literal_to_clause_sizes := (literal_to_clause_sizes st)[e := literal_to_clause_sizes st ! e - 1] \<rparr>)"

definition may_simplify :: "64 word \<Rightarrow> 64 word \<Rightarrow> bool" where
  "may_simplify clause_signature ci_signature \<longleftrightarrow> clause_signature AND NOT ci_signature = 0"

text \<open>The loop of \<open>ProcessClauseToSimplifyOthersUsingLiteral\<close> returns whether it may go on, \<open>need_cleaning\<close> and
  the state; \<open>clause\<close> is the one at \<open>clause_index\<close>, that the loop does not change.\<close>

fun using_literal_loop :: "nat \<Rightarrow> literal list \<Rightarrow> 64 word \<Rightarrow> nat list \<Rightarrow> bool \<Rightarrow> sat_presolver \<Rightarrow> bool \<times> bool \<times> sat_presolver" where
  "using_literal_loop clause_index clause sig [] need_cleaning st = (True, need_cleaning, st)"
| "using_literal_loop clause_index clause sig (ci # r) need_cleaning st =
     (if signatures st ! ci = 0 then using_literal_loop clause_index clause sig r True st
      else if ci \<noteq> clause_index \<and> may_simplify sig (signatures st ! ci) then
        (case SimplifyClause clause (sp_clauses st ! ci) of
           None \<Rightarrow> using_literal_loop clause_index clause sig r need_cleaning (inspect clause ci st)
         | Some (None, b) \<Rightarrow> using_literal_loop clause_index clause sig r True (sp_Remove ci (inspect clause ci st))
         | Some (Some opposite_literal, b) \<Rightarrow>
             let st1 = set_clause ci b (inspect clause ci st)
             in if b = [] then (False, need_cleaning, st1)
                else using_literal_loop clause_index clause sig r need_cleaning
                       (requeue ci (erase_occurrence ci opposite_literal (recompute_signature ci st1))))
      else using_literal_loop clause_index clause sig r need_cleaning st)"

definition clean_occurrences :: "literal \<Rightarrow> sat_presolver \<Rightarrow> sat_presolver" where
  "clean_occurrences lit st =
     st\<lparr> literal_to_clauses := (literal_to_clauses st)[lit := filter (\<lambda>ci. signatures st ! ci \<noteq> 0) (literal_to_clauses st ! lit)] \<rparr>"

definition ProcessClauseToSimplifyOthersUsingLiteral :: "nat \<Rightarrow> literal \<Rightarrow> sat_presolver \<Rightarrow> bool \<times> sat_presolver" where
  "ProcessClauseToSimplifyOthersUsingLiteral clause_index lit st =
     (let st0 = st\<lparr> num_inspected_signatures := num_inspected_signatures st + int (length (literal_to_clauses st ! lit)) \<rparr>;
          (ok, need_cleaning, st1) = using_literal_loop clause_index (sp_clauses st ! clause_index)
             (signatures st ! clause_index) (literal_to_clauses st ! lit) False st0
      in if \<not> ok then (False, st1) else (True, if need_cleaning then clean_occurrences lit st1 else st1))"

text \<open>The clauses with the negation of the literal: the indices kept, \<open>something_removed\<close> and the state.\<close>

fun negation_loop :: "literal list \<Rightarrow> 64 word \<Rightarrow> nat list \<Rightarrow> nat list \<Rightarrow> bool \<Rightarrow> sat_presolver
    \<Rightarrow> bool \<times> nat list \<times> bool \<times> sat_presolver" where
  "negation_loop clause sig [] kept something_removed st = (True, kept, something_removed, st)"
| "negation_loop clause sig (ci # r) kept something_removed st =
     (if signatures st ! ci = 0 then negation_loop clause sig r kept something_removed st
      else if may_simplify sig (signatures st ! ci) then
        (case SimplifyClause clause (sp_clauses st ! ci) of
           None \<Rightarrow> negation_loop clause sig r (kept @ [ci]) something_removed (inspect clause ci st)
         | Some (_, b) \<Rightarrow>
             let st1 = set_clause ci b (inspect clause ci st)
             in if b = [] then (False, kept, something_removed, st1)
                else negation_loop clause sig r kept True (requeue ci (recompute_signature ci st1)))
      else negation_loop clause sig r (kept @ [ci]) something_removed st)"

definition treat_negation :: "nat \<Rightarrow> literal \<Rightarrow> sat_presolver \<Rightarrow> bool \<times> sat_presolver" where
  "treat_negation clause_index lit st =
     (let neg = Negated lit; l = literal_to_clauses st ! neg;
          (ok, kept, something_removed, st1) =
             negation_loop (sp_clauses st ! clause_index) (signatures st ! clause_index) l [] False st
      in if \<not> ok then (False, st1\<lparr> literal_to_clauses := (literal_to_clauses st1)[neg := kept @ drop (length kept) l] \<rparr>)
         else let st2 = st1\<lparr> literal_to_clauses := (literal_to_clauses st1)[neg := kept],
                             literal_to_clause_sizes := (literal_to_clause_sizes st1)[neg := int (length kept)] \<rparr>
              in (True, if something_removed then UpdatePriorityQueue (Variable neg) st2 else st2))"

definition ProcessClauseToSimplifyOthers :: "nat \<Rightarrow> sat_presolver \<Rightarrow> bool \<times> sat_presolver" where
  "ProcessClauseToSimplifyOthers clause_index st =
     (let clause = sp_clauses st ! clause_index
      in if clause = [] then (True, st)
         else let lit = FindLiteralWithShortestOccurrenceList clause st;
                  (ok, st1) = ProcessClauseToSimplifyOthersUsingLiteral clause_index lit st
              in if \<not> ok then (False, st1)
                 else case FindLiteralWithShortestOccurrenceListExcluding clause lit st1 of
                        None \<Rightarrow> treat_negation clause_index lit st1
                      | Some other \<Rightarrow>
                          if literal_to_clause_sizes st1 ! other < literal_to_clause_sizes st1 ! Negated lit
                          then ProcessClauseToSimplifyOthersUsingLiteral clause_index other st1
                          else treat_negation clause_index lit st1)"

type_synonym clock = "nat \<Rightarrow> bool"

definition LimitReached :: "clock \<Rightarrow> sat_presolver \<Rightarrow> bool \<times> sat_presolver" where
  "LimitReached clock st = (clock (limit_queries st), st\<lparr> limit_queries := limit_queries st + 1 \<rparr>)"

definition work_limit_reached :: "sat_presolver \<Rightarrow> bool" where
  "work_limit_reached st \<longleftrightarrow> num_inspected_signatures st + num_inspected_literals st > 1000000000"

partial_function (option) process_clauses_loop :: "clock \<Rightarrow> nat \<Rightarrow> sat_presolver \<Rightarrow> (bool \<times> sat_presolver) option" where
  "process_clauses_loop clock num_skipped_checks st =
     (case clause_to_process st of
        [] \<Rightarrow> Some (True, st)
      | ci # queue \<Rightarrow>
          let (ok, st1) = ProcessClauseToSimplifyOthers ci
                (st\<lparr> in_clause_to_process := (in_clause_to_process st)[ci := False], clause_to_process := queue \<rparr>)
          in if \<not> ok then Some (False, st1)
             else if num_skipped_checks + 1 \<ge> 1000 then
               if work_limit_reached st1 then Some (True, st1)
               else let (reached, st2) = LimitReached clock st1
                    in if reached then Some (True, st2) else process_clauses_loop clock 0 st2
             else process_clauses_loop clock (num_skipped_checks + 1) st1)"

declare process_clauses_loop.simps [code]

definition ProcessAllClauses :: "clock \<Rightarrow> sat_presolver \<Rightarrow> (bool \<times> sat_presolver) option" where
  "ProcessAllClauses clock st =
     process_clauses_loop clock 0
       (st\<lparr> clause_to_process := sort_key (\<lambda>ci. length (sp_clauses st ! ci)) (clause_to_process st) \<rparr>)"

section \<open>Elimination of a variable\<close>

definition live :: "sat_presolver \<Rightarrow> nat list \<Rightarrow> nat list" where
  "live st l = filter (\<lambda>i. sp_clauses st ! i \<noteq> []) l"

definition sum_sizes :: "sat_presolver \<Rightarrow> literal \<Rightarrow> int" where
  "sum_sizes st x = (\<Sum>i\<leftarrow>live st (literal_to_clauses st ! x). int (length (sp_clauses st ! i)))"

text \<open>Whether no resolvent was met, and the new size; \<open>None\<close> when the size is above the threshold.\<close>

fun resolvents_size :: "literal \<Rightarrow> int \<Rightarrow> int \<Rightarrow> literal list \<Rightarrow> literal list list \<Rightarrow> bool \<Rightarrow> int \<Rightarrow> (bool \<times> int) option" where
  "resolvents_size x clause_weight threshold clause [] no_resolvant sz = Some (no_resolvant, sz)"
| "resolvents_size x clause_weight threshold clause (d # ds) no_resolvant sz =
     (if d = [] then resolvents_size x clause_weight threshold clause ds no_resolvant sz
      else let rs = ComputeResolvantSize x clause d
           in if rs \<ge> 0 then
                let sz' = wrap32 (sz + wrap32 (clause_weight + rs))
                in if sz' > threshold then None else resolvents_size x clause_weight threshold clause ds False sz'
              else resolvents_size x clause_weight threshold clause ds no_resolvant sz)"

fun test_elimination :: "literal \<Rightarrow> int \<Rightarrow> nat list \<Rightarrow> int \<Rightarrow> sat_presolver \<Rightarrow> bool \<times> sat_presolver" where
  "test_elimination x threshold [] sz st = (True, st)"
| "test_elimination x threshold (i # r) sz st =
     (if sp_clauses st ! i = [] then test_elimination x threshold r sz st
      else case resolvents_size x (presolve_bve_clause_weight (parameters st)) threshold (sp_clauses st ! i)
                  (map (\<lambda>j. sp_clauses st ! j) (literal_to_clauses st ! Negated x)) True sz of
             None \<Rightarrow> (False, st)
           | Some (no_resolvant, sz') \<Rightarrow>
               test_elimination x threshold r sz'
                 (if no_resolvant \<and> presolve_blocked_clause (parameters st)
                  then RemoveAndRegisterForPostsolve i x st else st))"

definition add_resolvents_with :: "literal \<Rightarrow> nat \<Rightarrow> nat list \<Rightarrow> sat_presolver \<Rightarrow> sat_presolver" where
  "add_resolvents_with x i js st =
     foldl (\<lambda>s j. if sp_clauses s ! j = [] then s
                  else case ComputeResolvant x (sp_clauses s ! i) (sp_clauses s ! j) of
                         None \<Rightarrow> s
                       | Some c \<Rightarrow> AddClauseInternal c s) st js"

definition add_resolvents :: "literal \<Rightarrow> sat_presolver \<Rightarrow> sat_presolver" where
  "add_resolvents x st =
     foldl (\<lambda>s i. if sp_clauses s ! i = [] then s
                  else add_resolvents_with x i (literal_to_clauses st ! Negated x) s) st (literal_to_clauses st ! x)"

definition CrossProduct :: "literal \<Rightarrow> sat_presolver \<Rightarrow> bool \<times> sat_presolver" where
  "CrossProduct x st =
     (let s1 = literal_to_clause_sizes st ! x; s2 = literal_to_clause_sizes st ! Negated x
      in if s1 = 0 \<and> s2 = 0 then (False, st)
         else if s1 > 1 \<and> s2 > 1 \<and> wrap32 (s1 * s2) > presolve_bve_threshold (parameters st) then (False, st)
         else
           let num_clauses = int (length (live st (literal_to_clauses st ! x)) + length (live st (literal_to_clauses st ! Negated x)));
               sum_for_x = sum_sizes st x; sum_for_not_x = sum_sizes st (Negated x);
               threshold = wrap32 (presolve_bve_clause_weight (parameters st) * num_clauses) + sum_for_x + sum_for_not_x;
               y = (if s1 < s2 then Negated x else x);
               (ok, st1) = test_elimination y threshold (literal_to_clauses st ! y) 0 st
           in if \<not> ok then (False, st1)
              else let st2 = add_resolvents y st1;
                       filtered = filter_sat_postsolve_clauses (parameters st);
                       push_x_for_postsolve = (\<not> filtered \<or> sum_for_x \<le> sum_for_not_x);
                       push_not_x_for_postsolve = (\<not> filtered \<or> \<not> sum_for_x \<le> sum_for_not_x)
                   in (True, RemoveAllClauseContaining (Negated y) push_not_x_for_postsolve
                               (RemoveAllClauseContaining y push_x_for_postsolve st2)))"

section \<open>Addition of a variable\<close>

text \<open>The clauses \<open>d\<close> that are \<open>clause\<close> with \<open>l\<close> replaced by another literal not in \<open>m_lit\<close>: the entries of
  \<open>flattened_p_\<close>.  The count of a literal is the number of its entries, since \<open>literal_to_p_size_\<close> starts at zero.\<close>

definition p_size :: "(literal \<times> nat) list \<Rightarrow> literal \<Rightarrow> int" where
  "p_size flattened l = int (length (filter (\<lambda>e. fst e = l) flattened))"

type_synonym p_state = "(literal \<times> nat) list \<times> literal option \<times> int"

fun scan_candidates :: "sat_presolver \<Rightarrow> literal \<Rightarrow> literal list \<Rightarrow> nat \<Rightarrow> nat list \<Rightarrow> p_state \<Rightarrow> p_state" where
  "scan_candidates st l m_lit c [] p = p"
| "scan_candidates st l m_lit c (d # ds) (flattened, lmax, max_size) =
     scan_candidates st l m_lit c ds
       (let clause = sp_clauses st ! c
        in if length clause \<noteq> length (sp_clauses st ! d) then (flattened, lmax, max_size)
           else case DifferAtGivenLiteral clause (sp_clauses st ! d) l of
                  None \<Rightarrow> (flattened, lmax, max_size)
                | Some l_diff \<Rightarrow>
                    if l_diff \<in> set m_lit then (flattened, lmax, max_size)
                    else let flattened' = flattened @ [(l_diff, c)]; new_size = p_size flattened' l_diff
                         in if new_size > max_size then (flattened', Some l_diff, new_size)
                            else (flattened', lmax, max_size))"

fun scan_clauses :: "sat_presolver \<Rightarrow> literal \<Rightarrow> literal list \<Rightarrow> nat list \<Rightarrow> p_state \<Rightarrow> p_state" where
  "scan_clauses st l m_lit [] p = p"
| "scan_clauses st l m_lit (c # cs) p =
     scan_clauses st l m_lit cs
       (if sp_clauses st ! c = [] then p
        else case FindLiteralWithShortestOccurrenceListExcluding (sp_clauses st ! c) l st of
               None \<Rightarrow> p
             | Some l_min \<Rightarrow> scan_candidates st l m_lit c (literal_to_clauses st ! l_min) p)"

text \<open>\<open>n\<close> iterations are left; the set \<open>m_lit\<close> is sorted.\<close>

fun bva_search :: "sat_presolver \<Rightarrow> literal \<Rightarrow> nat \<Rightarrow> literal list \<Rightarrow> nat list \<Rightarrow> int \<Rightarrow> literal list \<times> nat list \<times> int" where
  "bva_search st l 0 m_lit m_cls reduction = (m_lit, m_cls, reduction)"
| "bva_search st l (Suc n) m_lit m_cls reduction =
     (let (flattened, lmax, max_size) = scan_clauses st l m_lit m_cls ([], None, 0)
      in case lmax of
           None \<Rightarrow> (m_lit, m_cls, reduction)
         | Some lm \<Rightarrow>
             let new_m_lit_size = int (length m_lit) + 1;
                 new_reduction = wrap32 (new_m_lit_size * max_size - max_size - new_m_lit_size)
             in if new_reduction \<le> reduction then (m_lit, m_cls, reduction)
                else bva_search st l n (insort lm m_lit) (map snd (filter (\<lambda>e. fst e = lm) flattened)) new_reduction)"

definition add_bva_variable :: "sat_presolver \<Rightarrow> sat_presolver" where
  "add_bva_variable st =
     st\<lparr> literal_to_clauses := literal_to_clauses st @ [[], []],
         literal_to_clause_sizes := literal_to_clause_sizes st @ [0, 0],
         bva_weights := resize_list (length (literal_to_clauses st) + 2) 0 (bva_weights st) \<rparr>"

definition replace_literal :: "literal \<Rightarrow> literal \<Rightarrow> literal list \<Rightarrow> literal list" where
  "replace_literal l l' clause = sort (takeWhile (\<lambda>e. e \<noteq> l) clause @
     (case dropWhile (\<lambda>e. e \<noteq> l) clause of [] \<Rightarrow> [] | _ # r \<Rightarrow> l' # r))"

text \<open>The first clause of the list that is \<open>clause\<close> with \<open>l\<close> replaced by \<open>lit\<close> is removed.\<close>

fun remove_variant :: "literal list \<Rightarrow> literal \<Rightarrow> literal \<Rightarrow> nat list \<Rightarrow> sat_presolver \<Rightarrow> sat_presolver" where
  "remove_variant clause l lit [] st = st"
| "remove_variant clause l lit (d # ds) st =
     (if length clause = length (sp_clauses st ! d) \<and> DifferAtGivenLiteral clause (sp_clauses st ! d) l = Some lit
      then sp_Remove d st else remove_variant clause l lit ds st)"

text \<open>\<open>None\<close> when the occurrences of \<open>kNoLiteralIndex\<close> would be read.\<close>

fun remove_variants :: "literal list \<Rightarrow> literal \<Rightarrow> literal option \<Rightarrow> literal list \<Rightarrow> sat_presolver \<Rightarrow> sat_presolver option" where
  "remove_variants clause l l_min [] st = Some st"
| "remove_variants clause l l_min (lit # lits) st =
     (if lit = l then remove_variants clause l l_min lits st
      else case l_min of
             None \<Rightarrow> None
           | Some lm \<Rightarrow> remove_variants clause l l_min lits (remove_variant clause l lit (literal_to_clauses st ! lm) st))"

fun delete_old_clauses :: "literal \<Rightarrow> literal list \<Rightarrow> nat list \<Rightarrow> sat_presolver \<Rightarrow> sat_presolver option" where
  "delete_old_clauses l m_lit [] st = Some st"
| "delete_old_clauses l m_lit (c # cs) st =
     do { st1 \<leftarrow> remove_variants (sp_clauses st ! c) l
                   (FindLiteralWithShortestOccurrenceListExcluding (sp_clauses st ! c) l st) m_lit st;
          delete_old_clauses l m_lit cs (sp_Remove c st1) }"

definition add_pair_clause :: "literal \<Rightarrow> sat_presolver \<Rightarrow> literal \<Rightarrow> sat_presolver" where
  "add_pair_clause x_true st lit = AddClauseInternal [lit, x_true] st"

definition add_replaced_clause :: "literal \<Rightarrow> literal \<Rightarrow> sat_presolver \<Rightarrow> nat \<Rightarrow> sat_presolver" where
  "add_replaced_clause l x_false st ci = AddClauseInternal (replace_literal l x_false (sp_clauses st ! ci)) st"

definition SimpleBva :: "literal \<Rightarrow> sat_presolver \<Rightarrow> sat_presolver option" where
  "SimpleBva l st =
     (let (m_lit, m_cls, reduction) = bva_search st l 100 [l] (literal_to_clauses st ! l) 0
      in if reduction \<le> presolve_bva_threshold (parameters st) then Some st
         else
           let x_true = length (literal_to_clauses st); x_false = x_true + 1;
               st1 = foldl (add_pair_clause x_true) (add_bva_variable st) m_lit;
               st2 = foldl (add_replaced_clause l x_false) st1 m_cls
           in do { st3 \<leftarrow> delete_old_clauses l m_lit m_cls st2;
                   Some (AddToBvaPriorityQueue l (AddToBvaPriorityQueue x_false (AddToBvaPriorityQueue x_true st3))) })"

partial_function (option) bva_loop :: "clock \<Rightarrow> sat_presolver \<Rightarrow> sat_presolver option" where
  "bva_loop clock st =
     (if pq_elems (bva_pq st) = [] then Some st
      else do { st1 \<leftarrow> SimpleBva (pq_Top (bva_pq st))
                         (st\<lparr> bva_pq := pq_Pop (bva_lower (bva_weights st)) (bva_pq st) \<rparr>);
                let (reached, st2) = LimitReached clock st1
                in if reached then Some st2 else bva_loop clock st2 })"

declare bva_loop.simps [code]

definition PresolveWithBva :: "clock \<Rightarrow> sat_presolver \<Rightarrow> sat_presolver option" where
  "PresolveWithBva clock st = bva_loop clock (InitializeBvaPriorityQueue (st\<lparr> var_weights := [] \<rparr>))"

section \<open>The presolve\<close>

definition pop_variable :: "sat_presolver \<Rightarrow> sat_presolver" where
  "pop_variable st = st\<lparr> var_pq := pq_Pop (var_lower (var_weights st)) (var_pq st) \<rparr>"

text \<open>The iteration on a popped variable: the state, and what \<open>Presolve\<close> returns when it returns there.\<close>

definition eliminate_variable :: "clock \<Rightarrow> nat \<Rightarrow> sat_presolver \<Rightarrow> (bool option \<times> sat_presolver) option" where
  "eliminate_variable clock v st =
     (let (eliminated, st1) = CrossProduct (2 * v) st
      in do { (ok, st2) \<leftarrow> (if eliminated then ProcessAllClauses clock st1 else Some (True, st1));
              if \<not> ok then Some (Some False, st2)
              else let st3 = (if eliminated \<and> num_deleted_literals st2 > 10000000 then RebuildLiteralToClauses st2 else st2);
                       (reached, st4) = LimitReached clock st3
                   in if reached then Some (Some True, st4)
                      else if work_limit_reached st4 then Some (Some True, st4)
                      else Some (None, st4) })"

partial_function (option) elimination_loop :: "clock \<Rightarrow> bool list \<Rightarrow> sat_presolver \<Rightarrow> (bool option \<times> sat_presolver) option" where
  "elimination_loop clock can_be_removed st =
     (if pq_elems (var_pq st) = [] then Some (None, st)
      else let v = pq_Top (var_pq st)
           in if \<not> can_be_removed ! v then elimination_loop clock can_be_removed (pop_variable st)
              else do { (returned, st1) \<leftarrow> eliminate_variable clock v (pop_variable st);
                        case returned of
                          Some b \<Rightarrow> Some (Some b, st1)
                        | None \<Rightarrow> elimination_loop clock can_be_removed st1 })"

declare elimination_loop.simps [code]

text \<open>The passes before the addition of variables, and the result when \<open>Presolve\<close> returns in them.\<close>

definition presolve_passes :: "clock \<Rightarrow> bool list \<Rightarrow> sat_presolver \<Rightarrow> (bool option \<times> sat_presolver) option" where
  "presolve_passes clock can_be_removed st =
     do { (ok, st1) \<leftarrow> ProcessAllClauses clock st;
          if \<not> ok then Some (Some False, st1)
          else let (reached, st2) = LimitReached clock st1
               in if reached \<or> work_limit_reached st2 then Some (Some True, st2)
                  else elimination_loop clock can_be_removed (InitializePriorityQueue st2) }"

definition Presolve :: "clock \<Rightarrow> bool list \<Rightarrow> sat_presolver \<Rightarrow> (bool \<times> sat_presolver) option" where
  "Presolve clock can_be_removed st =
     do { (returned, st1) \<leftarrow> presolve_passes clock can_be_removed st;
          case returned of
            Some b \<Rightarrow> Some (b, st1)
          | None \<Rightarrow> if presolve_use_bva (parameters st1)
                    then do { st2 \<leftarrow> PresolveWithBva clock st1; Some (True, st2) }
                    else Some (True, st1) }"

definition Presolve_all :: "clock \<Rightarrow> sat_presolver \<Rightarrow> (bool \<times> sat_presolver) option" where
  "Presolve_all clock st = Presolve clock (replicate (NumVariables st) True) st"

section \<open>The presolved problem\<close>

definition variable_used :: "sat_presolver \<Rightarrow> nat \<Rightarrow> bool" where
  "variable_used st v \<longleftrightarrow> literal_to_clause_sizes st ! (2 * v) > 0 \<or> literal_to_clause_sizes st ! (2 * v + 1) > 0"

definition VariableMapping :: "sat_presolver \<Rightarrow> nat option list" where
  "VariableMapping st =
     fst (foldl (\<lambda>(result, new_var) v. if variable_used st v then (result @ [Some new_var], new_var + 1)
                                       else (result @ [None], new_var)) ([], 0) [0..<NumVariables st])"

text \<open>The number of variables and the clauses given to the solver.\<close>

definition map_literal :: "nat option list \<Rightarrow> literal \<Rightarrow> literal" where
  "map_literal mapping l = (if even l then 2 * the (mapping ! Variable l) else 2 * the (mapping ! Variable l) + 1)"

definition LoadProblemIntoSatSolver :: "sat_presolver \<Rightarrow> nat \<times> literal list list \<times> sat_presolver" where
  "LoadProblemIntoSatSolver st =
     (let mapping = VariableMapping st
      in (length (filter (\<lambda>index. index \<noteq> None) mapping),
          map (map (map_literal mapping)) (filter (\<lambda>c. c \<noteq> []) (sp_clauses st)),
          st\<lparr> var_pq := pq_Clear (var_pq st), var_weights := [], in_clause_to_process := [], clause_to_process := [],
              literal_to_clauses := [], signatures := [], sp_clauses := map (\<lambda>_. []) (sp_clauses st) \<rparr>))"

end
