(* ===== verification/SatQueues.thy ===== *)
theory SatQueues
  imports SatPresolve
begin

text \<open>
  The priority queues of the presolver: the orders on weights, and what the updates keep.
\<close>

section \<open>The orders\<close>

interpretation var_order: strict_weak_order "var_lower w" for w
  by unfold_locales (auto simp: var_lower_def)

interpretation bva_order: strict_weak_order "bva_lower w" for w
  by unfold_locales (auto simp: bva_lower_def)

text \<open>A queue over a list of weights: a heap of indices of the list.\<close>

definition queue_over :: "(int list \<Rightarrow> nat \<Rightarrow> nat \<Rightarrow> bool) \<Rightarrow> int list \<Rightarrow> nat pq \<Rightarrow> bool" where
  "queue_over lower w q \<longleftrightarrow> valid_queue (lower w) q \<and> set (pq_elems q) \<subseteq> {..<length w}"

lemma queue_over_empty [simp]: "queue_over lower w pq_empty"
  by (simp add: queue_over_def pq_empty_def valid_queue_def indexed_def heap_def)

text \<open>What the presolver does with a queue, over an order that compares two indices by their weights alone.\<close>

locale weight_order =
  fixes lower :: "int list \<Rightarrow> nat \<Rightarrow> nat \<Rightarrow> bool"
  assumes order: "strict_weak_order (lower w)"
    and local_update: "a \<noteq> v \<Longrightarrow> b \<noteq> v \<Longrightarrow> lower (w[v := n]) a b = lower w a b"
begin

lemma NoteChangedPriority_over:
  assumes "queue_over lower w q" "v \<in> set (pq_elems q)"
  shows "queue_over lower (w[v := n]) (NoteChangedPriority (lower (w[v := n])) v q)"
    "set (pq_elems (NoteChangedPriority (lower (w[v := n])) v q)) = set (pq_elems q)"
proof -
  have q: "valid_queue (lower w) q" using assms(1) by (simp add: queue_over_def)
  note c = NoteChangedPriority_valid[OF order[of w] order[of "w[v := n]"] q assms(2) local_update]
  show s: "set (pq_elems (NoteChangedPriority (lower (w[v := n])) v q)) = set (pq_elems q)"
    by (rule mset_eq_setD[OF c(2)]) simp_all
  have "valid_queue (lower (w[v := n])) (NoteChangedPriority (lower (w[v := n])) v q)"
    by (rule c(1)) simp_all
  then show "queue_over lower (w[v := n]) (NoteChangedPriority (lower (w[v := n])) v q)"
    using assms(1) s by (simp add: queue_over_def)
qed

lemma changed_other:
  assumes "queue_over lower w q" "v \<notin> set (pq_elems q)"
  shows "queue_over lower (w[v := n]) q"
proof -
  have "valid_queue (lower (w[v := n])) q"
  proof (rule valid_queue_cong[of "lower w"])
    show "lower (w[v := n]) a b = lower w a b" if "a \<in> set (pq_elems q)" "b \<in> set (pq_elems q)" for a b
      using that assms(2) by (intro local_update) auto
  qed (use assms(1) in \<open>simp add: queue_over_def\<close>)
  then show ?thesis using assms(1) by (simp add: queue_over_def)
qed

lemma pq_Add_over:
  assumes "queue_over lower w q" "v \<notin> set (pq_elems q)" "v < length w"
  shows "queue_over lower (w[v := n]) (pq_Add (lower (w[v := n])) v q)"
    "mset (pq_elems (pq_Add (lower (w[v := n])) v q)) = add_mset v (mset (pq_elems q))"
proof -
  have c: "queue_over lower (w[v := n]) q" by (rule changed_other[OF assms(1,2)])
  then have "valid_queue (lower (w[v := n])) q" by (simp add: queue_over_def)
  note a = strict_weak_order.pq_Add_spec[OF order this assms(2)]
  show m: "mset (pq_elems (pq_Add (lower (w[v := n])) v q)) = add_mset v (mset (pq_elems q))" by (rule a(2))
  show "queue_over lower (w[v := n]) (pq_Add (lower (w[v := n])) v q)"
    using a(1) c assms(3) arg_cong[OF m, of set_mset] by (simp add: queue_over_def)
qed

lemma pq_Contains_over: "queue_over lower w q \<Longrightarrow> pq_Contains v q \<longleftrightarrow> v \<in> set (pq_elems q)"
  by (intro strict_weak_order.pq_Contains_iff[OF order]) (auto simp: queue_over_def valid_queue_def)

lemma pq_Pop_over:
  assumes "queue_over lower w q" "pq_elems q \<noteq> []"
  shows "queue_over lower w (pq_Pop (lower w) q)" "pq_Top q < length w"
    "mset (pq_elems (pq_Pop (lower w) q)) = mset (pq_elems q) - {#pq_Top q#}"
    "v \<in> set (pq_elems q) \<Longrightarrow> \<not> lower w (pq_Top q) v"
proof -
  have t: "pq_Top q \<in> set (pq_elems q)" using assms(2) by (simp add: pq_Top_def)
  have v: "valid_queue (lower w) q" using assms(1) by (simp add: queue_over_def)
  note r = strict_weak_order.pq_Remove_spec[OF order v t]
  show m: "mset (pq_elems (pq_Pop (lower w) q)) = mset (pq_elems q) - {#pq_Top q#}" using r(2) by (simp add: pq_Pop_def)
  have "set (pq_elems (pq_Pop (lower w) q)) \<subseteq> set (pq_elems q)"
    using arg_cong[OF m, of set_mset] by (auto dest: in_diffD)
  then show "queue_over lower w (pq_Pop (lower w) q)" using r(1) assms(1) by (auto simp: queue_over_def pq_Pop_def)
  show "pq_Top q < length w" using t assms(1) by (auto simp: queue_over_def)
  show "v \<in> set (pq_elems q) \<Longrightarrow> \<not> lower w (pq_Top q) v" by (rule strict_weak_order.pq_Top_greatest[OF order v])
qed

end

interpretation var_queue: weight_order var_lower
  by unfold_locales (auto simp: var_lower_def)

interpretation bva_queue: weight_order bva_lower
  by unfold_locales (auto simp: bva_lower_def)

text \<open>The queue of the variables is not in use, or its weights are the numbers of occurrences but for
  the variables of a set.\<close>

definition var_queue_but :: "nat set \<Rightarrow> sat_presolver \<Rightarrow> bool" where
  "var_queue_but V st \<longleftrightarrow> var_weights st = [] \<or>
     length (var_weights st) = NumVariables st \<and> queue_over var_lower (var_weights st) (var_pq st) \<and>
     (\<forall>v < NumVariables st. v \<notin> V \<longrightarrow> var_weights st ! v = occurrences v st)"

lemma UpdatePriorityQueue_sel [simp]:
  "sp_clauses (UpdatePriorityQueue v st) = sp_clauses st"
  "signatures (UpdatePriorityQueue v st) = signatures st"
  "in_clause_to_process (UpdatePriorityQueue v st) = in_clause_to_process st"
  "clause_to_process (UpdatePriorityQueue v st) = clause_to_process st"
  "literal_to_clauses (UpdatePriorityQueue v st) = literal_to_clauses st"
  "literal_to_clause_sizes (UpdatePriorityQueue v st) = literal_to_clause_sizes st"
  "bva_weights (UpdatePriorityQueue v st) = bva_weights st"
  "bva_pq (UpdatePriorityQueue v st) = bva_pq st"
  "equiv_mapping (UpdatePriorityQueue v st) = equiv_mapping st"
  "num_inspected_signatures (UpdatePriorityQueue v st) = num_inspected_signatures st"
  "num_inspected_literals (UpdatePriorityQueue v st) = num_inspected_literals st"
  "num_deleted_literals (UpdatePriorityQueue v st) = num_deleted_literals st"
  "postsolver_adds (UpdatePriorityQueue v st) = postsolver_adds st"
  "parameters (UpdatePriorityQueue v st) = parameters st"
  "limit_queries (UpdatePriorityQueue v st) = limit_queries st"
  by (simp_all add: UpdatePriorityQueue_def Let_def)

lemma UpdateBvaPriorityQueue_sel [simp]:
  "sp_clauses (UpdateBvaPriorityQueue v st) = sp_clauses st"
  "signatures (UpdateBvaPriorityQueue v st) = signatures st"
  "in_clause_to_process (UpdateBvaPriorityQueue v st) = in_clause_to_process st"
  "clause_to_process (UpdateBvaPriorityQueue v st) = clause_to_process st"
  "literal_to_clauses (UpdateBvaPriorityQueue v st) = literal_to_clauses st"
  "literal_to_clause_sizes (UpdateBvaPriorityQueue v st) = literal_to_clause_sizes st"
  "var_weights (UpdateBvaPriorityQueue v st) = var_weights st"
  "var_pq (UpdateBvaPriorityQueue v st) = var_pq st"
  "equiv_mapping (UpdateBvaPriorityQueue v st) = equiv_mapping st"
  "num_inspected_signatures (UpdateBvaPriorityQueue v st) = num_inspected_signatures st"
  "num_inspected_literals (UpdateBvaPriorityQueue v st) = num_inspected_literals st"
  "num_deleted_literals (UpdateBvaPriorityQueue v st) = num_deleted_literals st"
  "postsolver_adds (UpdateBvaPriorityQueue v st) = postsolver_adds st"
  "parameters (UpdateBvaPriorityQueue v st) = parameters st"
  "limit_queries (UpdateBvaPriorityQueue v st) = limit_queries st"
  by (simp_all add: UpdateBvaPriorityQueue_def Let_def)

lemma NumVariables_cong: "literal_to_clause_sizes s = literal_to_clause_sizes t \<Longrightarrow> NumVariables s = NumVariables t"
  by (simp add: NumVariables_def)

lemma occurrences_cong: "literal_to_clause_sizes s = literal_to_clause_sizes t \<Longrightarrow> occurrences v s = occurrences v t"
  by (simp add: occurrences_def)

lemma var_queue_cong:
  assumes "literal_to_clause_sizes s = literal_to_clause_sizes t" "var_weights s = var_weights t" "var_pq s = var_pq t"
  shows "var_queue_but V s = var_queue_but V t"
  using assms NumVariables_cong[OF assms(1)] occurrences_cong[OF assms(1)] by (simp add: var_queue_but_def)

lemma UpdatePriorityQueue_ok:
  assumes "var_queue_but V st" "v < NumVariables st"
  shows "var_queue_but (V - {v}) (UpdatePriorityQueue v st)"
    "var_weights st \<noteq> [] \<Longrightarrow> set (pq_elems (var_pq (UpdatePriorityQueue v st))) = insert v (set (pq_elems (var_pq st)))"
proof -
  let ?w = "(var_weights st)[v := occurrences v st]" and ?s = "UpdatePriorityQueue v st"
  have n: "NumVariables ?s = NumVariables st" "\<And>u. occurrences u ?s = occurrences u st"
    by (simp_all add: NumVariables_def occurrences_def)
  have main: "queue_over var_lower ?w (var_pq ?s) \<and> set (pq_elems (var_pq ?s)) = insert v (set (pq_elems (var_pq st))) \<and>
      var_weights ?s = ?w" if w: "var_weights st \<noteq> []"
  proof -
    have q: "queue_over var_lower (var_weights st) (var_pq st)" "v < length (var_weights st)"
      using assms w by (auto simp: var_queue_but_def)
    note c = var_queue.pq_Contains_over[OF q(1), of v]
    show ?thesis
    proof (cases "v \<in> set (pq_elems (var_pq st))")
      case True
      then show ?thesis using var_queue.NoteChangedPriority_over[OF q(1) True] c w
        by (auto simp: UpdatePriorityQueue_def Let_def)
    next
      case False
      then have "set (pq_elems (pq_Add (var_lower ?w) v (var_pq st))) = insert v (set (pq_elems (var_pq st)))"
        using arg_cong[OF var_queue.pq_Add_over(2)[OF q(1) False q(2), of "occurrences v st"], of set_mset] by simp
      then show ?thesis using var_queue.pq_Add_over(1)[OF q(1) False q(2)] c w False by (simp add: UpdatePriorityQueue_def Let_def)
    qed
  qed
  then show "var_weights st \<noteq> [] \<Longrightarrow> set (pq_elems (var_pq ?s)) = insert v (set (pq_elems (var_pq st)))" by blast
  show "var_queue_but (V - {v}) ?s"
  proof (cases "var_weights st = []")
    case True
    then show ?thesis by (simp add: var_queue_but_def UpdatePriorityQueue_def)
  next
    case False
    then show ?thesis using main[OF False] assms n by (auto simp: var_queue_but_def nth_list_update)
  qed
qed

text \<open>The initialization adds every variable.\<close>

definition add_variable :: "sat_presolver \<Rightarrow> nat \<Rightarrow> sat_presolver" where
  "add_variable s v = (let w = (var_weights s)[v := occurrences v s]
                       in s\<lparr> var_weights := w, var_pq := pq_Add (var_lower w) v (var_pq s) \<rparr>)"

lemma InitializePriorityQueue_alt:
  "InitializePriorityQueue st =
     foldl add_variable (st\<lparr> var_weights := resize_list (NumVariables st) 0 (var_weights st) \<rparr>) [0..<NumVariables st]"
  by (simp add: InitializePriorityQueue_def add_variable_def[abs_def])

lemma add_variable_frame: "\<exists>w q. add_variable s v = s\<lparr> var_weights := w, var_pq := q \<rparr>"
  unfolding add_variable_def Let_def by blast

lemma add_variables_frame: "\<exists>w q. foldl add_variable s vs = s\<lparr> var_weights := w, var_pq := q \<rparr>"
proof (induction vs rule: rev_induct)
  case Nil
  show ?case by (rule exI[of _ "var_weights s"], rule exI[of _ "var_pq s"]) simp
next
  case (snoc v vs)
  then obtain w q where "foldl add_variable s vs = s\<lparr> var_weights := w, var_pq := q \<rparr>" by blast
  moreover obtain w' q' where "add_variable (s\<lparr> var_weights := w, var_pq := q \<rparr>) v = s\<lparr> var_weights := w', var_pq := q' \<rparr>"
    using add_variable_frame[of "s\<lparr> var_weights := w, var_pq := q \<rparr>" v] by auto
  ultimately show ?case by auto
qed

lemma InitializePriorityQueue_frame: "\<exists>w q. InitializePriorityQueue st = st\<lparr> var_weights := w, var_pq := q \<rparr>"
  unfolding InitializePriorityQueue_alt
  using add_variables_frame[of "st\<lparr> var_weights := resize_list (NumVariables st) 0 (var_weights st) \<rparr>"] by auto

lemma add_variables_queue:
  assumes "length (var_weights s) = NumVariables s" "k \<le> NumVariables s" "pq_elems (var_pq s) = []"
  shows "let t = foldl add_variable s [0..<k] in
     length (var_weights t) = NumVariables s \<and> queue_over var_lower (var_weights t) (var_pq t) \<and>
     set (pq_elems (var_pq t)) = {..<k} \<and> (\<forall>v < k. var_weights t ! v = occurrences v s)"
  using assms(2)
proof (induction k)
  case 0
  then show ?case using assms by (simp add: queue_over_def valid_queue_def indexed_def heap_def)
next
  case (Suc k)
  let ?t = "foldl add_variable s [0..<k]"
  let ?w = "(var_weights ?t)[k := occurrences k ?t]"
  obtain w q where f: "?t = s\<lparr> var_weights := w, var_pq := q \<rparr>" using add_variables_frame by blast
  have oc: "occurrences v ?t = occurrences v s" for v unfolding f by (simp add: occurrences_def)
  have IH: "length (var_weights ?t) = NumVariables s" "queue_over var_lower (var_weights ?t) (var_pq ?t)"
    "set (pq_elems (var_pq ?t)) = {..<k}" "\<And>v. v < k \<Longrightarrow> var_weights ?t ! v = occurrences v s"
    using Suc.IH Suc.prems by (auto simp: Let_def)
  have "k \<notin> set (pq_elems (var_pq ?t))" "k < length (var_weights ?t)" using IH Suc.prems by auto
  note a = var_queue.pq_Add_over[OF IH(2) this, of "occurrences k ?t"]
  have "set (pq_elems (pq_Add (var_lower ?w) k (var_pq ?t))) = {..<Suc k}"
    using arg_cong[OF a(2), of set_mset] IH(3) by (auto simp: lessThan_Suc)
  moreover have "foldl add_variable s [0..<Suc k] = ?t\<lparr> var_weights := ?w, var_pq := pq_Add (var_lower ?w) k (var_pq ?t) \<rparr>"
    by (simp only: upt_Suc_append[OF le0] foldl_append foldl.simps add_variable_def Let_def)
  ultimately show ?case using a(1) IH oc Suc.prems
    by (simp only: Let_def) (auto simp: nth_list_update less_Suc_eq)
qed

lemma InitializePriorityQueue_ok:
  assumes "var_weights st = []" "pq_elems (var_pq st) = []"
  shows "var_queue_but {} (InitializePriorityQueue st)"
    "set (pq_elems (var_pq (InitializePriorityQueue st))) = {..<NumVariables st}"
proof -
  let ?s = "st\<lparr> var_weights := resize_list (NumVariables st) 0 (var_weights st) \<rparr>"
  let ?t = "InitializePriorityQueue st"
  have n: "NumVariables ?s = NumVariables st" "\<And>v. occurrences v ?s = occurrences v st" by (simp_all add: NumVariables_def occurrences_def)
  have l: "length (var_weights ?s) = NumVariables ?s" using assms(1) n by (simp add: resize_list_def)
  have q: "length (var_weights ?t) = NumVariables st \<and> queue_over var_lower (var_weights ?t) (var_pq ?t) \<and>
     set (pq_elems (var_pq ?t)) = {..<NumVariables st} \<and> (\<forall>v < NumVariables st. var_weights ?t ! v = occurrences v st)"
    using add_variables_queue[OF l, of "NumVariables st"] assms(2) n unfolding InitializePriorityQueue_alt Let_def by simp
  obtain w p where f: "?t = st\<lparr> var_weights := w, var_pq := p \<rparr>" using InitializePriorityQueue_frame by blast
  have "NumVariables ?t = NumVariables st" "\<And>v. occurrences v ?t = occurrences v st" unfolding f by (simp_all add: NumVariables_def occurrences_def)
  then show "var_queue_but {} ?t" using q by (simp add: var_queue_but_def)
  show "set (pq_elems (var_pq ?t)) = {..<NumVariables st}" using q by blast
qed

lemma pop_variable_ok:
  assumes "var_queue_but V st" "pq_elems (var_pq st) \<noteq> []" "var_weights st \<noteq> []"
  shows "var_queue_but V (pop_variable st)" "pq_Top (var_pq st) < NumVariables st"
    "mset (pq_elems (var_pq (pop_variable st))) = mset (pq_elems (var_pq st)) - {#pq_Top (var_pq st)#}"
    "\<forall>v \<in> set (pq_elems (var_pq st)). var_weights st ! pq_Top (var_pq st) \<le> var_weights st ! v"
proof -
  have q: "queue_over var_lower (var_weights st) (var_pq st)" "length (var_weights st) = NumVariables st"
    using assms by (auto simp: var_queue_but_def)
  note r = var_queue.pq_Pop_over[OF q(1) assms(2)]
  have "NumVariables (pop_variable st) = NumVariables st" "\<And>v. occurrences v (pop_variable st) = occurrences v st"
    "var_weights (pop_variable st) = var_weights st" "var_pq (pop_variable st) = pq_Pop (var_lower (var_weights st)) (var_pq st)"
    by (simp_all add: pop_variable_def NumVariables_def occurrences_def)
  then show "var_queue_but V (pop_variable st)" "mset (pq_elems (var_pq (pop_variable st))) = mset (pq_elems (var_pq st)) - {#pq_Top (var_pq st)#}"
    using assms(1,3) r(1,3) by (simp_all add: var_queue_but_def)
  show "pq_Top (var_pq st) < NumVariables st" using r(2) q(2) by simp
  show "\<forall>v \<in> set (pq_elems (var_pq st)). var_weights st ! pq_Top (var_pq st) \<le> var_weights st ! v"
    using r(4) by (auto simp: var_lower_def not_less)
qed

text \<open>The queue of the literals.\<close>

definition bva_queue_ok :: "sat_presolver \<Rightarrow> bool" where
  "bva_queue_ok st \<longleftrightarrow> bva_weights st = [] \<or>
     length (bva_weights st) = length (literal_to_clause_sizes st) \<and> queue_over bva_lower (bva_weights st) (bva_pq st)"

lemma bva_queue_cong:
  assumes "length (literal_to_clause_sizes s) = length (literal_to_clause_sizes t)" "bva_weights s = bva_weights t" "bva_pq s = bva_pq t"
  shows "bva_queue_ok s = bva_queue_ok t"
  using assms by (simp add: bva_queue_ok_def)

lemma UpdateBvaPriorityQueue_ok:
  assumes "bva_queue_ok st"
  shows "bva_queue_ok (UpdateBvaPriorityQueue l st)"
proof (cases "bva_weights st = []")
  case True
  then show ?thesis by (simp add: bva_queue_ok_def UpdateBvaPriorityQueue_def)
next
  case False
  then have q: "queue_over bva_lower (bva_weights st) (bva_pq st)" using assms by (simp add: bva_queue_ok_def)
  have "queue_over bva_lower ((bva_weights st)[l := n])
      (if pq_Contains l (bva_pq st) then NoteChangedPriority (bva_lower ((bva_weights st)[l := n])) l (bva_pq st) else bva_pq st)" for n
    using bva_queue.pq_Contains_over[OF q] bva_queue.NoteChangedPriority_over(1)[OF q] bva_queue.changed_other[OF q] by simp
  then show ?thesis using assms False by (simp add: bva_queue_ok_def UpdateBvaPriorityQueue_def Let_def)
qed

end
