(* ===== verification/SatReduce.thy ===== *)
theory SatReduce
  imports SatBase
begin

text \<open>
  What a presolve of clauses is allowed to do, as a transition system on a formula and on the clauses pushed
  for the postsolve, and why a solution of the last formula is turned into a solution of the first one.
\<close>

type_synonym formula = "literal list set"
type_synonym pushed = "(literal \<times> literal list) list"

definition satisfies :: "(nat \<Rightarrow> bool) \<Rightarrow> formula \<Rightarrow> bool" where
  "satisfies v F \<longleftrightarrow> (\<forall>c \<in> F. holds v c)"

definition entails :: "formula \<Rightarrow> literal list \<Rightarrow> bool" where
  "entails F c \<longleftrightarrow> (\<forall>v. satisfies v F \<longrightarrow> holds v c)"

text \<open>The postsolve of a pushed clause: when it is false, its associated literal becomes true.\<close>

definition flip :: "literal \<times> literal list \<Rightarrow> (nat \<Rightarrow> bool) \<Rightarrow> nat \<Rightarrow> bool" where
  "flip = (\<lambda>(x, c) v. if holds v c then v else v(Variable x := even x))"

definition recover :: "pushed \<Rightarrow> (nat \<Rightarrow> bool) \<Rightarrow> nat \<Rightarrow> bool" where
  "recover P v = foldr flip P v"

definition resolvent :: "literal \<Rightarrow> literal list \<Rightarrow> literal list \<Rightarrow> literal list" where
  "resolvent x c d = removeAll x c @ removeAll (Negated x) d"

definition formula_variables :: "formula \<Rightarrow> nat set" where
  "formula_variables F = (\<Union>c \<in> F. Variable ` set c)"

text \<open>A clause that follows is added or left out; a clause is pushed and left out when its resolvents on a
  literal follow from what is left; clauses define a new variable.\<close>

inductive reduce_step :: "formula \<times> pushed \<Rightarrow> formula \<times> pushed \<Rightarrow> bool" where
  learn: "entails F c \<Longrightarrow> reduce_step (F, P) (insert c F, P)"
| forget: "entails F c \<Longrightarrow> reduce_step (insert c F, P) (F, P)"
| push: "x \<in> set c \<Longrightarrow> (\<And>d. d \<in> insert c F \<Longrightarrow> Negated x \<in> set d \<Longrightarrow> entails F (resolvent x c d)) \<Longrightarrow>
    reduce_step (insert c F, P) (F, P @ [(x, c)])"
| define_variable: "x \<notin> formula_variables F \<Longrightarrow> (\<And>v. satisfies v F \<Longrightarrow> \<exists>b. satisfies (v(x := b)) D) \<Longrightarrow>
    reduce_step (F, P) (F \<union> D, P)"

definition reduces :: "formula \<times> pushed \<Rightarrow> formula \<times> pushed \<Rightarrow> bool" where
  "reduces = reduce_step\<^sup>*\<^sup>*"

inductive_cases reduce_stepE: "reduce_step (F, P) (F', P')"

section \<open>Valuations\<close>

lemma satisfies_insert [simp]: "satisfies v (insert c F) \<longleftrightarrow> holds v c \<and> satisfies v F"
  by (simp add: satisfies_def)

lemma satisfies_Un [simp]: "satisfies v (F \<union> G) \<longleftrightarrow> satisfies v F \<and> satisfies v G"
  by (auto simp: satisfies_def)

lemma satisfies_mono: "satisfies v F \<Longrightarrow> G \<subseteq> F \<Longrightarrow> satisfies v G"
  by (auto simp: satisfies_def)

lemma entails_mono: "entails G c \<Longrightarrow> G \<subseteq> F \<Longrightarrow> entails F c"
  using satisfies_mono by (auto simp: entails_def)

lemma entails_superset: "d \<in> F \<Longrightarrow> set d \<subseteq> set c \<Longrightarrow> entails F c"
  unfolding entails_def satisfies_def holds_def by (meson subsetD)

lemma entails_tautology: "l \<in> set c \<Longrightarrow> Negated l \<in> set c \<Longrightarrow> entails F c"
  unfolding entails_def holds_def using lit_true_Negated by blast

lemma holds_cong: "(\<And>l. l \<in> set c \<Longrightarrow> v (Variable l) = w (Variable l)) \<Longrightarrow> holds v c = holds w c"
  by (auto simp: holds_def lit_true_def)

lemma satisfies_cong:
  assumes "\<And>y. y \<in> formula_variables F \<Longrightarrow> v y = w y"
  shows "satisfies v F = satisfies w F"
proof -
  have "holds v c = holds w c" if "c \<in> F" for c
    using that by (intro holds_cong assms) (auto simp: formula_variables_def)
  then show ?thesis by (simp add: satisfies_def)
qed

text \<open>Resolution.\<close>

lemma holds_resolvent:
  assumes "holds v c" "holds v d"
  shows "holds v (resolvent x c d)"
proof -
  obtain l m where l: "l \<in> set c" "lit_true v l" and m: "m \<in> set d" "lit_true v m"
    using assms by (auto simp: holds_def)
  have "l \<noteq> x \<or> m \<noteq> Negated x" using l(2) m(2) by auto
  then show ?thesis using l m by (auto simp: holds_def resolvent_def)
qed

lemma entails_resolvent: "c \<in> F \<Longrightarrow> d \<in> F \<Longrightarrow> set (resolvent x c d) \<subseteq> set r \<Longrightarrow> entails F r"
  unfolding entails_def satisfies_def using holds_resolvent by (metis holds_def subsetD)

section \<open>Soundness of the steps\<close>

lemma push_sound:
  assumes "x \<in> set c" "\<And>d. d \<in> insert c F \<Longrightarrow> Negated x \<in> set d \<Longrightarrow> entails F (resolvent x c d)" "satisfies v F"
  shows "satisfies (flip (x, c) v) (insert c F)"
proof (cases "holds v c")
  case True
  then show ?thesis using assms(3) by (simp add: flip_def)
next
  case False
  let ?w = "v(Variable x := even x)"
  have w: "lit_true ?w l" if "lit_true v l" "l \<noteq> Negated x" for l
    using that unfolding lit_true_update by (auto simp: Variable_eq_iff)
  have wx: "lit_true ?w x" by (simp add: lit_true_update)
  have "holds ?w d" if d: "d \<in> insert c F" for d
  proof (cases "Negated x \<in> set d")
    case True
    then have "holds v (resolvent x c d)" using assms(2,3) d by (auto simp: entails_def)
    moreover have "\<not> holds v (removeAll x c)" using False by (auto simp: holds_def)
    ultimately obtain l where "l \<in> set d" "l \<noteq> Negated x" "lit_true v l" by (auto simp: holds_def resolvent_def)
    then show ?thesis using w by (auto simp: holds_def)
  next
    case no: False
    show ?thesis
    proof (cases "d = c")
      case True
      then show ?thesis using assms(1) wx by (auto simp: holds_def)
    next
      case False
      then obtain l where "l \<in> set d" "lit_true v l" using assms(3) d by (auto simp: satisfies_def holds_def)
      then show ?thesis using w no by (auto simp: holds_def)
    qed
  qed
  then show ?thesis using False by (auto simp: satisfies_def flip_def)
qed

lemma reduce_step_sound:
  assumes "reduce_step S S'"
  shows "\<exists>Q. snd S' = snd S @ Q \<and> (\<forall>v. satisfies v (fst S') \<longrightarrow> satisfies (recover Q v) (fst S))"
  using assms
proof cases
  case (forget F c P)
  then show ?thesis by (auto simp: entails_def recover_def)
next
  case (push x c F P)
  then show ?thesis using push_sound[OF push(3)] by (auto simp: recover_def)
qed (auto simp: recover_def)

lemma reduce_step_complete:
  assumes "reduce_step S S'" "satisfies v (fst S)"
  shows "\<exists>w. satisfies w (fst S')"
  using assms
proof cases
  case (define_variable x F D P)
  then obtain b where b: "satisfies (v(x := b)) D" using assms(2) by auto
  have "satisfies (v(x := b)) F" using define_variable assms(2) by (subst satisfies_cong[of F _ v]) auto
  then show ?thesis using b define_variable by auto
qed (use assms(2) in \<open>auto simp: entails_def\<close>)

section \<open>Runs\<close>

lemma recover_append: "recover (P @ Q) v = recover P (recover Q v)"
  by (simp add: recover_def)

lemma reduces_refl [simp, intro]: "reduces S S"
  by (simp add: reduces_def)

lemma reduces_trans [trans]: "reduces S T \<Longrightarrow> reduces T U \<Longrightarrow> reduces S U"
  unfolding reduces_def by (rule rtranclp_trans)

lemma reduces_step: "reduce_step S T \<Longrightarrow> reduces S T"
  by (simp add: reduces_def)

theorem reduces_sound:
  assumes "reduces S S'"
  shows "\<exists>Q. snd S' = snd S @ Q \<and> (\<forall>v. satisfies v (fst S') \<longrightarrow> satisfies (recover Q v) (fst S))"
  using assms unfolding reduces_def
proof (induction rule: rtranclp_induct)
  case base
  then show ?case by (auto simp: recover_def)
next
  case (step T U)
  obtain Q where Q: "snd T = snd S @ Q" "\<And>v. satisfies v (fst T) \<Longrightarrow> satisfies (recover Q v) (fst S)" using step.IH by blast
  obtain R where R: "snd U = snd T @ R" "\<And>v. satisfies v (fst U) \<Longrightarrow> satisfies (recover R v) (fst T)"
    using reduce_step_sound[OF step.hyps(2)] by blast
  show ?case using Q R by (intro exI[of _ "Q @ R"]) (simp add: recover_append)
qed

theorem reduces_complete:
  assumes "reduces S S'" "satisfies v (fst S)"
  shows "\<exists>w. satisfies w (fst S')"
  using assms unfolding reduces_def
  by (induction rule: rtranclp_induct) (use reduce_step_complete in blast)+

text \<open>A clause is replaced by a shorter one.\<close>

lemma reduces_strengthen:
  assumes "entails (insert c F) c'" "set c' \<subseteq> set c"
  shows "reduces (insert c F, P) (insert c' F, P)"
proof -
  have "reduce_step (insert c F, P) (insert c' (insert c F), P)" using assms(1) by (rule learn)
  moreover have "reduce_step (insert c (insert c' F), P) (insert c' F, P)"
    using assms(2) by (intro forget entails_superset[of c']) simp_all
  ultimately show ?thesis unfolding reduces_def insert_commute[of c' c]
    by (meson r_into_rtranclp rtranclp.rtrancl_into_rtrancl)
qed

end
