(* ===== verification/SatState.thy ===== *)
theory SatState
  imports SatQueues SatReduce
begin

text \<open>
  The invariant of the presolver between two operations, and its lowest operations: the removal of a clause and
  the addition of one.
\<close>

section \<open>What a state stands for\<close>

definition formula :: "sat_presolver \<Rightarrow> formula" where
  "formula st = {c \<in> set (sp_clauses st). c \<noteq> []}"

definition problem :: "sat_presolver \<Rightarrow> formula \<times> pushed" where
  "problem st = (formula st, postsolver_adds st)"

lemma in_formula: "c \<in> formula st \<longleftrightarrow> c \<noteq> [] \<and> (\<exists>i < length (sp_clauses st). sp_clauses st ! i = c)"
  by (auto simp: formula_def in_set_conv_nth)

lemma formula_cong: "sp_clauses s = sp_clauses t \<Longrightarrow> formula s = formula t"
  by (simp add: formula_def)

section \<open>Counts and signatures\<close>

definition occ_count :: "literal \<Rightarrow> literal list list \<Rightarrow> int" where
  "occ_count e cls = int (length (filter (\<lambda>c. e \<in> set c) cls))"

lemma occ_count_append: "occ_count e (cls @ [c]) = occ_count e cls + of_bool (e \<in> set c)"
  by (simp add: occ_count_def)

lemma occ_count_update:
  "i < length cls \<Longrightarrow> occ_count e (cls[i := c]) = occ_count e cls - of_bool (e \<in> set (cls ! i)) + of_bool (e \<in> set c)"
proof (induction cls arbitrary: i)
  case (Cons d cls)
  then show ?case by (cases i) (auto simp: occ_count_def)
qed simp

lemma occ_count_zero: "occ_count e cls = 0 \<longleftrightarrow> (\<forall>c \<in> set cls. e \<notin> set c)"
  by (auto simp: occ_count_def filter_empty_conv)

lemma occ_count_nonneg [simp]: "0 \<le> occ_count e cls"
  by (simp add: occ_count_def)

lemma bit_signature:
  "bit (SignatureOfClauseVariables c) n \<longleftrightarrow> n < 64 \<and> (\<exists>l \<in> set c. Variable l mod 64 = n)"
proof -
  have "bit (foldl (\<lambda>s l. s OR push_bit (Variable l mod 64) 1) s c) n \<longleftrightarrow> bit s n \<or> n < 64 \<and> (\<exists>l \<in> set c. Variable l mod 64 = n)"
    for s :: "64 word"
  proof (induction c arbitrary: s)
    case (Cons l c)
    have "bit (push_bit (Variable l mod 64) (1 :: 64 word)) n \<longleftrightarrow> n < 64 \<and> Variable l mod 64 = n"
      by (auto simp: bit_exp_iff)
    then show ?case using Cons.IH by (auto simp: bit_or_iff)
  qed simp
  then show ?thesis by (simp add: SignatureOfClauseVariables_def)
qed

lemma signature_zero [simp]: "SignatureOfClauseVariables c = 0 \<longleftrightarrow> c = []"
proof
  assume z: "SignatureOfClauseVariables c = 0"
  show "c = []"
  proof (rule ccontr)
    assume "c \<noteq> []"
    then have "bit (SignatureOfClauseVariables c) (Variable (hd c) mod 64)" by (auto simp: bit_signature intro!: bexI[of _ "hd c"])
    then show False by (simp add: z)
  qed
qed (simp add: SignatureOfClauseVariables_def)

text \<open>The filter by signatures lets a superset pass.\<close>

lemma may_simplify_superset:
  assumes "Variable ` set a \<subseteq> Variable ` set b"
  shows "may_simplify (SignatureOfClauseVariables a) (SignatureOfClauseVariables b)"
proof -
  have "bit (SignatureOfClauseVariables b) n" if bn: "bit (SignatureOfClauseVariables a) n" for n
  proof -
    obtain l where l: "l \<in> set a" "Variable l mod 64 = n" "n < 64" using bn by (auto simp: bit_signature)
    then obtain m where "m \<in> set b" "Variable m = Variable l" using assms by auto
    then show ?thesis using l by (auto simp: bit_signature intro!: bexI[of _ m])
  qed
  then show ?thesis unfolding may_simplify_def by (intro bit_eqI) (auto simp: bit_and_iff bit_not_iff)
qed

section \<open>The invariant\<close>

definition shape :: "sat_presolver \<Rightarrow> bool" where
  "shape st \<longleftrightarrow>
     length (signatures st) = length (sp_clauses st) \<and> length (in_clause_to_process st) = length (sp_clauses st) \<and>
     even (length (literal_to_clause_sizes st)) \<and> length (literal_to_clauses st) = length (literal_to_clause_sizes st) \<and>
     set (clause_to_process st) \<subseteq> {..<length (sp_clauses st)} \<and>
     (\<forall>i < length (sp_clauses st). in_clause_to_process st ! i \<longrightarrow> i \<in> set (clause_to_process st))"

definition clauses_ok :: "sat_presolver \<Rightarrow> bool" where
  "clauses_ok st \<longleftrightarrow>
     (\<forall>i < length (sp_clauses st). good_clause (sp_clauses st ! i) \<and>
        set (sp_clauses st ! i) \<subseteq> {..<length (literal_to_clause_sizes st)} \<and>
        signatures st ! i = SignatureOfClauseVariables (sp_clauses st ! i))"

text \<open>The occurrence list of a literal: without repetition, complete, and deleted clauses apart without excess;
  its size is exact.\<close>

definition lists_ok :: "literal \<Rightarrow> sat_presolver \<Rightarrow> bool" where
  "lists_ok e st \<longleftrightarrow>
     distinct (literal_to_clauses st ! e) \<and> set (literal_to_clauses st ! e) \<subseteq> {..<length (sp_clauses st)} \<and>
     (\<forall>i < length (sp_clauses st). sp_clauses st ! i \<noteq> [] \<longrightarrow> i \<in> set (literal_to_clauses st ! e) \<longleftrightarrow> e \<in> set (sp_clauses st ! i))"

definition sizes_ok :: "literal \<Rightarrow> sat_presolver \<Rightarrow> bool" where
  "sizes_ok e st \<longleftrightarrow> literal_to_clause_sizes st ! e = occ_count e (sp_clauses st)"

definition valid_but_lits :: "literal set \<Rightarrow> sat_presolver \<Rightarrow> bool" where
  "valid_but_lits E st \<longleftrightarrow> shape st \<and> clauses_ok st \<and> var_queue_but {} st \<and> bva_queue_ok st \<and>
     (\<forall>e < length (literal_to_clause_sizes st). e \<notin> E \<longrightarrow> lists_ok e st \<and> sizes_ok e st)"

definition valid :: "sat_presolver \<Rightarrow> bool" where
  "valid st \<longleftrightarrow> valid_but_lits {} st"

lemma valid_but_litsD:
  assumes "valid_but_lits E st"
  shows "shape st" "clauses_ok st" "var_queue_but {} st" "bva_queue_ok st"
    "e < length (literal_to_clause_sizes st) \<Longrightarrow> e \<notin> E \<Longrightarrow> lists_ok e st"
    "e < length (literal_to_clause_sizes st) \<Longrightarrow> e \<notin> E \<Longrightarrow> sizes_ok e st"
  using assms by (auto simp: valid_but_lits_def)

lemma validD:
  assumes "valid st"
  shows "shape st" "clauses_ok st" "var_queue_but {} st" "bva_queue_ok st"
    "e < length (literal_to_clause_sizes st) \<Longrightarrow> lists_ok e st"
    "e < length (literal_to_clause_sizes st) \<Longrightarrow> sizes_ok e st"
  using assms by (auto simp: valid_def valid_but_lits_def)

lemma clauses_okD:
  assumes "clauses_ok st" "i < length (sp_clauses st)"
  shows "good_clause (sp_clauses st ! i)" "l \<in> set (sp_clauses st ! i) \<Longrightarrow> l < length (literal_to_clause_sizes st)"
    "signatures st ! i = SignatureOfClauseVariables (sp_clauses st ! i)"
  using assms by (auto simp: clauses_ok_def)

lemma shapeD:
  assumes "shape st"
  shows "length (signatures st) = length (sp_clauses st)" "length (in_clause_to_process st) = length (sp_clauses st)"
    "length (literal_to_clauses st) = length (literal_to_clause_sizes st)" "length (literal_to_clause_sizes st) = 2 * NumVariables st"
    "i \<in> set (clause_to_process st) \<Longrightarrow> i < length (sp_clauses st)"
    "in_clause_to_process st ! i \<Longrightarrow> i < length (sp_clauses st) \<Longrightarrow> i \<in> set (clause_to_process st)"
  using assms by (auto simp: shape_def NumVariables_def)

lemma Negated_in_range: "shape st \<Longrightarrow> Negated l < length (literal_to_clause_sizes st) \<longleftrightarrow> l < length (literal_to_clause_sizes st)"
  by (simp add: shapeD(4))

lemma Variable_in_range: "shape st \<Longrightarrow> Variable l < NumVariables st \<longleftrightarrow> l < length (literal_to_clause_sizes st)"
  by (simp add: shapeD(4) Variable_less)

lemma lists_okD:
  assumes "lists_ok e st"
  shows "distinct (literal_to_clauses st ! e)" "i \<in> set (literal_to_clauses st ! e) \<Longrightarrow> i < length (sp_clauses st)"
    "i < length (sp_clauses st) \<Longrightarrow> sp_clauses st ! i \<noteq> [] \<Longrightarrow> i \<in> set (literal_to_clauses st ! e) \<longleftrightarrow> e \<in> set (sp_clauses st ! i)"
  using assms by (auto simp: lists_ok_def)

lemma occurs_listed:
  assumes "lists_ok e st" "i < length (sp_clauses st)" "e \<in> set (sp_clauses st ! i)"
  shows "i \<in> set (literal_to_clauses st ! e)"
  using assms by (auto simp: lists_ok_def)

text \<open>Operations that change none of the components of the invariant.\<close>

definition same_core :: "sat_presolver \<Rightarrow> sat_presolver \<Rightarrow> bool" where
  "same_core s t \<longleftrightarrow> sp_clauses s = sp_clauses t \<and> signatures s = signatures t \<and>
     in_clause_to_process s = in_clause_to_process t \<and> clause_to_process s = clause_to_process t \<and>
     literal_to_clauses s = literal_to_clauses t \<and> literal_to_clause_sizes s = literal_to_clause_sizes t \<and>
     var_weights s = var_weights t \<and> var_pq s = var_pq t \<and> bva_weights s = bva_weights t \<and> bva_pq s = bva_pq t"

lemma valid_same_core: "same_core s t \<Longrightarrow> valid_but_lits E s = valid_but_lits E t"
  unfolding same_core_def valid_but_lits_def
  using var_queue_cong[of s t "{}"] bva_queue_cong[of s t]
  by (simp add: shape_def clauses_ok_def lists_ok_def sizes_ok_def)

section \<open>Removal of a clause\<close>

lemma foldl_sel: "(\<And>s e. f (g s e) = f s) \<Longrightarrow> f (foldl g s es) = f s"
  by (induction es arbitrary: s) auto

lemma remove_occurrence_sel [simp]:
  "sp_clauses (remove_occurrence e st) = sp_clauses st"
  "signatures (remove_occurrence e st) = signatures st"
  "in_clause_to_process (remove_occurrence e st) = in_clause_to_process st"
  "clause_to_process (remove_occurrence e st) = clause_to_process st"
  "literal_to_clauses (remove_occurrence e st) = literal_to_clauses st"
  "literal_to_clause_sizes (remove_occurrence e st) = (literal_to_clause_sizes st)[e := literal_to_clause_sizes st ! e - 1]"
  "equiv_mapping (remove_occurrence e st) = equiv_mapping st"
  "num_inspected_signatures (remove_occurrence e st) = num_inspected_signatures st"
  "num_inspected_literals (remove_occurrence e st) = num_inspected_literals st"
  "num_deleted_literals (remove_occurrence e st) = num_deleted_literals st"
  "postsolver_adds (remove_occurrence e st) = postsolver_adds st"
  "parameters (remove_occurrence e st) = parameters st"
  "limit_queries (remove_occurrence e st) = limit_queries st"
  by (simp_all add: remove_occurrence_def)

text \<open>A new count of a literal, and the queues told.\<close>

lemma changed_size_ok:
  assumes "var_queue_but V st" "bva_queue_ok st" "even (length (literal_to_clause_sizes st))" "e < length (literal_to_clause_sizes st)"
    and "literal_to_clause_sizes s = (literal_to_clause_sizes st)[e := n]" "var_weights s = var_weights st" "var_pq s = var_pq st"
    and "bva_weights s = bva_weights st" "bva_pq s = bva_pq st"
  shows "var_queue_but V (UpdatePriorityQueue (Variable e) s)" "bva_queue_ok (UpdatePriorityQueue (Variable e) s)"
proof -
  have n: "NumVariables s = NumVariables st" using assms(5) by (simp add: NumVariables_def)
  have o: "occurrences v s = occurrences v st" if "v \<noteq> Variable e" for v
    using that assms(5) by (auto simp: occurrences_def nth_list_update Variable_def)
  have "var_queue_but (insert (Variable e) V) s" using assms(1,6,7) n o by (auto simp: var_queue_but_def)
  moreover have "Variable e < NumVariables s" using assms(3,4) n by (auto simp: NumVariables_def Variable_def)
  ultimately have "var_queue_but (insert (Variable e) V - {Variable e}) (UpdatePriorityQueue (Variable e) s)"
    by (rule UpdatePriorityQueue_ok(1))
  then show "var_queue_but V (UpdatePriorityQueue (Variable e) s)" unfolding var_queue_but_def by blast
  show "bva_queue_ok (UpdatePriorityQueue (Variable e) s)" using assms(2,5,8,9) by (simp add: bva_queue_ok_def)
qed

lemma remove_occurrence_queues:
  assumes "var_queue_but V st" "bva_queue_ok st" "even (length (literal_to_clause_sizes st))" "e < length (literal_to_clause_sizes st)"
  shows "var_queue_but V (remove_occurrence e st)" "bva_queue_ok (remove_occurrence e st)"
proof -
  let ?s = "st\<lparr> literal_to_clause_sizes := (literal_to_clause_sizes st)[e := literal_to_clause_sizes st ! e - 1] \<rparr>"
  let ?u = "UpdatePriorityQueue (Variable e) ?s"
  note c = changed_size_ok[OF assms, of ?s "literal_to_clause_sizes st ! e - 1"]
  have u: "var_queue_but V ?u" "bva_queue_ok ?u" by (rule c; simp)+
  have "var_queue_but V (remove_occurrence e st) = var_queue_but V ?u"
    by (rule var_queue_cong) (simp_all add: remove_occurrence_def)
  then show "var_queue_but V (remove_occurrence e st)" using u by simp
  show "bva_queue_ok (remove_occurrence e st)" unfolding remove_occurrence_def by (intro UpdateBvaPriorityQueue_ok u)
qed

lemma remove_occurrences:
  assumes "distinct es" "set es \<subseteq> {..<length (literal_to_clause_sizes st)}" "var_queue_but V st" "bva_queue_ok st"
    "even (length (literal_to_clause_sizes st))"
  defines "t \<equiv> foldl (\<lambda>s e. remove_occurrence e s) st es"
  shows "length (literal_to_clause_sizes t) = length (literal_to_clause_sizes st) \<and>
    (\<forall>e. literal_to_clause_sizes t ! e = literal_to_clause_sizes st ! e - of_bool (e \<in> set es)) \<and>
    var_queue_but V t \<and> bva_queue_ok t"
  using assms(1-5) unfolding t_def
proof (induction es arbitrary: st)
  case (Cons a es)
  have a: "a < length (literal_to_clause_sizes st)" using Cons.prems(2) by simp
  note q = remove_occurrence_queues[OF Cons.prems(3,4,5) a]
  show ?case using Cons.IH[of "remove_occurrence a st"] q Cons.prems a by (auto simp: nth_list_update)
qed simp

lemma sp_Remove_sel [simp]:
  "sp_clauses (sp_Remove ci st) = (sp_clauses st)[ci := []]"
  "signatures (sp_Remove ci st) = (signatures st)[ci := 0]"
  "in_clause_to_process (sp_Remove ci st) = in_clause_to_process st"
  "clause_to_process (sp_Remove ci st) = clause_to_process st"
  "literal_to_clauses (sp_Remove ci st) = literal_to_clauses st"
  "equiv_mapping (sp_Remove ci st) = equiv_mapping st"
  "num_inspected_signatures (sp_Remove ci st) = num_inspected_signatures st"
  "num_inspected_literals (sp_Remove ci st) = num_inspected_literals st"
  "postsolver_adds (sp_Remove ci st) = postsolver_adds st"
  "parameters (sp_Remove ci st) = parameters st"
  "limit_queries (sp_Remove ci st) = limit_queries st"
  "length (literal_to_clause_sizes (sp_Remove ci st)) = length (literal_to_clause_sizes st)"
  by (simp_all add: sp_Remove_def Let_def foldl_sel foldl_sel[where f = "\<lambda>s. length (literal_to_clause_sizes s)"])

lemma valid_sp_Remove:
  assumes "valid_but_lits E st" "ci < length (sp_clauses st)"
  shows "valid_but_lits E (sp_Remove ci st)"
    "literal_to_clause_sizes (sp_Remove ci st) ! e = literal_to_clause_sizes st ! e - of_bool (e \<in> set (sp_clauses st ! ci))"
proof -
  note v = valid_but_litsD[OF assms(1)]
  let ?c = "sp_clauses st ! ci"
  let ?s = "st\<lparr> num_deleted_literals := num_deleted_literals st + int (length ?c), signatures := (signatures st)[ci := 0] \<rparr>"
  let ?t = "foldl (\<lambda>s e. remove_occurrence e s) ?s ?c"
  have qs: "var_queue_but {} ?s" "bva_queue_ok ?s" using v(3,4) var_queue_cong[of ?s st] bva_queue_cong[of ?s st] by simp_all
  have sub: "set ?c \<subseteq> {..<length (literal_to_clause_sizes st)}" using clauses_okD(2)[OF v(2) assms(2)] by blast
  have r: "length (literal_to_clause_sizes ?t) = length (literal_to_clause_sizes st) \<and>
    (\<forall>e. literal_to_clause_sizes ?t ! e = literal_to_clause_sizes st ! e - of_bool (e \<in> set ?c)) \<and>
    var_queue_but {} ?t \<and> bva_queue_ok ?t"
    using remove_occurrences[of ?c ?s "{}"] qs good_distinct[OF clauses_okD(1)[OF v(2) assms(2)]] sub v(1) by (simp add: shape_def)
  have sz: "literal_to_clause_sizes (sp_Remove ci st) = literal_to_clause_sizes ?t" by (simp add: sp_Remove_def Let_def)
  show size_at: "literal_to_clause_sizes (sp_Remove ci st) ! e = literal_to_clause_sizes st ! e - of_bool (e \<in> set ?c)" for e
    using r sz by simp
  have q: "var_queue_but {} (sp_Remove ci st)" "bva_queue_ok (sp_Remove ci st)"
    using r var_queue_cong[of "sp_Remove ci st" ?t] bva_queue_cong[of "sp_Remove ci st" ?t] by (simp_all add: sp_Remove_def Let_def)
  have sh: "shape (sp_Remove ci st)" using v(1) by (simp add: shape_def)
  have "lists_ok e (sp_Remove ci st) \<and> sizes_ok e (sp_Remove ci st)" if e: "e < length (literal_to_clause_sizes st)" "e \<notin> E" for e
  proof
    show "lists_ok e (sp_Remove ci st)" using v(5)[OF e] assms(2) by (auto simp: lists_ok_def nth_list_update)
    show "sizes_ok e (sp_Remove ci st)" using v(6)[OF e] assms(2) size_at by (simp add: sizes_ok_def occ_count_update)
  qed
  moreover have "clauses_ok (sp_Remove ci st)" using v(1,2) assms(2) by (auto simp: clauses_ok_def nth_list_update shape_def)
  ultimately show "valid_but_lits E (sp_Remove ci st)" using q sh by (simp add: valid_but_lits_def)
qed

section \<open>Addition of a clause\<close>

text \<open>The components of a state to which a clause has been added.\<close>

definition clause_added :: "literal list \<Rightarrow> sat_presolver \<Rightarrow> sat_presolver \<Rightarrow> bool" where
  "clause_added c st t \<longleftrightarrow>
     sp_clauses t = sp_clauses st @ [c] \<and> signatures t = signatures st @ [SignatureOfClauseVariables c] \<and>
     in_clause_to_process t = in_clause_to_process st @ [True] \<and>
     clause_to_process t = clause_to_process st @ [length (sp_clauses st)] \<and>
     length (literal_to_clause_sizes t) = length (literal_to_clause_sizes st) \<and>
     length (literal_to_clauses t) = length (literal_to_clauses st) \<and>
     (\<forall>e. literal_to_clause_sizes t ! e = literal_to_clause_sizes st ! e + of_bool (e \<in> set c)) \<and>
     (\<forall>e. literal_to_clauses t ! e = literal_to_clauses st ! e @ (if e \<in> set c then [length (sp_clauses st)] else []))"

lemma valid_clause_added:
  assumes "valid st" "clause_added c st t" "good_clause c" "c \<noteq> []" "set c \<subseteq> {..<length (literal_to_clause_sizes st)}"
    and "var_queue_but {} t" "bva_queue_ok t"
  shows "valid t"
proof -
  note v = validD[OF assms(1)]
  note a = assms(2)[unfolded clause_added_def]
  have "shape t" using v(1) a by (auto simp: shape_def nth_append less_Suc_eq)
  moreover have "clauses_ok t" using v(1,2) a assms(3,5) by (auto simp: clauses_ok_def shape_def nth_append less_Suc_eq)
  moreover have "lists_ok e t \<and> sizes_ok e t" if e: "e < length (literal_to_clause_sizes st)" for e
  proof
    show "lists_ok e t" using v(5)[OF e] a unfolding lists_ok_def by (auto simp: nth_append less_Suc_eq)
    show "sizes_ok e t" using v(6)[OF e] a by (simp add: sizes_ok_def occ_count_append)
  qed
  ultimately show ?thesis using assms(6,7) a by (simp add: valid_def valid_but_lits_def)
qed

lemma add_occurrence_sel [simp]:
  "sp_clauses (add_occurrence ci e st) = sp_clauses st"
  "signatures (add_occurrence ci e st) = signatures st"
  "in_clause_to_process (add_occurrence ci e st) = in_clause_to_process st"
  "clause_to_process (add_occurrence ci e st) = clause_to_process st"
  "literal_to_clauses (add_occurrence ci e st) = (literal_to_clauses st)[e := literal_to_clauses st ! e @ [ci]]"
  "literal_to_clause_sizes (add_occurrence ci e st) = (literal_to_clause_sizes st)[e := literal_to_clause_sizes st ! e + 1]"
  "var_weights (add_occurrence ci e st) = var_weights st" "var_pq (add_occurrence ci e st) = var_pq st"
  "bva_weights (add_occurrence ci e st) = bva_weights st" "bva_pq (add_occurrence ci e st) = bva_pq st"
  "equiv_mapping (add_occurrence ci e st) = equiv_mapping st"
  "num_inspected_signatures (add_occurrence ci e st) = num_inspected_signatures st"
  "num_inspected_literals (add_occurrence ci e st) = num_inspected_literals st"
  "postsolver_adds (add_occurrence ci e st) = postsolver_adds st"
  "parameters (add_occurrence ci e st) = parameters st"
  "limit_queries (add_occurrence ci e st) = limit_queries st"
  by (simp_all add: add_occurrence_def)

lemma push_clause_sel [simp]:
  "sp_clauses (push_clause c st) = sp_clauses st @ [c]"
  "signatures (push_clause c st) = signatures st @ [SignatureOfClauseVariables c]"
  "in_clause_to_process (push_clause c st) = in_clause_to_process st @ [True]"
  "clause_to_process (push_clause c st) = clause_to_process st @ [length (sp_clauses st)]"
  "literal_to_clauses (push_clause c st) = literal_to_clauses st"
  "literal_to_clause_sizes (push_clause c st) = literal_to_clause_sizes st"
  "var_weights (push_clause c st) = var_weights st" "var_pq (push_clause c st) = var_pq st"
  "bva_weights (push_clause c st) = bva_weights st" "bva_pq (push_clause c st) = bva_pq st"
  "equiv_mapping (push_clause c st) = equiv_mapping st"
  "num_inspected_signatures (push_clause c st) = num_inspected_signatures st"
  "num_inspected_literals (push_clause c st) = num_inspected_literals st"
  "postsolver_adds (push_clause c st) = postsolver_adds st"
  "parameters (push_clause c st) = parameters st"
  "limit_queries (push_clause c st) = limit_queries st"
  by (simp_all add: push_clause_def)

text \<open>The loop over the literals of the new clause, with or without the updates of the queues.\<close>

definition occurrences_added :: "nat \<Rightarrow> literal list \<Rightarrow> sat_presolver \<Rightarrow> sat_presolver \<Rightarrow> bool" where
  "occurrences_added ci es st t \<longleftrightarrow>
     length (literal_to_clause_sizes t) = length (literal_to_clause_sizes st) \<and>
     length (literal_to_clauses t) = length (literal_to_clauses st) \<and>
     (\<forall>e. literal_to_clause_sizes t ! e = literal_to_clause_sizes st ! e + of_bool (e \<in> set es)) \<and>
     (\<forall>e. literal_to_clauses t ! e = literal_to_clauses st ! e @ (if e \<in> set es then [ci] else []))"

definition add_and_update :: "nat \<Rightarrow> literal \<Rightarrow> sat_presolver \<Rightarrow> sat_presolver" where
  "add_and_update ci e s = UpdateBvaPriorityQueue e (UpdatePriorityQueue (Variable e) (add_occurrence ci e s))"

lemma add_and_update_sel [simp]:
  "sp_clauses (add_and_update ci e st) = sp_clauses st"
  "signatures (add_and_update ci e st) = signatures st"
  "in_clause_to_process (add_and_update ci e st) = in_clause_to_process st"
  "clause_to_process (add_and_update ci e st) = clause_to_process st"
  "literal_to_clauses (add_and_update ci e st) = (literal_to_clauses st)[e := literal_to_clauses st ! e @ [ci]]"
  "literal_to_clause_sizes (add_and_update ci e st) = (literal_to_clause_sizes st)[e := literal_to_clause_sizes st ! e + 1]"
  "equiv_mapping (add_and_update ci e st) = equiv_mapping st"
  "num_inspected_signatures (add_and_update ci e st) = num_inspected_signatures st"
  "num_inspected_literals (add_and_update ci e st) = num_inspected_literals st"
  "postsolver_adds (add_and_update ci e st) = postsolver_adds st"
  "parameters (add_and_update ci e st) = parameters st"
  "limit_queries (add_and_update ci e st) = limit_queries st"
  by (simp_all add: add_and_update_def)

lemma occurrences_added_fold:
  assumes "\<And>e s. literal_to_clauses (g e s) = (literal_to_clauses s)[e := literal_to_clauses s ! e @ [ci]]"
    "\<And>e s. literal_to_clause_sizes (g e s) = (literal_to_clause_sizes s)[e := literal_to_clause_sizes s ! e + 1]"
    and "distinct es" "set es \<subseteq> {..<length (literal_to_clause_sizes st)}" "length (literal_to_clauses st) = length (literal_to_clause_sizes st)"
  shows "occurrences_added ci es st (foldl (\<lambda>s e. g e s) st es)"
  using assms(3-5)
proof (induction es arbitrary: st)
  case (Cons a es)
  have "occurrences_added ci es (g a st) (foldl (\<lambda>s e. g e s) (g a st) es)"
    using Cons.prems by (intro Cons.IH) (simp_all add: assms(1,2))
  then show ?case using Cons.prems by (auto simp: occurrences_added_def assms(1,2) nth_list_update)
qed (simp add: occurrences_added_def)

lemma add_and_update_queues:
  assumes "var_queue_but V st" "bva_queue_ok st" "even (length (literal_to_clause_sizes st))" "set es \<subseteq> {..<length (literal_to_clause_sizes st)}"
  shows "var_queue_but V (foldl (\<lambda>s e. add_and_update ci e s) st es)" "bva_queue_ok (foldl (\<lambda>s e. add_and_update ci e s) st es)"
proof -
  have "var_queue_but V (foldl (\<lambda>s e. add_and_update ci e s) st es) \<and> bva_queue_ok (foldl (\<lambda>s e. add_and_update ci e s) st es)"
    using assms
  proof (induction es arbitrary: st)
    case (Cons a es)
    let ?u = "UpdatePriorityQueue (Variable a) (add_occurrence ci a st)"
    have a: "a < length (literal_to_clause_sizes st)" using Cons.prems(4) by simp
    have u: "var_queue_but V ?u" "bva_queue_ok ?u"
      by (rule changed_size_ok[OF Cons.prems(1,2,3) a, of "add_occurrence ci a st" "literal_to_clause_sizes st ! a + 1"]; simp)+
    have "var_queue_but V (add_and_update ci a st) = var_queue_but V ?u"
      by (rule var_queue_cong) (simp_all add: add_and_update_def)
    then show ?case using Cons.IH[of "add_and_update ci a st"] u(1) UpdateBvaPriorityQueue_ok[OF u(2), of a] Cons.prems
      by (simp add: add_and_update_def[symmetric])
  qed simp
  then show "var_queue_but V (foldl (\<lambda>s e. add_and_update ci e s) st es)"
    "bva_queue_ok (foldl (\<lambda>s e. add_and_update ci e s) st es)" by blast+
qed

lemma AddClauseInternal_alt:
  "AddClauseInternal c st = foldl (\<lambda>s e. add_and_update (length (sp_clauses st)) e s) (push_clause c st) c"
  by (simp add: AddClauseInternal_def add_and_update_def Let_def)

lemma AddClauseInternal_sel [simp]:
  "sp_clauses (AddClauseInternal c st) = sp_clauses st @ [c]"
  "equiv_mapping (AddClauseInternal c st) = equiv_mapping st"
  "num_inspected_signatures (AddClauseInternal c st) = num_inspected_signatures st"
  "num_inspected_literals (AddClauseInternal c st) = num_inspected_literals st"
  "postsolver_adds (AddClauseInternal c st) = postsolver_adds st"
  "parameters (AddClauseInternal c st) = parameters st"
  "limit_queries (AddClauseInternal c st) = limit_queries st"
  "in_clause_to_process (AddClauseInternal c st) = in_clause_to_process st @ [True]"
  "clause_to_process (AddClauseInternal c st) = clause_to_process st @ [length (sp_clauses st)]"
  by (simp_all add: AddClauseInternal_alt foldl_sel)

lemma valid_AddClauseInternal:
  assumes "valid st" "good_clause c" "c \<noteq> []" "set c \<subseteq> {..<length (literal_to_clause_sizes st)}"
  shows "valid (AddClauseInternal c st)" "clause_added c st (AddClauseInternal c st)"
proof -
  note v = validD[OF assms(1)]
  let ?p = "push_clause c st" and ?ci = "length (sp_clauses st)"
  have "occurrences_added ?ci c ?p (foldl (\<lambda>s e. add_and_update ?ci e s) ?p c)"
    using good_distinct[OF assms(2)] assms(4) shapeD(3)[OF v(1)] by (intro occurrences_added_fold) simp_all
  then show a: "clause_added c st (AddClauseInternal c st)"
    by (simp add: occurrences_added_def clause_added_def AddClauseInternal_alt foldl_sel)
  have q: "var_queue_but {} ?p" "bva_queue_ok ?p"
    using v(3,4) var_queue_cong[of ?p st] bva_queue_cong[of ?p st] by simp_all
  have "var_queue_but {} (AddClauseInternal c st)" "bva_queue_ok (AddClauseInternal c st)"
    unfolding AddClauseInternal_alt using add_and_update_queues[OF q, of c ?ci] v(1) assms(4) by (simp_all add: shape_def)
  then show "valid (AddClauseInternal c st)" by (rule valid_clause_added[OF assms(1) a assms(2,3,4)])
qed

end
