(* ===== verification/SatSubsume.thy ===== *)
theory SatSubsume
  imports SatState
begin

text \<open>
  Subsumption and self-subsuming resolution: every operation keeps the invariant and reduces the problem, no unit
  clause that was processed has its negation in a clause, and the loop over the clauses to process ends.
\<close>

section \<open>What the operations keep\<close>

definition inspected :: "sat_presolver \<Rightarrow> int" where
  "inspected st = num_inspected_signatures st + num_inspected_literals st"

definition keeps_queues :: "sat_presolver \<Rightarrow> sat_presolver \<Rightarrow> bool" where
  "keeps_queues st t \<longleftrightarrow>
     (if var_weights st = [] then var_weights t = [] \<and> var_pq t = var_pq st else var_weights t \<noteq> []) \<and>
     (if bva_weights st = [] then bva_weights t = [] \<and> bva_pq t = bva_pq st else bva_weights t \<noteq> [])"

definition keeps :: "sat_presolver \<Rightarrow> sat_presolver \<Rightarrow> bool" where
  "keeps st t \<longleftrightarrow>
     length (sp_clauses t) = length (sp_clauses st) \<and>
     (\<forall>i < length (sp_clauses st). set (sp_clauses t ! i) \<subseteq> set (sp_clauses st ! i)) \<and>
     length (literal_to_clause_sizes t) = length (literal_to_clause_sizes st) \<and>
     parameters t = parameters st \<and> postsolver_adds t = postsolver_adds st \<and>
     inspected st \<le> inspected t \<and> limit_queries st \<le> limit_queries t \<and> keeps_queues st t"

text \<open>A clause that changed is deleted or is to be processed.\<close>

definition requeues :: "sat_presolver \<Rightarrow> sat_presolver \<Rightarrow> bool" where
  "requeues st t \<longleftrightarrow> set (clause_to_process st) \<subseteq> set (clause_to_process t) \<and>
     (\<forall>i < length (sp_clauses st). sp_clauses t ! i \<noteq> sp_clauses st ! i \<longrightarrow>
        sp_clauses t ! i = [] \<or> i \<in> set (clause_to_process t))"

definition total_literals :: "sat_presolver \<Rightarrow> nat" where
  "total_literals st = sum_list (map length (sp_clauses st))"

definition weight :: "sat_presolver \<Rightarrow> nat" where
  "weight st = 2 * total_literals st + length (clause_to_process st)"

definition progress :: "sat_presolver \<Rightarrow> sat_presolver \<Rightarrow> bool" where
  "progress st t \<longleftrightarrow> keeps st t \<and> requeues st t \<and> weight t \<le> weight st \<and> reduces (problem st) (problem t)"

lemma keeps_queues_trans: "keeps_queues s t \<Longrightarrow> keeps_queues t u \<Longrightarrow> keeps_queues s u"
  by (auto simp: keeps_queues_def split: if_splits)

lemma keeps_queues_refl [simp]: "keeps_queues s s"
  by (simp add: keeps_queues_def)

lemma keeps_refl [simp]: "keeps s s"
  by (simp add: keeps_def)

lemma keeps_trans: "keeps s t \<Longrightarrow> keeps t u \<Longrightarrow> keeps s u"
  unfolding keeps_def using keeps_queues_trans[of s t u] by auto

lemma requeues_trans:
  assumes "requeues s t" "requeues t u" "length (sp_clauses t) = length (sp_clauses s)"
    "\<forall>i < length (sp_clauses t). set (sp_clauses u ! i) \<subseteq> set (sp_clauses t ! i)"
  shows "requeues s u"
  unfolding requeues_def
proof (intro conjI allI impI)
  show "set (clause_to_process s) \<subseteq> set (clause_to_process u)" using assms(1,2) by (auto simp: requeues_def)
  fix i assume i: "i < length (sp_clauses s)" "sp_clauses u ! i \<noteq> sp_clauses s ! i"
  show "sp_clauses u ! i = [] \<or> i \<in> set (clause_to_process u)"
  proof (cases "sp_clauses u ! i = sp_clauses t ! i")
    case True
    then show ?thesis using assms(1,2) i by (auto simp: requeues_def)
  next
    case False
    then show ?thesis using assms(2,3) i(1) by (auto simp: requeues_def)
  qed
qed

lemma progress_refl [simp]: "progress s s"
  by (simp add: progress_def requeues_def)

lemma progress_trans: "progress s t \<Longrightarrow> progress t u \<Longrightarrow> progress s u"
  unfolding progress_def using keeps_trans[of s t u] requeues_trans[of s t u] reduces_trans[of "problem s" "problem t" "problem u"]
  by (auto simp: keeps_def)

lemma problem_cong: "sp_clauses s = sp_clauses t \<Longrightarrow> postsolver_adds s = postsolver_adds t \<Longrightarrow> problem s = problem t"
  by (simp add: problem_def formula_def)

text \<open>A unit clause that is neither to be processed nor exempted meets no negation.\<close>

definition units_done :: "nat set \<Rightarrow> sat_presolver \<Rightarrow> bool" where
  "units_done Q st \<longleftrightarrow>
     (\<forall>i < length (sp_clauses st). i \<notin> set (clause_to_process st) \<and> i \<notin> Q \<longrightarrow>
        (\<forall>l. sp_clauses st ! i = [l] \<longrightarrow> (\<forall>j < length (sp_clauses st). Negated l \<notin> set (sp_clauses st ! j))))"

lemma units_done_progress:
  assumes "units_done Q st" "progress st t"
  shows "units_done Q t"
  unfolding units_done_def
proof (intro allI impI)
  fix i l j assume i: "i < length (sp_clauses t)" "i \<notin> set (clause_to_process t) \<and> i \<notin> Q" "sp_clauses t ! i = [l]"
    and j: "j < length (sp_clauses t)"
  have k: "length (sp_clauses t) = length (sp_clauses st)" "set (sp_clauses t ! j) \<subseteq> set (sp_clauses st ! j)"
    "set (clause_to_process st) \<subseteq> set (clause_to_process t)" "sp_clauses t ! i = sp_clauses st ! i"
    using assms(2) i j unfolding progress_def keeps_def requeues_def by auto
  then show "Negated l \<notin> set (sp_clauses t ! j)" using assms(1) i j unfolding units_done_def by fastforce
qed

text \<open>Two clauses are not the same, or one of them is to be processed; clauses that were processed have no copy.\<close>

definition apart :: "nat \<Rightarrow> nat \<Rightarrow> sat_presolver \<Rightarrow> bool" where
  "apart i j st \<longleftrightarrow> i \<in> set (clause_to_process st) \<or> j \<in> set (clause_to_process st) \<or>
     sp_clauses st ! i = [] \<or> sp_clauses st ! i \<noteq> sp_clauses st ! j"

lemma apart_sym: "apart i j st = apart j i st"
  by (auto simp: apart_def)

lemma apart_progress:
  assumes "apart i j s" "progress s t" "i < length (sp_clauses s)" "j < length (sp_clauses s)"
  shows "apart i j t"
proof (cases "sp_clauses t ! i = sp_clauses s ! i \<and> sp_clauses t ! j = sp_clauses s ! j")
  case True
  then show ?thesis using assms(1,2) by (auto simp: apart_def progress_def requeues_def)
next
  case False
  then show ?thesis using assms(2-4) unfolding apart_def progress_def requeues_def by metis
qed

definition copies_done :: "nat set \<Rightarrow> sat_presolver \<Rightarrow> bool" where
  "copies_done Q st \<longleftrightarrow>
     (\<forall>i < length (sp_clauses st). \<forall>j < length (sp_clauses st). i \<noteq> j \<and> i \<notin> Q \<and> j \<notin> Q \<longrightarrow> apart i j st)"

lemma copies_done_progress: "copies_done Q s \<Longrightarrow> progress s t \<Longrightarrow> copies_done Q t"
  using apart_progress[of _ _ s t] by (simp add: copies_done_def progress_def keeps_def)

lemma copies_done_insert:
  assumes "copies_done (insert k Q) st" "\<And>j. j < length (sp_clauses st) \<Longrightarrow> j \<noteq> k \<Longrightarrow> apart k j st"
  shows "copies_done Q st"
  using assms unfolding copies_done_def by (metis apart_sym insertE)

definition settled :: "nat set \<Rightarrow> sat_presolver \<Rightarrow> bool" where
  "settled Q st \<longleftrightarrow> units_done Q st \<and> copies_done Q st"

lemmas settled_defs = settled_def units_done_def copies_done_def apart_def

lemma settled_progress: "settled Q s \<Longrightarrow> progress s t \<Longrightarrow> settled Q t"
  using units_done_progress[of Q s t] copies_done_progress[of Q s t] by (simp add: settled_def)

lemma settled_cong:
  "sp_clauses s = sp_clauses t \<Longrightarrow> set (clause_to_process s) = set (clause_to_process t) \<Longrightarrow> settled Q s = settled Q t"
  by (simp add: settled_def units_done_def copies_done_def apart_def)

lemma sum_list_length_update:
  "i < length cls \<Longrightarrow> sum_list (map length (cls[i := c])) + length (cls ! i) = sum_list (map length cls) + length c"
  by (induction cls arbitrary: i) (auto split: nat.splits)

section \<open>A clause is subsumed\<close>

lemma formula_update:
  assumes "i < length (sp_clauses st)" "sp_clauses t = (sp_clauses st)[i := c]" "sp_clauses st ! i \<noteq> []"
  shows "formula st = insert (sp_clauses st ! i) {d. d \<noteq> [] \<and> (\<exists>j < length (sp_clauses st). j \<noteq> i \<and> sp_clauses st ! j = d)}"
    "formula t = (if c = [] then {} else {c}) \<union> {d. d \<noteq> [] \<and> (\<exists>j < length (sp_clauses st). j \<noteq> i \<and> sp_clauses st ! j = d)}"
proof -
  show "formula st = insert (sp_clauses st ! i) {d. d \<noteq> [] \<and> (\<exists>j < length (sp_clauses st). j \<noteq> i \<and> sp_clauses st ! j = d)}"
    using assms(1,3) unfolding in_formula set_eq_iff by auto
  show "formula t = (if c = [] then {} else {c}) \<union> {d. d \<noteq> [] \<and> (\<exists>j < length (sp_clauses st). j \<noteq> i \<and> sp_clauses st ! j = d)}"
    using assms(1,2) unfolding in_formula set_eq_iff by (auto simp: nth_list_update)
qed

abbreviation others :: "nat \<Rightarrow> sat_presolver \<Rightarrow> formula" where
  "others i st \<equiv> {d. d \<noteq> [] \<and> (\<exists>j < length (sp_clauses st). j \<noteq> i \<and> sp_clauses st ! j = d)}"

lemma in_others: "k < length (sp_clauses st) \<Longrightarrow> k \<noteq> i \<Longrightarrow> sp_clauses st ! k \<noteq> [] \<Longrightarrow> sp_clauses st ! k \<in> others i st"
  by auto

lemma UpdatePriorityQueue_keeps_queues:
  "keeps_queues st (UpdatePriorityQueue v st)"
  by (simp add: keeps_queues_def UpdatePriorityQueue_def Let_def)

lemma UpdateBvaPriorityQueue_keeps_queues:
  "keeps_queues st (UpdateBvaPriorityQueue v st)"
  by (simp add: keeps_queues_def UpdateBvaPriorityQueue_def Let_def)

lemma keeps_queues_same:
  "var_weights t = var_weights s \<Longrightarrow> var_pq t = var_pq s \<Longrightarrow> bva_weights t = bva_weights s \<Longrightarrow> bva_pq t = bva_pq s \<Longrightarrow> keeps_queues s t"
  by (simp add: keeps_queues_def)

lemma remove_occurrence_keeps_queues: "keeps_queues st (remove_occurrence e st)"
proof -
  let ?s = "st\<lparr> literal_to_clause_sizes := (literal_to_clause_sizes st)[e := literal_to_clause_sizes st ! e - 1] \<rparr>"
  have "keeps_queues st ?s" by (intro keeps_queues_same) simp_all
  then show ?thesis unfolding remove_occurrence_def
    by (intro keeps_queues_trans[OF keeps_queues_trans[OF keeps_queues_trans[OF _ UpdatePriorityQueue_keeps_queues]
          UpdateBvaPriorityQueue_keeps_queues] UpdateBvaPriorityQueue_keeps_queues])
qed

lemma foldl_keeps_queues: "(\<And>e s. keeps_queues s (g s e)) \<Longrightarrow> keeps_queues st (foldl g st es)"
proof (induction es arbitrary: st)
  case (Cons a es)
  then show ?case using keeps_queues_trans[of st "g st a"] by simp
qed simp

lemma sp_Remove_keeps_queues: "keeps_queues st (sp_Remove ci st)"
proof -
  let ?s = "st\<lparr> num_deleted_literals := num_deleted_literals st + int (length (sp_clauses st ! ci)), signatures := (signatures st)[ci := 0] \<rparr>"
  let ?t = "foldl (\<lambda>s e. remove_occurrence e s) ?s (sp_clauses st ! ci)"
  have "keeps_queues ?s ?t" by (rule foldl_keeps_queues) (rule remove_occurrence_keeps_queues)
  then show ?thesis by (simp add: keeps_queues_def sp_Remove_def Let_def)
qed

lemma keeps_sp_Remove: "keeps st (sp_Remove ci st)"
  by (auto simp: keeps_def inspected_def sp_Remove_keeps_queues nth_list_update)
    (metis empty_iff list.set(1) list_update_beyond nth_list_update not_le)

lemma requeues_sp_Remove: "requeues st (sp_Remove ci st)"
  by (auto simp: requeues_def) (metis nth_list_update nth_list_update_neq)

lemma weight_sp_Remove: "ci < length (sp_clauses st) \<Longrightarrow> weight (sp_Remove ci st) + 2 * length (sp_clauses st ! ci) = weight st"
  using sum_list_length_update[of ci "sp_clauses st" "[]"] by (simp add: weight_def total_literals_def)

lemma reduces_forget:
  assumes "ci < length (sp_clauses st)" "sp_clauses st ! ci \<noteq> []" "entails (others ci st) (sp_clauses st ! ci)"
  shows "reduces (problem st) (problem (sp_Remove ci st))"
proof -
  note f = formula_update[OF assms(1) sp_Remove_sel(1)[of ci st] assms(2)]
  show ?thesis unfolding problem_def f sp_Remove_sel using reduce_step.forget[OF assms(3)] by (intro reduces_step) simp
qed

lemma progress_subsumed:
  assumes "ci < length (sp_clauses st)" "sp_clauses st ! ci \<noteq> []" "k < length (sp_clauses st)" "k \<noteq> ci"
    "sp_clauses st ! k \<noteq> []" "set (sp_clauses st ! k) \<subseteq> set (sp_clauses st ! ci)"
  shows "progress st (sp_Remove ci st)"
proof -
  have "entails (others ci st) (sp_clauses st ! ci)"
    using in_others[OF assms(3,4,5)] assms(6) by (rule entails_superset)
  then show ?thesis using keeps_sp_Remove requeues_sp_Remove weight_sp_Remove[OF assms(1)] reduces_forget[OF assms(1,2)]
    by (simp add: progress_def)
qed

section \<open>A clause is strengthened\<close>

definition clause_shortened :: "nat \<Rightarrow> literal \<Rightarrow> sat_presolver \<Rightarrow> sat_presolver \<Rightarrow> bool" where
  "clause_shortened ci y st t \<longleftrightarrow>
     sp_clauses t = (sp_clauses st)[ci := remove1 y (sp_clauses st ! ci)] \<and>
     signatures t = (signatures st)[ci := SignatureOfClauseVariables (remove1 y (sp_clauses st ! ci))] \<and>
     in_clause_to_process t = (in_clause_to_process st)[ci := True] \<and>
     clause_to_process t = (if in_clause_to_process st ! ci then clause_to_process st else clause_to_process st @ [ci]) \<and>
     length (literal_to_clause_sizes t) = length (literal_to_clause_sizes st) \<and>
     length (literal_to_clauses t) = length (literal_to_clauses st) \<and>
     (\<forall>e. e \<noteq> y \<longrightarrow> literal_to_clause_sizes t ! e = literal_to_clause_sizes st ! e) \<and>
     (\<forall>e. e \<noteq> y \<longrightarrow> literal_to_clauses t ! e = literal_to_clauses st ! e)"

lemma valid_clause_shortened:
  assumes "valid_but_lits E st" "clause_shortened ci y st t" "ci < length (sp_clauses st)" "y \<in> set (sp_clauses st ! ci)"
    "var_queue_but {} t" "bva_queue_ok t" "remove1 y (sp_clauses st ! ci) \<noteq> []"
  shows "valid_but_lits (insert y E) t"
proof -
  note v = valid_but_litsD[OF assms(1)]
  note a = assms(2)[unfolded clause_shortened_def]
  note g = clauses_okD[OF v(2) assms(3)]
  have l: "length (signatures st) = length (sp_clauses st)" "length (in_clause_to_process st) = length (sp_clauses st)"
    using shapeD[OF v(1)] by simp_all
  have "shape t" using v(1) a assms(3) by (auto simp: shape_def nth_list_update)
  moreover have "clauses_ok t"
    using v(2) a l assms(3) good_remove1[OF g(1), of y] by (auto simp: clauses_ok_def nth_list_update dest: in_set_remove1 notin_set_remove1)
  moreover have "lists_ok e t \<and> sizes_ok e t" if e: "e < length (literal_to_clause_sizes st)" "e \<notin> E" "e \<noteq> y" for e
  proof
    have ne: "sp_clauses st ! ci \<noteq> []" using assms(4) by auto
    show "lists_ok e t" using v(5)[OF e(1,2)] a e(3) assms(3,7) ne unfolding lists_ok_def by (auto simp: nth_list_update)
    show "sizes_ok e t" using v(6)[OF e(1,2)] a e(3) assms(3) by (simp add: sizes_ok_def occ_count_update)
  qed
  ultimately show ?thesis using assms(5,6) a by (simp add: valid_but_lits_def)
qed

lemma progress_shortened:
  assumes "clause_shortened ci y st t" "shape st" "good_clause (sp_clauses st ! ci)" "ci < length (sp_clauses st)"
    "k < length (sp_clauses st)" "k \<noteq> ci"
    "strengthens (sp_clauses st ! k) y (sp_clauses st ! ci)" "remove1 y (sp_clauses st ! ci) \<noteq> []"
    "parameters t = parameters st" "postsolver_adds t = postsolver_adds st" "inspected st \<le> inspected t"
    "limit_queries st \<le> limit_queries t" "keeps_queues st t"
  shows "progress st t" "weight t < weight st"
proof -
  note a = assms(1)[unfolded clause_shortened_def]
  let ?c = "sp_clauses st ! ci" and ?b = "remove1 y (sp_clauses st ! ci)" and ?k = "sp_clauses st ! k"
  have s: "y \<in> set ?c" "Negated y \<in> set ?k" "set ?k - {Negated y} \<subseteq> set ?c - {y}" using assms(7) by (auto simp: strengthens_def)
  have b: "set ?b = set ?c - {y}" using good_distinct[OF assms(3)] by simp
  have keeps: "keeps st t" using a assms(4,9-13) b by (auto simp: keeps_def nth_list_update)
  have req: "requeues st t" using a assms(4) shapeD(6)[OF assms(2) _ assms(4)] by (auto simp: requeues_def nth_list_update)
  have "length ?b + 1 = length ?c" using s(1) by (simp add: length_remove1) (metis Suc_pred length_pos_if_in_set)
  then show w: "weight t < weight st"
    using sum_list_length_update[OF assms(4), of ?b] a by (simp add: weight_def total_literals_def split: if_splits)
  have ne: "?c \<noteq> []" using s(1) by auto
  have cl: "sp_clauses t = (sp_clauses st)[ci := ?b]" using a by simp
  note f = formula_update[OF assms(4) cl ne]
  have "set (resolvent y ?c ?k) \<subseteq> set ?b" using s(3) b by (auto simp: resolvent_def)
  moreover have "?k \<in> others ci st" using s(2) assms(5,6) by auto
  ultimately have "entails (insert ?c (others ci st)) ?b" by (intro entails_resolvent[of ?c _ ?k]) simp_all
  then have "reduces (insert ?c (others ci st), postsolver_adds st) (insert ?b (others ci st), postsolver_adds st)"
    using b by (intro reduces_strengthen) auto
  then have "reduces (problem st) (problem t)" using f assms(8,10) by (simp add: problem_def)
  then show "progress st t" using keeps req w by (simp add: progress_def)
qed

definition unsat :: "formula \<Rightarrow> bool" where
  "unsat F \<longleftrightarrow> (\<forall>v. \<not> satisfies v F)"

lemma unsat_reduces: "reduces (problem s) (problem t) \<Longrightarrow> unsat (formula t) \<Longrightarrow> unsat (formula s)"
  unfolding unsat_def using reduces_complete[of "problem s" "problem t"] by (auto simp: problem_def)

lemma unsat_shortened:
  assumes "ci < length (sp_clauses st)" "k < length (sp_clauses st)" "strengthens (sp_clauses st ! k) y (sp_clauses st ! ci)"
    "good_clause (sp_clauses st ! ci)" "remove1 y (sp_clauses st ! ci) = []"
  shows "unsat (formula st)"
proof -
  have s: "y \<in> set (sp_clauses st ! ci)" "Negated y \<in> set (sp_clauses st ! k)"
    "set (sp_clauses st ! k) - {Negated y} \<subseteq> set (sp_clauses st ! ci) - {y}" using assms(3) by (auto simp: strengthens_def)
  have "set (sp_clauses st ! ci) - {y} = {}" using good_distinct[OF assms(4)] assms(5) set_remove1_eq[of "sp_clauses st ! ci" y] by simp
  then have e: "set (sp_clauses st ! ci) = {y}" "set (sp_clauses st ! k) = {Negated y}" using s by auto
  have "sp_clauses st ! ci \<in> formula st" "sp_clauses st ! k \<in> formula st" using assms(1,2) e by (auto simp: in_formula)
  then have "satisfies v (formula st) \<Longrightarrow> holds v (sp_clauses st ! ci) \<and> holds v (sp_clauses st ! k)" for v
    by (auto simp: satisfies_def)
  then show ?thesis unfolding unsat_def using e by (auto simp: holds_def)
qed

end
