(* ===== verification/SatProcess.thy ===== *)
theory SatProcess
  imports SatSubsume
begin

text \<open>
  The loops of the subsumption: \<open>ProcessClauseToSimplifyOthersUsingLiteral\<close>, the treatment of the negation,
  \<open>ProcessClauseToSimplifyOthers\<close> and \<open>ProcessAllClauses\<close>.
\<close>

section \<open>The steps of the loops\<close>

lemma inspect_sel [simp]:
  "sp_clauses (inspect c ci st) = sp_clauses st" "signatures (inspect c ci st) = signatures st"
  "in_clause_to_process (inspect c ci st) = in_clause_to_process st" "clause_to_process (inspect c ci st) = clause_to_process st"
  "literal_to_clauses (inspect c ci st) = literal_to_clauses st"
  "literal_to_clause_sizes (inspect c ci st) = literal_to_clause_sizes st"
  "var_weights (inspect c ci st) = var_weights st" "var_pq (inspect c ci st) = var_pq st"
  "bva_weights (inspect c ci st) = bva_weights st" "bva_pq (inspect c ci st) = bva_pq st"
  "postsolver_adds (inspect c ci st) = postsolver_adds st" "parameters (inspect c ci st) = parameters st"
  "limit_queries (inspect c ci st) = limit_queries st"
  by (simp_all add: inspect_def)

lemma simplify_cost_nonneg: "0 \<le> simplify_cost a b"
  by (simp add: simplify_cost_def)

lemma inspected_inspect: "inspected st \<le> inspected (inspect c ci st)"
  using simplify_cost_nonneg[of c] by (simp add: inspected_def inspect_def)

lemma same_core_inspect: "same_core (inspect c ci st) st"
  by (simp add: same_core_def)

lemma progress_same_core:
  assumes "same_core t st" "postsolver_adds t = postsolver_adds st" "parameters t = parameters st"
    "limit_queries st \<le> limit_queries t" "inspected st \<le> inspected t"
  shows "progress st t"
proof -
  have "problem t = problem st" using assms by (intro problem_cong) (simp_all add: same_core_def)
  then show ?thesis using assms
    by (simp add: progress_def keeps_def requeues_def same_core_def weight_def total_literals_def keeps_queues_def)
qed

lemma progress_inspect: "progress st (inspect c ci st)"
  by (rule progress_same_core[OF same_core_inspect]) (simp_all add: inspected_inspect)

lemma set_clause_sel [simp]:
  "sp_clauses (set_clause ci b st) = (sp_clauses st)[ci := b]" "signatures (set_clause ci b st) = signatures st"
  "in_clause_to_process (set_clause ci b st) = in_clause_to_process st" "clause_to_process (set_clause ci b st) = clause_to_process st"
  "literal_to_clauses (set_clause ci b st) = literal_to_clauses st"
  "literal_to_clause_sizes (set_clause ci b st) = literal_to_clause_sizes st"
  "var_weights (set_clause ci b st) = var_weights st" "var_pq (set_clause ci b st) = var_pq st"
  "bva_weights (set_clause ci b st) = bva_weights st" "bva_pq (set_clause ci b st) = bva_pq st"
  "postsolver_adds (set_clause ci b st) = postsolver_adds st" "parameters (set_clause ci b st) = parameters st"
  "limit_queries (set_clause ci b st) = limit_queries st" "inspected (set_clause ci b st) = inspected st"
  by (simp_all add: set_clause_def inspected_def)

lemma recompute_signature_sel [simp]:
  "sp_clauses (recompute_signature ci st) = sp_clauses st"
  "signatures (recompute_signature ci st) = (signatures st)[ci := SignatureOfClauseVariables (sp_clauses st ! ci)]"
  "in_clause_to_process (recompute_signature ci st) = in_clause_to_process st"
  "clause_to_process (recompute_signature ci st) = clause_to_process st"
  "literal_to_clauses (recompute_signature ci st) = literal_to_clauses st"
  "literal_to_clause_sizes (recompute_signature ci st) = literal_to_clause_sizes st"
  "var_weights (recompute_signature ci st) = var_weights st" "var_pq (recompute_signature ci st) = var_pq st"
  "bva_weights (recompute_signature ci st) = bva_weights st" "bva_pq (recompute_signature ci st) = bva_pq st"
  "postsolver_adds (recompute_signature ci st) = postsolver_adds st" "parameters (recompute_signature ci st) = parameters st"
  "limit_queries (recompute_signature ci st) = limit_queries st" "inspected (recompute_signature ci st) = inspected st"
  by (simp_all add: recompute_signature_def ComputeSignatureOfClauseVariables_def inspected_def)

lemma requeue_sel [simp]:
  "sp_clauses (requeue ci st) = sp_clauses st" "signatures (requeue ci st) = signatures st"
  "in_clause_to_process (requeue ci st) = (in_clause_to_process st)[ci := True]"
  "clause_to_process (requeue ci st) = (if in_clause_to_process st ! ci then clause_to_process st else clause_to_process st @ [ci])"
  "literal_to_clauses (requeue ci st) = literal_to_clauses st"
  "literal_to_clause_sizes (requeue ci st) = literal_to_clause_sizes st"
  "var_weights (requeue ci st) = var_weights st" "var_pq (requeue ci st) = var_pq st"
  "bva_weights (requeue ci st) = bva_weights st" "bva_pq (requeue ci st) = bva_pq st"
  "postsolver_adds (requeue ci st) = postsolver_adds st" "parameters (requeue ci st) = parameters st"
  "limit_queries (requeue ci st) = limit_queries st" "inspected (requeue ci st) = inspected st"
  by (simp_all add: requeue_def inspected_def)
    (metis (full_types) list_update_id)

lemma erase_occurrence_sel [simp]:
  "sp_clauses (erase_occurrence ci e st) = sp_clauses st" "signatures (erase_occurrence ci e st) = signatures st"
  "in_clause_to_process (erase_occurrence ci e st) = in_clause_to_process st"
  "clause_to_process (erase_occurrence ci e st) = clause_to_process st"
  "literal_to_clauses (erase_occurrence ci e st) = (literal_to_clauses st)[e := filter (\<lambda>c. c \<noteq> ci) (literal_to_clauses st ! e)]"
  "literal_to_clause_sizes (erase_occurrence ci e st) = (literal_to_clause_sizes st)[e := literal_to_clause_sizes st ! e - 1]"
  "bva_weights (erase_occurrence ci e st) = bva_weights st" "bva_pq (erase_occurrence ci e st) = bva_pq st"
  "postsolver_adds (erase_occurrence ci e st) = postsolver_adds st" "parameters (erase_occurrence ci e st) = parameters st"
  "limit_queries (erase_occurrence ci e st) = limit_queries st" "inspected (erase_occurrence ci e st) = inspected st"
  by (simp_all add: erase_occurrence_def inspected_def)

lemma keeps_queues_erase_occurrence: "keeps_queues st (erase_occurrence ci e st)"
proof -
  let ?s = "st\<lparr> literal_to_clauses := (literal_to_clauses st)[e := filter (\<lambda>c. c \<noteq> ci) (literal_to_clauses st ! e)],
            literal_to_clause_sizes := (literal_to_clause_sizes st)[e := literal_to_clause_sizes st ! e - 1] \<rparr>"
  have "keeps_queues st ?s" by (intro keeps_queues_same) simp_all
  then show ?thesis unfolding erase_occurrence_def by (rule keeps_queues_trans) (rule UpdatePriorityQueue_keeps_queues)
qed

text \<open>A clause that another one strengthens, when the literal leaves its occurrence list at once.\<close>

definition strengthen :: "nat \<Rightarrow> literal list \<Rightarrow> literal \<Rightarrow> sat_presolver \<Rightarrow> sat_presolver" where
  "strengthen ci clause y st =
     requeue ci (erase_occurrence ci y (recompute_signature ci
       (set_clause ci (remove1 y (sp_clauses st ! ci)) (inspect clause ci st))))"

lemma strengthen_spec:
  fixes clause :: "literal list"
  assumes "valid_but_lits E st" "y \<notin> E" "ci < length (sp_clauses st)" "k < length (sp_clauses st)" "k \<noteq> ci"
    "strengthens (sp_clauses st ! k) y (sp_clauses st ! ci)" "remove1 y (sp_clauses st ! ci) \<noteq> []"
  defines "t \<equiv> strengthen ci clause y st"
  shows "valid_but_lits E t" "progress st t" "weight t < weight st" "sp_clauses t = (sp_clauses st)[ci := remove1 y (sp_clauses st ! ci)]"
    "e \<noteq> y \<Longrightarrow> literal_to_clauses t ! e = literal_to_clauses st ! e"
proof -
  note v = valid_but_litsD[OF assms(1)]
  note g = clauses_okD[OF v(2) assms(3)]
  have y: "y \<in> set (sp_clauses st ! ci)" using assms(6) by (simp add: strengthens_def)
  have yr: "y < length (literal_to_clause_sizes st)" using g(2)[OF y] .
  note lo = v(5)[OF yr assms(2)]
  note so = v(6)[OF yr assms(2)]
  have sh: "clause_shortened ci y st t"
    using assms(3) shapeD[OF v(1)] by (simp add: clause_shortened_def t_def strengthen_def)
  show cl: "sp_clauses t = (sp_clauses st)[ci := remove1 y (sp_clauses st ! ci)]"
    using sh by (simp add: clause_shortened_def)
  show "e \<noteq> y \<Longrightarrow> literal_to_clauses t ! e = literal_to_clauses st ! e" using sh by (simp add: clause_shortened_def)
  let ?r = "recompute_signature ci (set_clause ci (remove1 y (sp_clauses st ! ci)) (inspect clause ci st))"
  have q: "var_queue_but {} ?r" "bva_queue_ok ?r" using v(3,4) var_queue_cong[of ?r st] bva_queue_cong[of ?r st] by simp_all
  let ?s = "?r\<lparr> literal_to_clauses := (literal_to_clauses ?r)[y := filter (\<lambda>c. c \<noteq> ci) (literal_to_clauses ?r ! y)],
            literal_to_clause_sizes := (literal_to_clause_sizes ?r)[y := literal_to_clause_sizes ?r ! y - 1] \<rparr>"
  have e: "even (length (literal_to_clause_sizes ?r))" "y < length (literal_to_clause_sizes ?r)"
    using yr v(1) by (simp_all add: shape_def)
  note cs = changed_size_ok[OF q e, of ?s "literal_to_clause_sizes ?r ! y - 1"]
  have u: "var_queue_but {} (erase_occurrence ci y ?r)" "bva_queue_ok (erase_occurrence ci y ?r)"
    unfolding erase_occurrence_def by (rule cs; simp)+
  have qt: "var_queue_but {} t" "bva_queue_ok t"
    using u var_queue_cong[of t "erase_occurrence ci y ?r"] bva_queue_cong[of t "erase_occurrence ci y ?r"]
    by (simp_all add: t_def strengthen_def)
  note vt = valid_clause_shortened[OF assms(1) sh assms(3) y qt assms(7)]
  have b: "set (remove1 y (sp_clauses st ! ci)) = set (sp_clauses st ! ci) - {y}" using good_distinct[OF g(1)] by simp
  have "literal_to_clauses t ! y = filter (\<lambda>c. c \<noteq> ci) (literal_to_clauses st ! y)"
    using yr shapeD(3)[OF v(1)] by (simp add: t_def strengthen_def)
  then have "lists_ok y t" using lo b assms(3) cl unfolding lists_ok_def by (auto simp: nth_list_update)
  moreover have "sizes_ok y t" using so b assms(3) cl y yr by (simp add: sizes_ok_def occ_count_update t_def strengthen_def)
  ultimately show "valid_but_lits E t" using vt unfolding valid_but_lits_def by auto
  have kq: "keeps_queues st t"
  proof -
    have "keeps_queues st ?r" by (intro keeps_queues_same) simp_all
    moreover have "keeps_queues (erase_occurrence ci y ?r) t" by (intro keeps_queues_same) (simp_all add: t_def strengthen_def)
    ultimately show ?thesis using keeps_queues_erase_occurrence keeps_queues_trans by blast
  qed
  have "parameters t = parameters st" "postsolver_adds t = postsolver_adds st" "inspected st \<le> inspected t"
    "limit_queries st \<le> limit_queries t" using inspected_inspect by (simp_all add: t_def strengthen_def)
  note p = progress_shortened[OF sh v(1) g(1) assms(3,4,5,6,7) this kq]
  show "progress st t" "weight t < weight st" using p by simp_all
qed

section \<open>The loop over the clauses of a literal\<close>

lemma strengthens_other:
  assumes "good_clause a" "lit \<in> set a" "strengthens a y b"
  shows "y \<noteq> lit"
  using assms good_negation[OF assms(1,2)] by (auto simp: strengthens_def)

lemma using_literal_loop_spec:
  assumes "valid st" "k < length (sp_clauses st)" "sp_clauses st ! k = clause" "clause \<noteq> []" "lit \<in> set clause"
    "set todo \<subseteq> set (literal_to_clauses st ! lit)"
    "using_literal_loop k clause (SignatureOfClauseVariables clause) todo nc st = (ok, nc', t)"
  shows "(ok \<longrightarrow> valid t \<and> progress st t \<and> sp_clauses t ! k = clause \<and>
            literal_to_clauses t ! lit = literal_to_clauses st ! lit \<and> (\<forall>j \<in> set todo. j \<noteq> k \<longrightarrow> apart k j t)) \<and>
         (\<not> ok \<longrightarrow> unsat (formula st))"
  using assms(1,2,3,6,7)
proof (induction todo arbitrary: nc st)
  case (Cons ci todo)
  note v = validD[OF Cons.prems(1)]
  have lr: "lit < length (literal_to_clause_sizes st)" using clauses_okD(2)[OF v(2) Cons.prems(2)] Cons.prems(3) assms(5) by blast
  note lo = lists_okD[OF v(5)[OF lr]]
  have ci: "ci \<in> set (literal_to_clauses st ! lit)" "ci < length (sp_clauses st)"
    using Cons.prems(4) lo(2) by auto
  let ?sig = "SignatureOfClauseVariables clause"
  have sg: "signatures st ! ci = SignatureOfClauseVariables (sp_clauses st ! ci)" by (rule clauses_okD(3)[OF v(2) ci(2)])
  have go: ?case if s: "valid s" "progress st s" "sp_clauses s ! k = clause" "literal_to_clauses s ! lit = literal_to_clauses st ! lit"
    "using_literal_loop k clause ?sig todo nc1 s = (ok, nc', t)" "ci \<noteq> k \<longrightarrow> apart k ci s" for s nc1
  proof -
    have l: "length (sp_clauses s) = length (sp_clauses st)" using s(2) by (simp add: progress_def keeps_def)
    note IH = Cons.IH[of s nc1, OF s(1) _ s(3) _ s(5)]
    have IH: "(ok \<longrightarrow> valid t \<and> progress s t \<and> sp_clauses t ! k = clause \<and>
            literal_to_clauses t ! lit = literal_to_clauses s ! lit \<and> (\<forall>j \<in> set todo. j \<noteq> k \<longrightarrow> apart k j t)) \<and>
         (\<not> ok \<longrightarrow> unsat (formula s))"
      by (rule IH) (use Cons.prems(2,4) s(4) l in auto)
    have "apart k ci t" if ok "ci \<noteq> k" using IH that s(6) apart_progress[of k ci s t] Cons.prems(2) ci(2) l by simp
    then show ?thesis using IH s(2,4) progress_trans[OF s(2)] unsat_reduces[of st s] by (auto simp: progress_def)
  qed
  show ?case
  proof (cases "signatures st ! ci \<noteq> 0 \<and> ci \<noteq> k \<and> may_simplify ?sig (signatures st ! ci)")
    case False
    have "using_literal_loop k clause ?sig todo (nc \<or> signatures st ! ci = 0) st = (ok, nc', t)"
      using Cons.prems(5) False by (auto split: if_splits)
    moreover have "apart k ci st" if "ci \<noteq> k"
      using False that sg may_simplify_superset[of clause "sp_clauses st ! ci"] Cons.prems(3) assms(4) by (auto simp: apart_def)
    ultimately show ?thesis using go[of st] Cons.prems(1,3) by simp
  next
    case True
    then have ne: "sp_clauses st ! ci \<noteq> []" and nk: "k \<noteq> ci" using sg by auto
    have g: "good_clause clause" "good_clause (sp_clauses st ! ci)"
      using clauses_okD(1)[OF v(2)] Cons.prems(2,3) ci(2) by auto
    let ?i = "inspect clause ci st"
    have vi: "valid ?i" using Cons.prems(1) valid_same_core[OF same_core_inspect] by (simp add: valid_def)
    show ?thesis using g
    proof (cases rule: SimplifyClause_cases)
      case fails
      then have "apart k ci ?i" using Cons.prems(3) by (auto simp: apart_def)
      then show ?thesis using go[of ?i nc] fails(1) Cons.prems(3,5) True vi progress_inspect by simp
    next
      case subsumed
      have "progress ?i (sp_Remove ci ?i)"
        using progress_subsumed[of ci ?i k] ci(2) ne Cons.prems(2,3) nk assms(4) subsumed(2) by simp
      moreover have "valid (sp_Remove ci ?i)" using valid_sp_Remove(1)[of "{}" ?i ci] vi ci(2) by (simp add: valid_def)
      moreover have "using_literal_loop k clause ?sig todo True (sp_Remove ci ?i) = (ok, nc', t)"
        using Cons.prems(5) True subsumed(1) by simp
      moreover have "apart k ci (sp_Remove ci ?i)" using ci(2) nk Cons.prems(3) assms(4) by (simp add: apart_def)
      ultimately show ?thesis using go[of "sp_Remove ci ?i" True] Cons.prems(3) nk progress_inspect progress_trans[OF progress_inspect]
        by simp
    next
      case (strengthened y)
      let ?b = "remove1 y (sp_clauses st ! ci)"
      have st: "strengthens (sp_clauses st ! k) y (sp_clauses st ! ci)" using strengthened(2) Cons.prems(3) by simp
      have yl: "y \<noteq> lit" using strengthens_other[OF g(1) assms(5) strengthened(2)] .
      show ?thesis
      proof (cases "?b = []")
        case e: True
        have "\<not> ok" using Cons.prems(5) True strengthened(1) e by (simp add: Let_def)
        then show ?thesis using unsat_shortened[OF ci(2) Cons.prems(2) st g(2) e] by simp
      next
        case n: False
        have "valid_but_lits {} st" using Cons.prems(1) by (simp add: valid_def)
        note sp = strengthen_spec[where clause = clause, OF this _ ci(2) Cons.prems(2) nk st n]
        have "using_literal_loop k clause ?sig todo nc (strengthen ci clause y st) = (ok, nc', t)"
          using Cons.prems(5) True strengthened(1) n by (simp add: Let_def strengthen_def)
        moreover have "apart k ci (strengthen ci clause y st)"
        proof -
          have "y \<in> set (sp_clauses st ! ci)" using strengthened(2) by (simp add: strengthens_def)
          then have "?b \<noteq> sp_clauses st ! ci" using good_distinct[OF g(2)] by (metis Diff_iff set_remove1_eq singletonI)
          moreover have "sp_clauses (strengthen ci clause y st) ! ci = ?b" using sp(4) ci(2) by simp
          moreover have "requeues st (strengthen ci clause y st)" using sp(2) by (simp add: progress_def)
          ultimately have "ci \<in> set (clause_to_process (strengthen ci clause y st))"
            using ci(2) n unfolding requeues_def by metis
          then show ?thesis by (simp add: apart_def)
        qed
        moreover have "sp_clauses (strengthen ci clause y st) ! k = clause" using sp(4) nk Cons.prems(3) by simp
        ultimately show ?thesis using go[of "strengthen ci clause y st" nc] sp(1,2) sp(5)[of lit] yl by (simp add: valid_def)
      qed
    qed
  qed
qed (use assms in auto)

lemma clean_occurrences_spec:
  assumes "valid st"
  shows "valid (clean_occurrences lit st)" "progress st (clean_occurrences lit st)"
proof -
  note v = validD[OF assms]
  let ?t = "clean_occurrences lit st"
  have "lists_ok e ?t" if e: "e < length (literal_to_clause_sizes st)" for e
  proof (cases "e = lit")
    case True
    then have "literal_to_clauses ?t ! e = filter (\<lambda>ci. signatures st ! ci \<noteq> 0) (literal_to_clauses st ! e)"
      using e shapeD(3)[OF v(1)] by (simp add: clean_occurrences_def)
    moreover have "sp_clauses ?t = sp_clauses st" by (simp add: clean_occurrences_def)
    ultimately show ?thesis using lists_okD[OF v(5)[OF e]] clauses_okD(3)[OF v(2)] by (auto simp: lists_ok_def)
  next
    case False
    then show ?thesis using v(5)[OF e] by (simp add: lists_ok_def clean_occurrences_def)
  qed
  moreover have "shape ?t" "clauses_ok ?t" using v(1,2) by (simp_all add: shape_def clauses_ok_def clean_occurrences_def)
  moreover have "var_queue_but {} ?t" "bva_queue_ok ?t"
    using v(3,4) var_queue_cong[of ?t st] bva_queue_cong[of ?t st] by (simp_all add: clean_occurrences_def)
  ultimately show "valid ?t" using v(6) by (simp add: valid_def valid_but_lits_def sizes_ok_def clean_occurrences_def)
  have "problem ?t = problem st" by (rule problem_cong) (simp_all add: clean_occurrences_def)
  then show "progress st ?t"
    by (simp add: progress_def keeps_def requeues_def weight_def total_literals_def keeps_queues_def clean_occurrences_def inspected_def)
qed

lemma ProcessClauseToSimplifyOthersUsingLiteral_spec:
  assumes "valid st" "k < length (sp_clauses st)" "lit \<in> set (sp_clauses st ! k)"
    "ProcessClauseToSimplifyOthersUsingLiteral k lit st = (ok, t)"
  shows "(ok \<longrightarrow> valid t \<and> progress st t \<and> sp_clauses t ! k = sp_clauses st ! k \<and>
      (\<forall>j < length (sp_clauses st). j \<noteq> k \<longrightarrow> apart k j t)) \<and> (\<not> ok \<longrightarrow> unsat (formula st))"
proof -
  note v = validD[OF assms(1)]
  let ?s = "st\<lparr> num_inspected_signatures := num_inspected_signatures st + int (length (literal_to_clauses st ! lit)) \<rparr>"
  have c: "same_core ?s st" by (simp add: same_core_def)
  have vs: "valid ?s" using assms(1) valid_same_core[OF c] by (simp add: valid_def)
  have p: "progress st ?s" using c by (rule progress_same_core) (simp_all add: inspected_def)
  obtain ok' nc u where l: "using_literal_loop k (sp_clauses st ! k) (signatures st ! k) (literal_to_clauses st ! lit) False ?s = (ok', nc, u)"
    by (metis prod_cases3)
  have ne: "sp_clauses st ! k \<noteq> []" using assms(3) by auto
  have f: "formula ?s = formula st" by (rule formula_cong) simp
  have sg: "signatures st ! k = SignatureOfClauseVariables (sp_clauses st ! k)" by (rule clauses_okD(3)[OF v(2) assms(2)])
  have r: "ok' \<longrightarrow> valid u \<and> progress ?s u \<and> sp_clauses u ! k = sp_clauses st ! k \<and>
      (\<forall>j \<in> set (literal_to_clauses st ! lit). j \<noteq> k \<longrightarrow> apart k j u)" "\<not> ok' \<longrightarrow> unsat (formula st)"
    using using_literal_loop_spec[OF vs _ _ ne assms(3) _ l[unfolded sg]] assms(2) f by auto
  have lr: "lit < length (literal_to_clause_sizes st)" using clauses_okD(2)[OF v(2) assms(2)] assms(3) by blast
  have "apart k j st" if "j < length (sp_clauses st)" "j \<notin> set (literal_to_clauses st ! lit)" for j
    using lists_okD(3)[OF v(5)[OF lr] that(1)] that(2) assms(3) by (auto simp: apart_def)
  then have r2: "apart k j u" if ok' "j < length (sp_clauses st)" "j \<noteq> k" for j
    using that r(1) apart_progress[OF _ progress_trans[OF p], of k j u] assms(2) by blast
  have t: "t = (if ok' \<and> nc then clean_occurrences lit u else u)" "ok = ok'"
    using assms(4) l by (auto simp: ProcessClauseToSimplifyOthersUsingLiteral_def Let_def split: if_splits)
  have "apart k j t = apart k j u" for j unfolding t(1) by (simp add: apart_def clean_occurrences_def)
  then show ?thesis using t r r2 progress_trans[OF p] progress_trans[of st u] clean_occurrences_spec[of u lit]
    by (auto simp: clean_occurrences_def)
qed

end
