(* ===== verification/SatProcessAll.thy ===== *)
theory SatProcessAll
  imports SatProcess
begin

text \<open>
  The clauses with the negation of a literal, a whole clause processed, and \<open>ProcessAllClauses\<close>: it returns, it
  returns false only for a formula without a solution, and otherwise no processed unit clause meets its negation
  and no two processed clauses are the same.
\<close>

section \<open>The loop over the clauses of the negation\<close>

definition shorten :: "nat \<Rightarrow> literal list \<Rightarrow> literal \<Rightarrow> sat_presolver \<Rightarrow> sat_presolver" where
  "shorten ci clause y st =
     requeue ci (recompute_signature ci (set_clause ci (remove1 y (sp_clauses st ! ci)) (inspect clause ci st)))"

lemma shorten_spec:
  fixes clause :: "literal list"
  assumes "valid_but_lits {y} st" "ci < length (sp_clauses st)" "k < length (sp_clauses st)" "k \<noteq> ci"
    "strengthens (sp_clauses st ! k) y (sp_clauses st ! ci)" "remove1 y (sp_clauses st ! ci) \<noteq> []"
  defines "t \<equiv> shorten ci clause y st"
  shows "valid_but_lits {y} t" "progress st t" "sp_clauses t = (sp_clauses st)[ci := remove1 y (sp_clauses st ! ci)]"
    "literal_to_clauses t = literal_to_clauses st" "literal_to_clause_sizes t = literal_to_clause_sizes st"
proof -
  note v = valid_but_litsD[OF assms(1)]
  note g = clauses_okD[OF v(2) assms(2)]
  show same: "sp_clauses t = (sp_clauses st)[ci := remove1 y (sp_clauses st ! ci)]"
    "literal_to_clauses t = literal_to_clauses st" "literal_to_clause_sizes t = literal_to_clause_sizes st"
    by (simp_all add: t_def shorten_def)
  have y: "y \<in> set (sp_clauses st ! ci)" using assms(5) by (simp add: strengthens_def)
  have sh: "clause_shortened ci y st t" using assms(2) by (simp add: clause_shortened_def t_def shorten_def)
  have qt: "var_queue_but {} t" "bva_queue_ok t"
    using v(3,4) var_queue_cong[of t st] bva_queue_cong[of t st] by (simp_all add: t_def shorten_def)
  show "valid_but_lits {y} t" using valid_clause_shortened[OF assms(1) sh assms(2) y qt assms(6)] by simp
  have "keeps_queues st t" by (rule keeps_queues_same) (simp_all add: t_def shorten_def)
  moreover have "parameters t = parameters st" "postsolver_adds t = postsolver_adds st" "inspected st \<le> inspected t"
    "limit_queries st \<le> limit_queries t" using inspected_inspect by (simp_all add: t_def shorten_def)
  ultimately show "progress st t" using progress_shortened(1)[OF sh v(1) g(1) assms(2,3,4,5,6)] by simp
qed

lemma negation_cases:
  assumes "good_clause a" "good_clause b" "lit \<in> set a" "Negated lit \<in> set b"
  obtains (fails) "SimplifyClause a b = None" "a \<noteq> [lit]"
    | (strengthened) "SimplifyClause a b = Some (Some (Negated lit), remove1 (Negated lit) b)" "strengthens a (Negated lit) b"
  using assms(1,2)
proof (cases rule: SimplifyClause_cases)
  case fails
  have "a \<noteq> [lit]"
  proof
    assume "a = [lit]"
    then have "strengthens a (Negated lit) b" using assms(4) by (simp add: strengthens_def)
    then show False using fails(3) by blast
  qed
  then show ?thesis using fails(1) that(1) by blast
next
  case subsumed
  then have "lit \<in> set b" using assms(3) by blast
  then show ?thesis using good_negation[OF assms(2)] assms(4) by blast
next
  case (strengthened y)
  have "y = Negated lit"
  proof (rule ccontr)
    assume "y \<noteq> Negated lit"
    then have "lit \<in> set b" using strengthened(2) assms(3) by (auto simp: strengthens_def)
    then show False using good_negation[OF assms(2)] assms(4) by blast
  qed
  then show ?thesis using strengthened that(2) by blast
qed

lemma negation_loop_spec:
  assumes "valid_but_lits {Negated lit} st" "k < length (sp_clauses st)" "sp_clauses st ! k = clause" "lit \<in> set clause"
    "distinct todo" "set todo \<subseteq> {..<length (sp_clauses st)}"
    "\<And>i. i \<in> set todo \<Longrightarrow> sp_clauses st ! i \<noteq> [] \<Longrightarrow> Negated lit \<in> set (sp_clauses st ! i)"
    "negation_loop clause (SignatureOfClauseVariables clause) todo kept rem st = (ok, kept', rem', t)"
  shows "(ok \<longrightarrow> valid_but_lits {Negated lit} t \<and> progress st t \<and> sp_clauses t ! k = clause \<and>
      kept' = kept @ filter (\<lambda>i. Negated lit \<in> set (sp_clauses t ! i)) todo \<and>
      (\<forall>i. i \<notin> set todo \<longrightarrow> sp_clauses t ! i = sp_clauses st ! i) \<and>
      (clause = [lit] \<longrightarrow> (\<forall>i \<in> set todo. Negated lit \<notin> set (sp_clauses t ! i))) \<and>
      literal_to_clauses t = literal_to_clauses st \<and> literal_to_clause_sizes t = literal_to_clause_sizes st \<and>
      (\<not> rem' \<longrightarrow> sp_clauses t = sp_clauses st \<and> \<not> rem)) \<and> (\<not> ok \<longrightarrow> unsat (formula st))"
  using assms(1,2,3,5,6,7,8)
proof (induction todo arbitrary: kept rem st)
  case (Cons ci todo)
  let ?n = "Negated lit"
  note v = valid_but_litsD[OF Cons.prems(1)]
  have ci: "ci < length (sp_clauses st)" "ci \<notin> set todo" "distinct todo" using Cons.prems(4,5) by auto
  have g: "good_clause clause" "good_clause (sp_clauses st ! ci)"
    using clauses_okD(1)[OF v(2)] Cons.prems(2,3) ci(1) by auto
  have sg: "signatures st ! ci = SignatureOfClauseVariables (sp_clauses st ! ci)" by (rule clauses_okD(3)[OF v(2) ci(1)])
  have kci: "k \<noteq> ci" if "sp_clauses st ! ci \<noteq> []"
    using Cons.prems(3) Cons.prems(6)[of ci] that good_negation[OF g(1) assms(4)] by auto
  have go: ?case if s: "valid_but_lits {?n} s" "progress st s" "sp_clauses s = (sp_clauses st)[ci := c]" "sp_clauses s ! k = clause"
      "literal_to_clauses s = literal_to_clauses st" "literal_to_clause_sizes s = literal_to_clause_sizes st"
      "negation_loop clause (SignatureOfClauseVariables clause) todo kept1 rem1 s = (ok, kept', rem', t)"
      "kept1 = (if ?n \<in> set c then kept @ [ci] else kept)" "rem \<longrightarrow> rem1" "\<not> rem1 \<longrightarrow> c = sp_clauses st ! ci"
      "clause = [lit] \<longrightarrow> ?n \<notin> set c" for s c kept1 rem1
  proof -
    have l: "length (sp_clauses s) = length (sp_clauses st)" using s(3) by simp
    have other: "sp_clauses s ! i = sp_clauses st ! i" if "i \<noteq> ci" for i using s(3) that by simp
    have IH: "(ok \<longrightarrow> valid_but_lits {?n} t \<and> progress s t \<and> sp_clauses t ! k = clause \<and>
      kept' = kept1 @ filter (\<lambda>i. ?n \<in> set (sp_clauses t ! i)) todo \<and>
      (\<forall>i. i \<notin> set todo \<longrightarrow> sp_clauses t ! i = sp_clauses s ! i) \<and>
      (clause = [lit] \<longrightarrow> (\<forall>i \<in> set todo. ?n \<notin> set (sp_clauses t ! i))) \<and>
      literal_to_clauses t = literal_to_clauses s \<and> literal_to_clause_sizes t = literal_to_clause_sizes s \<and>
      (\<not> rem' \<longrightarrow> sp_clauses t = sp_clauses s \<and> \<not> rem1)) \<and> (\<not> ok \<longrightarrow> unsat (formula s))"
    proof (rule Cons.IH[OF s(1) _ s(4) ci(3) _ _ s(7)])
      show "?n \<in> set (sp_clauses s ! i)" if "i \<in> set todo" "sp_clauses s ! i \<noteq> []" for i
      proof -
        have "i \<noteq> ci" using that ci(2) by auto
        then show ?thesis using Cons.prems(6)[of i] that other[of i] by auto
      qed
    qed (use Cons.prems(2,5) l in auto)
    have at: "sp_clauses t ! ci = c" if ok using IH that ci s(3) by auto
    show ?thesis
    proof (intro conjI impI)
      assume ok: ok
      show "valid_but_lits {?n} t" "sp_clauses t ! k = clause" "literal_to_clauses t = literal_to_clauses st"
        "literal_to_clause_sizes t = literal_to_clause_sizes st" using IH ok s(5,6) by simp_all
      show "progress st t" using IH ok progress_trans[OF s(2)] by blast
      show "kept' = kept @ filter (\<lambda>i. ?n \<in> set (sp_clauses t ! i)) (ci # todo)" using IH ok at s(8) by simp
      show "\<forall>i. i \<notin> set (ci # todo) \<longrightarrow> sp_clauses t ! i = sp_clauses st ! i" using IH ok other by simp
      show "\<forall>i \<in> set (ci # todo). ?n \<notin> set (sp_clauses t ! i)" if "clause = [lit]" using IH ok at s(11) that by simp
      show "sp_clauses t = sp_clauses st" "\<not> rem" if "\<not> rem'" using IH ok that s(3,9,10) by auto
    next
      assume "\<not> ok"
      then show "unsat (formula st)" using IH unsat_reduces[of st s] s(2) by (simp add: progress_def)
    qed
  qed
  show ?case
  proof (cases "sp_clauses st ! ci = []")
    case True
    then have "negation_loop clause (SignatureOfClauseVariables clause) todo kept rem st = (ok, kept', rem', t)"
      using Cons.prems(7) sg by simp
    moreover have "sp_clauses st = (sp_clauses st)[ci := []]" using True by (metis list_update_id)
    ultimately show ?thesis using go[of st "[]" kept rem] Cons.prems(1,3) True by simp
  next
    case ne: False
    then have nz: "signatures st ! ci \<noteq> 0" and k: "k \<noteq> ci" and n: "?n \<in> set (sp_clauses st ! ci)"
      using sg kci Cons.prems(6)[of ci] by auto
    show ?thesis
    proof (cases "may_simplify (SignatureOfClauseVariables clause) (signatures st ! ci)")
      case False
      have "clause \<noteq> [lit]"
      proof
        assume c: "clause = [lit]"
        have "Variable ` set clause \<subseteq> Variable ` set (sp_clauses st ! ci)"
          using c n by (auto intro: image_eqI[of _ _ "Negated lit"])
        then show False using False may_simplify_superset sg by simp
      qed
      moreover have "negation_loop clause (SignatureOfClauseVariables clause) todo (kept @ [ci]) rem st = (ok, kept', rem', t)"
        using Cons.prems(7) nz False by simp
      ultimately show ?thesis using go[of st "sp_clauses st ! ci" "kept @ [ci]" rem] Cons.prems(1,3) n by simp
    next
      case ms: True
      show ?thesis using g assms(4) n
      proof (cases rule: negation_cases)
        case fails
        have "valid_but_lits {?n} (inspect clause ci st)"
          using Cons.prems(1) valid_same_core[OF same_core_inspect] by simp
        moreover have "negation_loop clause (SignatureOfClauseVariables clause) todo (kept @ [ci]) rem (inspect clause ci st)
          = (ok, kept', rem', t)" using Cons.prems(7) nz ms fails(1) by simp
        ultimately show ?thesis
          using go[of "inspect clause ci st" "sp_clauses st ! ci" "kept @ [ci]" rem] Cons.prems(3) n fails(2) progress_inspect by simp
      next
        case strengthened
        let ?b = "remove1 ?n (sp_clauses st ! ci)"
        have st: "strengthens (sp_clauses st ! k) ?n (sp_clauses st ! ci)" using strengthened(2) Cons.prems(3) by simp
        show ?thesis
        proof (cases "?b = []")
          case True
          have "\<not> ok" using Cons.prems(7) nz ms strengthened(1) True by (simp add: Let_def)
          then show ?thesis using unsat_shortened[OF ci(1) Cons.prems(2) st g(2) True] by simp
        next
          case False
          note sp = shorten_spec[where clause = clause, OF Cons.prems(1) ci(1) Cons.prems(2) k st False]
          have "negation_loop clause (SignatureOfClauseVariables clause) todo kept True (shorten ci clause ?n st) = (ok, kept', rem', t)"
            using Cons.prems(7) nz ms strengthened(1) False by (simp add: Let_def shorten_def)
          moreover have "?n \<notin> set ?b" using good_distinct[OF g(2)] by simp
          ultimately show ?thesis using go[of "shorten ci clause ?n st" ?b kept True] sp k Cons.prems(3) by simp
        qed
      qed
    qed
  qed
qed (use assms in auto)

lemma occ_count_card: "occ_count e cls = int (card {i. i < length cls \<and> e \<in> set (cls ! i)})"
  by (simp add: occ_count_def length_filter_conv_card)

lemma treat_negation_spec:
  assumes "valid st" "k < length (sp_clauses st)" "lit \<in> set (sp_clauses st ! k)" "treat_negation k lit st = (ok, t)"
  shows "(ok \<longrightarrow> valid t \<and> progress st t \<and> sp_clauses t ! k = sp_clauses st ! k \<and>
      (sp_clauses st ! k = [lit] \<longrightarrow> (\<forall>j < length (sp_clauses t). Negated lit \<notin> set (sp_clauses t ! j)))) \<and>
    (\<not> ok \<longrightarrow> unsat (formula st))"
proof -
  let ?n = "Negated lit"
  note v = validD[OF assms(1)]
  have lr: "?n < length (literal_to_clause_sizes st)"
    using clauses_okD(2)[OF v(2) assms(2)] assms(3) Negated_in_range[OF v(1)] by blast
  let ?l = "literal_to_clauses st ! ?n"
  note lo = lists_okD[OF v(5)[OF lr]]
  obtain ok' kept rem u where nl: "negation_loop (sp_clauses st ! k) (signatures st ! k) ?l [] False st = (ok', kept, rem, u)"
    by (metis prod_cases4)
  have vb: "valid_but_lits {?n} st" using assms(1) by (simp add: valid_def valid_but_lits_def)
  have "negation_loop (sp_clauses st ! k) (SignatureOfClauseVariables (sp_clauses st ! k)) ?l [] False st = (ok', kept, rem, u)"
    using nl clauses_okD(3)[OF v(2) assms(2)] by simp
  note spec = negation_loop_spec[OF vb assms(2) refl assms(3) lo(1) _ _ this]
  have spec: "(ok' \<longrightarrow> valid_but_lits {?n} u \<and> progress st u \<and> sp_clauses u ! k = sp_clauses st ! k \<and>
      kept = filter (\<lambda>i. ?n \<in> set (sp_clauses u ! i)) ?l \<and>
      (\<forall>i. i \<notin> set ?l \<longrightarrow> sp_clauses u ! i = sp_clauses st ! i) \<and>
      (sp_clauses st ! k = [lit] \<longrightarrow> (\<forall>i \<in> set ?l. ?n \<notin> set (sp_clauses u ! i))) \<and>
      literal_to_clauses u = literal_to_clauses st \<and> literal_to_clause_sizes u = literal_to_clause_sizes st \<and>
      (\<not> rem \<longrightarrow> sp_clauses u = sp_clauses st)) \<and> (\<not> ok' \<longrightarrow> unsat (formula st))"
    using spec lo(2,3) by auto
  show ?thesis
  proof (cases ok')
    case False
    then have "\<not> ok" using assms(4) nl by (simp add: treat_negation_def Let_def)
    then show ?thesis using spec False by simp
  next
    case True
    let ?s = "u\<lparr> literal_to_clauses := (literal_to_clauses u)[?n := kept],
                 literal_to_clause_sizes := (literal_to_clause_sizes u)[?n := int (length kept)] \<rparr>"
    have u: "valid_but_lits {?n} u" "progress st u" "sp_clauses u ! k = sp_clauses st ! k"
      "kept = filter (\<lambda>i. ?n \<in> set (sp_clauses u ! i)) ?l"
      "\<And>i. i \<notin> set ?l \<Longrightarrow> sp_clauses u ! i = sp_clauses st ! i"
      "sp_clauses st ! k = [lit] \<Longrightarrow> i \<in> set ?l \<Longrightarrow> ?n \<notin> set (sp_clauses u ! i)"
      "literal_to_clauses u = literal_to_clauses st" "literal_to_clause_sizes u = literal_to_clause_sizes st"
      "\<not> rem \<Longrightarrow> sp_clauses u = sp_clauses st" for i
      using spec True by blast+
    have t: "ok" "t = (if rem then UpdatePriorityQueue (Variable ?n) ?s else ?s)"
      using assms(4) nl True by (simp_all add: treat_negation_def Let_def)
    note vu = valid_but_litsD[OF u(1)]
    have kp: "keeps st u" using u(2) by (simp add: progress_def)
    have len: "length (sp_clauses u) = length (sp_clauses st)" using kp by (simp add: keeps_def)
    have listed: "i \<in> set ?l" if "i < length (sp_clauses u)" "?n \<in> set (sp_clauses u ! i)" for i
    proof -
      have "?n \<in> set (sp_clauses st ! i)" using kp that len unfolding keeps_def by auto
      then show ?thesis using occurs_listed[OF v(5)[OF lr]] that len by simp
    qed
    have set_kept: "set kept = {i. i < length (sp_clauses u) \<and> ?n \<in> set (sp_clauses u ! i)}"
      unfolding u(4) using lo(2) len listed by auto
    have dk: "distinct kept" unfolding u(4) using lo(1) by simp
    have cnt: "int (length kept) = occ_count ?n (sp_clauses u)"
      unfolding occ_count_card set_kept[symmetric] using distinct_card[OF dk] by simp
    have nr: "?n < length (literal_to_clauses u)" "?n < length (literal_to_clause_sizes u)"
      using lr u(7,8) shapeD(3)[OF v(1)] by simp_all
    have sel: "sp_clauses t = sp_clauses u" "signatures t = signatures u" "in_clause_to_process t = in_clause_to_process u"
      "clause_to_process t = clause_to_process u" "literal_to_clauses t = (literal_to_clauses u)[?n := kept]"
      "literal_to_clause_sizes t = (literal_to_clause_sizes u)[?n := int (length kept)]"
      "parameters t = parameters u" "postsolver_adds t = postsolver_adds u" "limit_queries t = limit_queries u" "inspected t = inspected u"
      unfolding t(2) by (auto simp: inspected_def)
    have "var_queue_but {} t \<and> bva_queue_ok t"
    proof (cases rem)
      case True
      have "even (length (literal_to_clause_sizes u))" using vu(1) by (simp add: shape_def)
      note c = changed_size_ok[OF vu(3,4) this nr(2), of ?s "int (length kept)"]
      have "var_queue_but {} (UpdatePriorityQueue (Variable ?n) ?s)" "bva_queue_ok (UpdatePriorityQueue (Variable ?n) ?s)" by (rule c; simp)+
      then show ?thesis using t(2) True by simp
    next
      case False
      have "literal_to_clause_sizes u ! ?n = int (length kept)"
        using v(6)[OF lr] u(8,9) False cnt by (simp add: sizes_ok_def)
      then have "literal_to_clause_sizes t = literal_to_clause_sizes u" unfolding sel(6) by (metis list_update_id)
      moreover have "var_weights t = var_weights u" "var_pq t = var_pq u" "bva_weights t = bva_weights u" "bva_pq t = bva_pq u"
        using t(2) False by simp_all
      ultimately show ?thesis using vu(3,4) var_queue_cong[of t u] bva_queue_cong[of t u] by simp
    qed
    moreover have "lists_ok e t \<and> sizes_ok e t" if e: "e < length (literal_to_clause_sizes u)" for e
    proof (cases "e = ?n")
      case True
      show ?thesis unfolding True lists_ok_def sizes_ok_def sel using dk set_kept cnt nr by auto
    next
      case False
      then show ?thesis using vu(5,6)[OF e] unfolding lists_ok_def sizes_ok_def sel by simp
    qed
    ultimately have vt: "valid t" using vu(1,2) sel
      unfolding valid_def valid_but_lits_def by (simp add: shape_def clauses_ok_def)
    have "keeps_queues u ?s" by (rule keeps_queues_same) simp_all
    then have kq: "keeps_queues u t" unfolding t(2) using keeps_queues_trans[OF _ UpdatePriorityQueue_keeps_queues] by auto
    have "problem t = problem u" by (rule problem_cong) (simp_all add: sel)
    then have "progress u t" using sel kq by (simp add: progress_def keeps_def requeues_def weight_def total_literals_def)
    then have "progress st t" using progress_trans[OF u(2)] by blast
    moreover have "Negated lit \<notin> set (sp_clauses t ! j)" if "sp_clauses st ! k = [lit]" "j < length (sp_clauses t)" for j
      using listed[of j] u(6)[OF that(1), of j] that(2) sel(1) by auto
    ultimately show ?thesis using vt t(1) u(3) sel(1) by simp
  qed
qed

section \<open>A clause processed\<close>

lemma FindLiteral_in:
  assumes "clause \<noteq> []"
  shows "FindLiteralWithShortestOccurrenceList clause st \<in> set clause"
proof -
  have "foldl (\<lambda>result l. if literal_to_clause_sizes st ! l < literal_to_clause_sizes st ! result then l else result) r ls
      \<in> insert r (set ls)" for r ls
  proof (induction ls arbitrary: r)
    case (Cons l ls)
    show ?case using Cons.IH[of l] Cons.IH[of r] by auto
  qed simp
  from this[of "hd clause" clause] show ?thesis using hd_in_set[OF assms]
    by (simp add: FindLiteralWithShortestOccurrenceList_def insert_absorb)
qed

lemma FindLiteralExcluding_in:
  assumes "FindLiteralWithShortestOccurrenceListExcluding clause e st = Some l"
  shows "l \<in> set clause" "l \<noteq> e"
proof -
  let ?f = "\<lambda>(result, num_occurrences) l.
             if l = e then (result, num_occurrences)
             else if literal_to_clause_sizes st ! l < num_occurrences then (Some l, literal_to_clause_sizes st ! l)
             else (result, num_occurrences)"
  have "fst (foldl ?f p ls) = Some l \<Longrightarrow> fst p = Some l \<or> l \<in> set ls \<and> l \<noteq> e" for p ls
  proof (induction ls arbitrary: p)
    case (Cons a ls)
    show ?case using Cons.IH[of "?f p a"] Cons.prems by (cases p) (auto split: if_splits)
  qed simp
  from this[of "(None, kint32max)" clause] assms show "l \<in> set clause" "l \<noteq> e"
    by (simp_all add: FindLiteralWithShortestOccurrenceListExcluding_def)
qed

lemma ProcessClauseToSimplifyOthers_spec:
  assumes "valid st" "k < length (sp_clauses st)" "ProcessClauseToSimplifyOthers k st = (ok, t)"
  shows "(ok \<longrightarrow> valid t \<and> progress st t \<and>
      (\<forall>l. sp_clauses t ! k = [l] \<longrightarrow> (\<forall>j < length (sp_clauses t). Negated l \<notin> set (sp_clauses t ! j))) \<and>
      (\<forall>j < length (sp_clauses t). j \<noteq> k \<longrightarrow> apart k j t)) \<and>
    (\<not> ok \<longrightarrow> unsat (formula st))"
proof (cases "sp_clauses st ! k = []")
  case True
  then have "ok" "t = st" using assms(3) by (simp_all add: ProcessClauseToSimplifyOthers_def)
  then show ?thesis using assms(1) True by (simp add: apart_def)
next
  case ne: False
  let ?c = "sp_clauses st ! k"
  define lit where "lit = FindLiteralWithShortestOccurrenceList ?c st"
  have lit: "lit \<in> set ?c" unfolding lit_def by (rule FindLiteral_in[OF ne])
  obtain ok1 s where p1: "ProcessClauseToSimplifyOthersUsingLiteral k lit st = (ok1, s)" by fastforce
  note s1 = ProcessClauseToSimplifyOthersUsingLiteral_spec[OF assms(1,2) lit p1]
  show ?thesis
  proof (cases ok1)
    case False
    then show ?thesis using assms(3) ne p1 s1 by (simp add: ProcessClauseToSimplifyOthers_def Let_def lit_def[symmetric])
  next
    case True
    then have s: "valid s" "progress st s" "sp_clauses s ! k = ?c" using s1 by simp_all
    have k: "k < length (sp_clauses s)" using s(2) assms(2) by (simp add: progress_def keeps_def)
    have un: "unsat (formula s) \<Longrightarrow> unsat (formula st)" using s(2) unsat_reduces[of st s] by (simp add: progress_def)
    have len: "length (sp_clauses s) = length (sp_clauses st)" using s(2) by (simp add: progress_def keeps_def)
    have ap: "\<forall>j < length (sp_clauses t). j \<noteq> k \<longrightarrow> apart k j t" if "progress s t"
      using s1 True apart_progress[OF _ that, of k] k len that by (simp add: progress_def keeps_def)
    show ?thesis
    proof (cases "treat_negation k lit s = (ok, t)")
      case True
      note tn = treat_negation_spec[OF s(1) k _ True]
      have "(ok \<longrightarrow> valid t \<and> progress st t \<and> sp_clauses t ! k = ?c \<and>
        (?c = [lit] \<longrightarrow> (\<forall>j < length (sp_clauses t). Negated lit \<notin> set (sp_clauses t ! j)))) \<and> (\<not> ok \<longrightarrow> unsat (formula st))"
        using tn s(3) lit un progress_trans[OF s(2)] by simp
      moreover have "ok \<longrightarrow> (\<forall>j < length (sp_clauses t). j \<noteq> k \<longrightarrow> apart k j t)" using tn s(3) lit ap by simp
      moreover have "?c = [l] \<Longrightarrow> l = lit" for l using lit by simp
      ultimately show ?thesis by metis
    next
      case False
      then obtain other where o: "FindLiteralWithShortestOccurrenceListExcluding ?c lit s = Some other"
        "ProcessClauseToSimplifyOthersUsingLiteral k other s = (ok, t)"
        using assms(3) ne p1 \<open>ok1\<close> by (auto simp: ProcessClauseToSimplifyOthers_def Let_def lit_def[symmetric] split: option.splits if_splits)
      note oi = FindLiteralExcluding_in[OF o(1)]
      have "other \<in> set (sp_clauses s ! k)" using oi s(3) by simp
      note sp = ProcessClauseToSimplifyOthersUsingLiteral_spec[OF s(1) k this o(2)]
      have "?c \<noteq> [l]" for l using oi lit by auto
      then show ?thesis using sp s(3) un progress_trans[OF s(2)] ap by simp
    qed
  qed
qed

section \<open>All the clauses\<close>

definition pop_clause :: "nat \<Rightarrow> nat list \<Rightarrow> sat_presolver \<Rightarrow> sat_presolver" where
  "pop_clause ci queue st =
     st\<lparr> in_clause_to_process := (in_clause_to_process st)[ci := False], clause_to_process := queue \<rparr>"

lemma pop_clause_spec:
  assumes "valid st" "clause_to_process st = ci # queue"
  shows "valid (pop_clause ci queue st)" "keeps st (pop_clause ci queue st)" "ci < length (sp_clauses st)"
    "weight (pop_clause ci queue st) < weight st" "settled Q st \<Longrightarrow> settled (insert ci Q) (pop_clause ci queue st)"
    "problem (pop_clause ci queue st) = problem st"
proof -
  note v = validD[OF assms(1)]
  let ?t = "pop_clause ci queue st"
  show ci: "ci < length (sp_clauses st)" using v(1) assms(2) by (simp add: shape_def)
  have "shape ?t" using v(1) assms(2) ci by (auto simp: shape_def pop_clause_def nth_list_update)
  moreover have "var_queue_but {} ?t" "bva_queue_ok ?t"
    using v(3,4) var_queue_cong[of ?t st] bva_queue_cong[of ?t st] by (simp_all add: pop_clause_def)
  ultimately show "valid ?t" using v(2,5,6)
    by (simp add: valid_def valid_but_lits_def clauses_ok_def lists_ok_def sizes_ok_def pop_clause_def)
  show "keeps st ?t" by (simp add: keeps_def pop_clause_def inspected_def keeps_queues_def)
  show "weight ?t < weight st" using assms(2) by (simp add: weight_def total_literals_def pop_clause_def)
  show "settled Q st \<Longrightarrow> settled (insert ci Q) ?t"
    using assms(2) by (auto simp: settled_def units_done_def copies_done_def apart_def pop_clause_def)
  show "problem ?t = problem st" by (rule problem_cong) (simp_all add: pop_clause_def)
qed

text \<open>What the loop over the clauses to process ensures; without a limit reached it processes all of them.\<close>

definition processed :: "clock \<Rightarrow> sat_presolver \<Rightarrow> bool \<Rightarrow> sat_presolver \<Rightarrow> bool" where
  "processed clock st ok t \<longleftrightarrow>
     (ok \<longrightarrow> valid t \<and> keeps st t \<and> reduces (problem st) (problem t) \<and> settled {} t \<and>
        (clause_to_process t = [] \<or> work_limit_reached t \<or> (\<exists>n < limit_queries t. clock n))) \<and>
     (\<not> ok \<longrightarrow> unsat (formula st))"

lemma processed_step:
  assumes "keeps st s" "reduces (problem st) (problem s)" "processed clock s ok t"
  shows "processed clock st ok t"
  using assms keeps_trans[of st s t] reduces_trans[of "problem st" "problem s" "problem t"] unsat_reduces[OF assms(2)]
  unfolding processed_def by blast

lemma LimitReached_spec:
  assumes "valid st" "LimitReached clock st = (reached, t)"
  shows "valid t" "progress st t" "problem t = problem st" "weight t = weight st" "clause_to_process t = clause_to_process st"
    "sp_clauses t = sp_clauses st" "reached \<Longrightarrow> \<exists>n < limit_queries t. clock n" "same_core t st"
proof -
  have t: "t = st\<lparr> limit_queries := limit_queries st + 1 \<rparr>" "reached = clock (limit_queries st)"
    using assms(2) by (auto simp: LimitReached_def)
  show c: "same_core t st" by (simp add: t same_core_def)
  show "valid t" using assms(1) valid_same_core[OF c] by (simp add: valid_def)
  show "progress st t" by (rule progress_same_core[OF c]) (simp_all add: t inspected_def)
  show "problem t = problem st" by (rule problem_cong) (simp_all add: t)
  show "weight t = weight st" "clause_to_process t = clause_to_process st" "sp_clauses t = sp_clauses st"
    by (simp_all add: t weight_def total_literals_def)
  show "reached \<Longrightarrow> \<exists>n < limit_queries t. clock n" using t by auto
qed

lemma process_clauses_loop_spec:
  assumes "valid st" "settled {} st"
  shows "\<exists>ok t. process_clauses_loop clock n st = Some (ok, t) \<and> processed clock st ok t"
  using assms
proof (induction "weight st" arbitrary: st n rule: less_induct)
  case less
  show ?case
  proof (cases "clause_to_process st")
    case Nil
    then have "process_clauses_loop clock n st = Some (True, st)" by (subst process_clauses_loop.simps) simp
    then show ?thesis using Nil less.prems by (auto simp: processed_def)
  next
    case (Cons ci queue)
    let ?p = "pop_clause ci queue st"
    note p = pop_clause_spec[OF less.prems(1) Cons]
    obtain ok1 s where pc: "ProcessClauseToSimplifyOthers ci ?p = (ok1, s)" by fastforce
    have "ci < length (sp_clauses ?p)" using p(3) by (simp add: pop_clause_def)
    note sp = ProcessClauseToSimplifyOthers_spec[OF p(1) this pc]
    have fp: "formula ?p = formula st" by (rule formula_cong) (simp add: pop_clause_def)
    note loop = process_clauses_loop.simps[of clock n st, unfolded Cons list.case pop_clause_def[symmetric] pc Let_def prod.case]
    show ?thesis
    proof (cases ok1)
      case False
      then have "process_clauses_loop clock n st = Some (False, s)" "unsat (formula st)" using loop sp fp by simp_all
      then show ?thesis by (auto simp: processed_def)
    next
      case True
      then have s: "valid s" "progress ?p s"
        "\<And>l j. sp_clauses s ! ci = [l] \<Longrightarrow> j < length (sp_clauses s) \<Longrightarrow> Negated l \<notin> set (sp_clauses s ! j)"
        "\<And>j. j < length (sp_clauses s) \<Longrightarrow> j \<noteq> ci \<Longrightarrow> apart ci j s" using sp by auto
      have "settled {ci} s" using settled_progress[OF p(5)[OF less.prems(2)] s(2)] by simp
      then have us: "settled {} s" using s(3) copies_done_insert[OF _ s(4), of "{}"] unfolding settled_def units_done_def by blast
      have ks: "keeps st s" "reduces (problem st) (problem s)"
        using p(2,6) s(2) keeps_trans[OF p(2)] by (auto simp: progress_def)
      have ws: "weight s < weight st" using s(2) p(4) by (simp add: progress_def)
      show ?thesis
      proof (cases "n + 1 \<ge> 1000")
        case False
        then have "process_clauses_loop clock n st = process_clauses_loop clock (n + 1) s" using loop True by simp
        moreover obtain ok t where "process_clauses_loop clock (n + 1) s = Some (ok, t)" "processed clock s ok t"
          using less.hyps[OF ws s(1) us] by blast
        ultimately show ?thesis using processed_step[OF ks] by metis
      next
        case long: True
        obtain reached u where l: "LimitReached clock s = (reached, u)" by fastforce
        note lr = LimitReached_spec[OF s(1) l]
        have ku: "keeps st u" "reduces (problem st) (problem u)" "settled {} u"
          using lr(2,3) ks keeps_trans[OF ks(1)] settled_progress[OF us lr(2)] by (auto simp: progress_def)
        consider "work_limit_reached s" | "\<not> work_limit_reached s" reached | "\<not> work_limit_reached s" "\<not> reached" by blast
        then show ?thesis
        proof cases
          case 1
          then have "process_clauses_loop clock n st = Some (True, s)" using loop True long by simp
          then show ?thesis using 1 s(1) ks us by (auto simp: processed_def)
        next
          case 2
          then have "process_clauses_loop clock n st = Some (True, u)" using loop True long l by simp
          then show ?thesis using 2 lr ku by (auto simp: processed_def)
        next
          case 3
          then have "process_clauses_loop clock n st = process_clauses_loop clock 0 u" using loop True long l by simp
          moreover obtain ok t where "process_clauses_loop clock 0 u = Some (ok, t)" "processed clock u ok t"
            using less.hyps[OF _ lr(1) ku(3), of 0] lr(4) ws by auto
          ultimately show ?thesis using processed_step[OF ku(1,2)] by metis
        qed
      qed
    qed
  qed
qed

theorem ProcessAllClauses_spec:
  assumes "valid st" "settled {} st"
  shows "\<exists>ok t. ProcessAllClauses clock st = Some (ok, t) \<and> processed clock st ok t"
proof -
  let ?s = "st\<lparr> clause_to_process := sort_key (\<lambda>ci. length (sp_clauses st ! ci)) (clause_to_process st) \<rparr>"
  note v = validD[OF assms(1)]
  have "var_queue_but {} ?s" "bva_queue_ok ?s" using v(3,4) var_queue_cong[of ?s st] bva_queue_cong[of ?s st] by simp_all
  then have vs: "valid ?s" using v(1,2,5,6)
    by (simp add: valid_def valid_but_lits_def shape_def clauses_ok_def lists_ok_def sizes_ok_def)
  have us: "settled {} ?s" using assms(2) settled_cong[of ?s st] by simp
  have ks: "keeps st ?s" by (simp add: keeps_def inspected_def keeps_queues_def)
  have "problem ?s = problem st" by (rule problem_cong) simp_all
  then show ?thesis using process_clauses_loop_spec[OF vs us, of clock 0] processed_step[OF ks] by (auto simp: ProcessAllClauses_def)
qed

end
