(* ===== verification/SatEliminate.thy ===== *)
theory SatEliminate
  imports SatProcessAll
begin

text \<open>
  The elimination of a variable by resolution, \<open>CrossProduct\<close>: what it keeps, why the clauses that it deletes can
  be pushed for the postsolve, and that the variable is gone.
\<close>

section \<open>What the elimination of a variable keeps\<close>

definition literals :: "sat_presolver \<Rightarrow> literal set" where
  "literals st = (\<Union>c \<in> set (sp_clauses st). set c)"

lemma literalsI: "i < length (sp_clauses st) \<Longrightarrow> l \<in> set (sp_clauses st ! i) \<Longrightarrow> l \<in> literals st"
  by (auto simp: literals_def)

lemma literalsE: "l \<in> literals st \<Longrightarrow> (\<And>i. i < length (sp_clauses st) \<Longrightarrow> l \<in> set (sp_clauses st ! i) \<Longrightarrow> P) \<Longrightarrow> P"
  unfolding literals_def by (auto simp: in_set_conv_nth[of _ "sp_clauses st"])

text \<open>Clauses pushed with a literal of their own, of a variable of \<open>V\<close>, over known literals.\<close>

definition pushes :: "nat set \<Rightarrow> literal set \<Rightarrow> pushed \<Rightarrow> bool" where
  "pushes V L Q \<longleftrightarrow> (\<forall>(y, c) \<in> set Q. Variable y \<in> V \<and> y \<in> set c \<and> set c \<subseteq> L)"

lemma pushes_append [simp]: "pushes V L (Q @ R) \<longleftrightarrow> pushes V L Q \<and> pushes V L R"
  by (auto simp: pushes_def)

lemma pushes_Nil [simp]: "pushes V L []"
  by (simp add: pushes_def)

lemma pushes_mono: "pushes V L Q \<Longrightarrow> V \<subseteq> W \<Longrightarrow> L \<subseteq> M \<Longrightarrow> pushes W M Q"
  unfolding pushes_def by fast

definition eliminates :: "nat \<Rightarrow> sat_presolver \<Rightarrow> sat_presolver \<Rightarrow> bool" where
  "eliminates v st t \<longleftrightarrow>
     length (sp_clauses st) \<le> length (sp_clauses t) \<and>
     (\<forall>i < length (sp_clauses st). sp_clauses t ! i = sp_clauses st ! i \<or> sp_clauses t ! i = []) \<and>
     (\<forall>i < length (sp_clauses t). length (sp_clauses st) \<le> i \<longrightarrow> i \<in> set (clause_to_process t)) \<and>
     set (clause_to_process st) \<subseteq> set (clause_to_process t) \<and> literals t \<subseteq> literals st \<and>
     length (literal_to_clause_sizes t) = length (literal_to_clause_sizes st) \<and> parameters t = parameters st \<and>
     inspected t = inspected st \<and> limit_queries t = limit_queries st \<and> keeps_queues st t \<and>
     (\<exists>Q. postsolver_adds t = postsolver_adds st @ Q \<and> pushes {v} (literals st) Q) \<and>
     reduces (problem st) (problem t)"

lemma eliminates_refl [simp]: "eliminates v st st"
  by (simp add: eliminates_def)

lemma eliminates_trans:
  assumes "eliminates v s t" "eliminates v t u"
  shows "eliminates v s u"
proof -
  note a = assms[unfolded eliminates_def]
  have 1: "sp_clauses u ! i = sp_clauses s ! i \<or> sp_clauses u ! i = []" if "i < length (sp_clauses s)" for i
    using a that by (metis less_le_trans)
  have 2: "i \<in> set (clause_to_process u)" if "i < length (sp_clauses u)" "length (sp_clauses s) \<le> i" for i
    using a that by (cases "i < length (sp_clauses t)") (auto simp: not_less)
  obtain Q where Q: "postsolver_adds t = postsolver_adds s @ Q" "pushes {v} (literals s) Q" using a(1) by blast
  obtain R where R: "postsolver_adds u = postsolver_adds t @ R" "pushes {v} (literals t) R" using a(2) by blast
  have "pushes {v} (literals s) R" using R(2) a(1) pushes_mono by blast
  then have "\<exists>Q. postsolver_adds u = postsolver_adds s @ Q \<and> pushes {v} (literals s) Q"
    using Q R(1) by (intro exI[of _ "Q @ R"]) simp
  moreover have "keeps_queues s u" "reduces (problem s) (problem u)"
    using a keeps_queues_trans[of s t u] reduces_trans[of "problem s" "problem t" "problem u"] by blast+
  ultimately show ?thesis unfolding eliminates_def using a 1 2 by auto
qed

text \<open>The unit clauses that were processed still meet no negation.\<close>

lemma units_done_eliminates:
  assumes "units_done Q st" "eliminates v st t"
  shows "units_done Q t"
  unfolding units_done_def
proof (intro allI impI)
  note e = assms(2)[unfolded eliminates_def]
  fix i l j assume i: "i < length (sp_clauses t)" "i \<notin> set (clause_to_process t) \<and> i \<notin> Q" "sp_clauses t ! i = [l]"
    and j: "j < length (sp_clauses t)"
  have il: "i < length (sp_clauses st)" using e i by (meson not_le)
  have "sp_clauses st ! i = [l]" "i \<notin> set (clause_to_process st)" using e i il by auto
  then have n: "\<And>k. k < length (sp_clauses st) \<Longrightarrow> Negated l \<notin> set (sp_clauses st ! k)"
    using assms(1) i(2) il unfolding units_done_def by blast
  show "Negated l \<notin> set (sp_clauses t ! j)"
  proof
    assume "Negated l \<in> set (sp_clauses t ! j)"
    then have "Negated l \<in> literals st" using literalsI[OF j] e by blast
    then show False using n by (auto elim: literalsE)
  qed
qed

lemma settled_eliminates:
  assumes "settled Q st" "eliminates v st t"
  shows "settled Q t"
proof -
  note e = assms(2)[unfolded eliminates_def]
  have "apart i j t" if "i < length (sp_clauses t)" "j < length (sp_clauses t)" "i \<noteq> j" "i \<notin> Q" "j \<notin> Q" for i j
  proof (cases "i < length (sp_clauses st) \<and> j < length (sp_clauses st)")
    case True
    then have "apart i j st" using assms(1) that by (simp add: settled_def copies_done_def)
    moreover have "sp_clauses t ! i = sp_clauses st ! i \<or> sp_clauses t ! i = []" "sp_clauses t ! j = sp_clauses st ! j \<or> sp_clauses t ! j = []"
      using e True by blast+
    ultimately show ?thesis using e unfolding apart_def by auto
  next
    case False
    then show ?thesis using e that by (auto simp: apart_def not_less)
  qed
  then show ?thesis using units_done_eliminates[OF _ assms(2)] assms(1) by (simp add: settled_def copies_done_def)
qed

section \<open>A clause is pushed\<close>

lemma RemoveAndRegister_sel [simp]:
  "sp_clauses (RemoveAndRegisterForPostsolve i x st) = (sp_clauses st)[i := []]"
  "literal_to_clauses (RemoveAndRegisterForPostsolve i x st) = literal_to_clauses st"
  "clause_to_process (RemoveAndRegisterForPostsolve i x st) = clause_to_process st"
  "parameters (RemoveAndRegisterForPostsolve i x st) = parameters st"
  "postsolver_adds (RemoveAndRegisterForPostsolve i x st) = postsolver_adds st @ [(x, sp_clauses st ! i)]"
  "length (literal_to_clause_sizes (RemoveAndRegisterForPostsolve i x st)) = length (literal_to_clause_sizes st)"
  by (simp_all add: RemoveAndRegisterForPostsolve_def)

text \<open>The resolvents of a clause on a literal follow from the others.\<close>

definition may_push :: "literal \<Rightarrow> nat \<Rightarrow> sat_presolver \<Rightarrow> bool" where
  "may_push x i st \<longleftrightarrow> (\<forall>d \<in> formula st. Negated x \<in> set d \<longrightarrow> entails (others i st) (resolvent x (sp_clauses st ! i) d))"

lemma RemoveAndRegister_spec:
  assumes "valid st" "i < length (sp_clauses st)" "x \<in> set (sp_clauses st ! i)" "may_push x i st"
  shows "valid (RemoveAndRegisterForPostsolve i x st)" "eliminates (Variable x) st (RemoveAndRegisterForPostsolve i x st)"
    "total_literals (RemoveAndRegisterForPostsolve i x st) < total_literals st"
proof -
  let ?p = "st\<lparr> postsolver_adds := postsolver_adds st @ [(x, sp_clauses st ! i)] \<rparr>"
  let ?t = "RemoveAndRegisterForPostsolve i x st"
  have c: "same_core ?p st" by (simp add: same_core_def)
  have "valid ?p" using assms(1) valid_same_core[OF c] by (simp add: valid_def)
  then show "valid ?t" using valid_sp_Remove(1)[of "{}" ?p i] assms(2) by (simp add: valid_def RemoveAndRegisterForPostsolve_def)
  have ne: "sp_clauses st ! i \<noteq> []" using assms(3) by auto
  have f: "formula st = insert (sp_clauses st ! i) (others i st)" "formula ?t = others i st"
    using formula_update[OF assms(2) RemoveAndRegister_sel(1) ne] by simp_all
  have "reduce_step (problem st) (problem ?t)"
    unfolding problem_def f RemoveAndRegister_sel
    using assms(4) by (intro reduce_step.push assms(3)) (simp only: may_push_def f)
  then have r: "reduces (problem st) (problem ?t)" by (rule reduces_step)
  have "keeps_queues st ?p" by (rule keeps_queues_same) simp_all
  then have kq: "keeps_queues st ?t" unfolding RemoveAndRegisterForPostsolve_def by (rule keeps_queues_trans) (rule sp_Remove_keeps_queues)
  have lits: "literals ?t \<subseteq> literals st" unfolding literals_def
    by (auto dest: set_update_subset_insert[THEN subsetD])
  show "total_literals ?t < total_literals st"
  proof -
    have "0 < length (sp_clauses st ! i)" using ne by simp
    moreover have "total_literals ?t + length (sp_clauses st ! i) = total_literals st"
      using sum_list_length_update[OF assms(2), of "[]"] by (simp add: total_literals_def)
    ultimately show ?thesis by linarith
  qed
  have "inspected ?t = inspected st" "limit_queries ?t = limit_queries st"
    by (simp_all add: RemoveAndRegisterForPostsolve_def inspected_def)
  then show "eliminates (Variable x) st ?t" unfolding eliminates_def
    using r kq lits assms(2,3) literalsI[OF assms(2)] by (auto simp: nth_list_update pushes_def)
qed

section \<open>The test, with blocked clauses\<close>

lemma resolvents_size_True:
  "resolvents_size x w threshold c ds nr sz = Some (True, sz') \<Longrightarrow> nr \<and> (\<forall>d \<in> set ds. d \<noteq> [] \<longrightarrow> ComputeResolvantSize x c d < 0)"
  by (induction x w threshold c ds nr sz rule: resolvents_size.induct) (auto simp: Let_def split: if_splits)

lemma clash_entails: "clash x c d \<Longrightarrow> entails F (resolvent x c d)"
proof -
  assume "clash x c d"
  then obtain l where "l \<noteq> x" "l \<in> set c" "Negated l \<in> set d" by (auto simp: clash_def)
  then show ?thesis by (intro entails_tautology[of l]) (auto simp: resolvent_def)
qed

lemma blocked_may_push:
  assumes "valid st" "i < length (sp_clauses st)" "x \<in> set (sp_clauses st ! i)"
    "resolvents_size x w threshold (sp_clauses st ! i) (map (\<lambda>j. sp_clauses st ! j) (literal_to_clauses st ! Negated x)) nr sz = Some (True, sz')"
  shows "may_push x i st"
  unfolding may_push_def
proof (intro ballI impI)
  note v = validD[OF assms(1)]
  fix d assume d: "d \<in> formula st" "Negated x \<in> set d"
  then obtain j where j: "j < length (sp_clauses st)" "sp_clauses st ! j = d" by (auto simp: in_formula)
  have "Negated x < length (literal_to_clause_sizes st)" using clauses_okD(2)[OF v(2) j(1)] d(2) j(2) by blast
  then have "j \<in> set (literal_to_clauses st ! Negated x)" using occurs_listed[OF v(5) j(1)] j(2) d(2) by blast
  then have neg: "ComputeResolvantSize x (sp_clauses st ! i) d < 0" using resolvents_size_True[OF assms(4)] j(2) d(2) by force
  have g: "good_clause (sp_clauses st ! i)" "good_clause d" using clauses_okD(1)[OF v(2)] assms(2) j by auto
  have "ComputeResolvant x (sp_clauses st ! i) d = None"
    using ComputeResolvant_Some(3)[OF g assms(3) d(2)] neg by (cases "ComputeResolvant x (sp_clauses st ! i) d") auto
  then show "entails (others i st) (resolvent x (sp_clauses st ! i) d)"
    using ComputeResolvant_None_iff[OF g] clash_entails by blast
qed

lemma test_elimination_spec:
  assumes "valid st" "set todo \<subseteq> set (literal_to_clauses st ! x)" "x < length (literal_to_clause_sizes st)"
    "test_elimination x threshold todo sz st = (ok, t)"
  shows "valid t \<and> eliminates (Variable x) st t \<and> literal_to_clauses t = literal_to_clauses st \<and>
    length (sp_clauses t) = length (sp_clauses st) \<and> clause_to_process t = clause_to_process st \<and>
    (t = st \<or> total_literals t < total_literals st)"
  using assms
proof (induction todo arbitrary: sz st)
  case (Cons i todo)
  note v = validD[OF Cons.prems(1)]
  note lo = lists_okD[OF v(5)[OF Cons.prems(3)]]
  have i: "i < length (sp_clauses st)" "i \<in> set (literal_to_clauses st ! x)" using lo(2) Cons.prems(2) by auto
  show ?case
  proof (cases "sp_clauses st ! i = []")
    case True
    then show ?thesis using Cons.IH[OF Cons.prems(1) _ Cons.prems(3)] Cons.prems(2,4) by simp
  next
    case False
    have x: "x \<in> set (sp_clauses st ! i)" using lo(3)[OF i(1) False] i(2) by blast
    let ?r = "resolvents_size x (presolve_bve_clause_weight (parameters st)) threshold (sp_clauses st ! i)
                  (map (\<lambda>j. sp_clauses st ! j) (literal_to_clauses st ! Negated x)) True sz"
    show ?thesis
    proof (cases ?r)
      case None
      then show ?thesis using Cons.prems(1,4) False by simp
    next
      case (Some p)
      then obtain nr sz' where r: "?r = Some (nr, sz')" by (cases p) auto
      show ?thesis
      proof (cases "nr \<and> presolve_blocked_clause (parameters st)")
        case no: False
        then have "test_elimination x threshold todo sz' st = (ok, t)" using Cons.prems(4) False r no by (cases nr) simp_all
        then show ?thesis using Cons.IH[OF Cons.prems(1) _ Cons.prems(3)] Cons.prems(2) by simp
      next
        case True
        let ?s = "RemoveAndRegisterForPostsolve i x st"
        note rr = RemoveAndRegister_spec[OF Cons.prems(1) i(1) x blocked_may_push[OF Cons.prems(1) i(1) x]]
        have rr: "valid ?s" "eliminates (Variable x) st ?s" "total_literals ?s < total_literals st" using rr r True by auto
        have "test_elimination x threshold todo sz' ?s = (ok, t)" using Cons.prems(4) False r True by simp
        from Cons.IH[OF rr(1) _ _ this] Cons.prems(2,3) show ?thesis using eliminates_trans[OF rr(2)] rr(3) by auto
      qed
    qed
  qed
qed simp

section \<open>The resolvents are added\<close>

definition extends :: "literal \<Rightarrow> sat_presolver \<Rightarrow> sat_presolver \<Rightarrow> bool" where
  "extends x st t \<longleftrightarrow> valid t \<and> eliminates (Variable x) st t \<and>
     (\<exists>new. sp_clauses t = sp_clauses st @ new \<and> (\<forall>c \<in> set new. x \<notin> set c \<and> Negated x \<notin> set c \<and> c \<noteq> [])) \<and>
     literal_to_clauses t ! x = literal_to_clauses st ! x \<and>
     literal_to_clauses t ! Negated x = literal_to_clauses st ! Negated x"

lemma extends_refl: "valid st \<Longrightarrow> extends x st st"
  by (simp add: extends_def)

lemma extends_trans:
  assumes "extends x s t" "extends x t u"
  shows "extends x s u"
proof -
  obtain n where n: "sp_clauses t = sp_clauses s @ n" "\<forall>c \<in> set n. x \<notin> set c \<and> Negated x \<notin> set c \<and> c \<noteq> []"
    using assms(1) by (auto simp: extends_def)
  obtain m where m: "sp_clauses u = sp_clauses t @ m" "\<forall>c \<in> set m. x \<notin> set c \<and> Negated x \<notin> set c \<and> c \<noteq> []"
    using assms(2) by (auto simp: extends_def)
  have "sp_clauses u = sp_clauses s @ (n @ m)" "\<forall>c \<in> set (n @ m). x \<notin> set c \<and> Negated x \<notin> set c \<and> c \<noteq> []"
    using n m by auto
  then show ?thesis using assms eliminates_trans unfolding extends_def by metis
qed

lemma AddClauseInternal_keeps_queues: "keeps_queues st (AddClauseInternal c st)"
proof -
  let ?g = "\<lambda>s e. add_and_update (length (sp_clauses st)) e s"
  have "keeps_queues s (?g s e)" for s e
    unfolding add_and_update_def
    by (intro keeps_queues_trans[OF keeps_queues_trans[OF keeps_queues_same UpdatePriorityQueue_keeps_queues] UpdateBvaPriorityQueue_keeps_queues])
      simp_all
  then have "keeps_queues (push_clause c st) (AddClauseInternal c st)"
    unfolding AddClauseInternal_alt by (rule foldl_keeps_queues)
  moreover have "keeps_queues st (push_clause c st)" by (rule keeps_queues_same) simp_all
  ultimately show ?thesis using keeps_queues_trans by blast
qed

lemma extends_resolvent:
  assumes "valid st" "i < length (sp_clauses st)" "j < length (sp_clauses st)" "x \<in> set (sp_clauses st ! i)"
    "Negated x \<in> set (sp_clauses st ! j)" "ComputeResolvant x (sp_clauses st ! i) (sp_clauses st ! j) = Some c" "c \<noteq> []"
  shows "extends x st (AddClauseInternal c st)"
proof -
  note v = validD[OF assms(1)]
  let ?a = "sp_clauses st ! i" and ?b = "sp_clauses st ! j" and ?t = "AddClauseInternal c st"
  note g = clauses_okD(1)[OF v(2) assms(2)] clauses_okD(1)[OF v(2) assms(3)]
  note r = ComputeResolvant_Some[OF g assms(4,5,6)]
  have n: "Negated x \<notin> set ?a" "x \<notin> set ?b" using good_negation[OF g(1) assms(4)] good_negation[OF g(2) assms(5)] by auto
  have sub: "set c \<subseteq> {..<length (literal_to_clause_sizes st)}"
    using clauses_okD(2)[OF v(2) assms(2)] clauses_okD(2)[OF v(2) assms(3)] unfolding r(2) by auto
  note ad = valid_AddClauseInternal[OF assms(1) r(1) assms(7) sub]
  have f: "formula ?t = insert c (formula st)" using assms(7) by (auto simp: formula_def)
  have "?a \<in> formula st" "?b \<in> formula st" using assms(2-5) by (auto simp: in_formula)
  then have "entails (formula st) c" by (rule entails_resolvent[of _ _ _ x]) (auto simp: resolvent_def r(2))
  then have "reduce_step (problem st) (problem ?t)" unfolding problem_def f by (simp add: reduce_step.learn)
  then have red: "reduces (problem st) (problem ?t)" by (rule reduces_step)
  have "set c \<subseteq> literals st" using literalsI[OF assms(2)] literalsI[OF assms(3)] unfolding r(2) by auto
  then have lits: "literals ?t \<subseteq> literals st" by (auto simp: literals_def)
  have "length (literal_to_clause_sizes ?t) = length (literal_to_clause_sizes st)" using ad(2) by (simp add: clause_added_def)
  then have "eliminates (Variable x) st ?t" unfolding eliminates_def
    using red lits AddClauseInternal_keeps_queues by (auto simp: nth_append inspected_def less_Suc_eq)
  moreover have nx: "x \<notin> set c" "Negated x \<notin> set c" unfolding r(2) using n by auto
  moreover have "literal_to_clauses ?t ! x = literal_to_clauses st ! x" "literal_to_clauses ?t ! Negated x = literal_to_clauses st ! Negated x"
    using ad(2) nx by (simp_all add: clause_added_def)
  ultimately show ?thesis using ad(1) assms(7) by (simp add: extends_def)
qed

text \<open>Two unit clauses do not contradict each other.\<close>

definition no_contradiction :: "literal \<Rightarrow> sat_presolver \<Rightarrow> bool" where
  "no_contradiction x st \<longleftrightarrow> \<not> ([x] \<in> set (sp_clauses st) \<and> [Negated x] \<in> set (sp_clauses st))"

lemma resolvent_not_Nil:
  assumes "no_contradiction x st" "i < length (sp_clauses st)" "j < length (sp_clauses st)"
    "good_clause (sp_clauses st ! i)" "good_clause (sp_clauses st ! j)" "x \<in> set (sp_clauses st ! i)"
    "Negated x \<in> set (sp_clauses st ! j)" "ComputeResolvant x (sp_clauses st ! i) (sp_clauses st ! j) = Some c"
  shows "c \<noteq> []"
proof
  assume "c = []"
  then have "set (sp_clauses st ! i) \<subseteq> {x}" "set (sp_clauses st ! j) \<subseteq> {Negated x}"
    using ComputeResolvant_Some(2)[OF assms(4-8)] by auto
  then have "set (sp_clauses st ! i) = {x}" "set (sp_clauses st ! j) = {Negated x}" using assms(6,7) by auto
  moreover have "set c = {y} \<Longrightarrow> distinct c \<Longrightarrow> c = [y]" for c and y :: literal
    by (cases c) (auto simp: subset_singleton_iff)
  ultimately have "sp_clauses st ! i = [x]" "sp_clauses st ! j = [Negated x]" using assms(4,5) good_distinct by metis+
  then show False using assms(1,2,3) unfolding no_contradiction_def by (metis nth_mem)
qed

text \<open>The resolvent of two clauses of the original part is trivial or is there.\<close>

definition resolved_pair :: "literal \<Rightarrow> literal list \<Rightarrow> literal list \<Rightarrow> sat_presolver \<Rightarrow> bool" where
  "resolved_pair x c d st \<longleftrightarrow> (\<forall>r. ComputeResolvant x c d = Some r \<longrightarrow> r \<in> set (sp_clauses st))"

lemma resolved_pair_mono: "resolved_pair x c d s \<Longrightarrow> set (sp_clauses s) \<subseteq> set (sp_clauses t) \<Longrightarrow> resolved_pair x c d t"
  by (auto simp: resolved_pair_def)

lemma extends_clauses:
  assumes "extends x s t"
  shows "set (sp_clauses s) \<subseteq> set (sp_clauses t)" "i < length (sp_clauses s) \<Longrightarrow> sp_clauses t ! i = sp_clauses s ! i"
    "length (sp_clauses s) \<le> length (sp_clauses t)" "no_contradiction x s \<Longrightarrow> no_contradiction x t"
proof -
  obtain new where n: "sp_clauses t = sp_clauses s @ new" "\<forall>c \<in> set new. x \<notin> set c \<and> Negated x \<notin> set c"
    using assms by (auto simp: extends_def)
  have "[x] \<notin> set new" "[Negated x] \<notin> set new" using n(2) by force+
  then show "set (sp_clauses s) \<subseteq> set (sp_clauses t)" "i < length (sp_clauses s) \<Longrightarrow> sp_clauses t ! i = sp_clauses s ! i"
    "length (sp_clauses s) \<le> length (sp_clauses t)" "no_contradiction x s \<Longrightarrow> no_contradiction x t"
    using n(1) by (auto simp: nth_append no_contradiction_def)
qed

lemma add_resolvents_with_spec:
  assumes "valid st" "no_contradiction x st" "i < length (sp_clauses st)" "x \<in> set (sp_clauses st ! i)"
    "\<And>j. j \<in> set js \<Longrightarrow> j < length (sp_clauses st) \<and> (sp_clauses st ! j \<noteq> [] \<longrightarrow> Negated x \<in> set (sp_clauses st ! j))"
  defines "t \<equiv> add_resolvents_with x i js st"
  shows "extends x st t \<and> (\<forall>j \<in> set js. sp_clauses st ! j \<noteq> [] \<longrightarrow> resolved_pair x (sp_clauses st ! i) (sp_clauses st ! j) t)"
  using assms(1-5) unfolding t_def
proof (induction js arbitrary: st)
  case Nil
  then show ?case by (simp add: add_resolvents_with_def extends_refl)
next
  case (Cons j js)
  have j: "j < length (sp_clauses st)" "sp_clauses st ! j \<noteq> [] \<Longrightarrow> Negated x \<in> set (sp_clauses st ! j)" using Cons.prems(5) by auto
  let ?r = "ComputeResolvant x (sp_clauses st ! i) (sp_clauses st ! j)"
  let ?s = "if sp_clauses st ! j = [] then st else case ?r of None \<Rightarrow> st | Some c \<Rightarrow> AddClauseInternal c st"
  have un: "add_resolvents_with x i (j # js) st = add_resolvents_with x i js ?s" by (simp add: add_resolvents_with_def)
  have ex: "extends x st ?s \<and> (sp_clauses st ! j \<noteq> [] \<longrightarrow> resolved_pair x (sp_clauses st ! i) (sp_clauses st ! j) ?s)"
  proof (cases "sp_clauses st ! j = [] \<or> ?r = None")
    case True
    then show ?thesis using Cons.prems(1) by (auto simp: extends_refl resolved_pair_def)
  next
    case False
    then obtain c where c: "?r = Some c" by auto
    note g = clauses_okD(1)[OF validD(2)[OF Cons.prems(1)]]
    have "c \<noteq> []" using resolvent_not_Nil[OF Cons.prems(2,3) j(1) g[OF Cons.prems(3)] g[OF j(1)] Cons.prems(4) j(2) c] False by blast
    then show ?thesis using extends_resolvent[OF Cons.prems(1,3) j(1) Cons.prems(4) j(2) c] False c by (simp add: resolved_pair_def)
  qed
  then have e: "extends x st ?s" by blast
  note ec = extends_clauses[OF e]
  have vs: "valid ?s" using e unfolding extends_def by blast
  have in_prefix: "k < length (sp_clauses ?s) \<and> (sp_clauses ?s ! k \<noteq> [] \<longrightarrow> P (sp_clauses ?s ! k))"
    if "k < length (sp_clauses st) \<and> (sp_clauses st ! k \<noteq> [] \<longrightarrow> P (sp_clauses st ! k))" for k and P :: "literal list \<Rightarrow> bool"
    using that ec(2)[of k] ec(3) by auto
  have IH: "extends x ?s (add_resolvents_with x i js ?s) \<and>
      (\<forall>j \<in> set js. sp_clauses ?s ! j \<noteq> [] \<longrightarrow> resolved_pair x (sp_clauses ?s ! i) (sp_clauses ?s ! j) (add_resolvents_with x i js ?s))"
  proof (rule Cons.IH[OF vs ec(4)[OF Cons.prems(2)]])
    show "i < length (sp_clauses ?s)" "x \<in> set (sp_clauses ?s ! i)"
      using ec(2)[OF Cons.prems(3)] ec(3) Cons.prems(3,4) by auto
    show "j < length (sp_clauses ?s) \<and> (sp_clauses ?s ! j \<noteq> [] \<longrightarrow> Negated x \<in> set (sp_clauses ?s ! j))" if "j \<in> set js" for j
      using in_prefix[of j "\<lambda>c. Negated x \<in> set c"] Cons.prems(5)[of j] that by simp
  qed
  show ?case unfolding un
  proof (intro conjI ballI impI)
    show "extends x st (add_resolvents_with x i js ?s)" using extends_trans[OF e] IH by blast
    fix k assume k: "k \<in> set (j # js)" "sp_clauses st ! k \<noteq> []"
    have kl: "k < length (sp_clauses st)" using Cons.prems(5) k(1) by blast
    show "resolved_pair x (sp_clauses st ! i) (sp_clauses st ! k) (add_resolvents_with x i js ?s)"
    proof (cases "k = j")
      case True
      then show ?thesis using ex k(2) resolved_pair_mono extends_clauses(1) IH by blast
    next
      case False
      then show ?thesis using IH k kl ec(2)[OF kl] ec(2)[OF Cons.prems(3)] by auto
    qed
  qed
qed

lemma add_resolvents_loop:
  assumes "valid st" "no_contradiction x st" "\<And>i. i \<in> set is \<Longrightarrow> i < length (sp_clauses st) \<and> (sp_clauses st ! i \<noteq> [] \<longrightarrow> x \<in> set (sp_clauses st ! i))"
    "\<And>j. j \<in> set js \<Longrightarrow> j < length (sp_clauses st) \<and> (sp_clauses st ! j \<noteq> [] \<longrightarrow> Negated x \<in> set (sp_clauses st ! j))"
  defines "t \<equiv> foldl (\<lambda>s i. if sp_clauses s ! i = [] then s else add_resolvents_with x i js s) st is"
  shows "extends x st t \<and> (\<forall>i \<in> set is. \<forall>j \<in> set js. sp_clauses st ! i \<noteq> [] \<longrightarrow> sp_clauses st ! j \<noteq> [] \<longrightarrow>
    resolved_pair x (sp_clauses st ! i) (sp_clauses st ! j) t)"
  using assms(1-4) unfolding t_def
proof (induction "is" arbitrary: st)
  case Nil
  then show ?case by (simp add: extends_refl)
next
  case (Cons i "is")
  let ?f = "\<lambda>s i. if sp_clauses s ! i = [] then s else add_resolvents_with x i js s"
  let ?s = "?f st i"
  have i: "i < length (sp_clauses st)" "sp_clauses st ! i \<noteq> [] \<Longrightarrow> x \<in> set (sp_clauses st ! i)" using Cons.prems(3) by auto
  have ex: "extends x st ?s \<and> (\<forall>j \<in> set js. sp_clauses st ! i \<noteq> [] \<longrightarrow> sp_clauses st ! j \<noteq> [] \<longrightarrow>
      resolved_pair x (sp_clauses st ! i) (sp_clauses st ! j) ?s)"
  proof (cases "sp_clauses st ! i = []")
    case True
    then show ?thesis using Cons.prems(1) by (simp add: extends_refl)
  next
    case False
    then show ?thesis using add_resolvents_with_spec[OF Cons.prems(1,2) i(1) i(2) Cons.prems(4)] by simp
  qed
  then have e: "extends x st ?s" by blast
  note ec = extends_clauses[OF e]
  have vs: "valid ?s" using e unfolding extends_def by blast
  have in_prefix: "k < length (sp_clauses ?s) \<and> (sp_clauses ?s ! k \<noteq> [] \<longrightarrow> P (sp_clauses ?s ! k))"
    if "k < length (sp_clauses st) \<and> (sp_clauses st ! k \<noteq> [] \<longrightarrow> P (sp_clauses st ! k))" for k and P :: "literal list \<Rightarrow> bool"
    using that ec(2)[of k] ec(3) by auto
  have IH: "extends x ?s (foldl ?f ?s is) \<and> (\<forall>i \<in> set is. \<forall>j \<in> set js. sp_clauses ?s ! i \<noteq> [] \<longrightarrow> sp_clauses ?s ! j \<noteq> [] \<longrightarrow>
    resolved_pair x (sp_clauses ?s ! i) (sp_clauses ?s ! j) (foldl ?f ?s is))"
  proof (rule Cons.IH[OF vs ec(4)[OF Cons.prems(2)]])
    show "k < length (sp_clauses ?s) \<and> (sp_clauses ?s ! k \<noteq> [] \<longrightarrow> x \<in> set (sp_clauses ?s ! k))" if "k \<in> set is" for k
      using in_prefix[of k "\<lambda>c. x \<in> set c"] Cons.prems(3)[of k] that by simp
    show "k < length (sp_clauses ?s) \<and> (sp_clauses ?s ! k \<noteq> [] \<longrightarrow> Negated x \<in> set (sp_clauses ?s ! k))" if "k \<in> set js" for k
      using in_prefix[of k "\<lambda>c. Negated x \<in> set c"] Cons.prems(4)[of k] that by simp
  qed
  have un: "foldl ?f st (i # is) = foldl ?f ?s is" by simp
  show ?case unfolding un
  proof (intro conjI ballI impI)
    show "extends x st (foldl ?f ?s is)" using extends_trans[OF e] IH by blast
    fix k j assume k: "k \<in> set (i # is)" "sp_clauses st ! k \<noteq> []" "j \<in> set js" "sp_clauses st ! j \<noteq> []"
    have kl: "k < length (sp_clauses st)" "j < length (sp_clauses st)" using Cons.prems(3,4) k(1,3) by blast+
    show "resolved_pair x (sp_clauses st ! k) (sp_clauses st ! j) (foldl ?f ?s is)"
    proof (cases "k = i")
      case True
      then show ?thesis using ex k resolved_pair_mono extends_clauses(1) IH by blast
    next
      case False
      then have "k \<in> set is" using k(1) by simp
      from IH[THEN conjunct2, rule_format, OF this k(3), unfolded ec(2)[OF kl(1)] ec(2)[OF kl(2)], OF k(2,4)] show ?thesis .
    qed
  qed
qed

section \<open>The old clauses are pushed\<close>

text \<open>Every resolvent on \<open>x\<close> is trivial or there, and the others do not speak of the variable.\<close>

definition all_resolved :: "literal \<Rightarrow> sat_presolver \<Rightarrow> bool" where
  "all_resolved x st \<longleftrightarrow> (\<forall>c \<in> formula st. \<forall>d \<in> formula st. x \<in> set c \<longrightarrow> Negated x \<in> set d \<longrightarrow>
     (\<forall>r. ComputeResolvant x c d = Some r \<longrightarrow> r \<in> formula st))"

lemma good_formula:
  assumes "valid st" "c \<in> formula st"
  shows "good_clause c"
proof -
  obtain i where "i < length (sp_clauses st)" "sp_clauses st ! i = c" using assms(2) by (auto simp: in_formula)
  then show ?thesis using clauses_okD(1)[OF validD(2)[OF assms(1)]] by blast
qed

lemma all_resolved_may_push:
  assumes "valid st" "all_resolved x st" "i < length (sp_clauses st)" "x \<in> set (sp_clauses st ! i)"
  shows "may_push x i st"
  unfolding may_push_def
proof (intro ballI impI)
  fix d assume d: "d \<in> formula st" "Negated x \<in> set d"
  let ?c = "sp_clauses st ! i"
  have c: "?c \<in> formula st" using assms(3,4) by (auto simp: in_formula)
  note g = good_formula[OF assms(1) c] good_formula[OF assms(1) d(1)]
  show "entails (others i st) (resolvent x ?c d)"
  proof (cases "ComputeResolvant x ?c d")
    case None
    then show ?thesis using ComputeResolvant_None_iff[OF g] clash_entails by blast
  next
    case (Some r)
    note rs = ComputeResolvant_Some(2)[OF g assms(4) d(2) Some]
    have "r \<in> formula st" using assms(2,4) c d Some unfolding all_resolved_def by blast
    moreover have "x \<notin> set r" using rs good_negation[OF g(2) d(2)] by auto
    ultimately have "r \<in> others i st" using assms(4) by (auto simp: in_formula)
    then show ?thesis by (rule entails_superset) (auto simp: resolvent_def rs)
  qed
qed

lemma formula_mono: "sp_clauses t = (sp_clauses st)[i := []] \<Longrightarrow> formula t \<subseteq> formula st"
  unfolding formula_def by (auto dest: set_update_subset_insert[THEN subsetD])

lemma all_resolved_remove:
  assumes "valid st" "all_resolved x st" "i < length (sp_clauses st)" "x \<in> set (sp_clauses st ! i)" "sp_clauses t = (sp_clauses st)[i := []]"
  shows "all_resolved x t"
  unfolding all_resolved_def
proof (intro ballI allI impI)
  fix c d r assume a: "c \<in> formula t" "d \<in> formula t" "x \<in> set c" "Negated x \<in> set d" "ComputeResolvant x c d = Some r"
  have f: "c \<in> formula st" "d \<in> formula st" using a(1,2) formula_mono[OF assms(5)] by auto
  have r: "r \<in> formula st" using assms(2) f a(3-5) unfolding all_resolved_def by blast
  note g = good_formula[OF assms(1) f(1)] good_formula[OF assms(1) f(2)]
  have "x \<notin> set r" using ComputeResolvant_Some(2)[OF g a(3-5)] good_negation[OF g(2) a(4)] by auto
  then show "r \<in> formula t" using r assms(3,4,5) by (auto simp: in_formula nth_list_update)
qed

lemma remove_all_loop:
  assumes "valid st" "all_resolved x st" "set is \<subseteq> {..<length (sp_clauses st)}"
    "\<And>i. i \<in> set is \<Longrightarrow> sp_clauses st ! i \<noteq> [] \<Longrightarrow> x \<in> set (sp_clauses st ! i)"
  defines "t \<equiv> foldl (\<lambda>s i. if sp_clauses s ! i = [] then s else RemoveAndRegisterForPostsolve i x s) st is"
  shows "valid t \<and> eliminates (Variable x) st t \<and> length (sp_clauses t) = length (sp_clauses st) \<and>
    literal_to_clauses t = literal_to_clauses st \<and> (\<forall>i \<in> set is. sp_clauses t ! i = [])"
  using assms(1-4) unfolding t_def
proof (induction "is" arbitrary: st)
  case (Cons i "is")
  let ?f = "\<lambda>s i. if sp_clauses s ! i = [] then s else RemoveAndRegisterForPostsolve i x s"
  have i: "i < length (sp_clauses st)" using Cons.prems(3) by simp
  have step: "valid (?f st i) \<and> eliminates (Variable x) st (?f st i) \<and> all_resolved x (?f st i) \<and>
      sp_clauses (?f st i) = (sp_clauses st)[i := []] \<and> literal_to_clauses (?f st i) = literal_to_clauses st"
  proof (cases "sp_clauses st ! i = []")
    case True
    moreover have "(sp_clauses st)[i := []] = sp_clauses st" using True by (metis list_update_id)
    ultimately show ?thesis using Cons.prems(1,2) by simp
  next
    case False
    then have x: "x \<in> set (sp_clauses st ! i)" using Cons.prems(4) by simp
    note r = RemoveAndRegister_spec[OF Cons.prems(1) i x all_resolved_may_push[OF Cons.prems(1,2) i x]]
    show ?thesis using r(1,2) all_resolved_remove[OF Cons.prems(1,2) i x RemoveAndRegister_sel(1)] False by simp
  qed
  define s where "s = ?f st i"
  have s: "valid s" "eliminates (Variable x) st s" "all_resolved x s" "sp_clauses s = (sp_clauses st)[i := []]"
    "literal_to_clauses s = literal_to_clauses st" using step unfolding s_def by blast+
  have IH: "valid (foldl ?f s is) \<and> eliminates (Variable x) s (foldl ?f s is) \<and> length (sp_clauses (foldl ?f s is)) = length (sp_clauses s) \<and>
    literal_to_clauses (foldl ?f s is) = literal_to_clauses s \<and> (\<forall>i \<in> set is. sp_clauses (foldl ?f s is) ! i = [])"
    using Cons.prems(3,4) s(4) by (intro Cons.IH[OF s(1,3)]) (auto simp: nth_list_update split: if_splits)
  have "sp_clauses s ! i = []" using s(4) i by simp
  then have "sp_clauses (foldl ?f s is) ! i = []" using IH i s(4) unfolding eliminates_def by auto
  moreover have "foldl ?f st (i # is) = foldl ?f s is" by (simp add: s_def)
  ultimately show ?case using IH s eliminates_trans[OF s(2)] by simp
qed simp

lemma RemoveAllClauseContaining_spec:
  assumes "valid st" "all_resolved x st" "x < length (literal_to_clause_sizes st)"
  defines "t \<equiv> RemoveAllClauseContaining x True st"
  shows "valid t \<and> eliminates (Variable x) st t \<and> x \<notin> literals t"
proof -
  note v = validD[OF assms(1)]
  note lo = lists_okD[OF v(5)[OF assms(3)]]
  define u where "u = foldl (\<lambda>s i. if sp_clauses s ! i = [] then s else RemoveAndRegisterForPostsolve i x s) st (literal_to_clauses st ! x)"
  have u: "valid u" "eliminates (Variable x) st u" "length (sp_clauses u) = length (sp_clauses st)"
    "literal_to_clauses u = literal_to_clauses st" "\<And>i. i \<in> set (literal_to_clauses st ! x) \<Longrightarrow> sp_clauses u ! i = []"
    using remove_all_loop[OF assms(1,2), of "literal_to_clauses st ! x"] lo(2,3) unfolding u_def by auto
  note vu = validD[OF u(1)]
  have t: "t = u\<lparr> literal_to_clauses := (literal_to_clauses u)[x := []], literal_to_clause_sizes := (literal_to_clause_sizes u)[x := 0] \<rparr>"
    by (simp add: t_def u_def RemoveAllClauseContaining_def Let_def cong: if_cong)
  have xu: "x < length (literal_to_clause_sizes u)" using u(2) assms(3) by (simp add: eliminates_def)
  have gone: "x \<notin> set (sp_clauses u ! i)" if "i < length (sp_clauses u)" for i
  proof
    assume x: "x \<in> set (sp_clauses u ! i)"
    then have "i \<in> set (literal_to_clauses u ! x)" by (rule occurs_listed[OF vu(5)[OF xu] that])
    then have "sp_clauses u ! i = []" using u(4) by (intro u(5)) simp
    then show False using x by simp
  qed
  have noc: "occ_count x (sp_clauses u) = 0" using gone by (auto simp: occ_count_zero in_set_conv_nth[of _ "sp_clauses u"])
  then have sz: "literal_to_clause_sizes t = literal_to_clause_sizes u"
    using vu(6)[OF xu] by (simp add: t sizes_ok_def list_update_same_conv[OF xu])
  have sel: "sp_clauses t = sp_clauses u" "literal_to_clauses t = (literal_to_clauses u)[x := []]" by (simp_all add: t)
  have "var_queue_but {} t" "bva_queue_ok t"
    using vu(3,4) var_queue_cong[of t u] bva_queue_cong[of t u] sz by (simp_all add: t)
  moreover have "lists_ok e t" if e: "e < length (literal_to_clause_sizes u)" for e
    using vu(5)[OF e] gone xu shapeD(3)[OF vu(1)] unfolding lists_ok_def sel by (cases "e = x") auto
  moreover have "shape t" "clauses_ok t" using vu(1,2) sz by (simp_all add: shape_def clauses_ok_def t)
  ultimately have vt: "valid t" using vu(6) sz sel by (simp add: valid_def valid_but_lits_def sizes_ok_def)
  have "problem t = problem u" by (rule problem_cong) (simp_all add: t)
  moreover have "keeps_queues u t" by (rule keeps_queues_same) (simp_all add: t)
  ultimately have "eliminates (Variable x) u t" unfolding eliminates_def using sz
    by (simp add: t literals_def inspected_def)
  then have "eliminates (Variable x) st t" using eliminates_trans[OF u(2)] by blast
  moreover have "x \<notin> literals t" using gone sel(1) by (auto simp: literals_def in_set_conv_nth[of _ "sp_clauses u"])
  ultimately show ?thesis using vt by blast
qed

section \<open>The elimination of a variable\<close>

theorem CrossProduct_spec:
  assumes "valid st" "no_contradiction x st" "\<not> filter_sat_postsolve_clauses (parameters st)" "x < length (literal_to_clause_sizes st)"
    "CrossProduct x st = (ok, t)"
  shows "valid t" "eliminates (Variable x) st t"
    "ok \<Longrightarrow> (x \<in> literals st \<or> Negated x \<in> literals st) \<and> x \<notin> literals t \<and> Negated x \<notin> literals t"
    "\<not> ok \<Longrightarrow> clause_to_process t = clause_to_process st \<and> (t = st \<or> total_literals t < total_literals st)"
proof -
  note v = validD[OF assms(1)]
  let ?y = "if literal_to_clause_sizes st ! x < literal_to_clause_sizes st ! Negated x then Negated x else x"
  have nr: "Negated x < length (literal_to_clause_sizes st)" using assms(4) Negated_in_range[OF v(1)] by simp
  have yr: "?y < length (literal_to_clause_sizes st)" "Negated ?y < length (literal_to_clause_sizes st)" using assms(4) nr by simp_all
  have vy: "Variable ?y = Variable x" by simp
  have main: "valid t \<and> eliminates (Variable x) st t \<and>
    (ok \<longrightarrow> (x \<in> literals st \<or> Negated x \<in> literals st) \<and> x \<notin> literals t \<and> Negated x \<notin> literals t) \<and>
    (\<not> ok \<longrightarrow> clause_to_process t = clause_to_process st \<and> (t = st \<or> total_literals t < total_literals st))"
  proof (cases "literal_to_clause_sizes st ! x = 0 \<and> literal_to_clause_sizes st ! Negated x = 0 \<or>
      literal_to_clause_sizes st ! x > 1 \<and> literal_to_clause_sizes st ! Negated x > 1 \<and>
      wrap32 (literal_to_clause_sizes st ! x * literal_to_clause_sizes st ! Negated x) > presolve_bve_threshold (parameters st)")
    case True
    then have "(ok, t) = (False, st)" using assms(5) by (auto simp: CrossProduct_def Let_def split: if_splits)
    then show ?thesis using assms(1) by simp
  next
    case False
    obtain threshold ok1 u where te: "test_elimination ?y threshold (literal_to_clauses st ! ?y) 0 st = (ok1, u)"
      and res: "(ok, t) = (if \<not> ok1 then (False, u)
        else (True, RemoveAllClauseContaining (Negated ?y) True (RemoveAllClauseContaining ?y True (add_resolvents ?y u))))"
    proof -
      let ?th = "wrap32 (presolve_bve_clause_weight (parameters st) * int (length (live st (literal_to_clauses st ! x)) +
        length (live st (literal_to_clauses st ! Negated x)))) + sum_sizes st x + sum_sizes st (Negated x)"
      obtain ok1 u where te: "test_elimination ?y ?th (literal_to_clauses st ! ?y) 0 st = (ok1, u)" by fastforce
      have "(ok, t) = (if \<not> ok1 then (False, u)
        else (True, RemoveAllClauseContaining (Negated ?y) True (RemoveAllClauseContaining ?y True (add_resolvents ?y u))))"
        using assms(5) False te assms(3) unfolding CrossProduct_def Let_def by (simp split: if_split_asm)
      then show ?thesis using that te by blast
    qed
    note ts = test_elimination_spec[OF assms(1) subset_refl yr(1) te]
    show ?thesis
    proof (cases ok1)
      case False
      then show ?thesis using ts res vy by auto
    next
      case True
      have u: "valid u" "eliminates (Variable x) st u" "literal_to_clauses u = literal_to_clauses st" using ts vy by simp_all
      have lens: "length (literal_to_clause_sizes u) = length (literal_to_clause_sizes st)" using u(2) by (simp add: eliminates_def)
      note vu = validD[OF u(1)]
      have yu: "?y < length (literal_to_clause_sizes u)" "Negated ?y < length (literal_to_clause_sizes u)" using yr lens by simp_all
      note lp = lists_okD[OF vu(5)[OF yu(1)]]
      note ln = lists_okD[OF vu(5)[OF yu(2)]]
      have "set (sp_clauses u) \<subseteq> insert [] (set (sp_clauses st))"
      proof
        fix c assume "c \<in> set (sp_clauses u)"
        then obtain i where i: "i < length (sp_clauses u)" "sp_clauses u ! i = c" by (auto simp: in_set_conv_nth)
        then have "i < length (sp_clauses st)" using ts by simp
        then show "c \<in> insert [] (set (sp_clauses st))" using u(2) i unfolding eliminates_def by (metis insertCI nth_mem)
      qed
      then have nc: "no_contradiction ?y u" using assms(2) unfolding no_contradiction_def by auto
      let ?r = "add_resolvents ?y u"
      have "extends ?y u ?r \<and> (\<forall>i \<in> set (literal_to_clauses u ! ?y). \<forall>j \<in> set (literal_to_clauses u ! Negated ?y).
          sp_clauses u ! i \<noteq> [] \<longrightarrow> sp_clauses u ! j \<noteq> [] \<longrightarrow> resolved_pair ?y (sp_clauses u ! i) (sp_clauses u ! j) ?r)"
        unfolding add_resolvents_def
        by (rule add_resolvents_loop[OF u(1) nc]) (use lp(2,3) ln(2,3) in blast)+
      then have ex: "extends ?y u ?r"
        and pairs: "\<And>i j. i \<in> set (literal_to_clauses u ! ?y) \<Longrightarrow> j \<in> set (literal_to_clauses u ! Negated ?y) \<Longrightarrow>
          sp_clauses u ! i \<noteq> [] \<Longrightarrow> sp_clauses u ! j \<noteq> [] \<Longrightarrow> resolved_pair ?y (sp_clauses u ! i) (sp_clauses u ! j) ?r" by blast+
      obtain new where new: "sp_clauses ?r = sp_clauses u @ new" "\<And>c. c \<in> set new \<Longrightarrow> ?y \<notin> set c \<and> Negated ?y \<notin> set c \<and> c \<noteq> []"
        using ex unfolding extends_def by blast
      have vr: "valid ?r" "eliminates (Variable x) u ?r" using ex vy unfolding extends_def by simp_all
      have old: "\<exists>i. i < length (sp_clauses u) \<and> sp_clauses u ! i = c" if "c \<in> formula ?r" "?y \<in> set c \<or> Negated ?y \<in> set c" for c
        using that new unfolding formula_def by (metis (no_types, lifting) Un_iff in_set_conv_nth mem_Collect_eq set_append)
      have ar: "all_resolved ?y ?r" unfolding all_resolved_def
      proof (intro ballI allI impI)
        fix c d r assume a: "c \<in> formula ?r" "d \<in> formula ?r" "?y \<in> set c" "Negated ?y \<in> set d" "ComputeResolvant ?y c d = Some r"
        obtain i where i: "i < length (sp_clauses u)" "sp_clauses u ! i = c" using old[OF a(1)] a(3) by blast
        obtain j where j: "j < length (sp_clauses u)" "sp_clauses u ! j = d" using old[OF a(2)] a(4) by blast
        have "i \<in> set (literal_to_clauses u ! ?y)" "j \<in> set (literal_to_clauses u ! Negated ?y)"
          using occurs_listed[OF vu(5)[OF yu(1)] i(1)] occurs_listed[OF vu(5)[OF yu(2)] j(1)] i(2) j(2) a(3,4) by blast+
        moreover have "c \<noteq> []" "d \<noteq> []" using a(1,2) by (auto simp: formula_def)
        ultimately have "r \<in> set (sp_clauses ?r)" using pairs[of i j] i(2) j(2) a(5) unfolding resolved_pair_def by blast
        moreover have "r \<noteq> []"
          using resolvent_not_Nil[OF nc i(1) j(1)] clauses_okD(1)[OF vu(2)] i j a(3-5) by blast
        ultimately show "r \<in> formula ?r" by (simp add: formula_def)
      qed
      have lr: "length (literal_to_clause_sizes ?r) = length (literal_to_clause_sizes u)" using vr(2) by (simp add: eliminates_def)
      let ?p = "RemoveAllClauseContaining ?y True ?r"
      have p: "valid ?p" "eliminates (Variable x) ?r ?p" "?y \<notin> literals ?p"
        using RemoveAllClauseContaining_spec[OF vr(1) ar] yu(1) lr vy by simp_all
      have lenp: "length (literal_to_clause_sizes ?p) = length (literal_to_clause_sizes ?r)" using p(2) by (simp add: eliminates_def)
      have arn: "all_resolved (Negated ?y) ?p"
        using p(3) by (auto simp: all_resolved_def formula_def literals_def)
      have t: "ok" "t = RemoveAllClauseContaining (Negated ?y) True ?p" using res True by simp_all
      have q: "valid t" "eliminates (Variable x) ?p t" "Negated ?y \<notin> literals t"
        using RemoveAllClauseContaining_spec[OF p(1) arn] yu(2) lr lenp vy unfolding t(2) by simp_all
      have "literals t \<subseteq> literals ?p" using q(2) by (simp add: eliminates_def)
      then have gone: "?y \<notin> literals t" "Negated ?y \<notin> literals t" using p(3) q(3) by blast+
      have "occ_count x (sp_clauses st) \<noteq> 0 \<or> occ_count (Negated x) (sp_clauses st) \<noteq> 0"
        using \<open>\<not> (_ \<or> _)\<close> v(6)[OF assms(4)] v(6)[OF nr] by (auto simp: sizes_ok_def)
      then have "x \<in> literals st \<or> Negated x \<in> literals st" by (auto simp: occ_count_zero literals_def)
      moreover have "x \<notin> literals t \<and> Negated x \<notin> literals t" using gone by (auto split: if_splits)
      moreover have "eliminates (Variable x) st t"
        using eliminates_trans[OF u(2) eliminates_trans[OF vr(2) eliminates_trans[OF p(2) q(2)]]] .
      ultimately show ?thesis using t(1) q(1) by blast
    qed
  qed
  then show "valid t" "eliminates (Variable x) st t"
    "ok \<Longrightarrow> (x \<in> literals st \<or> Negated x \<in> literals st) \<and> x \<notin> literals t \<and> Negated x \<notin> literals t"
    "\<not> ok \<Longrightarrow> clause_to_process t = clause_to_process st \<and> (t = st \<or> total_literals t < total_literals st)" by blast+
qed

end
