(* ===== verification/SatBva.thy ===== *)
theory SatBva
  imports SatEliminate
begin

text \<open>
  The addition of variables: what the search finds, the clauses that it replaces, and why the loop ends.
\<close>

section \<open>Clauses without a copy\<close>

definition live_clauses :: "sat_presolver \<Rightarrow> literal list list" where
  "live_clauses st = filter (\<lambda>c. c \<noteq> []) (sp_clauses st)"

definition no_copies :: "sat_presolver \<Rightarrow> bool" where
  "no_copies st \<longleftrightarrow> distinct (live_clauses st)"

lemma formula_live: "formula st = set (live_clauses st)"
  by (auto simp: formula_def live_clauses_def)

lemma card_formula: "no_copies st \<Longrightarrow> card (formula st) = length (live_clauses st)"
  by (simp add: no_copies_def formula_live distinct_card)

lemma distinct_filter_iff:
  "distinct (filter P xs) \<longleftrightarrow> (\<forall>i < length xs. \<forall>j < length xs. i \<noteq> j \<longrightarrow> P (xs ! i) \<longrightarrow> xs ! i \<noteq> xs ! j)"
proof (induction xs)
  case (Cons x xs)
  have "(\<forall>i < length (x # xs). \<forall>j < length (x # xs). i \<noteq> j \<longrightarrow> P ((x # xs) ! i) \<longrightarrow> (x # xs) ! i \<noteq> (x # xs) ! j) \<longleftrightarrow>
    (P x \<longrightarrow> (\<forall>j < length xs. x \<noteq> xs ! j)) \<and>
    (\<forall>i < length xs. \<forall>j < length xs. i \<noteq> j \<longrightarrow> P (xs ! i) \<longrightarrow> xs ! i \<noteq> xs ! j)"
    by (auto simp: All_less_Suc2)
  moreover have "(\<forall>j < length xs. x \<noteq> xs ! j) \<longleftrightarrow> x \<notin> set xs" by (metis in_set_conv_nth)
  ultimately show ?case using Cons.IH by auto
qed simp

lemma no_copies_index:
  "no_copies st \<Longrightarrow> i < length (sp_clauses st) \<Longrightarrow> j < length (sp_clauses st) \<Longrightarrow> sp_clauses st ! i \<noteq> [] \<Longrightarrow>
    sp_clauses st ! i = sp_clauses st ! j \<Longrightarrow> i = j"
  unfolding no_copies_def live_clauses_def distinct_filter_iff by blast

lemma settled_no_copies: "settled {} st \<Longrightarrow> clause_to_process st = [] \<Longrightarrow> no_copies st"
  unfolding no_copies_def live_clauses_def distinct_filter_iff by (auto simp: settled_def copies_done_def apart_def)

section \<open>The search\<close>

text \<open>An entry \<open>(y, c)\<close> says that the clause \<open>c\<close> with \<open>y\<close> in place of \<open>l\<close> is there.\<close>

definition entry_ok :: "sat_presolver \<Rightarrow> literal \<Rightarrow> literal list \<Rightarrow> literal \<times> nat \<Rightarrow> bool" where
  "entry_ok st l m_lit = (\<lambda>(y, c). sp_clauses st ! c \<noteq> [] \<and> (\<exists>e \<in> set (sp_clauses st ! c). e \<noteq> l) \<and>
     y \<notin> set m_lit \<and> y \<notin> set (sp_clauses st ! c) \<and> variant l y (sp_clauses st ! c) \<in> set (sp_clauses st))"

definition p_ok :: "sat_presolver \<Rightarrow> literal \<Rightarrow> literal list \<Rightarrow> nat set \<Rightarrow> p_state \<Rightarrow> bool" where
  "p_ok st l m_lit C = (\<lambda>(flattened, lmax, max_size).
     distinct flattened \<and> snd ` set flattened \<subseteq> C \<and> (\<forall>e \<in> set flattened. entry_ok st l m_lit e) \<and>
     (case lmax of None \<Rightarrow> flattened = [] \<and> max_size = 0
      | Some lm \<Rightarrow> max_size = p_size flattened lm \<and> 0 < max_size))"

lemma p_size_snoc: "p_size (fl @ [(y, c)]) z = p_size fl z + of_bool (y = z)"
  by (simp add: p_size_def)

lemma p_size_nonneg: "0 \<le> p_size fl z"
  by (simp add: p_size_def)

definition add_entry :: "literal \<times> nat \<Rightarrow> p_state \<Rightarrow> p_state" where
  "add_entry = (\<lambda>(y, c) (flattened, lmax, max_size).
     let flattened' = flattened @ [(y, c)]; new_size = p_size flattened' y
     in if new_size > max_size then (flattened', Some y, new_size) else (flattened', lmax, max_size))"

lemma add_entry_ok:
  assumes "p_ok st l m_lit C p" "entry_ok st l m_lit (y, c)" "c \<in> C" "(y, c) \<notin> set (fst p)"
  shows "p_ok st l m_lit C (add_entry (y, c) p)" "set (fst (add_entry (y, c) p)) = insert (y, c) (set (fst p))"
proof -
  obtain fl lmax mx where p: "p = (fl, lmax, mx)" by (metis prod_cases3)
  show "set (fst (add_entry (y, c) p)) = insert (y, c) (set (fst p))" by (simp add: p add_entry_def Let_def)
  have s: "p_size (fl @ [(y, c)]) z = p_size fl z + of_bool (y = z)" for z by (rule p_size_snoc)
  show "p_ok st l m_lit C (add_entry (y, c) p)"
  proof (cases "p_size (fl @ [(y, c)]) y > mx")
    case True
    moreover have "0 < p_size (fl @ [(y, c)]) y" using s[of y] p_size_nonneg[of fl y] by simp
    ultimately show ?thesis using assms by (simp add: p add_entry_def Let_def p_ok_def split: option.splits)
  next
    case False
    then obtain lm where lm: "lmax = Some lm" using assms(1) p_size_nonneg[of fl y] s[of y] by (cases lmax) (auto simp: p p_ok_def)
    then have "y \<noteq> lm" using False assms(1) s[of y] by (auto simp: p p_ok_def)
    then show ?thesis using assms False lm s[of lm] by (simp add: p add_entry_def Let_def p_ok_def)
  qed
qed

lemma scan_candidates_Cons:
  "scan_candidates st l m_lit c (d # ds) p = scan_candidates st l m_lit c ds
     (if length (sp_clauses st ! c) \<noteq> length (sp_clauses st ! d) then p
      else case DifferAtGivenLiteral (sp_clauses st ! c) (sp_clauses st ! d) l of
             None \<Rightarrow> p
           | Some y \<Rightarrow> if y \<in> set m_lit then p else add_entry (y, c) p)"
  by (cases p) (simp add: add_entry_def Let_def split: option.splits)

lemma scan_candidates_spec:
  assumes "valid st" "no_copies st" "c < length (sp_clauses st)" "c \<in> C" "l \<in> set (sp_clauses st ! c)"
    "\<exists>e \<in> set (sp_clauses st ! c). e \<noteq> l" "p_ok st l m_lit C p" "distinct ds" "set ds \<subseteq> {..<length (sp_clauses st)}"
    "\<forall>d \<in> set ds. \<forall>y. (y, c) \<in> set (fst p) \<longrightarrow> sp_clauses st ! d \<noteq> variant l y (sp_clauses st ! c)"
  shows "p_ok st l m_lit C (scan_candidates st l m_lit c ds p) \<and>
    set (fst (scan_candidates st l m_lit c ds p)) \<subseteq> set (fst p) \<union> UNIV \<times> {c}"
  using assms(7-10)
proof (induction ds arbitrary: p)
  case (Cons d ds)
  let ?cl = "sp_clauses st ! c" and ?d = "sp_clauses st ! d"
  note g = clauses_okD(1)[OF validD(2)[OF assms(1)]]
  have d: "d < length (sp_clauses st)" "d \<notin> set ds" "distinct ds" using Cons.prems by auto
  consider (skip) "length ?cl \<noteq> length ?d \<or> DifferAtGivenLiteral ?cl ?d l = None \<or>
      (\<exists>y. DifferAtGivenLiteral ?cl ?d l = Some y \<and> y \<in> set m_lit)"
    | (add) y where "length ?cl = length ?d" "DifferAtGivenLiteral ?cl ?d l = Some y" "y \<notin> set m_lit" by fastforce
  then show ?case
  proof cases
    case skip
    then have "scan_candidates st l m_lit c (d # ds) p = scan_candidates st l m_lit c ds p"
      by (auto simp: scan_candidates_Cons)
    then show ?thesis using Cons.IH[OF Cons.prems(1) d(3)] Cons.prems(3,4) by simp
  next
    case (add y)
    have y: "y \<notin> set ?cl" "?d = variant l y ?cl"
      using DifferAtGivenLiteral_Some[OF g[OF assms(3)] g[OF d(1)] add(1) assms(5)] add(2) by blast+
    have "entry_ok st l m_lit (y, c)" using assms(5,6) add(3) y nth_mem[OF d(1)] by (auto simp: entry_ok_def)
    moreover have "(y, c) \<notin> set (fst p)" using Cons.prems(4) y(2) by auto
    ultimately have p: "p_ok st l m_lit C (add_entry (y, c) p)" "set (fst (add_entry (y, c) p)) = insert (y, c) (set (fst p))"
      using add_entry_ok[OF Cons.prems(1)] assms(4) by blast+
    have "set ?d \<noteq> {}" unfolding y(2) set_variant by simp
    then have ne: "?d \<noteq> []" by (metis list.set(1))
    have nd: "sp_clauses st ! d' \<noteq> variant l y ?cl" if "d' \<in> set ds" for d'
    proof
      assume "sp_clauses st ! d' = variant l y ?cl"
      then have "?d = sp_clauses st ! d'" by (simp only: y(2))
      moreover have "d' < length (sp_clauses st)" using that Cons.prems(3) by auto
      ultimately have "d = d'" using no_copies_index[OF assms(2) d(1) _ ne] by blast
      then show False using that d(2) by simp
    qed
    have "sp_clauses st ! d' \<noteq> variant l z ?cl" if "d' \<in> set ds" "(z, c) \<in> set (fst (add_entry (y, c) p))" for d' z
    proof (cases "(z, c) \<in> set (fst p)")
      case True
      then show ?thesis using Cons.prems(4) that(1) by (meson list.set_intros(2))
    next
      case False
      then have "z = y" using that(2) p(2) by simp
      then show ?thesis using nd[OF that(1)] by simp
    qed
    then have "\<forall>d' \<in> set ds. \<forall>z. (z, c) \<in> set (fst (add_entry (y, c) p)) \<longrightarrow> sp_clauses st ! d' \<noteq> variant l z ?cl" by blast
    moreover have "set ds \<subseteq> {..<length (sp_clauses st)}" using Cons.prems(3) by simp
    ultimately have IH: "p_ok st l m_lit C (scan_candidates st l m_lit c ds (add_entry (y, c) p))"
      "set (fst (scan_candidates st l m_lit c ds (add_entry (y, c) p))) \<subseteq> set (fst (add_entry (y, c) p)) \<union> UNIV \<times> {c}"
      using Cons.IH[OF p(1) d(3)] by blast+
    have "scan_candidates st l m_lit c (d # ds) p = scan_candidates st l m_lit c ds (add_entry (y, c) p)"
      using add by (simp add: scan_candidates_Cons)
    then show ?thesis using IH p(2) by auto
  qed
qed auto

lemma scan_clauses_spec:
  assumes "valid st" "no_copies st" "l < length (literal_to_clause_sizes st)" "p_ok st l m_lit C p" "distinct cs" "set cs \<subseteq> C"
    "C \<subseteq> {..<length (sp_clauses st)}" "\<forall>c \<in> C. sp_clauses st ! c \<noteq> [] \<longrightarrow> l \<in> set (sp_clauses st ! c)"
    "\<forall>e \<in> set (fst p). snd e \<notin> set cs"
  shows "p_ok st l m_lit C (scan_clauses st l m_lit cs p)"
  using assms(4-6,9)
proof (induction cs arbitrary: p)
  case (Cons c cs)
  note v = validD[OF assms(1)]
  let ?cl = "sp_clauses st ! c"
  have c: "c \<in> C" "c < length (sp_clauses st)" using Cons.prems(3) assms(7) by auto
  show ?case
  proof (cases "?cl = [] \<or> FindLiteralWithShortestOccurrenceListExcluding ?cl l st = None")
    case True
    then have "scan_clauses st l m_lit (c # cs) p = scan_clauses st l m_lit cs p" by auto
    then show ?thesis using Cons by simp
  next
    case False
    then obtain lm where lm: "FindLiteralWithShortestOccurrenceListExcluding ?cl l st = Some lm" by auto
    note f = FindLiteralExcluding_in[OF lm]
    have "lm < length (literal_to_clause_sizes st)" using clauses_okD(2)[OF v(2) c(2)] f(1) by blast
    note lo = lists_okD[OF v(5)[OF this]]
    have "l \<in> set ?cl" using assms(8) c(1) False by blast
    then have s: "p_ok st l m_lit C (scan_candidates st l m_lit c (literal_to_clauses st ! lm) p) \<and>
        set (fst (scan_candidates st l m_lit c (literal_to_clauses st ! lm) p)) \<subseteq> set (fst p) \<union> UNIV \<times> {c}"
      by (rule scan_candidates_spec[OF assms(1,2) c(2,1) _ _ Cons.prems(1) lo(1)]) (use f lo(2) Cons.prems(4) in force)+
    have "scan_clauses st l m_lit (c # cs) p = scan_clauses st l m_lit cs (scan_candidates st l m_lit c (literal_to_clauses st ! lm) p)"
      using False lm by simp
    then show ?thesis using Cons.IH[OF conjunct1[OF s]] s Cons.prems(2-4) by fastforce
  qed
qed simp

text \<open>What the search looks for.\<close>

definition bva_found :: "sat_presolver \<Rightarrow> literal \<Rightarrow> literal list \<Rightarrow> nat list \<Rightarrow> bool" where
  "bva_found st l m_lit m_cls \<longleftrightarrow>
     sorted_wrt (<) m_lit \<and> l \<in> set m_lit \<and> m_cls \<noteq> [] \<and> distinct m_cls \<and> set m_cls \<subseteq> {..<length (sp_clauses st)} \<and>
     (\<forall>c \<in> set m_cls. l \<in> set (sp_clauses st ! c) \<and> (\<exists>e \<in> set (sp_clauses st ! c). e \<noteq> l) \<and>
        (\<forall>y \<in> set m_lit - {l}. y \<notin> set (sp_clauses st ! c) \<and> variant l y (sp_clauses st ! c) \<in> set (sp_clauses st)))"

definition bva_reduction :: "literal list \<Rightarrow> nat list \<Rightarrow> int" where
  "bva_reduction m_lit m_cls = int (length m_lit) * int (length m_cls) - int (length m_cls) - int (length m_lit)"

lemma bva_search_spec:
  assumes "valid st" "no_copies st" "l < length (literal_to_clause_sizes st)"
    "distinct m_cls" "set m_cls \<subseteq> {..<length (sp_clauses st)}" "\<forall>c \<in> set m_cls. sp_clauses st ! c \<noteq> [] \<longrightarrow> l \<in> set (sp_clauses st ! c)"
    "m_lit = [l] \<and> reduction = 0 \<or> bva_found st l m_lit m_cls \<and> reduction = wrap32 (bva_reduction m_lit m_cls)"
    "bva_search st l n m_lit m_cls reduction = (ml, mc, r)"
  shows "r = 0 \<or> bva_found st l ml mc \<and> r = wrap32 (bva_reduction ml mc)"
  using assms(4-8)
proof (induction n arbitrary: m_lit m_cls reduction)
  case (Suc n)
  obtain fl lmax mx where sc: "scan_clauses st l m_lit m_cls ([], None, 0) = (fl, lmax, mx)" by (metis prod_cases3)
  have "p_ok st l m_lit (set m_cls) (scan_clauses st l m_lit m_cls ([], None, 0))"
    using Suc.prems(1-3) by (intro scan_clauses_spec[OF assms(1-3)]) (simp_all add: p_ok_def)
  then have p: "p_ok st l m_lit (set m_cls) (fl, lmax, mx)" unfolding sc .
  let ?red = "\<lambda>mx. wrap32 ((int (length m_lit) + 1) * mx - mx - (int (length m_lit) + 1))"
  show ?case
  proof (cases "lmax = None \<or> (\<exists>lm. lmax = Some lm \<and> ?red mx \<le> reduction)")
    case True
    then have "bva_search st l (Suc n) m_lit m_cls reduction = (m_lit, m_cls, reduction)" by (auto simp: sc Let_def)
    then show ?thesis using Suc.prems(4,5) by auto
  next
    case False
    then obtain lm where lm: "lmax = Some lm" "\<not> ?red mx \<le> reduction" by auto
    let ?ml = "insort lm m_lit" and ?mc = "map snd (filter (\<lambda>e. fst e = lm) fl)"
    have run: "bva_search st l n ?ml ?mc (?red mx) = (ml, mc, r)" using Suc.prems(5) lm by (simp add: sc Let_def)
    have fl: "distinct fl" "snd ` set fl \<subseteq> set m_cls" "\<And>y c. (y, c) \<in> set fl \<Longrightarrow> entry_ok st l m_lit (y, c)"
      "mx = p_size fl lm" "0 < mx" using p lm(1) by (auto simp: p_ok_def)
    have len: "int (length ?mc) = mx" using fl(4) by (simp add: p_size_def)
    have dmc: "distinct ?mc"
    proof -
      have "inj_on snd (set (filter (\<lambda>e. fst e = lm) fl))" by (auto simp: inj_on_def)
      then show ?thesis using fl(1) by (simp add: distinct_map)
    qed
    have mc: "c \<in> set m_cls" "entry_ok st l m_lit (lm, c)" if "c \<in> set ?mc" for c using that fl(2,3) by auto
    have mcne: "?mc \<noteq> []" using len fl(5) by (intro notI) simp
    then obtain c0 where "c0 \<in> set ?mc" by (meson last_in_set)
    then have lmn: "lm \<notin> set m_lit" using mc(2) by (auto simp: entry_ok_def)
    have sml: "sorted_wrt (<) m_lit" "l \<in> set m_lit" using Suc.prems(4) by (auto simp: bva_found_def)
    have "sorted_wrt (<) ?ml" using sml(1) lmn by (simp add: strict_sorted_iff sorted_insort distinct_insort)
    moreover have "set ?mc \<subseteq> {..<length (sp_clauses st)}" using mc(1) Suc.prems(2) by blast
    moreover have "l \<in> set (sp_clauses st ! c) \<and> (\<exists>e \<in> set (sp_clauses st ! c). e \<noteq> l) \<and>
        (\<forall>y \<in> set ?ml - {l}. y \<notin> set (sp_clauses st ! c) \<and> variant l y (sp_clauses st ! c) \<in> set (sp_clauses st))"
      if c: "c \<in> set ?mc" for c
    proof -
      note e = mc(2)[OF c, unfolded entry_ok_def, simplified]
      have "y \<notin> set (sp_clauses st ! c) \<and> variant l y (sp_clauses st ! c) \<in> set (sp_clauses st)" if "y \<in> set ?ml - {l}" for y
      proof (cases "y = lm")
        case False
        then have "y \<in> set m_lit - {l}" using that by (simp add: set_insort_key)
        then show ?thesis using Suc.prems(4) mc(1)[OF c] unfolding bva_found_def by force
      qed (use e in blast)
      moreover have "l \<in> set (sp_clauses st ! c)" using e Suc.prems(3) mc(1)[OF c] by blast
      ultimately show ?thesis using e by blast
    qed
    ultimately have found: "bva_found st l ?ml ?mc" using dmc sml(2) mcne by (simp only: bva_found_def set_insort_key) blast
    have red: "?red mx = wrap32 (bva_reduction ?ml ?mc)" unfolding bva_reduction_def len[symmetric] by (simp add: add.commute)
    have occ: "\<forall>c \<in> set ?mc. sp_clauses st ! c \<noteq> [] \<longrightarrow> l \<in> set (sp_clauses st ! c)" using mc(1) Suc.prems(3) by blast
    have sub: "set ?mc \<subseteq> {..<length (sp_clauses st)}" using mc(1) Suc.prems(2) by blast
    show ?thesis by (rule Suc.IH[OF dmc sub occ _ run]) (use found red in blast)
  qed
qed auto

end
