(* ===== verification/SatBvaStep.thy ===== *)
theory SatBvaStep
  imports SatBva
begin

text \<open>
  The replacement of what the search found: the new clauses, the removal of the old ones, and what is left.
\<close>

section \<open>The queue of the literals\<close>

text \<open>The queue of the variables is not in use, and the queue of the literals keeps its elements.\<close>

definition bva_kept :: "sat_presolver \<Rightarrow> sat_presolver \<Rightarrow> bool" where
  "bva_kept s t \<longleftrightarrow> (bva_queue_ok s \<and> var_weights s = [] \<longrightarrow>
     bva_queue_ok t \<and> var_weights t = [] \<and> mset (pq_elems (bva_pq t)) = mset (pq_elems (bva_pq s)) \<and>
     length (bva_weights t) = length (bva_weights s))"

lemma bva_kept_trans: "bva_kept s t \<Longrightarrow> bva_kept t u \<Longrightarrow> bva_kept s u"
  by (auto simp: bva_kept_def)

lemma bva_kept_refl [simp]: "bva_kept s s"
  by (simp add: bva_kept_def)

lemma bva_kept_same:
  "length (literal_to_clause_sizes t) = length (literal_to_clause_sizes s) \<Longrightarrow> bva_weights t = bva_weights s \<Longrightarrow>
   bva_pq t = bva_pq s \<Longrightarrow> var_weights t = var_weights s \<Longrightarrow> bva_kept s t"
  using bva_queue_cong[of t s] by (simp add: bva_kept_def)

lemma bva_kept_foldl: "(\<And>e s. bva_kept s (g s e)) \<Longrightarrow> bva_kept st (foldl g st es)"
proof (induction es arbitrary: st)
  case (Cons a es)
  then show ?case using bva_kept_trans[of st "g st a"] by simp
qed simp

lemma bva_kept_UpdatePriorityQueue: "bva_kept s (UpdatePriorityQueue v s)"
  by (simp add: bva_kept_def UpdatePriorityQueue_def)

lemma bva_kept_UpdateBvaPriorityQueue: "bva_kept s (UpdateBvaPriorityQueue l s)"
  unfolding bva_kept_def
proof (intro impI, elim conjE)
  assume s: "bva_queue_ok s" "var_weights s = []"
  have "mset (pq_elems (bva_pq (UpdateBvaPriorityQueue l s))) = mset (pq_elems (bva_pq s))"
  proof (cases "bva_weights s = [] \<or> \<not> pq_Contains l (bva_pq s)")
    case True
    then show ?thesis by (auto simp: UpdateBvaPriorityQueue_def Let_def)
  next
    case False
    let ?w = "(bva_weights s)[l := literal_to_clause_sizes s ! l]"
    have q: "queue_over bva_lower (bva_weights s) (bva_pq s)" using s(1) False by (simp add: bva_queue_ok_def)
    have l: "l \<in> set (pq_elems (bva_pq s))" using bva_queue.pq_Contains_over[OF q] False by blast
    have "valid_queue (bva_lower (bva_weights s)) (bva_pq s)" using q by (simp add: queue_over_def)
    then have "mset (pq_elems (NoteChangedPriority (bva_lower ?w) l (bva_pq s))) = mset (pq_elems (bva_pq s))"
      by (rule NoteChangedPriority_valid(2)[OF bva_order.strict_weak_order_axioms bva_order.strict_weak_order_axioms _ l])
        (rule bva_queue.local_update)
    then show ?thesis using False by (simp add: UpdateBvaPriorityQueue_def Let_def)
  qed
  moreover have "length (bva_weights (UpdateBvaPriorityQueue l s)) = length (bva_weights s)"
    by (simp add: UpdateBvaPriorityQueue_def Let_def)
  ultimately show "bva_queue_ok (UpdateBvaPriorityQueue l s) \<and> var_weights (UpdateBvaPriorityQueue l s) = [] \<and>
      mset (pq_elems (bva_pq (UpdateBvaPriorityQueue l s))) = mset (pq_elems (bva_pq s)) \<and>
      length (bva_weights (UpdateBvaPriorityQueue l s)) = length (bva_weights s)"
    using UpdateBvaPriorityQueue_ok[OF s(1)] s(2) by simp
qed

lemma bva_kept_AddClauseInternal: "bva_kept st (AddClauseInternal c st)"
proof -
  have "bva_kept s (add_and_update ci e s)" for ci e s
    unfolding add_and_update_def
    by (rule bva_kept_trans[OF bva_kept_trans[OF bva_kept_same bva_kept_UpdatePriorityQueue] bva_kept_UpdateBvaPriorityQueue]) simp_all
  then have "bva_kept (push_clause c st) (AddClauseInternal c st)" unfolding AddClauseInternal_alt by (rule bva_kept_foldl)
  moreover have "bva_kept st (push_clause c st)" by (rule bva_kept_same) simp_all
  ultimately show ?thesis by (rule bva_kept_trans[rotated])
qed

lemma bva_kept_sp_Remove: "bva_kept st (sp_Remove ci st)"
proof -
  let ?s = "st\<lparr> num_deleted_literals := num_deleted_literals st + int (length (sp_clauses st ! ci)), signatures := (signatures st)[ci := 0] \<rparr>"
  let ?t = "foldl (\<lambda>s e. remove_occurrence e s) ?s (sp_clauses st ! ci)"
  have "bva_kept s (remove_occurrence e s)" for e s
    unfolding remove_occurrence_def
    by (rule bva_kept_trans[OF bva_kept_trans[OF bva_kept_trans[OF bva_kept_same bva_kept_UpdatePriorityQueue]
          bva_kept_UpdateBvaPriorityQueue] bva_kept_UpdateBvaPriorityQueue]) simp_all
  then have "bva_kept ?s ?t" by (rule bva_kept_foldl)
  moreover have "bva_kept st ?s" by (rule bva_kept_same) simp_all
  moreover have "bva_kept ?t (sp_Remove ci st)" by (rule bva_kept_same) (simp_all add: sp_Remove_def Let_def)
  ultimately show ?thesis using bva_kept_trans by blast
qed

section \<open>The new clauses\<close>

definition add_all :: "literal list list \<Rightarrow> sat_presolver \<Rightarrow> sat_presolver" where
  "add_all cs st = foldl (\<lambda>s c. AddClauseInternal c s) st cs"

text \<open>What the replacement keeps.\<close>

definition bva_frame :: "sat_presolver \<Rightarrow> sat_presolver \<Rightarrow> bool" where
  "bva_frame st t \<longleftrightarrow> valid t \<and> bva_kept st t \<and> length (literal_to_clause_sizes t) = length (literal_to_clause_sizes st) \<and>
     parameters t = parameters st \<and> postsolver_adds t = postsolver_adds st \<and> limit_queries t = limit_queries st"

lemma bva_frame_refl: "valid st \<Longrightarrow> bva_frame st st"
  by (simp add: bva_frame_def)

lemma bva_frame_trans: "bva_frame s t \<Longrightarrow> bva_frame t u \<Longrightarrow> bva_frame s u"
  unfolding bva_frame_def using bva_kept_trans[of s t u] by auto

lemma bva_frame_sp_Remove: "valid st \<Longrightarrow> ci < length (sp_clauses st) \<Longrightarrow> bva_frame st (sp_Remove ci st)"
  using valid_sp_Remove(1)[of "{}" st ci] bva_kept_sp_Remove by (simp add: bva_frame_def valid_def)

lemma add_all_spec:
  assumes "valid st" "\<And>c. c \<in> set cs \<Longrightarrow> good_clause c \<and> c \<noteq> [] \<and> set c \<subseteq> {..<length (literal_to_clause_sizes st)}"
  shows "bva_frame st (add_all cs st) \<and> sp_clauses (add_all cs st) = sp_clauses st @ cs"
  using assms
proof (induction cs arbitrary: st)
  case Nil
  then show ?case by (simp add: add_all_def bva_frame_refl)
next
  case (Cons c cs)
  let ?s = "AddClauseInternal c st"
  have c: "good_clause c" "c \<noteq> []" "set c \<subseteq> {..<length (literal_to_clause_sizes st)}" using Cons.prems(2)[of c] by simp_all
  note a = valid_AddClauseInternal[OF Cons.prems(1) c]
  have f: "bva_frame st ?s" using a bva_kept_AddClauseInternal by (simp add: bva_frame_def clause_added_def)
  then have "bva_frame ?s (add_all cs ?s) \<and> sp_clauses (add_all cs ?s) = sp_clauses ?s @ cs"
    using Cons.prems(2) by (intro Cons.IH[OF a(1)]) (simp add: bva_frame_def)
  moreover have "add_all (c # cs) st = add_all cs ?s" by (simp add: add_all_def)
  ultimately show ?case using bva_frame_trans[OF f] by simp
qed

lemma add_all_append: "add_all (cs @ ds) st = add_all ds (add_all cs st)"
  by (simp add: add_all_def)

lemma added_clause_funs: "add_pair_clause x = (\<lambda>s lit. AddClauseInternal [lit, x] s)"
  "add_replaced_clause l x = (\<lambda>s ci. AddClauseInternal (replace_literal l x (sp_clauses s ! ci)) s)"
  by (simp_all add: add_pair_clause_def add_replaced_clause_def fun_eq_iff)

lemma add_replaced:
  "set m_cls \<subseteq> {..<length (sp_clauses st)} \<Longrightarrow>
    foldl (\<lambda>s ci. AddClauseInternal (replace_literal l x (sp_clauses s ! ci)) s) st m_cls =
    add_all (map (\<lambda>ci. replace_literal l x (sp_clauses st ! ci)) m_cls) st"
proof (induction m_cls arbitrary: st)
  case (Cons c m_cls)
  let ?s = "AddClauseInternal (replace_literal l x (sp_clauses st ! c)) st"
  have m: "map (\<lambda>ci. replace_literal l x (sp_clauses ?s ! ci)) m_cls = map (\<lambda>ci. replace_literal l x (sp_clauses st ! ci)) m_cls"
    using Cons.prems by (auto simp: nth_append)
  have "set m_cls \<subseteq> {..<length (sp_clauses ?s)}" using Cons.prems by auto
  from Cons.IH[OF this] show ?case unfolding m by (simp add: add_all_def)
qed (simp add: add_all_def)

lemma replace_literal_spec:
  assumes "good_clause c" "l \<in> set c" "x \<notin> set c" "Negated x \<notin> set c"
  shows "set (replace_literal l x c) = insert x (set c - {l})" "good_clause (replace_literal l x c)"
proof -
  obtain a b where ab: "c = a @ l # b" "l \<notin> set a" using split_list_first[OF assms(2)] by blast
  have r: "replace_literal l x c = sort (a @ x # b)" using ab by (simp add: replace_literal_def takeWhile_append dropWhile_append)
  have d: "distinct (a @ l # b)" using good_distinct[OF assms(1)] ab(1) by simp
  show s: "set (replace_literal l x c) = insert x (set c - {l})" using d unfolding r unfolding ab(1) by auto
  have "distinct (a @ x # b)" using d assms(3) ab by auto
  then have "sorted_wrt (<) (replace_literal l x c)" by (simp add: r strict_sorted_iff)
  moreover have "Negated e \<notin> set (replace_literal l x c)" if "e \<in> set (replace_literal l x c)" for e
    using that good_negation[OF assms(1), of e] assms(3,4) unfolding s by (metis DiffD1 Negated_Negated Negated_neq(1) insert_iff)
  ultimately show "good_clause (replace_literal l x c)" by (simp add: good_clause_def)
qed

section \<open>The removal of the old clauses\<close>

definition erase :: "formula \<Rightarrow> literal list list \<Rightarrow> literal list list" where
  "erase V cls = map (\<lambda>c. if c \<in> V then [] else c) cls"

lemma length_erase [simp]: "length (erase V cls) = length cls"
  by (simp add: erase_def)

lemma erase_erase: "erase V (erase W cls) = erase (V \<union> W) cls"
  by (auto simp: erase_def)

lemma erase_absent: "V \<inter> set cls = {} \<Longrightarrow> erase V cls = cls"
  by (auto simp: erase_def intro!: map_idI)

lemma live_erase: "filter (\<lambda>c. c \<noteq> []) (erase V cls) = filter (\<lambda>c. c \<notin> V) (filter (\<lambda>c. c \<noteq> []) cls)"
  by (induction cls) (auto simp: erase_def)

lemma no_copies_erase:
  assumes "no_copies s" "sp_clauses t = erase V (sp_clauses s)"
  shows "no_copies t" "length (live_clauses t) \<le> length (live_clauses s)"
  using assms distinct_filter[of "live_clauses s" "\<lambda>c. c \<notin> V"] length_filter_le[of "\<lambda>c. c \<notin> V" "live_clauses s"]
  by (simp_all only: no_copies_def live_clauses_def live_erase)

lemma sp_Remove_erase:
  assumes "no_copies s" "d < length (sp_clauses s)" "sp_clauses s ! d \<noteq> []"
  shows "sp_clauses (sp_Remove d s) = erase {sp_clauses s ! d} (sp_clauses s)"
proof (rule nth_equalityI)
  fix i assume i: "i < length (sp_clauses (sp_Remove d s))"
  then have "i = d" if "sp_clauses s ! i = sp_clauses s ! d"
    using no_copies_index[OF assms(1,2) _ assms(3), of i] that by simp
  then show "sp_clauses (sp_Remove d s) ! i = erase {sp_clauses s ! d} (sp_clauses s) ! i"
    using i by (cases "i = d") (auto simp: erase_def nth_list_update)
qed simp

lemma variant_nonempty: "variant l y c \<noteq> []"
proof
  assume "variant l y c = []"
  then have "set (variant l y c) = {}" by simp
  then show False by simp
qed

lemma differ_iff:
  assumes "good_clause c" "good_clause d" "l \<in> set c" "y \<notin> set c"
  shows "length c = length d \<and> DifferAtGivenLiteral c d l = Some y \<longleftrightarrow> d = variant l y c"
proof
  assume "d = variant l y c"
  then have "length d = card (insert y (set c - {l}))" using good_distinct[OF assms(2)] by (metis distinct_card set_variant)
  also have "\<dots> = card (set c)" using assms(3,4) card_Suc_Diff1[OF finite_set assms(3)] by simp
  also have "\<dots> = length c" by (rule distinct_card[OF good_distinct[OF assms(1)]])
  finally show "length c = length d \<and> DifferAtGivenLiteral c d l = Some y"
    using DifferAtGivenLiteral_Some[OF assms(1,2) _ assms(3)] assms(4) \<open>d = variant l y c\<close> by simp
qed (use DifferAtGivenLiteral_Some[OF assms(1,2) _ assms(3)] in blast)

lemma remove_variant_cases:
  assumes "valid s" "good_clause clause" "l \<in> set clause" "y \<notin> set clause" "set ds \<subseteq> {..<length (sp_clauses s)}"
  shows "remove_variant clause l y ds s = s \<and> (\<forall>d \<in> set ds. sp_clauses s ! d \<noteq> variant l y clause) \<or>
    (\<exists>d \<in> set ds. remove_variant clause l y ds s = sp_Remove d s \<and> sp_clauses s ! d = variant l y clause)"
  using assms(5)
proof (induction ds)
  case (Cons d ds)
  have "good_clause (sp_clauses s ! d)" using clauses_okD(1)[OF validD(2)[OF assms(1)]] Cons.prems by simp
  note m = differ_iff[OF assms(2) this assms(3,4)]
  show ?case
  proof (cases "sp_clauses s ! d = variant l y clause")
    case True
    then have "remove_variant clause l y (d # ds) s = sp_Remove d s" using m by simp
    then show ?thesis using True by auto
  next
    case False
    then have "remove_variant clause l y (d # ds) s = remove_variant clause l y ds s" using m by auto
    then show ?thesis using Cons False by auto
  qed
qed simp

lemma remove_variant_spec:
  assumes "valid s" "no_copies s" "good_clause clause" "l \<in> set clause" "y \<notin> set clause" "lm \<in> set clause" "lm \<noteq> l"
  defines "t \<equiv> remove_variant clause l y (literal_to_clauses s ! lm) s"
  assumes "lm < length (literal_to_clause_sizes s)"
  shows "bva_frame s t \<and> sp_clauses t = erase {variant l y clause} (sp_clauses s)"
proof -
  note v = validD[OF assms(1)]
  note lo = v(5)[OF assms(9)]
  have sub: "set (literal_to_clauses s ! lm) \<subseteq> {..<length (sp_clauses s)}" using lists_okD(2)[OF lo] by auto
  consider (none) "t = s" "\<forall>d \<in> set (literal_to_clauses s ! lm). sp_clauses s ! d \<noteq> variant l y clause"
    | (some) d where "d \<in> set (literal_to_clauses s ! lm)" "t = sp_Remove d s" "sp_clauses s ! d = variant l y clause"
    using remove_variant_cases[OF assms(1,3,4,5) sub] unfolding t_def by blast
  then show ?thesis
  proof cases
    case none
    have "variant l y clause \<notin> set (sp_clauses s)"
    proof
      assume "variant l y clause \<in> set (sp_clauses s)"
      then obtain i where i: "i < length (sp_clauses s)" "sp_clauses s ! i = variant l y clause" by (auto simp: in_set_conv_nth[of _ "sp_clauses s"])
      then have "lm \<in> set (sp_clauses s ! i)" using assms(6,7) by simp
      then show False using occurs_listed[OF lo i(1)] i(2) none(2) by blast
    qed
    then show ?thesis using none(1) bva_frame_refl[OF assms(1)] by (simp add: erase_absent)
  next
    case some
    have d: "d < length (sp_clauses s)" using some(1) sub by auto
    have "sp_clauses s ! d \<noteq> []" unfolding some(3) by (rule variant_nonempty)
    then show ?thesis using sp_Remove_erase[OF assms(2) d] bva_frame_sp_Remove[OF assms(1) d] unfolding some(2,3) by simp
  qed
qed

lemma remove_variants_spec:
  assumes "valid s" "no_copies s" "good_clause clause" "l \<in> set clause" "\<forall>y \<in> set lits - {l}. y \<notin> set clause"
    "lm \<in> set clause" "lm \<noteq> l" "lm < length (literal_to_clause_sizes s)"
  shows "\<exists>t. remove_variants clause l (Some lm) lits s = Some t \<and> bva_frame s t \<and>
    sp_clauses t = erase ((\<lambda>y. variant l y clause) ` (set lits - {l})) (sp_clauses s)"
  using assms(1,2,5,8)
proof (induction lits arbitrary: s)
  case Nil
  then show ?case by (simp add: bva_frame_refl erase_absent)
next
  case (Cons y lits)
  show ?case
  proof (cases "y = l")
    case True
    then show ?thesis using Cons.IH[OF Cons.prems(1,2) _ Cons.prems(4)] Cons.prems(3) by simp
  next
    case False
    let ?u = "remove_variant clause l y (literal_to_clauses s ! lm) s"
    have u: "bva_frame s ?u" "sp_clauses ?u = erase {variant l y clause} (sp_clauses s)"
      using remove_variant_spec[OF Cons.prems(1,2) assms(3,4) _ assms(6,7) Cons.prems(4)] Cons.prems(3) False by simp_all
    have "valid ?u" "lm < length (literal_to_clause_sizes ?u)" using u(1) Cons.prems(4) by (simp_all add: bva_frame_def)
    then obtain t where t: "remove_variants clause l (Some lm) lits ?u = Some t" "bva_frame ?u t"
      "sp_clauses t = erase ((\<lambda>y. variant l y clause) ` (set lits - {l})) (sp_clauses ?u)"
      using Cons.IH[OF _ no_copies_erase(1)[OF Cons.prems(2) u(2)]] Cons.prems(3) by auto
    have "(\<lambda>y. variant l y clause) ` (set lits - {l}) \<union> {variant l y clause} = (\<lambda>y. variant l y clause) ` (set (y # lits) - {l})"
      using False by auto
    then show ?thesis using t False u(2) bva_frame_trans[OF u(1)] by (simp add: erase_erase)
  qed
qed

lemma FindLiteralExcluding_exists:
  assumes "e \<in> set clause" "e \<noteq> l" "literal_to_clause_sizes st ! e < kint32max"
  shows "\<exists>lm. FindLiteralWithShortestOccurrenceListExcluding clause l st = Some lm"
proof -
  let ?f = "\<lambda>(result, num_occurrences) m.
             if m = l then (result, num_occurrences)
             else if literal_to_clause_sizes st ! m < num_occurrences then (Some m, literal_to_clause_sizes st ! m)
             else (result, num_occurrences)"
  have some: "fst (foldl ?f (Some r, k) ls) \<noteq> None" for r k ls
    by (induction ls arbitrary: r k) auto
  have "fst (foldl ?f (None, kint32max) ls) \<noteq> None" if "e \<in> set ls" for ls
    using that
  proof (induction ls)
    case (Cons m ls)
    show ?case
    proof (cases "m = l \<or> \<not> literal_to_clause_sizes st ! m < kint32max")
      case True
      then have "e \<in> set ls" "?f (None, kint32max) m = (None, kint32max)" using Cons.prems assms(2,3) by auto
      then show ?thesis using Cons.IH by simp
    next
      case False
      then show ?thesis using some by simp
    qed
  qed simp
  from this[OF assms(1)] show ?thesis by (simp add: FindLiteralWithShortestOccurrenceListExcluding_def)
qed

lemma size_le_live:
  assumes "valid s" "e < length (literal_to_clause_sizes s)"
  shows "literal_to_clause_sizes s ! e \<le> int (length (live_clauses s))"
proof -
  have "length (filter (\<lambda>c. e \<in> set c) cls) \<le> length (filter (\<lambda>c. c \<noteq> []) cls)" for cls by (induction cls) auto
  from this[of "sp_clauses s"] show ?thesis using validD(6)[OF assms] by (simp add: sizes_ok_def occ_count_def live_clauses_def)
qed

lemma delete_old_clauses_spec:
  assumes "valid s" "no_copies s" "int (length (live_clauses s)) < kint32max" "distinct m_cls" "set m_cls \<subseteq> {..<length (sp_clauses s)}"
    "l \<in> set M"
    "\<And>c. c \<in> set m_cls \<Longrightarrow> l \<in> set (sp_clauses s ! c) \<and> (\<exists>e \<in> set (sp_clauses s ! c). e \<noteq> l) \<and> (\<forall>y \<in> set M - {l}. y \<notin> set (sp_clauses s ! c))"
  shows "\<exists>t. delete_old_clauses l M m_cls s = Some t \<and> bva_frame s t \<and>
    sp_clauses t = erase (\<Union>c \<in> set m_cls. (\<lambda>y. variant l y (sp_clauses s ! c)) ` set M) (sp_clauses s)"
  using assms(1-5,7)
proof (induction m_cls arbitrary: s)
  case Nil
  then show ?case by (simp add: bva_frame_refl erase_absent)
next
  case (Cons c m_cls)
  let ?c = "sp_clauses s ! c"
  have c: "c < length (sp_clauses s)" "c \<notin> set m_cls" "distinct m_cls" using Cons.prems(4,5) by auto
  have lc: "l \<in> set ?c" "\<forall>y \<in> set M - {l}. y \<notin> set ?c" using Cons.prems(6)[of c] by simp_all
  obtain e where e: "e \<in> set ?c" "e \<noteq> l" using Cons.prems(6)[of c] by auto
  note cok = clauses_okD[OF validD(2)[OF Cons.prems(1)] c(1)]
  have "literal_to_clause_sizes s ! e < kint32max" using size_le_live[OF Cons.prems(1) cok(2)[OF e(1)]] Cons.prems(3) by simp
  then obtain lm where lm: "FindLiteralWithShortestOccurrenceListExcluding ?c l s = Some lm"
    using FindLiteralExcluding_exists[OF e] by blast
  note f = FindLiteralExcluding_in[OF lm]
  obtain u where u: "remove_variants ?c l (Some lm) M s = Some u" "bva_frame s u"
    "sp_clauses u = erase ((\<lambda>y. variant l y ?c) ` (set M - {l})) (sp_clauses s)"
    using remove_variants_spec[OF Cons.prems(1,2) cok(1) lc f cok(2)[OF f(1)]] by blast
  have no_l: "c' \<notin> (\<lambda>y. variant l y ?c) ` (set M - {l})" if "l \<in> set c'" for c'
  proof
    assume "c' \<in> (\<lambda>y. variant l y ?c) ` (set M - {l})"
    then obtain y where "y \<noteq> l" "c' = variant l y ?c" by auto
    then show False using that by simp
  qed
  have uc: "sp_clauses u ! c = ?c" using no_l[OF lc(1)] c(1) by (simp add: u(3) erase_def)
  have vu: "valid u" using u(2) by (simp add: bva_frame_def)
  note nu = no_copies_erase[OF Cons.prems(2) u(3)]
  have cu: "c < length (sp_clauses u)" "sp_clauses u ! c \<noteq> []" using c(1) u(3) uc lc(1) by auto
  let ?t = "sp_Remove c u" and ?W = "(\<lambda>y. variant l y ?c) ` set M"
  have W: "{?c} \<union> (\<lambda>y. variant l y ?c) ` (set M - {l}) = ?W" using variant_self[OF cok(1) lc(1)] assms(6) by force
  have t: "sp_clauses ?t = erase ?W (sp_clauses s)"
    unfolding sp_Remove_erase[OF nu(1) cu] uc unfolding u(3) erase_erase W ..
  note nt = no_copies_erase[OF Cons.prems(2) t]
  have ft: "bva_frame s ?t" using bva_frame_trans[OF u(2) bva_frame_sp_Remove[OF vu cu(1)]] .
  have same: "sp_clauses ?t ! c' = sp_clauses s ! c'" if "c' \<in> set m_cls" for c'
  proof -
    have l: "l \<in> set (sp_clauses s ! c')" using Cons.prems(6)[of c'] that by simp
    have c': "c' < length (sp_clauses s)" "c' \<noteq> c" using that Cons.prems(5) c(2) by auto
    have "sp_clauses s ! c' \<noteq> ?c"
    proof
      assume eq: "sp_clauses s ! c' = ?c"
      have "?c \<noteq> []" using lc(1) by force
      then have "c = c'" by (rule no_copies_index[OF Cons.prems(2) c(1) c'(1) _ eq[symmetric]])
      then show False using c'(2) by simp
    qed
    then have "sp_clauses s ! c' \<notin> ?W" using no_l[OF l] unfolding W[symmetric] by blast
    then show ?thesis unfolding t using c'(1) by (simp add: erase_def)
  qed
  have U: "(\<Union>c \<in> set m_cls. (\<lambda>y. variant l y (sp_clauses ?t ! c)) ` set M) \<union> ?W =
      (\<Union>c \<in> set (c # m_cls). (\<lambda>y. variant l y (sp_clauses s ! c)) ` set M)"
  proof -
    have "(\<Union>c \<in> set m_cls. (\<lambda>y. variant l y (sp_clauses ?t ! c)) ` set M) = (\<Union>c \<in> set m_cls. (\<lambda>y. variant l y (sp_clauses s ! c)) ` set M)"
      by (rule SUP_cong) (simp_all only: same)
    then show ?thesis by (simp only: list.set UN_insert Un_commute)
  qed
  have "\<exists>r. delete_old_clauses l M m_cls ?t = Some r \<and> bva_frame ?t r \<and>
    sp_clauses r = erase (\<Union>c \<in> set m_cls. (\<lambda>y. variant l y (sp_clauses ?t ! c)) ` set M) (sp_clauses ?t)"
  proof (rule Cons.IH[OF _ nt(1) _ c(3)])
    show "valid ?t" using ft by (simp add: bva_frame_def)
    show "int (length (live_clauses ?t)) < kint32max" using nt(2) Cons.prems(3) by linarith
    show "set m_cls \<subseteq> {..<length (sp_clauses ?t)}" using Cons.prems(5) t by simp
  qed (use same Cons.prems(6) in simp)
  then obtain r where r: "delete_old_clauses l M m_cls ?t = Some r" "bva_frame ?t r"
    "sp_clauses r = erase (\<Union>c \<in> set m_cls. (\<lambda>y. variant l y (sp_clauses ?t ! c)) ` set M) (sp_clauses ?t)" by blast
  have "sp_clauses r = erase (\<Union>c \<in> set (c # m_cls). (\<lambda>y. variant l y (sp_clauses s ! c)) ` set M) (sp_clauses s)"
    unfolding r(3) unfolding t erase_erase U[unfolded t] ..
  then show ?case using r(1) u(1) lm bva_frame_trans[OF ft r(2)] by simp
qed

section \<open>A new variable\<close>

lemma add_bva_variable_spec:
  assumes "valid st" "var_weights st = []" "bva_weights st \<noteq> []"
  defines "t \<equiv> add_bva_variable st"
  shows "valid t" "sp_clauses t = sp_clauses st" "length (literal_to_clause_sizes t) = length (literal_to_clause_sizes st) + 2"
    "var_weights t = []" "bva_pq t = bva_pq st" "length (bva_weights t) = length (literal_to_clause_sizes st) + 2"
    "parameters t = parameters st" "postsolver_adds t = postsolver_adds st" "limit_queries t = limit_queries st"
proof -
  note v = validD[OF assms(1)]
  let ?n = "length (literal_to_clause_sizes st)"
  have lw: "length (bva_weights st) = ?n" and q: "queue_over bva_lower (bva_weights st) (bva_pq st)"
    using v(4) assms(3) by (simp_all add: bva_queue_ok_def)
  have lc: "length (literal_to_clauses st) = ?n" using shapeD(3)[OF v(1)] .
  have w: "bva_weights t = bva_weights st @ [0, 0]"
    using lw lc by (simp add: t_def add_bva_variable_def resize_list_def numeral_2_eq_2)
  show sel: "sp_clauses t = sp_clauses st" "length (literal_to_clause_sizes t) = ?n + 2" "var_weights t = []" "bva_pq t = bva_pq st"
    "length (bva_weights t) = ?n + 2" "parameters t = parameters st" "postsolver_adds t = postsolver_adds st"
    "limit_queries t = limit_queries st" using assms(2) lw w by (simp_all add: t_def add_bva_variable_def)
  have sel2: "signatures t = signatures st" "in_clause_to_process t = in_clause_to_process st" "clause_to_process t = clause_to_process st"
    "literal_to_clauses t = literal_to_clauses st @ [[], []]" "literal_to_clause_sizes t = literal_to_clause_sizes st @ [0, 0]"
    by (simp_all add: t_def add_bva_variable_def)
  have "valid_queue (bva_lower (bva_weights t)) (bva_pq st)"
  proof (rule valid_queue_cong)
    show "valid_queue (bva_lower (bva_weights st)) (bva_pq st)" using q by (simp add: queue_over_def)
    fix a b assume "a \<in> set (pq_elems (bva_pq st))" "b \<in> set (pq_elems (bva_pq st))"
    then have "a < length (bva_weights st)" "b < length (bva_weights st)" using q by (auto simp: queue_over_def)
    then show "bva_lower (bva_weights t) a b = bva_lower (bva_weights st) a b" by (simp add: bva_lower_def w nth_append)
  qed
  then have "bva_queue_ok t" using q sel lw by (auto simp: bva_queue_ok_def queue_over_def)
  moreover have "var_queue_but {} t" using sel(3) by (simp add: var_queue_but_def)
  moreover have "shape t" using v(1) sel sel2 by (simp add: shape_def)
  moreover have "clauses_ok t" using clauses_okD[OF v(2)] sel(1,2) sel2(1) unfolding clauses_ok_def by fastforce
  moreover have "lists_ok e t \<and> sizes_ok e t" if e: "e < ?n + 2" for e
  proof (cases "e < ?n")
    case True
    then show ?thesis using v(5,6)[OF True] sel(1) sel2 lc by (simp add: lists_ok_def sizes_ok_def nth_append)
  next
    case False
    then have ee: "e = ?n \<or> e = Suc ?n" using e by auto
    then have no: "e \<notin> set (sp_clauses st ! i)" if "i < length (sp_clauses st)" for i
      using clauses_okD(2)[OF v(2) that, of e] by auto
    then have "occ_count e (sp_clauses st) = 0" by (auto simp: occ_count_zero in_set_conv_nth[of _ "sp_clauses st"])
    moreover have "literal_to_clauses t ! e = []" "literal_to_clause_sizes t ! e = 0" using ee lc sel2 by (auto simp: nth_append)
    ultimately show ?thesis using no sel(1) by (simp add: lists_ok_def sizes_ok_def)
  qed
  ultimately show "valid t" using sel(2) by (simp add: valid_def valid_but_lits_def)
qed

lemma AddToBvaPriorityQueue_spec:
  assumes "valid s" "var_weights s = []" "l < length (literal_to_clause_sizes s)" "l \<notin> set (pq_elems (bva_pq s))"
  defines "t \<equiv> AddToBvaPriorityQueue l s"
  shows "valid t" "var_weights t = []" "set (pq_elems (bva_pq t)) \<subseteq> insert l (set (pq_elems (bva_pq s)))"
    "sp_clauses t = sp_clauses s" "literal_to_clause_sizes t = literal_to_clause_sizes s"
    "parameters t = parameters s" "postsolver_adds t = postsolver_adds s" "limit_queries t = limit_queries s"
    "bva_weights s \<noteq> [] \<Longrightarrow> bva_weights t \<noteq> []"
proof -
  note v = validD[OF assms(1)]
  show sel: "var_weights t = []" "sp_clauses t = sp_clauses s" "literal_to_clause_sizes t = literal_to_clause_sizes s"
    "parameters t = parameters s" "postsolver_adds t = postsolver_adds s" "limit_queries t = limit_queries s"
    "bva_weights s \<noteq> [] \<Longrightarrow> bva_weights t \<noteq> []"
    using assms(2) by (simp_all add: t_def AddToBvaPriorityQueue_def Let_def)
  have sel2: "signatures t = signatures s" "in_clause_to_process t = in_clause_to_process s" "clause_to_process t = clause_to_process s"
    "literal_to_clauses t = literal_to_clauses s" by (simp_all add: t_def AddToBvaPriorityQueue_def Let_def)
  have q: "bva_queue_ok t \<and> set (pq_elems (bva_pq t)) \<subseteq> insert l (set (pq_elems (bva_pq s)))"
  proof (cases "bva_weights s = []")
    case True
    then show ?thesis using v(4) by (auto simp: t_def AddToBvaPriorityQueue_def)
  next
    case False
    let ?w = "(bva_weights s)[l := literal_to_clause_sizes s ! l]"
    have b: "length (bva_weights s) = length (literal_to_clause_sizes s)" "queue_over bva_lower (bva_weights s) (bva_pq s)"
      using v(4) False by (simp_all add: bva_queue_ok_def)
    have lw: "l < length (bva_weights s)" using b(1) assms(3) by simp
    note a = bva_queue.pq_Add_over[OF b(2) assms(4) lw, of "literal_to_clause_sizes s ! l"]
    note o = bva_queue.changed_other[OF b(2) assms(4), of "literal_to_clause_sizes s ! l"]
    have "set (pq_elems (pq_Add (bva_lower ?w) l (bva_pq s))) = insert l (set (pq_elems (bva_pq s)))"
      using arg_cong[OF a(2), of set_mset] by simp
    then show ?thesis using a(1) o b(1) False by (auto simp: t_def AddToBvaPriorityQueue_def Let_def bva_queue_ok_def)
  qed
  then show "set (pq_elems (bva_pq t)) \<subseteq> insert l (set (pq_elems (bva_pq s)))" by blast
  show "valid t" using v(1,2,5,6) q sel sel2
    by (simp add: valid_def valid_but_lits_def shape_def clauses_ok_def lists_ok_def sizes_ok_def var_queue_but_def)
qed

end
