(* ===== verification/SatBvaLoop.thy ===== *)
theory SatBvaLoop
  imports SatBvaStep
begin

text \<open>
  One addition of a variable as a step of the abstract presolve, and the loop over the literals, which ends since
  each addition leaves fewer clauses.
\<close>

section \<open>The replaced clauses\<close>

definition variants :: "literal \<Rightarrow> literal list \<Rightarrow> formula \<Rightarrow> formula" where
  "variants l M C = (\<Union>c \<in> C. (\<lambda>y. variant l y c) ` set M)"

definition added_clauses :: "literal \<Rightarrow> literal \<Rightarrow> literal list \<Rightarrow> literal list list \<Rightarrow> literal list list" where
  "added_clauses l x M C = map (\<lambda>y. [y, x]) M @ map (replace_literal l (Negated x)) C"

text \<open>A set of clauses of which all variants are there.\<close>

definition complete_block :: "literal \<Rightarrow> literal list \<Rightarrow> formula \<Rightarrow> formula \<Rightarrow> bool" where
  "complete_block l M C F \<longleftrightarrow> l \<in> set M \<and> C \<subseteq> F \<and>
     (\<forall>c \<in> C. good_clause c \<and> l \<in> set c \<and> (\<forall>y \<in> set M - {l}. y \<notin> set c \<and> variant l y c \<in> F))"

lemma variants_subset: "complete_block l M C F \<Longrightarrow> variants l M C \<subseteq> F"
proof
  fix d assume b: "complete_block l M C F" and "d \<in> variants l M C"
  then obtain c y where c: "c \<in> C" "y \<in> set M" "d = variant l y c" by (auto simp: variants_def)
  then show "d \<in> F" using b variant_self[of c l] unfolding complete_block_def by (cases "y = l") auto
qed

lemma inj_variants:
  assumes "complete_block l M C F"
  shows "inj_on (\<lambda>(c, y). variant l y c) (C \<times> set M)"
proof (rule inj_onI, clarify)
  fix c y d z assume h: "c \<in> C" "y \<in> set M" "d \<in> C" "z \<in> set M" "variant l y c = variant l z d"
  have e: "insert y (set c - {l}) = insert z (set d - {l})" using arg_cong[OF h(5), of set] by simp
  have g: "good_clause c" "good_clause d" "l \<in> set c" "l \<in> set d" "y \<noteq> l \<Longrightarrow> y \<notin> set c \<and> y \<notin> set d" "z \<noteq> l \<Longrightarrow> z \<notin> set c \<and> z \<notin> set d"
    using assms h by (auto simp: complete_block_def)
  have yz: "y = z" using e g(5,6) by (metis Diff_iff insert_iff singletonI)
  have "set c - {l} = set d - {l}" using e g(5) unfolding yz[symmetric] by (cases "y = l") (auto 0 3 dest: equalityD1 equalityD2)
  then have "set c = set d" using g(3,4) by auto
  then show "c = d \<and> y = z" using yz g(1,2) sorted_sets_eq by (simp add: good_clause_def)
qed

lemma card_variants:
  assumes "complete_block l M C F" "distinct M"
  shows "card (variants l M C) = card C * length M"
proof -
  have "variants l M C = (\<lambda>(c, y). variant l y c) ` (C \<times> set M)" by (auto simp: variants_def)
  then show ?thesis using card_image[OF inj_variants[OF assms(1)]] distinct_card[OF assms(2)] by (simp add: card_cartesian_product)
qed

section \<open>The abstract step\<close>

lemma reduces_forget_all:
  assumes "finite V" "\<forall>c \<in> V. entails H c"
  shows "reduces (H \<union> V, P) (H, P)"
  using assms
proof (induction V rule: finite_induct)
  case (insert c V)
  have "reduce_step (insert c (H \<union> V), P) (H \<union> V, P)"
    using insert.prems entails_mono[of H c "H \<union> V"] by (intro reduce_step.forget) simp
  then show ?case using insert.IH insert.prems reduces_trans[OF reduces_step] by simp
qed simp

lemma lit_true_other: "Variable l \<noteq> n \<Longrightarrow> lit_true (v(n := b)) l = lit_true v l"
  by (simp add: lit_true_def)

lemma holds_added:
  assumes "satisfies v F" "complete_block l M (set C) F" "\<And>c e. c \<in> F \<Longrightarrow> e \<in> set c \<Longrightarrow> Variable e \<noteq> n"
    "\<And>y. y \<in> set M \<Longrightarrow> Variable y \<noteq> n" "c \<in> set C"
  shows "holds (v(n := (\<exists>y \<in> set M. \<not> lit_true v y))) (replace_literal l (Negated (2 * n)) c)"
proof -
  let ?b = "\<exists>y \<in> set M. \<not> lit_true v y" and ?w = "v(n := \<exists>y \<in> set M. \<not> lit_true v y)"
  have c: "good_clause c" "l \<in> set c" "c \<in> F" using assms(2,5) by (auto simp: complete_block_def)
  have vn: "Variable (2 * n) = n" by (simp add: Variable_def)
  have "2 * n \<notin> set c" "Negated (2 * n) \<notin> set c" using assms(3)[OF c(3), of "2 * n"] assms(3)[OF c(3), of "Negated (2 * n)"] vn by auto
  note r = replace_literal_spec(1)[OF c(1,2), of "Negated (2 * n)"]
  have r: "set (replace_literal l (Negated (2 * n)) c) = insert (Negated (2 * n)) (set c - {l})"
    using r \<open>2 * n \<notin> set c\<close> \<open>Negated (2 * n) \<notin> set c\<close> by simp
  show ?thesis
  proof (cases ?b)
    case False
    then have "\<not> lit_true ?w (2 * n)" by (auto simp: lit_true_def vn)
    then have "lit_true ?w (Negated (2 * n))" unfolding lit_true_Negated .
    then show ?thesis unfolding holds_def r by blast
  next
    case True
    then obtain y where y: "y \<in> set M" "\<not> lit_true v y" by blast
    have "variant l y c \<in> F" using variants_subset[OF assms(2)] assms(5) y(1) by (auto simp: variants_def)
    then have "holds v (variant l y c)" using assms(1) by (simp add: satisfies_def)
    then obtain e where e: "e \<in> set c - {l}" "lit_true v e" using y(2) by (auto simp: holds_def)
    then have "lit_true ?w e" using lit_true_other[of e n v] assms(3)[OF c(3)] by simp
    then show ?thesis using e(1) unfolding holds_def r by blast
  qed
qed

lemma bva_reduces:
  assumes "finite F" "complete_block l M (set C) F" "\<And>c e. c \<in> F \<Longrightarrow> e \<in> set c \<Longrightarrow> Variable e \<noteq> n"
    "\<And>y. y \<in> set M \<Longrightarrow> Variable y \<noteq> n"
  defines "N \<equiv> set (added_clauses l (2 * n) M C)" and "V \<equiv> variants l M (set C)"
  shows "reduces (F, P) ((F - V) \<union> N, P)"
proof -
  have vn: "Variable (2 * n) = n" by (simp add: Variable_def)
  have "n \<notin> formula_variables F" using assms(3) by (auto simp: formula_variables_def)
  moreover have "\<exists>b. satisfies (v(n := b)) N" if v: "satisfies v F" for v
  proof -
    let ?w = "v(n := \<exists>y \<in> set M. \<not> lit_true v y)"
    have "holds ?w [y, 2 * n]" if y: "y \<in> set M" for y
    proof (cases "lit_true v y")
      case True
      then have "lit_true ?w y" using lit_true_other[of y n v] assms(4)[OF y] by simp
      then show ?thesis by (simp add: holds_def)
    next
      case False
      then have "lit_true ?w (2 * n)" using y by (auto simp: lit_true_def vn)
      then show ?thesis by (simp add: holds_def)
    qed
    then have "satisfies ?w N" using holds_added[OF v assms(2-4)] by (auto simp: satisfies_def N_def added_clauses_def)
    then show ?thesis by blast
  qed
  ultimately have s1: "reduces (F, P) (F \<union> N, P)" by (intro reduces_step reduce_step.define_variable)
  have VF: "V \<subseteq> F" unfolding V_def by (rule variants_subset[OF assms(2)])
  have "entails ((F - V) \<union> N) d" if d: "d \<in> V" for d
  proof -
    obtain c y where c: "c \<in> set C" "y \<in> set M" "d = variant l y c" using d by (auto simp: V_def variants_def)
    have cc: "good_clause c" "l \<in> set c" "c \<in> F" using assms(2) c(1) by (auto simp: complete_block_def)
    have "2 * n \<notin> set c" "Negated (2 * n) \<notin> set c" using assms(3)[OF cc(3), of "2 * n"] assms(3)[OF cc(3), of "Negated (2 * n)"] vn by auto
    then have r: "set (replace_literal l (Negated (2 * n)) c) = insert (Negated (2 * n)) (set c - {l})"
      using replace_literal_spec(1)[OF cc(1,2)] by simp
    have "set (resolvent (2 * n) [y, 2 * n] (replace_literal l (Negated (2 * n)) c)) \<subseteq> set d"
      using r by (auto simp: resolvent_def c(3))
    moreover have "[y, 2 * n] \<in> (F - V) \<union> N" "replace_literal l (Negated (2 * n)) c \<in> (F - V) \<union> N"
      using c(1,2) by (auto simp: N_def added_clauses_def)
    ultimately show ?thesis by (intro entails_resolvent)
  qed
  then have "reduces ((F - V) \<union> N \<union> V, P) ((F - V) \<union> N, P)"
    using finite_subset[OF VF assms(1)] by (intro reduces_forget_all) simp_all
  moreover have "(F - V) \<union> N \<union> V = F \<union> N" using VF by blast
  ultimately show ?thesis using reduces_trans[OF s1] by simp
qed

section \<open>The addition of one variable\<close>

text \<open>The states of the loop over the literals.\<close>

definition bva_state :: "sat_presolver \<Rightarrow> bool" where
  "bva_state st \<longleftrightarrow> valid st \<and> no_copies st \<and> var_weights st = [] \<and> 0 \<le> presolve_bva_threshold (parameters st) \<and>
     2 * int (length (live_clauses st)) < kint32max"

definition bva_step :: "sat_presolver \<Rightarrow> sat_presolver \<Rightarrow> bool" where
  "bva_step st t \<longleftrightarrow> bva_state t \<and> reduces (problem st) (problem t) \<and> postsolver_adds t = postsolver_adds st \<and>
     NumVariables st \<le> NumVariables t"

lemma bva_step_refl: "bva_state st \<Longrightarrow> bva_step st st"
  by (simp add: bva_step_def)

lemma bva_step_trans: "bva_step s t \<Longrightarrow> bva_step t u \<Longrightarrow> bva_step s u"
  unfolding bva_step_def using reduces_trans[of "problem s" "problem t" "problem u"] by auto

lemma small_reduction:
  assumes "m * k \<le> n" "2 * n < kint32max" "1 \<le> m" "1 \<le> k" "0 < wrap32 (m * k - k - m)"
  shows "m + k < m * k" "m + k \<le> n"
proof -
  have "m \<le> m * k" "k \<le> m * k" using mult_left_mono[of 1 k m] mult_right_mono[of 1 m k] assms(3,4) by simp_all
  then have "in_int32 (m * k - k - m)" using assms(1-4) unfolding in_int32_def by linarith
  then show "m + k < m * k" using assms(5) by simp
  then show "m + k \<le> n" using assms(1) by simp
qed

text \<open>The clauses of a found block.\<close>

lemma found_block:
  assumes "valid st" "no_copies st" "bva_found st l m_lit m_cls"
  defines "C \<equiv> map (\<lambda>c. sp_clauses st ! c) m_cls"
  shows "complete_block l m_lit (set C) (formula st)" "distinct C" "length C = length m_cls" "\<And>c. c \<in> set C \<Longrightarrow> c \<noteq> []"
    "variants l m_lit (set C) = (\<Union>c \<in> set m_cls. (\<lambda>y. variant l y (sp_clauses st ! c)) ` set m_lit)"
proof -
  have f: "sorted_wrt (<) m_lit" "l \<in> set m_lit" "distinct m_cls" "set m_cls \<subseteq> {..<length (sp_clauses st)}"
    "\<And>c. c \<in> set m_cls \<Longrightarrow> l \<in> set (sp_clauses st ! c)"
    "\<And>c y. c \<in> set m_cls \<Longrightarrow> y \<in> set m_lit - {l} \<Longrightarrow> y \<notin> set (sp_clauses st ! c) \<and> variant l y (sp_clauses st ! c) \<in> set (sp_clauses st)"
    using assms(3) by (auto simp: bva_found_def)
  show ne: "c \<noteq> []" if "c \<in> set C" for c using that f(5) unfolding C_def by force
  have idx: "c < length (sp_clauses st)" if "c \<in> set m_cls" for c using f(4) that by auto
  show "distinct C" unfolding C_def
  proof (rule distinct_map[THEN iffD2], intro conjI f(3) inj_onI)
    fix c d assume h: "c \<in> set m_cls" "d \<in> set m_cls" "sp_clauses st ! c = sp_clauses st ! d"
    have "sp_clauses st ! c \<noteq> []" using f(5)[OF h(1)] by force
    then show "c = d" using no_copies_index[OF assms(2) idx[OF h(1)] idx[OF h(2)] _ h(3)] by blast
  qed
  show "length C = length m_cls" by (simp add: C_def)
  show "variants l m_lit (set C) = (\<Union>c \<in> set m_cls. (\<lambda>y. variant l y (sp_clauses st ! c)) ` set m_lit)"
    by (simp add: variants_def C_def)
  have "c \<in> formula st \<and> good_clause c \<and> l \<in> set c \<and> (\<forall>y \<in> set m_lit - {l}. y \<notin> set c \<and> variant l y c \<in> formula st)"
    if c: "c \<in> set C" for c
  proof -
    obtain i where i: "i \<in> set m_cls" "c = sp_clauses st ! i" using c by (auto simp: C_def)
    have "c \<in> set (sp_clauses st)" using nth_mem[OF idx[OF i(1)]] i(2) by simp
    moreover have "good_clause c" using clauses_okD(1)[OF validD(2)[OF assms(1)] idx[OF i(1)]] i(2) by simp
    ultimately show ?thesis using f(5,6)[OF i(1)] i(2) ne[OF c] variant_nonempty by (simp add: formula_def)
  qed
  then show "complete_block l m_lit (set C) (formula st)" using f(2) unfolding complete_block_def by blast
qed

text \<open>The new clauses over the new variable.\<close>

lemma added_clauses_spec:
  assumes "complete_block l M (set C) F" "sorted_wrt (<) M" "distinct C" "\<And>c e. c \<in> F \<Longrightarrow> e \<in> set c \<Longrightarrow> e < 2 * n"
    "\<And>y. y \<in> set M \<Longrightarrow> y < 2 * n"
  shows "\<And>c. c \<in> set (added_clauses l (2 * n) M C) \<Longrightarrow> good_clause c \<and> c \<noteq> [] \<and> set c \<subseteq> {..<2 * n + 2} \<and> c \<notin> F"
    "distinct (added_clauses l (2 * n) M C)"
proof -
  have C: "good_clause c" "l \<in> set c" "c \<in> F" "2 * n \<notin> set c" "2 * n + 1 \<notin> set c" if "c \<in> set C" for c
  proof -
    show "good_clause c" "l \<in> set c" and cF: "c \<in> F" using assms(1) that by (auto simp: complete_block_def)
    show "2 * n \<notin> set c" "2 * n + 1 \<notin> set c" using assms(4)[OF cF, of "2 * n"] assms(4)[OF cF, of "2 * n + 1"] by auto
  qed
  have neg: "Negated (2 * n) = 2 * n + 1" "Negated (2 * n + 1) = 2 * n" by (simp_all add: Negated_eq)
  have r: "set (replace_literal l (2 * n + 1) c) = insert (2 * n + 1) (set c - {l})" "good_clause (replace_literal l (2 * n + 1) c)"
    if "c \<in> set C" for c
    using replace_literal_spec[OF C(1,2)[OF that], of "2 * n + 1"] C(4,5)[OF that] neg(2) by simp_all
  have pair: "good_clause [y, 2 * n]" if "y \<in> set M" for y
  proof -
    have "Negated y < 2 * n" using assms(5)[OF that] by simp
    then have "Negated y \<noteq> 2 * n" by (rule less_imp_neq)
    then have "y \<noteq> Negated (2 * n)" by (metis Negated_Negated)
    then show ?thesis using assms(5)[OF that] \<open>Negated y \<noteq> 2 * n\<close> by (simp add: good_clause_def)
  qed
  show "good_clause c \<and> c \<noteq> [] \<and> set c \<subseteq> {..<2 * n + 2} \<and> c \<notin> F" if c: "c \<in> set (added_clauses l (2 * n) M C)" for c
  proof -
    consider y where "y \<in> set M" "c = [y, 2 * n]" | d where "d \<in> set C" "c = replace_literal l (2 * n + 1) d"
      using c by (auto simp: added_clauses_def neg)
    then show ?thesis
    proof cases
      case 1
      then show ?thesis using pair[of y] assms(5)[of y] assms(4)[of c "2 * n"] by auto
    next
      case 2
      have "e < 2 * n + 2" if "e \<in> set c" for e using that r(1)[OF 2(1)] 2(2) assms(4)[OF C(3)[OF 2(1)], of e] by auto
      moreover have "2 * n + 1 \<in> set c" using r(1)[OF 2(1)] 2(2) by simp
      ultimately show ?thesis using r(2)[OF 2(1)] 2(2) assms(4)[of c "2 * n + 1"] by auto
    qed
  qed
  have "inj_on (replace_literal l (2 * n + 1)) (set C)"
  proof (rule inj_onI)
    fix c d assume h: "c \<in> set C" "d \<in> set C" "replace_literal l (2 * n + 1) c = replace_literal l (2 * n + 1) d"
    have "insert (2 * n + 1) (set c - {l}) = insert (2 * n + 1) (set d - {l})" using r(1)[OF h(1)] r(1)[OF h(2)] h(3) by simp
    then have "set c - {l} = set d - {l}" using C(5)[OF h(1)] C(5)[OF h(2)] by (auto 0 3 dest: equalityD1 equalityD2)
    then have "set c = set d" using C(2)[OF h(1)] C(2)[OF h(2)] by auto
    then show "c = d" using C(1)[OF h(1)] C(1)[OF h(2)] sorted_sets_eq by (simp add: good_clause_def)
  qed
  moreover have "inj_on (\<lambda>y. [y, 2 * n]) (set M)" by (simp add: inj_on_def)
  moreover have "[y, 2 * n] \<noteq> replace_literal l (2 * n + 1) c" if "y \<in> set M" "c \<in> set C" for y c
  proof
    assume "[y, 2 * n] = replace_literal l (2 * n + 1) c"
    then have "set [y, 2 * n] = insert (2 * n + 1) (set c - {l})" using r(1)[OF that(2)] by simp
    then show False using assms(5)[OF that(1)] by auto
  qed
  moreover have "distinct M" using assms(2) by (simp add: strict_sorted_iff)
  ultimately show "distinct (added_clauses l (2 * n) M C)" using assms(3)
    unfolding added_clauses_def neg distinct_append by (auto simp: distinct_map)
qed

lemma SimpleBva_replaces:
  assumes "bva_state st" "bva_weights st \<noteq> []" "bva_found st l m_lit m_cls" "0 < wrap32 (bva_reduction m_lit m_cls)"
  defines "n \<equiv> NumVariables st" and "C \<equiv> map (\<lambda>c. sp_clauses st ! c) m_cls"
  defines "st2 \<equiv> add_all (added_clauses l (2 * n) m_lit C) (add_bva_variable st)"
  shows "\<exists>t. delete_old_clauses l m_lit m_cls st2 = Some t \<and> bva_frame (add_bva_variable st) t \<and> no_copies t \<and>
    formula t = (formula st - variants l m_lit (set C)) \<union> set (added_clauses l (2 * n) m_lit C) \<and>
    length (live_clauses t) < length (live_clauses st)"
proof -
  have st: "valid st" "no_copies st" "var_weights st = []" "2 * int (length (live_clauses st)) < kint32max"
    using assms(1) by (simp_all add: bva_state_def)
  note v = validD[OF st(1)]
  have n: "length (literal_to_clause_sizes st) = 2 * n" unfolding n_def by (rule shapeD(4)[OF v(1)])
  note b = found_block[OF st(1,2) assms(3), folded C_def]
  have F: "e < 2 * n" if h: "c \<in> formula st" "e \<in> set c" for c e
  proof -
    obtain i where "i < length (sp_clauses st)" "sp_clauses st ! i = c" using h(1) unfolding in_formula by blast
    then show ?thesis using clauses_okD(2)[OF v(2), of i e] h(2) n by simp
  qed
  have sM: "sorted_wrt (<) m_lit" "m_cls \<noteq> []" "l \<in> set m_lit" using assms(3) by (simp_all add: bva_found_def)
  have M: "y < 2 * n" if "y \<in> set m_lit" for y
  proof -
    have "C \<noteq> []" using sM(2) by (simp add: C_def)
    then obtain c where c: "c \<in> set C" by (meson last_in_set)
    have "variant l y c \<in> formula st" using variants_subset[OF b(1)] c that by (auto simp: variants_def)
    then show ?thesis using F[of "variant l y c" y] by simp
  qed
  let ?N = "added_clauses l (2 * n) m_lit C" and ?V = "variants l m_lit (set C)"
  have ad: "good_clause c \<and> c \<noteq> [] \<and> set c \<subseteq> {..<2 * n + 2} \<and> c \<notin> formula st" if "c \<in> set ?N" for c
    by (rule added_clauses_spec(1)[OF b(1) sM(1) b(2) _ _ that]) (erule F, assumption, erule M)
  have dN: "distinct ?N" by (rule added_clauses_spec(2)[OF b(1) sM(1) b(2)]) (erule F, assumption, erule M)
  note a = add_bva_variable_spec[OF st(1,3) assms(2)]
  have range: "set c \<subseteq> {..<length (literal_to_clause_sizes (add_bva_variable st))}" if "c \<in> set ?N" for c
    using ad[OF that] a(3) n by simp
  have s2: "bva_frame (add_bva_variable st) st2" "sp_clauses st2 = sp_clauses st @ ?N"
    using add_all_spec[OF a(1), of ?N] ad range a(2) unfolding st2_def by auto
  have NF: "c \<noteq> []" "c \<notin> formula st" if "c \<in> set ?N" for c using ad[OF that] by simp_all
  have live2: "live_clauses st2 = live_clauses st @ ?N" using NF(1) by (simp add: live_clauses_def s2(2))
  have nc2: "no_copies st2" using st(2) dN NF(2) unfolding no_copies_def live2 by (auto simp: formula_live)
  let ?L = "int (length (live_clauses st))" and ?m = "int (length m_lit)" and ?k = "int (length m_cls)"
  have dM: "distinct m_lit" using sM(1) by (simp add: strict_sorted_iff)
  have "card (set C) = length m_cls" using b(2,3) distinct_card by metis
  then have cV: "card ?V = length m_cls * length m_lit" using card_variants[OF b(1) dM] by simp
  have VF: "?V \<subseteq> formula st" by (rule variants_subset[OF b(1)])
  have finF: "finite (formula st)" by (simp add: formula_live)
  have cF: "card (formula st) = length (live_clauses st)" by (rule card_formula[OF st(2)])
  have "length m_cls * length m_lit \<le> length (live_clauses st)" using card_mono[OF finF VF] cV cF by simp
  then have le: "?m * ?k \<le> ?L" by (metis mult.commute of_nat_le_iff of_nat_mult)
  have "1 \<le> ?m" "1 \<le> ?k" using sM(2,3) by (cases m_lit; cases m_cls; simp)+
  note red = small_reduction[OF le st(4) this assms(4)[unfolded bva_reduction_def]]
  have lN: "length ?N = length m_lit + length m_cls" using b(3) by (simp add: added_clauses_def)
  have few: "int (length (live_clauses st2)) < kint32max" using red(2) st(4) by (simp add: live2 lN)
  have nth: "sp_clauses st2 ! c = sp_clauses st ! c" if "c \<in> set m_cls" for c
  proof -
    have "c < length (sp_clauses st)" using assms(3) that by (auto simp: bva_found_def)
    then show ?thesis by (simp add: s2(2) nth_append)
  qed
  have "\<exists>t. delete_old_clauses l m_lit m_cls st2 = Some t \<and> bva_frame st2 t \<and>
    sp_clauses t = erase (\<Union>c \<in> set m_cls. (\<lambda>y. variant l y (sp_clauses st2 ! c)) ` set m_lit) (sp_clauses st2)"
  proof (rule delete_old_clauses_spec[OF _ nc2 few _ _ sM(3)])
    show "valid st2" using s2(1) by (simp add: bva_frame_def)
    show "distinct m_cls" using assms(3) by (simp add: bva_found_def)
    show "set m_cls \<subseteq> {..<length (sp_clauses st2)}" using assms(3) by (auto simp: bva_found_def s2(2))
    show "l \<in> set (sp_clauses st2 ! c) \<and> (\<exists>e \<in> set (sp_clauses st2 ! c). e \<noteq> l) \<and> (\<forall>y \<in> set m_lit - {l}. y \<notin> set (sp_clauses st2 ! c))"
      if "c \<in> set m_cls" for c using assms(3) that unfolding nth[OF that] bva_found_def by blast
  qed
  moreover have "(\<Union>c \<in> set m_cls. (\<lambda>y. variant l y (sp_clauses st2 ! c)) ` set m_lit) = ?V"
    unfolding b(5) by (rule SUP_cong) (simp_all only: nth)
  ultimately obtain t where t: "delete_old_clauses l m_lit m_cls st2 = Some t" "bva_frame st2 t"
    "sp_clauses t = erase ?V (sp_clauses st2)" by auto
  have livet: "live_clauses t = filter (\<lambda>c. c \<notin> ?V) (live_clauses st) @ ?N"
    using NF(2) VF by (auto simp: live_clauses_def[of t] t(3) live_erase live_clauses_def[symmetric] live2 filter_id_conv)
  have "length (filter (\<lambda>c. c \<notin> ?V) (live_clauses st)) = card (formula st - ?V)"
    using st(2) distinct_card[of "filter (\<lambda>c. c \<notin> ?V) (live_clauses st)"] by (simp add: no_copies_def formula_live set_diff_eq)
  then have "length (filter (\<lambda>c. c \<notin> ?V) (live_clauses st)) + length m_cls * length m_lit = length (live_clauses st)"
    using card_Diff_subset[OF finite_subset[OF VF finF] VF] card_mono[OF finF VF] cV cF by simp
  moreover have "length m_lit + length m_cls < length m_cls * length m_lit"
    using red(1) by (metis mult.commute of_nat_add of_nat_less_iff of_nat_mult)
  ultimately have "length (live_clauses t) < length (live_clauses st)" unfolding livet by (simp add: lN)
  moreover have "formula t = (formula st - ?V) \<union> set ?N" unfolding formula_live livet by auto
  moreover have "no_copies t" by (rule no_copies_erase(1)[OF nc2 t(3)])
  ultimately show ?thesis using t(1) bva_frame_trans[OF s2(1) t(2)] by blast
qed

lemma SimpleBva_step:
  assumes "bva_search st l 100 [l] (literal_to_clauses st ! l) 0 = (m_lit, m_cls, reduction)" "reduction > presolve_bva_threshold (parameters st)"
    "set m_cls \<subseteq> {..<length (sp_clauses st)}" "length (literal_to_clauses st) = 2 * n"
  defines "st2 \<equiv> add_all (added_clauses l (2 * n) m_lit (map (\<lambda>c. sp_clauses st ! c) m_cls)) (add_bva_variable st)"
  shows "SimpleBva l st = map_option (\<lambda>t. AddToBvaPriorityQueue l (AddToBvaPriorityQueue (2 * n + 1) (AddToBvaPriorityQueue (2 * n) t)))
    (delete_old_clauses l m_lit m_cls st2)"
proof -
  have neg: "Negated (2 * n) = 2 * n + 1" by (simp add: Negated_eq)
  let ?a = "add_bva_variable st"
  define s1 where "s1 = foldl (\<lambda>s lit. AddClauseInternal [lit, 2 * n] s) ?a m_lit"
  have s1: "s1 = add_all (map (\<lambda>y. [y, 2 * n]) m_lit) ?a" by (simp add: s1_def add_all_def foldl_map)
  have "sp_clauses (add_all cs s) = sp_clauses s @ cs" for cs s
    by (induction cs arbitrary: s) (simp_all add: add_all_def)
  then have cl: "sp_clauses s1 = sp_clauses st @ map (\<lambda>y. [y, 2 * n]) m_lit" unfolding s1 by (simp add: add_bva_variable_def)
  have m: "map (\<lambda>ci. replace_literal l (2 * n + 1) (sp_clauses s1 ! ci)) m_cls = map (\<lambda>ci. replace_literal l (2 * n + 1) (sp_clauses st ! ci)) m_cls"
    using assms(3) by (auto simp: cl nth_append)
  have sub: "set m_cls \<subseteq> {..<length (sp_clauses s1)}" using assms(3) by (auto simp: cl)
  have "foldl (\<lambda>s ci. AddClauseInternal (replace_literal l (2 * n + 1) (sp_clauses s ! ci)) s) s1 m_cls =
      add_all (map (\<lambda>ci. replace_literal l (2 * n + 1) (sp_clauses st ! ci)) m_cls) s1"
    unfolding add_replaced[OF sub] m ..
  then have s2: "foldl (\<lambda>s ci. AddClauseInternal (replace_literal l (2 * n + 1) (sp_clauses s ! ci)) s) s1 m_cls = st2"
    unfolding s1 st2_def added_clauses_def neg add_all_append map_map comp_def .
  show ?thesis using assms(1,2,4) s2 unfolding s1_def
    by (cases "delete_old_clauses l m_lit m_cls st2") (simp_all add: SimpleBva_def added_clause_funs Let_def)
qed

theorem SimpleBva_spec:
  assumes "bva_state st" "bva_weights st \<noteq> []" "l < length (literal_to_clause_sizes st)" "l \<notin> set (pq_elems (bva_pq st))"
  shows "\<exists>t. SimpleBva l st = Some t \<and> bva_step st t \<and> bva_weights t \<noteq> [] \<and>
    (t = st \<or> length (live_clauses t) < length (live_clauses st))"
proof -
  have st: "valid st" "no_copies st" "var_weights st = []" "0 \<le> presolve_bva_threshold (parameters st)"
    "2 * int (length (live_clauses st)) < kint32max" using assms(1) by (simp_all add: bva_state_def)
  note v = validD[OF st(1)]
  obtain n where n: "n = NumVariables st" "length (literal_to_clause_sizes st) = 2 * n" using shapeD(4)[OF v(1)] by blast
  obtain m_lit m_cls reduction where se: "bva_search st l 100 [l] (literal_to_clauses st ! l) 0 = (m_lit, m_cls, reduction)"
    by (metis prod_cases3)
  note lo = lists_okD[OF v(5)[OF assms(3)]]
  have "reduction = 0 \<or> bva_found st l m_lit m_cls \<and> reduction = wrap32 (bva_reduction m_lit m_cls)"
    by (rule bva_search_spec[OF st(1,2) assms(3) lo(1) _ _ _ se]) (use lo(2,3) in auto)
  then have found: "bva_found st l m_lit m_cls" "0 < wrap32 (bva_reduction m_lit m_cls)"
    if "reduction > presolve_bva_threshold (parameters st)" using that st(4) by auto
  show ?thesis
  proof (cases "reduction > presolve_bva_threshold (parameters st)")
    case False
    then have "SimpleBva l st = Some st" using se by (simp add: SimpleBva_def)
    then show ?thesis using bva_step_refl[OF assms(1)] assms(2) by blast
  next
    case True
    note f = found[OF True]
    let ?C = "map (\<lambda>c. sp_clauses st ! c) m_cls" and ?a = "add_bva_variable st"
    let ?N = "added_clauses l (2 * n) m_lit ?C" and ?V = "variants l m_lit (set ?C)"
    have sub: "set m_cls \<subseteq> {..<length (sp_clauses st)}" using f(1) by (simp add: bva_found_def)
    have lc: "length (literal_to_clauses st) = 2 * n" using shapeD(3)[OF v(1)] n(2) by simp
    obtain u where u: "delete_old_clauses l m_lit m_cls (add_all ?N ?a) = Some u" "bva_frame ?a u" "no_copies u"
      "formula u = (formula st - ?V) \<union> set ?N" "length (live_clauses u) < length (live_clauses st)"
      using SimpleBva_replaces[OF assms(1,2) f] unfolding n(1)[symmetric] by blast
    note a = add_bva_variable_spec[OF st(1,3) assms(2)]
    have k: "var_weights u = []" "set (pq_elems (bva_pq u)) = set (pq_elems (bva_pq st))" "length (bva_weights u) = 2 * n + 2"
    proof -
      have "bva_queue_ok ?a" by (rule validD(4)[OF a(1)])
      then have "var_weights u = []" "mset (pq_elems (bva_pq u)) = mset (pq_elems (bva_pq ?a))" "length (bva_weights u) = length (bva_weights ?a)"
        using u(2) a(4) unfolding bva_frame_def bva_kept_def by blast+
      then show "var_weights u = []" "set (pq_elems (bva_pq u)) = set (pq_elems (bva_pq st))" "length (bva_weights u) = 2 * n + 2"
        using a(5,6) n(2) mset_eq_setD by simp_all
    qed
    have uf: "valid u" "length (literal_to_clause_sizes u) = 2 * n + 2" "parameters u = parameters st" "postsolver_adds u = postsolver_adds st"
      using u(2) a(3,7,8) n(2) by (simp_all add: bva_frame_def)
    have q: "set (pq_elems (bva_pq st)) \<subseteq> {..<2 * n}"
      using v(4) assms(2) n(2) unfolding bva_queue_ok_def queue_over_def by auto
    have wu: "bva_weights u \<noteq> []" using k(3) by force
    have q1: "2 * n \<notin> set (pq_elems (bva_pq u))" using q k(2) by auto
    let ?t1 = "AddToBvaPriorityQueue (2 * n) u"
    note t1 = AddToBvaPriorityQueue_spec[OF uf(1) k(1) _ q1]
    have t1: "valid ?t1" "var_weights ?t1 = []" "set (pq_elems (bva_pq ?t1)) \<subseteq> insert (2 * n) (set (pq_elems (bva_pq st)))"
      "sp_clauses ?t1 = sp_clauses u" "literal_to_clause_sizes ?t1 = literal_to_clause_sizes u" "parameters ?t1 = parameters u"
      "postsolver_adds ?t1 = postsolver_adds u" "bva_weights ?t1 \<noteq> []" using t1 uf(2) k(2) wu by auto
    have q2: "2 * n + 1 \<notin> set (pq_elems (bva_pq ?t1))"
    proof
      assume "2 * n + 1 \<in> set (pq_elems (bva_pq ?t1))"
      then have "2 * n + 1 \<in> insert (2 * n) {..<2 * n}" using t1(3) q by blast
      then show False by simp
    qed
    let ?t2 = "AddToBvaPriorityQueue (2 * n + 1) ?t1"
    note t2 = AddToBvaPriorityQueue_spec[OF t1(1,2) _ q2]
    have t2: "valid ?t2" "var_weights ?t2 = []" "set (pq_elems (bva_pq ?t2)) \<subseteq> insert (2 * n + 1) (insert (2 * n) (set (pq_elems (bva_pq st))))"
      "sp_clauses ?t2 = sp_clauses u" "literal_to_clause_sizes ?t2 = literal_to_clause_sizes u" "parameters ?t2 = parameters u"
      "postsolver_adds ?t2 = postsolver_adds u" "bva_weights ?t2 \<noteq> []" using t2 t1 uf(2) by auto
    have q3: "l \<notin> set (pq_elems (bva_pq ?t2))"
    proof
      assume "l \<in> set (pq_elems (bva_pq ?t2))"
      then have "l = 2 * n + 1 \<or> l = 2 * n" using t2(3) assms(4) by blast
      then show False using assms(3) n(2) by auto
    qed
    let ?t = "AddToBvaPriorityQueue l ?t2"
    note t = AddToBvaPriorityQueue_spec[OF t2(1,2) _ q3]
    have t: "valid ?t" "var_weights ?t = []" "sp_clauses ?t = sp_clauses u" "literal_to_clause_sizes ?t = literal_to_clause_sizes u"
      "parameters ?t = parameters st" "postsolver_adds ?t = postsolver_adds st" "bva_weights ?t \<noteq> []"
      using t t2 uf assms(3) n(2) by auto
    have live: "live_clauses ?t = live_clauses u" "no_copies ?t" "formula ?t = formula u"
      using u(3) t(3) by (simp_all add: live_clauses_def no_copies_def formula_def)
    have F: "Variable e \<noteq> n" if "c \<in> formula st" "e \<in> set c" for c e
    proof -
      have "e < 2 * n" using that clauses_okD(2)[OF v(2)] n(2) unfolding in_formula by auto
      then show ?thesis by (auto simp: Variable_less[symmetric])
    qed
    note b = found_block[OF st(1,2) f(1)]
    have M: "Variable y \<noteq> n" if "y \<in> set m_lit" for y
    proof -
      have "?C \<noteq> []" using f(1) by (simp add: bva_found_def)
      then have "last ?C \<in> set ?C" by (rule last_in_set)
      then have "variant l y (last ?C) \<in> formula st" using variants_subset[OF b(1)] that by (auto simp only: variants_def)
      then show ?thesis using F[of "variant l y (last ?C)" y] by simp
    qed
    have "finite (formula st)" by (simp add: formula_live)
    then have "reduces (formula st, postsolver_adds st) ((formula st - ?V) \<union> set ?N, postsolver_adds st)"
      by (rule bva_reduces[OF _ b(1)]) (use F M in auto)
    then have "reduces (problem st) (problem ?t)" unfolding problem_def live(3) u(4) t(6) .
    moreover have "NumVariables st \<le> NumVariables ?t" unfolding NumVariables_def t(4) using uf(2) n(2) by simp
    moreover have "bva_state ?t" using t(1,2,5) live(1,2) u(5) st(4,5) by (simp add: bva_state_def)
    ultimately have "bva_step st ?t" using t(6) by (simp add: bva_step_def)
    moreover have "SimpleBva l st = Some ?t"
      using SimpleBva_step[OF se True sub lc] u(1) by simp
    ultimately show ?thesis using t(7) live(1) u(5) by auto
  qed
qed

section \<open>The loop\<close>

lemma bva_loop_spec:
  assumes "bva_state st" "bva_weights st = [] \<longrightarrow> pq_elems (bva_pq st) = []"
  shows "\<exists>t. bva_loop clock st = Some t \<and> bva_step st t"
  using assms
proof (induction st rule: wf_induct_rule[OF wf_measures[of "[\<lambda>s. length (live_clauses s), \<lambda>s. length (pq_elems (bva_pq s))]"]])
  case (1 st)
  show ?case
  proof (cases "pq_elems (bva_pq st) = []")
    case True
    then have "bva_loop clock st = Some st" by (subst bva_loop.simps) simp
    then show ?thesis using bva_step_refl "1.prems"(1) by blast
  next
    case False
    let ?l = "pq_Top (bva_pq st)" and ?p = "st\<lparr> bva_pq := pq_Pop (bva_lower (bva_weights st)) (bva_pq st) \<rparr>"
    have vs: "valid st" using "1.prems"(1) by (simp add: bva_state_def)
    note v = validD[OF vs]
    have w: "bva_weights st \<noteq> []" using "1.prems"(2) False by blast
    have q: "queue_over bva_lower (bva_weights st) (bva_pq st)" "length (bva_weights st) = length (literal_to_clause_sizes st)"
      using v(4) w by (simp_all add: bva_queue_ok_def)
    note pop = bva_queue.pq_Pop_over[OF q(1) False]
    have top: "?l \<in> set (pq_elems (bva_pq st))" using False by (simp add: pq_Top_def)
    have "distinct (pq_elems (bva_pq st))" using q(1) by (simp add: queue_over_def valid_queue_def indexed_def)
    then have nl: "?l \<notin> set (pq_elems (bva_pq ?p))"
      using arg_cong[OF pop(3), of "\<lambda>m. count m ?l"] by (auto simp: distinct_count_atmost_1 top count_eq_zero_iff[symmetric])
    have len: "length (pq_elems (bva_pq ?p)) < length (pq_elems (bva_pq st))"
      using arg_cong[OF pop(3), of size] top False by (simp add: size_Diff_singleton)
    have "var_queue_but {} ?p" using v(3) var_queue_cong[of ?p st] by simp
    then have "valid ?p" using v pop(1) q(2) w
      by (simp add: valid_def valid_but_lits_def shape_def clauses_ok_def lists_ok_def sizes_ok_def bva_queue_ok_def)
    then have sp: "bva_state ?p" using "1.prems"(1) by (simp add: bva_state_def no_copies_def live_clauses_def)
    have "problem ?p = problem st" by (rule problem_cong) simp_all
    then have stp: "bva_step st ?p" using sp by (simp add: bva_step_def NumVariables_def)
    have lr: "?l < length (literal_to_clause_sizes ?p)" using pop(2) q(2) by simp
    obtain s where s: "SimpleBva ?l ?p = Some s" "bva_step ?p s" "bva_weights s \<noteq> []"
      "s = ?p \<or> length (live_clauses s) < length (live_clauses ?p)"
      using SimpleBva_spec[OF sp _ lr nl] w by auto
    obtain reached t where l: "LimitReached clock s = (reached, t)" by fastforce
    have t: "t = s\<lparr> limit_queries := limit_queries s + 1 \<rparr>" using l by (auto simp: LimitReached_def)
    have vss: "valid s" and ss: "bva_state s" using s(2) by (simp_all add: bva_step_def bva_state_def)
    have "bva_state t" using ss LimitReached_spec(1)[OF vss l] by (simp add: t bva_state_def no_copies_def live_clauses_def)
    then have "bva_step s t" using LimitReached_spec(3)[OF vss l] by (simp add: bva_step_def t NumVariables_def)
    then have stt: "bva_step st t" using bva_step_trans[OF bva_step_trans[OF stp s(2)]] by blast
    have step: "bva_loop clock st = (if reached then Some t else bva_loop clock t)"
      using False s(1) l by (subst bva_loop.simps) simp
    show ?thesis
    proof (cases reached)
      case True
      then show ?thesis using step stt by simp
    next
      case nr: False
      have "live_clauses t = live_clauses s" "bva_pq t = bva_pq s" "bva_weights t \<noteq> []" using s(3) by (simp_all add: t live_clauses_def)
      moreover have "live_clauses ?p = live_clauses st" by (simp add: live_clauses_def)
      ultimately have "(t, st) \<in> measures [\<lambda>s. length (live_clauses s), \<lambda>s. length (pq_elems (bva_pq s))]" using s(4) len by auto
      then obtain r where "bva_loop clock t = Some r" "bva_step t r"
        using "1.IH" stt \<open>bva_weights t \<noteq> []\<close> unfolding bva_step_def by blast
      then show ?thesis using step nr bva_step_trans[OF stt] by simp
    qed
  qed
qed

text \<open>The queue at the start.\<close>

lemma InitializeBvaPriorityQueue_spec:
  assumes "valid st" "var_weights st = []"
  defines "t \<equiv> InitializeBvaPriorityQueue st"
  shows "valid t" "var_weights t = []" "sp_clauses t = sp_clauses st" "literal_to_clause_sizes t = literal_to_clause_sizes st"
    "parameters t = parameters st" "postsolver_adds t = postsolver_adds st" "bva_weights t = [] \<longrightarrow> pq_elems (bva_pq t) = []"
proof -
  let ?s = "st\<lparr> bva_weights := replicate (2 * NumVariables st) 0, bva_pq := pq_empty \<rparr>"
  let ?f = "\<lambda>s l. let w = (bva_weights s)[l := literal_to_clause_sizes s ! l]
      in s\<lparr> bva_weights := w, bva_pq := (if w ! l > 2 then pq_Add (bva_lower w) l (bva_pq s) else bva_pq s) \<rparr>"
  note v = validD[OF assms(1)]
  have n: "length (literal_to_clause_sizes st) = 2 * NumVariables st" by (rule shapeD(4)[OF v(1)])
  have vs: "valid ?s" using v n assms(2)
    by (simp add: valid_def valid_but_lits_def shape_def clauses_ok_def lists_ok_def sizes_ok_def bva_queue_ok_def var_queue_but_def)
  have "let t = foldl ?f ?s [0..<k] in valid t \<and> var_weights t = [] \<and> sp_clauses t = sp_clauses st \<and>
      literal_to_clause_sizes t = literal_to_clause_sizes st \<and> parameters t = parameters st \<and> postsolver_adds t = postsolver_adds st \<and>
      set (pq_elems (bva_pq t)) \<subseteq> {..<k} \<and> (0 < NumVariables st \<longrightarrow> bva_weights t \<noteq> [])" if "k \<le> 2 * NumVariables st" for k
    using that
  proof (induction k)
    case 0
    then show ?case using vs assms(2) by (simp add: pq_empty_def)
  next
    case (Suc k)
    define r where "r = foldl ?f ?s [0..<k]"
    have r: "valid r" "var_weights r = []" "sp_clauses r = sp_clauses st" "literal_to_clause_sizes r = literal_to_clause_sizes st"
      "parameters r = parameters st" "postsolver_adds r = postsolver_adds st" "set (pq_elems (bva_pq r)) \<subseteq> {..<k}" "bva_weights r \<noteq> []"
      using Suc unfolding Let_def r_def by simp_all
    have "k \<notin> set (pq_elems (bva_pq r))" "k < length (literal_to_clause_sizes r)" using r(4,7) Suc.prems n by auto
    note a = AddToBvaPriorityQueue_spec[OF r(1,2) this(2,1)]
    have "foldl ?f ?s [0..<Suc k] = AddToBvaPriorityQueue k r" using r(8)
      unfolding upt_Suc_append[OF le0] foldl_append foldl.simps r_def[symmetric] by (simp add: AddToBvaPriorityQueue_def)
    moreover have "set (pq_elems (bva_pq (AddToBvaPriorityQueue k r))) \<subseteq> {..<Suc k}" using a(3) r(7) by auto
    ultimately show ?case unfolding Let_def using a r by simp
  qed
  from this[OF order_refl] have t: "valid t \<and> var_weights t = [] \<and> sp_clauses t = sp_clauses st \<and>
      literal_to_clause_sizes t = literal_to_clause_sizes st \<and> parameters t = parameters st \<and> postsolver_adds t = postsolver_adds st \<and>
      set (pq_elems (bva_pq t)) \<subseteq> {..<2 * NumVariables st} \<and> (0 < NumVariables st \<longrightarrow> bva_weights t \<noteq> [])"
    unfolding Let_def t_def InitializeBvaPriorityQueue_def .
  then show "valid t" "var_weights t = []" "sp_clauses t = sp_clauses st" "literal_to_clause_sizes t = literal_to_clause_sizes st"
    "parameters t = parameters st" "postsolver_adds t = postsolver_adds st" by blast+
  show "bva_weights t = [] \<longrightarrow> pq_elems (bva_pq t) = []" using t by (cases "NumVariables st = 0") auto
qed

theorem PresolveWithBva_spec:
  assumes "valid st" "clause_to_process st = []" "settled {} st" "0 \<le> presolve_bva_threshold (parameters st)"
    "2 * int (length (live_clauses st)) < kint32max"
  shows "\<exists>t. PresolveWithBva clock st = Some t \<and> valid t \<and> reduces (problem st) (problem t) \<and>
    postsolver_adds t = postsolver_adds st \<and> NumVariables st \<le> NumVariables t"
proof -
  let ?s = "st\<lparr> var_weights := [] \<rparr>"
  note v = validD[OF assms(1)]
  have vs: "valid ?s" using v bva_queue_cong[of ?s st]
    by (simp add: valid_def valid_but_lits_def shape_def clauses_ok_def lists_ok_def sizes_ok_def var_queue_but_def)
  have "var_weights ?s = []" by simp
  note i = InitializeBvaPriorityQueue_spec[OF vs this]
  let ?i = "InitializeBvaPriorityQueue ?s"
  have "live_clauses ?i = live_clauses st" using i(3) by (simp add: live_clauses_def)
  moreover have "no_copies st" by (rule settled_no_copies[OF assms(3,2)])
  ultimately have "bva_state ?i" using i(1,2,5) assms(4,5) by (simp add: bva_state_def no_copies_def)
  then obtain t where t: "bva_loop clock ?i = Some t" "bva_step ?i t" using bva_loop_spec i(7) by blast
  have "problem ?i = problem st" "NumVariables ?i = NumVariables st"
    using i(3,4,6) by (simp_all add: problem_def formula_def NumVariables_def)
  then show ?thesis using t i(6) by (simp add: PresolveWithBva_def bva_step_def bva_state_def)
qed

end
