(* ===== verification/SatRun.thy ===== *)
theory SatRun
  imports SatBvaLoop
begin

text \<open>
  The whole presolve: the loop over the variables ends, what it returns is a problem that the given one reduces
  to, and false is returned only for clauses without a solution.
\<close>

section \<open>The occurrence lists rebuilt\<close>

definition push_occurrences :: "nat \<times> literal list \<Rightarrow> nat list list \<Rightarrow> nat list list" where
  "push_occurrences = (\<lambda>(ci, clause) L. foldl (\<lambda>L lit. L[lit := L ! lit @ [ci]]) L clause)"

lemma RebuildLiteralToClauses_alt:
  "RebuildLiteralToClauses st =
     st\<lparr> literal_to_clauses := foldl (\<lambda>L p. push_occurrences p L) (replicate (length (literal_to_clauses st)) []) (enumerate 0 (sp_clauses st)),
         num_deleted_literals := 0 \<rparr>"
proof -
  have inner: "foldl (\<lambda>s lit. s\<lparr> literal_to_clauses := (literal_to_clauses s)[lit := literal_to_clauses s ! lit @ [ci]] \<rparr>) s clause
      = s\<lparr> literal_to_clauses := push_occurrences (ci, clause) (literal_to_clauses s) \<rparr>" for ci clause and s :: sat_presolver
    unfolding push_occurrences_def by (induction clause arbitrary: s) simp_all
  have outer: "foldl (\<lambda>s (ci, clause).
         foldl (\<lambda>s lit. s\<lparr> literal_to_clauses := (literal_to_clauses s)[lit := literal_to_clauses s ! lit @ [ci]] \<rparr>) s clause) s ps
      = s\<lparr> literal_to_clauses := foldl (\<lambda>L p. push_occurrences p L) (literal_to_clauses s) ps \<rparr>" for ps and s :: sat_presolver
    by (induction ps arbitrary: s) (auto simp: inner)
  show ?thesis unfolding RebuildLiteralToClauses_def outer by simp
qed

lemma push_occurrences_nth:
  assumes "distinct clause" "set clause \<subseteq> {..<length L}"
  shows "length (push_occurrences (ci, clause) L) = length L"
    "push_occurrences (ci, clause) L ! e = L ! e @ (if e \<in> set clause then [ci] else [])"
proof -
  have "length (push_occurrences (ci, clause) L) = length L \<and>
    push_occurrences (ci, clause) L ! e = L ! e @ (if e \<in> set clause then [ci] else [])"
    using assms unfolding push_occurrences_def
    by (induction clause arbitrary: L) (auto simp: nth_list_update)
  then show "length (push_occurrences (ci, clause) L) = length L"
    "push_occurrences (ci, clause) L ! e = L ! e @ (if e \<in> set clause then [ci] else [])" by blast+
qed

lemma push_all_occurrences:
  assumes "\<forall>c \<in> set cls. distinct c \<and> set c \<subseteq> {..<n}"
  defines "L \<equiv> foldl (\<lambda>L p. push_occurrences p L) (replicate n []) (enumerate 0 cls)"
  shows "length L = n \<and> (\<forall>e < n. L ! e = filter (\<lambda>i. e \<in> set (cls ! i)) [0..<length cls])"
  using assms(1) unfolding L_def
proof (induction cls rule: rev_induct)
  case (snoc c cls)
  let ?L = "foldl (\<lambda>L p. push_occurrences p L) (replicate n []) (enumerate 0 cls)"
  have IH: "length ?L = n" "\<And>e. e < n \<Longrightarrow> ?L ! e = filter (\<lambda>i. e \<in> set (cls ! i)) [0..<length cls]" using snoc by auto
  have c: "distinct c" "set c \<subseteq> {..<length ?L}" using snoc.prems IH by auto
  note p = push_occurrences_nth[OF c, of "length cls"]
  have f: "filter (\<lambda>i. e \<in> set ((cls @ [c]) ! i)) [0..<length cls] = filter (\<lambda>i. e \<in> set (cls ! i)) [0..<length cls]" for e
    by (intro filter_cong) (auto simp: nth_append)
  show ?case using IH p by (simp add: enumerate_append_eq f)
qed simp

lemma RebuildLiteralToClauses_spec:
  assumes "valid st"
  shows "valid (RebuildLiteralToClauses st)"
    "\<exists>L. RebuildLiteralToClauses st = st\<lparr> literal_to_clauses := L, num_deleted_literals := 0 \<rparr>"
proof -
  note v = validD[OF assms]
  let ?t = "RebuildLiteralToClauses st"
  show ex: "\<exists>L. ?t = st\<lparr> literal_to_clauses := L, num_deleted_literals := 0 \<rparr>" unfolding RebuildLiteralToClauses_alt by blast
  let ?n = "length (literal_to_clause_sizes st)"
  have "\<forall>c \<in> set (sp_clauses st). distinct c \<and> set c \<subseteq> {..<?n}"
    using clauses_okD(1,2)[OF v(2)] good_distinct by (fastforce simp: in_set_conv_nth[of _ "sp_clauses st"])
  note pa = push_all_occurrences[OF this]
  have L: "length (literal_to_clauses ?t) = ?n" "\<And>e. e < ?n \<Longrightarrow> literal_to_clauses ?t ! e = filter (\<lambda>i. e \<in> set (sp_clauses st ! i)) [0..<length (sp_clauses st)]"
    using pa shapeD(3)[OF v(1)] unfolding RebuildLiteralToClauses_alt by simp_all
  have sel: "sp_clauses ?t = sp_clauses st" "signatures ?t = signatures st" "in_clause_to_process ?t = in_clause_to_process st"
    "clause_to_process ?t = clause_to_process st" "literal_to_clause_sizes ?t = literal_to_clause_sizes st"
    "var_weights ?t = var_weights st" "var_pq ?t = var_pq st" "bva_weights ?t = bva_weights st" "bva_pq ?t = bva_pq st"
    by (simp_all add: RebuildLiteralToClauses_alt)
  have "lists_ok e ?t" if "e < ?n" for e unfolding lists_ok_def sel L(2)[OF that] by auto
  then show "valid ?t" using v L(1) var_queue_cong[of ?t st] bva_queue_cong[of ?t st] sel
    by (simp add: valid_def valid_but_lits_def shape_def clauses_ok_def sizes_ok_def)
qed

section \<open>What the presolve ensures\<close>

definition presolved :: "nat set \<Rightarrow> sat_presolver \<Rightarrow> sat_presolver \<Rightarrow> bool" where
  "presolved V st t \<longleftrightarrow> valid t \<and> reduces (problem st) (problem t) \<and>
     length (literal_to_clause_sizes t) = length (literal_to_clause_sizes st) \<and> parameters t = parameters st \<and>
     literals t \<subseteq> literals st \<and> keeps_queues st t \<and>
     (\<exists>Q. postsolver_adds t = postsolver_adds st @ Q \<and> pushes V (literals st) Q)"

lemma presolved_refl: "valid st \<Longrightarrow> presolved V st st"
  by (simp add: presolved_def)

lemma presolved_trans:
  assumes "presolved V s t" "presolved V t u"
  shows "presolved V s u"
proof -
  note a = assms[unfolded presolved_def]
  obtain Q where Q: "postsolver_adds t = postsolver_adds s @ Q" "pushes V (literals s) Q" using a(1) by blast
  obtain R where R: "postsolver_adds u = postsolver_adds t @ R" "pushes V (literals t) R" using a(2) by blast
  have "pushes V (literals s) R" using R(2) a(1) pushes_mono by blast
  then have "\<exists>Q. postsolver_adds u = postsolver_adds s @ Q \<and> pushes V (literals s) Q"
    using Q R(1) by (intro exI[of _ "Q @ R"]) simp
  moreover have "keeps_queues s u" "reduces (problem s) (problem u)"
    using a keeps_queues_trans[of s t u] reduces_trans[of "problem s" "problem t" "problem u"] by blast+
  ultimately show ?thesis unfolding presolved_def using a by auto
qed

lemma presolved_unsat: "presolved V s t \<Longrightarrow> unsat (formula t) \<Longrightarrow> unsat (formula s)"
  using unsat_reduces by (auto simp: presolved_def)

lemma presolved_eliminates: "valid t \<Longrightarrow> eliminates v s t \<Longrightarrow> v \<in> V \<Longrightarrow> presolved V s t"
  unfolding eliminates_def presolved_def using pushes_mono[of "{v}" "literals s" _ V "literals s"] by auto

lemma keeps_literals:
  assumes "keeps s t"
  shows "literals t \<subseteq> literals s"
proof
  fix l assume "l \<in> literals t"
  then obtain i where "i < length (sp_clauses t)" "l \<in> set (sp_clauses t ! i)" by (rule literalsE)
  then show "l \<in> literals s" using assms literalsI[of i s l] by (auto simp: keeps_def)
qed

lemma presolved_processed: "processed clock s True t \<Longrightarrow> presolved V s t"
  using keeps_literals[of s t] by (auto simp: processed_def presolved_def keeps_def)

lemma presolved_same_core:
  assumes "valid s" "same_core t s" "postsolver_adds t = postsolver_adds s" "parameters t = parameters s"
  shows "presolved V s t"
proof -
  have "problem t = problem s" using assms by (intro problem_cong) (simp_all add: same_core_def)
  moreover have "keeps_queues s t" using assms(2) by (intro keeps_queues_same) (simp_all add: same_core_def)
  moreover have "valid t" using assms(1) valid_same_core[OF assms(2)] by (simp add: valid_def)
  ultimately show ?thesis using assms(2-4) by (simp add: presolved_def same_core_def literals_def)
qed

lemma presolved_LimitReached:
  assumes "valid st" "LimitReached clock st = (reached, t)"
  shows "presolved V st t"
  using LimitReached_spec[OF assms] assms(2) by (intro presolved_same_core assms(1)) (auto simp: LimitReached_def)

lemma presolved_Rebuild:
  assumes "valid st"
  shows "presolved V st (RebuildLiteralToClauses st)"
proof -
  obtain L where L: "RebuildLiteralToClauses st = st\<lparr> literal_to_clauses := L, num_deleted_literals := 0 \<rparr>"
    using RebuildLiteralToClauses_spec(2)[OF assms] by blast
  have "problem (RebuildLiteralToClauses st) = problem st" by (rule problem_cong) (simp_all add: L)
  moreover have "keeps_queues st (RebuildLiteralToClauses st)" by (rule keeps_queues_same) (simp_all add: L)
  ultimately show ?thesis using RebuildLiteralToClauses_spec(1)[OF assms] by (simp add: presolved_def L literals_def)
qed

section \<open>The loop over the variables\<close>

text \<open>A clock that stays up once it is up, as \<open>TimeLimit::LimitReached\<close> guarantees.\<close>

definition mono_clock :: "clock \<Rightarrow> bool" where
  "mono_clock clock \<longleftrightarrow> (\<forall>m n. m \<le> n \<longrightarrow> clock m \<longrightarrow> clock n)"

definition ready :: "sat_presolver \<Rightarrow> bool" where
  "ready st \<longleftrightarrow> valid st \<and> clause_to_process st = [] \<and> settled {} st \<and>
     \<not> filter_sat_postsolve_clauses (parameters st) \<and> (var_weights st = [] \<longrightarrow> pq_elems (var_pq st) = [])"

lemma ready_no_contradiction:
  assumes "ready st"
  shows "no_contradiction x st"
proof -
  have u: "settled {} st" "clause_to_process st = []" using assms by (simp_all add: ready_def)
  have False if "i < length (sp_clauses st)" "sp_clauses st ! i = [x]" "j < length (sp_clauses st)" "sp_clauses st ! j = [Negated x]" for i j
    using u that unfolding settled_def units_done_def by force
  then show ?thesis by (auto simp: no_contradiction_def in_set_conv_nth)
qed

definition used :: "sat_presolver \<Rightarrow> nat set" where
  "used st = Variable ` literals st"

lemma finite_used: "finite (used st)"
  by (auto simp: used_def literals_def)

lemma used_presolved: "presolved V s t \<Longrightarrow> used t \<subseteq> used s"
  by (auto simp: used_def presolved_def)

lemma NumVariables_presolved: "presolved V s t \<Longrightarrow> NumVariables t = NumVariables s"
  by (simp add: presolved_def NumVariables_def)

lemma not_used_iff: "v \<notin> used st \<longleftrightarrow> 2 * v \<notin> literals st \<and> Negated (2 * v) \<notin> literals st"
proof -
  have "l \<in> literals st \<Longrightarrow> Variable l = v \<Longrightarrow> l = 2 * v \<or> l = Negated (2 * v)" for l
    using Variable_eq_iff[of l "2 * v"] by (auto simp: Variable_def)
  moreover have "Variable (2 * v) = v" by (simp add: Variable_def)
  ultimately show ?thesis unfolding used_def by (metis (no_types, lifting) Variable_Negated image_iff)
qed

definition smaller :: "sat_presolver \<Rightarrow> sat_presolver \<Rightarrow> bool" where
  "smaller t st \<longleftrightarrow> card (used t) < card (used st) \<or> card (used t) \<le> card (used st) \<and> total_literals t < total_literals st \<or>
     card (used t) \<le> card (used st) \<and> total_literals t \<le> total_literals st \<and> var_pq t = var_pq st"

lemma eliminate_variable_spec:
  assumes "ready st" "mono_clock clock" "v < NumVariables st"
  shows "\<exists>r t. eliminate_variable clock v st = Some (r, t) \<and> (r = Some False \<longrightarrow> unsat (formula st)) \<and>
    (r \<noteq> Some False \<longrightarrow> presolved {v} st t) \<and> (r = None \<longrightarrow> ready t \<and> smaller t st)"
proof -
  have st: "valid st" "clause_to_process st = []" "settled {} st" "\<not> filter_sat_postsolve_clauses (parameters st)"
    using assms(1) by (simp_all add: ready_def)
  have xr: "2 * v < length (literal_to_clause_sizes st)" using assms(3) shapeD(4)[OF validD(1)[OF st(1)]] by simp
  have vv: "Variable (2 * v) = v" by (simp add: Variable_def)
  obtain el s where cp: "CrossProduct (2 * v) st = (el, s)" by fastforce
  note c = CrossProduct_spec[OF st(1) ready_no_contradiction[OF assms(1)] st(4) xr cp]
  have ps: "presolved {v} st s" using presolved_eliminates[OF c(1,2)] vv by simp
  have us: "settled {} s" using settled_eliminates[OF st(3) c(2)] .
  note pa = ProcessAllClauses_spec[OF c(1) us, of clock]
  obtain ok t1 where t1: "(if el then ProcessAllClauses clock s else Some (True, s)) = Some (ok, t1)"
    and p1: "if el then processed clock s ok t1 else ok \<and> t1 = s" using pa by (cases el) auto
  show ?thesis
  proof (cases ok)
    case False
    then have "unsat (formula s)" using p1 by (auto simp: processed_def split: if_splits)
    then have "unsat (formula st)" using presolved_unsat[OF ps] by blast
    moreover have "eliminate_variable clock v st = Some (Some False, t1)"
      using t1 False by (simp add: eliminate_variable_def cp Let_def)
    ultimately show ?thesis by blast
  next
    case ok: True
    have pt1: "presolved {v} st t1"
      using p1 ok presolved_processed[of clock s t1 "{v}"] presolved_trans[OF ps] ps by (auto split: if_splits)
    let ?t2 = "if el \<and> num_deleted_literals t1 > 10000000 then RebuildLiteralToClauses t1 else t1"
    have vt1: "valid t1" using pt1 by (simp add: presolved_def)
    have pt2: "presolved {v} t1 ?t2" using presolved_Rebuild[OF vt1] presolved_refl[OF vt1] by simp
    have vt2: "valid ?t2" using pt2 unfolding presolved_def by blast
    obtain reached t3 where lr: "LimitReached clock ?t2 = (reached, t3)" by fastforce
    note l = LimitReached_spec[OF vt2 lr]
    have pt3: "presolved {v} st t3"
      using presolved_trans[OF presolved_trans[OF pt1 pt2] presolved_LimitReached[OF vt2 lr]] .
    have run: "eliminate_variable clock v st = (if reached \<or> work_limit_reached t3 then Some (Some True, t3) else Some (None, t3))"
      using t1 ok lr unfolding eliminate_variable_def cp Let_def prod.case by (simp del: if_split cong: if_cong)
    show ?thesis
    proof (cases "reached \<or> work_limit_reached t3")
      case True
      then have "eliminate_variable clock v st = Some (Some True, t3)" using run by simp
      then show ?thesis using pt3 by blast
    next
      case False
      have fields: "clause_to_process ?t2 = clause_to_process t1" "sp_clauses ?t2 = sp_clauses t1" "limit_queries ?t2 = limit_queries t1"
        "inspected ?t2 = inspected t1" "var_pq ?t2 = var_pq t1"
        by (simp_all add: RebuildLiteralToClauses_alt inspected_def)
      have t3: "t3 = ?t2\<lparr> limit_queries := limit_queries ?t2 + 1 \<rparr>" "reached = clock (limit_queries ?t2)"
        using lr by (auto simp: LimitReached_def)
      have "inspected t3 = inspected t1" using fields(4) unfolding t3(1) by (simp add: inspected_def)
      then have nw: "\<not> work_limit_reached t1" using False by (simp add: work_limit_reached_def inspected_def)
      have nl: "\<not> (\<exists>n < limit_queries t1. clock n)"
        using False t3(2) fields(3) assms(2) unfolding mono_clock_def by (metis less_imp_le)
      have q1: "clause_to_process t1 = [] \<and> settled {} t1"
        using p1 ok nw nl c(4) st(2) us by (auto simp: processed_def split: if_splits)
      have f3: "clause_to_process t3 = clause_to_process t1" "sp_clauses t3 = sp_clauses t1" "var_pq t3 = var_pq t1"
        using fields unfolding t3(1) by simp_all
      have kq: "keeps_queues st t3" and vt3: "valid t3" and par: "parameters t3 = parameters st"
        using pt3 by (simp_all add: presolved_def)
      have "var_weights t3 = [] \<longrightarrow> pq_elems (var_pq t3) = []"
        using kq assms(1) by (auto simp: keeps_queues_def ready_def split: if_splits)
      then have "ready t3" using q1 f3 vt3 par st(4) settled_cong[OF f3(2), of "{}"] unfolding ready_def by simp
      moreover have "smaller t3 st"
      proof (cases el)
        case True
        have "v \<in> used st" "v \<notin> used s" using c(3)[OF True] by (simp_all add: not_used_iff[of v])
          (metis not_used_iff)
        moreover have "used t3 \<subseteq> used s"
        proof -
          have "used t1 \<subseteq> used s" using used_presolved[OF presolved_processed[of clock s t1]] p1 True ok by simp
          then show ?thesis using f3(2) by (simp add: used_def literals_def)
        qed
        moreover have "used s \<subseteq> used st" using used_presolved[OF ps] .
        ultimately have "used t3 \<subset> used st" by blast
        then show ?thesis using psubset_card_mono[OF finite_used] by (simp add: smaller_def)
      next
        case False
        then have s1: "t1 = s" using p1 by simp
        have "card (used s) \<le> card (used st)" by (rule card_mono[OF finite_used used_presolved[OF ps]])
        moreover have "used t3 = used s" "total_literals t3 = total_literals s"
          using f3(2) s1 by (simp_all add: used_def literals_def total_literals_def)
        ultimately show ?thesis using c(4)[OF False] f3(3) s1 by (auto simp: smaller_def)
      qed
      moreover have "eliminate_variable clock v st = Some (None, t3)" using run False by simp
      ultimately show ?thesis using pt3 by blast
    qed
  qed
qed

lemma presolved_weaken: "presolved V s t \<Longrightarrow> V \<subseteq> W \<Longrightarrow> presolved W s t"
  unfolding presolved_def using pushes_mono[of V "literals s" _ W "literals s"] by blast

lemma pop_variable_spec:
  assumes "ready st" "pq_elems (var_pq st) \<noteq> []"
  shows "ready (pop_variable st)" "presolved V st (pop_variable st)" "pq_Top (var_pq st) < NumVariables st"
    "length (pq_elems (var_pq (pop_variable st))) < length (pq_elems (var_pq st))"
    "used (pop_variable st) = used st" "total_literals (pop_variable st) = total_literals st"
    "formula (pop_variable st) = formula st"
proof -
  let ?t = "pop_variable st"
  have w: "var_weights st \<noteq> []" and vs: "valid st" using assms by (auto simp: ready_def)
  note v = validD[OF vs]
  note p = pop_variable_ok[OF v(3) assms(2) w]
  have sel: "sp_clauses ?t = sp_clauses st" "signatures ?t = signatures st" "in_clause_to_process ?t = in_clause_to_process st"
    "clause_to_process ?t = clause_to_process st" "literal_to_clause_sizes ?t = literal_to_clause_sizes st"
    "literal_to_clauses ?t = literal_to_clauses st" "var_weights ?t = var_weights st" "bva_weights ?t = bva_weights st"
    "bva_pq ?t = bva_pq st" "parameters ?t = parameters st" "postsolver_adds ?t = postsolver_adds st"
    by (simp_all add: pop_variable_def)
  have vt: "valid ?t" using v(1,2,5,6) p(1) bva_queue_cong[of ?t st] v(4) sel
    by (simp add: valid_def valid_but_lits_def shape_def clauses_ok_def lists_ok_def sizes_ok_def)
  then show "ready ?t" using assms(1) w sel settled_cong[OF sel(1), of "{}"] by (simp add: ready_def)
  have "problem ?t = problem st" by (rule problem_cong) (simp_all add: sel)
  moreover have "keeps_queues st ?t" using w sel by (simp add: keeps_queues_def)
  ultimately show "presolved V st ?t" using vt sel by (simp add: presolved_def literals_def)
  show "pq_Top (var_pq st) < NumVariables st" by (rule p(2))
  have "pq_Top (var_pq st) \<in># mset (pq_elems (var_pq st))" using assms(2) by (simp add: pq_Top_def)
  then have "size (mset (pq_elems (var_pq ?t))) < size (mset (pq_elems (var_pq st)))"
    unfolding p(3) by (rule size_Diff1_less)
  then show "length (pq_elems (var_pq ?t)) < length (pq_elems (var_pq st))" by simp
  show "used ?t = used st" "total_literals ?t = total_literals st" "formula ?t = formula st"
    using sel by (simp_all add: used_def literals_def total_literals_def formula_def)
qed

definition removable :: "bool list \<Rightarrow> nat set" where
  "removable can_be_removed = {v. can_be_removed ! v}"

theorem elimination_loop_spec:
  assumes "mono_clock clock" "ready st"
  shows "\<exists>r t. elimination_loop clock can_be_removed st = Some (r, t) \<and> (r = Some False \<longrightarrow> unsat (formula st)) \<and>
    (r \<noteq> Some False \<longrightarrow> presolved (removable can_be_removed) st t) \<and> (r = None \<longrightarrow> ready t)"
  using assms(2)
proof (induction st rule: wf_induct_rule[OF wf_measures[of "[\<lambda>s. card (used s), total_literals, \<lambda>s. length (pq_elems (var_pq s))]"]])
  case (1 st)
  let ?V = "removable can_be_removed" and ?v = "pq_Top (var_pq st)" and ?p = "pop_variable st"
  have vs: "valid st" using "1.prems" by (simp add: ready_def)
  show ?case
  proof (cases "pq_elems (var_pq st) = []")
    case True
    then have "elimination_loop clock can_be_removed st = Some (None, st)" by (subst elimination_loop.simps) simp
    then show ?thesis using presolved_refl[OF vs] "1.prems" by blast
  next
    case ne: False
    note p = pop_variable_spec[OF "1.prems" ne]
    have go: ?thesis if t: "ready t" "presolved ?V st t" "elimination_loop clock can_be_removed st = elimination_loop clock can_be_removed t"
      "(t, st) \<in> measures [\<lambda>s. card (used s), total_literals, \<lambda>s. length (pq_elems (var_pq s))]" for t
    proof -
      obtain r u where u: "elimination_loop clock can_be_removed t = Some (r, u)" "r = Some False \<longrightarrow> unsat (formula t)"
        "r \<noteq> Some False \<longrightarrow> presolved ?V t u" "r = None \<longrightarrow> ready u" using "1.IH"[OF t(4,1)] by blast
      then show ?thesis using t(2,3) presolved_unsat[OF t(2)] presolved_trans[OF t(2)] by auto
    qed
    show ?thesis
    proof (cases "can_be_removed ! ?v")
      case False
      have "elimination_loop clock can_be_removed st = elimination_loop clock can_be_removed ?p"
        using ne False by (subst elimination_loop.simps) simp
      then show ?thesis using go[OF p(1,2)] p(4-6) by simp
    next
      case True
      have "?v < NumVariables ?p" using p(3) NumVariables_presolved[OF p(2)] by simp
      then obtain r t where e: "eliminate_variable clock ?v ?p = Some (r, t)" "r = Some False \<longrightarrow> unsat (formula ?p)"
        "r \<noteq> Some False \<longrightarrow> presolved {?v} ?p t" "r = None \<longrightarrow> ready t \<and> smaller t ?p"
        using eliminate_variable_spec[OF p(1) assms(1)] by blast
      have pt: "presolved ?V st t" if "r \<noteq> Some False"
        using presolved_trans[OF p(2) presolved_weaken[of "{?v}" ?p t ?V]] e(3) that True by (simp add: removable_def)
      have run: "elimination_loop clock can_be_removed st =
          (case r of Some b \<Rightarrow> Some (Some b, t) | None \<Rightarrow> elimination_loop clock can_be_removed t)"
        using ne True e(1) by (subst elimination_loop.simps) simp
      show ?thesis
      proof (cases r)
        case None
        have "(t, st) \<in> measures [\<lambda>s. card (used s), total_literals, \<lambda>s. length (pq_elems (var_pq s))]"
          using e(4) None p(4-6) by (auto simp: smaller_def)
        then show ?thesis using go[of t] e(4) None pt run by simp
      next
        case (Some b)
        then show ?thesis using run e(2) p(7) pt by auto
      qed
    qed
  qed
qed

section \<open>A state as loaded\<close>

definition fresh :: "sat_presolver \<Rightarrow> bool" where
  "fresh st \<longleftrightarrow> valid st \<and> var_weights st = [] \<and> bva_weights st = [] \<and> pq_elems (var_pq st) = [] \<and> pq_elems (bva_pq st) = [] \<and>
     (\<forall>i < length (sp_clauses st). i \<in> set (clause_to_process st))"

lemma fresh_settled: "fresh st \<Longrightarrow> settled {} st"
  by (simp add: fresh_def settled_defs)

text \<open>The passes before variables are added.\<close>

lemma presolve_passes_spec:
  assumes "fresh st" "mono_clock clock" "\<not> filter_sat_postsolve_clauses (parameters st)"
  shows "\<exists>r t. presolve_passes clock can_be_removed st = Some (r, t) \<and> (r = Some False \<longrightarrow> unsat (formula st)) \<and>
    (r \<noteq> Some False \<longrightarrow> valid t \<and> reduces (problem st) (problem t) \<and> NumVariables t = NumVariables st \<and> parameters t = parameters st \<and>
      (\<exists>Q. postsolver_adds t = postsolver_adds st @ Q \<and> pushes (removable can_be_removed) (literals st) Q)) \<and>
    (r = None \<longrightarrow> ready t)"
proof -
  let ?V = "removable can_be_removed"
  have vs: "valid st" using assms(1) by (simp add: fresh_def)
  obtain ok1 s where s: "ProcessAllClauses clock st = Some (ok1, s)" "processed clock st ok1 s"
    using ProcessAllClauses_spec[OF vs fresh_settled[OF assms(1)]] by blast
  have fin: ?thesis if "presolve_passes clock can_be_removed st = Some (Some True, t)" "presolved ?V st t" for t
    using that NumVariables_presolved[OF that(2)] by (auto simp: presolved_def)
  show ?thesis
  proof (cases ok1)
    case False
    then have "presolve_passes clock can_be_removed st = Some (Some False, s)" "unsat (formula st)"
      using s by (simp_all add: presolve_passes_def processed_def)
    then show ?thesis by blast
  next
    case True
    have ps: "presolved ?V st s" using presolved_processed s(2) True by simp
    have vs2: "valid s" using ps by (simp add: presolved_def)
    obtain reached u where u: "LimitReached clock s = (reached, u)" by fastforce
    note l = LimitReached_spec[OF vs2 u]
    have pu: "presolved ?V st u" using presolved_trans[OF ps presolved_LimitReached[OF vs2 u]] .
    show ?thesis
    proof (cases "reached \<or> work_limit_reached u")
      case True
      then have "presolve_passes clock can_be_removed st = Some (Some True, u)" using s(1) \<open>ok1\<close> u by (simp add: presolve_passes_def Let_def)
      then show ?thesis using fin pu by blast
    next
      case False
      have t3: "u = s\<lparr> limit_queries := limit_queries s + 1 \<rparr>" "reached = clock (limit_queries s)" using u by (auto simp: LimitReached_def)
      have "\<not> work_limit_reached s" using False by (simp add: t3(1) work_limit_reached_def)
      moreover have "\<not> (\<exists>n < limit_queries s. clock n)"
        using False t3(2) assms(2) unfolding mono_clock_def by (metis less_imp_le)
      ultimately have q: "clause_to_process s = []" "settled {} s" using s(2) \<open>ok1\<close> by (auto simp: processed_def)
      have kq: "var_weights s = [] \<and> var_pq s = var_pq st" "bva_weights s = []"
        using s(2) \<open>ok1\<close> assms(1) by (auto simp: processed_def keeps_def keeps_queues_def fresh_def)
      let ?i = "InitializePriorityQueue u"
      obtain w pq where i: "?i = u\<lparr> var_weights := w, var_pq := pq \<rparr>" using InitializePriorityQueue_frame by blast
      have wu: "var_weights u = []" "pq_elems (var_pq u) = []" using kq assms(1) by (simp_all add: t3(1) fresh_def)
      note io = InitializePriorityQueue_ok[OF wu]
      have sel: "sp_clauses ?i = sp_clauses u" "signatures ?i = signatures u" "in_clause_to_process ?i = in_clause_to_process u"
        "clause_to_process ?i = clause_to_process u" "literal_to_clause_sizes ?i = literal_to_clause_sizes u"
        "literal_to_clauses ?i = literal_to_clauses u" "bva_weights ?i = bva_weights u"
        "bva_pq ?i = bva_pq u" "parameters ?i = parameters u" "postsolver_adds ?i = postsolver_adds u" by (simp_all add: i)
      note vu = validD[OF l(1)]
      have vi: "valid ?i" using vu(1,2,5,6) io(1) bva_queue_cong[of ?i u] vu(4) sel
        by (simp add: valid_def valid_but_lits_def shape_def clauses_ok_def lists_ok_def sizes_ok_def)
      have par: "parameters u = parameters st" using pu by (simp add: presolved_def)
      have "var_weights ?i = [] \<longrightarrow> pq_elems (var_pq ?i) = []"
      proof
        assume e: "var_weights ?i = []"
        have "length (var_weights ?i) = NumVariables st"
          using add_variables_queue[of "u\<lparr> var_weights := resize_list (NumVariables u) 0 (var_weights u) \<rparr>" "NumVariables u"] wu
            NumVariables_presolved[OF pu]
          unfolding InitializePriorityQueue_alt Let_def by (simp add: resize_list_def NumVariables_def)
        then have "NumVariables u = 0" using e NumVariables_presolved[OF pu] by simp
        then show "pq_elems (var_pq ?i) = []" using io(2) by simp
      qed
      moreover have "clause_to_process u = []" "settled {} u" using q by (simp_all add: t3(1) settled_defs)
      ultimately have ri: "ready ?i" using vi sel assms(3) par by (simp add: ready_def settled_defs)
      obtain r t where t: "elimination_loop clock can_be_removed ?i = Some (r, t)" "r = Some False \<longrightarrow> unsat (formula ?i)"
        "r \<noteq> Some False \<longrightarrow> presolved ?V ?i t" "r = None \<longrightarrow> ready t" using elimination_loop_spec[OF assms(2) ri] by blast
      have fi: "formula ?i = formula u" "problem ?i = problem u" by (simp_all add: formula_def problem_def sel)
      have run: "presolve_passes clock can_be_removed st = Some (r, t)"
        using s(1) \<open>ok1\<close> u False t(1) by (simp add: presolve_passes_def Let_def)
      have "unsat (formula st)" if "r = Some False" using t(2) that fi(1) presolved_unsat[OF pu] by simp
      moreover have "valid t \<and> reduces (problem st) (problem t) \<and> NumVariables t = NumVariables st \<and> parameters t = parameters st \<and>
          (\<exists>Q. postsolver_adds t = postsolver_adds st @ Q \<and> pushes ?V (literals st) Q)" if "r \<noteq> Some False"
      proof -
        have pt: "presolved ?V ?i t" using t(3) that by blast
        have "reduces (problem st) (problem t)"
          using pu pt fi(2) reduces_trans[of "problem st" "problem u" "problem t"] by (simp add: presolved_def)
        moreover have "NumVariables t = NumVariables st"
          using NumVariables_presolved[OF pu] NumVariables_presolved[OF pt] sel(5) by (simp add: NumVariables_def)
        moreover obtain Q where Q: "postsolver_adds u = postsolver_adds st @ Q" "pushes ?V (literals st) Q" using pu by (auto simp: presolved_def)
        moreover obtain R where R: "postsolver_adds t = postsolver_adds ?i @ R" "pushes ?V (literals ?i) R" using pt by (auto simp: presolved_def)
        have "literals ?i \<subseteq> literals st" using pu sel(1) by (simp add: presolved_def literals_def)
        then have "pushes ?V (literals st) R" using R(2) pushes_mono by blast
        moreover have "valid t" "parameters t = parameters st" using pt sel(9) par by (simp_all add: presolved_def)
        ultimately show ?thesis using R(1) sel(10) by (auto intro!: exI[of _ "Q @ R"])
      qed
      ultimately show ?thesis using run t(4) by blast
    qed
  qed
qed

text \<open>What the addition of variables needs: a threshold that is not negative, and clauses whose number, doubled, is
  an \<open>int\<close>.\<close>

definition bva_fits :: "clock \<Rightarrow> bool list \<Rightarrow> sat_presolver \<Rightarrow> bool" where
  "bva_fits clock can_be_removed st \<longleftrightarrow> presolve_use_bva (parameters st) \<longrightarrow> 0 \<le> presolve_bva_threshold (parameters st) \<and>
     (case presolve_passes clock can_be_removed st of
        Some (None, s) \<Rightarrow> 2 * int (length (filter (\<lambda>c. c \<noteq> []) (sp_clauses s))) < kint32max
      | _ \<Rightarrow> True)"

theorem Presolve_spec:
  assumes "fresh st" "mono_clock clock" "\<not> filter_sat_postsolve_clauses (parameters st)" "bva_fits clock can_be_removed st"
  shows "\<exists>ok t. Presolve clock can_be_removed st = Some (ok, t) \<and> (\<not> ok \<longrightarrow> unsat (formula st)) \<and>
    (ok \<longrightarrow> valid t \<and> reduces (problem st) (problem t) \<and> NumVariables st \<le> NumVariables t \<and>
      (\<exists>Q. postsolver_adds t = postsolver_adds st @ Q \<and> pushes (removable can_be_removed) (literals st) Q))"
proof -
  obtain r t where t: "presolve_passes clock can_be_removed st = Some (r, t)" "r = Some False \<longrightarrow> unsat (formula st)"
    "r \<noteq> Some False \<longrightarrow> valid t \<and> reduces (problem st) (problem t) \<and> NumVariables t = NumVariables st \<and> parameters t = parameters st \<and>
      (\<exists>Q. postsolver_adds t = postsolver_adds st @ Q \<and> pushes (removable can_be_removed) (literals st) Q)" "r = None \<longrightarrow> ready t"
    using presolve_passes_spec[OF assms(1-3), of can_be_removed] by blast
  show ?thesis
  proof (cases "r = None \<and> presolve_use_bva (parameters t)")
    case False
    then have "Presolve clock can_be_removed st = Some (r \<noteq> Some False, t)"
      using t(1) by (cases r) (auto simp: Presolve_def)
    then show ?thesis using t(2,3) by auto
  next
    case True
    then have r: "ready t" "r = None" "presolve_use_bva (parameters st)" using t(3,4) by auto
    then have f: "0 \<le> presolve_bva_threshold (parameters t)" "2 * int (length (live_clauses t)) < kint32max"
      using assms(4) t(1,3) by (simp_all add: bva_fits_def live_clauses_def)
    have "valid t" "clause_to_process t = []" "settled {} t" using r(1) by (simp_all add: ready_def)
    from PresolveWithBva_spec[OF this f] obtain u where u: "PresolveWithBva clock t = Some u" "valid u" "reduces (problem t) (problem u)"
      "postsolver_adds u = postsolver_adds t" "NumVariables t \<le> NumVariables u" by blast
    have "Presolve clock can_be_removed st = Some (True, u)" using t(1) True u(1) by (simp add: Presolve_def)
    then show ?thesis using t(3) r(2) u(2-5) reduces_trans[of "problem st" "problem t" "problem u"] by auto
  qed
qed

section \<open>Loading the clauses\<close>

lemma fresh_init: "fresh (SatPresolver_init params)"
  by (simp add: fresh_def valid_def valid_but_lits_def shape_def clauses_ok_def SatPresolver_init_def
      var_queue_but_def bva_queue_ok_def pq_empty_def)

lemma resize_occurrences_spec:
  assumes "fresh st" "even n"
  shows "fresh (resize_occurrences n st)" "formula (resize_occurrences n st) = formula st"
    "length (literal_to_clause_sizes (resize_occurrences n st)) = max n (length (literal_to_clause_sizes st))"
    "postsolver_adds (resize_occurrences n st) = postsolver_adds st" "parameters (resize_occurrences n st) = parameters st"
    "equiv_mapping (resize_occurrences n st) = equiv_mapping st"
proof -
  let ?t = "resize_occurrences n st" and ?l = "length (literal_to_clause_sizes st)"
  have vs: "valid st" and idle: "var_weights st = []" "bva_weights st = []" using assms(1) by (simp_all add: fresh_def)
  note v = validD[OF vs]
  have ll: "length (literal_to_clauses st) = ?l" using shapeD(3)[OF v(1)] .
  have sel: "sp_clauses ?t = sp_clauses st" "signatures ?t = signatures st" "in_clause_to_process ?t = in_clause_to_process st"
    "clause_to_process ?t = clause_to_process st" "var_weights ?t = var_weights st" "bva_weights ?t = bva_weights st"
    "var_pq ?t = var_pq st" "bva_pq ?t = bva_pq st" by (simp_all add: resize_occurrences_def)
  have lists: "literal_to_clauses ?t = literal_to_clauses st @ replicate (n - ?l) []"
    and sizes: "literal_to_clause_sizes ?t = literal_to_clause_sizes st @ replicate (n - ?l) 0"
    using ll by (simp_all add: resize_occurrences_def resize_list_def)
  have nocc: "e \<notin> set c" if "?l \<le> e" "c \<in> set (sp_clauses st)" for e c
  proof -
    from that(2) obtain i where "i < length (sp_clauses st)" "sp_clauses st ! i = c" by (auto simp: in_set_conv_nth)
    then have "\<And>l. l \<in> set c \<Longrightarrow> l < ?l" using clauses_okD(2)[OF v(2)] by blast
    then show ?thesis using that(1) by (meson leD)
  qed
  have "lists_ok e ?t \<and> sizes_ok e ?t" if e: "e < length (literal_to_clause_sizes ?t)" for e
  proof (cases "e < ?l")
    case True
    then show ?thesis using v(5,6)[OF True] ll by (simp add: lists_ok_def sizes_ok_def sel lists sizes nth_append)
  next
    case False
    then have "literal_to_clauses ?t ! e = []" "literal_to_clause_sizes ?t ! e = 0"
      using e ll by (simp_all add: lists sizes nth_append)
    moreover have "occ_count e (sp_clauses st) = 0" using nocc False by (simp add: occ_count_zero)
    ultimately show ?thesis using nocc[of e] False by (auto simp: lists_ok_def sizes_ok_def sel)
  qed
  moreover have "even (length (literal_to_clause_sizes ?t))" using v(1) assms(2) by (cases "?l \<le> n") (auto simp: shape_def sizes)
  moreover have "clauses_ok ?t"
  proof -
    have "set (sp_clauses st ! i) \<subseteq> {..<length (literal_to_clause_sizes ?t)}" if "i < length (sp_clauses st)" for i
      using clauses_okD(2)[OF v(2) that] by (force simp: sizes)
    then show ?thesis using v(2) by (simp add: clauses_ok_def sel)
  qed
  ultimately have "valid ?t" using v(1) idle ll
    by (simp add: valid_def valid_but_lits_def shape_def sel lists sizes var_queue_but_def bva_queue_ok_def)
  then show "fresh ?t" using assms(1) by (simp add: fresh_def sel)
  show "formula ?t = formula st" "length (literal_to_clause_sizes ?t) = max n ?l"
    "postsolver_adds ?t = postsolver_adds st" "parameters ?t = parameters st" "equiv_mapping ?t = equiv_mapping st"
    by (simp_all add: formula_def sel sizes max_def) (simp_all add: resize_occurrences_def)
qed

lemma sorted_distinct_adj: "sorted xs \<Longrightarrow> distinct_adj xs \<Longrightarrow> distinct (xs :: nat list)"
  by (induction xs rule: induct_list012) auto

lemma canonical_clause_spec:
  assumes "\<not> is_trivial (canonical_clause em c)"
  shows "good_clause (canonical_clause em c)"
    "set (canonical_clause em c) = set (if em \<noteq> [] then map (\<lambda>l. em ! l) c else c)"
proof -
  let ?d = "canonical_clause em c"
  show set: "set ?d = set (if em \<noteq> [] then map (\<lambda>l. em ! l) c else c)" by (simp add: canonical_clause_def)
  have s: "sorted_wrt (<) ?d" by (simp add: canonical_clause_def strict_sorted_iff sorted_distinct_adj)
  have no: False if l: "l \<in> set ?d" "Suc l \<in> set ?d" "even l" for l
  proof -
    obtain i j where ij: "i < length ?d" "?d ! i = l" "j < length ?d" "?d ! j = Suc l" using l by (auto simp: in_set_conv_nth)
    have lt: "a < b \<Longrightarrow> b < length ?d \<Longrightarrow> ?d ! a < ?d ! b" for a b using sorted_wrt_nth_less[OF s] .
    have "i < j" using ij lt[of j i] by (metis Suc_n_not_le_n less_imp_le_nat linorder_neqE_nat n_not_Suc_n)
    moreover have "\<not> Suc i < j" using lt[of i "Suc i"] lt[of "Suc i" j] ij by (metis Suc_lessI less_SucI less_antisym less_irrefl_nat lessI order.strict_trans)
    ultimately have "j = Suc i" by simp
    then have "?d ! j = Negated (?d ! (j - 1))" "j \<in> set [1..<length ?d]" using ij l(3) by (simp_all add: Negated_eq)
    then show False using assms unfolding is_trivial_def by blast
  qed
  have "Negated l \<notin> set ?d" if l: "l \<in> set ?d" for l
  proof
    assume n: "Negated l \<in> set ?d"
    show False
    proof (cases "even l")
      case True
      then show False using no[of l] l n by (simp add: Negated_eq)
    next
      case False
      then have "even (l - 1)" "Suc (l - 1) = l" by (auto elim: oddE)
      then show False using no[of "l - 1"] l n False by (simp add: Negated_eq)
    qed
  qed
  then show "good_clause ?d" using s by (simp add: good_clause_def)
qed

text \<open>The clauses as given, the literals replaced by their representatives.\<close>

definition mapped_clause :: "literal list \<Rightarrow> literal list \<Rightarrow> literal list" where
  "mapped_clause em c = (if em \<noteq> [] then map (\<lambda>l. em ! l) c else c)"

lemma holds_trivial:
  assumes "is_trivial ls"
  shows "holds v ls"
proof -
  obtain i where "i \<in> set [1..<length ls]" "ls ! i = Negated (ls ! (i - 1))" using assms by (auto simp: is_trivial_def)
  then have i: "i < length ls" "i - 1 < length ls" "lit_true v (ls ! i) \<longleftrightarrow> \<not> lit_true v (ls ! (i - 1))" by auto
  show ?thesis using nth_mem[OF i(1)] nth_mem[OF i(2)] i(3) unfolding holds_def by metis
qed

lemma SatPresolver_AddClause_spec:
  assumes "fresh st" "c \<noteq> []"
  shows "fresh (SatPresolver_AddClause c st)"
    "satisfies v (formula (SatPresolver_AddClause c st)) \<longleftrightarrow> satisfies v (formula st) \<and> holds v (mapped_clause (equiv_mapping st) c)"
    "postsolver_adds (SatPresolver_AddClause c st) = postsolver_adds st" "parameters (SatPresolver_AddClause c st) = parameters st"
    "equiv_mapping (SatPresolver_AddClause c st) = equiv_mapping st"
    "length (literal_to_clause_sizes st) \<le> length (literal_to_clause_sizes (SatPresolver_AddClause c st))"
    "(\<And>l. l \<in> set (mapped_clause (equiv_mapping st) c) \<Longrightarrow> l < length (literal_to_clause_sizes st)) \<Longrightarrow>
       length (literal_to_clause_sizes (SatPresolver_AddClause c st)) = length (literal_to_clause_sizes st)"
proof -
  let ?t = "SatPresolver_AddClause c st" and ?ls = "canonical_clause (equiv_mapping st) c"
  have set: "set ?ls = set (mapped_clause (equiv_mapping st) c)" by (simp add: canonical_clause_def mapped_clause_def)
  then have h: "holds v ?ls = holds v (mapped_clause (equiv_mapping st) c)" by (simp add: holds_def)
  have all: "fresh ?t \<and> (satisfies v (formula ?t) \<longleftrightarrow> satisfies v (formula st) \<and> holds v (mapped_clause (equiv_mapping st) c)) \<and>
    postsolver_adds ?t = postsolver_adds st \<and> parameters ?t = parameters st \<and> equiv_mapping ?t = equiv_mapping st \<and>
    length (literal_to_clause_sizes st) \<le> length (literal_to_clause_sizes ?t) \<and>
    ((\<forall>l \<in> set ?ls. l < length (literal_to_clause_sizes st)) \<longrightarrow>
       length (literal_to_clause_sizes ?t) = length (literal_to_clause_sizes st))"
  proof (cases "is_trivial ?ls")
    case True
    then have t: "?t = st\<lparr> num_trivial_clauses := num_trivial_clauses st + 1 \<rparr>" by (simp add: SatPresolver_AddClause_def Let_def)
    have c: "same_core ?t st" by (simp add: t same_core_def)
    have "fresh ?t" using assms(1) valid_same_core[OF c, of "{}"] c by (simp add: fresh_def valid_def same_core_def)
    moreover have "formula ?t = formula st" by (simp add: t formula_def)
    ultimately show ?thesis using holds_trivial[OF True, of v] h by (simp add: t)
  next
    case False
    note g = canonical_clause_spec[OF False]
    define n where "n = max (last ?ls) (Negated (last ?ls)) + 1"
    let ?ci = "length (sp_clauses st)"
    have "set ?ls \<noteq> {}" using set assms(2) by (simp add: mapped_clause_def)
    then have ne: "?ls \<noteq> []" by auto
    let ?r = "resize_occurrences n (push_clause ?ls st)" and ?z = "resize_occurrences n st"
    have ev: "even n" unfolding n_def by (cases "even (last ?ls)") (auto simp: Negated_eq max_def elim: oddE)
    note rs = resize_occurrences_spec[OF assms(1) ev]
    have "sorted (butlast ?ls @ [last ?ls])" using g(1) ne by (simp add: good_clause_def strict_sorted_iff)
    then have "\<forall>l \<in> set (butlast ?ls). l \<le> last ?ls" by (simp add: sorted_append)
    moreover have "set ?ls = insert (last ?ls) (set (butlast ?ls))"
      by (subst append_butlast_last_id[OF ne, symmetric]) (simp only: set_append list.set, simp)
    ultimately have last: "l \<le> last ?ls" if "l \<in> set ?ls" for l using that by auto
    have "last ?ls < n" by (simp add: n_def)
    then have "l < max n (length (literal_to_clause_sizes st))" if "l \<in> set ?ls" for l using last[OF that] by simp
    then have sub: "set ?ls \<subseteq> {..<length (literal_to_clause_sizes ?z)}" unfolding rs(3) by blast
    have pr: "literal_to_clauses ?r = literal_to_clauses ?z" "literal_to_clause_sizes ?r = literal_to_clause_sizes ?z"
      "sp_clauses ?r = sp_clauses st @ [?ls]" "signatures ?r = signatures st @ [SignatureOfClauseVariables ?ls]"
      "in_clause_to_process ?r = in_clause_to_process st @ [True]" "clause_to_process ?r = clause_to_process st @ [?ci]"
      "var_weights ?r = var_weights st" "bva_weights ?r = bva_weights st" "var_pq ?r = var_pq st" "bva_pq ?r = bva_pq st"
      "postsolver_adds ?r = postsolver_adds st" "parameters ?r = parameters st" "equiv_mapping ?r = equiv_mapping st"
      by (simp_all add: resize_occurrences_def)
    have r0: "sp_clauses ?z = sp_clauses st" "signatures ?z = signatures st" "in_clause_to_process ?z = in_clause_to_process st"
      "clause_to_process ?z = clause_to_process st" by (simp_all add: resize_occurrences_def)
    have t: "?t = foldl (\<lambda>s e. add_occurrence ?ci e s) ?r ?ls" using False by (simp add: SatPresolver_AddClause_def Let_def n_def)
    have vr: "valid ?z" using rs(1) by (simp add: fresh_def)
    have len: "length (literal_to_clauses ?r) = length (literal_to_clause_sizes ?r)" using shapeD(3)[OF validD(1)[OF vr]] pr by simp
    have "occurrences_added ?ci ?ls ?r ?t" unfolding t
      using good_distinct[OF g(1)] sub len pr(2) by (intro occurrences_added_fold) simp_all
    moreover have sel: "sp_clauses ?t = sp_clauses ?r" "signatures ?t = signatures ?r" "in_clause_to_process ?t = in_clause_to_process ?r"
      "clause_to_process ?t = clause_to_process ?r" "var_weights ?t = var_weights ?r" "bva_weights ?t = bva_weights ?r"
      "var_pq ?t = var_pq ?r" "bva_pq ?t = bva_pq ?r" "postsolver_adds ?t = postsolver_adds ?r" "parameters ?t = parameters ?r"
      "equiv_mapping ?t = equiv_mapping ?r" unfolding t by (simp_all add: foldl_sel)
    ultimately have ca: "clause_added ?ls ?z ?t" by (simp add: clause_added_def occurrences_added_def pr r0)
    have q: "var_queue_but {} ?t" "bva_queue_ok ?t" using assms(1) sel pr by (simp_all add: var_queue_but_def bva_queue_ok_def fresh_def)
    have "valid ?t" by (rule valid_clause_added[OF vr ca g(1) ne sub q])
    then have "fresh ?t" using assms(1) sel pr by (auto simp: fresh_def less_Suc_eq)
    moreover have "formula ?t = insert ?ls (formula st)" using ne sel(1) pr(3) by (auto simp: formula_def)
    moreover have "length (literal_to_clause_sizes ?t) = max n (length (literal_to_clause_sizes st))"
      using ca rs(3) by (simp add: clause_added_def)
    moreover have "n \<le> length (literal_to_clause_sizes st)" if "\<forall>l \<in> set ?ls. l < length (literal_to_clause_sizes st)"
    proof -
      have "last ?ls < length (literal_to_clause_sizes st)" using that ne by simp
      moreover have "shape st" using assms(1) by (simp add: fresh_def valid_def valid_but_lits_def)
      ultimately show ?thesis using Negated_in_range[of st "last ?ls"] by (simp add: n_def)
    qed
    ultimately show ?thesis using h sel pr by auto
  qed
  then show "fresh ?t" "satisfies v (formula ?t) \<longleftrightarrow> satisfies v (formula st) \<and> holds v (mapped_clause (equiv_mapping st) c)"
    "postsolver_adds ?t = postsolver_adds st" "parameters ?t = parameters st" "equiv_mapping ?t = equiv_mapping st"
    "length (literal_to_clause_sizes st) \<le> length (literal_to_clause_sizes ?t)" by blast+
  show "(\<And>l. l \<in> set (mapped_clause (equiv_mapping st) c) \<Longrightarrow> l < length (literal_to_clause_sizes st)) \<Longrightarrow>
       length (literal_to_clause_sizes ?t) = length (literal_to_clause_sizes st)" using all set by blast
qed

end
