(* ===== verification/SatRecover.thy ===== *)
theory SatRecover
  imports SatRun
begin

text \<open>
  The way back: what \<open>VariableMapping\<close>, \<open>LoadProblemIntoSatSolver\<close> and the postsolver compute, and why the
  solution of the loaded clauses becomes a solution of the clauses first given.
\<close>

section \<open>Assignments as valuations\<close>

definition complete :: "nat \<Rightarrow> variables_assignment \<Rightarrow> bool" where
  "complete n a \<longleftrightarrow> length a = 2 * n \<and> (\<forall>l < 2 * n. a ! Negated l \<longleftrightarrow> \<not> a ! l)"

definition valuation :: "variables_assignment \<Rightarrow> nat \<Rightarrow> bool" where
  "valuation a v = a ! (2 * v)"

lemma literal_cases: "l = 2 * Variable l \<or> l = Negated (2 * Variable l)"
  using Variable_eq_iff[of l "2 * Variable l"] by (auto simp: Variable_def)

lemma lit_true_valuation:
  assumes "complete n a" "l < 2 * n"
  shows "lit_true (valuation a) l \<longleftrightarrow> Assignment_LiteralIsTrue a l"
proof (cases "even l")
  case True
  then have "l = 2 * Variable l" by (simp add: Variable_def)
  then show ?thesis using True by (simp add: lit_true_def valuation_def Assignment_LiteralIsTrue_def)
next
  case False
  then have "2 * Variable l = Negated l" by (auto simp: Variable_def Negated_eq elim: oddE)
  then show ?thesis using False assms by (simp add: lit_true_def valuation_def Assignment_LiteralIsTrue_def complete_def)
qed

lemma holds_valuation:
  assumes "complete n a" "set c \<subseteq> {..<2 * n}"
  shows "holds (valuation a) c \<longleftrightarrow> list_ex (Assignment_LiteralIsTrue a) c"
  using lit_true_valuation[OF assms(1)] assms(2) by (auto simp: holds_def list_ex_iff subset_iff)

lemma postsolve_step_flip:
  assumes "complete n a" "x < 2 * n" "set c \<subseteq> {..<2 * n}"
  shows "complete n (postsolve_step (x, c) a)" "valuation (postsolve_step (x, c) a) = flip (x, c) (valuation a)"
proof -
  let ?b = "AssignFromTrueLiteral x (UnassignLiteral (Negated x) a)"
  have la: "length a = 2 * n" using assms(1) by (simp add: complete_def)
  have nx: "Negated x < 2 * n" using assms(2) by simp
  have b: "?b ! l \<longleftrightarrow> (if Variable l = Variable x then l = x else a ! l)" for l
    using true_AssignFromTrueLiteral[of x "UnassignLiteral (Negated x) a" l] true_UnassignLiteral[OF nx la, of l] la assms(2)
    by (auto simp: Assignment_LiteralIsTrue_def)
  have lb: "length ?b = 2 * n" using la by simp
  have "?b ! Negated l \<longleftrightarrow> \<not> ?b ! l" if "l < 2 * n" for l
    using assms(1) that unfolding b complete_def by (auto simp: Variable_eq_iff)
  then have cb: "complete n ?b" using lb by (simp add: complete_def)
  then show "complete n (postsolve_step (x, c) a)" using assms(1) by (simp add: postsolve_step_def)
  have "valuation ?b = (valuation a)(Variable x := even x)"
  proof
    fix v
    have "Variable (2 * v) = v" by (simp add: Variable_def)
    moreover have "2 * v = x \<longleftrightarrow> even x" if "v = Variable x" using that by (simp add: Variable_def) presburger
    ultimately show "valuation ?b v = ((valuation a)(Variable x := even x)) v" by (auto simp: valuation_def b)
  qed
  then show "valuation (postsolve_step (x, c) a) = flip (x, c) (valuation a)"
    using holds_valuation[OF assms(1,3)] by (simp add: postsolve_step_def flip_def)
qed

lemma postsolve_recover:
  assumes "complete n a" "\<forall>(x, c) \<in> set P. x < 2 * n \<and> set c \<subseteq> {..<2 * n}"
  shows "complete n (foldr postsolve_step P a) \<and> valuation (foldr postsolve_step P a) = recover P (valuation a)"
  using assms(2)
proof (induction P)
  case (Cons p P)
  obtain x c where p: "p = (x, c)" by (cases p)
  then show ?case using Cons postsolve_step_flip[of n "foldr postsolve_step P a" x c] by (simp add: recover_def)
qed (use assms(1) in \<open>simp add: recover_def\<close>)

section \<open>The pushed clauses\<close>

lemma ApplyReverseMapping_identity:
  assumes "reverse_mapping p = map Some [0..<n]" "l < 2 * n"
  shows "ApplyReverseMapping l p = Some (l, p)"
proof -
  have v: "Variable l < n" using assms(2) by (simp add: Variable_less)
  then have "extend_mapping (Variable l + 1) p = p" using assms(1) by (simp add: extend_mapping_def)
  moreover have "(if even l then 2 * Variable l else 2 * Variable l + 1) = l" by (auto simp: Variable_def)
  ultimately show ?thesis using v assms(1) by (simp add: ApplyReverseMapping_def Let_def)
qed

lemma map_literals_identity:
  "reverse_mapping p = map Some [0..<n] \<Longrightarrow> set c \<subseteq> {..<2 * n} \<Longrightarrow> map_literals c p = Some (c, p)"
  by (induction c) (simp_all add: ApplyReverseMapping_identity)

definition push_all :: "pushed \<Rightarrow> sat_postsolver \<Rightarrow> sat_postsolver option" where
  "push_all P p = foldl (\<lambda>q (x, c). Option.bind q (SatPostsolver_Add x c)) (Some p) P"

lemma push_all_identity:
  assumes "reverse_mapping p = map Some [0..<n]" "\<forall>(x, c) \<in> set P. x < 2 * n \<and> set c \<subseteq> {..<2 * n}"
  shows "push_all P p = Some (p\<lparr> po_clauses := po_clauses p @ P \<rparr>)"
  using assms(2)
proof (induction P rule: rev_induct)
  case (snoc q P)
  obtain x c where q: "q = (x, c)" by (cases q)
  have x: "x < 2 * n" "set c \<subseteq> {..<2 * n}" using snoc.prems q by auto
  have r: "reverse_mapping (p\<lparr> po_clauses := po_clauses p @ P \<rparr>) = map Some [0..<n]" using assms(1) by simp
  have "push_all P p = Some (p\<lparr> po_clauses := po_clauses p @ P \<rparr>)" using snoc by simp
  then show ?case using ApplyReverseMapping_identity[OF r x(1)] map_literals_identity[OF r x(2)]
    by (simp add: push_all_def q SatPostsolver_Add_def)
qed (simp add: push_all_def)

section \<open>The mapping of the variables\<close>

definition used_variables :: "sat_presolver \<Rightarrow> nat list" where
  "used_variables st = filter (variable_used st) [0..<NumVariables st]"

definition rank :: "sat_presolver \<Rightarrow> nat \<Rightarrow> nat" where
  "rank st v = length (filter (variable_used st) [0..<v])"

lemma VariableMapping_eq:
  "VariableMapping st = map (\<lambda>v. if variable_used st v then Some (rank st v) else None) [0..<NumVariables st]"
proof -
  let ?f = "\<lambda>(result, new_var) v. if variable_used st v then (result @ [Some new_var], new_var + 1) else (result @ [None], new_var)"
  have "foldl ?f ([], 0) [0..<n] = (map (\<lambda>v. if variable_used st v then Some (rank st v) else None) [0..<n], rank st n)" for n
    by (induction n) (simp_all add: rank_def)
  then show ?thesis by (simp add: VariableMapping_def)
qed

lemma rank_filter: "k < length (filter P [0..<n]) \<Longrightarrow> length (filter P [0..<filter P [0..<n] ! k]) = k"
proof (induction n)
  case (Suc n)
  show ?case
  proof (cases "k < length (filter P [0..<n])")
    case True
    then show ?thesis using Suc.IH by (simp add: nth_append)
  next
    case False
    then have "P n" "k = length (filter P [0..<n])" using Suc.prems by (auto split: if_splits)
    then show ?thesis by (simp add: nth_append)
  qed
qed simp

lemma filter_rank: "v < n \<Longrightarrow> P v \<Longrightarrow> length (filter P [0..<v]) < length (filter P [0..<n]) \<and> filter P [0..<n] ! length (filter P [0..<v]) = v"
proof (induction n)
  case (Suc n)
  then show ?case by (cases "v = n") (auto simp: nth_append)
qed simp

text \<open>The reverse mapping after \<open>ApplyMapping\<close>.\<close>

lemma set_images_prefix:
  assumes "k \<le> n"
  shows "foldl set_image [] (zip (map (\<lambda>v. if P v then Some (length (filter P [0..<v])) else None) [0..<k]) (map Some [0..<k]))
    = map Some (filter P [0..<k])"
  using assms
proof (induction k)
  case (Suc k)
  have e: "(map Some (filter P [0..<k]) @ [None])[length (filter P [0..<k]) := Some k] = map Some (filter P [0..<k]) @ [Some k]"
    by (metis length_map list_update_length)
  show ?case using Suc e by (simp add: set_image_def resize_list_def)
qed simp

lemma ApplyMapping_VariableMapping:
  assumes "reverse_mapping p = map Some [0..<n]" "po_num_variables p = n" "n \<le> NumVariables st" "po_assignment p = replicate (2 * n) False"
  shows "ApplyMapping (VariableMapping st) p = p\<lparr> reverse_mapping := map Some (used_variables st), po_num_variables := NumVariables st,
    po_assignment := replicate (2 * NumVariables st) False \<rparr>"
proof -
  let ?e = "p\<lparr> reverse_mapping := map Some [0..<NumVariables st], po_num_variables := NumVariables st,
    po_assignment := replicate (2 * NumVariables st) False \<rparr>"
  have l: "length (VariableMapping st) = NumVariables st" by (simp add: VariableMapping_eq)
  have "extend_mapping (NumVariables st) p = ?e"
  proof (cases "n = NumVariables st")
    case True
    then show ?thesis using assms by (simp add: extend_mapping_def)
  next
    case False
    have "[0..<n] @ [n..<NumVariables st] = [0..<NumVariables st]" using upt_add_eq_append[of 0 n "NumVariables st - n"] assms(3) by simp
    then have "map Some [0..<n] @ map Some [n..<NumVariables st] = map Some [0..<NumVariables st]" by (simp flip: map_append)
    then show ?thesis using assms False
      by (simp add: extend_mapping_def Let_def Assignment_Resize_def resize_list_def replicate_add[symmetric])
  qed
  then show ?thesis using set_images_prefix[of "NumVariables st" "NumVariables st" "variable_used st"]
    unfolding ApplyMapping_def Let_def l VariableMapping_eq rank_def used_variables_def by simp
qed

section \<open>A solution of the loaded clauses\<close>

lemma assign_solution_spec:
  assumes "distinct us" "set us \<subseteq> {..<n}" "length sol = length us" "length a = 2 * n" "\<forall>u \<in> set us. \<not> a ! (2 * u) \<and> \<not> a ! (2 * u + 1)"
  shows "\<exists>b. assign_solution (zip sol (map Some us)) a = Some b \<and> length b = 2 * n \<and>
    (\<forall>k < length us. b ! (2 * (us ! k)) = sol ! k \<and> b ! (2 * (us ! k) + 1) = (\<not> sol ! k)) \<and>
    (\<forall>l. Variable l \<notin> set us \<longrightarrow> b ! l = a ! l)"
  using assms
proof (induction us arbitrary: sol a)
  case (Cons u us)
  obtain s ss where sol: "sol = s # ss" "length ss = length us" using Cons.prems(3) by (cases sol) auto
  let ?a = "AssignFromTrueLiteral (if s then 2 * u else 2 * u + 1) a"
  have ul: "2 * u < length a" "2 * u + 1 < length a" using Cons.prems(2,4) by auto
  have a: "?a ! l = (l = (if s then 2 * u else 2 * u + 1) \<or> a ! l)" for l
    using ul by (auto simp: AssignFromTrueLiteral_def nth_list_update)
  have "\<forall>w \<in> set us. \<not> ?a ! (2 * w) \<and> \<not> ?a ! (2 * w + 1)"
  proof
    fix w assume w: "w \<in> set us"
    then have "w \<noteq> u" using Cons.prems(1) by auto
    then have "2 * w \<noteq> 2 * u + 1 \<and> 2 * w + 1 \<noteq> 2 * u" by presburger
    then show "\<not> ?a ! (2 * w) \<and> \<not> ?a ! (2 * w + 1)" using Cons.prems(5) w \<open>w \<noteq> u\<close> unfolding a by auto
  qed
  then obtain b where b: "assign_solution (zip ss (map Some us)) ?a = Some b" "length b = 2 * n"
    "\<forall>k < length us. b ! (2 * (us ! k)) = ss ! k \<and> b ! (2 * (us ! k) + 1) = (\<not> ss ! k)"
    "\<forall>l. Variable l \<notin> set us \<longrightarrow> b ! l = ?a ! l"
    using Cons.IH[of ss ?a] Cons.prems(1,2,4) sol(2) by auto
  have "Variable (2 * u) = u" "Variable (2 * u + 1) = u" by (simp_all add: Variable_def)
  then have bu: "b ! (2 * u) = s" "b ! (2 * u + 1) = (\<not> s)"
    using b(4) Cons.prems(1,5) unfolding a by (auto split: if_splits)
  have run: "assign_solution (zip sol (map Some (u # us))) a = Some b" using b(1) sol by (simp split: if_split_asm)
  have at: "b ! (2 * ((u # us) ! k)) = sol ! k \<and> b ! (2 * ((u # us) ! k) + 1) = (\<not> sol ! k)" if "k < length (u # us)" for k
    using that b(3) bu sol by (cases k) auto
  have "b ! l = a ! l" if "Variable l \<notin> set (u # us)" for l
  proof -
    have "l \<noteq> 2 * u" "l \<noteq> 2 * u + 1" using that by (auto simp: Variable_def)
    then show ?thesis using b(4) that unfolding a by (auto split: if_splits)
  qed
  then show ?case using run b(2) at by blast
qed simp

text \<open>The variables left become true.\<close>

lemma assign_unassigned_spec:
  assumes "length a = 2 * n" "\<forall>v < n. \<not> (a ! (2 * v) \<and> a ! (2 * v + 1))"
  shows "complete n (assign_unassigned a)"
    "\<And>l. l < 2 * n \<Longrightarrow> Assignment_LiteralIsAssigned a l \<Longrightarrow> assign_unassigned a ! l = a ! l"
proof -
  define f where "f = (\<lambda>a v. if Assignment_LiteralIsAssigned a (2 * v) then a else AssignFromTrueLiteral (2 * v) a)"
  have fold: "length (foldl f a [0..<k]) = 2 * n \<and>
      (\<forall>l. foldl f a [0..<k] ! l = (if even l \<and> Variable l < k \<and> \<not> Assignment_LiteralIsAssigned a l then True else a ! l))" if "k \<le> n" for k
    using that
  proof (induction k)
    case (Suc k)
    let ?b = "foldl f a [0..<k]"
    have IH: "length ?b = 2 * n" "\<And>l. ?b ! l = (if even l \<and> Variable l < k \<and> \<not> Assignment_LiteralIsAssigned a l then True else a ! l)"
      using Suc by auto
    have v2: "Variable (2 * k) = k" "Variable (2 * k + 1) = k" "Negated (2 * k) = 2 * k + 1" by (simp_all add: Variable_def Negated_eq)
    have ass: "Assignment_LiteralIsAssigned ?b (2 * k) = Assignment_LiteralIsAssigned a (2 * k)"
      unfolding Assignment_LiteralIsAssigned_def IH(2) by (simp add: v2 Variable_def)
    have step: "foldl f a [0..<Suc k] = f ?b k" by simp
    have lt: "2 * k < length ?b" using Suc.prems IH(1) by simp
    show ?case unfolding step
    proof (intro conjI allI)
      show "length (f ?b k) = 2 * n" using IH(1) by (simp add: f_def)
      fix l
      have lk: "even l \<and> Variable l = k \<longleftrightarrow> l = 2 * k" by (auto simp: Variable_def)
      show "f ?b k ! l = (if even l \<and> Variable l < Suc k \<and> \<not> Assignment_LiteralIsAssigned a l then True else a ! l)"
      proof (cases "l = 2 * k")
        case True
        then show ?thesis using ass IH(2)[of l] lt v2 by (simp add: f_def AssignFromTrueLiteral_def)
      next
        case False
        then have "f ?b k ! l = ?b ! l" by (simp add: f_def AssignFromTrueLiteral_def)
        moreover have "even l \<Longrightarrow> Variable l \<noteq> k" using False lk by blast
        ultimately show ?thesis unfolding IH(2) by (auto simp: less_Suc_eq)
      qed
    qed
  qed (use assms(1) in simp)
  have n: "length a div 2 = n" using assms(1) by simp
  have u: "length (assign_unassigned a) = 2 * n"
    "\<And>l. assign_unassigned a ! l = (if even l \<and> Variable l < n \<and> \<not> Assignment_LiteralIsAssigned a l then True else a ! l)"
    using fold[of n] unfolding assign_unassigned_def n f_def by simp_all
  show "\<And>l. l < 2 * n \<Longrightarrow> Assignment_LiteralIsAssigned a l \<Longrightarrow> assign_unassigned a ! l = a ! l" using u(2) by simp
  have "assign_unassigned a ! Negated l \<longleftrightarrow> \<not> assign_unassigned a ! l" if l: "l < 2 * n" for l
  proof -
    have v: "Variable l < n" using l by (simp add: Variable_less)
    then have two: "\<not> (a ! (2 * Variable l) \<and> a ! (2 * Variable l + 1))" using assms(2) by blast
    have nl: "\<not> (a ! l \<and> a ! Negated l)"
      using two by (cases "even l") (auto simp: Variable_def Negated_eq elim!: oddE)
    have e: "even (Negated l) \<longleftrightarrow> odd l" by (auto simp: Negated_eq)
    have s: "Assignment_LiteralIsAssigned a (Negated l) = Assignment_LiteralIsAssigned a l"
      by (auto simp: Assignment_LiteralIsAssigned_def)
    show ?thesis using nl v unfolding u(2) e s by (auto simp: Assignment_LiteralIsAssigned_def)
  qed
  then show "complete n (assign_unassigned a)" using u(1) by (simp add: complete_def)
qed

section \<open>From the clauses given to their solution\<close>

definition load_clauses :: "nat \<Rightarrow> sat_parameters \<Rightarrow> literal list list \<Rightarrow> sat_presolver" where
  "load_clauses n params cs = foldl (\<lambda>st c. SatPresolver_AddClause c st) (SetNumVariables n (SatPresolver_init params)) cs"

lemma load_clauses_spec:
  assumes "\<forall>c \<in> set cs. c \<noteq> [] \<and> set c \<subseteq> {..<2 * n}"
  shows "fresh (load_clauses n params cs) \<and> NumVariables (load_clauses n params cs) = n \<and>
    postsolver_adds (load_clauses n params cs) = [] \<and> parameters (load_clauses n params cs) = params \<and>
    (\<forall>v. satisfies v (formula (load_clauses n params cs)) \<longleftrightarrow> (\<forall>c \<in> set cs. holds v c))"
proof -
  let ?s = "SetNumVariables n (SatPresolver_init params)"
  note r = resize_occurrences_spec[OF fresh_init[of params], of "2 * n"]
  have s0: "fresh ?s" "length (literal_to_clause_sizes ?s) = 2 * n" "formula ?s = {}" "postsolver_adds ?s = []"
    "parameters ?s = params" "equiv_mapping ?s = []"
    using r by (simp_all add: SetNumVariables_def SatPresolver_init_def formula_def)
  have "fresh (load_clauses n params cs) \<and> length (literal_to_clause_sizes (load_clauses n params cs)) = 2 * n \<and>
    postsolver_adds (load_clauses n params cs) = [] \<and> parameters (load_clauses n params cs) = params \<and>
    equiv_mapping (load_clauses n params cs) = [] \<and>
    (\<forall>v. satisfies v (formula (load_clauses n params cs)) \<longleftrightarrow> (\<forall>c \<in> set cs. holds v c))"
    using assms
  proof (induction cs rule: rev_induct)
    case Nil
    then show ?case using s0 by (simp add: load_clauses_def satisfies_def)
  next
    case (snoc c cs)
    let ?t = "load_clauses n params cs"
    have IH: "fresh ?t" "length (literal_to_clause_sizes ?t) = 2 * n" "postsolver_adds ?t = []" "parameters ?t = params"
      "equiv_mapping ?t = []" "\<And>v. satisfies v (formula ?t) \<longleftrightarrow> (\<forall>c \<in> set cs. holds v c)" using snoc by auto
    have c: "c \<noteq> []" "set c \<subseteq> {..<2 * n}" using snoc.prems by auto
    note a = SatPresolver_AddClause_spec[OF IH(1) c(1)]
    have m: "mapped_clause (equiv_mapping ?t) c = c" using IH(5) by (simp add: mapped_clause_def)
    have "load_clauses n params (cs @ [c]) = SatPresolver_AddClause c ?t" by (simp add: load_clauses_def)
    moreover have "length (literal_to_clause_sizes (SatPresolver_AddClause c ?t)) = 2 * n"
      using a(7) c(2) IH(2) m by auto
    ultimately show ?case using a(1-5) m IH by auto
  qed
  then show ?thesis by (simp add: NumVariables_def)
qed

text \<open>The variables of the clauses left are the used ones.\<close>

lemma variable_used_literal:
  assumes "valid st" "l \<in> literals st"
  shows "variable_used st (Variable l)" "Variable l < NumVariables st"
proof -
  note v = validD[OF assms(1)]
  obtain i where i: "i < length (sp_clauses st)" "l \<in> set (sp_clauses st ! i)" using assms(2) by (rule literalsE)
  have lr: "l < length (literal_to_clause_sizes st)" by (rule clauses_okD(2)[OF v(2) i])
  then show "Variable l < NumVariables st" using Variable_in_range[OF v(1)] by simp
  have "occ_count l (sp_clauses st) \<noteq> 0" unfolding occ_count_zero using i nth_mem[OF i(1)] by blast
  then have "literal_to_clause_sizes st ! l > 0" using v(6)[OF lr] by (simp add: sizes_ok_def less_le)
  moreover have "l = 2 * Variable l \<or> l = 2 * Variable l + 1" by (auto simp: Variable_def)
  ultimately show "variable_used st (Variable l)" unfolding variable_used_def by metis
qed

theorem postsolve_loaded:
  assumes "valid st" "n \<le> NumVariables st" "initial_num_variables p = n" "po_num_variables p = n" "reverse_mapping p = map Some [0..<n]"
    "po_assignment p = replicate (2 * n) False" "\<forall>(x, c) \<in> set (po_clauses p). x < 2 * n \<and> set c \<subseteq> {..<2 * n}"
    "LoadProblemIntoSatSolver st = (m, loaded, st')" "length sol = m" "\<forall>c \<in> set loaded. holds (\<lambda>v. sol ! v) c"
  shows "\<exists>w full p'. PostsolveSolution sol (ApplyMapping (VariableMapping st) p) = Some (full, p') \<and>
    length full = n \<and> (\<forall>v < n. full ! v = recover (po_clauses p) w v) \<and> satisfies w (formula st) \<and>
    (\<forall>v < NumVariables st. variable_used st v \<longrightarrow> w v = sol ! rank st v)"
proof -
  let ?n = "NumVariables st" and ?us = "used_variables st"
  let ?q = "ApplyMapping (VariableMapping st) p" and ?fresh = "replicate (2 * NumVariables st) False"
  have q: "?q = p\<lparr> reverse_mapping := map Some ?us, po_num_variables := ?n, po_assignment := ?fresh \<rparr>"
    by (rule ApplyMapping_VariableMapping[OF assms(5,4,2,6)])
  have dus: "distinct ?us" "set ?us \<subseteq> {..<?n}" by (auto simp: used_variables_def)
  have "length (filter (\<lambda>index. index \<noteq> None) (VariableMapping st)) = length ?us"
    by (simp add: VariableMapping_eq used_variables_def filter_map o_def)
  then have m: "m = length ?us" and ld: "loaded = map (map (map_literal (VariableMapping st))) (filter (\<lambda>c. c \<noteq> []) (sp_clauses st))"
    using assms(8) by (auto simp: LoadProblemIntoSatSolver_def Let_def)
  have sl: "length sol = length ?us" using assms(9) m by simp
  have "length ?fresh = 2 * ?n" "\<forall>u \<in> set ?us. \<not> ?fresh ! (2 * u) \<and> \<not> ?fresh ! (2 * u + 1)"
    using dus(2) by auto
  from assign_solution_spec[OF dus sl this] obtain a where
    a: "assign_solution (zip sol (map Some ?us)) ?fresh = Some a" "length a = 2 * ?n"
    "\<And>k. k < length ?us \<Longrightarrow> a ! (2 * (?us ! k)) = sol ! k \<and> a ! (2 * (?us ! k) + 1) = (\<not> sol ! k)"
    "\<And>l. Variable l \<notin> set ?us \<Longrightarrow> a ! l = ?fresh ! l" by blast
  have two: "\<forall>v < ?n. \<not> (a ! (2 * v) \<and> a ! (2 * v + 1))"
  proof (intro allI impI)
    fix v assume v: "v < ?n"
    show "\<not> (a ! (2 * v) \<and> a ! (2 * v + 1))"
    proof (cases "v \<in> set ?us")
      case True
      then show ?thesis using a(3) by (auto simp: in_set_conv_nth)
    next
      case False
      then have "a ! (2 * v) = ?fresh ! (2 * v)" by (intro a(4)) (simp add: Variable_def)
      then show ?thesis using v by simp
    qed
  qed
  note u = assign_unassigned_spec[OF a(2) two]
  let ?b = "assign_unassigned a"
  let ?w = "valuation ?b"
  have wu: "?w v = sol ! rank st v" if "v < ?n" "variable_used st v" for v
  proof -
    have k: "rank st v < length ?us" "?us ! rank st v = v"
      using filter_rank[where P = "variable_used st", OF that] by (simp_all add: used_variables_def rank_def)
    have av: "a ! (2 * v) = sol ! rank st v" "a ! (2 * v + 1) = (\<not> sol ! rank st v)" using a(3)[OF k(1)] k(2) by simp_all
    then have "Assignment_LiteralIsAssigned a (2 * v)" by (simp add: Assignment_LiteralIsAssigned_def Negated_eq)
    then show ?thesis using u(2)[of "2 * v"] that(1) av(1) by (simp add: valuation_def)
  qed
  have sat: "satisfies ?w (formula st)" unfolding satisfies_def
  proof
    fix c assume c: "c \<in> formula st"
    then have "map (map_literal (VariableMapping st)) c \<in> set loaded" by (auto simp: ld formula_def)
    then have "holds (\<lambda>v. sol ! v) (map (map_literal (VariableMapping st)) c)" using assms(10) by blast
    then obtain l where l: "l \<in> set c" "lit_true (\<lambda>v. sol ! v) (map_literal (VariableMapping st) l)"
      by (auto simp: holds_def)
    have "l \<in> literals st" using c l(1) by (auto simp: formula_def literals_def)
    note vl = variable_used_literal[OF assms(1) this]
    have "VariableMapping st ! Variable l = Some (rank st (Variable l))" using vl by (simp add: VariableMapping_eq)
    then have "lit_true (\<lambda>v. sol ! v) (map_literal (VariableMapping st) l) \<longleftrightarrow> sol ! rank st (Variable l) = even l"
      by (auto simp: map_literal_def lit_true_def Variable_def)
    then have "lit_true ?w l" using l(2) wu[OF vl(2,1)] by (simp add: lit_true_def)
    then show "holds ?w c" using l(1) by (auto simp: holds_def)
  qed
  let ?f = "foldr postsolve_step (po_clauses p) ?b"
  have "\<forall>(x, c) \<in> set (po_clauses p). x < 2 * ?n \<and> set c \<subseteq> {..<2 * ?n}" using assms(2,7) by fastforce
  from postsolve_recover[OF u(1) this] have pr: "complete ?n ?f" "valuation ?f = recover (po_clauses p) ?w" by simp_all
  have "SatPostsolver_Postsolve ?q a = take (2 * n) ?f" using pr(1) assms(2,3)
    by (simp add: SatPostsolver_Postsolve_def q Assignment_Resize_def resize_list_def complete_def)
  then have run: "PostsolveSolution sol ?q =
      Some (map (\<lambda>v. Assignment_LiteralIsTrue (take (2 * n) ?f) (2 * v)) [0..<n], ?q\<lparr> po_assignment := take (2 * n) ?f \<rparr>)"
    using a(1) sl assms(3) by (simp add: PostsolveSolution_def q Let_def)
  have "map (\<lambda>v. Assignment_LiteralIsTrue (take (2 * n) ?f) (2 * v)) [0..<n] ! v = recover (po_clauses p) ?w v" if "v < n" for v
    using that pr(2)[symmetric] by (simp add: Assignment_LiteralIsTrue_def valuation_def)
  then show ?thesis using run sat wu by auto
qed

lemma recover_untouched:
  assumes "pushes V L Q" "v \<notin> V"
  shows "recover Q w v = w v"
proof -
  have "flip p u v = u v" if "p \<in> set Q" for p u
    using assms that by (auto simp: pushes_def flip_def split: prod.splits)
  then show ?thesis unfolding recover_def by (induction Q) auto
qed

text \<open>A solution of the clauses left is one of the loaded clauses.\<close>

lemma loaded_complete:
  assumes "valid st" "satisfies w (formula st)" "LoadProblemIntoSatSolver st = (m, loaded, st')"
  shows "length (map w (used_variables st)) = m" "\<forall>c \<in> set loaded. holds (\<lambda>v. map w (used_variables st) ! v) c"
proof -
  let ?us = "used_variables st" and ?f = "map_literal (VariableMapping st)"
  have ld: "loaded = map (map ?f) (filter (\<lambda>c. c \<noteq> []) (sp_clauses st))" and
    m: "m = length (filter (\<lambda>index. index \<noteq> None) (VariableMapping st))"
    using assms(3) by (auto simp: LoadProblemIntoSatSolver_def Let_def)
  show "length (map w ?us) = m" unfolding m by (simp add: VariableMapping_eq used_variables_def filter_map o_def)
  show "\<forall>c \<in> set loaded. holds (\<lambda>v. map w ?us ! v) c"
  proof
    fix d assume "d \<in> set loaded"
    then obtain c where c: "c \<in> formula st" "d = map ?f c" by (auto simp: ld formula_def)
    then obtain l where l: "l \<in> set c" "lit_true w l" using assms(2) by (auto simp: satisfies_def holds_def)
    have "l \<in> literals st" using c(1) l(1) by (auto simp: formula_def literals_def)
    note vl = variable_used_literal[OF assms(1) this]
    have k: "rank st (Variable l) < length ?us" "?us ! rank st (Variable l) = Variable l"
      using filter_rank[where P = "variable_used st", OF vl(2,1)] by (simp_all add: used_variables_def rank_def)
    have "VariableMapping st ! Variable l = Some (rank st (Variable l))" using vl by (simp add: VariableMapping_eq)
    then have "lit_true (\<lambda>v. map w ?us ! v) (?f l) \<longleftrightarrow> map w ?us ! rank st (Variable l) = even l"
      by (auto simp: map_literal_def lit_true_def Variable_def)
    then have "lit_true (\<lambda>v. map w ?us ! v) (?f l)" using l(2) k by (simp add: lit_true_def)
    then show "holds (\<lambda>v. map w ?us ! v) d" unfolding c(2) holds_def using l(1) by auto
  qed
qed

end
