(* ===== verification/SatProps.thy ===== *)
theory SatProps
  imports SatRecover
begin

text \<open>
  The properties of the presolve of clauses: a solution of the presolved problem gives a solution of the original
  one, the presolve returns and answers correctly, its two clause operations compute subsumption and
  resolution, and its priority queue is one.
\<close>

section \<open>Examples\<close>

definition sample_parameters :: sat_parameters where
  "sample_parameters = \<lparr> presolve_bve_threshold = 500, presolve_bve_clause_weight = 3, presolve_blocked_clause = True,
     filter_sat_postsolve_clauses = False, presolve_use_bva = True, presolve_bva_threshold = 0 \<rparr>"

definition sample_clauses :: "literal list list" where
  "sample_clauses = [[10, 1], [0, 4], [0, 6], [0, 8], [2, 4], [2, 6], [2, 8]]"

text \<open>Only the last variable may be removed.\<close>

definition sample_removable :: "bool list" where
  "sample_removable = [False, False, False, False, False, True]"

definition sample_run :: "(bool \<times> sat_presolver) option" where
  "sample_run = Presolve (\<lambda>_. False) sample_removable (load_clauses 6 sample_parameters sample_clauses)"

lemma sample_clauses_ok: "\<forall>c \<in> set sample_clauses. c \<noteq> [] \<and> set c \<subseteq> {..<2 * 6}"
  by (simp add: sample_clauses_def)

lemma sample_run_eval:
  "map_option (\<lambda>(ok, st). (ok, fst (LoadProblemIntoSatSolver st), fst (snd (LoadProblemIntoSatSolver st)), postsolver_adds st)) sample_run
     = Some (True, 6, [[0, 10], [2, 10], [4, 11], [6, 11], [8, 11]], [(10, [1, 10])])"
  by code_simp

lemma sample_bva_fits: "bva_fits (\<lambda>_. False) sample_removable (load_clauses 6 sample_parameters sample_clauses)"
  by code_simp

section \<open>The presolve and the postsolve\<close>

text \<open>C10: Clauses over \<open>n\<close> variables are loaded and presolved with success, the pushed clauses are given to the
  postsolver, the variables are mapped and the clauses left are loaded in a solver.  Any solution of the loaded
  clauses is turned by \<open>PostsolveSolution\<close> into a solution of all the original clauses, in which a variable that
  was not allowed to be removed and is still in use has the value that the solver gave it.  This covers the variables
  that \<open>PresolveWithBva\<close> adds: the solver decides them, and the result is one over \<open>n\<close> variables again.\<close>

theorem presolve_postsolve_solution:
  assumes "\<forall>c \<in> set cs. c \<noteq> [] \<and> set c \<subseteq> {..<2 * n}" "mono_clock clock" "\<not> filter_sat_postsolve_clauses params"
    "bva_fits clock can_be_removed (load_clauses n params cs)" "Presolve clock can_be_removed (load_clauses n params cs) = Some (True, st)"
    "LoadProblemIntoSatSolver st = (m, loaded, st')" "length sol = m" "\<forall>c \<in> set loaded. holds (\<lambda>v. sol ! v) c"
  shows "\<exists>p full p'. push_all (postsolver_adds st) (SatPostsolver_init n) = Some p \<and>
    PostsolveSolution sol (ApplyMapping (VariableMapping st) p) = Some (full, p') \<and>
    length full = n \<and> (\<forall>c \<in> set cs. holds (\<lambda>v. full ! v) c) \<and>
    (\<forall>v < n. \<not> can_be_removed ! v \<and> variable_used st v \<longrightarrow> full ! v = sol ! rank st v)"
proof -
  let ?s = "load_clauses n params cs" and ?p = "SatPostsolver_init n"
  have l: "fresh ?s" "NumVariables ?s = n" "postsolver_adds ?s = []" "parameters ?s = params"
    "\<And>v. satisfies v (formula ?s) \<longleftrightarrow> (\<forall>c \<in> set cs. holds v c)" using load_clauses_spec[OF assms(1), of params] by blast+
  obtain Q where st: "valid st" "reduces (problem ?s) (problem st)" "n \<le> NumVariables st"
    "postsolver_adds st = Q" "pushes (removable can_be_removed) (literals ?s) Q"
    using Presolve_spec[OF l(1) assms(2) _ assms(4)] l(2-4) assms(3,5) by auto
  have vs: "valid ?s" using l(1) by (simp add: fresh_def)
  have lits: "literals ?s \<subseteq> {..<2 * n}"
    using variable_used_literal(2)[OF vs] l(2) by (auto simp: Variable_less)
  have rng: "\<forall>(x, c) \<in> set Q. x < 2 * n \<and> set c \<subseteq> {..<2 * n}" using st(5) lits unfolding pushes_def by fast
  have pi: "reverse_mapping ?p = map Some [0..<n]" "initial_num_variables ?p = n" "po_num_variables ?p = n" "po_clauses ?p = []"
    "po_assignment ?p = replicate (2 * n) False" by (simp_all add: SatPostsolver_init_def Assignment_Resize_def resize_list_def)
  let ?q = "?p\<lparr> po_clauses := Q \<rparr>"
  have push: "push_all Q ?p = Some ?q" using push_all_identity[OF pi(1) rng] pi(4) by simp
  obtain w full p' where w: "PostsolveSolution sol (ApplyMapping (VariableMapping st) ?q) = Some (full, p')" "length full = n"
    "\<forall>v < n. full ! v = recover Q w v" "satisfies w (formula st)" "\<forall>v < NumVariables st. variable_used st v \<longrightarrow> w v = sol ! rank st v"
    using postsolve_loaded[OF st(1,3), of ?q m loaded st' sol] pi rng assms(6-8) by auto
  obtain R where R: "postsolver_adds st = postsolver_adds ?s @ R" "\<And>v. satisfies v (formula st) \<Longrightarrow> satisfies (recover R v) (formula ?s)"
    using reduces_sound[OF st(2)] by (auto simp: problem_def)
  have "R = Q" using R(1) l(3) st(4) by simp
  then have "\<forall>c \<in> set cs. holds (recover Q w) c" using R(2)[OF w(4)] l(5) by blast
  moreover have "holds (\<lambda>v. full ! v) c = holds (recover Q w) c" if "c \<in> set cs" for c
  proof (rule holds_cong)
    fix l assume "l \<in> set c"
    then have "Variable l < n" using assms(1) that by (auto simp: Variable_less)
    then show "full ! Variable l = recover Q w (Variable l)" using w(3) by blast
  qed
  moreover have "full ! v = sol ! rank st v" if "v < n" "\<not> can_be_removed ! v" "variable_used st v" for v
  proof -
    have "recover Q w v = w v" using that(2) by (intro recover_untouched[OF st(5)]) (simp add: removable_def)
    then show ?thesis using w(3,5) st(3) that by simp
  qed
  ultimately show ?thesis using push st(4) w(1,2) by blast
qed

theorem presolve_postsolve_solution_witness:
  "\<exists>st p full p'. sample_run = Some (True, st) \<and> push_all (postsolver_adds st) (SatPostsolver_init 6) = Some p \<and>
    PostsolveSolution [True, True, True, True, True, False] (ApplyMapping (VariableMapping st) p) = Some (full, p') \<and>
    length full = 6 \<and> list_all (holds (\<lambda>v. full ! v)) sample_clauses"
proof -
  obtain st where st: "sample_run = Some (True, st)" "fst (LoadProblemIntoSatSolver st) = 6"
    "fst (snd (LoadProblemIntoSatSolver st)) = [[0, 10], [2, 10], [4, 11], [6, 11], [8, 11]]" using sample_run_eval by auto
  then obtain st' where ld: "LoadProblemIntoSatSolver st = (6, [[0, 10], [2, 10], [4, 11], [6, 11], [8, 11]], st')" by (metis prod.collapse)
  have "mono_clock (\<lambda>_. False)" "\<not> filter_sat_postsolve_clauses sample_parameters"
    by (simp_all add: mono_clock_def sample_parameters_def)
  from presolve_postsolve_solution[OF sample_clauses_ok this sample_bva_fits st(1)[unfolded sample_run_def] ld, of "[True, True, True, True, True, False]"]
  obtain p full p' where "push_all (postsolver_adds st) (SatPostsolver_init 6) = Some p"
    "PostsolveSolution [True, True, True, True, True, False] (ApplyMapping (VariableMapping st) p) = Some (full, p')" "length full = 6"
    "\<forall>c \<in> set sample_clauses. holds (\<lambda>v. full ! v) c" by (auto simp: holds_def lit_true_def Variable_def)
  then show ?thesis using st(1) unfolding list_all_iff by blast
qed

text \<open>C11: \<open>Presolve\<close> returns on all loaded clauses, under every clock.  When it returns false, no valuation
  satisfies the clauses; when it returns true and the clauses have a solution, the clauses given to the solver
  have one.  The bounded variable addition ends too: \<open>bva_fits\<close> only says that its threshold is not negative, and
  that there are fewer than 2^30 clauses when it starts.\<close>

theorem Presolve_correct:
  assumes "\<forall>c \<in> set cs. c \<noteq> [] \<and> set c \<subseteq> {..<2 * n}" "mono_clock clock" "\<not> filter_sat_postsolve_clauses params"
    "bva_fits clock can_be_removed (load_clauses n params cs)"
  shows "\<exists>ok st. Presolve clock can_be_removed (load_clauses n params cs) = Some (ok, st) \<and>
    (\<not> ok \<longrightarrow> \<not> (\<exists>v. \<forall>c \<in> set cs. holds v c)) \<and>
    (ok \<longrightarrow> (\<exists>v. \<forall>c \<in> set cs. holds v c) \<longrightarrow>
       (\<exists>sol. length sol = fst (LoadProblemIntoSatSolver st) \<and> (\<forall>c \<in> set (fst (snd (LoadProblemIntoSatSolver st))). holds (\<lambda>v. sol ! v) c)))"
proof -
  let ?s = "load_clauses n params cs"
  have l: "fresh ?s" "parameters ?s = params" "\<And>v. satisfies v (formula ?s) \<longleftrightarrow> (\<forall>c \<in> set cs. holds v c)"
    using load_clauses_spec[OF assms(1), of params] by blast+
  obtain ok st where st: "Presolve clock can_be_removed ?s = Some (ok, st)" "\<not> ok \<longrightarrow> unsat (formula ?s)"
    "ok \<longrightarrow> valid st \<and> reduces (problem ?s) (problem st)"
    using Presolve_spec[OF l(1) assms(2) _ assms(4)] l(2) assms(3) by auto
  have "\<exists>sol. length sol = fst (LoadProblemIntoSatSolver st) \<and> (\<forall>c \<in> set (fst (snd (LoadProblemIntoSatSolver st))). holds (\<lambda>v. sol ! v) c)"
    if h: ok "\<forall>c \<in> set cs. holds v c" for v
  proof -
    obtain w where w: "satisfies w (formula st)"
      using reduces_complete[of "problem ?s" "problem st" v] st(3) h l(3) by (auto simp: problem_def)
    obtain m loaded st' where ld: "LoadProblemIntoSatSolver st = (m, loaded, st')" by (metis prod_cases3)
    have vst: "valid st" using st(3) h(1) by blast
    show ?thesis unfolding ld fst_conv snd_conv
      by (rule exI[of _ "map w (used_variables st)"]) (use loaded_complete[OF vst w ld] in blast)
  qed
  then show ?thesis using st(1,2) l(3) unfolding unsat_def by blast
qed

theorem Presolve_correct_witness:
  "\<exists>st. Presolve (\<lambda>_. False) [True] (load_clauses 1 sample_parameters [[0], [1]]) = Some (False, st) \<and>
    \<not> (\<exists>v. list_all (holds v) [[0 :: literal], [1]])"
proof -
  have e: "map_option fst (Presolve (\<lambda>_. False) [True] (load_clauses 1 sample_parameters [[0], [1]])) = Some False" by code_simp
  have b: "bva_fits (\<lambda>_. False) [True] (load_clauses 1 sample_parameters [[0], [1]])" by code_simp
  have "\<forall>c \<in> set [[0 :: literal], [1]]. c \<noteq> [] \<and> set c \<subseteq> {..<2 * 1}" "mono_clock (\<lambda>_. False)"
    "\<not> filter_sat_postsolve_clauses sample_parameters"
    by (auto simp: mono_clock_def sample_parameters_def)
  from Presolve_correct[OF this b] obtain ok st where
    "Presolve (\<lambda>_. False) [True] (load_clauses 1 sample_parameters [[0], [1]]) = Some (ok, st)"
    "\<not> ok \<longrightarrow> \<not> (\<exists>v. \<forall>c \<in> set [[0 :: literal], [1]]. holds v c)" by blast
  with e show ?thesis unfolding list_all_iff by auto
qed

section \<open>The clause operations\<close>

text \<open>C12: On sorted clauses without opposite literals, \<open>SimplifyClause\<close> answers false exactly when \<open>a\<close> neither
  subsumes \<open>b\<close> nor does so but for one literal that is negated in \<open>b\<close>; in the second case \<open>b\<close> loses that literal
  and no more, stays sorted, and still follows from the two clauses.\<close>

theorem SimplifyClause_correct:
  assumes "good_clause a" "good_clause b"
  shows "(SimplifyClause a b = None \<longleftrightarrow> \<not> set a \<subseteq> set b \<and> \<not> (\<exists>y. strengthens a y b)) \<and>
    (\<forall>b'. SimplifyClause a b = Some (None, b') \<longrightarrow> b' = b \<and> set a \<subseteq> set b) \<and>
    (\<forall>y b'. SimplifyClause a b = Some (Some y, b') \<longrightarrow> strengthens a y b \<and> good_clause b' \<and> set b' = set b - {y} \<and>
       (\<forall>v. holds v a \<and> holds v b \<longrightarrow> holds v b'))"
  using assms
proof (cases rule: SimplifyClause_cases)
  case (strengthened y)
  have "set (remove1 y b) = set b - {y}" using good_distinct[OF assms(2)] by simp
  moreover have "set (resolvent y b a) \<subseteq> set b - {y}" using strengthened(2) by (auto simp: strengthens_def resolvent_def)
  then have "holds v a \<and> holds v b \<longrightarrow> (\<exists>l \<in> set b - {y}. lit_true v l)" for v
    using holds_resolvent[of v b a y] unfolding holds_def by blast
  ultimately show ?thesis using strengthened good_remove1[OF assms(2)] by (auto simp: holds_def)
qed auto

theorem SimplifyClause_correct_witness:
  "SimplifyClause [1, 4] [0, 3, 4] = Some (Some 0, [3, 4]) \<and>
   \<not> (\<exists>v. holds v [1, 4] \<and> holds v [0, 3, 4] \<and> \<not> holds v [3, 4])"
proof -
  have e: "SimplifyClause [1, 4] [0, 3, 4] = Some (Some 0, [3, 4])" by code_simp
  have "good_clause [1, 4]" "good_clause [0, 3, 4]" by (simp_all add: good_clause_def Negated_eq)
  from SimplifyClause_correct[OF this] e show ?thesis by blast
qed

text \<open>C13: \<open>ComputeResolvant\<close> on a literal of \<open>a\<close> whose negation is in \<open>b\<close> answers false exactly when the resolvent
  is trivially true; otherwise it computes the sorted resolvent, which follows from the two clauses.
  \<open>ComputeResolvantSize\<close> is its size, or -1.\<close>

theorem ComputeResolvant_correct:
  assumes "good_clause a" "good_clause b" "x \<in> set a" "Negated x \<in> set b"
  shows "case ComputeResolvant x a b of
      None \<Rightarrow> ComputeResolvantSize x a b = - 1 \<and> (\<exists>l. l \<noteq> x \<and> l \<in> set a \<and> Negated l \<in> set b)
    | Some c \<Rightarrow> ComputeResolvantSize x a b = int (length c) \<and> good_clause c \<and>
        set c = (set a - {x}) \<union> (set b - {Negated x}) \<and> (\<forall>v. holds v a \<and> holds v b \<longrightarrow> holds v c)"
proof (cases "ComputeResolvant x a b")
  case None
  have "clash x a b" using ComputeResolvant_None_iff[OF assms(1,2)] None by blast
  then have "ComputeResolvantSize x a b = - 1" "\<exists>l. l \<noteq> x \<and> l \<in> set a \<and> Negated l \<in> set b"
    using ComputeResolvantSize_None[OF assms(1,2)] None by (simp_all only: clash_def)
  then show ?thesis unfolding None option.case by blast
next
  case (Some c)
  note r = ComputeResolvant_Some[OF assms Some]
  have "holds v a \<and> holds v b \<longrightarrow> holds v c" for v
    using holds_resolvent[of v a b x] r(2) by (auto simp: holds_def resolvent_def)
  then show ?thesis using r Some by simp
qed

theorem ComputeResolvant_correct_witness:
  "ComputeResolvant 0 [0, 2] [1, 5] = Some [2, 5] \<and> ComputeResolvantSize 0 [0, 2] [1, 5] = 2 \<and>
   \<not> (\<exists>v. holds v [0, 2] \<and> holds v [1, 5] \<and> \<not> holds v [2, 5])"
proof -
  have e: "ComputeResolvant 0 [0, 2] [1, 5] = Some [2, 5]" by code_simp
  have "good_clause [0, 2]" "good_clause [1, 5]" "0 \<in> set [0 :: literal, 2]" "Negated 0 \<in> set [1, 5]"
    by (simp_all add: good_clause_def Negated_eq)
  from ComputeResolvant_correct[OF this] e show ?thesis by simp
qed

section \<open>The priority queue\<close>

text \<open>C14: Over a strict weak order, the operations of \<open>AdjustablePriorityQueue\<close> on a valid queue keep it valid and
  change its elements as they should: \<open>Add\<close>, \<open>Remove\<close> and \<open>Pop\<close>, and \<open>NoteChangedPriority\<close> after the priority of
  one element has changed.  No element is above the top, and \<open>AllTop\<close> returns exactly the greatest elements.\<close>

theorem AdjustablePriorityQueue_correct:
  assumes "strict_weak_order lower" "valid_queue lower q"
  shows "CheckValid lower q \<and>
    (\<forall>e. e \<notin> set (pq_elems q) \<longrightarrow> valid_queue lower (pq_Add lower e q) \<and> mset (pq_elems (pq_Add lower e q)) = add_mset e (mset (pq_elems q))) \<and>
    (\<forall>e \<in> set (pq_elems q). valid_queue lower (pq_Remove lower e q) \<and> mset (pq_elems (pq_Remove lower e q)) = mset (pq_elems q) - {#e#}) \<and>
    (\<forall>e. pq_Contains e q \<longleftrightarrow> e \<in> set (pq_elems q)) \<and>
    (\<forall>e lower'. e \<in> set (pq_elems q) \<and> strict_weak_order lower' \<and> (\<forall>a b. a \<noteq> e \<and> b \<noteq> e \<longrightarrow> lower' a b = lower a b) \<longrightarrow>
       valid_queue lower' (NoteChangedPriority lower' e q) \<and> mset (pq_elems (NoteChangedPriority lower' e q)) = mset (pq_elems q)) \<and>
    (\<forall>e \<in> set (pq_elems q). \<not> lower (pq_Top q) e \<and> valid_queue lower (pq_Pop lower q) \<and>
       mset (pq_elems (pq_Pop lower q)) = mset (pq_elems q) - {#pq_Top q#}) \<and>
    (\<exists>tops. AllTop lower q = Some tops \<and> set tops = {e \<in> set (pq_elems q). \<forall>e' \<in> set (pq_elems q). \<not> lower e e'})"
proof -
  note order = assms(1) and valid = assms(2)
  have "indexed q" and c: "CheckValid lower q" using valid by (simp_all add: valid_queue_def CheckValid_iff)
  then have contains: "\<forall>e. pq_Contains e q \<longleftrightarrow> e \<in> set (pq_elems q)"
    by (intro allI strict_weak_order.pq_Contains_iff[OF order])
  have top: "pq_Top q \<in> set (pq_elems q)" if "e \<in> set (pq_elems q)" for e
    using that by (cases "pq_elems q") (simp_all add: pq_Top_def)
  note add = strict_weak_order.pq_Add_spec[OF order valid] and remove = strict_weak_order.pq_Remove_spec[OF order valid]
    and greatest = strict_weak_order.pq_Top_greatest[OF order valid]
  have pop: "\<forall>e \<in> set (pq_elems q). \<not> lower (pq_Top q) e \<and> valid_queue lower (pq_Pop lower q) \<and>
       mset (pq_elems (pq_Pop lower q)) = mset (pq_elems q) - {#pq_Top q#}"
    using greatest remove[OF top] by (simp add: pq_Pop_def)
  have changed: "valid_queue lower' (NoteChangedPriority lower' e q) \<and> mset (pq_elems (NoteChangedPriority lower' e q)) = mset (pq_elems q)"
    if h: "e \<in> set (pq_elems q)" "strict_weak_order lower'" "\<forall>a b. a \<noteq> e \<and> b \<noteq> e \<longrightarrow> lower' a b = lower a b" for e lower'
    using NoteChangedPriority_valid[OF order h(2) valid h(1)] h(3) by simp
  show ?thesis using c contains add remove changed pop strict_weak_order.AllTop_spec[OF order valid] by blast
qed

theorem AdjustablePriorityQueue_correct_witness:
  "pq_elems (pq_Pop (<) (fold (pq_Add (<)) [3, 1, 2 :: nat] pq_empty)) = [2, 1] \<and>
   valid_queue (<) (pq_Pop (<) (fold (pq_Add (<)) [3, 1, 2 :: nat] pq_empty)) \<and>
   \<not> pq_Top (fold (pq_Add (<)) [3, 1, 2 :: nat] pq_empty) < 3"
proof -
  let ?q = "fold (pq_Add (<)) [3, 1, 2 :: nat] pq_empty"
  have e: "pq_elems ?q = [3, 1, 2]" "pq_elems (pq_Pop (<) ?q) = [2, 1]" "map (heap_index ?q) [3, 1, 2] = [0, 1, 2]"
    "CheckValid (<) ?q" by code_simp+
  have "strict_weak_order ((<) :: nat \<Rightarrow> nat \<Rightarrow> bool)" by unfold_locales auto
  moreover have "valid_queue (<) ?q"
    using e(1,3,4) unfolding CheckValid_iff by (simp add: valid_queue_def indexed_def less_Suc_eq numeral_3_eq_3)
  ultimately show ?thesis using AdjustablePriorityQueue_correct[of "(<)" ?q] e(1,2) by simp
qed

end
